(* ===== verification/Prelude.thy ===== *)
theory Prelude
  imports Main "HOL-Library.Multiset"
begin

text \<open>
  Shared vocabulary of the development: database tables as lists of rows with the queries
  the Go code issues through gorm (a filtered lookup, a filtered update, a filtered count),
  time as an integer number of nanoseconds, and the generic lemmas on lists and options
  that the components use.
\<close>

named_theorems table_simps \<open>queries after updates\<close>
named_theorems row_keys \<open>row updates that keep the primary key\<close>

type_synonym time = int

text \<open>Durations are Go's \<open>time.Duration\<close>: nanoseconds.\<close>

definition second :: int where
  "second = 1000000000"

definition minute :: int where
  "minute = 60 * second"

subsection \<open>Error results\<close>

text \<open>
  A Go function that returns \<open>(T, error)\<close> returns \<open>Inl e\<close> or \<open>Inr t\<close> here. \<open>tx_bind\<close> is the
  \<open>if err != nil { return err }\<close> that follows such a call.
\<close>

definition tx_bind :: "'e + 'a \<Rightarrow> ('a \<Rightarrow> 'e + 'b) \<Rightarrow> 'e + 'b" where
  "tx_bind m f = (case m of Inl e \<Rightarrow> Inl e | Inr a \<Rightarrow> f a)"

lemma tx_bind_simps [simp]:
  "tx_bind (Inl e) f = Inl e"
  "tx_bind (Inr a) f = f a"
  by (simp_all add: tx_bind_def)

lemma tx_bind_Inr_iff: "tx_bind m f = Inr b \<longleftrightarrow> (\<exists>a. m = Inr a \<and> f a = Inr b)"
  by (cases m) auto

lemma tx_bind_Inl_iff:
  "tx_bind m f = Inl e \<longleftrightarrow> m = Inl e \<or> (\<exists>a. m = Inr a \<and> f a = Inl e)"
  by (cases m) auto

lemma find_SomeD: "find P xs = Some x \<Longrightarrow> x \<in> set xs \<and> P x"
  by (induction xs) (auto split: if_splits)

definition first_where :: "'e \<Rightarrow> ('r \<Rightarrow> bool) \<Rightarrow> 'r list \<Rightarrow> 'e + 'r" where
  "first_where e P t = (case find P t of None \<Rightarrow> Inl e | Some r \<Rightarrow> Inr r)"

lemma first_where_InrD: "first_where e P t = Inr r \<Longrightarrow> r \<in> set t \<and> P r"
  by (auto simp: first_where_def split: option.splits dest: find_SomeD)

lemma first_where_Inl_iff: "first_where e P t = Inl e' \<longleftrightarrow> e' = e \<and> (\<forall>r \<in> set t. \<not> P r)"
  by (auto simp: first_where_def find_None_iff split: option.splits dest: find_SomeD)

subsection \<open>Tables\<close>

text \<open>
  \<open>upd_where P f t\<close> is \<open>UPDATE t SET f WHERE P\<close>; \<open>find P t\<close> is \<open>SELECT ... WHERE P LIMIT 1\<close>
  and \<open>filter P t\<close> is \<open>SELECT ... WHERE P\<close>.
\<close>

definition upd_where :: "('r \<Rightarrow> bool) \<Rightarrow> ('r \<Rightarrow> 'r) \<Rightarrow> 'r list \<Rightarrow> 'r list" where
  "upd_where P f t = map (\<lambda>r. if P r then f r else r) t"

definition count_where :: "('r \<Rightarrow> bool) \<Rightarrow> 'r list \<Rightarrow> nat" where
  "count_where P t = length (filter P t)"

lemma upd_where_Nil [simp]: "upd_where P f [] = []"
  by (simp add: upd_where_def)

lemma upd_where_Cons [simp]:
  "upd_where P f (r # t) = (if P r then f r else r) # upd_where P f t"
  by (simp add: upd_where_def)

lemma length_upd_where [simp]: "length (upd_where P f t) = length t"
  by (simp add: upd_where_def)

lemma set_upd_where:
  "set (upd_where P f t) = f ` {r \<in> set t. P r} \<union> {r \<in> set t. \<not> P r}"
  by (induction t) auto

lemma upd_where_id: "(\<And>r. r \<in> set t \<Longrightarrow> \<not> P r) \<Longrightarrow> upd_where P f t = t"
  by (induction t) auto

lemma map_key_upd_where:
  "(\<And>r. key (f r) = key r) \<Longrightarrow> map key (upd_where P f t) = map key t"
  by (induction t) auto

lemma distinct_upd_where [intro]:
  "distinct (map key t) \<Longrightarrow> (\<And>r. key (f r) = key r) \<Longrightarrow> distinct (map key (upd_where P f t))"
  by (simp add: map_key_upd_where)

lemma filter_upd_where_kept:
  "(\<And>r. r \<in> set t \<Longrightarrow> P r \<Longrightarrow> Q (f r) = Q r) \<Longrightarrow>
   filter Q (upd_where P f t) = upd_where P f (filter Q t)"
  by (induction t) auto

lemma filter_upd_where_same:
  "(\<And>r. r \<in> set t \<Longrightarrow> P r \<Longrightarrow> \<not> Q r \<and> \<not> Q (f r)) \<Longrightarrow>
   filter Q (upd_where P f t) = filter Q t"
  by (induction t) auto

lemma filter_upd_where_out:
  "(\<And>r. r \<in> set t \<Longrightarrow> P r \<Longrightarrow> \<not> Q (f r)) \<Longrightarrow>
   filter Q (upd_where P f t) = filter (\<lambda>r. Q r \<and> \<not> P r) t"
  by (induction t) auto

lemma length_filter_upd_where_le:
  "(\<And>r. r \<in> set t \<Longrightarrow> P r \<Longrightarrow> Q (f r) \<Longrightarrow> Q r) \<Longrightarrow>
   length (filter Q (upd_where P f t)) \<le> length (filter Q t)"
  by (induction t) (auto simp: le_SucI)

lemma find_NoneD: "find P xs = None \<Longrightarrow> x \<in> set xs \<Longrightarrow> \<not> P x"
  by (simp add: find_None_iff)

lemma find_key_unique:
  assumes "distinct (map key t)" and "r \<in> set t" and "\<And>x. x \<in> set t \<Longrightarrow> P x \<longleftrightarrow> key x = key r"
  shows "find P t = Some r"
  using assms
proof (induction t)
  case Nil
  then show ?case by simp
next
  case (Cons a t)
  show ?case
  proof (cases "a = r")
    case True
    then show ?thesis using Cons.prems(3)[of a] by simp
  next
    case False
    with Cons.prems have r: "r \<in> set t" by simp
    with Cons.prems(1) have "key a \<noteq> key r" by force
    with Cons.prems(3)[of a] have "\<not> P a" by simp
    with Cons.IH[OF _ r] Cons.prems show ?thesis by simp
  qed
qed

lemma distinct_key_inj:
  "distinct (map key t) \<Longrightarrow> x \<in> set t \<Longrightarrow> y \<in> set t \<Longrightarrow> key x = key y \<Longrightarrow> x = y"
  by (auto simp: distinct_map inj_on_def)

lemma length_filter_le_1D:
  "length (filter P xs) \<le> 1 \<Longrightarrow> distinct xs \<Longrightarrow> x \<in> set xs \<Longrightarrow> P x \<Longrightarrow> y \<in> set xs \<Longrightarrow> P y \<Longrightarrow> x = y"
proof (induction xs)
  case Nil
  then show ?case by simp
next
  case (Cons a xs)
  have no: "z \<notin> set xs" if "P a" "P z" for z
  proof
    assume "z \<in> set xs"
    with that have "z \<in> set (filter P xs)" by simp
    then have "0 < length (filter P xs)" by (simp only: length_pos_if_in_set)
    with Cons.prems(1) that(1) show False by simp
  qed
  show ?case
    using Cons no by (auto split: if_splits)
qed

lemma filter_key_le_1:
  "distinct (map key t) \<Longrightarrow> (\<And>x. x \<in> set t \<Longrightarrow> Q x \<Longrightarrow> key x = k) \<Longrightarrow> length (filter Q t) \<le> 1"
proof (induction t)
  case Nil
  then show ?case by simp
next
  case (Cons a t)
  show ?case
  proof (cases "Q a")
    case True
    then have "\<not> Q x" if "x \<in> set t" for x
      using that Cons.prems by (metis distinct.simps(2) image_eqI list.set_intros list.simps(9) set_map)
    then have "filter Q t = []" by (simp add: filter_empty_conv)
    with True show ?thesis by simp
  next
    case False
    with Cons show ?thesis by simp
  qed
qed

lemma upd_where_hit: "x \<in> set t \<Longrightarrow> P x \<Longrightarrow> f x \<in> set (upd_where P f t)"
  unfolding set_upd_where by blast

lemma upd_where_miss: "x \<in> set t \<Longrightarrow> \<not> P x \<Longrightarrow> x \<in> set (upd_where P f t)"
  unfolding set_upd_where by blast

lemma find_upd_where:
  "(\<And>x. Q x \<Longrightarrow> P (f x) = P x) \<Longrightarrow>
   find P (upd_where Q f t) = map_option (\<lambda>x. if Q x then f x else x) (find P t)"
  by (induction t) auto

end
