(* ===== verification/GoText.thy ===== *)
theory GoText
  imports Prelude "HOL-Library.List_Lexorder" "HOL-Library.Char_ord"
begin

text \<open>
  The functions of Go's \<open>strings\<close> and \<open>strconv\<close> packages that the modelled code calls, on
  strings as lists of bytes (UTF-8, as Go stores them): \<open>TrimSpace\<close>, \<open>ToLower\<close> and
  \<open>EqualFold\<close> as far as their results are compared with ASCII text, and decimal \<open>Itoa\<close>.
\<close>

subsection \<open>TrimSpace\<close>

text \<open>The UTF-8 encodings of the runes that \<open>unicode.IsSpace\<close> accepts.\<close>

definition go_spaces :: "string list" where
  "go_spaces =
     [[CHR 0x09], [CHR 0x0A], [CHR 0x0B], [CHR 0x0C], [CHR 0x0D], [CHR 0x20],
      [CHR 0xC2, CHR 0x85], [CHR 0xC2, CHR 0xA0], [CHR 0xE1, CHR 0x9A, CHR 0x80],
      [CHR 0xE2, CHR 0x80, CHR 0x80], [CHR 0xE2, CHR 0x80, CHR 0x81],
      [CHR 0xE2, CHR 0x80, CHR 0x82], [CHR 0xE2, CHR 0x80, CHR 0x83],
      [CHR 0xE2, CHR 0x80, CHR 0x84], [CHR 0xE2, CHR 0x80, CHR 0x85],
      [CHR 0xE2, CHR 0x80, CHR 0x86], [CHR 0xE2, CHR 0x80, CHR 0x87],
      [CHR 0xE2, CHR 0x80, CHR 0x88], [CHR 0xE2, CHR 0x80, CHR 0x89],
      [CHR 0xE2, CHR 0x80, CHR 0x8A], [CHR 0xE2, CHR 0x80, CHR 0xA8],
      [CHR 0xE2, CHR 0x80, CHR 0xA9], [CHR 0xE2, CHR 0x80, CHR 0xAF],
      [CHR 0xE2, CHR 0x81, CHR 0x9F], [CHR 0xE3, CHR 0x80, CHR 0x80]]"

text \<open>Width in bytes of the space a string starts with, 0 if it starts with none.\<close>

definition space_width :: "string list \<Rightarrow> string \<Rightarrow> nat" where
  "space_width sps s = (case find (\<lambda>p. take (length p) s = p) sps of None \<Rightarrow> 0 | Some p \<Rightarrow> length p)"

fun trim_by :: "(string \<Rightarrow> nat) \<Rightarrow> string \<Rightarrow> string" where
  "trim_by w [] = []"
| "trim_by w (c # cs) = (case w (c # cs) of 0 \<Rightarrow> c # cs | Suc n \<Rightarrow> trim_by w (drop n cs))"

definition trim_space :: "string \<Rightarrow> string" where
  "trim_space s =
     rev (trim_by (space_width (map rev go_spaces)) (rev (trim_by (space_width go_spaces) s)))"

lemma trim_by_suffix: "\<exists>p. s = p @ trim_by w s"
proof (induction w s rule: trim_by.induct)
  case (1 w)
  show ?case by simp
next
  case (2 w c cs)
  show ?case
  proof (cases "w (c # cs)")
    case 0
    then show ?thesis by simp
  next
    case (Suc n)
    with 2 obtain p where "drop n cs = p @ trim_by w (drop n cs)" by blast
    then have "c # cs = (c # take n cs @ p) @ trim_by w (drop n cs)"
      by (metis append_Cons append_assoc append_take_drop_id)
    with Suc show ?thesis by (intro exI[of _ "c # take n cs @ p"]) simp
  qed
qed

lemma trim_by_stops: "trim_by w s = [] \<or> w (trim_by w s) = 0"
  by (induction w s rule: trim_by.induct) (auto split: nat.splits)

lemma trim_by_id: "s = [] \<or> w s = 0 \<Longrightarrow> trim_by w s = s"
  by (cases s) auto

lemma trim_by_idem: "trim_by w (trim_by w s) = trim_by w s"
  using trim_by_stops[of w s] by (rule trim_by_id)

text \<open>A nonempty prefix of a string that starts with no space starts with none either.\<close>

lemma space_width_prefix:
  assumes "space_width sps (u @ v) = 0" and "[] \<notin> set sps"
  shows "space_width sps u = 0"
proof (cases "find (\<lambda>p. take (length p) u = p) sps")
  case None
  then show ?thesis by (simp add: space_width_def)
next
  case (Some p)
  then have p: "p \<in> set sps" "take (length p) u = p" by (auto dest: find_SomeD)
  then have "length p \<le> length u" by (metis length_take min.cobounded1 min_def)
  with p have "take (length p) (u @ v) = p" by simp
  with p(1) obtain q where "find (\<lambda>p. take (length p) (u @ v) = p) sps = Some q" "q \<in> set sps"
    by (metis (mono_tags, lifting) find_None_iff find_SomeD option.exhaust)
  with assms show ?thesis by (auto simp: space_width_def)
qed

lemma trim_space_idem [simp]: "trim_space (trim_space s) = trim_space s"
proof -
  let ?l = "space_width go_spaces" and ?r = "space_width (map rev go_spaces)"
  define t where "t = trim_by ?l s"
  define u where "u = trim_by ?r (rev t)"
  obtain p where "rev t = p @ u" using trim_by_suffix u_def by blast
  then have t: "t = rev u @ rev p" by (metis rev_append rev_rev_ident)
  have "[] \<notin> set go_spaces" by (simp add: go_spaces_def)
  then have "rev u = [] \<or> ?l (rev u) = 0"
    using trim_by_stops[of ?l s] t space_width_prefix[of go_spaces "rev u" "rev p"]
    by (auto simp: t_def)
  then have "trim_by ?l (rev u) = rev u" by (rule trim_by_id)
  moreover have "trim_by ?r u = u" by (simp add: u_def trim_by_idem)
  ultimately show ?thesis by (simp add: trim_space_def u_def t_def)
qed

lemma trim_space_Nil [simp]: "trim_space [] = []"
  by (simp add: trim_space_def)

subsection \<open>ToLower and EqualFold\<close>

text \<open>
  ASCII letters, and the two other runes that fold to ASCII letters: \<open>U+0130\<close> lowers to \<open>i\<close>
  and \<open>U+212A\<close> (Kelvin) to \<open>k\<close>. Every other rune stays outside ASCII, so a comparison with
  ASCII text has the same answer as in Go.
\<close>

definition ascii_lower :: "char \<Rightarrow> char" where
  "ascii_lower c = (if 65 \<le> (of_char c :: nat) \<and> of_char c \<le> (90 :: nat)
                    then char_of (of_char c + 32 :: nat) else c)"

fun to_lower :: "string \<Rightarrow> string" where
  "to_lower (a # b # c # cs) =
     (if a = CHR 0xC4 \<and> b = CHR 0xB0 then CHR ''i'' # to_lower (c # cs)
      else if a = CHR 0xE2 \<and> b = CHR 0x84 \<and> c = CHR 0xAA then CHR ''k'' # to_lower cs
      else ascii_lower a # to_lower (b # c # cs))"
| "to_lower [a, b] = (if a = CHR 0xC4 \<and> b = CHR 0xB0 then ''i'' else [ascii_lower a, ascii_lower b])"
| "to_lower [a] = [ascii_lower a]"
| "to_lower [] = []"

text \<open>
  \<open>EqualFold\<close> folds the Kelvin sign with \<open>k\<close> and \<open>U+017F\<close> with \<open>s\<close>; case pairs outside ASCII are
  compared as they are.
\<close>

fun fold_text :: "string \<Rightarrow> string" where
  "fold_text (a # b # c # cs) =
     (if a = CHR 0xC5 \<and> b = CHR 0xBF then CHR ''s'' # fold_text (c # cs)
      else if a = CHR 0xE2 \<and> b = CHR 0x84 \<and> c = CHR 0xAA then CHR ''k'' # fold_text cs
      else ascii_lower a # fold_text (b # c # cs))"
| "fold_text [a, b] = (if a = CHR 0xC5 \<and> b = CHR 0xBF then ''s'' else [ascii_lower a, ascii_lower b])"
| "fold_text [a] = [ascii_lower a]"
| "fold_text [] = []"

definition equal_fold :: "string \<Rightarrow> string \<Rightarrow> bool" where
  "equal_fold s t \<longleftrightarrow> fold_text s = fold_text t"

lemma equal_fold_refl [simp]: "equal_fold s s"
  by (simp add: equal_fold_def)

subsection \<open>Decimal integers\<close>

fun digits :: "nat \<Rightarrow> string" where
  "digits n = (if n < 10 then [char_of (48 + n)] else digits (n div 10) @ [char_of (48 + n mod 10)])"

declare digits.simps [simp del]

definition itoa :: "int \<Rightarrow> string" where
  "itoa i = (if i < 0 then CHR ''-'' # digits (nat (- i)) else digits (nat i))"

end
