(* ===== verification/CoordStore.thy ===== *)
theory CoordStore
  imports GoText "HOL-Library.Product_Lexorder"
begin

text \<open>
  The revision ledger of the control plane (\<open>storage/sqlite_models.go\<close>,
  \<open>storage/revision_coordinator.go\<close>): its rows, the database as one table per row type, and
  the transaction-scoped helpers that the coordinator's operations share. A transaction body
  is a function from the database to an error or a result with the new database;
  \<open>commit\<close> is \<open>writeTransaction\<close>, which keeps the old database on an error.
\<close>

subsection \<open>Rows\<close>

datatype revision_state = RevPending | RevApplying | RevApplied | RevFailed | RevSuperseded
datatype drain_state = NoDrain | Draining | Drained | Forced
datatype attempt_state =
  AttLeased | AttStarted | AttApplied | AttFailed | AttSuperseded | AttExpiredUnstarted
datatype generation_state = GenActive | GenDraining | GenDrained | GenForced
datatype operation_status = OpPending | OpApplying | OpApplied | OpFailed | OpSuperseded

fun revision_state_text :: "revision_state \<Rightarrow> string" where
  "revision_state_text RevPending = ''pending''"
| "revision_state_text RevApplying = ''applying''"
| "revision_state_text RevApplied = ''applied''"
| "revision_state_text RevFailed = ''failed''"
| "revision_state_text RevSuperseded = ''superseded''"

fun drain_state_text :: "drain_state \<Rightarrow> string" where
  "drain_state_text NoDrain = ''''"
| "drain_state_text Draining = ''draining''"
| "drain_state_text Drained = ''drained''"
| "drain_state_text Forced = ''forced''"

record operation_row =
  op_id :: string
  op_kind :: string
  op_status :: operation_status
  op_primary_agent_id :: string
  op_request_fingerprint :: string
  op_no_op :: bool
  op_error_code :: string
  op_error_message :: string
  op_created_at :: time
  op_updated_at :: time
  op_completed_at :: "time option"

record agent_revision =
  rv_agent_id :: string
  rv_revision :: int
  rv_operation_id :: string
  rv_state :: revision_state
  rv_snapshot_artifact_id :: string
  rv_snapshot_digest :: string
  rv_desired_version :: string
  rv_apply_timeout_seconds :: int
  rv_drain_timeout_seconds :: int
  rv_retry_cycle :: int
  rv_attempt_count :: int
  rv_next_attempt_at :: "time option"
  rv_generation_id :: string
  rv_runtime_generation_id :: string
  rv_runtime_snapshot_hash :: string
  rv_drain_state :: drain_state
  rv_error_code :: string
  rv_error_message :: string
  rv_legacy_baseline :: bool
  rv_created_at :: time
  rv_updated_at :: time
  rv_applied_at :: "time option"
  rv_failed_at :: "time option"

record revision_pointer =
  pt_agent_id :: string
  pt_desired_revision :: int
  pt_applied_revision :: int
  pt_last_known_good_revision :: int
  pt_updated_at :: time

record revision_attempt =
  at_agent_id :: string
  at_revision :: int
  at_retry_cycle :: int
  at_attempt :: int
  at_lease_id :: string
  at_state :: attempt_state
  at_started_at :: time
  at_deadline_at :: time
  at_finished_at :: "time option"
  at_error_code :: string
  at_error :: string

record agent_generation =
  gn_agent_id :: string
  gn_generation_id :: string
  gn_revision :: int
  gn_state :: generation_state
  gn_session_count :: int
  gn_forced :: bool
  gn_force_reason :: string
  gn_created_at :: time
  gn_updated_at :: time
  gn_drained_at :: "time option"

text \<open>The values of an event's JSON payload; the payload is kept as its list of members.\<close>

datatype json_value = JInt int | JText string | JTime time | JBool bool

record revision_event =
  ev_id :: nat
  ev_operation_id :: string
  ev_agent_id :: string
  ev_revision :: int
  ev_event_type :: string
  ev_payload :: "(string \<times> json_value) list"
  ev_created_at :: time

record artifact_ref =
  rf_agent_id :: string
  rf_revision :: int
  rf_artifact_id :: string
  rf_role :: string
  rf_created_at :: time

text \<open>Payloads are bytes.\<close>

record generation_artifact =
  ga_id :: string
  ga_kind :: string
  ga_sha256 :: string
  ga_payload :: string
  ga_external_path :: string
  ga_size_bytes :: int
  ga_created_at :: time

text \<open>
  The replay payload of an idempotency record, in place of its JSON text (which
  \<open>persistCoordinatorActionReplayTx\<close> writes and \<open>decodeCoordinatorActionReplay\<close> reads).
\<close>

record action_replay =
  rp_operation_id :: string
  rp_agent_id :: string
  rp_desired_revision :: int
  rp_apply_status :: string
  rp_http_request_fingerprint :: string
  rp_operation_row_id :: string

record idempotency_record =
  id_scope :: string
  id_key :: string
  id_request_fingerprint :: string
  id_operation_id :: string
  id_response :: "action_replay option"
  id_created_at :: time
  id_expires_at :: time

text \<open>
  The database. \<open>db_event_seq\<close> is the next value of the events' auto-increment key.
  \<open>db_pki_settings\<close> is the PKI settings table, \<open>None\<close> when the schema has none; a row is its
  id and its \<open>relay_fail_closed\<close> flag.
\<close>

record db =
  db_operations :: "operation_row list"
  db_revisions :: "agent_revision list"
  db_pointers :: "revision_pointer list"
  db_attempts :: "revision_attempt list"
  db_generations :: "agent_generation list"
  db_events :: "revision_event list"
  db_event_seq :: nat
  db_artifact_refs :: "artifact_ref list"
  db_artifacts :: "generation_artifact list"
  db_idempotency :: "idempotency_record list"
  db_pki_settings :: "(int \<times> bool) list option"

text \<open>Primary keys.\<close>

definition rv_key :: "agent_revision \<Rightarrow> string \<times> int" where
  "rv_key r = (rv_agent_id r, rv_revision r)"

definition at_key :: "revision_attempt \<Rightarrow> string \<times> int \<times> int \<times> int" where
  "at_key a = (at_agent_id a, at_revision a, at_retry_cycle a, at_attempt a)"

definition gn_key :: "agent_generation \<Rightarrow> string \<times> string" where
  "gn_key g = (gn_agent_id g, gn_generation_id g)"

definition attempt_active :: "revision_attempt \<Rightarrow> bool" where
  "attempt_active a \<longleftrightarrow> at_state a \<in> {AttLeased, AttStarted}"

definition revision_open :: "agent_revision \<Rightarrow> bool" where
  "revision_open r \<longleftrightarrow> rv_state r \<in> {RevPending, RevApplying}"

subsection \<open>Errors, clock and transactions\<close>

datatype coord_error =
    EInvalid                   \<comment> \<open>an argument is missing or malformed\<close>
  | ELeaseConflict             \<comment> \<open>\<open>ErrCoordinatorLeaseConflict\<close>\<close>
  | EStateConflict             \<comment> \<open>\<open>ErrCoordinatorStateConflict\<close>\<close>
  | ENotFound                  \<comment> \<open>\<open>ErrCoordinatorNotFound\<close>\<close>
  | EReconcileNeeded           \<comment> \<open>\<open>ErrCoordinatorReconcileNeeded\<close>\<close>
  | EDependencyClaimRequired   \<comment> \<open>\<open>ErrCoordinatorDependencyClaimRequired\<close>\<close>
  | ERecordNotFound            \<comment> \<open>\<open>gorm.ErrRecordNotFound\<close>\<close>
  | EDuplicateKey              \<comment> \<open>a primary key or unique index is violated\<close>
  | EArtifact                  \<comment> \<open>an artifact's content does not match its identity\<close>

type_synonym 'a outcome = "(coord_error + 'a) \<times> db"

definition commit :: "db \<Rightarrow> coord_error + ('a \<times> db) \<Rightarrow> 'a outcome" where
  "commit db r = (case r of Inl e \<Rightarrow> (Inl e, db) | Inr (a, db') \<Rightarrow> (Inr a, db'))"

lemma commit_simps [simp]:
  "commit db (Inl e) = (Inl e, db)"
  "commit db (Inr (a, db')) = (Inr a, db')"
  by (simp_all add: commit_def)

text \<open>A request without a time (Go's zero \<open>time.Time\<close>) takes the clock's.\<close>

definition coordinator_time :: "time \<Rightarrow> time option \<Rightarrow> time" where
  "coordinator_time clock v = (case v of None \<Rightarrow> clock | Some t \<Rightarrow> t)"

definition coordinator_drain_deadline :: "time \<Rightarrow> int \<Rightarrow> time option" where
  "coordinator_drain_deadline applied_at drain_timeout =
     (if drain_timeout \<le> 0 then None else Some (applied_at + drain_timeout * second))"

definition resolved_coordinator_timeout_seconds :: "int \<Rightarrow> int \<Rightarrow> int \<Rightarrow> int" where
  "resolved_coordinator_timeout_seconds v configured fallback =
     (if v > 0 then v else if configured > 0 then configured else fallback)"

lemma resolved_timeout_pos:
  "0 < fallback \<Longrightarrow> 0 < resolved_coordinator_timeout_seconds v configured fallback"
  by (simp add: resolved_coordinator_timeout_seconds_def)

subsection \<open>Queries\<close>

definition lock_coordinator_pointer :: "string \<Rightarrow> db \<Rightarrow> revision_pointer option" where
  "lock_coordinator_pointer agent db =
     find (\<lambda>p. pt_agent_id p = trim_space agent) (db_pointers db)"

definition find_revision :: "string \<Rightarrow> int \<Rightarrow> db \<Rightarrow> agent_revision option" where
  "find_revision agent n db =
     find (\<lambda>r. rv_agent_id r = agent \<and> rv_revision r = n) (db_revisions db)"

definition get_coordinator_revision :: "string \<Rightarrow> int \<Rightarrow> db \<Rightarrow> agent_revision option" where
  "get_coordinator_revision agent n db = find_revision (trim_space agent) n db"

definition find_attempt :: "string \<Rightarrow> int \<Rightarrow> int \<Rightarrow> int \<Rightarrow> db \<Rightarrow> revision_attempt option" where
  "find_attempt agent n cycle k db =
     find (\<lambda>a. at_agent_id a = agent \<and> at_revision a = n \<and> at_retry_cycle a = cycle \<and>
               at_attempt a = k) (db_attempts db)"

definition active_attempts :: "string \<Rightarrow> db \<Rightarrow> revision_attempt list" where
  "active_attempts agent db =
     filter (\<lambda>a. at_agent_id a = agent \<and> attempt_active a) (db_attempts db)"

definition lock_active_coordinator_attempts :: "string \<Rightarrow> db \<Rightarrow> revision_attempt list" where
  "lock_active_coordinator_attempts agent db =
     sort_key (\<lambda>a. (at_revision a, at_retry_cycle a, at_attempt a))
       (active_attempts (trim_space agent) db)"

subsection \<open>Events and the operation's aggregated status\<close>

definition append_coordinator_event_tx ::
  "agent_revision \<Rightarrow> string \<Rightarrow> time \<Rightarrow> (string \<times> json_value) list \<Rightarrow> db \<Rightarrow> db" where
  "append_coordinator_event_tx r event_type now payload db =
     db\<lparr>db_events := db_events db @
          [\<lparr>ev_id = db_event_seq db, ev_operation_id = rv_operation_id r,
            ev_agent_id = rv_agent_id r, ev_revision = rv_revision r,
            ev_event_type = event_type,
            ev_payload = payload @ [(''state'', JText (revision_state_text (rv_state r)))],
            ev_created_at = now\<rparr>],
        db_event_seq := Suc (db_event_seq db)\<rparr>"

type_synonym refresh_acc = "operation_status \<times> bool \<times> string \<times> string"

fun refresh_step :: "agent_revision \<Rightarrow> refresh_acc \<Rightarrow> refresh_acc" where
  "refresh_step r (status, completed, code, msg) =
     (case rv_state r of
        RevFailed \<Rightarrow> (OpFailed, completed, rv_error_code r, rv_error_message r)
      | RevApplying \<Rightarrow> (if status \<noteq> OpFailed then OpApplying else status, False, code, msg)
      | RevPending \<Rightarrow>
          (if status \<noteq> OpFailed \<and> status \<noteq> OpApplying then OpPending else status, False, code, msg)
      | RevSuperseded \<Rightarrow>
          (if status = OpApplied then OpSuperseded else status, completed, code, msg)
      | RevApplied \<Rightarrow> (status, completed, code, msg))"

definition refresh_fold :: "agent_revision list \<Rightarrow> refresh_acc" where
  "refresh_fold rs = fold refresh_step rs (OpApplied, True, [], [])"

definition refresh_coordinator_operation_tx :: "string \<Rightarrow> time \<Rightarrow> db \<Rightarrow> coord_error + db" where
  "refresh_coordinator_operation_tx operation_id now db =
     (let oid = trim_space operation_id in
      if oid = [] then Inr db
      else tx_bind (first_where ERecordNotFound (\<lambda>w. op_id w = oid) (db_operations db)) (\<lambda>operation.
        if op_completed_at operation \<noteq> None \<and> op_status operation \<in> {OpPending, OpApplying}
        then Inr db
        else let revisions = filter (\<lambda>r. rv_operation_id r = oid) (db_revisions db) in
          if revisions = [] then Inr db
          else case refresh_fold revisions of (status, completed, code, msg) \<Rightarrow>
            Inr (db\<lparr>db_operations := upd_where (\<lambda>w. op_id w = oid)
                   (\<lambda>w. w\<lparr>op_status := status, op_error_code := code, op_error_message := msg,
                          op_updated_at := now,
                          op_completed_at := (if completed then Some now else None)\<rparr>)
                   (db_operations db)\<rparr>)))"

subsection \<open>Superseding and expiring\<close>

definition superseded_message :: string where
  "superseded_message = ''a higher desired revision exists''"

definition supersede_attempt_tx ::
  "revision_attempt \<Rightarrow> time \<Rightarrow> db \<Rightarrow> revision_attempt \<times> db" where
  "supersede_attempt_tx a now db =
     (if \<not> attempt_active a then (a, db)
      else let f = (\<lambda>x. x\<lparr>at_state := AttSuperseded, at_finished_at := Some now,
                           at_error_code := ''superseded'', at_error := superseded_message\<rparr>) in
        (f a, db\<lparr>db_attempts := upd_where
           (\<lambda>x. at_key x = at_key a \<and> at_lease_id x = at_lease_id a \<and> attempt_active x) f
           (db_attempts db)\<rparr>))"

definition supersede_revision_row :: "time \<Rightarrow> agent_revision \<Rightarrow> agent_revision" where
  "supersede_revision_row now r =
     r\<lparr>rv_state := RevSuperseded, rv_next_attempt_at := None, rv_error_code := ''superseded'',
       rv_error_message := superseded_message, rv_updated_at := now\<rparr>"

definition supersede_revision_tx :: "string \<Rightarrow> int \<Rightarrow> time \<Rightarrow> db \<Rightarrow> coord_error + db" where
  "supersede_revision_tx agent n now db =
     (case find_revision agent n db of
        None \<Rightarrow> Inr db
      | Some r \<Rightarrow>
          if \<not> revision_open r then Inr db
          else
            let db1 = db\<lparr>db_revisions := upd_where
                  (\<lambda>x. rv_key x = (agent, n) \<and> revision_open x) (supersede_revision_row now)
                  (db_revisions db)\<rparr>;
                r' = supersede_revision_row now r
            in refresh_coordinator_operation_tx (rv_operation_id r') now
                 (append_coordinator_event_tx r' ''revision_superseded'' now [] db1))"

definition expire_unstarted_attempt_tx ::
  "revision_attempt \<Rightarrow> time \<Rightarrow> db \<Rightarrow> coord_error + db" where
  "expire_unstarted_attempt_tx a now db =
     (if at_state a \<noteq> AttLeased then Inr db
      else
        let f = (\<lambda>x. x\<lparr>at_state := AttExpiredUnstarted, at_finished_at := Some now,
                         at_error_code := ''lease_expired'',
                         at_error := ''lease expired before prepare_started''\<rparr>);
            db1 = db\<lparr>db_attempts := upd_where
                (\<lambda>x. at_key x = at_key a \<and> at_lease_id x = at_lease_id a \<and> at_state x = AttLeased) f
                (db_attempts db)\<rparr>
        in tx_bind (case find_revision (at_agent_id a) (at_revision a) db1 of
                      None \<Rightarrow> Inl ERecordNotFound | Some r \<Rightarrow> Inr r) (\<lambda>r.
             Inr (append_coordinator_event_tx r ''lease_expired_unstarted'' now
               [(''retry_cycle'', JInt (at_retry_cycle a)), (''attempt'', JInt (at_attempt a)),
                (''lease_id'', JText (at_lease_id a))] db1)))"

fun supersede_rows_tx ::
  "agent_revision list \<Rightarrow> time \<Rightarrow> db \<Rightarrow> coord_error + (int list \<times> db)" where
  "supersede_rows_tx [] now db = Inr ([], db)"
| "supersede_rows_tx (row # rows) now db =
     (let db1 = db\<lparr>db_attempts := upd_where
            (\<lambda>x. at_agent_id x = rv_agent_id row \<and> at_revision x = rv_revision row \<and> attempt_active x)
            (\<lambda>x. x\<lparr>at_state := AttSuperseded, at_finished_at := Some now,
                    at_error_code := ''superseded'', at_error := superseded_message\<rparr>)
            (db_attempts db)\<rparr>
      in tx_bind (supersede_revision_tx (rv_agent_id row) (rv_revision row) now db1) (\<lambda>db2.
         tx_bind (supersede_rows_tx rows now db2) (\<lambda>(ns, db3).
           Inr (rv_revision row # ns, db3))))"

definition supersede_older_coordinator_revisions_tx ::
  "revision_pointer \<Rightarrow> time \<Rightarrow> db \<Rightarrow> coord_error + (int list \<times> db)" where
  "supersede_older_coordinator_revisions_tx p now db =
     supersede_rows_tx
       (sort_key rv_revision (filter (\<lambda>r. rv_agent_id r = pt_agent_id p \<and>
          rv_revision r < pt_desired_revision p \<and> revision_open r) (db_revisions db)))
       now db"

text \<open>\<open>appendUniqueRevisions\<close>: additions not seen before are appended, then the list is sorted.\<close>

definition append_unique_revisions :: "int list \<Rightarrow> int list \<Rightarrow> int list" where
  "append_unique_revisions existing additions =
     sort (fold (\<lambda>n acc. if n \<in> set acc then acc else acc @ [n]) additions existing)"

end
