(* ===== verification/CoordDelay.thy ===== *)
theory CoordDelay
  imports Complex_Main "HOL-Library.Log_Nat" Prelude
begin

text \<open>
  \<open>coordinatorRetryDelay\<close> of \<open>storage/revision_coordinator.go\<close>: the full-jitter backoff between
  two attempts of a revision. The jitter is a \<open>float64\<close>; its product with the bound is rounded
  as IEEE 754 does (53 bits, ties to even) and truncated by the conversion to a duration.
\<close>

datatype go_float = FNaN | FNegInf | FPosInf | FVal rat

definition round_half_even :: "rat \<Rightarrow> int" where
  "round_half_even q =
     (let f = \<lfloor>q\<rfloor>; d = q - of_int f in
      if d < 1 / 2 then f else if d > 1 / 2 then f + 1 else if even f then f else f + 1)"

text \<open>
  The truncation of the \<open>float64\<close> nearest to \<open>q\<close>, for \<open>0 \<le> q < 2\<^sup>5\<^sup>3\<close>: below one half the
  nearest value is below one; otherwise the spacing of the values around \<open>q\<close> is
  \<open>2\<close> to the number of bits of \<open>\<lfloor>q\<rfloor>\<close> minus 53.
\<close>

definition f64_trunc :: "rat \<Rightarrow> int" where
  "f64_trunc q =
     (if q < 1 / 2 then 0
      else let s = 2 ^ nat (53 - bitlen \<lfloor>q\<rfloor>) in \<lfloor>(of_int (round_half_even (q * s)) :: rat) / s\<rfloor>)"

fun retry_bound :: "nat \<Rightarrow> int \<Rightarrow> int \<Rightarrow> int" where
  "retry_bound 0 bound limit = bound"
| "retry_bound (Suc k) bound limit =
     (if bound < limit then if bound > limit div 2 then limit else retry_bound k (bound * 2) limit
      else bound)"

definition clamp_jitter :: "go_float \<Rightarrow> rat" where
  "clamp_jitter j =
     (case j of FNaN \<Rightarrow> 0 | FNegInf \<Rightarrow> 0 | FPosInf \<Rightarrow> 1 - 1 / 2 ^ 53
      | FVal q \<Rightarrow> if q < 0 then 0 else if q \<ge> 1 then 1 - 1 / 2 ^ 53 else q)"

definition coordinator_retry_delay :: "int \<Rightarrow> int \<Rightarrow> int \<Rightarrow> go_float \<Rightarrow> int" where
  "coordinator_retry_delay attempt base0 limit0 jitter =
     (let base = (if base0 \<le> 0 then second else base0);
          limit1 = (if limit0 \<le> 0 then 30 * second else limit0);
          limit = (if limit1 < base then base else limit1);
          b = retry_bound (nat (attempt - 1)) base limit;
          bound = (if b > limit then limit else b)
      in f64_trunc (of_int bound * clamp_jitter jitter))"

subsection \<open>Bounds\<close>

lemma clamp_jitter_range: "0 \<le> clamp_jitter j \<and> clamp_jitter j < 1"
  by (auto simp: clamp_jitter_def split: go_float.splits)

lemma round_half_even_le:
  assumes "q \<le> of_int n"
  shows "round_half_even q \<le> n"
proof (cases "q = of_int \<lfloor>q\<rfloor>")
  case True
  then have "q - of_int \<lfloor>q\<rfloor> = 0" by simp
  then have "round_half_even q = \<lfloor>q\<rfloor>" by (simp add: round_half_even_def Let_def)
  then show ?thesis using assms by (simp add: floor_le_iff)
next
  case False
  have "of_int \<lfloor>q\<rfloor> \<le> q" by simp
  with False assms have "(of_int \<lfloor>q\<rfloor> :: rat) < of_int n" by linarith
  then have "\<lfloor>q\<rfloor> < n" by (simp only: of_int_less_iff)
  then show ?thesis by (simp add: round_half_even_def Let_def)
qed

lemma round_half_even_nonneg: "0 \<le> q \<Longrightarrow> 0 \<le> round_half_even q"
  by (auto simp: round_half_even_def Let_def)

lemma f64_trunc_range:
  assumes "0 \<le> q" and "q \<le> of_int n"
  shows "0 \<le> f64_trunc q \<and> f64_trunc q \<le> n"
proof (cases "q < 1 / 2")
  case True
  with assms have "0 \<le> (of_int n :: rat)" by linarith
  with True show ?thesis by (simp add: f64_trunc_def)
next
  case False
  define s :: rat where "s = 2 ^ nat (53 - bitlen \<lfloor>q\<rfloor>)"
  define m :: int where "m = 2 ^ nat (53 - bitlen \<lfloor>q\<rfloor>)"
  have sm: "s = of_int m" and pos: "0 < s" by (simp_all add: s_def m_def)
  have "q * s \<le> of_int (n * m)" using assms(2) pos by (simp add: sm)
  then have "round_half_even (q * s) \<le> n * m" by (rule round_half_even_le)
  then have "(of_int (round_half_even (q * s)) :: rat) \<le> of_int n * s"
    unfolding sm by (metis of_int_le_iff of_int_mult)
  then have "(of_int (round_half_even (q * s)) :: rat) / s \<le> of_int n"
    using pos by (simp add: divide_le_eq)
  then have "\<lfloor>(of_int (round_half_even (q * s)) :: rat) / s\<rfloor> \<le> n"
    by (simp add: floor_le_iff)
  moreover have "0 \<le> (of_int (round_half_even (q * s)) :: rat) / s"
    using assms(1) pos by (simp add: round_half_even_nonneg)
  ultimately show ?thesis using False by (simp add: f64_trunc_def s_def Let_def)
qed

lemma retry_bound_le:
  "0 < b \<Longrightarrow> b \<le> limit \<Longrightarrow> retry_bound k b limit \<le> limit \<and> retry_bound k b limit \<le> b * 2 ^ k
     \<and> 0 < retry_bound k b limit"
proof (induction k b limit rule: retry_bound.induct)
  case (1 b limit)
  then show ?case by simp
next
  case (2 k b limit)
  have "limit \<le> b * 2 * 2 ^ k" if "limit div 2 < b"
  proof -
    from that have "limit \<le> b * 2" by linarith
    also have "\<dots> \<le> b * 2 * 2 ^ k" using "2.prems"(1) by simp
    finally show ?thesis .
  qed
  moreover have "b \<le> b * 2 * 2 ^ k"
  proof -
    have "b * 1 \<le> b * (2 * 2 ^ k)" using "2.prems"(1)
      by (intro mult_left_mono) (auto simp: one_le_power le_SucI intro: order_trans[of _ "2 ^ k"])
    then show ?thesis by (simp add: mult.assoc)
  qed
  ultimately show ?case using 2 by (auto simp: mult.assoc)
qed

end
