(* ===== verification/CoordLease.thy ===== *)
theory CoordLease
  imports CoordStore CoordDelay
begin

text \<open>
  The lease protocol of \<open>storage/revision_coordinator.go\<close>: an agent's latest desired revision is
  claimed under a lease, started, and then reported failed or applied. One definition per
  operation, with its guards in the order of the code; the parts of \<open>ClaimLatestAgentRevision\<close>
  that form a unit (the dependency scope, the active attempt, the new lease) are definitions
  of their own, called in sequence.
\<close>

record coordinator_lease =
  ls_agent_id :: string
  ls_revision :: int
  ls_retry_cycle :: int
  ls_attempt :: int
  ls_lease_id :: string
  ls_snapshot_artifact_id :: string
  ls_snapshot_digest :: string
  ls_desired_version :: string
  ls_apply_timeout_seconds :: int
  ls_drain_timeout_seconds :: int
  ls_deadline_at :: time

record claim_request =
  cl_agent_id :: string
  cl_lease_id :: string
  cl_expected_operation_id :: string
  cl_expected_revision :: int
  cl_now :: "time option"
  cl_default_apply_timeout :: int
  cl_default_drain_timeout :: int

record claim_result =
  cr_lease :: "coordinator_lease option"
  cr_busy :: bool
  cr_superseded :: "int list"

definition empty_claim :: claim_result where
  "empty_claim = \<lparr>cr_lease = None, cr_busy = False, cr_superseded = []\<rparr>"

definition validate_coordinator_lease :: "coordinator_lease \<Rightarrow> bool" where
  "validate_coordinator_lease l \<longleftrightarrow>
     \<not> (trim_space (ls_agent_id l) = [] \<or> ls_revision l < 0 \<or> ls_retry_cycle l < 0 \<or>
        ls_attempt l \<le> 0 \<or> trim_space (ls_lease_id l) = [])"

definition lock_coordinator_attempt :: "coordinator_lease \<Rightarrow> db \<Rightarrow> coord_error + revision_attempt" where
  "lock_coordinator_attempt l db =
     (case find_attempt (ls_agent_id l) (ls_revision l) (ls_retry_cycle l) (ls_attempt l) db of
        None \<Rightarrow> Inl ELeaseConflict | Some a \<Rightarrow> Inr a)"

definition read_revision :: "string \<Rightarrow> int \<Rightarrow> db \<Rightarrow> coord_error + agent_revision" where
  "read_revision agent n db =
     (case find_revision agent n db of None \<Rightarrow> Inl ERecordNotFound | Some r \<Rightarrow> Inr r)"

definition read_pointer :: "string \<Rightarrow> db \<Rightarrow> coord_error + revision_pointer" where
  "read_pointer agent db =
     (case lock_coordinator_pointer agent db of None \<Rightarrow> Inl ERecordNotFound | Some p \<Rightarrow> Inr p)"

subsection \<open>Claim\<close>

text \<open>
  The dependency scope: \<open>Inr False\<close> is the early \<open>return nil\<close> (no lease), \<open>Inr True\<close> goes on.
\<close>

definition claim_scope_tx ::
  "string \<Rightarrow> string \<Rightarrow> int \<Rightarrow> revision_pointer \<Rightarrow> db \<Rightarrow> coord_error + bool" where
  "claim_scope_tx agent expected_op expected_rev p db =
     (if expected_op \<noteq> [] then
        if pt_desired_revision p \<noteq> expected_rev then Inr False
        else case find_revision agent expected_rev db of
               None \<Rightarrow> Inr False
             | Some expected \<Rightarrow> Inr (rv_operation_id expected = expected_op)
      else if count_where (\<lambda>f. rf_agent_id f = agent \<and> rf_revision f = pt_desired_revision p \<and>
                 rf_role f = ''dependency_plan'') (db_artifact_refs db) > 0
      then Inl EDependencyClaimRequired
      else Inr True)"

text \<open>
  The agent's active attempt: the result says whether the agent is busy, which revision was
  superseded, and the database after the attempt was superseded or expired.
\<close>

definition claim_active_tx ::
  "string \<Rightarrow> revision_pointer \<Rightarrow> time \<Rightarrow> db \<Rightarrow> coord_error + (bool \<times> int list \<times> db)" where
  "claim_active_tx agent p now db =
     (case lock_active_coordinator_attempts agent db of
        [] \<Rightarrow> Inr (False, [], db)
      | [a] \<Rightarrow>
          if at_revision a > pt_desired_revision p then Inl EStateConflict
          else if at_revision a < pt_desired_revision p then
            (case supersede_attempt_tx a now db of (a', db1) \<Rightarrow>
             tx_bind (supersede_revision_tx agent (at_revision a) now db1) (\<lambda>db2.
               Inr (False, [at_revision a], db2)))
          else if now < at_deadline_at a then Inr (True, [], db)
          else if at_state a = AttStarted then Inl EReconcileNeeded
          else tx_bind (expire_unstarted_attempt_tx a now db) (\<lambda>db1. Inr (False, [], db1))
      | _ \<Rightarrow> Inl EStateConflict)"

definition lease_id_taken :: "string \<Rightarrow> revision_attempt list \<Rightarrow> bool" where
  "lease_id_taken lease t \<longleftrightarrow> (\<exists>a \<in> set t. at_lease_id a = lease)"

text \<open>
  Reserve the next ordinal of the pending revision: a new attempt row, or the row of a lease
  that expired before it was started.
\<close>

definition store_lease_tx :: "revision_attempt \<Rightarrow> db \<Rightarrow> coord_error + db" where
  "store_lease_tx a db =
     (case find_attempt (at_agent_id a) (at_revision a) (at_retry_cycle a) (at_attempt a) db of
        Some existing \<Rightarrow>
          if at_state existing \<noteq> AttExpiredUnstarted then Inl EStateConflict
          else if lease_id_taken (at_lease_id a)
                    (filter (\<lambda>x. at_key x \<noteq> at_key a) (db_attempts db)) then Inl EDuplicateKey
          else Inr (db\<lparr>db_attempts := upd_where (\<lambda>x. at_key x = at_key a)
                 (\<lambda>x. x\<lparr>at_lease_id := at_lease_id a, at_state := AttLeased,
                        at_started_at := at_started_at a, at_deadline_at := at_deadline_at a,
                        at_finished_at := None, at_error_code := [], at_error := []\<rparr>)
                 (db_attempts db)\<rparr>)
      | None \<Rightarrow>
          if lease_id_taken (at_lease_id a) (db_attempts db) then Inl EDuplicateKey
          else Inr (db\<lparr>db_attempts := db_attempts db @ [a]\<rparr>))"

definition claim_lease_tx ::
  "string \<Rightarrow> agent_revision \<Rightarrow> time \<Rightarrow> int \<Rightarrow> int \<Rightarrow> db \<Rightarrow> coord_error + (coordinator_lease \<times> db)" where
  "claim_lease_tx lease r now default_apply default_drain db =
     (let attempt_number = rv_attempt_count r + 1;
          apply_timeout =
            resolved_coordinator_timeout_seconds (rv_apply_timeout_seconds r) default_apply 60;
          drain_timeout =
            resolved_coordinator_timeout_seconds (rv_drain_timeout_seconds r) default_drain 600;
          deadline = now + apply_timeout * second;
          attempt = \<lparr>at_agent_id = rv_agent_id r, at_revision = rv_revision r,
                     at_retry_cycle = rv_retry_cycle r, at_attempt = attempt_number,
                     at_lease_id = lease, at_state = AttLeased, at_started_at = now,
                     at_deadline_at = deadline, at_finished_at = None, at_error_code = [],
                     at_error = []\<rparr>
      in tx_bind (store_lease_tx attempt db) (\<lambda>db1.
           Inr (\<lparr>ls_agent_id = rv_agent_id r, ls_revision = rv_revision r,
                 ls_retry_cycle = rv_retry_cycle r, ls_attempt = attempt_number,
                 ls_lease_id = lease, ls_snapshot_artifact_id = rv_snapshot_artifact_id r,
                 ls_snapshot_digest = rv_snapshot_digest r,
                 ls_desired_version = rv_desired_version r,
                 ls_apply_timeout_seconds = apply_timeout,
                 ls_drain_timeout_seconds = drain_timeout, ls_deadline_at = deadline\<rparr>,
                append_coordinator_event_tx r ''revision_leased'' now
                  [(''retry_cycle'', JInt (rv_retry_cycle r)), (''attempt'', JInt attempt_number),
                   (''lease_id'', JText lease), (''deadline_at'', JTime deadline)] db1)))"

definition claim_desired_tx ::
  "string \<Rightarrow> string \<Rightarrow> revision_pointer \<Rightarrow> time \<Rightarrow> int \<Rightarrow> int \<Rightarrow> int list \<Rightarrow> db \<Rightarrow>
   coord_error + (claim_result \<times> db)" where
  "claim_desired_tx agent lease p now default_apply default_drain superseded db =
     (let res = empty_claim\<lparr>cr_superseded := superseded\<rparr> in
      case find_revision agent (pt_desired_revision p) db of
        None \<Rightarrow> Inr (res, db)
      | Some r \<Rightarrow>
          if rv_state r \<noteq> RevPending then Inr (res, db)
          else if (case rv_next_attempt_at r of None \<Rightarrow> False | Some t \<Rightarrow> now < t) then Inr (res, db)
          else tx_bind (claim_lease_tx lease r now default_apply default_drain db) (\<lambda>(l, db1).
                 Inr (res\<lparr>cr_lease := Some l\<rparr>, db1)))"

definition claim_tx ::
  "string \<Rightarrow> string \<Rightarrow> string \<Rightarrow> int \<Rightarrow> time \<Rightarrow> int \<Rightarrow> int \<Rightarrow> db \<Rightarrow>
   coord_error + (claim_result \<times> db)" where
  "claim_tx agent lease expected_op expected_rev now default_apply default_drain db =
     (case lock_coordinator_pointer agent db of
        None \<Rightarrow> Inr (empty_claim, db)
      | Some p \<Rightarrow>
          tx_bind (claim_scope_tx agent expected_op expected_rev p db) (\<lambda>in_scope.
          if \<not> in_scope then Inr (empty_claim, db)
          else tx_bind (claim_active_tx agent p now db) (\<lambda>(busy, superseded, db1).
            if busy then Inr (empty_claim\<lparr>cr_busy := True\<rparr>, db1)
            else tx_bind (supersede_older_coordinator_revisions_tx p now db1) (\<lambda>(older, db2).
              claim_desired_tx agent lease p now default_apply default_drain
                (append_unique_revisions superseded older) db2))))"

definition claim_latest_agent_revision :: "time \<Rightarrow> claim_request \<Rightarrow> db \<Rightarrow> claim_result outcome" where
  "claim_latest_agent_revision clock req db =
     (let agent = trim_space (cl_agent_id req);
          lease = trim_space (cl_lease_id req);
          expected_op = trim_space (cl_expected_operation_id req);
          expected_rev = cl_expected_revision req
      in if agent = [] \<or> lease = [] then (Inl EInvalid, db)
         else if (expected_op = []) \<noteq> (expected_rev = 0) \<or> expected_rev < 0 then (Inl EInvalid, db)
         else commit db (claim_tx agent lease expected_op expected_rev
                (coordinator_time clock (cl_now req))
                (cl_default_apply_timeout req) (cl_default_drain_timeout req) db))"

subsection \<open>Start\<close>

definition hex_digit :: "char \<Rightarrow> bool" where
  "hex_digit c \<longleftrightarrow>
     (let n = (of_char c :: nat) in
        (48 \<le> n \<and> n \<le> 57) \<or> (97 \<le> n \<and> n \<le> 102) \<or> (65 \<le> n \<and> n \<le> 70))"

definition valid_sha256 :: "string \<Rightarrow> bool" where
  "valid_sha256 s \<longleftrightarrow> length s = 64 \<and> list_all hex_digit s"

definition validate_coordinator_runtime_identity :: "int \<Rightarrow> string \<Rightarrow> string \<Rightarrow> bool \<Rightarrow> bool" where
  "validate_coordinator_runtime_identity n generation hash optional \<longleftrightarrow>
     (optional \<and> generation = [] \<and> hash = []) \<or>
     (valid_sha256 hash \<and> hash = to_lower hash \<and>
      generation = ''generation-'' @ itoa n @ ''-'' @ take 16 hash)"

definition bind_coordinator_runtime_identity_tx ::
  "agent_revision \<Rightarrow> string \<Rightarrow> string \<Rightarrow> db \<Rightarrow> coord_error + (agent_revision \<times> db)" where
  "bind_coordinator_runtime_identity_tx r generation hash db =
     (if rv_runtime_generation_id r \<noteq> [] \<or> rv_runtime_snapshot_hash r \<noteq> [] then
        if rv_runtime_generation_id r \<noteq> generation \<or> rv_runtime_snapshot_hash r \<noteq> hash
        then Inl EStateConflict else Inr (r, db)
      else
        let P = (\<lambda>x. rv_key x = rv_key r \<and> rv_runtime_generation_id x = [] \<and>
                     rv_runtime_snapshot_hash x = []);
            f = (\<lambda>x. x\<lparr>rv_runtime_generation_id := generation, rv_runtime_snapshot_hash := hash\<rparr>)
        in if count_where P (db_revisions db) \<noteq> 1 then Inl EStateConflict
           else Inr (f r, db\<lparr>db_revisions := upd_where P f (db_revisions db)\<rparr>))"

record start_request =
  sr_lease :: coordinator_lease
  sr_generation_id :: string
  sr_runtime_generation_id :: string
  sr_runtime_snapshot_hash :: string
  sr_now :: "time option"
  sr_default_apply_timeout :: int

type_synonym start_result = "agent_revision \<times> revision_attempt"

text \<open>The lease was already started: a repeated start is answered from the stored rows.\<close>

definition restart_tx ::
  "start_request \<Rightarrow> string \<Rightarrow> time \<Rightarrow> revision_pointer \<Rightarrow> revision_attempt \<Rightarrow> agent_revision \<Rightarrow> db \<Rightarrow>
   coord_error + (start_result \<times> db)" where
  "restart_tx req gen now p a r db =
     (if rv_state r \<noteq> RevApplying \<or> rv_retry_cycle r \<noteq> ls_retry_cycle (sr_lease req) \<or>
         rv_attempt_count r \<noteq> ls_attempt (sr_lease req) \<or> pt_desired_revision p > rv_revision r
      then Inl ELeaseConflict
      else if \<not> now < at_deadline_at a then Inl ELeaseConflict
      else if rv_generation_id r \<noteq> gen then Inl EStateConflict
      else if sr_runtime_generation_id req \<noteq> [] then
        tx_bind (bind_coordinator_runtime_identity_tx r (sr_runtime_generation_id req)
                   (sr_runtime_snapshot_hash req) db) (\<lambda>(r', db1). Inr ((r', a), db1))
      else Inr ((r, a), db))"

definition start_revision_row ::
  "start_request \<Rightarrow> string \<Rightarrow> time \<Rightarrow> agent_revision \<Rightarrow> agent_revision" where
  "start_revision_row req gen now r =
     r\<lparr>rv_state := RevApplying, rv_attempt_count := ls_attempt (sr_lease req),
       rv_next_attempt_at := None, rv_generation_id := gen,
       rv_runtime_generation_id := sr_runtime_generation_id req,
       rv_runtime_snapshot_hash := sr_runtime_snapshot_hash req,
       rv_error_code := [], rv_error_message := [], rv_failed_at := None, rv_updated_at := now\<rparr>"

definition first_start_tx ::
  "start_request \<Rightarrow> string \<Rightarrow> time \<Rightarrow> revision_attempt \<Rightarrow> agent_revision \<Rightarrow> db \<Rightarrow>
   coord_error + (start_result \<times> db)" where
  "first_start_tx req gen now a r db =
     (let apply_timeout = resolved_coordinator_timeout_seconds (rv_apply_timeout_seconds r)
                            (sr_default_apply_timeout req) 60;
          deadline = now + apply_timeout * second;
          db1 = db\<lparr>db_attempts := upd_where
              (\<lambda>x. at_key x = at_key a \<and> at_lease_id x = at_lease_id a \<and> at_state x = AttLeased)
              (\<lambda>x. x\<lparr>at_state := AttStarted, at_started_at := now, at_deadline_at := deadline,
                     at_finished_at := None\<rparr>) (db_attempts db)\<rparr>;
          db2 = db1\<lparr>db_revisions := upd_where
              (\<lambda>x. rv_key x = rv_key r \<and> rv_state x = RevPending \<and>
                   rv_attempt_count x = rv_attempt_count r)
              (start_revision_row req gen now) (db_revisions db1)\<rparr>;
          a' = a\<lparr>at_state := AttStarted, at_started_at := now, at_deadline_at := deadline\<rparr>;
          r' = start_revision_row req gen now r;
          db3 = append_coordinator_event_tx r' ''prepare_started'' now
              [(''retry_cycle'', JInt (at_retry_cycle a')), (''attempt'', JInt (at_attempt a')),
               (''lease_id'', JText (at_lease_id a')), (''generation_id'', JText gen),
               (''deadline_at'', JTime deadline)] db2
      in tx_bind (refresh_coordinator_operation_tx (rv_operation_id r') now db3) (\<lambda>db4.
           Inr ((r', a'), db4)))"

text \<open>
  An inner \<open>Inl\<close> of the result is \<open>postCommitErr\<close>: the transaction commits its changes and the
  call still fails.
\<close>

definition start_tx ::
  "start_request \<Rightarrow> string \<Rightarrow> time \<Rightarrow> db \<Rightarrow> coord_error + ((coord_error + start_result) \<times> db)" where
  "start_tx req gen now db =
     (let l = sr_lease req in
      tx_bind (read_pointer (ls_agent_id l) db) (\<lambda>p.
      tx_bind (lock_coordinator_attempt l db) (\<lambda>a.
      if at_lease_id a \<noteq> ls_lease_id l then Inl ELeaseConflict
      else tx_bind (read_revision (ls_agent_id l) (ls_revision l) db) (\<lambda>r.
        if at_state a = AttStarted then
          tx_bind (restart_tx req gen now p a r db) (\<lambda>(res, db1). Inr (Inr res, db1))
        else if at_state a \<noteq> AttLeased then Inl ELeaseConflict
        else if \<not> now < at_deadline_at a then
          tx_bind (expire_unstarted_attempt_tx a now db) (\<lambda>db1. Inr (Inl ELeaseConflict, db1))
        else if pt_desired_revision p > ls_revision l \<or> rv_state r = RevSuperseded then
          (case supersede_attempt_tx a now db of (a', db1) \<Rightarrow>
           tx_bind (supersede_revision_tx (ls_agent_id l) (ls_revision l) now db1) (\<lambda>db2.
             Inr (Inl ELeaseConflict, db2)))
        else if rv_state r \<noteq> RevPending \<or> ls_attempt l \<noteq> rv_attempt_count r + 1 then
          Inl EStateConflict
        else tx_bind (first_start_tx req gen now a r db) (\<lambda>(res, db1). Inr (Inr res, db1))))))"

definition start_agent_revision_attempt :: "time \<Rightarrow> start_request \<Rightarrow> db \<Rightarrow> start_result outcome" where
  "start_agent_revision_attempt clock req db =
     (let now = coordinator_time clock (sr_now req); gen = trim_space (sr_generation_id req) in
      if \<not> validate_coordinator_lease (sr_lease req) then (Inl EInvalid, db)
      else if gen = [] then (Inl EInvalid, db)
      else if \<not> validate_coordinator_runtime_identity (ls_revision (sr_lease req))
                  (sr_runtime_generation_id req) (sr_runtime_snapshot_hash req) True
      then (Inl EStateConflict, db)
      else case commit db (start_tx req gen now db) of
             (Inl e, db') \<Rightarrow> (Inl e, db')
           | (Inr res, db') \<Rightarrow> (res, db'))"

text \<open>\<open>BindAgentRevisionRuntime\<close>: the runtime identity is bound under the current started lease.\<close>

definition bind_agent_revision_runtime ::
  "time \<Rightarrow> coordinator_lease \<Rightarrow> string \<Rightarrow> string \<Rightarrow> string \<Rightarrow> time option \<Rightarrow> db \<Rightarrow> unit outcome" where
  "bind_agent_revision_runtime clock l gen runtime_gen hash now0 db =
     (if \<not> validate_coordinator_lease l then (Inl EInvalid, db)
      else if \<not> validate_coordinator_runtime_identity (ls_revision l) runtime_gen hash False
      then (Inl EStateConflict, db)
      else let now = coordinator_time clock now0 in
        commit db
          (tx_bind (read_pointer (ls_agent_id l) db) (\<lambda>p.
           tx_bind (lock_coordinator_attempt l db) (\<lambda>a.
           tx_bind (read_revision (ls_agent_id l) (ls_revision l) db) (\<lambda>r.
           if at_lease_id a \<noteq> ls_lease_id l \<or> at_state a \<noteq> AttStarted \<or> \<not> now < at_deadline_at a \<or>
              rv_state r \<noteq> RevApplying \<or> rv_retry_cycle r \<noteq> ls_retry_cycle l \<or>
              rv_attempt_count r \<noteq> ls_attempt l \<or> rv_generation_id r \<noteq> gen \<or>
              pt_desired_revision p > rv_revision r
           then Inl ELeaseConflict
           else tx_bind (bind_coordinator_runtime_identity_tx r runtime_gen hash db) (\<lambda>(r', db1).
             Inr ((), db1)))))))"

end
