(* ===== verification/CoordReport.thy ===== *)
theory CoordReport
  imports CoordLease
begin

text \<open>
  Reports on a started attempt (\<open>FailAgentRevisionAttempt\<close>, \<open>ApplyAgentRevisionAttempt\<close>) and the
  draining of the generations an applied revision replaces (\<open>CompleteCoordinatorDrain\<close>,
  \<open>forceExpiredCoordinatorDrainsTx\<close>).
\<close>

definition coordinator_max_attempts :: int where
  "coordinator_max_attempts = 5"

subsection \<open>Failure\<close>

record failure_request =
  fr_lease :: coordinator_lease
  fr_generation_id :: string
  fr_now :: "time option"
  fr_jitter :: go_float
  fr_error_code :: string
  fr_error_message :: string

record failure_result =
  fs_revision :: agent_revision
  fs_attempt :: revision_attempt
  fs_retry_delay :: int
  fs_exhausted :: bool

definition attempts_exhausted :: "agent_revision \<Rightarrow> bool" where
  "attempts_exhausted r \<longleftrightarrow> rv_attempt_count r \<ge> coordinator_max_attempts"

text \<open>
  The row of a revision whose attempt failed: failed for good when its attempts are
  exhausted, otherwise pending again with a time for the next attempt.
\<close>

definition fail_revision_row ::
  "string \<Rightarrow> string \<Rightarrow> time \<Rightarrow> int \<Rightarrow> bool \<Rightarrow> agent_revision \<Rightarrow> agent_revision" where
  "fail_revision_row code msg now delay exhausted r =
     r\<lparr>rv_generation_id := [], rv_error_code := code, rv_error_message := msg,
       rv_updated_at := now,
       rv_state := (if exhausted then RevFailed else RevPending),
       rv_next_attempt_at := (if exhausted then None else Some (now + delay)),
       rv_failed_at := (if exhausted then Some now else None)\<rparr>"

definition retry_delay_of :: "agent_revision \<Rightarrow> go_float \<Rightarrow> int" where
  "retry_delay_of r jitter =
     (if attempts_exhausted r then 0
      else coordinator_retry_delay (rv_attempt_count r) second (30 * second) jitter)"

definition fail_started_coordinator_attempt_tx ::
  "agent_revision \<Rightarrow> revision_attempt \<Rightarrow> time \<Rightarrow> go_float \<Rightarrow> string \<Rightarrow> string \<Rightarrow> db \<Rightarrow>
   coord_error + (failure_result \<times> db)" where
  "fail_started_coordinator_attempt_tx r a now jitter code0 msg0 db =
     (let code = (if trim_space code0 = [] then ''apply_failed'' else trim_space code0);
          msg = (if trim_space msg0 = [] then ''apply attempt failed'' else trim_space msg0);
          fa = (\<lambda>x. x\<lparr>at_state := AttFailed, at_finished_at := Some now, at_error_code := code,
                       at_error := msg\<rparr>);
          db1 = db\<lparr>db_attempts := upd_where
              (\<lambda>x. at_key x = at_key a \<and> at_lease_id x = at_lease_id a \<and> at_state x = AttStarted) fa
              (db_attempts db)\<rparr>;
          exhausted = attempts_exhausted r;
          delay = retry_delay_of r jitter;
          fr = fail_revision_row code msg now delay exhausted;
          db2 = db1\<lparr>db_revisions := upd_where
              (\<lambda>x. rv_key x = rv_key r \<and> rv_state x = RevApplying \<and>
                   rv_attempt_count x = rv_attempt_count r) fr (db_revisions db1)\<rparr>;
          db3 = append_coordinator_event_tx (fr r)
              (if exhausted then ''revision_failed'' else ''revision_retry_scheduled'') now
              [(''retry_cycle'', JInt (at_retry_cycle a)), (''attempt'', JInt (at_attempt a)),
               (''lease_id'', JText (at_lease_id a)), (''error_code'', JText code),
               (''error_message'', JText msg), (''retry_delay_ms'', JInt (delay div 1000000)),
               (''exhausted'', JBool exhausted)] db2
      in tx_bind (refresh_coordinator_operation_tx (rv_operation_id r) now db3) (\<lambda>db4.
           Inr (\<lparr>fs_revision = fr r, fs_attempt = fa a, fs_retry_delay = delay,
                 fs_exhausted = exhausted\<rparr>, db4)))"

definition fail_tx ::
  "failure_request \<Rightarrow> string \<Rightarrow> time \<Rightarrow> db \<Rightarrow> coord_error + (failure_result \<times> db)" where
  "fail_tx req gen now db =
     (let l = fr_lease req in
      tx_bind (read_pointer (ls_agent_id l) db) (\<lambda>p.
      tx_bind (lock_coordinator_attempt l db) (\<lambda>a.
      if at_lease_id a \<noteq> ls_lease_id l \<or> at_state a \<noteq> AttStarted then Inl ELeaseConflict
      else if \<not> now < at_deadline_at a then Inl ELeaseConflict
      else if pt_desired_revision p > ls_revision l then Inl ELeaseConflict
      else tx_bind (read_revision (ls_agent_id l) (ls_revision l) db) (\<lambda>r.
        if rv_state r \<noteq> RevApplying \<or> rv_attempt_count r \<noteq> at_attempt a then Inl EStateConflict
        else if rv_generation_id r \<noteq> gen then Inl EStateConflict
        else fail_started_coordinator_attempt_tx r a now (fr_jitter req) (fr_error_code req)
               (fr_error_message req) db))))"

definition fail_agent_revision_attempt ::
  "time \<Rightarrow> failure_request \<Rightarrow> db \<Rightarrow> failure_result outcome" where
  "fail_agent_revision_attempt clock req db =
     (let now = coordinator_time clock (fr_now req); gen = trim_space (fr_generation_id req) in
      if \<not> validate_coordinator_lease (fr_lease req) then (Inl EInvalid, db)
      else if gen = [] then (Inl EInvalid, db)
      else commit db (fail_tx req gen now db))"

subsection \<open>Activation\<close>

text \<open>
  The generation of the applied revision becomes the agent's active one; every other active
  generation of the agent starts draining.
\<close>

definition demote_generations :: "string \<Rightarrow> string \<Rightarrow> time \<Rightarrow> agent_generation list \<Rightarrow> agent_generation list" where
  "demote_generations agent gen now =
     upd_where (\<lambda>g. gn_agent_id g = agent \<and> gn_generation_id g \<noteq> gen \<and> gn_state g = GenActive)
       (\<lambda>g. g\<lparr>gn_state := GenDraining, gn_updated_at := now\<rparr>)"

definition upsert_active_generation ::
  "string \<Rightarrow> string \<Rightarrow> int \<Rightarrow> time \<Rightarrow> agent_generation list \<Rightarrow> agent_generation list" where
  "upsert_active_generation agent gen n now t =
     (if \<exists>g \<in> set t. gn_key g = (agent, gen) then
        upd_where (\<lambda>g. gn_key g = (agent, gen))
          (\<lambda>g. g\<lparr>gn_revision := n, gn_state := GenActive, gn_forced := False,
                 gn_force_reason := [], gn_drained_at := None, gn_updated_at := now\<rparr>) t
      else t @ [\<lparr>gn_agent_id = agent, gn_generation_id = gen, gn_revision = n,
                 gn_state = GenActive, gn_session_count = 0, gn_forced = False,
                 gn_force_reason = [], gn_created_at = now, gn_updated_at = now,
                 gn_drained_at = None\<rparr>])"

definition draining_count :: "string \<Rightarrow> agent_generation list \<Rightarrow> nat" where
  "draining_count agent = count_where (\<lambda>g. gn_agent_id g = agent \<and> gn_state g = GenDraining)"

definition activate_coordinator_generation_tx ::
  "agent_revision \<Rightarrow> string \<Rightarrow> time \<Rightarrow> db \<Rightarrow> drain_state \<times> db" where
  "activate_coordinator_generation_tx r gen now db =
     (let gs = upsert_active_generation (rv_agent_id r) gen (rv_revision r) now
                 (demote_generations (rv_agent_id r) gen now (db_generations db))
      in (if draining_count (rv_agent_id r) gs > 0 then Draining else Drained,
          db\<lparr>db_generations := gs\<rparr>))"

text \<open>
  The pointer only moves forward: the guarded update writes the row when no component
  decreases; a row that did not match is accepted when it already holds the target.
\<close>

definition pointer_below :: "revision_pointer \<Rightarrow> revision_pointer \<Rightarrow> bool" where
  "pointer_below p q \<longleftrightarrow>
     pt_desired_revision p \<le> pt_desired_revision q \<and> pt_applied_revision p \<le> pt_applied_revision q \<and>
     pt_last_known_good_revision p \<le> pt_last_known_good_revision q"

definition update_coordinator_pointer_tx :: "revision_pointer \<Rightarrow> db \<Rightarrow> coord_error + db" where
  "update_coordinator_pointer_tx q db =
     (let P = (\<lambda>p. pt_agent_id p = pt_agent_id q \<and> pointer_below p q) in
      if count_where P (db_pointers db) = 1 then
        Inr (db\<lparr>db_pointers := upd_where P
               (\<lambda>p. p\<lparr>pt_desired_revision := pt_desired_revision q,
                      pt_applied_revision := pt_applied_revision q,
                      pt_last_known_good_revision := pt_last_known_good_revision q,
                      pt_updated_at := pt_updated_at q\<rparr>) (db_pointers db)\<rparr>)
      else tx_bind (first_where ERecordNotFound (\<lambda>p. pt_agent_id p = pt_agent_id q)
                      (db_pointers db)) (\<lambda>current.
        if pt_desired_revision current = pt_desired_revision q \<and>
           pt_applied_revision current = pt_applied_revision q \<and>
           pt_last_known_good_revision current = pt_last_known_good_revision q
        then Inr db else Inl EStateConflict))"

subsection \<open>Apply\<close>

record apply_request =
  ap_lease :: coordinator_lease
  ap_generation_id :: string
  ap_now :: "time option"

record apply_result =
  as_revision :: agent_revision
  as_attempt :: revision_attempt
  as_pointer :: revision_pointer

definition apply_revision_row ::
  "string \<Rightarrow> drain_state \<Rightarrow> time \<Rightarrow> agent_revision \<Rightarrow> agent_revision" where
  "apply_revision_row gen drain now r =
     r\<lparr>rv_state := RevApplied, rv_generation_id := gen, rv_drain_state := drain,
       rv_next_attempt_at := None, rv_error_code := [], rv_error_message := [],
       rv_failed_at := None, rv_applied_at := Some now, rv_updated_at := now\<rparr>"

definition advance_pointer :: "int \<Rightarrow> time \<Rightarrow> revision_pointer \<Rightarrow> revision_pointer" where
  "advance_pointer n now p =
     p\<lparr>pt_applied_revision := max (pt_applied_revision p) n,
       pt_last_known_good_revision := max (pt_last_known_good_revision p) n,
       pt_updated_at := now\<rparr>"

definition apply_started_tx ::
  "string \<Rightarrow> time \<Rightarrow> revision_pointer \<Rightarrow> revision_attempt \<Rightarrow> agent_revision \<Rightarrow> db \<Rightarrow>
   coord_error + (apply_result \<times> db)" where
  "apply_started_tx gen now p a r db =
     (case activate_coordinator_generation_tx r gen now db of (drain, db1) \<Rightarrow>
      let db2 = db1\<lparr>db_attempts := upd_where
              (\<lambda>x. at_key x = at_key a \<and> at_lease_id x = at_lease_id a \<and> at_state x = AttStarted)
              (\<lambda>x. x\<lparr>at_state := AttApplied, at_finished_at := Some now, at_error_code := [],
                     at_error := []\<rparr>) (db_attempts db1)\<rparr>;
          db3 = db2\<lparr>db_revisions := upd_where (\<lambda>x. rv_key x = rv_key r)
              (apply_revision_row gen drain now) (db_revisions db2)\<rparr>;
          p' = advance_pointer (rv_revision r) now p
      in tx_bind (update_coordinator_pointer_tx p' db3) (\<lambda>db4.
         let a' = a\<lparr>at_state := AttApplied, at_finished_at := Some now\<rparr>;
             r' = apply_revision_row gen drain now r;
             db5 = append_coordinator_event_tx r' ''revision_applied'' now
               [(''retry_cycle'', JInt (at_retry_cycle a')), (''attempt'', JInt (at_attempt a')),
                (''lease_id'', JText (at_lease_id a')), (''generation_id'', JText gen),
                (''drain_state'', JText (drain_state_text drain))] db4
         in tx_bind (refresh_coordinator_operation_tx (rv_operation_id r') now db5) (\<lambda>db6.
              Inr (\<lparr>as_revision = r', as_attempt = a', as_pointer = p'\<rparr>, db6))))"

definition apply_tx ::
  "coordinator_lease \<Rightarrow> string \<Rightarrow> time \<Rightarrow> db \<Rightarrow> coord_error + (apply_result \<times> db)" where
  "apply_tx l gen now db =
     tx_bind (read_pointer (ls_agent_id l) db) (\<lambda>p.
     tx_bind (lock_coordinator_attempt l db) (\<lambda>a.
     tx_bind (read_revision (ls_agent_id l) (ls_revision l) db) (\<lambda>r.
     if at_lease_id a \<noteq> ls_lease_id l then Inl ELeaseConflict
     else if at_state a = AttApplied then
       if rv_state r \<noteq> RevApplied \<or> rv_attempt_count r \<noteq> at_attempt a \<or>
          rv_generation_id r \<noteq> gen \<or> pt_applied_revision p \<noteq> rv_revision r
       then Inl EStateConflict
       else Inr (\<lparr>as_revision = r, as_attempt = a, as_pointer = p\<rparr>, db)
     else if at_state a \<noteq> AttStarted then Inl ELeaseConflict
     else if \<not> now < at_deadline_at a then Inl ELeaseConflict
     else if pt_desired_revision p \<noteq> ls_revision l then Inl ELeaseConflict
     else if pt_applied_revision p > ls_revision l then Inl ELeaseConflict
     else if rv_state r \<noteq> RevApplying \<or> rv_attempt_count r \<noteq> at_attempt a then Inl EStateConflict
     else if rv_generation_id r \<noteq> gen then Inl EStateConflict
     else apply_started_tx gen now p a r db)))"

definition apply_agent_revision_attempt ::
  "time \<Rightarrow> apply_request \<Rightarrow> db \<Rightarrow> apply_result outcome" where
  "apply_agent_revision_attempt clock req db =
     (let now = coordinator_time clock (ap_now req); gen = trim_space (ap_generation_id req) in
      if \<not> validate_coordinator_lease (ap_lease req) then (Inl EInvalid, db)
      else if gen = [] then (Inl EInvalid, db)
      else commit db (apply_tx (ap_lease req) gen now db))"

end
