(* ===== verification/CoordReconcile.thy ===== *)
theory CoordReconcile
  imports CoordReport
begin

text \<open>
  Draining reports and the repair operations of \<open>storage/revision_coordinator.go\<close>: completing
  or forcing a drain, reconciling an agent after a timeout or a crash, adopting an agent's
  journal, and retiring a deleted agent.
\<close>

subsection \<open>Drain reports\<close>

record drain_request =
  dr_agent_id :: string
  dr_generation_id :: string
  dr_lease :: coordinator_lease
  dr_forced :: bool
  dr_force_reason :: string
  dr_now :: "time option"

definition coordinator_lease_id_equal :: "string \<Rightarrow> string \<Rightarrow> bool" where
  "coordinator_lease_id_equal left right \<longleftrightarrow>
     trim_space left \<noteq> [] \<and> trim_space left = trim_space right"

text \<open>\<open>Inr True\<close>: the drain deadline has passed.\<close>

definition validate_coordinator_drain_lease_tx ::
  "string \<Rightarrow> coordinator_lease \<Rightarrow> time \<Rightarrow> revision_pointer \<Rightarrow> agent_generation \<Rightarrow> db \<Rightarrow>
   coord_error + bool" where
  "validate_coordinator_drain_lease_tx agent l now p g db =
     (if ls_agent_id l = [] \<or> ls_agent_id l \<noteq> agent \<or> ls_revision l \<le> 0 \<or> ls_retry_cycle l < 0 \<or>
         ls_attempt l \<le> 0 \<or> ls_lease_id l = [] then Inl ELeaseConflict
      else if pt_applied_revision p \<noteq> ls_revision l then Inl ELeaseConflict
      else case find_revision (ls_agent_id l) (ls_revision l) db of
        None \<Rightarrow> Inl ELeaseConflict
      | Some r \<Rightarrow>
          (case rv_applied_at r of
             None \<Rightarrow> Inl ELeaseConflict
           | Some applied_at \<Rightarrow>
               if rv_state r \<noteq> RevApplied \<or> rv_retry_cycle r \<noteq> ls_retry_cycle l \<or>
                  rv_attempt_count r \<noteq> ls_attempt l then Inl ELeaseConflict
               else (case find_attempt (ls_agent_id l) (ls_revision l) (ls_retry_cycle l)
                            (ls_attempt l) db of
                   None \<Rightarrow> Inl ELeaseConflict
                 | Some a \<Rightarrow>
                     if at_state a \<noteq> AttApplied \<or>
                        \<not> coordinator_lease_id_equal (at_lease_id a) (ls_lease_id l)
                     then Inl ELeaseConflict
                     else if gn_revision g \<ge> ls_revision l then Inl ELeaseConflict
                     else if gn_state g = GenDrained \<or> gn_state g = GenForced then Inr False
                     else if gn_state g \<noteq> GenDraining then Inl ELeaseConflict
                     else (case coordinator_drain_deadline applied_at
                                  (rv_drain_timeout_seconds r) of
                         None \<Rightarrow> Inl ELeaseConflict
                       | Some deadline \<Rightarrow> Inr (\<not> now < deadline)))))"

definition finish_generation_row ::
  "generation_state \<Rightarrow> bool \<Rightarrow> string \<Rightarrow> time \<Rightarrow> agent_generation \<Rightarrow> agent_generation" where
  "finish_generation_row st forced reason now g =
     g\<lparr>gn_state := st, gn_forced := forced, gn_force_reason := reason,
       gn_drained_at := Some now, gn_updated_at := now\<rparr>"

text \<open>
  The drain state of the applied revision once its last draining predecessor is done:
  forced when this drain was, or when an earlier predecessor was forced since it was applied.
\<close>

definition aggregate_drain_state ::
  "drain_state \<Rightarrow> agent_revision \<Rightarrow> agent_generation list \<Rightarrow> drain_state" where
  "aggregate_drain_state st r gs =
     (case rv_applied_at r of
        None \<Rightarrow> st
      | Some applied_at \<Rightarrow>
          if st \<noteq> Forced \<and>
             count_where (\<lambda>g. gn_agent_id g = rv_agent_id r \<and> gn_revision g < rv_revision r \<and>
                gn_state g = GenForced \<and>
                (case gn_drained_at g of None \<Rightarrow> False | Some t \<Rightarrow> t \<ge> applied_at)) gs > 0
          then Forced else st)"

definition finish_drain_tx ::
  "string \<Rightarrow> string \<Rightarrow> bool \<Rightarrow> string \<Rightarrow> time \<Rightarrow> revision_pointer \<Rightarrow> db \<Rightarrow>
   coord_error + (agent_revision \<times> db)" where
  "finish_drain_tx agent gen forced reason now p db =
     (let st = (if forced then GenForced else GenDrained);
          drain = (if forced then Forced else Drained);
          gs = upd_where (\<lambda>g. gn_key g = (agent, gen) \<and> gn_state g = GenDraining)
                 (finish_generation_row st forced reason now) (db_generations db);
          db1 = db\<lparr>db_generations := gs\<rparr>
      in tx_bind (read_revision agent (pt_applied_revision p) db1) (\<lambda>r.
         let (r', db2) =
               (if draining_count agent gs = 0 then
                  (let f = (\<lambda>x. x\<lparr>rv_drain_state := aggregate_drain_state drain r gs,
                                   rv_updated_at := now\<rparr>)
                   in (f r, db1\<lparr>db_revisions := upd_where (\<lambda>x. rv_key x = rv_key r) f
                        (db_revisions db1)\<rparr>))
                else (r, db1))
         in Inr (r', append_coordinator_event_tx r' (''generation_'' @ drain_state_text drain) now
              [(''generation_id'', JText gen), (''forced'', JBool forced),
               (''force_reason'', JText reason)] db2)))"

definition drain_tx ::
  "drain_request \<Rightarrow> string \<Rightarrow> string \<Rightarrow> coordinator_lease \<Rightarrow> time \<Rightarrow> db \<Rightarrow>
   coord_error + (agent_revision \<times> db)" where
  "drain_tx req agent gen l now db =
     tx_bind (read_pointer agent db) (\<lambda>p.
     tx_bind (first_where ENotFound (\<lambda>g. gn_agent_id g = agent \<and> gn_generation_id g = gen)
                (db_generations db)) (\<lambda>g.
     tx_bind (validate_coordinator_drain_lease_tx agent l now p g db) (\<lambda>expired.
     if gn_state g = GenDrained \<or> gn_state g = GenForced then
       tx_bind (read_revision agent (pt_applied_revision p) db) (\<lambda>r. Inr (r, db))
     else if gn_state g \<noteq> GenDraining then Inl EStateConflict
     else finish_drain_tx agent gen (dr_forced req \<or> expired)
            (if expired then ''timeout'' else trim_space (dr_force_reason req)) now p db)))"

definition complete_coordinator_drain ::
  "time \<Rightarrow> drain_request \<Rightarrow> db \<Rightarrow> agent_revision outcome" where
  "complete_coordinator_drain clock req db =
     (let gen = trim_space (dr_generation_id req);
          now = coordinator_time clock (dr_now req);
          l = (dr_lease req)\<lparr>ls_agent_id := trim_space (ls_agent_id (dr_lease req)),
                             ls_lease_id := trim_space (ls_lease_id (dr_lease req))\<rparr>;
          agent = (if trim_space (dr_agent_id req) = [] then ls_agent_id l
                   else trim_space (dr_agent_id req))
      in if ls_agent_id l = [] \<or> ls_revision l \<le> 0 \<or> ls_retry_cycle l < 0 \<or> ls_attempt l \<le> 0 \<or>
            ls_lease_id l = [] then (Inl ELeaseConflict, db)
         else if agent = [] \<or> gen = [] then (Inl EInvalid, db)
         else commit db (drain_tx req agent gen l now db))"

subsection \<open>Reconciliation\<close>

text \<open>
  Every predecessor generation that still drains after the applied revision's drain deadline
  is forced, in the order of revision and generation id.
\<close>

fun force_drains ::
  "agent_revision \<Rightarrow> time \<Rightarrow> agent_generation list \<Rightarrow> db \<Rightarrow> db" where
  "force_drains r now [] db = db"
| "force_drains r now (g # gs) db =
     force_drains r now gs
       (append_coordinator_event_tx r ''generation_forced'' now
          [(''generation_id'', JText (gn_generation_id g)), (''forced'', JBool True),
           (''force_reason'', JText ''timeout'')]
          (db\<lparr>db_generations := upd_where
             (\<lambda>x. gn_key x = gn_key g \<and> gn_state x = GenDraining)
             (finish_generation_row GenForced True ''timeout'' now) (db_generations db)\<rparr>))"

definition force_draining_tx ::
  "agent_revision \<Rightarrow> time \<Rightarrow> agent_generation list \<Rightarrow> db \<Rightarrow> coord_error + (nat \<times> db)" where
  "force_draining_tx r now draining db =
     (let db1 = force_drains r now draining db in
      if draining = [] then Inr (0, db1)
      else
        let db2 = db1\<lparr>db_revisions := upd_where (\<lambda>x. rv_key x = rv_key r)
              (\<lambda>x. x\<lparr>rv_drain_state := Forced, rv_updated_at := now\<rparr>) (db_revisions db1)\<rparr>
        in tx_bind (refresh_coordinator_operation_tx (rv_operation_id r) now db2)
             (\<lambda>db3. Inr (length draining, db3)))"

definition force_expired_coordinator_drains_tx ::
  "revision_pointer \<Rightarrow> time \<Rightarrow> db \<Rightarrow> coord_error + (nat \<times> db)" where
  "force_expired_coordinator_drains_tx p now db =
     (if pt_applied_revision p \<le> 0 then Inr (0, db)
      else case find_revision (pt_agent_id p) (pt_applied_revision p) db of
        None \<Rightarrow> Inr (0, db)
      | Some r \<Rightarrow>
          (case rv_applied_at r of
             None \<Rightarrow> Inr (0, db)
           | Some applied_at \<Rightarrow>
               if rv_state r \<noteq> RevApplied then Inr (0, db)
               else (case coordinator_drain_deadline applied_at (rv_drain_timeout_seconds r) of
                   None \<Rightarrow> Inr (0, db)
                 | Some deadline \<Rightarrow>
                     if now < deadline then Inr (0, db)
                     else
                       force_draining_tx r now
                         (sort_key (\<lambda>g. (gn_revision g, gn_generation_id g))
                            (filter (\<lambda>g. gn_agent_id g = pt_agent_id p \<and>
                               gn_revision g < pt_applied_revision p \<and> gn_state g = GenDraining)
                               (db_generations db))) db)))"

text \<open>An applying revision without a started attempt counts as a failed attempt.\<close>

definition orphan_revision_row ::
  "time \<Rightarrow> go_float \<Rightarrow> agent_revision \<Rightarrow> agent_revision" where
  "orphan_revision_row now jitter r =
     (if rv_attempt_count r \<le> 0 then
        r\<lparr>rv_state := RevPending, rv_next_attempt_at := None, rv_generation_id := [],
          rv_error_code := ''orphaned_apply'',
          rv_error_message := ''applying revision had no active attempt'', rv_updated_at := now\<rparr>
      else fail_revision_row ''orphaned_apply'' ''applying revision had no active attempt'' now
             (retry_delay_of r jitter) (attempts_exhausted r) r)"

definition reconcile_orphan_applying_revision_tx ::
  "agent_revision \<Rightarrow> time \<Rightarrow> go_float \<Rightarrow> db \<Rightarrow> coord_error + (agent_revision \<times> db)" where
  "reconcile_orphan_applying_revision_tx r now jitter db =
     (let r' = orphan_revision_row now jitter r;
          db1 = db\<lparr>db_revisions := upd_where
              (\<lambda>x. rv_key x = rv_key r \<and> rv_state x = RevApplying)
              (orphan_revision_row now jitter) (db_revisions db)\<rparr>
      in if rv_attempt_count r \<le> 0 then Inr (r', db1)
         else tx_bind (refresh_coordinator_operation_tx (rv_operation_id r') now
                (append_coordinator_event_tx r' ''orphaned_apply_reconciled'' now [] db1)) (\<lambda>db2.
                Inr (r', db2)))"

record reconcile_result =
  rc_agent_id :: string
  rc_ready :: bool
  rc_attempts_consumed :: nat
  rc_drains_forced :: nat
  rc_superseded :: "int list"

definition reconcile_attempt_tx ::
  "string \<Rightarrow> revision_pointer \<Rightarrow> time \<Rightarrow> go_float \<Rightarrow> revision_attempt \<Rightarrow>
   reconcile_result \<times> db \<Rightarrow> coord_error + (reconcile_result \<times> db)" where
  "reconcile_attempt_tx agent p now jitter a st =
     (case st of (res, db) \<Rightarrow>
      if at_revision a < pt_desired_revision p then
        (case supersede_attempt_tx a now db of (a', db1) \<Rightarrow>
         tx_bind (supersede_revision_tx agent (at_revision a) now db1) (\<lambda>db2.
           Inr (res\<lparr>rc_superseded := append_unique_revisions (rc_superseded res) [at_revision a]\<rparr>,
                db2)))
      else if at_revision a > pt_desired_revision p then Inl EStateConflict
      else if now < at_deadline_at a then Inr (res, db)
      else (case at_state a of
          AttLeased \<Rightarrow> tx_bind (expire_unstarted_attempt_tx a now db) (\<lambda>db1. Inr (res, db1))
        | AttStarted \<Rightarrow>
            tx_bind (read_revision agent (at_revision a) db) (\<lambda>r.
            tx_bind (fail_started_coordinator_attempt_tx r a now jitter ''apply_timeout''
                       ''apply attempt deadline expired'' db) (\<lambda>(fs, db1).
              Inr (res\<lparr>rc_attempts_consumed := rc_attempts_consumed res + 1\<rparr>, db1)))
        | _ \<Rightarrow> Inr (res, db)))"

fun reconcile_attempts_tx ::
  "string \<Rightarrow> revision_pointer \<Rightarrow> time \<Rightarrow> go_float \<Rightarrow> revision_attempt list \<Rightarrow>
   reconcile_result \<times> db \<Rightarrow> coord_error + (reconcile_result \<times> db)" where
  "reconcile_attempts_tx agent p now jitter [] st = Inr st"
| "reconcile_attempts_tx agent p now jitter (a # as) st =
     tx_bind (reconcile_attempt_tx agent p now jitter a st)
       (\<lambda>st1. reconcile_attempts_tx agent p now jitter as st1)"

definition attempt_due :: "time \<Rightarrow> agent_revision \<Rightarrow> bool" where
  "attempt_due now r \<longleftrightarrow>
     (case rv_next_attempt_at r of None \<Rightarrow> True | Some t \<Rightarrow> \<not> now < t)"

definition reconcile_desired_tx ::
  "string \<Rightarrow> revision_pointer \<Rightarrow> time \<Rightarrow> go_float \<Rightarrow> reconcile_result \<times> db \<Rightarrow>
   coord_error + (reconcile_result \<times> db)" where
  "reconcile_desired_tx agent p now jitter st =
     (case st of (res, db) \<Rightarrow>
      (case find_revision agent (pt_desired_revision p) db of
         None \<Rightarrow> Inr (res, db)
       | Some desired \<Rightarrow>
           tx_bind
             (if rv_state desired = RevApplying \<and>
                 count_where (\<lambda>a. at_agent_id a = agent \<and> at_revision a = rv_revision desired \<and>
                    at_retry_cycle a = rv_retry_cycle desired \<and> at_state a = AttStarted)
                    (db_attempts db) = 0
              then tx_bind (reconcile_orphan_applying_revision_tx desired now jitter db)
                     (\<lambda>(d, db1).
                       Inr (d, res\<lparr>rc_attempts_consumed := rc_attempts_consumed res + 1\<rparr>, db1))
              else Inr (desired, res, db))
             (\<lambda>(d, res1, db1).
               Inr (res1\<lparr>rc_ready := (rv_state d = RevPending \<and> attempt_due now d)\<rparr>, db1))))"

definition reconcile_tx ::
  "string \<Rightarrow> time \<Rightarrow> go_float \<Rightarrow> db \<Rightarrow> coord_error + (reconcile_result \<times> db)" where
  "reconcile_tx agent now jitter db =
     (let res = \<lparr>rc_agent_id = agent, rc_ready = False, rc_attempts_consumed = 0,
                 rc_drains_forced = 0, rc_superseded = []\<rparr> in
      case lock_coordinator_pointer agent db of
        None \<Rightarrow> Inr (res, db)
      | Some p \<Rightarrow>
          tx_bind (reconcile_attempts_tx agent p now jitter
                     (lock_active_coordinator_attempts agent db) (res, db)) (\<lambda>(res1, db1).
          tx_bind (force_expired_coordinator_drains_tx p now db1) (\<lambda>(n, db2).
          tx_bind (supersede_older_coordinator_revisions_tx p now db2) (\<lambda>(older, db3).
            reconcile_desired_tx agent p now jitter
              (res1\<lparr>rc_drains_forced := n,
                     rc_superseded := append_unique_revisions (rc_superseded res1) older\<rparr>, db3)))))"

definition reconcile_coordinator_agent ::
  "time \<Rightarrow> string \<Rightarrow> time option \<Rightarrow> go_float \<Rightarrow> db \<Rightarrow> reconcile_result outcome" where
  "reconcile_coordinator_agent clock agent0 now0 jitter db =
     (let agent = trim_space agent0; now = coordinator_time clock now0 in
      if agent = [] then (Inl EInvalid, db)
      else commit db (reconcile_tx agent now jitter db))"

end
