(* ===== verification/CoordActions.thy ===== *)
theory CoordActions
  imports CoordReconcile
begin

text \<open>
  Operator actions and journal adoption of \<open>storage/revision_coordinator.go\<close>: retrying a failed
  revision, rolling back to (or repairing from) a known good revision as a new revision, both
  replayed under an idempotency key; adopting the revision an agent's journal reports; and
  retiring a deleted agent.
\<close>

subsection \<open>Idempotent actions\<close>

record action_idempotency =
  ai_scope :: string
  ai_key :: string
  ai_request_fingerprint :: string
  ai_http_request_fingerprint :: string
  ai_expires_at :: time

definition coordinator_action_idempotency_enabled :: "action_idempotency \<Rightarrow> bool" where
  "coordinator_action_idempotency_enabled i \<longleftrightarrow> trim_space (ai_key i) \<noteq> []"

definition validate_coordinator_action_idempotency :: "action_idempotency \<Rightarrow> time \<Rightarrow> bool" where
  "validate_coordinator_action_idempotency i now \<longleftrightarrow>
     \<not> coordinator_action_idempotency_enabled i \<or>
     \<not> (trim_space (ai_scope i) = [] \<or> trim_space (ai_request_fingerprint i) = [] \<or>
        \<not> ai_expires_at i > now)"

text \<open>A record whose response does not decode (\<open>None\<close>) is an error, as is an incomplete one.\<close>

definition decode_coordinator_action_replay :: "action_replay option \<Rightarrow> coord_error + action_replay" where
  "decode_coordinator_action_replay resp =
     (case resp of
        None \<Rightarrow> Inl EInvalid
      | Some p0 \<Rightarrow>
          let p = (if rp_operation_id p0 = [] then p0\<lparr>rp_operation_id := rp_operation_row_id p0\<rparr> else p0)
          in if rp_operation_id p = [] \<or> rp_agent_id p = [] \<or> rp_desired_revision p \<le> 0
             then Inl EInvalid else Inr p)"

definition load_coordinator_action_replay_tx ::
  "action_idempotency \<Rightarrow> time \<Rightarrow> db \<Rightarrow> coord_error + (action_replay option \<times> db)" where
  "load_coordinator_action_replay_tx i now db =
     (if \<not> coordinator_action_idempotency_enabled i then Inr (None, db)
      else let P = (\<lambda>x. id_scope x = trim_space (ai_scope i) \<and> id_key x = trim_space (ai_key i)) in
        case find P (db_idempotency db) of
          None \<Rightarrow> Inr (None, db)
        | Some rec \<Rightarrow>
            if \<not> id_expires_at rec > now then
              Inr (None, db\<lparr>db_idempotency := filter (\<lambda>x. \<not> (P x \<and>
                id_operation_id x = id_operation_id rec)) (db_idempotency db)\<rparr>)
            else if id_request_fingerprint rec \<noteq> trim_space (ai_request_fingerprint i)
            then Inl EStateConflict
            else tx_bind (decode_coordinator_action_replay (id_response rec)) (\<lambda>p.
              Inr (Some p, db)))"

definition persist_coordinator_action_replay_tx ::
  "action_idempotency \<Rightarrow> action_replay \<Rightarrow> time \<Rightarrow> db \<Rightarrow> coord_error + db" where
  "persist_coordinator_action_replay_tx i payload now db =
     (if \<not> coordinator_action_idempotency_enabled i then Inr db
      else if \<exists>x \<in> set (db_idempotency db). id_scope x = trim_space (ai_scope i) \<and>
                id_key x = trim_space (ai_key i) then Inl EDuplicateKey
      else Inr (db\<lparr>db_idempotency := db_idempotency db @
             [\<lparr>id_scope = trim_space (ai_scope i), id_key = trim_space (ai_key i),
               id_request_fingerprint = trim_space (ai_request_fingerprint i),
               id_operation_id = rp_operation_id payload, id_response = Some payload,
               id_created_at = now, id_expires_at = ai_expires_at i\<rparr>]\<rparr>))"

text \<open>The read outside the transaction that answers a request whose transaction failed.\<close>

definition load_coordinator_action_replay ::
  "action_idempotency \<Rightarrow> time \<Rightarrow> db \<Rightarrow> coord_error + action_replay option" where
  "load_coordinator_action_replay i now db =
     (if \<not> coordinator_action_idempotency_enabled i then Inr None
      else case find (\<lambda>x. id_scope x = trim_space (ai_scope i) \<and> id_key x = trim_space (ai_key i))
                  (db_idempotency db) of
          None \<Rightarrow> Inr None
        | Some rec \<Rightarrow>
            if \<not> id_expires_at rec > now then Inr None
            else if id_request_fingerprint rec \<noteq> trim_space (ai_request_fingerprint i)
            then Inl EStateConflict
            else tx_bind (decode_coordinator_action_replay (id_response rec)) (\<lambda>p. Inr (Some p)))"

subsection \<open>Retry\<close>

record retry_request =
  rr_agent_id :: string
  rr_revision :: int
  rr_now :: "time option"
  rr_idempotency :: action_idempotency

type_synonym retry_result = "agent_revision \<times> bool"   \<comment> \<open>with \<open>Replayed\<close>\<close>

definition retry_revision_row :: "time \<Rightarrow> agent_revision \<Rightarrow> agent_revision" where
  "retry_revision_row now r =
     r\<lparr>rv_retry_cycle := rv_retry_cycle r + 1, rv_attempt_count := 0, rv_state := RevPending,
       rv_next_attempt_at := None, rv_error_code := [], rv_error_message := [],
       rv_failed_at := None, rv_updated_at := now\<rparr>"

definition retry_fresh_tx ::
  "string \<Rightarrow> int \<Rightarrow> time \<Rightarrow> action_idempotency \<Rightarrow> db \<Rightarrow> coord_error + (retry_result \<times> db)" where
  "retry_fresh_tx agent n now i db =
     tx_bind (read_pointer agent db) (\<lambda>p.
     if pt_desired_revision p \<noteq> n then Inl EStateConflict
     else if lock_active_coordinator_attempts agent db \<noteq> [] then Inl EStateConflict
     else tx_bind (read_revision agent n db) (\<lambda>r.
       if rv_state r \<noteq> RevFailed then Inl EStateConflict
       else
         let r' = retry_revision_row now r;
             db1 = db\<lparr>db_revisions := upd_where (\<lambda>x. rv_key x = (agent, n) \<and> rv_state x = RevFailed)
                 (retry_revision_row now) (db_revisions db)\<rparr>;
             db2 = append_coordinator_event_tx r' ''revision_retry_requested'' now
                 [(''retry_cycle'', JInt (rv_retry_cycle r'))] db1
         in tx_bind (refresh_coordinator_operation_tx (rv_operation_id r') now db2) (\<lambda>db3.
            tx_bind (persist_coordinator_action_replay_tx i
                 \<lparr>rp_operation_id = rv_operation_id r', rp_agent_id = rv_agent_id r',
                  rp_desired_revision = rv_revision r',
                  rp_apply_status = revision_state_text (rv_state r'),
                  rp_http_request_fingerprint = ai_http_request_fingerprint i,
                  rp_operation_row_id = []\<rparr> now db3) (\<lambda>db4.
              Inr ((r', False), db4)))))"

definition retry_tx ::
  "string \<Rightarrow> int \<Rightarrow> time \<Rightarrow> action_idempotency \<Rightarrow> db \<Rightarrow> coord_error + (retry_result \<times> db)" where
  "retry_tx agent n now i db =
     tx_bind (load_coordinator_action_replay_tx i now db) (\<lambda>(replay, db0).
       case replay of
         Some p \<Rightarrow>
           if rp_agent_id p \<noteq> agent \<or> rp_desired_revision p \<noteq> n then Inl EStateConflict
           else tx_bind (read_revision agent n db0) (\<lambda>r. Inr ((r, True), db0))
       | None \<Rightarrow> retry_fresh_tx agent n now i db0)"

definition retry_coordinator_revision_idempotent ::
  "time \<Rightarrow> retry_request \<Rightarrow> db \<Rightarrow> retry_result outcome" where
  "retry_coordinator_revision_idempotent clock req db =
     (let agent = trim_space (rr_agent_id req); now = coordinator_time clock (rr_now req);
          n = rr_revision req; i = rr_idempotency req in
      if agent = [] \<or> n < 0 then (Inl EInvalid, db)
      else if \<not> validate_coordinator_action_idempotency i now then (Inl EInvalid, db)
      else case commit db (retry_tx agent n now i db) of
        (Inr res, db') \<Rightarrow> (Inr res, db')
      | (Inl e, db') \<Rightarrow>
          if \<not> coordinator_action_idempotency_enabled i then (Inl e, db')
          else (case load_coordinator_action_replay i now db' of
              Inl e' \<Rightarrow> (Inl e', db')
            | Inr None \<Rightarrow> (Inl e, db')
            | Inr (Some p) \<Rightarrow>
                if rp_agent_id p = agent \<and> rp_desired_revision p = n then
                  (case get_coordinator_revision agent n db' of
                     None \<Rightarrow> (Inl e, db') | Some r \<Rightarrow> (Inr (r, True), db'))
                else (Inl e, db')))"

definition retry_coordinator_revision ::
  "time \<Rightarrow> string \<Rightarrow> int \<Rightarrow> time option \<Rightarrow> db \<Rightarrow> agent_revision outcome" where
  "retry_coordinator_revision clock agent n now db =
     (case retry_coordinator_revision_idempotent clock
             \<lparr>rr_agent_id = agent, rr_revision = n, rr_now = now,
              rr_idempotency = \<lparr>ai_scope = [], ai_key = [], ai_request_fingerprint = [],
                ai_http_request_fingerprint = [], ai_expires_at = 0\<rparr>\<rparr> db of
        (Inl e, db') \<Rightarrow> (Inl e, db')
      | (Inr (r, _), db') \<Rightarrow> (Inr r, db'))"

subsection \<open>Journal\<close>

record journal_request =
  jr_agent_id :: string
  jr_revision :: int
  jr_snapshot_digest :: string
  jr_generation_id :: string
  jr_now :: "time option"

record journal_result =
  js_revision :: "agent_revision option"
  js_pointer :: revision_pointer
  js_stale :: bool

definition journal_adopt_tx ::
  "string \<Rightarrow> int \<Rightarrow> string \<Rightarrow> string \<Rightarrow> time \<Rightarrow> revision_pointer \<Rightarrow> agent_revision \<Rightarrow> db \<Rightarrow>
   coord_error + (journal_result \<times> db)" where
  "journal_adopt_tx agent n digest gen now p r db =
     (case activate_coordinator_generation_tx r gen now db of (drain, db1) \<Rightarrow>
      let db2 = db1\<lparr>db_attempts := upd_where
              (\<lambda>a. at_agent_id a = agent \<and> at_revision a = n \<and> attempt_active a)
              (\<lambda>a. a\<lparr>at_state := AttApplied, at_finished_at := Some now, at_error_code := [],
                     at_error := []\<rparr>) (db_attempts db1)\<rparr>;
          db3 = db2\<lparr>db_revisions := upd_where (\<lambda>x. rv_key x = (agent, n))
              (apply_revision_row gen drain now) (db_revisions db2)\<rparr>;
          p' = advance_pointer n now p
      in tx_bind (update_coordinator_pointer_tx p' db3) (\<lambda>db4.
         let r' = apply_revision_row gen drain now r;
             db5 = append_coordinator_event_tx r' ''revision_reconciled_applied'' now
               [(''generation_id'', JText gen), (''snapshot_digest'', JText digest)] db4
         in tx_bind (refresh_coordinator_operation_tx (rv_operation_id r') now db5) (\<lambda>db6.
              Inr (\<lparr>js_revision = Some r', js_pointer = p', js_stale = False\<rparr>, db6))))"

definition journal_tx ::
  "string \<Rightarrow> int \<Rightarrow> string \<Rightarrow> string \<Rightarrow> time \<Rightarrow> db \<Rightarrow> coord_error + (journal_result \<times> db)" where
  "journal_tx agent n digest gen now db =
     tx_bind (read_pointer agent db) (\<lambda>p.
     if n < pt_applied_revision p then
       Inr (\<lparr>js_revision = None, js_pointer = p, js_stale = True\<rparr>, db)
     else if n > pt_desired_revision p then Inl EStateConflict
     else tx_bind (read_revision agent n db) (\<lambda>r.
       if digest \<noteq> [] \<and> \<not> equal_fold digest (rv_snapshot_digest r) then Inl EStateConflict
       else if rv_snapshot_digest r \<noteq> [] \<and> digest = [] then Inl EStateConflict
       else journal_adopt_tx agent n digest gen now p r db))"

definition reconcile_coordinator_journal ::
  "time \<Rightarrow> journal_request \<Rightarrow> db \<Rightarrow> journal_result outcome" where
  "reconcile_coordinator_journal clock req db =
     (let agent = trim_space (jr_agent_id req); n = jr_revision req;
          digest = trim_space (jr_snapshot_digest req); gen = trim_space (jr_generation_id req);
          now = coordinator_time clock (jr_now req)
      in if agent = [] \<or> n < 0 \<or> gen = [] then (Inl EInvalid, db)
         else commit db (journal_tx agent n digest gen now db))"

subsection \<open>Rollback and repair\<close>

text \<open>
  What the rollback needs of libraries and of the snapshot format is a parameter: the digest
  (\<open>sha256.Sum256\<close> in hexadecimal), \<open>filepath.Clean\<close>, the JSON codec of a snapshot with its
  revision member, and the filter of resource types that are no longer supported
  (\<open>FilterSupportedSnapshotResources\<close>).
\<close>

record 'snap snapshot_format =
  sf_sha256_hex :: "string \<Rightarrow> string"
  sf_clean_path :: "string \<Rightarrow> string"
  sf_decode :: "string \<Rightarrow> 'snap option"
  sf_encode :: "'snap \<Rightarrow> string"
  sf_revision :: "'snap \<Rightarrow> int"
  sf_with_revision :: "int \<Rightarrow> 'snap \<Rightarrow> 'snap"
  sf_filter :: "'snap \<Rightarrow> 'snap"

definition generation_artifact_relative_path :: "string \<Rightarrow> string option" where
  "generation_artifact_relative_path digest0 =
     (let digest = to_lower (trim_space digest0) in
      if valid_sha256 digest then Some (''generation-artifacts/sha256/'' @ digest) else None)"

definition validate_generation_artifact :: "'snap snapshot_format \<Rightarrow> generation_artifact \<Rightarrow> bool" where
  "validate_generation_artifact fmt a \<longleftrightarrow>
     \<not> (trim_space (ga_id a) = [] \<or> trim_space (ga_sha256 a) = []) \<and>
     (if trim_space (ga_external_path a) \<noteq> [] then
        ga_kind a \<in> {''plugin_runtime_artifact'', ''dataset-index-v1'', ''dataset-source-v1''} \<and>
        ga_payload a = [] \<and> ga_size_bytes a > 0 \<and> valid_sha256 (ga_sha256 a) \<and>
        generation_artifact_relative_path (ga_sha256 a) =
          Some (sf_clean_path fmt (ga_external_path a))
      else
        equal_fold (ga_sha256 a) (sf_sha256_hex fmt (ga_payload a)) \<and>
        ga_size_bytes a = int (length (ga_payload a)))"

definition create_immutable_artifact :: "generation_artifact \<Rightarrow> db \<Rightarrow> coord_error + db" where
  "create_immutable_artifact a db =
     (if \<not> (\<exists>x \<in> set (db_artifacts db). ga_id x = ga_id a \<or> ga_sha256 x = ga_sha256 a) then
        Inr (db\<lparr>db_artifacts := db_artifacts db @ [a]\<rparr>)
      else tx_bind (first_where ERecordNotFound (\<lambda>x. ga_id x = ga_id a) (db_artifacts db)) (\<lambda>x.
        if ga_sha256 x \<noteq> ga_sha256 a \<or> ga_size_bytes x \<noteq> ga_size_bytes a then Inl EArtifact
        else if ga_kind x \<noteq> ga_kind a then Inl EArtifact
        else if ga_external_path x = [] \<and> ga_external_path a \<noteq> [] then
          Inr (db\<lparr>db_artifacts := upd_where (\<lambda>y. ga_id y = ga_id a \<and> ga_external_path y = [])
                 (\<lambda>y. y\<lparr>ga_payload := [], ga_external_path := ga_external_path a\<rparr>)
                 (db_artifacts db)\<rparr>)
        else Inr db))"

definition copy_coordinator_snapshot_payload ::
  "'snap snapshot_format \<Rightarrow> string \<Rightarrow> int \<Rightarrow> int \<Rightarrow> coord_error + (string \<times> string)" where
  "copy_coordinator_snapshot_payload fmt payload source target =
     (case sf_decode fmt payload of
        None \<Rightarrow> Inl EInvalid
      | Some snap \<Rightarrow>
          if sf_revision fmt snap \<noteq> source then Inl EStateConflict
          else let copy = sf_encode fmt (sf_with_revision fmt target (sf_filter fmt snap))
               in Inr (copy, sf_sha256_hex fmt copy))"

record rollback_request =
  rq_agent_id :: string
  rq_operation_id :: string
  rq_now :: "time option"
  rq_default_apply_timeout :: int
  rq_default_drain_timeout :: int
  rq_source_revision :: int
  rq_require_source_current :: bool
  rq_operation_kind :: string
  rq_created_event_type :: string
  rq_idempotency :: action_idempotency

record rollback_result =
  rs_operation :: operation_row
  rs_revision :: agent_revision
  rs_pointer :: revision_pointer
  rs_replayed :: bool

text \<open>The singleton row of the PKI settings has id 1.\<close>

definition rollback_rejected_by_pki :: "db \<Rightarrow> bool" where
  "rollback_rejected_by_pki db \<longleftrightarrow>
     (case db_pki_settings db of
        None \<Rightarrow> False
      | Some rows \<Rightarrow> (case find (\<lambda>s. fst s = 1) rows of None \<Rightarrow> False | Some s \<Rightarrow> snd s))"

definition max_revision :: "string \<Rightarrow> db \<Rightarrow> int" where
  "max_revision agent db =
     (case map rv_revision (filter (\<lambda>r. rv_agent_id r = agent) (db_revisions db)) of
        [] \<Rightarrow> 0 | n # ns \<Rightarrow> fold max ns n)"

definition rollback_revision_row ::
  "rollback_request \<Rightarrow> string \<Rightarrow> int \<Rightarrow> string \<Rightarrow> string \<Rightarrow> time \<Rightarrow> agent_revision \<Rightarrow> agent_revision" where
  "rollback_revision_row req agent n op_id0 digest now source =
     \<lparr>rv_agent_id = agent, rv_revision = n, rv_operation_id = op_id0, rv_state = RevPending,
      rv_snapshot_artifact_id = ''snapshot-'' @ digest, rv_snapshot_digest = digest,
      rv_desired_version = rv_desired_version source,
      rv_apply_timeout_seconds = resolved_coordinator_timeout_seconds
        (rv_apply_timeout_seconds source) (rq_default_apply_timeout req) 60,
      rv_drain_timeout_seconds = resolved_coordinator_timeout_seconds
        (rv_drain_timeout_seconds source) (rq_default_drain_timeout req) 600,
      rv_retry_cycle = 0, rv_attempt_count = 0, rv_next_attempt_at = None, rv_generation_id = [],
      rv_runtime_generation_id = [], rv_runtime_snapshot_hash = [], rv_drain_state = NoDrain,
      rv_error_code = [], rv_error_message = [], rv_legacy_baseline = False,
      rv_created_at = now, rv_updated_at = now, rv_applied_at = None, rv_failed_at = None\<rparr>"

definition non_empty_or :: "string \<Rightarrow> string \<Rightarrow> string" where
  "non_empty_or s fallback = (if trim_space s = [] then fallback else trim_space s)"

definition rollback_source_tx ::
  "'snap snapshot_format \<Rightarrow> rollback_request \<Rightarrow> string \<Rightarrow> revision_pointer \<Rightarrow> db \<Rightarrow>
   coord_error + (agent_revision \<times> generation_artifact)" where
  "rollback_source_tx fmt req agent p db =
     (let source_revision = (if rq_source_revision req > 0 then rq_source_revision req
                             else pt_last_known_good_revision p) in
      if rq_require_source_current req \<and>
         (pt_desired_revision p \<noteq> source_revision \<or> pt_applied_revision p \<noteq> source_revision)
      then Inl EStateConflict
      else if source_revision \<le> 0 then Inl ENotFound
      else tx_bind (read_revision agent source_revision db) (\<lambda>source.
        if rv_state source \<noteq> RevApplied then Inl EStateConflict
        else if trim_space (rv_snapshot_artifact_id source) = [] then Inl ENotFound
        else tx_bind (first_where ERecordNotFound (\<lambda>a. ga_id a = rv_snapshot_artifact_id source)
                        (db_artifacts db)) (\<lambda>artifact.
          if \<not> validate_generation_artifact fmt artifact then Inl EArtifact
          else if rv_snapshot_digest source = [] \<or>
                  \<not> equal_fold (rv_snapshot_digest source) (ga_sha256 artifact)
          then Inl EStateConflict
          else Inr (source, artifact))))"

definition rollback_write_tx ::
  "rollback_request \<Rightarrow> string \<Rightarrow> time \<Rightarrow> revision_pointer \<Rightarrow> agent_revision \<Rightarrow> int \<Rightarrow> string \<Rightarrow>
   string \<Rightarrow> db \<Rightarrow> coord_error + (rollback_result \<times> db)" where
  "rollback_write_tx req agent now p source n payload digest db =
     (let oid = trim_space (rq_operation_id req);
          artifact = \<lparr>ga_id = ''snapshot-'' @ digest, ga_kind = ''agent_snapshot'',
             ga_sha256 = digest, ga_payload = payload, ga_external_path = [],
             ga_size_bytes = int (length payload), ga_created_at = now\<rparr>;
          operation = \<lparr>op_id = oid,
             op_kind = non_empty_or (rq_operation_kind req) ''rollback_last_known_good'',
             op_status = OpPending, op_primary_agent_id = agent, op_request_fingerprint = digest,
             op_no_op = False, op_error_code = [], op_error_message = [], op_created_at = now,
             op_updated_at = now, op_completed_at = None\<rparr>;
          row = rollback_revision_row req agent n oid digest now source
      in tx_bind (create_immutable_artifact artifact db) (\<lambda>db1.
         if \<exists>x \<in> set (db_operations db1). op_id x = oid then Inl EDuplicateKey
         else if find_revision agent n db1 \<noteq> None then Inl EDuplicateKey
         else if \<exists>f \<in> set (db_artifact_refs db1). rf_agent_id f = agent \<and> rf_revision f = n \<and>
                rf_artifact_id f = ga_id artifact \<and> rf_role f = ''snapshot'' then Inl EDuplicateKey
         else
           let db2 = db1\<lparr>db_operations := db_operations db1 @ [operation],
                         db_revisions := db_revisions db1 @ [row],
                         db_artifact_refs := db_artifact_refs db1 @
                           [\<lparr>rf_agent_id = agent, rf_revision = n, rf_artifact_id = ga_id artifact,
                             rf_role = ''snapshot'', rf_created_at = now\<rparr>]\<rparr>;
               p' = p\<lparr>pt_desired_revision := n, pt_updated_at := now\<rparr>
           in tx_bind (update_coordinator_pointer_tx p' db2) (\<lambda>db3.
              let db4 = append_coordinator_event_tx row
                    (non_empty_or (rq_created_event_type req) ''rollback_revision_created'') now
                    [(''source_revision'', JInt (rv_revision source)),
                     (''snapshot_digest'', JText digest)] db3
              in tx_bind (persist_coordinator_action_replay_tx (rq_idempotency req)
                   \<lparr>rp_operation_id = oid, rp_agent_id = agent, rp_desired_revision = n,
                    rp_apply_status = ''pending'',
                    rp_http_request_fingerprint =
                      ai_http_request_fingerprint (rq_idempotency req),
                    rp_operation_row_id = []\<rparr> now db4) (\<lambda>db5.
                 Inr (\<lparr>rs_operation = operation, rs_revision = row, rs_pointer = p',
                       rs_replayed = False\<rparr>, db5)))))"

definition rollback_fresh_tx ::
  "'snap snapshot_format \<Rightarrow> rollback_request \<Rightarrow> string \<Rightarrow> time \<Rightarrow> db \<Rightarrow>
   coord_error + (rollback_result \<times> db)" where
  "rollback_fresh_tx fmt req agent now db =
     (if rollback_rejected_by_pki db then Inl EStateConflict
      else tx_bind (read_pointer agent db) (\<lambda>p.
           tx_bind (rollback_source_tx fmt req agent p db) (\<lambda>(source, artifact).
           let n = max (max_revision agent db) (pt_desired_revision p) + 1 in
           tx_bind (copy_coordinator_snapshot_payload fmt (ga_payload artifact)
                      (rv_revision source) n) (\<lambda>(payload, digest).
             rollback_write_tx req agent now p source n payload digest db))))"

text \<open>The rows a replayed rollback answers with.\<close>

definition rollback_replay_rows ::
  "string \<Rightarrow> action_replay \<Rightarrow> db \<Rightarrow> rollback_result option" where
  "rollback_replay_rows agent p db =
     (case find (\<lambda>w. op_id w = rp_operation_id p) (db_operations db) of
        None \<Rightarrow> None
      | Some w \<Rightarrow>
          (case find_revision agent (rp_desired_revision p) db of
             None \<Rightarrow> None
           | Some r \<Rightarrow>
               (case lock_coordinator_pointer agent db of
                  None \<Rightarrow> None
                | Some q \<Rightarrow> Some \<lparr>rs_operation = w, rs_revision = r, rs_pointer = q,
                                   rs_replayed = True\<rparr>)))"

definition rollback_tx ::
  "'snap snapshot_format \<Rightarrow> rollback_request \<Rightarrow> string \<Rightarrow> time \<Rightarrow> db \<Rightarrow>
   coord_error + (rollback_result \<times> db)" where
  "rollback_tx fmt req agent now db =
     tx_bind (load_coordinator_action_replay_tx (rq_idempotency req) now db) (\<lambda>(replay, db0).
       case replay of
         Some p \<Rightarrow>
           if rp_agent_id p \<noteq> agent \<or> rp_operation_id p = [] \<or> rp_desired_revision p \<le> 0
           then Inl EStateConflict
           else (case rollback_replay_rows agent p db0 of
                   None \<Rightarrow> Inl ERecordNotFound | Some res \<Rightarrow> Inr (res, db0))
       | None \<Rightarrow> rollback_fresh_tx fmt req agent now db0)"

definition copy_last_known_good_coordinator_revision ::
  "'snap snapshot_format \<Rightarrow> time \<Rightarrow> rollback_request \<Rightarrow> db \<Rightarrow> rollback_result outcome" where
  "copy_last_known_good_coordinator_revision fmt clock req db =
     (let agent = trim_space (rq_agent_id req); oid = trim_space (rq_operation_id req);
          now = coordinator_time clock (rq_now req); i = rq_idempotency req in
      if agent = [] \<or> oid = [] then (Inl EInvalid, db)
      else if \<not> validate_coordinator_action_idempotency i now then (Inl EInvalid, db)
      else case commit db (rollback_tx fmt req agent now db) of
        (Inr res, db') \<Rightarrow> (Inr res, db')
      | (Inl e, db') \<Rightarrow>
          if \<not> coordinator_action_idempotency_enabled i then (Inl e, db')
          else (case load_coordinator_action_replay i now db' of
              Inl e' \<Rightarrow> (Inl e', db')
            | Inr None \<Rightarrow> (Inl e, db')
            | Inr (Some p) \<Rightarrow>
                if rp_agent_id p = agent \<and> rp_operation_id p \<noteq> [] \<and> rp_desired_revision p > 0 then
                  (case rollback_replay_rows agent
                          (p\<lparr>rp_operation_id := trim_space (rp_operation_id p)\<rparr>) db' of
                     None \<Rightarrow> (Inl e, db') | Some res \<Rightarrow> (Inr res, db'))
                else (Inl e, db')))"

subsection \<open>Retiring an agent\<close>

definition retire_revision_row :: "time \<Rightarrow> agent_revision \<Rightarrow> agent_revision" where
  "retire_revision_row now r =
     r\<lparr>rv_state := RevSuperseded, rv_next_attempt_at := None, rv_error_code := ''agent_deleted'',
       rv_error_message := ''agent was deleted'', rv_updated_at := now\<rparr>"

fun retire_rows :: "time \<Rightarrow> agent_revision list \<Rightarrow> db \<Rightarrow> db" where
  "retire_rows now [] db = db"
| "retire_rows now (r # rs) db =
     retire_rows now rs
       (append_coordinator_event_tx (retire_revision_row now r) ''revision_superseded'' now
          [(''reason'', JText ''agent_deleted'')]
          (db\<lparr>db_revisions := upd_where (\<lambda>x. rv_key x = rv_key r \<and> revision_open x)
             (retire_revision_row now) (db_revisions db)\<rparr>))"

fun refresh_operations_tx :: "string list \<Rightarrow> time \<Rightarrow> db \<Rightarrow> coord_error + db" where
  "refresh_operations_tx [] now db = Inr db"
| "refresh_operations_tx (w # ws) now db =
     tx_bind (refresh_coordinator_operation_tx w now db) (\<lambda>db1. refresh_operations_tx ws now db1)"

text \<open>
  The applied revision whose drain is forced by the agent's removal, when a generation was
  still draining.
\<close>

definition retired_applied_revision :: "string \<Rightarrow> db \<Rightarrow> agent_revision option" where
  "retired_applied_revision agent db =
     (if draining_count agent (db_generations db) = 0 then None
      else case lock_coordinator_pointer agent db of
          None \<Rightarrow> None
        | Some p \<Rightarrow>
            if pt_applied_revision p > 0 then
              find (\<lambda>r. rv_agent_id r = agent \<and> rv_revision r = pt_applied_revision p \<and>
                 rv_state r = RevApplied) (db_revisions db)
            else None)"

definition retire_coordinator_agent_tx :: "string \<Rightarrow> time \<Rightarrow> db \<Rightarrow> coord_error + db" where
  "retire_coordinator_agent_tx agent0 now db =
     (let agent = trim_space agent0 in
      if agent = [] then Inr db
      else
        let db1 = db\<lparr>db_attempts := upd_where (\<lambda>a. at_agent_id a = agent \<and> attempt_active a)
                (\<lambda>a. a\<lparr>at_state := AttSuperseded, at_finished_at := Some now,
                       at_error_code := ''agent_deleted'', at_error := ''agent was deleted''\<rparr>)
                (db_attempts db)\<rparr>;
            revisions = sort_key rv_revision
                (filter (\<lambda>r. rv_agent_id r = agent \<and> revision_open r) (db_revisions db1));
            db2 = retire_rows now revisions db1;
            applied = retired_applied_revision agent db2;
            db3 = db2\<lparr>db_generations := upd_where
                (\<lambda>g. gn_agent_id g = agent \<and> gn_state g = GenDraining)
                (finish_generation_row GenForced True ''agent_deleted'' now) (db_generations db2)\<rparr>;
            db4 = (case applied of
                None \<Rightarrow> db3
              | Some r \<Rightarrow> db3\<lparr>db_revisions := upd_where (\<lambda>x. rv_key x = rv_key r)
                    (\<lambda>x. x\<lparr>rv_drain_state := Forced, rv_updated_at := now\<rparr>) (db_revisions db3)\<rparr>);
            db5 = db4\<lparr>db_pointers := filter (\<lambda>p. pt_agent_id p \<noteq> agent) (db_pointers db4)\<rparr>;
            ids = map (\<lambda>r. trim_space (rv_operation_id r))
                (revisions @ (case applied of None \<Rightarrow> [] | Some r \<Rightarrow> [r]))
        in refresh_operations_tx (sort (remdups (filter (\<lambda>w. w \<noteq> []) ids))) now db5)"

end
