(* ===== verification/CoordInv.thy ===== *)
theory CoordInv
  imports CoordActions
begin

text \<open>
  The ledger's invariant and its preservation by the transaction helpers: unique primary keys,
  at most one active attempt and one active generation per agent, pointers whose applied and
  last known good revisions never pass the desired one, and attempt counters within the limit.
  Helpers that only close rows (superseding, expiring, refreshing an operation, appending an
  event) are \<open>quiet\<close>: one relation, reflexive and transitive, that keeps the whole invariant.
\<close>

subsection \<open>The invariant\<close>

definition keys_ok :: "db \<Rightarrow> bool" where
  "keys_ok db \<longleftrightarrow> distinct (map pt_agent_id (db_pointers db)) \<and>
     distinct (map rv_key (db_revisions db)) \<and> distinct (map at_key (db_attempts db)) \<and>
     distinct (map gn_key (db_generations db))"

definition attempts_ok :: "db \<Rightarrow> bool" where
  "attempts_ok db \<longleftrightarrow> (\<forall>agent. length (active_attempts agent db) \<le> 1)"

definition pointer_ok :: "revision_pointer \<Rightarrow> bool" where
  "pointer_ok p \<longleftrightarrow> pt_applied_revision p \<le> pt_desired_revision p \<and>
     pt_last_known_good_revision p \<le> pt_desired_revision p"

definition count_ok :: "agent_revision \<Rightarrow> bool" where
  "count_ok r \<longleftrightarrow> 0 \<le> rv_attempt_count r \<and> rv_attempt_count r \<le> coordinator_max_attempts \<and>
     (rv_state r = RevPending \<longrightarrow> rv_attempt_count r < coordinator_max_attempts)"

definition active_generations :: "string \<Rightarrow> db \<Rightarrow> agent_generation list" where
  "active_generations agent db =
     filter (\<lambda>g. gn_agent_id g = agent \<and> gn_state g = GenActive) (db_generations db)"

definition generations_ok :: "db \<Rightarrow> bool" where
  "generations_ok db \<longleftrightarrow> (\<forall>agent. length (active_generations agent db) \<le> 1)"

definition db_inv :: "db \<Rightarrow> bool" where
  "db_inv db \<longleftrightarrow> keys_ok db \<and> attempts_ok db \<and> (\<forall>p \<in> set (db_pointers db). pointer_ok p) \<and>
     (\<forall>r \<in> set (db_revisions db). count_ok r) \<and> generations_ok db"

subsection \<open>Quiet steps\<close>

definition att_closed :: "revision_attempt \<Rightarrow> revision_attempt \<Rightarrow> bool" where
  "att_closed a a' \<longleftrightarrow> at_key a' = at_key a \<and> (a' = a \<or> \<not> attempt_active a')"

definition rev_closed :: "agent_revision \<Rightarrow> agent_revision \<Rightarrow> bool" where
  "rev_closed r r' \<longleftrightarrow> rv_key r' = rv_key r \<and>
     (r' = r \<or> (\<not> revision_open r' \<and> rv_attempt_count r' = rv_attempt_count r))"

definition quiet :: "db \<Rightarrow> db \<Rightarrow> bool" where
  "quiet db db' \<longleftrightarrow> list_all2 att_closed (db_attempts db) (db_attempts db') \<and>
     list_all2 rev_closed (db_revisions db) (db_revisions db') \<and>
     db_pointers db' = db_pointers db \<and> db_generations db' = db_generations db \<and>
     db_artifact_refs db' = db_artifact_refs db"

lemma att_closed_refl [simp]: "att_closed a a"
  by (simp add: att_closed_def)

lemma att_closed_trans: "att_closed a b \<Longrightarrow> att_closed b c \<Longrightarrow> att_closed a c"
  by (auto simp: att_closed_def)

lemma rev_closed_refl [simp]: "rev_closed r r"
  by (simp add: rev_closed_def)

lemma rev_closed_trans: "rev_closed a b \<Longrightarrow> rev_closed b c \<Longrightarrow> rev_closed a c"
  by (auto simp: rev_closed_def)

lemma quiet_refl [simp]: "quiet db db"
  by (simp add: quiet_def list.rel_refl)

lemma quiet_trans: "quiet a b \<Longrightarrow> quiet b c \<Longrightarrow> quiet a c"
  unfolding quiet_def
  using list_all2_trans[of att_closed att_closed att_closed]
    list_all2_trans[of rev_closed rev_closed rev_closed]
  by (metis att_closed_trans rev_closed_trans)

lemma list_all2_upd_where:
  "(\<And>x. x \<in> set t \<Longrightarrow> P x \<Longrightarrow> R x (f x)) \<Longrightarrow> (\<And>x. R x x) \<Longrightarrow> list_all2 R t (upd_where P f t)"
  by (induction t) auto

lemma list_all2_keys:
  "list_all2 R t t' \<Longrightarrow> (\<And>x y. R x y \<Longrightarrow> key y = key x) \<Longrightarrow> map key t' = map key t"
  by (induction rule: list_all2_induct) auto

lemma att_closed_active_le:
  "list_all2 att_closed t t' \<Longrightarrow>
   length (filter (\<lambda>a. at_agent_id a = agent \<and> attempt_active a) t') \<le>
   length (filter (\<lambda>a. at_agent_id a = agent \<and> attempt_active a) t)"
  by (induction rule: list_all2_induct) (auto simp: att_closed_def at_key_def le_SucI)

lemma quiet_active_le: "quiet db db' \<Longrightarrow>
  length (active_attempts agent db') \<le> length (active_attempts agent db)"
  unfolding active_attempts_def by (rule att_closed_active_le) (simp add: quiet_def)

lemma quiet_active_Nil: "quiet db db' \<Longrightarrow> active_attempts agent db = [] \<Longrightarrow> active_attempts agent db' = []"
  using quiet_active_le[of db db' agent] by simp

lemma rev_closed_count_ok1: "rev_closed r r' \<Longrightarrow> count_ok r \<Longrightarrow> count_ok r'"
  unfolding rev_closed_def
  by (elim conjE disjE) (simp_all add: count_ok_def revision_open_def)

lemma rev_closed_count_ok:
  "list_all2 rev_closed t t' \<Longrightarrow> \<forall>r \<in> set t. count_ok r \<Longrightarrow> \<forall>r \<in> set t'. count_ok r"
  by (induction rule: list_all2_induct) (use rev_closed_count_ok1 in fastforce)+

lemma quiet_keys:
  assumes q: "quiet db db'" and k: "keys_ok db"
  shows "keys_ok db'"
proof -
  have "map at_key (db_attempts db') = map at_key (db_attempts db)"
    using q by (intro list_all2_keys[where R = att_closed]) (auto simp: quiet_def att_closed_def)
  moreover have "map rv_key (db_revisions db') = map rv_key (db_revisions db)"
    using q by (intro list_all2_keys[where R = rev_closed]) (auto simp: quiet_def rev_closed_def)
  ultimately show ?thesis using q k by (simp add: quiet_def keys_ok_def)
qed

lemma quiet_inv: "quiet db db' \<Longrightarrow> db_inv db \<Longrightarrow> db_inv db'"
proof -
  assume q: "quiet db db'" and inv: "db_inv db"
  have "attempts_ok db'"
    using inv quiet_active_le[OF q] unfolding db_inv_def attempts_ok_def by (meson le_trans)
  moreover have "\<forall>r \<in> set (db_revisions db'). count_ok r"
    using q inv rev_closed_count_ok[of "db_revisions db" "db_revisions db'"]
    by (simp add: quiet_def db_inv_def)
  moreover have "generations_ok db'"
    using q inv by (simp add: quiet_def db_inv_def generations_ok_def active_generations_def)
  ultimately show ?thesis
    using q inv quiet_keys[OF q] by (simp add: quiet_def db_inv_def)
qed

subsection \<open>The helpers are quiet\<close>

lemma append_event_fields [simp]:
  "db_operations (append_coordinator_event_tx r e now pl db) = db_operations db"
  "db_revisions (append_coordinator_event_tx r e now pl db) = db_revisions db"
  "db_attempts (append_coordinator_event_tx r e now pl db) = db_attempts db"
  "db_pointers (append_coordinator_event_tx r e now pl db) = db_pointers db"
  "db_generations (append_coordinator_event_tx r e now pl db) = db_generations db"
  "db_artifact_refs (append_coordinator_event_tx r e now pl db) = db_artifact_refs db"
  "db_artifacts (append_coordinator_event_tx r e now pl db) = db_artifacts db"
  "db_idempotency (append_coordinator_event_tx r e now pl db) = db_idempotency db"
  "db_pki_settings (append_coordinator_event_tx r e now pl db) = db_pki_settings db"
  by (simp_all add: append_coordinator_event_tx_def)

lemma refresh_frame:
  "refresh_coordinator_operation_tx w now db = Inr db' \<Longrightarrow>
   \<exists>ops. db' = db\<lparr>db_operations := ops\<rparr>"
  by (auto simp: refresh_coordinator_operation_tx_def Let_def tx_bind_Inr_iff
      split: if_splits prod.splits intro: exI[of _ "db_operations db"])

lemma refresh_fields:
  assumes "refresh_coordinator_operation_tx w now db = Inr db'"
  shows "db_revisions db' = db_revisions db" "db_attempts db' = db_attempts db"
    "db_pointers db' = db_pointers db" "db_generations db' = db_generations db"
    "db_artifact_refs db' = db_artifact_refs db" "db_events db' = db_events db"
    "db_artifacts db' = db_artifacts db" "db_idempotency db' = db_idempotency db"
  using refresh_frame[OF assms] by auto

lemma same_tables_quiet:
  "db_attempts db' = db_attempts db \<Longrightarrow> db_revisions db' = db_revisions db \<Longrightarrow>
   db_pointers db' = db_pointers db \<Longrightarrow> db_generations db' = db_generations db \<Longrightarrow>
   db_artifact_refs db' = db_artifact_refs db \<Longrightarrow> quiet db db'"
  by (simp add: quiet_def list.rel_refl)

lemma append_event_quiet [simp]: "quiet db (append_coordinator_event_tx r e now pl db)"
  by (rule same_tables_quiet) simp_all

lemma refresh_quiet: "refresh_coordinator_operation_tx w now db = Inr db' \<Longrightarrow> quiet db db'"
  by (rule same_tables_quiet) (simp_all add: refresh_fields)

lemma supersede_attempt_fields:
  assumes "supersede_attempt_tx a now db = (a', db')"
  shows "db_revisions db' = db_revisions db" "db_pointers db' = db_pointers db"
    "db_generations db' = db_generations db" "db_artifact_refs db' = db_artifact_refs db"
    "db_operations db' = db_operations db"
  using assms by (auto simp: supersede_attempt_tx_def Let_def split: if_splits)

lemma supersede_attempt_quiet:
  assumes "supersede_attempt_tx a now db = (a', db')"
  shows "quiet db db'"
  using assms
  by (auto simp: supersede_attempt_tx_def Let_def quiet_def att_closed_def attempt_active_def
      at_key_def list.rel_refl split: if_splits intro!: list_all2_upd_where)

lemma supersede_revision_row_key [simp]: "rv_key (supersede_revision_row now r) = rv_key r"
  by (simp add: supersede_revision_row_def rv_key_def)

lemma find_revision_key:
  "find_revision agent n db = Some r \<Longrightarrow> r \<in> set (db_revisions db) \<and> rv_key r = (agent, n)"
  by (auto simp: find_revision_def rv_key_def dest: find_SomeD)

lemma find_revision_None:
  "find_revision agent n db = None \<Longrightarrow> r \<in> set (db_revisions db) \<Longrightarrow> rv_key r \<noteq> (agent, n)"
  by (auto simp: find_revision_def rv_key_def find_None_iff)

text \<open>
  Superseding a revision is one update of its row, also where the code returns early because
  the row is missing or already closed.
\<close>

lemma supersede_revision_effect:
  assumes keys: "distinct (map rv_key (db_revisions db))"
    and run: "supersede_revision_tx agent n now db = Inr db'"
  shows "db_revisions db' = upd_where (\<lambda>x. rv_key x = (agent, n) \<and> revision_open x)
           (supersede_revision_row now) (db_revisions db)"
    and "db_attempts db' = db_attempts db" and "db_pointers db' = db_pointers db"
    and "db_generations db' = db_generations db" and "db_artifact_refs db' = db_artifact_refs db"
proof -
  let ?P = "\<lambda>x. rv_key x = (agent, n) \<and> revision_open x"
  let ?goal = "db_revisions db' = upd_where ?P (supersede_revision_row now) (db_revisions db) \<and>
    db_attempts db' = db_attempts db \<and> db_pointers db' = db_pointers db \<and>
    db_generations db' = db_generations db \<and> db_artifact_refs db' = db_artifact_refs db"
  have ?goal
  proof (cases "find_revision agent n db")
    case None
    then have "\<not> ?P x" if "x \<in> set (db_revisions db)" for x
      using find_revision_None[OF None that] by simp
    then have "upd_where ?P (supersede_revision_row now) (db_revisions db) = db_revisions db"
      by (rule upd_where_id)
    with None run show ?thesis by (simp add: supersede_revision_tx_def)
  next
    case (Some r)
    note r = find_revision_key[OF Some]
    show ?thesis
    proof (cases "revision_open r")
      case False
      then have "\<not> ?P x" if "x \<in> set (db_revisions db)" for x
        using r that distinct_key_inj[OF keys, of x r] by auto
      then have "upd_where ?P (supersede_revision_row now) (db_revisions db) = db_revisions db"
        by (rule upd_where_id)
      with False Some run show ?thesis by (simp add: supersede_revision_tx_def)
    next
      case True
      with Some run show ?thesis by (auto simp: supersede_revision_tx_def Let_def refresh_fields)
    qed
  qed
  then show "db_revisions db' = upd_where ?P (supersede_revision_row now) (db_revisions db)"
    and "db_attempts db' = db_attempts db" and "db_pointers db' = db_pointers db"
    and "db_generations db' = db_generations db" and "db_artifact_refs db' = db_artifact_refs db"
    by simp_all
qed

lemma supersede_row_closed: "rev_closed r (supersede_revision_row now r)"
  by (simp add: rev_closed_def revision_open_def) (simp add: supersede_revision_row_def)

lemma upd_supersede_closed:
  "list_all2 rev_closed t (upd_where (\<lambda>x. rv_key x = k \<and> revision_open x)
     (supersede_revision_row now) t)"
  by (rule list_all2_upd_where) (simp_all add: supersede_row_closed)

lemma supersede_revision_quiet:
  assumes run: "supersede_revision_tx agent n now db = Inr db'"
  shows "quiet db db'"
proof (cases "find_revision agent n db")
  case None
  with run show ?thesis by (simp add: supersede_revision_tx_def)
next
  case (Some r)
  show ?thesis
  proof (cases "revision_open r")
    case False
    with run Some show ?thesis by (simp add: supersede_revision_tx_def)
  next
    case True
    let ?db1 = "db\<lparr>db_revisions := upd_where (\<lambda>x. rv_key x = (agent, n) \<and> revision_open x)
        (supersede_revision_row now) (db_revisions db)\<rparr>"
    have "quiet db ?db1"
      by (simp add: quiet_def upd_supersede_closed list.rel_refl)
    moreover
    let ?r = "supersede_revision_row now r"
    let ?db2 = "append_coordinator_event_tx ?r ''revision_superseded'' now [] ?db1"
    have "refresh_coordinator_operation_tx (rv_operation_id ?r) now ?db2 = Inr db'"
      using run Some True by (simp add: supersede_revision_tx_def Let_def)
    then have "quiet ?db2 db'" by (rule refresh_quiet)
    then have "quiet ?db1 db'" by (rule quiet_trans[OF append_event_quiet])
    ultimately show ?thesis by (rule quiet_trans)
  qed
qed

lemma expire_effect:
  assumes "expire_unstarted_attempt_tx a now db = Inr db'" and "at_state a = AttLeased"
  shows "db_attempts db' = upd_where (\<lambda>x. at_key x = at_key a \<and> at_lease_id x = at_lease_id a \<and>
             at_state x = AttLeased)
           (\<lambda>x. x\<lparr>at_state := AttExpiredUnstarted, at_finished_at := Some now,
              at_error_code := ''lease_expired'',
              at_error := ''lease expired before prepare_started''\<rparr>) (db_attempts db)"
  using assms by (auto simp: expire_unstarted_attempt_tx_def Let_def tx_bind_Inr_iff)

lemma expire_quiet:
  assumes "expire_unstarted_attempt_tx a now db = Inr db'"
  shows "quiet db db'"
  using assms
  by (auto simp: expire_unstarted_attempt_tx_def Let_def tx_bind_Inr_iff quiet_def att_closed_def
      attempt_active_def at_key_def list.rel_refl split: if_splits option.splits
      intro!: list_all2_upd_where)

lemma supersede_rows_quiet:
  "supersede_rows_tx rows now db = Inr (ns, db') \<Longrightarrow> quiet db db'"
proof (induction rows arbitrary: db ns)
  case Nil
  then show ?case by simp
next
  case (Cons row rows)
  let ?db1 = "db\<lparr>db_attempts := upd_where
      (\<lambda>x. at_agent_id x = rv_agent_id row \<and> at_revision x = rv_revision row \<and> attempt_active x)
      (\<lambda>x. x\<lparr>at_state := AttSuperseded, at_finished_at := Some now,
         at_error_code := ''superseded'', at_error := superseded_message\<rparr>) (db_attempts db)\<rparr>"
  from Cons.prems obtain db2 ns2 where
    sup: "supersede_revision_tx (rv_agent_id row) (rv_revision row) now ?db1 = Inr db2"
    and rest: "supersede_rows_tx rows now db2 = Inr (ns2, db')"
    by (auto simp: Let_def tx_bind_Inr_iff)
  have "quiet db ?db1"
    by (auto simp: quiet_def att_closed_def attempt_active_def at_key_def list.rel_refl
        intro!: list_all2_upd_where)
  with supersede_revision_quiet[OF sup] Cons.IH[OF rest] show ?case
    by (blast intro: quiet_trans)
qed

lemma supersede_older_quiet:
  "supersede_older_coordinator_revisions_tx p now db = Inr (ns, db') \<Longrightarrow> quiet db db'"
  unfolding supersede_older_coordinator_revisions_tx_def by (rule supersede_rows_quiet)

subsection \<open>Updates that keep the invariant\<close>

lemma inv_append_event: "db_inv db \<Longrightarrow> db_inv (append_coordinator_event_tx r e now pl db)"
  by (rule quiet_inv[OF append_event_quiet])

lemma inv_refresh: "refresh_coordinator_operation_tx w now db = Inr db' \<Longrightarrow> db_inv db \<Longrightarrow> db_inv db'"
  using refresh_quiet quiet_inv by blast

lemma inv_other_tables:
  "db_inv db \<Longrightarrow> db_attempts db' = db_attempts db \<Longrightarrow> db_revisions db' = db_revisions db \<Longrightarrow>
   db_pointers db' = db_pointers db \<Longrightarrow> db_generations db' = db_generations db \<Longrightarrow> db_inv db'"
  by (simp add: db_inv_def keys_ok_def attempts_ok_def active_attempts_def generations_ok_def
      active_generations_def)

lemma inv_upd_attempts:
  assumes inv: "db_inv db"
    and f: "\<And>x. P x \<Longrightarrow> at_key (f x) = at_key x \<and> (attempt_active (f x) \<longrightarrow> attempt_active x)"
  shows "db_inv (db\<lparr>db_attempts := upd_where P f (db_attempts db)\<rparr>)"
proof -
  have "map at_key (upd_where P f t) = map at_key t" for t
    using f by (induction t) auto
  moreover have "length (filter (\<lambda>a. at_agent_id a = agent \<and> attempt_active a) (upd_where P f t)) \<le>
      length (filter (\<lambda>a. at_agent_id a = agent \<and> attempt_active a) t)" for agent t
    using f by (intro length_filter_upd_where_le) (auto simp: at_key_def)
  then have "length (active_attempts agent (db\<lparr>db_attempts := upd_where P f (db_attempts db)\<rparr>))
      \<le> length (active_attempts agent db)" for agent
    by (simp add: active_attempts_def)
  then have "attempts_ok (db\<lparr>db_attempts := upd_where P f (db_attempts db)\<rparr>)"
    using inv unfolding db_inv_def attempts_ok_def by (meson le_trans)
  ultimately show ?thesis
    using inv by (simp add: db_inv_def keys_ok_def generations_ok_def active_generations_def)
qed

lemma inv_upd_revisions:
  assumes inv: "db_inv db"
    and f: "\<And>x. x \<in> set (db_revisions db) \<Longrightarrow> P x \<Longrightarrow> count_ok x \<Longrightarrow> rv_key (f x) = rv_key x \<and> count_ok (f x)"
  shows "db_inv (db\<lparr>db_revisions := upd_where P f (db_revisions db)\<rparr>)"
proof -
  have cnt: "\<forall>r \<in> set (db_revisions db). count_ok r" using inv by (simp add: db_inv_def)
  have "map rv_key (upd_where P f t) = map rv_key t" if "set t \<subseteq> set (db_revisions db)" for t
    using that cnt f by (induction t) auto
  moreover have "\<forall>r \<in> set (upd_where P f (db_revisions db)). count_ok r"
    using cnt f by (auto simp: set_upd_where)
  ultimately show ?thesis
    using inv by (simp add: db_inv_def keys_ok_def attempts_ok_def active_attempts_def
        generations_ok_def active_generations_def)
qed

lemma inv_generations:
  assumes "db_inv db" and "distinct (map gn_key gs)"
    and "\<And>agent. length (filter (\<lambda>g. gn_agent_id g = agent \<and> gn_state g = GenActive) gs) \<le> 1"
  shows "db_inv (db\<lparr>db_generations := gs\<rparr>)"
  using assms by (simp add: db_inv_def keys_ok_def attempts_ok_def active_attempts_def
      generations_ok_def active_generations_def)

lemma finish_row_key [simp]: "gn_key (finish_generation_row st b s now g) = gn_key g"
  by (simp add: finish_generation_row_def gn_key_def)

lemma inv_finish_generations:
  assumes inv: "db_inv db" and st: "st \<noteq> GenActive"
  shows "db_inv (db\<lparr>db_generations := upd_where P (finish_generation_row st b s now) (db_generations db)\<rparr>)"
proof (rule inv_generations[OF inv])
  show "distinct (map gn_key (upd_where P (finish_generation_row st b s now) (db_generations db)))"
    using inv by (simp add: db_inv_def keys_ok_def map_key_upd_where)
  fix agent
  have "length (filter (\<lambda>g. gn_agent_id g = agent \<and> gn_state g = GenActive)
      (upd_where P (finish_generation_row st b s now) (db_generations db))) \<le>
    length (active_generations agent db)"
    unfolding active_generations_def using st
    by (intro length_filter_upd_where_le) (simp add: finish_generation_row_def)
  also have "\<dots> \<le> 1" using inv by (simp add: db_inv_def generations_ok_def)
  finally show "length (filter (\<lambda>g. gn_agent_id g = agent \<and> gn_state g = GenActive)
      (upd_where P (finish_generation_row st b s now) (db_generations db))) \<le> 1" .
qed

lemma demote_keys [simp]: "map gn_key (demote_generations agent gen now t) = map gn_key t"
  by (simp add: demote_generations_def map_key_upd_where gn_key_def)

lemma demote_active:
  "g \<in> set (demote_generations agent gen now t) \<Longrightarrow> gn_state g = GenActive \<Longrightarrow>
   g \<in> set t \<and> (gn_agent_id g = agent \<longrightarrow> gn_generation_id g = gen)"
  by (auto simp: demote_generations_def set_upd_where)

lemma active_demote_le:
  "length (filter (\<lambda>g. gn_agent_id g = other \<and> gn_state g = GenActive)
     (demote_generations agent gen now t)) \<le>
   length (filter (\<lambda>g. gn_agent_id g = other \<and> gn_state g = GenActive) t)"
  unfolding demote_generations_def by (rule length_filter_upd_where_le) simp

lemma upsert_keys:
  "distinct (map gn_key t) \<Longrightarrow> distinct (map gn_key (upsert_active_generation agent gen n now t))"
  by (auto simp: upsert_active_generation_def map_key_upd_where gn_key_def)

lemma upsert_active_other:
  "other \<noteq> agent \<Longrightarrow>
   filter (\<lambda>g. gn_agent_id g = other \<and> gn_state g = GenActive) (upsert_active_generation agent gen n now t) =
   filter (\<lambda>g. gn_agent_id g = other \<and> gn_state g = GenActive) t"
  by (auto simp: upsert_active_generation_def gn_key_def intro!: filter_upd_where_same)

lemma upsert_member:
  assumes g: "g \<in> set (upsert_active_generation agent gen n now t)"
  shows "gn_key g = (agent, gen) \<or> g \<in> set t"
proof (cases "\<exists>g \<in> set t. gn_key g = (agent, gen)")
  case True
  let ?f = "\<lambda>g. g\<lparr>gn_revision := n, gn_state := GenActive, gn_forced := False,
                 gn_force_reason := [], gn_drained_at := None, gn_updated_at := now\<rparr>"
  have key: "gn_key (?f x) = gn_key x" for x by (simp add: gn_key_def)
  from g True have "g \<in> ?f ` {r \<in> set t. gn_key r = (agent, gen)} \<or> g \<in> set t"
    by (auto simp: upsert_active_generation_def set_upd_where simp del: gn_key_def)
  then show ?thesis using key by (elim disjE imageE) (simp_all only: mem_Collect_eq, simp_all)
next
  case False
  with g have "g \<in> set t \<or> gn_key g = (agent, gen)"
    unfolding upsert_active_generation_def if_not_P[OF False] by (auto simp: gn_key_def)
  then show ?thesis by blast
qed

lemma activated_one_active:
  assumes keys: "distinct (map gn_key t)"
    and one: "length (filter (\<lambda>g. gn_agent_id g = other \<and> gn_state g = GenActive) t) \<le> 1"
  shows "length (filter (\<lambda>g. gn_agent_id g = other \<and> gn_state g = GenActive)
    (upsert_active_generation agent gen n now (demote_generations agent gen now t))) \<le> 1"
proof (cases "other = agent")
  case False
  then show ?thesis
    using active_demote_le[of other agent gen now t] one by (simp add: upsert_active_other)
next
  case True
  let ?gs = "upsert_active_generation agent gen n now (demote_generations agent gen now t)"
  have "distinct (map gn_key ?gs)" using keys by (intro upsert_keys) simp
  moreover have "gn_key g = (agent, gen)"
    if "g \<in> set ?gs" "gn_agent_id g = other \<and> gn_state g = GenActive" for g
    using upsert_member[OF that(1)]
  proof
    assume "g \<in> set (demote_generations agent gen now t)"
    with that(2) True demote_active show ?thesis unfolding gn_key_def by blast
  qed
  ultimately show ?thesis by (rule filter_key_le_1)
qed

lemma inv_activate:
  assumes "activate_coordinator_generation_tx r gen now db = (drain, db')" and inv: "db_inv db"
  shows "db_inv db'"
proof -
  let ?gs = "upsert_active_generation (rv_agent_id r) gen (rv_revision r) now
                 (demote_generations (rv_agent_id r) gen now (db_generations db))"
  have keys: "distinct (map gn_key (db_generations db))" using inv by (simp add: db_inv_def keys_ok_def)
  have "db_inv (db\<lparr>db_generations := ?gs\<rparr>)"
  proof (rule inv_generations[OF inv])
    show "distinct (map gn_key ?gs)" using keys by (intro upsert_keys) simp
    show "length (filter (\<lambda>g. gn_agent_id g = other \<and> gn_state g = GenActive) ?gs) \<le> 1" for other
      using inv by (intro activated_one_active[OF keys])
        (simp add: db_inv_def generations_ok_def active_generations_def)
  qed
  then show ?thesis
    using assms(1) by (auto simp: activate_coordinator_generation_tx_def Let_def)
qed

lemma activate_fields:
  assumes "activate_coordinator_generation_tx r gen now db = (drain, db')"
  shows "db_revisions db' = db_revisions db" "db_attempts db' = db_attempts db"
    "db_pointers db' = db_pointers db" "db_operations db' = db_operations db"
  using assms by (auto simp: activate_coordinator_generation_tx_def Let_def)

lemma lock_pointerD:
  "lock_coordinator_pointer agent db = Some p \<Longrightarrow> p \<in> set (db_pointers db) \<and> pt_agent_id p = trim_space agent"
  by (auto simp: lock_coordinator_pointer_def dest: find_SomeD)

lemma inv_pointer:
  assumes run: "update_coordinator_pointer_tx q db = Inr db'" and inv: "db_inv db" and q: "pointer_ok q"
  shows "db_inv db'"
proof -
  let ?P = "\<lambda>p. pt_agent_id p = pt_agent_id q \<and> pointer_below p q"
  let ?f = "\<lambda>p. p\<lparr>pt_desired_revision := pt_desired_revision q,
      pt_applied_revision := pt_applied_revision q,
      pt_last_known_good_revision := pt_last_known_good_revision q, pt_updated_at := pt_updated_at q\<rparr>"
  let ?ps = "upd_where ?P ?f (db_pointers db)"
  have keys: "map pt_agent_id ?ps = map pt_agent_id (db_pointers db)"
    by (simp add: map_key_upd_where)
  have ok: "pointer_ok (?f p)" for p using q by (simp add: pointer_ok_def)
  have "\<forall>p \<in> set ?ps. pointer_ok p"
    using inv ok unfolding set_upd_where db_inv_def by blast
  with keys inv have "db_inv (db\<lparr>db_pointers := ?ps\<rparr>)"
    by (simp add: db_inv_def keys_ok_def attempts_ok_def active_attempts_def generations_ok_def
        active_generations_def)
  then show ?thesis
    using run inv
    by (auto simp: update_coordinator_pointer_tx_def Let_def tx_bind_Inr_iff split: if_splits)
qed

lemma update_pointer_fields:
  assumes "update_coordinator_pointer_tx q db = Inr db'"
  shows "db_revisions db' = db_revisions db" "db_attempts db' = db_attempts db"
    "db_generations db' = db_generations db" "db_operations db' = db_operations db"
  using assms by (auto simp: update_coordinator_pointer_tx_def Let_def tx_bind_Inr_iff split: if_splits)

lemma inv_pointer_ok: "db_inv db \<Longrightarrow> p \<in> set (db_pointers db) \<Longrightarrow> pointer_ok p"
  by (simp add: db_inv_def)

lemma inv_count_ok: "db_inv db \<Longrightarrow> r \<in> set (db_revisions db) \<Longrightarrow> count_ok r"
  by (simp add: db_inv_def)

end
