(* ===== verification/CoordSafe.thy ===== *)
theory CoordSafe
  imports CoordInv
begin

text \<open>
  Every operation of the coordinator keeps the ledger's invariant \<open>db_inv\<close>. The lemmas follow
  the operations' structure: one per transaction helper, then one per operation.
\<close>

subsection \<open>Commit\<close>

lemma commit_snd:
  "snd (commit db r) = (case r of Inl e \<Rightarrow> db | Inr (a, db') \<Rightarrow> db')"
  by (simp add: commit_def split: sum.splits prod.splits)

lemma inv_commit:
  "db_inv db \<Longrightarrow> (\<And>a db'. r = Inr (a, db') \<Longrightarrow> db_inv db') \<Longrightarrow> db_inv (snd (commit db r))"
  by (auto simp: commit_snd split: sum.splits)

lemma commit_InrD: "commit db r = (Inr a, db') \<Longrightarrow> r = Inr (a, db')"
  by (auto simp: commit_def split: sum.splits prod.splits)

lemma commit_InlD: "commit db r = (Inl e, db') \<Longrightarrow> r = Inl e \<and> db' = db"
  by (auto simp: commit_def split: sum.splits prod.splits)

subsection \<open>Claim\<close>

lemma active_closed_only:
  assumes one: "active_attempts agent db = [a]" and Pa: "P a"
    and f: "\<And>x. P x \<Longrightarrow> \<not> attempt_active (f x)"
  shows "active_attempts agent (db\<lparr>db_attempts := upd_where P f (db_attempts db)\<rparr>) = []"
proof -
  let ?Q = "\<lambda>a. at_agent_id a = agent \<and> attempt_active a"
  have "filter ?Q (upd_where P f (db_attempts db)) = filter (\<lambda>r. ?Q r \<and> \<not> P r) (db_attempts db)"
    using f by (intro filter_upd_where_out) simp
  also have "\<dots> = filter (\<lambda>r. \<not> P r) (active_attempts agent db)"
    by (simp add: active_attempts_def filter_filter conj_commute)
  also have "\<dots> = []" using one Pa by simp
  finally show ?thesis by (simp add: active_attempts_def)
qed

lemma supersede_attempt_active_Nil:
  assumes "supersede_attempt_tx a now db = (a', db')" and one: "active_attempts agent db = [a]"
  shows "active_attempts agent db' = []"
proof -
  have "a \<in> set (active_attempts agent db)" using one by simp
  then have act: "attempt_active a" by (simp add: active_attempts_def)
  show ?thesis
    using assms(1) act
    by (auto simp: supersede_attempt_tx_def Let_def intro!: active_closed_only[OF one])
      (simp_all add: attempt_active_def)
qed

lemma expire_active_Nil:
  assumes run: "expire_unstarted_attempt_tx a now db = Inr db'"
    and one: "active_attempts agent db = [a]" and leased: "at_state a = AttLeased"
  shows "active_attempts agent db' = []"
proof -
  let ?db = "db\<lparr>db_attempts := upd_where (\<lambda>x. at_key x = at_key a \<and> at_lease_id x = at_lease_id a \<and>
             at_state x = AttLeased)
           (\<lambda>x. x\<lparr>at_state := AttExpiredUnstarted, at_finished_at := Some now,
              at_error_code := ''lease_expired'',
              at_error := ''lease expired before prepare_started''\<rparr>) (db_attempts db)\<rparr>"
  have "active_attempts agent ?db = []"
    by (rule active_closed_only[OF one]) (simp_all add: leased attempt_active_def)
  then show ?thesis
    using expire_effect[OF run leased] by (simp add: active_attempts_def)
qed

lemma lock_active_single:
  "lock_active_coordinator_attempts agent db = [a] \<Longrightarrow> active_attempts (trim_space agent) db = [a]"
proof -
  assume l: "lock_active_coordinator_attempts agent db = [a]"
  then have "set (active_attempts (trim_space agent) db) = {a}"
    unfolding lock_active_coordinator_attempts_def
    by (metis empty_set list.simps(15) set_sort)
  moreover have "length (active_attempts (trim_space agent) db) = 1"
    using l unfolding lock_active_coordinator_attempts_def
    by (metis One_nat_def length_Cons length_sort list.size(3))
  ultimately show ?thesis by (auto simp: length_Suc_conv)
qed

lemma lock_active_Nil:
  "lock_active_coordinator_attempts agent db = [] \<longleftrightarrow> active_attempts (trim_space agent) db = []"
  by (metis length_0_conv length_sort lock_active_coordinator_attempts_def)

lemma claim_active_quiet:
  assumes run: "claim_active_tx agent p now db = Inr (busy, ns, db')" and ag: "trim_space agent = agent"
  shows "quiet db db' \<and> (busy \<longrightarrow> db' = db \<and> ns = []) \<and> (\<not> busy \<longrightarrow> active_attempts agent db' = [])"
proof (cases "lock_active_coordinator_attempts agent db")
  case Nil
  with run ag show ?thesis by (auto simp: claim_active_tx_def lock_active_Nil)
next
  case (Cons a as)
  show ?thesis
  proof (cases as)
    case (Cons b bs)
    with \<open>lock_active_coordinator_attempts agent db = a # as\<close> run show ?thesis
      by (simp add: claim_active_tx_def)
  next
    case Nil
    with Cons have l: "lock_active_coordinator_attempts agent db = [a]" by simp
    note one = lock_active_single[OF l, unfolded ag]
    have "a \<in> set (active_attempts agent db)" using one by simp
    then have st: "at_state a = AttLeased \<or> at_state a = AttStarted"
      by (auto simp: active_attempts_def attempt_active_def)
    consider (old) "at_revision a < pt_desired_revision p"
      | (busy) "\<not> at_revision a < pt_desired_revision p" "now < at_deadline_at a"
      | (late) "\<not> at_revision a < pt_desired_revision p" "\<not> now < at_deadline_at a"
      by blast
    then show ?thesis
    proof cases
      case old
      obtain a' db1 where s: "supersede_attempt_tx a now db = (a', db1)" by fastforce
      with run old l have "supersede_revision_tx agent (at_revision a) now db1 = Inr db' \<and> \<not> busy"
        by (auto simp: claim_active_tx_def tx_bind_Inr_iff)
      then show ?thesis
        using supersede_attempt_quiet[OF s] supersede_attempt_active_Nil[OF s one]
          supersede_revision_quiet quiet_active_Nil quiet_trans by blast
    next
      case busy
      with run l show ?thesis by (auto simp: claim_active_tx_def split: if_splits)
    next
      case late
      with run l st have e: "expire_unstarted_attempt_tx a now db = Inr db'" "at_state a = AttLeased" "\<not> busy"
        by (auto simp: claim_active_tx_def tx_bind_Inr_iff split: if_splits)
      then show ?thesis using expire_quiet[OF e(1)] expire_active_Nil[OF e(1) one e(2)] by simp
    qed
  qed
qed

lemma find_attempt_key:
  "find_attempt ag n c k db = Some a \<Longrightarrow> a \<in> set (db_attempts db) \<and> at_key a = (ag, n, c, k)"
  by (auto simp: find_attempt_def at_key_def dest: find_SomeD)

lemma find_attempt_None:
  "find_attempt ag n c k db = None \<Longrightarrow> x \<in> set (db_attempts db) \<Longrightarrow> at_key x \<noteq> (ag, n, c, k)"
  by (auto simp: find_attempt_def at_key_def find_None_iff)

text \<open>A new lease for an agent without an active attempt is the agent's only active attempt.\<close>

lemma filter_one_upd:
  "distinct (map key t) \<Longrightarrow> (\<And>x. key (f x) = key x) \<Longrightarrow> filter Q t = [] \<Longrightarrow>
   length (filter Q (upd_where (\<lambda>x. key x = k) f t)) \<le> 1"
  by (rule filter_key_le_1[where key = key and k = k])
     (auto simp: map_key_upd_where set_upd_where filter_empty_conv)

lemma inv_store_lease:
  assumes run: "store_lease_tx a db = Inr db'" and inv: "db_inv db"
    and none: "active_attempts (at_agent_id a) db = []"
  shows "db_inv db'"
proof -
  have keys: "distinct (map at_key (db_attempts db))" using inv by (simp add: db_inv_def keys_ok_def)
  have one: "length (active_attempts other db) \<le> 1" for other
    using inv by (simp add: db_inv_def attempts_ok_def)
  have goal: "db_inv (db\<lparr>db_attempts := t\<rparr>)"
    if "distinct (map at_key t)"
      "\<And>other. length (filter (\<lambda>x. at_agent_id x = other \<and> attempt_active x) t) \<le> 1" for t
    using inv that by (simp add: db_inv_def keys_ok_def attempts_ok_def active_attempts_def
        generations_ok_def active_generations_def)
  show ?thesis
  proof (cases "find_attempt (at_agent_id a) (at_revision a) (at_retry_cycle a) (at_attempt a) db")
    case None
    have fresh: "at_key x \<noteq> at_key a" if "x \<in> set (db_attempts db)" for x
      using find_attempt_None[OF None that] by (simp add: at_key_def)
    have "db' = db\<lparr>db_attempts := db_attempts db @ [a]\<rparr>"
      using run None by (simp add: store_lease_tx_def split: if_splits)
    moreover have "db_inv (db\<lparr>db_attempts := db_attempts db @ [a]\<rparr>)"
    proof (rule goal)
      show "distinct (map at_key (db_attempts db @ [a]))"
        using keys fresh by (auto simp: image_iff) metis
      show "length (filter (\<lambda>x. at_agent_id x = other \<and> attempt_active x) (db_attempts db @ [a])) \<le> 1"
        for other
        using one[of other] none by (cases "other = at_agent_id a") (simp_all add: active_attempts_def)
    qed
    ultimately show ?thesis by simp
  next
    case (Some e)
    let ?f = "\<lambda>x. x\<lparr>at_lease_id := at_lease_id a, at_state := AttLeased,
                        at_started_at := at_started_at a, at_deadline_at := at_deadline_at a,
                        at_finished_at := None, at_error_code := [], at_error := []\<rparr>"
    let ?t = "upd_where (\<lambda>x. at_key x = at_key a) ?f (db_attempts db)"
    have key: "at_key (?f x) = at_key x" for x by (simp add: at_key_def)
    have "db' = db\<lparr>db_attempts := ?t\<rparr>"
      using run Some by (simp add: store_lease_tx_def split: if_splits)
    moreover have "db_inv (db\<lparr>db_attempts := ?t\<rparr>)"
    proof (rule goal)
      show "distinct (map at_key ?t)" using keys by (simp add: map_key_upd_where key)
      show "length (filter (\<lambda>x. at_agent_id x = other \<and> attempt_active x) ?t) \<le> 1" for other
      proof (cases "other = at_agent_id a")
        case True
        with none have "filter (\<lambda>x. at_agent_id x = other \<and> attempt_active x) (db_attempts db) = []"
          by (simp add: active_attempts_def)
        with keys key show ?thesis
          by (rule filter_one_upd[where key = at_key and k = "at_key a" and f = ?f])
      next
        case False
        then have "length (filter (\<lambda>x. at_agent_id x = other \<and> attempt_active x) ?t) \<le>
            length (filter (\<lambda>x. at_agent_id x = other \<and> attempt_active x) (db_attempts db))"
          by (intro length_filter_upd_where_le) (simp add: at_key_def)
        then show ?thesis using one[of other] by (simp add: active_attempts_def)
      qed
    qed
    ultimately show ?thesis by simp
  qed
qed

lemma inv_claim_lease:
  assumes run: "claim_lease_tx lease r now da dd db = Inr (l, db')" and inv: "db_inv db"
    and none: "active_attempts (rv_agent_id r) db = []"
  shows "db_inv db'"
  using run inv none
  by (auto simp: claim_lease_tx_def Let_def tx_bind_Inr_iff intro!: inv_append_event
      intro: inv_store_lease)

lemma inv_claim_desired:
  assumes run: "claim_desired_tx agent lease p now da dd sps db = Inr (res, db')" and inv: "db_inv db"
    and none: "active_attempts agent db = []"
  shows "db_inv db'"
  using run inv none find_revision_key[of agent "pt_desired_revision p" db]
  by (auto simp: claim_desired_tx_def Let_def tx_bind_Inr_iff rv_key_def split: option.splits if_splits
      intro: inv_claim_lease)

lemma inv_claim_tx:
  assumes run: "claim_tx agent lease eo er now da dd db = Inr (res, db')" and inv: "db_inv db"
    and ag: "trim_space agent = agent"
  shows "db_inv db'"
proof (cases "lock_coordinator_pointer agent db")
  case None
  with run inv show ?thesis by (simp add: claim_tx_def)
next
  case (Some p)
  show ?thesis
  proof (cases "claim_scope_tx agent eo er p db")
    case (Inl e)
    with run Some show ?thesis by (simp add: claim_tx_def)
  next
    case (Inr sc)
    show ?thesis
    proof (cases sc)
      case False
      with run Some Inr inv show ?thesis by (simp add: claim_tx_def)
    next
      case True
      with run Some Inr obtain busy ns db1 where act: "claim_active_tx agent p now db = Inr (busy, ns, db1)"
        by (auto simp: claim_tx_def tx_bind_Inr_iff)
      note q = claim_active_quiet[OF act ag]
      show ?thesis
      proof (cases busy)
        case True
        with run Some Inr \<open>sc\<close> act q inv show ?thesis by (simp add: claim_tx_def)
      next
        case False
        with run Some Inr \<open>sc\<close> act obtain older db2 where
          old: "supersede_older_coordinator_revisions_tx p now db1 = Inr (older, db2)" and
          des: "claim_desired_tx agent lease p now da dd (append_unique_revisions ns older) db2 = Inr (res, db')"
          by (auto simp: claim_tx_def tx_bind_Inr_iff)
        note q2 = supersede_older_quiet[OF old]
        have "db_inv db2" using inv q q2 quiet_inv by blast
        moreover have "active_attempts agent db2 = []" using False q q2 quiet_active_Nil by blast
        ultimately show ?thesis by (rule inv_claim_desired[OF des])
      qed
    qed
  qed
qed

lemma inv_claim:
  "db_inv db \<Longrightarrow> db_inv (snd (claim_latest_agent_revision clock req db))"
  by (auto simp: claim_latest_agent_revision_def Let_def intro!: inv_commit elim!: inv_claim_tx)

subsection \<open>Start and bind\<close>

lemma bind_fields:
  assumes "bind_coordinator_runtime_identity_tx r g h db = Inr (r', db')"
  shows "db_attempts db' = db_attempts db" "db_pointers db' = db_pointers db"
    "db_generations db' = db_generations db"
  using assms by (auto simp: bind_coordinator_runtime_identity_tx_def Let_def split: if_splits)

lemma inv_bind:
  assumes run: "bind_coordinator_runtime_identity_tx r g h db = Inr (r', db')" and inv: "db_inv db"
  shows "db_inv db'"
proof -
  have "db_inv (db\<lparr>db_revisions := upd_where (\<lambda>x. rv_key x = rv_key r \<and> rv_runtime_generation_id x = [] \<and>
                     rv_runtime_snapshot_hash x = [])
     (\<lambda>x. x\<lparr>rv_runtime_generation_id := g, rv_runtime_snapshot_hash := h\<rparr>) (db_revisions db)\<rparr>)"
    by (rule inv_upd_revisions[OF inv]) (simp add: rv_key_def count_ok_def)
  then show ?thesis
    using run inv by (auto simp: bind_coordinator_runtime_identity_tx_def Let_def split: if_splits)
qed

lemma inv_restart:
  "restart_tx req gen now p a r db = Inr (res, db') \<Longrightarrow> db_inv db \<Longrightarrow> db_inv db'"
  by (auto simp: restart_tx_def tx_bind_Inr_iff split: if_splits intro: inv_bind)

lemma inv_first_start:
  assumes run: "first_start_tx req gen now a r db = Inr (res, db')" and inv: "db_inv db"
    and r: "count_ok r" "rv_state r = RevPending" "ls_attempt (sr_lease req) = rv_attempt_count r + 1"
  shows "db_inv db'"
proof -
  let ?deadline = "now + resolved_coordinator_timeout_seconds (rv_apply_timeout_seconds r)
                            (sr_default_apply_timeout req) 60 * second"
  let ?db1 = "db\<lparr>db_attempts := upd_where
              (\<lambda>x. at_key x = at_key a \<and> at_lease_id x = at_lease_id a \<and> at_state x = AttLeased)
              (\<lambda>x. x\<lparr>at_state := AttStarted, at_started_at := now, at_deadline_at := ?deadline,
                     at_finished_at := None\<rparr>) (db_attempts db)\<rparr>"
  let ?db2 = "?db1\<lparr>db_revisions := upd_where
              (\<lambda>x. rv_key x = rv_key r \<and> rv_state x = RevPending \<and>
                   rv_attempt_count x = rv_attempt_count r)
              (start_revision_row req gen now) (db_revisions ?db1)\<rparr>"
  have "db_inv ?db1"
    by (rule inv_upd_attempts[OF inv]) (simp add: at_key_def attempt_active_def)
  then have "db_inv ?db2"
    by (rule inv_upd_revisions) (use r in \<open>simp add: start_revision_row_def rv_key_def count_ok_def\<close>)
  note inv_append_event[OF this]
  moreover obtain db4 ev where "refresh_coordinator_operation_tx (rv_operation_id (start_revision_row req gen now r)) now
      (append_coordinator_event_tx (start_revision_row req gen now r) ''prepare_started'' now ev ?db2) = Inr db4" "db' = db4"
    using run unfolding first_start_tx_def Let_def by (auto simp: tx_bind_Inr_iff simp del: append_event_fields)
  ultimately show ?thesis using inv_refresh by blast
qed

lemma read_revisionD: "read_revision agent n db = Inr r \<Longrightarrow> r \<in> set (db_revisions db) \<and> rv_key r = (agent, n)"
  by (auto simp: read_revision_def split: option.splits dest: find_revision_key)

lemma read_pointerD: "read_pointer agent db = Inr p \<Longrightarrow> p \<in> set (db_pointers db) \<and> pt_agent_id p = trim_space agent"
  by (auto simp: read_pointer_def split: option.splits dest: lock_pointerD)

lemma lock_attemptD:
  "lock_coordinator_attempt l db = Inr a \<Longrightarrow>
   a \<in> set (db_attempts db) \<and> at_key a = (ls_agent_id l, ls_revision l, ls_retry_cycle l, ls_attempt l)"
  by (auto simp: lock_coordinator_attempt_def split: option.splits dest: find_attempt_key)

lemma inv_start_tx:
  assumes run: "start_tx req gen now db = Inr (res, db')" and inv: "db_inv db"
  shows "db_inv db'"
proof -
  let ?l = "sr_lease req"
  obtain p a r where pre: "read_pointer (ls_agent_id ?l) db = Inr p"
      "lock_coordinator_attempt ?l db = Inr a" "at_lease_id a = ls_lease_id ?l"
      "read_revision (ls_agent_id ?l) (ls_revision ?l) db = Inr r"
    using run by (auto simp: start_tx_def Let_def tx_bind_Inr_iff split: if_splits)
  have cnt: "count_ok r" using inv read_revisionD[OF pre(4)] inv_count_ok by blast
  obtain a' db1 where s: "supersede_attempt_tx a now db = (a', db1)" by fastforce
  have sup: "db_inv db2" if "supersede_revision_tx (ls_agent_id ?l) (ls_revision ?l) now db1 = Inr db2" for db2
    by (rule quiet_inv[OF supersede_revision_quiet[OF that] quiet_inv[OF supersede_attempt_quiet[OF s] inv]])
  have exp: "db_inv db2" if "expire_unstarted_attempt_tx a now db = Inr db2" for db2
    by (rule quiet_inv[OF expire_quiet[OF that] inv])
  from run show ?thesis
    using inv sup cnt exp
    by (auto simp: start_tx_def Let_def pre s tx_bind_Inr_iff split: if_splits
        elim: inv_restart inv_first_start)
qed

lemma inv_start: "db_inv db \<Longrightarrow> db_inv (snd (start_agent_revision_attempt clock req db))"
proof -
  assume inv: "db_inv db"
  have "db_inv (snd (commit db (start_tx req g now db)))" for g now
    using inv by (rule inv_commit) (erule inv_start_tx[OF _ inv])
  then show ?thesis
    using inv
    by (auto simp: start_agent_revision_attempt_def Let_def split: sum.splits prod.splits)
      (metis snd_conv)+
qed

lemma inv_bind_runtime:
  assumes inv: "db_inv db"
  shows "db_inv (snd (bind_agent_revision_runtime clock l gen rg hash now0 db))"
  using inv
  by (auto simp: bind_agent_revision_runtime_def Let_def tx_bind_Inr_iff split: if_splits
      intro!: inv_commit elim: inv_bind)

subsection \<open>Failure and apply\<close>

lemma fail_revision_row_ok:
  "count_ok x \<Longrightarrow> rv_attempt_count x = rv_attempt_count r \<Longrightarrow>
   rv_key (fail_revision_row c m now d (attempts_exhausted r) x) = rv_key x \<and>
   count_ok (fail_revision_row c m now d (attempts_exhausted r) x)"
  by (simp add: fail_revision_row_def rv_key_def count_ok_def attempts_exhausted_def)

lemma inv_fail_started:
  assumes run: "fail_started_coordinator_attempt_tx r a now j c0 m0 db = Inr (res, db')"
    and inv: "db_inv db"
  shows "db_inv db'"
proof -
  define c where "c = (if trim_space c0 = [] then ''apply_failed'' else trim_space c0)"
  define m where "m = (if trim_space m0 = [] then ''apply attempt failed'' else trim_space m0)"
  let ?db1 = "db\<lparr>db_attempts := upd_where
              (\<lambda>x. at_key x = at_key a \<and> at_lease_id x = at_lease_id a \<and> at_state x = AttStarted)
              (\<lambda>x. x\<lparr>at_state := AttFailed, at_finished_at := Some now, at_error_code := c,
                       at_error := m\<rparr>) (db_attempts db)\<rparr>"
  let ?fr = "fail_revision_row c m now (retry_delay_of r j) (attempts_exhausted r)"
  let ?db2 = "?db1\<lparr>db_revisions := upd_where
              (\<lambda>x. rv_key x = rv_key r \<and> rv_state x = RevApplying \<and>
                   rv_attempt_count x = rv_attempt_count r) ?fr (db_revisions ?db1)\<rparr>"
  have "db_inv ?db1"
    by (rule inv_upd_attempts[OF inv]) (simp add: at_key_def attempt_active_def)
  then have "db_inv ?db2"
    by (rule inv_upd_revisions) (simp add: fail_revision_row_ok)
  note inv_append_event[OF this]
  moreover obtain t ev where "refresh_coordinator_operation_tx (rv_operation_id r) now
      (append_coordinator_event_tx (?fr r) t now ev ?db2) = Inr db'"
    using run unfolding fail_started_coordinator_attempt_tx_def Let_def c_def m_def
    by (auto simp: tx_bind_Inr_iff simp del: append_event_fields)
  ultimately show ?thesis using inv_refresh by blast
qed

lemma inv_fail: "db_inv db \<Longrightarrow> db_inv (snd (fail_agent_revision_attempt clock req db))"
  by (auto simp: fail_agent_revision_attempt_def fail_tx_def Let_def tx_bind_Inr_iff
      split: if_splits intro!: inv_commit elim: inv_fail_started)

lemma apply_row_ok:
  "count_ok x \<Longrightarrow> rv_key (apply_revision_row gen drain now x) = rv_key x \<and>
   count_ok (apply_revision_row gen drain now x)"
  by (simp add: apply_revision_row_def rv_key_def count_ok_def)

lemma apply_row_key: "rv_key (apply_revision_row gen drain now x) = rv_key x"
  by (simp add: apply_revision_row_def rv_key_def)

lemma advance_pointer_ok:
  "pointer_ok p \<Longrightarrow> n \<le> pt_desired_revision p \<Longrightarrow> pointer_ok (advance_pointer n now p)"
  by (simp add: advance_pointer_def pointer_ok_def)

text \<open>
  The part that applying a started attempt and adopting a journal share: the generation is
  activated, attempts are closed, the revision is applied and the pointer advanced.
\<close>

lemma inv_adopt:
  assumes inv: "db_inv db" and p: "pointer_ok p" "n \<le> pt_desired_revision p"
    and act: "activate_coordinator_generation_tx r gen now db = (drain, db1)"
    and f: "\<And>x. P x \<Longrightarrow> at_key (f x) = at_key x \<and> \<not> attempt_active (f x)"
    and db3: "db3 = db1\<lparr>db_attempts := upd_where P f (db_attempts db1),
        db_revisions := upd_where (\<lambda>x. rv_key x = k) (apply_revision_row gen drain now) (db_revisions db1)\<rparr>"
    and upd: "update_coordinator_pointer_tx (advance_pointer n now p) db3 = Inr db4"
    and ref: "refresh_coordinator_operation_tx w now (append_coordinator_event_tx r' t now ev db4) = Inr db6"
  shows "db_inv db6"
proof -
  let ?db2 = "db1\<lparr>db_attempts := upd_where P f (db_attempts db1)\<rparr>"
  have "db_inv db1" by (rule inv_activate[OF act inv])
  then have "db_inv ?db2" by (rule inv_upd_attempts) (use f in blast)
  then have "db_inv (?db2\<lparr>db_revisions := upd_where (\<lambda>x. rv_key x = k)
      (apply_revision_row gen drain now) (db_revisions ?db2)\<rparr>)"
    by (rule inv_upd_revisions) (simp add: apply_row_ok)
  then have "db_inv db3" by (simp add: db3)
  with upd have "db_inv db4" by (rule inv_pointer) (rule advance_pointer_ok[OF p])
  then show ?thesis by (rule inv_refresh[OF ref inv_append_event])
qed

lemma inv_apply_started:
  assumes run: "apply_started_tx gen now p a r db = Inr (res, db')" and inv: "db_inv db"
    and p: "pointer_ok p" "rv_revision r \<le> pt_desired_revision p"
  shows "db_inv db'"
proof -
  obtain drain db1 where act: "activate_coordinator_generation_tx r gen now db = (drain, db1)"
    by fastforce
  from run obtain db4 where
    upd: "update_coordinator_pointer_tx (advance_pointer (rv_revision r) now p)
      (db1\<lparr>db_attempts := upd_where
              (\<lambda>x. at_key x = at_key a \<and> at_lease_id x = at_lease_id a \<and> at_state x = AttStarted)
              (\<lambda>x. x\<lparr>at_state := AttApplied, at_finished_at := Some now, at_error_code := [],
                     at_error := []\<rparr>) (db_attempts db1),
           db_revisions := upd_where (\<lambda>x. rv_key x = rv_key r)
              (apply_revision_row gen drain now) (db_revisions db1)\<rparr>) = Inr db4"
    and ref: "\<exists>w r' t ev. refresh_coordinator_operation_tx w now
      (append_coordinator_event_tx r' t now ev db4) = Inr db'"
    by (auto simp: apply_started_tx_def Let_def act tx_bind_Inr_iff simp del: append_event_fields)
      blast
  from ref obtain w r' t ev where ref': "refresh_coordinator_operation_tx w now
      (append_coordinator_event_tx r' t now ev db4) = Inr db'" by blast
  show ?thesis
    by (rule inv_adopt[OF inv p act _ refl upd ref']) (simp add: at_key_def attempt_active_def)
qed

lemma inv_apply: "db_inv db \<Longrightarrow> db_inv (snd (apply_agent_revision_attempt clock req db))"
proof -
  assume inv: "db_inv db"
  have "db_inv db'" if run: "apply_tx l gen now db = Inr (res, db')" for l gen now res db'
  proof -
    obtain p a r where pre: "read_pointer (ls_agent_id l) db = Inr p"
      "lock_coordinator_attempt l db = Inr a" "read_revision (ls_agent_id l) (ls_revision l) db = Inr r"
      using run by (auto simp: apply_tx_def tx_bind_Inr_iff)
    have "rv_revision r = ls_revision l" using read_revisionD[OF pre(3)] by (simp add: rv_key_def)
    moreover have "pointer_ok p" using read_pointerD[OF pre(1)] inv inv_pointer_ok by blast
    ultimately show ?thesis
      using run inv
      by (auto simp: apply_tx_def pre split: if_splits elim!: inv_apply_started)
  qed
  then show ?thesis
    using inv by (auto simp: apply_agent_revision_attempt_def Let_def intro!: inv_commit)
qed

subsection \<open>Drains\<close>

text \<open>Updates of a revision that change neither its key nor its state and count.\<close>

lemma inv_upd_drain_state:
  "db_inv db \<Longrightarrow> db_inv (db\<lparr>db_revisions := upd_where P
     (\<lambda>x. x\<lparr>rv_drain_state := d x, rv_updated_at := now\<rparr>) (db_revisions db)\<rparr>)"
  by (erule inv_upd_revisions) (simp add: rv_key_def count_ok_def)

lemma inv_finish_drain:
  assumes run: "finish_drain_tx agent gen forced reason now p db = Inr (res, db')" and inv: "db_inv db"
  shows "db_inv db'"
proof -
  define gs where "gs = upd_where (\<lambda>g. gn_key g = (agent, gen) \<and> gn_state g = GenDraining)
      (finish_generation_row (if forced then GenForced else GenDrained) forced reason now)
      (db_generations db)"
  define db1 where "db1 = db\<lparr>db_generations := gs\<rparr>"
  have "db_inv db1"
    unfolding db1_def gs_def by (rule inv_finish_generations[OF inv]) simp
  note i = inv_append_event[OF this] inv_append_event[OF inv_upd_drain_state[OF this]]
  show ?thesis
  proof (cases "draining_count agent gs = 0")
    case True
    with run show ?thesis
      unfolding finish_drain_tx_def Let_def gs_def[symmetric] db1_def[symmetric]
      by (clarsimp simp: tx_bind_Inr_iff simp del: append_event_fields split del: if_split) (rule i(2))
  next
    case False
    with run show ?thesis
      unfolding finish_drain_tx_def Let_def gs_def[symmetric] db1_def[symmetric]
      by (clarsimp simp: tx_bind_Inr_iff simp del: append_event_fields split del: if_split) (rule i(1))
  qed
qed

lemma inv_drain: "db_inv db \<Longrightarrow> db_inv (snd (complete_coordinator_drain clock req db))"
  by (auto simp: complete_coordinator_drain_def drain_tx_def Let_def tx_bind_Inr_iff
      split: if_splits intro!: inv_commit elim: inv_finish_drain)

lemma inv_force_drains: "db_inv db \<Longrightarrow> db_inv (force_drains r now gs db)"
proof (induction gs arbitrary: db)
  case Nil
  then show ?case by simp
next
  case (Cons g gs)
  have "db_inv (db\<lparr>db_generations := upd_where
             (\<lambda>x. gn_key x = gn_key g \<and> gn_state x = GenDraining)
             (finish_generation_row GenForced True ''timeout'' now) (db_generations db)\<rparr>)"
    by (rule inv_finish_generations[OF Cons.prems]) simp
  then show ?case by (simp only: force_drains.simps) (rule Cons.IH[OF inv_append_event])
qed

lemma inv_force_draining:
  assumes run: "force_draining_tx r now gs db = Inr (n, db')" and inv: "db_inv db"
  shows "db_inv db'"
proof -
  have "db_inv db2" if "refresh_coordinator_operation_tx w now ((force_drains r now gs db)\<lparr>db_revisions :=
      upd_where P (\<lambda>x. x\<lparr>rv_drain_state := Forced, rv_updated_at := now\<rparr>)
        (db_revisions (force_drains r now gs db))\<rparr>) = Inr db2" for w P db2
    by (rule inv_refresh[OF that inv_upd_drain_state[OF inv_force_drains[OF inv]]])
  then show ?thesis
    using run inv by (auto simp: force_draining_tx_def Let_def tx_bind_Inr_iff split: if_splits)
qed

lemma inv_force_expired:
  "force_expired_coordinator_drains_tx p now db = Inr (n, db') \<Longrightarrow> db_inv db \<Longrightarrow> db_inv db'"
  by (auto simp: force_expired_coordinator_drains_tx_def split: if_splits option.splits
      elim: inv_force_draining)

subsection \<open>Reconciliation\<close>

lemma orphan_row_ok:
  "count_ok x \<Longrightarrow> rv_key (orphan_revision_row now j x) = rv_key x \<and> count_ok (orphan_revision_row now j x)"
  using fail_revision_row_ok[of x x]
  by (auto simp: orphan_revision_row_def) (simp_all add: rv_key_def count_ok_def coordinator_max_attempts_def)

lemma inv_orphan:
  assumes run: "reconcile_orphan_applying_revision_tx r now j db = Inr (r', db')" and inv: "db_inv db"
  shows "db_inv db'"
proof -
  have i: "db_inv (db\<lparr>db_revisions := upd_where (\<lambda>x. rv_key x = rv_key r \<and> rv_state x = RevApplying)
              (orphan_revision_row now j) (db_revisions db)\<rparr>)"
    by (rule inv_upd_revisions[OF inv]) (simp add: orphan_row_ok)
  show ?thesis
    using run i
    by (auto simp: reconcile_orphan_applying_revision_tx_def Let_def tx_bind_Inr_iff
        simp del: append_event_fields split: if_splits elim!: inv_refresh intro!: inv_append_event)
qed

lemma inv_reconcile_attempt:
  assumes run: "reconcile_attempt_tx agent p now j a (res, db) = Inr (res', db')" and inv: "db_inv db"
  shows "db_inv db'"
proof -
  obtain a' db1 where s: "supersede_attempt_tx a now db = (a', db1)" by fastforce
  have sup: "db_inv db2" if "supersede_revision_tx agent (at_revision a) now db1 = Inr db2" for db2
    by (rule quiet_inv[OF supersede_revision_quiet[OF that] quiet_inv[OF supersede_attempt_quiet[OF s] inv]])
  have exp: "db_inv db2" if "expire_unstarted_attempt_tx a now db = Inr db2" for db2
    by (rule quiet_inv[OF expire_quiet[OF that] inv])
  show ?thesis
    using run inv sup exp
    by (auto simp: reconcile_attempt_tx_def s tx_bind_Inr_iff split: if_splits attempt_state.splits
        elim: inv_fail_started)
qed

lemma inv_reconcile_attempts:
  "reconcile_attempts_tx agent p now j as (res, db) = Inr (res', db') \<Longrightarrow> db_inv db \<Longrightarrow> db_inv db'"
proof (induction as arbitrary: res db)
  case Nil
  then show ?case by simp
next
  case (Cons a as)
  then obtain res1 db1 where "reconcile_attempt_tx agent p now j a (res, db) = Inr (res1, db1)"
    "reconcile_attempts_tx agent p now j as (res1, db1) = Inr (res', db')"
    by (auto simp: tx_bind_Inr_iff)
  then show ?case using Cons inv_reconcile_attempt by blast
qed

lemma inv_reconcile_desired:
  "reconcile_desired_tx agent p now j (res, db) = Inr (res', db') \<Longrightarrow> db_inv db \<Longrightarrow> db_inv db'"
  by (auto simp: reconcile_desired_tx_def tx_bind_Inr_iff split: option.splits if_splits
      elim: inv_orphan)

lemma inv_reconcile: "db_inv db \<Longrightarrow> db_inv (snd (reconcile_coordinator_agent clock agent0 now0 j db))"
proof -
  assume inv: "db_inv db"
  have "db_inv db'" if "reconcile_tx agent now j db = Inr (res, db')" for agent now res db'
    using that inv
    by (auto simp: reconcile_tx_def Let_def tx_bind_Inr_iff split: option.splits)
      (metis inv_reconcile_attempts inv_force_expired supersede_older_quiet quiet_inv
        inv_reconcile_desired)
  then show ?thesis
    using inv by (auto simp: reconcile_coordinator_agent_def Let_def intro!: inv_commit)
qed

subsection \<open>Retry\<close>

lemma load_replay_tables:
  assumes "load_coordinator_action_replay_tx i now db = Inr (p, db')"
  shows "db_attempts db' = db_attempts db" "db_revisions db' = db_revisions db"
    "db_pointers db' = db_pointers db" "db_generations db' = db_generations db"
    "db_artifacts db' = db_artifacts db" "db_operations db' = db_operations db"
  using assms
  by (auto simp: load_coordinator_action_replay_tx_def Let_def tx_bind_Inr_iff
      split: if_splits option.splits)

lemma persist_replay_tables:
  assumes "persist_coordinator_action_replay_tx i p now db = Inr db'"
  shows "db_attempts db' = db_attempts db" "db_revisions db' = db_revisions db"
    "db_pointers db' = db_pointers db" "db_generations db' = db_generations db"
    "db_artifacts db' = db_artifacts db" "db_operations db' = db_operations db"
  using assms by (auto simp: persist_coordinator_action_replay_tx_def split: if_splits)

lemma inv_load_replay:
  "load_coordinator_action_replay_tx i now db = Inr (p, db') \<Longrightarrow> db_inv db \<Longrightarrow> db_inv db'"
  by (rule inv_other_tables) (simp_all add: load_replay_tables)

lemma inv_persist_replay:
  "persist_coordinator_action_replay_tx i p now db = Inr db' \<Longrightarrow> db_inv db \<Longrightarrow> db_inv db'"
  by (rule inv_other_tables) (simp_all add: persist_replay_tables)

lemma retry_row_ok:
  "rv_key (retry_revision_row now x) = rv_key x \<and> count_ok (retry_revision_row now x)"
  by (simp add: retry_revision_row_def rv_key_def count_ok_def coordinator_max_attempts_def)

lemma inv_retry_fresh:
  assumes run: "retry_fresh_tx agent n now i db = Inr (res, db')" and inv: "db_inv db"
  shows "db_inv db'"
proof -
  let ?db1 = "db\<lparr>db_revisions := upd_where (\<lambda>x. rv_key x = (agent, n) \<and> rv_state x = RevFailed)
                 (retry_revision_row now) (db_revisions db)\<rparr>"
  have i: "db_inv (append_coordinator_event_tx r t now ev ?db1)" for r t ev
    by (rule inv_append_event[OF inv_upd_revisions[OF inv retry_row_ok]])
  obtain w r t ev pl db3 where
    "refresh_coordinator_operation_tx w now (append_coordinator_event_tx r t now ev ?db1) = Inr db3"
    "persist_coordinator_action_replay_tx i pl now db3 = Inr db'"
    using run
    by (auto simp: retry_fresh_tx_def Let_def tx_bind_Inr_iff simp del: append_event_fields
        split: if_splits)
  then show ?thesis using i inv_refresh inv_persist_replay by blast
qed

lemma inv_retry_tx:
  "retry_tx agent n now i db = Inr (res, db') \<Longrightarrow> db_inv db \<Longrightarrow> db_inv db'"
  by (auto simp: retry_tx_def tx_bind_Inr_iff split: option.splits if_splits
      dest: inv_load_replay intro: inv_retry_fresh)

lemma retry_idempotent_snd:
  "snd (retry_coordinator_revision_idempotent clock req db) = db \<or>
   (\<exists>agent n now i. snd (retry_coordinator_revision_idempotent clock req db) =
      snd (commit db (retry_tx agent n now i db)))"
proof -
  have "snd (retry_coordinator_revision_idempotent clock req db) = db \<or>
      snd (retry_coordinator_revision_idempotent clock req db) =
      snd (commit db (retry_tx (trim_space (rr_agent_id req)) (rr_revision req)
        (coordinator_time clock (rr_now req)) (rr_idempotency req) db))"
    by (auto simp: retry_coordinator_revision_idempotent_def Let_def
        split: sum.split prod.split option.split dest!: commit_InlD)
  then show ?thesis by blast
qed

lemma inv_retry:
  assumes inv: "db_inv db"
  shows "db_inv (snd (retry_coordinator_revision_idempotent clock req db))"
proof -
  have "db_inv (snd (commit db (retry_tx agent n now i db)))" for agent n now i
    using inv by (rule inv_commit) (erule inv_retry_tx[OF _ inv])
  then show ?thesis using inv retry_idempotent_snd[of clock req db] by metis
qed

subsection \<open>Journal\<close>

lemma inv_journal_adopt:
  assumes run: "journal_adopt_tx agent n digest gen now p r db = Inr (res, db')" and inv: "db_inv db"
    and p: "pointer_ok p" "n \<le> pt_desired_revision p"
  shows "db_inv db'"
proof -
  obtain drain db1 where act: "activate_coordinator_generation_tx r gen now db = (drain, db1)"
    by fastforce
  from run obtain db4 where
    upd: "update_coordinator_pointer_tx (advance_pointer n now p)
      (db1\<lparr>db_attempts := upd_where
              (\<lambda>a. at_agent_id a = agent \<and> at_revision a = n \<and> attempt_active a)
              (\<lambda>a. a\<lparr>at_state := AttApplied, at_finished_at := Some now, at_error_code := [],
                     at_error := []\<rparr>) (db_attempts db1),
           db_revisions := upd_where (\<lambda>x. rv_key x = (agent, n))
              (apply_revision_row gen drain now) (db_revisions db1)\<rparr>) = Inr db4"
    and ref: "\<exists>w r' t ev. refresh_coordinator_operation_tx w now
      (append_coordinator_event_tx r' t now ev db4) = Inr db'"
    by (auto simp: journal_adopt_tx_def Let_def act tx_bind_Inr_iff simp del: append_event_fields)
      blast
  from ref obtain w r' t ev where ref': "refresh_coordinator_operation_tx w now
      (append_coordinator_event_tx r' t now ev db4) = Inr db'" by blast
  show ?thesis
    by (rule inv_adopt[OF inv p act _ refl upd ref']) (simp add: at_key_def attempt_active_def)
qed

lemma inv_journal: "db_inv db \<Longrightarrow> db_inv (snd (reconcile_coordinator_journal clock req db))"
proof -
  assume inv: "db_inv db"
  have "db_inv db'" if run: "journal_tx agent n digest gen now db = Inr (res, db')"
    for agent n digest gen now res db'
  proof -
    obtain p where pre: "read_pointer agent db = Inr p"
      using run by (auto simp: journal_tx_def tx_bind_Inr_iff)
    have "pointer_ok p" using read_pointerD[OF pre] inv inv_pointer_ok by blast
    with run inv show ?thesis
      by (auto simp: journal_tx_def pre tx_bind_Inr_iff split: if_splits elim!: inv_journal_adopt)
  qed
  then show ?thesis
    using inv by (auto simp: reconcile_coordinator_journal_def Let_def intro!: inv_commit)
qed

subsection \<open>Rollback\<close>

lemma create_artifact_tables:
  assumes "create_immutable_artifact a db = Inr db'"
  shows "db_attempts db' = db_attempts db" "db_revisions db' = db_revisions db"
    "db_pointers db' = db_pointers db" "db_generations db' = db_generations db"
    "db_operations db' = db_operations db" "db_artifact_refs db' = db_artifact_refs db"
  using assms by (auto simp: create_immutable_artifact_def tx_bind_Inr_iff split: if_splits)

lemma inv_append_revision:
  assumes inv: "db_inv db" and fresh: "find_revision (rv_agent_id r) (rv_revision r) db = None"
    and ok: "count_ok r"
  shows "db_inv (db\<lparr>db_operations := ops, db_revisions := db_revisions db @ [r], db_artifact_refs := refs\<rparr>)"
proof -
  have "rv_key x \<noteq> rv_key r" if "x \<in> set (db_revisions db)" for x
    using find_revision_None[OF fresh that] by (simp add: rv_key_def)
  then have "distinct (map rv_key (db_revisions db @ [r]))"
    using inv by (auto simp: db_inv_def keys_ok_def image_iff) metis
  then show ?thesis
    using inv ok by (simp add: db_inv_def keys_ok_def attempts_ok_def active_attempts_def
        generations_ok_def active_generations_def)
qed

lemma inv_rollback_write:
  assumes run: "rollback_write_tx req agent now p source n payload digest db = Inr (res, db')"
    and inv: "db_inv db" and p: "pointer_ok p" "pt_desired_revision p < n"
  shows "db_inv db'"
proof -
  let ?row = "rollback_revision_row req agent n (trim_space (rq_operation_id req)) digest now source"
  obtain a ops refs db1 db3 r t ev pl i where
    art: "create_immutable_artifact a db = Inr db1"
    and fresh: "find_revision agent n db1 = None"
    and upd: "update_coordinator_pointer_tx (p\<lparr>pt_desired_revision := n, pt_updated_at := now\<rparr>)
      (db1\<lparr>db_operations := ops, db_revisions := db_revisions db1 @ [?row], db_artifact_refs := refs\<rparr>)
      = Inr db3"
    and per: "persist_coordinator_action_replay_tx i pl now
      (append_coordinator_event_tx r t now ev db3) = Inr db'"
    using run
    by (auto simp: rollback_write_tx_def Let_def tx_bind_Inr_iff simp del: append_event_fields
        split: if_splits)
  have i1: "db_inv db1" by (rule inv_other_tables[OF inv]) (simp_all add: create_artifact_tables[OF art])
  have "db_inv (db1\<lparr>db_operations := ops, db_revisions := db_revisions db1 @ [?row], db_artifact_refs := refs\<rparr>)"
    by (rule inv_append_revision[OF i1])
      (use fresh in \<open>simp_all add: rollback_revision_row_def count_ok_def coordinator_max_attempts_def\<close>)
  with upd have "db_inv db3" by (rule inv_pointer) (use p in \<open>simp add: pointer_ok_def\<close>)
  then show ?thesis by (rule inv_persist_replay[OF per inv_append_event])
qed

lemma inv_rollback_tx:
  assumes run: "rollback_tx fmt req agent now db = Inr (res, db')" and inv: "db_inv db"
  shows "db_inv db'"
proof -
  obtain replay db0 where l: "load_coordinator_action_replay_tx (rq_idempotency req) now db = Inr (replay, db0)"
    using run by (auto simp: rollback_tx_def tx_bind_Inr_iff)
  note i0 = inv_load_replay[OF l inv]
  show ?thesis
  proof (cases replay)
    case (Some x)
    with run l i0 show ?thesis by (auto simp: rollback_tx_def split: if_splits option.splits)
  next
    case None
    with run l have f: "rollback_fresh_tx fmt req agent now db0 = Inr (res, db')"
      by (simp add: rollback_tx_def)
    then obtain p src pay dig where pre: "read_pointer agent db0 = Inr p"
      and w: "rollback_write_tx req agent now p src (max (max_revision agent db0) (pt_desired_revision p) + 1)
        pay dig db0 = Inr (res, db')"
      by (auto simp: rollback_fresh_tx_def Let_def tx_bind_Inr_iff split: if_splits)
    have "pointer_ok p" using read_pointerD[OF pre] i0 inv_pointer_ok by blast
    with w i0 show ?thesis by (rule inv_rollback_write) simp
  qed
qed

lemma rollback_snd:
  "snd (copy_last_known_good_coordinator_revision fmt clock req db) = db \<or>
   (\<exists>agent now. snd (copy_last_known_good_coordinator_revision fmt clock req db) =
      snd (commit db (rollback_tx fmt req agent now db)))"
proof -
  have "snd (copy_last_known_good_coordinator_revision fmt clock req db) = db \<or>
      snd (copy_last_known_good_coordinator_revision fmt clock req db) =
      snd (commit db (rollback_tx fmt req (trim_space (rq_agent_id req))
        (coordinator_time clock (rq_now req)) db))"
    by (auto simp: copy_last_known_good_coordinator_revision_def Let_def
        split: sum.split prod.split option.split dest!: commit_InlD)
  then show ?thesis by blast
qed

lemma inv_rollback:
  assumes inv: "db_inv db"
  shows "db_inv (snd (copy_last_known_good_coordinator_revision fmt clock req db))"
proof -
  have "db_inv (snd (commit db (rollback_tx fmt req agent now db)))" for agent now
    using inv by (rule inv_commit) (erule inv_rollback_tx[OF _ inv])
  then show ?thesis using inv rollback_snd[of fmt clock req db] by metis
qed

subsection \<open>Retiring\<close>

lemma inv_retire_rows: "db_inv db \<Longrightarrow> db_inv (retire_rows now rs db)"
proof (induction rs arbitrary: db)
  case Nil
  then show ?case by simp
next
  case (Cons r rs)
  have "db_inv (db\<lparr>db_revisions := upd_where (\<lambda>x. rv_key x = rv_key r \<and> revision_open x)
             (retire_revision_row now) (db_revisions db)\<rparr>)"
    by (rule inv_upd_revisions[OF Cons.prems])
      (simp add: retire_revision_row_def rv_key_def count_ok_def)
  then show ?case by (simp only: retire_rows.simps) (rule Cons.IH[OF inv_append_event])
qed

lemma inv_refresh_operations:
  "refresh_operations_tx ws now db = Inr db' \<Longrightarrow> db_inv db \<Longrightarrow> db_inv db'"
proof (induction ws arbitrary: db)
  case Nil
  then show ?case by simp
next
  case (Cons w ws)
  then show ?case by (auto simp: tx_bind_Inr_iff dest: inv_refresh)
qed

lemma inv_drop_pointers: "db_inv db \<Longrightarrow> db_inv (db\<lparr>db_pointers := filter P (db_pointers db)\<rparr>)"
  by (simp add: db_inv_def keys_ok_def attempts_ok_def active_attempts_def generations_ok_def
      active_generations_def distinct_map_filter)

lemma inv_retire:
  assumes run: "retire_coordinator_agent_tx agent0 now db = Inr db'" and inv: "db_inv db"
  shows "db_inv db'"
proof (cases "trim_space agent0 = []")
  case True
  with run inv show ?thesis by (simp add: retire_coordinator_agent_tx_def)
next
  case False
  define agent where "agent = trim_space agent0"
  define db1 where "db1 = db\<lparr>db_attempts := upd_where (\<lambda>a. at_agent_id a = agent \<and> attempt_active a)
                (\<lambda>a. a\<lparr>at_state := AttSuperseded, at_finished_at := Some now,
                       at_error_code := ''agent_deleted'', at_error := ''agent was deleted''\<rparr>)
                (db_attempts db)\<rparr>"
  define rs where "rs = sort_key rv_revision
                (filter (\<lambda>r. rv_agent_id r = agent \<and> revision_open r) (db_revisions db1))"
  define db2 where "db2 = retire_rows now rs db1"
  define db3 where "db3 = db2\<lparr>db_generations := upd_where
                (\<lambda>g. gn_agent_id g = agent \<and> gn_state g = GenDraining)
                (finish_generation_row GenForced True ''agent_deleted'' now) (db_generations db2)\<rparr>"
  define db4 where "db4 = (case retired_applied_revision agent db2 of
                None \<Rightarrow> db3
              | Some r \<Rightarrow> db3\<lparr>db_revisions := upd_where (\<lambda>x. rv_key x = rv_key r)
                    (\<lambda>x. x\<lparr>rv_drain_state := Forced, rv_updated_at := now\<rparr>) (db_revisions db3)\<rparr>)"
  have "db_inv db1"
    unfolding db1_def by (rule inv_upd_attempts[OF inv]) (simp add: at_key_def attempt_active_def)
  then have "db_inv db2" unfolding db2_def by (rule inv_retire_rows)
  then have "db_inv db3" unfolding db3_def by (rule inv_finish_generations) simp
  then have "db_inv db4" unfolding db4_def by (simp add: inv_upd_drain_state split: option.split)
  note i = inv_drop_pointers[OF this, of "\<lambda>p. pt_agent_id p \<noteq> agent"]
  from False run obtain ws where
    "refresh_operations_tx ws now (db4\<lparr>db_pointers := filter (\<lambda>p. pt_agent_id p \<noteq> agent) (db_pointers db4)\<rparr>)
     = Inr db'"
    unfolding retire_coordinator_agent_tx_def Let_def if_not_P[OF False] agent_def[symmetric]
      db1_def[symmetric] rs_def[symmetric] db2_def[symmetric] db3_def[symmetric] db4_def[symmetric]
    by (simp only: if_not_P if_False)
  then show ?thesis using i by (rule inv_refresh_operations)
qed

end
