(* ===== verification/CoordRun.thy ===== *)
theory CoordRun
  imports CoordSafe
begin

text \<open>
  Histories of the coordinator: a step relation with one rule per operation, its closure, and
  what holds along every history: the invariant \<open>db_inv\<close>, and pointers that only grow for every
  agent that is not retired.
\<close>

subsection \<open>The step relation\<close>

text \<open>The label of a step is the agent it retires, if it is a retirement.\<close>

inductive coord_step ::
  "'snap snapshot_format \<Rightarrow> string option \<Rightarrow> db \<Rightarrow> db \<Rightarrow> bool" for fmt where
  step_claim: "coord_step fmt None db (snd (claim_latest_agent_revision clock req db))"
| step_start: "coord_step fmt None db (snd (start_agent_revision_attempt clock req db))"
| step_bind: "coord_step fmt None db (snd (bind_agent_revision_runtime clock l gen rgen hash now db))"
| step_fail: "coord_step fmt None db (snd (fail_agent_revision_attempt clock req db))"
| step_apply: "coord_step fmt None db (snd (apply_agent_revision_attempt clock req db))"
| step_drain: "coord_step fmt None db (snd (complete_coordinator_drain clock req db))"
| step_reconcile: "coord_step fmt None db (snd (reconcile_coordinator_agent clock agent now jitter db))"
| step_retry: "coord_step fmt None db (snd (retry_coordinator_revision_idempotent clock req db))"
| step_journal: "coord_step fmt None db (snd (reconcile_coordinator_journal clock req db))"
| step_rollback: "coord_step fmt None db (snd (copy_last_known_good_coordinator_revision fmt clock req db))"
| step_retire: "retire_coordinator_agent_tx agent now db = Inr db' \<Longrightarrow>
    coord_step fmt (Some (trim_space agent)) db db'"

inductive coord_run ::
  "'snap snapshot_format \<Rightarrow> string set \<Rightarrow> db \<Rightarrow> db \<Rightarrow> bool" for fmt where
  run_refl: "coord_run fmt {} db db"
| run_step: "coord_run fmt gone db db1 \<Longrightarrow> coord_step fmt lbl db1 db2 \<Longrightarrow>
    coord_run fmt (gone \<union> set_option lbl) db db2"

lemma coord_step_inv: "coord_step fmt lbl db db' \<Longrightarrow> db_inv db \<Longrightarrow> db_inv db'"
  by (induction rule: coord_step.induct)
     (simp_all add: inv_claim inv_start inv_bind_runtime inv_fail inv_apply inv_drain inv_reconcile
        inv_retry inv_journal inv_rollback inv_retire)

lemma coord_run_inv: "coord_run fmt gone db db' \<Longrightarrow> db_inv db \<Longrightarrow> db_inv db'"
  by (induction rule: coord_run.induct) (auto dest: coord_step_inv)

subsection \<open>Pointers\<close>

definition pointers_grow :: "string set \<Rightarrow> db \<Rightarrow> db \<Rightarrow> bool" where
  "pointers_grow gone db db' \<longleftrightarrow>
     (\<forall>p \<in> set (db_pointers db). pt_agent_id p \<in> gone \<or>
        (\<exists>p' \<in> set (db_pointers db'). pt_agent_id p' = pt_agent_id p \<and> pointer_below p p'))"

lemma pointer_below_refl [simp]: "pointer_below p p"
  by (simp add: pointer_below_def)

lemma pointer_below_trans: "pointer_below p q \<Longrightarrow> pointer_below q r \<Longrightarrow> pointer_below p r"
  by (auto simp: pointer_below_def)

lemma pointers_grow_same: "db_pointers db' = db_pointers db \<Longrightarrow> pointers_grow gone db db'"
  unfolding pointers_grow_def using pointer_below_refl by metis

lemma pointers_grow_trans:
  assumes "pointers_grow g db db1" and "pointers_grow h db1 db2"
  shows "pointers_grow (g \<union> h) db db2"
  unfolding pointers_grow_def
proof
  fix p assume p: "p \<in> set (db_pointers db)"
  show "pt_agent_id p \<in> g \<union> h \<or>
      (\<exists>p' \<in> set (db_pointers db2). pt_agent_id p' = pt_agent_id p \<and> pointer_below p p')"
  proof (cases "pt_agent_id p \<in> g \<union> h")
    case False
    with p assms(1) obtain p1 where p1: "p1 \<in> set (db_pointers db1)" "pt_agent_id p1 = pt_agent_id p"
      "pointer_below p p1" unfolding pointers_grow_def by blast
    with False assms(2) obtain p2 where p2: "p2 \<in> set (db_pointers db2)" "pt_agent_id p2 = pt_agent_id p1"
      "pointer_below p1 p2" unfolding pointers_grow_def by force
    have "pointer_below p p2" using p1(3) p2(3) by (rule pointer_below_trans)
    then show ?thesis using p1 p2 by auto
  qed simp
qed

lemma quiet_pointers: "quiet db db' \<Longrightarrow> db_pointers db' = db_pointers db"
  by (simp add: quiet_def)

lemma update_pointer_grows:
  assumes run: "update_coordinator_pointer_tx q db = Inr db'"
  shows "pointers_grow {} db db'"
proof -
  let ?P = "\<lambda>p. pt_agent_id p = pt_agent_id q \<and> pointer_below p q"
  let ?f = "\<lambda>p. p\<lparr>pt_desired_revision := pt_desired_revision q,
      pt_applied_revision := pt_applied_revision q,
      pt_last_known_good_revision := pt_last_known_good_revision q, pt_updated_at := pt_updated_at q\<rparr>"
  have below: "pt_agent_id (?f p) = pt_agent_id p \<and> pointer_below p (?f p)" if "?P p" for p
    using that by (simp add: pointer_below_def)
  have "pointers_grow {} db (db\<lparr>db_pointers := upd_where ?P ?f (db_pointers db)\<rparr>)"
    unfolding pointers_grow_def
  proof
    fix p assume p: "p \<in> set (db_pointers db)"
    show "pt_agent_id p \<in> {} \<or> (\<exists>p'\<in>set (db_pointers (db\<lparr>db_pointers := upd_where ?P ?f (db_pointers db)\<rparr>)).
        pt_agent_id p' = pt_agent_id p \<and> pointer_below p p')"
    proof (cases "?P p")
      case True
      with p have "?f p \<in> set (upd_where ?P ?f (db_pointers db))" by (rule upd_where_hit)
      then have "?f p \<in> set (db_pointers (db\<lparr>db_pointers := upd_where ?P ?f (db_pointers db)\<rparr>))"
        by simp
      with below[OF True] show ?thesis by blast
    next
      case False
      with p have "p \<in> set (upd_where ?P ?f (db_pointers db))" by (rule upd_where_miss)
      then have "p \<in> set (db_pointers (db\<lparr>db_pointers := upd_where ?P ?f (db_pointers db)\<rparr>))"
        by simp
      then show ?thesis using pointer_below_refl by blast
    qed
  qed
  then show ?thesis
    using run
    by (auto simp: update_coordinator_pointer_tx_def Let_def tx_bind_Inr_iff pointers_grow_same
        split: if_splits)
qed

lemma pointers_grow_refl [simp]: "pointers_grow g db db"
  by (rule pointers_grow_same) simp

lemma grow_commit:
  "(\<And>a db'. r = Inr (a, db') \<Longrightarrow> pointers_grow g db db') \<Longrightarrow> pointers_grow g db (snd (commit db r))"
  by (auto simp: commit_snd split: sum.splits)

lemma grow_commit_same:
  "(\<And>a db'. r = Inr (a, db') \<Longrightarrow> db_pointers db' = db_pointers db) \<Longrightarrow>
   pointers_grow g db (snd (commit db r))"
  by (rule grow_commit) (simp add: pointers_grow_same)

lemma claim_tx_pointers:
  assumes run: "claim_tx agent lease eo er now da dd db = Inr (res, db')" and ag: "trim_space agent = agent"
  shows "db_pointers db' = db_pointers db"
proof (cases "lock_coordinator_pointer agent db")
  case None
  with run show ?thesis by (simp add: claim_tx_def)
next
  case (Some p)
  have lease: "db_pointers db3 = db_pointers db2"
    if "claim_desired_tx agent lease p now da dd sps db2 = Inr (res, db3)" for sps db2 db3
    using that
    by (auto simp: claim_desired_tx_def claim_lease_tx_def store_lease_tx_def Let_def tx_bind_Inr_iff
        split: option.splits if_splits)
  show ?thesis
    using run
    by (auto simp: claim_tx_def Some tx_bind_Inr_iff split: if_splits
        dest!: claim_active_quiet[OF _ ag] supersede_older_quiet quiet_pointers lease)
qed

lemma supersede_attempt_pointers:
  "supersede_attempt_tx a now db = (a', db') \<Longrightarrow> db_pointers db' = db_pointers db"
  by (rule quiet_pointers[OF supersede_attempt_quiet])

lemma start_tx_pointers:
  "start_tx req gen now db = Inr (res, db') \<Longrightarrow> db_pointers db' = db_pointers db"
  by (auto simp: start_tx_def restart_tx_def first_start_tx_def Let_def tx_bind_Inr_iff
      supersede_attempt_pointers refresh_fields bind_fields
      split: if_splits prod.splits dest!: supersede_revision_quiet[THEN quiet_pointers]
        expire_quiet[THEN quiet_pointers] supersede_attempt_pointers)

lemma fail_started_pointers:
  "fail_started_coordinator_attempt_tx r a now j c m db = Inr (res, db') \<Longrightarrow>
   db_pointers db' = db_pointers db"
  by (auto simp: fail_started_coordinator_attempt_tx_def Let_def tx_bind_Inr_iff refresh_fields)

lemma force_drains_pointers [simp]: "db_pointers (force_drains r now gs db) = db_pointers db"
  by (induction gs arbitrary: db) simp_all

lemma force_draining_pointers:
  "force_draining_tx r now gs db = Inr (n, db') \<Longrightarrow> db_pointers db' = db_pointers db"
  by (auto simp: force_draining_tx_def Let_def tx_bind_Inr_iff refresh_fields split: if_splits)

lemma force_expired_pointers:
  "force_expired_coordinator_drains_tx p now db = Inr (n, db') \<Longrightarrow> db_pointers db' = db_pointers db"
  by (auto simp: force_expired_coordinator_drains_tx_def split: option.splits if_splits
      dest: force_draining_pointers)

lemma finish_drain_pointers:
  assumes run: "finish_drain_tx agent gen forced reason now p db = Inr (res, db')"
  shows "db_pointers db' = db_pointers db"
proof -
  define gs where "gs = upd_where (\<lambda>g. gn_key g = (agent, gen) \<and> gn_state g = GenDraining)
      (finish_generation_row (if forced then GenForced else GenDrained) forced reason now)
      (db_generations db)"
  define db1 where "db1 = db\<lparr>db_generations := gs\<rparr>"
  have "db_pointers db1 = db_pointers db" by (simp add: db1_def)
  then show ?thesis
    using run unfolding finish_drain_tx_def Let_def gs_def[symmetric] db1_def[symmetric]
    by (cases "draining_count agent gs = 0") (clarsimp simp: tx_bind_Inr_iff split del: if_split)+
qed

lemma drain_tx_pointers:
  "drain_tx req agent gen l now db = Inr (res, db') \<Longrightarrow> db_pointers db' = db_pointers db"
  by (auto simp: drain_tx_def tx_bind_Inr_iff split: if_splits dest: finish_drain_pointers)

lemma reconcile_attempt_pointers:
  "reconcile_attempt_tx agent p now j a (res, db) = Inr (res', db') \<Longrightarrow> db_pointers db' = db_pointers db"
  by (auto simp: reconcile_attempt_tx_def tx_bind_Inr_iff
      split: if_splits prod.splits attempt_state.splits
      dest!: supersede_revision_quiet[THEN quiet_pointers] expire_quiet[THEN quiet_pointers]
        supersede_attempt_pointers fail_started_pointers)

lemma reconcile_attempts_pointers:
  "reconcile_attempts_tx agent p now j as (res, db) = Inr (res', db') \<Longrightarrow>
   db_pointers db' = db_pointers db"
proof (induction as arbitrary: res db)
  case (Cons a as)
  then show ?case by (fastforce simp: tx_bind_Inr_iff dest: reconcile_attempt_pointers)
qed simp

lemma reconcile_desired_pointers:
  "reconcile_desired_tx agent p now j (res, db) = Inr (res', db') \<Longrightarrow> db_pointers db' = db_pointers db"
  by (auto simp: reconcile_desired_tx_def reconcile_orphan_applying_revision_tx_def Let_def
      tx_bind_Inr_iff refresh_fields split: option.splits if_splits)

lemma reconcile_tx_pointers:
  "reconcile_tx agent now j db = Inr (res, db') \<Longrightarrow> db_pointers db' = db_pointers db"
  by (auto simp: reconcile_tx_def Let_def tx_bind_Inr_iff split: option.splits
      dest!: reconcile_attempts_pointers force_expired_pointers supersede_older_quiet[THEN quiet_pointers]
        reconcile_desired_pointers)

lemma retry_tx_pointers:
  "retry_tx agent n now i db = Inr (res, db') \<Longrightarrow> db_pointers db' = db_pointers db"
  by (auto simp: retry_tx_def retry_fresh_tx_def Let_def tx_bind_Inr_iff refresh_fields
      persist_replay_tables split: option.splits if_splits dest!: load_replay_tables(3))

lemma grow_via_update:
  assumes run: "update_coordinator_pointer_tx q db1 = Inr db2"
    and pre: "db_pointers db1 = db_pointers db" and post: "db_pointers db' = db_pointers db2"
  shows "pointers_grow {} db db'"
  using update_pointer_grows[OF run] unfolding pointers_grow_def pre post .

lemma apply_tx_grows:
  assumes run: "apply_tx l gen now db = Inr (res, db')"
  shows "pointers_grow {} db db'"
proof -
  have "pointers_grow {} db db'" if r: "apply_started_tx gen now p a r db = Inr (res, db')" for p a r
  proof -
    obtain drain db1 where act: "activate_coordinator_generation_tx r gen now db = (drain, db1)"
      by fastforce
    show ?thesis
      using r activate_fields(3)[OF act]
      by (auto simp: apply_started_tx_def act Let_def tx_bind_Inr_iff refresh_fields
          elim!: grow_via_update)
  qed
  then show ?thesis using run by (auto simp: apply_tx_def tx_bind_Inr_iff split: if_splits)
qed

lemma journal_tx_grows:
  assumes run: "journal_tx agent n digest gen now db = Inr (res, db')"
  shows "pointers_grow {} db db'"
proof -
  have "pointers_grow {} db db'"
    if r: "journal_adopt_tx agent n digest gen now p r db = Inr (res, db')" for p r
  proof -
    obtain drain db1 where act: "activate_coordinator_generation_tx r gen now db = (drain, db1)"
      by fastforce
    show ?thesis
      using r activate_fields(3)[OF act]
      by (auto simp: journal_adopt_tx_def act Let_def tx_bind_Inr_iff refresh_fields
          elim!: grow_via_update)
  qed
  then show ?thesis using run by (auto simp: journal_tx_def tx_bind_Inr_iff split: if_splits)
qed

lemma rollback_write_grows:
  "rollback_write_tx req agent now p source n payload digest db = Inr (res, db') \<Longrightarrow>
   pointers_grow {} db db'"
  by (auto simp: rollback_write_tx_def Let_def tx_bind_Inr_iff persist_replay_tables
      create_artifact_tables split: if_splits elim!: grow_via_update)

lemma rollback_tx_grows:
  assumes run: "rollback_tx fmt req agent now db = Inr (res, db')"
  shows "pointers_grow {} db db'"
proof -
  obtain replay db0 where l: "load_coordinator_action_replay_tx (rq_idempotency req) now db = Inr (replay, db0)"
    using run by (auto simp: rollback_tx_def tx_bind_Inr_iff)
  have "pointers_grow {} db0 db'"
    using run l
    by (auto simp: rollback_tx_def rollback_fresh_tx_def Let_def tx_bind_Inr_iff
        split: option.splits if_splits dest: rollback_write_grows)
  then show ?thesis unfolding pointers_grow_def load_replay_tables(3)[OF l] .
qed

lemma retire_rows_pointers [simp]: "db_pointers (retire_rows now rs db) = db_pointers db"
  by (induction rs arbitrary: db) simp_all

lemma refresh_operations_pointers:
  "refresh_operations_tx ws now db = Inr db' \<Longrightarrow> db_pointers db' = db_pointers db"
  by (induction ws arbitrary: db) (auto simp: tx_bind_Inr_iff refresh_fields)

lemma retire_pointers:
  assumes run: "retire_coordinator_agent_tx agent now db = Inr db'"
  shows "db_pointers db' = (if trim_space agent = [] then db_pointers db
    else filter (\<lambda>p. pt_agent_id p \<noteq> trim_space agent) (db_pointers db))"
  using run
  by (cases "trim_space agent = []")
     (auto simp: retire_coordinator_agent_tx_def Let_def dest!: refresh_operations_pointers
        split: option.splits)

lemma retire_grows:
  "retire_coordinator_agent_tx agent now db = Inr db' \<Longrightarrow> pointers_grow {trim_space agent} db db'"
  unfolding pointers_grow_def by (auto simp: retire_pointers)

lemma coord_step_grows: "coord_step fmt lbl db db' \<Longrightarrow> pointers_grow (set_option lbl) db db'"
proof (induction rule: coord_step.induct)
  case (step_claim db clock req)
  show ?case
    by (auto simp: claim_latest_agent_revision_def Let_def
        intro!: grow_commit_same dest: claim_tx_pointers)
next
  case (step_start db clock req)
  have "pointers_grow {} db (snd (commit db (start_tx req g now db)))" for g now
    by (auto intro!: grow_commit_same dest: start_tx_pointers)
  then show ?case
    by (auto simp: start_agent_revision_attempt_def Let_def split: sum.splits prod.splits)
      (metis snd_conv)+
next
  case (step_bind db clock l gen rgen hash now)
  show ?case
    by (auto simp: bind_agent_revision_runtime_def Let_def tx_bind_Inr_iff split: if_splits
        intro!: grow_commit_same dest: bind_fields(2))
next
  case (step_fail db clock req)
  show ?case
    by (auto simp: fail_agent_revision_attempt_def fail_tx_def Let_def tx_bind_Inr_iff
        split: if_splits intro!: grow_commit_same dest: fail_started_pointers)
next
  case (step_apply db clock req)
  show ?case
    by (auto simp: apply_agent_revision_attempt_def Let_def intro!: grow_commit elim: apply_tx_grows)
next
  case (step_drain db clock req)
  show ?case
    by (auto simp: complete_coordinator_drain_def Let_def intro!: grow_commit_same
        dest: drain_tx_pointers)
next
  case (step_reconcile db clock agent now jitter)
  show ?case
    by (auto simp: reconcile_coordinator_agent_def Let_def intro!: grow_commit_same
        dest: reconcile_tx_pointers)
next
  case (step_retry db clock req)
  have "pointers_grow {} db (snd (commit db (retry_tx agent n now i db)))" for agent n now i
    by (auto intro!: grow_commit_same dest: retry_tx_pointers)
  then show ?case using retry_idempotent_snd[of clock req db] by (metis option.set(1) pointers_grow_refl)
next
  case (step_journal db clock req)
  show ?case
    by (auto simp: reconcile_coordinator_journal_def Let_def intro!: grow_commit elim: journal_tx_grows)
next
  case (step_rollback db clock req)
  have "pointers_grow {} db (snd (commit db (rollback_tx fmt req agent now db)))" for agent now
    by (auto intro!: grow_commit elim: rollback_tx_grows)
  then show ?case using rollback_snd[of fmt clock req db] by (metis option.set(1) pointers_grow_refl)
next
  case (step_retire agent now db db')
  then show ?case by (simp add: retire_grows)
qed

lemma coord_run_grows: "coord_run fmt gone db db' \<Longrightarrow> pointers_grow gone db db'"
  by (induction rule: coord_run.induct) (auto dest: coord_step_grows intro: pointers_grow_trans)

end
