(* ===== verification/CoordProps.thy ===== *)
theory CoordProps
  imports CoordRun
begin

text \<open>
  The promises of the revision coordinator, each with an evaluation on a concrete ledger: the
  lease protocol (one lease at a time, fencing of stale leases, ordinals consumed only by
  started attempts), the monotone pointers, and idempotent reports.
\<close>

subsection \<open>What a successful claim does\<close>

lemma single_member: "length xs \<le> 1 \<Longrightarrow> x \<in> set xs \<Longrightarrow> xs = [x]"
  by (cases xs) auto

text \<open>The effect of reserving an ordinal: exactly one active attempt, the new lease.\<close>

lemma store_lease_active:
  assumes run: "store_lease_tx a db = Inr db'" and inv: "db_inv db"
    and none: "active_attempts (at_agent_id a) db = []" and leased: "at_state a = AttLeased"
  shows "\<exists>x. active_attempts (at_agent_id a) db' = [x] \<and> at_key x = at_key a \<and>
    at_lease_id x = at_lease_id a \<and> at_state x = AttLeased \<and> at_deadline_at x = at_deadline_at a"
proof -
  have le: "length (active_attempts (at_agent_id a) db') \<le> 1"
    using inv_store_lease[OF run inv none] by (simp add: db_inv_def attempts_ok_def)
  have "\<exists>x \<in> set (db_attempts db'). at_key x = at_key a \<and>
    at_lease_id x = at_lease_id a \<and> at_state x = AttLeased \<and> at_deadline_at x = at_deadline_at a"
  proof (cases "find_attempt (at_agent_id a) (at_revision a) (at_retry_cycle a) (at_attempt a) db")
    case None
    with run leased show ?thesis by (auto simp: store_lease_tx_def split: if_splits)
  next
    case (Some e)
    let ?f = "\<lambda>x. x\<lparr>at_lease_id := at_lease_id a, at_state := AttLeased,
                        at_started_at := at_started_at a, at_deadline_at := at_deadline_at a,
                        at_finished_at := None, at_error_code := [], at_error := []\<rparr>"
    have e: "e \<in> set (db_attempts db)" "at_key e = at_key a"
      using find_attempt_key[OF Some] by (simp_all add: at_key_def)
    from run Some have "db_attempts db' = upd_where (\<lambda>x. at_key x = at_key a) ?f (db_attempts db)"
      by (auto simp: store_lease_tx_def split: if_splits)
    with upd_where_hit[of e _ "\<lambda>x. at_key x = at_key a" ?f, OF e] have "?f e \<in> set (db_attempts db')" by simp
    moreover have "at_key (?f e) = at_key a" using e by (simp add: at_key_def)
    ultimately show ?thesis by (intro bexI[of _ "?f e"]) simp_all
  qed
  then obtain x where x: "x \<in> set (db_attempts db')" "at_key x = at_key a"
    "at_lease_id x = at_lease_id a" "at_state x = AttLeased" "at_deadline_at x = at_deadline_at a" by blast
  then have "x \<in> set (active_attempts (at_agent_id a) db')"
    by (simp add: active_attempts_def attempt_active_def at_key_def)
  with le have "active_attempts (at_agent_id a) db' = [x]" by (rule single_member)
  with x show ?thesis by blast
qed

text \<open>What a claim that returned a lease went through.\<close>

lemma claim_tx_leaseE:
  assumes run: "claim_tx agent lease eo er now da dd db = Inr (res, db')" and inv: "db_inv db"
    and ag: "trim_space agent = agent" and l: "cr_lease res = Some l"
  obtains p r db2 where "lock_coordinator_pointer agent db = Some p" "db_inv db2"
    "active_attempts agent db2 = []" "find_revision agent (pt_desired_revision p) db2 = Some r"
    "rv_state r = RevPending" "attempt_due now r" "quiet db db2"
    "claim_lease_tx lease r now da dd db2 = Inr (l, db')"
proof -
  obtain p where p: "lock_coordinator_pointer agent db = Some p"
    using run l by (cases "lock_coordinator_pointer agent db") (auto simp: claim_tx_def empty_claim_def)
  from run l p obtain ns db1 older db2 where
      act: "claim_active_tx agent p now db = Inr (False, ns, db1)"
    and old: "supersede_older_coordinator_revisions_tx p now db1 = Inr (older, db2)"
    and des: "claim_desired_tx agent lease p now da dd (append_unique_revisions ns older) db2 = Inr (res, db')"
    by (auto simp: claim_tx_def empty_claim_def tx_bind_Inr_iff split: if_splits)
  note q = claim_active_quiet[OF act ag] supersede_older_quiet[OF old]
  have qq: "quiet db db2" using q quiet_trans by blast
  show ?thesis
  proof (cases "find_revision agent (pt_desired_revision p) db2")
    case None
    with des l show ?thesis by (auto simp: claim_desired_tx_def empty_claim_def)
  next
    case (Some r)
    with des l have "rv_state r = RevPending" "attempt_due now r"
      "claim_lease_tx lease r now da dd db2 = Inr (l, db')"
      by (auto simp: claim_desired_tx_def empty_claim_def attempt_due_def tx_bind_Inr_iff Let_def
          split: if_splits option.splits)
    then show ?thesis
      using that[OF p quiet_inv[OF qq inv] _ Some] q quiet_active_Nil qq by blast
  qed
qed

lemma claim_lease_effect:
  assumes run: "claim_lease_tx lease r now da dd db = Inr (l, db')" and inv: "db_inv db"
    and none: "active_attempts (rv_agent_id r) db = []"
  shows "ls_agent_id l = rv_agent_id r \<and> ls_revision l = rv_revision r \<and>
    ls_retry_cycle l = rv_retry_cycle r \<and> ls_attempt l = rv_attempt_count r + 1 \<and>
    ls_lease_id l = lease \<and> 0 < ls_apply_timeout_seconds l \<and>
    ls_deadline_at l = now + ls_apply_timeout_seconds l * second \<and>
    (\<exists>x. active_attempts (rv_agent_id r) db' = [x] \<and>
       at_key x = (ls_agent_id l, ls_revision l, ls_retry_cycle l, ls_attempt l) \<and>
       at_lease_id x = lease \<and> at_state x = AttLeased \<and> at_deadline_at x = ls_deadline_at l)"
proof -
  let ?t = "resolved_coordinator_timeout_seconds (rv_apply_timeout_seconds r) da 60"
  let ?a = "\<lparr>at_agent_id = rv_agent_id r, at_revision = rv_revision r,
                     at_retry_cycle = rv_retry_cycle r, at_attempt = rv_attempt_count r + 1,
                     at_lease_id = lease, at_state = AttLeased, at_started_at = now,
                     at_deadline_at = now + ?t * second, at_finished_at = None, at_error_code = [],
                     at_error = []\<rparr>"
  obtain db1 where st: "store_lease_tx ?a db = Inr db1"
    and ev: "active_attempts (rv_agent_id r) db' = active_attempts (rv_agent_id r) db1"
    using run by (auto simp: claim_lease_tx_def Let_def tx_bind_Inr_iff active_attempts_def)
  have "0 < ?t" by (simp add: resolved_timeout_pos)
  then show ?thesis
    using run store_lease_active[OF st inv] none ev
    by (auto simp: claim_lease_tx_def Let_def tx_bind_Inr_iff at_key_def)
qed

text \<open>A revision that is open after a quiet step is the row that was there before it.\<close>

lemma list_all2_find_open:
  "list_all2 rev_closed t t' \<Longrightarrow> distinct (map rv_key t) \<Longrightarrow>
   find (\<lambda>r. rv_agent_id r = ag \<and> rv_revision r = n) t' = Some r \<Longrightarrow> revision_open r \<Longrightarrow>
   find (\<lambda>r. rv_agent_id r = ag \<and> rv_revision r = n) t = Some r"
proof (induction rule: list_all2_induct)
  case (Cons x xs y ys)
  have key: "rv_agent_id y = rv_agent_id x \<and> rv_revision y = rv_revision x"
    using Cons(1) by (simp add: rev_closed_def rv_key_def)
  show ?case
  proof (cases "rv_agent_id x = ag \<and> rv_revision x = n")
    case True
    with key Cons have "y = r" by simp
    with Cons(1,6) True show ?thesis by (auto simp: rev_closed_def)
  next
    case False
    with key Cons show ?thesis by (auto split: if_splits)
  qed
qed simp

lemma quiet_find_open:
  "quiet db db' \<Longrightarrow> distinct (map rv_key (db_revisions db)) \<Longrightarrow>
   find_revision ag n db' = Some r \<Longrightarrow> revision_open r \<Longrightarrow> find_revision ag n db = Some r"
  unfolding find_revision_def quiet_def by (blast intro: list_all2_find_open)

subsection \<open>A ledger with one pending revision\<close>

definition sample_operation :: operation_row where
  "sample_operation = \<lparr>op_id = ''op1'', op_kind = ''http_rule_update'', op_status = OpPending,
     op_primary_agent_id = ''edge'', op_request_fingerprint = [], op_no_op = False,
     op_error_code = [], op_error_message = [], op_created_at = 0, op_updated_at = 0,
     op_completed_at = None\<rparr>"

definition sample_revision :: "int \<Rightarrow> agent_revision" where
  "sample_revision n = \<lparr>rv_agent_id = ''edge'', rv_revision = n, rv_operation_id = ''op1'',
     rv_state = RevPending, rv_snapshot_artifact_id = ''snapshot-1'', rv_snapshot_digest = ''d1'',
     rv_desired_version = [], rv_apply_timeout_seconds = 0, rv_drain_timeout_seconds = 0,
     rv_retry_cycle = 0, rv_attempt_count = 0, rv_next_attempt_at = None, rv_generation_id = [],
     rv_runtime_generation_id = [], rv_runtime_snapshot_hash = [], rv_drain_state = NoDrain,
     rv_error_code = [], rv_error_message = [], rv_legacy_baseline = False, rv_created_at = 0,
     rv_updated_at = 0, rv_applied_at = None, rv_failed_at = None\<rparr>"

definition sample_ledger :: db where
  "sample_ledger = \<lparr>db_operations = [sample_operation], db_revisions = [sample_revision 7],
     db_pointers = [\<lparr>pt_agent_id = ''edge'', pt_desired_revision = 7, pt_applied_revision = 0,
       pt_last_known_good_revision = 0, pt_updated_at = 0\<rparr>],
     db_attempts = [], db_generations = [], db_events = [], db_event_seq = 1,
     db_artifact_refs = [], db_artifacts = [], db_idempotency = [], db_pki_settings = None\<rparr>"

definition sample_claim :: "string \<Rightarrow> time \<Rightarrow> claim_request" where
  "sample_claim lease now = \<lparr>cl_agent_id = ''edge'', cl_lease_id = lease,
     cl_expected_operation_id = [], cl_expected_revision = 0, cl_now = Some now,
     cl_default_apply_timeout = 30, cl_default_drain_timeout = 600\<rparr>"

definition claimed_ledger :: db where
  "claimed_ledger = snd (claim_latest_agent_revision 0 (sample_claim ''L1'' second) sample_ledger)"

definition sample_lease :: "string \<Rightarrow> coordinator_lease" where
  "sample_lease lease = \<lparr>ls_agent_id = ''edge'', ls_revision = 7, ls_retry_cycle = 0,
     ls_attempt = 1, ls_lease_id = lease, ls_snapshot_artifact_id = ''snapshot-1'',
     ls_snapshot_digest = ''d1'', ls_desired_version = [], ls_apply_timeout_seconds = 30,
     ls_drain_timeout_seconds = 600, ls_deadline_at = 31 * second\<rparr>"

definition sample_start :: "string \<Rightarrow> start_request" where
  "sample_start lease = \<lparr>sr_lease = sample_lease lease, sr_generation_id = ''g7'',
     sr_runtime_generation_id = [], sr_runtime_snapshot_hash = [], sr_now = Some (2 * second),
     sr_default_apply_timeout = 30\<rparr>"

definition started_ledger :: db where
  "started_ledger = snd (start_agent_revision_attempt 0 (sample_start ''L1'') claimed_ledger)"

definition sample_apply :: "string \<Rightarrow> time \<Rightarrow> apply_request" where
  "sample_apply lease now = \<lparr>ap_lease = sample_lease lease, ap_generation_id = ''g7'', ap_now = Some now\<rparr>"

definition applied_ledger :: db where
  "applied_ledger = snd (apply_agent_revision_attempt 0 (sample_apply ''L1'' (3 * second)) started_ledger)"

lemma trim_L1: "trim_space ''L1'' = ''L1''"
  by code_simp

lemma sample_inv: "db_inv sample_ledger"
  by (simp add: db_inv_def keys_ok_def attempts_ok_def active_attempts_def generations_ok_def
      active_generations_def sample_ledger_def sample_revision_def pointer_ok_def count_ok_def
      coordinator_max_attempts_def)

subsection \<open>Histories\<close>

text \<open>
  C1. Along every history of the coordinator's operations (claims, starts, reports, drains,
  reconciliations, retries, journal adoptions, rollbacks and retirements, in any order and with
  any arguments), the ledger keeps its invariant: primary keys stay unique, no agent ever has two
  active attempts or two active generations, pointers never pass the desired revision, and
  attempt counts stay within the limit of five.
\<close>

theorem coordinator_history_invariant:
  assumes "coord_run fmt gone db db'" and "db_inv db"
  shows "db_inv db'"
  using assms by (rule coord_run_inv)

definition plain_format :: "int snapshot_format" where
  "plain_format = \<lparr>sf_sha256_hex = (\<lambda>s. s), sf_clean_path = (\<lambda>s. s), sf_decode = (\<lambda>s. Some 0),
     sf_encode = (\<lambda>n. itoa n), sf_revision = (\<lambda>n. n), sf_with_revision = (\<lambda>n _. n),
     sf_filter = (\<lambda>n. n)\<rparr>"

lemma applied_history: "coord_run plain_format {} sample_ledger applied_ledger"
proof -
  have "coord_run plain_format ({} \<union> set_option None) sample_ledger claimed_ledger"
    unfolding claimed_ledger_def by (rule run_step[OF run_refl step_claim])
  then have "coord_run plain_format (({} \<union> set_option None) \<union> set_option None) sample_ledger started_ledger"
    unfolding started_ledger_def by (rule run_step[OF _ step_start])
  then have "coord_run plain_format ((({} \<union> set_option None) \<union> set_option None) \<union> set_option None)
      sample_ledger applied_ledger"
    unfolding applied_ledger_def by (rule run_step[OF _ step_apply])
  then show ?thesis by simp
qed

lemma started_inv: "db_inv started_ledger"
proof -
  have "coord_run plain_format ({} \<union> set_option None) sample_ledger claimed_ledger"
    unfolding claimed_ledger_def by (rule run_step[OF run_refl step_claim])
  then have "coord_run plain_format (({} \<union> set_option None) \<union> set_option None) sample_ledger started_ledger"
    unfolding started_ledger_def by (rule run_step[OF _ step_start])
  then show ?thesis by (rule coord_run_inv[OF _ sample_inv])
qed

theorem coordinator_history_invariant_witness:
  "db_inv applied_ledger \<and> map at_state (db_attempts applied_ledger) = [AttApplied]"
proof
  show "db_inv applied_ledger"
    by (rule coordinator_history_invariant[OF applied_history sample_inv])
  show "map at_state (db_attempts applied_ledger) = [AttApplied]" by code_simp
qed

text \<open>
  C2. Pointers only move forward: along every history, each component (desired, applied, last
  known good) of the pointer of an agent that was not retired is at least what it was.
\<close>

theorem coordinator_pointers_grow:
  assumes "coord_run fmt gone db db'" and "p \<in> set (db_pointers db)" and "pt_agent_id p \<notin> gone"
  shows "\<exists>p' \<in> set (db_pointers db'). pt_agent_id p' = pt_agent_id p \<and>
    pt_desired_revision p \<le> pt_desired_revision p' \<and> pt_applied_revision p \<le> pt_applied_revision p' \<and>
    pt_last_known_good_revision p \<le> pt_last_known_good_revision p'"
  using coord_run_grows[OF assms(1)] assms(2,3) unfolding pointers_grow_def pointer_below_def by blast

theorem coordinator_pointers_grow_witness:
  "\<exists>p' \<in> set (db_pointers applied_ledger). pt_agent_id p' = ''edge'' \<and> 7 \<le> pt_desired_revision p'"
  using coordinator_pointers_grow[OF applied_history, of "hd (db_pointers sample_ledger)"]
  by (force simp: sample_ledger_def)

subsection \<open>Claims\<close>

text \<open>
  C3. A claim that returns a lease makes it the agent's only active attempt: on a ledger that
  satisfies the invariant, the lease is for the agent's desired revision, which was pending and
  due, its ordinal is the next one and at most five, its deadline is a positive timeout after
  now, and afterwards the agent has exactly one active attempt, this one, leased under the
  requested lease id.
\<close>

theorem claim_exclusive:
  assumes run: "claim_latest_agent_revision clock req db = (Inr res, db')"
    and l: "cr_lease res = Some l" and inv: "db_inv db"
  shows "\<exists>p r x. lock_coordinator_pointer (cl_agent_id req) db = Some p \<and>
    find_revision (ls_agent_id l) (ls_revision l) db = Some r \<and> rv_state r = RevPending \<and>
    attempt_due (coordinator_time clock (cl_now req)) r \<and>
    ls_agent_id l = trim_space (cl_agent_id req) \<and> ls_revision l = pt_desired_revision p \<and>
    ls_attempt l = rv_attempt_count r + 1 \<and> ls_attempt l \<le> coordinator_max_attempts \<and>
    0 < ls_apply_timeout_seconds l \<and>
    ls_deadline_at l = coordinator_time clock (cl_now req) + ls_apply_timeout_seconds l * second \<and>
    active_attempts (ls_agent_id l) db' = [x] \<and> at_lease_id x = trim_space (cl_lease_id req) \<and>
    at_state x = AttLeased \<and> at_deadline_at x = ls_deadline_at l \<and>
    at_key x = (ls_agent_id l, ls_revision l, ls_retry_cycle l, ls_attempt l)"
proof -
  let ?agent = "trim_space (cl_agent_id req)" and ?now = "coordinator_time clock (cl_now req)"
  have "claim_tx ?agent (trim_space (cl_lease_id req)) (trim_space (cl_expected_operation_id req))
      (cl_expected_revision req) ?now (cl_default_apply_timeout req) (cl_default_drain_timeout req) db
      = Inr (res, db')"
    using run by (auto simp: claim_latest_agent_revision_def Let_def split: if_splits dest: commit_InrD)
  from claim_tx_leaseE[OF this inv trim_space_idem l] obtain p r db2 where
    p: "lock_coordinator_pointer ?agent db = Some p" and i2: "db_inv db2"
    and none: "active_attempts ?agent db2 = []"
    and r: "find_revision ?agent (pt_desired_revision p) db2 = Some r" "rv_state r = RevPending"
      "attempt_due ?now r" and q: "quiet db db2"
    and cl: "claim_lease_tx (trim_space (cl_lease_id req)) r ?now (cl_default_apply_timeout req)
      (cl_default_drain_timeout req) db2 = Inr (l, db')" .
  note key = find_revision_key[OF r(1)]
  then have ag: "rv_agent_id r = ?agent" and rev: "rv_revision r = pt_desired_revision p"
    by (simp_all add: rv_key_def)
  have "find_revision ?agent (pt_desired_revision p) db = Some r"
    by (rule quiet_find_open[OF q _ r(1)]) (use inv r in \<open>simp_all add: db_inv_def keys_ok_def revision_open_def\<close>)
  moreover have "rv_attempt_count r + 1 \<le> coordinator_max_attempts"
    using inv_count_ok[OF i2, of r] key r(2) by (simp add: count_ok_def)
  moreover have "lock_coordinator_pointer (cl_agent_id req) db = Some p"
    using p by (simp add: lock_coordinator_pointer_def)
  ultimately show ?thesis
    using claim_lease_effect[OF cl i2, unfolded ag] none r ag rev by force
qed

theorem claim_exclusive_witness:
  "\<exists>x. active_attempts ''edge'' claimed_ledger = [x] \<and> at_lease_id x = ''L1'' \<and>
     at_deadline_at x = 31 * second"
proof -
  have "claim_latest_agent_revision 0 (sample_claim ''L1'' second) sample_ledger =
    (Inr \<lparr>cr_lease = Some (sample_lease ''L1''), cr_busy = False, cr_superseded = []\<rparr>, claimed_ledger)"
    by code_simp
  from claim_exclusive[OF this _ sample_inv, of "sample_lease ''L1''"] show ?thesis
    by (auto simp: sample_lease_def sample_claim_def trim_L1)
qed

lemma stale_lock:
  assumes "\<forall>a. find_attempt (ls_agent_id l) (ls_revision l) (ls_retry_cycle l) (ls_attempt l) db
      = Some a \<longrightarrow> at_lease_id a \<noteq> ls_lease_id l"
  shows "lock_coordinator_attempt l db = Inl ELeaseConflict \<or>
    (\<exists>a. lock_coordinator_attempt l db = Inr a \<and> at_lease_id a \<noteq> ls_lease_id l)"
  using assms by (auto simp: lock_coordinator_attempt_def split: option.splits)

text \<open>
  C4. A stale lease is fenced: when the ledger has no attempt under the lease's key, or has it
  under another lease id, then starting, binding, failing and applying under this lease all fail
  and leave the ledger as it was.
\<close>

theorem stale_lease_fenced:
  assumes stale: "\<forall>a. find_attempt (ls_agent_id l) (ls_revision l) (ls_retry_cycle l) (ls_attempt l) db
      = Some a \<longrightarrow> at_lease_id a \<noteq> ls_lease_id l"
  shows "(\<exists>e. start_agent_revision_attempt clock (sreq\<lparr>sr_lease := l\<rparr>) db = (Inl e, db)) \<and>
    (\<exists>e. bind_agent_revision_runtime clock l gen rgen hash now db = (Inl e, db)) \<and>
    (\<exists>e. fail_agent_revision_attempt clock (freq\<lparr>fr_lease := l\<rparr>) db = (Inl e, db)) \<and>
    (\<exists>e. apply_agent_revision_attempt clock (areq\<lparr>ap_lease := l\<rparr>) db = (Inl e, db))"
proof (intro conjI)
  note lock = stale_lock[OF stale]
  have "\<exists>e. start_tx (sreq\<lparr>sr_lease := l\<rparr>) (trim_space (sr_generation_id sreq))
      (coordinator_time clock (sr_now sreq)) db = Inl e"
    using lock by (auto simp: start_tx_def read_pointer_def split: option.splits)
  then show "\<exists>e. start_agent_revision_attempt clock (sreq\<lparr>sr_lease := l\<rparr>) db = (Inl e, db)"
    by (auto simp: start_agent_revision_attempt_def Let_def)
  show "\<exists>e. bind_agent_revision_runtime clock l gen rgen hash now db = (Inl e, db)"
    using lock by (auto simp: bind_agent_revision_runtime_def Let_def read_pointer_def read_revision_def
        split: option.splits)
  have "\<exists>e. fail_tx (freq\<lparr>fr_lease := l\<rparr>) (trim_space (fr_generation_id freq))
      (coordinator_time clock (fr_now freq)) db = Inl e"
    using lock by (auto simp: fail_tx_def read_pointer_def split: option.splits)
  then show "\<exists>e. fail_agent_revision_attempt clock (freq\<lparr>fr_lease := l\<rparr>) db = (Inl e, db)"
    by (auto simp: fail_agent_revision_attempt_def Let_def)
  have "\<exists>e. apply_tx l (trim_space (ap_generation_id areq))
      (coordinator_time clock (ap_now areq)) db = Inl e"
    using lock by (auto simp: apply_tx_def read_pointer_def read_revision_def split: option.splits)
  then show "\<exists>e. apply_agent_revision_attempt clock (areq\<lparr>ap_lease := l\<rparr>) db = (Inl e, db)"
    by (auto simp: apply_agent_revision_attempt_def Let_def)
qed

theorem stale_lease_fenced_witness:
  "\<exists>e. apply_agent_revision_attempt 0 (sample_apply ''L2'' (3 * second)) started_ledger = (Inl e, started_ledger)"
proof -
  have "find_attempt ''edge'' 7 0 1 started_ledger = Some (hd (db_attempts started_ledger)) \<and>
    at_lease_id (hd (db_attempts started_ledger)) = ''L1''" by code_simp
  then have "\<forall>a. find_attempt (ls_agent_id (sample_lease ''L2'')) (ls_revision (sample_lease ''L2''))
      (ls_retry_cycle (sample_lease ''L2'')) (ls_attempt (sample_lease ''L2'')) started_ledger
      = Some a \<longrightarrow> at_lease_id a \<noteq> ls_lease_id (sample_lease ''L2'')"
    by (simp add: sample_lease_def)
  from stale_lease_fenced[OF this, of 0 _ _ _ _ _ _ "sample_apply ''L2'' (3 * second)"]
  show ?thesis by (simp add: sample_apply_def)
qed

text \<open>
  A busy answer changes nothing: when a claim reports the agent busy, the ledger is as it was,
  no lease is given, and the agent has one active attempt, on its desired revision and before
  its deadline.
\<close>

theorem claim_busy_unchanged:
  assumes run: "claim_latest_agent_revision clock req db = (Inr res, db')" and busy: "cr_busy res"
  shows "db' = db \<and> cr_lease res = None \<and>
    (\<exists>p a. lock_coordinator_pointer (cl_agent_id req) db = Some p \<and>
       active_attempts (trim_space (cl_agent_id req)) db = [a] \<and>
       at_revision a = pt_desired_revision p \<and>
       coordinator_time clock (cl_now req) < at_deadline_at a)"
proof -
  let ?agent = "trim_space (cl_agent_id req)" and ?now = "coordinator_time clock (cl_now req)"
  have tx: "claim_tx ?agent (trim_space (cl_lease_id req)) (trim_space (cl_expected_operation_id req))
      (cl_expected_revision req) ?now (cl_default_apply_timeout req) (cl_default_drain_timeout req) db
      = Inr (res, db')"
    using run by (auto simp: claim_latest_agent_revision_def Let_def split: if_splits dest: commit_InrD)
  have notbusy: "\<not> cr_busy res" if "claim_desired_tx ag le p t da dd sps db2 = Inr (res, db3)"
    for ag le p t da dd sps db2 db3
    using that by (auto simp: claim_desired_tx_def empty_claim_def Let_def tx_bind_Inr_iff
        split: option.splits if_splits)
  obtain p where p: "lock_coordinator_pointer ?agent db = Some p"
    using tx busy by (cases "lock_coordinator_pointer ?agent db") (auto simp: claim_tx_def empty_claim_def)
  from tx busy p obtain ns where act: "claim_active_tx ?agent p ?now db = Inr (True, ns, db')"
    and res: "res = empty_claim\<lparr>cr_busy := True\<rparr>"
    by (auto simp: claim_tx_def empty_claim_def tx_bind_Inr_iff split: if_splits dest: notbusy)
  have "db' = db" using claim_active_quiet[OF act trim_space_idem] by simp
  moreover have "\<exists>a. active_attempts ?agent db = [a] \<and> at_revision a = pt_desired_revision p \<and>
      ?now < at_deadline_at a"
    using act lock_active_single[of ?agent db]
    by (auto simp: claim_active_tx_def tx_bind_Inr_iff split: list.splits if_splits prod.splits)
  ultimately show ?thesis using res p by (auto simp: lock_coordinator_pointer_def empty_claim_def)
qed

theorem claim_busy_unchanged_witness:
  "snd (claim_latest_agent_revision 0 (sample_claim ''L2'' (3 * second)) claimed_ledger) = claimed_ledger"
proof -
  have "claim_latest_agent_revision 0 (sample_claim ''L2'' (3 * second)) claimed_ledger =
    (Inr (empty_claim\<lparr>cr_busy := True\<rparr>), snd (claim_latest_agent_revision 0 (sample_claim ''L2'' (3 * second)) claimed_ledger))"
    by code_simp
  from claim_busy_unchanged[OF this] show ?thesis by simp
qed

subsection \<open>Reports\<close>

lemma find_revision_unique:
  "distinct (map rv_key (db_revisions db)) \<Longrightarrow> r \<in> set (db_revisions db) \<Longrightarrow>
   find_revision (rv_agent_id r) (rv_revision r) db = Some r"
  unfolding find_revision_def by (rule find_key_unique[where key = rv_key]) (auto simp: rv_key_def)

lemma find_revision_upd:
  "(\<And>x. rv_key (f x) = rv_key x) \<Longrightarrow>
   find_revision ag n (db\<lparr>db_revisions := upd_where P f (db_revisions db)\<rparr>) =
   map_option (\<lambda>x. if P x then f x else x) (find_revision ag n db)"
  unfolding find_revision_def by (simp, rule find_upd_where) (simp add: rv_key_def)

lemma find_attempt_upd:
  "(\<And>x. at_key (f x) = at_key x) \<Longrightarrow>
   find_attempt ag n c k (db\<lparr>db_attempts := upd_where P f (db_attempts db)\<rparr>) =
   map_option (\<lambda>x. if P x then f x else x) (find_attempt ag n c k db)"
  unfolding find_attempt_def by (simp, rule find_upd_where) (simp add: at_key_def)

lemma find_tables:
  "db_revisions db' = db_revisions db \<Longrightarrow> find_revision ag n db' = find_revision ag n db"
  "db_attempts db' = db_attempts db \<Longrightarrow> find_attempt ag n c k db' = find_attempt ag n c k db"
  "db_pointers db' = db_pointers db \<Longrightarrow> lock_coordinator_pointer ag db' = lock_coordinator_pointer ag db"
  by (simp_all add: find_revision_def find_attempt_def lock_coordinator_pointer_def)

text \<open>After a pointer update the agent's pointer holds the target.\<close>

lemma update_pointer_value:
  assumes run: "update_coordinator_pointer_tx q db = Inr db'"
    and keys: "distinct (map pt_agent_id (db_pointers db))"
    and p: "lock_coordinator_pointer ag db = Some p" "pt_agent_id q = pt_agent_id p"
  shows "\<exists>p'. lock_coordinator_pointer ag db' = Some p' \<and> pt_agent_id p' = pt_agent_id p \<and>
    pt_desired_revision p' = pt_desired_revision q \<and> pt_applied_revision p' = pt_applied_revision q \<and>
    pt_last_known_good_revision p' = pt_last_known_good_revision q"
proof -
  let ?P = "\<lambda>p. pt_agent_id p = pt_agent_id q \<and> pointer_below p q"
  let ?f = "\<lambda>p. p\<lparr>pt_desired_revision := pt_desired_revision q,
      pt_applied_revision := pt_applied_revision q,
      pt_last_known_good_revision := pt_last_known_good_revision q, pt_updated_at := pt_updated_at q\<rparr>"
  note pin = lock_pointerD[OF p(1)]
  show ?thesis
  proof (cases "count_where ?P (db_pointers db) = 1")
    case True
    then have "filter ?P (db_pointers db) \<noteq> []" by (auto simp: count_where_def)
    then obtain x where x: "x \<in> set (db_pointers db)" "?P x" by (auto simp: filter_empty_conv)
    have xp: "x = p"
      by (rule distinct_key_inj[OF keys x(1) conjunct1[OF pin]]) (simp only: x(2) p(2))
    have "db' = db\<lparr>db_pointers := upd_where ?P ?f (db_pointers db)\<rparr>"
      using run True by (simp add: update_coordinator_pointer_tx_def Let_def)
    moreover have "find (\<lambda>x. pt_agent_id x = trim_space ag) (upd_where ?P ?f (db_pointers db)) =
        map_option (\<lambda>x. if ?P x then ?f x else x) (find (\<lambda>x. pt_agent_id x = trim_space ag) (db_pointers db))"
      by (rule find_upd_where) simp
    ultimately have "lock_coordinator_pointer ag db' = Some (?f p)"
      using p(1) x(2) xp by (simp add: lock_coordinator_pointer_def)
    then show ?thesis by (intro exI[of _ "?f p"] conjI) (simp_all add: p(2))
  next
    case False
    let ?C = "\<lambda>c. pt_desired_revision c = pt_desired_revision q \<and>
        pt_applied_revision c = pt_applied_revision q \<and>
        pt_last_known_good_revision c = pt_last_known_good_revision q"
    from run obtain c where
      c0: "first_where ERecordNotFound (\<lambda>p. pt_agent_id p = pt_agent_id q) (db_pointers db) = Inr c"
      and d: "(if ?C c then Inr db else Inl EStateConflict) = Inr db'"
      by (simp only: update_coordinator_pointer_tx_def Let_def if_not_P[OF False] tx_bind_Inr_iff) blast
    note c = first_where_InrD[OF c0]
    have "?C c" "db' = db" using d by (cases "?C c"; simp)+
    moreover have "c = p"
      by (rule distinct_key_inj[OF keys conjunct1[OF c] conjunct1[OF pin]]) (simp only: c p(2))
    ultimately show ?thesis using p by blast
  qed
qed

text \<open>What applying a started attempt leaves behind.\<close>

lemma apply_started_effect:
  assumes run: "apply_started_tx gen now p a r db = Inr (res, db')" and inv: "db_inv db"
    and p: "lock_coordinator_pointer ag db = Some p"
    and a: "find_attempt (at_agent_id a) (at_revision a) (at_retry_cycle a) (at_attempt a) db = Some a"
      "at_state a = AttStarted"
    and r: "find_revision (rv_agent_id r) (rv_revision r) db = Some r"
  shows "\<exists>a' r' p'. find_attempt (at_agent_id a) (at_revision a) (at_retry_cycle a) (at_attempt a) db' = Some a' \<and>
      at_lease_id a' = at_lease_id a \<and> at_attempt a' = at_attempt a \<and> at_state a' = AttApplied \<and>
    find_revision (rv_agent_id r) (rv_revision r) db' = Some r' \<and> rv_state r' = RevApplied \<and>
      rv_attempt_count r' = rv_attempt_count r \<and> rv_generation_id r' = gen \<and>
      rv_revision r' = rv_revision r \<and>
    lock_coordinator_pointer ag db' = Some p' \<and>
      pt_desired_revision p' = pt_desired_revision p \<and>
      pt_applied_revision p' = max (pt_applied_revision p) (rv_revision r) \<and>
      pt_last_known_good_revision p' = max (pt_last_known_good_revision p) (rv_revision r)"
proof -
  obtain drain db1 where act: "activate_coordinator_generation_tx r gen now db = (drain, db1)"
    by fastforce
  note f1 = activate_fields[OF act]
  let ?f = "\<lambda>x. x\<lparr>at_state := AttApplied, at_finished_at := Some now, at_error_code := [], at_error := []\<rparr>"
  let ?db2 = "db1\<lparr>db_attempts := upd_where
              (\<lambda>x. at_key x = at_key a \<and> at_lease_id x = at_lease_id a \<and> at_state x = AttStarted)
              ?f (db_attempts db1)\<rparr>"
  let ?db3 = "?db2\<lparr>db_revisions := upd_where (\<lambda>x. rv_key x = rv_key r)
              (apply_revision_row gen drain now) (db_revisions ?db2)\<rparr>"
  from run obtain db4 where upd: "update_coordinator_pointer_tx (advance_pointer (rv_revision r) now p) ?db3 = Inr db4"
    and same: "db_revisions db' = db_revisions db4" "db_attempts db' = db_attempts db4"
      "db_pointers db' = db_pointers db4"
    by (auto simp: apply_started_tx_def act Let_def tx_bind_Inr_iff refresh_fields)
  note f4 = update_pointer_fields[OF upd]
  have "find_attempt (at_agent_id a) (at_revision a) (at_retry_cycle a) (at_attempt a) ?db2 = Some (?f a)"
    using a find_tables(2)[OF f1(2)] by (subst find_attempt_upd) (simp_all add: at_key_def)
  then have A: "find_attempt (at_agent_id a) (at_revision a) (at_retry_cycle a) (at_attempt a) db' = Some (?f a)"
    using find_tables(2)[of db' ?db2] same f4 by simp
  have "find_revision (rv_agent_id r) (rv_revision r) ?db3 = Some (apply_revision_row gen drain now r)"
    using r find_tables(1)[of ?db2 db] f1 by (subst find_revision_upd) (simp_all add: apply_row_key)
  then have R: "find_revision (rv_agent_id r) (rv_revision r) db' = Some (apply_revision_row gen drain now r)"
    using find_tables(1)[of db' ?db3] same f4 by simp
  have "\<exists>p'. lock_coordinator_pointer ag db4 = Some p' \<and> pt_agent_id p' = pt_agent_id p \<and>
    pt_desired_revision p' = pt_desired_revision p \<and>
      pt_applied_revision p' = max (pt_applied_revision p) (rv_revision r) \<and>
      pt_last_known_good_revision p' = max (pt_last_known_good_revision p) (rv_revision r)"
    using update_pointer_value[OF upd, of ag p] inv p f1 find_tables(3)[of ?db3 db]
    by (simp add: db_inv_def keys_ok_def advance_pointer_def)
  then show ?thesis
    using A R find_tables(3)[OF same(3), of ag] by (auto simp: apply_revision_row_def)
qed

text \<open>
  C5. Applying is idempotent: on a ledger that satisfies the invariant, when an apply report of a
  lease succeeds, repeating it at any later time with the same generation id succeeds again,
  answers with the applied revision and the pointer as it is, and changes nothing.
\<close>

theorem apply_idempotent:
  assumes first: "apply_agent_revision_attempt clock req db = (Inr res, db1)" and inv: "db_inv db"
  shows "\<exists>res2. apply_agent_revision_attempt clock2 (req\<lparr>ap_now := now2\<rparr>) db1 = (Inr res2, db1) \<and>
    rv_state (as_revision res2) = RevApplied \<and>
    rv_key (as_revision res2) = (ls_agent_id (ap_lease req), ls_revision (ap_lease req)) \<and>
    pt_applied_revision (as_pointer res2) = ls_revision (ap_lease req)"
proof -
  let ?l = "ap_lease req" and ?gen = "trim_space (ap_generation_id req)"
  let ?now = "coordinator_time clock (ap_now req)" and ?now2 = "coordinator_time clock2 now2"
  have guards: "validate_coordinator_lease ?l" "?gen \<noteq> []"
    using first by (auto simp: apply_agent_revision_attempt_def Let_def split: if_splits)
  have tx: "apply_tx ?l ?gen ?now db = Inr (res, db1)"
    using first guards by (auto simp: apply_agent_revision_attempt_def Let_def dest: commit_InrD)
  then obtain p a r where pre: "read_pointer (ls_agent_id ?l) db = Inr p"
      "lock_coordinator_attempt ?l db = Inr a" "read_revision (ls_agent_id ?l) (ls_revision ?l) db = Inr r"
      "at_lease_id a = ls_lease_id ?l"
    by (auto simp: apply_tx_def tx_bind_Inr_iff split: if_splits)
  note rk = read_revisionD[OF pre(3)] and ak = lock_attemptD[OF pre(2)]
  have "\<exists>a' r' p'. lock_coordinator_attempt ?l db1 = Inr a' \<and> at_lease_id a' = ls_lease_id ?l \<and>
      at_state a' = AttApplied \<and> read_revision (ls_agent_id ?l) (ls_revision ?l) db1 = Inr r' \<and>
      rv_state r' = RevApplied \<and> rv_attempt_count r' = at_attempt a' \<and> rv_generation_id r' = ?gen \<and>
      rv_revision r' = ls_revision ?l \<and> rv_agent_id r' = ls_agent_id ?l \<and>
      read_pointer (ls_agent_id ?l) db1 = Inr p' \<and> pt_applied_revision p' = ls_revision ?l"
  proof (cases "at_state a = AttApplied")
    case True
    with tx pre rk show ?thesis by (auto simp: apply_tx_def rv_key_def split: if_splits)
  next
    case False
    with tx pre have g: "at_state a = AttStarted" "pt_desired_revision p = ls_revision ?l"
        "\<not> pt_applied_revision p > ls_revision ?l" "rv_attempt_count r = at_attempt a"
      and st: "apply_started_tx ?gen ?now p a r db = Inr (res, db1)"
      by (auto simp: apply_tx_def split: if_splits)
    have fp: "lock_coordinator_pointer (ls_agent_id ?l) db = Some p"
      using pre(1) by (auto simp: read_pointer_def split: option.splits)
    have fa: "find_attempt (at_agent_id a) (at_revision a) (at_retry_cycle a) (at_attempt a) db = Some a"
      using pre(2) ak by (auto simp: lock_coordinator_attempt_def at_key_def split: option.splits)
    have fr: "find_revision (rv_agent_id r) (rv_revision r) db = Some r"
      using pre(3) rk by (auto simp: read_revision_def rv_key_def split: option.splits)
    from apply_started_effect[OF st inv fp fa g(1) fr] obtain a' r' p' where e:
      "find_attempt (at_agent_id a) (at_revision a) (at_retry_cycle a) (at_attempt a) db1 = Some a'"
      "at_lease_id a' = at_lease_id a" "at_attempt a' = at_attempt a" "at_state a' = AttApplied"
      "find_revision (rv_agent_id r) (rv_revision r) db1 = Some r'" "rv_state r' = RevApplied"
      "rv_attempt_count r' = rv_attempt_count r" "rv_generation_id r' = ?gen"
      "lock_coordinator_pointer (ls_agent_id ?l) db1 = Some p'"
      "pt_applied_revision p' = max (pt_applied_revision p) (rv_revision r)" by blast
    have "rv_key r' = (rv_agent_id r, rv_revision r)" using find_revision_key[OF e(5)] by simp
    with e rk ak g pre(4) show ?thesis
      by (simp add: lock_coordinator_attempt_def read_revision_def read_pointer_def at_key_def rv_key_def)
  qed
  then obtain a' r' p' where f: "lock_coordinator_attempt ?l db1 = Inr a'" "at_lease_id a' = ls_lease_id ?l"
      "at_state a' = AttApplied" "read_revision (ls_agent_id ?l) (ls_revision ?l) db1 = Inr r'"
      "rv_state r' = RevApplied" "rv_attempt_count r' = at_attempt a'" "rv_generation_id r' = ?gen"
      "rv_revision r' = ls_revision ?l" "rv_agent_id r' = ls_agent_id ?l"
      "read_pointer (ls_agent_id ?l) db1 = Inr p'" "pt_applied_revision p' = ls_revision ?l" by blast
  then have "apply_tx ?l ?gen ?now2 db1 = Inr (\<lparr>as_revision = r', as_attempt = a', as_pointer = p'\<rparr>, db1)"
    by (simp add: apply_tx_def)
  then show ?thesis
    using guards f by (simp add: apply_agent_revision_attempt_def Let_def rv_key_def)
qed

theorem apply_idempotent_witness:
  "\<exists>res2. apply_agent_revision_attempt 0 (sample_apply ''L1'' (99 * second)) applied_ledger =
     (Inr res2, applied_ledger)"
proof -
  obtain res where "fst (apply_agent_revision_attempt 0 (sample_apply ''L1'' (3 * second)) started_ledger) = Inr res"
    by (rule that[of "projr (fst (apply_agent_revision_attempt 0 (sample_apply ''L1'' (3 * second)) started_ledger))"])
      code_simp
  then have "apply_agent_revision_attempt 0 (sample_apply ''L1'' (3 * second)) started_ledger = (Inr res, applied_ledger)"
    by (simp add: applied_ledger_def prod_eq_iff)
  from apply_idempotent[OF this started_inv, of 0 "Some (99 * second)"] show ?thesis
    by (auto simp: sample_apply_def)
qed

subsection \<open>Failures and their backoff\<close>

lemma coordinator_retry_delay_range:
  "0 \<le> coordinator_retry_delay k base limit j \<and>
   coordinator_retry_delay k base limit j \<le>
     (let b = if base \<le> 0 then second else base; l = if limit \<le> 0 then 30 * second else limit
      in min (max l b) (b * 2 ^ nat (k - 1)))"
proof -
  define b where "b = (if base \<le> 0 then second else base)"
  define l where "l = max (if limit \<le> 0 then 30 * second else limit) b"
  have b: "0 < b" and bl: "b \<le> l" by (auto simp: b_def l_def second_def)
  define n where "n = retry_bound (nat (k - 1)) b l"
  have n: "n \<le> l" "n \<le> b * 2 ^ nat (k - 1)" "0 < n"
    using retry_bound_le[OF b bl, of "nat (k - 1)"] by (simp_all add: n_def)
  have "coordinator_retry_delay k base limit j = f64_trunc (of_int n * clamp_jitter j)"
  proof -
    have "(if (if limit \<le> 0 then 30 * second else limit) < b then b
        else if limit \<le> 0 then 30 * second else limit) = l" by (auto simp: l_def)
    then show ?thesis
      unfolding coordinator_retry_delay_def Let_def b_def[symmetric] using n(1) by (simp add: n_def)
  qed
  moreover have "0 \<le> of_int n * clamp_jitter j" "of_int n * clamp_jitter j \<le> of_int n"
    using n(3) clamp_jitter_range[of j] by (simp_all add: mult_left_le)
  then have "0 \<le> f64_trunc (of_int n * clamp_jitter j) \<and> f64_trunc (of_int n * clamp_jitter j) \<le> n"
    by (rule f64_trunc_range)
  ultimately show ?thesis unfolding Let_def b_def[symmetric] l_def[symmetric] using n by simp
qed

text \<open>
  C6. The backoff between attempts is bounded for every jitter, not-a-number and infinities
  included: it is not negative, at most the limit (30 seconds when none is given, never below
  the base) and at most the base doubled once per earlier attempt.
\<close>

theorem retry_delay_bounded:
  "0 \<le> coordinator_retry_delay k base limit j \<and>
   coordinator_retry_delay k base limit j \<le> max (if limit \<le> 0 then 30 * second else limit) (if base \<le> 0 then second else base) \<and>
   coordinator_retry_delay k base limit j \<le> (if base \<le> 0 then second else base) * 2 ^ nat (k - 1)"
  using coordinator_retry_delay_range[of k base limit j] by (simp add: Let_def)

lemma fail_started_effect:
  assumes run: "fail_started_coordinator_attempt_tx r a now j c m db = Inr (res, db')"
    and r: "find_revision (rv_agent_id r) (rv_revision r) db = Some r" "rv_state r = RevApplying"
    and a: "find_attempt (at_agent_id a) (at_revision a) (at_retry_cycle a) (at_attempt a) db = Some a"
      "at_state a = AttStarted"
  shows "find_revision (rv_agent_id r) (rv_revision r) db' = Some (fs_revision res) \<and>
    find_attempt (at_agent_id a) (at_revision a) (at_retry_cycle a) (at_attempt a) db' = Some (fs_attempt res) \<and>
    at_state (fs_attempt res) = AttFailed \<and> fs_exhausted res = attempts_exhausted r \<and>
    fs_retry_delay res = retry_delay_of r j \<and>
    rv_attempt_count (fs_revision res) = rv_attempt_count r \<and>
    rv_retry_cycle (fs_revision res) = rv_retry_cycle r \<and>
    (if attempts_exhausted r then rv_state (fs_revision res) = RevFailed \<and> rv_next_attempt_at (fs_revision res) = None
     else rv_state (fs_revision res) = RevPending \<and>
       rv_next_attempt_at (fs_revision res) = Some (now + retry_delay_of r j))"
proof -
  define c' where "c' = (if trim_space c = [] then ''apply_failed'' else trim_space c)"
  define m' where "m' = (if trim_space m = [] then ''apply attempt failed'' else trim_space m)"
  let ?fa = "\<lambda>x. x\<lparr>at_state := AttFailed, at_finished_at := Some now, at_error_code := c', at_error := m'\<rparr>"
  let ?fr = "fail_revision_row c' m' now (retry_delay_of r j) (attempts_exhausted r)"
  let ?db1 = "db\<lparr>db_attempts := upd_where
              (\<lambda>x. at_key x = at_key a \<and> at_lease_id x = at_lease_id a \<and> at_state x = AttStarted) ?fa
              (db_attempts db)\<rparr>"
  let ?db2 = "?db1\<lparr>db_revisions := upd_where
              (\<lambda>x. rv_key x = rv_key r \<and> rv_state x = RevApplying \<and>
                   rv_attempt_count x = rv_attempt_count r) ?fr (db_revisions ?db1)\<rparr>"
  have same: "db_revisions db' = db_revisions ?db2" "db_attempts db' = db_attempts ?db2"
    and res: "fs_revision res = ?fr r" "fs_attempt res = ?fa a" "fs_exhausted res = attempts_exhausted r"
      "fs_retry_delay res = retry_delay_of r j"
    using run unfolding fail_started_coordinator_attempt_tx_def Let_def c'_def[symmetric] m'_def[symmetric]
    by (auto simp: tx_bind_Inr_iff refresh_fields)
  have "find_revision (rv_agent_id r) (rv_revision r) ?db2 = Some (?fr r)"
    using r find_tables(1)[of ?db1 db]
    by (subst find_revision_upd) (simp_all add: fail_revision_row_def rv_key_def)
  moreover have "find_attempt (at_agent_id a) (at_revision a) (at_retry_cycle a) (at_attempt a) ?db1 = Some (?fa a)"
    using a by (subst find_attempt_upd) (simp_all add: at_key_def)
  ultimately show ?thesis
    using find_tables(1)[of db' ?db2] find_tables(2)[of db' ?db1] same res
    by (simp add: fail_revision_row_def)
qed

text \<open>
  C7. A failure report spends the attempt and nothing else: the attempt is failed; the revision
  keeps its attempt count and retry cycle; while attempts are left it is pending again, due
  after a delay between zero and the smaller of 30 seconds and one second doubled per earlier
  attempt, and with the fifth attempt it is failed for good.
\<close>

theorem failure_accounting:
  assumes run: "fail_agent_revision_attempt clock req db = (Inr res, db')"
  shows "\<exists>r a. find_revision (ls_agent_id (fr_lease req)) (ls_revision (fr_lease req)) db = Some r \<and>
    rv_state r = RevApplying \<and> rv_attempt_count r = ls_attempt (fr_lease req) \<and>
    find_revision (ls_agent_id (fr_lease req)) (ls_revision (fr_lease req)) db' = Some (fs_revision res) \<and>
    find_attempt (ls_agent_id (fr_lease req)) (ls_revision (fr_lease req))
      (ls_retry_cycle (fr_lease req)) (ls_attempt (fr_lease req)) db' = Some a \<and> at_state a = AttFailed \<and>
    rv_attempt_count (fs_revision res) = rv_attempt_count r \<and>
    rv_retry_cycle (fs_revision res) = rv_retry_cycle r \<and>
    (if 5 \<le> ls_attempt (fr_lease req)
     then rv_state (fs_revision res) = RevFailed
     else rv_state (fs_revision res) = RevPending \<and>
       rv_next_attempt_at (fs_revision res) = Some (coordinator_time clock (fr_now req) + fs_retry_delay res) \<and>
       0 \<le> fs_retry_delay res \<and> fs_retry_delay res \<le> 30 * second \<and>
       fs_retry_delay res \<le> second * 2 ^ nat (ls_attempt (fr_lease req) - 1))"
proof -
  let ?l = "fr_lease req" and ?now = "coordinator_time clock (fr_now req)"
  have "fail_tx req (trim_space (fr_generation_id req)) ?now db = Inr (res, db')"
    using run by (auto simp: fail_agent_revision_attempt_def Let_def split: if_splits dest: commit_InrD)
  then obtain a r where pre: "lock_coordinator_attempt ?l db = Inr a"
      "read_revision (ls_agent_id ?l) (ls_revision ?l) db = Inr r" "at_state a = AttStarted"
      "rv_state r = RevApplying" "rv_attempt_count r = at_attempt a"
    and st: "fail_started_coordinator_attempt_tx r a ?now (fr_jitter req) (fr_error_code req)
               (fr_error_message req) db = Inr (res, db')"
    by (auto simp: fail_tx_def tx_bind_Inr_iff Let_def split: if_splits)
  note ak = lock_attemptD[OF pre(1)] and rk = read_revisionD[OF pre(2)]
  have fa: "find_attempt (at_agent_id a) (at_revision a) (at_retry_cycle a) (at_attempt a) db = Some a"
    using pre(1) ak by (auto simp: lock_coordinator_attempt_def at_key_def split: option.splits)
  have fr: "find_revision (rv_agent_id r) (rv_revision r) db = Some r"
    using pre(2) rk by (auto simp: read_revision_def rv_key_def split: option.splits)
  have k: "rv_agent_id r = ls_agent_id ?l" "rv_revision r = ls_revision ?l"
    "at_agent_id a = ls_agent_id ?l" "at_revision a = ls_revision ?l"
    "at_retry_cycle a = ls_retry_cycle ?l" "at_attempt a = ls_attempt ?l"
    using ak rk by (simp_all add: at_key_def rv_key_def)
  note e = fail_started_effect[OF st fr pre(4) fa pre(3), unfolded k]
  have ex: "attempts_exhausted r \<longleftrightarrow> 5 \<le> ls_attempt ?l"
    using pre(5) k by (simp add: attempts_exhausted_def coordinator_max_attempts_def)
  have "\<not> attempts_exhausted r \<Longrightarrow> 0 \<le> retry_delay_of r (fr_jitter req) \<and>
      retry_delay_of r (fr_jitter req) \<le> 30 * second \<and>
      retry_delay_of r (fr_jitter req) \<le> second * 2 ^ nat (ls_attempt ?l - 1)"
    using coordinator_retry_delay_range[of "rv_attempt_count r" second "30 * second" "fr_jitter req"] pre(5) k
    by (simp add: retry_delay_of_def second_def)
  then show ?thesis using e fr pre k ex by (auto split: if_splits)
qed

definition sample_failure :: "time \<Rightarrow> failure_request" where
  "sample_failure now = \<lparr>fr_lease = sample_lease ''L1'', fr_generation_id = ''g7'', fr_now = Some now,
     fr_jitter = FVal (1 / 2), fr_error_code = [], fr_error_message = []\<rparr>"

theorem failure_accounting_witness:
  "\<exists>res. fst (fail_agent_revision_attempt 0 (sample_failure (3 * second)) started_ledger) = Inr res \<and>
     rv_state (fs_revision res) = RevPending \<and> fs_retry_delay res \<le> second"
proof -
  let ?o = "fail_agent_revision_attempt 0 (sample_failure (3 * second)) started_ledger"
  have "case fst ?o of Inl _ \<Rightarrow> False | Inr _ \<Rightarrow> True" by code_simp
  then obtain res where res: "fst ?o = Inr res" by (auto split: sum.splits)
  then have "?o = (Inr res, snd ?o)" by (simp add: prod_eq_iff)
  from failure_accounting[OF this] res show ?thesis
    by (auto simp: sample_failure_def sample_lease_def)
qed

subsection \<open>The operation's status\<close>

definition status_rank :: "operation_status \<Rightarrow> nat" where
  "status_rank s = (case s of OpApplied \<Rightarrow> 0 | OpSuperseded \<Rightarrow> 1 | OpPending \<Rightarrow> 2 | OpApplying \<Rightarrow> 3 | OpFailed \<Rightarrow> 4)"

definition revision_status :: "revision_state \<Rightarrow> operation_status" where
  "revision_status s = (case s of RevPending \<Rightarrow> OpPending | RevApplying \<Rightarrow> OpApplying
     | RevApplied \<Rightarrow> OpApplied | RevFailed \<Rightarrow> OpFailed | RevSuperseded \<Rightarrow> OpSuperseded)"

lemma refresh_step_rank:
  "status_rank (fst (refresh_step r acc)) = max (status_rank (fst acc)) (status_rank (revision_status (rv_state r)))"
  by (cases acc; cases "rv_state r"; cases "fst acc") (auto simp: status_rank_def revision_status_def)

lemma refresh_step_completed:
  "fst (snd (refresh_step r acc)) = (fst (snd acc) \<and> \<not> revision_open r)"
  by (cases acc; cases "rv_state r") (auto simp: revision_open_def)

lemma fold_refresh_rank:
  "status_rank (fst (fold refresh_step rs acc)) =
   fold max (map (\<lambda>r. status_rank (revision_status (rv_state r))) rs) (status_rank (fst acc))"
  by (induction rs arbitrary: acc) (simp_all add: refresh_step_rank max.commute)

lemma fold_refresh_completed:
  "fst (snd (fold refresh_step rs acc)) = (fst (snd acc) \<and> (\<forall>r \<in> set rs. \<not> revision_open r))"
  by (induction rs arbitrary: acc) (auto simp: refresh_step_completed)

lemma fold_max_Max: "fold max ns (k :: nat) = Max (insert k (set ns))"
proof (induction ns arbitrary: k)
  case (Cons n ns)
  have "fold max (n # ns) k = Max (insert (max n k) (set ns))" by (simp add: Cons.IH)
  also have "\<dots> = Max (insert k (set (n # ns)))"
    by (cases "set ns = {}") (simp_all add: max.assoc max.commute max.left_commute)
  finally show ?case .
qed simp

text \<open>
  The status of an operation does not depend on the order its revisions are read in: it is
  the gravest state among them (failed over applying over pending over superseded over applied),
  and the operation is completed exactly when none of them is pending or applying.
\<close>

theorem operation_status_is_gravest:
  "status_rank (fst (refresh_fold rs)) =
     Max (insert 0 ((\<lambda>r. status_rank (revision_status (rv_state r))) ` set rs)) \<and>
   fst (snd (refresh_fold rs)) = (filter revision_open rs = [])"
  unfolding refresh_fold_def fold_refresh_rank fold_refresh_completed fold_max_Max
  by (auto simp: status_rank_def filter_empty_conv)

subsection \<open>Generations and rollbacks\<close>

lemma upsert_has_key:
  "\<exists>g \<in> set (upsert_active_generation agent gen n now t). gn_key g = (agent, gen) \<and>
     gn_state g = GenActive \<and> gn_revision g = n"
proof (cases "\<exists>g \<in> set t. gn_key g = (agent, gen)")
  case True
  then obtain g where g: "g \<in> set t" "gn_key g = (agent, gen)" by blast
  let ?f = "\<lambda>g. g\<lparr>gn_revision := n, gn_state := GenActive, gn_forced := False,
                 gn_force_reason := [], gn_drained_at := None, gn_updated_at := now\<rparr>"
  have "?f g \<in> set (upd_where (\<lambda>g. gn_key g = (agent, gen)) ?f t)"
    using g by (rule upd_where_hit)
  moreover have "gn_key (?f g) = (agent, gen)" using g(2) by (simp add: gn_key_def)
  ultimately show ?thesis
    unfolding upsert_active_generation_def if_P[OF True] by (intro bexI[of _ "?f g"]) simp_all
next
  case False
  then show ?thesis
    unfolding upsert_active_generation_def if_not_P[OF False] by (simp add: gn_key_def)
qed

lemma upsert_keeps:
  "g \<in> set t \<Longrightarrow> gn_key g \<noteq> (agent, gen) \<Longrightarrow> g \<in> set (upsert_active_generation agent gen n now t)"
  by (simp add: upsert_active_generation_def upd_where_miss)

lemma activate_effect:
  assumes act: "activate_coordinator_generation_tx r gen now db = (drain, db')" and inv: "db_inv db"
  shows "map gn_generation_id (active_generations (rv_agent_id r) db') = [gen]"
    and "g \<in> set (active_generations (rv_agent_id r) db) \<Longrightarrow> gn_generation_id g \<noteq> gen \<Longrightarrow>
      drain = Draining \<and> (\<exists>g' \<in> set (db_generations db'). gn_key g' = gn_key g \<and> gn_state g' = GenDraining)"
proof -
  let ?agent = "rv_agent_id r"
  let ?d = "demote_generations ?agent gen now (db_generations db)"
  let ?gs = "upsert_active_generation ?agent gen (rv_revision r) now ?d"
  have gs: "db_generations db' = ?gs" and dr: "drain = (if draining_count ?agent ?gs > 0 then Draining else Drained)"
    using act by (auto simp: activate_coordinator_generation_tx_def Let_def)
  obtain x where x: "x \<in> set ?gs" "gn_key x = (?agent, gen)" "gn_state x = GenActive"
    using upsert_has_key[of ?agent gen "rv_revision r" now ?d] by blast
  have "length (active_generations ?agent db') \<le> 1"
    using inv_activate[OF act inv] by (simp add: db_inv_def generations_ok_def)
  moreover have "x \<in> set (active_generations ?agent db')"
    using x gs by (simp add: active_generations_def gn_key_def)
  ultimately have "active_generations ?agent db' = [x]" by (rule single_member)
  then show "map gn_generation_id (active_generations (rv_agent_id r) db') = [gen]"
    using x(2) by (simp add: gn_key_def)
  assume g: "g \<in> set (active_generations ?agent db)" "gn_generation_id g \<noteq> gen"
  let ?f = "\<lambda>g. g\<lparr>gn_state := GenDraining, gn_updated_at := now\<rparr>"
  have "?f g \<in> set ?d"
    unfolding demote_generations_def using g by (intro upd_where_hit) (simp_all add: active_generations_def)
  then have m: "?f g \<in> set ?gs" using g(2) by (intro upsert_keeps) (simp_all add: gn_key_def)
  moreover have "gn_agent_id (?f g) = ?agent \<and> gn_state (?f g) = GenDraining"
    using g(1) by (simp add: active_generations_def)
  ultimately have "filter (\<lambda>g. gn_agent_id g = ?agent \<and> gn_state g = GenDraining) ?gs \<noteq> []"
    unfolding filter_empty_conv by blast
  then have "drain = Draining" using dr by (simp add: draining_count_def count_where_def)
  moreover have "gn_key (?f g) = gn_key g \<and> gn_state (?f g) = GenDraining" by (simp add: gn_key_def)
  ultimately show "drain = Draining \<and> (\<exists>g' \<in> set (db_generations db'). gn_key g' = gn_key g \<and> gn_state g' = GenDraining)"
    unfolding gs by (intro conjI bexI[OF _ m]) simp_all
qed

text \<open>
  C8. Applying switches generations: when a started attempt is reported applied on a ledger that
  satisfies the invariant, the reported generation is the agent's only active one, every other
  generation that was active is draining, and the applied and last known good pointers are the
  applied revision.
\<close>

theorem apply_switches_generation:
  assumes run: "apply_agent_revision_attempt clock req db = (Inr res, db')" and inv: "db_inv db"
    and fresh: "find_attempt (ls_agent_id (ap_lease req)) (ls_revision (ap_lease req))
      (ls_retry_cycle (ap_lease req)) (ls_attempt (ap_lease req)) db = Some a" "at_state a = AttStarted"
  shows "map gn_generation_id (active_generations (ls_agent_id (ap_lease req)) db') = [trim_space (ap_generation_id req)] \<and>
    (\<forall>g \<in> set (active_generations (ls_agent_id (ap_lease req)) db).
       gn_generation_id g \<noteq> trim_space (ap_generation_id req) \<longrightarrow>
       (\<exists>g' \<in> set (db_generations db'). gn_key g' = gn_key g \<and> gn_state g' = GenDraining)) \<and>
    (\<exists>p. lock_coordinator_pointer (ls_agent_id (ap_lease req)) db' = Some p \<and>
       pt_desired_revision p = ls_revision (ap_lease req) \<and>
       pt_applied_revision p = ls_revision (ap_lease req) \<and>
       pt_last_known_good_revision p = ls_revision (ap_lease req))"
proof -
  let ?l = "ap_lease req" and ?gen = "trim_space (ap_generation_id req)"
  let ?now = "coordinator_time clock (ap_now req)"
  have "apply_tx ?l ?gen ?now db = Inr (res, db')"
    using run by (auto simp: apply_agent_revision_attempt_def Let_def split: if_splits dest: commit_InrD)
  then obtain p r where pre: "read_pointer (ls_agent_id ?l) db = Inr p"
      "read_revision (ls_agent_id ?l) (ls_revision ?l) db = Inr r"
      "pt_desired_revision p = ls_revision ?l" "\<not> pt_applied_revision p > ls_revision ?l"
    and st: "apply_started_tx ?gen ?now p a r db = Inr (res, db')"
    using fresh by (auto simp: apply_tx_def tx_bind_Inr_iff lock_coordinator_attempt_def split: if_splits)
  note rk = read_revisionD[OF pre(2)] and ak = find_attempt_key[OF fresh(1)]
  have fp: "lock_coordinator_pointer (ls_agent_id ?l) db = Some p"
    using pre(1) by (auto simp: read_pointer_def split: option.splits)
  have fa: "find_attempt (at_agent_id a) (at_revision a) (at_retry_cycle a) (at_attempt a) db = Some a"
    using fresh(1) ak by (simp add: at_key_def)
  have fr: "find_revision (rv_agent_id r) (rv_revision r) db = Some r"
    using pre(2) rk by (auto simp: read_revision_def rv_key_def split: option.splits)
  have ag: "rv_agent_id r = ls_agent_id ?l" "rv_revision r = ls_revision ?l"
    using rk by (simp_all add: rv_key_def)
  obtain drain db1 where act: "activate_coordinator_generation_tx r ?gen ?now db = (drain, db1)" by fastforce
  obtain q db3 db4 where u: "update_coordinator_pointer_tx q db3 = Inr db4" "db_generations db3 = db_generations db1"
    "db_generations db' = db_generations db4"
    using st by (auto simp: apply_started_tx_def act Let_def tx_bind_Inr_iff refresh_fields)
  have gen: "db_generations db' = db_generations db1"
    using u update_pointer_fields(3)[OF u(1)] by simp
  have act1: "active_generations ag db' = active_generations ag db1" for ag
    by (simp add: active_generations_def gen)
  have lkg: "pt_last_known_good_revision p \<le> ls_revision ?l"
    using inv_pointer_ok[OF inv, of p] read_pointerD[OF pre(1)] pre(3) by (simp add: pointer_ok_def)
  from apply_started_effect[OF st inv fp fa fresh(2) fr] pre(3,4) ag lkg
  have "\<exists>p. lock_coordinator_pointer (ls_agent_id ?l) db' = Some p \<and>
       pt_desired_revision p = ls_revision ?l \<and> pt_applied_revision p = ls_revision ?l \<and>
       pt_last_known_good_revision p = ls_revision ?l" by auto
  then show ?thesis
    using activate_effect[OF act inv] unfolding ag act1 gen by blast
qed

theorem apply_switches_generation_witness:
  "map gn_generation_id (active_generations ''edge'' applied_ledger) = [''g7'']"
proof -
  have f: "find_attempt ''edge'' 7 0 1 started_ledger = Some (hd (db_attempts started_ledger)) \<and>
    at_state (hd (db_attempts started_ledger)) = AttStarted" by code_simp
  have t: "trim_space ''g7'' = ''g7''" by code_simp
  let ?o = "apply_agent_revision_attempt 0 (sample_apply ''L1'' (3 * second)) started_ledger"
  have "case fst ?o of Inl _ \<Rightarrow> False | Inr _ \<Rightarrow> True" by code_simp
  then obtain res where "fst ?o = Inr res" by (auto split: sum.splits)
  then have run: "?o = (Inr res, applied_ledger)" by (simp add: applied_ledger_def prod_eq_iff)
  from apply_switches_generation[OF run started_inv, of "hd (db_attempts started_ledger)"] f t
  show ?thesis by (simp add: sample_apply_def sample_lease_def)
qed

lemma max_revision_ge: "r \<in> set (db_revisions db) \<Longrightarrow> rv_agent_id r = agent \<Longrightarrow> rv_revision r \<le> max_revision agent db"
proof -
  have fold_ge: "m \<le> fold max ns (m :: int) \<and> (\<forall>n \<in> set ns. n \<le> fold max ns m)" for ns m
  proof (induction ns arbitrary: m)
    case (Cons n ns)
    have "max n m \<le> fold max ns (max n m)" using Cons.IH by blast
    then show ?case using Cons.IH[of "max n m"] by auto
  qed simp
  assume r: "r \<in> set (db_revisions db)" "rv_agent_id r = agent"
  define ns where "ns = map rv_revision (filter (\<lambda>r. rv_agent_id r = agent) (db_revisions db))"
  have mem: "rv_revision r \<in> set ns" using r by (simp add: ns_def)
  show ?thesis
  proof (cases ns)
    case Nil
    with mem show ?thesis by simp
  next
    case (Cons n ms)
    with mem fold_ge[of n ms] show ?thesis
      unfolding max_revision_def ns_def[symmetric] by auto
  qed
qed

text \<open>
  A rollback is a new revision: when it is not a replay, its number exceeds every revision of
  the agent and the old desired one, its snapshot is the source's with the new number under a new
  digest, its source was applied, it is pending with no attempt spent, it is the agent's desired
  revision afterwards, and every earlier revision is kept as it was.
\<close>

theorem rollback_is_new_revision:
  assumes run: "copy_last_known_good_coordinator_revision fmt clock req db = (Inr res, db')"
    and fresh: "\<not> rs_replayed res" and inv: "db_inv db"
  shows "\<exists>p source artifact snap. lock_coordinator_pointer (trim_space (rq_agent_id req)) db = Some p \<and>
    find_revision (trim_space (rq_agent_id req))
      (if rq_source_revision req > 0 then rq_source_revision req else pt_last_known_good_revision p) db = Some source \<and>
    rv_state source = RevApplied \<and> artifact \<in> set (db_artifacts db) \<and>
    ga_id artifact = rv_snapshot_artifact_id source \<and>
    sf_decode fmt (ga_payload artifact) = Some snap \<and> sf_revision fmt snap = rv_revision source \<and>
    rv_snapshot_digest (rs_revision res) = sf_sha256_hex fmt
      (sf_encode fmt (sf_with_revision fmt (rv_revision (rs_revision res)) (sf_filter fmt snap))) \<and>
    pt_desired_revision p < rv_revision (rs_revision res) \<and>
    (\<forall>r \<in> set (db_revisions db). rv_agent_id r = trim_space (rq_agent_id req) \<longrightarrow>
       rv_revision r < rv_revision (rs_revision res)) \<and>
    rv_state (rs_revision res) = RevPending \<and> rv_attempt_count (rs_revision res) = 0 \<and>
    db_revisions db' = db_revisions db @ [rs_revision res] \<and>
    (\<exists>p'. lock_coordinator_pointer (trim_space (rq_agent_id req)) db' = Some p' \<and>
       pt_desired_revision p' = rv_revision (rs_revision res) \<and>
       pt_applied_revision p' = pt_applied_revision p)"
proof -
  let ?agent = "trim_space (rq_agent_id req)" and ?now = "coordinator_time clock (rq_now req)"
  have replayed: "rs_replayed x" if "rollback_replay_rows ag q d = Some x" for ag q d x
    using that by (auto simp: rollback_replay_rows_def split: option.splits)
  have "rollback_tx fmt req ?agent ?now db = Inr (res, db')"
    using run fresh
    by (auto simp: copy_last_known_good_coordinator_revision_def Let_def
        split: if_splits sum.splits prod.splits option.splits dest: commit_InrD replayed)
  then obtain replay db0 where l0: "load_coordinator_action_replay_tx (rq_idempotency req) ?now db = Inr (replay, db0)"
    and f0: "(case replay of
         Some p \<Rightarrow>
           if rp_agent_id p \<noteq> ?agent \<or> rp_operation_id p = [] \<or> rp_desired_revision p \<le> 0
           then Inl EStateConflict
           else (case rollback_replay_rows ?agent p db0 of
                   None \<Rightarrow> Inl ERecordNotFound | Some res \<Rightarrow> Inr (res, db0))
       | None \<Rightarrow> rollback_fresh_tx fmt req ?agent ?now db0) = Inr (res, db')"
    by (auto simp: rollback_tx_def tx_bind_Inr_iff)
  have "replay = None"
    using f0 fresh by (auto split: option.splits if_splits dest: replayed)
  with l0 f0 have l: "load_coordinator_action_replay_tx (rq_idempotency req) ?now db = Inr (None, db0)"
    and f: "rollback_fresh_tx fmt req ?agent ?now db0 = Inr (res, db')" by simp_all
  note lt = load_replay_tables[OF l]
  from f obtain p source artifact payload digest where pre: "read_pointer ?agent db0 = Inr p"
    and src: "rollback_source_tx fmt req ?agent p db0 = Inr (source, artifact)"
    and cp: "copy_coordinator_snapshot_payload fmt (ga_payload artifact) (rv_revision source)
      (max (max_revision ?agent db0) (pt_desired_revision p) + 1) = Inr (payload, digest)"
    and w: "rollback_write_tx req ?agent ?now p source (max (max_revision ?agent db0) (pt_desired_revision p) + 1)
        payload digest db0 = Inr (res, db')"
    by (auto simp: rollback_fresh_tx_def Let_def tx_bind_Inr_iff split: if_splits)
  define n where "n = max (max_revision ?agent db0) (pt_desired_revision p) + 1"
  note cp = cp[folded n_def] and w = w[folded n_def]
  have fp: "lock_coordinator_pointer ?agent db = Some p"
    using pre find_tables(3)[OF lt(3)] by (auto simp: read_pointer_def split: option.splits)
  from src have s: "find_revision ?agent
      (if rq_source_revision req > 0 then rq_source_revision req else pt_last_known_good_revision p) db0 = Some source"
      "rv_state source = RevApplied"
    and art: "first_where ERecordNotFound (\<lambda>a. ga_id a = rv_snapshot_artifact_id source) (db_artifacts db0) = Inr artifact"
    by (auto simp: rollback_source_tx_def Let_def tx_bind_Inr_iff read_revision_def
        split: if_splits option.splits)
  from cp obtain snap where snap: "sf_decode fmt (ga_payload artifact) = Some snap"
      "sf_revision fmt snap = rv_revision source"
      "digest = sf_sha256_hex fmt (sf_encode fmt (sf_with_revision fmt n (sf_filter fmt snap)))"
    by (auto simp: copy_coordinator_snapshot_payload_def Let_def split: option.splits if_splits)
  obtain q dbx dby where u: "update_coordinator_pointer_tx q dbx = Inr dby"
    and q: "q = p\<lparr>pt_desired_revision := n, pt_updated_at := ?now\<rparr>"
    and dbx: "db_revisions dbx = db_revisions db0 @ [rs_revision res]" "db_pointers dbx = db_pointers db0"
    and d': "db_revisions db' = db_revisions dby" "db_pointers db' = db_pointers dby"
    and res: "rs_revision res = rollback_revision_row req ?agent n (trim_space (rq_operation_id req)) digest ?now source"
    using w by (auto simp: rollback_write_tx_def Let_def tx_bind_Inr_iff persist_replay_tables
        create_artifact_tables split: if_splits)
  have row: "rv_revision (rs_revision res) = n" "rv_state (rs_revision res) = RevPending"
      "rv_attempt_count (rs_revision res) = 0" "rv_snapshot_digest (rs_revision res) = digest"
    using res by (simp_all add: rollback_revision_row_def)
  have revs: "db_revisions db' = db_revisions db @ [rs_revision res]"
    using d'(1) update_pointer_fields(1)[OF u] dbx(1) lt(2) by simp
  have "\<exists>p'. lock_coordinator_pointer ?agent dby = Some p' \<and> pt_agent_id p' = pt_agent_id p \<and>
    pt_desired_revision p' = pt_desired_revision q \<and> pt_applied_revision p' = pt_applied_revision q \<and>
    pt_last_known_good_revision p' = pt_last_known_good_revision q"
    by (rule update_pointer_value[OF u])
      (use inv fp dbx(2) lt(3) q find_tables(3)[of dbx db] in \<open>simp_all add: db_inv_def keys_ok_def\<close>)
  then have ptr: "\<exists>p'. lock_coordinator_pointer ?agent db' = Some p' \<and> pt_desired_revision p' = n \<and>
      pt_applied_revision p' = pt_applied_revision p"
    using q find_tables(3)[OF d'(2)] by auto
  have "rv_revision r < n" if "r \<in> set (db_revisions db)" "rv_agent_id r = ?agent" for r
    using max_revision_ge[of r db0 ?agent] that lt(2) by (simp add: n_def)
  moreover have "pt_desired_revision p < n" by (simp add: n_def)
  ultimately show ?thesis
    using fp s(1)[unfolded find_tables(1)[OF lt(2)]] s(2) first_where_InrD[OF art] lt(5) snap row revs ptr
    by (intro exI[of _ p] exI[of _ source] exI[of _ artifact] exI[of _ snap]) (simp add: row)
qed

definition rollback_format :: "int snapshot_format" where
  "rollback_format = \<lparr>sf_sha256_hex = (\<lambda>s. ''sum-'' @ s), sf_clean_path = (\<lambda>s. s),
     sf_decode = (\<lambda>s. Some 7), sf_encode = (\<lambda>n. itoa n), sf_revision = (\<lambda>n. n),
     sf_with_revision = (\<lambda>n _. n), sf_filter = (\<lambda>n. n)\<rparr>"

definition rollback_ledger :: db where
  "rollback_ledger = applied_ledger\<lparr>
     db_revisions := upd_where (\<lambda>r. rv_revision r = 7) (\<lambda>r. r\<lparr>rv_snapshot_digest := ''sum-7''\<rparr>)
       (db_revisions applied_ledger),
     db_artifacts := [\<lparr>ga_id = ''snapshot-1'', ga_kind = ''agent_snapshot'', ga_sha256 = ''sum-7'',
       ga_payload = ''7'', ga_external_path = [], ga_size_bytes = 1, ga_created_at = 0\<rparr>]\<rparr>"

definition sample_rollback :: rollback_request where
  "sample_rollback = \<lparr>rq_agent_id = ''edge'', rq_operation_id = ''op2'', rq_now = Some (9 * second),
     rq_default_apply_timeout = 60, rq_default_drain_timeout = 600, rq_source_revision = 0,
     rq_require_source_current = False, rq_operation_kind = [], rq_created_event_type = [],
     rq_idempotency = \<lparr>ai_scope = [], ai_key = [], ai_request_fingerprint = [],
       ai_http_request_fingerprint = [], ai_expires_at = 0\<rparr>\<rparr>"

lemma rollback_ledger_inv: "db_inv rollback_ledger"
proof -
  have "db_inv applied_ledger" by (rule coord_run_inv[OF applied_history sample_inv])
  then have "db_inv (applied_ledger\<lparr>
     db_revisions := upd_where (\<lambda>r. rv_revision r = 7) (\<lambda>r. r\<lparr>rv_snapshot_digest := ''sum-7''\<rparr>)
       (db_revisions applied_ledger)\<rparr>)"
    by (rule inv_upd_revisions) (simp add: rv_key_def count_ok_def)
  then show ?thesis
    by (rule inv_other_tables) (simp_all add: rollback_ledger_def)
qed

theorem rollback_is_new_revision_witness:
  "\<exists>res. fst (copy_last_known_good_coordinator_revision rollback_format 0 sample_rollback rollback_ledger) = Inr res \<and>
     7 < rv_revision (rs_revision res) \<and> rv_state (rs_revision res) = RevPending"
proof -
  let ?o = "copy_last_known_good_coordinator_revision rollback_format 0 sample_rollback rollback_ledger"
  have "case fst ?o of Inl _ \<Rightarrow> False | Inr r \<Rightarrow> \<not> rs_replayed r" by code_simp
  then obtain res where res: "fst ?o = Inr res" "\<not> rs_replayed res" by (auto split: sum.splits)
  have p: "map_option pt_desired_revision (lock_coordinator_pointer (trim_space (rq_agent_id sample_rollback)) rollback_ledger) = Some 7"
    by code_simp
  have "?o = (Inr res, snd ?o)" using res by (simp add: prod_eq_iff)
  from rollback_is_new_revision[OF this res(2) rollback_ledger_inv] res(1) p show ?thesis by auto
qed

end
