(* ===== verification/Coordinator.thy ===== *)
theory Coordinator
  imports CoordProps "HOL-Library.Sublist"
begin

text \<open>
  The coordinator of \<open>coordinator/coordinator.go\<close>: a client of the repository interface that the
  ledger implements. It reads a clock, a random source and an id generator; their successive
  answers are functions of the number of reads, and a call threads that number together with the
  repository's state. The claim loop is proved correct against the laws of the interface, and
  the laws are proved for the ledger.
\<close>

subsection \<open>The repository interface\<close>

text \<open>
  One field per method of \<open>Repository\<close>; \<open>rp_retry_idempotent\<close> is \<open>None\<close> when the repository does
  not implement \<open>idempotentActionRepository\<close>.
\<close>

record 's repository =
  rp_claim :: "claim_request \<Rightarrow> 's \<Rightarrow> (coord_error + claim_result) \<times> 's"
  rp_start :: "start_request \<Rightarrow> 's \<Rightarrow> (coord_error + start_result) \<times> 's"
  rp_fail :: "failure_request \<Rightarrow> 's \<Rightarrow> (coord_error + failure_result) \<times> 's"
  rp_apply :: "apply_request \<Rightarrow> 's \<Rightarrow> (coord_error + apply_result) \<times> 's"
  rp_drain :: "drain_request \<Rightarrow> 's \<Rightarrow> (coord_error + agent_revision) \<times> 's"
  rp_reconcile :: "string \<Rightarrow> time option \<Rightarrow> go_float \<Rightarrow> 's \<Rightarrow> (coord_error + reconcile_result) \<times> 's"
  rp_list_agents :: "'s \<Rightarrow> coord_error + string list"
  rp_retry :: "string \<Rightarrow> int \<Rightarrow> time option \<Rightarrow> 's \<Rightarrow> (coord_error + agent_revision) \<times> 's"
  rp_retry_idempotent :: "(retry_request \<Rightarrow> 's \<Rightarrow> (coord_error + retry_result) \<times> 's) option"
  rp_rollback :: "rollback_request \<Rightarrow> 's \<Rightarrow> (coord_error + rollback_result) \<times> 's"
  rp_journal :: "journal_request \<Rightarrow> 's \<Rightarrow> (coord_error + journal_result) \<times> 's"

record 's coordinator =
  co_repository :: "'s repository"
  co_clock :: "nat \<Rightarrow> time"
  co_random :: "nat \<Rightarrow> go_float"
  co_new_id :: "nat \<Rightarrow> string \<Rightarrow> string option"
  co_apply_timeout :: int
  co_drain_timeout :: int

text \<open>The state of a call: how often the sources were read, and the repository's state.\<close>

type_synonym 's session = "nat \<times> 's"

definition new_coordinator ::
  "'s repository \<Rightarrow> (nat \<Rightarrow> time) \<Rightarrow> (nat \<Rightarrow> go_float) \<Rightarrow> (nat \<Rightarrow> string \<Rightarrow> string option) \<Rightarrow> int \<Rightarrow> int \<Rightarrow>
   's coordinator" where
  "new_coordinator repository clock random new_id apply_timeout drain_timeout =
     \<lparr>co_repository = repository, co_clock = clock, co_random = random, co_new_id = new_id,
      co_apply_timeout = (if apply_timeout \<le> 0 then minute else apply_timeout),
      co_drain_timeout = (if drain_timeout \<le> 0 then 10 * minute else drain_timeout)\<rparr>"

definition duration_seconds :: "int \<Rightarrow> int" where
  "duration_seconds v = (if v \<le> 0 then 0 else (v + second - 1) div second)"

subsection \<open>Operations\<close>

definition co_reconcile ::
  "'s coordinator \<Rightarrow> string \<Rightarrow> 's session \<Rightarrow> (coord_error + reconcile_result) \<times> 's session" where
  "co_reconcile c agent st =
     (case st of (n, s) \<Rightarrow>
      case rp_reconcile (co_repository c) agent (Some (co_clock c n)) (co_random c (n + 1)) s of
        (res, s') \<Rightarrow> (res, n + 2, s'))"

text \<open>
  The loop of \<open>claim\<close> and of \<open>claimDependencyNode\<close>: \<open>k\<close> more tries; when none is left the agent
  remained unreconciled, which is a state conflict. The requests differ in the expected
  operation and revision.
\<close>

fun claim_tries ::
  "nat \<Rightarrow> 's coordinator \<Rightarrow> string \<Rightarrow> string \<Rightarrow> int \<Rightarrow> 's session \<Rightarrow>
   (coord_error + claim_result) \<times> 's session" where
  "claim_tries 0 c agent op_id0 revision st = (Inl EStateConflict, st)"
| "claim_tries (Suc k) c agent op_id0 revision (n, s) =
     (case co_new_id c n ''lease'' of
        None \<Rightarrow> (Inl EInvalid, n + 1, s)
      | Some lease \<Rightarrow>
          (case rp_claim (co_repository c)
                  \<lparr>cl_agent_id = agent, cl_lease_id = lease, cl_expected_operation_id = op_id0,
                   cl_expected_revision = revision, cl_now = Some (co_clock c (n + 1)),
                   cl_default_apply_timeout = duration_seconds (co_apply_timeout c),
                   cl_default_drain_timeout = duration_seconds (co_drain_timeout c)\<rparr> s of
             (Inr res, s') \<Rightarrow> (Inr res, n + 2, s')
           | (Inl e, s') \<Rightarrow>
               if e \<noteq> EReconcileNeeded then (Inl e, n + 2, s')
               else (case co_reconcile c agent (n + 2, s') of
                   (Inl e', st') \<Rightarrow> (Inl e', st')
                 | (Inr _, st') \<Rightarrow> claim_tries k c agent op_id0 revision st')))"

definition co_claim ::
  "'s coordinator \<Rightarrow> string \<Rightarrow> 's session \<Rightarrow> (coord_error + claim_result) \<times> 's session" where
  "co_claim c agent0 st =
     (let agent = trim_space agent0 in
      if agent = [] then (Inl EInvalid, st) else claim_tries 2 c agent [] 0 st)"

definition claim_dependency_node ::
  "'s coordinator \<Rightarrow> string \<Rightarrow> string \<Rightarrow> int \<Rightarrow> 's session \<Rightarrow>
   (coord_error + claim_result) \<times> 's session" where
  "claim_dependency_node c operation_id agent revision st = claim_tries 2 c agent operation_id revision st"

definition co_start ::
  "'s coordinator \<Rightarrow> coordinator_lease \<Rightarrow> string \<Rightarrow> string \<Rightarrow> string \<Rightarrow> 's session \<Rightarrow>
   (coord_error + start_result) \<times> 's session" where
  "co_start c l gen rgen rhash st =
     (case st of (n, s) \<Rightarrow>
      case rp_start (co_repository c)
             \<lparr>sr_lease = l, sr_generation_id = gen, sr_runtime_generation_id = rgen,
              sr_runtime_snapshot_hash = rhash, sr_now = Some (co_clock c n),
              sr_default_apply_timeout = duration_seconds (co_apply_timeout c)\<rparr> s of
        (res, s') \<Rightarrow> (res, n + 1, s'))"

definition co_fail ::
  "'s coordinator \<Rightarrow> coordinator_lease \<Rightarrow> string \<Rightarrow> string \<Rightarrow> string \<Rightarrow> 's session \<Rightarrow>
   (coord_error + failure_result) \<times> 's session" where
  "co_fail c l gen code msg st =
     (case st of (n, s) \<Rightarrow>
      case rp_fail (co_repository c)
             \<lparr>fr_lease = l, fr_generation_id = gen, fr_now = Some (co_clock c n),
              fr_jitter = co_random c (n + 1), fr_error_code = code, fr_error_message = msg\<rparr> s of
        (res, s') \<Rightarrow> (res, n + 2, s'))"

definition co_applied ::
  "'s coordinator \<Rightarrow> coordinator_lease \<Rightarrow> string \<Rightarrow> 's session \<Rightarrow>
   (coord_error + apply_result) \<times> 's session" where
  "co_applied c l gen st =
     (case st of (n, s) \<Rightarrow>
      case rp_apply (co_repository c)
             \<lparr>ap_lease = l, ap_generation_id = gen, ap_now = Some (co_clock c n)\<rparr> s of
        (res, s') \<Rightarrow> (res, n + 1, s'))"

definition co_drained ::
  "'s coordinator \<Rightarrow> coordinator_lease \<Rightarrow> string \<Rightarrow> bool \<Rightarrow> string \<Rightarrow> 's session \<Rightarrow>
   (coord_error + agent_revision) \<times> 's session" where
  "co_drained c l gen forced reason st =
     (case st of (n, s) \<Rightarrow>
      case rp_drain (co_repository c)
             \<lparr>dr_agent_id = ls_agent_id l, dr_generation_id = gen, dr_lease = l, dr_forced = forced,
              dr_force_reason = reason, dr_now = Some (co_clock c n)\<rparr> s of
        (res, s') \<Rightarrow> (res, n + 1, s'))"

text \<open>
  The startup pass: every listed agent is reconciled; the errors are collected (\<open>errors.Join\<close>),
  they do not stop the pass.
\<close>

fun reconcile_each ::
  "'s coordinator \<Rightarrow> string list \<Rightarrow> 's session \<Rightarrow>
   (reconcile_result list \<times> (string \<times> coord_error) list) \<times> 's session" where
  "reconcile_each c [] st = (([], []), st)"
| "reconcile_each c (agent # agents) st =
     (case co_reconcile c agent st of (res, st1) \<Rightarrow>
      case reconcile_each c agents st1 of ((rs, es), st2) \<Rightarrow>
        (case res of Inl e \<Rightarrow> ((rs, (agent, e) # es), st2) | Inr r \<Rightarrow> ((r # rs, es), st2)))"

definition reconcile_startup ::
  "'s coordinator \<Rightarrow> 's session \<Rightarrow>
   (coord_error + reconcile_result list \<times> (string \<times> coord_error) list) \<times> 's session" where
  "reconcile_startup c st =
     (case rp_list_agents (co_repository c) (snd st) of
        Inl e \<Rightarrow> (Inl e, st)
      | Inr agents \<Rightarrow> (case reconcile_each c agents st of (res, st') \<Rightarrow> (Inr res, st')))"

definition no_idempotency :: action_idempotency where
  "no_idempotency = \<lparr>ai_scope = [], ai_key = [], ai_request_fingerprint = [],
     ai_http_request_fingerprint = [], ai_expires_at = 0\<rparr>"

definition co_retry_idempotent ::
  "'s coordinator \<Rightarrow> string \<Rightarrow> int \<Rightarrow> action_idempotency \<Rightarrow> 's session \<Rightarrow>
   (coord_error + retry_result) \<times> 's session" where
  "co_retry_idempotent c agent revision idem st =
     (case st of (n, s) \<Rightarrow>
      (case rp_retry_idempotent (co_repository c) of
         Some retry \<Rightarrow>
           (case retry \<lparr>rr_agent_id = agent, rr_revision = revision, rr_now = Some (co_clock c n),
                        rr_idempotency = idem\<rparr> s of (res, s') \<Rightarrow> (res, n + 1, s'))
       | None \<Rightarrow>
           if trim_space (ai_key idem) \<noteq> [] then (Inl EInvalid, n, s)
           else (case rp_retry (co_repository c) agent revision (Some (co_clock c n)) s of
               (Inl e, s') \<Rightarrow> (Inl e, n + 1, s')
             | (Inr r, s') \<Rightarrow> (Inr (r, False), n + 1, s'))))"

definition co_retry ::
  "'s coordinator \<Rightarrow> string \<Rightarrow> int \<Rightarrow> 's session \<Rightarrow> (coord_error + agent_revision) \<times> 's session" where
  "co_retry c agent revision st =
     (case co_retry_idempotent c agent revision no_idempotency st of
        (Inl e, st') \<Rightarrow> (Inl e, st') | (Inr (r, _), st') \<Rightarrow> (Inr r, st'))"

definition co_rollback_idempotent ::
  "'s coordinator \<Rightarrow> string \<Rightarrow> action_idempotency \<Rightarrow> 's session \<Rightarrow>
   (coord_error + rollback_result) \<times> 's session" where
  "co_rollback_idempotent c agent idem st =
     (case st of (n, s) \<Rightarrow>
      (case co_new_id c n ''rollback'' of
         None \<Rightarrow> (Inl EInvalid, n + 1, s)
       | Some oid \<Rightarrow>
           (case rp_rollback (co_repository c)
                   \<lparr>rq_agent_id = agent, rq_operation_id = oid, rq_now = Some (co_clock c (n + 1)),
                    rq_default_apply_timeout = duration_seconds (co_apply_timeout c),
                    rq_default_drain_timeout = duration_seconds (co_drain_timeout c),
                    rq_source_revision = 0, rq_require_source_current = False,
                    rq_operation_kind = [], rq_created_event_type = [], rq_idempotency = idem\<rparr> s of
              (res, s') \<Rightarrow> (res, n + 2, s'))))"

definition co_rollback ::
  "'s coordinator \<Rightarrow> string \<Rightarrow> 's session \<Rightarrow> (coord_error + rollback_result) \<times> 's session" where
  "co_rollback c agent st = co_rollback_idempotent c agent no_idempotency st"

definition co_repair_runtime ::
  "'s coordinator \<Rightarrow> string \<Rightarrow> int \<Rightarrow> 's session \<Rightarrow> (coord_error + rollback_result) \<times> 's session" where
  "co_repair_runtime c agent applied st =
     (case st of (n, s) \<Rightarrow>
      if applied \<le> 0 then (Inl EInvalid, n, s)
      else (case co_new_id c n ''repair'' of
         None \<Rightarrow> (Inl EInvalid, n + 1, s)
       | Some oid \<Rightarrow>
           (case rp_rollback (co_repository c)
                   \<lparr>rq_agent_id = agent, rq_operation_id = oid, rq_now = Some (co_clock c (n + 1)),
                    rq_default_apply_timeout = duration_seconds (co_apply_timeout c),
                    rq_default_drain_timeout = duration_seconds (co_drain_timeout c),
                    rq_source_revision = applied, rq_require_source_current = True,
                    rq_operation_kind = ''repair_runtime_state'',
                    rq_created_event_type = ''repair_revision_created'',
                    rq_idempotency = no_idempotency\<rparr> s of
              (res, s') \<Rightarrow> (res, n + 2, s'))))"

definition co_reconcile_journal ::
  "'s coordinator \<Rightarrow> string \<Rightarrow> int \<Rightarrow> string \<Rightarrow> string \<Rightarrow> 's session \<Rightarrow>
   (coord_error + journal_result) \<times> 's session" where
  "co_reconcile_journal c agent revision digest gen st =
     (case st of (n, s) \<Rightarrow>
      case rp_journal (co_repository c)
             \<lparr>jr_agent_id = agent, jr_revision = revision, jr_snapshot_digest = digest,
              jr_generation_id = gen, jr_now = Some (co_clock c n)\<rparr> s of
        (res, s') \<Rightarrow> (res, n + 1, s'))"

subsection \<open>The ledger as a repository\<close>

definition list_coordinator_agent_ids :: "db \<Rightarrow> string list" where
  "list_coordinator_agent_ids db =
     sort (remdups
       (map rv_agent_id (filter revision_open (db_revisions db)) @
        map pt_agent_id (filter (\<lambda>p. pt_desired_revision p > pt_applied_revision p) (db_pointers db)) @
        map gn_agent_id (filter (\<lambda>g. gn_state g = GenDraining) (db_generations db))))"

definition ledger_repository :: "'snap snapshot_format \<Rightarrow> time \<Rightarrow> db repository" where
  "ledger_repository fmt clock =
     \<lparr>rp_claim = claim_latest_agent_revision clock,
      rp_start = start_agent_revision_attempt clock,
      rp_fail = fail_agent_revision_attempt clock,
      rp_apply = apply_agent_revision_attempt clock,
      rp_drain = complete_coordinator_drain clock,
      rp_reconcile = reconcile_coordinator_agent clock,
      rp_list_agents = (\<lambda>db. Inr (list_coordinator_agent_ids db)),
      rp_retry = retry_coordinator_revision clock,
      rp_retry_idempotent = Some (retry_coordinator_revision_idempotent clock),
      rp_rollback = copy_last_known_good_coordinator_revision fmt clock,
      rp_journal = reconcile_coordinator_journal clock\<rparr>"

text \<open>
  A repository with other clients: before the k-th call of this session they turn the repository's
  state into \<open>env k\<close> of it (any number of their own calls, or none).
\<close>

definition call_after :: "(nat \<Rightarrow> 's \<Rightarrow> 's) \<Rightarrow> ('s \<Rightarrow> 'r \<times> 's) \<Rightarrow> nat \<times> 's \<Rightarrow> 'r \<times> nat \<times> 's" where
  "call_after env f st = (case st of (k, s) \<Rightarrow> (case f (env k s) of (res, s') \<Rightarrow> (res, k + 1, s')))"

definition shared :: "(nat \<Rightarrow> 's \<Rightarrow> 's) \<Rightarrow> 's repository \<Rightarrow> (nat \<times> 's) repository" where
  "shared env repo =
     \<lparr>rp_claim = (\<lambda>req. call_after env (rp_claim repo req)),
      rp_start = (\<lambda>req. call_after env (rp_start repo req)),
      rp_fail = (\<lambda>req. call_after env (rp_fail repo req)),
      rp_apply = (\<lambda>req. call_after env (rp_apply repo req)),
      rp_drain = (\<lambda>req. call_after env (rp_drain repo req)),
      rp_reconcile = (\<lambda>agent now j. call_after env (rp_reconcile repo agent now j)),
      rp_list_agents = (\<lambda>st. case st of (k, s) \<Rightarrow> rp_list_agents repo (env k s)),
      rp_retry = (\<lambda>agent n now. call_after env (rp_retry repo agent n now)),
      rp_retry_idempotent = map_option (\<lambda>f req. call_after env (f req)) (rp_retry_idempotent repo),
      rp_rollback = (\<lambda>req. call_after env (rp_rollback repo req)),
      rp_journal = (\<lambda>req. call_after env (rp_journal repo req))\<rparr>"

subsection \<open>The claim loop against the interface\<close>

text \<open>
  What the claim loop needs of a repository: operations keep its invariant, a reconciliation
  never asks for one, and once a claim asked for a reconciliation and that succeeded no earlier
  than the claim, the next claim for this agent does not ask again.
\<close>

locale reconciling_repository =
  fixes repo :: "'s repository" and ok :: "'s \<Rightarrow> bool"
  assumes claim_ok: "ok s \<Longrightarrow> ok (snd (rp_claim repo req s))"
    and reconcile_ok: "ok s \<Longrightarrow> ok (snd (rp_reconcile repo agent now j s))"
    and reconcile_settles:
      "ok s \<Longrightarrow> rp_claim repo req s = (Inl EReconcileNeeded, s1) \<Longrightarrow> cl_now req = Some t \<Longrightarrow> t \<le> t1 \<Longrightarrow>
       rp_reconcile repo (cl_agent_id req) (Some t1) j s1 = (Inr r, s2) \<Longrightarrow>
       cl_agent_id req2 = cl_agent_id req \<Longrightarrow> fst (rp_claim repo req2 s2) \<noteq> Inl EReconcileNeeded"
begin

lemma last_try:
  assumes no: "\<And>req. cl_agent_id req = agent \<Longrightarrow> fst (rp_claim (co_repository c) req s) \<noteq> Inl EReconcileNeeded"
  shows "claim_tries (Suc m) c agent w revision (n, s) = claim_tries (Suc 0) c agent w revision (n, s)"
proof (cases "co_new_id c n ''lease''")
  case None
  then show ?thesis by simp
next
  case (Some lease)
  let ?req = "\<lparr>cl_agent_id = agent, cl_lease_id = lease, cl_expected_operation_id = w,
     cl_expected_revision = revision, cl_now = Some (co_clock c (n + 1)),
     cl_default_apply_timeout = duration_seconds (co_apply_timeout c),
     cl_default_drain_timeout = duration_seconds (co_drain_timeout c)\<rparr>"
  obtain res s' where r: "rp_claim (co_repository c) ?req s = (res, s')" by fastforce
  then have "res \<noteq> Inl EReconcileNeeded" using no[of ?req] by simp
  then show ?thesis using Some r by (cases res) simp_all
qed

lemma two_tries:
  assumes c: "co_repository c = repo" and inv: "ok s" and mono: "\<And>i j. i \<le> j \<Longrightarrow> co_clock c i \<le> co_clock c j"
  shows "claim_tries (Suc (Suc m)) c agent w revision (n, s) = claim_tries 2 c agent w revision (n, s)"
proof (cases "co_new_id c n ''lease''")
  case None
  then show ?thesis by (simp add: numeral_2_eq_2)
next
  case (Some lease)
  let ?req = "\<lparr>cl_agent_id = agent, cl_lease_id = lease, cl_expected_operation_id = w,
     cl_expected_revision = revision, cl_now = Some (co_clock c (n + 1)),
     cl_default_apply_timeout = duration_seconds (co_apply_timeout c),
     cl_default_drain_timeout = duration_seconds (co_drain_timeout c)\<rparr>"
  obtain res s1 where r: "rp_claim repo ?req s = (res, s1)" by fastforce
  show ?thesis
  proof (cases "res = Inl EReconcileNeeded")
    case False
    with Some r c show ?thesis by (cases res) (simp_all add: numeral_2_eq_2)
  next
    case True
    obtain rc s2 where rc: "rp_reconcile repo agent (Some (co_clock c (n + 2))) (co_random c (n + 3)) s1 = (rc, s2)"
      by fastforce
    have rec: "co_reconcile c agent (n + 2, s1) = (rc, n + 4, s2)"
      using rc c by (simp add: co_reconcile_def eval_nat_numeral)
    show ?thesis
    proof (cases rc)
      case (Inl e)
      with Some r c True rec show ?thesis by (simp add: numeral_2_eq_2)
    next
      case (Inr x)
      have "fst (rp_claim repo req2 s2) \<noteq> Inl EReconcileNeeded" if "cl_agent_id req2 = agent" for req2
        using reconcile_settles[OF inv, of ?req s1 "co_clock c (n + 1)" "co_clock c (n + 2)" "co_random c (n + 3)" x s2 req2]
          r True rc Inr that mono[of "n + 1" "n + 2"] by simp
      then have "claim_tries (Suc m) c agent w revision (n + 4, s2) =
          claim_tries (Suc 0) c agent w revision (n + 4, s2)"
        unfolding c[symmetric] by (rule last_try)
      with Some r c True rec Inr show ?thesis by (simp add: numeral_2_eq_2)
    qed
  qed
qed

end

definition request_at :: "'s coordinator \<Rightarrow> string \<Rightarrow> string \<Rightarrow> int \<Rightarrow> string \<Rightarrow> nat \<Rightarrow> claim_request" where
  "request_at c agent w revision lease n =
     \<lparr>cl_agent_id = agent, cl_lease_id = lease, cl_expected_operation_id = w,
      cl_expected_revision = revision, cl_now = Some (co_clock c (n + 1)),
      cl_default_apply_timeout = duration_seconds (co_apply_timeout c),
      cl_default_drain_timeout = duration_seconds (co_drain_timeout c)\<rparr>"

lemma request_at_simps [simp]:
  "cl_agent_id (request_at c agent w revision lease n) = agent"
  "cl_now (request_at c agent w revision lease n) = Some (co_clock c (n + 1))"
  by (simp_all add: request_at_def)

lemma claim_tries_unfold:
  "claim_tries (Suc m) c agent w revision (n, s) =
     (case co_new_id c n ''lease'' of
        None \<Rightarrow> (Inl EInvalid, n + 1, s)
      | Some lease \<Rightarrow>
          (case rp_claim (co_repository c) (request_at c agent w revision lease n) s of
             (Inr res, s') \<Rightarrow> (Inr res, n + 2, s')
           | (Inl e, s') \<Rightarrow>
               if e \<noteq> EReconcileNeeded then (Inl e, n + 2, s')
               else (case co_reconcile c agent (n + 2, s') of
                   (Inl e', st') \<Rightarrow> (Inl e', st')
                 | (Inr _, st') \<Rightarrow> claim_tries m c agent w revision st')))"
  by (simp only: claim_tries.simps(2) request_at_def)

lemma shared_simps [simp]:
  "rp_claim (shared env repo) req = call_after env (rp_claim repo req)"
  "rp_reconcile (shared env repo) agent now j = call_after env (rp_reconcile repo agent now j)"
  by (simp_all add: shared_def)

lemma call_after_at: "call_after env f (k, s) = (case f (env k s) of (res, s') \<Rightarrow> (res, k + 1, s'))"
  by (simp add: call_after_def)

text \<open>
  What it needs when other clients use the repository as well. \<open>started agent s\<close> are the agent's
  attempts that have been started and not finished: a claim asks for a reconciliation only when one
  of them is past its deadline, and a reconciliation of an agent with a pointer leaves none that is.
\<close>

locale contended_repository =
  fixes repo :: "'s repository" and ok :: "'s \<Rightarrow> bool" and started :: "string \<Rightarrow> 's \<Rightarrow> 'a set"
    and deadline :: "'a \<Rightarrow> time" and known :: "string \<Rightarrow> 's \<Rightarrow> bool"
  assumes asks: "ok s \<Longrightarrow> rp_claim repo req s = (Inl EReconcileNeeded, s1) \<Longrightarrow> cl_now req = Some t \<Longrightarrow>
      s1 = s \<and> (\<exists>a \<in> started (cl_agent_id req) s. deadline a \<le> t)"
    and settles: "ok s \<Longrightarrow> rp_reconcile repo agent (Some t) j s = (Inr r, s2) \<Longrightarrow> known agent s \<Longrightarrow>
      a \<in> started agent s2 \<Longrightarrow> t < deadline a"
    and reconciled_ok: "ok s \<Longrightarrow> ok (snd (rp_reconcile repo agent now j s))"
begin

text \<open>
  Two tries are as good as any larger number, or the loop was overtaken: between its reconciliation
  and its second claim a started attempt passed its deadline that the reconciliation did not see.
\<close>

lemma two_tries_or_overtaken:
  assumes c: "co_repository c = shared env repo" and inv: "ok s" and env: "\<And>k s. ok s \<Longrightarrow> ok (env k s)"
  shows "(\<forall>m. claim_tries (m + 2) c agent w revision (n, k, s) = claim_tries 2 c agent w revision (n, k, s)) \<or>
    (\<exists>r s1 a. rp_reconcile repo agent (Some (co_clock c (n + 2))) (co_random c (n + 3)) (env (k + 1) (env k s)) = (Inr r, s1) \<and>
       a \<in> started agent (env (k + 2) s1) \<and> deadline a \<le> co_clock c (n + 5) \<and>
       (a \<notin> started agent s1 \<or> co_clock c (n + 2) < deadline a \<or> \<not> known agent (env (k + 1) (env k s))))"
proof (cases "co_new_id c n ''lease''")
  case None
  then have "claim_tries (Suc m) c agent w revision (n, k, s) = (Inl EInvalid, n + 1, k, s)" for m
    by (simp only: claim_tries_unfold option.case)
  then show ?thesis by (simp add: numeral_2_eq_2 del: claim_tries.simps)
next
  case (Some lease)
  let ?req = "\<lambda>lease n. request_at c agent w revision lease n"
  obtain res s1 where r: "rp_claim repo (?req lease n) (env k s) = (res, s1)" by fastforce
  have step: "claim_tries (Suc m) c agent w revision (n, k, s) =
     (case res of Inr x \<Rightarrow> (Inr x, n + 2, k + 1, s1)
      | Inl e \<Rightarrow> if e \<noteq> EReconcileNeeded then (Inl e, n + 2, k + 1, s1)
           else (case co_reconcile c agent (n + 2, k + 1, s1) of
               (Inl e', st') \<Rightarrow> (Inl e', st') | (Inr _, st') \<Rightarrow> claim_tries m c agent w revision st'))" for m
    unfolding claim_tries_unfold Some c shared_simps option.case call_after_at r prod.case
    by (cases res) simp_all
  show ?thesis
  proof (cases "res = Inl EReconcileNeeded")
    case False
    then have "claim_tries (Suc m) c agent w revision (n, k, s) = (res, n + 2, k + 1, s1)" for m
      unfolding step by (cases res) simp_all
    then show ?thesis by (simp add: numeral_2_eq_2 del: claim_tries.simps)
  next
    case True
    have s1: "s1 = env k s" using asks[OF env[OF inv] r[unfolded True]] by simp
    obtain rc s2 where rc: "rp_reconcile repo agent (Some (co_clock c (n + 2))) (co_random c (n + 3))
        (env (k + 1) (env k s)) = (rc, s2)" by fastforce
    have "co_reconcile c agent (n + 2, k + 1, s1) = (rc, n + 4, k + 2, s2)"
      using rc c s1 by (simp add: co_reconcile_def call_after_def eval_nat_numeral)
    with step True have first: "claim_tries (Suc m) c agent w revision (n, k, s) =
        (case rc of Inl e \<Rightarrow> (Inl e, n + 4, k + 2, s2) | Inr _ \<Rightarrow> claim_tries m c agent w revision (n + 4, k + 2, s2))" for m
      by (cases rc) simp_all
    show ?thesis
    proof (cases rc)
      case (Inl e)
      with first show ?thesis by (simp add: numeral_2_eq_2 del: claim_tries.simps)
    next
      case (Inr x)
      then have second: "claim_tries (Suc m) c agent w revision (n, k, s) =
          claim_tries m c agent w revision (n + 4, k + 2, s2)" for m
        by (simp only: first sum.case)
      have same: ?thesis if "\<And>m. claim_tries (Suc m) c agent w revision (n + 4, k + 2, s2) = z" for z
        using that by (simp add: second numeral_2_eq_2 del: claim_tries.simps)
      show ?thesis
      proof (cases "co_new_id c (n + 4) ''lease''")
        case None
        show ?thesis
          by (rule same[of "(Inl EInvalid, n + 4 + 1, k + 2, s2)"]) (simp only: claim_tries_unfold None option.case)
      next
        case next_lease: (Some lease2)
        obtain res2 s3 where r2: "rp_claim repo (?req lease2 (n + 4)) (env (k + 2) s2) = (res2, s3)" by fastforce
        show ?thesis
        proof (cases "res2 = Inl EReconcileNeeded")
          case False
          show ?thesis
            by (rule same[of "(res2, n + 4 + 2, k + 2 + 1, s3)"])
              (use False in \<open>unfold claim_tries_unfold next_lease c shared_simps option.case call_after_at r2 prod.case,
                cases res2, simp_all\<close>)
        next
          case again: True
          have ok1: "ok (env (k + 1) (env k s))" by (intro env inv)
          have "ok s2" using reconciled_ok[OF ok1, of agent "Some (co_clock c (n + 2))" "co_random c (n + 3)"] rc by simp
          from asks[OF env[OF this] r2[unfolded again], of "co_clock c (n + 5)"] obtain a where
            a: "a \<in> started agent (env (k + 2) s2)" "deadline a \<le> co_clock c (n + 5)"
            by (auto simp: eval_nat_numeral)
          have "a \<notin> started agent s2 \<or> co_clock c (n + 2) < deadline a \<or> \<not> known agent (env (k + 1) (env k s))"
            using settles[OF ok1 rc[unfolded Inr]] by blast
          with a rc Inr show ?thesis by blast
        qed
      qed
    qed
  qed
qed

end

subsection \<open>The ledger obeys the laws\<close>

lemma refresh_error: "refresh_coordinator_operation_tx w now db = Inl e \<Longrightarrow> e = ERecordNotFound"
  by (auto simp: refresh_coordinator_operation_tx_def Let_def tx_bind_Inl_iff first_where_Inl_iff
      split: if_splits prod.splits)

lemma supersede_revision_error: "supersede_revision_tx agent n now db = Inl e \<Longrightarrow> e = ERecordNotFound"
  by (auto simp: supersede_revision_tx_def Let_def split: option.splits if_splits dest: refresh_error)

lemma supersede_rows_error: "supersede_rows_tx rows now db = Inl e \<Longrightarrow> e = ERecordNotFound"
  by (induction rows arbitrary: db)
     (auto simp: Let_def tx_bind_Inl_iff dest: supersede_revision_error)

lemma expire_error: "expire_unstarted_attempt_tx a now db = Inl e \<Longrightarrow> e = ERecordNotFound"
  by (auto simp: expire_unstarted_attempt_tx_def Let_def tx_bind_Inl_iff split: if_splits option.splits)

lemma claim_desired_error:
  "claim_desired_tx agent lease p now da dd sps db = Inl e \<Longrightarrow> e \<noteq> EReconcileNeeded"
  by (auto simp: claim_desired_tx_def claim_lease_tx_def store_lease_tx_def Let_def tx_bind_Inl_iff
      split: option.splits if_splits)

lemma claim_scope_error: "claim_scope_tx agent w n p db = Inl e \<Longrightarrow> e \<noteq> EReconcileNeeded"
  by (auto simp: claim_scope_tx_def split: if_splits option.splits)

text \<open>Only an expired started attempt of the desired revision asks for a reconciliation.\<close>

lemma claim_needs_reconcile:
  assumes run: "claim_latest_agent_revision clock req db = (Inl EReconcileNeeded, db')"
  shows "db' = db \<and> (\<exists>p a. lock_coordinator_pointer (trim_space (cl_agent_id req)) db = Some p \<and>
    lock_active_coordinator_attempts (trim_space (cl_agent_id req)) db = [a] \<and>
    at_revision a = pt_desired_revision p \<and> at_state a = AttStarted \<and>
    \<not> coordinator_time clock (cl_now req) < at_deadline_at a)"
proof -
  let ?agent = "trim_space (cl_agent_id req)" and ?now = "coordinator_time clock (cl_now req)"
  have tx: "claim_tx ?agent (trim_space (cl_lease_id req)) (trim_space (cl_expected_operation_id req))
      (cl_expected_revision req) ?now (cl_default_apply_timeout req) (cl_default_drain_timeout req) db
      = Inl EReconcileNeeded \<and> db' = db"
    using run by (auto simp: claim_latest_agent_revision_def Let_def split: if_splits dest: commit_InlD)
  then obtain p where p: "lock_coordinator_pointer ?agent db = Some p"
    by (cases "lock_coordinator_pointer ?agent db") (auto simp: claim_tx_def)
  from tx p have act: "claim_active_tx ?agent p ?now db = Inl EReconcileNeeded"
    by (auto simp: claim_tx_def tx_bind_Inl_iff supersede_older_coordinator_revisions_tx_def
        split: if_splits dest: claim_scope_error claim_desired_error supersede_rows_error)
  then obtain a where a: "lock_active_coordinator_attempts ?agent db = [a]"
    by (auto simp: claim_active_tx_def split: list.splits)
  obtain a' db1 where s: "supersede_attempt_tx a ?now db = (a', db1)" by fastforce
  from act a have "at_revision a = pt_desired_revision p \<and> at_state a = AttStarted \<and> \<not> ?now < at_deadline_at a"
    by (auto simp: claim_active_tx_def s tx_bind_Inl_iff split: if_splits
        dest: supersede_revision_error expire_error)
  with tx p a show ?thesis by blast
qed

lemma claim_idle_no_reconcile:
  assumes idle: "active_attempts (trim_space (cl_agent_id req)) db = []"
  shows "fst (claim_latest_agent_revision clock req db) \<noteq> Inl EReconcileNeeded"
proof
  assume "fst (claim_latest_agent_revision clock req db) = Inl EReconcileNeeded"
  then have "claim_latest_agent_revision clock req db =
      (Inl EReconcileNeeded, snd (claim_latest_agent_revision clock req db))" by (simp add: prod_eq_iff)
  from claim_needs_reconcile[OF this] idle show False
    using lock_active_Nil[of "trim_space (cl_agent_id req)" db] by auto
qed

text \<open>Attempts that a step leaves alone or closes.\<close>

lemma fail_started_idle:
  assumes run: "fail_started_coordinator_attempt_tx r a now j c m db = Inr (res, db')"
    and one: "active_attempts agent db = [a]" and st: "at_state a = AttStarted"
  shows "active_attempts agent db' = []"
proof -
  define c' where "c' = (if trim_space c = [] then ''apply_failed'' else trim_space c)"
  define m' where "m' = (if trim_space m = [] then ''apply attempt failed'' else trim_space m)"
  let ?db1 = "db\<lparr>db_attempts := upd_where
              (\<lambda>x. at_key x = at_key a \<and> at_lease_id x = at_lease_id a \<and> at_state x = AttStarted)
              (\<lambda>x. x\<lparr>at_state := AttFailed, at_finished_at := Some now, at_error_code := c',
                       at_error := m'\<rparr>) (db_attempts db)\<rparr>"
  have "active_attempts agent ?db1 = []"
    by (rule active_closed_only[OF one]) (simp_all add: st attempt_active_def)
  moreover have "db_attempts db' = db_attempts ?db1"
    using run unfolding fail_started_coordinator_attempt_tx_def Let_def c'_def[symmetric] m'_def[symmetric]
    by (auto simp: tx_bind_Inr_iff refresh_fields)
  ultimately show ?thesis by (simp add: active_attempts_def)
qed

lemma force_drains_attempts [simp]: "db_attempts (force_drains r now gs db) = db_attempts db"
  by (induction gs arbitrary: db) simp_all

lemma force_expired_attempts:
  "force_expired_coordinator_drains_tx p now db = Inr (n, db') \<Longrightarrow> db_attempts db' = db_attempts db"
  by (auto simp: force_expired_coordinator_drains_tx_def force_draining_tx_def Let_def tx_bind_Inr_iff
      refresh_fields split: option.splits if_splits)

lemma reconcile_desired_attempts:
  "reconcile_desired_tx agent p now j (res, db) = Inr (res', db') \<Longrightarrow> db_attempts db' = db_attempts db"
  by (auto simp: reconcile_desired_tx_def reconcile_orphan_applying_revision_tx_def Let_def
      tx_bind_Inr_iff refresh_fields split: option.splits if_splits)

lemma reconcile_settles_ledger:
  assumes claim: "claim_latest_agent_revision clock req db = (Inl EReconcileNeeded, db1)"
    and t: "cl_now req = Some t" "t \<le> t1"
    and rec: "reconcile_coordinator_agent clock (cl_agent_id req) (Some t1) j db1 = (Inr r, db2)"
  shows "active_attempts (trim_space (cl_agent_id req)) db2 = []"
proof -
  let ?agent = "trim_space (cl_agent_id req)"
  from claim_needs_reconcile[OF claim] t obtain p a where d: "db1 = db"
    and p: "lock_coordinator_pointer ?agent db = Some p"
    and a: "lock_active_coordinator_attempts ?agent db = [a]" "at_revision a = pt_desired_revision p"
      "at_state a = AttStarted" "\<not> t < at_deadline_at a"
    by (auto simp: coordinator_time_def)
  have one: "active_attempts ?agent db = [a]" using lock_active_single[OF a(1)] by simp
  have late: "\<not> t1 < at_deadline_at a" using a(4) t(2) by simp
  have "reconcile_tx ?agent t1 j db = Inr (r, db2)"
    using rec d by (auto simp: reconcile_coordinator_agent_def Let_def coordinator_time_def
        split: if_splits dest: commit_InrD)
  then obtain res0 row fs dba n dbb older dbc res1 where
    f: "fail_started_coordinator_attempt_tx row a t1 j ''apply_timeout'' ''apply attempt deadline expired'' db
      = Inr (fs, dba)"
    and g: "force_expired_coordinator_drains_tx p t1 dba = Inr (n, dbb)"
    and h: "supersede_older_coordinator_revisions_tx p t1 dbb = Inr (older, dbc)"
    and k: "reconcile_desired_tx ?agent p t1 j (res1, dbc) = Inr (r, db2)"
    using a late p
    by (auto simp: reconcile_tx_def Let_def tx_bind_Inr_iff reconcile_attempt_tx_def)
  have "active_attempts ?agent dba = []" by (rule fail_started_idle[OF f one a(3)])
  then have "active_attempts ?agent dbb = []" using force_expired_attempts[OF g] by (simp add: active_attempts_def)
  then have "active_attempts ?agent dbc = []" using supersede_older_quiet[OF h] quiet_active_Nil by blast
  then show ?thesis using reconcile_desired_attempts[OF k] by (simp add: active_attempts_def)
qed

interpretation ledger: reconciling_repository "ledger_repository fmt clock" db_inv
  by unfold_locales
     (simp_all add: ledger_repository_def inv_claim inv_reconcile claim_idle_no_reconcile
       reconcile_settles_ledger)

lemma quiet_active_subset: "quiet db db' \<Longrightarrow> set (active_attempts agent db') \<subseteq> set (active_attempts agent db)"
proof
  fix a
  assume q: "quiet db db'" and a: "a \<in> set (active_attempts agent db')"
  then obtain i where i: "i < length (db_attempts db')" "db_attempts db' ! i = a"
    by (auto simp: active_attempts_def in_set_conv_nth)
  with q have "att_closed (db_attempts db ! i) a" "i < length (db_attempts db)"
    by (auto simp: quiet_def list_all2_conv_all_nth)
  with a i show "a \<in> set (active_attempts agent db)"
    by (auto simp: att_closed_def active_attempts_def)
qed

text \<open>What a reconciliation does with the active attempts of its agent.\<close>

lemma reconcile_attempt_leaves:
  assumes run: "reconcile_attempt_tx agent p now j a (res, db) = Inr (res', db')"
    and one: "active_attempts agent db = [a]" and b: "b \<in> set (active_attempts agent db')" "at_state b = AttStarted"
  shows "now < at_deadline_at b"
proof (cases "at_revision a < pt_desired_revision p")
  case True
  obtain a' db1 where s: "supersede_attempt_tx a now db = (a', db1)" by fastforce
  with run True have "supersede_revision_tx agent (at_revision a) now db1 = Inr db'"
    by (auto simp: reconcile_attempt_tx_def tx_bind_Inr_iff)
  from quiet_active_Nil[OF supersede_revision_quiet[OF this] supersede_attempt_active_Nil[OF s one]] b show ?thesis
    by simp
next
  case le: False
  show ?thesis
  proof (cases "now < at_deadline_at a")
    case True
    with run le one b show ?thesis by (auto simp: reconcile_attempt_tx_def split: if_splits)
  next
    case late: False
    show ?thesis
    proof (cases "at_state a")
      case AttLeased
      with run le late have "expire_unstarted_attempt_tx a now db = Inr db'"
        by (auto simp: reconcile_attempt_tx_def tx_bind_Inr_iff split: if_splits)
      from expire_active_Nil[OF this one AttLeased] b show ?thesis by simp
    next
      case AttStarted
      with run le late obtain row fs where
        "fail_started_coordinator_attempt_tx row a now j ''apply_timeout'' ''apply attempt deadline expired'' db = Inr (fs, db')"
        by (auto simp: reconcile_attempt_tx_def tx_bind_Inr_iff split: if_splits)
      from fail_started_idle[OF this one AttStarted] b show ?thesis by simp
    qed (use run le late one b in \<open>auto simp: reconcile_attempt_tx_def split: if_splits\<close>)
  qed
qed

lemma reconcile_leaves_live:
  assumes inv: "db_inv db" and rec: "reconcile_coordinator_agent clock agent0 (Some t) j db = (Inr r, db2)"
    and p: "lock_coordinator_pointer (trim_space agent0) db \<noteq> None"
    and a: "a \<in> set (active_attempts (trim_space agent0) db2)" "at_state a = AttStarted"
  shows "t < at_deadline_at a"
proof -
  let ?agent = "trim_space agent0"
  obtain q where q: "lock_coordinator_pointer ?agent db = Some q" using p by blast
  have "reconcile_tx ?agent t j db = Inr (r, db2)"
    using rec by (auto simp: reconcile_coordinator_agent_def Let_def coordinator_time_def
        split: if_splits dest: commit_InrD)
  then obtain res0 res dba n dbb older dbc res1 where
    f: "reconcile_attempts_tx ?agent q t j (lock_active_coordinator_attempts ?agent db) (res0, db) = Inr (res, dba)"
    and g: "force_expired_coordinator_drains_tx q t dba = Inr (n, dbb)"
    and h: "supersede_older_coordinator_revisions_tx q t dbb = Inr (older, dbc)"
    and k: "reconcile_desired_tx ?agent q t j (res1, dbc) = Inr (r, db2)"
    using q by (auto simp: reconcile_tx_def Let_def tx_bind_Inr_iff)
  have "a \<in> set (active_attempts ?agent dbc)" using a(1) reconcile_desired_attempts[OF k] by (simp add: active_attempts_def)
  then have "a \<in> set (active_attempts ?agent dbb)" using quiet_active_subset[OF supersede_older_quiet[OF h]] by blast
  then have b: "a \<in> set (active_attempts ?agent dba)" using force_expired_attempts[OF g] by (simp add: active_attempts_def)
  have "length (lock_active_coordinator_attempts ?agent db) \<le> 1"
    using inv by (simp add: db_inv_def attempts_ok_def lock_active_coordinator_attempts_def)
  then consider "lock_active_coordinator_attempts ?agent db = []" | x where "lock_active_coordinator_attempts ?agent db = [x]"
    by (cases "lock_active_coordinator_attempts ?agent db") auto
  then show ?thesis
  proof cases
    case 1
    with f b lock_active_Nil[of ?agent db] show ?thesis by simp
  next
    case (2 x)
    with f have "reconcile_attempt_tx ?agent q t j x (res0, db) = Inr (res, dba)"
      by (auto simp: tx_bind_Inr_iff)
    from reconcile_attempt_leaves[OF this _ b a(2)] lock_active_single[OF 2] show ?thesis by simp
  qed
qed

definition started_attempts :: "string \<Rightarrow> db \<Rightarrow> revision_attempt set" where
  "started_attempts agent db = {a \<in> set (active_attempts (trim_space agent) db). at_state a = AttStarted}"

lemma claim_asks_started:
  assumes "claim_latest_agent_revision clock req db = (Inl EReconcileNeeded, db')" and "cl_now req = Some t"
  shows "db' = db \<and> (\<exists>a \<in> started_attempts (cl_agent_id req) db. at_deadline_at a \<le> t)"
proof -
  from claim_needs_reconcile[OF assms(1)] assms(2) obtain a where "db' = db"
    "lock_active_coordinator_attempts (trim_space (cl_agent_id req)) db = [a]" "at_state a = AttStarted" "\<not> t < at_deadline_at a"
    by (auto simp: coordinator_time_def)
  with lock_active_single[of "trim_space (cl_agent_id req)" db a] show ?thesis
    by (auto simp: started_attempts_def)
qed

interpretation contended: contended_repository "ledger_repository fmt clock" db_inv started_attempts at_deadline_at
    "\<lambda>agent db. lock_coordinator_pointer (trim_space agent) db \<noteq> None"
  using claim_asks_started reconcile_leaves_live
  by unfold_locales (fastforce simp: ledger_repository_def started_attempts_def inv_reconcile)+

lemma claim_tries_leak: "fst (claim_tries k c agent w revision (n, s)) = Inl EReconcileNeeded \<Longrightarrow>
  \<exists>ag j t s'. fst (rp_reconcile (co_repository c) ag (Some t) j s') = Inl EReconcileNeeded"
proof (induction k arbitrary: n s)
  case 0
  then show ?case by simp
next
  case (Suc k)
  show ?case
  proof (cases "co_new_id c n ''lease''")
    case None
    with Suc.prems show ?thesis by simp
  next
    case (Some lease)
    let ?req = "\<lparr>cl_agent_id = agent, cl_lease_id = lease, cl_expected_operation_id = w,
       cl_expected_revision = revision, cl_now = Some (co_clock c (n + 1)),
       cl_default_apply_timeout = duration_seconds (co_apply_timeout c),
       cl_default_drain_timeout = duration_seconds (co_drain_timeout c)\<rparr>"
    obtain res s1 where r: "rp_claim (co_repository c) ?req s = (res, s1)" by fastforce
    obtain rc n2 s2 where rec: "co_reconcile c agent (n + 2, s1) = (rc, n2, s2)" by (metis prod.exhaust)
    show ?thesis
    proof (cases rc)
      case (Inl e)
      have "fst (rp_reconcile (co_repository c) agent (Some (co_clock c (n + 2))) (co_random c (n + 2 + 1)) s1) = Inl e"
        using rec Inl by (auto simp: co_reconcile_def split: prod.splits)
      moreover have "e = EReconcileNeeded" if "res = Inl EReconcileNeeded"
        using Suc.prems Some r rec Inl that by simp
      moreover have "res = Inl EReconcileNeeded"
        using Suc.prems Some r by (cases res) (auto split: if_splits)
      ultimately show ?thesis by blast
    next
      case (Inr x)
      have "fst (claim_tries k c agent w revision (n2, s2)) = Inl EReconcileNeeded"
        using Suc.prems Some r rec Inr by (cases res) (auto split: if_splits)
      then show ?thesis by (rule Suc.IH)
    qed
  qed
qed

subsection \<open>Claims through the coordinator\<close>

text \<open>
  Without other clients and with a clock that does not run backwards the loop never ends because the
  agent remained unreconciled: it answers as with any larger number of tries.
\<close>

lemma claim_two_tries_alone:
  assumes repo: "co_repository c = ledger_repository fmt clock"
    and mono: "\<And>i j. i \<le> j \<Longrightarrow> co_clock c i \<le> co_clock c j" and inv: "db_inv db"
    and agent: "trim_space agent \<noteq> []"
  shows "claim_dependency_node c w agent revision (n, db) = claim_tries (m + 2) c agent w revision (n, db) \<and>
    co_claim c agent (n, db) = claim_tries (m + 2) c (trim_space agent) [] 0 (n, db)"
  using ledger.two_tries[OF repo inv mono, of m] agent
  by (simp add: claim_dependency_node_def co_claim_def)

text \<open>
  C9. The claim loop on a ledger that other clients use as well: before every call of the loop they
  may change the ledger in any way that keeps its invariant, and the clock may answer anything. Two
  tries answer exactly as any larger number of tries does, so the loop does not end because the agent
  remained unreconciled, unless it was overtaken: when its second claim reads the clock a started
  attempt of the agent is past its deadline that the loop's reconciliation did not find so. That
  attempt was started by another client after the reconciliation, or its deadline came after the clock
  reading of the reconciliation, or the agent had no pointer when it was reconciled. A plain claim
  (\<open>co_claim\<close>) is the same loop without an expected operation and revision.
\<close>

theorem claim_two_tries_suffice:
  assumes repo: "co_repository c = shared env (ledger_repository fmt clock)" and inv: "db_inv db"
    and env: "\<And>k db. db_inv db \<Longrightarrow> db_inv (env k db)" and agent: "trim_space agent0 \<noteq> []"
  shows "co_claim c agent0 (n, k, db) = claim_dependency_node c [] (trim_space agent0) 0 (n, k, db) \<and>
    ((\<forall>m. claim_tries (m + 2) c agent w revision (n, k, db) = claim_dependency_node c w agent revision (n, k, db)) \<or>
     (\<exists>r db0 db1 a. db0 = env (k + 1) (env k db) \<and>
       reconcile_coordinator_agent clock agent (Some (co_clock c (n + 2))) (co_random c (n + 3)) db0 = (Inr r, db1) \<and>
       a \<in> started_attempts agent (env (k + 2) db1) \<and> at_deadline_at a \<le> co_clock c (n + 5) \<and>
       (a \<notin> started_attempts agent db1 \<or> co_clock c (n + 2) < at_deadline_at a \<or>
        lock_coordinator_pointer (trim_space agent) db0 = None)))"
  using contended.two_tries_or_overtaken[OF repo inv env, of agent w revision n k] agent
  by (simp add: claim_dependency_node_def co_claim_def ledger_repository_def)

definition sample_coordinator :: "time \<Rightarrow> db coordinator" where
  "sample_coordinator now = new_coordinator (ledger_repository plain_format 0) (\<lambda>n. now)
     (\<lambda>n. FVal (1 / 2)) (\<lambda>n prefix. Some (prefix @ itoa (int n))) 0 0"

definition sample_shared :: "time \<Rightarrow> (nat \<times> db) coordinator" where
  "sample_shared now = new_coordinator (shared (\<lambda>k db. db) (ledger_repository plain_format 0)) (\<lambda>n. now)
     (\<lambda>n. FVal (1 / 2)) (\<lambda>n prefix. Some (prefix @ itoa (int n))) 0 0"

lemma claim_two_tries_alone_sample:
  "claim_tries 7 (sample_coordinator (99 * second)) ''edge'' [] 0 (0, started_ledger) =
     co_claim (sample_coordinator (99 * second)) ''edge'' (0, started_ledger)"
proof -
  have "trim_space ''edge'' = ''edge''" by code_simp
  then show ?thesis
    using claim_two_tries_alone[of "sample_coordinator (99 * second)" plain_format 0 started_ledger "''edge''" "[]" 0 0 5]
      started_inv by (simp add: sample_coordinator_def new_coordinator_def)
qed

theorem claim_two_tries_suffice_witness:
  "claim_tries 7 (sample_shared (99 * second)) ''edge'' [] 0 (0, 0, started_ledger) =
     claim_dependency_node (sample_shared (99 * second)) [] ''edge'' 0 (0, 0, started_ledger) \<and>
   map at_state (db_attempts (snd (snd (snd (co_claim (sample_shared (99 * second)) ''edge''
     (0, 0, started_ledger)))))) = [AttFailed]"
proof -
  let ?c = "sample_shared (99 * second)"
  have t: "trim_space ''edge'' = ''edge''" by code_simp
  have idle: "active_attempts ''edge'' (snd (reconcile_coordinator_agent 0 ''edge'' (Some (99 * second)) (FVal (1 / 2)) started_ledger)) = []"
    by code_simp
  have "(\<forall>m. claim_tries (m + 2) ?c ''edge'' [] 0 (0, 0, started_ledger) =
      claim_dependency_node ?c [] ''edge'' 0 (0, 0, started_ledger))"
    using claim_two_tries_suffice[of ?c "\<lambda>k db. db" plain_format 0 started_ledger "''edge''" 0 0 "''edge''" "[]" 0]
      started_inv t idle by (auto simp: sample_shared_def new_coordinator_def started_attempts_def)
  from this[THEN spec, of 5] have "claim_tries 7 ?c ''edge'' [] 0 (0, 0, started_ledger) =
      claim_dependency_node ?c [] ''edge'' 0 (0, 0, started_ledger)" by simp
  moreover have "map at_state (db_attempts (snd (snd (snd (co_claim ?c ''edge'' (0, 0, started_ledger)))))) = [AttFailed]"
    by code_simp
  ultimately show ?thesis by blast
qed

lemma co_reconcile_inv:
  "co_repository c = ledger_repository fmt clock \<Longrightarrow> db_inv (snd st) \<Longrightarrow> db_inv (snd (snd (co_reconcile c agent st)))"
  using inv_reconcile by (auto simp: co_reconcile_def ledger_repository_def split: prod.splits) (metis snd_conv)

lemma reconcile_each_covers:
  "reconcile_each c agents st = ((rs, es), st') \<Longrightarrow>
   length rs + length es = length agents \<and> subseq (map fst es) agents"
proof (induction agents arbitrary: st rs es st')
  case (Cons agent agents)
  obtain res st1 where a: "co_reconcile c agent st = (res, st1)" by (metis prod.exhaust)
  obtain rs1 es1 st2 where b: "reconcile_each c agents st1 = ((rs1, es1), st2)" by (metis prod.exhaust)
  from Cons.IH[OF b] Cons.prems a b show ?case by (cases res) auto
qed simp

lemma reconcile_each_inv:
  "co_repository c = ledger_repository fmt clock \<Longrightarrow> db_inv (snd st) \<Longrightarrow>
   db_inv (snd (snd (reconcile_each c agents st)))"
proof (induction agents arbitrary: st)
  case (Cons agent agents)
  obtain res st1 where a: "co_reconcile c agent st = (res, st1)" by (metis prod.exhaust)
  have "db_inv (snd st1)" using co_reconcile_inv[OF Cons.prems, of agent] a by simp
  from Cons.IH[OF Cons.prems(1) this] show ?case using a by (auto split: prod.splits sum.splits)
qed simp

text \<open>
  The startup pass reaches every agent that has work left: each listed agent is reconciled
  or reported with its error, in the order of the list, whatever the other agents' outcomes, and
  the ledger's invariant is kept.
\<close>

theorem startup_reaches_every_agent:
  assumes repo: "co_repository c = ledger_repository fmt clock" and inv: "db_inv db"
  shows "\<exists>rs es n' db'. reconcile_startup c (n, db) = (Inr (rs, es), n', db') \<and>
    length rs + length es = length (list_coordinator_agent_ids db) \<and>
    subseq (map fst es) (list_coordinator_agent_ids db) \<and> db_inv db'"
proof -
  obtain rs es n' db' where e: "reconcile_each c (list_coordinator_agent_ids db) (n, db) = ((rs, es), n', db')"
    by (metis prod.exhaust)
  have "reconcile_startup c (n, db) = (Inr (rs, es), n', db')"
    using e repo by (simp add: reconcile_startup_def ledger_repository_def)
  then show ?thesis using reconcile_each_covers[OF e] reconcile_each_inv[OF repo, of "(n, db)" "list_coordinator_agent_ids db"] e inv
    by simp
qed

theorem startup_reaches_every_agent_witness:
  "list_coordinator_agent_ids started_ledger = [''edge''] \<and>
   (\<exists>rs es n' db'. reconcile_startup (sample_coordinator (99 * second)) (0, started_ledger) = (Inr (rs, es), n', db') \<and>
      length rs + length es = 1)"
proof -
  have l: "list_coordinator_agent_ids started_ledger = [''edge'']" by code_simp
  have "co_repository (sample_coordinator (99 * second)) = ledger_repository plain_format 0"
    by (simp add: sample_coordinator_def new_coordinator_def)
  from startup_reaches_every_agent[OF this started_inv, of 0] l show ?thesis by auto
qed

end
