(* ===== verification/DepCycle.thy ===== *)
theory DepCycle
  imports DepPlan
begin

text \<open>
  Correctness of the cycle search: within its recursion bound it always answers, a reported cycle
  is a closed walk along the edges, and no report means that the edges are acyclic.
\<close>

definition walk :: "(string \<Rightarrow> string list) \<Rightarrow> string list \<Rightarrow> bool" where
  "walk adj c \<longleftrightarrow> successively (\<lambda>x y. y \<in> set (adj x)) c"

definition closed_walk :: "(string \<Rightarrow> string list) \<Rightarrow> string list \<Rightarrow> bool" where
  "closed_walk adj c \<longleftrightarrow> 2 \<le> length c \<and> hd c = last c \<and> walk adj c"

text \<open>Finished nodes can be listed so that every edge leads to an earlier one.\<close>

definition layered :: "(string \<Rightarrow> string list) \<Rightarrow> string list \<Rightarrow> bool" where
  "layered adj l \<longleftrightarrow> (\<forall>i < length l. set (adj (l ! i)) \<subseteq> set (take i l))"

definition dfs_ok :: "(string \<Rightarrow> string list) \<Rightarrow> dfs \<Rightarrow> bool" where
  "dfs_ok adj st \<longleftrightarrow> distinct (df_stack st) \<and> (\<forall>a. df_state st a = 1 \<longleftrightarrow> a \<in> set (df_stack st)) \<and>
     (\<forall>a. df_state st a \<le> 2) \<and>
     (\<forall>i < length (df_stack st). df_index st (df_stack st ! i) = i) \<and> walk adj (df_stack st) \<and>
     (\<exists>l. set l = {a. df_state st a = 2} \<and> layered adj l)"

lemma dfs_okI:
  assumes "distinct (df_stack st)" and "\<And>x. df_state st x = 1 \<longleftrightarrow> x \<in> set (df_stack st)"
    and "\<And>x. df_state st x \<le> 2"
    and "\<And>i. i < length (df_stack st) \<Longrightarrow> df_index st (df_stack st ! i) = i"
    and "walk adj (df_stack st)" and "set l = {a. df_state st a = 2}" and "layered adj l"
  shows "dfs_ok adj st"
  using assms unfolding dfs_ok_def by blast

lemma dfs_ok_start: "dfs_ok adj dfs_start"
  by (simp add: dfs_ok_def dfs_start_def walk_def layered_def)

lemma dfs_ok_enter:
  assumes ok: "dfs_ok adj st" and a: "df_state st a = 0"
    and next_to: "df_stack st \<noteq> [] \<Longrightarrow> a \<in> set (adj (last (df_stack st)))"
  shows "dfs_ok adj (dfs_enter a st)"
proof -
  have new: "a \<notin> set (df_stack st)"
  proof
    assume "a \<in> set (df_stack st)"
    then have "df_state st a = 1" using ok by (simp add: dfs_ok_def)
    with a show False by simp
  qed
  have idx: "((df_index st)(a := length (df_stack st))) ((df_stack st @ [a]) ! i) = i"
    if "i < length (df_stack st @ [a])" for i
  proof (cases "i < length (df_stack st)")
    case True
    then have "df_stack st ! i \<noteq> a" using new nth_mem by metis
    with True ok show ?thesis by (simp add: nth_append dfs_ok_def)
  next
    case False
    with that show ?thesis by (simp add: nth_append)
  qed
  have w: "walk adj (df_stack st @ [a])"
    using ok next_to by (cases "df_stack st = []") (simp_all add: walk_def dfs_ok_def successively_append_iff)
  obtain l where l: "set l = {x. df_state st x = 2}" "layered adj l" using ok by (auto simp: dfs_ok_def)
  have st1: "df_stack (dfs_enter a st) = df_stack st @ [a]"
    "df_state (dfs_enter a st) = (df_state st)(a := 1)"
    "df_index (dfs_enter a st) = (df_index st)(a := length (df_stack st))"
    by (simp_all add: dfs_enter_def)
  show ?thesis
  proof (rule dfs_okI[OF _ _ _ _ _ _ l(2)], unfold st1)
    show "distinct (df_stack st @ [a])" using ok new by (simp add: dfs_ok_def)
    show "((df_state st)(a := 1)) x = 1 \<longleftrightarrow> x \<in> set (df_stack st @ [a])" for x
      using ok by (simp add: dfs_ok_def)
    show "((df_state st)(a := 1)) x \<le> 2" for x using ok by (simp add: dfs_ok_def)
    show "set l = {x. ((df_state st)(a := 1)) x = 2}" using l(1) a by auto
  qed (use idx w in blast)+
qed

lemma dfs_ok_leave:
  assumes ok: "dfs_ok adj st" and s: "df_stack st = s @ [a]"
    and done_: "\<forall>d \<in> set (adj a). df_state st d = 2"
  shows "dfs_ok adj (dfs_leave a st)"
proof -
  obtain l where l: "set l = {x. df_state st x = 2}" "layered adj l" using ok by (auto simp: dfs_ok_def)
  have d: "distinct (s @ [a])" using ok s by (simp add: dfs_ok_def)
  have old: "df_state st x = 1 \<longleftrightarrow> x \<in> set (s @ [a])" for x using ok s unfolding dfs_ok_def by metis
  have st1: "df_stack (dfs_leave a st) = s" "df_state (dfs_leave a st) = (df_state st)(a := 2)"
    "df_index (dfs_leave a st) = (df_index st)(a := 0)"
    by (simp_all add: dfs_leave_def s)
  have lay: "layered adj (l @ [a])"
    unfolding layered_def
  proof (intro allI impI)
    fix i assume i: "i < length (l @ [a])"
    show "set (adj ((l @ [a]) ! i)) \<subseteq> set (take i (l @ [a]))"
    proof (cases "i < length l")
      case True
      with l(2) show ?thesis by (simp add: layered_def nth_append)
    next
      case False
      with i have "i = length l" by simp
      with l(1) done_ show ?thesis by auto
    qed
  qed
  show ?thesis
  proof (rule dfs_okI[OF _ _ _ _ _ _ lay], unfold st1)
    show "distinct s" using d by simp
    show "((df_state st)(a := 2)) x = 1 \<longleftrightarrow> x \<in> set s" for x using old[of x] d by auto
    show "((df_state st)(a := 2)) x \<le> 2" for x using ok by (simp add: dfs_ok_def)
    show "walk adj s" using ok s by (simp add: dfs_ok_def walk_def successively_append_iff)
    show "set (l @ [a]) = {x. ((df_state st)(a := 2)) x = 2}" using l(1) by auto
    fix i assume i: "i < length s"
    then have "s ! i \<noteq> a" using d by (metis distinct_append disjoint_insert(1) list.simps(15) nth_mem
          distinct.simps(2) IntI empty_iff list.set_intros(1))
    moreover have "df_index st ((s @ [a]) ! i) = i"
      using ok s i unfolding dfs_ok_def by (metis length_append_singleton less_SucI)
    ultimately show "((df_index st)(a := 0)) (s ! i) = i" using i by (simp add: nth_append)
  qed
qed

lemma back_edge_closed:
  assumes ok: "dfs_ok adj st" and s: "df_stack st \<noteq> []" and d: "d \<in> set (adj (last (df_stack st)))"
    and one: "df_state st d = 1"
  shows "closed_walk adj (drop (df_index st d) (df_stack st) @ [d])"
proof -
  have "d \<in> set (df_stack st)" using ok one by (simp add: dfs_ok_def)
  then obtain i where i: "i < length (df_stack st)" "df_stack st ! i = d" by (auto simp: in_set_conv_nth)
  then have idx: "df_index st d = i" using ok by (auto simp: dfs_ok_def)
  have ne: "drop i (df_stack st) \<noteq> []" using i by simp
  have "df_stack st = take i (df_stack st) @ drop i (df_stack st)" by simp
  then have "successively (\<lambda>x y. y \<in> set (adj x)) (drop i (df_stack st))"
    using ok unfolding dfs_ok_def walk_def by (metis successively_append_iff)
  moreover have "last (drop i (df_stack st)) = last (df_stack st)" using i by simp
  ultimately have "walk adj (drop i (df_stack st) @ [d])"
    using d ne by (simp add: walk_def successively_append_iff)
  moreover have "hd (drop i (df_stack st)) = d" using i by (simp add: hd_drop_conv_nth)
  moreover have "1 \<le> length (drop i (df_stack st))" using ne by (cases "drop i (df_stack st)") simp_all
  ultimately show ?thesis using ne unfolding closed_walk_def idx by simp
qed

definition dfs_kept :: "dfs \<Rightarrow> dfs \<Rightarrow> bool" where
  "dfs_kept st st' \<longleftrightarrow> df_stack st' = df_stack st \<and> (\<forall>x. df_state st x = 2 \<longrightarrow> df_state st' x = 2)"

lemma visit_correct:
  "visit k adj a st = Some (c, st') \<Longrightarrow> dfs_ok adj st \<Longrightarrow> df_state st a = 0 \<Longrightarrow>
     (df_stack st \<noteq> [] \<Longrightarrow> a \<in> set (adj (last (df_stack st)))) \<Longrightarrow>
     (if c = [] then dfs_ok adj st' \<and> dfs_kept st st' \<and> df_state st' a = 2 else closed_walk adj c)"
  "visit_all k adj ds st = Some (c, st') \<Longrightarrow> dfs_ok adj st \<Longrightarrow> df_stack st \<noteq> [] \<Longrightarrow>
     set ds \<subseteq> set (adj (last (df_stack st))) \<Longrightarrow>
     (if c = [] then dfs_ok adj st' \<and> dfs_kept st st' \<and> (\<forall>d \<in> set ds. df_state st' d = 2) else closed_walk adj c)"
proof (induction k adj a st and k adj ds st arbitrary: c st' and c st' rule: visit_visit_all.induct)
  case (1 adj a st)
  then show ?case by simp
next
  case (2 k adj a st)
  let ?st1 = "dfs_enter a st"
  have ok1: "dfs_ok adj ?st1" using 2 by (intro dfs_ok_enter)
  have s1: "df_stack ?st1 = df_stack st @ [a]" by (simp add: dfs_enter_def)
  obtain c1 st1 where v: "visit_all k adj (adj a) ?st1 = Some (c1, st1)"
    using "2.prems"(1) by (auto split: option.splits)
  note ih = "2.IH"[OF v ok1]
  show ?case
  proof (cases "c1 = []")
    case False
    with "2.prems"(1) v ih s1 show ?thesis by simp
  next
    case True
    with ih s1 have r: "dfs_ok adj st1" "dfs_kept ?st1 st1" "\<forall>d \<in> set (adj a). df_state st1 d = 2" by auto
    have res: "c = [] \<and> st' = dfs_leave a st1" using "2.prems"(1) v True by simp
    have stk: "df_stack st1 = df_stack st @ [a]" using r(2) s1 by (simp add: dfs_kept_def)
    have "df_stack (dfs_leave a st1) = df_stack st" by (simp add: dfs_leave_def stk)
    moreover have "df_state (dfs_leave a st1) x = 2" if x: "df_state st x = 2" for x
    proof -
      have "df_state ?st1 x = 2" using x "2.prems"(3) by (auto simp: dfs_enter_def)
      then have "df_state st1 x = 2" using r(2) unfolding dfs_kept_def by blast
      then show ?thesis by (simp add: dfs_leave_def)
    qed
    ultimately have "dfs_kept st (dfs_leave a st1)" by (simp add: dfs_kept_def)
    then show ?thesis using res dfs_ok_leave[OF r(1) stk r(3)] by (simp add: dfs_leave_def)
  qed
next
  case (3 k adj st)
  then show ?case by (simp add: dfs_kept_def)
next
  case (4 k adj d ds st)
  have dn: "d \<in> set (adj (last (df_stack st)))" "set ds \<subseteq> set (adj (last (df_stack st)))"
    using "4.prems"(4) by simp_all
  consider (white) "df_state st d = 0" | (grey) "df_state st d = 1" | (black) "df_state st d = 2"
  proof -
    have "df_state st d \<le> 2" using "4.prems"(2) by (simp add: dfs_ok_def)
    then show ?thesis using that by linarith
  qed
  then show ?case
  proof cases
    case white
    then obtain c1 st1 where v: "visit k adj d st = Some (c1, st1)"
      using "4.prems"(1) by (auto split: option.splits)
    have ih: "if c1 = [] then dfs_ok adj st1 \<and> dfs_kept st st1 \<and> df_state st1 d = 2 else closed_walk adj c1"
      using "4.IH"(1)[OF white v "4.prems"(2) white] dn(1) by simp
    show ?thesis
    proof (cases "c1 = []")
      case False
      with "4.prems"(1) v white ih show ?thesis by simp
    next
      case True
      with ih have r: "dfs_ok adj st1" "dfs_kept st st1" "df_state st1 d = 2" by simp_all
      have v2: "visit_all k adj ds st1 = Some (c, st')" using "4.prems"(1) v white True by simp
      have "df_stack st1 = df_stack st" using r(2) by (simp add: dfs_kept_def)
      then have "if c = [] then dfs_ok adj st' \<and> dfs_kept st1 st' \<and> (\<forall>d \<in> set ds. df_state st' d = 2)
          else closed_walk adj c"
        using "4.IH"(2)[OF white v _ _ v2 r(1)] True "4.prems"(3) dn(2) by simp
      then show ?thesis using r by (auto simp: dfs_kept_def split: if_splits)
    qed
  next
    case grey
    with "4.prems" dn back_edge_closed[OF "4.prems"(2,3) dn(1) grey] show ?thesis by auto
  next
    case black
    then have "visit_all k adj ds st = Some (c, st')" using "4.prems"(1) by simp
    from "4.IH"(3)[OF _ _ this "4.prems"(2,3) dn(2)] black
    show ?thesis by (auto simp: dfs_kept_def split: if_splits)
  qed
qed

subsection \<open>The recursion bound\<close>

lemma visit_marks:
  "visit k adj a st = Some (c, st') \<Longrightarrow> df_state st x \<noteq> 0 \<Longrightarrow> df_state st' x \<noteq> 0"
  "visit_all k adj ds st = Some (c, st') \<Longrightarrow> df_state st x \<noteq> 0 \<Longrightarrow> df_state st' x \<noteq> 0"
proof (induction k adj a st and k adj ds st arbitrary: c st' and c st' rule: visit_visit_all.induct)
  case (2 k adj a st)
  then obtain c1 st1 where v: "visit_all k adj (adj a) (dfs_enter a st) = Some (c1, st1)"
    by (auto split: option.splits)
  have "df_state (dfs_enter a st) x \<noteq> 0" using "2.prems"(2) by (simp add: dfs_enter_def)
  then have "df_state st1 x \<noteq> 0" using "2.IH"[OF v] by blast
  with "2.prems" v show ?case by (auto simp: dfs_leave_def split: if_splits)
next
  case (4 k adj d ds st)
  show ?case
  proof (cases "df_state st d = 0")
    case True
    then obtain c1 st1 where v: "visit k adj d st = Some (c1, st1)"
      using "4.prems"(1) by (auto split: option.splits)
    note m = "4.IH"(1)[OF True v "4.prems"(2)]
    show ?thesis
    proof (cases "c1 = []")
      case False
      with "4.prems" v True m show ?thesis by auto
    next
      case t: True
      with "4.prems"(1) v True have "visit_all k adj ds st1 = Some (c, st')" by simp
      from "4.IH"(2)[OF True v _ _ this m] t show ?thesis by simp
    qed
  next
    case False
    with "4.IH"(3)[OF False] "4.prems" show ?thesis by (auto split: if_splits)
  qed
qed simp_all

lemma white_card_le:
  assumes "finite u" and "\<And>x. df_state st x \<noteq> 0 \<Longrightarrow> df_state st' x \<noteq> 0"
  shows "card {x \<in> u. df_state st' x = 0} \<le> card {x \<in> u. df_state st x = 0}"
proof (rule card_mono)
  show "finite {x \<in> u. df_state st x = 0}" using assms(1) by simp
  show "{x \<in> u. df_state st' x = 0} \<subseteq> {x \<in> u. df_state st x = 0}" using assms(2) by blast
qed

lemma visit_answers:
  "finite u \<Longrightarrow> (\<And>x. x \<in> u \<Longrightarrow> set (adj x) \<subseteq> u) \<Longrightarrow> a \<in> u \<Longrightarrow> df_state st a = 0 \<Longrightarrow>
     card {x \<in> u. df_state st x = 0} \<le> k \<Longrightarrow> \<exists>r. visit k adj a st = Some r"
  "finite u \<Longrightarrow> (\<And>x. x \<in> u \<Longrightarrow> set (adj x) \<subseteq> u) \<Longrightarrow> set ds \<subseteq> u \<Longrightarrow>
     card {x \<in> u. df_state st x = 0} \<le> k \<Longrightarrow> \<exists>r. visit_all k adj ds st = Some r"
proof (induction k adj a st and k adj ds st rule: visit_visit_all.induct)
  case (1 adj a st)
  then have "a \<in> {x \<in> u. df_state st x = 0}" by simp
  then have "0 < card {x \<in> u. df_state st x = 0}"
    using "1.prems"(1) by (auto simp: card_gt_0_iff)
  with "1.prems"(5) show ?case by simp
next
  case (2 k adj a st)
  have "{x \<in> u. df_state (dfs_enter a st) x = 0} = {x \<in> u. df_state st x = 0} - {a}"
    by (auto simp: dfs_enter_def)
  moreover have "a \<in> {x \<in> u. df_state st x = 0}" using "2.prems" by simp
  ultimately have "card {x \<in> u. df_state (dfs_enter a st) x = 0} \<le> k"
    using "2.prems"(1,5) by (simp add: card_Diff_singleton)
  then obtain c st1 where "visit_all k adj (adj a) (dfs_enter a st) = Some (c, st1)"
    using "2.IH"[OF "2.prems"(1,2) "2.prems"(2)[OF "2.prems"(3)]] by auto
  then show ?case by simp
next
  case (4 k adj d ds st)
  have du: "d \<in> u" "set ds \<subseteq> u" using "4.prems"(3) by simp_all
  show ?case
  proof (cases "df_state st d = 0")
    case False
    then show ?thesis using "4.IH"(3)[OF False _ "4.prems"(1,2) du(2) "4.prems"(4)] by auto
  next
    case True
    obtain c st1 where v: "visit k adj d st = Some (c, st1)"
      using "4.IH"(1)[OF True "4.prems"(1,2) du(1) True "4.prems"(4)] by auto
    show ?thesis
    proof (cases "c = []")
      case False
      with True v show ?thesis by simp
    next
      case c: True
      have "card {x \<in> u. df_state st1 x = 0} \<le> k"
        using white_card_le[OF "4.prems"(1), of st st1] visit_marks(1)[OF v] "4.prems"(4) by simp
      from "4.IH"(2)[OF True v _ _ "4.prems"(1,2) du(2) this] c True v show ?thesis by auto
    qed
  qed
qed simp

subsection \<open>The search\<close>

lemma visit_roots_correct:
  "visit_roots k adj roots st = Some c \<Longrightarrow> dfs_ok adj st \<Longrightarrow> df_stack st = [] \<Longrightarrow>
   (if c = [] then \<exists>st'. dfs_ok adj st' \<and> (\<forall>x. df_state st x = 2 \<longrightarrow> df_state st' x = 2) \<and>
      (\<forall>a \<in> set roots. df_state st' a = 2) else closed_walk adj c)"
proof (induction roots arbitrary: st)
  case Nil
  then show ?case by auto
next
  case (Cons a roots)
  show ?case
  proof (cases "df_state st a = 0")
    case True
    then obtain c1 st1 where v: "visit k adj a st = Some (c1, st1)"
      using Cons.prems(1) by (auto split: option.splits)
    have ih: "if c1 = [] then dfs_ok adj st1 \<and> dfs_kept st st1 \<and> df_state st1 a = 2 else closed_walk adj c1"
      using visit_correct(1)[OF v Cons.prems(2) True] Cons.prems(3) by simp
    show ?thesis
    proof (cases "c1 = []")
      case False
      with Cons.prems(1) v True ih show ?thesis by auto
    next
      case t: True
      with ih have r: "dfs_ok adj st1" "dfs_kept st st1" "df_state st1 a = 2" by simp_all
      have "visit_roots k adj roots st1 = Some c" using Cons.prems(1) v True t by simp
      from Cons.IH[OF this r(1)] r Cons.prems(3) show ?thesis by (fastforce simp: dfs_kept_def)
    qed
  next
    case False
    have "df_state st a \<noteq> 1" using Cons.prems(2,3) by (simp add: dfs_ok_def)
    moreover have "df_state st a \<le> 2" using Cons.prems(2) by (simp add: dfs_ok_def)
    ultimately have two: "df_state st a = 2" using False by simp
    have "visit_roots k adj roots st = Some c" using Cons.prems(1) False by simp
    from Cons.IH[OF this Cons.prems(2,3)] two show ?thesis by (auto split: if_splits)
  qed
qed

lemma visit_roots_answers:
  "finite u \<Longrightarrow> (\<And>x. x \<in> u \<Longrightarrow> set (adj x) \<subseteq> u) \<Longrightarrow> set roots \<subseteq> u \<Longrightarrow> card u \<le> k \<Longrightarrow>
   \<exists>c. visit_roots k adj roots st = Some c"
proof (induction roots arbitrary: st)
  case (Cons a roots)
  show ?case
  proof (cases "df_state st a = 0")
    case True
    have "card {x \<in> u. df_state st x = 0} \<le> card u" using Cons.prems(1) by (intro card_mono) auto
    then have "\<exists>r. visit k adj a st = Some r"
      using True Cons.prems by (intro visit_answers(1)[where u = u]) simp_all
    then obtain c st1 where v: "visit k adj a st = Some (c, st1)" by auto
    with True Cons show ?thesis by simp
  next
    case False
    with Cons show ?thesis by simp
  qed
qed simp

lemma append_unique_set [simp]: "set (append_unique vs v) = insert v (set vs)"
  by (auto simp: append_unique_def)

lemma adjacency_fold:
  "set (fold (\<lambda>e acc. if eg_from e = a then append_unique acc (eg_to e) else acc) es acc) =
   set acc \<union> {eg_to e | e. e \<in> set es \<and> eg_from e = a}"
  by (induction es arbitrary: acc) auto

lemma set_adjacency: "set (adjacency es a) = {eg_to e | e. e \<in> set es \<and> eg_from e = a}"
  by (simp add: adjacency_def adjacency_fold)

definition edge_rel :: "dep_edge list \<Rightarrow> (string \<times> string) set" where
  "edge_rel es = (\<lambda>e. (eg_from e, eg_to e)) ` set es"

lemma adjacency_rel: "d \<in> set (adjacency es a) \<longleftrightarrow> (a, d) \<in> edge_rel es"
  by (auto simp: set_adjacency edge_rel_def)

lemma layered_acyclic:
  assumes l: "layered adj l" and r: "\<And>x y. (x, y) \<in> r \<Longrightarrow> x \<in> set l \<and> y \<in> set (adj x)"
  shows "acyclic r"
proof (rule acyclicI_order)
  let ?f = "\<lambda>x. LEAST i. i < length l \<and> l ! i = x"
  fix x y assume xy: "(x, y) \<in> r"
  then have x: "x \<in> set l" "y \<in> set (adj x)" using r by blast+
  then have ex: "\<exists>i. i < length l \<and> l ! i = x" by (auto simp: in_set_conv_nth)
  have i: "?f x < length l \<and> l ! ?f x = x" using ex by (rule LeastI_ex)
  then have "y \<in> set (take (?f x) l)" using l x(2) unfolding layered_def by fastforce
  then obtain j where j: "j < ?f x" "l ! j = y" using i by (auto simp: in_set_conv_nth)
  then have "?f y \<le> j" using i by (intro Least_le) simp
  with j(1) show "?f y < ?f x" by simp
qed

lemma closed_walk_not_acyclic:
  assumes c: "closed_walk (adjacency es) c"
  shows "\<not> acyclic (edge_rel es)"
proof -
  have "(hd c, last c) \<in> (edge_rel es)\<^sup>*" if "walk (adjacency es) c" "c \<noteq> []" for c
    using that
  proof (induction c rule: induct_list012)
    case (3 x y zs)
    then have "(x, y) \<in> edge_rel es" "(y, last (y # zs)) \<in> (edge_rel es)\<^sup>*"
      by (auto simp: walk_def adjacency_rel)
    then show ?case by (simp add: converse_rtrancl_into_rtrancl)
  qed simp_all
  note path = this
  obtain x y zs where xs: "c = x # y # zs"
  proof (cases c)
    case Nil
    with c show ?thesis by (simp add: closed_walk_def)
  next
    case (Cons x ys)
    with c that show ?thesis by (cases ys) (auto simp: closed_walk_def)
  qed
  have "walk (adjacency es) (y # zs)" "(x, y) \<in> edge_rel es"
    using c xs by (auto simp: closed_walk_def walk_def adjacency_rel)
  moreover from this path[of "y # zs"] have "(y, last (y # zs)) \<in> (edge_rel es)\<^sup>*" by simp
  moreover have "last (y # zs) = x" using c xs by (simp add: closed_walk_def)
  ultimately have "(x, x) \<in> (edge_rel es)\<^sup>+" by (metis rtrancl_into_trancl2)
  then show ?thesis by (auto simp: acyclic_def)
qed

text \<open>The search answers, and its answer decides acyclicity.\<close>

lemma find_cycle_correct:
  assumes ends: "\<And>e. e \<in> set es \<Longrightarrow> eg_from e \<in> nd_agent_id ` set nodes \<and> eg_to e \<in> nd_agent_id ` set nodes"
  shows "\<exists>c. find_cycle nodes es = Some c \<and> (c = [] \<longleftrightarrow> acyclic (edge_rel es)) \<and>
    (c \<noteq> [] \<longrightarrow> closed_walk (adjacency es) c)"
proof -
  let ?u = "set (map nd_agent_id nodes)"
  have "card ?u \<le> length nodes" using card_length[of "map nd_agent_id nodes"] by simp
  moreover have "set (adjacency es x) \<subseteq> ?u" for x using ends by (auto simp: set_adjacency)
  ultimately obtain c where c: "find_cycle nodes es = Some c"
    using visit_roots_answers[of ?u "adjacency es" "map nd_agent_id nodes" "length nodes" dfs_start]
    by (auto simp: find_cycle_def)
  have r: "if c = [] then \<exists>st'. dfs_ok (adjacency es) st' \<and> (\<forall>x. df_state dfs_start x = 2 \<longrightarrow> df_state st' x = 2) \<and>
      (\<forall>a \<in> ?u. df_state st' a = 2) else closed_walk (adjacency es) c"
    using c unfolding find_cycle_def by (rule visit_roots_correct[OF _ dfs_ok_start]) (simp add: dfs_start_def)
  have "acyclic (edge_rel es)" if "c = []"
  proof -
    from r that obtain st' where st: "dfs_ok (adjacency es) st'" "\<forall>a \<in> ?u. df_state st' a = 2" by auto
    from st(1) obtain l where l: "set l = {a. df_state st' a = 2}" "layered (adjacency es) l"
      unfolding dfs_ok_def by blast
    show ?thesis
    proof (rule layered_acyclic[OF l(2)])
      fix x y assume "(x, y) \<in> edge_rel es"
      moreover from this have "x \<in> ?u" using ends by (auto simp: edge_rel_def)
      ultimately show "x \<in> set l \<and> y \<in> set (adjacency es x)" using st(2) l(1) by (auto simp: adjacency_rel)
    qed
  qed
  with r c closed_walk_not_acyclic show ?thesis by (auto split: if_splits)
qed

end
