(* ===== verification/DepPlanProps.thy ===== *)
theory DepPlanProps
  imports DepCycle
begin

text \<open>
  What \<open>NewPlan\<close> promises: its result is a canonical acyclic plan, a canonical plan is a fixed
  point (so plans survive \<open>Marshal\<close> and \<open>ParsePlan\<close>), and it only reports a cycle that exists.
\<close>

definition node_ok :: "dep_node \<Rightarrow> bool" where
  "node_ok n \<longleftrightarrow> trim_space (nd_agent_id n) = nd_agent_id n \<and> nd_agent_id n \<noteq> [] \<and> 0 < nd_revision n"

definition edge_ok :: "string list \<Rightarrow> dep_edge \<Rightarrow> bool" where
  "edge_ok ids e \<longleftrightarrow> trim_edge e = e \<and> eg_from e \<in> set ids \<and> eg_to e \<in> set ids \<and> eg_from e \<noteq> eg_to e \<and>
     (eg_kind e = edge_relay_layer \<or> eg_kind e = edge_egress_executor)"

definition plan_ok :: "dep_plan \<Rightarrow> bool" where
  "plan_ok p \<longleftrightarrow> pl_version p = 1 \<and> trim_space (pl_operation_id p) = pl_operation_id p \<and>
     pl_operation_id p \<noteq> [] \<and> (pl_action p = action_apply \<or> pl_action p = action_delete) \<and>
     pl_nodes p \<noteq> [] \<and> sorted (map nd_agent_id (pl_nodes p)) \<and> distinct (map nd_agent_id (pl_nodes p)) \<and>
     list_all node_ok (pl_nodes p) \<and> sorted (map edge_rank (pl_edges p)) \<and>
     distinct (map edge_key (pl_edges p)) \<and> list_all (edge_ok (map nd_agent_id (pl_nodes p))) (pl_edges p) \<and>
     acyclic (edge_rel (pl_edges p))"

lemma trim_edge_idem [simp]: "trim_edge (trim_edge e) = trim_edge e"
  by (simp add: trim_edge_def)

lemma canonical_nodes_ok:
  "canonical_nodes ns known = Inr ns' \<Longrightarrow>
   list_all node_ok ns' \<and> distinct (map nd_agent_id ns') \<and> set (map nd_agent_id ns') \<inter> set known = {}"
proof (induction ns arbitrary: known ns')
  case (Cons n ns)
  let ?a = "trim_space (nd_agent_id n)"
  from Cons.prems obtain ns1 where k: "canonical_nodes ns (?a # known) = Inr ns1"
      "ns' = n\<lparr>nd_agent_id := ?a\<rparr> # ns1" "?a \<noteq> []" "0 < nd_revision n" "?a \<notin> set known"
    by (auto simp: Let_def tx_bind_Inr_iff split: if_splits)
  from Cons.IH[OF k(1)] k(3-5) show ?case unfolding k(2) by (simp add: node_ok_def)
qed simp

lemma canonical_nodes_id:
  "list_all node_ok ns \<Longrightarrow> distinct (map nd_agent_id ns) \<Longrightarrow> set (map nd_agent_id ns) \<inter> set known = {} \<Longrightarrow>
   canonical_nodes ns known = Inr ns"
proof (induction ns known rule: canonical_nodes.induct)
  case (2 n ns known)
  have ok: "trim_space (nd_agent_id n) = nd_agent_id n" "nd_agent_id n \<noteq> []" "0 < nd_revision n"
    "nd_agent_id n \<notin> set known"
    using "2.prems" by (auto simp: node_ok_def)
  have "canonical_nodes ns (nd_agent_id n # known) = Inr ns"
    using "2.IH"[of "nd_agent_id n"] "2.prems" ok by auto
  then show ?case using ok by (simp add: Let_def)
qed simp

lemma canonical_edges_step:
  assumes "canonical_edges known (e0 # es) seen = Inr es'"
  shows "(canonical_edges known es seen = Inr es') \<or>
    (\<exists>es1. canonical_edges known es (edge_key (trim_edge e0) # seen) = Inr es1 \<and>
       es' = trim_edge e0 # es1 \<and> edge_ok known (trim_edge e0) \<and> edge_key (trim_edge e0) \<notin> set seen)"
  using assms by (auto simp: Let_def tx_bind_Inr_iff edge_ok_def split: if_splits)

lemma canonical_edges_ok:
  "canonical_edges known es seen = Inr es' \<Longrightarrow>
   list_all (edge_ok known) es' \<and> distinct (map edge_key es') \<and> set (map edge_key es') \<inter> set seen = {}"
proof (induction es arbitrary: seen es')
  case (Cons e0 es)
  from canonical_edges_step[OF Cons.prems] show ?case
  proof (elim disjE exE conjE)
    fix es1 assume k: "canonical_edges known es (edge_key (trim_edge e0) # seen) = Inr es1"
      "es' = trim_edge e0 # es1" "edge_ok known (trim_edge e0)" "edge_key (trim_edge e0) \<notin> set seen"
    from Cons.IH[OF k(1)] k show ?thesis by auto
  qed (rule Cons.IH)
qed simp

lemma canonical_edges_id:
  "list_all (edge_ok known) es \<Longrightarrow> [] \<notin> set known \<Longrightarrow> distinct (map edge_key es) \<Longrightarrow>
   set (map edge_key es) \<inter> set seen = {} \<Longrightarrow> canonical_edges known es seen = Inr es"
proof (induction es arbitrary: seen)
  case (Cons e es)
  have e: "edge_ok known e" "edge_key e \<notin> set seen" using Cons.prems by auto
  then have "eg_from e \<noteq> [] \<and> eg_to e \<noteq> [] \<and> eg_kind e \<noteq> []"
    using Cons.prems(2) by (auto simp: edge_ok_def edge_relay_layer_def edge_egress_executor_def)
  moreover have "canonical_edges known es (edge_key e # seen) = Inr es"
    using Cons.IH[of "edge_key e # seen"] Cons.prems by auto
  ultimately show ?case using e by (auto simp: edge_ok_def Let_def)
qed simp

lemma edge_ok_set: "set ids = set ids' \<Longrightarrow> edge_ok ids = edge_ok ids'"
  by (rule ext) (simp add: edge_ok_def)

lemma edge_rel_set: "set es = set es' \<Longrightarrow> edge_rel es = edge_rel es'"
  by (simp add: edge_rel_def)

lemma list_all_set: "set xs = set ys \<Longrightarrow> list_all P xs = list_all P ys"
  by (simp add: list_all_iff)

lemma distinct_map_sort: "distinct (map f (sort_key g xs)) \<longleftrightarrow> distinct (map f xs)"
  by (rule mset_eq_imp_distinct_iff) simp

lemma canonical_nodes_error: "canonical_nodes ns known = Inl e \<Longrightarrow> e = DInvalidPlan"
  by (induction ns known rule: canonical_nodes.induct) (auto simp: Let_def tx_bind_Inl_iff split: if_splits)

lemma canonical_edges_error:
  "canonical_edges known es seen = Inl e \<Longrightarrow> e = DInvalidPlan \<or> e = DMissingDependency"
proof (induction es arbitrary: seen)
  case (Cons e0 es)
  show ?case
    using Cons.prems Cons.IH by (auto simp: Let_def tx_bind_Inl_iff split: if_splits)
qed simp

text \<open>
  What \<open>NewPlan\<close> returns once its input is valid: the search answers, so the bound of the search
  is never the reason of an error.
\<close>

lemma new_plan_cases:
  assumes "new_plan w action nodes es = r" and "r \<noteq> Inl DInvalidPlan" and "r \<noteq> Inl DMissingDependency"
  obtains ns0 es0 c where "trim_space w \<noteq> []" "action = action_apply \<or> action = action_delete"
    "canonical_nodes nodes [] = Inr ns0" "ns0 \<noteq> []" "canonical_edges (map nd_agent_id ns0) es [] = Inr es0"
    "c = [] \<longleftrightarrow> acyclic (edge_rel es0)" "c \<noteq> [] \<Longrightarrow> closed_walk (adjacency (sort_key edge_rank es0)) c"
    "r = (if c = [] then Inr \<lparr>pl_version = 1, pl_operation_id = trim_space w, pl_action = action,
                       pl_nodes = sort_key nd_agent_id ns0, pl_edges = sort_key edge_rank es0\<rparr>
          else Inl (DCycle c))"
proof -
  have head: "trim_space w \<noteq> []" "action = action_apply \<or> action = action_delete"
    using assms by (auto simp: new_plan_def Let_def split: if_splits)
  obtain ns0 where ns: "canonical_nodes nodes [] = Inr ns0"
  proof (cases "canonical_nodes nodes []")
    case (Inl e)
    with canonical_nodes_error[OF Inl] assms head show ?thesis by (auto simp: new_plan_def Let_def)
  qed
  with assms head have ne: "ns0 \<noteq> []" by (auto simp: new_plan_def Let_def)
  obtain es0 where es: "canonical_edges (map nd_agent_id ns0) es [] = Inr es0"
  proof (cases "canonical_edges (map nd_agent_id ns0) es []")
    case (Inl e)
    with canonical_edges_error[OF Inl] assms head ns ne show ?thesis by (auto simp: new_plan_def Let_def)
  qed
  have "\<exists>c. find_cycle (sort_key nd_agent_id ns0) (sort_key edge_rank es0) = Some c \<and>
    (c = [] \<longleftrightarrow> acyclic (edge_rel (sort_key edge_rank es0))) \<and>
    (c \<noteq> [] \<longrightarrow> closed_walk (adjacency (sort_key edge_rank es0)) c)"
    using canonical_edges_ok[OF es] by (intro find_cycle_correct) (auto simp: list_all_iff edge_ok_def)
  then obtain c where c: "find_cycle (sort_key nd_agent_id ns0) (sort_key edge_rank es0) = Some c"
    "c = [] \<longleftrightarrow> acyclic (edge_rel es0)" "c \<noteq> [] \<Longrightarrow> closed_walk (adjacency (sort_key edge_rank es0)) c"
    using edge_rel_set[of "sort_key edge_rank es0" es0] by auto
  moreover have "r = (if c = [] then Inr \<lparr>pl_version = 1, pl_operation_id = trim_space w, pl_action = action,
                       pl_nodes = sort_key nd_agent_id ns0, pl_edges = sort_key edge_rank es0\<rparr>
          else Inl (DCycle c))"
    using assms(1) head ns ne es c(1) by (cases c) (auto simp: new_plan_def Let_def)
  ultimately show ?thesis using that[OF head ns ne es] by blast
qed

lemma new_plan_ok:
  assumes "new_plan w action nodes es = Inr p"
  shows "plan_ok p"
proof -
  obtain ns0 es0 c where parts: "trim_space w \<noteq> []" "action = action_apply \<or> action = action_delete"
    "canonical_nodes nodes [] = Inr ns0" "ns0 \<noteq> []" "canonical_edges (map nd_agent_id ns0) es [] = Inr es0"
    "c = [] \<longleftrightarrow> acyclic (edge_rel es0)"
    and p: "Inr p = (if c = [] then Inr \<lparr>pl_version = 1, pl_operation_id = trim_space w, pl_action = action,
                       pl_nodes = sort_key nd_agent_id ns0, pl_edges = sort_key edge_rank es0\<rparr>
          else Inl (DCycle c))"
    using assms by (rule new_plan_cases) auto
  note n = canonical_nodes_ok[OF parts(3)] and e = canonical_edges_ok[OF parts(5)]
  have q: "p = \<lparr>pl_version = 1, pl_operation_id = trim_space w, pl_action = action,
       pl_nodes = sort_key nd_agent_id ns0, pl_edges = sort_key edge_rank es0\<rparr>" "c = []"
    using p by (simp_all split: if_splits)
  have "acyclic (edge_rel (sort_key edge_rank es0))"
    using parts(6) q(2) edge_rel_set[of "sort_key edge_rank es0" es0] by simp
  moreover have "list_all (edge_ok (map nd_agent_id (sort_key nd_agent_id ns0))) (sort_key edge_rank es0)"
    using e list_all_set[of "sort_key edge_rank es0" es0]
      edge_ok_set[of "map nd_agent_id (sort_key nd_agent_id ns0)" "map nd_agent_id ns0"] by simp
  moreover have "list_all node_ok (sort_key nd_agent_id ns0)"
    using n list_all_set[of "sort_key nd_agent_id ns0" ns0] by simp
  moreover have "sort_key nd_agent_id ns0 \<noteq> []" using parts(4) by (metis length_0_conv length_sort)
  ultimately show ?thesis
    using n e parts(1,2) by (simp add: plan_ok_def q(1) distinct_map_sort)
qed

lemma plan_fixed:
  assumes "plan_ok p"
  shows "canonical_plan p = Inr p"
proof -
  have ids: "[] \<notin> set (map nd_agent_id (pl_nodes p))"
    using assms by (auto simp: plan_ok_def node_ok_def list_all_iff)
  have n: "canonical_nodes (pl_nodes p) [] = Inr (pl_nodes p)"
    using assms by (intro canonical_nodes_id) (simp_all add: plan_ok_def)
  have e: "canonical_edges (map nd_agent_id (pl_nodes p)) (pl_edges p) [] = Inr (pl_edges p)"
    using assms ids by (intro canonical_edges_id) (simp_all add: plan_ok_def)
  have "\<exists>c. find_cycle (pl_nodes p) (pl_edges p) = Some c \<and> (c = [] \<longleftrightarrow> acyclic (edge_rel (pl_edges p))) \<and>
    (c \<noteq> [] \<longrightarrow> closed_walk (adjacency (pl_edges p)) c)"
    using assms by (intro find_cycle_correct) (auto simp: plan_ok_def list_all_iff edge_ok_def)
  then have "find_cycle (pl_nodes p) (pl_edges p) = Some []" using assms by (auto simp: plan_ok_def)
  then show ?thesis
    using assms n e by (simp add: canonical_plan_def new_plan_def Let_def plan_ok_def sort_key_id_if_sorted)
qed

subsection \<open>Inputs and results\<close>

definition trim_node :: "dep_node \<Rightarrow> dep_node" where
  "trim_node n = n\<lparr>nd_agent_id := trim_space (nd_agent_id n)\<rparr>"

text \<open>The edges that constrain the order: self references are dropped.\<close>

definition links :: "dep_edge list \<Rightarrow> dep_edge list" where
  "links es = filter (\<lambda>e. eg_from e \<noteq> eg_to e) (map trim_edge es)"

definition plan_input_ok :: "string \<Rightarrow> string \<Rightarrow> dep_node list \<Rightarrow> dep_edge list \<Rightarrow> bool" where
  "plan_input_ok w action ns es \<longleftrightarrow> trim_space w \<noteq> [] \<and> (action = action_apply \<or> action = action_delete) \<and>
     ns \<noteq> [] \<and> list_all node_ok (map trim_node ns) \<and> distinct (map nd_agent_id (map trim_node ns)) \<and>
     list_all (\<lambda>e. eg_from e \<in> nd_agent_id ` set (map trim_node ns) \<and>
        eg_to e \<in> nd_agent_id ` set (map trim_node ns) \<and>
        (eg_kind e = edge_relay_layer \<or> eg_kind e = edge_egress_executor)) (map trim_edge es)"

lemma canonical_nodes_map: "canonical_nodes ns known = Inr ns' \<Longrightarrow> ns' = map trim_node ns"
proof (induction ns known arbitrary: ns' rule: canonical_nodes.induct)
  case (2 n ns known)
  then show ?case by (auto simp: Let_def tx_bind_Inr_iff trim_node_def split: if_splits)
qed simp

lemma canonical_nodes_total:
  "list_all node_ok (map trim_node ns) \<Longrightarrow> distinct (map nd_agent_id (map trim_node ns)) \<Longrightarrow>
   set (map nd_agent_id (map trim_node ns)) \<inter> set known = {} \<Longrightarrow>
   canonical_nodes ns known = Inr (map trim_node ns)"
proof (induction ns known rule: canonical_nodes.induct)
  case (2 n ns known)
  let ?a = "trim_space (nd_agent_id n)"
  have ok: "?a \<noteq> []" "0 < nd_revision n" "?a \<notin> set known"
    using "2.prems" by (auto simp: node_ok_def trim_node_def)
  have "canonical_nodes ns (?a # known) = Inr (map trim_node ns)"
    using "2.IH"[of ?a] "2.prems" ok by (auto simp: trim_node_def)
  then show ?case using ok by (simp add: Let_def trim_node_def)
qed simp

definition edge_input_ok :: "string list \<Rightarrow> dep_edge \<Rightarrow> bool" where
  "edge_input_ok ids e \<longleftrightarrow> eg_from e \<in> set ids \<and> eg_to e \<in> set ids \<and>
     (eg_kind e = edge_relay_layer \<or> eg_kind e = edge_egress_executor)"

lemma canonical_edges_iff:
  assumes "[] \<notin> set known"
  shows "(\<exists>es'. canonical_edges known es seen = Inr es') \<longleftrightarrow> list_all (edge_input_ok known) (map trim_edge es)"
proof (induction es arbitrary: seen)
  case (Cons e0 es)
  let ?e = "trim_edge e0"
  show ?case
  proof (cases "edge_input_ok known ?e")
    case True
    then have "eg_from ?e \<noteq> [] \<and> eg_to ?e \<noteq> [] \<and> eg_kind ?e \<noteq> []"
      using assms by (auto simp: edge_input_ok_def edge_relay_layer_def edge_egress_executor_def)
    with True Cons.IH show ?thesis by (auto simp: Let_def tx_bind_Inr_iff edge_input_ok_def)
  next
    case False
    then show ?thesis by (auto simp: Let_def edge_input_ok_def split: if_splits)
  qed
qed simp

lemma links_Cons:
  "links (e # es) = (if eg_from (trim_edge e) = eg_to (trim_edge e) then links es else trim_edge e # links es)"
  by (simp add: links_def)

lemma canonical_edges_keys:
  "canonical_edges known es seen = Inr es' \<Longrightarrow>
   set es' \<subseteq> set (links es) \<and> edge_key ` set (links es) \<subseteq> edge_key ` set es' \<union> set seen"
proof (induction es arbitrary: seen es')
  case Nil
  then show ?case by (simp add: links_def)
next
  case (Cons e0 es)
  let ?e = "trim_edge e0"
  consider (self) "eg_from ?e = eg_to ?e" "canonical_edges known es seen = Inr es'"
    | (again) "eg_from ?e \<noteq> eg_to ?e" "edge_key ?e \<in> set seen" "canonical_edges known es seen = Inr es'"
    | (fresh) es1 where "eg_from ?e \<noteq> eg_to ?e" "canonical_edges known es (edge_key ?e # seen) = Inr es1"
        "es' = ?e # es1"
    using Cons.prems by (auto simp: Let_def tx_bind_Inr_iff split: if_splits)
  then show ?case
  proof cases
    case self
    with Cons.IH[OF self(2)] show ?thesis by (simp add: links_Cons)
  next
    case again
    with Cons.IH[OF again(3)] show ?thesis by (auto simp: links_Cons)
  next
    case fresh
    with Cons.IH[OF fresh(2)] show ?thesis by (auto simp: links_Cons)
  qed
qed

text \<open>Keys of edges tell the agents apart as long as no agent id contains the separator.\<close>

definition no_nul :: "string \<Rightarrow> bool" where
  "no_nul s \<longleftrightarrow> CHR 0x00 \<notin> set s"

lemma split_nul: "no_nul a \<Longrightarrow> no_nul b \<Longrightarrow> a @ CHR 0x00 # s = b @ CHR 0x00 # t \<Longrightarrow> a = b \<and> s = t"
  unfolding no_nul_def
proof (induction a arbitrary: b)
  case Nil
  then show ?case by (cases b) auto
next
  case (Cons x a)
  then show ?case by (cases b) auto
qed

lemma edge_key_ends:
  assumes "edge_key e = edge_key f" and "no_nul (eg_from e)" "no_nul (eg_to e)" "no_nul (eg_from f)" "no_nul (eg_to f)"
  shows "eg_from e = eg_from f \<and> eg_to e = eg_to f"
proof -
  have "eg_from e = eg_from f \<and> eg_to e @ CHR 0x00 # eg_kind e @ CHR 0x00 # eg_resource e =
      eg_to f @ CHR 0x00 # eg_kind f @ CHR 0x00 # eg_resource f"
    using assms by (intro split_nul) (simp_all add: edge_key_def)
  with split_nul[OF assms(3) assms(5)] show ?thesis by blast
qed

lemma trim_by_subset: "set (trim_by w s) \<subseteq> set s"
  using trim_by_suffix[of s w] by (metis set_append sup_ge2)

lemma trim_space_subset: "set (trim_space s) \<subseteq> set s"
  unfolding trim_space_def using trim_by_subset by (metis set_rev subset_trans)

lemma canonical_edges_known:
  "canonical_edges known es seen = Inr es' \<Longrightarrow>
   list_all (\<lambda>e. eg_from e \<in> set known \<and> eg_to e \<in> set known) (map trim_edge es)"
proof (induction es arbitrary: seen es')
  case (Cons e0 es)
  then show ?case by (auto simp: Let_def tx_bind_Inr_iff split: if_splits)
qed simp

lemma links_relation:
  assumes ce: "canonical_edges known es [] = Inr es0" and nul: "list_all no_nul known"
  shows "edge_rel es0 = edge_rel (links es)"
proof (rule subset_antisym)
  note k = canonical_edges_keys[OF ce]
  show "edge_rel es0 \<subseteq> edge_rel (links es)" using k by (auto simp: edge_rel_def)
  have known: "eg_from e \<in> set known \<and> eg_to e \<in> set known" if "e \<in> set (links es)" for e
  proof -
    show ?thesis using canonical_edges_known[OF ce] that by (auto simp: links_def list_all_iff)
  qed
  show "edge_rel (links es) \<subseteq> edge_rel es0"
  proof
    fix x assume "x \<in> edge_rel (links es)"
    then obtain e where e: "e \<in> set (links es)" "x = (eg_from e, eg_to e)" by (auto simp: edge_rel_def)
    with k obtain f where f: "f \<in> set es0" "edge_key e = edge_key f" by auto
    with k have "f \<in> set (links es)" by blast
    with known e(1) nul have "no_nul (eg_from e)" "no_nul (eg_to e)" "no_nul (eg_from f)" "no_nul (eg_to f)"
      by (auto simp: list_all_iff)
    with f(2) edge_key_ends have "x = (eg_from f, eg_to f)" using e(2) by metis
    with f(1) show "x \<in> edge_rel es0" by (auto simp: edge_rel_def)
  qed
qed

lemma new_plan_eq:
  assumes "canonical_nodes nodes [] = Inr ns0" and "canonical_edges (map nd_agent_id ns0) es [] = Inr es0"
    and "trim_space w \<noteq> []" "action = action_apply \<or> action = action_delete" "ns0 \<noteq> []"
  shows "(\<exists>p. new_plan w action nodes es = Inr p) \<longleftrightarrow> acyclic (edge_rel es0)"
proof -
  obtain r where r: "new_plan w action nodes es = r" by simp
  have "\<exists>c. find_cycle (sort_key nd_agent_id ns0) (sort_key edge_rank es0) = Some c \<and>
    (c = [] \<longleftrightarrow> acyclic (edge_rel (sort_key edge_rank es0))) \<and>
    (c \<noteq> [] \<longrightarrow> closed_walk (adjacency (sort_key edge_rank es0)) c)"
    using canonical_edges_ok[OF assms(2)] by (intro find_cycle_correct) (auto simp: list_all_iff edge_ok_def)
  then obtain c where c: "find_cycle (sort_key nd_agent_id ns0) (sort_key edge_rank es0) = Some c"
    "c = [] \<longleftrightarrow> acyclic (edge_rel es0)"
    using edge_rel_set[of "sort_key edge_rank es0" es0] by auto
  then show ?thesis using assms by (cases c) (auto simp: new_plan_def Let_def)
qed

definition plan_nodes :: "dep_node list" where
  "plan_nodes = [\<lparr>nd_agent_id = '' edge'', nd_revision = 4\<rparr>, \<lparr>nd_agent_id = ''core'', nd_revision = 7\<rparr>,
     \<lparr>nd_agent_id = ''exit'', nd_revision = 2\<rparr>]"

definition plan_edge :: "string \<Rightarrow> string \<Rightarrow> dep_edge" where
  "plan_edge a b = \<lparr>eg_from = a, eg_to = b, eg_kind = edge_relay_layer, eg_resource = ''http_rule:1''\<rparr>"

definition plan_edges :: "dep_edge list" where
  "plan_edges = [plan_edge ''edge'' ''core'', plan_edge ''core'' ''exit '', plan_edge ''edge'' ''core'',
     plan_edge ''exit'' ''exit'']"

definition sample_plan :: dep_plan where
  "sample_plan = \<lparr>pl_version = 1, pl_operation_id = ''op-1'', pl_action = action_apply,
     pl_nodes = [\<lparr>nd_agent_id = ''core'', nd_revision = 7\<rparr>, \<lparr>nd_agent_id = ''edge'', nd_revision = 4\<rparr>,
       \<lparr>nd_agent_id = ''exit'', nd_revision = 2\<rparr>],
     pl_edges = [plan_edge ''core'' ''exit'', plan_edge ''edge'' ''core'']\<rparr>"

lemma sample_plan_new: "new_plan '' op-1 '' action_apply plan_nodes plan_edges = Inr sample_plan"
  by code_simp

text \<open>
  A plan that \<open>NewPlan\<close> returns is canonical: version 1, a trimmed operation id, agents sorted and
  distinct, edges sorted and without repetition, all between agents of the plan and none from an
  agent to itself; its nodes are the trimmed nodes of the input; every edge is one of the input and
  every input edge has its key in the plan; and the edges have no cycle.\<close>

theorem new_plan_canonical:
  assumes "new_plan w action nodes es = Inr p"
  shows "plan_ok p \<and> pl_operation_id p = trim_space w \<and> pl_action p = action \<and>
    mset (pl_nodes p) = mset (map trim_node nodes) \<and> set (pl_edges p) \<subseteq> set (links es) \<and>
    edge_key ` set (pl_edges p) = edge_key ` set (links es)"
proof -
  obtain ns0 es0 c where k: "canonical_nodes nodes [] = Inr ns0"
      "canonical_edges (map nd_agent_id ns0) es [] = Inr es0"
    and p: "Inr p = (if c = [] then Inr \<lparr>pl_version = 1, pl_operation_id = trim_space w, pl_action = action,
                       pl_nodes = sort_key nd_agent_id ns0, pl_edges = sort_key edge_rank es0\<rparr>
          else Inl (DCycle c))"
    using assms by (rule new_plan_cases) auto
  from p have q: "p = \<lparr>pl_version = 1, pl_operation_id = trim_space w, pl_action = action,
      pl_nodes = sort_key nd_agent_id ns0, pl_edges = sort_key edge_rank es0\<rparr>"
    by (simp split: if_splits)
  have "set es0 \<subseteq> set (links es)" "edge_key ` set es0 = edge_key ` set (links es)"
    using canonical_edges_keys[OF k(2)] by auto
  with new_plan_ok[OF assms] canonical_nodes_map[OF k(1)] show ?thesis by (simp add: q)
qed

lemma new_plan_canonical_witness:
  "plan_ok sample_plan \<and> mset (pl_nodes sample_plan) = mset (map trim_node plan_nodes)"
  using new_plan_canonical[OF sample_plan_new] by blast

lemma new_plan_iff:
  assumes "list_all (\<lambda>n. no_nul (nd_agent_id n)) nodes"
  shows "(\<exists>p. new_plan w action nodes es = Inr p) \<longleftrightarrow>
    plan_input_ok w action nodes es \<and> acyclic (edge_rel (links es))"
proof (cases "plan_input_ok w action nodes es")
  case True
  let ?ns = "map trim_node nodes"
  have ns: "canonical_nodes nodes [] = Inr ?ns" and ids: "[] \<notin> set (map nd_agent_id ?ns)"
    using True by (auto intro!: canonical_nodes_total simp: plan_input_ok_def node_ok_def list_all_iff)
  have "list_all (edge_input_ok (map nd_agent_id ?ns)) (map trim_edge es)"
    using True by (simp add: plan_input_ok_def edge_input_ok_def list_all_iff image_image)
  then obtain es0 where es: "canonical_edges (map nd_agent_id ?ns) es [] = Inr es0"
    using canonical_edges_iff[OF ids, of es "[]"] by auto
  have "list_all no_nul (map nd_agent_id ?ns)"
    using assms trim_space_subset by (force simp: list_all_iff no_nul_def trim_node_def)
  from links_relation[OF es this] new_plan_eq[OF ns es, of w action] True show ?thesis
    by (simp add: plan_input_ok_def)
next
  case False
  have "plan_input_ok w action nodes es" if p: "new_plan w action nodes es = Inr p" for p
  proof -
    obtain ns0 es0 where k: "trim_space w \<noteq> []" "action = action_apply \<or> action = action_delete"
      "canonical_nodes nodes [] = Inr ns0" "ns0 \<noteq> []" "canonical_edges (map nd_agent_id ns0) es [] = Inr es0"
      using p by (rule new_plan_cases) auto
    note n = canonical_nodes_ok[OF k(3)] canonical_nodes_map[OF k(3)]
    have "[] \<notin> set (map nd_agent_id ns0)" using n(1) by (auto simp: list_all_iff node_ok_def)
    then have "list_all (edge_input_ok (map nd_agent_id ns0)) (map trim_edge es)"
      using canonical_edges_iff k(5) by blast
    then show ?thesis using k n by (auto simp: plan_input_ok_def edge_input_ok_def list_all_iff)
  qed
  with False show ?thesis by blast
qed

text \<open>C10.
  \<open>NewPlan\<close> accepts exactly the inputs it should: an operation id, a known action, at least one
  node, agents that are named, distinct and have positive revisions, edges of a known kind between
  agents of the plan, and no cycle among the agents. The condition on the zero byte is what the
  separator of \<open>edgeKey\<close> needs.\<close>

theorem new_plan_accepts:
  assumes "list_all (\<lambda>n. no_nul (nd_agent_id n)) nodes"
  shows "(\<exists>p. new_plan w action nodes es = Inr p) \<longleftrightarrow>
    plan_input_ok w action nodes es \<and> acyclic (edge_rel (links es))"
  using assms by (rule new_plan_iff)

lemma new_plan_accepts_witness:
  "plan_input_ok ''op'' action_delete plan_nodes plan_edges \<and> acyclic (edge_rel (links plan_edges)) \<and>
   list_all (\<lambda>n. no_nul (nd_agent_id n)) plan_nodes"
proof -
  have n: "list_all (\<lambda>n. no_nul (nd_agent_id n)) plan_nodes" by code_simp
  have "new_plan ''op'' action_delete plan_nodes plan_edges =
      Inr (sample_plan\<lparr>pl_operation_id := ''op'', pl_action := action_delete\<rparr>)"
    by code_simp
  with new_plan_accepts[OF n, of "''op''" action_delete plan_edges] n show ?thesis by blast
qed

text \<open>A cycle that \<open>NewPlan\<close> reports is there: the reported agents start and end with the same agent,
  and each depends on the next by an edge of the input; the report is never empty, so the recursion
  bound of the search is never reached.\<close>

theorem plan_cycle_is_real:
  assumes "new_plan w action nodes es = Inl (DCycle c)"
  shows "2 \<le> length c \<and> hd c = last c \<and>
    successively (\<lambda>a b. \<exists>e \<in> set (links es). eg_from e = a \<and> eg_to e = b) c"
proof -
  obtain ns0 es0 c' where k: "canonical_edges (map nd_agent_id ns0) es [] = Inr es0"
      "c' \<noteq> [] \<Longrightarrow> closed_walk (adjacency (sort_key edge_rank es0)) c'"
    and r: "Inl (DCycle c) = (if c' = [] then Inr \<lparr>pl_version = 1, pl_operation_id = trim_space w,
        pl_action = action, pl_nodes = sort_key nd_agent_id ns0, pl_edges = sort_key edge_rank es0\<rparr>
        else Inl (DCycle c'))"
    using assms by (rule new_plan_cases) auto
  then have walk: "closed_walk (adjacency (sort_key edge_rank es0)) c" by (auto split: if_splits)
  have sub: "set es0 \<subseteq> set (links es)" using canonical_edges_keys[OF k(1)] by blast
  have "successively (\<lambda>a b. \<exists>e \<in> set (links es). eg_from e = a \<and> eg_to e = b) c"
    using walk unfolding closed_walk_def walk_def
    by (auto elim!: successively_mono simp: set_adjacency dest!: subsetD[OF sub])
  with walk show ?thesis by (simp add: closed_walk_def)
qed

lemma plan_cycle_is_real_witness:
  "\<exists>c. new_plan ''op'' action_apply plan_nodes (plan_edges @ [plan_edge ''exit'' ''edge'']) = Inl (DCycle c) \<and>
     hd c = last c"
proof -
  have "new_plan ''op'' action_apply plan_nodes (plan_edges @ [plan_edge ''exit'' ''edge'']) =
      Inl (DCycle [''core'', ''exit'', ''edge'', ''core''])"
    by code_simp
  from plan_cycle_is_real[OF this] this show ?thesis by blast
qed

text \<open>C11.
  Plans survive storage: what \<open>Marshal\<close> writes for a plan, \<open>ParsePlan\<close> reads back as the canonical
  form of that plan, and writing the parsed plan again gives the same bytes. The JSON codec is a
  parameter that is assumed to decode the plan it encoded.\<close>

theorem plan_roundtrip:
  assumes codec: "\<And>q. canonical_plan p = Inr q \<Longrightarrow> decode (encode q) = Some q"
    and m: "marshal_plan encode p = Inr payload"
  shows "\<exists>q. canonical_plan p = Inr q \<and> parse_plan decode payload = Inr q \<and> marshal_plan encode q = Inr payload"
proof -
  obtain q where q: "canonical_plan p = Inr q" "payload = encode q"
    using m by (auto simp: marshal_plan_def tx_bind_Inr_iff)
  then have ok: "plan_ok q" unfolding canonical_plan_def by (intro new_plan_ok)
  from plan_fixed[OF this] ok q codec show ?thesis
    by (simp add: parse_plan_def marshal_plan_def plan_ok_def)
qed

definition one_plan_encode :: "dep_plan \<Rightarrow> string" where
  "one_plan_encode q = pl_operation_id q @ [CHR 0x2F] @ pl_action q"

definition one_plan_decode :: "string \<Rightarrow> dep_plan option" where
  "one_plan_decode s = (if s = ''op-1/apply'' then Some sample_plan else None)"

lemma sample_plan_canonical:
  "canonical_plan (sample_plan\<lparr>pl_nodes := plan_nodes, pl_edges := plan_edges\<rparr>) = Inr sample_plan"
  by code_simp

lemma plan_roundtrip_witness:
  "parse_plan one_plan_decode ''op-1/apply'' = Inr sample_plan \<and>
   marshal_plan one_plan_encode (sample_plan\<lparr>pl_nodes := plan_nodes, pl_edges := plan_edges\<rparr>) = Inr ''op-1/apply''"
proof -
  let ?p = "sample_plan\<lparr>pl_nodes := plan_nodes, pl_edges := plan_edges\<rparr>"
  have m: "marshal_plan one_plan_encode ?p = Inr ''op-1/apply''" by code_simp
  have "one_plan_decode (one_plan_encode q) = Some q" if "canonical_plan ?p = Inr q" for q
  proof -
    from that have "q = sample_plan" by (simp add: sample_plan_canonical)
    moreover have "one_plan_decode (one_plan_encode sample_plan) = Some sample_plan" by code_simp
    ultimately show ?thesis by simp
  qed
  from plan_roundtrip[OF this m] m show ?thesis by (auto simp: sample_plan_canonical)
qed

end
