(* ===== verification/DepEval.thy ===== *)
theory DepEval
  imports DepPlanProps "HOL-Library.While_Combinator"
begin

text \<open>
  \<open>Plan.Evaluate\<close> of \<open>dependency/graph.go\<close>: from the states of the agents' revisions it computes
  which nodes may start now (the frontier), which are blocked, and the status of the operation.
  Blocking is propagated by passes over the nodes until nothing changes; the loop is a
  \<open>while_option\<close>, and it is proved to end for every plan.
\<close>

subsection \<open>States\<close>

datatype dep_state = StWaiting | StRunning | StSucceeded | StFailed | StSuperseded | StOther string

datatype dep_status =
  StatusPending | StatusApplying | StatusApplied | StatusFailed | StatusDegraded | StatusSuperseded

record node_result =
  nr_node :: dep_node
  nr_state :: dep_state
  nr_blocked_by :: "string list"

record evaluation =
  ev_status :: dep_status
  ev_frontier :: "dep_node list"
  ev_nodes :: "node_result list"

definition evaluation_result :: "evaluation \<Rightarrow> string \<Rightarrow> node_result option" where
  "evaluation_result e agent0 = find (\<lambda>r. nd_agent_id (nr_node r) = trim_space agent0) (ev_nodes e)"

definition prerequisites :: "dep_plan \<Rightarrow> string \<Rightarrow> string list" where
  "prerequisites p a = sort (fold (\<lambda>e acc.
     if pl_action p = action_delete
     then (if eg_to e = a then append_unique acc (eg_from e) else acc)
     else (if eg_from e = a then append_unique acc (eg_to e) else acc)) (pl_edges p) [])"

text \<open>
  A missing or empty state is waiting; agents outside the plan have no state (\<open>None\<close>, the zero
  value of the map).
\<close>

definition normalized :: "dep_plan \<Rightarrow> (string \<Rightarrow> dep_state option) \<Rightarrow> string \<Rightarrow> dep_state option" where
  "normalized p states a =
     (if a \<in> nd_agent_id ` set (pl_nodes p)
      then Some (case states a of None \<Rightarrow> StWaiting | Some s \<Rightarrow> if s = StOther [] then StWaiting else s)
      else None)"

subsection \<open>Blocking\<close>

record blocking =
  bl_by :: "string \<Rightarrow> string list"
  bl_failure :: "string \<Rightarrow> bool"
  bl_superseded :: "string \<Rightarrow> bool"

definition no_blocking :: blocking where
  "no_blocking = \<lparr>bl_by = (\<lambda>_. []), bl_failure = (\<lambda>_. False), bl_superseded = (\<lambda>_. False)\<rparr>"

definition fails_via :: "(string \<Rightarrow> dep_state option) \<Rightarrow> blocking \<Rightarrow> string \<Rightarrow> bool" where
  "fails_via norm b q \<longleftrightarrow> norm q = Some StFailed \<or> bl_failure b q"

definition superseded_via :: "(string \<Rightarrow> dep_state option) \<Rightarrow> blocking \<Rightarrow> string \<Rightarrow> bool" where
  "superseded_via norm b q \<longleftrightarrow> norm q = Some StSuperseded \<or> bl_superseded b q"

definition next_by :: "(string \<Rightarrow> dep_state option) \<Rightarrow> blocking \<Rightarrow> string list \<Rightarrow> string list" where
  "next_by norm b qs = sort (filter (\<lambda>q. fails_via norm b q \<or> superseded_via norm b q) qs)"

definition settle_node ::
  "(string \<Rightarrow> string list) \<Rightarrow> (string \<Rightarrow> dep_state option) \<Rightarrow> dep_node \<Rightarrow> bool \<times> blocking \<Rightarrow> bool \<times> blocking" where
  "settle_node pre norm n st =
     (case st of (changed, b) \<Rightarrow>
      let a = nd_agent_id n; qs = pre a;
          by' = next_by norm b qs; f = list_ex (fails_via norm b) qs; s = list_ex (superseded_via norm b) qs
      in if norm a \<noteq> Some StWaiting then (changed, b)
         else if bl_by b a \<noteq> by' \<or> bl_failure b a \<noteq> f \<or> bl_superseded b a \<noteq> s
         then (True, b\<lparr>bl_by := (bl_by b)(a := by'), bl_failure := (bl_failure b)(a := f),
                       bl_superseded := (bl_superseded b)(a := s)\<rparr>)
         else (changed, b))"

definition settle_pass ::
  "(string \<Rightarrow> string list) \<Rightarrow> (string \<Rightarrow> dep_state option) \<Rightarrow> dep_node list \<Rightarrow> blocking \<Rightarrow> bool \<times> blocking" where
  "settle_pass pre norm ns b = fold (settle_node pre norm) ns (False, b)"

definition settle ::
  "(string \<Rightarrow> string list) \<Rightarrow> (string \<Rightarrow> dep_state option) \<Rightarrow> dep_node list \<Rightarrow> (bool \<times> blocking) option" where
  "settle pre norm ns =
     while_option fst (\<lambda>st. settle_pass pre norm ns (snd st)) (True, no_blocking)"

subsection \<open>The evaluation\<close>

definition node_ready :: "dep_plan \<Rightarrow> (string \<Rightarrow> dep_state option) \<Rightarrow> blocking \<Rightarrow> dep_node \<Rightarrow> bool" where
  "node_ready p norm b n \<longleftrightarrow> norm (nd_agent_id n) = Some StWaiting \<and> bl_by b (nd_agent_id n) = [] \<and>
     list_all (\<lambda>q. norm q = Some StSucceeded) (prerequisites p (nd_agent_id n))"

definition state_of :: "(string \<Rightarrow> dep_state option) \<Rightarrow> dep_node \<Rightarrow> dep_state" where
  "state_of norm n = (case norm (nd_agent_id n) of None \<Rightarrow> StWaiting | Some s \<Rightarrow> s)"

definition count_state :: "(string \<Rightarrow> dep_state option) \<Rightarrow> (dep_state \<Rightarrow> bool) \<Rightarrow> dep_node list \<Rightarrow> nat" where
  "count_state norm P ns = length (filter (\<lambda>n. P (state_of norm n)) ns)"

fun counts_as_failed :: "dep_state \<Rightarrow> bool" where
  "counts_as_failed StFailed = True"
| "counts_as_failed (StOther _) = True"
| "counts_as_failed _ = False"

definition evaluation_status ::
  "nat \<Rightarrow> nat \<Rightarrow> nat \<Rightarrow> nat \<Rightarrow> nat \<Rightarrow> nat \<Rightarrow> nat \<Rightarrow> bool \<Rightarrow> dep_status" where
  "evaluation_status n_nodes succeeded failed superseded running failure_blocked superseded_blocked frontier =
     (if succeeded = n_nodes then StatusApplied
      else if running > 0 \<or> frontier then
        (if running > 0 \<or> succeeded > 0 \<or> failed > 0 \<or> superseded > 0 \<or> failure_blocked > 0 \<or>
            superseded_blocked > 0 then StatusApplying else StatusPending)
      else if failed + failure_blocked > 0 then
        (if succeeded > 0 then StatusDegraded else StatusFailed)
      else if superseded + superseded_blocked > 0 then StatusSuperseded
      else StatusPending)"

definition evaluate :: "dep_plan \<Rightarrow> (string \<Rightarrow> dep_state option) \<Rightarrow> evaluation option" where
  "evaluate p states =
     (let norm = normalized p states; ns = pl_nodes p in
      case settle (prerequisites p) norm ns of
        None \<Rightarrow> None
      | Some (_, b) \<Rightarrow>
          let frontier = sort_key nd_agent_id (filter (node_ready p norm b) ns);
              waiting = filter (\<lambda>n. state_of norm n = StWaiting) ns
          in Some \<lparr>ev_status = evaluation_status (length ns) (count_state norm (\<lambda>s. s = StSucceeded) ns)
                     (count_state norm counts_as_failed ns)
                     (count_state norm (\<lambda>s. s = StSuperseded) ns)
                     (count_state norm (\<lambda>s. s = StRunning) ns)
                     (length (filter (\<lambda>n. bl_failure b (nd_agent_id n)) waiting))
                     (length (filter (\<lambda>n. bl_superseded b (nd_agent_id n)) waiting))
                     (frontier \<noteq> []),
                   ev_frontier = frontier,
                   ev_nodes = map (\<lambda>n. \<lparr>nr_node = n, nr_state = state_of norm n,
                     nr_blocked_by = bl_by b (nd_agent_id n)\<rparr>) ns\<rparr>)"

subsection \<open>The passes end\<close>

text \<open>
  The agents a waiting agent cannot outlive: it is doomed by a state \<open>st\<close> when it waits for an
  agent in that state, or for a waiting agent that is doomed.
\<close>

inductive doomed :: "(string \<Rightarrow> string list) \<Rightarrow> (string \<Rightarrow> dep_state option) \<Rightarrow> dep_state \<Rightarrow> string \<Rightarrow> bool"
  for pre norm st where
  direct: "norm a = Some StWaiting \<Longrightarrow> q \<in> set (pre a) \<Longrightarrow> norm q = Some st \<Longrightarrow> doomed pre norm st a"
| via: "norm a = Some StWaiting \<Longrightarrow> q \<in> set (pre a) \<Longrightarrow> doomed pre norm st q \<Longrightarrow> doomed pre norm st a"

definition blockers :: "(string \<Rightarrow> dep_state option) \<Rightarrow> blocking \<Rightarrow> string set" where
  "blockers norm b = {q. fails_via norm b q \<or> superseded_via norm b q}"

definition blocking_le :: "blocking \<Rightarrow> blocking \<Rightarrow> bool" where
  "blocking_le b b' \<longleftrightarrow> (\<forall>a. (bl_failure b a \<longrightarrow> bl_failure b' a) \<and> (bl_superseded b a \<longrightarrow> bl_superseded b' a))"

definition blocking_ok ::
  "(string \<Rightarrow> string list) \<Rightarrow> (string \<Rightarrow> dep_state option) \<Rightarrow> blocking \<Rightarrow> bool" where
  "blocking_ok pre norm b \<longleftrightarrow>
     (\<forall>a. (bl_failure b a \<longrightarrow> doomed pre norm StFailed a \<and> list_ex (fails_via norm b) (pre a)) \<and>
          (bl_superseded b a \<longrightarrow> doomed pre norm StSuperseded a \<and> list_ex (superseded_via norm b) (pre a)) \<and>
          (norm a \<noteq> Some StWaiting \<longrightarrow> bl_by b a = []) \<and>
          (\<exists>s \<subseteq> blockers norm b. bl_by b a = sort (filter (\<lambda>q. q \<in> s) (pre a))))"

definition settled :: "(string \<Rightarrow> string list) \<Rightarrow> (string \<Rightarrow> dep_state option) \<Rightarrow> blocking \<Rightarrow> string \<Rightarrow> bool" where
  "settled pre norm b a \<longleftrightarrow> norm a \<noteq> Some StWaiting \<or>
     (bl_by b a = next_by norm b (pre a) \<and> bl_failure b a = list_ex (fails_via norm b) (pre a) \<and>
      bl_superseded b a = list_ex (superseded_via norm b) (pre a))"

definition flags :: "blocking \<Rightarrow> string \<Rightarrow> nat" where
  "flags b a = of_bool (bl_failure b a) + of_bool (bl_superseded b a) + length (bl_by b a)"

lemma blocking_le_trans: "blocking_le b c \<Longrightarrow> blocking_le c d \<Longrightarrow> blocking_le b d"
  by (simp add: blocking_le_def)

lemma via_mono:
  assumes "blocking_le b b'"
  shows "fails_via norm b q \<Longrightarrow> fails_via norm b' q" and "superseded_via norm b q \<Longrightarrow> superseded_via norm b' q"
  using assms by (auto simp: fails_via_def superseded_via_def blocking_le_def)

lemma blockers_mono: "blocking_le b b' \<Longrightarrow> blockers norm b \<subseteq> blockers norm b'"
  using via_mono by (fastforce simp: blockers_def)

lemma list_ex_mono: "(\<And>x. P x \<Longrightarrow> Q x) \<Longrightarrow> list_ex P xs \<Longrightarrow> list_ex Q xs"
  by (auto simp: list_ex_iff)

lemma next_by_blockers: "next_by norm b qs = sort (filter (\<lambda>q. q \<in> blockers norm b) qs)"
  by (simp add: next_by_def blockers_def)

lemma filter_grow:
  assumes "s \<subseteq> t"
  shows "length (filter (\<lambda>q. q \<in> s) qs) \<le> length (filter (\<lambda>q. q \<in> t) qs) \<and>
    (filter (\<lambda>q. q \<in> s) qs \<noteq> filter (\<lambda>q. q \<in> t) qs \<longrightarrow>
     length (filter (\<lambda>q. q \<in> s) qs) < length (filter (\<lambda>q. q \<in> t) qs))"
  using assms by (induction qs) (auto simp: less_Suc_eq_le)

lemma no_blocking_ok: "blocking_ok pre norm no_blocking"
  by (auto simp: blocking_ok_def no_blocking_def intro!: exI[of _ "{}"])

lemma doomed_next:
  assumes ok: "blocking_ok pre norm b" and w: "norm a = Some StWaiting"
  shows "list_ex (fails_via norm b) (pre a) \<Longrightarrow> doomed pre norm StFailed a"
    and "list_ex (superseded_via norm b) (pre a) \<Longrightarrow> doomed pre norm StSuperseded a"
  using ok w unfolding blocking_ok_def list_ex_iff fails_via_def superseded_via_def
  by (metis doomed.intros)+

text \<open>One node of a pass: nothing happens, or the record grows.\<close>

lemma settle_node_step:
  assumes ok: "blocking_ok pre norm b" and r: "settle_node pre norm n (ch, b) = (ch', b')"
  shows "(ch' = ch \<and> b' = b \<and> settled pre norm b (nd_agent_id n)) \<or>
    (ch' \<and> blocking_ok pre norm b' \<and> blocking_le b b' \<and> flags b (nd_agent_id n) < flags b' (nd_agent_id n) \<and>
     (\<forall>x. x \<noteq> nd_agent_id n \<longrightarrow> flags b' x = flags b x))"
proof (cases "settled pre norm b (nd_agent_id n)")
  case True
  then show ?thesis using r by (auto simp: settle_node_def Let_def settled_def split: if_splits)
next
  case False
  let ?a = "nd_agent_id n"
  let ?by = "next_by norm b (pre ?a)" and ?f = "list_ex (fails_via norm b) (pre ?a)"
    and ?s = "list_ex (superseded_via norm b) (pre ?a)"
  have w: "norm ?a = Some StWaiting" using False by (simp add: settled_def)
  have b': "ch' = True" "b' = b\<lparr>bl_by := (bl_by b)(?a := ?by), bl_failure := (bl_failure b)(?a := ?f),
                       bl_superseded := (bl_superseded b)(?a := ?s)\<rparr>"
    using r False by (auto simp: settle_node_def Let_def settled_def split: if_splits)
  have grow: "bl_failure b ?a \<Longrightarrow> ?f" "bl_superseded b ?a \<Longrightarrow> ?s" using ok by (auto simp: blocking_ok_def)
  then have le: "blocking_le b b'" by (auto simp: blocking_le_def b'(2))
  have upd: "bl_failure b' x = (if x = ?a then ?f else bl_failure b x)"
    "bl_superseded b' x = (if x = ?a then ?s else bl_superseded b x)"
    "bl_by b' x = (if x = ?a then ?by else bl_by b x)" for x
    by (simp_all add: b'(2))
  have ok': "blocking_ok pre norm b'"
    unfolding blocking_ok_def
  proof (intro allI conjI impI)
    fix x
    show "doomed pre norm StFailed x" if "bl_failure b' x"
      using that ok doomed_next(1)[OF ok w] unfolding upd blocking_ok_def by (cases "x = ?a") auto
    show "doomed pre norm StSuperseded x" if "bl_superseded b' x"
      using that ok doomed_next(2)[OF ok w] unfolding upd blocking_ok_def by (cases "x = ?a") auto
    show "list_ex (fails_via norm b') (pre x)" if "bl_failure b' x"
    proof -
      have "list_ex (fails_via norm b) (pre x)"
        using that ok unfolding upd blocking_ok_def by (cases "x = ?a") auto
      then show ?thesis by (rule list_ex_mono[rotated]) (rule via_mono(1)[OF le])
    qed
    show "list_ex (superseded_via norm b') (pre x)" if "bl_superseded b' x"
    proof -
      have "list_ex (superseded_via norm b) (pre x)"
        using that ok unfolding upd blocking_ok_def by (cases "x = ?a") auto
      then show ?thesis by (rule list_ex_mono[rotated]) (rule via_mono(2)[OF le])
    qed
    show "bl_by b' x = []" if "norm x \<noteq> Some StWaiting"
      using that w ok unfolding upd blocking_ok_def by auto
    have "\<exists>s \<subseteq> blockers norm b. bl_by b' x = sort (filter (\<lambda>q. q \<in> s) (pre x))"
      using ok next_by_blockers[of norm b "pre ?a"] unfolding upd blocking_ok_def by (cases "x = ?a") auto
    then show "\<exists>s \<subseteq> blockers norm b'. bl_by b' x = sort (filter (\<lambda>q. q \<in> s) (pre x))"
      using blockers_mono[OF le] by (meson subset_trans)
  qed
  obtain s where s: "s \<subseteq> blockers norm b" "bl_by b ?a = sort (filter (\<lambda>q. q \<in> s) (pre ?a))"
    using ok unfolding blocking_ok_def by blast
  have "length (bl_by b ?a) \<le> length ?by \<and> (bl_by b ?a \<noteq> ?by \<longrightarrow> length (bl_by b ?a) < length ?by)"
    using filter_grow[OF s(1), of "pre ?a"] unfolding s(2) next_by_blockers by auto
  moreover have "bl_by b ?a \<noteq> ?by \<or> bl_failure b ?a \<noteq> ?f \<or> bl_superseded b ?a \<noteq> ?s"
    using False by (auto simp: settled_def)
  ultimately have "flags b ?a < flags b' ?a"
    using grow unfolding flags_def upd by auto
  moreover have "\<forall>x. x \<noteq> ?a \<longrightarrow> flags b' x = flags b x" by (simp add: flags_def upd)
  ultimately show ?thesis using b'(1) ok' le by blast
qed

definition weight :: "dep_node list \<Rightarrow> blocking \<Rightarrow> nat" where
  "weight ns b = sum (flags b) (nd_agent_id ` set ns)"

lemma weight_grows:
  assumes "n \<in> set ns" "flags b (nd_agent_id n) < flags b' (nd_agent_id n)"
    and "\<forall>x. x \<noteq> nd_agent_id n \<longrightarrow> flags b' x = flags b x"
  shows "weight ns b < weight ns b'"
  unfolding weight_def
proof (rule sum_strict_mono_ex1)
  show "\<forall>x \<in> nd_agent_id ` set ns. flags b x \<le> flags b' x" using assms(2,3) by (metis less_imp_le order_refl)
qed (use assms in auto)

lemma settle_fold:
  assumes "set ms \<subseteq> set ns" and "blocking_ok pre norm b"
    and "fold (settle_node pre norm) ms (ch, b) = (ch', b')"
  shows "blocking_ok pre norm b' \<and> weight ns b \<le> weight ns b' \<and>
    ((\<not> ch' \<and> \<not> ch \<and> b' = b \<and> (\<forall>n \<in> set ms. settled pre norm b (nd_agent_id n))) \<or>
     (ch' \<and> (ch \<or> weight ns b < weight ns b')))"
  using assms
proof (induction ms arbitrary: ch b)
  case (Cons n ms)
  obtain ch1 b1 where r: "settle_node pre norm n (ch, b) = (ch1, b1)" by fastforce
  with Cons.prems have f: "fold (settle_node pre norm) ms (ch1, b1) = (ch', b')" by simp
  have n: "n \<in> set ns" and ms: "set ms \<subseteq> set ns" using Cons.prems(1) by auto
  from settle_node_step[OF Cons.prems(2) r] show ?case
  proof (elim disjE conjE)
    assume k: "ch1 = ch" "b1 = b" "settled pre norm b (nd_agent_id n)"
    from Cons.IH[OF ms, of b ch] Cons.prems(2) f k show ?thesis by auto
  next
    assume k: "ch1" "blocking_ok pre norm b1" "flags b (nd_agent_id n) < flags b1 (nd_agent_id n)"
      "\<forall>x. x \<noteq> nd_agent_id n \<longrightarrow> flags b1 x = flags b x"
    from weight_grows[OF n k(3,4)] Cons.IH[OF ms k(2) f] k(1) show ?thesis by auto
  qed
qed auto

lemma weight_bound:
  assumes "blocking_ok pre norm b"
  shows "weight ns b \<le> (\<Sum>a \<in> nd_agent_id ` set ns. 2 + length (pre a))"
  unfolding weight_def
proof (rule sum_mono)
  fix a
  obtain s where "bl_by b a = sort (filter (\<lambda>q. q \<in> s) (pre a))" using assms unfolding blocking_ok_def by blast
  then have "length (bl_by b a) \<le> length (pre a)" by simp
  then show "flags b a \<le> 2 + length (pre a)" by (auto simp: flags_def of_bool_def)
qed

lemma settle_answers:
  "\<exists>b. settle pre norm ns = Some (False, b) \<and> blocking_ok pre norm b \<and>
     (\<forall>n \<in> set ns. settled pre norm b (nd_agent_id n))"
proof -
  let ?room = "\<lambda>b. (\<Sum>a \<in> nd_agent_id ` set ns. 2 + length (pre a)) - weight ns b"
  let ?P = "\<lambda>st. blocking_ok pre norm (snd st) \<and>
    (\<not> fst st \<longrightarrow> (\<forall>n \<in> set ns. settled pre norm (snd st) (nd_agent_id n)))"
  let ?f = "\<lambda>st. 2 * ?room (snd st) + of_bool (fst st)"
  have step: "?P (settle_pass pre norm ns (snd st)) \<and> ?f (settle_pass pre norm ns (snd st)) < ?f st"
    if p: "?P st" "fst st" for st
  proof -
    obtain ch b' where r: "settle_pass pre norm ns (snd st) = (ch, b')" by fastforce
    then have "fold (settle_node pre norm) ns (False, snd st) = (ch, b')" by (simp add: settle_pass_def)
    from settle_fold[OF subset_refl _ this] p(1) weight_bound[of pre norm b' ns] weight_bound[of pre norm "snd st" ns]
    show ?thesis using p(2) unfolding r by auto
  qed
  have start: "?P (True, no_blocking)" by (simp add: no_blocking_ok)
  obtain t where t: "settle pre norm ns = Some t"
    using measure_while_option_Some[of ?P fst "\<lambda>st. settle_pass pre norm ns (snd st)" ?f, OF step start]
    unfolding settle_def by auto
  have "?P t"
    using t unfolding settle_def by (rule while_option_rule[of ?P, rotated]) (use step start in auto)
  moreover have "\<not> fst t" using t unfolding settle_def by (rule while_option_stop)
  ultimately show ?thesis using t by (cases t) auto
qed

subsection \<open>What the evaluation says\<close>

definition norm_waits :: "(string \<Rightarrow> dep_state option) \<Rightarrow> string \<Rightarrow> bool" where
  "norm_waits norm a \<longleftrightarrow> norm a = Some StWaiting"

lemma normalized_node: "normalized p states a = Some s \<Longrightarrow> a \<in> nd_agent_id ` set (pl_nodes p)"
  by (simp add: normalized_def split: if_splits)

lemma doomed_waits: "doomed pre norm st a \<Longrightarrow> norm a = Some StWaiting"
  by (induction rule: doomed.induct) simp_all

lemma blocking_exact:
  assumes ok: "blocking_ok pre norm b" and all: "\<And>a. norm a = Some StWaiting \<Longrightarrow> settled pre norm b a"
  shows "bl_failure b a \<longleftrightarrow> doomed pre norm StFailed a"
    and "bl_superseded b a \<longleftrightarrow> doomed pre norm StSuperseded a"
    and "bl_by b a = (if norm a = Some StWaiting then sort (filter (\<lambda>q. norm q = Some StFailed \<or>
        norm q = Some StSuperseded \<or> doomed pre norm StFailed q \<or> doomed pre norm StSuperseded q) (pre a))
      else [])"
proof -
  show f: "bl_failure b a \<longleftrightarrow> doomed pre norm StFailed a" for a
  proof
    show "bl_failure b a" if "doomed pre norm StFailed a"
      using that by (induction rule: doomed.induct)
        (use all in \<open>auto simp: settled_def list_ex_iff fails_via_def\<close>)
  qed (use ok in \<open>simp add: blocking_ok_def\<close>)
  show s: "bl_superseded b a \<longleftrightarrow> doomed pre norm StSuperseded a" for a
  proof
    show "bl_superseded b a" if "doomed pre norm StSuperseded a"
      using that by (induction rule: doomed.induct)
        (use all in \<open>auto simp: settled_def list_ex_iff superseded_via_def\<close>)
  qed (use ok in \<open>simp add: blocking_ok_def\<close>)
  show "bl_by b a = (if norm a = Some StWaiting then sort (filter (\<lambda>q. norm q = Some StFailed \<or>
        norm q = Some StSuperseded \<or> doomed pre norm StFailed q \<or> doomed pre norm StSuperseded q) (pre a))
      else [])"
  proof (cases "norm a = Some StWaiting")
    case True
    then have "bl_by b a = next_by norm b (pre a)" using all[OF True] by (simp add: settled_def)
    moreover have "(\<lambda>q. fails_via norm b q \<or> superseded_via norm b q) = (\<lambda>q. norm q = Some StFailed \<or>
        norm q = Some StSuperseded \<or> doomed pre norm StFailed q \<or> doomed pre norm StSuperseded q)"
      by (rule ext) (auto simp: fails_via_def superseded_via_def f s)
    ultimately show ?thesis using True by (simp add: next_by_def)
  qed (use ok in \<open>simp add: blocking_ok_def\<close>)
qed

definition blocks :: "dep_plan \<Rightarrow> (string \<Rightarrow> dep_state option) \<Rightarrow> string \<Rightarrow> bool" where
  "blocks p norm q \<longleftrightarrow> norm q = Some StFailed \<or> norm q = Some StSuperseded \<or>
     doomed (prerequisites p) norm StFailed q \<or> doomed (prerequisites p) norm StSuperseded q"

lemma evaluate_exact:
  assumes norm: "norm = normalized p states"
  shows "evaluate p states = Some
    \<lparr>ev_status = evaluation_status (length (pl_nodes p)) (count_state norm (\<lambda>s. s = StSucceeded) (pl_nodes p))
       (count_state norm counts_as_failed (pl_nodes p)) (count_state norm (\<lambda>s. s = StSuperseded) (pl_nodes p))
       (count_state norm (\<lambda>s. s = StRunning) (pl_nodes p))
       (length (filter (\<lambda>n. doomed (prerequisites p) norm StFailed (nd_agent_id n)) (pl_nodes p)))
       (length (filter (\<lambda>n. doomed (prerequisites p) norm StSuperseded (nd_agent_id n)) (pl_nodes p)))
       (filter (\<lambda>n. norm (nd_agent_id n) = Some StWaiting \<and>
          list_all (\<lambda>q. norm q = Some StSucceeded) (prerequisites p (nd_agent_id n))) (pl_nodes p) \<noteq> []),
     ev_frontier = sort_key nd_agent_id (filter (\<lambda>n. norm (nd_agent_id n) = Some StWaiting \<and>
        list_all (\<lambda>q. norm q = Some StSucceeded) (prerequisites p (nd_agent_id n))) (pl_nodes p)),
     ev_nodes = map (\<lambda>n. \<lparr>nr_node = n, nr_state = state_of norm n,
       nr_blocked_by = (if norm (nd_agent_id n) = Some StWaiting
          then filter (blocks p norm) (prerequisites p (nd_agent_id n)) else [])\<rparr>) (pl_nodes p)\<rparr>"
proof -
  let ?pre = "prerequisites p"
  obtain b where b: "settle ?pre norm (pl_nodes p) = Some (False, b)" "blocking_ok ?pre norm b"
      "\<forall>n \<in> set (pl_nodes p). settled ?pre norm b (nd_agent_id n)"
    using settle_answers by blast
  have all: "settled ?pre norm b a" if "norm a = Some StWaiting" for a
    using b(3) normalized_node[of p states a] that unfolding norm by blast
  note ex = blocking_exact[OF b(2) all]
  have sorted_pre: "sort (filter P (?pre a)) = filter P (?pre a)" for P a
    by (rule sort_key_id_if_sorted) (simp add: prerequisites_def sorted_filter[where f = id, simplified])
  have by_eq: "bl_by b a = (if norm a = Some StWaiting then filter (blocks p norm) (?pre a) else [])" for a
    using ex(3)[of a] by (simp add: sorted_pre blocks_def[abs_def])
  have no_block: "filter (blocks p norm) (?pre a) = []"
    if "list_all (\<lambda>q. norm q = Some StSucceeded) (?pre a)" for a
    using that doomed_waits by (force simp: filter_empty_conv list_all_iff blocks_def)
  have ready: "node_ready p norm b = (\<lambda>n. norm (nd_agent_id n) = Some StWaiting \<and>
      list_all (\<lambda>q. norm q = Some StSucceeded) (?pre (nd_agent_id n)))"
    by (rule ext) (auto simp: node_ready_def by_eq no_block)
  have st: "state_of norm n = StWaiting \<longleftrightarrow> norm (nd_agent_id n) = Some StWaiting" if "n \<in> set (pl_nodes p)" for n
    using that unfolding norm by (auto simp: state_of_def normalized_def split: option.splits)
  have w: "filter (\<lambda>n. bl_failure b (nd_agent_id n)) (filter (\<lambda>n. state_of norm n = StWaiting) (pl_nodes p)) =
      filter (\<lambda>n. doomed ?pre norm StFailed (nd_agent_id n)) (pl_nodes p)"
    "filter (\<lambda>n. bl_superseded b (nd_agent_id n)) (filter (\<lambda>n. state_of norm n = StWaiting) (pl_nodes p)) =
      filter (\<lambda>n. doomed ?pre norm StSuperseded (nd_agent_id n)) (pl_nodes p)"
    using st doomed_waits by (auto simp: ex(1,2) intro!: filter_cong)
  have ne: "sort_key nd_agent_id xs \<noteq> [] \<longleftrightarrow> xs \<noteq> []" for xs :: "dep_node list"
    by (metis length_0_conv length_sort)
  show ?thesis
    by (simp add: evaluate_def Let_def norm[symmetric] b(1) ready w ne by_eq del: filter_filter)
qed


definition waiting_on :: "dep_plan \<Rightarrow> (string \<Rightarrow> dep_state option) \<Rightarrow> dep_node \<Rightarrow> bool" where
  "waiting_on p norm n \<longleftrightarrow> norm (nd_agent_id n) = Some StWaiting \<and>
     list_all (\<lambda>q. norm q = Some StSucceeded) (prerequisites p (nd_agent_id n))"

text \<open>C12.
  \<open>Evaluate\<close> answers for every plan and all states, and its answer is exact: a waiting agent is
  reported as blocked by those prerequisites that failed, were superseded, or are themselves waiting
  (directly or through other waiting agents) for one that did, and by no others; the frontier is the
  sorted list of the waiting agents whose prerequisites have all succeeded.\<close>

theorem evaluate_blocks_exactly:
  "\<exists>e. evaluate p states = Some e \<and> map nr_node (ev_nodes e) = pl_nodes p \<and>
     map nr_blocked_by (ev_nodes e) = map (\<lambda>n. if normalized p states (nd_agent_id n) = Some StWaiting
        then filter (blocks p (normalized p states)) (prerequisites p (nd_agent_id n)) else []) (pl_nodes p) \<and>
     ev_frontier e = sort_key nd_agent_id (filter (waiting_on p (normalized p states)) (pl_nodes p))"
  by (simp add: evaluate_exact[OF refl] waiting_on_def[abs_def] comp_def)

lemma Collect_Cons: "{e \<in> set (x # xs). f e} = (if f x then insert x {e \<in> set xs. f e} else {e \<in> set xs. f e})"
  by auto

lemma set_prerequisites_fold:
  "set (fold (\<lambda>e acc. if pl_action p = action_delete
     then (if eg_to e = a then append_unique acc (eg_from e) else acc)
     else (if eg_from e = a then append_unique acc (eg_to e) else acc)) es acc) =
   set acc \<union> (if pl_action p = action_delete then eg_from ` {e \<in> set es. eg_to e = a}
     else eg_to ` {e \<in> set es. eg_from e = a})"
proof (induction es arbitrary: acc)
  case (Cons e es)
  show ?case unfolding Collect_Cons fold_simps Cons.IH by (simp add: o_def)
qed simp

lemma set_prerequisites:
  "set (prerequisites p a) = (if pl_action p = action_delete then {eg_from e | e. e \<in> set (pl_edges p) \<and> eg_to e = a}
     else {eg_to e | e. e \<in> set (pl_edges p) \<and> eg_from e = a})"
  by (auto simp: prerequisites_def set_prerequisites_fold)

lemma prerequisites_in_plan:
  assumes "plan_ok p" and "q \<in> set (prerequisites p a)"
  shows "q \<in> nd_agent_id ` set (pl_nodes p)"
  using assms by (auto simp: set_prerequisites plan_ok_def list_all_iff edge_ok_def split: if_splits)

lemma prerequisites_wf:
  assumes "plan_ok p"
  shows "wf {(q, a). q \<in> set (prerequisites p a)}"
proof -
  have r: "{(q, a). q \<in> set (prerequisites p a)} =
      (if pl_action p = action_delete then edge_rel (pl_edges p) else (edge_rel (pl_edges p))\<inverse>)"
    by (auto simp: set_prerequisites edge_rel_def)
  have "finite (edge_rel (pl_edges p))" "acyclic (edge_rel (pl_edges p))"
    using assms by (simp_all add: edge_rel_def plan_ok_def)
  then show ?thesis unfolding r by (auto intro: finite_acyclic_wf finite_acyclic_wf_converse)
qed

text \<open>The reversed edges of a deletion.\<close>

lemma delete_reverses:
  "a \<in> set (prerequisites (p\<lparr>pl_action := action_delete\<rparr>) b) \<longleftrightarrow>
   b \<in> set (prerequisites (p\<lparr>pl_action := action_apply\<rparr>) a)"
  by (auto simp: set_prerequisites action_apply_def action_delete_def)

lemma normalized_plan_node:
  "n \<in> set (pl_nodes p) \<Longrightarrow> normalized p states (nd_agent_id n) = Some (state_of (normalized p states) n)"
  by (auto simp: state_of_def normalized_def)

lemma count_state_0: "count_state norm f ns = 0 \<longleftrightarrow> list_all (\<lambda>n. \<not> f (state_of norm n)) ns"
  by (auto simp: count_state_def filter_empty_conv list_all_iff)

lemma count_state_all: "count_state norm f ns = length ns \<longleftrightarrow> list_all (\<lambda>n. f (state_of norm n)) ns"
  using length_filter_less[of _ ns "\<lambda>n. f (state_of norm n)"] by (fastforce simp: count_state_def list_all_iff)

lemma idle_waiting:
  assumes ok: "plan_ok p" and norm: "norm = normalized p states" and n: "n \<in> set (pl_nodes p)"
    and w: "norm (nd_agent_id n) = Some StWaiting"
    and states: "\<And>m. m \<in> set (pl_nodes p) \<Longrightarrow> state_of norm m = StWaiting \<or> state_of norm m = StSucceeded"
  shows "\<exists>m \<in> set (pl_nodes p). waiting_on p norm m"
  using n w
proof (induction "nd_agent_id n" arbitrary: n rule: wf_induct_rule[OF prerequisites_wf[OF ok]])
  case 1
  show ?case
  proof (cases "waiting_on p norm n")
    case False
    then obtain q where q: "q \<in> set (prerequisites p (nd_agent_id n))" "norm q \<noteq> Some StSucceeded"
      using 1(3) by (auto simp: waiting_on_def list_all_iff)
    then obtain m where m: "m \<in> set (pl_nodes p)" "q = nd_agent_id m"
      using prerequisites_in_plan[OF ok] by blast
    with q(2) states[OF m(1)] normalized_plan_node[OF m(1), of states] have "norm (nd_agent_id m) = Some StWaiting"
      by (auto simp: norm)
    with 1(1)[of m] q m show ?thesis by simp
  qed (use 1 in blast)
qed

lemma sort_key_Nil_iff [simp]: "sort_key f xs = [] \<longleftrightarrow> xs = []"
  by (metis length_0_conv length_sort)

definition failure_doomed :: "dep_plan \<Rightarrow> (string \<Rightarrow> dep_state option) \<Rightarrow> dep_node \<Rightarrow> bool" where
  "failure_doomed p norm n \<longleftrightarrow> doomed (prerequisites p) norm StFailed (nd_agent_id n)"

definition superseded_doomed :: "dep_plan \<Rightarrow> (string \<Rightarrow> dep_state option) \<Rightarrow> dep_node \<Rightarrow> bool" where
  "superseded_doomed p norm n \<longleftrightarrow> doomed (prerequisites p) norm StSuperseded (nd_agent_id n)"

lemma evaluate_fields:
  assumes "evaluate p states = Some e" and "norm = normalized p states"
  shows "ev_frontier e = sort_key nd_agent_id (filter (waiting_on p norm) (pl_nodes p))"
    and "map (\<lambda>r. (nr_node r, nr_state r)) (ev_nodes e) = map (\<lambda>n. (n, state_of norm n)) (pl_nodes p)"
    and "ev_status e = evaluation_status (length (pl_nodes p)) (count_state norm (\<lambda>s. s = StSucceeded) (pl_nodes p))
       (count_state norm counts_as_failed (pl_nodes p)) (count_state norm (\<lambda>s. s = StSuperseded) (pl_nodes p))
       (count_state norm (\<lambda>s. s = StRunning) (pl_nodes p))
       (length (filter (failure_doomed p norm) (pl_nodes p)))
       (length (filter (superseded_doomed p norm) (pl_nodes p)))
       (ev_frontier e \<noteq> [])"
proof -
  note parts = assms(1)[unfolded evaluate_exact[OF assms(2)], folded waiting_on_def[abs_def]
      failure_doomed_def[abs_def] superseded_doomed_def[abs_def], unfolded option.inject, symmetric]
  show "ev_frontier e = sort_key nd_agent_id (filter (waiting_on p norm) (pl_nodes p))"
    unfolding parts by (simp add: waiting_on_def[abs_def])
  show "map (\<lambda>r. (nr_node r, nr_state r)) (ev_nodes e) = map (\<lambda>n. (n, state_of norm n)) (pl_nodes p)"
    unfolding parts by simp
  show "ev_status e = evaluation_status (length (pl_nodes p)) (count_state norm (\<lambda>s. s = StSucceeded) (pl_nodes p))
       (count_state norm counts_as_failed (pl_nodes p)) (count_state norm (\<lambda>s. s = StSuperseded) (pl_nodes p))
       (count_state norm (\<lambda>s. s = StRunning) (pl_nodes p))
       (length (filter (failure_doomed p norm) (pl_nodes p)))
       (length (filter (superseded_doomed p norm) (pl_nodes p)))
       (ev_frontier e \<noteq> [])"
    unfolding parts evaluation.simps sort_key_Nil_iff failure_doomed_def[abs_def] superseded_doomed_def[abs_def]
      waiting_on_def[abs_def] ..
qed

lemma evaluate_nodes:
  assumes "evaluate p states = Some e" and "norm = normalized p states"
  shows "list_ex (\<lambda>r. f (nr_node r) (nr_state r)) (ev_nodes e) \<longleftrightarrow> list_ex (\<lambda>n. f n (state_of norm n)) (pl_nodes p)"
    and "list_all (\<lambda>r. f (nr_node r) (nr_state r)) (ev_nodes e) \<longleftrightarrow> list_all (\<lambda>n. f n (state_of norm n)) (pl_nodes p)"
proof -
  have s: "set (map (\<lambda>r. (nr_node r, nr_state r)) (ev_nodes e)) = set (map (\<lambda>n. (n, state_of norm n)) (pl_nodes p))"
    unfolding evaluate_fields(2)[OF assms] ..
  have "list_ex (\<lambda>r. f (nr_node r) (nr_state r)) (ev_nodes e) \<longleftrightarrow>
      (\<exists>x \<in> set (map (\<lambda>r. (nr_node r, nr_state r)) (ev_nodes e)). f (fst x) (snd x))" by (simp add: list_ex_iff)
  then show "list_ex (\<lambda>r. f (nr_node r) (nr_state r)) (ev_nodes e) \<longleftrightarrow> list_ex (\<lambda>n. f n (state_of norm n)) (pl_nodes p)"
    unfolding s by (simp add: list_ex_iff)
  have "list_all (\<lambda>r. f (nr_node r) (nr_state r)) (ev_nodes e) \<longleftrightarrow>
      (\<forall>x \<in> set (map (\<lambda>r. (nr_node r, nr_state r)) (ev_nodes e)). f (fst x) (snd x))" by (simp add: list_all_iff)
  then show "list_all (\<lambda>r. f (nr_node r) (nr_state r)) (ev_nodes e) \<longleftrightarrow> list_all (\<lambda>n. f n (state_of norm n)) (pl_nodes p)"
    unfolding s by (simp add: list_all_iff)
qed

text \<open>
  An unfinished operation always has something to do: when \<open>Evaluate\<close> of a plan that \<open>NewPlan\<close>
  returned says pending or applying, an agent is running or the frontier is not empty. So an
  operation whose agents all finish ends in one of the final statuses; it cannot wait on itself.\<close>

theorem evaluate_progress:
  assumes "new_plan w action nodes es = Inr p" and e: "evaluate p states = Some e"
    and open_: "ev_status e = StatusPending \<or> ev_status e = StatusApplying"
  shows "ev_frontier e \<noteq> [] \<or> list_ex (\<lambda>r. nr_state r = StRunning) (ev_nodes e)"
proof (rule ccontr)
  assume idle: "\<not> ?thesis"
  let ?norm = "normalized p states" and ?ns = "pl_nodes p"
  have ok: "plan_ok p" using assms(1) by (rule new_plan_ok)
  note fields = evaluate_fields[OF e refl] and nodes = evaluate_nodes[OF e refl]
  have run: "count_state ?norm (\<lambda>s. s = StRunning) ?ns = 0"
    using idle nodes(1)[of "\<lambda>_ s. s = StRunning"] by (auto simp: count_state_0 list_all_iff list_ex_iff)
  have front: "ev_frontier e = []" "filter (waiting_on p ?norm) ?ns = []" using idle fields(1) by simp_all
  have "count_state ?norm (\<lambda>s. s = StSucceeded) ?ns \<noteq> length ?ns"
    "count_state ?norm counts_as_failed ?ns = 0" "count_state ?norm (\<lambda>s. s = StSuperseded) ?ns = 0"
    using fields(3) open_ run front(1) by (auto simp: evaluation_status_def split: if_splits)
  then have nf: "\<not> list_all (\<lambda>n. state_of ?norm n = StSucceeded) ?ns"
      "list_all (\<lambda>n. \<not> counts_as_failed (state_of ?norm n)) ?ns" "list_all (\<lambda>n. state_of ?norm n \<noteq> StSuperseded) ?ns"
      "list_all (\<lambda>n. state_of ?norm n \<noteq> StRunning) ?ns"
    using run by (simp_all only: count_state_0 count_state_all not_False_eq_True)
  have two: "state_of ?norm m = StWaiting \<or> state_of ?norm m = StSucceeded" if "m \<in> set ?ns" for m
    using nf(2-4) that by (cases "state_of ?norm m") (auto simp: list_all_iff)
  from nf(1) obtain n where n: "n \<in> set ?ns" "state_of ?norm n \<noteq> StSucceeded" by (auto simp: list_all_iff)
  with two have "?norm (nd_agent_id n) = Some StWaiting" by (auto simp: normalized_plan_node)
  from idle_waiting[OF ok refl n(1) this two] front(2) show False by (auto simp: filter_empty_conv)
qed

definition running_exit :: "string \<Rightarrow> dep_state option" where
  "running_exit = [''exit'' \<mapsto> StSucceeded, ''core'' \<mapsto> StRunning]"

definition failed_exit :: "string \<Rightarrow> dep_state option" where
  "failed_exit = [''exit'' \<mapsto> StFailed]"

definition all_succeeded :: "string \<Rightarrow> dep_state option" where
  "all_succeeded = (\<lambda>_. Some StSucceeded)"

lemma evaluate_progress_witness:
  "\<exists>e. evaluate sample_plan running_exit = Some e \<and> ev_status e = StatusApplying \<and>
     (ev_frontier e \<noteq> [] \<or> list_ex (\<lambda>r. nr_state r = StRunning) (ev_nodes e))"
proof -
  obtain e where e: "evaluate sample_plan running_exit = Some e" using evaluate_exact[OF refl] by blast
  have "map_option ev_status (evaluate sample_plan running_exit) = Some StatusApplying" by code_simp
  with e have "ev_status e = StatusApplying" by simp
  with evaluate_progress[OF sample_plan_new e] e show ?thesis by auto
qed

text \<open>The status of an operation: applied exactly when every agent succeeded; otherwise, once nothing
  runs and nothing can start, failed or degraded exactly when some agent failed (or is in an unknown
  state) or waits behind one that failed, and degraded only if some agent succeeded.\<close>

theorem evaluate_status:
  assumes "evaluate p states = Some e"
  shows "(ev_status e = StatusApplied \<longleftrightarrow> list_all (\<lambda>r. nr_state r = StSucceeded) (ev_nodes e)) \<and>
    (ev_status e = StatusFailed \<or> ev_status e = StatusDegraded \<longleftrightarrow>
      \<not> list_all (\<lambda>r. nr_state r = StSucceeded) (ev_nodes e) \<and> ev_frontier e = [] \<and>
      \<not> list_ex (\<lambda>r. nr_state r = StRunning) (ev_nodes e) \<and>
      list_ex (\<lambda>r. counts_as_failed (nr_state r) \<or>
        doomed (prerequisites p) (normalized p states) StFailed (nd_agent_id (nr_node r))) (ev_nodes e)) \<and>
    (ev_status e = StatusDegraded \<longrightarrow> list_ex (\<lambda>r. nr_state r = StSucceeded) (ev_nodes e)) \<and>
    (ev_status e = StatusFailed \<longrightarrow> \<not> list_ex (\<lambda>r. nr_state r = StSucceeded) (ev_nodes e))"
proof -
  let ?norm = "normalized p states" and ?ns = "pl_nodes p"
  let ?succ = "count_state ?norm (\<lambda>s. s = StSucceeded) ?ns" and ?run = "count_state ?norm (\<lambda>s. s = StRunning) ?ns"
    and ?fail = "count_state ?norm counts_as_failed ?ns" and ?sup = "count_state ?norm (\<lambda>s. s = StSuperseded) ?ns"
    and ?fb = "length (filter (failure_doomed p ?norm) ?ns)"
    and ?sb = "length (filter (superseded_doomed p ?norm) ?ns)"
  note st = evaluate_fields(3)[OF assms refl] and nodes = evaluate_nodes[OF assms refl]
  have succ: "list_all (\<lambda>r. nr_state r = StSucceeded) (ev_nodes e) \<longleftrightarrow> ?succ = length ?ns"
    using nodes(2)[of "\<lambda>_ s. s = StSucceeded"] by (simp add: count_state_all)
  have some: "list_ex (\<lambda>r. nr_state r = s) (ev_nodes e) \<longleftrightarrow> 0 < count_state ?norm (\<lambda>x. x = s) ?ns" for s
    using nodes(1)[of "\<lambda>_ x. x = s"] count_state_0[of ?norm "\<lambda>x. x = s" ?ns]
    by (auto simp: list_ex_iff list_all_iff)
  have "0 < ?fail \<longleftrightarrow> list_ex (\<lambda>n. counts_as_failed (state_of ?norm n)) ?ns"
    using count_state_0[of ?norm counts_as_failed ?ns] by (auto simp: list_ex_iff list_all_iff)
  moreover have "0 < ?fb \<longleftrightarrow> list_ex (failure_doomed p ?norm) ?ns"
    by (auto simp: list_ex_iff filter_empty_conv simp flip: length_greater_0_conv)
  ultimately have bad: "list_ex (\<lambda>r. counts_as_failed (nr_state r) \<or>
        doomed (prerequisites p) ?norm StFailed (nd_agent_id (nr_node r))) (ev_nodes e) \<longleftrightarrow> 0 < ?fail + ?fb"
    using nodes(1)[of "\<lambda>n s. counts_as_failed s \<or> failure_doomed p ?norm n"]
    by (auto simp: list_ex_iff failure_doomed_def)
  show ?thesis
    unfolding succ some bad st by (auto simp: evaluation_status_def)
qed

lemma evaluate_status_witness:
  "\<exists>e. evaluate sample_plan all_succeeded = Some e \<and> ev_status e = StatusApplied \<and>
     list_all (\<lambda>r. nr_state r = StSucceeded) (ev_nodes e)"
proof -
  obtain e where e: "evaluate sample_plan all_succeeded = Some e" using evaluate_exact[OF refl] by blast
  have "map_option ev_status (evaluate sample_plan all_succeeded) = Some StatusApplied" by code_simp
  with e have "ev_status e = StatusApplied" by simp
  with evaluate_status[OF e] e show ?thesis by blast
qed

subsection \<open>Rollouts\<close>

text \<open>
  The life of an operation seen through its agents' states: an agent starts when \<open>Evaluate\<close> puts it
  on the frontier; a running agent succeeds, fails, is superseded or returns to waiting (a lost lease
  or a failed attempt that is retried); an agent that did not start may be superseded.
\<close>

inductive rollout_step :: "dep_plan \<Rightarrow> (string \<Rightarrow> dep_state option) \<Rightarrow> (string \<Rightarrow> dep_state option) \<Rightarrow> bool"
  for p where
  starts: "evaluate p s = Some e \<Longrightarrow> n \<in> set (ev_frontier e) \<Longrightarrow>
    rollout_step p s (s(nd_agent_id n \<mapsto> StRunning))"
| finishes: "s a = Some StRunning \<Longrightarrow> r \<in> {StSucceeded, StFailed, StSuperseded, StWaiting} \<Longrightarrow>
    rollout_step p s (s(a \<mapsto> r))"
| overtaken: "s a = None \<or> s a = Some StWaiting \<Longrightarrow> rollout_step p s (s(a \<mapsto> StSuperseded))"

definition started :: "dep_state option \<Rightarrow> bool" where
  "started x \<longleftrightarrow> x = Some StRunning \<or> x = Some StSucceeded \<or> x = Some StFailed"

definition ready_in :: "dep_plan \<Rightarrow> (string \<Rightarrow> dep_state option) \<Rightarrow> string \<Rightarrow> bool" where
  "ready_in p s a \<longleftrightarrow> list_all (\<lambda>q. s q = Some StSucceeded) (prerequisites p a)"

definition in_order :: "dep_plan \<Rightarrow> (string \<Rightarrow> dep_state option) \<Rightarrow> bool" where
  "in_order p s \<longleftrightarrow> (\<forall>a. started (s a) \<longrightarrow> ready_in p s a)"

lemma normalized_succeeded: "normalized p s a = Some StSucceeded \<Longrightarrow> s a = Some StSucceeded"
  by (auto simp: normalized_def split: if_splits option.splits)

lemma normalized_waiting:
  "normalized p s a = Some StWaiting \<Longrightarrow> s a = None \<or> s a = Some StWaiting \<or> s a = Some (StOther [])"
  by (auto simp: normalized_def split: if_splits option.splits)

lemma ready_in_upd: "ready_in p s b \<Longrightarrow> s a \<noteq> Some StSucceeded \<Longrightarrow> ready_in p (s(a \<mapsto> r)) b"
  by (auto simp: ready_in_def list_all_iff)

lemma in_order_upd:
  assumes "in_order p s" and a: "s a \<noteq> Some StSucceeded" and r: "started (Some r) \<Longrightarrow> ready_in p s a"
  shows "in_order p (s(a \<mapsto> r))"
  unfolding in_order_def
proof (intro allI impI)
  fix b assume b: "started ((s(a \<mapsto> r)) b)"
  have "ready_in p s b"
  proof (cases "b = a")
    case False
    with b assms(1) show ?thesis by (simp add: in_order_def)
  qed (use b r in simp)
  then show "ready_in p (s(a \<mapsto> r)) b" using a by (rule ready_in_upd)
qed

lemma rollout_step_in_order:
  assumes "rollout_step p s s'" and o: "in_order p s"
  shows "in_order p s'"
  using assms(1)
proof (cases rule: rollout_step.cases)
  case (starts e n)
  then have w: "waiting_on p (normalized p s) n" using evaluate_fields(1)[OF starts(2) refl] by simp
  have "ready_in p s (nd_agent_id n)"
    using w normalized_succeeded by (auto simp: waiting_on_def ready_in_def list_all_iff)
  moreover have "s (nd_agent_id n) \<noteq> Some StSucceeded"
    using w normalized_waiting[of p s "nd_agent_id n"] by (auto simp: waiting_on_def)
  ultimately show ?thesis unfolding starts(1) using in_order_upd[OF o] by blast
next
  case (finishes a r)
  have "ready_in p s a" using o finishes(2) by (simp add: in_order_def started_def)
  with finishes(2) show ?thesis unfolding finishes(1) by (intro in_order_upd[OF o]) simp_all
next
  case (overtaken a)
  then show ?thesis unfolding overtaken(1) by (intro in_order_upd[OF o]) (auto simp: started_def)
qed

text \<open>Agents are rolled out in dependency order: however the agents' outcomes interleave, an agent that
  has started (it runs, succeeded or failed) has only prerequisites that have succeeded. For an apply
  these are the agents its edges lead to; for a deletion, the agents whose edges lead to it.\<close>

theorem rollout_in_order:
  assumes "(rollout_step p)\<^sup>*\<^sup>* (\<lambda>_. None) s"
    and "s a = Some StRunning \<or> s a = Some StSucceeded \<or> s a = Some StFailed"
    and "eg \<in> set (pl_edges p)" and "(if pl_action p = action_delete then eg_to eg else eg_from eg) = a"
  shows "s (if pl_action p = action_delete then eg_from eg else eg_to eg) = Some StSucceeded"
proof -
  have "in_order p s"
    using assms(1) by (induction rule: rtranclp_induct) (auto simp: in_order_def[of p "\<lambda>_. None"] started_def intro: rollout_step_in_order)
  then have "ready_in p s a" using assms(2) unfolding in_order_def started_def by blast
  then have "\<forall>q \<in> set (prerequisites p a). s q = Some StSucceeded" by (simp add: ready_in_def list_all_iff)
  moreover have "(if pl_action p = action_delete then eg_from eg else eg_to eg) \<in> set (prerequisites p a)"
    unfolding set_prerequisites using assms(3,4) by auto
  ultimately show ?thesis by (rule bspec)
qed

lemma rollout_start_exit: "rollout_step sample_plan (\<lambda>_. None) [''exit'' \<mapsto> StRunning]"
proof -
  obtain e where e: "evaluate sample_plan (\<lambda>_. None) = Some e" using evaluate_exact[OF refl] by blast
  have "map_option ev_frontier (evaluate sample_plan (\<lambda>_. None)) =
      Some [\<lparr>nd_agent_id = ''exit'', nd_revision = 2\<rparr>]"
    by code_simp
  with e rollout_step.starts[OF e, of "\<lparr>nd_agent_id = ''exit'', nd_revision = 2\<rparr>"] show ?thesis by simp
qed

lemma rollout_start_core: "rollout_step sample_plan [''exit'' \<mapsto> StSucceeded] running_exit"
proof -
  obtain e where e: "evaluate sample_plan [''exit'' \<mapsto> StSucceeded] = Some e" using evaluate_exact[OF refl] by blast
  have "map_option ev_frontier (evaluate sample_plan [''exit'' \<mapsto> StSucceeded]) =
      Some [\<lparr>nd_agent_id = ''core'', nd_revision = 7\<rparr>]"
    by code_simp
  with e rollout_step.starts[OF e, of "\<lparr>nd_agent_id = ''core'', nd_revision = 7\<rparr>"] show ?thesis
    by (simp add: running_exit_def)
qed

lemma rollout_in_order_witness:
  "(rollout_step sample_plan)\<^sup>*\<^sup>* (\<lambda>_. None) running_exit \<and> running_exit ''core'' = Some StRunning \<and>
   running_exit ''exit'' = Some StSucceeded"
proof -
  have "rollout_step sample_plan [''exit'' \<mapsto> StRunning] ([''exit'' \<mapsto> StRunning](''exit'' \<mapsto> StSucceeded))"
    by (rule rollout_step.finishes) simp_all
  then have "rollout_step sample_plan [''exit'' \<mapsto> StRunning] [''exit'' \<mapsto> StSucceeded]" by simp
  note steps = this
  have r: "(rollout_step sample_plan)\<^sup>*\<^sup>* (\<lambda>_. None) running_exit"
    by (rule converse_rtranclp_into_rtranclp, rule rollout_start_exit, rule converse_rtranclp_into_rtranclp,
        rule steps, rule r_into_rtranclp, rule rollout_start_core)
  have core: "running_exit ''core'' = Some StRunning" by (simp add: running_exit_def)
  from rollout_in_order[OF r, of "''core''" "plan_edge ''core'' ''exit''"] core
  have "running_exit ''exit'' = Some StSucceeded"
    by (simp add: sample_plan_def plan_edge_def action_apply_def action_delete_def)
  with r core show ?thesis by blast
qed

end
