(* ===== verification/DepSnapshot.thy ===== *)
theory DepSnapshot
  imports DepPlanProps
begin

text \<open>
  \<open>BuildPlan\<close> of \<open>dependency/snapshot.go\<close>: the dependency plan of an operation is derived from the
  snapshots its revisions carry. A rule that is relayed through listeners of other agents, or leaves
  through an egress profile of another agent, makes its owner depend on those agents. Go iterates
  over the map of snapshots in an unspecified order, which is an argument here; the plan is proved
  not to depend on it.
\<close>

subsection \<open>Snapshots\<close>

text \<open>The members of \<open>storage.Snapshot\<close> and its parts that \<open>BuildPlan\<close> reads.\<close>

record relay_listener =
  rl_id :: int
  rl_agent_id :: string
  rl_enabled :: bool

record egress_profile =
  ep_id :: int
  ep_enabled :: bool

text \<open>The shape shared by HTTP and L4 rules; \<open>RelayLayers\<close> are listener ids, layer by layer.\<close>

record proxy_rule =
  pr_id :: int
  pr_agent_id :: string
  pr_relay_layers :: "int list list"
  pr_egress_profile_id :: "int option"

record snapshot =
  sn_revision :: int
  sn_rules :: "proxy_rule list"
  sn_l4_rules :: "proxy_rule list"
  sn_relay_listeners :: "relay_listener list"
  sn_egress_profiles :: "egress_profile list"

record snapshot_revision =
  sv_agent_id :: string
  sv_revision :: int
  sv_snapshot :: snapshot

subsection \<open>Collecting the snapshots\<close>

text \<open>The local variables of \<open>BuildPlan\<close> that its first loop fills.\<close>

record plan_inputs =
  in_nodes :: "dep_node list"
  in_snapshots :: "(string \<times> snapshot) list"
  in_listeners :: "int \<Rightarrow> relay_listener option"
  in_egress :: "string \<Rightarrow> int \<Rightarrow> egress_profile option"

definition no_inputs :: plan_inputs where
  "no_inputs = \<lparr>in_nodes = [], in_snapshots = [], in_listeners = (\<lambda>_. None), in_egress = (\<lambda>_ _. None)\<rparr>"

fun collect_listeners ::
  "string \<Rightarrow> relay_listener list \<Rightarrow> (int \<Rightarrow> relay_listener option) \<Rightarrow>
   dep_error + (int \<Rightarrow> relay_listener option)" where
  "collect_listeners agent [] known = Inr known"
| "collect_listeners agent (l # ls) known =
     (let owner = trim_space (rl_agent_id l) in
      if owner = [] then Inl DInvalidPlan
      else if owner \<noteq> agent then collect_listeners agent ls known
      else if known (rl_id l) \<noteq> None then Inl DInvalidPlan
      else collect_listeners agent ls (known(rl_id l \<mapsto> l)))"

definition collect_egress :: "egress_profile list \<Rightarrow> int \<Rightarrow> egress_profile option" where
  "collect_egress ps = fold (\<lambda>e known. known(ep_id e \<mapsto> e)) ps (\<lambda>_. None)"

fun collect :: "string \<Rightarrow> snapshot_revision list \<Rightarrow> plan_inputs \<Rightarrow> dep_error + plan_inputs" where
  "collect action [] i = Inr i"
| "collect action (v # vs) i =
     (let agent = trim_space (sv_agent_id v); s = sv_snapshot v in
      if agent = [] \<or> sv_revision v \<le> 0 then Inl DInvalidPlan
      else if action = action_apply \<and> sn_revision s \<noteq> sv_revision v then Inl DInvalidPlan
      else if action = action_delete \<and> (sn_revision s < 0 \<or> sn_revision s \<ge> sv_revision v) then Inl DInvalidPlan
      else if agent \<in> fst ` set (in_snapshots i) then Inl DInvalidPlan
      else tx_bind (collect_listeners agent (sn_relay_listeners s) (in_listeners i)) (\<lambda>ls.
        collect action vs \<lparr>in_nodes = in_nodes i @ [\<lparr>nd_agent_id = agent, nd_revision = sv_revision v\<rparr>],
          in_snapshots = in_snapshots i @ [(agent, s)], in_listeners = ls,
          in_egress = (in_egress i)(agent := collect_egress (sn_egress_profiles s))\<rparr>))"

subsection \<open>The edges of a rule\<close>

definition normalized_resource_agent :: "string \<Rightarrow> string \<Rightarrow> string" where
  "normalized_resource_agent snapshot_agent resource_agent0 =
     (let resource_agent = trim_space resource_agent0 in
      if resource_agent = [] then snapshot_agent
      else if resource_agent \<noteq> snapshot_agent then [] else resource_agent)"

definition sorted_set :: "string list \<Rightarrow> string list" where
  "sorted_set as = sort (remdups as)"

text \<open>The agents whose listeners form one relay layer.\<close>

fun layer_agents :: "plan_inputs \<Rightarrow> int list \<Rightarrow> dep_error + string list" where
  "layer_agents i [] = Inr []"
| "layer_agents i (k # ks) =
     (case in_listeners i k of
        None \<Rightarrow> Inl DMissingDependency
      | Some l \<Rightarrow>
          if \<not> rl_enabled l then Inl DMissingDependency
          else let a = trim_space (rl_agent_id l) in
            if a \<notin> fst ` set (in_snapshots i) then Inl DMissingDependency
            else tx_bind (layer_agents i ks) (\<lambda>as. Inr (a # as)))"

definition layer_resource :: "string \<Rightarrow> int \<Rightarrow> string" where
  "layer_resource resource n = resource @ '':layer:'' @ itoa n"

definition layer_edges :: "string \<Rightarrow> int \<Rightarrow> string list \<Rightarrow> string list \<Rightarrow> dep_edge list" where
  "layer_edges resource n previous current =
     concat (map (\<lambda>a. map (\<lambda>b. \<lparr>eg_from = a, eg_to = b, eg_kind = edge_relay_layer,
       eg_resource = layer_resource resource n\<rparr>) current) previous)"

text \<open>The loop over the layers: the edges to add, and the agents of the last layer that has any.\<close>

fun relay_edges ::
  "plan_inputs \<Rightarrow> string \<Rightarrow> int \<Rightarrow> string list \<Rightarrow> int list list \<Rightarrow> dep_error + dep_edge list \<times> string list" where
  "relay_edges i resource n previous [] = Inr ([], previous)"
| "relay_edges i resource n previous (layer # layers) =
     tx_bind (layer_agents i layer) (\<lambda>as.
       if as = [] then relay_edges i resource (n + 1) previous layers
       else
         let current = sorted_set as in
         tx_bind (relay_edges i resource (n + 1) current layers) (\<lambda>(es, final).
           Inr (layer_edges resource n previous current @ es, final)))"

fun egress_edges :: "plan_inputs \<Rightarrow> string \<Rightarrow> string \<Rightarrow> int \<Rightarrow> string list \<Rightarrow> dep_error + dep_edge list" where
  "egress_edges i owner resource k [] = Inr []"
| "egress_edges i owner resource k (x # xs) =
     (case in_egress i x k of
        None \<Rightarrow> Inl DMissingDependency
      | Some e \<Rightarrow>
          if \<not> ep_enabled e then Inl DMissingDependency
          else tx_bind (egress_edges i owner resource k xs) (\<lambda>es.
            Inr (\<lparr>eg_from = owner, eg_to = x, eg_kind = edge_egress_executor,
                  eg_resource = resource @ '':egress:'' @ itoa k\<rparr> # es)))"

definition add_rule_edges :: "plan_inputs \<Rightarrow> string \<Rightarrow> string \<Rightarrow> proxy_rule \<Rightarrow> dep_error + dep_edge list" where
  "add_rule_edges i owner resource r =
     tx_bind (relay_edges i resource 0 [owner] (pr_relay_layers r)) (\<lambda>(es, final).
       case pr_egress_profile_id r of
         None \<Rightarrow> Inr es
       | Some k \<Rightarrow> tx_bind (egress_edges i owner resource k final) (\<lambda>es'. Inr (es @ es')))"

fun rules_edges :: "plan_inputs \<Rightarrow> string \<Rightarrow> string \<Rightarrow> proxy_rule list \<Rightarrow> dep_error + dep_edge list" where
  "rules_edges i prefix agent [] = Inr []"
| "rules_edges i prefix agent (r # rs) =
     (let owner = normalized_resource_agent agent (pr_agent_id r) in
      if owner = [] then Inl DInvalidPlan
      else tx_bind (add_rule_edges i owner (prefix @ owner @ '':'' @ itoa (pr_id r)) r) (\<lambda>es.
        tx_bind (rules_edges i prefix agent rs) (\<lambda>es'. Inr (es @ es'))))"

definition snapshot_edges :: "plan_inputs \<Rightarrow> string \<times> snapshot \<Rightarrow> dep_error + dep_edge list" where
  "snapshot_edges i as = (case as of (agent, s) \<Rightarrow>
     tx_bind (rules_edges i ''http_rule:'' agent (sn_rules s)) (\<lambda>es.
       tx_bind (rules_edges i ''l4_rule:'' agent (sn_l4_rules s)) (\<lambda>es'. Inr (es @ es'))))"

fun all_edges :: "plan_inputs \<Rightarrow> (string \<times> snapshot) list \<Rightarrow> dep_error + dep_edge list" where
  "all_edges i [] = Inr []"
| "all_edges i (x # xs) =
     tx_bind (snapshot_edges i x) (\<lambda>es. tx_bind (all_edges i xs) (\<lambda>es'. Inr (es @ es')))"

text \<open>\<open>addEdge\<close>: self references and edges whose key was seen are dropped.\<close>

definition add_edge :: "dep_edge \<Rightarrow> dep_edge list \<times> string list \<Rightarrow> dep_edge list \<times> string list" where
  "add_edge e acc = (case acc of (es, seen) \<Rightarrow>
     if eg_from e = eg_to e then (es, seen)
     else if edge_key e \<in> set seen then (es, seen)
     else (es @ [e], edge_key e # seen))"

text \<open>\<open>order\<close> is the order in which the map of snapshots is iterated.\<close>

definition build_plan ::
  "((string \<times> snapshot) list \<Rightarrow> (string \<times> snapshot) list) \<Rightarrow> string \<Rightarrow> string \<Rightarrow> snapshot_revision list \<Rightarrow>
   dep_error + dep_plan" where
  "build_plan order operation_id action revisions =
     (if action \<noteq> action_apply \<and> action \<noteq> action_delete then Inl DInvalidPlan
      else tx_bind (collect action revisions no_inputs) (\<lambda>i.
        tx_bind (all_edges i (order (in_snapshots i))) (\<lambda>es.
          new_plan operation_id action (in_nodes i) (fst (fold add_edge es ([], []))))))"

subsection \<open>The plan depends on the set of edges only\<close>

definition edge_clean :: "dep_edge \<Rightarrow> bool" where
  "edge_clean e \<longleftrightarrow> no_nul (eg_from e) \<and> no_nul (eg_to e) \<and>
     (eg_kind e = edge_relay_layer \<or> eg_kind e = edge_egress_executor)"

lemma edge_kinds_no_nul: "no_nul edge_relay_layer" "no_nul edge_egress_executor"
  by (simp_all add: no_nul_def edge_relay_layer_def edge_egress_executor_def)

lemma edge_key_inj: "edge_clean e \<Longrightarrow> edge_clean f \<Longrightarrow> edge_key e = edge_key f \<Longrightarrow> e = f"
proof -
  assume e: "edge_clean e" and f: "edge_clean f" and k: "edge_key e = edge_key f"
  have ends: "eg_from e = eg_from f \<and> eg_to e = eg_to f"
    using k by (rule edge_key_ends) (use e f in \<open>simp_all add: edge_clean_def\<close>)
  with k have "eg_kind e @ CHR 0x00 # eg_resource e = eg_kind f @ CHR 0x00 # eg_resource f"
    by (simp add: edge_key_def)
  moreover have "no_nul (eg_kind e)" "no_nul (eg_kind f)" using e f edge_kinds_no_nul by (auto simp: edge_clean_def)
  ultimately have "eg_kind e = eg_kind f \<and> eg_resource e = eg_resource f" by (intro split_nul)
  with ends show "e = f" by (intro dep_edge.equality) simp_all
qed

lemma dedup_set:
  assumes "list_all edge_clean (map trim_edge es)"
  shows "canonical_edges known es [] = Inr es0 \<Longrightarrow> set es0 = set (links es)"
proof -
  assume c: "canonical_edges known es [] = Inr es0"
  note k = canonical_edges_keys[OF c]
  have clean: "edge_clean e" if "e \<in> set (links es)" for e
    using assms that by (auto simp: links_def list_all_iff)
  have "e \<in> set es0" if e: "e \<in> set (links es)" for e
  proof -
    from e k obtain f where f: "f \<in> set es0" "edge_key e = edge_key f" by auto
    with k have "edge_clean f" using clean by blast
    with f clean[OF e] edge_key_inj show ?thesis by metis
  qed
  with k show ?thesis by blast
qed

lemma add_edge_fold:
  assumes "list_all edge_clean es" and "list_all edge_clean es1" and "set seen = edge_key ` set es1"
    and "fold add_edge es (es1, seen) = (es2, seen2)"
  shows "set es2 = set es1 \<union> {e \<in> set es. eg_from e \<noteq> eg_to e}"
  using assms
proof (induction es arbitrary: es1 seen)
  case (Cons e es)
  have e: "edge_clean e" and es: "list_all edge_clean es" using Cons.prems(1) by auto
  consider (self) "eg_from e = eg_to e" | (again) "eg_from e \<noteq> eg_to e" "edge_key e \<in> set seen"
    | (fresh) "eg_from e \<noteq> eg_to e" "edge_key e \<notin> set seen" by blast
  then show ?case
  proof cases
    case self
    then have "fold add_edge es (es1, seen) = (es2, seen2)" using Cons.prems(4) by (simp add: add_edge_def[of e])
    from Cons.IH[OF es Cons.prems(2,3) this] self show ?thesis by auto
  next
    case again
    then have r: "fold add_edge es (es1, seen) = (es2, seen2)" using Cons.prems(4) by (simp add: add_edge_def[of e])
    from again(2) Cons.prems(3) obtain f where f: "f \<in> set es1" "edge_key e = edge_key f" by auto
    then have "e \<in> set es1" using edge_key_inj[OF e] Cons.prems(2) by (auto simp: list_all_iff)
    with Cons.IH[OF es Cons.prems(2,3) r] again show ?thesis by auto
  next
    case fresh
    then have r: "fold add_edge es (es1 @ [e], edge_key e # seen) = (es2, seen2)"
      using Cons.prems(4) by (simp add: add_edge_def[of e])
    have "list_all edge_clean (es1 @ [e])" "set (edge_key e # seen) = edge_key ` set (es1 @ [e])"
      using Cons.prems(2,3) e by auto
    from Cons.IH[OF es this r] fresh show ?thesis by auto
  qed
qed simp

lemma add_edges_set:
  assumes "list_all edge_clean es"
  shows "set (fst (fold add_edge es ([], []))) = {e \<in> set es. eg_from e \<noteq> eg_to e}"
proof -
  obtain es2 seen2 where "fold add_edge es ([], []) = (es2, seen2)" by fastforce
  with add_edge_fold[OF assms _ _ this] show ?thesis by simp
qed

lemma sort_key_same_set:
  assumes "inj_on f (set xs)" "distinct xs" "distinct ys" "set xs = set ys"
  shows "sort_key f xs = sort_key f ys"
proof -
  have "map f (sort_key f xs) = map f (sort_key f ys)"
    using assms by (intro sorted_distinct_set_unique) (auto simp: distinct_map)
  with assms(1,4) show ?thesis by (intro map_inj_on[of f]) (simp_all add: Un_absorb)
qed

lemma edge_rank_inj: "inj edge_rank"
  by (rule injI) (simp add: edge_rank_def dep_edge.equality)

lemma trim_space_no_nul: "no_nul s \<Longrightarrow> no_nul (trim_space s)"
  using trim_space_subset[of s] unfolding no_nul_def by blast

lemma edge_input_clean:
  assumes "list_all (\<lambda>n. no_nul (nd_agent_id n)) nodes"
    and "canonical_nodes nodes [] = Inr ns0" and "canonical_edges (map nd_agent_id ns0) es [] = Inr es0"
  shows "list_all edge_clean (map trim_edge es)"
proof -
  have nul: "list_all no_nul (map nd_agent_id ns0)"
    using assms(1) trim_space_no_nul unfolding canonical_nodes_map[OF assms(2)]
    by (simp add: list_all_iff trim_node_def)
  have "[] \<notin> set (map nd_agent_id ns0)"
    using canonical_nodes_ok[OF assms(2)] by (auto simp: list_all_iff node_ok_def)
  then have "list_all (edge_input_ok (map nd_agent_id ns0)) (map trim_edge es)"
    using canonical_edges_iff assms(3) by blast
  with nul show ?thesis by (auto simp: list_all_iff edge_input_ok_def edge_clean_def)
qed

lemma new_plan_same_set:
  assumes p: "new_plan w action nodes es = Inr p" and "set es = set es'"
    and nul: "list_all (\<lambda>n. no_nul (nd_agent_id n)) nodes"
  shows "new_plan w action nodes es' = Inr p"
proof -
  have m: "set (map trim_edge es) = set (map trim_edge es')" and l: "set (links es) = set (links es')"
    using assms(2) by (simp_all add: links_def)
  have "plan_input_ok w action nodes es = plan_input_ok w action nodes es'"
    unfolding plan_input_ok_def list_all_set[OF m] ..
  moreover have "edge_rel (links es) = edge_rel (links es')" using l by (rule edge_rel_set)
  moreover have "plan_input_ok w action nodes es \<and> acyclic (edge_rel (links es))"
    using new_plan_iff[OF nul] p by blast
  ultimately have "plan_input_ok w action nodes es' \<and> acyclic (edge_rel (links es'))" by simp
  then obtain p' where p': "new_plan w action nodes es' = Inr p'" using new_plan_iff[OF nul] by blast
  obtain ns0 es0 c where k: "canonical_nodes nodes [] = Inr ns0" "canonical_edges (map nd_agent_id ns0) es [] = Inr es0"
    and r: "Inr p = (if c = [] then Inr \<lparr>pl_version = 1, pl_operation_id = trim_space w, pl_action = action,
                       pl_nodes = sort_key nd_agent_id ns0, pl_edges = sort_key edge_rank es0\<rparr>
          else Inl (DCycle c))"
    using p by (rule new_plan_cases) auto
  obtain ns0' es0' c' where k': "canonical_nodes nodes [] = Inr ns0'" "canonical_edges (map nd_agent_id ns0') es' [] = Inr es0'"
    and r': "Inr p' = (if c' = [] then Inr \<lparr>pl_version = 1, pl_operation_id = trim_space w, pl_action = action,
                       pl_nodes = sort_key nd_agent_id ns0', pl_edges = sort_key edge_rank es0'\<rparr>
          else Inl (DCycle c'))"
    using p' by (rule new_plan_cases) auto
  have ns: "ns0' = ns0" using k(1) k'(1) by simp
  have "set es0 = set (links es)" "set es0' = set (links es')"
    using dedup_set[OF edge_input_clean[OF nul k] k(2)] dedup_set[OF edge_input_clean[OF nul k'] k'(2)] by blast+
  moreover have "distinct es0" "distinct es0'"
    using canonical_edges_ok[OF k(2)] canonical_edges_ok[OF k'(2)] by (auto simp: distinct_map)
  ultimately have "sort_key edge_rank es0 = sort_key edge_rank es0'"
    using l edge_rank_inj by (intro sort_key_same_set) (auto intro: inj_on_subset)
  with r r' ns have "p' = p" by (simp split: if_splits)
  with p' show ?thesis by simp
qed

subsection \<open>What the first loop collects\<close>

definition owned :: "string \<Rightarrow> relay_listener \<Rightarrow> bool" where
  "owned agent l \<longleftrightarrow> trim_space (rl_agent_id l) = agent"

lemma collect_listeners_known:
  "collect_listeners agent ls known = Inr known' \<Longrightarrow>
   (\<forall>k l. known k = Some l \<longrightarrow> known' k = Some l) \<and>
   (\<forall>l \<in> set ls. owned agent l \<longrightarrow> known' (rl_id l) = Some l)"
proof (induction agent ls known arbitrary: known' rule: collect_listeners.induct)
  case (2 agent l ls known)
  let ?o = "trim_space (rl_agent_id l)"
  have ne: "?o \<noteq> []" using "2.prems" by (auto simp: Let_def)
  show ?case
  proof (cases "?o = agent")
    case False
    then have "collect_listeners agent ls known = Inr known'" using "2.prems" ne by (simp add: Let_def)
    from "2.IH"(1)[OF refl ne False this] False show ?thesis by (auto simp: owned_def)
  next
    case True
    then have new: "known (rl_id l) = None"
      and r: "collect_listeners agent ls (known(rl_id l \<mapsto> l)) = Inr known'"
      using "2.prems" ne by (auto simp: Let_def split: if_splits)
    have "\<not> ?o \<noteq> agent" "\<not> known (rl_id l) \<noteq> None" using True new by simp_all
    from "2.IH"(2)[OF refl ne this r] have
      ih: "\<And>k x. (known(rl_id l \<mapsto> l)) k = Some x \<Longrightarrow> known' k = Some x"
      and rest: "\<forall>x \<in> set ls. owned agent x \<longrightarrow> known' (rl_id x) = Some x" by blast+
    have "known' k = Some x" if "known k = Some x" for k x
      using ih[of k x] that new by (cases "k = rl_id l") simp_all
    with rest ih[of "rl_id l" l] show ?thesis by simp
  qed
qed simp

definition entry_agent :: "snapshot_revision \<Rightarrow> string" where
  "entry_agent v = trim_space (sv_agent_id v)"

lemma collect_step:
  assumes "collect action (v # vs) i = Inr i'"
  obtains ls where "collect_listeners (entry_agent v) (sn_relay_listeners (sv_snapshot v)) (in_listeners i) = Inr ls"
    and "collect action vs \<lparr>in_nodes = in_nodes i @ [\<lparr>nd_agent_id = entry_agent v, nd_revision = sv_revision v\<rparr>],
          in_snapshots = in_snapshots i @ [(entry_agent v, sv_snapshot v)], in_listeners = ls,
          in_egress = (in_egress i)(entry_agent v := collect_egress (sn_egress_profiles (sv_snapshot v)))\<rparr> = Inr i'"
    and "entry_agent v \<notin> fst ` set (in_snapshots i)" and "entry_agent v \<noteq> []"
  using assms by (auto simp: Let_def entry_agent_def tx_bind_Inr_iff split: if_splits)

lemma collect_fields:
  "collect action vs i = Inr i' \<Longrightarrow>
   in_nodes i' = in_nodes i @ map (\<lambda>v. \<lparr>nd_agent_id = entry_agent v, nd_revision = sv_revision v\<rparr>) vs \<and>
   in_snapshots i' = in_snapshots i @ map (\<lambda>v. (entry_agent v, sv_snapshot v)) vs \<and>
   (\<forall>k l. in_listeners i k = Some l \<longrightarrow> in_listeners i' k = Some l) \<and>
   (\<forall>v \<in> set vs. \<forall>l \<in> set (sn_relay_listeners (sv_snapshot v)). owned (entry_agent v) l \<longrightarrow>
      in_listeners i' (rl_id l) = Some l) \<and>
   (\<forall>v \<in> set vs. entry_agent v \<noteq> [])"
proof (induction vs arbitrary: i)
  case (Cons v vs)
  obtain ls where ls: "collect_listeners (entry_agent v) (sn_relay_listeners (sv_snapshot v)) (in_listeners i) = Inr ls"
    and r: "collect action vs \<lparr>in_nodes = in_nodes i @ [\<lparr>nd_agent_id = entry_agent v, nd_revision = sv_revision v\<rparr>],
          in_snapshots = in_snapshots i @ [(entry_agent v, sv_snapshot v)], in_listeners = ls,
          in_egress = (in_egress i)(entry_agent v := collect_egress (sn_egress_profiles (sv_snapshot v)))\<rparr> = Inr i'"
    and "entry_agent v \<noteq> []"
    using collect_step[OF Cons.prems] by metis
  with collect_listeners_known[OF ls] Cons.IH[OF r] show ?case by simp
qed simp

subsection \<open>The derived edges\<close>

definition ends_in :: "string set \<Rightarrow> dep_edge list \<Rightarrow> bool" where
  "ends_in u es \<longleftrightarrow> list_all (\<lambda>e. eg_from e \<in> u \<and> eg_to e \<in> u \<and>
     (eg_kind e = edge_relay_layer \<or> eg_kind e = edge_egress_executor)) es"

lemma ends_in_append [simp]: "ends_in u (es @ es') \<longleftrightarrow> ends_in u es \<and> ends_in u es'"
  by (simp add: ends_in_def)

lemma ends_in_Nil [simp]: "ends_in u []"
  by (simp add: ends_in_def)

lemma layer_agents_Cons:
  "layer_agents i (k # ks) = Inr as \<longleftrightarrow> (\<exists>l as'. in_listeners i k = Some l \<and> rl_enabled l \<and>
     trim_space (rl_agent_id l) \<in> fst ` set (in_snapshots i) \<and> layer_agents i ks = Inr as' \<and>
     as = trim_space (rl_agent_id l) # as')"
  by (cases "in_listeners i k") (auto simp: Let_def tx_bind_Inr_iff simp del: image_iff)

lemma layer_agents_in: "layer_agents i ks = Inr as \<Longrightarrow> set as \<subseteq> fst ` set (in_snapshots i)"
proof (induction ks arbitrary: as)
  case (Cons k ks)
  obtain l where l: "in_listeners i k = Some l" using Cons.prems unfolding layer_agents_Cons by fast
  then obtain as' where k: "trim_space (rl_agent_id l) \<in> fst ` set (in_snapshots i)" "layer_agents i ks = Inr as'"
      "as = trim_space (rl_agent_id l) # as'"
    using Cons.prems unfolding layer_agents_Cons by (metis option.inject)
  from k(1) Cons.IH[OF k(2)] show ?case unfolding k(3) by simp
qed simp

lemma layer_agents_member:
  "layer_agents i ks = Inr as \<Longrightarrow> k \<in> set ks \<Longrightarrow> in_listeners i k = Some l \<Longrightarrow> trim_space (rl_agent_id l) \<in> set as"
proof (induction ks arbitrary: as)
  case (Cons k' ks)
  obtain l' as' where r: "in_listeners i k' = Some l'" "layer_agents i ks = Inr as'"
      "as = trim_space (rl_agent_id l') # as'"
    using Cons.prems(1) by (auto simp: Let_def tx_bind_Inr_iff split: option.splits if_splits)
  show ?case
  proof (cases "k = k'")
    case True
    with r Cons.prems(3) show ?thesis by simp
  next
    case False
    with Cons.IH[OF r(2) _ Cons.prems(3)] Cons.prems(2) r(3) show ?thesis by simp
  qed
qed simp

lemma sorted_set_set [simp]: "set (sorted_set xs) = set xs"
  by (simp add: sorted_set_def)

lemma layer_edges_iff:
  "e \<in> set (layer_edges resource n previous current) \<longleftrightarrow> (\<exists>a \<in> set previous. \<exists>b \<in> set current.
     e = \<lparr>eg_from = a, eg_to = b, eg_kind = edge_relay_layer, eg_resource = layer_resource resource n\<rparr>)"
  by (auto simp: layer_edges_def)

lemma relay_edges_step:
  assumes "relay_edges i resource n previous (layer # layers) = Inr (es, final)"
  obtains (empty) "layer_agents i layer = Inr []" "relay_edges i resource (n + 1) previous layers = Inr (es, final)"
    | (hop) as es' where "layer_agents i layer = Inr as" "as \<noteq> []"
        "relay_edges i resource (n + 1) (sorted_set as) layers = Inr (es', final)"
        "es = layer_edges resource n previous (sorted_set as) @ es'"
  using assms by (auto simp: Let_def tx_bind_Inr_iff split: if_splits)

lemma relay_edges_ends:
  "relay_edges i resource n previous layers = Inr (es, final) \<Longrightarrow> set previous \<subseteq> fst ` set (in_snapshots i) \<Longrightarrow>
   ends_in (fst ` set (in_snapshots i)) es \<and> set final \<subseteq> fst ` set (in_snapshots i)"
proof (induction layers arbitrary: n previous es)
  case (Cons layer layers)
  from Cons.prems(1) show ?case
  proof (cases rule: relay_edges_step)
    case empty
    with Cons show ?thesis by blast
  next
    case (hop as es')
    note as = layer_agents_in[OF hop(1)]
    have "ends_in (fst ` set (in_snapshots i)) (layer_edges resource n previous (sorted_set as))"
      using as Cons.prems(2) by (force simp: ends_in_def list_all_iff layer_edges_iff)
    with Cons.IH[OF hop(3)] as hop(4) show ?thesis by simp
  qed
qed simp

lemma egress_edges_ends:
  "egress_edges i owner resource k xs = Inr es \<Longrightarrow> owner \<in> u \<Longrightarrow> set xs \<subseteq> u \<Longrightarrow> ends_in u es"
proof (induction xs arbitrary: es)
  case (Cons x xs)
  then show ?case
    by (auto simp: ends_in_def tx_bind_Inr_iff split: option.splits if_splits)
qed simp

lemma add_rule_edges_ends:
  assumes "add_rule_edges i owner resource r = Inr es" and o: "owner \<in> fst ` set (in_snapshots i)"
  shows "ends_in (fst ` set (in_snapshots i)) es"
proof -
  obtain es1 final where r: "relay_edges i resource 0 [owner] (pr_relay_layers r) = Inr (es1, final)"
    and e: "pr_egress_profile_id r = None \<and> es = es1 \<or>
      (\<exists>k es2. pr_egress_profile_id r = Some k \<and> egress_edges i owner resource k final = Inr es2 \<and> es = es1 @ es2)"
    using assms(1) by (cases "pr_egress_profile_id r") (auto simp: add_rule_edges_def tx_bind_Inr_iff)
  have "ends_in (fst ` set (in_snapshots i)) es1 \<and> set final \<subseteq> fst ` set (in_snapshots i)"
    using r by (rule relay_edges_ends) (use o in simp)
  with e egress_edges_ends[OF _ o] show ?thesis by auto
qed

lemma normalized_owner:
  "normalized_resource_agent a b \<noteq> [] \<Longrightarrow> normalized_resource_agent a b = a"
  by (auto simp: normalized_resource_agent_def Let_def split: if_splits)

lemma rules_edges_ends:
  "rules_edges i prefix agent rs = Inr es \<Longrightarrow> agent \<in> fst ` set (in_snapshots i) \<Longrightarrow>
   ends_in (fst ` set (in_snapshots i)) es"
proof (induction rs arbitrary: es)
  case (Cons r rs)
  let ?o = "normalized_resource_agent agent (pr_agent_id r)"
  obtain es1 es2 where ne: "?o \<noteq> []" and k: "add_rule_edges i ?o (prefix @ ?o @ '':'' @ itoa (pr_id r)) r = Inr es1"
      "rules_edges i prefix agent rs = Inr es2" "es = es1 @ es2"
    using Cons.prems(1) by (auto simp: Let_def tx_bind_Inr_iff split: if_splits)
  have "ends_in (fst ` set (in_snapshots i)) es1"
    using k(1) by (rule add_rule_edges_ends) (simp add: normalized_owner[OF ne] Cons.prems(2))
  with Cons.IH[OF k(2) Cons.prems(2)] k(3) show ?case by simp
qed simp

lemma snapshot_edges_ends:
  assumes "snapshot_edges i as = Inr es" and "fst as \<in> fst ` set (in_snapshots i)"
  shows "ends_in (fst ` set (in_snapshots i)) es"
proof -
  obtain a s where a: "as = (a, s)" by fastforce
  with assms obtain es1 es2 where "rules_edges i ''http_rule:'' a (sn_rules s) = Inr es1"
      "rules_edges i ''l4_rule:'' a (sn_l4_rules s) = Inr es2" "es = es1 @ es2"
    by (auto simp: snapshot_edges_def tx_bind_Inr_iff)
  with rules_edges_ends assms(2) a show ?thesis by auto
qed

lemma all_edges_set:
  "(\<exists>es. all_edges i xs = Inr es) \<longleftrightarrow> (\<forall>x \<in> set xs. \<exists>es. snapshot_edges i x = Inr es)"
  "all_edges i xs = Inr es \<Longrightarrow> set es = (\<Union>x \<in> set xs. case snapshot_edges i x of Inl _ \<Rightarrow> {} | Inr es \<Rightarrow> set es)"
proof -
  show "(\<exists>es. all_edges i xs = Inr es) \<longleftrightarrow> (\<forall>x \<in> set xs. \<exists>es. snapshot_edges i x = Inr es)"
    by (induction xs) (auto simp: tx_bind_Inr_iff)
  show "all_edges i xs = Inr es \<Longrightarrow> set es = (\<Union>x \<in> set xs. case snapshot_edges i x of Inl _ \<Rightarrow> {} | Inr es \<Rightarrow> set es)"
    by (induction xs arbitrary: es) (auto simp: tx_bind_Inr_iff)
qed

lemma ends_in_clean:
  assumes "ends_in u es" and "\<And>a. a \<in> u \<Longrightarrow> no_nul a"
  shows "list_all edge_clean es"
  using assms by (auto simp: ends_in_def edge_clean_def list_all_iff)

definition clean_revisions :: "snapshot_revision list \<Rightarrow> bool" where
  "clean_revisions vs \<longleftrightarrow> list_all (\<lambda>v. no_nul (sv_agent_id v)) vs"

text \<open>What a successful \<open>build_plan\<close> went through, for every iteration order that is a permutation.\<close>

lemma build_plan_parts:
  assumes b: "build_plan order w action vs = Inr p" and perm: "\<And>xs. mset (order xs) = mset xs"
    and clean: "clean_revisions vs"
  obtains i es where "collect action vs no_inputs = Inr i"
    and "\<forall>x \<in> set (in_snapshots i). \<exists>es. snapshot_edges i x = Inr es"
    and "set es = (\<Union>x \<in> set (in_snapshots i). case snapshot_edges i x of Inl _ \<Rightarrow> {} | Inr es \<Rightarrow> set es)"
    and "new_plan w action (in_nodes i) (fst (fold add_edge es ([], []))) = Inr p"
    and "list_all edge_clean es" and "list_all (\<lambda>n. no_nul (nd_agent_id n)) (in_nodes i)"
    and "action = action_apply \<or> action = action_delete"
    and "list_all (\<lambda>e. trim_space (eg_from e) = eg_from e \<and> trim_space (eg_to e) = eg_to e) es"
proof -
  obtain i es where k: "collect action vs no_inputs = Inr i" "all_edges i (order (in_snapshots i)) = Inr es"
      "new_plan w action (in_nodes i) (fst (fold add_edge es ([], []))) = Inr p"
      "action = action_apply \<or> action = action_delete"
    using b by (auto simp: build_plan_def tx_bind_Inr_iff split: if_splits)
  have same: "set (order (in_snapshots i)) = set (in_snapshots i)" using perm by (metis mset_eq_setD)
  have ok: "\<forall>x \<in> set (in_snapshots i). \<exists>es. snapshot_edges i x = Inr es"
    using all_edges_set(1)[of i "order (in_snapshots i)"] k(2) same by blast
  have es: "set es = (\<Union>x \<in> set (in_snapshots i). case snapshot_edges i x of Inl _ \<Rightarrow> {} | Inr es \<Rightarrow> set es)"
    using all_edges_set(2)[OF k(2)] same by simp
  note f = collect_fields[OF k(1)]
  have agents: "fst ` set (in_snapshots i) = entry_agent ` set vs"
    using f by (force simp: no_inputs_def)
  have nul: "no_nul a" if "a \<in> fst ` set (in_snapshots i)" for a
    using that clean trim_space_no_nul unfolding agents by (auto simp: clean_revisions_def list_all_iff entry_agent_def)
  have "ends_in (fst ` set (in_snapshots i)) es"
    unfolding ends_in_def list_all_iff
  proof
    fix e assume "e \<in> set es"
    then obtain x where x0: "x \<in> set (in_snapshots i)"
        "e \<in> (case snapshot_edges i x of Inl _ \<Rightarrow> {} | Inr es \<Rightarrow> set es)"
      unfolding es by (rule UN_E)
    obtain es' where "snapshot_edges i x = Inr es'" using ok x0(1) by blast
    with x0 have x: "x \<in> set (in_snapshots i)" "snapshot_edges i x = Inr es'" "e \<in> set es'" by simp_all
    then have "ends_in (fst ` set (in_snapshots i)) es'" by (intro snapshot_edges_ends[of i x]) auto
    with x(3) show "eg_from e \<in> fst ` set (in_snapshots i) \<and> eg_to e \<in> fst ` set (in_snapshots i) \<and>
        (eg_kind e = edge_relay_layer \<or> eg_kind e = edge_egress_executor)"
      unfolding ends_in_def list_all_iff by blast
  qed
  note ends = this
  then have "list_all edge_clean es" using nul by (rule ends_in_clean)
  moreover have "list_all (\<lambda>e. trim_space (eg_from e) = eg_from e \<and> trim_space (eg_to e) = eg_to e) es"
    using ends agents by (auto simp: ends_in_def list_all_iff entry_agent_def)
  moreover have "list_all (\<lambda>n. no_nul (nd_agent_id n)) (in_nodes i)"
    using f clean trim_space_no_nul by (auto simp: no_inputs_def clean_revisions_def list_all_iff entry_agent_def)
  ultimately show ?thesis using that[OF k(1) ok es k(3)] k(4) by blast
qed

lemma build_plan_permuted:
  assumes b: "build_plan order w action vs = Inr p" and perm: "\<And>xs. mset (order xs) = mset xs"
    and perm': "\<And>xs. mset (order' xs) = mset xs" and clean: "clean_revisions vs"
  shows "build_plan order' w action vs = Inr p"
proof -
  obtain i es where k: "collect action vs no_inputs = Inr i"
    "\<forall>x \<in> set (in_snapshots i). \<exists>es. snapshot_edges i x = Inr es"
    "set es = (\<Union>x \<in> set (in_snapshots i). case snapshot_edges i x of Inl _ \<Rightarrow> {} | Inr es \<Rightarrow> set es)"
    "new_plan w action (in_nodes i) (fst (fold add_edge es ([], []))) = Inr p"
    "list_all edge_clean es" "list_all (\<lambda>n. no_nul (nd_agent_id n)) (in_nodes i)"
    "action = action_apply \<or> action = action_delete" "list_all (\<lambda>e. trim_space (eg_from e) = eg_from e \<and> trim_space (eg_to e) = eg_to e) es"
    by (rule build_plan_parts[OF b perm clean]) (rule that; assumption)
  have same: "set (order' (in_snapshots i)) = set (in_snapshots i)" using perm' by (metis mset_eq_setD)
  then obtain es' where es': "all_edges i (order' (in_snapshots i)) = Inr es'"
    using all_edges_set(1)[of i "order' (in_snapshots i)"] k(2) by blast
  have eq: "set es' = set es" using all_edges_set(2)[OF es'] k(3) same by simp
  then have "list_all edge_clean es'" using k(5) list_all_set by blast
  then have "set (fst (fold add_edge es ([], []))) = set (fst (fold add_edge es' ([], [])))"
    using add_edges_set[OF k(5)] add_edges_set eq by simp
  then have "new_plan w action (in_nodes i) (fst (fold add_edge es' ([], []))) = Inr p"
    by (rule new_plan_same_set[OF k(4) _ k(6)])
  then show ?thesis using k(1,7) es' by (auto simp: build_plan_def)
qed

text \<open>C13.
  The plan derived from snapshots does not depend on the order in which Go iterates over the map of
  snapshots: if one iteration order gives a plan, every order gives that same plan (agent ids
  contain no zero byte).\<close>

theorem build_plan_order_independent:
  assumes "\<And>xs. mset (order xs) = mset xs" and "\<And>xs. mset (order' xs) = mset xs" and "clean_revisions vs"
  shows "build_plan order w action vs = Inr p \<longleftrightarrow> build_plan order' w action vs = Inr p"
  using build_plan_permuted[OF _ assms(1,2,3)] build_plan_permuted[OF _ assms(2,1,3)] by blast

text \<open>Every agent a rule is relayed through is reached from the owner along the edges.\<close>

lemma edge_rel_mono: "set es \<subseteq> set es' \<Longrightarrow> (edge_rel es)\<^sup>* \<subseteq> (edge_rel es')\<^sup>*"
  by (intro rtrancl_mono) (auto simp: edge_rel_def)

lemma relay_edges_reach:
  assumes "relay_edges i resource n previous layers = Inr (es, final)" and "previous \<noteq> []"
    and "\<And>q. q \<in> set previous \<Longrightarrow> (owner, q) \<in> (edge_rel all)\<^sup>*" and "set es \<subseteq> set all"
    and "layer \<in> set layers" and "k \<in> set layer" and "in_listeners i k = Some l"
  shows "(owner, trim_space (rl_agent_id l)) \<in> (edge_rel all)\<^sup>*"
  using assms
proof (induction layers arbitrary: n previous es)
  case (Cons layer' layers)
  from Cons.prems(1) show ?case
  proof (cases rule: relay_edges_step)
    case empty
    then have "layer \<noteq> layer'" using layer_agents_member[of i layer' "[]" k l] Cons.prems(6,7) by auto
    with Cons.IH[OF empty(2) Cons.prems(2,3,4) _ Cons.prems(6,7)] Cons.prems(5) show ?thesis by simp
  next
    case (hop as es')
    have step: "(owner, b) \<in> (edge_rel all)\<^sup>*" if b: "b \<in> set (sorted_set as)" for b
    proof -
      obtain q where q: "q \<in> set previous" using Cons.prems(2) by (cases previous) auto
      let ?e = "\<lparr>eg_from = q, eg_to = b, eg_kind = edge_relay_layer, eg_resource = layer_resource resource n\<rparr>"
      have "?e \<in> set (layer_edges resource n previous (sorted_set as))" unfolding layer_edges_iff using q b by blast
      then have "?e \<in> set es" unfolding hop(4) by simp
      then have "(q, b) \<in> edge_rel all" using Cons.prems(4) by (force simp: edge_rel_def)
      with Cons.prems(3)[OF q] show ?thesis by (rule rtrancl_into_rtrancl)
    qed
    show ?thesis
    proof (cases "layer = layer'")
      case True
      with layer_agents_member[OF hop(1) _ Cons.prems(7)] Cons.prems(6) step show ?thesis by simp
    next
      case False
      have ne: "sorted_set as \<noteq> []" using hop(2) by (metis set_empty sorted_set_set)
      have sub: "set es' \<subseteq> set all" using Cons.prems(4) hop(4) by simp
      from Cons.IH[OF hop(3) ne step sub _ Cons.prems(6,7)] False Cons.prems(5) show ?thesis by simp
    qed
  qed
qed simp

lemma rules_edges_reach:
  assumes "rules_edges i prefix agent rs = Inr es" and "set es \<subseteq> set all" and "r \<in> set rs"
    and "layer \<in> set (pr_relay_layers r)" and "k \<in> set layer" and "in_listeners i k = Some l"
  shows "(agent, trim_space (rl_agent_id l)) \<in> (edge_rel all)\<^sup>*"
  using assms(1-3)
proof (induction rs arbitrary: es)
  case (Cons r' rs)
  let ?o = "normalized_resource_agent agent (pr_agent_id r')"
  obtain es1 es2 where ne: "?o \<noteq> []" and k: "add_rule_edges i ?o (prefix @ ?o @ '':'' @ itoa (pr_id r')) r' = Inr es1"
      "rules_edges i prefix agent rs = Inr es2" "es = es1 @ es2"
    using Cons.prems(1) by (auto simp: Let_def tx_bind_Inr_iff split: if_splits)
  show ?case
  proof (cases "r = r'")
    case True
    obtain es3 final where q: "relay_edges i (prefix @ ?o @ '':'' @ itoa (pr_id r')) 0 [?o] (pr_relay_layers r') = Inr (es3, final)"
        "set es3 \<subseteq> set es1"
      using k(1) by (cases "pr_egress_profile_id r'") (auto simp: add_rule_edges_def tx_bind_Inr_iff)
    have "set es3 \<subseteq> set all" using q(2) k(3) Cons.prems(2) by auto
    from relay_edges_reach[OF q(1) _ _ this, of agent layer k l] True assms(4-6) normalized_owner[OF ne]
    show ?thesis by simp
  next
    case False
    with Cons.IH[OF k(2)] Cons.prems k(3) show ?thesis by simp
  qed
qed simp

lemma plan_edge_rel:
  assumes p: "new_plan w action nodes es = Inr p" and nul: "list_all (\<lambda>n. no_nul (nd_agent_id n)) nodes"
  shows "edge_rel (pl_edges p) = edge_rel (links es)"
proof -
  obtain ns0 es0 c where k: "canonical_nodes nodes [] = Inr ns0" "canonical_edges (map nd_agent_id ns0) es [] = Inr es0"
    and r: "Inr p = (if c = [] then Inr \<lparr>pl_version = 1, pl_operation_id = trim_space w, pl_action = action,
                       pl_nodes = sort_key nd_agent_id ns0, pl_edges = sort_key edge_rank es0\<rparr>
          else Inl (DCycle c))"
    using p by (rule new_plan_cases) auto
  have "set (pl_edges p) = set (links es)"
    using r dedup_set[OF edge_input_clean[OF nul k] k(2)] by (simp split: if_splits)
  then show ?thesis by (rule edge_rel_set)
qed

lemma plan_keeps_paths:
  assumes p: "new_plan w action nodes (fst (fold add_edge es ([], []))) = Inr p" and es: "list_all edge_clean es"
    and nul: "list_all (\<lambda>n. no_nul (nd_agent_id n)) nodes" and trimmed: "list_all (\<lambda>e. trim_space (eg_from e) = eg_from e \<and> trim_space (eg_to e) = eg_to e) es"
  shows "(edge_rel es)\<^sup>* \<subseteq> (edge_rel (pl_edges p))\<^sup>*"
proof -
  have "edge_rel es \<subseteq> (edge_rel (pl_edges p))\<^sup>="
    unfolding plan_edge_rel[OF p nul]
  proof
    fix x assume "x \<in> edge_rel es"
    then obtain e where e: "e \<in> set es" "x = (eg_from e, eg_to e)" by (auto simp: edge_rel_def)
    have ends: "eg_from (trim_edge e) = eg_from e" "eg_to (trim_edge e) = eg_to e"
      using trimmed e(1) by (simp_all add: list_all_iff trim_edge_def)
    show "x \<in> (edge_rel (links (fst (fold add_edge es ([], [])))))\<^sup>="
    proof (cases "eg_from e = eg_to e")
      case False
      then have "trim_edge e \<in> set (links (fst (fold add_edge es ([], []))))"
        using e(1) ends add_edges_set[OF es] by (simp add: links_def)
      then have "(eg_from (trim_edge e), eg_to (trim_edge e)) \<in> edge_rel (links (fst (fold add_edge es ([], []))))"
        unfolding edge_rel_def by (rule imageI)
      then show ?thesis unfolding e(2) ends by simp
    qed (simp add: e(2))
  qed
  then show ?thesis by (metis rtrancl_mono rtrancl_reflcl)
qed

text \<open>The plan knows every agent traffic passes through: if a revision of the operation has a rule that
  is relayed through a listener which another revision of the operation owns, then the rule's agent
  depends on the listener's agent, directly or through the agents of the layers between them.\<close>

theorem build_plan_relays_depend:
  assumes b: "build_plan order w action vs = Inr p" and perm: "\<And>xs. mset (order xs) = mset xs"
    and clean: "clean_revisions vs" and v: "v \<in> set vs"
    and r: "r \<in> set (sn_rules (sv_snapshot v)) \<union> set (sn_l4_rules (sv_snapshot v))"
    and layer: "layer \<in> set (pr_relay_layers r)" "rl_id l \<in> set layer"
    and l: "u \<in> set vs" "l \<in> set (sn_relay_listeners (sv_snapshot u))"
      "trim_space (rl_agent_id l) = trim_space (sv_agent_id u)"
  shows "(trim_space (sv_agent_id v), trim_space (rl_agent_id l)) \<in> (edge_rel (pl_edges p))\<^sup>*"
proof -
  obtain i es where k: "collect action vs no_inputs = Inr i"
    "\<forall>x \<in> set (in_snapshots i). \<exists>es. snapshot_edges i x = Inr es"
    "set es = (\<Union>x \<in> set (in_snapshots i). case snapshot_edges i x of Inl _ \<Rightarrow> {} | Inr es \<Rightarrow> set es)"
    "new_plan w action (in_nodes i) (fst (fold add_edge es ([], []))) = Inr p"
    "list_all edge_clean es" "list_all (\<lambda>n. no_nul (nd_agent_id n)) (in_nodes i)"
    "action = action_apply \<or> action = action_delete" "list_all (\<lambda>e. trim_space (eg_from e) = eg_from e \<and> trim_space (eg_to e) = eg_to e) es"
    by (rule build_plan_parts[OF b perm clean]) (rule that; assumption)
  note f = collect_fields[OF k(1)]
  have known: "in_listeners i (rl_id l) = Some l" using f l by (simp add: owned_def entry_agent_def)
  have snap: "(entry_agent v, sv_snapshot v) \<in> set (in_snapshots i)" using f v by (simp add: no_inputs_def)
  then obtain es1 where es1: "snapshot_edges i (entry_agent v, sv_snapshot v) = Inr es1" using k(2) by blast
  then have sub: "set es1 \<subseteq> set es" using snap unfolding k(3) by force
  obtain es2 es3 where e: "rules_edges i ''http_rule:'' (entry_agent v) (sn_rules (sv_snapshot v)) = Inr es2"
      "rules_edges i ''l4_rule:'' (entry_agent v) (sn_l4_rules (sv_snapshot v)) = Inr es3" "es1 = es2 @ es3"
    using es1 by (auto simp: snapshot_edges_def tx_bind_Inr_iff)
  have "(entry_agent v, trim_space (rl_agent_id l)) \<in> (edge_rel es)\<^sup>*"
    using r
  proof
    assume "r \<in> set (sn_rules (sv_snapshot v))"
    from rules_edges_reach[OF e(1) _ this layer known] sub e(3) show ?thesis by simp
  next
    assume "r \<in> set (sn_l4_rules (sv_snapshot v))"
    from rules_edges_reach[OF e(2) _ this layer known] sub e(3) show ?thesis by simp
  qed
  also have "(edge_rel es)\<^sup>* \<subseteq> (edge_rel (pl_edges p))\<^sup>*"
    by (rule plan_keeps_paths[OF k(4,5,6,8)])
  finally show ?thesis by (simp add: entry_agent_def)
qed

definition sample_listener :: "int \<Rightarrow> string \<Rightarrow> relay_listener" where
  "sample_listener k a = \<lparr>rl_id = k, rl_agent_id = a, rl_enabled = True\<rparr>"

definition empty_snapshot :: "int \<Rightarrow> snapshot" where
  "empty_snapshot n = \<lparr>sn_revision = n, sn_rules = [], sn_l4_rules = [], sn_relay_listeners = [],
     sn_egress_profiles = []\<rparr>"

definition sample_revisions :: "snapshot_revision list" where
  "sample_revisions =
     [\<lparr>sv_agent_id = ''edge'', sv_revision = 4, sv_snapshot = (empty_snapshot 4)
        \<lparr>sn_rules := [\<lparr>pr_id = 9, pr_agent_id = [], pr_relay_layers = [[1], [2]], pr_egress_profile_id = Some 3\<rparr>],
         sn_relay_listeners := [sample_listener 1 ''core'']\<rparr>\<rparr>,
      \<lparr>sv_agent_id = ''core'', sv_revision = 7, sv_snapshot = (empty_snapshot 7)
        \<lparr>sn_relay_listeners := [sample_listener 1 ''core'']\<rparr>\<rparr>,
      \<lparr>sv_agent_id = ''exit'', sv_revision = 2, sv_snapshot = (empty_snapshot 2)
        \<lparr>sn_relay_listeners := [sample_listener 2 ''exit''],
         sn_egress_profiles := [\<lparr>ep_id = 3, ep_enabled = True\<rparr>]\<rparr>\<rparr>]"

definition derived_edge :: "string \<Rightarrow> string \<Rightarrow> string \<Rightarrow> string \<Rightarrow> dep_edge" where
  "derived_edge a b k r = \<lparr>eg_from = a, eg_to = b, eg_kind = k, eg_resource = ''http_rule:edge:9:'' @ r\<rparr>"

definition derived_plan :: dep_plan where
  "derived_plan = sample_plan\<lparr>pl_edges :=
     [derived_edge ''core'' ''exit'' edge_relay_layer ''layer:1'',
      derived_edge ''edge'' ''core'' edge_relay_layer ''layer:0'',
      derived_edge ''edge'' ''exit'' edge_egress_executor ''egress:3'']\<rparr>"

lemma derived_plan_built: "build_plan rev ''op-1'' action_apply sample_revisions = Inr derived_plan"
  by code_simp

lemma sample_revisions_clean: "clean_revisions sample_revisions"
  by code_simp

lemma build_plan_order_independent_witness:
  "build_plan id ''op-1'' action_apply sample_revisions = Inr derived_plan"
  using derived_plan_built build_plan_order_independent[of rev id, OF mset_rev _ sample_revisions_clean]
  by simp

lemma build_plan_relays_depend_witness:
  "(''edge'', ''exit'') \<in> (edge_rel (pl_edges derived_plan))\<^sup>*"
proof -
  let ?v = "sample_revisions ! 0" and ?u = "sample_revisions ! 2" and ?l = "sample_listener 2 ''exit''"
  let ?r = "sn_rules (sv_snapshot ?v) ! 0"
  have v: "?v \<in> set sample_revisions" "?u \<in> set sample_revisions" by (rule nth_mem, code_simp)+
  have r: "?r \<in> set (sn_rules (sv_snapshot ?v)) \<union> set (sn_l4_rules (sv_snapshot ?v))" by code_simp
  have layer: "[2] \<in> set (pr_relay_layers ?r)" "rl_id ?l \<in> set [2]" by code_simp+
  have l: "?l \<in> set (sn_relay_listeners (sv_snapshot ?u))"
    "trim_space (rl_agent_id ?l) = trim_space (sv_agent_id ?u)" by code_simp+
  have names: "trim_space (sv_agent_id ?v) = ''edge''" "trim_space (rl_agent_id ?l) = ''exit''" by code_simp+
  show ?thesis
    using build_plan_relays_depend[OF derived_plan_built mset_rev sample_revisions_clean v(1) r layer v(2) l]
    unfolding names .
qed

end
