(* ===== verification/DepCoord.thy ===== *)
theory DepCoord
  imports Coordinator DepEval DepSnapshot
begin

text \<open>
  Operations that span several agents: \<open>coordinator/dependency.go\<close>, a client of the ledger through
  the interfaces \<open>dependencyRepository\<close> and \<open>persistedDependencyRepository\<close>, and the queries of
  \<open>storage/revision_dependency.go\<close> that implement part of them. The stored plan of an operation is
  checked against its revisions and rebuilt from their snapshots, the agents' states are read from
  the ledger, and a lease is claimed only for an agent that the evaluation puts on the frontier.
\<close>

subsection \<open>Errors and the interface\<close>

text \<open>An error wraps a sentinel of the dependency package or of the ledger, or is a plain error.\<close>

datatype dependency_failure =
    FPlan dep_error
  | FLedger coord_error
  | FOther

definition lift_plan :: "dep_error + 'a \<Rightarrow> dependency_failure + 'a" where
  "lift_plan m = (case m of Inl e \<Rightarrow> Inl (FPlan e) | Inr a \<Rightarrow> Inr a)"

definition lift_ledger :: "coord_error + 'a \<Rightarrow> dependency_failure + 'a" where
  "lift_ledger m = (case m of Inl e \<Rightarrow> Inl (FLedger e) | Inr a \<Rightarrow> Inr a)"

text \<open>
  One field per method. Loading a runtime snapshot may store a normalised copy of it, so it returns
  the repository's new state; the snapshot comes with the flag \<open>Normalized\<close>.
\<close>

record 's dependency_repository =
  dq_revision :: "string \<Rightarrow> int \<Rightarrow> 's \<Rightarrow> agent_revision option"
  dq_pointer :: "string \<Rightarrow> 's \<Rightarrow> revision_pointer option"
  dq_agent_revisions :: "string \<Rightarrow> 's \<Rightarrow> agent_revision list"
  dq_snapshot :: "string \<Rightarrow> int \<Rightarrow> 's \<Rightarrow> (dependency_failure + (snapshot \<times> bool) option) \<times> 's"
  dq_artifact :: "string \<Rightarrow> 's \<Rightarrow> dependency_failure + generation_artifact option"
  dq_operation_revisions :: "string \<Rightarrow> 's \<Rightarrow> dependency_failure + agent_revision list"

subsection \<open>The ledger's queries\<close>

definition list_operation_revisions :: "string \<Rightarrow> db \<Rightarrow> dependency_failure + agent_revision list" where
  "list_operation_revisions operation_id0 db =
     (let operation_id = trim_space operation_id0 in
      if operation_id = [] then Inl FOther
      else Inr (sort_key rv_key (filter (\<lambda>r. rv_operation_id r = operation_id) (db_revisions db))))"

definition list_agent_revisions :: "string \<Rightarrow> db \<Rightarrow> agent_revision list" where
  "list_agent_revisions agent db =
     sort_key rv_revision (filter (\<lambda>r. rv_agent_id r = trim_space agent) (db_revisions db))"

definition get_agent_revision_pointer :: "string \<Rightarrow> db \<Rightarrow> revision_pointer option" where
  "get_agent_revision_pointer agent db = find (\<lambda>p. pt_agent_id p = trim_space agent) (db_pointers db)"

text \<open>
  \<open>GetGenerationArtifact\<close>: a stored row is validated; the content of an external one is read from
  its file, which is the argument \<open>read_file\<close>.
\<close>

definition materialize_generation_artifact ::
  "'snap snapshot_format \<Rightarrow> (generation_artifact \<Rightarrow> generation_artifact option) \<Rightarrow> generation_artifact \<Rightarrow>
   dependency_failure + generation_artifact" where
  "materialize_generation_artifact fmt read_file a =
     (if \<not> validate_generation_artifact fmt a then Inl (FLedger EArtifact)
      else if trim_space (ga_external_path a) = [] then Inr a
      else (case read_file a of None \<Rightarrow> Inl (FLedger EArtifact) | Some b \<Rightarrow> Inr b))"

definition get_generation_artifact ::
  "'snap snapshot_format \<Rightarrow> (generation_artifact \<Rightarrow> generation_artifact option) \<Rightarrow> string \<Rightarrow> db \<Rightarrow>
   dependency_failure + generation_artifact option" where
  "get_generation_artifact fmt read_file k db =
     (case find (\<lambda>a. ga_id a = trim_space k) (db_artifacts db) of
        None \<Rightarrow> Inr None
      | Some a \<Rightarrow> tx_bind (materialize_generation_artifact fmt read_file a) (\<lambda>b. Inr (Some b)))"

definition dependency_plan_kind :: string where
  "dependency_plan_kind = ''dependency_plan''"

text \<open>The join of the artifact references with the revisions of the operation.\<close>

definition dependency_refs :: "string \<Rightarrow> db \<Rightarrow> artifact_ref list" where
  "dependency_refs operation_id db =
     sort_key (\<lambda>f. (rf_agent_id f, rf_revision f, rf_artifact_id f))
       (filter (\<lambda>f. rf_role f = dependency_plan_kind \<and>
          list_ex (\<lambda>r. rv_agent_id r = rf_agent_id f \<and> rv_revision r = rf_revision f \<and>
             rv_operation_id r = operation_id) (db_revisions db)) (db_artifact_refs db))"

definition get_operation_dependency_artifact ::
  "'snap snapshot_format \<Rightarrow> (generation_artifact \<Rightarrow> generation_artifact option) \<Rightarrow> string \<Rightarrow> db \<Rightarrow>
   dependency_failure + generation_artifact option" where
  "get_operation_dependency_artifact fmt read_file operation_id0 db =
     (let operation_id = trim_space operation_id0 in
      if operation_id = [] then Inl FOther
      else tx_bind (list_operation_revisions operation_id db) (\<lambda>revisions.
        if revisions = [] then Inr None
        else
          let refs = dependency_refs operation_id db in
          if refs = [] then Inr None
          else if length refs \<noteq> length revisions then Inl FOther
          else if \<not> list_all (\<lambda>(f, r). rf_agent_id f = rv_agent_id r \<and> rf_revision f = rv_revision r \<and>
                  rf_artifact_id f = rf_artifact_id (hd refs)) (zip refs revisions) then Inl FOther
          else tx_bind (get_generation_artifact fmt read_file (rf_artifact_id (hd refs)) db) (\<lambda>found.
            case found of
              None \<Rightarrow> Inl FOther
            | Some a \<Rightarrow>
                if ga_kind a \<noteq> dependency_plan_kind then Inl FOther
                else if \<not> validate_generation_artifact fmt a then Inl (FLedger EArtifact)
                else if ga_id a \<noteq> ''dependency-plan-'' @ ga_sha256 a then Inl FOther
                else Inr (Some a))))"

subsection \<open>Rebuilding a plan\<close>

definition precedes :: "int \<Rightarrow> agent_revision \<Rightarrow> bool" where
  "precedes target row \<longleftrightarrow> 0 \<le> rv_revision row \<and> rv_revision row < target"

fun newer :: "int \<Rightarrow> agent_revision \<Rightarrow> agent_revision option \<Rightarrow> agent_revision option" where
  "newer target row None = (if precedes target row then Some row else None)"
| "newer target row (Some q) =
     (if precedes target row \<and> rv_revision row > rv_revision q then Some row else Some q)"

definition previous_dependency_revision :: "agent_revision list \<Rightarrow> int \<Rightarrow> agent_revision option" where
  "previous_dependency_revision rows target = fold (newer target) rows None"

text \<open>The revision whose snapshot describes the node: the one before it, for a deletion.\<close>

definition snapshot_row ::
  "'s dependency_repository \<Rightarrow> string \<Rightarrow> string \<Rightarrow> dep_node \<Rightarrow> 's \<Rightarrow> dependency_failure + agent_revision" where
  "snapshot_row q operation_id action node s =
     (case dq_revision q (nd_agent_id node) (nd_revision node) s of
        None \<Rightarrow> Inl (FPlan DMissingDependency)
      | Some row \<Rightarrow>
          if rv_operation_id row \<noteq> operation_id then Inl (FPlan DInvalidPlan)
          else if action = action_delete then
            (case previous_dependency_revision (dq_agent_revisions q (nd_agent_id node) s) (nd_revision node) of
               None \<Rightarrow> Inl (FPlan DMissingDependency)
             | Some row' \<Rightarrow> Inr row')
          else Inr row)"

fun load_snapshots ::
  "'s dependency_repository \<Rightarrow> string \<Rightarrow> string \<Rightarrow> dep_node list \<Rightarrow> 's \<Rightarrow>
   (dependency_failure + snapshot_revision list \<times> bool) \<times> 's" where
  "load_snapshots q operation_id action [] s = (Inr ([], False), s)"
| "load_snapshots q operation_id action (node # nodes) s =
     (case snapshot_row q operation_id action node s of
        Inl e \<Rightarrow> (Inl e, s)
      | Inr row \<Rightarrow>
          (case dq_snapshot q (nd_agent_id node) (rv_revision row) s of
             (Inl e, s1) \<Rightarrow> (Inl e, s1)
           | (Inr None, s1) \<Rightarrow> (Inl (FPlan DMissingDependency), s1)
           | (Inr (Some (snap, normal)), s1) \<Rightarrow>
               (case load_snapshots q operation_id action nodes s1 of
                  (Inl e, s2) \<Rightarrow> (Inl e, s2)
                | (Inr (vs, normal'), s2) \<Rightarrow>
                    (Inr (\<lparr>sv_agent_id = nd_agent_id node, sv_revision = nd_revision node, sv_snapshot = snap\<rparr> # vs,
                          normal \<or> normal'), s2))))"

type_synonym snapshot_order = "(string \<times> snapshot) list \<Rightarrow> (string \<times> snapshot) list"

definition rebuild_dependency_plan ::
  "'s dependency_repository option \<Rightarrow> snapshot_order \<Rightarrow> string \<Rightarrow> string \<Rightarrow> dep_node list \<Rightarrow> 's \<Rightarrow>
   (dependency_failure + dep_plan \<times> bool) \<times> 's" where
  "rebuild_dependency_plan repo order operation_id action nodes s =
     (case repo of
        None \<Rightarrow> (Inl FOther, s)
      | Some q \<Rightarrow>
          (case new_plan (trim_space operation_id) action nodes [] of
             Inl e \<Rightarrow> (Inl (FPlan e), s)
           | Inr skeleton \<Rightarrow>
               (case load_snapshots q (pl_operation_id skeleton) action (pl_nodes skeleton) s of
                  (Inl e, s1) \<Rightarrow> (Inl e, s1)
                | (Inr (vs, normal), s1) \<Rightarrow>
                    (case build_plan order (pl_operation_id skeleton) action vs of
                       Inl e \<Rightarrow> (Inl (FPlan e), s1)
                     | Inr p \<Rightarrow> (Inr (p, normal), s1)))))"

definition derived_resource :: "dep_edge \<Rightarrow> bool" where
  "derived_resource e \<longleftrightarrow> take 10 (eg_resource e) = ''http_rule:'' \<or> take 8 (eg_resource e) = ''l4_rule:''"

definition dependency_derived_edges_differ :: "dep_plan \<Rightarrow> dep_plan \<Rightarrow> bool" where
  "dependency_derived_edges_differ persisted rebuilt =
     (let derived = list_ex derived_resource (pl_edges persisted) in
      if \<not> derived \<or> length (pl_edges persisted) \<noteq> length (pl_edges rebuilt) then derived
      else list_ex (\<lambda>(a, b). a \<noteq> b) (zip (pl_edges persisted) (pl_edges rebuilt)))"

definition load_dependency_plan ::
  "'s dependency_repository option \<Rightarrow> snapshot_order \<Rightarrow> (string \<Rightarrow> dep_plan option) \<Rightarrow> string \<Rightarrow> 's \<Rightarrow>
   (dependency_failure + dep_plan) \<times> 's" where
  "load_dependency_plan repo order decode operation_id0 s =
     (case repo of
        None \<Rightarrow> (Inl FOther, s)
      | Some q \<Rightarrow>
          let operation_id = trim_space operation_id0 in
          (case dq_artifact q operation_id s of
             Inl e \<Rightarrow> (Inl e, s)
           | Inr None \<Rightarrow> (Inl (FPlan DMissingDependency), s)
           | Inr (Some artifact) \<Rightarrow>
               (case parse_plan decode (ga_payload artifact) of
                  Inl e \<Rightarrow> (Inl (FPlan e), s)
                | Inr plan \<Rightarrow>
                    if pl_operation_id plan \<noteq> operation_id then (Inl (FPlan DInvalidPlan), s)
                    else
                      (case dq_operation_revisions q operation_id s of
                         Inl e \<Rightarrow> (Inl e, s)
                       | Inr revisions \<Rightarrow>
                           if map (\<lambda>n. (nd_agent_id n, nd_revision n)) (pl_nodes plan) \<noteq> map rv_key revisions
                           then (Inl (FPlan DInvalidPlan), s)
                           else
                             (case rebuild_dependency_plan repo order operation_id (pl_action plan) (pl_nodes plan) s of
                                (Inl e, s1) \<Rightarrow> (Inl e, s1)
                              | (Inr (rebuilt, normal), s1) \<Rightarrow>
                                  (Inr (if normal \<or> dependency_derived_edges_differ plan rebuilt then rebuilt
                                        else plan), s1))))))"

subsection \<open>Evaluating a plan against the ledger\<close>

text \<open>The dependency state of one node; pending and applying revisions are fenced by the pointer.\<close>

definition node_state ::
  "'s dependency_repository \<Rightarrow> string \<Rightarrow> dep_node \<Rightarrow> 's \<Rightarrow> dependency_failure + dep_state" where
  "node_state q operation_id node s =
     (case dq_revision q (nd_agent_id node) (nd_revision node) s of
        None \<Rightarrow> Inl (FPlan DMissingDependency)
      | Some row \<Rightarrow>
          if rv_operation_id row \<noteq> operation_id then Inl (FPlan DMissingDependency)
          else if rv_state row = RevApplied then Inr StSucceeded
          else if rv_state row = RevFailed then Inr StFailed
          else if rv_state row = RevSuperseded then Inr StSuperseded
          else (case dq_pointer q (nd_agent_id node) s of
              None \<Rightarrow> Inl (FPlan DMissingDependency)
            | Some pt \<Rightarrow>
                if pt_desired_revision pt < nd_revision node then Inl (FPlan DInvalidPlan)
                else if pt_desired_revision pt > nd_revision node then Inr StSuperseded
                else if pt_applied_revision pt \<ge> nd_revision node then Inr StSucceeded
                else Inr (if rv_state row = RevPending then StWaiting else StRunning)))"

fun node_states ::
  "'s dependency_repository \<Rightarrow> string \<Rightarrow> dep_node list \<Rightarrow> 's \<Rightarrow>
   dependency_failure + (string \<Rightarrow> dep_state option)" where
  "node_states q operation_id [] s = Inr (\<lambda>_. None)"
| "node_states q operation_id (node # nodes) s =
     tx_bind (node_state q operation_id node s) (\<lambda>st.
       tx_bind (node_states q operation_id nodes s) (\<lambda>states.
         Inr (if states (nd_agent_id node) = None then states(nd_agent_id node \<mapsto> st) else states)))"

definition evaluate_dependency_plan ::
  "'s dependency_repository option \<Rightarrow> dep_plan \<Rightarrow> 's \<Rightarrow> dependency_failure + evaluation" where
  "evaluate_dependency_plan repo plan s =
     (case repo of
        None \<Rightarrow> Inl FOther
      | Some q \<Rightarrow>
          tx_bind (lift_plan (canonical_plan plan)) (\<lambda>_.
            tx_bind (node_states q (pl_operation_id plan) (pl_nodes plan) s) (\<lambda>states.
              case evaluate plan states of None \<Rightarrow> Inl FOther | Some e \<Rightarrow> Inr e)))"

definition evaluate_dependency_operation ::
  "'s dependency_repository option \<Rightarrow> snapshot_order \<Rightarrow> (string \<Rightarrow> dep_plan option) \<Rightarrow> string \<Rightarrow> 's \<Rightarrow>
   (dependency_failure + evaluation) \<times> 's" where
  "evaluate_dependency_operation repo order decode operation_id s =
     (case load_dependency_plan repo order decode operation_id s of
        (Inl e, s1) \<Rightarrow> (Inl e, s1)
      | (Inr plan, s1) \<Rightarrow> (evaluate_dependency_plan repo plan s1, s1))"

subsection \<open>Claiming\<close>

type_synonym node_claim = "dep_node \<times> (coord_error + claim_result)"

record frontier_result =
  fr_plan :: dep_plan
  fr_evaluation :: evaluation
  fr_claims :: "(dep_node \<times> claim_result) list"

text \<open>
  Claims every frontier node in turn; the first error stops the pass and is returned with the claims
  made so far (for the node that failed, Go appends an empty result, which is left out).
\<close>

fun claim_nodes ::
  "'s coordinator \<Rightarrow> string \<Rightarrow> dep_node list \<Rightarrow> 's session \<Rightarrow>
   ((dep_node \<times> claim_result) list \<times> coord_error option) \<times> 's session" where
  "claim_nodes c operation_id [] st = (([], None), st)"
| "claim_nodes c operation_id (node # nodes) st =
     (case claim_dependency_node c operation_id (nd_agent_id node) (nd_revision node) st of
        (Inl e, st1) \<Rightarrow> (([], Some e), st1)
      | (Inr r, st1) \<Rightarrow>
          (case claim_nodes c operation_id nodes st1 of
             ((rs, e), st2) \<Rightarrow> (((node, r) # rs, e), st2)))"

definition claim_dependency_frontier ::
  "'s coordinator \<Rightarrow> 's dependency_repository option \<Rightarrow> snapshot_order \<Rightarrow> (string \<Rightarrow> dep_plan option) \<Rightarrow>
   string \<Rightarrow> 's session \<Rightarrow> (dependency_failure + frontier_result \<times> coord_error option) \<times> 's session" where
  "claim_dependency_frontier c repo order decode operation_id st =
     (case st of (n, s) \<Rightarrow>
      case load_dependency_plan repo order decode operation_id s of
        (Inl e, s1) \<Rightarrow> (Inl e, n, s1)
      | (Inr plan, s1) \<Rightarrow>
          (case evaluate_dependency_plan repo plan s1 of
             Inl e \<Rightarrow> (Inl e, n, s1)
           | Inr ev \<Rightarrow>
               (case claim_nodes c (pl_operation_id plan) (ev_frontier ev) (n, s1) of
                  ((rs, e), st2) \<Rightarrow>
                    (Inr (\<lparr>fr_plan = plan, fr_evaluation = ev, fr_claims = rs\<rparr>, e), st2))))"

text \<open>An agent pulls its own node: \<open>ag_claim\<close> is \<open>None\<close> when the node is not eligible.\<close>

record agent_claim_result =
  ag_plan :: dep_plan
  ag_evaluation :: evaluation
  ag_node :: dep_node
  ag_claim :: "(coord_error + claim_result) option"

definition claim_dependency_agent ::
  "'s coordinator \<Rightarrow> 's dependency_repository option \<Rightarrow> snapshot_order \<Rightarrow> (string \<Rightarrow> dep_plan option) \<Rightarrow>
   string \<Rightarrow> string \<Rightarrow> 's session \<Rightarrow> (dependency_failure + agent_claim_result) \<times> 's session" where
  "claim_dependency_agent c repo order decode operation_id agent0 st =
     (case st of (n, s) \<Rightarrow>
      case load_dependency_plan repo order decode operation_id s of
        (Inl e, s1) \<Rightarrow> (Inl e, n, s1)
      | (Inr plan, s1) \<Rightarrow>
          (case evaluate_dependency_plan repo plan s1 of
             Inl e \<Rightarrow> (Inl e, n, s1)
           | Inr ev \<Rightarrow>
               let agent = trim_space agent0 in
               if agent = [] then (Inl FOther, n, s1)
               else (case find (\<lambda>m. nd_agent_id m = agent) (pl_nodes plan) of
                   None \<Rightarrow> (Inl (FPlan DMissingDependency), n, s1)
                 | Some node \<Rightarrow>
                     (case find (\<lambda>m. nd_agent_id m = agent) (ev_frontier ev) of
                        None \<Rightarrow> (Inr \<lparr>ag_plan = plan, ag_evaluation = ev, ag_node = node, ag_claim = None\<rparr>, n, s1)
                      | Some m \<Rightarrow>
                          (case claim_dependency_node c (pl_operation_id plan) (nd_agent_id m) (nd_revision m) (n, s1) of
                             (r, st2) \<Rightarrow>
                               (Inr \<lparr>ag_plan = plan, ag_evaluation = ev, ag_node = node, ag_claim = Some r\<rparr>, st2))))))"

subsection \<open>Properties\<close>

lemma lift_plan_Inr [simp]: "lift_plan m = Inr a \<longleftrightarrow> m = Inr a"
  by (cases m) (simp_all add: lift_plan_def)

text \<open>\<open>previousDependencyRevision\<close> finds the newest earlier revision.\<close>

lemma newer_fold_Some:
  "precedes target q \<Longrightarrow> \<exists>x. fold (newer target) rows (Some q) = Some x \<and> precedes target x \<and>
     (x \<in> set rows \<or> x = q) \<and> rv_revision q \<le> rv_revision x \<and>
     list_all (\<lambda>r. precedes target r \<longrightarrow> rv_revision r \<le> rv_revision x) rows"
proof (induction rows arbitrary: q)
  case (Cons row rows)
  show ?case
  proof (cases "precedes target row \<and> rv_revision row > rv_revision q")
    case True
    with Cons.IH[of row] obtain x where x: "fold (newer target) rows (Some row) = Some x" "precedes target x"
        "x \<in> set rows \<or> x = row" "rv_revision row \<le> rv_revision x"
        "list_all (\<lambda>r. precedes target r \<longrightarrow> rv_revision r \<le> rv_revision x) rows" by blast
    with True show ?thesis by (intro exI[of _ x]) auto
  next
    case False
    with Cons.IH[OF Cons.prems] obtain x where x: "fold (newer target) rows (Some q) = Some x" "precedes target x"
        "x \<in> set rows \<or> x = q" "rv_revision q \<le> rv_revision x"
        "list_all (\<lambda>r. precedes target r \<longrightarrow> rv_revision r \<le> rv_revision x) rows" by blast
    with False show ?thesis by (intro exI[of _ x]) auto
  qed
qed simp

lemma newer_fold_None:
  "fold (newer target) rows None = None \<and> list_all (\<lambda>r. \<not> precedes target r) rows \<or>
   (\<exists>x. fold (newer target) rows None = Some x \<and> precedes target x \<and> x \<in> set rows \<and>
     list_all (\<lambda>r. precedes target r \<longrightarrow> rv_revision r \<le> rv_revision x) rows)"
proof (induction rows)
  case (Cons row rows)
  show ?case
  proof (cases "precedes target row")
    case True
    from newer_fold_Some[OF True, of rows] obtain x where "fold (newer target) rows (Some row) = Some x" "precedes target x"
        "x \<in> set rows \<or> x = row" "rv_revision row \<le> rv_revision x"
        "list_all (\<lambda>r. precedes target r \<longrightarrow> rv_revision r \<le> rv_revision x) rows" by blast
    with True show ?thesis by (intro disjI2 exI[of _ x]) auto
  next
    case False
    with Cons.IH show ?thesis by auto
  qed
qed simp

text \<open>\<open>previousDependencyRevision\<close> finds the newest revision before the target among any rows, in any
  order, and nothing only if there is none; so a deletion is planned from the snapshot that was
  desired right before it.\<close>

theorem previous_revision_is_newest:
  "case previous_dependency_revision rows target of
     None \<Rightarrow> filter (precedes target) rows = []
   | Some x \<Rightarrow> x \<in> set rows \<and> precedes target x \<and>
       filter (\<lambda>r. precedes target r \<and> rv_revision x < rv_revision r) rows = []"
  using newer_fold_None[of target rows]
  by (auto simp: previous_dependency_revision_def filter_empty_conv list_all_iff not_less)

subsection \<open>The laws of the interface and the ledger\<close>

text \<open>What the client relies on: rows that are found are the rows that were asked for.\<close>

locale dependency_store =
  fixes q :: "'s dependency_repository"
  assumes revision_found: "dq_revision q agent n s = Some r \<Longrightarrow> rv_agent_id r = trim_space agent \<and> rv_revision r = n"
    and revisions_found: "r \<in> set (dq_agent_revisions q agent s) \<Longrightarrow> rv_agent_id r = trim_space agent"
begin

text \<open>The snapshot of a node is its own revision's, or an earlier one's for a deletion.\<close>

lemma snapshot_row_found:
  assumes "snapshot_row q operation_id action node s = Inr row"
  shows "rv_agent_id row = trim_space (nd_agent_id node) \<and>
    (if action = action_delete then precedes (nd_revision node) row
     else rv_revision row = nd_revision node \<and> rv_operation_id row = operation_id)"
proof -
  obtain row0 where r: "dq_revision q (nd_agent_id node) (nd_revision node) s = Some row0"
    and o: "rv_operation_id row0 = operation_id"
    using assms by (auto simp: snapshot_row_def split: option.splits if_splits)
  show ?thesis
  proof (cases "action = action_delete")
    case True
    then obtain p: "previous_dependency_revision (dq_agent_revisions q (nd_agent_id node) s) (nd_revision node) = Some row"
      using assms r o by (auto simp: snapshot_row_def split: option.splits)
    with newer_fold_None[of "nd_revision node" "dq_agent_revisions q (nd_agent_id node) s"]
    have "row \<in> set (dq_agent_revisions q (nd_agent_id node) s)" "precedes (nd_revision node) row"
      by (auto simp: previous_dependency_revision_def)
    with revisions_found True show ?thesis by simp
  next
    case False
    with assms r o have "row = row0" by (simp add: snapshot_row_def)
    with revision_found[OF r] o False show ?thesis by simp
  qed
qed

end

definition ledger_dependencies ::
  "'snap snapshot_format \<Rightarrow> (generation_artifact \<Rightarrow> generation_artifact option) \<Rightarrow>
   (string \<Rightarrow> int \<Rightarrow> db \<Rightarrow> (dependency_failure + (snapshot \<times> bool) option) \<times> db) \<Rightarrow> db dependency_repository" where
  "ledger_dependencies fmt read_file load =
     \<lparr>dq_revision = get_coordinator_revision, dq_pointer = get_agent_revision_pointer,
      dq_agent_revisions = list_agent_revisions, dq_snapshot = load,
      dq_artifact = get_operation_dependency_artifact fmt read_file,
      dq_operation_revisions = list_operation_revisions\<rparr>"

interpretation ledger_deps: dependency_store "ledger_dependencies fmt read_file load"
proof
  show "rv_agent_id r = trim_space agent \<and> rv_revision r = n"
    if "dq_revision (ledger_dependencies fmt read_file load) agent n s = Some r" for agent n s r
    using that by (auto simp: ledger_dependencies_def get_coordinator_revision_def find_revision_def dest: find_SomeD)
  show "rv_agent_id r = trim_space agent"
    if "r \<in> set (dq_agent_revisions (ledger_dependencies fmt read_file load) agent s)" for agent s r
    using that by (simp add: ledger_dependencies_def list_agent_revisions_def)
qed

subsection \<open>Loading the plan of an operation\<close>

lemma load_snapshots_nodes:
  "load_snapshots q operation_id action nodes s = (Inr (vs, normal), s') \<Longrightarrow>
   map (\<lambda>v. (sv_agent_id v, sv_revision v)) vs = map (\<lambda>n. (nd_agent_id n, nd_revision n)) nodes"
proof (induction nodes arbitrary: s vs normal s')
  case (Cons node nodes)
  then show ?case by (fastforce split: sum.splits option.splits prod.splits)
qed simp

lemma new_plan_nodes:
  assumes "new_plan w action nodes es = Inr p"
  shows "pl_nodes p = sort_key nd_agent_id (map trim_node nodes) \<and> pl_operation_id p = trim_space w \<and>
    pl_action p = action"
proof -
  obtain ns0 es0 c where k: "canonical_nodes nodes [] = Inr ns0" "canonical_edges (map nd_agent_id ns0) es [] = Inr es0"
    and r: "Inr p = (if c = [] then Inr \<lparr>pl_version = 1, pl_operation_id = trim_space w, pl_action = action,
                       pl_nodes = sort_key nd_agent_id ns0, pl_edges = sort_key edge_rank es0\<rparr>
          else Inl (DCycle c))"
    using assms by (rule new_plan_cases) auto
  then show ?thesis using canonical_nodes_map[OF k(1)] by (simp split: if_splits)
qed

lemma plan_ok_nodes:
  assumes "plan_ok p"
  shows "sort_key nd_agent_id (map trim_node (pl_nodes p)) = pl_nodes p"
proof -
  have "map trim_node (pl_nodes p) = pl_nodes p"
    using assms by (intro map_idI) (auto simp: plan_ok_def list_all_iff node_ok_def trim_node_def)
  then show ?thesis using assms by (simp add: plan_ok_def sort_key_id_if_sorted)
qed

lemma build_plan_nodes:
  assumes "build_plan order w action vs = Inr p"
  shows "plan_ok p \<and> pl_nodes p = sort_key nd_agent_id (map trim_node (map (\<lambda>v. \<lparr>nd_agent_id = trim_space (sv_agent_id v),
    nd_revision = sv_revision v\<rparr>) vs)) \<and> pl_operation_id p = trim_space w \<and> pl_action p = action"
proof -
  obtain i es where k: "collect action vs no_inputs = Inr i" "new_plan w action (in_nodes i) es = Inr p"
    using assms by (auto simp: build_plan_def tx_bind_Inr_iff split: if_splits)
  have "in_nodes i = map (\<lambda>v. \<lparr>nd_agent_id = entry_agent v, nd_revision = sv_revision v\<rparr>) vs"
    using collect_fields[OF k(1)] by (simp add: no_inputs_def)
  with new_plan_nodes[OF k(2)] new_plan_ok[OF k(2)] show ?thesis by (simp add: entry_agent_def[abs_def])
qed

lemma rebuild_nodes:
  assumes "rebuild_dependency_plan (Some q) order w action nodes s = (Inr (p, normal), s')"
    and ok: "plan_ok p0" and "nodes = pl_nodes p0"
  shows "plan_ok p \<and> pl_nodes p = nodes \<and> pl_operation_id p = trim_space w \<and> pl_action p = action"
proof -
  obtain skeleton vs s1 where k: "new_plan (trim_space w) action nodes [] = Inr skeleton"
      "load_snapshots q (pl_operation_id skeleton) action (pl_nodes skeleton) s = (Inr (vs, normal), s1)"
      "build_plan order (pl_operation_id skeleton) action vs = Inr p"
    using assms(1) by (auto simp: rebuild_dependency_plan_def split: sum.splits prod.splits)
  have sk: "pl_nodes skeleton = nodes" "pl_operation_id skeleton = trim_space w"
    using new_plan_nodes[OF k(1)] plan_ok_nodes[OF ok] assms(3) by simp_all
  have "map (\<lambda>v. \<lparr>nd_agent_id = trim_space (sv_agent_id v), nd_revision = sv_revision v\<rparr>) vs = map trim_node nodes"
    using load_snapshots_nodes[OF k(2)] unfolding sk
  proof (induction vs arbitrary: nodes)
    case (Cons v vs)
    then show ?case by (cases nodes) (auto simp: trim_node_def)
  qed simp
  moreover have "trim_node \<circ> trim_node = trim_node" by (rule ext) (simp add: trim_node_def)
  ultimately show ?thesis
    using build_plan_nodes[OF k(3)] plan_ok_nodes[OF ok] sk assms(3) by simp
qed

lemma loaded_plan:
  assumes "load_dependency_plan (Some q) order decode operation_id s = (Inr plan, s')"
  shows "plan_ok plan \<and> pl_operation_id plan = trim_space operation_id \<and>
    (\<exists>revisions. dq_operation_revisions q (trim_space operation_id) s = Inr revisions \<and>
      map (\<lambda>n. (nd_agent_id n, nd_revision n)) (pl_nodes plan) = map rv_key revisions)"
proof -
  let ?w = "trim_space operation_id"
  obtain artifact p0 revisions rebuilt normal where k: "dq_artifact q ?w s = Inr (Some artifact)"
      "parse_plan decode (ga_payload artifact) = Inr p0" "pl_operation_id p0 = ?w"
      "dq_operation_revisions q ?w s = Inr revisions"
      "map (\<lambda>n. (nd_agent_id n, nd_revision n)) (pl_nodes p0) = map rv_key revisions"
      "rebuild_dependency_plan (Some q) order ?w (pl_action p0) (pl_nodes p0) s = (Inr (rebuilt, normal), s')"
      "plan = rebuilt \<or> plan = p0"
    using assms by (auto simp: load_dependency_plan_def Let_def split: sum.splits option.splits prod.splits if_splits)
  have ok: "plan_ok p0"
    using k(2) by (auto simp: parse_plan_def canonical_plan_def split: option.splits if_splits intro: new_plan_ok)
  note r = rebuild_nodes[OF k(6) ok refl]
  from k(7) show ?thesis
  proof
    assume "plan = rebuilt"
    with r k(3,4,5) show ?thesis by simp
  next
    assume "plan = p0"
    with ok k(3,4,5) show ?thesis by simp
  qed
qed

text \<open>The plan an operation is run by is the operation's: whether it is the stored plan or the rebuilt
  one, it is canonical and acyclic, carries the operation's id, and its nodes are exactly the
  operation's revisions in the ledger.\<close>

theorem loaded_plan_matches_operation:
  assumes "load_dependency_plan (Some (ledger_dependencies fmt read_file load)) order decode operation_id s =
    (Inr plan, s')"
  shows "plan_ok plan \<and> pl_operation_id plan = trim_space operation_id \<and>
    map (\<lambda>n. (nd_agent_id n, nd_revision n)) (pl_nodes plan) =
      sort (map rv_key (filter (\<lambda>r. rv_operation_id r = trim_space operation_id) (db_revisions s)))"
proof -
  have "map rv_key (sort_key rv_key xs) = sort (map rv_key xs)" for xs
    by (rule properties_for_sort[symmetric]) simp_all
  with loaded_plan[OF assms] show ?thesis
    by (auto simp: ledger_dependencies_def list_operation_revisions_def Let_def split: if_splits)
qed

subsection \<open>Claims respect the order\<close>

lemma node_states_each:
  assumes "node_states q w ns s = Inr states" and "distinct (map nd_agent_id ns)"
  shows "(\<forall>m \<in> set ns. \<exists>st. node_state q w m s = Inr st \<and> states (nd_agent_id m) = Some st) \<and>
    (\<forall>a. a \<notin> nd_agent_id ` set ns \<longrightarrow> states a = None)"
  using assms
proof (induction ns arbitrary: states)
  case (Cons n ns)
  obtain st states1 where k: "node_state q w n s = Inr st" "node_states q w ns s = Inr states1"
      "states = (if states1 (nd_agent_id n) = None then states1(nd_agent_id n \<mapsto> st) else states1)"
    using Cons.prems(1) by (auto simp: tx_bind_Inr_iff)
  have d: "nd_agent_id n \<notin> nd_agent_id ` set ns" "distinct (map nd_agent_id ns)" using Cons.prems(2) by auto
  note ih = Cons.IH[OF k(2) d(2)]
  then have "states1 (nd_agent_id n) = None" using d(1) by blast
  then have st: "states = states1(nd_agent_id n \<mapsto> st)" using k(3) by simp
  have "\<exists>st. node_state q w m s = Inr st \<and> states (nd_agent_id m) = Some st" if "m \<in> set (n # ns)" for m
  proof (cases "m = n")
    case False
    with that have "m \<in> set ns" by simp
    moreover from this d(1) have "nd_agent_id m \<noteq> nd_agent_id n" by (metis imageI)
    ultimately show ?thesis using ih st by simp
  qed (simp add: st k(1))
  moreover have "states a = None" if "a \<notin> nd_agent_id ` set (n # ns)" for a using that ih st by simp
  ultimately show ?case by blast
qed simp

lemma node_state_known: "node_state q w m s = Inr st \<Longrightarrow> st \<noteq> StOther x"
  by (auto simp: node_state_def split: option.splits if_splits)

text \<open>The agents a node waits for have succeeded in the ledger.\<close>

definition prerequisites_done ::
  "'s dependency_repository \<Rightarrow> dep_plan \<Rightarrow> string \<Rightarrow> 's \<Rightarrow> bool" where
  "prerequisites_done q plan agent s \<longleftrightarrow> list_all (\<lambda>m. nd_agent_id m \<in> set (prerequisites plan agent) \<longrightarrow>
     node_state q (pl_operation_id plan) m s = Inr StSucceeded) (pl_nodes plan)"

lemma frontier_ready:
  assumes ev: "evaluate_dependency_plan (Some q) plan s = Inr ev" and ok: "plan_ok plan"
    and m: "m \<in> set (ev_frontier ev)"
  shows "m \<in> set (pl_nodes plan) \<and> node_state q (pl_operation_id plan) m s = Inr StWaiting \<and>
    prerequisites_done q plan (nd_agent_id m) s"
proof -
  obtain states where st: "node_states q (pl_operation_id plan) (pl_nodes plan) s = Inr states"
    and e: "evaluate plan states = Some ev"
    using ev by (auto simp: evaluate_dependency_plan_def tx_bind_Inr_iff split: option.splits)
  have "distinct (map nd_agent_id (pl_nodes plan))" using ok by (simp add: plan_ok_def)
  note each = node_states_each[OF st this]
  have norm: "node_state q (pl_operation_id plan) x s = Inr y"
    if x: "x \<in> set (pl_nodes plan)" and y: "normalized plan states (nd_agent_id x) = Some y" for x y
  proof -
    obtain z where z: "node_state q (pl_operation_id plan) x s = Inr z" "states (nd_agent_id x) = Some z"
      using bspec[OF conjunct1[OF each] x] by blast
    have "nd_agent_id x \<in> nd_agent_id ` set (pl_nodes plan)" using x by (rule imageI)
    with z(2) node_state_known[OF z(1)] have "normalized plan states (nd_agent_id x) = Some z"
      by (simp add: normalized_def)
    with y z(1) show ?thesis by simp
  qed
  have w: "m \<in> set (pl_nodes plan)" "waiting_on plan (normalized plan states) m"
    using m unfolding evaluate_fields(1)[OF e refl] by simp_all
  have "node_state q (pl_operation_id plan) x s = Inr StSucceeded"
    if "x \<in> set (pl_nodes plan)" "nd_agent_id x \<in> set (prerequisites plan (nd_agent_id m))" for x
    using w(2) that norm[OF that(1)] by (auto simp: waiting_on_def list_all_iff)
  moreover have "node_state q (pl_operation_id plan) m s = Inr StWaiting"
    using w(2) norm[OF w(1)] by (simp add: waiting_on_def)
  ultimately show ?thesis using w(1) by (simp add: prerequisites_done_def list_all_iff)
qed

lemma claim_nodes_Cons:
  assumes "claim_nodes c w (n # ns) st = ((rs, e), st')"
  shows "(rs = [] \<and> e \<noteq> None) \<or> (\<exists>r rs' st1. rs = (n, r) # rs' \<and> claim_nodes c w ns st1 = ((rs', e), st'))"
proof -
  obtain r st1 where r: "claim_dependency_node c w (nd_agent_id n) (nd_revision n) st = (r, st1)"
    by (metis prod.exhaust)
  obtain rs1 e1 st2 where t: "claim_nodes c w ns st1 = ((rs1, e1), st2)" by (metis prod.exhaust)
  show ?thesis using assms r t by (cases r; cases st1) auto
qed

lemma claim_nodes_subset:
  "claim_nodes c w ns st = ((rs, e), st') \<Longrightarrow> map fst rs = take (length rs) ns \<and> (e = None \<longrightarrow> length rs = length ns)"
proof (induction ns arbitrary: st rs)
  case (Cons n ns)
  from claim_nodes_Cons[OF Cons.prems] Cons.IH show ?case by fastforce
qed simp

text \<open>C14.
  An agent that pulls its part of an operation gets a lease only in its turn: if
  \<open>ClaimDependencyAgent\<close> tries to claim at all, the agent's revision is the one of the operation's
  plan, it is waiting in the ledger, every agent it depends on has succeeded in the ledger the claim
  starts from, and nothing but this one claim happened after the plan was loaded.\<close>

theorem agent_claim_in_turn:
  assumes run: "claim_dependency_agent c (Some q) order decode operation_id agent (n, s) = (Inr res, st')"
    and tried: "ag_claim res = Some r"
  shows "\<exists>s1. load_dependency_plan (Some q) order decode operation_id s = (Inr (ag_plan res), s1) \<and>
    nd_agent_id (ag_node res) = trim_space agent \<and> ag_node res \<in> set (pl_nodes (ag_plan res)) \<and>
    node_state q (pl_operation_id (ag_plan res)) (ag_node res) s1 = Inr StWaiting \<and>
    prerequisites_done q (ag_plan res) (trim_space agent) s1 \<and>
    claim_dependency_node c (pl_operation_id (ag_plan res)) (trim_space agent) (nd_revision (ag_node res)) (n, s1) =
      (r, st')"
proof -
  obtain plan s1 ev node m where k: "load_dependency_plan (Some q) order decode operation_id s = (Inr plan, s1)"
      "evaluate_dependency_plan (Some q) plan s1 = Inr ev"
      "find (\<lambda>m. nd_agent_id m = trim_space agent) (pl_nodes plan) = Some node"
      "find (\<lambda>m. nd_agent_id m = trim_space agent) (ev_frontier ev) = Some m"
      "claim_dependency_node c (pl_operation_id plan) (nd_agent_id m) (nd_revision m) (n, s1) = (r, st')"
      "ag_plan res = plan" "ag_node res = node"
    using run tried
    by (auto simp: claim_dependency_agent_def Let_def split: sum.splits prod.splits option.splits if_splits)
  have ok: "plan_ok plan" using loaded_plan[OF k(1)] by blast
  have m: "m \<in> set (ev_frontier ev)" "nd_agent_id m = trim_space agent" using find_SomeD[OF k(4)] by simp_all
  note ready = frontier_ready[OF k(2) ok m(1)]
  have node: "node \<in> set (pl_nodes plan)" "nd_agent_id node = trim_space agent" using find_SomeD[OF k(3)] by simp_all
  have "inj_on nd_agent_id (set (pl_nodes plan))" using ok by (simp add: plan_ok_def distinct_map)
  moreover have "nd_agent_id node = nd_agent_id m" using node(2) m(2) by simp
  ultimately have "node = m" using node(1) ready by (intro inj_onD[of nd_agent_id "set (pl_nodes plan)"]) simp_all
  with ready k(1,5,6,7) node m(2) show ?thesis by simp
qed

text \<open>The frontier pass claims in frontier order and only ready agents: the claimed nodes are a prefix of
  the frontier, all of it when no claim failed, and each was waiting with its prerequisites succeeded
  in the ledger when the pass began.\<close>

theorem frontier_claims_ready:
  assumes run: "claim_dependency_frontier c (Some q) order decode operation_id (n, s) = (Inr (res, e), st')"
  shows "map fst (fr_claims res) = take (length (fr_claims res)) (ev_frontier (fr_evaluation res)) \<and>
    (e = None \<longrightarrow> length (fr_claims res) = length (ev_frontier (fr_evaluation res))) \<and>
    (\<exists>s1. load_dependency_plan (Some q) order decode operation_id s = (Inr (fr_plan res), s1) \<and>
      list_all (\<lambda>(m, _). m \<in> set (pl_nodes (fr_plan res)) \<and>
        node_state q (pl_operation_id (fr_plan res)) m s1 = Inr StWaiting \<and>
        prerequisites_done q (fr_plan res) (nd_agent_id m) s1) (fr_claims res))"
proof -
  obtain plan s1 ev where k: "load_dependency_plan (Some q) order decode operation_id s = (Inr plan, s1)"
      "evaluate_dependency_plan (Some q) plan s1 = Inr ev"
      "claim_nodes c (pl_operation_id plan) (ev_frontier ev) (n, s1) = ((fr_claims res, e), st')"
      "fr_plan res = plan" "fr_evaluation res = ev"
    using run by (auto simp: claim_dependency_frontier_def split: sum.splits prod.splits)
  have ok: "plan_ok plan" using loaded_plan[OF k(1)] by blast
  note pre = conjunct1[OF claim_nodes_subset[OF k(3)]]
  have "m \<in> set (ev_frontier ev)" if "(m, x) \<in> set (fr_claims res)" for m x
  proof -
    have "m \<in> set (map fst (fr_claims res))" using that by force
    then show ?thesis unfolding pre by (rule in_set_takeD)
  qed
  with frontier_ready[OF k(2) ok] have "list_all (\<lambda>(m, _). m \<in> set (pl_nodes plan) \<and>
        node_state q (pl_operation_id plan) m s1 = Inr StWaiting \<and>
        prerequisites_done q plan (nd_agent_id m) s1) (fr_claims res)"
    unfolding list_all_iff by blast
  moreover have "length (fr_claims res) = length (ev_frontier ev)" if "e = None"
    using claim_nodes_subset[OF k(3)] that by blast
  ultimately show ?thesis using pre k(1,4,5) by simp
qed

subsection \<open>An operation over three agents\<close>

definition rollout_revision :: "string \<Rightarrow> int \<Rightarrow> revision_state \<Rightarrow> agent_revision" where
  "rollout_revision agent n st =
     (sample_revision n)\<lparr>rv_agent_id := agent, rv_operation_id := ''op-1'', rv_state := st\<rparr>"

definition rollout_pointer :: "string \<Rightarrow> int \<Rightarrow> int \<Rightarrow> revision_pointer" where
  "rollout_pointer agent desired applied = \<lparr>pt_agent_id = agent, pt_desired_revision = desired,
     pt_applied_revision = applied, pt_last_known_good_revision = applied, pt_updated_at = 0\<rparr>"

definition rollout_ref :: "string \<Rightarrow> int \<Rightarrow> artifact_ref" where
  "rollout_ref agent n = \<lparr>rf_agent_id = agent, rf_revision = n, rf_artifact_id = ''dependency-plan-p'',
     rf_role = dependency_plan_kind, rf_created_at = 0\<rparr>"

text \<open>\<open>exit\<close> is applied, \<open>core\<close> and \<open>edge\<close> are pending.\<close>

definition rollout_ledger :: db where
  "rollout_ledger = sample_ledger\<lparr>db_operations := [sample_operation\<lparr>op_id := ''op-1''\<rparr>],
     db_revisions := [rollout_revision ''exit'' 2 RevApplied, rollout_revision ''edge'' 4 RevPending,
       rollout_revision ''core'' 7 RevPending],
     db_pointers := [rollout_pointer ''exit'' 2 2, rollout_pointer ''edge'' 4 0, rollout_pointer ''core'' 7 0],
     db_artifact_refs := [rollout_ref ''exit'' 2, rollout_ref ''edge'' 4, rollout_ref ''core'' 7],
     db_artifacts := [\<lparr>ga_id = ''dependency-plan-p'', ga_kind = dependency_plan_kind, ga_sha256 = ''p'',
       ga_payload = ''p'', ga_external_path = [], ga_size_bytes = 1, ga_created_at = 0\<rparr>]\<rparr>"

definition rollout_decode :: "string \<Rightarrow> dep_plan option" where
  "rollout_decode s = (if s = ''p'' then Some derived_plan else None)"

definition rollout_snapshots :: "string \<Rightarrow> int \<Rightarrow> db \<Rightarrow> (dependency_failure + (snapshot \<times> bool) option) \<times> db" where
  "rollout_snapshots agent n s = (Inr (map_option (\<lambda>v. (sv_snapshot v, False))
     (find (\<lambda>v. sv_agent_id v = agent \<and> sv_revision v = n) sample_revisions)), s)"

definition rollout_repository :: "db dependency_repository" where
  "rollout_repository = ledger_dependencies plain_format (\<lambda>_. None) rollout_snapshots"

lemma rollout_plan:
  "load_dependency_plan (Some rollout_repository) rev rollout_decode '' op-1'' rollout_ledger =
     (Inr derived_plan, rollout_ledger)"
  by code_simp

lemma loaded_plan_matches_operation_witness:
  "map (\<lambda>n. (nd_agent_id n, nd_revision n)) (pl_nodes derived_plan) =
     [(''core'', 7), (''edge'', 4), (''exit'', 2)] \<and> plan_ok derived_plan"
proof -
  have "sort (map rv_key (filter (\<lambda>r. rv_operation_id r = trim_space '' op-1'') (db_revisions rollout_ledger))) =
      [(''core'', 7), (''edge'', 4), (''exit'', 2)]"
    by code_simp
  with loaded_plan_matches_operation[OF rollout_plan[unfolded rollout_repository_def]] show ?thesis by simp
qed

definition rollout_claim :: "string \<Rightarrow> (dependency_failure + agent_claim_result) \<times> db session" where
  "rollout_claim agent = claim_dependency_agent (sample_coordinator second) (Some rollout_repository) rev
     rollout_decode '' op-1'' agent (0, rollout_ledger)"

lemma agent_claim_in_turn_witness:
  "\<exists>res r. fst (rollout_claim ''core'') = Inr res \<and> ag_claim res = Some r \<and>
     prerequisites_done rollout_repository (ag_plan res) ''core'' rollout_ledger"
proof -
  have "(case fst (rollout_claim ''core'') of Inl _ \<Rightarrow> False | Inr res \<Rightarrow> ag_claim res \<noteq> None)" by code_simp
  then obtain res r where res: "fst (rollout_claim ''core'') = Inr res" "ag_claim res = Some r"
    by (auto split: sum.splits)
  then have run: "claim_dependency_agent (sample_coordinator second) (Some rollout_repository) rev
     rollout_decode '' op-1'' ''core'' (0, rollout_ledger) = (Inr res, snd (rollout_claim ''core''))"
    unfolding rollout_claim_def by (metis prod.collapse)
  have t: "trim_space ''core'' = ''core''" by code_simp
  from agent_claim_in_turn[OF run res(2)] res show ?thesis unfolding t by (auto simp: rollout_plan)
qed

definition rollout_frontier :: "(dependency_failure + frontier_result \<times> coord_error option) \<times> db session" where
  "rollout_frontier = claim_dependency_frontier (sample_coordinator second) (Some rollout_repository) rev
     rollout_decode '' op-1'' (0, rollout_ledger)"

lemma frontier_claims_ready_witness:
  "\<exists>res. fst rollout_frontier = Inr (res, None) \<and> fr_claims res \<noteq> [] \<and>
     map fst (fr_claims res) = ev_frontier (fr_evaluation res)"
proof -
  have "(case fst rollout_frontier of Inl _ \<Rightarrow> False | Inr (res, e) \<Rightarrow> e = None \<and> fr_claims res \<noteq> [])" by code_simp
  then obtain res where res: "fst rollout_frontier = Inr (res, None)" "fr_claims res \<noteq> []"
    by (auto split: sum.splits)
  then have "claim_dependency_frontier (sample_coordinator second) (Some rollout_repository) rev
     rollout_decode '' op-1'' (0, rollout_ledger) = (Inr (res, None), snd rollout_frontier)"
    unfolding rollout_frontier_def by (metis prod.collapse)
  from frontier_claims_ready[OF this] res show ?thesis by auto
qed

end
