(* ===== verification/GenRegistry.thy ===== *)
theory GenRegistry
  imports Prelude
begin

text \<open>
  The session registry of the agent (\<open>go-agent/internal/generation/registry.go\<close>): sessions are
  registered under a generation and an entity, they end by themselves or are force-closed, and the
  registry tells its owner when a generation has no session left. Records live on a heap of records
  (a Go pointer is an index), the three nested maps are one list of live records; every block under a
  mutex is one operation, and the calls that run concurrently interleave between them. The call of
  \<open>onEmpty\<close> is an operation of its own: \<open>finish\<close> makes it after it has released the mutex, so other
  calls, a registration of the same generation among them, may come between.
\<close>

subsection \<open>Sessions\<close>

record entity_key =
  ek_module :: string
  ek_id :: string

datatype handle_state = HActive | HForcing | HFinished

text \<open>A \<open>sessionRecord\<close> with its \<open>SessionHandle\<close>.\<close>

record session_record =
  ss_generation :: string
  ss_entity :: entity_key
  ss_id :: string
  ss_state :: handle_state
  ss_finish_pending :: bool
  ss_terminal :: bool

record registry =
  rg_heap :: "session_record list"
  rg_live :: "nat list"

definition empty_registry :: registry where
  "empty_registry = \<lparr>rg_heap = [], rg_live = []\<rparr>"

definition session_at :: "registry \<Rightarrow> nat \<Rightarrow> session_record" where
  "session_at r i = rg_heap r ! i"

definition session_key :: "session_record \<Rightarrow> string \<times> entity_key \<times> string" where
  "session_key s = (ss_generation s, ss_entity s, ss_id s)"

text \<open>The live records of one generation.\<close>

definition live_in :: "registry \<Rightarrow> string \<Rightarrow> nat list" where
  "live_in r g = filter (\<lambda>i. ss_generation (session_at r i) = g) (rg_live r)"

definition generation_count :: "registry \<Rightarrow> string \<Rightarrow> nat" where
  "generation_count r g = length (live_in r g)"

definition set_session :: "nat \<Rightarrow> (session_record \<Rightarrow> session_record) \<Rightarrow> registry \<Rightarrow> registry" where
  "set_session i f r = r\<lparr>rg_heap := (rg_heap r)[i := f (rg_heap r ! i)]\<rparr>"

subsection \<open>Operations\<close>

datatype registry_error = InvalidSession | DuplicateSession

definition register_session ::
  "string \<Rightarrow> entity_key \<Rightarrow> string \<Rightarrow> registry \<Rightarrow> (registry_error + nat) \<times> registry" where
  "register_session g e k r =
     (if g = [] \<or> ek_module e = [] \<or> ek_id e = [] \<or> k = [] then (Inl InvalidSession, r)
      else if list_ex (\<lambda>i. session_key (session_at r i) = (g, e, k)) (rg_live r) then (Inl DuplicateSession, r)
      else (Inr (length (rg_heap r)),
        \<lparr>rg_heap = rg_heap r @ [\<lparr>ss_generation = g, ss_entity = e, ss_id = k, ss_state = HActive,
            ss_finish_pending = False, ss_terminal = False\<rparr>],
         rg_live = rg_live r @ [length (rg_heap r)]\<rparr>))"

text \<open>
  The block of \<open>finish\<close> under the registry's mutex: it removes the record and yields the generation
  when it found it with sessions and left it without any (the local variable \<open>empty\<close>); the caller of
  \<open>finish\<close> then owes the report to \<open>onEmpty\<close>.
\<close>

definition finish_record :: "nat \<Rightarrow> registry \<Rightarrow> registry \<times> string option" where
  "finish_record i r =
     (let g = ss_generation (session_at r i); r' = r\<lparr>rg_live := filter (\<lambda>j. j \<noteq> i) (rg_live r)\<rparr> in
      (r', if live_in r g \<noteq> [] \<and> live_in r' g = [] then Some g else None))"

definition finish_naturally :: "nat \<Rightarrow> registry \<Rightarrow> bool \<times> registry" where
  "finish_naturally i r =
     (case ss_state (session_at r i) of
        HActive \<Rightarrow> (True, set_session i (\<lambda>s. s\<lparr>ss_state := HFinished\<rparr>) r)
      | HForcing \<Rightarrow> (False, set_session i (\<lambda>s. s\<lparr>ss_finish_pending := True\<rparr>) r)
      | HFinished \<Rightarrow> (False, r))"

text \<open>The results of \<open>claimForce\<close>: the caller owns the force, waits for its owner, or neither.\<close>

datatype force_claim = ClaimOwned | ClaimWait | ClaimFinished | ClaimNone

definition claim_force :: "nat \<Rightarrow> bool \<Rightarrow> registry \<Rightarrow> force_claim \<times> registry" where
  "claim_force i terminal r =
     (case ss_state (session_at r i) of
        HActive \<Rightarrow> (ClaimOwned, set_session i (\<lambda>s. s\<lparr>ss_state := HForcing, ss_terminal := terminal\<rparr>) r)
      | HForcing \<Rightarrow> (if terminal then (ClaimWait, set_session i (\<lambda>s. s\<lparr>ss_terminal := True\<rparr>) r) else (ClaimNone, r))
      | HFinished \<Rightarrow> (ClaimFinished, r))"

text \<open>\<open>completeForce\<close> up to its unlock: \<open>(removed, terminal)\<close> and the new handle.\<close>

definition complete_force :: "nat \<Rightarrow> bool \<Rightarrow> registry \<Rightarrow> (bool \<times> bool) \<times> registry" where
  "complete_force i success r =
     (let s = session_at r i in
      if ss_state s \<noteq> HForcing then ((False, False), r)
      else
        let removed = success \<or> ss_terminal s \<or> ss_finish_pending s in
        ((removed, ss_terminal s),
         set_session i (\<lambda>s. s\<lparr>ss_state := (if removed then HFinished else HActive), ss_terminal := False\<rparr>) r))"

subsection \<open>Concurrent calls\<close>

text \<open>
  The registry together with the calls that are between two mutex blocks: \<open>wd_removing\<close> holds the
  records whose handle is finished and whose removal is still to come, \<open>wd_forcing\<close> those whose
  \<open>ForceClose\<close> is running, and \<open>wd_pending\<close> the generations that a \<open>finish\<close> has emptied and is about to
  report. \<open>wd_reports\<close> lists the calls of \<open>onEmpty\<close> made, \<open>wd_told\<close> the generations reported since they
  last lost their last session or registered one, \<open>wd_known\<close> those that ever registered a session.
\<close>

record world =
  wd_registry :: registry
  wd_removing :: "nat list"
  wd_forcing :: "nat list"
  wd_pending :: "string list"
  wd_reports :: "string list"
  wd_told :: "string set"
  wd_known :: "string set"

definition empty_world :: world where
  "empty_world = \<lparr>wd_registry = empty_registry, wd_removing = [], wd_forcing = [], wd_pending = [],
     wd_reports = [], wd_told = {}, wd_known = {}\<rparr>"

text \<open>The block of \<open>finish\<close> leaves a report owed when it emptied a generation.\<close>

definition owe :: "string option \<Rightarrow> world \<Rightarrow> world" where
  "owe e w = (case e of None \<Rightarrow> w | Some g \<Rightarrow> w\<lparr>wd_pending := g # wd_pending w, wd_told := wd_told w - {g}\<rparr>)"

inductive registry_step :: "world \<Rightarrow> world \<Rightarrow> bool" where
  registers: "register_session g e k (wd_registry w) = (Inr i, r) \<Longrightarrow>
    registry_step w (w\<lparr>wd_registry := r, wd_told := wd_told w - {g}, wd_known := insert g (wd_known w)\<rparr>)"
| finishes: "i < length (rg_heap (wd_registry w)) \<Longrightarrow> finish_naturally i (wd_registry w) = (b, r) \<Longrightarrow>
    registry_step w (w\<lparr>wd_registry := r, wd_removing := (if b then i # wd_removing w else wd_removing w)\<rparr>)"
| removes: "i \<in> set (wd_removing w) \<Longrightarrow> finish_record i (wd_registry w) = (r, e) \<Longrightarrow>
    registry_step w (owe e (w\<lparr>wd_registry := r, wd_removing := remove1 i (wd_removing w)\<rparr>))"
| reports: "g \<in> set (wd_pending w) \<Longrightarrow>
    registry_step w (w\<lparr>wd_pending := remove1 g (wd_pending w), wd_reports := g # wd_reports w,
      wd_told := insert g (wd_told w)\<rparr>)"
| claims: "i < length (rg_heap (wd_registry w)) \<Longrightarrow> claim_force i terminal (wd_registry w) = (c, r) \<Longrightarrow>
    registry_step w (w\<lparr>wd_registry := r, wd_forcing := (if c = ClaimOwned then i # wd_forcing w else wd_forcing w)\<rparr>)"
| sweeps: "i < length (rg_heap (wd_registry w)) \<Longrightarrow> claim_force i True (wd_registry w) = (ClaimFinished, r0) \<Longrightarrow>
    finish_record i (wd_registry w) = (r, e) \<Longrightarrow>
    registry_step w (owe e (w\<lparr>wd_registry := r\<rparr>))"
| completes: "i \<in> set (wd_forcing w) \<Longrightarrow> complete_force i success (wd_registry w) = ((removed, terminal), r) \<Longrightarrow>
    registry_step w (w\<lparr>wd_registry := r, wd_forcing := remove1 i (wd_forcing w),
      wd_removing := (if removed then i # wd_removing w else wd_removing w)\<rparr>)"

subsection \<open>The invariant\<close>

lemma set_session_simps [simp]:
  "rg_live (set_session i f r) = rg_live r"
  "length (rg_heap (set_session i f r)) = length (rg_heap r)"
  by (simp_all add: set_session_def)

lemma session_at_set:
  "i < length (rg_heap r) \<Longrightarrow> session_at (set_session i f r) j = (if j = i then f (session_at r i) else session_at r j)"
  by (simp add: session_at_def set_session_def nth_list_update)

text \<open>What the mutex blocks on one handle keep: the key of every record.\<close>

definition keeps_keys :: "registry \<Rightarrow> registry \<Rightarrow> bool" where
  "keeps_keys r r' \<longleftrightarrow> rg_live r' = rg_live r \<and> length (rg_heap r') = length (rg_heap r) \<and>
     (\<forall>j. session_key (session_at r' j) = session_key (session_at r j))"

lemma set_session_keeps:
  assumes "i < length (rg_heap r)" and "\<And>s. session_key (f s) = session_key s"
  shows "keeps_keys r (set_session i f r)"
  using assms by (simp add: keeps_keys_def session_at_set)

lemma keeps_live_in: "keeps_keys r r' \<Longrightarrow> live_in r' g = live_in r g"
  by (simp add: keeps_keys_def live_in_def session_key_def)

definition registry_ok :: "registry \<Rightarrow> bool" where
  "registry_ok r \<longleftrightarrow> distinct (rg_live r) \<and> (\<forall>i \<in> set (rg_live r). i < length (rg_heap r)) \<and>
     inj_on (\<lambda>i. session_key (session_at r i)) (set (rg_live r)) \<and>
     (\<forall>i < length (rg_heap r). ss_state (session_at r i) \<noteq> HFinished \<longrightarrow> i \<in> set (rg_live r)) \<and>
     (\<forall>i < length (rg_heap r). ss_state (session_at r i) = HActive \<longrightarrow> \<not> ss_finish_pending (session_at r i))"

text \<open>The sessions a generation ever had.\<close>

definition sessions_of :: "registry \<Rightarrow> string \<Rightarrow> nat" where
  "sessions_of r g = length (filter (\<lambda>i. ss_generation (session_at r i) = g) [0..<length (rg_heap r)])"

text \<open>
  The reports of a generation, made and owed, and its live sessions: every report stands for a session
  of its own that has been removed.
\<close>

definition accounted :: "world \<Rightarrow> string \<Rightarrow> nat" where
  "accounted w g = count_list (wd_reports w) g + count_list (wd_pending w) g + length (live_in (wd_registry w) g)"

definition world_ok :: "world \<Rightarrow> bool" where
  "world_ok w \<longleftrightarrow> (let r = wd_registry w in registry_ok r \<and>
     (\<forall>i \<in> set (rg_live r). ss_state (session_at r i) = HFinished \<longrightarrow> i \<in> set (wd_removing w)) \<and>
     distinct (wd_forcing w) \<and>
     (\<forall>i. i \<in> set (wd_forcing w) \<longleftrightarrow> i < length (rg_heap r) \<and> ss_state (session_at r i) = HForcing) \<and>
     distinct (wd_removing w) \<and>
     (\<forall>i \<in> set (wd_removing w). i < length (rg_heap r) \<and> ss_state (session_at r i) = HFinished) \<and>
     (\<forall>i < length (rg_heap r). ss_generation (session_at r i) \<in> wd_known w) \<and>
     (\<forall>g \<in> wd_known w. live_in r g = [] \<longrightarrow> g \<in> wd_told w \<or> g \<in> set (wd_pending w)) \<and>
     (\<forall>g. accounted w g \<le> sessions_of r g))"

lemma world_okI:
  assumes "registry_ok (wd_registry w)"
    and "\<And>i. i \<in> set (rg_live (wd_registry w)) \<Longrightarrow> ss_state (session_at (wd_registry w) i) = HFinished \<Longrightarrow> i \<in> set (wd_removing w)"
    and "distinct (wd_forcing w)"
    and "\<And>i. i \<in> set (wd_forcing w) \<longleftrightarrow> i < length (rg_heap (wd_registry w)) \<and> ss_state (session_at (wd_registry w) i) = HForcing"
    and "distinct (wd_removing w)"
    and "\<And>i. i \<in> set (wd_removing w) \<Longrightarrow> i < length (rg_heap (wd_registry w)) \<and> ss_state (session_at (wd_registry w) i) = HFinished"
    and "\<And>i. i < length (rg_heap (wd_registry w)) \<Longrightarrow> ss_generation (session_at (wd_registry w) i) \<in> wd_known w"
    and "\<And>g. g \<in> wd_known w \<Longrightarrow> live_in (wd_registry w) g = [] \<Longrightarrow> g \<in> wd_told w \<or> g \<in> set (wd_pending w)"
    and "\<And>g. accounted w g \<le> sessions_of (wd_registry w) g"
  shows "world_ok w"
  using assms unfolding world_ok_def Let_def by blast

lemma world_okD:
  assumes "world_ok w"
  shows "registry_ok (wd_registry w)"
    and "i \<in> set (rg_live (wd_registry w)) \<Longrightarrow> ss_state (session_at (wd_registry w) i) = HFinished \<Longrightarrow> i \<in> set (wd_removing w)"
    and "distinct (wd_forcing w)"
    and "i \<in> set (wd_forcing w) \<longleftrightarrow> i < length (rg_heap (wd_registry w)) \<and> ss_state (session_at (wd_registry w) i) = HForcing"
    and "distinct (wd_removing w)"
    and "i \<in> set (wd_removing w) \<Longrightarrow> i < length (rg_heap (wd_registry w)) \<and> ss_state (session_at (wd_registry w) i) = HFinished"
    and "i < length (rg_heap (wd_registry w)) \<Longrightarrow> ss_generation (session_at (wd_registry w) i) \<in> wd_known w"
    and "g \<in> wd_known w \<Longrightarrow> live_in (wd_registry w) g = [] \<Longrightarrow> g \<in> wd_told w \<or> g \<in> set (wd_pending w)"
    and "accounted w g \<le> sessions_of (wd_registry w) g"
  using assms unfolding world_ok_def Let_def by blast+

lemma registry_okD:
  assumes "registry_ok r"
  shows "distinct (rg_live r)" and "i \<in> set (rg_live r) \<Longrightarrow> i < length (rg_heap r)"
    and "inj_on (\<lambda>i. session_key (session_at r i)) (set (rg_live r))"
    and "i < length (rg_heap r) \<Longrightarrow> ss_state (session_at r i) \<noteq> HFinished \<Longrightarrow> i \<in> set (rg_live r)"
    and "i < length (rg_heap r) \<Longrightarrow> ss_state (session_at r i) = HActive \<Longrightarrow> \<not> ss_finish_pending (session_at r i)"
  using assms unfolding registry_ok_def by blast+

lemma empty_world_ok: "world_ok empty_world"
  by (simp add: world_ok_def registry_ok_def empty_world_def empty_registry_def accounted_def live_in_def)

text \<open>A handle block changes the state of one record only.\<close>

lemma handle_registry_ok:
  assumes ok: "registry_ok r" and i: "i < length (rg_heap r)" and k: "\<And>s. session_key (f s) = session_key s"
    and st: "ss_state (f (session_at r i)) = HFinished \<or> ss_state (session_at r i) \<noteq> HFinished"
    and pending: "ss_state (f (session_at r i)) = HActive \<Longrightarrow> \<not> ss_finish_pending (f (session_at r i))"
  shows "registry_ok (set_session i f r)"
proof -
  have keys: "session_key (session_at (set_session i f r) j) = session_key (session_at r j)" for j
    using set_session_keeps[OF i, of f] k by (simp add: keeps_keys_def)
  show ?thesis
    using registry_okD[OF ok] st pending unfolding registry_ok_def keys
    by (auto simp: session_at_set[OF i] split: if_splits)
qed

lemma live_in_finish:
  "live_in (r\<lparr>rg_live := filter (\<lambda>j. j \<noteq> i) (rg_live r)\<rparr>) g = filter (\<lambda>j. j \<noteq> i) (live_in r g)"
  by (simp add: live_in_def session_at_def conj_commute)

lemma finish_record_ok:
  assumes ok: "registry_ok r" and fin: "ss_state (session_at r i) = HFinished" and f: "finish_record i r = (r', e)"
  shows "registry_ok r' \<and> rg_heap r' = rg_heap r \<and> set (rg_live r') = set (rg_live r) - {i}"
proof -
  have r': "r' = r\<lparr>rg_live := filter (\<lambda>j. j \<noteq> i) (rg_live r)\<rparr>" using f by (simp add: finish_record_def Let_def)
  have "inj_on (\<lambda>i. session_key (session_at r i)) (set (rg_live r) - {i})"
    using registry_okD(3)[OF ok] by (rule inj_on_subset) blast
  with registry_okD[OF ok] fin show ?thesis
    by (auto simp: r' registry_ok_def session_at_def set_diff_eq)
qed

lemma finish_record_owes:
  assumes "finish_record i r = (r', e)"
  shows "live_in r' g = filter (\<lambda>j. j \<noteq> i) (live_in r g)" and
    "e = Some g \<longleftrightarrow> g = ss_generation (session_at r i) \<and> live_in r g \<noteq> [] \<and> live_in r' g = []" and
    "live_in r' g \<noteq> live_in r g \<Longrightarrow> g = ss_generation (session_at r i) \<and> length (live_in r' g) < length (live_in r g)"
proof -
  have r': "r' = r\<lparr>rg_live := filter (\<lambda>j. j \<noteq> i) (rg_live r)\<rparr>"
    using assms by (auto simp: finish_record_def Let_def)
  show l: "live_in r' g = filter (\<lambda>j. j \<noteq> i) (live_in r g)" by (simp only: r' live_in_finish)
  show "e = Some g \<longleftrightarrow> g = ss_generation (session_at r i) \<and> live_in r g \<noteq> [] \<and> live_in r' g = []"
    using assms by (auto simp: finish_record_def Let_def split: if_splits)
  assume n: "live_in r' g \<noteq> live_in r g"
  have i: "i \<in> set (live_in r g)"
  proof (rule ccontr)
    assume "i \<notin> set (live_in r g)"
    then have "\<forall>j \<in> set (live_in r g). j \<noteq> i" by blast
    with n show False by (simp only: l filter_id_conv)
  qed
  then have "g = ss_generation (session_at r i)" by (simp add: live_in_def)
  moreover have "length (live_in r' g) < length (live_in r g)"
    unfolding l using i by (rule length_filter_less) simp
  ultimately show "g = ss_generation (session_at r i) \<and> length (live_in r' g) < length (live_in r g)" ..
qed

lemma handle_world_ok:
  assumes ok: "world_ok w" and i: "i < length (rg_heap (wd_registry w))"
    and k: "\<And>s. session_key (f s) = session_key s"
    and st: "ss_state (f (session_at (wd_registry w) i)) = HFinished \<or> ss_state (session_at (wd_registry w) i) \<noteq> HFinished"
    and pending: "ss_state (f (session_at (wd_registry w) i)) = HActive \<Longrightarrow> \<not> ss_finish_pending (f (session_at (wd_registry w) i))"
    and forcing: "distinct fs" "\<And>j. j \<in> set fs \<longleftrightarrow>
      (if j = i then ss_state (f (session_at (wd_registry w) i)) = HForcing else j \<in> set (wd_forcing w))"
    and removing: "distinct rs" "\<And>j. j \<in> set rs \<Longrightarrow> j = i \<and> ss_state (f (session_at (wd_registry w) i)) = HFinished \<or> j \<noteq> i \<and> j \<in> set (wd_removing w)"
      "\<And>j. j \<noteq> i \<Longrightarrow> j \<in> set (wd_removing w) \<Longrightarrow> j \<in> set rs"
      "ss_state (f (session_at (wd_registry w) i)) = HFinished \<Longrightarrow> i \<in> set (rg_live (wd_registry w)) \<Longrightarrow> i \<in> set rs"
  shows "world_ok (w\<lparr>wd_registry := set_session i f (wd_registry w), wd_removing := rs, wd_forcing := fs\<rparr>)"
proof (rule world_okI)
  let ?r = "wd_registry w"
  note keep = set_session_keeps[OF i k]
  have gen: "ss_generation (session_at (set_session i f ?r) j) = ss_generation (session_at ?r j)" for j
    using keep by (simp add: keeps_keys_def session_key_def)
  show "registry_ok (wd_registry (w\<lparr>wd_registry := set_session i f ?r, wd_removing := rs, wd_forcing := fs\<rparr>))"
    using handle_registry_ok[OF world_okD(1)[OF ok] i k st pending] by simp
  show "j \<in> set (wd_removing (w\<lparr>wd_registry := set_session i f ?r, wd_removing := rs, wd_forcing := fs\<rparr>))"
    if "j \<in> set (rg_live (wd_registry (w\<lparr>wd_registry := set_session i f ?r, wd_removing := rs, wd_forcing := fs\<rparr>)))"
      "ss_state (session_at (wd_registry (w\<lparr>wd_registry := set_session i f ?r, wd_removing := rs, wd_forcing := fs\<rparr>)) j) = HFinished" for j
    using that removing(3,4) world_okD(2)[OF ok, of j] by (auto simp: session_at_set[OF i] split: if_splits)
  show "j \<in> set (wd_forcing (w\<lparr>wd_registry := set_session i f ?r, wd_removing := rs, wd_forcing := fs\<rparr>)) \<longleftrightarrow>
      j < length (rg_heap (wd_registry (w\<lparr>wd_registry := set_session i f ?r, wd_removing := rs, wd_forcing := fs\<rparr>))) \<and>
      ss_state (session_at (wd_registry (w\<lparr>wd_registry := set_session i f ?r, wd_removing := rs, wd_forcing := fs\<rparr>)) j) = HForcing" for j
    using forcing(2)[of j] world_okD(4)[OF ok, of j] i by (auto simp: session_at_set[OF i])
  show "j < length (rg_heap (wd_registry (w\<lparr>wd_registry := set_session i f ?r, wd_removing := rs, wd_forcing := fs\<rparr>))) \<and>
      ss_state (session_at (wd_registry (w\<lparr>wd_registry := set_session i f ?r, wd_removing := rs, wd_forcing := fs\<rparr>)) j) = HFinished"
    if "j \<in> set (wd_removing (w\<lparr>wd_registry := set_session i f ?r, wd_removing := rs, wd_forcing := fs\<rparr>))" for j
    using that removing(2)[of j] world_okD(6)[OF ok, of j] i by (auto simp: session_at_set[OF i])
qed (use forcing(1) removing(1) world_okD(7,8,9)[OF ok] keeps_live_in[OF set_session_keeps[OF i k]]
    set_session_keeps[OF i k] in \<open>auto simp: keeps_keys_def session_key_def accounted_def sessions_of_def\<close>)

lemma not_member_unless_forcing:
  "world_ok w \<Longrightarrow> ss_state (session_at (wd_registry w) i) \<noteq> HForcing \<Longrightarrow> i \<notin> set (wd_forcing w)"
  using world_okD(4) by blast

lemma not_member_unless_finished:
  "world_ok w \<Longrightarrow> ss_state (session_at (wd_registry w) i) \<noteq> HFinished \<Longrightarrow> i \<notin> set (wd_removing w)"
  using world_okD(6) by blast

lemma same_world: "w\<lparr>wd_registry := r, wd_removing := wd_removing w, wd_forcing := fs\<rparr> = w\<lparr>wd_registry := r, wd_forcing := fs\<rparr>"
  "w\<lparr>wd_registry := r, wd_removing := rs, wd_forcing := wd_forcing w\<rparr> = w\<lparr>wd_registry := r, wd_removing := rs\<rparr>"
  by simp_all

lemma world_swap: "w\<lparr>wd_registry := r, wd_forcing := fs, wd_removing := rs\<rparr> =
    w\<lparr>wd_registry := r, wd_removing := rs, wd_forcing := fs\<rparr>"
  by simp

lemma finishes_ok:
  assumes ok: "world_ok w" and i: "i < length (rg_heap (wd_registry w))"
    and f: "finish_naturally i (wd_registry w) = (b, r)"
  shows "world_ok (w\<lparr>wd_registry := r, wd_removing := (if b then i # wd_removing w else wd_removing w)\<rparr>)"
proof (cases "ss_state (session_at (wd_registry w) i)")
  case HActive
  then have r: "b" "r = set_session i (\<lambda>s. s\<lparr>ss_state := HFinished\<rparr>) (wd_registry w)"
    using f by (simp_all add: finish_naturally_def)
  have "world_ok (w\<lparr>wd_registry := set_session i (\<lambda>s. s\<lparr>ss_state := HFinished\<rparr>) (wd_registry w),
      wd_removing := i # wd_removing w, wd_forcing := wd_forcing w\<rparr>)"
    using HActive not_member_unless_forcing[OF ok, of i] not_member_unless_finished[OF ok, of i] world_okD(3,5)[OF ok]
    by (intro handle_world_ok[OF ok i]) (auto simp: session_key_def)
  with r show ?thesis by simp
next
  case HForcing
  then have r: "\<not> b" "r = set_session i (\<lambda>s. s\<lparr>ss_finish_pending := True\<rparr>) (wd_registry w)"
    using f by (simp_all add: finish_naturally_def)
  have "world_ok (w\<lparr>wd_registry := set_session i (\<lambda>s. s\<lparr>ss_finish_pending := True\<rparr>) (wd_registry w),
      wd_removing := wd_removing w, wd_forcing := wd_forcing w\<rparr>)"
    using HForcing not_member_unless_finished[OF ok, of i] world_okD(3,5)[OF ok] world_okD(4)[OF ok, of i] i
    by (intro handle_world_ok[OF ok i]) (auto simp: session_key_def)
  with r show ?thesis by simp
next
  case HFinished
  with f have "\<not> b" "r = wd_registry w" by (simp_all add: finish_naturally_def)
  with ok show ?thesis by simp
qed

lemma claims_ok:
  assumes ok: "world_ok w" and i: "i < length (rg_heap (wd_registry w))"
    and f: "claim_force i terminal (wd_registry w) = (c, r)"
  shows "world_ok (w\<lparr>wd_registry := r, wd_forcing := (if c = ClaimOwned then i # wd_forcing w else wd_forcing w)\<rparr>)"
proof (cases "ss_state (session_at (wd_registry w) i)")
  case HActive
  then have r: "c = ClaimOwned" "r = set_session i (\<lambda>s. s\<lparr>ss_state := HForcing, ss_terminal := terminal\<rparr>) (wd_registry w)"
    using f by (simp_all add: claim_force_def)
  have "world_ok (w\<lparr>wd_registry := set_session i (\<lambda>s. s\<lparr>ss_state := HForcing, ss_terminal := terminal\<rparr>) (wd_registry w),
      wd_removing := wd_removing w, wd_forcing := i # wd_forcing w\<rparr>)"
    using HActive not_member_unless_forcing[OF ok, of i] not_member_unless_finished[OF ok, of i] world_okD(3,5)[OF ok]
    by (intro handle_world_ok[OF ok i]) (auto simp: session_key_def)
  with r show ?thesis by simp
next
  case HForcing
  show ?thesis
  proof (cases terminal)
    case True
    then have r: "c = ClaimWait" "r = set_session i (\<lambda>s. s\<lparr>ss_terminal := True\<rparr>) (wd_registry w)"
      using f HForcing by (simp_all add: claim_force_def)
    have "world_ok (w\<lparr>wd_registry := set_session i (\<lambda>s. s\<lparr>ss_terminal := True\<rparr>) (wd_registry w),
        wd_removing := wd_removing w, wd_forcing := wd_forcing w\<rparr>)"
      using HForcing not_member_unless_finished[OF ok, of i] world_okD(3,5)[OF ok] world_okD(4)[OF ok, of i] i
      by (intro handle_world_ok[OF ok i]) (auto simp: session_key_def)
    with r show ?thesis by simp
  next
    case False
    with f HForcing have "c = ClaimNone" "r = wd_registry w" by (simp_all add: claim_force_def)
    with ok show ?thesis by simp
  qed
next
  case HFinished
  with f have "c = ClaimFinished" "r = wd_registry w" by (simp_all add: claim_force_def)
  with ok show ?thesis by simp
qed

lemma completes_ok:
  assumes ok: "world_ok w" and i: "i \<in> set (wd_forcing w)"
    and f: "complete_force i success (wd_registry w) = ((removed, terminal), r)"
  shows "world_ok (w\<lparr>wd_registry := r, wd_forcing := remove1 i (wd_forcing w),
      wd_removing := (if removed then i # wd_removing w else wd_removing w)\<rparr>)"
proof -
  have st: "ss_state (session_at (wd_registry w) i) = HForcing" "i < length (rg_heap (wd_registry w))"
    using world_okD(4)[OF ok] i by blast+
  have r: "r = set_session i (\<lambda>s. s\<lparr>ss_state := (if removed then HFinished else HActive), ss_terminal := False\<rparr>) (wd_registry w)"
    and pending: "\<not> removed \<Longrightarrow> \<not> ss_finish_pending (session_at (wd_registry w) i)"
    using f st(1) by (auto simp: complete_force_def Let_def)
  have "world_ok (w\<lparr>wd_registry := r, wd_removing := (if removed then i # wd_removing w else wd_removing w),
      wd_forcing := remove1 i (wd_forcing w)\<rparr>)"
    unfolding r
    using st(1) not_member_unless_finished[OF ok, of i] world_okD(3,5)[OF ok] pending
    by (intro handle_world_ok[OF ok st(2)]) (auto simp: session_key_def split: if_splits)
  then show ?thesis unfolding world_swap .
qed

lemma count_list_remove1:
  "g \<in> set xs \<Longrightarrow> count_list (remove1 g xs) h + (if h = g then 1 else 0) = count_list xs h"
  by (induction xs) auto

lemma owe_simps [simp]:
  "wd_registry (owe e w) = wd_registry w" "wd_removing (owe e w) = wd_removing w" "wd_forcing (owe e w) = wd_forcing w"
  "wd_reports (owe e w) = wd_reports w" "wd_known (owe e w) = wd_known w"
  "count_list (wd_pending (owe e w)) g = (if e = Some g then 1 else 0) + count_list (wd_pending w) g"
  "g \<in> set (wd_pending (owe e w)) \<longleftrightarrow> e = Some g \<or> g \<in> set (wd_pending w)"
  "g \<in> wd_told (owe e w) \<longleftrightarrow> e \<noteq> Some g \<and> g \<in> wd_told w"
  by (auto simp: owe_def split: option.splits)

lemma removes_ok:
  assumes ok: "world_ok w" and st: "ss_state (session_at (wd_registry w) i) = HFinished"
    and f: "finish_record i (wd_registry w) = (r, e)" and rs: "distinct rs" "set rs = set (wd_removing w) - d" "d \<subseteq> {i}"
  shows "world_ok (owe e (w\<lparr>wd_registry := r, wd_removing := rs\<rparr>))"
proof -
  note reg = finish_record_ok[OF world_okD(1)[OF ok] st f]
  have at: "session_at r j = session_at (wd_registry w) j" for j using reg by (simp add: session_at_def)
  note owes = finish_record_owes[OF f]
  show ?thesis
  proof (rule world_okI)
    fix g
    assume g: "g \<in> wd_known (owe e (w\<lparr>wd_registry := r, wd_removing := rs\<rparr>))"
      "live_in (wd_registry (owe e (w\<lparr>wd_registry := r, wd_removing := rs\<rparr>))) g = []"
    show "g \<in> wd_told (owe e (w\<lparr>wd_registry := r, wd_removing := rs\<rparr>)) \<or>
        g \<in> set (wd_pending (owe e (w\<lparr>wd_registry := r, wd_removing := rs\<rparr>)))"
    proof (cases "live_in (wd_registry w) g = []")
      case True
      with g world_okD(8)[OF ok, of g] show ?thesis by auto
    next
      case False
      with g(2) owes(3)[of g] have "g = ss_generation (session_at (wd_registry w) i)" by simp
      with False g(2) owes(2)[of g] show ?thesis by simp
    qed
  next
    fix g
    have "sessions_of r g = sessions_of (wd_registry w) g" using reg by (simp add: sessions_of_def at)
    moreover have "(if e = Some g then 1 else 0) + length (live_in r g) \<le> length (live_in (wd_registry w) g)"
    proof (cases "live_in r g = live_in (wd_registry w) g")
      case True
      with owes(2)[of g] show ?thesis by simp
    next
      case False
      from owes(3)[OF this] show ?thesis by auto
    qed
    ultimately show "accounted (owe e (w\<lparr>wd_registry := r, wd_removing := rs\<rparr>)) g \<le>
        sessions_of (wd_registry (owe e (w\<lparr>wd_registry := r, wd_removing := rs\<rparr>))) g"
      using world_okD(9)[OF ok, of g] by (simp add: accounted_def)
  qed (use reg rs world_okD(1-7)[OF ok] in \<open>auto simp: at\<close>)
qed

lemma reports_ok:
  assumes ok: "world_ok w" and g: "g \<in> set (wd_pending w)"
  shows "world_ok (w\<lparr>wd_pending := remove1 g (wd_pending w), wd_reports := g # wd_reports w,
      wd_told := insert g (wd_told w)\<rparr>)"
proof (rule world_okI)
  fix h
  let ?w = "w\<lparr>wd_pending := remove1 g (wd_pending w), wd_reports := g # wd_reports w, wd_told := insert g (wd_told w)\<rparr>"
  have "count_list (remove1 g (wd_pending w)) h + (if h = g then 1 else 0) = count_list (wd_pending w) h"
    using g by (rule count_list_remove1)
  then show "accounted ?w h \<le> sessions_of (wd_registry ?w) h"
    using world_okD(9)[OF ok, of h] by (auto simp: accounted_def split: if_splits)
  show "h \<in> wd_told ?w \<or> h \<in> set (wd_pending ?w)" if "h \<in> wd_known ?w" "live_in (wd_registry ?w) h = []"
    using that world_okD(8)[OF ok, of h] by (cases "h = g") (auto simp: in_set_remove1)
qed (use world_okD(1-7)[OF ok] in auto)

lemma registers_ok:
  assumes ok: "world_ok w" and f: "register_session g e k (wd_registry w) = (Inr i, r)"
  shows "world_ok (w\<lparr>wd_registry := r, wd_told := wd_told w - {g}, wd_known := insert g (wd_known w)\<rparr>)"
proof -
  let ?r = "wd_registry w" and ?n = "length (rg_heap (wd_registry w))"
  let ?s = "\<lparr>ss_generation = g, ss_entity = e, ss_id = k, ss_state = HActive, ss_finish_pending = False, ss_terminal = False\<rparr>"
  have r: "r = \<lparr>rg_heap = rg_heap ?r @ [?s], rg_live = rg_live ?r @ [?n]\<rparr>"
    and new: "\<And>j. j \<in> set (rg_live ?r) \<Longrightarrow> session_key (session_at ?r j) \<noteq> (g, e, k)"
    using f by (auto simp: register_session_def list_ex_iff split: if_splits)
  note reg = registry_okD[OF world_okD(1)[OF ok]]
  have at: "session_at r j = (if j < ?n then session_at ?r j else ?s)" if "j \<le> ?n" for j
    using that by (auto simp: session_at_def r nth_append)
  have live: "rg_live r = rg_live ?r @ [?n]" "length (rg_heap r) = Suc ?n" by (simp_all add: r)
  have old: "session_at r j = session_at ?r j" if "j \<in> set (rg_live ?r)" for j
    using at[of j] reg(2)[OF that] by simp
  have "inj_on (\<lambda>j. session_key (session_at r j)) (set (rg_live r))"
  proof -
    have "inj_on (\<lambda>j. session_key (session_at r j)) (set (rg_live ?r))"
      using reg(3) by (simp add: inj_on_def old)
    moreover have "session_key (session_at r ?n) = (g, e, k)" using at[of ?n] by (simp add: session_key_def)
    moreover have "(g, e, k) \<notin> (\<lambda>j. session_key (session_at r j)) ` set (rg_live ?r)"
    proof
      assume "(g, e, k) \<in> (\<lambda>j. session_key (session_at r j)) ` set (rg_live ?r)"
      then obtain j where "j \<in> set (rg_live ?r)" "(g, e, k) = session_key (session_at r j)" by blast
      with new old show False by metis
    qed
    moreover have "?n \<notin> set (rg_live ?r)" using reg(2) by blast
    ultimately show ?thesis by (simp add: live)
  qed
  then have ok': "registry_ok r"
    using reg unfolding registry_ok_def live by (auto simp: at less_Suc_eq)
  have lin: "live_in r h = (if h = g then live_in ?r h @ [?n] else live_in ?r h)" for h
    using at[of ?n] by (auto simp: live_in_def live old intro!: filter_cong)
  have n: "?n \<notin> set (wd_removing w)" "?n \<notin> set (wd_forcing w)"
    using world_okD(6)[OF ok, of ?n] world_okD(4)[OF ok, of ?n] by auto
  have fresh: "ss_state (session_at r ?n) = HActive" "ss_generation (session_at r ?n) = g" using at[of ?n] by simp_all
  have below: "session_at r j = session_at ?r j" if "j < ?n" for j using at[of j] that by simp
  let ?w = "w\<lparr>wd_registry := r, wd_told := wd_told w - {g}, wd_known := insert g (wd_known w)\<rparr>"
  show ?thesis
  proof (rule world_okI)
    show "registry_ok (wd_registry ?w)" using ok' by simp
    show "distinct (wd_forcing ?w)" "distinct (wd_removing ?w)" using world_okD(3,5)[OF ok] by simp_all
    show "j \<in> set (wd_removing ?w)"
      if j: "j \<in> set (rg_live (wd_registry ?w))" "ss_state (session_at (wd_registry ?w) j) = HFinished" for j
    proof -
      have "j \<noteq> ?n" using j(2) fresh(1) by auto
      then have "j \<in> set (rg_live ?r)" using j(1) by (simp add: live)
      with world_okD(2)[OF ok this] j(2) old show ?thesis by simp
    qed
    show "j \<in> set (wd_forcing ?w) \<longleftrightarrow> j < length (rg_heap (wd_registry ?w)) \<and>
        ss_state (session_at (wd_registry ?w) j) = HForcing" for j
    proof (cases "j < ?n")
      case True
      then show ?thesis using world_okD(4)[OF ok, of j] below[OF True] by (simp add: live)
    next
      case False
      then show ?thesis using world_okD(4)[OF ok, of j] fresh(1) by (cases "j = ?n") (auto simp: live)
    qed
    show "j < length (rg_heap (wd_registry ?w)) \<and> ss_state (session_at (wd_registry ?w) j) = HFinished"
      if "j \<in> set (wd_removing ?w)" for j
      using that world_okD(6)[OF ok, of j] below[of j] by (simp add: live)
    show "ss_generation (session_at (wd_registry ?w) j) \<in> wd_known ?w"
      if "j < length (rg_heap (wd_registry ?w))" for j
    proof (cases "j < ?n")
      case True
      then show ?thesis using world_okD(7)[OF ok, of j] below[OF True] by simp
    next
      case False
      with that have "j = ?n" by (simp add: live)
      with fresh(2) show ?thesis by simp
    qed
    show "h \<in> wd_told ?w \<or> h \<in> set (wd_pending ?w)" if "h \<in> wd_known ?w" "live_in (wd_registry ?w) h = []" for h
      using that world_okD(8)[OF ok, of h] by (auto simp: lin split: if_splits)
    show "accounted ?w h \<le> sessions_of (wd_registry ?w) h" for h
    proof -
      have "filter (\<lambda>j. ss_generation (session_at r j) = h) [0..<?n] =
          filter (\<lambda>j. ss_generation (session_at ?r j) = h) [0..<?n]"
        by (rule filter_cong) (simp_all add: below)
      then have "sessions_of r h = sessions_of ?r h + (if h = g then 1 else 0)"
        using fresh(2) by (simp add: sessions_of_def live)
      then show ?thesis using world_okD(9)[OF ok, of h] by (auto simp: accounted_def lin)
    qed
  qed
qed

lemma registry_step_ok:
  assumes "registry_step w w'" and ok: "world_ok w"
  shows "world_ok w'"
  using assms(1)
proof (cases rule: registry_step.cases)
  case (registers g e k i r)
  then show ?thesis using registers_ok[OF ok] by simp
next
  case (finishes i b r)
  then show ?thesis using finishes_ok[OF ok] by simp
next
  case (removes i r e)
  have "ss_state (session_at (wd_registry w) i) = HFinished" using world_okD(6)[OF ok] removes(2) by blast
  from removes_ok[OF ok this removes(3), of "remove1 i (wd_removing w)" "{i}"] world_okD(5)[OF ok] removes(1)
  show ?thesis by simp
next
  case (reports g)
  then show ?thesis using reports_ok[OF ok] by simp
next
  case (claims i terminal c r)
  then show ?thesis using claims_ok[OF ok] by simp
next
  case (sweeps i r0 r e)
  then have "ss_state (session_at (wd_registry w) i) = HFinished"
    by (auto simp: claim_force_def split: handle_state.splits)
  from removes_ok[OF ok this sweeps(4), of "wd_removing w" "{}"] world_okD(5)[OF ok] sweeps(1)
  show ?thesis by simp
next
  case (completes i success removed terminal r)
  then show ?thesis using completes_ok[OF ok] by simp
qed

end
