(* ===== verification/GenForce.thy ===== *)
theory GenForce
  imports GenRegistry
begin

text \<open>
  The loops of the session registry that force-close sessions (\<open>ForceEntities\<close>, \<open>ForceGeneration\<close>
  and \<open>ForceGenerationExceptProgressive\<close> of \<open>registry.go\<close>), run as one call: what they remove, what
  they count and what they report.
\<close>

subsection \<open>Forcing many sessions\<close>

text \<open>
  What a \<open>ForceClose\<close> call does, decided by the session: whether it returns an error, and whether the
  session's owner calls \<open>Finish\<close> before it returns.
\<close>

record close_outcome =
  co_ok :: bool
  co_finishes :: bool

text \<open>
  The results of a force: the sessions counted as forced, whether every close succeeded, the sessions
  another call is forcing (Go waits for them), and the generations reported empty.
\<close>

record force_result =
  fo_forced :: nat
  fo_ok :: bool
  fo_waits :: nat
  fo_empty :: "string list"

definition no_force :: force_result where
  "no_force = \<lparr>fo_forced = 0, fo_ok = True, fo_waits = 0, fo_empty = []\<rparr>"

definition reported :: "string option \<Rightarrow> string list" where
  "reported e = (case e of None \<Rightarrow> [] | Some g \<Rightarrow> [g])"

text \<open>The owner of a force: close, complete, and remove the record if its handle is finished.\<close>

definition close_owned :: "bool \<Rightarrow> close_outcome \<Rightarrow> nat \<Rightarrow> registry \<Rightarrow> force_result \<times> registry" where
  "close_owned terminal c i r =
     (let r1 = (if co_finishes c then snd (finish_naturally i r) else r) in
      case complete_force i (co_ok c) r1 of
        ((removed, was_terminal), r2) \<Rightarrow>
          (case (if removed then finish_record i r2 else (r2, None)) of
             (r3, e) \<Rightarrow>
               (\<lparr>fo_forced = (if terminal \<or> was_terminal \<or> co_ok c then 1 else 0), fo_ok = co_ok c, fo_waits = 0,
                 fo_empty = reported e\<rparr>, r3)))"

definition force_one :: "bool \<Rightarrow> (nat \<Rightarrow> close_outcome) \<Rightarrow> nat \<Rightarrow> registry \<Rightarrow> force_result \<times> registry" where
  "force_one terminal close i r =
     (case claim_force i terminal r of
        (ClaimFinished, r1) \<Rightarrow>
          (if terminal then (case finish_record i r1 of (r2, e) \<Rightarrow> (no_force\<lparr>fo_empty := reported e\<rparr>, r2))
           else (no_force, r1))
      | (ClaimWait, r1) \<Rightarrow> (no_force\<lparr>fo_forced := 1, fo_waits := 1\<rparr>, r1)
      | (ClaimNone, r1) \<Rightarrow> (no_force, r1)
      | (ClaimOwned, r1) \<Rightarrow> close_owned terminal (close i) i r1)"

definition join_force :: "force_result \<Rightarrow> force_result \<Rightarrow> force_result" where
  "join_force a b = \<lparr>fo_forced = fo_forced a + fo_forced b, fo_ok = (fo_ok a \<and> fo_ok b),
     fo_waits = fo_waits a + fo_waits b, fo_empty = fo_empty a @ fo_empty b\<rparr>"

fun force_all :: "bool \<Rightarrow> (nat \<Rightarrow> close_outcome) \<Rightarrow> nat list \<Rightarrow> registry \<Rightarrow> force_result \<times> registry" where
  "force_all terminal close [] r = (no_force, r)"
| "force_all terminal close (i # is) r =
     (case force_one terminal close i r of (a, r1) \<Rightarrow>
      case force_all terminal close is r1 of (b, r2) \<Rightarrow> (join_force a b, r2))"

text \<open>\<open>order\<close> is the order in which the maps of records are iterated.\<close>

definition force_entities ::
  "(nat list \<Rightarrow> nat list) \<Rightarrow> (nat \<Rightarrow> close_outcome) \<Rightarrow> string \<Rightarrow> (entity_key \<Rightarrow> string option) \<Rightarrow> registry \<Rightarrow>
   force_result \<times> registry" where
  "force_entities order close g entities r =
     force_all False close (filter (\<lambda>i. entities (ss_entity (session_at r i)) \<noteq> None) (order (live_in r g))) r"

definition force_generation ::
  "(nat list \<Rightarrow> nat list) \<Rightarrow> (nat \<Rightarrow> close_outcome) \<Rightarrow> string \<Rightarrow> registry \<Rightarrow> force_result \<times> registry" where
  "force_generation order close g r = force_all True close (order (live_in r g)) r"

text \<open>\<open>keep i\<close>: the session refuses to commit a selective force (\<open>TryCommitSelectiveForce\<close>).\<close>

definition force_generation_except_progressive ::
  "(nat list \<Rightarrow> nat list) \<Rightarrow> (nat \<Rightarrow> close_outcome) \<Rightarrow> (nat \<Rightarrow> bool) \<Rightarrow> string \<Rightarrow> registry \<Rightarrow>
   force_result \<times> registry" where
  "force_generation_except_progressive order close keep g r =
     force_all True close (filter (\<lambda>i. \<not> keep i) (order (live_in r g))) r"

subsection \<open>What a force leaves\<close>

lemma finish_record_simps:
  assumes "finish_record i r = (r', e)"
  shows "rg_heap r' = rg_heap r" and "rg_live r' = filter (\<lambda>j. j \<noteq> i) (rg_live r)"
    and "e = (if live_in r (ss_generation (session_at r i)) \<noteq> [] \<and>
      live_in r' (ss_generation (session_at r i)) = [] then Some (ss_generation (session_at r i)) else None)"
  using assms by (auto simp: finish_record_def Let_def)

text \<open>
  The effect of forcing one record that no other call is forcing: its removal, or (a failed close of
  a selective force) no change of its registration.
\<close>

definition goes :: "bool \<Rightarrow> (nat \<Rightarrow> close_outcome) \<Rightarrow> registry \<Rightarrow> nat \<Rightarrow> bool" where
  "goes terminal close r i \<longleftrightarrow> (case ss_state (session_at r i) of
     HActive \<Rightarrow> terminal \<or> co_ok (close i) \<or> co_finishes (close i) | HForcing \<Rightarrow> False | HFinished \<Rightarrow> terminal)"

lemma close_owned_effect:
  assumes i: "i < length (rg_heap r)" and st: "ss_state (session_at r i) = HForcing"
    and p: "\<not> ss_finish_pending (session_at r i)" and t: "ss_terminal (session_at r i) = terminal"
    and f: "close_owned terminal c i r = (res, r')"
  shows "rg_live r' = (if terminal \<or> co_ok c \<or> co_finishes c then filter (\<lambda>j. j \<noteq> i) (rg_live r) else rg_live r) \<and>
    length (rg_heap r') = length (rg_heap r) \<and> (\<forall>j. j \<noteq> i \<longrightarrow> session_at r' j = session_at r j) \<and>
    session_key (session_at r' i) = session_key (session_at r i) \<and>
    ss_state (session_at r' i) = (if terminal \<or> co_ok c \<or> co_finishes c then HFinished else HActive) \<and>
    (ss_state (session_at r' i) = HActive \<longrightarrow> \<not> ss_finish_pending (session_at r' i)) \<and>
    fo_waits res = 0 \<and> fo_forced res = of_bool (terminal \<or> co_ok c)"
proof -
  let ?r1 = "if co_finishes c then snd (finish_naturally i r) else r"
  have r1: "rg_live ?r1 = rg_live r" "length (rg_heap ?r1) = length (rg_heap r)"
    "\<And>j. j \<noteq> i \<Longrightarrow> session_at ?r1 j = session_at r j"
    "session_key (session_at ?r1 i) = session_key (session_at r i)" "ss_state (session_at ?r1 i) = HForcing"
    "ss_terminal (session_at ?r1 i) = terminal" "ss_finish_pending (session_at ?r1 i) = co_finishes c"
    using i st p t by (simp_all add: finish_naturally_def session_at_set session_key_def)
  let ?gone = "co_ok c \<or> terminal \<or> co_finishes c"
  let ?r2 = "set_session i (\<lambda>s. s\<lparr>ss_state := (if ?gone then HFinished else HActive), ss_terminal := False\<rparr>) ?r1"
  have c: "complete_force i (co_ok c) ?r1 = ((?gone, terminal), ?r2)"
    using r1 by (simp add: complete_force_def Let_def)
  have i1: "i < length (rg_heap ?r1)" using i r1(2) by simp
  note at = session_at_set[OF i1]
  show ?thesis
  proof (cases ?gone)
    case True
    obtain r3 e where fr: "finish_record i ?r2 = (r3, e)" by fastforce
    then have "r' = r3" "fo_waits res = 0" "fo_forced res = of_bool (terminal \<or> co_ok c)"
      using f c True by (auto simp: close_owned_def Let_def split: if_splits)
    with True r1 at finish_record_simps[OF fr] show ?thesis by (auto simp: session_at_def session_key_def)
  next
    case False
    then have "r' = ?r2" "fo_waits res = 0" "fo_forced res = 0" using f c by (auto simp: close_owned_def Let_def)
    with False r1 at show ?thesis by (auto simp: session_key_def)
  qed
qed

lemma force_one_effect:
  assumes i: "i < length (rg_heap r)" and st: "ss_state (session_at r i) \<noteq> HForcing"
    and p: "ss_state (session_at r i) = HActive \<Longrightarrow> \<not> ss_finish_pending (session_at r i)"
    and f: "force_one terminal close i r = (res, r')"
  shows "rg_live r' = (if goes terminal close r i then filter (\<lambda>j. j \<noteq> i) (rg_live r) else rg_live r) \<and>
    length (rg_heap r') = length (rg_heap r) \<and> (\<forall>j. j \<noteq> i \<longrightarrow> session_at r' j = session_at r j) \<and>
    session_key (session_at r' i) = session_key (session_at r i) \<and>
    ss_state (session_at r' i) = (if goes terminal close r i then HFinished else ss_state (session_at r i)) \<and>
    (ss_state (session_at r' i) = HActive \<longrightarrow> \<not> ss_finish_pending (session_at r' i)) \<and>
    fo_waits res = 0 \<and>
    fo_forced res = of_bool (ss_state (session_at r i) = HActive \<and> (terminal \<or> co_ok (close i)))"
proof (cases "ss_state (session_at r i)")
  case HActive
  let ?r1 = "set_session i (\<lambda>s. s\<lparr>ss_state := HForcing, ss_terminal := terminal\<rparr>) r"
  have own: "close_owned terminal (close i) i ?r1 = (res, r')"
    using f HActive by (simp add: force_one_def claim_force_def)
  have i1: "i < length (rg_heap ?r1)" using i by simp
  note at = session_at_set[OF i]
  from close_owned_effect[OF i1 _ _ _ own] p HActive show ?thesis by (simp add: at goes_def session_key_def)
next
  case HForcing
  with st show ?thesis by simp
next
  case HFinished
  show ?thesis
  proof (cases terminal)
    case True
    obtain r2 e where fr: "finish_record i r = (r2, e)" by fastforce
    then have "r' = r2" "res = no_force\<lparr>fo_empty := reported e\<rparr>"
      using f HFinished True by (auto simp: force_one_def claim_force_def)
    with finish_record_simps[OF fr] HFinished True show ?thesis by (simp add: goes_def session_at_def no_force_def)
  next
    case False
    then have "r' = r" "res = no_force" using f HFinished by (auto simp: force_one_def claim_force_def)
    with False HFinished show ?thesis by (simp add: goes_def no_force_def)
  qed
qed

lemma goes_other: "session_at r' j = session_at r j \<Longrightarrow> goes terminal close r' j = goes terminal close r j"
  by (simp add: goes_def)

lemma force_all_effect:
  assumes "distinct is" and "\<And>i. i \<in> set is \<Longrightarrow> i < length (rg_heap r) \<and> ss_state (session_at r i) \<noteq> HForcing \<and>
      (ss_state (session_at r i) = HActive \<longrightarrow> \<not> ss_finish_pending (session_at r i))"
    and "force_all terminal close is r = (res, r')"
  shows "rg_live r' = filter (\<lambda>j. \<not> (j \<in> set is \<and> goes terminal close r j)) (rg_live r) \<and>
    length (rg_heap r') = length (rg_heap r) \<and> (\<forall>j. j \<notin> set is \<longrightarrow> session_at r' j = session_at r j) \<and>
    (\<forall>j. session_key (session_at r' j) = session_key (session_at r j)) \<and>
    (\<forall>j \<in> set is. ss_state (session_at r' j) =
      (if goes terminal close r j then HFinished else ss_state (session_at r j)) \<and>
      (ss_state (session_at r' j) = HActive \<longrightarrow> \<not> ss_finish_pending (session_at r' j))) \<and>
    fo_waits res = 0 \<and>
    fo_forced res = length (filter (\<lambda>i. ss_state (session_at r i) = HActive \<and> (terminal \<or> co_ok (close i))) is)"
  using assms
proof (induction "is" arbitrary: r res)
  case Nil
  then have "res = no_force" "r' = r" by auto
  then show ?case by (simp add: no_force_def)
next
  case (Cons i js)
  obtain a r1 where one: "force_one terminal close i r = (a, r1)" by fastforce
  obtain b where rest: "force_all terminal close js r1 = (b, r')" and res: "res = join_force a b"
    using Cons.prems(3) one by (auto split: prod.splits)
  have ij: "i \<notin> set js" "distinct js" using Cons.prems(1) by auto
  have hi: "i < length (rg_heap r)" "ss_state (session_at r i) \<noteq> HForcing"
    "ss_state (session_at r i) = HActive \<Longrightarrow> \<not> ss_finish_pending (session_at r i)"
    using Cons.prems(2)[of i] by auto
  note e1 = force_one_effect[OF hi one]
  have same: "session_at r1 j = session_at r j" if "j \<in> set js" for j using e1 that ij(1) by metis
  have pre: "j < length (rg_heap r1) \<and> ss_state (session_at r1 j) \<noteq> HForcing \<and>
      (ss_state (session_at r1 j) = HActive \<longrightarrow> \<not> ss_finish_pending (session_at r1 j))" if "j \<in> set js" for j
    using Cons.prems(2)[of j] that same[OF that] e1 by simp
  note e2 = Cons.IH[OF ij(2) pre rest]
  have g: "goes terminal close r1 j = goes terminal close r j" if "j \<in> set js" for j
    using same[OF that] by (rule goes_other)
  have f: "filter (\<lambda>k. ss_state (session_at r1 k) = HActive \<and> (terminal \<or> co_ok (close k))) js =
      filter (\<lambda>k. ss_state (session_at r k) = HActive \<and> (terminal \<or> co_ok (close k))) js"
    by (rule filter_cong) (simp_all add: same)
  have live: "rg_live r' = filter (\<lambda>j. \<not> (j \<in> set (i # js) \<and> goes terminal close r j)) (rg_live r)"
    using e1 e2 g ij(1) by (auto intro!: filter_cong)
  have keys: "session_key (session_at r' j) = session_key (session_at r j)" for j
    using e1 e2 by metis
  have si: "session_at r' i = session_at r1 i" using e2 ij(1) by blast
  have states: "ss_state (session_at r' j) = (if goes terminal close r j then HFinished else ss_state (session_at r j)) \<and>
      (ss_state (session_at r' j) = HActive \<longrightarrow> \<not> ss_finish_pending (session_at r' j))" if "j \<in> set (i # js)" for j
  proof (cases "j = i")
    case True
    then show ?thesis using e1 si by simp
  next
    case False
    with that have j: "j \<in> set js" by simp
    then show ?thesis using e2 g[OF j] same[OF j] by simp
  qed
  have others: "session_at r' j = session_at r j" if "j \<notin> set (i # js)" for j
    using e1 e2 that by auto
  show ?case
    using live keys states others e1 e2 f unfolding res by (simp add: join_force_def)
qed

text \<open>A registry at rest: no call is inside a force or between a finish and its removal.\<close>

definition at_rest :: "registry \<Rightarrow> bool" where
  "at_rest r \<longleftrightarrow> registry_ok r \<and> list_all (\<lambda>i. ss_state (session_at r i) = HActive) (rg_live r)"

lemma at_rest_live:
  assumes "at_rest r" and "i \<in> set (rg_live r)"
  shows "i < length (rg_heap r)" and "ss_state (session_at r i) = HActive" and "\<not> ss_finish_pending (session_at r i)"
  using assms registry_okD(2,5)[of r i] by (auto simp: at_rest_def list_all_iff)

lemma force_all_at_rest:
  assumes rest: "at_rest r" and ids: "distinct is" "set is \<subseteq> set (rg_live r)"
    and f: "force_all terminal close is r = (res, r')"
  shows "at_rest r' \<and> rg_live r' = filter (\<lambda>j. \<not> (j \<in> set is \<and> goes terminal close r j)) (rg_live r) \<and>
    (\<forall>j. session_key (session_at r' j) = session_key (session_at r j)) \<and> fo_waits res = 0 \<and>
    fo_forced res = length (filter (\<lambda>i. terminal \<or> co_ok (close i)) is)"
proof -
  note live = at_rest_live[OF rest]
  have pre: "i < length (rg_heap r) \<and> ss_state (session_at r i) \<noteq> HForcing \<and>
      (ss_state (session_at r i) = HActive \<longrightarrow> \<not> ss_finish_pending (session_at r i))" if "i \<in> set is" for i
    using live[of i] ids(2) that by auto
  note e = force_all_effect[OF ids(1) pre f]
  have keys: "session_key (session_at r' j) = session_key (session_at r j)" for j using e by blast
  have ok: "registry_ok r" using rest by (simp add: at_rest_def)
  have state: "ss_state (session_at r' j) = (if j \<in> set is \<and> goes terminal close r j then HFinished
      else ss_state (session_at r j))" for j
    using e by (cases "j \<in> set is") auto
  have pend: "\<not> ss_finish_pending (session_at r' j)" if "ss_state (session_at r' j) = HActive" "j < length (rg_heap r)" for j
    using e that registry_okD(5)[OF ok, of j] by (cases "j \<in> set is") auto
  have "registry_ok r'"
    using registry_okD(1-4)[OF ok] e pend unfolding registry_ok_def keys state
    by (auto intro: inj_on_subset)
  moreover have "list_all (\<lambda>i. ss_state (session_at r' i) = HActive) (rg_live r')"
    using e live(2) by (auto simp: list_all_iff state)
  moreover have "fo_forced res = length (filter (\<lambda>i. terminal \<or> co_ok (close i)) is)"
  proof -
    have "filter (\<lambda>i. ss_state (session_at r i) = HActive \<and> (terminal \<or> co_ok (close i))) is =
        filter (\<lambda>i. terminal \<or> co_ok (close i)) is"
      by (rule filter_cong) (use live(2) ids(2) in auto)
    then show ?thesis using e by simp
  qed
  ultimately show ?thesis using e keys by (simp add: at_rest_def)
qed

lemma live_in_distinct:
  "at_rest r \<Longrightarrow> distinct (live_in r g)"
  "set (live_in r g) \<subseteq> set (rg_live r)"
  by (auto simp: live_in_def at_rest_def registry_ok_def)

lemma live_in_keys:
  assumes "\<And>j. session_key (session_at r' j) = session_key (session_at r j)" and "rg_live r' = filter P (rg_live r)"
  shows "live_in r' h = filter P (live_in r h)"
proof -
  have "ss_generation (session_at r' j) = ss_generation (session_at r j)" for j
    using assms(1)[of j] by (simp add: session_key_def)
  then show ?thesis by (simp add: live_in_def assms(2) conj_commute)
qed

lemma force_generation_rest:
  assumes rest: "at_rest r" and perm: "\<And>xs. mset (order xs) = mset xs"
    and f: "force_generation order close g r = (res, r')"
  shows "at_rest r' \<and> live_in r' g = [] \<and> (\<forall>h. h \<noteq> g \<longrightarrow> live_in r' h = live_in r h) \<and> fo_waits res = 0 \<and>
    fo_forced res = generation_count r g"
proof -
  have ids: "distinct (order (live_in r g))" "set (order (live_in r g)) = set (live_in r g)"
    using perm live_in_distinct(1)[OF rest] by (metis mset_eq_imp_distinct_iff, metis mset_eq_setD)
  note e = force_all_at_rest[OF rest ids(1) _ f[unfolded force_generation_def], unfolded ids(2), OF live_in_distinct(2)]
  have gone: "goes True close r j" if "j \<in> set (live_in r g)" for j
    using at_rest_live(2)[OF rest, of j] subsetD[OF live_in_distinct(2) that] by (simp add: goes_def)
  have lin: "live_in r' h = filter (\<lambda>j. \<not> (j \<in> set (live_in r g) \<and> goes True close r j)) (live_in r h)" for h
    by (rule live_in_keys) (use e in blast)+
  have "live_in r' h = live_in r h" if "h \<noteq> g" for h
    unfolding lin using that by (intro filter_True) (auto simp: live_in_def)
  moreover have "live_in r' g = []" unfolding lin using gone by (simp add: filter_empty_conv)
  moreover have "length (order (live_in r g)) = generation_count r g"
    using perm by (metis generation_count_def size_mset)
  ultimately show ?thesis using e by simp
qed

lemma registry_steps_ok: "registry_step\<^sup>*\<^sup>* w w' \<Longrightarrow> world_ok w \<Longrightarrow> world_ok w'"
  by (induction rule: rtranclp_induct) (auto intro: registry_step_ok)

lemma live_in_count:
  assumes ok: "world_ok w" and rest: "wd_removing w = []"
  shows "set (live_in (wd_registry w) g) = {i. i < length (rg_heap (wd_registry w)) \<and>
    ss_generation (session_at (wd_registry w) i) = g \<and> ss_state (session_at (wd_registry w) i) \<noteq> HFinished}"
  using world_okD(2)[OF ok] registry_okD(2,4)[OF world_okD(1)[OF ok]] rest
  by (auto simp: live_in_def)

lemma sessions_of_card:
  "sessions_of r g = card {i. i < length (rg_heap r) \<and> ss_generation (session_at r i) = g}"
proof -
  have "sessions_of r g = card (set (filter (\<lambda>i. ss_generation (session_at r i) = g) [0..<length (rg_heap r)]))"
    unfolding sessions_of_def by (rule distinct_card[symmetric]) simp
  also have "set (filter (\<lambda>i. ss_generation (session_at r i) = g) [0..<length (rg_heap r)]) =
      {i. i < length (rg_heap r) \<and> ss_generation (session_at r i) = g}" by auto
  finally show ?thesis .
qed

text \<open>C15.
  However registrations, natural ends, force claims, completions, removals and the calls of \<open>onEmpty\<close>
  interleave: whenever no removal is under way, the count of a generation is the number of its sessions
  that have not finished (none is lost, none lingers) and no two live sessions share their identity. A
  generation that ever had sessions and has none now has been reported empty since it lost its last
  one, or a call of \<open>finish\<close> that has released the mutex is still to report it; and its reports, made
  and to come, are no more than its finished sessions. (The converse does not hold, as
  \<open>report_may_be_stale\<close> shows: a report may reach the owner when the generation has sessions again,
  and \<open>onSessionEmpty\<close> therefore counts them anew.)\<close>

theorem registry_counts_unfinished:
  assumes "registry_step\<^sup>*\<^sup>* empty_world w" and "wd_removing w = []"
  shows "generation_count (wd_registry w) g =
      card {i. i < length (rg_heap (wd_registry w)) \<and> ss_generation (session_at (wd_registry w) i) = g \<and>
        ss_state (session_at (wd_registry w) i) \<noteq> HFinished} \<and>
    distinct (map (\<lambda>i. session_key (session_at (wd_registry w) i)) (rg_live (wd_registry w))) \<and>
    (g \<in> wd_known w \<and> generation_count (wd_registry w) g = 0 \<longrightarrow> g \<in> wd_told w \<or> g \<in> set (wd_pending w)) \<and>
    count_list (wd_reports w) g + count_list (wd_pending w) g \<le>
      card {i. i < length (rg_heap (wd_registry w)) \<and> ss_generation (session_at (wd_registry w) i) = g \<and>
        ss_state (session_at (wd_registry w) i) = HFinished}"
proof -
  have ok: "world_ok w" using registry_steps_ok[OF assms(1) empty_world_ok] .
  note r = registry_okD[OF world_okD(1)[OF ok]]
  let ?of = "\<lambda>P. {i. i < length (rg_heap (wd_registry w)) \<and> ss_generation (session_at (wd_registry w) i) = g \<and>
    P (ss_state (session_at (wd_registry w) i))}"
  have "distinct (live_in (wd_registry w) g)" using r(1) by (simp add: live_in_def)
  then have "generation_count (wd_registry w) g = card (set (live_in (wd_registry w) g))"
    by (simp add: generation_count_def distinct_card)
  then have c: "generation_count (wd_registry w) g = card (?of (\<lambda>s. s \<noteq> HFinished))"
    unfolding live_in_count[OF ok assms(2)] .
  have "sessions_of (wd_registry w) g = card (?of (\<lambda>s. s = HFinished) \<union> ?of (\<lambda>s. s \<noteq> HFinished))"
    unfolding sessions_of_card by (rule arg_cong[of _ _ card]) blast
  also have "\<dots> = card (?of (\<lambda>s. s = HFinished)) + card (?of (\<lambda>s. s \<noteq> HFinished))"
    by (rule card_Un_disjoint) auto
  finally have "count_list (wd_reports w) g + count_list (wd_pending w) g \<le> card (?of (\<lambda>s. s = HFinished))"
    using world_okD(9)[OF ok, of g] c by (simp add: accounted_def generation_count_def)
  moreover have "generation_count (wd_registry w) g = 0 \<longleftrightarrow> live_in (wd_registry w) g = []"
    by (simp add: generation_count_def)
  ultimately show ?thesis using c r(1,3) world_okD(8)[OF ok, of g] by (simp add: distinct_map)
qed

lemma registry_step_finished:
  assumes step: "registry_step w w'" and ok: "world_ok w" and i: "i < length (rg_heap (wd_registry w))"
    and fin: "ss_state (session_at (wd_registry w) i) = HFinished"
  shows "i < length (rg_heap (wd_registry w')) \<and> ss_state (session_at (wd_registry w') i) = HFinished \<and>
    (i \<in> set (wd_removing w') \<longrightarrow> i \<in> set (wd_removing w)) \<and>
    (i \<in> set (rg_live (wd_registry w')) \<longrightarrow> i \<in> set (rg_live (wd_registry w)))"
  using step
proof (cases rule: registry_step.cases)
  case (registers g e k j r)
  then show ?thesis using i fin
    by (auto simp: register_session_def session_at_def nth_append split: if_splits)
next
  case (finishes j b r)
  then show ?thesis using i fin
    by (auto simp: finish_naturally_def session_at_set split: handle_state.splits if_splits)
next
  case (removes j r e)
  then show ?thesis using i fin finish_record_simps[OF removes(3)]
    by (auto simp: session_at_def dest: subsetD[OF set_remove1_subset])
next
  case (reports g)
  then show ?thesis using i fin by simp
next
  case (claims j terminal c r)
  then show ?thesis using i fin
    by (auto simp: claim_force_def session_at_set split: handle_state.splits if_splits)
next
  case (sweeps j r0 r e)
  then show ?thesis using i fin finish_record_simps[OF sweeps(4)] by (auto simp: session_at_def)
next
  case (completes j success removed terminal r)
  have st: "ss_state (session_at (wd_registry w) j) = HForcing" "j < length (rg_heap (wd_registry w))"
    using world_okD(4)[OF ok, of j] completes(2) by auto
  then have "j \<noteq> i" using fin by auto
  with completes st i fin show ?thesis
    by (auto simp: complete_force_def Let_def session_at_set split: if_splits)
qed

text \<open>A session ends once: from any reachable point on, a finished session stays finished, is not
  registered again and no second removal of it is started, however often \<open>Finish\<close> and the force
  operations are called on it.\<close>

theorem session_finishes_once:
  assumes "registry_step\<^sup>*\<^sup>* empty_world w" and "registry_step\<^sup>*\<^sup>* w w'"
    and "i < length (rg_heap (wd_registry w))" and "ss_state (session_at (wd_registry w) i) = HFinished"
  shows "ss_state (session_at (wd_registry w') i) = HFinished \<and>
    (i \<in> set (wd_removing w') \<longrightarrow> i \<in> set (wd_removing w)) \<and>
    (i \<in> set (rg_live (wd_registry w')) \<longrightarrow> i \<in> set (rg_live (wd_registry w)))"
proof -
  have ok: "world_ok w" using registry_steps_ok[OF assms(1) empty_world_ok] .
  have "world_ok w' \<and> i < length (rg_heap (wd_registry w')) \<and> ss_state (session_at (wd_registry w') i) = HFinished \<and>
    (i \<in> set (wd_removing w') \<longrightarrow> i \<in> set (wd_removing w)) \<and>
    (i \<in> set (rg_live (wd_registry w')) \<longrightarrow> i \<in> set (rg_live (wd_registry w)))"
    using assms(2)
  proof (induction rule: rtranclp_induct)
    case (step u v)
    with registry_step_finished[OF step(2), of i] registry_step_ok[OF step(2)] show ?case by blast
  qed (use ok assms(3,4) in simp)
  then show ?thesis by blast
qed

text \<open>Forcing the revoked entities of a generation touches only their sessions: a session of another
  entity or generation stays registered, and a session of a revoked entity is removed exactly when
  its close succeeded or it ended by itself meanwhile, so a failed close can be retried.\<close>

theorem force_entities_selects:
  assumes rest: "at_rest r" and perm: "\<And>xs. mset (order xs) = mset xs"
    and f: "force_entities order close g entities r = (res, r')" and i: "i \<in> set (rg_live r)"
  shows "at_rest r' \<and> (i \<notin> set (rg_live r') \<longleftrightarrow> ss_generation (session_at r i) = g \<and>
    entities (ss_entity (session_at r i)) \<noteq> None \<and> (co_ok (close i) \<or> co_finishes (close i)))"
proof -
  let ?sel = "filter (\<lambda>i. entities (ss_entity (session_at r i)) \<noteq> None) (order (live_in r g))"
  have ids: "distinct (order (live_in r g))" "set (order (live_in r g)) = set (live_in r g)"
    using perm live_in_distinct(1)[OF rest] by (metis mset_eq_imp_distinct_iff, metis mset_eq_setD)
  have sel: "distinct ?sel" "set ?sel \<subseteq> set (rg_live r)" using ids live_in_distinct(2)[of r g] by auto
  note e = force_all_at_rest[OF rest sel f[unfolded force_entities_def]]
  have "goes False close r i \<longleftrightarrow> co_ok (close i) \<or> co_finishes (close i)"
    using at_rest_live(2)[OF rest i] by (simp add: goes_def)
  with e i ids(2) show ?thesis by (auto simp: live_in_def)
qed

definition web :: entity_key where "web = \<lparr>ek_module = ''http'', ek_id = ''1''\<rparr>"
definition tunnel :: entity_key where "tunnel = \<lparr>ek_module = ''l4'', ek_id = ''2''\<rparr>"

text \<open>Two sessions of generation \<open>g1\<close> and one of \<open>g2\<close>.\<close>

definition sample_registry :: registry where
  "sample_registry = snd (register_session ''g2'' web ''a'' (snd (register_session ''g1'' tunnel ''b''
     (snd (register_session ''g1'' web ''a'' empty_registry)))))"

definition sample_close :: "nat \<Rightarrow> close_outcome" where
  "sample_close i = \<lparr>co_ok = (i \<noteq> 1), co_finishes = False\<rparr>"

definition one_session :: world where
  "one_session = empty_world\<lparr>wd_registry := snd (register_session ''g1'' web ''a'' empty_registry),
     wd_told := wd_told empty_world - {''g1''}, wd_known := insert ''g1'' (wd_known empty_world)\<rparr>"

definition ending_session :: world where
  "ending_session = one_session\<lparr>wd_registry := snd (finish_naturally 0 (wd_registry one_session)), wd_removing := [0]\<rparr>"

definition ended_session :: world where
  "ended_session = ending_session\<lparr>wd_registry := fst (finish_record 0 (wd_registry ending_session)), wd_removing := [],
     wd_pending := [''g1''], wd_told := {}\<rparr>"

definition next_session :: world where
  "next_session = ended_session\<lparr>wd_registry := snd (register_session ''g1'' web ''b'' (wd_registry ended_session)),
     wd_told := wd_told ended_session - {''g1''}, wd_known := insert ''g1'' (wd_known ended_session)\<rparr>"

definition late_report :: world where
  "late_report = next_session\<lparr>wd_pending := [], wd_reports := [''g1''], wd_told := {''g1''}\<rparr>"

lemma one_session_step: "registry_step empty_world one_session"
  unfolding one_session_def
  by (rule registry_step.registers[of "''g1''" web "''a''" _ 0]) code_simp

lemma ending_session_step: "registry_step one_session ending_session"
proof -
  have "finish_naturally 0 (wd_registry one_session) = (True, wd_registry ending_session)" by code_simp
  from registry_step.finishes[OF _ this] show ?thesis
    by (simp add: ending_session_def one_session_def register_session_def empty_registry_def empty_world_def web_def)
qed

lemma ended_session_step: "registry_step ending_session ended_session"
proof -
  have f: "finish_record 0 (wd_registry ending_session) = (wd_registry ended_session, Some ''g1'')" by code_simp
  have "wd_told ending_session = {}" "wd_removing ending_session = [0]" "wd_pending ending_session = []"
    by (simp_all add: ending_session_def one_session_def empty_world_def)
  with registry_step.removes[OF _ f] show ?thesis by (simp add: ended_session_def owe_def)
qed

lemma ending_reached: "registry_step\<^sup>*\<^sup>* empty_world ending_session"
  using one_session_step ending_session_step by (rule converse_rtranclp_into_rtranclp[OF _ r_into_rtranclp])

lemma ended_reached: "registry_step\<^sup>*\<^sup>* empty_world ended_session"
  using ending_reached ended_session_step by (rule rtranclp.rtrancl_into_rtrancl)

lemma ended_known: "''g1'' \<in> wd_known ended_session" "wd_removing ended_session = []" "wd_told ended_session = {}"
  "wd_pending ended_session = [''g1'']" "wd_reports ended_session = []"
  by (simp_all add: ended_session_def ending_session_def one_session_def empty_world_def)

lemma next_session_step: "registry_step ended_session next_session"
  unfolding next_session_def
  by (rule registry_step.registers[of "''g1''" web "''b''" _ 1]) code_simp

lemma late_report_step: "registry_step next_session late_report"
  using registry_step.reports[of "''g1''" next_session] ended_known
  by (simp add: late_report_def next_session_def)

text \<open>The report of an emptying that arrives after the generation has registered a session again.\<close>

lemma report_may_be_stale:
  "\<exists>w. registry_step\<^sup>*\<^sup>* empty_world w \<and> ''g1'' \<in> wd_told w \<and> generation_count (wd_registry w) ''g1'' = 1"
proof -
  have "registry_step\<^sup>*\<^sup>* empty_world late_report"
    using ended_reached next_session_step late_report_step by (meson rtranclp.rtrancl_into_rtrancl)
  moreover have "generation_count (wd_registry late_report) ''g1'' = 1" by code_simp
  moreover have "''g1'' \<in> wd_told late_report" by (simp add: late_report_def)
  ultimately show ?thesis by blast
qed

lemma registry_counts_unfinished_witness:
  "generation_count (wd_registry ended_session) ''g1'' = 0 \<and> ''g1'' \<in> set (wd_pending ended_session) \<and>
   Suc 0 \<le> card {i. i < length (rg_heap (wd_registry ended_session)) \<and>
     ss_generation (session_at (wd_registry ended_session) i) = ''g1'' \<and>
     ss_state (session_at (wd_registry ended_session) i) = HFinished}"
proof -
  have "generation_count (wd_registry ended_session) ''g1'' = 0" by code_simp
  with registry_counts_unfinished[OF ended_reached ended_known(2), of "''g1''"] ended_known show ?thesis by simp
qed

lemma session_finishes_once_witness:
  "ss_state (session_at (wd_registry ending_session) 0) = HFinished \<and>
   ss_state (session_at (wd_registry ended_session) 0) = HFinished"
proof -
  have i: "0 < length (rg_heap (wd_registry ending_session))" by code_simp
  have f: "ss_state (session_at (wd_registry ending_session) 0) = HFinished" by code_simp
  from session_finishes_once[OF ending_reached r_into_rtranclp[of registry_step, OF ended_session_step] i f] f
  show ?thesis by blast
qed

lemma sample_at_rest: "at_rest sample_registry"
proof -
  have k: "rg_live sample_registry = [0, 1, 2]" "length (rg_heap sample_registry) = 3" by code_simp+
  have d: "distinct (map (\<lambda>i. session_key (session_at sample_registry i)) [0, 1, 2])" by code_simp
  have s: "list_all (\<lambda>i. ss_state (session_at sample_registry i) = HActive \<and>
      \<not> ss_finish_pending (session_at sample_registry i)) [0, 1, 2]" by code_simp
  have "i \<in> set [0, 1, 2]" if "i < 3" for i :: nat using that by auto
  with d s show ?thesis
    unfolding at_rest_def registry_ok_def k by (auto simp: distinct_map list_all_iff)
qed

lemma force_entities_selects_witness:
  "\<exists>res r'. force_entities rev sample_close ''g1'' (\<lambda>e. if e = web then Some ''deleted'' else None) sample_registry =
     (res, r') \<and> 0 \<notin> set (rg_live r') \<and> 1 \<in> set (rg_live r')"
proof -
  let ?sel = "\<lambda>e. if e = web then Some ''deleted'' else None"
  obtain res r' where f: "force_entities rev sample_close ''g1'' ?sel sample_registry = (res, r')" by fastforce
  have live: "0 \<in> set (rg_live sample_registry)" "1 \<in> set (rg_live sample_registry)" by code_simp+
  have e: "ss_generation (session_at sample_registry 0) = ''g1''" "ss_entity (session_at sample_registry 0) = web"
    "ss_entity (session_at sample_registry 1) = tunnel" by code_simp+
  have "tunnel \<noteq> web" by code_simp
  with force_entities_selects[OF sample_at_rest mset_rev f live(1)] force_entities_selects[OF sample_at_rest mset_rev f live(2)] e f
  show ?thesis by (auto simp: sample_close_def)
qed

end
