(* ===== verification/GenDrain.thy ===== *)
theory GenDrain
  imports GenForce GoText
begin

text \<open>
  The drain controller of the agent (\<open>go-agent/internal/generation/controller.go\<close>): one generation is
  active, its predecessors drain until their sessions are gone, are forced when their time or their
  number is up, and their resources are then destroyed, with retries. Every exported operation, timer
  callback and goroutine is one operation of the model that runs to its end (the controller's and the
  entries' mutexes serialise them); goroutines that an operation starts wait in \<open>dc_tasks\<close>, armed
  timers in the entries. What sessions and resources do when they are closed is the argument \<open>env\<close>.
\<close>

subsection \<open>State\<close>

text \<open>\<open>DNone\<close> is the empty string that \<open>finalState\<close> starts with.\<close>

datatype drain_status = DNone | DApplied | DDraining | DDrained | DForced | DCleanupFailed

definition reason_timeout :: string where "reason_timeout = ''timeout''"
definition reason_generation_limit :: string where "reason_generation_limit = ''generation_limit''"
definition reason_entity_deleted :: string where "reason_entity_deleted = ''entity_deleted''"
definition reason_entity_disabled :: string where "reason_entity_disabled = ''entity_disabled''"
definition reason_shutdown :: string where "reason_shutdown = ''shutdown''"

datatype entity_action = EntityModified | EntityDeleted | EntityDisabled

datatype drain_timer = ForceTimer time | ProgressiveTimer time

datatype drain_error =
    DrainInvalid | DrainClosed | DrainDuplicate | DrainRevision | DrainUnknown | DrainRefused
  | DrainRevoked | DrainSession registry_error | DrainNotActive | DrainWrongState
  | DrainCloseFailed | DrainOwnsSessions nat | DrainDestroy | DrainLimit | DrainNotRetryable

text \<open>Errors are joined (\<open>errors.Join\<close>); the empty list is \<open>nil\<close>.\<close>

type_synonym drain_errors = "drain_error list"

text \<open>
  A \<open>drainEntry\<close> with its status. \<open>de_resource\<close>: the generation still holds its resource;
  \<open>de_destroying\<close>: a \<open>Destroy\<close> call was started and has not answered (\<open>destroyDone\<close>).
\<close>

record drain_entry =
  de_id :: string
  de_revision :: int
  de_resource :: bool
  de_state :: drain_status
  de_session_count :: nat
  de_forced_count :: nat
  de_force_reason :: string
  de_cleanup_error :: "drain_error option"
  de_applied_at :: time
  de_drain_started_at :: "time option"
  de_completed_at :: "time option"
  de_revoked :: "entity_key \<Rightarrow> string option"
  de_timer :: "drain_timer option"
  de_retry :: "time option"
  de_attempts :: nat
  de_final :: drain_status
  de_destroyed :: bool
  de_destroying :: bool
  de_released :: bool
  de_destroy_err :: drain_errors
  de_cleanup_timeout :: int

datatype drain_task = NaturalCleanup string | RetryTask string

record controller =
  dc_registry :: registry
  dc_active :: string
  dc_entries :: "string \<Rightarrow> drain_entry option"
  dc_order :: "string list"
  dc_closed :: bool
  dc_tasks :: "drain_task list"
  dc_destroys :: nat

definition new_controller :: controller where
  "new_controller = \<lparr>dc_registry = empty_registry, dc_active = [], dc_entries = (\<lambda>_. None), dc_order = [],
     dc_closed = False, dc_tasks = [], dc_destroys = 0\<rparr>"

text \<open>
  The environment of an operation: the clock, the order of map iteration, what \<open>ForceClose\<close> and
  \<open>TryCommitSelectiveForce\<close> do, and how the n-th wait for a \<open>Destroy\<close> call ends (\<open>DestroyExpired\<close>:
  the context was over before the call could start).
\<close>

datatype destroy_outcome = DestroyOk | DestroyErr | DestroyTimeout | DestroyExpired

record drain_env =
  en_now :: time
  en_order :: "nat list \<Rightarrow> nat list"
  en_close :: "nat \<Rightarrow> close_outcome"
  en_keep :: "nat \<Rightarrow> bool"
  en_destroy :: "nat \<Rightarrow> destroy_outcome"

definition upd_entry :: "string \<Rightarrow> (drain_entry \<Rightarrow> drain_entry) \<Rightarrow> controller \<Rightarrow> controller" where
  "upd_entry g f c = c\<lparr>dc_entries := (dc_entries c)(g := map_option f (dc_entries c g))\<rparr>"

definition count_in :: "controller \<Rightarrow> string \<Rightarrow> nat" where
  "count_in c g = generation_count (dc_registry c) g"

subsection \<open>Destroying resources\<close>

definition max_retained_terminal_generations :: nat where
  "max_retained_terminal_generations = 16"

definition cleanup_retry_base :: int where "cleanup_retry_base = second"
definition cleanup_retry_max :: int where "cleanup_retry_max = 30 * second"

fun destroy_fresh :: "destroy_outcome \<Rightarrow> bool \<times> bool" where
  "destroy_fresh DestroyOk = (True, False)"
| "destroy_fresh DestroyErr = (False, False)"
| "destroy_fresh DestroyTimeout = (False, True)"
| "destroy_fresh DestroyExpired = (False, False)"

text \<open>
  \<open>destroyGenerationResource\<close>: \<open>(succeeded, still running)\<close> and the number of waits. A call that was
  still running is waited for first; if it failed, the resource is destroyed once more.
\<close>

definition destroy_resource :: "(nat \<Rightarrow> destroy_outcome) \<Rightarrow> nat \<Rightarrow> bool \<Rightarrow> (bool \<times> bool) \<times> nat" where
  "destroy_resource outcome n running =
     (if \<not> running then (destroy_fresh (outcome n), n + 1)
      else (case outcome n of
          DestroyOk \<Rightarrow> ((True, False), n + 1)
        | DestroyErr \<Rightarrow> (destroy_fresh (outcome (n + 1)), n + 2)
        | _ \<Rightarrow> ((False, True), n + 1)))"

fun retry_delay_steps :: "nat \<Rightarrow> int \<Rightarrow> int" where
  "retry_delay_steps 0 delay = delay"
| "retry_delay_steps (Suc k) delay =
     (if delay < cleanup_retry_max then retry_delay_steps k (min (delay * 2) cleanup_retry_max) else delay)"

definition schedule_cleanup_retry :: "drain_env \<Rightarrow> string \<Rightarrow> controller \<Rightarrow> controller" where
  "schedule_cleanup_retry env g c =
     (case dc_entries c g of
        None \<Rightarrow> c
      | Some e \<Rightarrow>
          if de_released e \<or> de_retry e \<noteq> None \<or> dc_closed c then c
          else upd_entry g (\<lambda>e. e\<lparr>de_attempts := Suc (de_attempts e),
            de_retry := Some (en_now env + retry_delay_steps (de_attempts e) cleanup_retry_base)\<rparr>) c)"

definition is_released :: "controller \<Rightarrow> string \<Rightarrow> bool" where
  "is_released c g \<longleftrightarrow> (case dc_entries c g of None \<Rightarrow> False | Some e \<Rightarrow> de_released e)"

fun prune_order :: "controller \<Rightarrow> nat \<Rightarrow> string list \<Rightarrow> string list" where
  "prune_order c k [] = []"
| "prune_order c k (g # gs) =
     (if k > 0 \<and> is_released c g \<and> g \<noteq> dc_active c then prune_order c (k - 1) gs
      else if dc_entries c g \<noteq> None then g # prune_order c k gs
      else prune_order c k gs)"

definition prune_released :: "controller \<Rightarrow> controller" where
  "prune_released c =
     (let released = length (filter (\<lambda>g. is_released c g \<and> g \<noteq> dc_active c) (dc_order c));
          kept = prune_order c (released - max_retained_terminal_generations) (dc_order c)
      in if released \<le> max_retained_terminal_generations then c
         else c\<lparr>dc_entries := (\<lambda>g. if g \<in> set (dc_order c) \<and> g \<notin> set kept then None else dc_entries c g),
                dc_order := kept\<rparr>)"

definition release_entry :: "time \<Rightarrow> drain_entry \<Rightarrow> drain_entry" where
  "release_entry now e = e\<lparr>de_state := de_final e, de_cleanup_error := None, de_completed_at := Some now,
     de_released := True, de_resource := False, de_revoked := (\<lambda>_. None), de_timer := None, de_retry := None,
     de_attempts := 0, de_destroying := False, de_destroy_err := [], de_cleanup_timeout := 0\<rparr>"

definition complete_cleanup :: "drain_env \<Rightarrow> string \<Rightarrow> controller \<Rightarrow> drain_errors \<times> controller" where
  "complete_cleanup env g c =
     (case dc_entries c g of
        None \<Rightarrow> ([], c)
      | Some e \<Rightarrow>
          (case (if de_destroyed e then ((de_destroy_err e = [], de_destroying e), dc_destroys c)
                 else destroy_resource (en_destroy env) (dc_destroys c) (de_destroying e)) of
             ((ok, running), n) \<Rightarrow>
               let c1 = upd_entry g (\<lambda>e. e\<lparr>de_destroyed := (de_destroyed e \<or> ok), de_destroying := running,
                     de_destroy_err := (if ok then [] else [DrainDestroy])\<rparr>) (c\<lparr>dc_destroys := n\<rparr>)
               in if \<not> ok then
                    ([DrainDestroy], schedule_cleanup_retry env g (upd_entry g (\<lambda>e. e\<lparr>de_state := DCleanupFailed,
                       de_cleanup_error := Some DrainDestroy, de_completed_at := None\<rparr>) c1))
                  else ([], prune_released (upd_entry g (release_entry (en_now env)) c1))))"

subsection \<open>Sessions\<close>

definition register_drain_session ::
  "string \<Rightarrow> entity_key \<Rightarrow> string \<Rightarrow> controller \<Rightarrow> (drain_error + nat) \<times> controller" where
  "register_drain_session g e k c =
     (if dc_closed c then (Inl DrainClosed, c)
      else (case dc_entries c g of
          None \<Rightarrow> (Inl DrainUnknown, c)
        | Some entry \<Rightarrow>
            if de_state entry \<noteq> DApplied \<and> de_state entry \<noteq> DDraining then (Inl DrainRefused, c)
            else if de_revoked entry e \<noteq> None then (Inl DrainRevoked, c)
            else (case register_session g e k (dc_registry c) of
                (Inl err, r) \<Rightarrow> (Inl (DrainSession err), c\<lparr>dc_registry := r\<rparr>)
              | (Inr i, r) \<Rightarrow> (Inr i, c\<lparr>dc_registry := r\<rparr>))))"

text \<open>\<open>onSessionEmpty\<close>: a draining generation without sessions is drained, its cleanup runs later.\<close>

definition on_session_empty :: "string \<Rightarrow> controller \<Rightarrow> controller" where
  "on_session_empty g c =
     (case dc_entries c g of
        None \<Rightarrow> c
      | Some e \<Rightarrow>
          if count_in c g \<noteq> 0 then c
          else if de_state e = DCleanupFailed then c\<lparr>dc_tasks := dc_tasks c @ [RetryTask g]\<rparr>
          else if de_state e \<noteq> DDraining then c
          else (upd_entry g (\<lambda>e. e\<lparr>de_timer := None, de_state := DDrained, de_session_count := 0,
              de_final := DDrained\<rparr>) c)\<lparr>dc_tasks := dc_tasks c @ [NaturalCleanup g]\<rparr>)"

text \<open>A registry call of the controller, with the notifications it causes.\<close>

definition with_registry :: "force_result \<times> registry \<Rightarrow> controller \<Rightarrow> controller" where
  "with_registry fr c = fold on_session_empty (fo_empty (fst fr)) (c\<lparr>dc_registry := snd fr\<rparr>)"

text \<open>\<open>Finish\<close> of a session's handle.\<close>

definition finish_session :: "nat \<Rightarrow> controller \<Rightarrow> controller" where
  "finish_session i c =
     (case finish_naturally i (dc_registry c) of
        (False, r) \<Rightarrow> c\<lparr>dc_registry := r\<rparr>
      | (True, r) \<Rightarrow>
          (case finish_record i r of
             (r', e) \<Rightarrow> with_registry (no_force\<lparr>fo_empty := reported e\<rparr>, r') c))"

text \<open>
  The end of a force that another call of the registry runs: \<open>completeForce\<close>, and the removal it may
  ask for.
\<close>

definition complete_session :: "nat \<Rightarrow> bool \<Rightarrow> controller \<Rightarrow> controller" where
  "complete_session i success c =
     (case complete_force i success (dc_registry c) of
        ((removed, _), r) \<Rightarrow>
          (if removed then (case finish_record i r of (r', e) \<Rightarrow> with_registry (no_force\<lparr>fo_empty := reported e\<rparr>, r') c)
           else c\<lparr>dc_registry := r\<rparr>))"

definition close_errors :: "force_result \<Rightarrow> drain_errors" where
  "close_errors f = (if fo_ok f then [] else [DrainCloseFailed])"

subsection \<open>Forcing a generation\<close>

definition force_drain_generation :: "drain_env \<Rightarrow> string \<Rightarrow> string \<Rightarrow> controller \<Rightarrow> drain_errors \<times> controller" where
  "force_drain_generation env g reason c =
     (case dc_entries c g of
        None \<Rightarrow> ([], c)
      | Some e \<Rightarrow>
          if de_released e then ([], c)
          else if (de_state e = DCleanupFailed \<or> de_state e = DDrained) \<and> count_in c g = 0 then complete_cleanup env g c
          else if reason \<noteq> reason_shutdown \<and> de_state e \<noteq> DDraining \<and> de_state e \<noteq> DCleanupFailed
          then (de_destroy_err e, c)
          else
            let c1 = upd_entry g (\<lambda>e. e\<lparr>de_timer := None, de_state := DForced, de_force_reason := reason,
                  de_final := DForced\<rparr>) c;
                fr = force_generation (en_order env) (en_close env) g (dc_registry c1);
                c2 = with_registry fr c1;
                remaining = count_in c2 g;
                c3 = upd_entry g (\<lambda>e. e\<lparr>de_forced_count := fo_forced (fst fr), de_session_count := remaining\<rparr>) c2
            in if remaining \<noteq> 0 then
                 (close_errors (fst fr) @ [DrainOwnsSessions remaining],
                  upd_entry g (\<lambda>e. e\<lparr>de_state := DCleanupFailed,
                    de_cleanup_error := Some (DrainOwnsSessions remaining)\<rparr>) c3)
               else (case complete_cleanup env g c3 of
                   (errs, c4) \<Rightarrow> (close_errors (fst fr) @ errs, c4)))"

definition force_non_provider_sessions :: "drain_env \<Rightarrow> string \<Rightarrow> controller \<Rightarrow> drain_errors \<times> controller" where
  "force_non_provider_sessions env g c =
     (case dc_entries c g of
        None \<Rightarrow> ([], c)
      | Some e \<Rightarrow>
          if de_released e \<or> de_state e \<noteq> DDraining then ([], c)
          else
            let c1 = upd_entry g (\<lambda>e. e\<lparr>de_timer := None\<rparr>) c;
                fr = force_generation_except_progressive (en_order env) (en_close env) (en_keep env) g (dc_registry c1);
                c2 = with_registry fr c1;
                c3 = upd_entry g (\<lambda>e. e\<lparr>de_forced_count := de_forced_count e + fo_forced (fst fr),
                      de_session_count := count_in c2 g\<rparr>) c2
            in (close_errors (fst fr), on_session_empty g c3))"

subsection \<open>The number of live generations\<close>

definition unreleased :: "controller \<Rightarrow> string list" where
  "unreleased c = filter (\<lambda>g. dc_entries c g \<noteq> None \<and> \<not> is_released c g) (dc_order c)"

text \<open>The loop of \<open>enforceLimit\<close>; the number of rounds is bounded by the generations known at its start.\<close>

fun enforce_limit :: "nat \<Rightarrow> drain_env \<Rightarrow> string list \<Rightarrow> controller \<Rightarrow> (drain_errors \<times> controller) option" where
  "enforce_limit 0 env attempted c = None"
| "enforce_limit (Suc k) env attempted c =
     (if length (unreleased c) \<le> 2 then Some ([], c)
      else (case find (\<lambda>g. g \<noteq> dc_active c \<and> g \<notin> set attempted) (unreleased c) of
          None \<Rightarrow> Some ([DrainLimit], c)
        | Some oldest \<Rightarrow>
            (case force_drain_generation env oldest reason_generation_limit c of
               (errs, c1) \<Rightarrow>
                 (case enforce_limit k env (oldest # attempted) c1 of
                    None \<Rightarrow> None
                  | Some (errs', c2) \<Rightarrow> Some (errs @ errs', c2)))))"

subsection \<open>Activation, retirement, cleanup and close\<close>

record next_generation =
  ng_id :: string
  ng_revision :: int
  ng_has_resource :: bool

definition change_reason :: "entity_action \<Rightarrow> string option" where
  "change_reason a = (case a of EntityDeleted \<Rightarrow> Some reason_entity_deleted
     | EntityDisabled \<Rightarrow> Some reason_entity_disabled | EntityModified \<Rightarrow> None)"

definition revoked_entities :: "(entity_key \<times> entity_action) list \<Rightarrow> entity_key \<Rightarrow> string option" where
  "revoked_entities changes = fold (\<lambda>(e, a) m. case change_reason a of None \<Rightarrow> m | Some r \<Rightarrow> m(e \<mapsto> r)) changes (\<lambda>_. None)"

definition new_entry :: "time \<Rightarrow> next_generation \<Rightarrow> drain_entry" where
  "new_entry now n = \<lparr>de_id = ng_id n, de_revision = ng_revision n, de_resource = True, de_state = DApplied,
     de_session_count = 0, de_forced_count = 0, de_force_reason = [], de_cleanup_error = None, de_applied_at = now,
     de_drain_started_at = None, de_completed_at = None, de_revoked = (\<lambda>_. None), de_timer = None, de_retry = None,
     de_attempts = 0, de_final = DNone, de_destroyed = False, de_destroying = False, de_released = False,
     de_destroy_err = [], de_cleanup_timeout = 0\<rparr>"

text \<open>The predecessor starts to drain; a negative timeout asks for a progressive drain.\<close>

definition start_drain :: "time \<Rightarrow> (entity_key \<Rightarrow> string option) \<Rightarrow> int \<Rightarrow> drain_entry \<Rightarrow> drain_entry" where
  "start_drain now revoked timeout0 e =
     (let timeout = (if timeout0 = 0 then minute else \<bar>timeout0\<bar>) in
      e\<lparr>de_state := DDraining, de_drain_started_at := Some now, de_revoked := revoked, de_cleanup_timeout := timeout,
        de_timer := Some (if timeout0 < 0 then ProgressiveTimer (now + timeout) else ForceTimer (now + timeout))\<rparr>)"

text \<open>The new generation becomes the active one; its predecessor \<open>p\<close> drains.\<close>

definition added :: "time \<Rightarrow> next_generation \<Rightarrow> controller \<Rightarrow> controller" where
  "added now n c = c\<lparr>dc_entries := (dc_entries c)(ng_id n \<mapsto> new_entry now n), dc_order := dc_order c @ [ng_id n],
     dc_active := ng_id n\<rparr>"

definition superseded ::
  "drain_env \<Rightarrow> string \<Rightarrow> (entity_key \<times> entity_action) list \<Rightarrow> int \<Rightarrow> controller \<Rightarrow> drain_errors \<times> controller" where
  "superseded env p changes timeout c =
     (let revoked = revoked_entities changes; c1 = upd_entry p (start_drain (en_now env) revoked timeout) c;
          (errs, c2) = (if list_ex (\<lambda>(e, a). change_reason a \<noteq> None) changes then
              (let fr = force_entities (en_order env) (en_close env) p revoked (dc_registry c1)
               in (close_errors (fst fr), with_registry fr c1)) else ([], c1))
      in (errs, on_session_empty p c2))"

definition activate ::
  "drain_env \<Rightarrow> next_generation \<Rightarrow> (entity_key \<times> entity_action) list \<Rightarrow> int \<Rightarrow> controller \<Rightarrow>
   (drain_errors \<times> controller) option" where
  "activate env n changes timeout c =
     (if ng_id n = [] \<or> \<not> ng_has_resource n then Some ([DrainInvalid], c)
      else if dc_closed c then Some ([DrainClosed], c)
      else if dc_entries c (ng_id n) \<noteq> None then Some ([DrainDuplicate], c)
      else (case (case dc_entries c (dc_active c) of
                None \<Rightarrow> Some ([], added (en_now env) n c)
              | Some previous \<Rightarrow>
                  if ng_revision n \<le> de_revision previous then None
                  else Some (superseded env (de_id previous) changes timeout (added (en_now env) n c))) of
            None \<Rightarrow> Some ([DrainRevision], c)
          | Some (errs, c1) \<Rightarrow>
              (case enforce_limit (Suc (length (dc_order c1))) env [] c1 of
                 None \<Rightarrow> None
               | Some (errs', c2) \<Rightarrow> Some (errs @ errs', c2))))"

definition retire_active :: "time \<Rightarrow> string \<Rightarrow> int \<Rightarrow> controller \<Rightarrow> drain_errors \<times> controller" where
  "retire_active now g timeout0 c =
     (if trim_space g = [] then ([DrainInvalid], c)
      else if dc_closed c then ([DrainClosed], c)
      else (case dc_entries c g of
          None \<Rightarrow> ([DrainNotActive], c)
        | Some e \<Rightarrow>
            if dc_active c \<noteq> g then ([DrainNotActive], c)
            else if de_state e \<noteq> DApplied then ([DrainWrongState], c)
            else
              let timeout = (if timeout0 \<le> 0 then minute else timeout0) in
              ([], on_session_empty g (upd_entry g (\<lambda>e. e\<lparr>de_state := DDraining, de_drain_started_at := Some now,
                 de_cleanup_timeout := timeout, de_timer := Some (ForceTimer (now + timeout))\<rparr>) (c\<lparr>dc_active := []\<rparr>)))))"

definition retry_cleanup :: "drain_env \<Rightarrow> string \<Rightarrow> controller \<Rightarrow> drain_errors \<times> controller" where
  "retry_cleanup env g c =
     (case dc_entries c g of
        None \<Rightarrow> ([DrainUnknown], c)
      | Some e \<Rightarrow>
          if de_state e \<noteq> DCleanupFailed then ([DrainNotRetryable], c)
          else if count_in c g \<noteq> 0 then ([DrainOwnsSessions (count_in c g)], c)
          else complete_cleanup env g (upd_entry g (\<lambda>e. e\<lparr>de_retry := None\<rparr>) c))"

definition complete_natural_cleanup :: "drain_env \<Rightarrow> string \<Rightarrow> controller \<Rightarrow> controller" where
  "complete_natural_cleanup env g c =
     (case dc_entries c g of
        None \<Rightarrow> c
      | Some e \<Rightarrow> if de_released e \<or> de_state e \<noteq> DDrained then c else snd (complete_cleanup env g c))"

text \<open>A goroutine runs; a timer fires.\<close>

definition run_task :: "drain_env \<Rightarrow> controller \<Rightarrow> controller" where
  "run_task env c =
     (case dc_tasks c of
        [] \<Rightarrow> c
      | NaturalCleanup g # ts \<Rightarrow> complete_natural_cleanup env g (c\<lparr>dc_tasks := ts\<rparr>)
      | RetryTask g # ts \<Rightarrow> snd (retry_cleanup env g (c\<lparr>dc_tasks := ts\<rparr>)))"

definition fire_timer :: "drain_env \<Rightarrow> string \<Rightarrow> controller \<Rightarrow> controller" where
  "fire_timer env g c =
     (case dc_entries c g of
        None \<Rightarrow> c
      | Some e \<Rightarrow>
          (case de_timer e of
             None \<Rightarrow> c
           | Some (ForceTimer _) \<Rightarrow> snd (force_drain_generation env g reason_timeout c)
           | Some (ProgressiveTimer _) \<Rightarrow> snd (force_non_provider_sessions env g c)))"

definition fire_retry :: "drain_env \<Rightarrow> string \<Rightarrow> controller \<Rightarrow> controller" where
  "fire_retry env g c =
     (case dc_entries c g of
        None \<Rightarrow> c
      | Some e \<Rightarrow>
          if de_retry e = None \<or> de_released e then c
          else snd (retry_cleanup env g (upd_entry g (\<lambda>e. e\<lparr>de_retry := None\<rparr>) c)))"

definition stop_timers :: "string \<Rightarrow> controller \<Rightarrow> controller" where
  "stop_timers g c = (if is_released c g then c else upd_entry g (\<lambda>e. e\<lparr>de_timer := None, de_retry := None\<rparr>) c)"

fun force_each :: "drain_env \<Rightarrow> string list \<Rightarrow> controller \<Rightarrow> drain_errors \<times> controller" where
  "force_each env [] c = ([], c)"
| "force_each env (g # gs) c =
     (case force_drain_generation env g reason_shutdown c of
        (errs, c1) \<Rightarrow> (case force_each env gs c1 of (errs', c2) \<Rightarrow> (errs @ errs', c2)))"

definition close_controller :: "drain_env \<Rightarrow> controller \<Rightarrow> drain_errors \<times> controller" where
  "close_controller env c =
     (let c1 = (fold stop_timers (dc_order c) (c\<lparr>dc_closed := True\<rparr>))\<lparr>dc_active := []\<rparr>
      in force_each env (dc_order c) c1)"

text \<open>What is reported: the entries in the order of their revisions.\<close>

definition drain_snapshot :: "controller \<Rightarrow> string \<times> drain_entry list" where
  "drain_snapshot c = (dc_active c, sort_key de_revision (map (\<lambda>e. e\<lparr>de_session_count := count_in c (de_id e)\<rparr>)
     (List.map_filter (dc_entries c) (dc_order c))))"

end
