(* ===== verification/GenDrainInv.thy ===== *)
theory GenDrainInv
  imports GenDrain
begin

text \<open>
  The invariant of the drain controller: what every generation's entry, its sessions, its resource and
  the pending goroutines and timers have to do with each other, that every operation of
  \<open>controller.go\<close> keeps it, and the step relation of the controller.
\<close>

subsection \<open>Registry calls only remove sessions\<close>

text \<open>
  A registry call from \<open>r\<close> to \<open>r'\<close> removes live records, keeps the identity of all records and reports
  exactly the generations that lost their last one.
\<close>

definition shrinks :: "registry \<Rightarrow> registry \<Rightarrow> string list \<Rightarrow> bool" where
  "shrinks r r' es \<longleftrightarrow> (\<exists>P. rg_live r' = filter P (rg_live r)) \<and> length (rg_heap r') = length (rg_heap r) \<and>
     (\<forall>j. session_key (session_at r' j) = session_key (session_at r j)) \<and>
     (\<forall>g. g \<in> set es \<longleftrightarrow> live_in r g \<noteq> [] \<and> live_in r' g = [])"

lemma shrinksD:
  assumes "shrinks r r' es"
  shows "set (rg_live r') \<subseteq> set (rg_live r)" and "length (rg_heap r') = length (rg_heap r)"
    and "session_key (session_at r' j) = session_key (session_at r j)"
    and "g \<in> set es \<longleftrightarrow> live_in r g \<noteq> [] \<and> live_in r' g = []"
    and "live_in r g = [] \<Longrightarrow> live_in r' g = []"
proof -
  show "set (rg_live r') \<subseteq> set (rg_live r)" "length (rg_heap r') = length (rg_heap r)"
    "session_key (session_at r' j) = session_key (session_at r j)" "g \<in> set es \<longleftrightarrow> live_in r g \<noteq> [] \<and> live_in r' g = []"
    using assms by (auto simp: shrinks_def)
  obtain P where P: "rg_live r' = filter P (rg_live r)" using assms by (auto simp: shrinks_def)
  have k: "session_key (session_at r' j) = session_key (session_at r j)" for j using assms by (simp add: shrinks_def)
  show "live_in r' g = []" if "live_in r g = []" using live_in_keys[OF k P, of g] that by simp
qed

lemma shrinks_refl: "shrinks r r []"
  unfolding shrinks_def by (auto intro: exI[of _ "\<lambda>_. True"])

lemma shrinks_trans:
  assumes a: "shrinks r r' es" and b: "shrinks r' r'' fs"
  shows "shrinks r r'' (es @ fs)"
proof -
  obtain P Q where "rg_live r' = filter P (rg_live r)" "rg_live r'' = filter Q (rg_live r')"
    using a b by (auto simp: shrinks_def)
  then have "rg_live r'' = filter (\<lambda>i. P i \<and> Q i) (rg_live r)" by (simp add: conj_commute)
  moreover have "g \<in> set (es @ fs) \<longleftrightarrow> live_in r g \<noteq> [] \<and> live_in r'' g = []" for g
    using shrinksD(4)[OF a, of g] shrinksD(4)[OF b, of g] shrinksD(5)[OF a, of g] shrinksD(5)[OF b, of g] by auto
  ultimately show ?thesis
    using shrinksD(2,3)[OF a] shrinksD(2,3)[OF b] unfolding shrinks_def by auto
qed

lemma session_key_set_session:
  "(\<And>s. session_key (f s) = session_key s) \<Longrightarrow> session_key (session_at (set_session i f r) j) = session_key (session_at r j)"
  by (cases "i < length (rg_heap r)") (simp_all add: session_at_set, simp add: set_session_def session_at_def list_update_beyond)

lemma shrinks_set_session:
  assumes "\<And>s. session_key (f s) = session_key s"
  shows "shrinks r (set_session i f r) []"
proof -
  have k: "session_key (session_at (set_session i f r) j) = session_key (session_at r j)" for j
    using session_key_set_session[of f] assms by blast
  then have "ss_generation (session_at (set_session i f r) j) = ss_generation (session_at r j)" for j
    by (simp add: session_key_def)
  then have "live_in (set_session i f r) g = live_in r g" for g by (simp add: live_in_def)
  with k show ?thesis unfolding shrinks_def by (auto intro: exI[of _ "\<lambda>_. True"])
qed

lemma shrinks_finish_record:
  assumes "finish_record i r = (r', e)"
  shows "shrinks r r' (reported e)"
proof -
  note f = finish_record_simps[OF assms]
  have at: "session_at r' j = session_at r j" for j using f(1) by (simp add: session_at_def)
  have l: "live_in r' g = filter (\<lambda>j. j \<noteq> i) (live_in r g)" for g
    by (rule live_in_keys) (simp_all add: at f(2))
  have other: "live_in r' g = live_in r g" if "g \<noteq> ss_generation (session_at r i)" for g
    unfolding l using that by (intro filter_True) (auto simp: live_in_def)
  have "g \<in> set (reported e) \<longleftrightarrow> live_in r g \<noteq> [] \<and> live_in r' g = []" for g
    using f(3) other[of g] by (cases "g = ss_generation (session_at r i)") (auto simp: reported_def)
  then show ?thesis unfolding shrinks_def using f(1,2) at by auto
qed

lemma shrinks_handles:
  "shrinks r (snd (finish_naturally i r)) []"
  "shrinks r (snd (claim_force i terminal r)) []"
  "shrinks r (snd (complete_force i success r)) []"
  by (auto simp: finish_naturally_def claim_force_def complete_force_def Let_def session_key_def
      intro!: shrinks_refl shrinks_set_session split: handle_state.split)

lemma shrinks_close_owned:
  assumes "close_owned terminal c i r = (res, r')"
  shows "shrinks r r' (fo_empty res)"
proof -
  let ?r1 = "if co_finishes c then snd (finish_naturally i r) else r"
  obtain removed wt r2 where cf: "complete_force i (co_ok c) ?r1 = ((removed, wt), r2)" by (metis prod.exhaust)
  obtain r3 e where fr: "(if removed then finish_record i r2 else (r2, None)) = (r3, e)" by fastforce
  have eq: "fo_empty res = reported e" "r' = r3"
    using assms unfolding close_owned_def Let_def cf prod.case fr by auto
  have "shrinks r ?r1 []" using shrinks_handles(1) shrinks_refl by simp
  moreover have "shrinks ?r1 r2 []" using shrinks_handles(3)[of ?r1 i "co_ok c"] unfolding cf by simp
  moreover have "shrinks r2 r3 (reported e)"
    using fr shrinks_finish_record[of i r2] shrinks_refl by (auto simp: reported_def split: if_splits)
  ultimately have "shrinks r r3 ([] @ [] @ reported e)" by (intro shrinks_trans)
  then show ?thesis by (simp add: eq)
qed

lemma shrinks_force_one:
  assumes "force_one terminal close i r = (res, r')"
  shows "shrinks r r' (fo_empty res)"
proof -
  obtain k r1 where c: "claim_force i terminal r = (k, r1)" by fastforce
  have s: "shrinks r r1 []" using shrinks_handles(2)[of r i terminal] by (simp add: c)
  have "shrinks r1 r' (fo_empty res)"
  proof (cases k)
    case ClaimOwned
    then show ?thesis using assms c shrinks_close_owned by (simp add: force_one_def)
  next
    case ClaimFinished
    obtain r2 e where fr: "finish_record i r1 = (r2, e)" by fastforce
    from ClaimFinished assms c fr shrinks_finish_record[OF fr] shrinks_refl show ?thesis
      by (auto simp: force_one_def no_force_def split: if_splits)
  qed (use assms c shrinks_refl in \<open>auto simp: force_one_def no_force_def\<close>)
  with s have "shrinks r r' ([] @ fo_empty res)" by (rule shrinks_trans)
  then show ?thesis by simp
qed

lemma shrinks_force_all: "force_all terminal close is r = (res, r') \<Longrightarrow> shrinks r r' (fo_empty res)"
proof (induction "is" arbitrary: r res)
  case (Cons i js)
  obtain a r1 where one: "force_one terminal close i r = (a, r1)" by fastforce
  obtain b where rest: "force_all terminal close js r1 = (b, r')" and res: "res = join_force a b"
    using Cons.prems one by (auto split: prod.splits)
  show ?case using shrinks_trans[OF shrinks_force_one[OF one] Cons.IH[OF rest]] by (simp add: res join_force_def)
qed (auto simp: no_force_def intro: shrinks_refl)

lemma shrinks_forces:
  "shrinks r (snd (force_generation order close g r)) (fo_empty (fst (force_generation order close g r)))"
  "shrinks r (snd (force_entities order close g ents r)) (fo_empty (fst (force_entities order close g ents r)))"
  "shrinks r (snd (force_generation_except_progressive order close keep g r))
     (fo_empty (fst (force_generation_except_progressive order close keep g r)))"
  by (simp_all add: force_generation_def force_entities_def force_generation_except_progressive_def shrinks_force_all)

subsection \<open>The invariant\<close>

text \<open>
  The entry \<open>e\<close> of generation \<open>g\<close>, at any point of an operation. Released: the resource was destroyed and
  dropped, nothing of the generation is left and nothing is scheduled for it.
\<close>

definition entry_ok :: "controller \<Rightarrow> string \<Rightarrow> drain_entry \<Rightarrow> bool" where
  "entry_ok c g e \<longleftrightarrow> g \<noteq> [] \<and> de_id e = g \<and> de_state e \<noteq> DNone \<and>
     de_resource e = (\<not> de_released e) \<and> de_destroyed e = de_released e \<and>
     (de_released e \<longrightarrow> de_state e = de_final e \<and> de_state e \<in> {DDrained, DForced} \<and>
       live_in (dc_registry c) g = [] \<and> de_timer e = None \<and> de_retry e = None \<and> de_cleanup_error e = None) \<and>
     (de_state e \<notin> {DApplied, DDraining} \<longrightarrow> de_final e \<in> {DDrained, DForced}) \<and>
     (de_state e = DDrained \<longrightarrow> live_in (dc_registry c) g = [])"

text \<open>
  A generation between two operations: only the active one is applied, only the released are forced, a
  draining generation has sessions, a drained one is released or its cleanup goroutine is under way,
  and a failed cleanup without sessions has a retry armed or a retry goroutine under way, unless the
  controller was closed.
\<close>

definition entry_settled :: "controller \<Rightarrow> string \<Rightarrow> drain_entry \<Rightarrow> bool" where
  "entry_settled c g e \<longleftrightarrow>
     (case de_state e of
        DApplied \<Rightarrow> g = dc_active c
      | DForced \<Rightarrow> de_released e
      | DDrained \<Rightarrow> de_released e \<or> NaturalCleanup g \<in> set (dc_tasks c)
      | DDraining \<Rightarrow> live_in (dc_registry c) g \<noteq> []
      | DCleanupFailed \<Rightarrow> live_in (dc_registry c) g \<noteq> [] \<or> de_retry e \<noteq> None \<or> RetryTask g \<in> set (dc_tasks c) \<or> dc_closed c
      | DNone \<Rightarrow> True)"

text \<open>A generation whose last session is gone and whose \<open>onSessionEmpty\<close> is still to come.\<close>

definition awaits :: "controller \<Rightarrow> string \<Rightarrow> drain_entry \<Rightarrow> bool" where
  "awaits c g e \<longleftrightarrow> live_in (dc_registry c) g = [] \<and> de_state e \<in> {DDraining, DCleanupFailed}"

definition shape_ok :: "controller \<Rightarrow> bool" where
  "shape_ok c \<longleftrightarrow> distinct (dc_order c) \<and> set (dc_order c) = dom (dc_entries c) \<and>
     (\<forall>i \<in> set (rg_live (dc_registry c)). i < length (rg_heap (dc_registry c)) \<and>
        ss_generation (session_at (dc_registry c) i) \<in> dom (dc_entries c)) \<and>
     (dc_active c \<noteq> [] \<longrightarrow> (\<exists>e. dc_entries c (dc_active c) = Some e \<and> de_state e = DApplied))"

definition retention_ok :: "controller \<Rightarrow> bool" where
  "retention_ok c \<longleftrightarrow> length (filter (is_released c) (dc_order c)) \<le> max_retained_terminal_generations"

text \<open>The generations of \<open>X\<close> are in the hands of the running operation, those of \<open>E\<close> may await their call.\<close>

definition entries_ok :: "string set \<Rightarrow> string set \<Rightarrow> controller \<Rightarrow> bool" where
  "entries_ok X E c \<longleftrightarrow> (\<forall>g e. dc_entries c g = Some e \<longrightarrow> entry_ok c g e \<and>
     (g \<in> X \<or> entry_settled c g e \<or> g \<in> E \<and> awaits c g e))"

definition inv_pending :: "string set \<Rightarrow> string set \<Rightarrow> controller \<Rightarrow> bool" where
  "inv_pending X E c \<longleftrightarrow> shape_ok c \<and> entries_ok X E c \<and> retention_ok c"

definition drain_inv :: "controller \<Rightarrow> bool" where
  "drain_inv c \<longleftrightarrow> inv_pending {} {} c"

lemma entries_okD:
  "entries_ok X E c \<Longrightarrow> dc_entries c g = Some e \<Longrightarrow> entry_ok c g e"
  "entries_ok X E c \<Longrightarrow> dc_entries c g = Some e \<Longrightarrow> g \<in> X \<or> entry_settled c g e \<or> g \<in> E \<and> awaits c g e"
  by (auto simp: entries_ok_def)

lemma inv_pendingD:
  assumes "inv_pending X E c"
  shows "shape_ok c" and "entries_ok X E c" and "retention_ok c"
    and "dc_entries c g = Some e \<Longrightarrow> entry_ok c g e"
    and "dc_entries c g = Some e \<Longrightarrow> g \<in> X \<or> entry_settled c g e \<or> g \<in> E \<and> awaits c g e"
    and "distinct (dc_order c)" and "set (dc_order c) = dom (dc_entries c)"
  using assms unfolding inv_pending_def entries_ok_def shape_ok_def by blast+

lemma inv_pending_mono: "inv_pending X E c \<Longrightarrow> X \<subseteq> X' \<Longrightarrow> E \<subseteq> E' \<Longrightarrow> inv_pending X' E' c"
  unfolding inv_pending_def entries_ok_def by blast

lemma upd_entry_simps [simp]:
  "dc_registry (upd_entry g f c) = dc_registry c"
  "dc_active (upd_entry g f c) = dc_active c"
  "dc_order (upd_entry g f c) = dc_order c"
  "dc_closed (upd_entry g f c) = dc_closed c"
  "dc_tasks (upd_entry g f c) = dc_tasks c"
  "dc_destroys (upd_entry g f c) = dc_destroys c"
  "dom (dc_entries (upd_entry g f c)) = dom (dc_entries c)"
  "dc_entries (upd_entry g f c) h = (if h = g then map_option f (dc_entries c g) else dc_entries c h)"
  by (auto simp: upd_entry_def dom_def)

lemma entry_ok_cong: "dc_registry c' = dc_registry c \<Longrightarrow> entry_ok c' g e = entry_ok c g e"
  by (simp add: entry_ok_def)

lemma entry_settled_cong:
  "dc_registry c' = dc_registry c \<Longrightarrow> dc_active c' = dc_active c \<Longrightarrow> dc_tasks c' = dc_tasks c \<Longrightarrow>
   dc_closed c' = dc_closed c \<Longrightarrow> entry_settled c' g e = entry_settled c g e"
  by (simp add: entry_settled_def split: drain_status.split)

lemma awaits_cong: "dc_registry c' = dc_registry c \<Longrightarrow> awaits c' g e = awaits c g e"
  by (simp add: awaits_def)

lemma entry_ok_upd [simp]: "entry_ok (upd_entry g f c) = entry_ok c"
  by (intro ext entry_ok_cong) simp_all

lemma entry_settled_upd [simp]: "entry_settled (upd_entry g f c) = entry_settled c"
  by (intro ext entry_settled_cong) simp_all

lemma awaits_upd [simp]: "awaits (upd_entry g f c) = awaits c"
  by (intro ext awaits_cong) simp_all

text \<open>One entry changes.\<close>

lemma entries_upd:
  assumes "entries_ok X E c" and "dc_entries c g = Some e" and "entry_ok c g (f e)"
    and "g \<in> Y \<or> entry_settled c g (f e) \<or> g \<in> F \<and> awaits c g (f e)" and "X - {g} \<subseteq> Y" and "E - {g} \<subseteq> F"
  shows "entries_ok Y F (upd_entry g f c)"
  unfolding entries_ok_def
proof (intro allI impI)
  fix h d assume h: "dc_entries (upd_entry g f c) h = Some d"
  show "entry_ok (upd_entry g f c) h d \<and>
    (h \<in> Y \<or> entry_settled (upd_entry g f c) h d \<or> h \<in> F \<and> awaits (upd_entry g f c) h d)"
  proof (cases "h = g")
    case True
    with h assms(2-4) show ?thesis by auto
  next
    case False
    with h have "dc_entries c h = Some d" by simp
    from entries_okD[OF assms(1) this] False assms(5,6) show ?thesis by auto
  qed
qed

lemma shape_upd:
  assumes "shape_ok c" and "dc_entries c g = Some e" and "g = dc_active c \<Longrightarrow> de_state (f e) = DApplied"
  shows "shape_ok (upd_entry g f c)"
  using assms unfolding shape_ok_def by auto

lemma retention_upd:
  assumes "retention_ok c" and "dc_entries c g = Some e" and "de_released (f e) \<Longrightarrow> de_released e"
  shows "retention_ok (upd_entry g f c)"
proof -
  have "is_released (upd_entry g f c) h \<Longrightarrow> is_released c h" for h
    using assms(2,3) by (cases "h = g") (auto simp: is_released_def)
  then have "length (filter (is_released (upd_entry g f c)) hs) \<le> length (filter (is_released c) hs)" for hs
    by (induction hs) auto
  from this[of "dc_order c"] assms(1) show ?thesis by (simp add: retention_ok_def)
qed

text \<open>One entry changes, the others keep their obligations.\<close>

lemma inv_upd:
  assumes "inv_pending X E c" and "dc_entries c g = Some e" and "entry_ok c g (f e)"
    and "g \<in> Y \<or> entry_settled c g (f e) \<or> g \<in> F \<and> awaits c g (f e)" and "X - {g} \<subseteq> Y" and "E - {g} \<subseteq> F"
    and "g = dc_active c \<Longrightarrow> de_state (f e) = DApplied" and "de_released (f e) \<Longrightarrow> de_released e"
  shows "inv_pending Y F (upd_entry g f c)"
  using assms entries_upd[of X E c g e f Y F] shape_upd[of c g e f] retention_upd[of c g e f]
  unfolding inv_pending_def by blast

lemma active_applied:
  "shape_ok c \<Longrightarrow> dc_entries c g = Some e \<Longrightarrow> g \<noteq> [] \<Longrightarrow> de_state e \<noteq> DApplied \<Longrightarrow> g \<noteq> dc_active c"
  by (auto simp: shape_ok_def)

lemma is_released_simps [simp]:
  "is_released (c\<lparr>dc_registry := r\<rparr>) = is_released c"
  "is_released (c\<lparr>dc_tasks := ts\<rparr>) = is_released c"
  "is_released (c\<lparr>dc_active := a\<rparr>) = is_released c"
  "is_released (c\<lparr>dc_destroys := n\<rparr>) = is_released c"
  "is_released (c\<lparr>dc_closed := b\<rparr>) = is_released c"
  by (simp_all add: is_released_def fun_eq_iff)

lemma inv_tasks:
  assumes "inv_pending X E c"
  shows "inv_pending X E (c\<lparr>dc_tasks := dc_tasks c @ ts\<rparr>)"
proof -
  have "entry_ok (c\<lparr>dc_tasks := dc_tasks c @ ts\<rparr>) g e = entry_ok c g e"
    "awaits (c\<lparr>dc_tasks := dc_tasks c @ ts\<rparr>) g e = awaits c g e"
    "entry_settled c g e \<Longrightarrow> entry_settled (c\<lparr>dc_tasks := dc_tasks c @ ts\<rparr>) g e" for g e
    by (auto simp: entry_ok_def awaits_def entry_settled_def split: drain_status.splits)
  with assms show ?thesis
    unfolding inv_pending_def entries_ok_def shape_ok_def retention_ok_def by fastforce
qed

subsection \<open>A session ended\<close>

lemma on_session_empty_simps [simp]:
  "dc_registry (on_session_empty g c) = dc_registry c"
  "dc_active (on_session_empty g c) = dc_active c"
  "dc_order (on_session_empty g c) = dc_order c"
  "dc_closed (on_session_empty g c) = dc_closed c"
  "dc_destroys (on_session_empty g c) = dc_destroys c"
  "dom (dc_entries (on_session_empty g c)) = dom (dc_entries c)"
  by (auto simp: on_session_empty_def upd_entry_def split: option.split if_splits)

lemma on_session_empty_other:
  "h \<noteq> g \<or> (\<exists>e. dc_entries c h = Some e \<and> de_state e \<noteq> DDraining) \<Longrightarrow>
   dc_entries (on_session_empty g c) h = dc_entries c h"
  by (auto simp: on_session_empty_def split: option.split)

lemma empty_iff: "count_in c g = 0 \<longleftrightarrow> live_in (dc_registry c) g = []"
  by (simp add: count_in_def generation_count_def)

lemma inv_settle:
  assumes "inv_pending X E c" and "\<And>e. dc_entries c g = Some e \<Longrightarrow> g \<in> X \<or> entry_settled c g e"
  shows "inv_pending X (E - {g}) c"
  using assms unfolding inv_pending_def entries_ok_def by blast

lemma inv_on_session_empty:
  assumes inv: "inv_pending X E c"
  shows "inv_pending X (E - {g}) (on_session_empty g c)"
proof (cases "dc_entries c g")
  case None
  then have "on_session_empty g c = c" by (simp add: on_session_empty_def)
  with inv None show ?thesis using inv_settle[of X E c g] by simp
next
  case (Some e)
  note ok = inv_pendingD(4)[OF inv Some]
  note on_session_empty_def [simp]
  consider (busy) "live_in (dc_registry c) g \<noteq> []" | (retry) "live_in (dc_registry c) g = []" "de_state e = DCleanupFailed"
    | (drain) "live_in (dc_registry c) g = []" "de_state e = DDraining"
    | (other) "live_in (dc_registry c) g = []" "de_state e \<noteq> DDraining" "de_state e \<noteq> DCleanupFailed" by blast
  then show ?thesis
  proof cases
    case busy
    then have "on_session_empty g c = c" using Some by (simp add: empty_iff)
    moreover have "g \<in> X \<or> entry_settled c g e" using inv_pendingD(5)[OF inv Some] busy by (simp add: awaits_def)
    ultimately show ?thesis using inv_settle[OF inv, of g] Some by simp
  next
    case retry
    then have "on_session_empty g c = c\<lparr>dc_tasks := dc_tasks c @ [RetryTask g]\<rparr>" using Some by (simp add: empty_iff)
    moreover have "entry_settled (c\<lparr>dc_tasks := dc_tasks c @ [RetryTask g]\<rparr>) g e" using retry by (simp add: entry_settled_def)
    ultimately show ?thesis using inv_settle[OF inv_tasks[OF inv, of "[RetryTask g]"], of g] Some by simp
  next
    case drain
    let ?f = "\<lambda>e. e\<lparr>de_timer := None, de_state := DDrained, de_session_count := 0, de_final := DDrained\<rparr>"
    let ?c = "c\<lparr>dc_tasks := dc_tasks c @ [NaturalCleanup g]\<rparr>"
    have eq: "on_session_empty g c = upd_entry g ?f ?c" using Some drain by (simp add: empty_iff upd_entry_def)
    have g: "g \<noteq> []" "g \<noteq> dc_active c"
      using ok active_applied[OF inv_pendingD(1)[OF inv] Some] drain by (auto simp: entry_ok_def)
    show ?thesis unfolding eq
      by (rule inv_upd[OF inv_tasks[OF inv, of "[NaturalCleanup g]"], of g e])
        (use Some ok drain g in \<open>auto simp: entry_ok_def entry_settled_def\<close>)
  next
    case other
    then have "on_session_empty g c = c" using Some by (simp add: empty_iff)
    moreover have "g \<in> X \<or> entry_settled c g e" using inv_pendingD(5)[OF inv Some] other by (auto simp: awaits_def)
    ultimately show ?thesis using inv_settle[OF inv, of g] Some by simp
  qed
qed

lemma fold_on_session_empty_simps [simp]:
  "dc_registry (fold on_session_empty gs c) = dc_registry c"
  "dc_active (fold on_session_empty gs c) = dc_active c"
  "dc_order (fold on_session_empty gs c) = dc_order c"
  "dc_closed (fold on_session_empty gs c) = dc_closed c"
  "dc_destroys (fold on_session_empty gs c) = dc_destroys c"
  "dom (dc_entries (fold on_session_empty gs c)) = dom (dc_entries c)"
  by (induction gs arbitrary: c) (auto simp: dom_def[symmetric] simp del: fun_upd_apply)

lemma with_registry_simps [simp]:
  "dc_registry (with_registry fr c) = snd fr"
  "dc_active (with_registry fr c) = dc_active c"
  "dc_order (with_registry fr c) = dc_order c"
  "dc_closed (with_registry fr c) = dc_closed c"
  "dc_destroys (with_registry fr c) = dc_destroys c"
  "dom (dc_entries (with_registry fr c)) = dom (dc_entries c)"
  by (simp_all add: with_registry_def)

lemma with_registry_same:
  assumes "dc_entries c g = Some e" and "de_state e \<noteq> DDraining"
  shows "dc_entries (with_registry fr c) g = Some e"
proof -
  have "dc_entries c' g = Some e \<Longrightarrow> dc_entries (fold on_session_empty gs c') g = Some e" for gs c'
    using assms(2) by (induction gs arbitrary: c') (simp_all add: on_session_empty_other)
  with assms(1) show ?thesis by (simp add: with_registry_def)
qed

lemma inv_fold_on_session_empty:
  "inv_pending X E c \<Longrightarrow> inv_pending X (E - set gs) (fold on_session_empty gs c)"
proof (induction gs arbitrary: E c)
  case (Cons g gs)
  from Cons.IH[OF inv_on_session_empty[OF Cons.prems, of g]] show ?case
    by (simp add: Diff_insert2[symmetric] insert_Diff_if Diff_insert[symmetric])
qed simp

lemma inv_with_registry:
  assumes inv: "inv_pending X E c" and s: "shrinks (dc_registry c) (snd fr) (fo_empty (fst fr))"
  shows "inv_pending X E (with_registry fr c)"
proof -
  let ?c = "c\<lparr>dc_registry := snd fr\<rparr>" and ?es = "set (fo_empty (fst fr))"
  note sD = shrinksD[OF s]
  have gen: "ss_generation (session_at (snd fr) j) = ss_generation (session_at (dc_registry c) j)" for j
    using sD(3)[of j] by (simp add: session_key_def)
  have keep: "entry_ok c g e \<Longrightarrow> entry_ok ?c g e" "awaits c g e \<Longrightarrow> awaits ?c g e"
    "entry_settled c g e \<Longrightarrow> entry_settled ?c g e \<or> g \<in> ?es \<and> awaits ?c g e" for g e
    using sD(4,5)[of g] by (auto simp: entry_ok_def awaits_def entry_settled_def split: drain_status.splits)
  have "entries_ok X (E \<union> ?es) ?c"
    unfolding entries_ok_def
  proof (intro allI impI)
    fix g e assume "dc_entries ?c g = Some e"
    then have "dc_entries c g = Some e" by simp
    from inv_pendingD(4,5)[OF inv this] keep[of g e]
    show "entry_ok ?c g e \<and> (g \<in> X \<or> entry_settled ?c g e \<or> g \<in> E \<union> ?es \<and> awaits ?c g e)" by blast
  qed
  moreover have "shape_ok ?c"
    using inv_pendingD(1)[OF inv] sD(1,2) gen unfolding shape_ok_def by auto
  moreover have "retention_ok ?c"
    using inv_pendingD(3)[OF inv] by (simp add: retention_ok_def)
  ultimately have "inv_pending X (E \<union> ?es) ?c"
    by (simp add: inv_pending_def)
  from inv_pending_mono[OF inv_fold_on_session_empty[OF this, of "fo_empty (fst fr)"], of X E] show ?thesis
    by (auto simp: with_registry_def)
qed

subsection \<open>Cleanup\<close>

lemma set_prune_order: "set (prune_order c k gs) \<subseteq> set gs"
  by (induction c k gs rule: prune_order.induct) auto

lemma distinct_prune_order: "distinct gs \<Longrightarrow> distinct (prune_order c k gs)"
  by (induction gs arbitrary: k) (auto dest: subsetD[OF set_prune_order])

lemma prune_order_keeps:
  "g \<in> set gs \<Longrightarrow> dc_entries c g \<noteq> None \<Longrightarrow> \<not> is_released c g \<Longrightarrow> g \<in> set (prune_order c k gs)"
  by (induction gs arbitrary: k) auto

lemma released_prune_order:
  assumes "\<And>g. is_released c g \<Longrightarrow> g \<noteq> dc_active c"
  shows "length (filter (is_released c) (prune_order c k gs)) = length (filter (is_released c) gs) - k"
proof (induction gs arbitrary: k)
  case (Cons g gs)
  show ?case
  proof (cases "is_released c g")
    case True
    then have "dc_entries c g \<noteq> None" by (auto simp: is_released_def split: option.splits)
    with True assms[OF True] Cons[of k] Cons[of "k - 1"] show ?thesis by auto
  qed (simp add: Cons)
qed simp

lemma released_not_active:
  assumes "shape_ok c" and "entries_ok X E c" and "is_released c g"
  shows "g \<noteq> dc_active c"
proof -
  obtain e where e: "dc_entries c g = Some e" "de_released e"
    using assms(3) by (auto simp: is_released_def split: option.splits)
  then have "g \<noteq> []" "de_state e \<noteq> DApplied" using entries_okD(1)[OF assms(2) e(1)] by (auto simp: entry_ok_def)
  with active_applied[OF assms(1) e(1)] show ?thesis by blast
qed

lemma prune_released_simps [simp]:
  "dc_registry (prune_released c) = dc_registry c"
  "dc_active (prune_released c) = dc_active c"
  "dc_closed (prune_released c) = dc_closed c"
  "dc_tasks (prune_released c) = dc_tasks c"
  "dc_destroys (prune_released c) = dc_destroys c"
  by (simp_all add: prune_released_def Let_def)

lemma prune_released_entries:
  "dc_entries (prune_released c) g = Some e \<Longrightarrow> dc_entries c g = Some e"
  by (auto simp: prune_released_def Let_def split: if_splits)

lemma prune_released_order: "set (dc_order (prune_released c)) \<subseteq> set (dc_order c)"
  using set_prune_order by (auto simp: prune_released_def Let_def split: if_splits)

lemma prune_released_keeps:
  assumes "set (dc_order c) = dom (dc_entries c)" and "dc_entries c g = Some e" and "\<not> de_released e"
  shows "dc_entries (prune_released c) g = Some e"
proof -
  have "g \<in> set (prune_order c k (dc_order c))" for k
    using assms by (intro prune_order_keeps) (auto simp: is_released_def)
  with assms(2) show ?thesis by (simp add: prune_released_def Let_def)
qed

lemma prune_released_inv:
  assumes shape: "shape_ok c" and entries: "entries_ok X E c"
  shows "inv_pending X E (prune_released c)"
proof -
  let ?c = "prune_released c"
  note sh = shape[unfolded shape_ok_def]
  note na = released_not_active[OF shape entries]
  have rel: "filter (\<lambda>g. is_released c g \<and> g \<noteq> dc_active c) (dc_order c) = filter (is_released c) (dc_order c)"
    by (rule filter_cong) (auto dest: na)
  have order: "distinct (dc_order ?c)" using sh distinct_prune_order by (simp add: prune_released_def Let_def)
  have kept: "set (prune_order c k (dc_order c)) \<subseteq> dom (dc_entries c)" for k
    using set_prune_order[of c k "dc_order c"] sh by blast
  have dom: "set (dc_order ?c) = dom (dc_entries ?c)"
    using sh kept by (auto simp: prune_released_def Let_def dom_def)
  have live: "ss_generation (session_at (dc_registry c) i) \<in> dom (dc_entries ?c)" if i: "i \<in> set (rg_live (dc_registry c))" for i
  proof -
    let ?g = "ss_generation (session_at (dc_registry c) i)"
    obtain e where e: "dc_entries c ?g = Some e" using sh i by blast
    have "live_in (dc_registry c) ?g \<noteq> []" using i by (auto simp: live_in_def filter_empty_conv)
    then have "\<not> de_released e" using entries_okD(1)[OF entries e] by (auto simp: entry_ok_def)
    from prune_released_keeps[OF _ e this] sh show ?thesis by blast
  qed
  have active: "\<exists>e. dc_entries ?c (dc_active c) = Some e \<and> de_state e = DApplied" if a: "dc_active c \<noteq> []"
  proof -
    obtain e where e: "dc_entries c (dc_active c) = Some e" "de_state e = DApplied" using sh a by blast
    then have "\<not> de_released e" using na[of "dc_active c"] by (auto simp: is_released_def)
    from prune_released_keeps[OF _ e(1) this] sh e(2) show ?thesis by blast
  qed
  have "shape_ok ?c" using order dom live active sh by (simp add: shape_ok_def)
  moreover have "entries_ok X E ?c"
    unfolding entries_ok_def
  proof (intro allI impI)
    fix g e assume "dc_entries ?c g = Some e"
    from entries_okD[OF entries prune_released_entries[OF this]]
    show "entry_ok ?c g e \<and> (g \<in> X \<or> entry_settled ?c g e \<or> g \<in> E \<and> awaits ?c g e)"
      using entry_ok_cong[of ?c c g e] entry_settled_cong[of ?c c g e] awaits_cong[of ?c c g e] by simp
  qed
  moreover have "retention_ok ?c"
  proof (cases "length (filter (is_released c) (dc_order c)) \<le> max_retained_terminal_generations")
    case True
    then have "?c = c" by (simp add: prune_released_def rel Let_def)
    with True show ?thesis by (simp add: retention_ok_def)
  next
    case False
    let ?k = "length (filter (is_released c) (dc_order c)) - max_retained_terminal_generations"
    have o: "dc_order ?c = prune_order c ?k (dc_order c)" using False by (simp add: prune_released_def rel Let_def)
    have "filter (is_released ?c) (dc_order ?c) = filter (is_released c) (dc_order ?c)"
      by (rule filter_cong) (use False dom in \<open>auto simp: is_released_def prune_released_def rel Let_def\<close>)
    then have "length (filter (is_released ?c) (dc_order ?c)) = length (filter (is_released c) (dc_order c)) - ?k"
      unfolding o using released_prune_order[of c ?k] na by simp
    with False show ?thesis by (simp add: retention_ok_def)
  qed
  ultimately show ?thesis by (simp add: inv_pending_def)
qed

lemma upd_upd: "upd_entry g f (upd_entry g h c) = upd_entry g (f \<circ> h) c"
  by (simp add: upd_entry_def fun_eq_iff option.map_comp)

lemma inv_destroys: "inv_pending X E c \<Longrightarrow> inv_pending X E (c\<lparr>dc_destroys := n\<rparr>)"
proof -
  have "entry_ok (c\<lparr>dc_destroys := n\<rparr>) = entry_ok c" "entry_settled (c\<lparr>dc_destroys := n\<rparr>) = entry_settled c"
    "awaits (c\<lparr>dc_destroys := n\<rparr>) = awaits c"
    by (intro ext entry_ok_cong entry_settled_cong awaits_cong; simp)+
  moreover assume "inv_pending X E c"
  ultimately show ?thesis by (simp add: inv_pending_def entries_ok_def shape_ok_def retention_ok_def)
qed

lemma inv_release:
  assumes "inv_pending X E c" and "dc_entries c g = Some e" and "entry_settled c g e"
  shows "inv_pending (X - {g}) E c"
  using assms unfolding inv_pending_def entries_ok_def by auto

lemma inv_absent:
  assumes "inv_pending X E c" and "dc_entries c g = None"
  shows "inv_pending (X - {g}) E c"
proof -
  have "h \<noteq> g" if "dc_entries c h = Some e" for h e using assms(2) that by auto
  with assms(1) show ?thesis unfolding inv_pending_def entries_ok_def by blast
qed

lemma schedule_simps [simp]:
  "dc_registry (schedule_cleanup_retry env g c) = dc_registry c"
  "dc_active (schedule_cleanup_retry env g c) = dc_active c"
  "dc_order (schedule_cleanup_retry env g c) = dc_order c"
  "dc_closed (schedule_cleanup_retry env g c) = dc_closed c"
  "dc_tasks (schedule_cleanup_retry env g c) = dc_tasks c"
  by (simp_all add: schedule_cleanup_retry_def split: option.split)

lemma inv_schedule:
  assumes inv: "inv_pending X E c" and e: "dc_entries c g = Some e" "de_state e = DCleanupFailed"
  shows "inv_pending (X - {g}) E (schedule_cleanup_retry env g c)"
proof -
  note ok = inv_pendingD(4)[OF inv e(1)]
  have rel: "\<not> de_released e" using ok e(2) by (auto simp: entry_ok_def)
  show ?thesis
  proof (cases "de_retry e \<noteq> None \<or> dc_closed c")
    case True
    then have "schedule_cleanup_retry env g c = c" "entry_settled c g e"
      using e by (auto simp: schedule_cleanup_retry_def entry_settled_def)
    with inv_release[OF inv e(1)] show ?thesis by simp
  next
    case False
    let ?f = "\<lambda>e. e\<lparr>de_attempts := Suc (de_attempts e),
      de_retry := Some (en_now env + retry_delay_steps (de_attempts e) cleanup_retry_base)\<rparr>"
    have eq: "schedule_cleanup_retry env g c = upd_entry g ?f c"
      using False e rel by (simp add: schedule_cleanup_retry_def)
    have g: "g \<noteq> dc_active c" using active_applied[OF inv_pendingD(1)[OF inv] e(1)] ok e(2) by (simp add: entry_ok_def)
    show ?thesis unfolding eq
      by (rule inv_upd[OF inv e(1)]) (use ok e rel g in \<open>auto simp: entry_ok_def entry_settled_def\<close>)
  qed
qed

text \<open>What \<open>completeCleanup\<close> does with a generation that is not released: one update, then the retry or the pruning.\<close>

lemma complete_cleanup_cases:
  assumes "dc_entries c g = Some e" and "\<not> de_destroyed e"
  obtains (ok) running n where "destroy_resource (en_destroy env) (dc_destroys c) (de_destroying e) = ((True, running), n)"
      "complete_cleanup env g c = ([], prune_released (upd_entry g (\<lambda>e. release_entry (en_now env)
         (e\<lparr>de_destroyed := True, de_destroying := running, de_destroy_err := []\<rparr>)) (c\<lparr>dc_destroys := n\<rparr>)))"
  | (failed) running n where "destroy_resource (en_destroy env) (dc_destroys c) (de_destroying e) = ((False, running), n)"
      "complete_cleanup env g c = ([DrainDestroy], schedule_cleanup_retry env g (upd_entry g (\<lambda>e. e\<lparr>de_destroying := running,
         de_destroy_err := [DrainDestroy], de_state := DCleanupFailed, de_cleanup_error := Some DrainDestroy,
         de_completed_at := None\<rparr>) (c\<lparr>dc_destroys := n\<rparr>)))"
proof -
  obtain ok running n where d: "destroy_resource (en_destroy env) (dc_destroys c) (de_destroying e) = ((ok, running), n)"
    by (metis prod.exhaust)
  show thesis
  proof (cases ok)
    case True
    show ?thesis
      by (rule that(1)[of running n]) (use True d assms in \<open>simp_all add: complete_cleanup_def upd_upd comp_def\<close>)
  next
    case False
    show ?thesis
      by (rule that(2)[of running n]) (use False d assms in \<open>simp_all add: complete_cleanup_def upd_upd comp_def\<close>)
  qed
qed

lemma inv_complete_cleanup:
  assumes inv: "inv_pending X E c" and e: "dc_entries c g = Some e" "\<not> de_released e" "de_state e \<notin> {DApplied, DDraining}"
    and empty: "live_in (dc_registry c) g = []"
  shows "inv_pending (X - {g}) E (snd (complete_cleanup env g c))"
proof -
  note ok = inv_pendingD(4)[OF inv e(1)]
  have nd: "\<not> de_destroyed e" using ok e(2) by (simp add: entry_ok_def)
  have g: "g \<noteq> dc_active c" using active_applied[OF inv_pendingD(1)[OF inv] e(1)] ok e(3) by (simp add: entry_ok_def)
  have fin: "de_final e \<in> {DDrained, DForced}" using ok e(3) by (simp add: entry_ok_def)
  from e(1) nd show ?thesis
  proof (cases rule: complete_cleanup_cases[where env = env])
    case (ok running n)
    let ?c = "c\<lparr>dc_destroys := n\<rparr>"
    let ?f = "\<lambda>e. release_entry (en_now env) (e\<lparr>de_destroyed := True, de_destroying := running, de_destroy_err := []\<rparr>)"
    note invn = inv_destroys[OF inv, of n]
    have "entry_ok ?c g (?f e)" using \<open>entry_ok c g e\<close> fin empty by (auto simp: entry_ok_def release_entry_def)
    moreover have "entry_settled ?c g (?f e)" using fin by (auto simp: entry_settled_def release_entry_def)
    ultimately have "entries_ok (X - {g}) E (upd_entry g ?f ?c)"
      by (intro entries_upd[OF inv_pendingD(2)[OF invn], of g e]) (use e in auto)
    moreover have "shape_ok (upd_entry g ?f ?c)"
      by (rule shape_upd[OF inv_pendingD(1)[OF invn], of g e]) (use e g in auto)
    ultimately have "inv_pending (X - {g}) E (prune_released (upd_entry g ?f ?c))" by (rule prune_released_inv[rotated])
    with ok(2) show ?thesis by simp
  next
    case (failed running n)
    let ?c = "c\<lparr>dc_destroys := n\<rparr>"
    let ?f = "\<lambda>e. e\<lparr>de_destroying := running, de_destroy_err := [DrainDestroy], de_state := DCleanupFailed,
      de_cleanup_error := Some DrainDestroy, de_completed_at := None\<rparr>"
    have "entry_ok ?c g (?f e)" using ok e(2) fin empty by (auto simp: entry_ok_def)
    then have "inv_pending (insert g X) E (upd_entry g ?f ?c)"
      by (intro inv_upd[OF inv_destroys[OF inv, of n], of g e]) (use e g in auto)
    from inv_schedule[OF this, of g "?f e" env] e(1) have
      "inv_pending (insert g X - {g}) E (schedule_cleanup_retry env g (upd_entry g ?f ?c))" by simp
    with failed(2) show ?thesis by (simp add: insert_Diff_if)
  qed
qed

lemma complete_cleanup_simps [simp]:
  "dc_registry (snd (complete_cleanup env g c)) = dc_registry c"
  "dc_active (snd (complete_cleanup env g c)) = dc_active c"
  "dc_closed (snd (complete_cleanup env g c)) = dc_closed c"
  "dc_tasks (snd (complete_cleanup env g c)) = dc_tasks c"
  by (simp_all add: complete_cleanup_def split: option.split prod.split)

lemma complete_cleanup_order: "set (dc_order (snd (complete_cleanup env g c))) \<subseteq> set (dc_order c)"
  by (auto simp: complete_cleanup_def upd_upd split: option.split prod.split dest!: subsetD[OF prune_released_order])

subsection \<open>Forcing\<close>

text \<open>The middle of \<open>forceGeneration\<close>, once it has decided to force the sessions.\<close>

definition force_sessions :: "drain_env \<Rightarrow> string \<Rightarrow> string \<Rightarrow> controller \<Rightarrow> controller" where
  "force_sessions env g reason c =
     (let c1 = upd_entry g (\<lambda>e. e\<lparr>de_timer := None, de_state := DForced, de_force_reason := reason, de_final := DForced\<rparr>) c;
          fr = force_generation (en_order env) (en_close env) g (dc_registry c1); c2 = with_registry fr c1
      in upd_entry g (\<lambda>e. e\<lparr>de_forced_count := fo_forced (fst fr), de_session_count := count_in c2 g\<rparr>) c2)"

lemma force_drain_cases:
  assumes "dc_entries c g = Some e"
  obtains (skips) errs where "force_drain_generation env g reason c = (errs, c)"
      "de_released e \<or> reason \<noteq> reason_shutdown \<and> de_state e \<noteq> DDraining \<and> de_state e \<noteq> DCleanupFailed \<and>
       \<not> (de_state e = DDrained \<and> live_in (dc_registry c) g = [])"
  | (cleans) "\<not> de_released e" "de_state e = DCleanupFailed \<or> de_state e = DDrained" "live_in (dc_registry c) g = []"
      "force_drain_generation env g reason c = complete_cleanup env g c"
  | (remains) errs where "\<not> de_released e" "reason = reason_shutdown \<or> de_state e \<in> {DDraining, DCleanupFailed}"
      "count_in (force_sessions env g reason c) g \<noteq> 0"
      "force_drain_generation env g reason c = (errs, upd_entry g (\<lambda>e. e\<lparr>de_state := DCleanupFailed,
         de_cleanup_error := Some (DrainOwnsSessions (count_in (force_sessions env g reason c) g))\<rparr>) (force_sessions env g reason c))"
  | (forced) errs where "\<not> de_released e" "reason = reason_shutdown \<or> de_state e \<in> {DDraining, DCleanupFailed}"
      "count_in (force_sessions env g reason c) g = 0"
      "force_drain_generation env g reason c =
         (errs @ fst (complete_cleanup env g (force_sessions env g reason c)),
          snd (complete_cleanup env g (force_sessions env g reason c)))"
proof -
  let ?fs = "force_sessions env g reason c"
  have eq: "force_drain_generation env g reason c =
     (if de_released e then ([], c)
      else if (de_state e = DCleanupFailed \<or> de_state e = DDrained) \<and> count_in c g = 0 then complete_cleanup env g c
      else if reason \<noteq> reason_shutdown \<and> de_state e \<noteq> DDraining \<and> de_state e \<noteq> DCleanupFailed
      then (de_destroy_err e, c)
      else let errs = close_errors (fst (force_generation (en_order env) (en_close env) g (dc_registry c))) in
        if count_in ?fs g \<noteq> 0 then (errs @ [DrainOwnsSessions (count_in ?fs g)], upd_entry g (\<lambda>e. e\<lparr>de_state := DCleanupFailed,
          de_cleanup_error := Some (DrainOwnsSessions (count_in ?fs g))\<rparr>) ?fs)
        else (errs @ fst (complete_cleanup env g ?fs), snd (complete_cleanup env g ?fs)))"
    using assms by (simp add: force_drain_generation_def force_sessions_def Let_def count_in_def split: prod.split)
  show thesis
  proof (cases "de_released e")
    case True
    then show ?thesis using that(1) eq by simp
  next
    case rel: False
    show ?thesis
    proof (cases "(de_state e = DCleanupFailed \<or> de_state e = DDrained) \<and> count_in c g = 0")
      case True
      then show ?thesis using that(2) eq rel by (simp add: empty_iff)
    next
      case busy: False
      show ?thesis
      proof (cases "reason \<noteq> reason_shutdown \<and> de_state e \<noteq> DDraining \<and> de_state e \<noteq> DCleanupFailed")
        case True
        show ?thesis by (intro that(1)) (use True eq rel busy in \<open>auto simp: empty_iff\<close>)
      next
        case False
        show ?thesis
        proof (cases "count_in ?fs g = 0")
          case True
          then show ?thesis by (intro that(4)) (use eq rel busy False in \<open>simp_all add: Let_def\<close>)
        next
          case more: False
          show ?thesis by (intro that(3)) (use more eq rel busy False in \<open>simp_all add: Let_def\<close>)
        qed
      qed
    qed
  qed
qed

lemma force_sessions_simps [simp]:
  "dc_active (force_sessions env g reason c) = dc_active c"
  "dc_order (force_sessions env g reason c) = dc_order c"
  "dc_closed (force_sessions env g reason c) = dc_closed c"
  "dom (dc_entries (force_sessions env g reason c)) = dom (dc_entries c)"
  "dc_registry (force_sessions env g reason c) = snd (force_generation (en_order env) (en_close env) g (dc_registry c))"
  by (simp_all add: force_sessions_def Let_def)

lemma inv_force_sessions:
  assumes inv: "inv_pending X E c" and e: "dc_entries c g = Some e" "\<not> de_released e" "g \<noteq> dc_active c"
  shows "inv_pending (insert g X) E (force_sessions env g reason c)"
    and "\<exists>e'. dc_entries (force_sessions env g reason c) g = Some e' \<and> de_state e' = DForced \<and> \<not> de_released e' \<and>
      de_final e' = DForced \<and> de_resource e' \<and> \<not> de_destroyed e'"
proof -
  let ?f = "\<lambda>e. e\<lparr>de_timer := None, de_state := DForced, de_force_reason := reason, de_final := DForced\<rparr>"
  let ?c1 = "upd_entry g ?f c"
  let ?fr = "force_generation (en_order env) (en_close env) g (dc_registry ?c1)"
  let ?g = "\<lambda>e. e\<lparr>de_forced_count := fo_forced (fst ?fr), de_session_count := count_in (with_registry ?fr ?c1) g\<rparr>"
  have eq: "force_sessions env g reason c = upd_entry g ?g (with_registry ?fr ?c1)" by (simp add: force_sessions_def Let_def)
  note ok = inv_pendingD(4)[OF inv e(1)]
  have ok1: "entry_ok c g (?f e)" using ok e(2) by (auto simp: entry_ok_def)
  have inv1: "inv_pending (insert g X) E ?c1"
    by (rule inv_upd[where X = X and E = E and e = e]) (use inv e ok1 in auto)
  have inv2: "inv_pending (insert g X) E (with_registry ?fr ?c1)"
    by (rule inv_with_registry[OF inv1]) (simp add: shrinks_forces)
  have e2: "dc_entries (with_registry ?fr ?c1) g = Some (?f e)"
    by (rule with_registry_same) (use e in simp_all)
  have "entry_ok (with_registry ?fr ?c1) g (?g (?f e))"
    using inv_pendingD(4)[OF inv2 e2] by (simp add: entry_ok_def)
  then show "inv_pending (insert g X) E (force_sessions env g reason c)"
    unfolding eq by (intro inv_upd[OF inv2 e2]) (use e in auto)
  show "\<exists>e'. dc_entries (force_sessions env g reason c) g = Some e' \<and> de_state e' = DForced \<and> \<not> de_released e' \<and>
      de_final e' = DForced \<and> de_resource e' \<and> \<not> de_destroyed e'"
    unfolding eq using e2 ok e(2) by (simp add: entry_ok_def)
qed

lemma inv_force_drain:
  assumes inv: "inv_pending X E c" and act: "reason = reason_shutdown \<Longrightarrow> g \<noteq> dc_active c"
  shows "inv_pending (if reason = reason_shutdown then X - {g} else X) E (snd (force_drain_generation env g reason c))"
proof (cases "dc_entries c g")
  case None
  then have "force_drain_generation env g reason c = ([], c)" by (simp add: force_drain_generation_def)
  moreover have "inv_pending (X - {g}) E c" using inv None by (rule inv_absent)
  ultimately show ?thesis using inv by simp
next
  case (Some e)
  note ok = inv_pendingD(4)[OF inv Some]
  have g: "g \<noteq> dc_active c" if "de_state e \<noteq> DApplied \<or> reason = reason_shutdown"
    using that act active_applied[OF inv_pendingD(1)[OF inv] Some] ok by (auto simp: entry_ok_def)
  let ?fs = "force_sessions env g reason c"
  have drop: "inv_pending (if reason = reason_shutdown then X - {g} else X) E c'" if "inv_pending (insert g X - {g}) E c'" for c'
    using that inv_pending_mono by (auto simp: insert_Diff_if)
  from Some show ?thesis
  proof (cases rule: force_drain_cases[where env = env and reason = reason])
    case (skips errs)
    have "entry_settled c g e" if "de_released e" using ok that by (auto simp: entry_ok_def entry_settled_def)
    with skips inv inv_release[OF inv Some] show ?thesis by auto
  next
    case cleans
    have "inv_pending (X - {g}) E (snd (complete_cleanup env g c))"
      by (rule inv_complete_cleanup[OF inv Some]) (use cleans in auto)
    then show ?thesis using cleans(4) drop by (simp add: insert_Diff_if)
  next
    case (remains errs)
    have ga: "g \<noteq> dc_active c" by (rule g) (use remains(2) in auto)
    note inv1 = inv_force_sessions(1)[OF inv Some remains(1) ga, of env reason]
    obtain e' where e': "dc_entries ?fs g = Some e'" "de_state e' = DForced" "\<not> de_released e'"
      using inv_force_sessions(2)[OF inv Some remains(1) ga] by blast
    let ?f = "\<lambda>e. e\<lparr>de_state := DCleanupFailed, de_cleanup_error := Some (DrainOwnsSessions (count_in ?fs g))\<rparr>"
    have "inv_pending (insert g X - {g}) E (upd_entry g ?f ?fs)"
      by (rule inv_upd[OF inv1 e'(1)])
        (use inv_pendingD(4)[OF inv1 e'(1)] e' ga remains(3) in \<open>auto simp: entry_ok_def entry_settled_def empty_iff\<close>)
    then show ?thesis unfolding remains(4) snd_conv by (rule drop)
  next
    case (forced errs)
    have ga: "g \<noteq> dc_active c" by (rule g) (use forced(2) in auto)
    note inv1 = inv_force_sessions(1)[OF inv Some forced(1) ga, of env reason]
    obtain e' where e': "dc_entries ?fs g = Some e'" "de_state e' = DForced" "\<not> de_released e'"
      using inv_force_sessions(2)[OF inv Some forced(1) ga] by blast
    have "inv_pending (insert g X - {g}) E (snd (complete_cleanup env g ?fs))"
      by (rule inv_complete_cleanup[OF inv1 e'(1,3)]) (use e'(2) forced(3) in \<open>auto simp: empty_iff\<close>)
    then show ?thesis unfolding forced(4) snd_conv by (rule drop)
  qed
qed

end
