(* ===== verification/GenDrainStep.thy ===== *)
theory GenDrainStep
  imports GenDrainInv
begin

text \<open>
  The step relation of the drain controller: the exported operations, the ends of sessions, concurrent
  force claims and their completions, goroutines and timers, in any order. Every step keeps the
  invariant of \<open>GenDrainInv\<close>; the properties of the controller follow from it.
\<close>

subsection \<open>The loop of \<open>enforceLimit\<close>\<close>

lemma force_drain_order: "set (dc_order (snd (force_drain_generation env g reason c))) \<subseteq> set (dc_order c)"
proof (cases "dc_entries c g")
  case (Some e)
  then show ?thesis
  proof (cases rule: force_drain_cases[where env = env and reason = reason])
    case (forced errs)
    then show ?thesis using complete_cleanup_order[of env g "force_sessions env g reason c"] by simp
  qed (use complete_cleanup_order in \<open>simp_all\<close>)
qed (simp add: force_drain_generation_def)

lemma force_drain_active [simp]: "dc_active (snd (force_drain_generation env g reason c)) = dc_active c"
proof (cases "dc_entries c g")
  case (Some e)
  then show ?thesis by (cases rule: force_drain_cases[where env = env and reason = reason]) simp_all
qed (simp add: force_drain_generation_def)

lemma force_drain_closed [simp]: "dc_closed (snd (force_drain_generation env g reason c)) = dc_closed c"
proof (cases "dc_entries c g")
  case (Some e)
  then show ?thesis by (cases rule: force_drain_cases[where env = env and reason = reason]) simp_all
qed (simp add: force_drain_generation_def)

lemma reason_not_shutdown [simp]: "reason_generation_limit \<noteq> reason_shutdown" "reason_timeout \<noteq> reason_shutdown"
  by (simp_all add: reason_generation_limit_def reason_shutdown_def reason_timeout_def)

lemma inv_force_drain_unless_shutdown:
  "inv_pending X E c \<Longrightarrow> reason \<noteq> reason_shutdown \<Longrightarrow> inv_pending X E (snd (force_drain_generation env g reason c))"
  using inv_force_drain[of X E c reason g env] by simp

lemma inv_enforce_limit:
  "inv_pending X E c \<Longrightarrow> enforce_limit k env attempted c = Some (errs, c') \<Longrightarrow> inv_pending X E c' \<and> dc_active c' = dc_active c"
proof (induction k env attempted c arbitrary: errs c' rule: enforce_limit.induct)
  case (2 k env attempted c)
  show ?case
  proof (cases "length (unreleased c) \<le> 2")
    case True
    with 2 show ?thesis by simp
  next
    case live: False
    show ?thesis
    proof (cases "find (\<lambda>g. g \<noteq> dc_active c \<and> g \<notin> set attempted) (unreleased c)")
      case None
      with 2 live show ?thesis by simp
    next
      case (Some g)
      obtain es c1 where f: "force_drain_generation env g reason_generation_limit c = (es, c1)" by fastforce
      obtain es' where rest: "enforce_limit k env (g # attempted) c1 = Some (es', c')"
        using 2(3) live Some f by (auto split: option.splits)
      have "inv_pending X E c1" "dc_active c1 = dc_active c"
        using inv_force_drain_unless_shutdown[OF 2(2), of reason_generation_limit env g]
          force_drain_active[of env g reason_generation_limit c] by (simp_all add: f)
      with 2(1)[OF live Some f[symmetric] _ rest] show ?thesis by simp
    qed
  qed
qed simp

text \<open>Every round takes another generation, so there are fewer rounds than generations.\<close>

lemma enforce_limit_total:
  "card (set (dc_order c) - set attempted) < k \<Longrightarrow> \<exists>r. enforce_limit k env attempted c = Some r"
proof (induction k env attempted c rule: enforce_limit.induct)
  case (2 k env attempted c)
  show ?case
  proof (cases "length (unreleased c) \<le> 2")
    case live: False
    show ?thesis
    proof (cases "find (\<lambda>g. g \<noteq> dc_active c \<and> g \<notin> set attempted) (unreleased c)")
      case (Some g)
      obtain es c1 where f: "force_drain_generation env g reason_generation_limit c = (es, c1)" by fastforce
      have g: "g \<in> set (dc_order c)" "g \<notin> set attempted"
        using Some by (auto simp: find_Some_iff unreleased_def dest: nth_mem)
      have "set (dc_order c1) - set (g # attempted) \<subset> set (dc_order c) - set attempted"
        using force_drain_order[of env g reason_generation_limit c] g by (auto simp: f)
      then have "card (set (dc_order c1) - set (g # attempted)) < card (set (dc_order c) - set attempted)"
        by (intro psubset_card_mono) simp_all
      with 2(2) have "card (set (dc_order c1) - set (g # attempted)) < k" by simp
      from 2(1)[OF live Some f[symmetric] this] live Some f show ?thesis by auto
    qed simp
  qed simp
qed simp

lemma enforce_limit_start: "\<exists>r. enforce_limit (Suc (length (dc_order c))) env [] c = Some r"
  by (rule enforce_limit_total) (simp add: card_length less_Suc_eq_le)

lemma enforce_limit_bound:
  "enforce_limit k env attempted c = Some ([], c') \<Longrightarrow> length (unreleased c') \<le> 2"
  by (induction k env attempted c rule: enforce_limit.induct)
    (auto split: if_splits option.splits prod.splits)

text \<open>
  A generation that a force has taken is released, or its cleanup failed: it still has sessions or its
  resource could not be destroyed. No later force of the loop takes that back.
\<close>

definition spent :: "controller \<Rightarrow> string \<Rightarrow> bool" where
  "spent c h \<longleftrightarrow> (\<forall>e. dc_entries c h = Some e \<longrightarrow> de_released e \<or> de_state e = DCleanupFailed)"

lemma spent_upd: "spent c h \<Longrightarrow> h \<noteq> g \<Longrightarrow> spent (upd_entry g f c) h"
  by (simp add: spent_def upd_entry_def)

lemma spent_on_session_empty: "spent c h \<Longrightarrow> spent (on_session_empty g c) h"
  by (cases "dc_entries c g") (auto simp: spent_def on_session_empty_def upd_entry_def)

lemma spent_with_registry: "spent c h \<Longrightarrow> spent (with_registry fr c) h"
proof -
  have "spent (fold on_session_empty es c') h" if "spent c' h" for es c'
    using that by (induction es arbitrary: c') (simp_all add: spent_on_session_empty)
  moreover assume "spent c h"
  then have "spent (c\<lparr>dc_registry := snd fr\<rparr>) h" by (simp add: spent_def)
  ultimately show ?thesis by (simp add: with_registry_def)
qed

lemma spent_prune: "spent c h \<Longrightarrow> spent (prune_released c) h"
  unfolding spent_def by (blast dest: prune_released_entries)

lemma spent_schedule: "spent c h \<Longrightarrow> spent (schedule_cleanup_retry env g c) h"
  by (cases "dc_entries c g") (auto simp: spent_def schedule_cleanup_retry_def upd_entry_def)

lemma spent_complete_cleanup:
  assumes e: "dc_entries c g = Some e" "\<not> de_destroyed e" and h: "h = g \<or> spent c h"
  shows "spent (snd (complete_cleanup env g c)) h"
  using e
proof (cases rule: complete_cleanup_cases[where env = env])
  case (ok running n)
  have "spent (upd_entry g (\<lambda>e. release_entry (en_now env)
      (e\<lparr>de_destroyed := True, de_destroying := running, de_destroy_err := []\<rparr>)) (c\<lparr>dc_destroys := n\<rparr>)) h"
    using h e(1) by (auto simp: spent_def upd_entry_def release_entry_def)
  then show ?thesis using ok by (simp add: spent_prune)
next
  case (failed running n)
  have "spent (upd_entry g (\<lambda>e. e\<lparr>de_destroying := running, de_destroy_err := [DrainDestroy],
      de_state := DCleanupFailed, de_cleanup_error := Some DrainDestroy, de_completed_at := None\<rparr>) (c\<lparr>dc_destroys := n\<rparr>)) h"
    using h e(1) by (auto simp: spent_def upd_entry_def)
  then show ?thesis using failed by (simp add: spent_schedule)
qed

lemma spent_force_sessions: "spent c h \<Longrightarrow> h \<noteq> g \<Longrightarrow> spent (force_sessions env g reason c) h"
  by (simp add: force_sessions_def Let_def spent_upd spent_with_registry)

lemma spent_force_drain:
  assumes inv: "drain_inv c" and g: "g \<noteq> dc_active c" and h: "h = g \<or> spent c h"
  shows "spent (snd (force_drain_generation env g reason_generation_limit c)) h"
proof (cases "dc_entries c g")
  case None
  with h show ?thesis by (auto simp: force_drain_generation_def spent_def)
next
  case (Some e)
  note i = inv[unfolded drain_inv_def]
  note ok = inv_pendingD(4)[OF i Some]
  have settled: "entry_settled c g e" using inv_pendingD(5)[OF i Some] by blast
  show ?thesis
    using Some
  proof (cases rule: force_drain_cases[where env = env and reason = reason_generation_limit])
    case (skips errs)
    have "de_released e"
      using skips(2) ok settled g reason_not_shutdown(1)
      by (cases "de_state e") (auto simp: entry_ok_def entry_settled_def)
    with Some h skips(1) show ?thesis by (auto simp: spent_def)
  next
    case cleans
    then show ?thesis using spent_complete_cleanup[OF Some _ h] ok by (simp add: entry_ok_def)
  next
    case (remains errs)
    show ?thesis
    proof (cases "h = g")
      case True
      then show ?thesis using remains(4) by (auto simp: spent_def upd_entry_def)
    next
      case False
      with h remains(4) show ?thesis by (simp add: spent_upd spent_force_sessions)
    qed
  next
    case (forced errs)
    obtain e' where "dc_entries (force_sessions env g reason_generation_limit c) g = Some e'" "\<not> de_destroyed e'"
      using inv_force_sessions(2)[OF i Some forced(1) g] by blast
    moreover have "h = g \<or> spent (force_sessions env g reason_generation_limit c) h"
      using h spent_force_sessions by blast
    ultimately have "spent (snd (complete_cleanup env g (force_sessions env g reason_generation_limit c))) h"
      by (rule spent_complete_cleanup)
    with forced(4) show ?thesis by simp
  qed
qed

lemma enforce_limit_outcome:
  "drain_inv c \<Longrightarrow> \<forall>h \<in> set attempted. spent c h \<Longrightarrow> enforce_limit k env attempted c = Some (errs, c') \<Longrightarrow>
   length (unreleased c') \<le> 2 \<or>
   DrainLimit \<in> set errs \<and> (\<forall>h \<in> set (unreleased c'). h \<noteq> dc_active c' \<longrightarrow> spent c' h)"
proof (induction k env attempted c arbitrary: errs c' rule: enforce_limit.induct)
  case (2 k env attempted c)
  show ?case
  proof (cases "length (unreleased c) \<le> 2")
    case True
    with 2(4) show ?thesis by simp
  next
    case live: False
    show ?thesis
    proof (cases "find (\<lambda>g. g \<noteq> dc_active c \<and> g \<notin> set attempted) (unreleased c)")
      case None
      with live 2(4) have "errs = [DrainLimit]" "c' = c" by simp_all
      with None 2(3) show ?thesis by (auto simp: find_None_iff)
    next
      case (Some g)
      obtain es c1 where f: "force_drain_generation env g reason_generation_limit c = (es, c1)" by fastforce
      obtain es' where rest: "enforce_limit k env (g # attempted) c1 = Some (es', c')" "errs = es @ es'"
        using 2(4) live Some f by (auto split: option.splits)
      have g: "g \<noteq> dc_active c" using Some by (auto simp: find_Some_iff)
      have "drain_inv c1"
        using inv_force_drain_unless_shutdown[of "{}" "{}" c reason_generation_limit env g] 2(2) f
        by (simp add: drain_inv_def)
      moreover have "\<forall>h \<in> set (g # attempted). spent c1 h"
        using spent_force_drain[OF 2(2) g, of _ env] 2(3) f by auto
      ultimately show ?thesis using 2(1)[OF live Some f[symmetric] _ _ rest(1)] rest(2) by auto
    qed
  qed
qed simp

declare enforce_limit.simps [simp del]

subsection \<open>Registry steps\<close>

lemma inv_registry_only:
  assumes "inv_pending X E c" and "shrinks (dc_registry c) r []"
  shows "inv_pending X E (c\<lparr>dc_registry := r\<rparr>)"
  using inv_with_registry[of X E c "(no_force, r)"] assms by (simp add: with_registry_def no_force_def)

lemma finish_session_cases:
  obtains r es where "shrinks (dc_registry c) r es" "finish_session i c = with_registry (no_force\<lparr>fo_empty := es\<rparr>, r) c"
proof (cases "finish_naturally i (dc_registry c)")
  case (Pair b r)
  have s: "shrinks (dc_registry c) r []" using shrinks_handles(1)[of "dc_registry c" i] Pair by simp
  obtain r' e where f: "finish_record i r = (r', e)" by fastforce
  show thesis
  proof (cases b)
    case True
    then have "finish_session i c = with_registry (no_force\<lparr>fo_empty := reported e\<rparr>, r') c"
      using Pair f by (simp add: finish_session_def)
    then show ?thesis using that shrinks_trans[OF s shrinks_finish_record[OF f]] by simp
  next
    case False
    then have "finish_session i c = with_registry (no_force\<lparr>fo_empty := []\<rparr>, r) c"
      using Pair by (simp add: finish_session_def with_registry_def no_force_def)
    then show ?thesis using that s by blast
  qed
qed

lemma complete_session_cases:
  obtains r es where "shrinks (dc_registry c) r es" "complete_session i success c = with_registry (no_force\<lparr>fo_empty := es\<rparr>, r) c"
proof -
  obtain removed t r where p: "complete_force i success (dc_registry c) = ((removed, t), r)" by (metis prod.exhaust)
  have s: "shrinks (dc_registry c) r []" using shrinks_handles(3)[of "dc_registry c" i success] p by simp
  obtain r' e where f: "finish_record i r = (r', e)" by fastforce
  show thesis
  proof (cases removed)
    case True
    then have "complete_session i success c = with_registry (no_force\<lparr>fo_empty := reported e\<rparr>, r') c"
      using p f by (simp add: complete_session_def)
    then show ?thesis using that shrinks_trans[OF s shrinks_finish_record[OF f]] by simp
  next
    case False
    then have "complete_session i success c = with_registry (no_force\<lparr>fo_empty := []\<rparr>, r) c"
      using p by (simp add: complete_session_def with_registry_def no_force_def)
    then show ?thesis using that s by blast
  qed
qed

lemma register_session_live:
  assumes "register_session g e k r = (Inr i, r')" and "\<forall>j \<in> set (rg_live r). j < length (rg_heap r)"
  shows "i = length (rg_heap r)" and "length (rg_heap r') = Suc i" and "rg_live r' = rg_live r @ [i]"
    and "ss_generation (session_at r' i) = g" and "j < i \<Longrightarrow> session_at r' j = session_at r j"
    and "live_in r' h = live_in r h @ (if h = g then [i] else [])"
proof -
  have r': "i = length (rg_heap r)" "rg_live r' = rg_live r @ [i]" "length (rg_heap r') = Suc i"
    "rg_heap r' = rg_heap r @ [\<lparr>ss_generation = g, ss_entity = e, ss_id = k, ss_state = HActive,
            ss_finish_pending = False, ss_terminal = False\<rparr>]"
    using assms(1) by (auto simp: register_session_def split: if_splits)
  have new: "ss_generation (session_at r' i) = g" and old: "\<And>j. j < i \<Longrightarrow> session_at r' j = session_at r j"
    using r' by (simp_all add: session_at_def nth_append)
  have "live_in r' h = live_in r h @ (if h = g then [i] else [])"
    using assms(2) old new by (auto simp: live_in_def r'(1,2) intro!: filter_cong)
  with r'(1-3) new old show "i = length (rg_heap r)" "length (rg_heap r') = Suc i" "rg_live r' = rg_live r @ [i]"
    "ss_generation (session_at r' i) = g" "j < i \<Longrightarrow> session_at r' j = session_at r j"
    "live_in r' h = live_in r h @ (if h = g then [i] else [])" by auto
qed

lemma register_drain_cases:
  assumes "register_drain_session g k n c = (res, c')"
  obtains (refused) err where "res = Inl err" "c' = c"
  | (registered) i r e where "res = Inr i" "register_session g k n (dc_registry c) = (Inr i, r)"
      "c' = c\<lparr>dc_registry := r\<rparr>" "\<not> dc_closed c" "dc_entries c g = Some e" "de_state e \<in> {DApplied, DDraining}"
      "de_revoked e k = None"
proof (cases "\<exists>i. res = Inr i")
  case True
  then show thesis using assms that(2)
    by (auto simp: register_drain_session_def split: if_splits option.splits prod.splits sum.splits)
next
  case False
  moreover have "r = dc_registry c" if "register_session g k n (dc_registry c) = (Inl err, r)" for err r
    using that by (auto simp: register_session_def split: if_splits)
  ultimately show thesis using assms that(1)
    by (auto simp: register_drain_session_def split: if_splits option.splits prod.splits sum.splits)
qed

lemma inv_register:
  assumes inv: "drain_inv c" and f: "register_drain_session g k n c = (res, c')"
  shows "drain_inv c'"
  using f
proof (cases rule: register_drain_cases)
  case (registered i r e)
  have bound: "\<forall>j \<in> set (rg_live (dc_registry c)). j < length (rg_heap (dc_registry c))"
    using inv by (auto simp: drain_inv_def inv_pending_def shape_ok_def)
  note reg = register_session_live[OF registered(2) bound]
  have "entry_ok c' h d \<and> entry_settled c' h d" if "dc_entries c' h = Some d" for h d
  proof -
    have d: "dc_entries c h = Some d" using that registered(3) by simp
    then have "entry_ok c h d" "entry_settled c h d"
      using inv inv_pendingD(4,5)[of "{}" "{}" c h d] by (auto simp: drain_inv_def)
    moreover have "de_state d \<in> {DApplied, DDraining}" if "h = g" using that d registered(5,6) by simp
    ultimately show ?thesis
      by (cases "h = g") (auto simp: entry_ok_def entry_settled_def registered(3) reg(6) split: drain_status.splits)
  qed
  moreover have "shape_ok c'"
    using inv registered(3,5) reg(1-5) unfolding drain_inv_def inv_pending_def shape_ok_def
    by (auto simp: less_Suc_eq)
  moreover have "retention_ok c'" using inv registered(3) by (simp add: drain_inv_def inv_pending_def retention_ok_def)
  ultimately show ?thesis by (simp add: drain_inv_def inv_pending_def entries_ok_def)
qed (use inv in simp)

lemma inv_finish: "drain_inv c \<Longrightarrow> drain_inv (finish_session i c)"
  unfolding drain_inv_def by (cases rule: finish_session_cases[of c i]) (simp add: inv_with_registry no_force_def)

lemma inv_complete: "drain_inv c \<Longrightarrow> drain_inv (complete_session i success c)"
  unfolding drain_inv_def
  by (cases rule: complete_session_cases[of c i success]) (simp add: inv_with_registry no_force_def)

lemma drain_inv_claim: "drain_inv c \<Longrightarrow> drain_inv (c\<lparr>dc_registry := snd (claim_force i terminal (dc_registry c))\<rparr>)"
  unfolding drain_inv_def by (rule inv_registry_only[OF _ shrinks_handles(2)])

subsection \<open>Activation and retirement\<close>

lemma inv_new_entry:
  assumes inv: "drain_inv c" and n: "ng_id n \<noteq> []" "dc_entries c (ng_id n) = None"
  shows "inv_pending {dc_active c} {} (c\<lparr>dc_entries := (dc_entries c)(ng_id n \<mapsto> new_entry now n),
    dc_order := dc_order c @ [ng_id n], dc_active := ng_id n\<rparr>)" (is "inv_pending _ _ ?c")
proof -
  note i = inv[unfolded drain_inv_def]
  have "entry_ok ?c g e \<and> (g \<in> {dc_active c} \<or> entry_settled ?c g e)" if e: "dc_entries ?c g = Some e" for g e
  proof (cases "g = ng_id n")
    case True
    with e have "e = new_entry now n" by simp
    with True n(1) show ?thesis by (simp add: entry_ok_def entry_settled_def new_entry_def)
  next
    case False
    with e have "dc_entries c g = Some e" by simp
    from inv_pendingD(4,5)[OF i this] show ?thesis
      by (auto simp: entry_ok_def entry_settled_def split: drain_status.splits)
  qed
  moreover have "shape_ok ?c"
    using inv_pendingD(1)[OF i] n unfolding shape_ok_def by (auto simp: new_entry_def)
  moreover have "retention_ok ?c"
  proof -
    have nin: "ng_id n \<notin> set (dc_order c)" using inv_pendingD(7)[OF i] n(2) by auto
    have "filter (is_released ?c) (dc_order c) = filter (is_released c) (dc_order c)"
      by (rule filter_cong) (use nin in \<open>auto simp: is_released_def\<close>)
    moreover have "\<not> is_released ?c (ng_id n)" by (simp add: is_released_def new_entry_def)
    ultimately show ?thesis using inv_pendingD(3)[OF i] by (simp add: retention_ok_def)
  qed
  ultimately show ?thesis by (simp add: inv_pending_def entries_ok_def)
qed

lemma start_drain_simps [simp]:
  "de_state (start_drain now revoked timeout e) = DDraining"
  "de_id (start_drain now revoked timeout e) = de_id e"
  "de_released (start_drain now revoked timeout e) = de_released e"
  "de_resource (start_drain now revoked timeout e) = de_resource e"
  "de_destroyed (start_drain now revoked timeout e) = de_destroyed e"
  "de_revoked (start_drain now revoked timeout e) = revoked"
  "de_revision (start_drain now revoked timeout e) = de_revision e"
  by (simp_all add: start_drain_def Let_def)

lemma draining_pending: "de_state e = DDraining \<Longrightarrow> entry_settled c g e \<or> awaits c g e"
  by (auto simp: entry_settled_def awaits_def)

text \<open>What \<open>activate\<close> does when it is not refused: the controller that meets the limit.\<close>

lemma activate_cases:
  assumes inv: "drain_inv c" and f: "activate env n changes timeout c = Some (errs, c')"
  obtains (refused) err where "errs = [err]" "c' = c"
  | (first) "ng_id n \<noteq> []" "dc_entries c (ng_id n) = None" "\<not> dc_closed c" "dc_active c = []"
      "enforce_limit (Suc (length (dc_order (added (en_now env) n c)))) env [] (added (en_now env) n c) = Some (errs, c')"
  | (successor) p errs1 c1 errs2 where "ng_id n \<noteq> []" "dc_entries c (ng_id n) = None" "\<not> dc_closed c"
      "dc_entries c (dc_active c) = Some p" "de_state p = DApplied" "de_revision p < ng_revision n"
      "superseded env (dc_active c) changes timeout (added (en_now env) n c) = (errs1, c1)"
      "enforce_limit (Suc (length (dc_order c1))) env [] c1 = Some (errs2, c')" "errs = errs1 @ errs2"
proof (cases "ng_id n = [] \<or> \<not> ng_has_resource n \<or> dc_closed c \<or> dc_entries c (ng_id n) \<noteq> None")
  case True
  then show thesis using f that(1) by (auto simp: activate_def split: if_splits)
next
  case False
  note i = inv[unfolded drain_inv_def]
  show thesis
  proof (cases "dc_entries c (dc_active c)")
    case None
    then have "dc_active c = []" using inv_pendingD(1)[OF i] by (auto simp: shape_ok_def)
    with None False f show ?thesis using that(2) by (simp add: activate_def split: option.splits prod.splits)
  next
    case (Some p)
    have a: "dc_active c \<noteq> []" "de_id p = dc_active c" using inv_pendingD(4)[OF i Some] by (auto simp: entry_ok_def)
    then have st: "de_state p = DApplied" using inv_pendingD(1)[OF i] Some by (auto simp: shape_ok_def)
    show ?thesis
    proof (cases "ng_revision n \<le> de_revision p")
      case True
      with f False Some have "errs = [DrainRevision]" "c' = c" by (auto simp: activate_def)
      then show ?thesis by (rule that(1))
    next
      case rev: False
      obtain errs1 c1 where su: "superseded env (dc_active c) changes timeout (added (en_now env) n c) = (errs1, c1)" by fastforce
      then have "(case enforce_limit (Suc (length (dc_order c1))) env [] c1 of None \<Rightarrow> None
          | Some (errs', c4) \<Rightarrow> Some (errs1 @ errs', c4)) = Some (errs, c')"
        using f False Some rev a(2) by (simp add: activate_def)
      then obtain errs2 where "enforce_limit (Suc (length (dc_order c1))) env [] c1 = Some (errs2, c')" "errs = errs1 @ errs2"
        by (auto split: option.splits)
      then show ?thesis using that(3) False Some st rev su by simp
    qed
  qed
qed

lemma inv_superseded:
  assumes inv: "drain_inv c" and n: "ng_id n \<noteq> []" "dc_entries c (ng_id n) = None"
    and p: "dc_entries c (dc_active c) = Some p" "de_state p = DApplied"
  shows "drain_inv (snd (superseded env (dc_active c) changes timeout (added (en_now env) n c)))"
proof -
  let ?g = "dc_active c" and ?a = "added (en_now env) n c"
  let ?f = "start_drain (en_now env) (revoked_entities changes) timeout"
  have inv0: "inv_pending {?g} {} ?a" unfolding added_def by (rule inv_new_entry[OF inv n])
  have g: "?g \<noteq> ng_id n" using n(2) p(1) by auto
  have e: "dc_entries ?a ?g = Some p" "dc_active ?a = ng_id n" using p(1) g by (simp_all add: added_def)
  have ok: "entry_ok ?a ?g (?f p)" using inv_pendingD(4)[OF inv0 e(1)] p(2) by (auto simp: entry_ok_def)
  have inv1: "inv_pending {} {?g} (upd_entry ?g ?f ?a)"
    by (rule inv_upd[where f = ?f, OF inv0 e(1) ok]) (use draining_pending[of "?f p" ?a ?g] g e(2) in auto)
  let ?c1 = "upd_entry ?g ?f ?a"
  let ?fr = "force_entities (en_order env) (en_close env) ?g (revoked_entities changes) (dc_registry ?c1)"
  have "inv_pending {} {?g} (with_registry ?fr ?c1)" by (rule inv_with_registry[OF inv1 shrinks_forces(2)])
  note both = inv_on_session_empty[OF this, of ?g] inv_on_session_empty[OF inv1, of ?g]
  have "snd (superseded env ?g changes timeout ?a) =
      on_session_empty ?g (if list_ex (\<lambda>(e, a). change_reason a \<noteq> None) changes then with_registry ?fr ?c1 else ?c1)"
    by (simp add: superseded_def Let_def)
  with both show ?thesis by (simp add: drain_inv_def split: if_splits)
qed

lemma drain_inv_activate:
  assumes inv: "drain_inv c" and f: "activate env n changes timeout c = Some (errs, c')"
  shows "drain_inv c'"
  using inv f
proof (cases rule: activate_cases)
  case first
  have inv1: "inv_pending {[]} {} (added (en_now env) n c)"
    using inv_new_entry[OF inv first(1,2)] first(4) by (simp add: added_def)
  have "dc_entries (added (en_now env) n c) [] = None"
    using inv_pendingD(4)[OF inv1] by (cases "dc_entries (added (en_now env) n c) []") (auto simp: entry_ok_def)
  then have "inv_pending {} {} (added (en_now env) n c)" using inv_absent[OF inv1, of "[]"] by simp
  from inv_enforce_limit[OF this first(5)] show ?thesis by (simp add: drain_inv_def)
next
  case (successor p errs1 c1 errs2)
  from inv_superseded[OF inv successor(1,2,4,5), of env changes timeout] have "inv_pending {} {} c1"
    by (simp add: successor(7) drain_inv_def)
  from inv_enforce_limit[OF this successor(8)] show ?thesis by (simp add: drain_inv_def)
qed (use inv in simp)

lemma drain_inv_retire:
  assumes inv: "drain_inv c"
  shows "drain_inv (snd (retire_active now g timeout c))"
proof (cases "dc_entries c g")
  case None
  then show ?thesis using inv by (simp add: retire_active_def)
next
  case (Some e)
  note i = inv[unfolded drain_inv_def]
  show ?thesis
  proof (cases "trim_space g = [] \<or> dc_closed c \<or> dc_active c \<noteq> g \<or> de_state e \<noteq> DApplied")
    case True
    with Some inv show ?thesis by (auto simp: retire_active_def)
  next
    case False
    let ?t = "if timeout \<le> 0 then minute else timeout"
    let ?f = "\<lambda>e. e\<lparr>de_state := DDraining, de_drain_started_at := Some now, de_cleanup_timeout := ?t,
      de_timer := Some (ForceTimer (now + ?t))\<rparr>"
    let ?c = "c\<lparr>dc_active := []\<rparr>"
    have eq: "snd (retire_active now g timeout c) = on_session_empty g (upd_entry g ?f ?c)"
      using False Some by (simp add: retire_active_def Let_def)
    have "entries_ok {g} {} ?c"
      unfolding entries_ok_def
    proof (intro allI impI)
      fix h d assume "dc_entries ?c h = Some d"
      then have d: "dc_entries c h = Some d" by simp
      show "entry_ok ?c h d \<and> (h \<in> {g} \<or> entry_settled ?c h d \<or> h \<in> {} \<and> awaits ?c h d)"
        using inv_pendingD(4,5)[OF i d] False by (auto simp: entry_ok_def entry_settled_def split: drain_status.splits)
    qed
    then have inv0: "inv_pending {g} {} ?c"
      using inv_pendingD(1,3)[OF i] by (simp add: inv_pending_def shape_ok_def retention_ok_def)
    have e: "dc_entries ?c g = Some e" using Some by simp
    have ok: "entry_ok ?c g (?f e)" using inv_pendingD(4)[OF inv0 e] False by (auto simp: entry_ok_def)
    have "g \<noteq> dc_active ?c" using ok by (simp add: entry_ok_def)
    then have "inv_pending {} {g} (upd_entry g ?f ?c)"
      by (intro inv_upd[where f = ?f, OF inv0 e ok]) (use draining_pending[of "?f e" ?c g] in auto)
    from inv_on_session_empty[OF this, of g] show ?thesis by (simp add: eq drain_inv_def)
  qed
qed

subsection \<open>Cleanups, timers and the end\<close>

lemma inv_retry_except:
  assumes inv: "inv_pending X {} c" and X: "X \<subseteq> {g}"
    and todo: "\<And>e. dc_entries c g = Some e \<Longrightarrow> g \<in> X \<Longrightarrow> entry_settled c g e \<or> de_state e = DCleanupFailed \<and> live_in (dc_registry c) g = []"
  shows "drain_inv (snd (retry_cleanup env g c))"
proof (cases "dc_entries c g")
  case None
  with inv_pending_mono[OF inv_absent[OF inv None], of "{}" "{}"] X show ?thesis
    by (auto simp: retry_cleanup_def drain_inv_def)
next
  case (Some e)
  show ?thesis
  proof (cases "de_state e = DCleanupFailed \<and> live_in (dc_registry c) g = []")
    case False
    then have "snd (retry_cleanup env g c) = c" using Some by (auto simp: retry_cleanup_def empty_iff)
    moreover have "entry_settled c g e" using inv_pendingD(5)[OF inv Some] todo[OF Some] False by blast
    then have "inv_pending (X - {g}) {} c" by (rule inv_release[OF inv Some])
    then have "inv_pending {} {} c" by (rule inv_pending_mono) (use X in auto)
    ultimately show ?thesis by (simp add: drain_inv_def)
  next
    case True
    let ?f = "\<lambda>e. e\<lparr>de_retry := None\<rparr>"
    have eq: "retry_cleanup env g c = complete_cleanup env g (upd_entry g ?f c)"
      using Some True by (simp add: retry_cleanup_def empty_iff)
    note ok = inv_pendingD(4)[OF inv Some]
    have rel: "\<not> de_released e" using ok True by (auto simp: entry_ok_def)
    have g: "g \<noteq> dc_active c" using active_applied[OF inv_pendingD(1)[OF inv] Some] ok True by (simp add: entry_ok_def)
    have "inv_pending {g} {} (upd_entry g ?f c)"
      by (rule inv_upd[OF inv Some]) (use ok X g in \<open>auto simp: entry_ok_def\<close>)
    from inv_complete_cleanup[OF this, of g "?f e" env] Some rel True
    show ?thesis by (simp add: eq drain_inv_def)
  qed
qed

lemma drain_inv_retry: "drain_inv c \<Longrightarrow> drain_inv (snd (retry_cleanup env g c))"
  unfolding drain_inv_def[of c] by (rule inv_retry_except) auto

text \<open>The goroutine of \<open>g\<close> leaves the task list, \<open>g\<close> is in its hands.\<close>

lemma inv_pop_task:
  assumes inv: "drain_inv c" and t: "dc_tasks c = t # ts" "t \<in> {NaturalCleanup g, RetryTask g}"
  shows "inv_pending {g} {} (c\<lparr>dc_tasks := ts\<rparr>)"
proof -
  note i = inv[unfolded drain_inv_def]
  have "entry_ok (c\<lparr>dc_tasks := ts\<rparr>) h d \<and> (h \<in> {g} \<or> entry_settled (c\<lparr>dc_tasks := ts\<rparr>) h d)" if "dc_entries c h = Some d" for h d
    using inv_pendingD(4,5)[OF i that] t by (auto simp: entry_ok_def entry_settled_def split: drain_status.splits)
  with inv_pendingD(1,3)[OF i] show ?thesis
    by (simp add: inv_pending_def entries_ok_def shape_ok_def retention_ok_def)
qed

text \<open>What a generation owes once its goroutine has left the task list.\<close>

lemma popped_settled:
  assumes inv: "drain_inv c" and t: "dc_tasks c = t # ts" and e: "dc_entries c g = Some e"
  shows "t = NaturalCleanup g \<Longrightarrow> entry_settled (c\<lparr>dc_tasks := ts\<rparr>) g e \<or> de_state e = DDrained \<and> \<not> de_released e"
    and "t = RetryTask g \<Longrightarrow> entry_settled (c\<lparr>dc_tasks := ts\<rparr>) g e \<or> de_state e = DCleanupFailed \<and> live_in (dc_registry c) g = []"
  using inv_pendingD(5)[OF inv[unfolded drain_inv_def] e] t by (auto simp: entry_settled_def split: drain_status.splits)

lemma inv_run_task:
  assumes inv: "drain_inv c"
  shows "drain_inv (run_task env c)"
proof (cases "dc_tasks c")
  case Nil
  with inv show ?thesis by (simp add: run_task_def)
next
  case (Cons t ts)
  let ?c = "c\<lparr>dc_tasks := ts\<rparr>"
  show ?thesis
  proof (cases t)
    case (NaturalCleanup g)
    note i = inv_pop_task[OF inv Cons, of g]
    have run: "run_task env c = complete_natural_cleanup env g ?c" using Cons NaturalCleanup by (simp add: run_task_def)
    show ?thesis
    proof (cases "dc_entries ?c g")
      case None
      with inv_absent[OF i None] NaturalCleanup show ?thesis
        by (simp add: run complete_natural_cleanup_def drain_inv_def)
    next
      case (Some e)
      show ?thesis
      proof (cases "de_state e = DDrained \<and> \<not> de_released e")
        case True
        then have "live_in (dc_registry c) g = []"
          using inv_pendingD(4)[OF i Some] NaturalCleanup by (simp add: entry_ok_def)
        with inv_complete_cleanup[OF i Some, of env] True NaturalCleanup Some show ?thesis
          by (simp add: run complete_natural_cleanup_def drain_inv_def)
      next
        case False
        then have "complete_natural_cleanup env g ?c = ?c" using Some by (auto simp: complete_natural_cleanup_def)
        moreover have "entry_settled ?c g e" using popped_settled(1)[OF inv Cons, of g e] Some False NaturalCleanup by auto
        ultimately show ?thesis using inv_release[OF i Some] NaturalCleanup by (simp add: run drain_inv_def)
      qed
    qed
  next
    case (RetryTask g)
    have "drain_inv (snd (retry_cleanup env g ?c))"
      by (rule inv_retry_except[OF inv_pop_task[OF inv Cons, of g]])
        (use RetryTask popped_settled(2)[OF inv Cons, of g] in auto)
    then show ?thesis using Cons RetryTask by (simp add: run_task_def)
  qed
qed

lemma counts_only:
  "entry_ok c g (e\<lparr>de_forced_count := a, de_session_count := b\<rparr>) = entry_ok c g e"
  "entry_settled c g (e\<lparr>de_forced_count := a, de_session_count := b\<rparr>) = entry_settled c g e"
  by (simp add: entry_ok_def, simp add: entry_settled_def split: drain_status.split)

lemma inv_force_non_provider:
  assumes inv: "drain_inv c"
  shows "drain_inv (snd (force_non_provider_sessions env g c))"
proof (cases "dc_entries c g")
  case None
  with inv show ?thesis by (simp add: force_non_provider_sessions_def)
next
  case (Some e)
  note i = inv[unfolded drain_inv_def]
  show ?thesis
  proof (cases "de_released e \<or> de_state e \<noteq> DDraining")
    case True
    with Some inv show ?thesis by (auto simp: force_non_provider_sessions_def)
  next
    case False
    let ?f = "\<lambda>e. e\<lparr>de_timer := None\<rparr>"
    let ?c1 = "upd_entry g ?f c"
    let ?fr = "force_generation_except_progressive (en_order env) (en_close env) (en_keep env) g (dc_registry ?c1)"
    let ?c2 = "with_registry ?fr ?c1"
    let ?h = "\<lambda>e. e\<lparr>de_forced_count := de_forced_count e + fo_forced (fst ?fr), de_session_count := count_in ?c2 g\<rparr>"
    have eq: "snd (force_non_provider_sessions env g c) = on_session_empty g (upd_entry g ?h ?c2)"
      using Some False by (simp add: force_non_provider_sessions_def Let_def)
    note ok = inv_pendingD(4)[OF i Some]
    have g: "g \<noteq> dc_active c" using active_applied[OF inv_pendingD(1)[OF i] Some] ok False by (simp add: entry_ok_def)
    have same: "entry_settled c g (?f e) = entry_settled c g e" using False by (simp add: entry_settled_def)
    have "inv_pending {} {} ?c1"
      by (rule inv_upd[where f = ?f, OF i Some])
        (use ok g same inv_pendingD(5)[OF i Some] in \<open>auto simp: entry_ok_def\<close>)
    then have i2: "inv_pending {} {} ?c2" by (rule inv_with_registry[OF _ shrinks_forces(3)])
    have "g \<in> dom (dc_entries ?c2)" using Some by (simp only: with_registry_simps upd_entry_simps) blast
    then obtain d where d: "dc_entries ?c2 g = Some d" by blast
    have "inv_pending {} {} (upd_entry g ?h ?c2)"
      by (rule inv_upd[where f = ?h, OF i2 d])
        (use inv_pendingD(1)[OF i2] inv_pendingD(4,5)[OF i2 d] d g counts_only in \<open>auto simp: shape_ok_def\<close>)
    from inv_on_session_empty[OF this, of g] show ?thesis by (simp add: eq drain_inv_def)
  qed
qed

lemma inv_fire_timer: "drain_inv c \<Longrightarrow> drain_inv (fire_timer env g c)"
  using inv_force_drain_unless_shutdown[of "{}" "{}" c reason_timeout env g] inv_force_non_provider[of c env g]
  by (auto simp: fire_timer_def drain_inv_def split: option.split drain_timer.split)

lemma inv_fire_retry:
  assumes inv: "drain_inv c"
  shows "drain_inv (fire_retry env g c)"
proof (cases "\<exists>e. dc_entries c g = Some e \<and> de_retry e \<noteq> None \<and> \<not> de_released e")
  case False
  with inv show ?thesis by (auto simp: fire_retry_def split: option.split)
next
  case True
  then obtain e where e: "dc_entries c g = Some e" "de_retry e \<noteq> None" "\<not> de_released e" by blast
  note i = inv[unfolded drain_inv_def]
  let ?f = "\<lambda>e. e\<lparr>de_retry := None\<rparr>"
  have "inv_pending {g} {} (upd_entry g ?f c)"
    by (rule inv_upd[where f = ?f, OF i e(1)])
      (use inv_pendingD(1,4)[OF i] e in \<open>auto simp: entry_ok_def shape_ok_def\<close>)
  then have "drain_inv (snd (retry_cleanup env g (upd_entry g ?f c)))"
    by (rule inv_retry_except)
      (use inv_pendingD(5)[OF i e(1)] e(1) in \<open>auto simp: entry_settled_def split: drain_status.splits\<close>)
  with e show ?thesis by (auto simp: fire_retry_def)
qed

lemma stop_timers_simps [simp]:
  "dc_registry (stop_timers g c) = dc_registry c"
  "dc_active (stop_timers g c) = dc_active c"
  "dc_order (stop_timers g c) = dc_order c"
  "dc_closed (stop_timers g c) = dc_closed c"
  "dc_tasks (stop_timers g c) = dc_tasks c"
  "dom (dc_entries (stop_timers g c)) = dom (dc_entries c)"
  by (auto simp: stop_timers_def upd_entry_def split: if_splits)

lemma inv_stop_timers:
  assumes inv: "inv_pending X E c" and closed: "dc_closed c"
  shows "inv_pending X E (stop_timers g c)"
proof (cases "dc_entries c g = None \<or> is_released c g")
  case True
  have "upd_entry g f c = c" if "dc_entries c g = None" for f
    using that by (simp add: upd_entry_def fun_upd_idem)
  with inv True show ?thesis by (auto simp: stop_timers_def)
next
  case False
  then obtain e where e: "dc_entries c g = Some e" "\<not> de_released e" by (auto simp: is_released_def)
  let ?f = "\<lambda>e. e\<lparr>de_timer := None, de_retry := None\<rparr>"
  have "entry_settled c g (?f e) = entry_settled c g e" using closed by (simp add: entry_settled_def split: drain_status.split)
  then have "inv_pending X E (upd_entry g ?f c)"
    by (intro inv_upd[where f = ?f, OF inv e(1)])
      (use inv_pendingD(1,4,5)[OF inv] e in \<open>auto simp: entry_ok_def shape_ok_def awaits_def\<close>)
  with False show ?thesis by (simp add: stop_timers_def)
qed

lemma fold_stop_timers:
  "inv_pending X E c \<Longrightarrow> dc_closed c \<Longrightarrow> inv_pending X E (fold stop_timers gs c) \<and> dc_order (fold stop_timers gs c) = dc_order c \<and>
   dc_closed (fold stop_timers gs c) \<and> dc_registry (fold stop_timers gs c) = dc_registry c"
  by (induction gs arbitrary: c) (simp_all add: inv_stop_timers)

lemma inv_force_each:
  "inv_pending X E c \<Longrightarrow> dc_active c = [] \<Longrightarrow> [] \<notin> set gs \<Longrightarrow> inv_pending (X - set gs) E (snd (force_each env gs c))"
proof (induction gs arbitrary: X c)
  case (Cons g gs)
  obtain errs c1 where f: "force_drain_generation env g reason_shutdown c = (errs, c1)" by fastforce
  have "inv_pending (X - {g}) E c1"
    using inv_force_drain[OF Cons.prems(1), of reason_shutdown g env] Cons.prems(2,3) f by auto
  moreover have "dc_active c1 = []" using force_drain_active[of env g reason_shutdown c] Cons.prems(2) f by simp
  ultimately have "inv_pending (X - {g} - set gs) E (snd (force_each env gs c1))" using Cons.IH Cons.prems(3) by simp
  moreover have "snd (force_each env (g # gs) c) = snd (force_each env gs c1)" by (simp add: f split: prod.split)
  ultimately show ?case by (metis Diff_insert2 list.set(2))
qed simp

text \<open>The controller that \<open>Close\<close> forces.\<close>

definition closing :: "controller \<Rightarrow> controller" where
  "closing c = (fold stop_timers (dc_order c) (c\<lparr>dc_closed := True\<rparr>))\<lparr>dc_active := []\<rparr>"

lemma close_controller_closing: "close_controller env c = force_each env (dc_order c) (closing c)"
  by (simp add: close_controller_def closing_def Let_def)

lemma inv_deactivate:
  assumes i: "inv_pending {} {} d"
  shows "inv_pending (set (dc_order d)) {} (d\<lparr>dc_active := []\<rparr>)"
proof -
  have "entry_ok (d\<lparr>dc_active := []\<rparr>) = entry_ok d" by (intro ext entry_ok_cong) simp
  then have "entries_ok (set (dc_order d)) {} (d\<lparr>dc_active := []\<rparr>)"
    unfolding entries_ok_def inv_pendingD(7)[OF i] using inv_pendingD(4)[OF i] by auto
  with inv_pendingD(1,3)[OF i] show ?thesis by (simp add: inv_pending_def shape_ok_def retention_ok_def)
qed

lemma inv_closing:
  assumes inv: "drain_inv c"
  shows "inv_pending (set (dc_order c)) {} (closing c)" and "dc_order (closing c) = dc_order c" and "dc_active (closing c) = []"
    and "dc_closed (closing c)" and "dc_registry (closing c) = dc_registry c"
proof -
  note i = inv[unfolded drain_inv_def]
  let ?c = "c\<lparr>dc_closed := True\<rparr>"
  have "entry_ok ?c g e \<and> entry_settled ?c g e" if "dc_entries c g = Some e" for g e
    using inv_pendingD(4,5)[OF i that] by (auto simp: entry_ok_def entry_settled_def split: drain_status.splits)
  with inv_pendingD(1,3)[OF i] have inv1: "inv_pending {} {} ?c"
    by (simp add: inv_pending_def entries_ok_def shape_ok_def retention_ok_def)
  have "dc_closed ?c" by simp
  note f = fold_stop_timers[OF inv1 this, of "dc_order c"]
  let ?d = "fold stop_timers (dc_order c) ?c"
  show "dc_order (closing c) = dc_order c" "dc_active (closing c) = []" "dc_closed (closing c)"
    "dc_registry (closing c) = dc_registry c" using f by (simp_all add: closing_def)
  show "inv_pending (set (dc_order c)) {} (closing c)"
    using inv_deactivate[OF conjunct1[OF f]] f by (simp add: closing_def)
qed

lemma no_empty_id: "inv_pending X E c \<Longrightarrow> [] \<notin> set (dc_order c)"
  using inv_pendingD(4,7)[of X E c] by (fastforce simp: entry_ok_def)

lemma inv_close: "drain_inv c \<Longrightarrow> drain_inv (snd (close_controller env c))"
  using inv_force_each[OF inv_closing(1,3), of c "dc_order c" env] no_empty_id[of "{}" "{}" c]
  by (simp add: close_controller_closing drain_inv_def)

end
