(* ===== verification/GenDrainProps.thy ===== *)
theory GenDrainProps
  imports GenDrainStep
begin

text \<open>
  The drain controller as a whole: its step relation, the invariant over every run, and what follows
  for sessions, resources, the number of generations, activation and shutdown.
\<close>

subsection \<open>Runs\<close>

inductive drain_step :: "controller \<Rightarrow> controller \<Rightarrow> bool" where
  registers: "register_drain_session g k n c = (res, c') \<Longrightarrow> drain_step c c'"
| finishes: "drain_step c (finish_session i c)"
| claims: "drain_step c (c\<lparr>dc_registry := snd (claim_force i terminal (dc_registry c))\<rparr>)"
| completes: "drain_step c (complete_session i success c)"
| activates: "activate env n changes timeout c = Some (errs, c') \<Longrightarrow> drain_step c c'"
| retires: "drain_step c (snd (retire_active now g timeout c))"
| retries: "drain_step c (snd (retry_cleanup env g c))"
| runs: "drain_step c (run_task env c)"
| fires: "drain_step c (fire_timer env g c)"
| fires_retry: "drain_step c (fire_retry env g c)"
| closes: "drain_step c (snd (close_controller env c))"

lemma new_controller_inv: "drain_inv new_controller"
  by (simp add: drain_inv_def inv_pending_def shape_ok_def entries_ok_def retention_ok_def new_controller_def
      empty_registry_def max_retained_terminal_generations_def)

lemma drain_step_inv: "drain_step c c' \<Longrightarrow> drain_inv c \<Longrightarrow> drain_inv c'"
  by (induction rule: drain_step.induct)
    (auto intro: inv_register inv_finish drain_inv_claim inv_complete drain_inv_activate drain_inv_retire drain_inv_retry inv_run_task
      inv_fire_timer inv_fire_retry inv_close)

lemma drain_run_inv: "drain_step\<^sup>*\<^sup>* new_controller c \<Longrightarrow> drain_inv c"
  by (induction rule: rtranclp_induct) (auto intro: new_controller_inv drain_step_inv)

lemma drain_invD:
  assumes "drain_inv c"
  shows "dc_entries c g = Some e \<Longrightarrow> entry_ok c g e" and "dc_entries c g = Some e \<Longrightarrow> entry_settled c g e"
    and "distinct (dc_order c)" and "set (dc_order c) = dom (dc_entries c)" and "shape_ok c" and "retention_ok c"
  using inv_pendingD[OF assms[unfolded drain_inv_def]] by blast+

lemma entry_lifecycle:
  assumes inv: "drain_inv c" and e: "dc_entries c g = Some e"
  shows "de_resource e = (\<not> de_released e) \<and> de_destroyed e = de_released e \<and>
    (de_released e \<longrightarrow> count_in c g = 0 \<and> de_timer e = None \<and> de_retry e = None \<and> de_state e \<in> {DDrained, DForced}) \<and>
    (de_state e = DApplied \<longleftrightarrow> g = dc_active c) \<and>
    (de_state e = DDraining \<longrightarrow> 0 < count_in c g) \<and> (de_state e = DForced \<longrightarrow> de_released e)"
proof -
  note d = drain_invD(1,2)[OF inv e]
  have "de_state e = DApplied" if "g = dc_active c"
    using that d(1) e drain_invD(5)[OF inv] by (auto simp: entry_ok_def shape_ok_def)
  moreover have "g = dc_active c" if "de_state e = DApplied" using that d(2) by (simp add: entry_settled_def)
  moreover have "0 < count_in c g" if "de_state e = DDraining"
    using that d(2) empty_iff[of c g] by (simp add: entry_settled_def)
  moreover have "de_released e" if "de_state e = DForced" using that d(2) by (simp add: entry_settled_def)
  ultimately show ?thesis
    using d(1) unfolding entry_ok_def empty_iff by (intro conjI iffI impI; (blast | elim conjE; simp))
qed

lemma session_lifecycle:
  assumes inv: "drain_inv c" and i: "i \<in> set (rg_live (dc_registry c))"
  obtains e where "dc_entries c (ss_generation (session_at (dc_registry c) i)) = Some e" "de_resource e" "\<not> de_destroyed e"
    "de_state e \<in> {DApplied, DDraining, DCleanupFailed}"
proof -
  let ?g = "ss_generation (session_at (dc_registry c) i)"
  obtain e where e: "dc_entries c ?g = Some e" using i drain_invD(5)[OF inv] by (auto simp: shape_ok_def)
  have live: "live_in (dc_registry c) ?g \<noteq> []" using i by (auto simp: live_in_def filter_empty_conv)
  note d = drain_invD(1,2)[OF inv e]
  have rel: "\<not> de_released e" using d(1) live by (auto simp: entry_ok_def)
  moreover have "de_state e \<noteq> DForced" using rel d(2) by (auto simp: entry_settled_def)
  moreover have "de_state e \<noteq> DDrained" "de_state e \<noteq> DNone" using live d(1) by (auto simp: entry_ok_def)
  ultimately have "de_state e \<in> {DApplied, DDraining, DCleanupFailed}" by (cases "de_state e") simp_all
  moreover have "de_resource e" "\<not> de_destroyed e" using rel d(1) by (simp_all add: entry_ok_def)
  ultimately show ?thesis using that[OF e] by blast
qed

text \<open>C16.
  In every run of the controller, whatever registrations, ends of sessions, concurrent forces,
  activations, retirements, timers, retries and closes happen in whatever order: a generation holds its
  resource exactly until it is released, a released generation has no sessions, no timer, no retry
  and ended drained or forced, a generation is in state applied exactly when it is the active one, a
  draining one has sessions, and every registered session belongs to a known generation that still
  holds its resource.\<close>

theorem drain_lifecycle:
  assumes "drain_step\<^sup>*\<^sup>* new_controller c"
  shows "(\<forall>g e. dc_entries c g = Some e \<longrightarrow>
      de_resource e = (\<not> de_released e) \<and> de_destroyed e = de_released e \<and>
      (de_released e \<longrightarrow> count_in c g = 0 \<and> de_timer e = None \<and> de_retry e = None \<and> de_state e \<in> {DDrained, DForced}) \<and>
      (de_state e = DApplied \<longleftrightarrow> g = dc_active c) \<and>
      (de_state e = DDraining \<longrightarrow> 0 < count_in c g) \<and> (de_state e = DForced \<longrightarrow> de_released e)) \<and>
    (\<forall>i \<in> set (rg_live (dc_registry c)). \<exists>e. dc_entries c (ss_generation (session_at (dc_registry c) i)) = Some e \<and>
      de_resource e \<and> \<not> de_destroyed e \<and> de_state e \<in> {DApplied, DDraining, DCleanupFailed})"
proof -
  have inv: "drain_inv c" using drain_run_inv[OF assms] .
  show ?thesis using entry_lifecycle[OF inv] session_lifecycle[OF inv] by blast
qed

subsection \<open>Activation\<close>

lemma activate_total: "\<exists>errs c'. activate env n changes timeout c = Some (errs, c')"
proof -
  have "\<exists>errs c''. enforce_limit (Suc (length (dc_order c'))) env [] c' = Some (errs, c'')" for c'
    using enforce_limit_start[of c' env] by auto
  then show ?thesis
    by (auto simp: activate_def split: option.split prod.split)
      (metis option.distinct(1) option.inject old.prod.exhaust)+
qed

lemma unreleased_resources:
  assumes inv: "drain_inv c"
  shows "{g. \<exists>e. dc_entries c g = Some e \<and> de_resource e} = set (unreleased c)"
proof (rule set_eqI)
  fix g
  show "g \<in> {g. \<exists>e. dc_entries c g = Some e \<and> de_resource e} \<longleftrightarrow> g \<in> set (unreleased c)"
  proof (cases "dc_entries c g")
    case (Some e)
    with drain_invD(1)[OF inv Some] drain_invD(4)[OF inv] show ?thesis
      by (auto simp: unreleased_def is_released_def entry_ok_def)
  qed (simp add: unreleased_def)
qed

lemma known_generations:
  assumes inv: "drain_inv c"
  shows "card (dom (dc_entries c)) \<le> length (unreleased c) + max_retained_terminal_generations"
proof -
  have "card (dom (dc_entries c)) = length (dc_order c)"
    using drain_invD(3,4)[OF inv] by (metis distinct_card)
  also have "\<dots> = length (filter (is_released c) (dc_order c)) + length (filter (\<lambda>g. \<not> is_released c g) (dc_order c))"
    by (rule sum_length_filter_compl[symmetric])
  also have "filter (\<lambda>g. \<not> is_released c g) (dc_order c) = unreleased c"
    unfolding unreleased_def using drain_invD(4)[OF inv] by (intro filter_cong) auto
  finally show ?thesis using drain_invD(6)[OF inv] by (simp add: retention_ok_def)
qed

lemma activate_outcome:
  assumes inv: "drain_inv c" and a: "activate env n changes timeout c = Some (errs, c')"
  shows "(\<exists>err. errs = [err]) \<and> c' = c \<or>
    dc_active c' = ng_id n \<and> (length (unreleased c') \<le> 2 \<or>
      DrainLimit \<in> set errs \<and> (\<forall>h \<in> set (unreleased c'). h \<noteq> ng_id n \<longrightarrow> spent c' h))"
  using inv a
proof (cases rule: activate_cases)
  case first
  have inv1: "inv_pending {[]} {} (added (en_now env) n c)"
    using inv_new_entry[OF inv first(1,2)] first(4) by (simp add: added_def)
  have "dc_entries (added (en_now env) n c) [] = None"
    using inv_pendingD(4)[OF inv1] by (cases "dc_entries (added (en_now env) n c) []") (auto simp: entry_ok_def)
  then have "drain_inv (added (en_now env) n c)" using inv_absent[OF inv1, of "[]"] by (simp add: drain_inv_def)
  from enforce_limit_outcome[OF this _ first(5)] inv_enforce_limit[OF inv1 first(5)] show ?thesis
    by (simp add: added_def)
next
  case (successor p errs1 c1 errs2)
  have inv1: "drain_inv c1" using inv_superseded[OF inv successor(1,2,4,5), of env changes timeout] by (simp add: successor(7))
  have "dc_active c1 = ng_id n"
    using successor(7) by (auto simp: superseded_def added_def Let_def split: if_splits)
  with enforce_limit_outcome[OF inv1 _ successor(8)] inv_enforce_limit[OF inv1[unfolded drain_inv_def] successor(8)]
  show ?thesis by (auto simp: successor(9))
qed simp

text \<open>C17.
  Whatever the sessions and resources of old generations do when they are closed and destroyed, as long
  as those calls return: the loop of \<open>enforceLimit\<close> ends, because it takes each generation at most once,
  and so activation returns. It is refused with one error and no change, or the new generation is the
  active one. In the second case at most two generations hold resources, or else the error of the limit
  is among those returned and the cleanup of every other generation that holds a resource has failed:
  none was left alone. At most sixteen released generations are remembered beside those with resources.\<close>

theorem activate_bounds:
  assumes "drain_step\<^sup>*\<^sup>* new_controller c"
  shows "\<exists>errs c'. activate env n changes timeout c = Some (errs, c') \<and>
    ((\<exists>err. errs = [err]) \<and> c' = c \<or>
     dc_active c' = ng_id n \<and>
     (card {g. \<exists>e. dc_entries c' g = Some e \<and> de_resource e} \<le> 2 \<or>
      DrainLimit \<in> set errs \<and>
      (\<forall>g e. dc_entries c' g = Some e \<and> de_resource e \<and> g \<noteq> ng_id n \<longrightarrow> de_state e = DCleanupFailed))) \<and>
    card (dom (dc_entries c')) \<le> card {g. \<exists>e. dc_entries c' g = Some e \<and> de_resource e} + 16"
proof -
  have inv: "drain_inv c" using drain_run_inv[OF assms] .
  obtain errs c' where a: "activate env n changes timeout c = Some (errs, c')" using activate_total by blast
  note inv' = drain_inv_activate[OF inv a]
  have holds: "{g. \<exists>e. dc_entries c' g = Some e \<and> de_resource e} = set (unreleased c')"
    by (rule unreleased_resources[OF inv'])
  have "distinct (unreleased c')" using drain_invD(3)[OF inv'] by (simp add: unreleased_def)
  then have n: "card (set (unreleased c')) = length (unreleased c')" by (rule distinct_card)
  have state: "de_state e = DCleanupFailed" if "dc_entries c' g = Some e" "de_resource e" "spent c' g" for g e
    using that drain_invD(1)[OF inv' that(1)] by (auto simp: spent_def entry_ok_def)
  have unrel: "g \<in> set (unreleased c')" if "dc_entries c' g = Some e" "de_resource e" for g e
    using that unfolding holds[symmetric] by blast
  have h: "card {g. \<exists>e. dc_entries c' g = Some e \<and> de_resource e} = length (unreleased c')" unfolding holds n ..
  have "(\<exists>err. errs = [err]) \<and> c' = c \<or>
      dc_active c' = ng_id n \<and> (card {g. \<exists>e. dc_entries c' g = Some e \<and> de_resource e} \<le> 2 \<or>
      DrainLimit \<in> set errs \<and>
      (\<forall>g e. dc_entries c' g = Some e \<and> de_resource e \<and> g \<noteq> ng_id n \<longrightarrow> de_state e = DCleanupFailed))"
    unfolding h using activate_outcome[OF inv a] state unrel by blast
  moreover have "card (dom (dc_entries c')) \<le> card {g. \<exists>e. dc_entries c' g = Some e \<and> de_resource e} + 16"
    unfolding h using known_generations[OF inv'] by (simp add: max_retained_terminal_generations_def)
  ultimately show ?thesis using a by blast
qed

subsection \<open>No generation is forgotten\<close>

lemma run_task_tasks: "dc_tasks (run_task env c) = tl (dc_tasks c)"
proof -
  have r: "dc_tasks (snd (retry_cleanup env g c')) = dc_tasks c'" for g c'
    by (simp add: retry_cleanup_def split: option.split)
  have n: "dc_tasks (complete_natural_cleanup env g c') = dc_tasks c'" for g c'
    by (simp add: complete_natural_cleanup_def split: option.split)
  show ?thesis by (simp add: run_task_def r n split: list.split drain_task.split)
qed

definition run_tasks :: "drain_env \<Rightarrow> controller \<Rightarrow> controller" where
  "run_tasks env c = (run_task env ^^ length (dc_tasks c)) c"

lemma iterate_run_task: "(drain_step\<^sup>*\<^sup>* c ((run_task env ^^ k) c)) \<and> dc_tasks ((run_task env ^^ k) c) = drop k (dc_tasks c)"
  by (induction k) (auto simp: run_task_tasks drop_Suc tl_drop intro: rtranclp.rtrancl_into_rtrancl drain_step.runs)

lemma destroy_resource_ok:
  "(\<And>k. outcome k = DestroyOk) \<Longrightarrow> \<exists>n'. destroy_resource outcome n running = ((True, False), n')"
  by (simp add: destroy_resource_def)

lemma released_or_gone_prune:
  "dc_entries (prune_released c) g = Some e \<Longrightarrow> dc_entries c g = Some e"
  by (rule prune_released_entries)

lemma complete_cleanup_releases:
  assumes e: "dc_entries c g = Some e" "\<not> de_destroyed e" and destroys: "\<And>k. en_destroy env k = DestroyOk"
    and d: "dc_entries (snd (complete_cleanup env g c)) g = Some d"
  shows "de_released d"
  using e
proof (cases rule: complete_cleanup_cases[where env = env])
  case (ok running n)
  with d have "dc_entries (prune_released (upd_entry g (\<lambda>e. release_entry (en_now env)
      (e\<lparr>de_destroyed := True, de_destroying := running, de_destroy_err := []\<rparr>)) (c\<lparr>dc_destroys := n\<rparr>))) g = Some d" by simp
  from prune_released_entries[OF this] e show ?thesis by (auto simp: release_entry_def)
next
  case (failed running n)
  with destroy_resource_ok[of "en_destroy env"] destroys show ?thesis by (metis prod.inject)
qed

text \<open>
  No generation is forgotten: once the pending goroutines have run, a generation without sessions of an open
  controller is the active one, is released, or has a retry armed; and when that retry fires and \<open>Destroy\<close>
  succeeds, the generation is released (or already pruned).\<close>

theorem idle_generations_are_released:
  assumes "drain_step\<^sup>*\<^sup>* new_controller c" and "c' = run_tasks env c" and "\<not> dc_closed c'"
    and "dc_entries c' g = Some e" and "count_in c' g = 0"
  shows "g = dc_active c' \<or> de_released e \<or> de_retry e \<noteq> None \<and>
    (\<forall>env' d. (\<forall>k. en_destroy env' k = DestroyOk) \<and> dc_entries (fire_retry env' g c') g = Some d \<longrightarrow> de_released d)"
proof -
  have "drain_step\<^sup>*\<^sup>* new_controller c'" and tasks: "dc_tasks c' = []"
    using iterate_run_task[of c "length (dc_tasks c)" env] assms(1,2) by (auto simp: run_tasks_def)
  then have inv: "drain_inv c'" by (blast intro: drain_run_inv)
  note d = drain_invD(1,2)[OF inv assms(4)]
  show ?thesis
  proof (cases "g = dc_active c' \<or> de_released e")
    case False
    then have st: "de_state e = DCleanupFailed" and retry: "de_retry e \<noteq> None"
      using d tasks assms(3,5) by (auto simp: entry_settled_def entry_ok_def empty_iff split: drain_status.splits)
    have "de_released x" if ok: "\<forall>k. en_destroy env' k = DestroyOk" and x: "dc_entries (fire_retry env' g c') g = Some x"
      for env' x
    proof -
      let ?f = "\<lambda>e. e\<lparr>de_retry := None\<rparr>"
      let ?c = "upd_entry g ?f (upd_entry g ?f c')"
      have "fire_retry env' g c' = snd (complete_cleanup env' g ?c)"
        using False st retry assms(4,5) by (auto simp: fire_retry_def retry_cleanup_def count_in_def)
      with x have "dc_entries (snd (complete_cleanup env' g ?c)) g = Some x" by simp
      moreover have "dc_entries ?c g = Some (?f (?f e))" using assms(4) by simp
      moreover have "\<not> de_destroyed (?f (?f e))" using d(1) False by (auto simp: entry_ok_def)
      ultimately show ?thesis using complete_cleanup_releases ok by blast
    qed
    with retry show ?thesis by blast
  qed blast
qed

subsection \<open>Shutdown\<close>

text \<open>A generation whose resource is gone: released, or pruned.\<close>

definition gone :: "controller \<Rightarrow> string \<Rightarrow> bool" where
  "gone c g \<longleftrightarrow> (\<forall>e. dc_entries c g = Some e \<longrightarrow> de_released e)"

lemma gone_upd: "gone c h \<Longrightarrow> (\<And>e. de_released e \<Longrightarrow> de_released (f e)) \<Longrightarrow> gone (upd_entry g f c) h"
  by (auto simp: gone_def)

lemma gone_prune: "gone c h \<Longrightarrow> gone (prune_released c) h"
  unfolding gone_def using prune_released_entries by blast

lemma gone_on_session_empty: "gone c h \<Longrightarrow> gone (on_session_empty g c) h"
  by (auto simp: on_session_empty_def gone_def split: option.split)

lemma gone_with_registry: "gone c h \<Longrightarrow> gone (with_registry fr c) h"
proof -
  have "gone c' h \<Longrightarrow> gone (fold on_session_empty gs c') h" for gs c'
    by (induction gs arbitrary: c') (simp_all add: gone_on_session_empty)
  moreover assume "gone c h"
  then have "gone (c\<lparr>dc_registry := snd fr\<rparr>) h" by (simp add: gone_def)
  ultimately show ?thesis by (simp add: with_registry_def)
qed

lemma gone_complete_cleanup: "gone c h \<Longrightarrow> gone (snd (complete_cleanup env g c)) h"
proof (cases "dc_entries c g")
  case None
  then show "gone c h \<Longrightarrow> gone (snd (complete_cleanup env g c)) h" by (simp add: complete_cleanup_def)
next
  case (Some e)
  have d: "gone (c\<lparr>dc_destroys := n\<rparr>) h = gone c h" for n by (simp add: gone_def)
  have s: "gone c' h \<Longrightarrow> gone (schedule_cleanup_retry env g c') h" for c'
    by (auto simp: schedule_cleanup_retry_def gone_def split: option.split)
  assume "gone c h"
  then show ?thesis
    unfolding complete_cleanup_def Some option.case upd_upd
    by (simp add: Let_def d release_entry_def gone_prune gone_upd s split: prod.split)
qed

lemma gone_force_drain:
  assumes "gone c h"
  shows "gone (snd (force_drain_generation env g reason c)) h"
proof (cases "dc_entries c g")
  case (Some e)
  have f: "gone (force_sessions env g reason c) h"
    unfolding force_sessions_def Let_def using assms by (intro gone_upd gone_with_registry) auto
  from Some show ?thesis
  proof (cases rule: force_drain_cases[where env = env and reason = reason])
    case (remains errs)
    show ?thesis unfolding remains(4) snd_conv by (rule gone_upd[OF f]) simp
  qed (use assms f in \<open>auto intro: gone_complete_cleanup\<close>)
qed (use assms in \<open>simp add: force_drain_generation_def\<close>)

text \<open>\<open>Destroy\<close> succeeds, no other call is closing a session, and map iteration meets every record once.\<close>

definition calm :: "drain_env \<Rightarrow> controller \<Rightarrow> bool" where
  "calm env c \<longleftrightarrow> (\<forall>k. en_destroy env k = DestroyOk) \<and> (\<forall>xs. mset (en_order env xs) = mset xs) \<and> at_rest (dc_registry c)"

lemma calm_registry: "calm env c \<Longrightarrow> dc_registry c' = dc_registry c \<Longrightarrow> calm env c'"
  by (simp add: calm_def)

lemma calm_force:
  assumes "calm env c"
  shows "calm env (force_sessions env g reason c)" and "count_in (force_sessions env g reason c) g = 0"
proof -
  obtain fr r where f: "force_generation (en_order env) (en_close env) g (dc_registry c) = (fr, r)" by fastforce
  have "at_rest r \<and> live_in r g = []"
    using force_generation_rest[of "dc_registry c" "en_order env", OF _ _ f] assms by (simp add: calm_def)
  then show "calm env (force_sessions env g reason c)" "count_in (force_sessions env g reason c) g = 0"
    using assms f by (simp_all add: calm_def empty_iff)
qed

lemma force_drain_releases:
  assumes inv: "inv_pending X E c" and calm: "calm env c" and g: "g \<noteq> dc_active c"
  shows "gone (snd (force_drain_generation env g reason_shutdown c)) g \<and>
    calm env (snd (force_drain_generation env g reason_shutdown c))"
proof (cases "dc_entries c g")
  case None
  then show ?thesis using calm by (simp add: force_drain_generation_def gone_def)
next
  case (Some e)
  have destroys: "\<And>k. en_destroy env k = DestroyOk" using calm by (simp add: calm_def)
  note ok = inv_pendingD(4)[OF inv Some]
  from Some show ?thesis
  proof (cases rule: force_drain_cases[where env = env and reason = reason_shutdown])
    case (skips errs)
    then show ?thesis using Some calm by (simp add: gone_def)
  next
    case cleans
    then have nd: "\<not> de_destroyed e" using ok by (simp add: entry_ok_def)
    show ?thesis unfolding cleans(4)
      using complete_cleanup_releases[OF Some nd destroys] calm_registry[OF calm] by (simp add: gone_def)
  next
    case (remains errs)
    with calm_force(2)[OF calm] show ?thesis by simp
  next
    case (forced errs)
    obtain e' where e': "dc_entries (force_sessions env g reason_shutdown c) g = Some e'" "\<not> de_destroyed e'"
      using inv_force_sessions(2)[OF inv Some forced(1) g] by blast
    show ?thesis unfolding forced(4) snd_conv
      using complete_cleanup_releases[OF e' destroys] calm_registry[OF calm_force(1)[OF calm]] by (simp add: gone_def)
  qed
qed

lemma force_each_snd:
  "snd (force_each env (g # gs) c) = snd (force_each env gs (snd (force_drain_generation env g reason_shutdown c)))"
  by (simp add: case_prod_unfold)

lemma force_each_releases:
  "inv_pending X E c \<Longrightarrow> calm env c \<Longrightarrow> dc_active c = [] \<Longrightarrow> [] \<notin> set gs \<Longrightarrow> h \<in> set gs \<or> gone c h \<Longrightarrow>
   gone (snd (force_each env gs c)) h"
proof (induction gs arbitrary: X c)
  case (Cons g gs)
  obtain errs c1 where f: "force_drain_generation env g reason_shutdown c = (errs, c1)" by fastforce
  have g: "g \<noteq> dc_active c" using Cons.prems(3,4) by auto
  have "inv_pending (X - {g}) E c1" using inv_force_drain[OF Cons.prems(1), of reason_shutdown g env] g f by simp
  moreover have "calm env c1 \<and> gone c1 g" using force_drain_releases[OF Cons.prems(1,2) g] f by simp
  moreover have "dc_active c1 = []" using force_drain_active[of env g reason_shutdown c] Cons.prems(3) f by simp
  moreover have "h \<in> set gs \<or> gone c1 h"
    using Cons.prems(5) gone_force_drain[of c h env g reason_shutdown] calculation(2) by (auto simp: f)
  ultimately have "gone (snd (force_each env gs c1)) h" using Cons.IH Cons.prems(4) by simp
  then show ?case by (simp only: force_each_snd f snd_conv)
qed simp

lemma force_each_order: "set (dc_order (snd (force_each env gs c))) \<subseteq> set (dc_order c)"
proof (induction gs arbitrary: c)
  case (Cons g gs)
  show ?case unfolding force_each_snd
    by (rule subset_trans[OF Cons force_drain_order])
qed simp

lemma force_each_closed: "dc_closed (snd (force_each env gs c)) = dc_closed c"
proof (induction gs arbitrary: c)
  case (Cons g gs)
  then show ?case unfolding force_each_snd by simp
qed simp

text \<open>
  Shutdown: when no other call is closing sessions and \<open>Destroy\<close> succeeds, \<open>Close\<close> releases every
  generation, the active one included, leaves no session registered, and the controller accepts neither a
  session nor a generation afterwards.\<close>

theorem close_releases_everything:
  assumes "drain_step\<^sup>*\<^sup>* new_controller c" and calm: "calm env c" and "close_controller env c = (errs, c')"
  shows "(\<forall>g e. dc_entries c' g = Some e \<longrightarrow> de_released e) \<and> rg_live (dc_registry c') = [] \<and>
    fst (register_drain_session g k n c') = Inl DrainClosed \<and>
    (ng_id m \<noteq> [] \<and> ng_has_resource m \<longrightarrow> activate env2 m changes timeout c' = Some ([DrainClosed], c'))"
proof -
  have inv: "drain_inv c" using drain_run_inv[OF assms(1)] .
  note cl = inv_closing[OF inv]
  have c': "c' = snd (force_each env (dc_order c) (closing c))" using assms(3) by (simp add: close_controller_closing)
  have inv': "drain_inv c'" using inv_close[OF inv, of env] assms(3) by simp
  have "gone c' h" if "h \<in> set (dc_order c)" for h
    unfolding c' by (rule force_each_releases[OF cl(1) calm_registry[OF calm cl(5)] cl(3)])
      (use that no_empty_id[of "{}" "{}" c] inv in \<open>auto simp: drain_inv_def\<close>)
  moreover have "set (dc_order c') \<subseteq> set (dc_order c)"
    using force_each_order[of env "dc_order c" "closing c"] cl(2) by (simp add: c')
  ultimately have all: "de_released e" if "dc_entries c' g = Some e" for g e
    using drain_invD(4)[OF inv'] that unfolding gone_def by blast
  have "rg_live (dc_registry c') = []"
  proof (rule ccontr)
    assume "\<not> ?thesis"
    then obtain i where "i \<in> set (rg_live (dc_registry c'))" by (cases "rg_live (dc_registry c')") auto
    from session_lifecycle[OF inv' this] obtain e
      where "dc_entries c' (ss_generation (session_at (dc_registry c') i)) = Some e" "de_resource e" by metis
    with all drain_invD(1)[OF inv'] show False by (auto simp: entry_ok_def)
  qed
  moreover have "dc_closed c'" using force_each_closed[of env "dc_order c" "closing c"] cl(4) by (simp add: c')
  ultimately show ?thesis using all by (auto simp: register_drain_session_def activate_def)
qed

subsection \<open>Retries\<close>

lemma retry_delay_saturated: "cleanup_retry_max \<le> d \<Longrightarrow> retry_delay_steps k d = d"
  by (cases k) simp_all

lemma retry_delay_min:
  "0 < d \<Longrightarrow> d \<le> cleanup_retry_max \<Longrightarrow> retry_delay_steps k d = min (2 ^ k * d) cleanup_retry_max"
proof (induction k arbitrary: d)
  case (Suc k)
  show ?case
  proof (cases "d * 2 \<le> cleanup_retry_max")
    case True
    with Suc.prems Suc.IH[of "d * 2"] show ?thesis by (simp add: min_def ac_simps)
  next
    case False
    have "1 * d \<le> 2 ^ k * d" using Suc.prems(1) by (intro mult_right_mono) simp_all
    with False have "cleanup_retry_max \<le> 2 * (2 ^ k * d)" by linarith
    then have "cleanup_retry_max \<le> 2 ^ Suc k * d" by (simp add: ac_simps)
    with False Suc.prems show ?thesis
      by (cases "d < cleanup_retry_max") (simp_all add: retry_delay_saturated min_def)
  qed
qed (simp add: min_def)

text \<open>The backoff of failed cleanups: after the n-th failure in a row the next attempt is scheduled in
  \<open>min (2\<^sup>n) 30\<close> seconds (the loop that doubles and caps the delay computes exactly this), unless a retry is
  armed already or the controller was closed.\<close>

theorem cleanup_backoff:
  assumes "dc_entries c g = Some e" and "\<not> de_released e" and "de_retry e = None" and "\<not> dc_closed c"
  shows "\<exists>d. dc_entries (schedule_cleanup_retry env g c) g = Some d \<and> de_attempts d = Suc (de_attempts e) \<and>
    de_retry d = Some (en_now env + min (2 ^ de_attempts e * second) (30 * second))"
proof -
  have "retry_delay_steps k cleanup_retry_base = min (2 ^ k * second) (30 * second)" for k
    using retry_delay_min[of cleanup_retry_base k] by (simp add: cleanup_retry_base_def cleanup_retry_max_def second_def)
  with assms show ?thesis by (simp add: schedule_cleanup_retry_def)
qed

subsection \<open>A run\<close>

definition sample_env :: "destroy_outcome \<Rightarrow> drain_env" where
  "sample_env d = \<lparr>en_now = 0, en_order = (\<lambda>is. is), en_close = (\<lambda>_. \<lparr>co_ok = True, co_finishes = False\<rparr>),
     en_keep = (\<lambda>_. False), en_destroy = (\<lambda>_. d)\<rparr>"

definition next_up :: "string \<Rightarrow> int \<Rightarrow> controller \<Rightarrow> controller" where
  "next_up g r c = snd (the (activate (sample_env DestroyOk) \<lparr>ng_id = g, ng_revision = r, ng_has_resource = True\<rparr> [] 0 c))"

lemma next_up_step: "drain_step c (next_up g r c)"
proof -
  obtain errs c' where "activate (sample_env DestroyOk) \<lparr>ng_id = g, ng_revision = r, ng_has_resource = True\<rparr> [] 0 c = Some (errs, c')"
    using activate_total by blast
  then show ?thesis by (simp add: next_up_def drain_step.activates)
qed

text \<open>Generation \<open>g1\<close> with a session is superseded by \<open>g2\<close>.\<close>

definition sample_drain :: controller where
  "sample_drain = next_up ''g2'' 2 (snd (register_drain_session ''g1'' web ''s'' (next_up ''g1'' 1 new_controller)))"

lemma register_step: "drain_step c (snd (register_drain_session g k n c))"
  by (metis drain_step.registers prod.collapse)

lemma run_next_up: "drain_step\<^sup>*\<^sup>* a c \<Longrightarrow> drain_step\<^sup>*\<^sup>* a (next_up g r c)"
  by (erule rtranclp.rtrancl_into_rtrancl) (rule next_up_step)

lemma run_register: "drain_step\<^sup>*\<^sup>* a c \<Longrightarrow> drain_step\<^sup>*\<^sup>* a (snd (register_drain_session g k n c))"
  by (erule rtranclp.rtrancl_into_rtrancl) (rule register_step)

lemma sample_drain_run: "drain_step\<^sup>*\<^sup>* new_controller sample_drain"
  unfolding sample_drain_def by (intro run_next_up run_register rtranclp.rtrancl_refl)

theorem drain_lifecycle_witness:
  "dc_active sample_drain = ''g2'' \<and> rg_live (dc_registry sample_drain) = [0] \<and>
   (\<exists>e. dc_entries sample_drain ''g1'' = Some e \<and> de_resource e \<and> \<not> de_destroyed e)"
proof -
  have a: "dc_active sample_drain = ''g2''" "rg_live (dc_registry sample_drain) = [0]"
    "ss_generation (session_at (dc_registry sample_drain) 0) = ''g1''" by code_simp+
  from drain_lifecycle[OF sample_drain_run] a show ?thesis by auto
qed

theorem activate_bounds_witness:
  "card (dom (dc_entries (next_up ''g3'' 3 sample_drain))) \<le> 18 \<and> dc_active (next_up ''g3'' 3 sample_drain) = ''g3''"
proof -
  let ?n = "\<lparr>ng_id = ''g3'', ng_revision = 3, ng_has_resource = True\<rparr>"
  have "fst (the (activate (sample_env DestroyOk) ?n [] 0 sample_drain)) = []" by code_simp
  with activate_bounds[OF sample_drain_run, of "sample_env DestroyOk" ?n "[]" 0] show ?thesis
    by (auto simp: next_up_def)
qed

text \<open>The session of \<open>g1\<close> ends and \<open>Destroy\<close> fails.\<close>

definition sample_failed :: controller where
  "sample_failed = run_tasks (sample_env DestroyErr) (finish_session 0 sample_drain)"

theorem idle_generations_are_released_witness:
  "\<exists>e. dc_entries sample_failed ''g1'' = Some e \<and> de_state e = DCleanupFailed \<and> de_retry e = Some second \<and>
    (\<exists>d. dc_entries (fire_retry (sample_env DestroyOk) ''g1'' sample_failed) ''g1'' = Some d \<and> de_released d)"
proof -
  have run: "drain_step\<^sup>*\<^sup>* new_controller (finish_session 0 sample_drain)"
    using sample_drain_run drain_step.finishes by (rule rtranclp.rtrancl_into_rtrancl)
  have v: "\<not> dc_closed sample_failed" "count_in sample_failed ''g1'' = 0" "dc_active sample_failed = ''g2''"
    "map_option de_state (dc_entries sample_failed ''g1'') = Some DCleanupFailed"
    "map_option de_released (dc_entries sample_failed ''g1'') = Some False"
    "map_option de_retry (dc_entries sample_failed ''g1'') = Some (Some second)" by code_simp+
  then obtain e where e: "dc_entries sample_failed ''g1'' = Some e" by auto
  have ok: "\<forall>k. en_destroy (sample_env DestroyOk) k = DestroyOk" by (simp add: sample_env_def)
  have "map_option de_state (dc_entries (fire_retry (sample_env DestroyOk) ''g1'' sample_failed) ''g1'') = Some DDrained" by code_simp
  then obtain d where d: "dc_entries (fire_retry (sample_env DestroyOk) ''g1'' sample_failed) ''g1'' = Some d" by auto
  from idle_generations_are_released[OF run sample_failed_def v(1) e v(2)] v e d ok show ?thesis by auto
qed

theorem close_releases_everything_witness:
  "\<exists>e. dc_entries (snd (close_controller (sample_env DestroyOk) sample_drain)) ''g2'' = Some e \<and> de_released e"
proof -
  have "dc_registry sample_drain = snd (register_session ''g1'' web ''s'' empty_registry)" by code_simp
  then have "calm (sample_env DestroyOk) sample_drain"
    by (simp add: calm_def sample_env_def at_rest_def registry_ok_def register_session_def empty_registry_def web_def
        session_at_def)
  note all = close_releases_everything[OF sample_drain_run this prod.collapse[symmetric]]
  have "map_option de_state (dc_entries (snd (close_controller (sample_env DestroyOk) sample_drain)) ''g2'') = Some DForced"
    by code_simp
  then obtain e where "dc_entries (snd (close_controller (sample_env DestroyOk) sample_drain)) ''g2'' = Some e" by auto
  with all show ?thesis by blast
qed

theorem cleanup_backoff_witness:
  "\<exists>d. dc_entries (schedule_cleanup_retry (sample_env DestroyOk) ''g1'' sample_drain) ''g1'' = Some d \<and> de_retry d = Some second"
proof -
  have v: "\<not> dc_closed sample_drain" "map_option de_released (dc_entries sample_drain ''g1'') = Some False"
    "map_option de_retry (dc_entries sample_drain ''g1'') = Some None"
    "map_option de_attempts (dc_entries sample_drain ''g1'') = Some 0" by code_simp+
  then obtain e where e: "dc_entries sample_drain ''g1'' = Some e" "\<not> de_released e" "de_retry e = None" "de_attempts e = 0"
    by auto
  from cleanup_backoff[OF e(1-3) v(1), of "sample_env DestroyOk"] e(4) show ?thesis
    by (auto simp: sample_env_def second_def)
qed

end
