(* ===== verification/SyncJournal.thy ===== *)
theory SyncJournal
  imports GoText GenDrain
begin

text \<open>
  The durable journal of the agent's revision sync (\<open>go-agent/internal/model/revision.go\<close>) and the
  functions of \<open>core/sync_revision.go\<close> that compute with it: which journals are valid, the revision below
  which the agent never goes back, the identity of leases and generations, and the checks on what the
  panel offers.
\<close>

subsection \<open>Data\<close>

text \<open>A lease; a deadline of \<open>None\<close> is the zero time.\<close>

record revision_lease =
  le_agent_id :: string
  le_revision :: int
  le_retry_cycle :: int
  le_attempt :: int
  le_lease_id :: string
  le_snapshot_digest :: string
  le_desired_version :: string
  le_apply_timeout :: int
  le_drain_timeout :: int
  le_deadline_at :: "time option"

datatype generation_phase =
  PhPrepared | PhStarting | PhStarted | PhCutover | PhActive | PhFailed | PhOther string

record generation_record =
  gr_generation_id :: string
  gr_runtime_generation_id :: string
  gr_runtime_snapshot_hash :: string
  gr_revision :: int
  gr_snapshot_digest :: string
  gr_phase :: generation_phase
  gr_lease :: revision_lease
  gr_acknowledged :: bool
  gr_report_rejected :: bool
  gr_error_code :: string
  gr_error_message :: string
  gr_updated_at :: time

record generation_journal =
  gj_version :: int
  gj_agent_id :: string
  gj_active :: "generation_record option"
  gj_candidate :: "generation_record option"
  gj_last_known_good :: "generation_record option"
  gj_draining :: "generation_record list"

text \<open>
  The members of \<open>model.Snapshot\<close> the sync reads. A configuration list is \<open>None\<close> for the nil slice; of an
  element the sync reads its id, its frontend URL and whether it is enabled, the rest is \<open>ci_body\<close>. A
  version package is its SHA-256.
\<close>

record traffic_config =
  tc_enabled :: "bool option"
  tc_blocked :: bool
  tc_reason :: string

record config_item =
  ci_id :: int
  ci_frontend_url :: string
  ci_enabled :: bool
  ci_body :: string

record agent_snapshot =
  as_desired_version :: string
  as_revision :: int
  as_package :: "string option"
  as_traffic :: traffic_config
  as_interval :: string
  as_config :: string
  as_config_present :: bool
  as_datasets :: "config_item list option"
  as_rules :: "config_item list option"
  as_l4_rules :: "config_item list option"
  as_egress_profiles :: "config_item list option"
  as_relay_listeners :: "config_item list option"
  as_certificates :: "config_item list option"
  as_certificate_policies :: "config_item list option"
  as_plugin_generations :: "config_item list option"
  as_plugin_dependencies :: "config_item list option"
  as_plugin_policies :: "config_item list option"

definition no_traffic :: traffic_config where
  "no_traffic = \<lparr>tc_enabled = None, tc_blocked = False, tc_reason = []\<rparr>"

text \<open>\<open>as_interval\<close> is the traffic statistics interval, \<open>as_config\<close> the other members of the agent configuration, empty when they all are.\<close>

definition has_agent_config :: "agent_snapshot \<Rightarrow> bool" where
  "has_agent_config s \<longleftrightarrow> as_config_present s \<or> as_traffic s \<noteq> no_traffic \<or> as_interval s \<noteq> [] \<or> as_config s \<noteq> []"

definition has_full_revision_payload :: "agent_snapshot \<Rightarrow> bool" where
  "has_full_revision_payload s \<longleftrightarrow> has_agent_config s \<and> as_rules s \<noteq> None \<and> as_l4_rules s \<noteq> None \<and>
     as_relay_listeners s \<noteq> None \<and> as_egress_profiles s \<noteq> None \<and> as_certificates s \<noteq> None \<and>
     as_certificate_policies s \<noteq> None \<and> as_plugin_generations s \<noteq> None \<and> as_plugin_dependencies s \<noteq> None \<and>
     as_plugin_policies s \<noteq> None"

definition no_items :: "config_item list option \<Rightarrow> bool" where
  "no_items l \<longleftrightarrow> l = None \<or> l = Some []"

definition is_zero_snapshot :: "agent_snapshot \<Rightarrow> bool" where
  "is_zero_snapshot s \<longleftrightarrow> as_desired_version s = [] \<and> as_revision s = 0 \<and> as_package s = None \<and>
     \<not> has_agent_config s \<and> no_items (as_rules s) \<and> no_items (as_l4_rules s) \<and> no_items (as_relay_listeners s) \<and>
     no_items (as_egress_profiles s) \<and> no_items (as_certificates s) \<and> no_items (as_certificate_policies s) \<and>
     no_items (as_plugin_generations s) \<and> no_items (as_plugin_dependencies s) \<and> no_items (as_plugin_policies s) \<and>
     no_items (as_datasets s)"

text \<open>\<open>RevisionPull\<close>; the verified digest was computed by the client over the delivered bytes.\<close>

record revision_pull =
  pl_has_update :: bool
  pl_desired_revision :: int
  pl_lease :: "revision_lease option"
  pl_snapshot :: "agent_snapshot option"
  pl_verified_digest :: string

subsection \<open>Checks on the journal\<close>

definition blank :: "string \<Rightarrow> bool" where
  "blank s \<longleftrightarrow> trim_space s = []"

definition journal_records :: "generation_journal \<Rightarrow> generation_record list" where
  "journal_records j = List.map_filter id [gj_active j, gj_last_known_good j, gj_candidate j] @ gj_draining j"

text \<open>The runtime identity of a record is complete or absent.\<close>

definition runtime_identity_ok :: "generation_record \<Rightarrow> bool" where
  "runtime_identity_ok r \<longleftrightarrow>
     (let g = \<not> blank (gr_runtime_generation_id r); h = \<not> blank (gr_runtime_snapshot_hash r) in
      g = h \<and> g = (gr_runtime_generation_id r \<noteq> []) \<and> h = (gr_runtime_snapshot_hash r \<noteq> []))"

definition candidate_phase :: "generation_phase \<Rightarrow> bool" where
  "candidate_phase p \<longleftrightarrow> p \<in> {PhPrepared, PhStarting, PhStarted, PhCutover, PhFailed}"

definition validate_generation_journal :: "generation_journal \<Rightarrow> bool" where
  "validate_generation_journal j \<longleftrightarrow>
     (if gj_version j = 0 then gj_active j = None \<and> gj_candidate j = None \<and> gj_last_known_good j = None \<and> gj_draining j = []
      else gj_version j = 1 \<and> list_all runtime_identity_ok (journal_records j) \<and>
        (case gj_active j of None \<Rightarrow> True | Some r \<Rightarrow> gr_phase r = PhActive) \<and>
        (case gj_last_known_good j of None \<Rightarrow> True | Some r \<Rightarrow> gr_phase r = PhActive) \<and>
        (case gj_candidate j of None \<Rightarrow> True | Some r \<Rightarrow> candidate_phase (gr_phase r)) \<and>
        list_all (\<lambda>r. gr_phase r = PhActive \<and>
          (case gj_active j of None \<Rightarrow> True | Some a \<Rightarrow> gr_revision r < gr_revision a)) (gj_draining j))"

definition durable_revision_floor :: "int \<Rightarrow> int \<Rightarrow> generation_journal \<Rightarrow> int" where
  "durable_revision_floor runtime lkg j = fold (\<lambda>r floor. max floor (gr_revision r)) (journal_records j) (max runtime lkg)"

definition validate_immutable_revision_digest :: "generation_journal \<Rightarrow> int \<Rightarrow> string \<Rightarrow> bool" where
  "validate_immutable_revision_digest j revision digest \<longleftrightarrow>
     list_all (\<lambda>r. gr_revision r \<noteq> revision \<or> blank (gr_snapshot_digest r) \<or> equal_fold (gr_snapshot_digest r) digest)
       (journal_records j)"

definition same_generation_lease :: "generation_record \<Rightarrow> revision_lease \<Rightarrow> bool" where
  "same_generation_lease r l \<longleftrightarrow> gr_revision r = le_revision l \<and> le_agent_id (gr_lease r) = le_agent_id l \<and>
     le_retry_cycle (gr_lease r) = le_retry_cycle l \<and> le_attempt (gr_lease r) = le_attempt l \<and>
     le_lease_id (gr_lease r) = le_lease_id l"

text \<open>The first of the records that has a runtime identity for the revision.\<close>

definition recorded_hash :: "(generation_record \<Rightarrow> bool) \<Rightarrow> generation_record option list \<Rightarrow> string option" where
  "recorded_hash P rs = map_option gr_runtime_snapshot_hash
     (find (\<lambda>r. P r \<and> \<not> blank (gr_runtime_snapshot_hash r)) (List.map_filter id rs))"

definition durable_runtime_snapshot_hash_for_revision :: "generation_journal \<Rightarrow> int \<Rightarrow> string \<Rightarrow> string" where
  "durable_runtime_snapshot_hash_for_revision j revision digest =
     (case recorded_hash (\<lambda>r. gr_revision r = revision \<and> equal_fold (gr_snapshot_digest r) digest)
          [gj_candidate j, gj_active j, gj_last_known_good j] of
        Some h \<Rightarrow> h | None \<Rightarrow> digest)"

definition durable_applied_runtime_snapshot_hash :: "generation_journal \<Rightarrow> int \<Rightarrow> string" where
  "durable_applied_runtime_snapshot_hash j revision =
     (case recorded_hash (\<lambda>r. gr_revision r = revision \<and> gr_phase r = PhCutover) [gj_candidate j] of
        Some h \<Rightarrow> h
      | None \<Rightarrow> (case recorded_hash (\<lambda>r. gr_revision r = revision \<and> gr_phase r = PhActive) [gj_active j, gj_last_known_good j] of
            Some h \<Rightarrow> h | None \<Rightarrow> []))"

subsection \<open>Generations\<close>

text \<open>The protocol identity of a generation, from \<open>digest16\<close>: the first eight bytes of a SHA-256 in hex.\<close>

definition nul :: char where "nul = CHR 0x00"

definition revision_generation_id :: "(string \<Rightarrow> string) \<Rightarrow> revision_lease \<Rightarrow> string" where
  "revision_generation_id digest16 l = ''generation-'' @ itoa (le_revision l) @ ''-'' @
     digest16 (le_agent_id l @ [nul] @ itoa (le_revision l) @ [nul] @ itoa (le_retry_cycle l) @ [nul] @
       itoa (le_attempt l) @ [nul] @ le_lease_id l)"

record generation_identity =
  gi_id :: string
  gi_revision :: int
  gi_snapshot_hash :: string

text \<open>\<open>NewGenerationContextWithSnapshotHash\<close>: the identity of a candidate from its 32-byte hash in hex.\<close>

definition hex_char :: "char \<Rightarrow> bool" where
  "hex_char c \<longleftrightarrow> c \<in> set ''0123456789abcdefABCDEF''"

definition is_digest :: "string \<Rightarrow> bool" where
  "is_digest s \<longleftrightarrow> length s = 64 \<and> list_all hex_char s"

definition generation_identity_of :: "agent_snapshot \<Rightarrow> string \<Rightarrow> generation_identity option" where
  "generation_identity_of s snapshot_hash =
     (let h = to_lower (trim_space snapshot_hash) in
      if \<not> is_digest h then None
      else Some \<lparr>gi_id = ''generation-'' @ itoa (as_revision s) @ ''-'' @ take 16 h, gi_revision = as_revision s,
        gi_snapshot_hash = h\<rparr>)"

text \<open>The record with its runtime identity, and whether that changed it; \<open>None\<close> is an error.\<close>

definition bind_runtime_generation_identity ::
  "generation_record \<Rightarrow> generation_identity option \<Rightarrow> (bool \<times> generation_record) option" where
  "bind_runtime_generation_identity r managed =
     (case managed of
        None \<Rightarrow>
          if gr_runtime_generation_id r \<noteq> [] \<or> gr_runtime_snapshot_hash r \<noteq> [] then None else Some (False, r)
      | Some i \<Rightarrow>
          if gi_id i = [] \<or> gi_revision i \<noteq> gr_revision r \<or> gi_snapshot_hash i = [] then None
          else if gr_runtime_generation_id r \<noteq> [] \<and> gr_runtime_generation_id r \<noteq> gi_id i then None
          else if gr_runtime_snapshot_hash r \<noteq> [] \<and> \<not> equal_fold (gr_runtime_snapshot_hash r) (gi_snapshot_hash i) then None
          else Some (gr_runtime_generation_id r = [] \<or> gr_runtime_snapshot_hash r = [],
            r\<lparr>gr_runtime_generation_id := gi_id i, gr_runtime_snapshot_hash := gi_snapshot_hash i\<rparr>))"

definition identity_matches :: "generation_identity \<Rightarrow> generation_record \<Rightarrow> bool" where
  "identity_matches i r \<longleftrightarrow> gi_id i = gr_runtime_generation_id r \<and> gi_revision i = gr_revision r \<and>
     equal_fold (gi_snapshot_hash i) (gr_runtime_snapshot_hash r)"

text \<open>
  \<open>active\<close> is the answer of \<open>ActiveGenerationIdentity\<close>: \<open>None\<close> without a generation manager, an empty
  identity when no generation is active.
\<close>

definition validate_active_runtime_generation :: "generation_identity option \<Rightarrow> generation_record \<Rightarrow> bool" where
  "validate_active_runtime_generation active r \<longleftrightarrow>
     gr_runtime_generation_id r = [] \<and> gr_runtime_snapshot_hash r = [] \<or>
     (case active of None \<Rightarrow> False | Some i \<Rightarrow> gi_id i \<noteq> [] \<and> identity_matches i r)"

definition runtime_generation_is_active :: "generation_identity option \<Rightarrow> generation_record \<Rightarrow> bool" where
  "runtime_generation_is_active active r \<longleftrightarrow> gr_runtime_generation_id r \<noteq> [] \<and> gr_runtime_snapshot_hash r \<noteq> [] \<and>
     (case active of None \<Rightarrow> False | Some i \<Rightarrow> identity_matches i r)"

definition append_draining_generation ::
  "generation_record list \<Rightarrow> generation_record option \<Rightarrow> generation_record \<Rightarrow> generation_record list" where
  "append_draining_generation draining previous active =
     (case previous of
        None \<Rightarrow> draining
      | Some p \<Rightarrow>
          if gr_revision active \<le> gr_revision p \<or> blank (gr_generation_id p) \<or> gr_generation_id p = gr_generation_id active
          then draining
          else if gr_generation_id p \<in> gr_generation_id ` set draining
          then list_update draining (length (takeWhile (\<lambda>r. gr_generation_id r \<noteq> gr_generation_id p) draining)) p
          else draining @ [p])"

text \<open>
  \<open>completedRuntimeDrain\<close>: the status to report for a predecessor that has ended; \<open>drains\<close> is the drain
  snapshot of the runtime, \<open>None\<close> without a generation manager. A status is its state, whether it was
  forced, and why.
\<close>

record drain_status_report =
  ds_state :: drain_status
  ds_force_reason :: string

definition completed_runtime_drain ::
  "drain_entry list option \<Rightarrow> generation_record \<Rightarrow> generation_record \<Rightarrow> drain_status_report option" where
  "completed_runtime_drain drains predecessor active =
     (if gr_revision active \<le> gr_revision predecessor then None
      else (case drains of
          None \<Rightarrow> Some \<lparr>ds_state = DDrained, ds_force_reason = []\<rparr>
        | Some ds \<Rightarrow>
            (case find (\<lambda>d. if gr_runtime_generation_id predecessor \<noteq> [] then de_id d = gr_runtime_generation_id predecessor
                 else de_revision d = gr_revision predecessor) ds of
               None \<Rightarrow> None
             | Some d \<Rightarrow>
                 if de_state d \<in> {DDrained, DForced} \<and> de_completed_at d \<noteq> None
                 then Some \<lparr>ds_state = de_state d, ds_force_reason = de_force_reason d\<rparr> else None)))"

subsection \<open>What the panel offers\<close>

text \<open>The lease, snapshot and digest of a valid offer.\<close>

definition validate_revision_pull :: "time \<Rightarrow> revision_pull \<Rightarrow> (revision_lease \<times> agent_snapshot \<times> string) option" where
  "validate_revision_pull now p =
     (case (pl_lease p, pl_snapshot p) of
        (Some l, Some s) \<Rightarrow>
          let d = trim_space (pl_verified_digest p) in
          if blank (le_agent_id l) \<or> le_revision l \<le> 0 \<or> le_retry_cycle l < 0 \<or> le_attempt l \<le> 0 \<or>
             le_apply_timeout l \<le> 0 \<or> le_drain_timeout l \<le> 0 \<or> blank (le_lease_id l) \<or> as_revision s \<noteq> le_revision l \<or>
             pl_desired_revision p \<noteq> le_revision l \<or> as_desired_version s \<noteq> le_desired_version l then None
          else if (case le_deadline_at l of None \<Rightarrow> True | Some t \<Rightarrow> t \<le> now) then None
          else if \<not> has_full_revision_payload s then None
          else if \<not> is_digest d \<or> blank (le_snapshot_digest l) \<or> \<not> equal_fold d (le_snapshot_digest l) then None
          else Some (l, s, d)
      | _ \<Rightarrow> None)"

definition revision_activation_snapshot :: "agent_snapshot \<Rightarrow> agent_snapshot \<Rightarrow> agent_snapshot option" where
  "revision_activation_snapshot heartbeat revision =
     (case as_package heartbeat of
        None \<Rightarrow> Some revision
      | Some pkg \<Rightarrow>
          if as_revision heartbeat \<noteq> as_revision revision \<or>
             trim_space (as_desired_version heartbeat) \<noteq> trim_space (as_desired_version revision) then None
          else Some (revision\<lparr>as_package := Some pkg\<rparr>))"

definition heartbeat_traffic_runtime :: "agent_snapshot \<Rightarrow> traffic_config option" where
  "heartbeat_traffic_runtime s =
     (case tc_enabled (as_traffic s) of
        None \<Rightarrow> None
      | Some enabled \<Rightarrow> Some \<lparr>tc_enabled = Some enabled, tc_blocked = tc_blocked (as_traffic s),
          tc_reason = trim_space (tc_reason (as_traffic s))\<rparr>)"

end
