(* ===== verification/SyncWorld.thy ===== *)
theory SyncWorld
  imports SyncJournal "HOL-Library.State_Monad"
begin

text \<open>
  The world of the agent's revision sync: what is durable (\<open>core/store.go\<close>), what the process holds (the
  runtime of \<open>core/runtime.go\<close> with the generation manager of \<open>core/generation_manager.go\<close> and its drain
  controller), and what was sent to the panel. Every call that leaves the process is numbered; the
  environment decides its answer, and whether the process dies before it, so that a run of the sync stops
  between any two of its effects. The code's functions are programs of the state monad.
\<close>

subsection \<open>The runtime\<close>

text \<open>
  \<open>Runtime\<close>; \<open>ar_traffic\<close> is \<open>None\<close> unless \<open>trafficSet\<close>, \<open>ar_has_revision\<close>: its metadata has a current revision. With a generation manager, \<open>ar_view\<close> is its active
  generation and \<open>ar_drain\<close> the drain controller it was built with.
\<close>

record agent_runtime =
  ar_managed :: bool
  ar_snapshot :: agent_snapshot
  ar_traffic :: "traffic_config option"
  ar_status :: string
  ar_revision :: int
  ar_has_revision :: bool
  ar_view :: "(generation_identity \<times> agent_snapshot) option"
  ar_drain :: "controller option"

definition overlay_traffic_runtime :: "agent_snapshot \<Rightarrow> traffic_config option \<Rightarrow> agent_snapshot" where
  "overlay_traffic_runtime s t = (case t of None \<Rightarrow> s | Some c \<Rightarrow> s\<lparr>as_traffic := c\<rparr>)"

definition active_snapshot :: "agent_runtime \<Rightarrow> agent_snapshot" where
  "active_snapshot r = overlay_traffic_runtime
     (case ar_view r of Some (_, s) \<Rightarrow> (if ar_managed r then s else ar_snapshot r) | None \<Rightarrow> ar_snapshot r) (ar_traffic r)"

definition no_identity :: generation_identity where
  "no_identity = \<lparr>gi_id = [], gi_revision = 0, gi_snapshot_hash = []\<rparr>"

definition active_generation_identity :: "agent_runtime \<Rightarrow> generation_identity option" where
  "active_generation_identity r =
     (if \<not> ar_managed r then None else Some (case ar_view r of None \<Rightarrow> no_identity | Some (i, _) \<Rightarrow> i))"

text \<open>The drain statuses of the runtime, \<open>None\<close> without a controller.\<close>

definition generation_drain_snapshot :: "agent_runtime \<Rightarrow> drain_entry list option" where
  "generation_drain_snapshot r = (if ar_managed r then map_option (snd \<circ> drain_snapshot) (ar_drain r) else None)"

definition set_traffic_runtime :: "traffic_config \<Rightarrow> agent_runtime \<Rightarrow> agent_runtime" where
  "set_traffic_runtime t r = r\<lparr>ar_traffic := (if tc_enabled t = None then None else Some t)\<rparr>"

definition status_error :: string where "status_error = ''error''"
definition status_active :: string where "status_active = ''active''"

definition set_active_snapshot :: "agent_snapshot \<Rightarrow> agent_runtime \<Rightarrow> agent_runtime" where
  "set_active_snapshot s r =
     (if tc_enabled (as_traffic s) \<noteq> None then set_traffic_runtime (as_traffic s) r else r)
       \<lparr>ar_snapshot := s, ar_status := status_active, ar_revision := as_revision s, ar_has_revision := True\<rparr>"

text \<open>\<open>generationEntityChanges\<close> of \<open>core/activation.go\<close>.\<close>

definition changed_entities ::
  "string \<Rightarrow> (config_item \<Rightarrow> string) \<Rightarrow> config_item list \<Rightarrow> config_item list \<Rightarrow> (entity_key \<times> entity_action) list" where
  "changed_entities module_name key previous next_items =
     List.map_filter (\<lambda>v.
       let k = \<lparr>ek_module = module_name, ek_id = key v\<rparr> in
       case map_of (rev (map (\<lambda>n. (key n, n)) next_items)) (key v) of
         None \<Rightarrow> Some (k, EntityDeleted)
       | Some n \<Rightarrow>
           if ci_enabled v \<and> \<not> ci_enabled n then Some (k, EntityDisabled)
           else if v \<noteq> n then Some (k, EntityModified) else None) previous"

definition items :: "config_item list option \<Rightarrow> config_item list" where
  "items l = (case l of None \<Rightarrow> [] | Some xs \<Rightarrow> xs)"

definition rule_entity :: "config_item \<Rightarrow> string" where
  "rule_entity v = (if ci_id v > 0 then itoa (ci_id v) else to_lower (trim_space (ci_frontend_url v)))"

definition item_entity :: "config_item \<Rightarrow> string" where
  "item_entity v = itoa (ci_id v)"

definition generation_entity_changes :: "agent_snapshot \<Rightarrow> agent_snapshot \<Rightarrow> (entity_key \<times> entity_action) list" where
  "generation_entity_changes previous s =
     changed_entities ''http'' rule_entity (items (as_rules previous)) (items (as_rules s)) @
     changed_entities ''l4'' item_entity (items (as_l4_rules previous)) (items (as_l4_rules s)) @
     changed_entities ''relay'' item_entity (items (as_relay_listeners previous)) (items (as_relay_listeners s))"

text \<open>\<open>validateGenerationDrain\<close>: the candidate continues the generation the drain controller knows.\<close>

definition validate_generation_drain :: "controller \<Rightarrow> generation_identity \<Rightarrow> generation_identity option \<Rightarrow> bool" where
  "validate_generation_drain c i previous \<longleftrightarrow> gi_id i \<noteq> [] \<and>
     (case previous of None \<Rightarrow> dc_active c = [] | Some p \<Rightarrow> dc_active c = gi_id p) \<and>
     list_all (\<lambda>d. de_id d \<noteq> gi_id i \<and> (de_id d = dc_active c \<longrightarrow> de_revision d < gi_revision i)) (snd (drain_snapshot c))"

text \<open>
  \<open>GenerationDrain.Activate\<close> once the new view is published; its error is kept in the cutover and not
  looked at. \<open>progressive\<close>: the previous generation's plugin backends drain progressively.
\<close>

definition drain_activate ::
  "drain_env \<Rightarrow> bool \<Rightarrow> generation_identity option \<Rightarrow> generation_identity \<Rightarrow> (entity_key \<times> entity_action) list \<Rightarrow> int \<Rightarrow>
   controller \<Rightarrow> controller" where
  "drain_activate denv progressive previous i changes timeout c =
     (if (case previous of None \<Rightarrow> dc_active c \<noteq> [] | Some p \<Rightarrow> dc_active c \<noteq> gi_id p) then c
      else (case activate denv \<lparr>ng_id = gi_id i, ng_revision = gi_revision i, ng_has_resource = True\<rparr> changes
              (if progressive \<and> previous \<noteq> None then - timeout else timeout) c of
          None \<Rightarrow> c | Some (_, c') \<Rightarrow> c'))"

definition default_drain_timeout :: int where
  "default_drain_timeout = 10 * minute"

text \<open>
  \<open>GenerationManager.apply\<close>: \<open>prepared\<close> says whether the modules accept, prepare and publish the candidate.
  The runtime with its new view, \<open>None\<close> on an error. \<open>WithTrafficRuntimeConfig\<close> lays the traffic state of the
  heartbeat over the snapshot of the view, whose identity stays that of the snapshot itself.
\<close>

definition manager_apply ::
  "drain_env \<Rightarrow> bool \<Rightarrow> bool \<Rightarrow> agent_snapshot \<Rightarrow> agent_snapshot \<Rightarrow> traffic_config option \<Rightarrow> string \<Rightarrow> int \<Rightarrow>
   agent_runtime \<Rightarrow> agent_runtime option" where
  "manager_apply denv prepared progressive previous s traffic snapshot_hash timeout r =
     (case generation_identity_of s snapshot_hash of
        None \<Rightarrow> None
      | Some i \<Rightarrow>
          (let old = map_option fst (ar_view r); view = overlay_traffic_runtime s traffic in
           if (case old of None \<Rightarrow> False | Some o1 \<Rightarrow> gi_id o1 = gi_id i) then Some r
           else if \<not> prepared then None
           else (case ar_drain r of
               None \<Rightarrow> Some (r\<lparr>ar_view := Some (i, view)\<rparr>)
             | Some c \<Rightarrow>
                 if \<not> validate_generation_drain c i old then None
                 else Some (r\<lparr>ar_view := Some (i, view),
                   ar_drain := Some (drain_activate denv progressive old i (generation_entity_changes previous s)
                     (if timeout \<le> 0 then default_drain_timeout else timeout) c)\<rparr>))))"

text \<open>
  \<open>Runtime.activate\<close>; \<open>live\<close>: the context is not over and the generation source is compatible; \<open>ready\<close> is
  the answer of the module activator (without a manager), or \<open>prepared\<close> above. The snapshot hash is the
  digest of the snapshot when none is given.
\<close>

definition runtime_activate ::
  "drain_env \<Rightarrow> bool \<Rightarrow> bool \<Rightarrow> bool \<Rightarrow> (agent_snapshot \<Rightarrow> string) \<Rightarrow> bool \<Rightarrow> agent_snapshot \<Rightarrow> agent_snapshot \<Rightarrow>
   int \<Rightarrow> traffic_config option \<Rightarrow> string \<Rightarrow> agent_runtime \<Rightarrow> bool \<times> agent_runtime" where
  "runtime_activate denv live ready progressive digest check previous s timeout traffic snapshot_hash r =
     (let failed = (False, r\<lparr>ar_status := status_error\<rparr>);
          with_traffic = (\<lambda>r. case traffic of None \<Rightarrow> r | Some t \<Rightarrow> set_traffic_runtime t r) in
      if check \<and> \<not> is_zero_snapshot previous \<and> previous \<noteq> active_snapshot r \<or> \<not> live then failed
      else if ar_managed r then
        (case manager_apply denv ready progressive previous s traffic
            (if snapshot_hash = [] then digest s else snapshot_hash) timeout r of
           None \<Rightarrow> failed
         | Some r' \<Rightarrow>
             (True, set_active_snapshot (case ar_view r' of None \<Rightarrow> s | Some (_, s') \<Rightarrow> s') (with_traffic r')))
      else if \<not> ready then failed
      else
        (let s' = (case traffic of None \<Rightarrow> s | Some t \<Rightarrow> overlay_traffic_runtime s (Some t))
         in (True, set_active_snapshot s' (with_traffic r))))"

text \<open>
  \<open>ReconcileTrafficRuntime\<close>; \<open>ready\<close>: the traffic provider (or the activator) accepts the configuration.
\<close>

definition reconcile_traffic_runtime :: "bool \<Rightarrow> traffic_config \<Rightarrow> agent_runtime \<Rightarrow> bool \<times> agent_runtime" where
  "reconcile_traffic_runtime ready t r =
     (if tc_enabled t = None then (True, r)
      else if ar_managed r then
        (if ar_view r = None \<or> ready then (True, set_traffic_runtime t r)
         else (False, if tc_blocked t then set_traffic_runtime t r else r))
      else if is_zero_snapshot (ar_snapshot r) then (True, set_traffic_runtime t r)
      else if \<not> ready then (False, r)
      else (True, set_traffic_runtime t (r\<lparr>ar_snapshot := overlay_traffic_runtime (ar_snapshot r) (Some t)\<rparr>)))"

subsection \<open>The world\<close>

record stored_runtime_state =
  sr_status :: string
  sr_revision :: int
  sr_meta :: "string \<Rightarrow> string option"

text \<open>
  What was sent to the panel: \<open>sw_sent\<close> by the sync, \<open>sw_client\<close> by the client's \<open>PullRevision\<close> on its own,
  which starts and fails a lease whose datasets it cannot prepare.
\<close>

datatype agent_message =
    SentStart revision_lease string string string
  | SentApplied revision_lease string
  | SentFailed revision_lease string string string
  | SentDrain revision_lease string drain_status_report

record sync_world =
  sw_journal :: generation_journal
  sw_desired :: agent_snapshot
  sw_applied :: agent_snapshot
  sw_last_known_good :: agent_snapshot
  sw_state :: stored_runtime_state
  sw_runtime :: agent_runtime
  sw_sent :: "agent_message list"
  sw_client :: "agent_message list"
  sw_calls :: nat
  sw_dead :: bool

text \<open>
  Errors; \<open>errors.Join\<close> is their list, the empty list is \<open>nil\<close>. The errors of a call that the sync tells
  apart: \<open>ErrRevisionLeaseConflict\<close>, an uncertain file commit, \<open>errPackageStagePending\<close> and
  \<open>ErrRestartRequested\<close>.
\<close>

datatype sync_error =
    CallFailed | LeaseConflict | CommitUncertain | StagePending | RestartRequested
  | InvalidJournal | InvalidPull | ForeignJournal | StaleRevision | DigestChanged | IdentityInvalid | RuntimeMismatch
  | ReportIdentityMissing | DatasetFailed | DigestFailed | LeaseOver | ApplyFailed | MetadataInvalid

type_synonym sync_errors = "sync_error list"

text \<open>
  The environment: the process dies before call \<open>n\<close>; the error of call \<open>n\<close> (\<open>None\<close> is success) and whether it
  took effect nevertheless; the clock; heartbeats, offers and drains. \<open>sy_digest\<close> is the SHA-256 of the encoded
  snapshot in hex, \<open>sy_lease_hash\<close> that of a lease id, \<open>sy_dataset_failure\<close> the lease of a pull whose datasets could
  not be prepared, \<open>sy_fallback\<close>: the last known good snapshot can be read instead of the applied one, \<open>sy_stages\<close>: there is a package stage coordinator, \<open>sy_outbox\<close>: the store keeps plugin logs,
  \<open>sy_interval_ok\<close>: \<open>ParseTrafficStatsInterval\<close> accepts the text, \<open>sy_recoverable\<close>: \<open>isRecoverableSyncApplyError\<close>, which
  recognises error messages.
\<close>

record sync_env =
  sy_dies :: "nat \<Rightarrow> bool"
  sy_error :: "nat \<Rightarrow> sync_error option"
  sy_done :: "nat \<Rightarrow> bool"
  sy_now :: "nat \<Rightarrow> time"
  sy_heartbeat :: "nat \<Rightarrow> agent_snapshot"
  sy_pull :: "nat \<Rightarrow> revision_pull"
  sy_dataset_failure :: "nat \<Rightarrow> revision_lease option"
  sy_fallback :: "nat \<Rightarrow> bool"
  sy_drain :: "nat \<Rightarrow> drain_env"
  sy_progressive :: "nat \<Rightarrow> bool"
  sy_digest :: "agent_snapshot \<Rightarrow> string"
  sy_lease_hash :: "string \<Rightarrow> string"
  sy_digest16 :: "string \<Rightarrow> string"
  sy_text :: "sync_errors \<Rightarrow> string"
  sy_provider_hash :: "generation_identity \<Rightarrow> string"
  sy_package :: string
  sy_stages :: bool
  sy_outbox :: bool
  sy_interval_ok :: "string \<Rightarrow> bool"
  sy_recoverable :: "(string \<Rightarrow> string option) \<Rightarrow> string \<Rightarrow> bool"

subsection \<open>Calls\<close>

text \<open>A call of a dead process does nothing.\<close>

definition call :: "sync_env \<Rightarrow> 'a \<Rightarrow> (nat \<Rightarrow> sync_world \<Rightarrow> 'a \<times> sync_world) \<Rightarrow> (sync_world, 'a) state" where
  "call env fallback f = State (\<lambda>w.
     if sw_dead w then (fallback, w)
     else (let n = sw_calls w; w1 = w\<lparr>sw_calls := Suc n\<rparr> in
       if sy_dies env n then (fallback, w1\<lparr>sw_dead := True\<rparr>) else f n w1))"

definition call_errors :: "sync_env \<Rightarrow> nat \<Rightarrow> sync_errors" where
  "call_errors env n = (case sy_error env n of None \<Rightarrow> [] | Some e \<Rightarrow> [e])"

text \<open>A write: the effect happens when the call succeeds, and may happen when it fails.\<close>

definition save :: "sync_env \<Rightarrow> (sync_world \<Rightarrow> sync_world) \<Rightarrow> (sync_world, sync_errors) state" where
  "save env upd = call env [CallFailed] (\<lambda>n w.
     (call_errors env n, if sy_error env n = None \<or> sy_done env n then upd w else w))"

definition save_journal :: "sync_env \<Rightarrow> generation_journal \<Rightarrow> (sync_world, sync_errors) state" where
  "save_journal env j = save env (\<lambda>w. w\<lparr>sw_journal := j\<rparr>)"

definition save_desired :: "sync_env \<Rightarrow> agent_snapshot \<Rightarrow> (sync_world, sync_errors) state" where
  "save_desired env s = save env (\<lambda>w. w\<lparr>sw_desired := s\<rparr>)"

definition save_applied :: "sync_env \<Rightarrow> agent_snapshot \<Rightarrow> (sync_world, sync_errors) state" where
  "save_applied env s = save env (\<lambda>w. w\<lparr>sw_applied := s\<rparr>)"

definition save_last_known_good :: "sync_env \<Rightarrow> agent_snapshot \<Rightarrow> (sync_world, sync_errors) state" where
  "save_last_known_good env s = save env (\<lambda>w. w\<lparr>sw_last_known_good := s\<rparr>)"

definition save_runtime_state :: "sync_env \<Rightarrow> stored_runtime_state \<Rightarrow> (sync_world, sync_errors) state" where
  "save_runtime_state env s = save env (\<lambda>w. w\<lparr>sw_state := s\<rparr>)"

definition load :: "sync_env \<Rightarrow> (sync_world \<Rightarrow> 'a) \<Rightarrow> (sync_world, sync_errors \<times> 'a) state" where
  "load env get = State (\<lambda>w. run_state (call env ([CallFailed], get w) (\<lambda>n w. ((call_errors env n, get w), w))) w)"

text \<open>
  \<open>LoadAppliedSnapshot\<close>: when the file of the applied snapshot cannot be read, the last known good snapshot
  stands in for it if that can be read and has a revision.
\<close>

definition load_applied :: "sync_env \<Rightarrow> (sync_world, sync_errors \<times> agent_snapshot) state" where
  "load_applied env = State (\<lambda>w. run_state (call env ([CallFailed], sw_applied w) (\<lambda>n w.
     (if sy_error env n \<noteq> None \<and> sy_fallback env n \<and> as_revision (sw_last_known_good w) > 0
      then ([], sw_last_known_good w) else (call_errors env n, sw_applied w), w))) w)"

text \<open>A message to the panel: it arrives when the call succeeds, and may have arrived when it fails; the log has every message that was sent.\<close>

definition send :: "sync_env \<Rightarrow> agent_message \<Rightarrow> (sync_world, sync_errors) state" where
  "send env m = call env [CallFailed] (\<lambda>n w. (call_errors env n, w\<lparr>sw_sent := sw_sent w @ [m]\<rparr>))"

text \<open>A message of the client itself.\<close>

definition client_send :: "sync_env \<Rightarrow> agent_message \<Rightarrow> (sync_world, sync_errors) state" where
  "client_send env m = call env [CallFailed] (\<lambda>n w. (call_errors env n, w\<lparr>sw_client := sw_client w @ [m]\<rparr>))"

text \<open>A call whose answer is only an error.\<close>

definition ask :: "sync_env \<Rightarrow> (sync_world, sync_errors) state" where
  "ask env = call env [CallFailed] (\<lambda>n w. (call_errors env n, w))"

definition now_is :: "sync_env \<Rightarrow> (sync_world, time) state" where
  "now_is env = call env 0 (\<lambda>n w. (sy_now env n, w))"

definition the_runtime :: "(sync_world, agent_runtime) state" where
  "the_runtime = State (\<lambda>w. (sw_runtime w, w))"

end
