(* ===== verification/SyncRevision.thy ===== *)
theory SyncRevision
  imports SyncWorld
begin

text \<open>
  The revision sync of the agent (\<open>core/sync_revision.go\<close>, with the runtime state it keeps in
  \<open>core/sync_metadata.go\<close> and the updates of \<open>core/sync_update.go\<close>) as programs over the world of \<open>SyncWorld\<close>: one
  definition per function, every early return a branch.
\<close>

subsection \<open>The stored runtime state\<close>

definition meta_last_sync_error :: string where "meta_last_sync_error = ''last_sync_error''"
definition meta_last_apply_revision :: string where "meta_last_apply_revision = ''last_apply_revision''"
definition meta_last_apply_status :: string where "meta_last_apply_status = ''last_apply_status''"
definition meta_last_apply_message :: string where "meta_last_apply_message = ''last_apply_message''"
definition meta_traffic_stats_interval :: string where "meta_traffic_stats_interval = ''traffic_stats_interval''"
definition meta_traffic_stats_enabled :: string where "meta_traffic_stats_enabled = ''traffic_stats_enabled''"
definition meta_traffic_blocked :: string where "meta_traffic_blocked = ''traffic_blocked''"
definition meta_traffic_block_reason :: string where "meta_traffic_block_reason = ''traffic_block_reason''"

type_synonym metadata = "string \<Rightarrow> string option"

definition bool_text :: "bool \<Rightarrow> string" where
  "bool_text b = (if b then ''true'' else ''false'')"

definition go_parse_bool :: "string \<Rightarrow> bool option" where
  "go_parse_bool s =
     (if s \<in> {''1'', ''t'', ''T'', ''TRUE'', ''true'', ''True''} then Some True
      else if s \<in> {''0'', ''f'', ''F'', ''FALSE'', ''false'', ''False''} then Some False else None)"

definition set_traffic_runtime_metadata :: "traffic_config \<Rightarrow> metadata \<Rightarrow> metadata" where
  "set_traffic_runtime_metadata t m =
     (let m1 = (case tc_enabled t of None \<Rightarrow> m | Some b \<Rightarrow> m(meta_traffic_stats_enabled \<mapsto> bool_text b));
          m2 = m1(meta_traffic_blocked \<mapsto> bool_text (tc_blocked t))
      in m2(meta_traffic_block_reason := (if blank (tc_reason t) then None else Some (tc_reason t))))"

text \<open>\<open>Some None\<close>: nothing is recorded; \<open>None\<close>: a recorded value does not parse.\<close>

definition traffic_runtime_config_from_metadata :: "metadata \<Rightarrow> traffic_config \<Rightarrow> traffic_config option option" where
  "traffic_runtime_config_from_metadata m legacy =
     (if m meta_traffic_stats_enabled = None \<and> m meta_traffic_blocked = None \<and> m meta_traffic_block_reason = None
      then Some None
      else (case (case m meta_traffic_stats_enabled of
                Some t \<Rightarrow> go_parse_bool (trim_space t)
              | None \<Rightarrow> Some (case tc_enabled legacy of Some b \<Rightarrow> b | None \<Rightarrow> False)) of
          None \<Rightarrow> None
        | Some enabled \<Rightarrow>
            (case (case m meta_traffic_blocked of Some t \<Rightarrow> go_parse_bool (trim_space t) | None \<Rightarrow> Some False) of
               None \<Rightarrow> None
             | Some blocked \<Rightarrow> Some (Some \<lparr>tc_enabled = Some enabled, tc_blocked = blocked,
                 tc_reason = trim_space (case m meta_traffic_block_reason of Some t \<Rightarrow> t | None \<Rightarrow> [])\<rparr>))))"

definition set_apply_metadata :: "int \<Rightarrow> string \<Rightarrow> string \<Rightarrow> metadata \<Rightarrow> metadata" where
  "set_apply_metadata revision status message m =
     m(meta_last_apply_revision \<mapsto> itoa revision, meta_last_apply_status \<mapsto> status, meta_last_apply_message \<mapsto> message)"

text \<open>The metadata \<open>Runtime.State\<close> adds.\<close>

definition runtime_metadata :: "sync_env \<Rightarrow> agent_runtime \<Rightarrow> metadata \<Rightarrow> metadata" where
  "runtime_metadata env r m =
     (let m1 = (if ar_has_revision r then m(''current_revision'' \<mapsto> itoa (ar_revision r)) else m) in
      case (if ar_managed r then ar_view r else None) of
        None \<Rightarrow> m1
      | Some (i, _) \<Rightarrow> m1(''current_revision'' \<mapsto> itoa (gi_revision i), ''generation_id'' \<mapsto> gi_id i,
          ''snapshot_hash'' \<mapsto> gi_snapshot_hash i, ''provider_hash'' \<mapsto> sy_provider_hash env i))"

definition runtime_revision :: "agent_runtime \<Rightarrow> int" where
  "runtime_revision r = (case (if ar_managed r then ar_view r else None) of None \<Rightarrow> ar_revision r | Some (i, _) \<Rightarrow> gi_revision i)"

definition runtime_state_for_persistence :: "sync_env \<Rightarrow> (sync_world, sync_errors \<times> stored_runtime_state) state" where
  "runtime_state_for_persistence env = do {
     (errs, existing) \<leftarrow> load env sw_state;
     r \<leftarrow> the_runtime;
     State_Monad.return (errs, \<lparr>sr_status = ar_status r, sr_revision = runtime_revision r,
       sr_meta = runtime_metadata env r (sr_meta existing)\<rparr>)
   }"

definition record_runtime_error_with_revision :: "sync_env \<Rightarrow> sync_errors \<Rightarrow> int \<Rightarrow> (sync_world, sync_errors) state" where
  "record_runtime_error_with_revision env errs revision = do {
     (e, st) \<leftarrow> runtime_state_for_persistence env;
     if e \<noteq> [] then State_Monad.return errs
     else do {
       r \<leftarrow> the_runtime;
       let m = set_apply_metadata revision ''error'' (sy_text env errs) ((sr_meta st)(meta_last_sync_error \<mapsto> sy_text env errs));
       let t = as_traffic (active_snapshot r);
       _ \<leftarrow> save_runtime_state env (st\<lparr>sr_meta := (if tc_enabled t \<noteq> None then set_traffic_runtime_metadata t m else m)\<rparr>);
       State_Monad.return errs
     }
   }"

definition record_runtime_error :: "sync_env \<Rightarrow> sync_errors \<Rightarrow> (sync_world, sync_errors) state" where
  "record_runtime_error env errs = do {
     r \<leftarrow> the_runtime;
     record_runtime_error_with_revision env errs (as_revision (active_snapshot r))
   }"

definition record_sync_error :: "sync_env \<Rightarrow> sync_errors \<Rightarrow> (sync_world, sync_errors) state" where
  "record_sync_error env errs = do {
     (e, st) \<leftarrow> runtime_state_for_persistence env;
     if e \<noteq> [] then State_Monad.return errs
     else do {
       _ \<leftarrow> save_runtime_state env (st\<lparr>sr_meta := (sr_meta st)(meta_last_sync_error \<mapsto> sy_text env errs)\<rparr>);
       State_Monad.return errs
     }
   }"

definition meta_text :: "metadata \<Rightarrow> string \<Rightarrow> string" where
  "meta_text m k = (case m k of None \<Rightarrow> [] | Some v \<Rightarrow> v)"

definition recoverable_apply_error_message :: "sync_env \<Rightarrow> metadata \<Rightarrow> string" where
  "recoverable_apply_error_message env m =
     (let message = trim_space (meta_text m meta_last_apply_message) in if sy_recoverable env m message then message else [])"

definition clear_last_sync_error_after_successful_sync :: "sync_env \<Rightarrow> (sync_world, sync_errors) state" where
  "clear_last_sync_error_after_successful_sync env = do {
     (e, st) \<leftarrow> runtime_state_for_persistence env;
     let first = trim_space (meta_text (sr_meta st) meta_last_sync_error);
     let last_error = (if first = [] then recoverable_apply_error_message env (sr_meta st) else first);
     if e \<noteq> [] then State_Monad.return e
     else if last_error = [] then State_Monad.return []
     else do {
       r \<leftarrow> the_runtime;
       let m = (sr_meta st)(meta_last_sync_error := None);
       save_runtime_state env (st\<lparr>sr_meta := (if sy_recoverable env m last_error
         then set_apply_metadata (as_revision (active_snapshot r)) ''success'' [] m else m)\<rparr>)
     }
   }"

definition persist_runtime_metadata :: "sync_env \<Rightarrow> (string \<times> string) list \<Rightarrow> (sync_world, sync_errors) state" where
  "persist_runtime_metadata env metas = do {
     (e, st) \<leftarrow> load env sw_state;
     if e \<noteq> [] then State_Monad.return e
     else save_runtime_state env (st\<lparr>sr_meta := sr_meta st ++ map_of metas\<rparr>)
   }"

definition persist_runtime_state :: "sync_env \<Rightarrow> bool \<Rightarrow> (sync_world, sync_errors) state" where
  "persist_runtime_state env clear = do {
     (e, st) \<leftarrow> runtime_state_for_persistence env;
     r \<leftarrow> the_runtime;
     let s = active_snapshot r;
     let m = set_apply_metadata (as_revision s) ''success'' [] (sr_meta st);
     let interval = trim_space (as_interval s);
     if e \<noteq> [] then State_Monad.return e
     else if interval \<noteq> [] \<and> \<not> sy_interval_ok env interval then State_Monad.return [MetadataInvalid]
     else do {
       let m1 = set_traffic_runtime_metadata (as_traffic s)
         (m(meta_traffic_stats_interval := (if interval = [] then None else Some interval)));
       save_runtime_state env (st\<lparr>sr_meta := (if clear then m1(meta_last_sync_error := None) else m1)\<rparr>)
     }
   }"

subsection \<open>Calls of the runtime\<close>

text \<open>The answers: \<open>LeaseOver\<close> ends the context, any other error refuses the candidate.\<close>

definition apply_runtime ::
  "sync_env \<Rightarrow> bool \<Rightarrow> agent_snapshot \<Rightarrow> agent_snapshot \<Rightarrow> int \<Rightarrow> traffic_config option \<Rightarrow> string \<Rightarrow> (sync_world, sync_errors) state" where
  "apply_runtime env check previous s timeout traffic snapshot_hash = call env [CallFailed] (\<lambda>n w.
     case runtime_activate (sy_drain env n) (sy_error env n \<noteq> Some LeaseOver) (sy_error env n = None) (sy_progressive env n)
         (sy_digest env) check previous s timeout traffic snapshot_hash (sw_runtime w) of
       (ok, r) \<Rightarrow> ((if ok then [] else [ApplyFailed]), w\<lparr>sw_runtime := r\<rparr>))"

definition reconcile_traffic :: "sync_env \<Rightarrow> traffic_config \<Rightarrow> (sync_world, sync_errors) state" where
  "reconcile_traffic env t = call env [CallFailed] (\<lambda>n w.
     case reconcile_traffic_runtime (sy_error env n = None) t (sw_runtime w) of
       (ok, r) \<Rightarrow> ((if ok then [] else [ApplyFailed]), w\<lparr>sw_runtime := r\<rparr>))"

definition rollback_runtime :: "sync_env \<Rightarrow> agent_snapshot \<Rightarrow> agent_snapshot \<Rightarrow> (sync_world, sync_errors) state" where
  "rollback_runtime env previous target =
     (if previous = target then State_Monad.return [] else apply_runtime env False previous target 0 None [])"

text \<open>\<open>None\<close>: an error; \<open>Some None\<close>: no generation manager.\<close>

definition candidate_generation_identity :: "sync_env \<Rightarrow> agent_runtime \<Rightarrow> agent_snapshot \<Rightarrow> string \<Rightarrow> generation_identity option option" where
  "candidate_generation_identity env r s snapshot_hash =
     (if \<not> ar_managed r then Some None
      else map_option Some (generation_identity_of s (if snapshot_hash = [] then sy_digest env s else snapshot_hash)))"

definition zero_snapshot :: agent_snapshot where
  "zero_snapshot = \<lparr>as_desired_version = [], as_revision = 0, as_package = None, as_traffic = no_traffic, as_interval = [],
     as_config = [], as_config_present = False, as_datasets = None, as_rules = None, as_l4_rules = None,
     as_egress_profiles = None, as_relay_listeners = None, as_certificates = None, as_certificate_policies = None,
     as_plugin_generations = None, as_plugin_dependencies = None, as_plugin_policies = None\<rparr>"

definition restore_durable_revision_runtime :: "sync_env \<Rightarrow> (sync_world, sync_errors) state" where
  "restore_durable_revision_runtime env = do {
     r \<leftarrow> the_runtime;
     if \<not> is_zero_snapshot (active_snapshot r) then State_Monad.return []
     else do {
       (e, applied) \<leftarrow> load_applied env;
       if e \<noteq> [] then State_Monad.return e
       else if is_zero_snapshot applied then State_Monad.return []
       else do {
         (e, st) \<leftarrow> load env sw_state;
         if e \<noteq> [] then State_Monad.return e
         else case traffic_runtime_config_from_metadata (sr_meta st) (as_traffic applied) of
           None \<Rightarrow> State_Monad.return [MetadataInvalid]
         | Some traffic \<Rightarrow> do {
             (e, j) \<leftarrow> load env sw_journal;
             if e \<noteq> [] then State_Monad.return e
             else do {
               e \<leftarrow> apply_runtime env True zero_snapshot applied 0 traffic
                 (durable_applied_runtime_snapshot_hash j (as_revision applied));
               if e \<noteq> [] then State_Monad.return e else persist_runtime_state env False
             }
           }
       }
     }
   }"

subsection \<open>Updates and logs\<close>

definition pending_update_package :: "sync_env \<Rightarrow> agent_snapshot \<Rightarrow> bool" where
  "pending_update_package env s =
     (case as_package s of
        None \<Rightarrow> False
      | Some sha \<Rightarrow> blank (sy_package env) \<or> blank sha \<or> \<not> equal_fold (trim_space (sy_package env)) (trim_space sha))"

definition ensure_pending_update :: "sync_env \<Rightarrow> agent_snapshot \<Rightarrow> (sync_world, sync_errors) state" where
  "ensure_pending_update env s =
     (if \<not> pending_update_package env s \<or> \<not> sy_stages env then State_Monad.return []
      else do {
        preflight \<leftarrow> ask env;
        if preflight \<noteq> [] then State_Monad.return preflight else ask env
      })"

definition handle_pending_update :: "sync_env \<Rightarrow> agent_snapshot \<Rightarrow> (sync_world, sync_errors) state" where
  "handle_pending_update env s =
     (if \<not> pending_update_package env s then State_Monad.return []
      else do {
        preflight \<leftarrow> ask env;
        if preflight \<noteq> [] then record_runtime_error env preflight
        else do {
          staged \<leftarrow> ask env;
          if StagePending \<in> set staged \<and> sy_stages env then State_Monad.return staged
          else if staged \<noteq> [] then record_runtime_error env staged
          else do {
            activated \<leftarrow> ask env;
            if RestartRequested \<in> set activated \<or> StagePending \<in> set activated \<and> sy_stages env
            then State_Monad.return activated
            else if activated \<noteq> [] then record_runtime_error env activated
            else State_Monad.return [RestartRequested]
          }
        }
      })"

definition authorize_plugin_log_retirements :: "sync_env \<Rightarrow> (sync_world, sync_errors) state" where
  "authorize_plugin_log_retirements env = (if sy_outbox env then ask env else State_Monad.return [])"

text \<open>The record whose generation is the applied one.\<close>

definition durable_cutover_of :: "sync_env \<Rightarrow> generation_identity option \<Rightarrow> agent_snapshot \<Rightarrow> generation_record \<Rightarrow> bool" where
  "durable_cutover_of env active applied r \<longleftrightarrow> gr_revision r = as_revision applied \<and>
     (if gr_runtime_generation_id r \<noteq> [] \<or> gr_runtime_snapshot_hash r \<noteq> []
      then (case active of None \<Rightarrow> False | Some i \<Rightarrow> identity_matches i r)
      else equal_fold (gr_snapshot_digest r) (sy_digest env applied))"

definition authorize_journal_plugin_log_retirements :: "sync_env \<Rightarrow> generation_journal \<Rightarrow> (sync_world, sync_errors) state" where
  "authorize_journal_plugin_log_retirements env j =
     (let records = List.map_filter id
          [case gj_candidate j of None \<Rightarrow> None | Some r \<Rightarrow> if gr_phase r = PhCutover then Some r else None, gj_active j]
      in if records = [] then State_Monad.return []
         else do {
           (e, applied) \<leftarrow> load_applied env;
           r \<leftarrow> the_runtime;
           if e \<noteq> [] then State_Monad.return e
           else if list_ex (durable_cutover_of env (active_generation_identity r) applied) records
           then authorize_plugin_log_retirements env
           else State_Monad.return []
         })"

definition commit_heartbeat_traffic_runtime :: "sync_env \<Rightarrow> agent_snapshot \<Rightarrow> (sync_world, sync_errors) state" where
  "commit_heartbeat_traffic_runtime env s =
     (case heartbeat_traffic_runtime s of
        None \<Rightarrow> State_Monad.return []
      | Some t \<Rightarrow> do {
          (e, previous) \<leftarrow> runtime_state_for_persistence env;
          let st = previous\<lparr>sr_meta := set_traffic_runtime_metadata t (sr_meta previous)\<rparr>;
          if e \<noteq> [] then State_Monad.return e
          else do {
            e \<leftarrow> save_runtime_state env st;
            if e \<noteq> [] then
              (if \<not> tc_blocked t then State_Monad.return e
               else do {
                 reconciled \<leftarrow> reconcile_traffic env t;
                 again \<leftarrow> save_runtime_state env st;
                 State_Monad.return (if reconciled \<noteq> [] \<or> again \<noteq> [] then e @ reconciled @ again else [])
               })
            else do {
              reconciled \<leftarrow> reconcile_traffic env t;
              if reconciled = [] then State_Monad.return []
              else if tc_blocked t then State_Monad.return reconciled
              else do {
                back \<leftarrow> save_runtime_state env previous;
                State_Monad.return (reconciled @ back)
              }
            }
          }
        })"

subsection \<open>Reports\<close>

definition stamp :: "sync_env \<Rightarrow> generation_record \<Rightarrow> (sync_world, generation_record) state" where
  "stamp env r = do { t \<leftarrow> now_is env; State_Monad.return (r\<lparr>gr_updated_at := t\<rparr>) }"

text \<open>The record after its applied report: acknowledged, or rejected for good.\<close>

definition resolve_applied_revision_report ::
  "sync_env \<Rightarrow> generation_record \<Rightarrow> (sync_world, sync_errors \<times> generation_record) state" where
  "resolve_applied_revision_report env a = do {
     e \<leftarrow> send env (SentApplied (gr_lease a) (gr_generation_id a));
     if e = [] then do { a1 \<leftarrow> stamp env (a\<lparr>gr_acknowledged := True\<rparr>); State_Monad.return ([], a1) }
     else if LeaseConflict \<in> set e then do { a1 \<leftarrow> stamp env (a\<lparr>gr_report_rejected := True\<rparr>); State_Monad.return ([], a1) }
     else State_Monad.return (e, a)
   }"

definition recover_active_revision_acknowledgement ::
  "sync_env \<Rightarrow> generation_journal \<Rightarrow> (sync_world, sync_errors \<times> generation_journal) state" where
  "recover_active_revision_acknowledgement env j =
     (case gj_active j of
        None \<Rightarrow> State_Monad.return ([], j)
      | Some a \<Rightarrow>
          if gr_acknowledged a \<or> gr_report_rejected a then State_Monad.return ([], j)
          else if gr_phase a \<noteq> PhActive \<or> le_revision (gr_lease a) \<noteq> gr_revision a \<or> blank (le_lease_id (gr_lease a)) \<or>
            blank (gr_generation_id a) then State_Monad.return ([ReportIdentityMissing], j)
          else do {
            r \<leftarrow> the_runtime;
            if \<not> validate_active_runtime_generation (active_generation_identity r) a then State_Monad.return ([RuntimeMismatch], j)
            else do {
              (e, a1) \<leftarrow> resolve_applied_revision_report env a;
              let j1 = j\<lparr>gj_active := Some a1\<rparr>;
              if e \<noteq> [] then State_Monad.return (e, j1)
              else do { e \<leftarrow> save_journal env j1; State_Monad.return (e, j1) }
            }
          })"

text \<open>The loop of \<open>reportCompletedGenerationDrains\<close>: \<open>kept\<close> is the part of the list it has passed.\<close>

fun report_drains ::
  "sync_env \<Rightarrow> drain_entry list option \<Rightarrow> generation_record \<Rightarrow> generation_journal \<Rightarrow> generation_record list \<Rightarrow>
   generation_record list \<Rightarrow> (sync_world, sync_errors \<times> generation_journal) state" where
  "report_drains env drains a j kept [] = State_Monad.return ([], j)"
| "report_drains env drains a j kept (p # ps) =
     (case completed_runtime_drain drains p a of
        None \<Rightarrow> report_drains env drains a j (kept @ [p]) ps
      | Some d \<Rightarrow> do {
          e \<leftarrow> (if gr_report_rejected p then State_Monad.return []
                else send env (SentDrain (gr_lease a) (gr_generation_id p) d));
          if e \<noteq> [] then State_Monad.return (e, j)
          else do {
            let j1 = j\<lparr>gj_draining := kept @ ps\<rparr>;
            e \<leftarrow> save_journal env j1;
            if e \<noteq> [] then State_Monad.return (e, j1) else report_drains env drains a j1 kept ps
          }
        })"

definition report_completed_generation_drains ::
  "sync_env \<Rightarrow> generation_journal \<Rightarrow> (sync_world, sync_errors \<times> generation_journal) state" where
  "report_completed_generation_drains env j =
     (case gj_active j of
        None \<Rightarrow> State_Monad.return ([], j)
      | Some a \<Rightarrow>
          if \<not> gr_acknowledged a \<or> gj_draining j = [] then State_Monad.return ([], j)
          else if le_revision (gr_lease a) \<noteq> gr_revision a \<or> blank (le_lease_id (gr_lease a))
          then State_Monad.return ([ReportIdentityMissing], j)
          else do {
            r \<leftarrow> the_runtime;
            report_drains env (generation_drain_snapshot r) a j [] (gj_draining j)
          })"

definition default_error_code :: string where "default_error_code = ''apply_failed''"
definition default_error_message :: string where "default_error_message = ''revision apply failed''"

definition report_revision_failed :: "sync_env \<Rightarrow> generation_record \<Rightarrow> (sync_world, sync_errors) state" where
  "report_revision_failed env r =
     (let code = trim_space (gr_error_code r); message = trim_space (gr_error_message r) in
      send env (SentFailed (gr_lease r) (gr_generation_id r) (if code = [] then default_error_code else code)
        (if message = [] then default_error_message else message)))"

definition fail_revision_attempt ::
  "sync_env \<Rightarrow> generation_journal \<Rightarrow> generation_record \<Rightarrow> sync_errors \<Rightarrow> (sync_world, sync_errors) state" where
  "fail_revision_attempt env j candidate errs = do {
     c1 \<leftarrow> stamp env (candidate\<lparr>gr_phase := PhFailed, gr_acknowledged := False, gr_error_code := default_error_code,
       gr_error_message := sy_text env errs\<rparr>);
     e \<leftarrow> save_journal env (j\<lparr>gj_candidate := Some c1\<rparr>);
     if e \<noteq> [] then record_runtime_error_with_revision env (errs @ e) (gr_revision candidate)
     else do {
       e \<leftarrow> report_revision_failed env c1;
       if e \<noteq> [] then record_runtime_error_with_revision env (errs @ e) (gr_revision candidate)
       else do {
         c2 \<leftarrow> stamp env (c1\<lparr>gr_acknowledged := True\<rparr>);
         e \<leftarrow> save_journal env (j\<lparr>gj_candidate := Some c2\<rparr>);
         record_runtime_error_with_revision env (errs @ e) (gr_revision candidate)
       }
     }
   }"

definition replay_failed_revision_report ::
  "sync_env \<Rightarrow> generation_journal \<Rightarrow> generation_record \<Rightarrow> (sync_world, sync_errors) state" where
  "replay_failed_revision_report env j candidate =
     (if gr_acknowledged candidate then State_Monad.return []
      else do {
        e \<leftarrow> report_revision_failed env candidate;
        if e \<noteq> [] then record_runtime_error_with_revision env e (gr_revision candidate)
        else do {
          c1 \<leftarrow> stamp env (candidate\<lparr>gr_acknowledged := True\<rparr>);
          e \<leftarrow> save_journal env (j\<lparr>gj_candidate := Some c1\<rparr>);
          if e \<noteq> [] then record_runtime_error_with_revision env e (gr_revision candidate) else State_Monad.return []
        }
      })"

text \<open>\<open>Active\<close> and \<open>LastKnownGood\<close> point to the same record, so the resolved report shows in both.\<close>

definition finish_revision_acknowledgement ::
  "sync_env \<Rightarrow> generation_journal \<Rightarrow> generation_record \<Rightarrow> agent_snapshot \<Rightarrow> (sync_world, sync_errors) state" where
  "finish_revision_acknowledgement env j candidate applied = do {
     c \<leftarrow> stamp env (candidate\<lparr>gr_phase := PhActive, gr_acknowledged := False\<rparr>);
     let j1 = j\<lparr>gj_draining := append_draining_generation (gj_draining j) (gj_active j) c, gj_active := Some c,
       gj_last_known_good := Some c, gj_candidate := None\<rparr>;
     e \<leftarrow> save_last_known_good env applied;
     if e \<noteq> [] then record_runtime_error env e
     else do {
       e \<leftarrow> save_journal env j1;
       if e \<noteq> [] then record_runtime_error env e
       else do {
         (e, a) \<leftarrow> resolve_applied_revision_report env c;
         if e \<noteq> [] then record_runtime_error env e
         else do {
           let j2 = j1\<lparr>gj_active := Some a, gj_last_known_good := Some a\<rparr>;
           e \<leftarrow> save_journal env j2;
           if e \<noteq> [] then record_runtime_error env e
           else if gr_report_rejected a then State_Monad.return []
           else do { (e, _) \<leftarrow> report_completed_generation_drains env j2; State_Monad.return e }
         }
       }
     }
   }"

end
