(* ===== verification/SyncPlan.thy ===== *)
theory SyncPlan
  imports SyncRevision
begin

text \<open>
  \<open>performRevisionSyncPlan\<close> of \<open>core/sync_revision.go\<close>: one round of the agent's sync, from restoring the
  runtime and the open reports over the heartbeat to the offered revision. The long Go function is cut
  into the pieces that its early returns separate.
\<close>

subsection \<open>Applying a candidate\<close>

definition lease_over :: "sync_env \<Rightarrow> revision_lease \<Rightarrow> (sync_world, bool) state" where
  "lease_over env l = call env True (\<lambda>n w.
     (sy_error env n \<noteq> None \<or> (case le_deadline_at l of None \<Rightarrow> False | Some t \<Rightarrow> t \<le> sy_now env n), w))"

definition matches_offer :: "generation_record \<Rightarrow> revision_lease \<Rightarrow> string \<Rightarrow> bool" where
  "matches_offer r l d \<longleftrightarrow> same_generation_lease r l \<and> equal_fold (gr_snapshot_digest r) d"

definition with_candidate :: "generation_record \<Rightarrow> generation_journal \<Rightarrow> generation_journal" where
  "with_candidate c j = j\<lparr>gj_candidate := Some c\<rparr>"

text \<open>The applied snapshot is the candidate's: confirm the cutover.\<close>

definition confirm_applied ::
  "sync_env \<Rightarrow> generation_journal \<Rightarrow> generation_record \<Rightarrow> agent_snapshot \<Rightarrow> (sync_world, sync_errors) state" where
  "confirm_applied env j c applied = do {
     r \<leftarrow> the_runtime;
     if \<not> validate_active_runtime_generation (active_generation_identity r) c then record_runtime_error env [RuntimeMismatch]
     else do {
       e \<leftarrow> authorize_plugin_log_retirements env;
       if e \<noteq> [] then record_runtime_error env e
       else do {
         e \<leftarrow> persist_runtime_state env True;
         if e \<noteq> [] then record_runtime_error env e else finish_revision_acknowledgement env j c applied
       }
     }
   }"

text \<open>A failure after the runtime was switched; with a generation manager the switch stands.\<close>

definition undo_cutover ::
  "sync_env \<Rightarrow> generation_journal \<Rightarrow> generation_record \<Rightarrow> agent_snapshot \<Rightarrow> agent_snapshot \<Rightarrow> sync_errors \<Rightarrow>
   (sync_world, sync_errors) state" where
  "undo_cutover env j c s previous errs = do {
     r \<leftarrow> the_runtime;
     if ar_managed r \<or> CommitUncertain \<in> set errs then record_runtime_error env errs
     else do {
       back \<leftarrow> rollback_runtime env s previous;
       if back \<noteq> [] then record_runtime_error_with_revision env (errs @ back) (gr_revision c)
       else fail_revision_attempt env j c errs
     }
   }"

definition commit_cutover ::
  "sync_env \<Rightarrow> generation_journal \<Rightarrow> generation_record \<Rightarrow> agent_snapshot \<Rightarrow> agent_snapshot \<Rightarrow> (sync_world, sync_errors) state" where
  "commit_cutover env j c s previous = do {
     r \<leftarrow> the_runtime;
     if \<not> validate_active_runtime_generation (active_generation_identity r) c
     then record_runtime_error_with_revision env [RuntimeMismatch] (gr_revision c)
     else do {
       c1 \<leftarrow> stamp env (c\<lparr>gr_phase := PhCutover\<rparr>);
       e \<leftarrow> save_journal env (with_candidate c1 j);
       if e \<noteq> [] then undo_cutover env j c1 s previous e
       else do {
         e \<leftarrow> save_applied env s;
         if e \<noteq> [] then undo_cutover env j c1 s previous e
         else do {
           e \<leftarrow> authorize_plugin_log_retirements env;
           if e \<noteq> [] then record_runtime_error_with_revision env e (gr_revision c)
           else do {
             e \<leftarrow> persist_runtime_state env True;
             if e = [] then finish_revision_acknowledgement env (with_candidate c1 j) c1 s
             else do {
               r \<leftarrow> the_runtime;
               if ar_managed r \<or> CommitUncertain \<in> set e then record_runtime_error env e
               else do {
                 back \<leftarrow> rollback_runtime env s previous;
                 restored \<leftarrow> save_applied env previous;
                 if back \<noteq> [] \<or> restored \<noteq> []
                 then record_runtime_error_with_revision env (e @ back @ restored) (gr_revision c)
                 else fail_revision_attempt env j c1 e
               }
             }
           }
         }
       }
     }
   }"

definition give_up ::
  "sync_env \<Rightarrow> bool \<Rightarrow> generation_journal \<Rightarrow> generation_record \<Rightarrow> sync_errors \<Rightarrow> (sync_world, sync_errors) state" where
  "give_up env durable_cutover j c errs =
     (if durable_cutover then record_runtime_error env errs else fail_revision_attempt env j c errs)"

definition apply_candidate ::
  "sync_env \<Rightarrow> agent_snapshot \<Rightarrow> agent_snapshot \<Rightarrow> bool \<Rightarrow> generation_journal \<Rightarrow> generation_record \<Rightarrow> revision_lease \<Rightarrow>
   agent_snapshot \<Rightarrow> string \<Rightarrow> (sync_world, sync_errors) state" where
  "apply_candidate env heartbeat activation durable_cutover j c l s h = do {
     over \<leftarrow> lease_over env l;
     if over then give_up env durable_cutover j c [LeaseOver]
     else do {
       e \<leftarrow> save_desired env s;
       if e \<noteq> [] then give_up env durable_cutover j c e
       else do {
         e \<leftarrow> handle_pending_update env activation;
         if RestartRequested \<in> set e then State_Monad.return e
         else if e \<noteq> [] then give_up env durable_cutover j c e
         else do {
           r \<leftarrow> the_runtime;
           let previous = active_snapshot r;
           e \<leftarrow> apply_runtime env True previous s (le_drain_timeout l * second) (heartbeat_traffic_runtime heartbeat) h;
           if e = [] then commit_cutover env j c s previous
           else if durable_cutover then record_runtime_error_with_revision env e (gr_revision c)
           else if ar_managed r then fail_revision_attempt env j c e
           else do {
             back \<leftarrow> rollback_runtime env s previous;
             if back \<noteq> [] then record_runtime_error_with_revision env (e @ back) (gr_revision c)
             else fail_revision_attempt env j c e
           }
         }
       }
     }
   }"

text \<open>The applied snapshot, if it is the offered one.\<close>

definition applied_is :: "sync_env \<Rightarrow> revision_lease \<Rightarrow> agent_snapshot \<Rightarrow> agent_snapshot \<Rightarrow> bool" where
  "applied_is env l s applied \<longleftrightarrow> as_revision applied = le_revision l \<and> equal_fold (sy_digest env applied) (sy_digest env s)"

text \<open>After the start was sent (or before, when an earlier round did): skip the apply if it was done.\<close>

definition continue_candidate ::
  "sync_env \<Rightarrow> agent_snapshot \<Rightarrow> agent_snapshot \<Rightarrow> bool \<Rightarrow> bool \<Rightarrow> generation_journal \<Rightarrow> generation_record \<Rightarrow> revision_lease \<Rightarrow>
   agent_snapshot \<Rightarrow> string \<Rightarrow> (sync_world, sync_errors) state" where
  "continue_candidate env heartbeat activation active_matches durable_cutover j c l s h =
     (if \<not> active_matches then apply_candidate env heartbeat activation durable_cutover j c l s h
      else do {
        (e, applied) \<leftarrow> load_applied env;
        if e \<noteq> [] then record_runtime_error env e
        else if applied_is env l s applied then confirm_applied env j c applied
        else apply_candidate env heartbeat activation durable_cutover j c l s h
      })"

definition start_candidate ::
  "sync_env \<Rightarrow> agent_snapshot \<Rightarrow> agent_snapshot \<Rightarrow> bool \<Rightarrow> generation_journal \<Rightarrow> generation_record \<Rightarrow> revision_lease \<Rightarrow>
   agent_snapshot \<Rightarrow> string \<Rightarrow> (sync_world, sync_errors) state" where
  "start_candidate env heartbeat activation active_matches j c l s h = do {
     c1 \<leftarrow> stamp env (c\<lparr>gr_phase := PhStarting\<rparr>);
     e \<leftarrow> save_journal env (with_candidate c1 j);
     if e \<noteq> [] then record_runtime_error env e
     else do {
       e \<leftarrow> send env (SentStart l (revision_generation_id (sy_digest16 env) l) (gr_runtime_generation_id c1)
         (gr_runtime_snapshot_hash c1));
       if e \<noteq> [] then record_runtime_error env e
       else do {
         c2 \<leftarrow> stamp env (c1\<lparr>gr_phase := PhStarted\<rparr>);
         e \<leftarrow> save_journal env (with_candidate c2 j);
         if e \<noteq> [] then record_runtime_error env e
         else continue_candidate env heartbeat activation active_matches False (with_candidate c2 j) c2 l s h
       }
     }
   }"

text \<open>The candidate after a cutover that the journal knows: confirm it, or apply it again.\<close>

definition resume_cutover ::
  "sync_env \<Rightarrow> agent_snapshot \<Rightarrow> agent_snapshot \<Rightarrow> bool \<Rightarrow> generation_journal \<Rightarrow> generation_record \<Rightarrow> revision_lease \<Rightarrow>
   agent_snapshot \<Rightarrow> string \<Rightarrow> (sync_world, sync_errors) state" where
  "resume_cutover env heartbeat activation active_matches j c l s h = do {
     (e, applied) \<leftarrow> load_applied env;
     if e = [] \<and> applied_is env l s applied then confirm_applied env j c applied
     else continue_candidate env heartbeat activation active_matches True j c l s h
   }"

text \<open>The phase in which an earlier round left the candidate decides how this one goes on.\<close>

definition resume_candidate ::
  "sync_env \<Rightarrow> agent_snapshot \<Rightarrow> agent_snapshot \<Rightarrow> bool \<Rightarrow> generation_journal \<Rightarrow> generation_record \<Rightarrow> revision_lease \<Rightarrow>
   agent_snapshot \<Rightarrow> string \<Rightarrow> (sync_world, sync_errors) state" where
  "resume_candidate env heartbeat activation active_matches j c l s h =
     (case gr_phase c of
        PhStarted \<Rightarrow> do {
          r \<leftarrow> the_runtime;
          if \<not> runtime_generation_is_active (active_generation_identity r) c
          then continue_candidate env heartbeat activation active_matches False j c l s h
          else do {
            c1 \<leftarrow> stamp env (c\<lparr>gr_phase := PhCutover\<rparr>);
            e \<leftarrow> save_journal env (with_candidate c1 j);
            if e \<noteq> [] then record_runtime_error env e
            else resume_cutover env heartbeat activation active_matches (with_candidate c1 j) c1 l s h
          }
        }
      | PhCutover \<Rightarrow> resume_cutover env heartbeat activation active_matches j c l s h
      | PhStarting \<Rightarrow> State_Monad.return []
      | _ \<Rightarrow> start_candidate env heartbeat activation active_matches j c l s h)"

subsection \<open>An offered revision\<close>

definition new_candidate :: "sync_env \<Rightarrow> revision_lease \<Rightarrow> string \<Rightarrow> time \<Rightarrow> generation_record" where
  "new_candidate env l d t = \<lparr>gr_generation_id = revision_generation_id (sy_digest16 env) l, gr_runtime_generation_id = [],
     gr_runtime_snapshot_hash = [], gr_revision = le_revision l, gr_snapshot_digest = d, gr_phase = PhPrepared, gr_lease = l,
     gr_acknowledged = False, gr_report_rejected = False, gr_error_code = [], gr_error_message = [], gr_updated_at = t\<rparr>"

definition prepare_candidate ::
  "sync_env \<Rightarrow> agent_snapshot \<Rightarrow> agent_snapshot \<Rightarrow> bool \<Rightarrow> generation_journal \<Rightarrow> revision_lease \<Rightarrow> agent_snapshot \<Rightarrow> string \<Rightarrow>
   string \<Rightarrow> generation_identity option \<Rightarrow> (sync_world, sync_errors) state" where
  "prepare_candidate env heartbeat activation active_matches j l s d h managed = do {
     t \<leftarrow> now_is env;
     case bind_runtime_generation_identity (new_candidate env l d t) managed of
       None \<Rightarrow> record_runtime_error env [IdentityInvalid]
     | Some (_, fresh) \<Rightarrow>
         (case (case gj_candidate j of None \<Rightarrow> None | Some c \<Rightarrow> if matches_offer c l d then Some c else None) of
            None \<Rightarrow> do {
              e \<leftarrow> save_journal env (with_candidate fresh j);
              if e \<noteq> [] then record_runtime_error env e
              else start_candidate env heartbeat activation active_matches (with_candidate fresh j) fresh l s h
            }
          | Some c \<Rightarrow>
              (case bind_runtime_generation_identity c managed of
                 None \<Rightarrow> record_runtime_error env [IdentityInvalid]
               | Some (False, c1) \<Rightarrow> resume_candidate env heartbeat activation active_matches j c1 l s h
               | Some (True, c1) \<Rightarrow> do {
                   c2 \<leftarrow> stamp env c1;
                   e \<leftarrow> save_journal env (with_candidate c2 j);
                   if e \<noteq> [] then record_runtime_error env e
                   else resume_candidate env heartbeat activation active_matches (with_candidate c2 j) c2 l s h
                 }))
   }"

text \<open>The offer is the active generation: complete its identity and its report.\<close>

definition resume_active ::
  "sync_env \<Rightarrow> generation_journal \<Rightarrow> generation_record \<Rightarrow> generation_identity option \<Rightarrow> (sync_world, sync_errors) state" where
  "resume_active env j a managed =
     (case bind_runtime_generation_identity a managed of
        None \<Rightarrow> record_runtime_error env [IdentityInvalid]
      | Some (changed, a1) \<Rightarrow> do {
          let j1 = j\<lparr>gj_active := Some a1\<rparr>;
          r \<leftarrow> the_runtime;
          if \<not> validate_active_runtime_generation (active_generation_identity r) a1
          then record_runtime_error env [RuntimeMismatch]
          else do {
            e \<leftarrow> (if changed then save_journal env j1 else State_Monad.return []);
            if e \<noteq> [] then record_runtime_error env e
            else if gr_acknowledged a1 \<or> gr_report_rejected a1 then clear_last_sync_error_after_successful_sync env
            else do {
              (e, a2) \<leftarrow> resolve_applied_revision_report env a1;
              if e \<noteq> [] then record_runtime_error env e else save_journal env (j1\<lparr>gj_active := Some a2\<rparr>)
            }
          }
        })"

definition adopt_journal :: "revision_lease \<Rightarrow> generation_journal \<Rightarrow> generation_journal" where
  "adopt_journal l j = (if gj_version j = 0 then j\<lparr>gj_version := 1\<rparr> else j)\<lparr>gj_agent_id := le_agent_id l\<rparr>"

definition sync_offer ::
  "sync_env \<Rightarrow> agent_snapshot \<Rightarrow> agent_snapshot \<Rightarrow> generation_journal \<Rightarrow> revision_lease \<Rightarrow> agent_snapshot \<Rightarrow> string \<Rightarrow>
   (sync_world, sync_errors) state" where
  "sync_offer env heartbeat activation j0 l s d =
     (if gj_version j0 \<noteq> 0 \<and> gj_agent_id j0 \<noteq> [] \<and> gj_agent_id j0 \<noteq> le_agent_id l
      then record_runtime_error env [ForeignJournal]
      else do {
        let j = adopt_journal l j0;
        (e, good) \<leftarrow> load env sw_last_known_good;
        r \<leftarrow> the_runtime;
        let h = durable_runtime_snapshot_hash_for_revision j (as_revision s) d;
        if e \<noteq> [] then record_runtime_error env e
        else if as_revision s < durable_revision_floor (as_revision (active_snapshot r)) (as_revision good) j
        then record_runtime_error env [StaleRevision]
        else if \<not> validate_immutable_revision_digest j (as_revision s) d then record_runtime_error env [DigestChanged]
        else (case (case gj_candidate j of None \<Rightarrow> None
            | Some c \<Rightarrow> if gr_phase c = PhFailed \<and> matches_offer c l d then Some c else None) of
          Some c \<Rightarrow> replay_failed_revision_report env j c
        | None \<Rightarrow>
            (case candidate_generation_identity env r s h of
               None \<Rightarrow> record_runtime_error env [IdentityInvalid]
             | Some managed \<Rightarrow>
                 (case gj_active j of
                    None \<Rightarrow> prepare_candidate env heartbeat activation False j l s d h managed
                  | Some a \<Rightarrow>
                      if matches_offer a l d then resume_active env j a managed
                      else prepare_candidate env heartbeat activation
                        (gr_revision a = le_revision l \<and> equal_fold (gr_snapshot_digest a) d) j l s d h managed)))
      })"

subsection \<open>A round\<close>

text \<open>No revision is offered: only a pending update of the agent itself is handled. \<open>ack\<close>: errors of the open reports.\<close>

definition sync_no_update :: "sync_env \<Rightarrow> sync_errors \<Rightarrow> agent_snapshot \<Rightarrow> (sync_world, sync_errors) state" where
  "sync_no_update env ack heartbeat = do {
     e \<leftarrow> handle_pending_update env heartbeat;
     if StagePending \<in> set e then
       (if ack \<noteq> [] then record_runtime_error env ack else clear_last_sync_error_after_successful_sync env)
     else if RestartRequested \<in> set e then do {
       _ \<leftarrow> (if ack \<noteq> [] then record_runtime_error env ack else State_Monad.return []);
       State_Monad.return (ack @ e)
     }
     else if ack @ e \<noteq> [] then record_runtime_error env (ack @ e)
     else clear_last_sync_error_after_successful_sync env
   }"

definition heartbeat_call :: "sync_env \<Rightarrow> (sync_world, sync_errors \<times> agent_snapshot) state" where
  "heartbeat_call env = call env ([CallFailed], zero_snapshot) (\<lambda>n w. ((call_errors env n, sy_heartbeat env n), w))"

definition no_pull :: revision_pull where
  "no_pull = \<lparr>pl_has_update = False, pl_desired_revision = 0, pl_lease = None, pl_snapshot = None, pl_verified_digest = []\<rparr>"

text \<open>
  \<open>reportDatasetPreparationFailure\<close>: the client starts the lease under a generation of its own and reports
  it failed; neither reaches the journal.
\<close>

definition report_dataset_preparation_failure :: "sync_env \<Rightarrow> revision_lease \<Rightarrow> (sync_world, sync_errors) state" where
  "report_dataset_preparation_failure env l = do {
     let g = ''dataset-prepare-'' @ sy_lease_hash env (le_lease_id l);
     e \<leftarrow> client_send env (SentStart l g [] []);
     if e \<noteq> [] then State_Monad.return e
     else client_send env (SentFailed l g ''dataset-prepare-failed'' ''dataset artifact preparation failed'')
   }"

text \<open>\<open>PullRevision\<close>: an error, the checked answer of the panel, or a lease whose datasets it cannot prepare.\<close>

definition pull_call :: "sync_env \<Rightarrow> (sync_world, sync_errors \<times> revision_pull) state" where
  "pull_call env = do {
     (e, p, failed) \<leftarrow> call env ([CallFailed], no_pull, None)
       (\<lambda>n w. ((call_errors env n, sy_pull env n, sy_dataset_failure env n), w));
     if e \<noteq> [] then State_Monad.return (e, p)
     else case failed of
       None \<Rightarrow> State_Monad.return ([], p)
     | Some l \<Rightarrow> do {
         e \<leftarrow> report_dataset_preparation_failure env l;
         State_Monad.return (DatasetFailed # e, no_pull)
       }
   }"

definition sync_pull :: "sync_env \<Rightarrow> sync_errors \<Rightarrow> agent_snapshot \<Rightarrow> generation_journal \<Rightarrow> (sync_world, sync_errors) state" where
  "sync_pull env ack heartbeat j = do {
     (e, p) \<leftarrow> pull_call env;
     if e \<noteq> [] then record_sync_error env (ack @ e)
     else if \<not> pl_has_update p then sync_no_update env ack heartbeat
     else do {
       t \<leftarrow> now_is env;
       case validate_revision_pull t p of
         None \<Rightarrow> record_runtime_error env [InvalidPull]
       | Some (l, s, d) \<Rightarrow>
           (case revision_activation_snapshot heartbeat s of
              None \<Rightarrow> clear_last_sync_error_after_successful_sync env
            | Some activation \<Rightarrow> do {
                e \<leftarrow> ensure_pending_update env activation;
                if StagePending \<in> set e then clear_last_sync_error_after_successful_sync env
                else if e \<noteq> [] then record_runtime_error env e
                else sync_offer env heartbeat activation j l s d
              })
     }
   }"

definition sync_heartbeat :: "sync_env \<Rightarrow> (string \<times> string) list \<Rightarrow> sync_errors \<Rightarrow> generation_journal \<Rightarrow> (sync_world, sync_errors) state" where
  "sync_heartbeat env metas ack j = do {
     (e, heartbeat) \<leftarrow> heartbeat_call env;
     if e \<noteq> [] then record_sync_error env (ack @ e)
     else do {
       e \<leftarrow> commit_heartbeat_traffic_runtime env heartbeat;
       if e \<noteq> [] then record_runtime_error env (ack @ e)
       else do {
         e \<leftarrow> (if metas = [] then State_Monad.return [] else persist_runtime_metadata env metas);
         if e \<noteq> [] then record_runtime_error env e
         else do {
           e \<leftarrow> ensure_pending_update env heartbeat;
           if StagePending \<in> set e then
             (if ack \<noteq> [] then record_runtime_error env ack else clear_last_sync_error_after_successful_sync env)
           else if e \<noteq> [] then record_runtime_error env (ack @ e)
           else sync_pull env ack heartbeat j
         }
       }
     }
   }"

definition perform_revision_sync_plan :: "sync_env \<Rightarrow> (string \<times> string) list \<Rightarrow> (sync_world, sync_errors) state" where
  "perform_revision_sync_plan env metas = do {
     e \<leftarrow> restore_durable_revision_runtime env;
     if e \<noteq> [] then record_runtime_error env e
     else do {
       (e, j) \<leftarrow> load env sw_journal;
       if e \<noteq> [] then record_runtime_error env e
       else if \<not> validate_generation_journal j then record_runtime_error env [InvalidJournal]
       else do {
         e \<leftarrow> authorize_journal_plugin_log_retirements env j;
         if e \<noteq> [] then record_runtime_error env e
         else do {
           (ack, j1) \<leftarrow> recover_active_revision_acknowledgement env j;
           (e, j2) \<leftarrow> (if ack = [] then report_completed_generation_drains env j1 else State_Monad.return ([], j1));
           if e \<noteq> [] then record_runtime_error env e else sync_heartbeat env metas ack j2
         }
       }
     }
   }"

end
