(* ===== verification/SyncProtocol.thy ===== *)
theory SyncProtocol
  imports SyncPlan
begin

text \<open>
  The protocol that the agent's revision sync follows, as a step relation on what is durable, what the
  process holds and what was sent: which journal writes are allowed after which, and when each message
  may be sent. Its invariant gives the promises of the sync; that every round of the program is a
  sequence of protocol steps is proved in \<open>SyncRefine\<close>.
\<close>

subsection \<open>The state of the protocol\<close>

record agent_core =
  ac_journal :: generation_journal
  ac_good :: agent_snapshot
  ac_applied :: agent_snapshot
  ac_runtime :: agent_runtime
  ac_sent :: "agent_message list"

definition core :: "sync_world \<Rightarrow> agent_core" where
  "core w = \<lparr>ac_journal = sw_journal w, ac_good = sw_last_known_good w, ac_applied = sw_applied w,
     ac_runtime = sw_runtime w, ac_sent = sw_sent w\<rparr>"

type_synonym lease_key = "string \<times> int \<times> int \<times> int \<times> string"

definition lease_key :: "revision_lease \<Rightarrow> lease_key" where
  "lease_key l = (le_agent_id l, le_revision l, le_retry_cycle l, le_attempt l, le_lease_id l)"

fun start_key :: "agent_message \<Rightarrow> lease_key option" where
  "start_key (SentStart l g i h) = Some (lease_key l)"
| "start_key _ = None"

fun applied_key :: "agent_message \<Rightarrow> lease_key option" where
  "applied_key (SentApplied l g) = Some (lease_key l)"
| "applied_key _ = None"

fun failed_key :: "agent_message \<Rightarrow> lease_key option" where
  "failed_key (SentFailed l g code message) = Some (lease_key l)"
| "failed_key _ = None"

definition start_keys :: "agent_message list \<Rightarrow> lease_key list" where
  "start_keys sent = List.map_filter start_key sent"

definition applied_keys :: "agent_message list \<Rightarrow> lease_key list" where
  "applied_keys sent = List.map_filter applied_key sent"

definition failed_keys :: "agent_message list \<Rightarrow> lease_key list" where
  "failed_keys sent = List.map_filter failed_key sent"

definition lease_started :: "revision_lease \<Rightarrow> agent_message list \<Rightarrow> bool" where
  "lease_started l sent \<longleftrightarrow> lease_key l \<in> set (start_keys sent)"

text \<open>Whatever is reported for a lease was preceded by its start.\<close>

fun outcome_lease :: "agent_message \<Rightarrow> revision_lease option" where
  "outcome_lease (SentStart l g i h) = None"
| "outcome_lease (SentApplied l g) = Some l"
| "outcome_lease (SentFailed l g code message) = Some l"
| "outcome_lease (SentDrain l g d) = Some l"

definition outcomes_follow_starts :: "agent_message list \<Rightarrow> bool" where
  "outcomes_follow_starts sent \<longleftrightarrow> (\<forall>i < length sent. \<forall>l. outcome_lease (sent ! i) = Some l \<longrightarrow> lease_started l (take i sent))"

text \<open>The identity of a generation never changes; its report flags only rise.\<close>

definition same_generation :: "generation_record \<Rightarrow> generation_record \<Rightarrow> bool" where
  "same_generation r r' \<longleftrightarrow> gr_generation_id r' = gr_generation_id r \<and> gr_revision r' = gr_revision r \<and>
     gr_snapshot_digest r' = gr_snapshot_digest r \<and> gr_lease r' = gr_lease r \<and>
     (runtime_identity_ok r \<longrightarrow> runtime_identity_ok r')"

definition advances :: "generation_record \<Rightarrow> generation_record \<Rightarrow> bool" where
  "advances r r' \<longleftrightarrow> same_generation r r' \<and> gr_phase r' = gr_phase r \<and>
     (gr_acknowledged r \<longrightarrow> gr_acknowledged r') \<and> (gr_report_rejected r \<longrightarrow> gr_report_rejected r')"

fun phase_rank :: "generation_phase \<Rightarrow> nat" where
  "phase_rank PhPrepared = 0"
| "phase_rank PhStarting = 1"
| "phase_rank PhStarted = 2"
| "phase_rank PhCutover = 3"
| "phase_rank PhFailed = 4"
| "phase_rank PhActive = 5"
| "phase_rank (PhOther p) = 6"

text \<open>An active record that says its report was resolved was reported.\<close>

definition reported_applied :: "agent_message list \<Rightarrow> generation_record \<Rightarrow> bool" where
  "reported_applied sent a \<longleftrightarrow> (gr_acknowledged a \<or> gr_report_rejected a \<longrightarrow>
     SentApplied (gr_lease a) (gr_generation_id a) \<in> set sent)"

definition fresh_candidate :: "agent_core \<Rightarrow> generation_record \<Rightarrow> bool" where
  "fresh_candidate c r \<longleftrightarrow> gr_phase r = PhPrepared \<and> le_revision (gr_lease r) = gr_revision r \<and> runtime_identity_ok r \<and>
     \<not> blank (gr_snapshot_digest r) \<and> (\<forall>x \<in> set (journal_records (ac_journal c)). gr_revision x \<le> gr_revision r) \<and>
     as_revision (ac_good c) \<le> gr_revision r \<and>
     validate_immutable_revision_digest (ac_journal c) (gr_revision r) (gr_snapshot_digest r) \<and>
     \<not> lease_started (gr_lease r) (ac_sent c)"

text \<open>The candidate of the next journal: a new one, or the old one further on.\<close>

definition candidate_moves :: "agent_core \<Rightarrow> generation_record option \<Rightarrow> bool" where
  "candidate_moves c x1 =
     (case x1 of
        None \<Rightarrow> gj_candidate (ac_journal c) = None
      | Some r \<Rightarrow> candidate_phase (gr_phase r) \<and> \<not> gr_report_rejected r \<and>
          (gr_phase r \<in> {PhPrepared, PhStarting} \<or> lease_started (gr_lease r) (ac_sent c)) \<and> (fresh_candidate c r \<or>
          (\<exists>x. gj_candidate (ac_journal c) = Some x \<and> same_generation x r \<and> phase_rank (gr_phase x) \<le> phase_rank (gr_phase r))))"

text \<open>A journal write that leaves the active generation in place.\<close>

definition journal_moves :: "agent_core \<Rightarrow> generation_journal \<Rightarrow> bool" where
  "journal_moves c j' \<longleftrightarrow> (let j = ac_journal c in
     (gj_version j' = 1 \<or> j' = j) \<and>
     rel_option advances (gj_active j) (gj_active j') \<and>
     (\<forall>a. gj_active j' = Some a \<longrightarrow> reported_applied (ac_sent c) a) \<and>
     rel_option advances (gj_last_known_good j) (gj_last_known_good j') \<and>
     set (gj_draining j') \<subseteq> set (gj_draining j) \<and>
     candidate_moves c (gj_candidate j'))"

text \<open>The candidate becomes the active generation.\<close>

definition journal_activates :: "agent_core \<Rightarrow> generation_journal \<Rightarrow> bool" where
  "journal_activates c j' \<longleftrightarrow> (let j = ac_journal c in
     gj_version j' = 1 \<and>
     (\<exists>x a. gj_candidate j = Some x \<and> gr_phase x \<in> {PhStarted, PhCutover} \<and> same_generation x a \<and> gr_phase a = PhActive \<and>
        \<not> gr_acknowledged a \<and> \<not> gr_report_rejected a \<and> as_revision (ac_good c) = gr_revision a \<and>
        gj_active j' = Some a \<and> gj_last_known_good j' = Some a \<and> gj_candidate j' = None \<and>
        (\<exists>p. rel_option advances (gj_active j) p \<and> gj_draining j' = append_draining_generation (gj_draining j) p a)))"

inductive protocol_step :: "agent_core \<Rightarrow> agent_core \<Rightarrow> bool" where
  runtime: "protocol_step c (c\<lparr>ac_runtime := r\<rparr>)"
| applied: "protocol_step c (c\<lparr>ac_applied := s\<rparr>)"
| good: "gj_candidate (ac_journal c) = Some x \<Longrightarrow> gr_phase x \<in> {PhStarted, PhCutover} \<Longrightarrow> as_revision s = gr_revision x \<Longrightarrow>
    protocol_step c (c\<lparr>ac_good := s\<rparr>)"
| moves: "journal_moves c j' \<Longrightarrow> protocol_step c (c\<lparr>ac_journal := j'\<rparr>)"
| activates: "journal_activates c j' \<Longrightarrow> protocol_step c (c\<lparr>ac_journal := j'\<rparr>)"
| sends_start: "gj_candidate (ac_journal c) = Some x \<Longrightarrow> gr_phase x = PhStarting \<Longrightarrow>
    lease_key (gr_lease x) = lease_key l \<Longrightarrow>
    \<not> lease_started l (ac_sent c) \<Longrightarrow> protocol_step c (c\<lparr>ac_sent := ac_sent c @ [SentStart l g i h]\<rparr>)"
| sends_applied: "gj_active (ac_journal c) = Some a \<Longrightarrow> advances a a' \<Longrightarrow>
    protocol_step c (c\<lparr>ac_sent := ac_sent c @ [SentApplied (gr_lease a') (gr_generation_id a')]\<rparr>)"
| sends_failed: "gj_candidate (ac_journal c) = Some x \<Longrightarrow> gr_phase x = PhFailed \<Longrightarrow>
    protocol_step c (c\<lparr>ac_sent := ac_sent c @ [SentFailed (gr_lease x) (gr_generation_id x) code message]\<rparr>)"
| sends_drain: "gj_active (ac_journal c) = Some a0 \<Longrightarrow> advances a0 a \<Longrightarrow> gr_acknowledged a \<Longrightarrow> reported_applied (ac_sent c) a \<Longrightarrow>
    p \<in> set (gj_draining (ac_journal c)) \<Longrightarrow> \<not> gr_report_rejected p \<Longrightarrow>
    completed_runtime_drain (generation_drain_snapshot (ac_runtime c)) p a = Some d \<Longrightarrow>
    protocol_step c (c\<lparr>ac_sent := ac_sent c @ [SentDrain (gr_lease a) (gr_generation_id p) d]\<rparr>)"

text \<open>
  What holds in every state of the protocol. Of the journal: it is valid, no revision has two digests, the
  candidate is the newest generation. Of the log: no lease was started twice, outcomes follow starts,
  and no lease was reported both applied and failed.
\<close>

definition records_agree :: "generation_journal \<Rightarrow> bool" where
  "records_agree j \<longleftrightarrow> (\<forall>r \<in> set (journal_records j). \<forall>r' \<in> set (journal_records j). gr_revision r = gr_revision r' \<longrightarrow>
     equal_fold (gr_snapshot_digest r) (gr_snapshot_digest r'))"

definition record_ok :: "generation_record \<Rightarrow> bool" where
  "record_ok r \<longleftrightarrow> \<not> blank (gr_snapshot_digest r) \<and> le_revision (gr_lease r) = gr_revision r"

definition journal_inv :: "generation_journal \<Rightarrow> bool" where
  "journal_inv j \<longleftrightarrow> validate_generation_journal j \<and> records_agree j \<and> list_all record_ok (journal_records j) \<and>
     (gj_active j = None \<longrightarrow> gj_draining j = [] \<and> gj_last_known_good j = None)"

definition candidate_inv :: "agent_core \<Rightarrow> generation_record \<Rightarrow> bool" where
  "candidate_inv c x \<longleftrightarrow> (\<forall>r \<in> set (journal_records (ac_journal c)). gr_revision r \<le> gr_revision x) \<and>
     as_revision (ac_good c) \<le> gr_revision x \<and> \<not> gr_report_rejected x \<and>
     (gr_phase x = PhPrepared \<longrightarrow> \<not> lease_started (gr_lease x) (ac_sent c)) \<and>
     (gr_phase x \<in> {PhPrepared, PhStarting} \<or> lease_started (gr_lease x) (ac_sent c)) \<and>
     (lease_key (gr_lease x) \<in> set (failed_keys (ac_sent c)) \<longrightarrow> gr_phase x = PhFailed) \<and>
     lease_key (gr_lease x) \<notin> set (applied_keys (ac_sent c)) \<and>
     (\<forall>a. gj_active (ac_journal c) = Some a \<longrightarrow> lease_key (gr_lease x) \<noteq> lease_key (gr_lease a))"

definition active_inv :: "agent_core \<Rightarrow> generation_record \<Rightarrow> bool" where
  "active_inv c a \<longleftrightarrow> reported_applied (ac_sent c) a \<and> gr_revision a \<le> as_revision (ac_good c) \<and>
     lease_started (gr_lease a) (ac_sent c) \<and> lease_key (gr_lease a) \<notin> set (failed_keys (ac_sent c)) \<and>
     (\<exists>g. gj_last_known_good (ac_journal c) = Some g \<and> gr_revision g = gr_revision a)"

definition log_inv :: "agent_message list \<Rightarrow> bool" where
  "log_inv sent \<longleftrightarrow> distinct (start_keys sent) \<and> outcomes_follow_starts sent \<and>
     set (applied_keys sent) \<inter> set (failed_keys sent) = {}"

definition core_inv :: "agent_core \<Rightarrow> bool" where
  "core_inv c \<longleftrightarrow> journal_inv (ac_journal c) \<and> log_inv (ac_sent c) \<and>
     (\<forall>x. gj_candidate (ac_journal c) = Some x \<longrightarrow> candidate_inv c x) \<and>
     (\<forall>a. gj_active (ac_journal c) = Some a \<longrightarrow> active_inv c a)"

end
