(* ===== verification/SyncInv.thy ===== *)
theory SyncInv
  imports SyncProtocol
begin

text \<open>The invariant of the sync protocol, step by step.\<close>

subsection \<open>Logs\<close>

named_theorems log_simps \<open>the key lists of a log\<close>

lemma keys_append [log_simps]:
  "start_keys (xs @ ys) = start_keys xs @ start_keys ys"
  "applied_keys (xs @ ys) = applied_keys xs @ applied_keys ys"
  "failed_keys (xs @ ys) = failed_keys xs @ failed_keys ys"
  by (simp_all add: start_keys_def applied_keys_def failed_keys_def map_filter_def)

lemma keys_one [log_simps]:
  "start_keys [SentStart l g i h] = [lease_key l]" "start_keys [SentApplied l g] = []"
  "start_keys [SentFailed l g e t] = []" "start_keys [SentDrain l g d] = []"
  "applied_keys [SentStart l g i h] = []" "applied_keys [SentApplied l g] = [lease_key l]"
  "applied_keys [SentFailed l g e t] = []" "applied_keys [SentDrain l g d] = []"
  "failed_keys [SentStart l g i h] = []" "failed_keys [SentApplied l g] = []"
  "failed_keys [SentFailed l g e t] = [lease_key l]" "failed_keys [SentDrain l g d] = []"
  by (simp_all add: start_keys_def applied_keys_def failed_keys_def map_filter_def lease_key_def)

lemma keys_nil [log_simps]: "start_keys [] = []" "applied_keys [] = []" "failed_keys [] = []"
  by (simp_all add: start_keys_def applied_keys_def failed_keys_def)

lemma started_append [log_simps]: "lease_started l (xs @ ys) \<longleftrightarrow> lease_started l xs \<or> lease_started l ys"
  by (auto simp: lease_started_def log_simps)

lemma started_one [log_simps]:
  "lease_started l [SentStart l' g i h] \<longleftrightarrow> lease_key l = lease_key l'" "\<not> lease_started l [SentApplied l' g]"
  "\<not> lease_started l [SentFailed l' g e t]" "\<not> lease_started l [SentDrain l' g d]" "\<not> lease_started l []"
  by (auto simp: lease_started_def log_simps)

lemma started_cong: "lease_key l = lease_key l' \<Longrightarrow> lease_started l sent = lease_started l' sent"
  by (simp add: lease_started_def)

lemma outcomes_follow_starts_nil [log_simps]: "outcomes_follow_starts []"
  by (simp add: outcomes_follow_starts_def)

lemma outcomes_follow_starts_snoc [log_simps]:
  "outcomes_follow_starts (sent @ [m]) \<longleftrightarrow>
     outcomes_follow_starts sent \<and> (\<forall>l. outcome_lease m = Some l \<longrightarrow> lease_started l sent)"
  by (auto simp: outcomes_follow_starts_def nth_append less_Suc_eq all_conj_distrib)

text \<open>A verdict presupposes a start.\<close>

lemma verdict_started:
  assumes "outcomes_follow_starts sent"
  shows "set (applied_keys sent) \<union> set (failed_keys sent) \<subseteq> set (start_keys sent)"
  using assms
proof (induction sent rule: rev_induct)
  case (snoc m sent)
  then show ?case by (cases m) (auto simp: log_simps lease_started_def)
qed (simp add: log_simps)

subsection \<open>Records\<close>

lemma equal_fold_sym: "equal_fold s t \<Longrightarrow> equal_fold t s"
  by (simp add: equal_fold_def)

lemma equal_fold_trans: "equal_fold s t \<Longrightarrow> equal_fold t u \<Longrightarrow> equal_fold s u"
  by (simp add: equal_fold_def)

lemma same_generation_refl [simp]: "same_generation r r"
  by (simp add: same_generation_def)

lemma same_generation_trans: "same_generation r s \<Longrightarrow> same_generation s t \<Longrightarrow> same_generation r t"
  by (simp add: same_generation_def)

lemma advances_refl [simp]: "advances r r"
  by (simp add: advances_def)

lemma advances_trans: "advances r s \<Longrightarrow> advances s t \<Longrightarrow> advances r t"
  by (simp add: advances_def same_generation_def)

lemma advances_same: "advances r s \<Longrightarrow> same_generation r s"
  by (simp add: advances_def)

text \<open>What the invariant reads of a record that is another state of the same generation.\<close>

lemma same_generation_simps:
  assumes "same_generation r r'"
  shows "gr_revision r' = gr_revision r" "gr_snapshot_digest r' = gr_snapshot_digest r" "gr_lease r' = gr_lease r"
    "gr_generation_id r' = gr_generation_id r" "record_ok r \<Longrightarrow> record_ok r'"
  using assms by (auto simp: same_generation_def record_ok_def)

text \<open>A journal whose records are all states of the generations of another.\<close>

definition covers :: "generation_journal \<Rightarrow> generation_journal \<Rightarrow> bool" where
  "covers j j' \<longleftrightarrow> (\<forall>r' \<in> set (journal_records j'). \<exists>r \<in> set (journal_records j). same_generation r r')"

lemma journal_records_iff:
  "r \<in> set (journal_records j) \<longleftrightarrow>
     gj_active j = Some r \<or> gj_last_known_good j = Some r \<or> gj_candidate j = Some r \<or> r \<in> set (gj_draining j)"
  by (auto simp: journal_records_def map_filter_def split: option.splits)

lemma covers_iff:
  "covers j j' \<longleftrightarrow>
     (\<forall>r'. r' \<in> set (journal_records j') \<longrightarrow> (\<exists>r. r \<in> set (journal_records j) \<and> same_generation r r'))"
  by (auto simp: covers_def)

lemma covers_records_agree: "covers j j' \<Longrightarrow> records_agree j \<Longrightarrow> records_agree j'"
  unfolding records_agree_def
proof (intro ballI impI)
  fix r s assume c: "covers j j'" "r \<in> set (journal_records j')" "s \<in> set (journal_records j')" "gr_revision r = gr_revision s"
    and agree: "\<forall>r\<in>set (journal_records j). \<forall>s\<in>set (journal_records j). gr_revision r = gr_revision s \<longrightarrow>
      equal_fold (gr_snapshot_digest r) (gr_snapshot_digest s)"
  then obtain r0 s0 where "r0 \<in> set (journal_records j)" "same_generation r0 r" "s0 \<in> set (journal_records j)"
    "same_generation s0 s"
    unfolding covers_def by blast
  then show "equal_fold (gr_snapshot_digest r) (gr_snapshot_digest s)"
    using agree c(4) by (simp add: same_generation_simps(1,2))
qed

lemma covers_record_ok: "covers j j' \<Longrightarrow> list_all record_ok (journal_records j) \<Longrightarrow> list_all record_ok (journal_records j')"
  unfolding covers_def list_all_iff by (metis same_generation_simps(5))

lemma covers_identity:
  "covers j j' \<Longrightarrow> list_all runtime_identity_ok (journal_records j) \<Longrightarrow> list_all runtime_identity_ok (journal_records j')"
  unfolding covers_def list_all_iff same_generation_def by blast

lemma append_draining_subset:
  "r \<in> set (append_draining_generation ds p a) \<Longrightarrow> r \<in> set ds \<or> p = Some r \<and> gr_revision r < gr_revision a"
proof (cases p)
  case (Some q)
  assume "r \<in> set (append_draining_generation ds p a)"
  then show ?thesis
    using set_update_subset_insert [of ds "length (takeWhile (\<lambda>x. gr_generation_id x \<noteq> gr_generation_id q) ds)" q]
    by (auto simp: append_draining_generation_def Some simp del: list_update_beyond split: if_split_asm)
qed (simp add: append_draining_generation_def)

subsection \<open>Journal writes\<close>

lemma rel_advances_iff:
  "rel_option advances p q \<longleftrightarrow> (p = None \<and> q = None) \<or> (\<exists>r s. p = Some r \<and> q = Some s \<and> advances r s)"
  by (cases p; cases q) auto

lemma valid_phases:
  assumes "validate_generation_journal j"
  shows "gj_active j = Some a \<Longrightarrow> gr_phase a = PhActive" "gj_last_known_good j = Some g \<Longrightarrow> gr_phase g = PhActive"
    "gj_candidate j = Some x \<Longrightarrow> candidate_phase (gr_phase x)" "r \<in> set (gj_draining j) \<Longrightarrow> gr_phase r = PhActive"
    "r \<in> set (journal_records j) \<Longrightarrow> runtime_identity_ok r"
    "gj_active j = Some a \<Longrightarrow> r \<in> set (gj_draining j) \<Longrightarrow> gr_revision r < gr_revision a"
  using assms by (auto simp: validate_generation_journal_def list_all_iff split: if_splits option.splits
    simp: journal_records_def)

text \<open>The records that a move keeps, and the candidate apart.\<close>

lemma moves_covers:
  assumes "journal_moves c j'"
  shows "covers (ac_journal c) (j'\<lparr>gj_candidate := None\<rparr>)"
  using assms
proof -
  have a: "rel_option advances (gj_active (ac_journal c)) (gj_active j')"
    and l: "rel_option advances (gj_last_known_good (ac_journal c)) (gj_last_known_good j')"
    and d: "set (gj_draining j') \<subseteq> set (gj_draining (ac_journal c))"
    using assms by (auto simp: journal_moves_def candidate_moves_def Let_def)
  show ?thesis
    unfolding covers_iff
  proof (intro allI impI)
    fix r assume "r \<in> set (journal_records (j'\<lparr>gj_candidate := None\<rparr>))"
    then consider "gj_active j' = Some r" | "gj_last_known_good j' = Some r" | "r \<in> set (gj_draining j')"
      by (auto simp: journal_records_iff)
    then show "\<exists>r'. r' \<in> set (journal_records (ac_journal c)) \<and> same_generation r' r"
      using a l d by cases (auto simp: rel_advances_iff journal_records_iff dest: advances_same intro: same_generation_refl)
  qed
qed

lemma moves_cases:
  assumes "journal_moves c j'"
  obtains "covers (ac_journal c) j'" | r where "gj_candidate j' = Some r" "fresh_candidate c r"
proof (cases "gj_candidate j'")
  case None
  then have "j'\<lparr>gj_candidate := None\<rparr> = j'" by simp
  then show thesis using moves_covers [OF assms] that by simp
next
  case (Some r)
  then consider "fresh_candidate c r" | x where "gj_candidate (ac_journal c) = Some x" "same_generation x r"
    using assms by (auto simp: journal_moves_def candidate_moves_def Let_def)
  then show thesis
  proof cases
    case 2
    then have "covers (ac_journal c) j'"
      using moves_covers [OF assms] Some by (auto simp: covers_iff journal_records_iff)
    then show thesis using that by blast
  qed (use Some that in blast)
qed

lemma journal_inv_covers:
  assumes "covers j j'" "journal_inv j" "validate_generation_journal j'"
    "gj_active j' = None \<longrightarrow> gj_draining j' = [] \<and> gj_last_known_good j' = None"
  shows "journal_inv j'"
  using assms covers_records_agree covers_record_ok by (simp add: journal_inv_def)

lemma fresh_journal_inv:
  assumes "gj_candidate j' = Some r" "covers (ac_journal c) (j'\<lparr>gj_candidate := None\<rparr>)" "journal_inv (ac_journal c)"
    "fresh_candidate c r" "validate_generation_journal j'"
    "gj_active j' = None \<longrightarrow> gj_draining j' = [] \<and> gj_last_known_good j' = None"
  shows "journal_inv j'"
proof -
  let ?k = "j'\<lparr>gj_candidate := None\<rparr>"
  have mem: "s \<in> set (journal_records j') \<longleftrightarrow> s = r \<or> s \<in> set (journal_records ?k)" for s
    using assms(1) by (auto simp: journal_records_iff)
  have k: "records_agree ?k" "list_all record_ok (journal_records ?k)"
    using assms(2,3) covers_records_agree covers_record_ok by (auto simp: journal_inv_def)
  have old: "equal_fold (gr_snapshot_digest s) (gr_snapshot_digest r)"
    if s: "s \<in> set (journal_records ?k)" "gr_revision s = gr_revision r" for s
  proof -
    obtain s0 where s0: "s0 \<in> set (journal_records (ac_journal c))" "same_generation s0 s"
      using assms(2) s(1) unfolding covers_def by blast
    have "\<not> blank (gr_snapshot_digest s0)"
      using assms(3) s0(1) by (simp add: journal_inv_def list_all_iff record_ok_def)
    then show ?thesis
      using assms(4) s0 s(2)
      by (auto simp: fresh_candidate_def validate_immutable_revision_digest_def list_all_iff same_generation_simps(1,2))
  qed
  have "records_agree j'"
    unfolding records_agree_def mem
  proof (intro allI impI ballI)
    fix s t assume "s \<in> set (journal_records j')" "t \<in> set (journal_records j')" "gr_revision s = gr_revision t"
    then show "equal_fold (gr_snapshot_digest s) (gr_snapshot_digest t)"
      using k(1) old [of s] old [of t] by (auto simp: mem records_agree_def intro: equal_fold_sym)
  qed
  moreover have "list_all record_ok (journal_records j')"
    using k(2) assms(4) mem by (auto simp: list_all_iff fresh_candidate_def record_ok_def)
  ultimately show ?thesis
    using assms(5,6) by (simp add: journal_inv_def)
qed

lemma moves_valid:
  assumes "journal_moves c j'" "journal_inv (ac_journal c)"
  shows "validate_generation_journal j'"
    "gj_active j' = None \<longrightarrow> gj_draining j' = [] \<and> gj_last_known_good j' = None"
proof -
  let ?j = "ac_journal c"
  have v: "validate_generation_journal ?j"
    and e: "gj_active ?j = None \<longrightarrow> gj_draining ?j = [] \<and> gj_last_known_good ?j = None"
    using assms(2) by (auto simp: journal_inv_def)
  have a: "rel_option advances (gj_active ?j) (gj_active j')"
    and l: "rel_option advances (gj_last_known_good ?j) (gj_last_known_good j')"
    and d: "set (gj_draining j') \<subseteq> set (gj_draining ?j)"
    using assms(1) by (auto simp: journal_moves_def candidate_moves_def Let_def)
  show "gj_active j' = None \<longrightarrow> gj_draining j' = [] \<and> gj_last_known_good j' = None"
    using e a l d by (auto simp: rel_advances_iff)
  show "validate_generation_journal j'"
  proof (cases "j' = ?j")
    case False
    then have ver: "gj_version j' = 1"
      using assms(1) by (auto simp: journal_moves_def candidate_moves_def Let_def)
    have c: "gj_candidate j' = Some r \<Longrightarrow> candidate_phase (gr_phase r)" for r
      using assms(1) by (auto simp: journal_moves_def candidate_moves_def Let_def)
    have "runtime_identity_ok r" if r: "r \<in> set (journal_records j')" for r
      using assms(1)
    proof (cases rule: moves_cases)
      case 1
      then show ?thesis
        using covers_identity [of ?j j'] valid_phases(5) [OF v] r by (simp add: list_all_iff)
    next
      case (2 s)
      then have "r = s \<or> r \<in> set (journal_records (j'\<lparr>gj_candidate := None\<rparr>))"
        using r by (auto simp: journal_records_iff)
      then show ?thesis
        using covers_identity [OF moves_covers [OF assms(1)]] valid_phases(5) [OF v] 2
        by (auto simp: list_all_iff fresh_candidate_def)
    qed
    then have ids: "list_all runtime_identity_ok (journal_records j')"
      by (simp add: list_all_iff)
    have act: "gj_active j' = Some b \<Longrightarrow> gr_phase b = PhActive" for b
      using a valid_phases(1) [OF v] by (auto simp: rel_advances_iff advances_def)
    have lkg: "gj_last_known_good j' = Some b \<Longrightarrow> gr_phase b = PhActive" for b
      using l valid_phases(2) [OF v] by (auto simp: rel_advances_iff advances_def)
    have dr: "r \<in> set (gj_draining j') \<Longrightarrow> gr_phase r = PhActive" for r
      using d valid_phases(4) [OF v] by auto
    have lt: "gj_active j' = Some b \<Longrightarrow> r \<in> set (gj_draining j') \<Longrightarrow> gr_revision r < gr_revision b" for r b
      using a d valid_phases(6) [OF v] by (auto simp: rel_advances_iff advances_def same_generation_def)
    show ?thesis
      using ver ids act lkg dr lt c
      by (auto simp: validate_generation_journal_def list_all_iff split: option.splits)
  qed (use v in simp)
qed

lemma moves_journal_inv:
  assumes "journal_moves c j'" "journal_inv (ac_journal c)"
  shows "journal_inv j'"
  using assms(1)
proof (cases rule: moves_cases)
  case 1
  then show ?thesis
    by (rule journal_inv_covers) (use assms moves_valid in auto)
next
  case (2 r)
  then show ?thesis
    by (rule fresh_journal_inv [OF _ moves_covers [OF assms(1)] assms(2)]) (use assms moves_valid in auto)
qed


text \<open>A move keeps what the invariant says of the candidate and of the active generation.\<close>

lemma moves_active_inv:
  assumes "journal_moves c j'" "core_inv c" "gj_active j' = Some a"
  shows "active_inv (c\<lparr>ac_journal := j'\<rparr>) a"
proof -
  let ?j = "ac_journal c"
  obtain b where b: "gj_active ?j = Some b" "advances b a" "reported_applied (ac_sent c) a"
    using assms(1,3) by (auto simp: journal_moves_def Let_def rel_advances_iff)
  then have i: "active_inv c b"
    using assms(2) by (simp add: core_inv_def)
  then obtain g where "gj_last_known_good ?j = Some g" "gr_revision g = gr_revision b"
    by (auto simp: active_inv_def)
  then obtain g' where "gj_last_known_good j' = Some g'" "gr_revision g' = gr_revision b"
    using assms(1) by (auto simp: journal_moves_def Let_def rel_advances_iff advances_def same_generation_def)
  then show ?thesis
    using i b by (auto simp: active_inv_def same_generation_simps [OF advances_same [OF b(2)]])
qed

lemma moves_records:
  assumes "journal_moves c j'" "r \<in> set (journal_records j')"
  obtains r0 where "r0 \<in> set (journal_records (ac_journal c))" "gr_revision r0 = gr_revision r"
  | "gj_candidate j' = Some r" "fresh_candidate c r"
  using assms(1)
proof (cases rule: moves_cases)
  case 1
  then show ?thesis
    using assms(2) that(1) unfolding covers_def by (metis same_generation_simps(1))
next
  case (2 x)
  then consider "r = x" | "r \<in> set (journal_records (j'\<lparr>gj_candidate := None\<rparr>))"
    using assms(2) by (auto simp: journal_records_iff)
  then show ?thesis
  proof cases
    case 2
    then show ?thesis
      using moves_covers [OF assms(1)] that(1) unfolding covers_def by (metis same_generation_simps(1))
  qed (use 2 that(2) in blast)
qed

lemma log_started:
  assumes "core_inv c" "\<not> lease_started l (ac_sent c)"
  shows "lease_key l \<notin> set (applied_keys (ac_sent c))" "lease_key l \<notin> set (failed_keys (ac_sent c))"
  using assms verdict_started [of "ac_sent c"] by (auto simp: core_inv_def log_inv_def lease_started_def)

lemma moves_candidate_inv:
  assumes "journal_moves c j'" "core_inv c" "gj_candidate j' = Some r"
  shows "candidate_inv (c\<lparr>ac_journal := j'\<rparr>) r"
proof -
  let ?j = "ac_journal c" and ?s = "ac_sent c"
  have phase: "gr_phase r \<in> {PhPrepared, PhStarting} \<or> lease_started (gr_lease r) ?s" and rej: "\<not> gr_report_rejected r"
    using assms(1,3) by (simp_all add: journal_moves_def candidate_moves_def Let_def)
  have act: "\<exists>b. gj_active ?j = Some b \<and> gr_lease b = gr_lease a" if "gj_active j' = Some a" for a
    using assms(1) that by (auto simp: journal_moves_def Let_def rel_advances_iff advances_def same_generation_def)
  consider "fresh_candidate c r" |
    x where "gj_candidate ?j = Some x" "same_generation x r" "phase_rank (gr_phase x) \<le> phase_rank (gr_phase r)"
    using assms(1,3) by (auto simp: journal_moves_def candidate_moves_def Let_def)
  then show ?thesis
  proof cases
    case 1
    have recs: "gr_revision s \<le> gr_revision r" if "s \<in> set (journal_records j')" for s
      using assms(1) that
    proof (cases rule: moves_records)
      case (1 r0)
      then show ?thesis using \<open>fresh_candidate c r\<close> by (auto simp: fresh_candidate_def)
    qed (use assms(3) in simp)
    have "\<not> lease_started (gr_lease r) ?s"
      using 1 by (simp add: fresh_candidate_def)
    moreover have "lease_started (gr_lease b) ?s" if "gj_active ?j = Some b" for b
      using assms(2) that by (simp add: core_inv_def active_inv_def)
    ultimately show ?thesis
      using 1 recs log_started [OF assms(2), of "gr_lease r"] act phase rej
      by (auto simp: candidate_inv_def fresh_candidate_def lease_started_def)
  next
    case 2
    have i: "candidate_inv c x"
      using assms(2) 2(1) by (simp add: core_inv_def)
    have cp: "candidate_phase (gr_phase r)"
      using assms(1,3) by (simp add: journal_moves_def candidate_moves_def Let_def)
    have recs: "gr_revision s \<le> gr_revision r" if "s \<in> set (journal_records j')" for s
      using assms(1) that
    proof (cases rule: moves_records)
      case (1 r0)
      then show ?thesis using i 2(2) by (auto simp: candidate_inv_def same_generation_simps(1))
    qed (use assms(3) in simp)
    have failed: "gr_phase r = PhFailed" if "gr_phase x = PhFailed"
      using 2(3) cp that by (cases "gr_phase r") (auto simp: candidate_phase_def)
    have prepared: "gr_phase x = PhPrepared" if "gr_phase r = PhPrepared"
      using 2(3) that by (cases "gr_phase x") auto
    have "gr_lease r = gr_lease x" "gr_revision r = gr_revision x"
      using 2(2) by (simp_all add: same_generation_def)
    then show ?thesis
      using i recs failed prepared phase rej act by (auto simp: candidate_inv_def)
  qed
qed

lemma moves_inv:
  assumes "journal_moves c j'" "core_inv c"
  shows "core_inv (c\<lparr>ac_journal := j'\<rparr>)"
  using assms moves_journal_inv moves_active_inv moves_candidate_inv by (simp add: core_inv_def)

text \<open>So does the activation of the candidate.\<close>

lemma activates_inv:
  assumes "journal_activates c j'" "core_inv c"
  shows "core_inv (c\<lparr>ac_journal := j'\<rparr>)"
proof -
  let ?j = "ac_journal c"
  obtain x a p where x: "gj_candidate ?j = Some x" "gr_phase x \<in> {PhStarted, PhCutover}" "same_generation x a"
    and a: "gr_phase a = PhActive" "\<not> gr_acknowledged a" "\<not> gr_report_rejected a" "as_revision (ac_good c) = gr_revision a"
    and j': "gj_active j' = Some a" "gj_last_known_good j' = Some a" "gj_candidate j' = None" "gj_version j' = 1"
    and p: "rel_option advances (gj_active ?j) p" "gj_draining j' = append_draining_generation (gj_draining ?j) p a"
    using assms(1) by (auto simp: journal_activates_def Let_def)
  have inv: "journal_inv ?j" "candidate_inv c x" "validate_generation_journal ?j"
    using assms(2) x(1) by (auto simp: core_inv_def journal_inv_def)
  have rev: "gr_revision r \<le> gr_revision a" if "r \<in> set (journal_records ?j)" for r
    using inv(2) that x(3) by (auto simp: candidate_inv_def same_generation_simps(1))
  have dr: "(\<exists>r0 \<in> set (journal_records ?j). same_generation r0 r) \<and> gr_phase r = PhActive \<and> gr_revision r < gr_revision a"
    if "r \<in> set (gj_draining j')" for r
    using append_draining_subset [OF that [unfolded p(2)]]
  proof
    assume r: "r \<in> set (gj_draining ?j)"
    then obtain b where b: "gj_active ?j = Some b"
      using inv(1) by (cases "gj_active ?j") (auto simp: journal_inv_def)
    then have "gr_revision r < gr_revision b" "gr_revision b \<le> gr_revision a"
      using valid_phases(6) [OF inv(3) b r] rev [of b] by (auto simp: journal_records_iff)
    then show ?thesis
      using r valid_phases(4) [OF inv(3) r] by (auto simp: journal_records_iff intro!: bexI [of _ r])
  next
    assume r: "p = Some r \<and> gr_revision r < gr_revision a"
    then obtain b where b: "gj_active ?j = Some b" "advances b r"
      using p(1) by (auto simp: rel_advances_iff)
    then show ?thesis
      using r valid_phases(1) [OF inv(3) b(1)] by (auto simp: journal_records_iff advances_def intro!: bexI [of _ b])
  qed
  have mem: "r \<in> set (journal_records j') \<longleftrightarrow> r = a \<or> r \<in> set (gj_draining j')" for r
    using j' by (auto simp: journal_records_iff)
  have cov: "covers ?j j'"
    unfolding covers_def mem Ball_def using dr x(1,3) journal_records_iff by blast
  have "list_all runtime_identity_ok (journal_records j')"
    using covers_identity [OF cov] valid_phases(5) [OF inv(3)] by (simp add: list_all_iff)
  then have "validate_generation_journal j'"
    using j' a(1) dr by (auto simp: validate_generation_journal_def list_all_iff)
  then have "journal_inv j'"
    using journal_inv_covers [OF cov inv(1)] j' by simp
  moreover have "active_inv (c\<lparr>ac_journal := j'\<rparr>) a"
    using inv(2) x a j' by (auto simp: active_inv_def candidate_inv_def reported_applied_def same_generation_simps)
  ultimately show ?thesis
    using assms(2) j' by (simp add: core_inv_def)
qed


subsection \<open>Steps\<close>

text \<open>A message that is not a start and brings no verdict that contradicts the log.\<close>

lemma sends_inv:
  assumes "core_inv c" and m: "start_key m = None" "\<And>l. outcome_lease m = Some l \<Longrightarrow> lease_started l (ac_sent c)"
    "\<And>l g. m = SentApplied l g \<Longrightarrow> (\<exists>a. gj_active (ac_journal c) = Some a \<and> gr_lease a = l)"
    "\<And>l g e t. m = SentFailed l g e t \<Longrightarrow>
       (\<exists>x. gj_candidate (ac_journal c) = Some x \<and> gr_phase x = PhFailed \<and> gr_lease x = l)"
  shows "core_inv (c\<lparr>ac_sent := ac_sent c @ [m]\<rparr>)"
proof -
  let ?j = "ac_journal c" and ?s = "ac_sent c"
  have i: "log_inv ?s" "\<And>x. gj_candidate ?j = Some x \<Longrightarrow> candidate_inv c x" "\<And>a. gj_active ?j = Some a \<Longrightarrow> active_inv c a"
    using assms(1) by (auto simp: core_inv_def)
  have st [simp]: "lease_started l (?s @ [m]) = lease_started l ?s" for l
    using m(1) by (cases m) (simp_all add: log_simps)
  have log: "log_inv (?s @ [m])"
  proof (cases m)
    case (SentApplied l g)
    then obtain a where "gj_active ?j = Some a" "gr_lease a = l"
      using m(3) by blast
    then have "lease_key l \<notin> set (failed_keys ?s)"
      using i(3) by (auto simp: active_inv_def)
    then show ?thesis using i(1) m SentApplied by (auto simp: log_inv_def log_simps)
  next
    case (SentFailed l g e t)
    then obtain x where "gj_candidate ?j = Some x" "gr_lease x = l"
      using m(4) by blast
    then have "lease_key l \<notin> set (applied_keys ?s)"
      using i(2) by (auto simp: candidate_inv_def)
    then show ?thesis using i(1) m SentFailed by (auto simp: log_inv_def log_simps)
  qed (use i(1) m in \<open>auto simp: log_inv_def log_simps\<close>)
  have cand: "candidate_inv (c\<lparr>ac_sent := ?s @ [m]\<rparr>) x" if x: "gj_candidate ?j = Some x" for x
  proof -
    have "lease_key (gr_lease x) \<in> set (failed_keys (?s @ [m])) \<longrightarrow> gr_phase x = PhFailed"
      using i(2) [OF x] m(4) x by (cases m) (auto simp: candidate_inv_def log_simps)
    moreover have "lease_key (gr_lease x) \<notin> set (applied_keys (?s @ [m]))"
      using i(2) [OF x] m(3) by (cases m) (fastforce simp: candidate_inv_def log_simps)+
    ultimately show ?thesis
      using i(2) [OF x] by (simp add: candidate_inv_def)
  qed
  have act: "active_inv (c\<lparr>ac_sent := ?s @ [m]\<rparr>) a" if a: "gj_active ?j = Some a" for a
  proof -
    have "lease_key (gr_lease a) \<notin> set (failed_keys (?s @ [m]))"
      using i(2,3) a m(4) by (cases m) (fastforce simp: active_inv_def candidate_inv_def log_simps)+
    then show ?thesis
      using i(3) [OF a] by (auto simp: active_inv_def reported_applied_def)
  qed
  show ?thesis
    using assms(1) log cand act by (simp add: core_inv_def)
qed

lemma sends_start_inv:
  assumes "core_inv c" "gj_candidate (ac_journal c) = Some x" "gr_phase x = PhStarting" "lease_key (gr_lease x) = lease_key l"
    "\<not> lease_started l (ac_sent c)"
  shows "core_inv (c\<lparr>ac_sent := ac_sent c @ [SentStart l g i h]\<rparr>)"
proof -
  have "candidate_inv c x" "log_inv (ac_sent c)"
    using assms(1,2) by (auto simp: core_inv_def)
  moreover have "active_inv (c\<lparr>ac_sent := ac_sent c @ [SentStart l g i h]\<rparr>) a" if "gj_active (ac_journal c) = Some a" for a
    using assms(1) that by (auto simp: core_inv_def active_inv_def reported_applied_def log_simps)
  ultimately show ?thesis
    using assms by (auto simp: core_inv_def candidate_inv_def log_inv_def log_simps lease_started_def)
qed

lemma active_lease_started:
  "core_inv c \<Longrightarrow> gj_active (ac_journal c) = Some a \<Longrightarrow> advances a b \<Longrightarrow> lease_started (gr_lease b) (ac_sent c)"
  by (auto simp: core_inv_def active_inv_def advances_def same_generation_def)

lemma good_inv:
  assumes "core_inv c" "gj_candidate (ac_journal c) = Some x" "as_revision s = gr_revision x"
  shows "core_inv (c\<lparr>ac_good := s\<rparr>)"
  using assms by (auto simp: core_inv_def candidate_inv_def active_inv_def journal_records_iff)

theorem protocol_step_inv:
  assumes "protocol_step c c'" "core_inv c"
  shows "core_inv c'"
  using assms
proof cases
  case runtime
  then show ?thesis using assms(2) by (simp add: core_inv_def candidate_inv_def active_inv_def)
next
  case applied
  then show ?thesis using assms(2) by (simp add: core_inv_def candidate_inv_def active_inv_def)
next
  case (sends_applied a a' )
  show ?thesis
    unfolding sends_applied(1)
    by (rule sends_inv [OF assms(2)])
      (use sends_applied active_lease_started [OF assms(2)] in \<open>auto simp: advances_def same_generation_def\<close>)
next
  case (sends_failed x code message)
  have "lease_started (gr_lease x) (ac_sent c)"
    using assms(2) sends_failed by (auto simp: core_inv_def candidate_inv_def)
  then show ?thesis
    unfolding sends_failed(1) by (intro sends_inv [OF assms(2)]) (use sends_failed in auto)
next
  case (sends_drain a0 a p d)
  show ?thesis
    unfolding sends_drain(1)
    by (rule sends_inv [OF assms(2)]) (use sends_drain active_lease_started [OF assms(2)] in auto)
qed (use assms(2) good_inv moves_inv activates_inv sends_start_inv in auto)

lemma protocol_steps_inv: "protocol_step\<^sup>*\<^sup>* c c' \<Longrightarrow> core_inv c \<Longrightarrow> core_inv c'"
  by (induction rule: rtranclp_induct) (auto intro: protocol_step_inv)

subsection \<open>Revisions only grow\<close>

definition core_newer :: "agent_core \<Rightarrow> agent_core \<Rightarrow> bool" where
  "core_newer c c' \<longleftrightarrow> as_revision (ac_good c) \<le> as_revision (ac_good c') \<and>
     (\<forall>a. gj_active (ac_journal c) = Some a \<longrightarrow>
        (\<exists>b. gj_active (ac_journal c') = Some b \<and> gr_revision a \<le> gr_revision b)) \<and>
     (\<exists>ms. ac_sent c' = ac_sent c @ ms)"

lemma newer_refl: "core_newer c c"
  by (simp add: core_newer_def)

lemma newer_trans: "core_newer c d \<Longrightarrow> core_newer d e \<Longrightarrow> core_newer c e"
  by (fastforce simp: core_newer_def)

lemma activates_newer:
  assumes "journal_activates c j'" "core_inv c" "gj_active (ac_journal c) = Some a"
  shows "\<exists>b. gj_active j' = Some b \<and> gr_revision a \<le> gr_revision b"
proof -
  obtain x b where "gj_candidate (ac_journal c) = Some x" "same_generation x b" "gj_active j' = Some b"
    using assms(1) by (auto simp: journal_activates_def Let_def)
  then show ?thesis
    using assms(2,3) by (auto simp: core_inv_def candidate_inv_def journal_records_iff same_generation_def)
qed

lemma moves_newer:
  assumes "journal_moves c j'" "gj_active (ac_journal c) = Some a"
  shows "\<exists>b. gj_active j' = Some b \<and> gr_revision a \<le> gr_revision b"
  using assms by (auto simp: journal_moves_def Let_def rel_advances_iff advances_def same_generation_def)

lemma protocol_step_newer: "protocol_step c c' \<Longrightarrow> core_inv c \<Longrightarrow> core_newer c c'"
  by (induction rule: protocol_step.induct)
    (auto simp: core_newer_def moves_newer activates_newer, auto simp: core_inv_def candidate_inv_def)

lemma protocol_steps_newer: "protocol_step\<^sup>*\<^sup>* c c' \<Longrightarrow> core_inv c \<Longrightarrow> core_newer c c'"
  by (induction rule: rtranclp_induct)
    (auto intro: newer_refl newer_trans protocol_step_newer protocol_steps_inv)

end
