(* ===== verification/SyncHoare.thy ===== *)
theory SyncHoare
  imports SyncInv
begin

text \<open>
  Triples for the programs of the sync: from a state that satisfies a predicate, a program makes steps of
  the protocol, and unless the process dies on the way it ends with a result and a state that the
  postcondition relates. A dead process does nothing. Forward rules compute the postcondition of each call.
\<close>

named_theorems smooth_intros \<open>programs that leave the journal, the last known good snapshot and the log alone\<close>

subsection \<open>Triples\<close>

definition runs ::
  "(agent_core \<Rightarrow> bool) \<Rightarrow> (sync_world, 'a) state \<Rightarrow> ('a \<Rightarrow> agent_core \<Rightarrow> bool) \<Rightarrow> bool" where
  "runs p m q \<longleftrightarrow> (\<forall>w. (sw_dead w \<longrightarrow> snd (run_state m w) = w) \<and>
     (\<not> sw_dead w \<longrightarrow> core_inv (core w) \<longrightarrow> p (core w) \<longrightarrow>
        protocol_step\<^sup>*\<^sup>* (core w) (core (snd (run_state m w))) \<and>
        (sw_dead (snd (run_state m w)) \<or> q (fst (run_state m w)) (core (snd (run_state m w))))))"

lemma runsD:
  assumes "runs p m q"
  shows "sw_dead w \<Longrightarrow> snd (run_state m w) = w"
    "\<not> sw_dead w \<Longrightarrow> core_inv (core w) \<Longrightarrow> p (core w) \<Longrightarrow> protocol_step\<^sup>*\<^sup>* (core w) (core (snd (run_state m w)))"
    "\<not> sw_dead w \<Longrightarrow> core_inv (core w) \<Longrightarrow> p (core w) \<Longrightarrow> \<not> sw_dead (snd (run_state m w)) \<Longrightarrow>
       q (fst (run_state m w)) (core (snd (run_state m w)))"
  using assms by (auto simp: runs_def)

lemma runs_return: "(\<And>c. p c \<Longrightarrow> core_inv c \<Longrightarrow> q x c) \<Longrightarrow> runs p (State_Monad.return x) q"
  by (simp add: runs_def)

lemma runs_bind:
  assumes m: "runs p m q" and f: "\<And>x. runs (q x) (f x) r"
  shows "runs p (State_Monad.bind m f) r"
  unfolding runs_def
proof (intro allI conjI impI)
  fix w
  obtain x v where run: "run_state m w = (x, v)" by (cases "run_state m w")
  { assume "sw_dead w"
    then show "snd (run_state (State_Monad.bind m f) w) = w"
      using runsD(1) [OF m] runsD(1) [OF f] run by (metis case_prod_conv run_state_bind snd_conv) }
  assume w: "\<not> sw_dead w" "core_inv (core w)" "p (core w)"
  have steps: "protocol_step\<^sup>*\<^sup>* (core w) (core v)" and post: "sw_dead v \<or> q x (core v)"
    using runsD(2,3) [OF m w] run by auto
  have inv: "core_inv (core v)"
    using protocol_steps_inv [OF steps w(2)] .
  show "protocol_step\<^sup>*\<^sup>* (core w) (core (snd (run_state (State_Monad.bind m f) w)))"
    using steps post inv runsD(1) [OF f, of v x] runsD(2) [OF f, of v x] run
    by (cases "sw_dead v") (auto intro: rtranclp_trans)
  show "sw_dead (snd (run_state (State_Monad.bind m f) w)) \<or>
      r (fst (run_state (State_Monad.bind m f) w)) (core (snd (run_state (State_Monad.bind m f) w)))"
    using post inv runsD(1) [OF f, of v x] runsD(3) [OF f, of v x] run by (cases "sw_dead v") auto
qed

lemma runs_conseq:
  assumes "runs p m q" "\<And>c. p' c \<Longrightarrow> core_inv c \<Longrightarrow> p c" "\<And>x c. q x c \<Longrightarrow> core_inv c \<Longrightarrow> q' x c"
  shows "runs p' m q'"
  unfolding runs_def
proof (intro allI conjI impI)
  fix w
  show "sw_dead w \<Longrightarrow> snd (run_state m w) = w" by (rule runsD(1) [OF assms(1)])
  assume w: "\<not> sw_dead w" "core_inv (core w)" "p' (core w)"
  then have p: "p (core w)" using assms(2) by blast
  show steps: "protocol_step\<^sup>*\<^sup>* (core w) (core (snd (run_state m w)))"
    using runsD(2) [OF assms(1) w(1,2) p] .
  show "sw_dead (snd (run_state m w)) \<or> q' (fst (run_state m w)) (core (snd (run_state m w)))"
    using runsD(3) [OF assms(1) w(1,2) p] assms(3) protocol_steps_inv [OF steps w(2)] by blast
qed

lemma runs_pre: "runs p m q \<Longrightarrow> (\<And>c. p' c \<Longrightarrow> core_inv c \<Longrightarrow> p c) \<Longrightarrow> runs p' m q"
  by (rule runs_conseq) assumption+

lemma runs_post: "runs p m q \<Longrightarrow> (\<And>x c. q x c \<Longrightarrow> core_inv c \<Longrightarrow> q' x c) \<Longrightarrow> runs p m q'"
  by (rule runs_conseq) assumption+

text \<open>Facts that do not depend on the state.\<close>

lemma runs_frame: "runs p m q \<Longrightarrow> runs (\<lambda>c. p c \<and> b) m (\<lambda>x c. q x c \<and> b)"
  by (auto simp: runs_def)

lemma runs_if: "(b \<Longrightarrow> runs p m q) \<Longrightarrow> (\<not> b \<Longrightarrow> runs p n q) \<Longrightarrow> runs p (if b then m else n) q"
  by simp

lemma runs_option:
  "(z = None \<Longrightarrow> runs p m q) \<Longrightarrow> (\<And>x. z = Some x \<Longrightarrow> runs p (f x) q) \<Longrightarrow>
     runs p (case z of None \<Rightarrow> m | Some x \<Rightarrow> f x) q"
  by (cases z) auto

lemma runs_prod: "(\<And>x y. z = (x, y) \<Longrightarrow> runs p (f x y) q) \<Longrightarrow> runs p (case z of (x, y) \<Rightarrow> f x y) q"
  by (cases z) auto

text \<open>The result of a program of pairs.\<close>

lemma runs_bind_pair:
  assumes "runs p m (\<lambda>z c. q (fst z) (snd z) c)" "\<And>x y. runs (q x y) (f x y) r"
  shows "runs p (State_Monad.bind m (\<lambda>(x, y). f x y)) r"
  using assms by (auto intro!: runs_bind runs_prod)

subsection \<open>Programs that keep the protocol state\<close>

definition smooth :: "(sync_world, 'a) state \<Rightarrow> bool" where
  "smooth m \<longleftrightarrow> (\<forall>w. (sw_dead w \<longrightarrow> snd (run_state m w) = w) \<and>
     (\<exists>r s. core (snd (run_state m w)) = core w\<lparr>ac_runtime := r, ac_applied := s\<rparr>))"

definition stable :: "(agent_core \<Rightarrow> bool) \<Rightarrow> bool" where
  "stable p \<longleftrightarrow> (\<forall>c r s. p c \<longrightarrow> p (c\<lparr>ac_runtime := r, ac_applied := s\<rparr>))"

lemma smooth_return [smooth_intros]: "smooth (State_Monad.return x)"
  by (simp add: smooth_def) (metis agent_core.surjective agent_core.update_convs(3,4))

lemma smooth_bind [smooth_intros]:
  assumes "smooth m" "\<And>x. smooth (f x)"
  shows "smooth (State_Monad.bind m f)"
  unfolding smooth_def
proof (intro allI conjI impI)
  fix w
  obtain x v where run: "run_state m w = (x, v)" by (cases "run_state m w")
  show "sw_dead w \<Longrightarrow> snd (run_state (State_Monad.bind m f) w) = w"
    using assms run by (metis case_prod_conv run_state_bind smooth_def snd_conv)
  obtain r s where 1: "core v = core w\<lparr>ac_runtime := r, ac_applied := s\<rparr>"
    using assms(1) run unfolding smooth_def by (metis snd_conv)
  obtain r' s' where 2: "core (snd (run_state (f x) v)) = core v\<lparr>ac_runtime := r', ac_applied := s'\<rparr>"
    using assms(2) [of x] unfolding smooth_def by blast
  show "\<exists>r s. core (snd (run_state (State_Monad.bind m f) w)) = core w\<lparr>ac_runtime := r, ac_applied := s\<rparr>"
    using 1 2 run by auto
qed

lemma smooth_if [smooth_intros]: "smooth m \<Longrightarrow> smooth n \<Longrightarrow> smooth (if b then m else n)"
  by simp

lemma smooth_prod [smooth_intros]: "(\<And>x y. smooth (f x y)) \<Longrightarrow> smooth (case z of (x, y) \<Rightarrow> f x y)"
  by (simp add: split_def)

lemma smooth_option [smooth_intros]: "smooth m \<Longrightarrow> (\<And>x. smooth (f x)) \<Longrightarrow> smooth (case z of None \<Rightarrow> m | Some x \<Rightarrow> f x)"
  by (cases z) auto

lemma smooth_let [smooth_intros]: "(\<And>x. smooth (f x)) \<Longrightarrow> smooth (Let z f)"
  by simp

lemma core_update: "\<exists>r s. c = c\<lparr>ac_runtime := r, ac_applied := s\<rparr>" for c :: agent_core
  by (metis agent_core.surjective agent_core.update_convs(3,4))

lemma smooth_call:
  assumes "\<And>n w. \<exists>r s. core (snd (f n w)) = core w\<lparr>ac_runtime := r, ac_applied := s\<rparr>"
  shows "smooth (call env d f)"
proof -
  have [simp]: "core (w\<lparr>sw_calls := n\<rparr>) = core w" "core (w\<lparr>sw_calls := n, sw_dead := b\<rparr>) = core w" for w n b
    by (simp_all add: core_def)
  show ?thesis
    unfolding smooth_def call_def
    using assms by (auto simp: Let_def intro: core_update) (metis \<open>\<And>w n. core (w\<lparr>sw_calls := n\<rparr>) = core w\<close>)
qed

lemma smooth_runs:
  assumes "smooth m" "stable p"
  shows "runs p m (\<lambda>_. p)"
  unfolding runs_def
proof (intro allI conjI impI)
  fix w
  obtain r s where eq: "core (snd (run_state m w)) = core w\<lparr>ac_runtime := r, ac_applied := s\<rparr>"
    using assms(1) unfolding smooth_def by blast
  show "sw_dead w \<Longrightarrow> snd (run_state m w) = w"
    using assms(1) by (simp add: smooth_def)
  have "protocol_step (core w) (core w\<lparr>ac_runtime := r\<rparr>)"
    "protocol_step (core w\<lparr>ac_runtime := r\<rparr>) (core w\<lparr>ac_runtime := r, ac_applied := s\<rparr>)"
    by (rule protocol_step.runtime, rule protocol_step.applied)
  then show "protocol_step\<^sup>*\<^sup>* (core w) (core (snd (run_state m w)))"
    unfolding eq by (meson converse_rtranclp_into_rtranclp r_into_rtranclp)
  assume "p (core w)"
  then show "sw_dead (snd (run_state m w)) \<or> p (core (snd (run_state m w)))"
    unfolding eq using assms(2) by (simp add: stable_def)
qed

lemma smooth_runs_any: "smooth m \<Longrightarrow> runs p m (\<lambda>_ _. True)"
  by (rule runs_pre [OF smooth_runs [where p = "\<lambda>_. True"]]) (simp_all add: stable_def)


subsection \<open>Calls\<close>

text \<open>A call that changes the protocol state in at most one step.\<close>

lemma runs_call:
  assumes "\<And>n w x v. f n w = (x, v) \<Longrightarrow> core_inv (core w) \<Longrightarrow> p (core w) \<Longrightarrow>
      protocol_step\<^sup>*\<^sup>* (core w) (core v) \<and> q x (core v)"
  shows "runs p (call env d f) q"
proof -
  have [simp]: "core (w\<lparr>sw_calls := n\<rparr>) = core w" "core (w\<lparr>sw_calls := n, sw_dead := b\<rparr>) = core w" for w n b
    by (simp_all add: core_def)
  have step: "protocol_step\<^sup>*\<^sup>* (core w) (core (snd (f n (w\<lparr>sw_calls := k\<rparr>)))) \<and>
      q (fst (f n (w\<lparr>sw_calls := k\<rparr>))) (core (snd (f n (w\<lparr>sw_calls := k\<rparr>))))"
    if "core_inv (core w)" "p (core w)" for n k w
    using assms [of n "w\<lparr>sw_calls := k\<rparr>"] that by (cases "f n (w\<lparr>sw_calls := k\<rparr>)") simp
  show ?thesis
    unfolding runs_def call_def using step by (auto simp: Let_def)
qed

lemma core_updates:
  "core (w\<lparr>sw_journal := j\<rparr>) = core w\<lparr>ac_journal := j\<rparr>"
  "core (w\<lparr>sw_last_known_good := s\<rparr>) = core w\<lparr>ac_good := s\<rparr>"
  "core (w\<lparr>sw_sent := sw_sent w @ [m]\<rparr>) = core w\<lparr>ac_sent := ac_sent (core w) @ [m]\<rparr>"
  by (simp_all add: core_def)

lemma call_errors_iff: "call_errors env n = [] \<longleftrightarrow> sy_error env n = None"
  by (simp add: call_errors_def split: option.split)

lemma runs_save:
  assumes upd: "\<And>w. core (upd w) = g (core w)"
    and step: "\<And>c. p c \<Longrightarrow> core_inv c \<Longrightarrow> protocol_step c (g c)"
    and saved: "\<And>c. p c \<Longrightarrow> core_inv c \<Longrightarrow> q [] (g c)"
    and failed: "\<And>e c. e \<noteq> [] \<Longrightarrow> p c \<Longrightarrow> core_inv c \<Longrightarrow> q e c \<and> q e (g c)"
  shows "runs p (save env upd) q"
  unfolding save_def
proof (rule runs_call)
  fix n w x v
  assume *: "(call_errors env n, if sy_error env n = None \<or> sy_done env n then upd w else w) = (x, v)"
    "core_inv (core w)" "p (core w)"
  have "q x (core v)"
    using * upd saved [OF *(3,2)] failed [OF _ *(3,2), of x] call_errors_iff [of env n]
    by (cases "sy_error env n") auto
  then show "protocol_step\<^sup>*\<^sup>* (core w) (core v) \<and> q x (core v)"
    using * upd step [OF *(3,2)] by (auto split: if_split_asm)
qed

lemma runs_save_journal:
  assumes "\<And>c. p c \<Longrightarrow> core_inv c \<Longrightarrow> journal_moves c j \<or> journal_activates c j"
    "\<And>c. p c \<Longrightarrow> core_inv c \<Longrightarrow> q [] (c\<lparr>ac_journal := j\<rparr>)"
    "\<And>e c. e \<noteq> [] \<Longrightarrow> p c \<Longrightarrow> core_inv c \<Longrightarrow> q e c \<and> q e (c\<lparr>ac_journal := j\<rparr>)"
  shows "runs p (save_journal env j) q"
  unfolding save_journal_def
proof (rule runs_save [where g = "\<lambda>c. c\<lparr>ac_journal := j\<rparr>"])
  fix c assume "p c" "core_inv c"
  then show "protocol_step c (c\<lparr>ac_journal := j\<rparr>)"
    using assms(1) protocol_step.moves protocol_step.activates by blast
qed (use assms(2,3) in \<open>auto simp: core_updates\<close>)

lemma runs_save_good:
  assumes "\<And>c. p c \<Longrightarrow> core_inv c \<Longrightarrow> \<exists>x. gj_candidate (ac_journal c) = Some x \<and> gr_phase x \<in> {PhStarted, PhCutover} \<and>
      as_revision s = gr_revision x"
    "\<And>c. p c \<Longrightarrow> core_inv c \<Longrightarrow> q [] (c\<lparr>ac_good := s\<rparr>)"
    "\<And>e c. e \<noteq> [] \<Longrightarrow> p c \<Longrightarrow> core_inv c \<Longrightarrow> q e c \<and> q e (c\<lparr>ac_good := s\<rparr>)"
  shows "runs p (save_last_known_good env s) q"
  unfolding save_last_known_good_def
proof (rule runs_save [where g = "\<lambda>c. c\<lparr>ac_good := s\<rparr>"])
  fix c assume "p c" "core_inv c"
  then show "protocol_step c (c\<lparr>ac_good := s\<rparr>)"
    using assms(1) protocol_step.good by blast
qed (use assms(2,3) in \<open>auto simp: core_updates\<close>)

lemma runs_send:
  assumes "\<And>c. p c \<Longrightarrow> core_inv c \<Longrightarrow> protocol_step c (c\<lparr>ac_sent := ac_sent c @ [m]\<rparr>)"
    "\<And>e c. p c \<Longrightarrow> core_inv c \<Longrightarrow> q e (c\<lparr>ac_sent := ac_sent c @ [m]\<rparr>)"
  shows "runs p (send env m) q"
  unfolding send_def
proof (rule runs_call)
  fix n w x v
  assume *: "(call_errors env n, w\<lparr>sw_sent := sw_sent w @ [m]\<rparr>) = (x, v)" "core_inv (core w)" "p (core w)"
  then have "core v = core w\<lparr>ac_sent := ac_sent (core w) @ [m]\<rparr>"
    by (auto simp: core_updates)
  then show "protocol_step\<^sup>*\<^sup>* (core w) (core v) \<and> q x (core v)"
    using assms * by auto
qed

lemma runs_load:
  assumes "\<And>w. get w = g (core w)" "\<And>e c. p c \<Longrightarrow> core_inv c \<Longrightarrow> q e (g c) c"
  shows "runs p (load env get) (\<lambda>z c. q (fst z) (snd z) c)"
proof -
  have "runs p (call env ([CallFailed], d) (\<lambda>n w. ((call_errors env n, get w), w))) (\<lambda>z c. q (fst z) (snd z) c)" for d
    by (rule runs_call) (use assms in auto)
  then show ?thesis
    unfolding load_def runs_def by simp
qed

lemma runs_the_runtime: "runs p the_runtime (\<lambda>r c. p c \<and> r = ac_runtime c)"
  by (simp add: runs_def the_runtime_def core_def)

lemma runs_stamp:
  assumes "\<And>t. runs p (f (r\<lparr>gr_updated_at := t\<rparr>)) q"
  shows "runs p (State_Monad.bind (stamp env r) f) q"
proof -
  have now: "runs p (now_is env) (\<lambda>_. p)"
    unfolding now_is_def by (rule runs_call) auto
  show ?thesis
    unfolding stamp_def bind_assoc bind_left_identity by (rule runs_bind [OF now]) (rule assms)
qed

subsection \<open>The smooth programs\<close>

lemma smooth_load [smooth_intros]: "smooth (load env get)"
proof -
  have s: "smooth (call env ([CallFailed], d) (\<lambda>n w. ((call_errors env n, get w), w)))" for d
    by (rule smooth_call) (auto intro: core_update)
  show ?thesis
    unfolding smooth_def
  proof
    fix w
    show "(sw_dead w \<longrightarrow> snd (run_state (load env get) w) = w) \<and>
      (\<exists>r s. core (snd (run_state (load env get) w)) = core w\<lparr>ac_runtime := r, ac_applied := s\<rparr>)"
      using s [of "get w", unfolded smooth_def, rule_format, of w] by (simp add: load_def)
  qed
qed

lemma smooth_load_applied [smooth_intros]: "smooth (load_applied env)"
proof -
  have s: "smooth (call env ([CallFailed], d) (\<lambda>n w. (if sy_error env n \<noteq> None \<and> sy_fallback env n \<and>
      as_revision (sw_last_known_good w) > 0 then ([], sw_last_known_good w) else (call_errors env n, sw_applied w), w)))" for d
    by (rule smooth_call) (auto intro: core_update)
  show ?thesis
    unfolding smooth_def
  proof
    fix w
    show "(sw_dead w \<longrightarrow> snd (run_state (load_applied env) w) = w) \<and>
      (\<exists>r s. core (snd (run_state (load_applied env) w)) = core w\<lparr>ac_runtime := r, ac_applied := s\<rparr>)"
      using s [of "sw_applied w", unfolded smooth_def, rule_format, of w] by (simp add: load_applied_def)
  qed
qed

lemma smooth_save:
  assumes "\<And>w. \<exists>r s. core (upd w) = core w\<lparr>ac_runtime := r, ac_applied := s\<rparr>"
  shows "smooth (save env upd)"
  unfolding save_def by (rule smooth_call) (use assms in \<open>auto intro: core_update\<close>)

lemma smooth_saves [smooth_intros]:
  "smooth (save_desired env s)" "smooth (save_applied env s)" "smooth (save_runtime_state env st)"
  unfolding save_desired_def save_applied_def save_runtime_state_def
  by (auto intro!: smooth_save simp: core_def intro: exI)

lemma smooth_calls [smooth_intros]:
  "smooth (ask env)" "smooth (now_is env)" "smooth (heartbeat_call env)" "smooth (lease_over env l)"
  unfolding ask_def now_is_def heartbeat_call_def lease_over_def
  by (auto intro!: smooth_call core_update)

lemma smooth_the_runtime [smooth_intros]: "smooth the_runtime"
  by (simp add: smooth_def the_runtime_def core_update)

lemma smooth_runtime [smooth_intros]: "smooth (apply_runtime env b s s' i t h)" "smooth (reconcile_traffic env tr)"
  unfolding apply_runtime_def reconcile_traffic_def
  by (auto intro!: smooth_call simp: core_def split: prod.split intro: exI)

lemma smooth_state [smooth_intros]: "smooth (runtime_state_for_persistence env)"
  unfolding runtime_state_for_persistence_def by (intro smooth_intros)

lemma smooth_records [smooth_intros]:
  "smooth (record_runtime_error_with_revision env e r)" "smooth (record_runtime_error env e)" "smooth (record_sync_error env e)"
  unfolding record_runtime_error_def record_runtime_error_with_revision_def record_sync_error_def
  by (intro smooth_intros)+

lemma smooth_persist [smooth_intros]:
  "smooth (clear_last_sync_error_after_successful_sync env)" "smooth (persist_runtime_metadata env metas)"
  "smooth (persist_runtime_state env b)"
  unfolding clear_last_sync_error_after_successful_sync_def persist_runtime_metadata_def persist_runtime_state_def
  by (intro smooth_intros)+

lemma smooth_restore [smooth_intros]: "smooth (restore_durable_revision_runtime env)" "smooth (rollback_runtime env s s')"
  unfolding restore_durable_revision_runtime_def rollback_runtime_def by (intro smooth_intros)+

lemma smooth_updates [smooth_intros]:
  "smooth (ensure_pending_update env s)" "smooth (handle_pending_update env s)" "smooth (authorize_plugin_log_retirements env)"
  unfolding ensure_pending_update_def handle_pending_update_def authorize_plugin_log_retirements_def
  by (intro smooth_intros)+

lemma smooth_authorize [smooth_intros]: "smooth (authorize_journal_plugin_log_retirements env j)"
  unfolding authorize_journal_plugin_log_retirements_def by (intro smooth_intros)

lemma smooth_traffic [smooth_intros]: "smooth (commit_heartbeat_traffic_runtime env s)"
  unfolding commit_heartbeat_traffic_runtime_def by (intro smooth_intros)

lemma smooth_no_update [smooth_intros]: "smooth (sync_no_update env ack s)"
  unfolding sync_no_update_def by (intro smooth_intros)

end
