(* ===== verification/SyncRefine.thy ===== *)
theory SyncRefine
  imports SyncHoare
begin

text \<open>
  The agent's sync refines the protocol: from any state of the invariant, and as long as the panel offers a
  lease_started lease only while it is the current one, a round makes protocol steps only, wherever the process
  dies.
\<close>

named_theorems sync_preds \<open>the predicates of the triples\<close>

subsection \<open>The journal in the hand of the program\<close>

text \<open>
  The program works on a copy of the journal that may be ahead of the durable one: its active record may
  have reports that were not saved.
\<close>

definition near :: "generation_journal \<Rightarrow> agent_core \<Rightarrow> bool" where
  "near j c \<longleftrightarrow> (gj_version j = 1 \<or> gj_version j = 0 \<and> gj_active j = None) \<and>
     rel_option advances (gj_active (ac_journal c)) (gj_active j) \<and>
     gj_last_known_good (ac_journal c) = gj_last_known_good j \<and> gj_draining (ac_journal c) = gj_draining j \<and>
     (\<forall>a. gj_active j = Some a \<longrightarrow> reported_applied (ac_sent c) a)"

definition writable :: "generation_journal \<Rightarrow> agent_core \<Rightarrow> bool" where
  "writable j c \<longleftrightarrow> near j c \<and> gj_version j = 1"

text \<open>The durable candidate is the record (its runtime identity may be written differently), or an earlier state of it.\<close>

definition holds :: "generation_record \<Rightarrow> agent_core \<Rightarrow> bool" where
  "holds x c \<longleftrightarrow> (\<exists>y. gj_candidate (ac_journal c) = Some y \<and> same_generation y x \<and> gr_phase y = gr_phase x \<and>
     gr_report_rejected y = gr_report_rejected x)"

definition behind :: "generation_record \<Rightarrow> agent_core \<Rightarrow> bool" where
  "behind x c \<longleftrightarrow> (\<exists>y. gj_candidate (ac_journal c) = Some y \<and> same_generation y x \<and> phase_rank (gr_phase y) \<le> phase_rank (gr_phase x))"

definition current :: "revision_lease \<Rightarrow> generation_journal \<Rightarrow> bool" where
  "current l j \<longleftrightarrow> (\<exists>r. (gj_candidate j = Some r \<or> gj_active j = Some r) \<and> same_generation_lease r l)"

text \<open>Of the leases the panel may offer, only a current one was started before.\<close>

definition leased :: "revision_lease set \<Rightarrow> agent_core \<Rightarrow> bool" where
  "leased E c \<longleftrightarrow> (\<forall>l \<in> E. lease_started l (ac_sent c) \<longrightarrow> current l (ac_journal c))"

definition ready :: "revision_lease set \<Rightarrow> generation_journal \<Rightarrow> agent_core \<Rightarrow> bool" where
  "ready E j c \<longleftrightarrow> near j c \<and> gj_candidate (ac_journal c) = gj_candidate j \<and> leased E c"

text \<open>The candidate with an open attempt: started, not failed.\<close>

definition attempt :: "generation_journal \<Rightarrow> generation_record \<Rightarrow> agent_core \<Rightarrow> bool" where
  "attempt j x c \<longleftrightarrow> writable j c \<and> lease_started (gr_lease x) (ac_sent c) \<and> gr_phase x \<in> {PhStarted, PhCutover} \<and>
     \<not> gr_report_rejected x"

lemmas [sync_preds] = near_def writable_def holds_def behind_def leased_def ready_def attempt_def

lemma stable_preds:
  "stable (\<lambda>c. attempt j x c \<and> behind y c \<and> b)" "stable (\<lambda>c. attempt j x c \<and> holds y c \<and> b)" "stable (near j)"
  "stable (ready E j)"
  by (simp_all add: stable_def sync_preds)

lemma rel_advances_trans: "rel_option advances p q \<Longrightarrow> rel_option advances q r \<Longrightarrow> rel_option advances p r"
  using advances_trans by (fastforce simp: rel_advances_iff)

lemma rel_advances_refl [simp]: "rel_option advances p p"
  by (cases p) simp_all

lemma near_moves:
  assumes "near j c" "gj_version j' = 1" "rel_option advances (gj_active j) (gj_active j')"
    "\<And>a. gj_active j' = Some a \<Longrightarrow> reported_applied (ac_sent c) a"
    "rel_option advances (gj_last_known_good j) (gj_last_known_good j')" "set (gj_draining j') \<subseteq> set (gj_draining j)"
    "candidate_moves c (gj_candidate j')"
  shows "journal_moves c j'"
  using assms rel_advances_trans by (auto simp: journal_moves_def Let_def near_def)

lemma candidate_stays:
  assumes "core_inv c"
  shows "candidate_moves c (gj_candidate (ac_journal c))"
proof (cases "gj_candidate (ac_journal c)")
  case (Some x)
  then have "candidate_inv c x" "candidate_phase (gr_phase x)"
    using assms valid_phases(3) [of "ac_journal c"] by (auto simp: core_inv_def journal_inv_def)
  then show ?thesis using Some by (auto simp: candidate_moves_def candidate_inv_def)
qed (simp add: candidate_moves_def)

lemma behind_moves:
  assumes "behind x c" "candidate_phase (gr_phase x)" "\<not> gr_report_rejected x" "gr_phase x \<in> {PhPrepared, PhStarting} \<or> lease_started (gr_lease x) (ac_sent c)"
  shows "candidate_moves c (Some x)"
  using assms by (auto simp: candidate_moves_def behind_def holds_def)

lemma same_generationI:
  assumes "gr_generation_id y = gr_generation_id x" "gr_revision y = gr_revision x" "gr_snapshot_digest y = gr_snapshot_digest x"
    "gr_lease y = gr_lease x" "gr_runtime_generation_id y = gr_runtime_generation_id x"
    "gr_runtime_snapshot_hash y = gr_runtime_snapshot_hash x"
  shows "same_generation x y"
proof -
  have "runtime_identity_ok y = runtime_identity_ok x"
    using assms(5,6) unfolding runtime_identity_ok_def by simp
  then show ?thesis using assms by (simp add: same_generation_def)
qed

lemma holds_behind: "holds x c \<Longrightarrow> behind x c"
  by (force simp: behind_def holds_def)

lemma holds_candidate:
  assumes "holds x c" "core_inv c"
  shows "candidate_phase (gr_phase x)" "\<not> gr_report_rejected x"
    "gr_phase x = PhPrepared \<Longrightarrow> \<not> lease_started (gr_lease x) (ac_sent c)"
    "gr_phase x = PhPrepared \<or> gr_phase x = PhStarting \<or> lease_started (gr_lease x) (ac_sent c)"
proof -
  obtain y where y: "gj_candidate (ac_journal c) = Some y" "same_generation y x" "gr_phase y = gr_phase x"
    "gr_report_rejected y = gr_report_rejected x"
    using assms(1) by (auto simp: holds_def)
  then have "candidate_inv c y" "candidate_phase (gr_phase y)"
    using assms(2) valid_phases(3) [of "ac_journal c" y] by (auto simp: core_inv_def journal_inv_def)
  then show "candidate_phase (gr_phase x)" "\<not> gr_report_rejected x"
    "gr_phase x = PhPrepared \<Longrightarrow> \<not> lease_started (gr_lease x) (ac_sent c)"
    "gr_phase x = PhPrepared \<or> gr_phase x = PhStarting \<or> lease_started (gr_lease x) (ac_sent c)"
    using y by (auto simp: candidate_inv_def same_generation_def)
qed

lemma behind_mono:
  "behind x c \<Longrightarrow> same_generation x y \<Longrightarrow> phase_rank (gr_phase x) \<le> phase_rank (gr_phase y) \<Longrightarrow> behind y c"
  unfolding behind_def using same_generation_trans order_trans by blast

text \<open>The Go pattern: an error is recorded and ends the round.\<close>

lemma runs_check:
  assumes "runs p m (\<lambda>e c. e = [] \<longrightarrow> q c)" "\<And>e. smooth (h e)" "runs q f (\<lambda>_ _. True)"
  shows "runs p (State_Monad.bind m (\<lambda>e. if e \<noteq> [] then h e else f)) (\<lambda>_ _. True)"
proof (rule runs_bind [OF assms(1)])
  fix e
  show "runs (\<lambda>c. e = [] \<longrightarrow> q c) (if e \<noteq> [] then h e else f) (\<lambda>_ _. True)"
    using runs_pre [OF assms(3), of "\<lambda>c. e = [] \<longrightarrow> q c"] smooth_runs_any [OF assms(2)] by auto
qed

lemma runs_check_smooth:
  assumes "smooth m" "stable p" "\<And>e. smooth (h e)" "runs p f (\<lambda>_ _. True)"
  shows "runs p (State_Monad.bind m (\<lambda>e. if e \<noteq> [] then h e else f)) (\<lambda>_ _. True)"
  by (rule runs_check [OF runs_post [OF smooth_runs [OF assms(1,2)]] assms(3,4)]) simp

subsection \<open>Journal writes\<close>

text \<open>A write of the candidate.\<close>

lemma runs_save_candidate:
  "runs (\<lambda>c. writable j c \<and> candidate_moves c (Some x) \<and> P (ac_sent c)) (save_journal env (with_candidate x j))
     (\<lambda>e c. writable j c \<and> P (ac_sent c) \<and> (e = [] \<longrightarrow> holds x c))"
proof (rule runs_save_journal)
  fix c assume "writable j c \<and> candidate_moves c (Some x) \<and> P (ac_sent c)"
  then show "journal_moves c (with_candidate x j) \<or> journal_activates c (with_candidate x j)"
    by (intro disjI1 near_moves) (auto simp: writable_def with_candidate_def near_def)
qed (auto simp: sync_preds with_candidate_def)

text \<open>The same when the durable candidate is an earlier state: whatever happens, it still is.\<close>

lemma runs_advance_candidate:
  "runs (\<lambda>c. writable j c \<and> behind x c \<and> candidate_phase (gr_phase x) \<and> \<not> gr_report_rejected x \<and>
       lease_started (gr_lease x) (ac_sent c))
     (save_journal env (with_candidate x j))
     (\<lambda>e c. writable j c \<and> behind x c \<and> \<not> gr_report_rejected x \<and> lease_started (gr_lease x) (ac_sent c) \<and> (e = [] \<longrightarrow> holds x c))"
proof (rule runs_save_journal)
  fix c assume "writable j c \<and> behind x c \<and> candidate_phase (gr_phase x) \<and> \<not> gr_report_rejected x \<and>
    lease_started (gr_lease x) (ac_sent c)"
  then show "journal_moves c (with_candidate x j) \<or> journal_activates c (with_candidate x j)"
    by (intro disjI1 near_moves) (auto simp: writable_def with_candidate_def near_def intro: behind_moves)
qed (auto simp: sync_preds with_candidate_def)

subsection \<open>Failed attempts\<close>

lemma runs_report_failed:
  assumes "\<And>sent m. P sent \<Longrightarrow> start_key m = None \<Longrightarrow> P (sent @ [m])"
  shows "runs (\<lambda>c. writable j c \<and> holds x c \<and> gr_phase x = PhFailed \<and> P (ac_sent c)) (report_revision_failed env x)
     (\<lambda>_ c. writable j c \<and> holds x c \<and> P (ac_sent c))"
  unfolding report_revision_failed_def Let_def
proof (rule runs_send)
  let ?m = "SentFailed (gr_lease x) (gr_generation_id x)
    (if trim_space (gr_error_code x) = [] then default_error_code else trim_space (gr_error_code x))
    (if trim_space (gr_error_message x) = [] then default_error_message else trim_space (gr_error_message x))"
  fix c assume c: "writable j c \<and> holds x c \<and> gr_phase x = PhFailed \<and> P (ac_sent c)"
  then obtain y where "gj_candidate (ac_journal c) = Some y" "gr_phase y = PhFailed" "gr_lease x = gr_lease y"
    "gr_generation_id x = gr_generation_id y"
    by (auto simp: holds_def same_generation_def)
  then show "protocol_step c (c\<lparr>ac_sent := ac_sent c @ [?m]\<rparr>)"
    using protocol_step.sends_failed by auto
  show "writable j (c\<lparr>ac_sent := ac_sent c @ [?m]\<rparr>) \<and> holds x (c\<lparr>ac_sent := ac_sent c @ [?m]\<rparr>) \<and>
      P (ac_sent (c\<lparr>ac_sent := ac_sent c @ [?m]\<rparr>))"
    using c assms by (auto simp: sync_preds reported_applied_def)
qed

lemma started_grows: "lease_started l sent \<Longrightarrow> lease_started l (sent @ ms)"
  by (simp add: log_simps)

lemma fail_runs:
  "runs (\<lambda>c. attempt j x c \<and> behind x c) (fail_revision_attempt env j x errs) (\<lambda>_ _. True)"
  unfolding fail_revision_attempt_def
proof (rule runs_stamp, fold with_candidate_def, rule runs_check)
  fix t
  let ?x = "x\<lparr>gr_phase := PhFailed, gr_acknowledged := False, gr_error_code := default_error_code,
    gr_error_message := sy_text env errs\<rparr>\<lparr>gr_updated_at := t\<rparr>"
  let ?p = "\<lambda>c. writable j c \<and> holds ?x c \<and> lease_started (gr_lease ?x) (ac_sent c) \<and> \<not> gr_report_rejected x"
  have same: "same_generation x ?x"
    by (rule same_generationI) simp_all
  show "runs (\<lambda>c. attempt j x c \<and> behind x c) (save_journal env (with_candidate ?x j)) (\<lambda>e c. e = [] \<longrightarrow> ?p c)"
    by (rule runs_conseq [OF runs_advance_candidate])
      (auto simp: attempt_def candidate_phase_def intro: behind_mono [OF _ same])
  show "runs ?p (do { e \<leftarrow> report_revision_failed env ?x;
       if e \<noteq> [] then record_runtime_error_with_revision env (errs @ e) (gr_revision x)
       else do { c2 \<leftarrow> stamp env (?x\<lparr>gr_acknowledged := True\<rparr>); e \<leftarrow> save_journal env (with_candidate c2 j);
         record_runtime_error_with_revision env (errs @ e) (gr_revision x) } }) (\<lambda>_ _. True)"
  proof (rule runs_check)
    show "runs ?p (report_revision_failed env ?x) (\<lambda>e c. e = [] \<longrightarrow> ?p c)"
      by (rule runs_conseq [OF runs_report_failed [where P = "\<lambda>sent. lease_started (gr_lease ?x) sent \<and> \<not> gr_report_rejected x"]]) (auto simp: started_grows)
    show "runs ?p (do { c2 \<leftarrow> stamp env (?x\<lparr>gr_acknowledged := True\<rparr>); e \<leftarrow> save_journal env (with_candidate c2 j);
         record_runtime_error_with_revision env (errs @ e) (gr_revision x) }) (\<lambda>_ _. True)"
    proof (rule runs_stamp, rule runs_bind)
      fix t'
      let ?y = "?x\<lparr>gr_acknowledged := True\<rparr>\<lparr>gr_updated_at := t'\<rparr>"
      have "same_generation ?x ?y"
        by (rule same_generationI) simp_all
      then show "runs ?p (save_journal env (with_candidate ?y j)) (\<lambda>_ _. True)"
        by (intro runs_conseq [OF runs_advance_candidate])
          (auto simp: candidate_phase_def intro: behind_mono [OF holds_behind])
    qed (intro smooth_runs_any smooth_intros)
  qed (intro smooth_intros)
qed (intro smooth_intros)


lemma replay_runs:
  "runs (\<lambda>c. writable j c \<and> holds x c \<and> gr_phase x = PhFailed) (replay_failed_revision_report env j x) (\<lambda>_ _. True)"
  (is "runs ?p _ _")
  unfolding replay_failed_revision_report_def
proof (intro runs_if runs_check)
  show "runs ?p (report_revision_failed env x) (\<lambda>e c. e = [] \<longrightarrow> ?p c)"
    by (rule runs_conseq [OF runs_report_failed [where P = "\<lambda>_. gr_phase x = PhFailed"]]) auto
next
  show "runs ?p (do { c1 \<leftarrow> stamp env (x\<lparr>gr_acknowledged := True\<rparr>); e \<leftarrow> save_journal env (j\<lparr>gj_candidate := Some c1\<rparr>);
      if e \<noteq> [] then record_runtime_error_with_revision env e (gr_revision x) else State_Monad.return [] }) (\<lambda>_ _. True)"
  proof (rule runs_stamp, fold with_candidate_def, rule runs_bind)
    fix t
    let ?y = "x\<lparr>gr_acknowledged := True\<rparr>\<lparr>gr_updated_at := t\<rparr>"
    have same: "same_generation x ?y"
      by (rule same_generationI) simp_all
    show "runs ?p (save_journal env (with_candidate ?y j)) (\<lambda>_ _. True)"
    proof (rule runs_conseq [OF runs_advance_candidate])
      fix c assume c: "?p c" "core_inv c"
      then have "lease_started (gr_lease x) (ac_sent c)" "\<not> gr_report_rejected x"
        using holds_candidate [of x c] by auto
      then show "writable j c \<and> behind ?y c \<and> candidate_phase (gr_phase ?y) \<and> \<not> gr_report_rejected ?y \<and>
          lease_started (gr_lease ?y) (ac_sent c)"
        using c by (auto simp: candidate_phase_def intro: behind_mono [OF holds_behind same])
    qed simp
  qed (intro smooth_runs_any smooth_intros)
qed (intro smooth_intros runs_return TrueI)+

subsection \<open>Reports on the active generation\<close>

lemma leased_sent:
  assumes "leased E c" "start_key m = None"
  shows "leased E (c\<lparr>ac_sent := ac_sent c @ [m]\<rparr>)"
  using assms by (cases m) (auto simp: leased_def log_simps)

text \<open>The active record after its report.\<close>

lemma ready_active:
  assumes "ready E j c" "gj_active j = Some a" "advances a b" "reported_applied (ac_sent c) b"
  shows "ready E (j\<lparr>gj_active := Some b\<rparr>) c"
  using assms by (auto simp: ready_def near_def rel_advances_iff intro: advances_trans)

lemma resolve_runs:
  assumes "gj_active j = Some a"
  shows "runs (\<lambda>c. ready E j c \<and> \<not> gr_acknowledged a \<and> \<not> gr_report_rejected a) (resolve_applied_revision_report env a)
     (\<lambda>z c. advances a (snd z) \<and> ready E (j\<lparr>gj_active := Some (snd z)\<rparr>) c)"
  (is "runs ?p _ ?q")
  unfolding resolve_applied_revision_report_def
proof (rule runs_bind)
  let ?m = "SentApplied (gr_lease a) (gr_generation_id a)"
  let ?r = "\<lambda>c. ready E j c \<and> ?m \<in> set (ac_sent c)"
  show "runs ?p (send env ?m) (\<lambda>_. ?r)"
  proof (rule runs_send)
    fix c assume c: "?p c"
    then obtain a0 where "gj_active (ac_journal c) = Some a0" "advances a0 a"
      using assms by (auto simp: ready_def near_def rel_advances_iff)
    then show "protocol_step c (c\<lparr>ac_sent := ac_sent c @ [?m]\<rparr>)"
      by (rule protocol_step.sends_applied)
    show "?r (c\<lparr>ac_sent := ac_sent c @ [?m]\<rparr>)"
      using c leased_sent [of E c ?m] by (auto simp: ready_def near_def reported_applied_def)
  qed
  have ok: "advances a b \<and> ready E (j\<lparr>gj_active := Some b\<rparr>) c"
    if "?r c" "same_generation a b" "gr_phase b = gr_phase a" "gr_acknowledged a \<longrightarrow> gr_acknowledged b"
      "gr_report_rejected a \<longrightarrow> gr_report_rejected b" for b c
  proof -
    have "advances a b" using that by (simp add: advances_def)
    moreover have "reported_applied (ac_sent c) b"
      using that by (auto simp: reported_applied_def same_generation_def)
    ultimately show ?thesis using ready_active [OF _ assms] that(1) by blast
  qed
  have [simp]: "j\<lparr>gj_active := Some a\<rparr> = j"
    using assms by simp
  fix e
  show "runs ?r (if e = [] then do { a1 \<leftarrow> stamp env (a\<lparr>gr_acknowledged := True\<rparr>); State_Monad.return ([], a1) }
      else if LeaseConflict \<in> set e then do { a1 \<leftarrow> stamp env (a\<lparr>gr_report_rejected := True\<rparr>); State_Monad.return ([], a1) }
      else State_Monad.return (e, a)) ?q"
    by (intro runs_if runs_stamp runs_return) (rule ok, assumption, rule same_generationI, simp_all)+
qed

text \<open>A write of the journal in hand, perhaps without some of the draining generations.\<close>

lemma current_same:
  assumes "current l j" "gj_candidate j' = gj_candidate j" "rel_option advances (gj_active j) (gj_active j')"
  shows "current l j'"
proof -
  obtain r where r: "gj_candidate j = Some r \<or> gj_active j = Some r" "same_generation_lease r l"
    using assms(1) by (auto simp: current_def)
  have "same_generation_lease s l" if "advances r s" for s
    using r(2) that by (simp add: same_generation_lease_def advances_def same_generation_def)
  then show ?thesis
    using r assms(2,3) by (auto simp: current_def rel_advances_iff)
qed

lemma ready_write:
  assumes "ready E j c" "core_inv c" "gj_active j \<noteq> None" "gj_candidate j' = gj_candidate j"
    "gj_last_known_good j' = gj_last_known_good j" "gj_version j' = gj_version j" "gj_active j' = gj_active j"
    "set (gj_draining j') \<subseteq> set (gj_draining j)"
  shows "journal_moves c j'" "ready E j' (c\<lparr>ac_journal := j'\<rparr>)"
proof -
  show "journal_moves c j'"
    using assms candidate_stays [OF assms(2)] by (intro near_moves) (auto simp: ready_def near_def)
  show "ready E j' (c\<lparr>ac_journal := j'\<rparr>)"
    using assms current_same [of _ "ac_journal c" j'] by (auto simp: ready_def near_def leased_def)
qed

lemma runs_save_hand:
  "gj_active j \<noteq> None \<Longrightarrow> runs (ready E j) (save_journal env j) (\<lambda>_. ready E j)"
  by (rule runs_save_journal) (use ready_write [where j = j and j' = j] in auto)

lemma recover_runs:
  "runs (ready E j) (recover_active_revision_acknowledgement env j) (\<lambda>z. ready E (snd z))"
proof (cases "gj_active j")
  case None
  then show ?thesis
    by (simp add: recover_active_revision_acknowledgement_def runs_return)
next
  case (Some a)
  let ?p = "\<lambda>c. ready E j c \<and> \<not> gr_acknowledged a \<and> \<not> gr_report_rejected a"
  have resolved: "runs ?p
    (do { (e, a1) \<leftarrow> resolve_applied_revision_report env a;
       if e \<noteq> [] then State_Monad.return (e, j\<lparr>gj_active := Some a1\<rparr>)
       else do { e \<leftarrow> save_journal env (j\<lparr>gj_active := Some a1\<rparr>); State_Monad.return (e, j\<lparr>gj_active := Some a1\<rparr>) } })
    (\<lambda>z. ready E (snd z))"
  proof (rule runs_bind_pair [where q = "\<lambda>_ a1 c. advances a a1 \<and> ready E (j\<lparr>gj_active := Some a1\<rparr>) c", OF resolve_runs [OF Some]],
      intro runs_if runs_return)
    fix e a1
    let ?j = "j\<lparr>gj_active := Some a1\<rparr>"
    show "runs (\<lambda>c. advances a a1 \<and> ready E ?j c)
       (do { e \<leftarrow> save_journal env ?j; State_Monad.return (e, ?j) }) (\<lambda>z. ready E (snd z))"
      by (rule runs_bind [OF runs_pre [OF runs_save_hand]]) (auto intro: runs_return)
  qed simp
  show ?thesis
    unfolding recover_active_revision_acknowledgement_def Some option.case Let_def
    by (intro runs_if runs_return runs_bind [OF runs_the_runtime])
      (auto intro: runs_pre [OF resolved])
qed


definition drains_are :: "drain_entry list option \<Rightarrow> agent_core \<Rightarrow> bool" where
  "drains_are ds c \<longleftrightarrow> generation_drain_snapshot (ac_runtime c) = ds"

lemma runs_send_drain:
  assumes "gj_active j = Some a" "gr_acknowledged a" "p \<in> set (gj_draining j)" "completed_runtime_drain ds p a = Some d"
  shows "runs (\<lambda>c. ready E j c \<and> drains_are ds c)
     (if gr_report_rejected p then State_Monad.return [] else send env (SentDrain (gr_lease a) (gr_generation_id p) d))
     (\<lambda>_ c. ready E j c \<and> drains_are ds c)"
proof (intro runs_if runs_return runs_send)
  let ?m = "SentDrain (gr_lease a) (gr_generation_id p) d"
  fix c assume c: "ready E j c \<and> drains_are ds c" "\<not> gr_report_rejected p"
  then obtain a0 where "gj_active (ac_journal c) = Some a0" "advances a0 a" "reported_applied (ac_sent c) a"
    using assms(1) by (auto simp: ready_def near_def rel_advances_iff)
  then show "protocol_step c (c\<lparr>ac_sent := ac_sent c @ [?m]\<rparr>)"
    using c assms by (intro protocol_step.sends_drain) (auto simp: ready_def near_def drains_are_def)
  show "ready E j (c\<lparr>ac_sent := ac_sent c @ [?m]\<rparr>) \<and> drains_are ds (c\<lparr>ac_sent := ac_sent c @ [?m]\<rparr>)"
    using c leased_sent [of E c ?m] by (auto simp: ready_def near_def reported_applied_def drains_are_def)
qed simp

lemma runs_save_drained:
  assumes "gj_active j \<noteq> None" "gj_candidate j' = gj_candidate j" "gj_last_known_good j' = gj_last_known_good j"
    "gj_version j' = gj_version j" "gj_active j' = gj_active j" "set (gj_draining j') \<subseteq> set (gj_draining j)"
  shows "runs (\<lambda>c. ready E j c \<and> drains_are ds c) (save_journal env j') (\<lambda>e c. e = [] \<longrightarrow> ready E j' c \<and> drains_are ds c)"
  by (rule runs_save_journal) (use ready_write [OF _ _ assms] in \<open>auto simp: drains_are_def\<close>)

lemma drains_runs:
  assumes "gj_active j = Some a" "gr_acknowledged a" "gj_draining j = kept @ ps"
  shows "runs (\<lambda>c. ready E j c \<and> drains_are ds c) (report_drains env ds a j kept ps)
     (\<lambda>z c. fst z = [] \<longrightarrow> ready E (snd z) c)"
  using assms
proof (induction ps arbitrary: j kept)
  case (Cons p ps)
  show ?case
  proof (cases "completed_runtime_drain ds p a")
    case None
    then show ?thesis
      using Cons.IH [of j "kept @ [p]"] Cons.prems by simp
  next
    case (Some d)
    let ?j = "j\<lparr>gj_draining := kept @ ps\<rparr>"
    have rest: "runs (\<lambda>c. ready E ?j c \<and> drains_are ds c) (report_drains env ds a ?j kept ps)
        (\<lambda>z c. fst z = [] \<longrightarrow> ready E (snd z) c)"
      using Cons.IH [of ?j kept] Cons.prems by simp
    have saved: "runs (\<lambda>c. ready E j c \<and> drains_are ds c) (save_journal env ?j)
        (\<lambda>e c. e = [] \<longrightarrow> ready E ?j c \<and> drains_are ds c)"
      by (rule runs_save_drained) (use Cons.prems in auto)
    have "p \<in> set (gj_draining j)"
      using Cons.prems(3) by simp
    then show ?thesis
      unfolding report_drains.simps Some option.case Let_def
      by (intro runs_bind [OF runs_send_drain [OF Cons.prems(1,2) _ Some]] runs_if runs_return runs_bind [OF saved])
        (auto intro: runs_pre [OF rest])
  qed
qed (auto intro: runs_return)

lemma completed_drains_runs:
  "runs (ready E j) (report_completed_generation_drains env j) (\<lambda>z c. fst z = [] \<longrightarrow> ready E (snd z) c)"
proof (cases "gj_active j")
  case (Some a)
  have "runs (\<lambda>c. ready E j c \<and> r = ac_runtime c) (report_drains env (generation_drain_snapshot r) a j [] (gj_draining j))
      (\<lambda>z c. fst z = [] \<longrightarrow> ready E (snd z) c)" if "gr_acknowledged a" for r
    by (intro runs_pre [OF drains_runs [OF Some that]]) (auto simp: drains_are_def)
  then show ?thesis
    unfolding report_completed_generation_drains_def Some option.case
    by (intro runs_if runs_return runs_bind [OF runs_the_runtime]) auto
qed (auto simp: report_completed_generation_drains_def intro: runs_return)

subsection \<open>The switch to the candidate\<close>

text \<open>The candidate becomes the active generation once its snapshot is the last known good one.\<close>

lemma finish_activates:
  assumes "writable j c" "holds x c" "gr_phase x \<in> {PhStarted, PhCutover}" "as_revision (ac_good c) = gr_revision x"
    "same_generation x a" "gr_phase a = PhActive" "\<not> gr_acknowledged a" "\<not> gr_report_rejected a"
    "j' = j\<lparr>gj_draining := append_draining_generation (gj_draining j) (gj_active j) a, gj_active := Some a,
       gj_last_known_good := Some a, gj_candidate := None\<rparr>"
  shows "journal_activates c j'"
proof -
  have "gr_revision a = gr_revision x"
    using assms(5) by (simp add: same_generation_def)
  moreover obtain y where "gj_candidate (ac_journal c) = Some y" "same_generation y a" "gr_phase y \<in> {PhStarted, PhCutover}"
    using assms(2,3,5) same_generation_trans by (auto simp: holds_def)
  moreover have "rel_option advances (gj_active (ac_journal c)) (gj_active j)" "gj_draining (ac_journal c) = gj_draining j"
    "gj_version j = 1"
    using assms(1) by (auto simp: writable_def near_def)
  ultimately show ?thesis
    using assms by (auto simp: journal_activates_def Let_def holds_def)
qed

text \<open>Both active records are the reported one.\<close>

lemma runs_save_reported:
  assumes "gj_active j = Some x" "gj_last_known_good j = Some x"
  shows "runs (\<lambda>c. advances x a \<and> ready {} (j\<lparr>gj_active := Some a\<rparr>) c)
     (save_journal env (j\<lparr>gj_active := Some a, gj_last_known_good := Some a\<rparr>))
     (\<lambda>e c. e = [] \<longrightarrow> ready {} (j\<lparr>gj_active := Some a, gj_last_known_good := Some a\<rparr>) c)"
proof (rule runs_save_journal)
  fix c assume c: "advances x a \<and> ready {} (j\<lparr>gj_active := Some a\<rparr>) c" "core_inv c"
  let ?j = "j\<lparr>gj_active := Some a\<rparr>" and ?j' = "j\<lparr>gj_active := Some a, gj_last_known_good := Some a\<rparr>"
  have "journal_moves c ?j'"
    using c assms candidate_stays [OF c(2)] by (intro near_moves [where j = ?j]) (auto simp: ready_def near_def)
  then show "journal_moves c ?j' \<or> journal_activates c ?j'" ..
  show "[] = [] \<longrightarrow> ready {} ?j' (c\<lparr>ac_journal := ?j'\<rparr>)"
    using c by (auto simp: ready_def near_def leased_def)
qed simp

text \<open>The end of a switch: the report, and the drains.\<close>

definition after_switch :: "sync_env \<Rightarrow> generation_journal \<Rightarrow> generation_record \<Rightarrow> (sync_world, sync_errors) state" where
  "after_switch env j x = do {
     (e, a) \<leftarrow> resolve_applied_revision_report env x;
     if e \<noteq> [] then record_runtime_error env e
     else do {
       e \<leftarrow> save_journal env (j\<lparr>gj_active := Some a, gj_last_known_good := Some a\<rparr>);
       if e \<noteq> [] then record_runtime_error env e
       else if gr_report_rejected a then State_Monad.return []
       else do {
         (e, _) \<leftarrow> report_completed_generation_drains env (j\<lparr>gj_active := Some a, gj_last_known_good := Some a\<rparr>);
         State_Monad.return e
       }
     }
   }"

lemma after_switch_runs:
  assumes "gj_active j = Some x" "gj_last_known_good j = Some x"
  shows "runs (\<lambda>c. ready {} j c \<and> \<not> gr_acknowledged x \<and> \<not> gr_report_rejected x) (after_switch env j x) (\<lambda>_ _. True)"
  unfolding after_switch_def
proof (rule runs_bind_pair [where q = "\<lambda>_ a c. advances x a \<and> ready {} (j\<lparr>gj_active := Some a\<rparr>) c",
      OF resolve_runs [OF assms(1)]])
  fix e a
  let ?j = "j\<lparr>gj_active := Some a, gj_last_known_good := Some a\<rparr>"
  let ?report = "if gr_report_rejected a then State_Monad.return []
    else do { (e, _) \<leftarrow> report_completed_generation_drains env ?j; State_Monad.return e }"
  have "runs (ready {} ?j) ?report (\<lambda>_ _. True)"
    by (intro runs_if runs_bind [OF completed_drains_runs] runs_prod runs_return TrueI)
  then have "runs (\<lambda>c. advances x a \<and> ready {} (j\<lparr>gj_active := Some a\<rparr>) c)
      (do { e \<leftarrow> save_journal env ?j; if e \<noteq> [] then record_runtime_error env e else ?report }) (\<lambda>_ _. True)"
    by (intro runs_check [OF runs_save_reported [OF assms]] smooth_intros)
  then show "runs (\<lambda>c. advances x a \<and> ready {} (j\<lparr>gj_active := Some a\<rparr>) c)
      (if e \<noteq> [] then record_runtime_error env e
       else do { e \<leftarrow> save_journal env ?j; if e \<noteq> [] then record_runtime_error env e else ?report }) (\<lambda>_ _. True)"
    by (cases "e = []") (simp_all add: smooth_runs_any smooth_records)
qed

lemma finish_runs:
  "runs (\<lambda>c. attempt j x c \<and> holds x c \<and> as_revision s = gr_revision x)
     (finish_revision_acknowledgement env j x s) (\<lambda>_ _. True)"
  (is "runs ?p _ _")
  unfolding finish_revision_acknowledgement_def Let_def
proof (rule runs_stamp, fold after_switch_def, rule runs_check)
  fix t
  let ?x = "x\<lparr>gr_phase := PhActive, gr_acknowledged := False\<rparr>\<lparr>gr_updated_at := t\<rparr>"
  let ?j = "j\<lparr>gj_draining := append_draining_generation (gj_draining j) (gj_active j) ?x, gj_active := Some ?x,
       gj_last_known_good := Some ?x, gj_candidate := None\<rparr>"
  let ?q = "\<lambda>c. ?p c \<and> as_revision (ac_good c) = gr_revision x"
  show "runs ?p (save_last_known_good env s) (\<lambda>e c. e = [] \<longrightarrow> ?q c)"
    by (rule runs_save_good) (auto simp: sync_preds same_generation_def)
  have same: "same_generation x ?x"
    by (rule same_generationI) simp_all
  show "runs ?q (do { e \<leftarrow> save_journal env ?j; if e \<noteq> [] then record_runtime_error env e else after_switch env ?j ?x })
     (\<lambda>_ _. True)"
  proof (rule runs_check)
    show "runs ?q (save_journal env ?j) (\<lambda>e c. e = [] \<longrightarrow> ready {} ?j c \<and> \<not> gr_acknowledged ?x \<and> \<not> gr_report_rejected ?x)"
    proof (rule runs_save_journal)
      fix c assume c: "?q c"
      then have "journal_activates c ?j"
        by (intro finish_activates [where x = x and a = ?x, OF _ _ _ _ same]) (auto simp: attempt_def)
      then show "journal_moves c ?j \<or> journal_activates c ?j" ..
      show "[] = [] \<longrightarrow> ready {} ?j (c\<lparr>ac_journal := ?j\<rparr>) \<and> \<not> gr_acknowledged ?x \<and> \<not> gr_report_rejected ?x"
        using c by (auto simp: sync_preds reported_applied_def)
    qed simp
    show "runs (\<lambda>c. ready {} ?j c \<and> \<not> gr_acknowledged ?x \<and> \<not> gr_report_rejected ?x) (after_switch env ?j ?x) (\<lambda>_ _. True)"
      by (rule after_switch_runs) simp_all
  qed (intro smooth_intros)
qed (intro smooth_intros)

end
