(* ===== verification/SyncRounds.thy ===== *)
theory SyncRounds
  imports SyncRefine
begin

text \<open>The triples of the rest of the sync, up to the whole round.\<close>

subsection \<open>An open attempt\<close>

definition offered :: "revision_lease \<Rightarrow> agent_snapshot \<Rightarrow> generation_record \<Rightarrow> bool" where
  "offered l s x \<longleftrightarrow> as_revision s = gr_revision x \<and> le_revision l = gr_revision x"

definition going :: "generation_journal \<Rightarrow> generation_record \<Rightarrow> revision_lease \<Rightarrow> agent_snapshot \<Rightarrow> agent_core \<Rightarrow> bool" where
  "going j x l s c \<longleftrightarrow> attempt j x c \<and> holds x c \<and> offered l s x"

lemma stable_going [simp]:
  "stable (going j x l s)" "stable (\<lambda>c. attempt j x c \<and> behind x c)" "stable (near j)" "stable (ready E j)"
  by (auto simp: stable_def sync_preds going_def)

lemma with_candidate_preds [simp]:
  "near (with_candidate y j) = near j" "writable (with_candidate y j) = writable j" "attempt (with_candidate y j) = attempt j"
  "going (with_candidate y j) = going j" "with_candidate x (with_candidate y j) = with_candidate x j"
  by (auto simp: fun_eq_iff sync_preds with_candidate_def going_def)

lemma runs_smooth_then:
  assumes "smooth m" "stable p" "\<And>x. runs p (f x) q"
  shows "runs p (State_Monad.bind m f) q"
  by (rule runs_bind [OF smooth_runs [OF assms(1,2)]]) (rule assms(3))

text \<open>How a round ends early.\<close>

lemma runs_ends:
  "runs p (record_runtime_error env e) (\<lambda>_ _. True)" "runs p (record_sync_error env e) (\<lambda>_ _. True)"
  "runs p (record_runtime_error_with_revision env e r) (\<lambda>_ _. True)"
  "runs p (State_Monad.return y) (\<lambda>_ _. True)"
  "runs p (clear_last_sync_error_after_successful_sync env) (\<lambda>_ _. True)"
  by (intro smooth_runs_any smooth_intros)+

lemmas runs_intros = runs_smooth_then runs_if runs_ends smooth_intros

lemma confirm_runs: "runs (going j x l s) (confirm_applied env j x s) (\<lambda>_ _. True)"
  unfolding confirm_applied_def
  by (intro runs_intros stable_going runs_pre [OF finish_runs]) (auto simp: going_def offered_def)

lemma undo_runs: "runs (\<lambda>c. attempt j x c \<and> behind x c) (undo_cutover env j x s s' errs) (\<lambda>_ _. True)"
  unfolding undo_cutover_def by (intro runs_intros fail_runs stable_going)

lemma behind_next:
  assumes "holds x c" "same_generation x y" "phase_rank (gr_phase x) \<le> phase_rank (gr_phase y)"
  shows "behind y c"
  using assms by (auto intro: behind_mono [OF holds_behind])

lemma going_fails: "runs (going j x l s) (fail_revision_attempt env j x errs) (\<lambda>_ _. True)"
  by (rule runs_pre [OF fail_runs]) (auto simp: going_def intro: holds_behind)

lemma commit_runs: "runs (going j x l s) (commit_cutover env j x s s') (\<lambda>_ _. True)"
  unfolding commit_cutover_def
proof (rule runs_smooth_then [OF smooth_the_runtime stable_going(1)], rule runs_if, rule runs_ends, rule runs_stamp)
  fix t
  let ?x = "x\<lparr>gr_phase := PhCutover\<rparr>\<lparr>gr_updated_at := t\<rparr>"
  let ?rest = "do {
         e \<leftarrow> save_applied env s;
         if e \<noteq> [] then undo_cutover env j ?x s s' e
         else do {
           e \<leftarrow> authorize_plugin_log_retirements env;
           if e \<noteq> [] then record_runtime_error_with_revision env e (gr_revision x)
           else do {
             e \<leftarrow> persist_runtime_state env True;
             if e = [] then finish_revision_acknowledgement env (with_candidate ?x j) ?x s
             else do {
               r \<leftarrow> the_runtime;
               if ar_managed r \<or> CommitUncertain \<in> set e then record_runtime_error env e
               else do {
                 back \<leftarrow> rollback_runtime env s s';
                 restored \<leftarrow> save_applied env s';
                 if back \<noteq> [] \<or> restored \<noteq> []
                 then record_runtime_error_with_revision env (e @ back @ restored) (gr_revision x)
                 else fail_revision_attempt env j ?x e } } } } }"
  have same: "same_generation x ?x"
    by (rule same_generationI) simp_all
  have finish: "runs (going j ?x l s) (finish_revision_acknowledgement env (with_candidate ?x j) ?x s) (\<lambda>_ _. True)"
    by (rule runs_pre [OF finish_runs]) (auto simp: going_def offered_def)
  have undo: "runs (going j ?x l s) (undo_cutover env j ?x s s' e) (\<lambda>_ _. True)" for e
    by (rule runs_pre [OF undo_runs]) (auto simp: going_def intro: holds_behind)
  have rest: "runs (going j ?x l s) ?rest (\<lambda>_ _. True)"
    by (intro runs_intros stable_going finish undo going_fails)
  let ?q = "\<lambda>e c. attempt j ?x c \<and> behind ?x c \<and> (e = [] \<longrightarrow> going j ?x l s c)"
  show "runs (going j x l s)
     (do { e \<leftarrow> save_journal env (with_candidate ?x j); if e \<noteq> [] then undo_cutover env j ?x s s' e else ?rest }) (\<lambda>_ _. True)"
  proof (rule runs_bind [where q = ?q])
    show "runs (going j x l s) (save_journal env (with_candidate ?x j)) ?q"
      by (rule runs_conseq [OF runs_frame [where b = "offered l s x", OF runs_advance_candidate]])
        (auto simp: going_def attempt_def candidate_phase_def offered_def intro: behind_next [OF _ same])
    show "runs (?q e) (if e \<noteq> [] then undo_cutover env j ?x s s' e else ?rest) (\<lambda>_ _. True)" for e
      by (intro runs_if) (auto intro: runs_pre [OF undo_runs] runs_pre [OF rest])
  qed
qed

lemma give_up_runs: "runs (going j x l s) (give_up env b j x errs) (\<lambda>_ _. True)"
  unfolding give_up_def by (intro runs_intros going_fails)

lemma apply_candidate_runs: "runs (going j x l s) (apply_candidate env hb act b j x l s h) (\<lambda>_ _. True)"
  unfolding apply_candidate_def Let_def by (intro runs_intros stable_going give_up_runs commit_runs going_fails)

lemma continue_runs: "runs (going j x l s) (continue_candidate env hb act b b' j x l s h) (\<lambda>_ _. True)"
  unfolding continue_candidate_def
proof (intro runs_intros stable_going runs_prod apply_candidate_runs)
  fix applied assume "applied_is env l s applied"
  then show "runs (going j x l s) (confirm_applied env j x applied) (\<lambda>_ _. True)"
    by (intro runs_pre [OF confirm_runs [where l = l]]) (auto simp: going_def offered_def applied_is_def)
qed

lemma resume_cutover_runs: "runs (going j x l s) (resume_cutover env hb act b j x l s h) (\<lambda>_ _. True)"
  unfolding resume_cutover_def
proof (intro runs_intros stable_going runs_prod continue_runs)
  fix e :: sync_errors and applied assume "e = [] \<and> applied_is env l s applied"
  then show "runs (going j x l s) (confirm_applied env j x applied) (\<lambda>_ _. True)"
    by (intro runs_pre [OF confirm_runs [where l = l]]) (auto simp: going_def offered_def applied_is_def)
qed


subsection \<open>Starting an attempt\<close>

definition unstarted :: "generation_journal \<Rightarrow> generation_record \<Rightarrow> revision_lease \<Rightarrow> agent_snapshot \<Rightarrow> agent_core \<Rightarrow> bool" where
  "unstarted j x l s c \<longleftrightarrow> writable j c \<and> holds x c \<and> gr_phase x = PhPrepared \<and> \<not> lease_started l (ac_sent c) \<and>
     lease_key (gr_lease x) = lease_key l \<and> offered l s x"

lemma runs_send_start:
  assumes "gr_phase x = PhStarting"
  shows "runs (\<lambda>c. (writable j c \<and> \<not> lease_started l (ac_sent c) \<and> holds x c) \<and> lease_key (gr_lease x) = lease_key l)
     (send env (SentStart l g i h)) (\<lambda>_ c. writable j c \<and> holds x c \<and> lease_started (gr_lease x) (ac_sent c))"
proof (rule runs_send)
  fix c assume c: "(writable j c \<and> \<not> lease_started l (ac_sent c) \<and> holds x c) \<and> lease_key (gr_lease x) = lease_key l"
  then show "protocol_step c (c\<lparr>ac_sent := ac_sent c @ [SentStart l g i h]\<rparr>)"
    using assms by (auto simp: holds_def same_generation_def intro: protocol_step.sends_start)
  show "writable j (c\<lparr>ac_sent := ac_sent c @ [SentStart l g i h]\<rparr>) \<and> holds x (c\<lparr>ac_sent := ac_sent c @ [SentStart l g i h]\<rparr>) \<and>
      lease_started (gr_lease x) (ac_sent (c\<lparr>ac_sent := ac_sent c @ [SentStart l g i h]\<rparr>))"
    using c by (auto simp: sync_preds reported_applied_def log_simps)
qed

lemma start_runs: "runs (unstarted j x l s) (start_candidate env hb act b j x l s h) (\<lambda>_ _. True)"
  unfolding start_candidate_def
proof (rule runs_stamp, rule runs_check)
  fix t
  let ?x = "x\<lparr>gr_phase := PhStarting\<rparr>\<lparr>gr_updated_at := t\<rparr>"
  let ?k = "lease_key (gr_lease x) = lease_key l \<and> offered l s x \<and> \<not> gr_report_rejected x"
  let ?p = "\<lambda>c. writable j c \<and> \<not> lease_started l (ac_sent c) \<and> holds ?x c"
  let ?q = "\<lambda>c. writable j c \<and> holds ?x c \<and> lease_started (gr_lease ?x) (ac_sent c)"
  have same: "same_generation x ?x"
    by (rule same_generationI) simp_all
  show "runs (unstarted j x l s) (save_journal env (with_candidate ?x j)) (\<lambda>e c. e = [] \<longrightarrow> ?p c \<and> ?k)"
  proof (rule runs_conseq [OF runs_frame [where b = ?k, OF runs_save_candidate [where P = "\<lambda>sent. \<not> lease_started l sent"]]])
    fix c assume c: "unstarted j x l s c" "core_inv c"
    then have "candidate_moves c (Some ?x)"
      using holds_candidate(2) [of x c]
      by (intro behind_moves behind_next [OF _ same]) (auto simp: unstarted_def candidate_phase_def)
    then show "(writable j c \<and> candidate_moves c (Some ?x) \<and> \<not> lease_started l (ac_sent c)) \<and> ?k"
      using c holds_candidate(2) [of x c] by (auto simp: unstarted_def)
  qed auto
  show "runs (\<lambda>c. ?p c \<and> ?k)
     (do { e \<leftarrow> send env (SentStart l (revision_generation_id (sy_digest16 env) l) (gr_runtime_generation_id ?x) (gr_runtime_snapshot_hash ?x));
       if e \<noteq> [] then record_runtime_error env e
       else do { x2 \<leftarrow> stamp env (?x\<lparr>gr_phase := PhStarted\<rparr>);
         e \<leftarrow> save_journal env (with_candidate x2 j);
         if e \<noteq> [] then record_runtime_error env e
         else continue_candidate env hb act b False (with_candidate x2 j) x2 l s h } }) (\<lambda>_ _. True)"
  proof (rule runs_check)
    show "runs (\<lambda>c. ?p c \<and> ?k) (send env (SentStart l (revision_generation_id (sy_digest16 env) l) (gr_runtime_generation_id ?x)
        (gr_runtime_snapshot_hash ?x))) (\<lambda>e c. e = [] \<longrightarrow> ?q c \<and> ?k)"
      by (rule runs_conseq [OF runs_frame [where b = ?k, OF runs_send_start [where x = ?x]]]) auto
    show "runs (\<lambda>c. ?q c \<and> ?k) (do { x2 \<leftarrow> stamp env (?x\<lparr>gr_phase := PhStarted\<rparr>);
         e \<leftarrow> save_journal env (with_candidate x2 j);
         if e \<noteq> [] then record_runtime_error env e
         else continue_candidate env hb act b False (with_candidate x2 j) x2 l s h }) (\<lambda>_ _. True)"
    proof (rule runs_stamp, rule runs_check)
      fix t'
      let ?y = "?x\<lparr>gr_phase := PhStarted\<rparr>\<lparr>gr_updated_at := t'\<rparr>"
      have same': "same_generation ?x ?y"
        by (rule same_generationI) simp_all
      show "runs (\<lambda>c. ?q c \<and> ?k) (save_journal env (with_candidate ?y j)) (\<lambda>e c. e = [] \<longrightarrow> going j ?y l s c)"
        by (rule runs_conseq [OF runs_frame [where b = ?k, OF runs_advance_candidate]])
          (auto simp: candidate_phase_def going_def attempt_def offered_def intro: behind_next [OF _ same' [simplified]])
      show "runs (going j ?y l s) (continue_candidate env hb act b False (with_candidate ?y j) ?y l s h) (\<lambda>_ _. True)"
        using continue_runs [of "with_candidate ?y j" ?y l s] by simp
    qed (intro smooth_intros)
  qed (intro smooth_intros)
qed (intro smooth_intros)

text \<open>A candidate that matches the offer, in whatever phase an earlier round left it.\<close>

definition resumable :: "generation_journal \<Rightarrow> generation_record \<Rightarrow> revision_lease \<Rightarrow> agent_snapshot \<Rightarrow> agent_core \<Rightarrow> bool" where
  "resumable j x l s c \<longleftrightarrow> writable j c \<and> holds x c \<and> gr_phase x \<noteq> PhFailed \<and> lease_key (gr_lease x) = lease_key l \<and> offered l s x"

lemma resumable_going:
  assumes "resumable j x l s c" "core_inv c" "gr_phase x = PhStarted \<or> gr_phase x = PhCutover"
  shows "going j x l s c"
  using assms holds_candidate [of x c] by (auto simp: resumable_def going_def attempt_def)

lemma resumable_unstarted:
  assumes "resumable j x l s c" "core_inv c" "gr_phase x \<noteq> PhStarting" "gr_phase x \<noteq> PhStarted" "gr_phase x \<noteq> PhCutover"
  shows "unstarted j x l s c"
proof -
  have h: "holds x c"
    using assms(1) by (simp add: resumable_def)
  have "gr_phase x = PhPrepared"
    using assms(1,3-5) holds_candidate(1) [OF h assms(2)] by (auto simp: candidate_phase_def resumable_def)
  then show ?thesis
    using assms(1) holds_candidate(3) [OF h assms(2)] by (auto simp: unstarted_def resumable_def lease_started_def)
qed

lemma resume_started_runs:
  assumes "gr_phase x = PhStarted"
  shows "runs (going j x l s) (do {
          r \<leftarrow> the_runtime;
          if \<not> runtime_generation_is_active (active_generation_identity r) x
          then continue_candidate env hb act b False j x l s h
          else do {
            c1 \<leftarrow> stamp env (x\<lparr>gr_phase := PhCutover\<rparr>);
            e \<leftarrow> save_journal env (with_candidate c1 j);
            if e \<noteq> [] then record_runtime_error env e
            else resume_cutover env hb act b (with_candidate c1 j) c1 l s h } }) (\<lambda>_ _. True)"
proof (rule runs_smooth_then [OF smooth_the_runtime stable_going(1)], rule runs_if, rule continue_runs, rule runs_stamp, rule runs_check)
  fix t
  let ?x = "x\<lparr>gr_phase := PhCutover\<rparr>\<lparr>gr_updated_at := t\<rparr>"
  have same: "same_generation x ?x"
    by (rule same_generationI) simp_all
  show "runs (going j x l s) (save_journal env (with_candidate ?x j)) (\<lambda>e c. e = [] \<longrightarrow> going j ?x l s c)"
    by (rule runs_conseq [OF runs_frame [where b = "offered l s x", OF runs_advance_candidate]])
      (auto simp: going_def attempt_def candidate_phase_def offered_def intro: behind_next [OF _ same])
  show "runs (going j ?x l s) (resume_cutover env hb act b (with_candidate ?x j) ?x l s h) (\<lambda>_ _. True)"
    using resume_cutover_runs [of "with_candidate ?x j" ?x l s] by simp
qed (intro smooth_intros)

lemma resume_candidate_runs: "runs (resumable j x l s) (resume_candidate env hb act b j x l s h) (\<lambda>_ _. True)"
  unfolding resume_candidate_def
  by (cases "gr_phase x", simp_all only: generation_phase.case,
      (rule runs_pre [OF start_runs] runs_ends runs_pre [OF resume_started_runs] runs_pre [OF resume_cutover_runs];
        simp add: resumable_going resumable_unstarted)+)


subsection \<open>Identities\<close>

text \<open>A byte of no space stays in the trimmed text.\<close>

lemma trim_by_keeps:
  assumes "c \<in> set s" "\<forall>p \<in> set sps. c \<notin> set p"
  shows "c \<in> set (trim_by (space_width sps) s)"
  using assms(1)
proof (induction "space_width sps" s rule: trim_by.induct)
  case (2 x xs)
  show ?case
  proof (cases "space_width sps (x # xs)")
    case (Suc n)
    then obtain p where p: "p \<in> set sps" "take (length p) (x # xs) = p" "length p = Suc n"
      by (auto simp: space_width_def dest!: find_SomeD split: option.splits)
    then have "c \<notin> set (take (Suc n) (x # xs))"
      using assms(2) by force
    then have "c \<in> set (drop (Suc n) (x # xs))"
      using 2(2) by (metis Un_iff append_take_drop_id set_append)
    then show ?thesis using 2(1) [OF Suc] Suc by simp
  qed (use 2 in simp)
qed simp

lemma visible_nonblank:
  assumes "c \<in> set s" "\<forall>p \<in> set go_spaces. c \<notin> set p"
  shows "\<not> blank s"
proof -
  have "c \<in> set (trim_space s)"
    unfolding trim_space_def using assms by (simp add: trim_by_keeps)
  then show ?thesis by (auto simp: blank_def)
qed

lemma digest_nonblank: "is_digest s \<Longrightarrow> \<not> blank s"
proof -
  assume "is_digest s"
  then obtain c where c: "c \<in> set s" "hex_char c"
    by (cases s) (auto simp: is_digest_def)
  have "\<forall>p \<in> set go_spaces. list_all (\<lambda>c. \<not> hex_char c) p"
    by (simp add: go_spaces_def hex_char_def)
  then show ?thesis
    using c by (intro visible_nonblank [of c]) (auto simp: list_all_iff)
qed

definition identity_visible :: "generation_identity option \<Rightarrow> bool" where
  "identity_visible m = (case m of None \<Rightarrow> True | Some i \<Rightarrow> \<not> blank (gi_id i) \<and> \<not> blank (gi_snapshot_hash i))"

lemma blank_Nil [simp]: "blank []"
  by (simp add: blank_def)

lemma candidate_identity_visible: "candidate_generation_identity env r s h = Some m \<Longrightarrow> identity_visible m"
proof -
  have g: "\<not> blank (''generation-'' @ x)" for x
    by (rule visible_nonblank [of "CHR ''g''"]) (simp_all add: go_spaces_def)
  assume "candidate_generation_identity env r s h = Some m"
  then show ?thesis
    using g digest_nonblank
    by (auto simp: candidate_generation_identity_def generation_identity_of_def Let_def identity_visible_def
        simp del: append.simps split: if_split_asm)
qed

text \<open>A record stays what it is when its runtime identity is filled in.\<close>

lemma bind_keeps:
  assumes "bind_runtime_generation_identity r m = Some (b, r')" "identity_visible m"
  shows "same_generation r r'" "gr_phase r' = gr_phase r" "gr_report_rejected r' = gr_report_rejected r"
    "gr_acknowledged r' = gr_acknowledged r" "runtime_identity_ok r \<Longrightarrow> runtime_identity_ok r'"
proof -
  have ok: "runtime_identity_ok r'" if "runtime_identity_ok r"
    using assms that
    by (auto simp: bind_runtime_generation_identity_def identity_visible_def runtime_identity_ok_def split: option.splits if_splits)
  then show "runtime_identity_ok r \<Longrightarrow> runtime_identity_ok r'" .
  show "same_generation r r'" "gr_phase r' = gr_phase r" "gr_report_rejected r' = gr_report_rejected r"
    "gr_acknowledged r' = gr_acknowledged r"
    using assms(1) ok
    by (auto simp: bind_runtime_generation_identity_def same_generation_def split: option.splits if_splits)
qed


subsection \<open>An offer\<close>

text \<open>What \<open>performRevisionSyncPlan\<close> has checked when it prepares the candidate.\<close>

definition fits :: "generation_journal \<Rightarrow> revision_lease \<Rightarrow> agent_snapshot \<Rightarrow> string \<Rightarrow> agent_core \<Rightarrow> bool" where
  "fits j l s d c \<longleftrightarrow> writable j c \<and> gj_candidate (ac_journal c) = gj_candidate j \<and> leased {l} c \<and>
     as_revision s = le_revision l \<and> list_all (\<lambda>r. gr_revision r \<le> le_revision l) (journal_records j) \<and>
     as_revision (ac_good c) \<le> le_revision l \<and> validate_immutable_revision_digest j (le_revision l) d \<and> \<not> blank d"

lemma stable_fits [simp]: "stable (fits j l s d)"
  by (auto simp: stable_def fits_def sync_preds)

text \<open>The durable journal has the generations of the one in hand.\<close>

lemma near_covers:
  assumes "near j c" "gj_candidate (ac_journal c) = gj_candidate j" "r \<in> set (journal_records (ac_journal c))"
  obtains r' where "r' \<in> set (journal_records j)" "same_generation r r'"
proof -
  from assms(3) consider "gj_active (ac_journal c) = Some r" | "r \<in> set (journal_records j)"
    using assms(1,2) by (auto simp: journal_records_iff near_def)
  then show thesis
  proof cases
    case 1
    then obtain a where "gj_active j = Some a" "advances r a"
      using assms(1) by (auto simp: near_def rel_advances_iff)
    then show thesis
      using that advances_same by (auto simp: journal_records_iff)
  qed (use that in auto)
qed

lemma fits_durable:
  assumes "fits j l s d c" "r \<in> set (journal_records (ac_journal c))"
  shows "gr_revision r \<le> le_revision l"
    "gr_revision r = le_revision l \<Longrightarrow> \<not> blank (gr_snapshot_digest r) \<Longrightarrow> equal_fold (gr_snapshot_digest r) d"
proof -
  obtain r' where r': "r' \<in> set (journal_records j)" "same_generation r r'"
    using near_covers [of j c r] assms by (auto simp: fits_def writable_def)
  then show "gr_revision r \<le> le_revision l"
    "gr_revision r = le_revision l \<Longrightarrow> \<not> blank (gr_snapshot_digest r) \<Longrightarrow> equal_fold (gr_snapshot_digest r) d"
    using assms(1)
    by (auto simp: fits_def list_all_iff validate_immutable_revision_digest_def same_generation_simps(1,2))
qed

text \<open>A lease that matches no record of the journal was not started.\<close>

lemma fits_unstarted:
  assumes "fits j l s d c" "core_inv c" "\<And>x. gj_candidate j = Some x \<Longrightarrow> \<not> matches_offer x l d"
    "\<And>a. gj_active j = Some a \<Longrightarrow> \<not> matches_offer a l d"
  shows "\<not> lease_started l (ac_sent c)"
proof
  assume "lease_started l (ac_sent c)"
  then have "current l (ac_journal c)"
    using assms(1) by (simp add: fits_def leased_def)
  then obtain r where r: "gj_candidate (ac_journal c) = Some r \<or> gj_active (ac_journal c) = Some r" "same_generation_lease r l"
    unfolding current_def by blast
  then have mem: "r \<in> set (journal_records (ac_journal c))"
    by (auto simp: journal_records_iff)
  then have "record_ok r"
    using assms(2) by (simp add: core_inv_def journal_inv_def list_all_iff)
  then have eq: "equal_fold (gr_snapshot_digest r) d"
    using fits_durable(2) [OF assms(1) mem] r(2) by (simp add: record_ok_def same_generation_lease_def)
  obtain a where "gj_candidate j = Some a \<or> gj_active j = Some a" "same_generation r a"
  proof (cases "gj_candidate j = Some r")
    case False
    then have "gj_active (ac_journal c) = Some r"
      using r(1) assms(1) by (auto simp: fits_def)
    then show thesis
      using that assms(1) advances_same by (auto simp: fits_def writable_def near_def rel_advances_iff)
  qed (use that [of r] in simp)
  then show False
    using assms(3,4) eq r(2) by (auto simp: matches_offer_def same_generation_lease_def same_generation_def)
qed

lemma fits_fresh:
  assumes "fits j l s d c" "core_inv c" "\<not> lease_started l (ac_sent c)"
    "bind_runtime_generation_identity (new_candidate env l d t) m = Some (b, x)" "identity_visible m"
  shows "fresh_candidate c x" "candidate_moves c (Some x)" "gr_phase x = PhPrepared" "gr_lease x = l" "gr_revision x = le_revision l"
proof -
  have x: "gr_phase x = PhPrepared" "gr_lease x = l" "gr_revision x = le_revision l" "gr_snapshot_digest x = d"
    "runtime_identity_ok x" "\<not> gr_report_rejected x"
    using bind_keeps [OF assms(4,5)] by (auto simp: same_generation_def new_candidate_def runtime_identity_ok_def)
  then show "gr_phase x = PhPrepared" "gr_lease x = l" "gr_revision x = le_revision l" by auto
  show "fresh_candidate c x"
    using x assms(1,3) fits_durable [OF assms(1)]
    by (auto simp: fresh_candidate_def fits_def validate_immutable_revision_digest_def list_all_iff)
  then show "candidate_moves c (Some x)"
    using x by (auto simp: candidate_moves_def candidate_phase_def)
qed

lemma fits_holds: "fits j l s d c \<Longrightarrow> gj_candidate j = Some x \<Longrightarrow> holds x c"
  by (auto simp: fits_def holds_def)

lemma fits_resumable:
  assumes "fits j l s d c" "core_inv c" "gj_candidate j = Some x" "matches_offer x l d" "gr_phase x \<noteq> PhFailed"
    "same_generation x y" "gr_phase y = gr_phase x" "gr_report_rejected y = gr_report_rejected x"
  shows "resumable j y l s c"
proof -
  have "x \<in> set (journal_records (ac_journal c))"
    using assms(1,3) by (auto simp: journal_records_iff fits_def)
  then have "record_ok x"
    using assms(2) by (simp add: core_inv_def journal_inv_def list_all_iff)
  then show ?thesis
    using assms
    by (auto simp: resumable_def fits_def holds_def matches_offer_def same_generation_lease_def same_generation_def
        lease_key_def record_ok_def offered_def)
qed

lemma prepare_runs:
  assumes active: "\<And>a. gj_active j = Some a \<Longrightarrow> \<not> matches_offer a l d"
    and failed: "\<And>x. gj_candidate j = Some x \<Longrightarrow> gr_phase x = PhFailed \<Longrightarrow> \<not> matches_offer x l d"
    and m: "identity_visible m"
  shows "runs (fits j l s d) (prepare_candidate env hb act b j l s d h m) (\<lambda>_ _. True)"
  unfolding prepare_candidate_def
proof (rule runs_smooth_then [OF smooth_calls(2) stable_fits], rule runs_option, rule runs_ends, rule runs_prod, rule runs_option)
  fix t z z1 fresh
  assume "bind_runtime_generation_identity (new_candidate env l d t) m = Some z" "z = (z1, fresh)"
  then have f: "bind_runtime_generation_identity (new_candidate env l d t) m = Some (z1, fresh)" by simp
  { assume none: "(case gj_candidate j of None \<Rightarrow> None | Some c \<Rightarrow> if matches_offer c l d then Some c else None) = None"
    show "runs (fits j l s d) (do { e \<leftarrow> save_journal env (with_candidate fresh j);
        if e \<noteq> [] then record_runtime_error env e
        else start_candidate env hb act b (with_candidate fresh j) fresh l s h }) (\<lambda>_ _. True)"
    proof (rule runs_check)
      let ?k = "as_revision s = le_revision l \<and> gr_phase fresh = PhPrepared \<and> gr_lease fresh = l \<and> gr_revision fresh = le_revision l"
      show "runs (fits j l s d) (save_journal env (with_candidate fresh j))
          (\<lambda>e c. e = [] \<longrightarrow> unstarted (with_candidate fresh j) fresh l s c)"
      proof (rule runs_conseq [OF runs_frame [where b = ?k, OF runs_save_candidate [where P = "\<lambda>sent. \<not> lease_started l sent"]]])
        fix c assume c: "fits j l s d c" "core_inv c"
        have "\<not> lease_started l (ac_sent c)"
          by (rule fits_unstarted [OF c]) (use active none in \<open>auto split: if_splits\<close>)
        then show "(writable j c \<and> candidate_moves c (Some fresh) \<and> \<not> lease_started l (ac_sent c)) \<and> ?k"
          using fits_fresh [OF c _ f m] c(1) by (auto simp: fits_def)
      qed (auto simp: unstarted_def offered_def)
    qed (intro smooth_intros start_runs)+ }
  fix x assume "(case gj_candidate j of None \<Rightarrow> None | Some c \<Rightarrow> if matches_offer c l d then Some c else None) = Some x"
  then have x: "gj_candidate j = Some x" "matches_offer x l d"
    by (auto split: option.splits if_splits)
  then have nf: "gr_phase x \<noteq> PhFailed" using failed by blast
  let ?rest = "\<lambda>c1. do {
                   c2 \<leftarrow> stamp env c1;
                   e \<leftarrow> save_journal env (with_candidate c2 j);
                   if e \<noteq> [] then record_runtime_error env e
                   else resume_candidate env hb act b (with_candidate c2 j) c2 l s h }"
  have rest: "runs (fits j l s d) (?rest y) (\<lambda>_ _. True)"
    if y: "same_generation x y" "gr_phase y = gr_phase x" "gr_report_rejected y = gr_report_rejected x" for y
  proof (rule runs_stamp, rule runs_check)
    fix t'
    let ?y = "y\<lparr>gr_updated_at := t'\<rparr>"
    have same: "same_generation x ?y"
      using y(1) by (rule same_generation_trans) (rule same_generationI, simp_all)
    let ?k = "gr_phase ?y \<noteq> PhFailed \<and> lease_key (gr_lease ?y) = lease_key l \<and> offered l s ?y"
    show "runs (fits j l s d) (save_journal env (with_candidate ?y j)) (\<lambda>e c. e = [] \<longrightarrow> resumable (with_candidate ?y j) ?y l s c)"
    proof (rule runs_conseq [OF runs_frame [where b = ?k, OF runs_save_candidate [where P = "\<lambda>_. True"]]])
      fix c assume c: "fits j l s d c" "core_inv c"
      then have r: "resumable j ?y l s c"
        using fits_resumable [OF c x nf same] y by simp
      then have h: "holds ?y c" by (simp add: resumable_def)
      have "candidate_moves c (Some ?y)"
        using holds_candidate [OF h c(2)] by (intro behind_moves holds_behind h) auto
      then show "(writable j c \<and> candidate_moves c (Some ?y) \<and> True) \<and> ?k"
        using r by (auto simp: resumable_def)
    qed (auto simp: resumable_def)
  qed (intro smooth_intros resume_candidate_runs)+
  have resume: "runs (fits j l s d) (resume_candidate env hb act b j y l s h) (\<lambda>_ _. True)"
    if y: "same_generation x y" "gr_phase y = gr_phase x" "gr_report_rejected y = gr_report_rejected x" for y
    by (rule runs_pre [OF resume_candidate_runs]) (use fits_resumable x nf y in auto)
  show "runs (fits j l s d)
     (case bind_runtime_generation_identity x m of
        None \<Rightarrow> record_runtime_error env [IdentityInvalid]
      | Some (False, c1) \<Rightarrow> resume_candidate env hb act b j c1 l s h
      | Some (True, c1) \<Rightarrow> ?rest c1) (\<lambda>_ _. True)"
    using bind_keeps [OF _ m] rest resume
    by (auto intro: runs_ends split: option.split bool.split)
qed


text \<open>The offer is the active generation.\<close>

lemma runs_end_save: "gj_active j \<noteq> None \<Longrightarrow> runs (ready E j) (save_journal env j) (\<lambda>_ _. True)"
  by (rule runs_post [OF runs_save_hand]) simp_all

lemma resume_active_runs:
  assumes a: "gj_active j = Some a" and m: "identity_visible m"
  shows "runs (ready E j) (resume_active env j a m) (\<lambda>_ _. True)"
  unfolding resume_active_def
proof (intro runs_option runs_ends runs_prod, unfold Let_def)
  fix z b a1 assume "bind_runtime_generation_identity a m = Some z" "z = (b, a1)"
  then have bound: "advances a a1" "gr_acknowledged a1 = gr_acknowledged a" "gr_report_rejected a1 = gr_report_rejected a"
    using bind_keeps [OF _ m] by (auto simp: advances_def)
  let ?j = "j\<lparr>gj_active := Some a1\<rparr>"
  let ?report = "do { (e, a2) \<leftarrow> resolve_applied_revision_report env a1;
      if e \<noteq> [] then record_runtime_error env e else save_journal env (?j\<lparr>gj_active := Some a2\<rparr>) }"
  have hand: "ready E ?j c" if "ready E j c" for c
  proof (rule ready_active [OF that a bound(1)])
    have "reported_applied (ac_sent c) a"
      using that a by (simp add: ready_def near_def)
    then show "reported_applied (ac_sent c) a1"
      using bound by (simp add: reported_applied_def advances_def same_generation_def)
  qed
  have report: "runs (\<lambda>c. ready E ?j c \<and> \<not> gr_acknowledged a1 \<and> \<not> gr_report_rejected a1) ?report (\<lambda>_ _. True)"
  proof (rule runs_bind_pair [where q = "\<lambda>_ a2 c. advances a1 a2 \<and> ready E (?j\<lparr>gj_active := Some a2\<rparr>) c", OF resolve_runs],
      simp, intro runs_if runs_ends)
    fix a2
    show "runs (\<lambda>c. advances a1 a2 \<and> ready E (?j\<lparr>gj_active := Some a2\<rparr>) c) (save_journal env (?j\<lparr>gj_active := Some a2\<rparr>))
        (\<lambda>_ _. True)"
      by (rule runs_pre [OF runs_end_save [where E = E]]) auto
  qed
  have rest: "runs (ready E ?j) (if gr_acknowledged a1 \<or> gr_report_rejected a1 then clear_last_sync_error_after_successful_sync env
      else ?report) (\<lambda>_ _. True)"
    by (intro runs_if runs_ends) (auto intro: runs_pre [OF report])
  have save: "runs (ready E j) (if b then save_journal env ?j else State_Monad.return []) (\<lambda>e c. e = [] \<longrightarrow> ready E ?j c)"
    by (intro runs_if runs_return)
      (auto intro: hand runs_pre [OF runs_post [OF runs_save_hand [where j = ?j and E = E]]])
  show "runs (ready E j) (do {
      r \<leftarrow> the_runtime;
      if \<not> validate_active_runtime_generation (active_generation_identity r) a1 then record_runtime_error env [RuntimeMismatch]
      else do {
        e \<leftarrow> if b then save_journal env ?j else State_Monad.return [];
        if e \<noteq> [] then record_runtime_error env e
        else if gr_acknowledged a1 \<or> gr_report_rejected a1 then clear_last_sync_error_after_successful_sync env
        else ?report } }) (\<lambda>_ _. True)"
    by (rule runs_smooth_then [OF smooth_the_runtime stable_going(4)], rule runs_if, rule runs_ends,
      rule runs_check [OF save _ rest]) (intro smooth_intros)
qed

text \<open>The floor is above every record.\<close>

lemma floor_above:
  "r \<in> set rs \<Longrightarrow> gr_revision r \<le> fold (\<lambda>r floor. max floor (gr_revision r)) rs z"
  "z \<le> fold (\<lambda>r floor. max floor (gr_revision r)) rs z"
proof (induction rs arbitrary: z)
  case (Cons x rs)
  { case 1 then show ?case using Cons.IH(1) [of "max z (gr_revision x)"] Cons.IH(2) [of "max z (gr_revision x)"] by auto }
  { case 2 then show ?case using Cons.IH(2) [of "max z (gr_revision x)"] by auto }
qed simp_all

lemma adopt_simps [simp]:
  "gj_active (adopt_journal l j) = gj_active j" "gj_candidate (adopt_journal l j) = gj_candidate j"
  "gj_last_known_good (adopt_journal l j) = gj_last_known_good j" "gj_draining (adopt_journal l j) = gj_draining j"
  "gj_version (adopt_journal l j) = (if gj_version j = 0 then 1 else gj_version j)"
  by (simp_all add: adopt_journal_def)

lemma ready_adopt:
  assumes "ready E j c"
  shows "ready E (adopt_journal l j) c" "writable (adopt_journal l j) c"
  using assms by (auto simp: ready_def writable_def near_def)

lemma offer_fits:
  assumes "ready {l} j c" "as_revision s = le_revision l" "is_digest d" "good = ac_good c"
    "\<not> as_revision s < durable_revision_floor r (as_revision good) (adopt_journal l j)"
    "validate_immutable_revision_digest (adopt_journal l j) (as_revision s) d"
  shows "fits (adopt_journal l j) l s d c"
proof -
  let ?j = "adopt_journal l j"
  have "gr_revision x \<le> le_revision l" if "x \<in> set (journal_records ?j)" for x
    using floor_above(1) [OF that, of "max r (as_revision good)"] assms(2,5) by (simp add: durable_revision_floor_def)
  moreover have "as_revision good \<le> le_revision l"
    using floor_above(2) [of "max r (as_revision good)" "journal_records ?j"] assms(2,5) by (simp add: durable_revision_floor_def)
  ultimately show ?thesis
    using assms ready_adopt [OF assms(1)] digest_nonblank [OF assms(3)]
    by (auto simp: fits_def list_all_iff ready_def)
qed

lemma offer_runs:
  assumes "as_revision s = le_revision l" "is_digest d"
  shows "runs (ready {l} j) (sync_offer env hb act j l s d) (\<lambda>_ _. True)"
proof -
  let ?j = "adopt_journal l j"
  let ?p = "\<lambda>good c. ready {l} j c \<and> good = ac_good c"
  have stable: "stable (?p good)" for good
    by (auto simp: stable_def sync_preds)
  have replay: "runs (?p good) (replay_failed_revision_report env ?j x) (\<lambda>_ _. True)"
    if "(case gj_candidate ?j of None \<Rightarrow> None | Some c \<Rightarrow> if gr_phase c = PhFailed \<and> matches_offer c l d then Some c else None) = Some x"
    for x good
    by (rule runs_pre [OF replay_runs]) (use that ready_adopt in \<open>auto simp: ready_def holds_def split: option.splits if_splits\<close>)
  have resume: "runs (?p good) (resume_active env ?j a m) (\<lambda>_ _. True)" if "gj_active ?j = Some a" "identity_visible m" for a m good
    by (rule runs_pre [OF resume_active_runs [OF that, where E = "{l}"]]) (use ready_adopt in auto)
  have prepare: "runs (?p good) (prepare_candidate env hb act b ?j l s d h m) (\<lambda>_ _. True)"
    if "(case gj_candidate ?j of None \<Rightarrow> None | Some c \<Rightarrow> if gr_phase c = PhFailed \<and> matches_offer c l d then Some c else None) = None"
      "identity_visible m" "\<And>a. gj_active ?j = Some a \<Longrightarrow> \<not> matches_offer a l d"
      "\<not> as_revision s < durable_revision_floor r (as_revision good) ?j"
      "validate_immutable_revision_digest ?j (as_revision s) d" for b h m r good
    by (rule runs_pre [OF prepare_runs]) (use that assms offer_fits in \<open>auto split: option.splits if_splits\<close>)
  have load: "runs (ready {l} j) (load env sw_last_known_good) (\<lambda>z. ?p (snd z))"
    by (rule runs_load [where q = "\<lambda>_. ?p" and g = ac_good]) (auto simp: core_def)
  show ?thesis
    unfolding sync_offer_def Let_def
    by (intro runs_if runs_ends runs_bind [OF load] runs_prod runs_smooth_then smooth_the_runtime runs_option replay)
      (auto intro!: stable prepare resume candidate_identity_visible)
qed


subsection \<open>A round\<close>

definition offered_leases :: "sync_env \<Rightarrow> revision_lease set" where
  "offered_leases env = {l. \<exists>n. pl_lease (sy_pull env n) = Some l}"

lemma stable_frame [simp]: "stable p \<Longrightarrow> stable (\<lambda>c. p c \<and> b)"
  by (simp add: stable_def)

lemma runs_client_send: "runs p (client_send env m) (\<lambda>_. p)"
  unfolding client_send_def by (rule runs_call) (auto simp: core_def)

lemma pull_runs:
  "runs p (pull_call env) (\<lambda>z c. p c \<and> (fst z = [] \<longrightarrow> snd z \<in> range (sy_pull env)))"
proof -
  have failure: "runs q (report_dataset_preparation_failure env l) (\<lambda>_. q)" for q l
    unfolding report_dataset_preparation_failure_def Let_def
    by (intro runs_bind [OF runs_client_send] runs_if runs_client_send) (auto intro: runs_return)
  have answer: "runs p (call env ([CallFailed], no_pull, None)
      (\<lambda>n w. ((call_errors env n, sy_pull env n, sy_dataset_failure env n), w)))
      (\<lambda>z c. p c \<and> (fst z = [] \<longrightarrow> fst (snd z) \<in> range (sy_pull env)))"
    by (rule runs_call) auto
  show ?thesis
    unfolding pull_call_def
    by (rule runs_bind [OF answer])
      (auto intro!: runs_prod runs_if runs_option runs_return runs_bind [OF failure])
qed

lemma validated_offer:
  assumes "validate_revision_pull t p = Some (l, s, d)"
  shows "pl_lease p = Some l" "as_revision s = le_revision l" "is_digest d"
  using assms by (auto simp: validate_revision_pull_def Let_def split: option.splits if_splits)

lemma runs_no_update: "runs p (sync_no_update env ack s) (\<lambda>_ _. True)"
  by (intro smooth_runs_any smooth_intros)

lemma sync_pull_runs: "runs (ready (offered_leases env) j) (sync_pull env ack hb j) (\<lambda>_ _. True)"
proof -
  let ?p = "\<lambda>p c. ready (offered_leases env) j c \<and> p \<in> range (sy_pull env)"
  let ?q = "\<lambda>e p c. ready (offered_leases env) j c \<and> (e = [] \<longrightarrow> p \<in> range (sy_pull env))"
  have offer: "runs (?p p) (sync_offer env hb act j l s d) (\<lambda>_ _. True)"
    if v: "validate_revision_pull t p = Some (l, s, d)" for t p act l s d
  proof (rule runs_pre [OF offer_runs [OF validated_offer(2,3) [OF v]]])
    fix c assume "?p p c"
    then show "ready {l} j c"
      using validated_offer(1) [OF v] by (auto simp: ready_def leased_def offered_leases_def)
  qed
  show ?thesis
    unfolding sync_pull_def
    by (rule runs_bind_pair [where q = ?q, OF pull_runs],
      intro runs_if runs_ends runs_no_update runs_smooth_then smooth_intros runs_option runs_prod)
      (auto intro: offer)
qed

lemma sync_heartbeat_runs: "runs (ready (offered_leases env) j) (sync_heartbeat env metas ack j) (\<lambda>_ _. True)"
  unfolding sync_heartbeat_def
  by (intro runs_if runs_ends runs_smooth_then smooth_intros runs_prod sync_pull_runs stable_going)

lemma validate_near:
  "validate_generation_journal j \<Longrightarrow> gj_version j = 1 \<or> gj_version j = 0 \<and> gj_active j = None"
  by (auto simp: validate_generation_journal_def split: if_splits)

lemma loaded_ready:
  assumes "leased E c" "j = ac_journal c" "core_inv c"
  shows "ready E j c"
proof -
  have "validate_generation_journal j"
    using assms(2,3) by (simp add: core_inv_def journal_inv_def)
  then show ?thesis
    using assms validate_near by (auto simp: ready_def near_def core_inv_def active_inv_def)
qed

lemma round_runs: "runs (leased (offered_leases env)) (perform_revision_sync_plan env metas) (\<lambda>_ _. True)"
proof -
  let ?E = "offered_leases env"
  have leased: "stable (leased ?E)"
    by (auto simp: stable_def leased_def)
  have load: "runs (leased ?E) (load env sw_journal) (\<lambda>z. ready ?E (snd z))"
    by (rule runs_post [OF runs_load [where q = "\<lambda>_ j c. leased ?E c \<and> j = ac_journal c" and g = ac_journal]])
      (auto simp: core_def intro: loaded_ready)
  have drains: "runs (ready ?E j) (if ack = [] then report_completed_generation_drains env j else State_Monad.return ([], j))
      (\<lambda>z c. fst z = [] \<longrightarrow> ready ?E (snd z) c)" for ack j
    by (intro runs_if completed_drains_runs runs_return) simp
  have heartbeat: "runs (\<lambda>c. e = [] \<longrightarrow> ready ?E j c)
      (if e \<noteq> [] then record_runtime_error env e else sync_heartbeat env metas ack j) (\<lambda>_ _. True)" for e ack j
    by (intro runs_if runs_ends) (auto intro: runs_pre [OF sync_heartbeat_runs])
  have reports: "runs (ready ?E j)
      (do {
         (ack, j1) \<leftarrow> recover_active_revision_acknowledgement env j;
         (e, j2) \<leftarrow> (if ack = [] then report_completed_generation_drains env j1 else State_Monad.return ([], j1));
         if e \<noteq> [] then record_runtime_error env e else sync_heartbeat env metas ack j2
       }) (\<lambda>_ _. True)" for j
    by (rule runs_bind_pair [where q = "\<lambda>_. ready ?E", OF recover_runs],
      rule runs_bind_pair [where q = "\<lambda>e j c. e = [] \<longrightarrow> ready ?E j c", OF drains], rule heartbeat)
  show ?thesis
    unfolding perform_revision_sync_plan_def
    by (rule runs_smooth_then [OF smooth_restore(1) leased], rule runs_if, rule runs_ends,
      rule runs_bind [OF load], rule runs_prod, intro runs_if runs_ends)
      (auto intro!: runs_smooth_then smooth_intros runs_if runs_ends reports)
qed

end
