(* ===== verification/SyncLive.thy ===== *)
theory SyncLive
  imports SyncRounds
begin

text \<open>
  A round in which every call succeeds: the open reports go out, the traffic state of the heartbeat is taken
  over, and the offered revision becomes active, in one round, with its start and its report.
\<close>

subsection \<open>Runs without errors\<close>

definition clear_env :: "sync_env \<Rightarrow> bool" where
  "clear_env env \<longleftrightarrow> (\<forall>n. \<not> sy_dies env n \<and> sy_error env n = None \<and> sy_dataset_failure env n = None)"

text \<open>From a protocol state, a live process runs the program to the end, with a result and a state.\<close>

definition ends :: "agent_core \<Rightarrow> (sync_world, 'a) state \<Rightarrow> ('a \<Rightarrow> agent_core \<Rightarrow> bool) \<Rightarrow> bool" where
  "ends c m q \<longleftrightarrow> (\<forall>w. \<not> sw_dead w \<and> core w = c \<longrightarrow>
     \<not> sw_dead (snd (run_state m w)) \<and> q (fst (run_state m w)) (core (snd (run_state m w))))"

lemma ends_return: "q x c \<Longrightarrow> ends c (State_Monad.return x) q"
  by (simp add: ends_def)

lemma ends_bind:
  assumes "ends c m p" "\<And>x d. p x d \<Longrightarrow> ends d (f x) q"
  shows "ends c (State_Monad.bind m f) q"
  unfolding ends_def
proof (intro allI impI)
  fix w assume w: "\<not> sw_dead w \<and> core w = c"
  obtain x v where run: "run_state m w = (x, v)" by (cases "run_state m w")
  then have "\<not> sw_dead v" "p x (core v)"
    using assms(1) w by (auto simp: ends_def)
  then show "\<not> sw_dead (snd (run_state (State_Monad.bind m f) w)) \<and>
      q (fst (run_state (State_Monad.bind m f) w)) (core (snd (run_state (State_Monad.bind m f) w)))"
    using assms(2) [of x "core v"] run by (auto simp: ends_def)
qed

text \<open>The program goes on with a known result in a known state.\<close>

lemma ends_then: "ends c m (\<lambda>y d. y = x \<and> d = c') \<Longrightarrow> ends c' (f x) q \<Longrightarrow> ends c (State_Monad.bind m f) q"
  by (erule ends_bind) auto

lemma ends_call:
  assumes "clear_env env" "\<And>n w. core w = c \<Longrightarrow> \<not> sw_dead w \<Longrightarrow> \<not> sw_dead (snd (f n w)) \<and> p (fst (f n w)) (core (snd (f n w)))"
  shows "ends c (call env d f) p"
proof -
  have [simp]: "core (w\<lparr>sw_calls := n\<rparr>) = core w" for w n
    by (simp add: core_def)
  show ?thesis
    unfolding ends_def call_def using assms by (auto simp: Let_def clear_env_def)
qed

lemma clear_errors [simp]: "clear_env env \<Longrightarrow> call_errors env n = []" "clear_env env \<Longrightarrow> sy_error env n = None"
  "clear_env env \<Longrightarrow> sy_dataset_failure env n = None"
  by (simp_all add: clear_env_def call_errors_def)

lemma ends_save:
  assumes "clear_env env" "\<And>w. core (upd w) = g (core w)" "\<And>w. sw_dead (upd w) = sw_dead w"
  shows "ends c (save env upd) (\<lambda>y d. y = [] \<and> d = g c)"
  unfolding save_def by (rule ends_call) (use assms in auto)

lemma ends_saves:
  assumes "clear_env env"
  shows "ends c (save_journal env j) (\<lambda>y d. y = [] \<and> d = c\<lparr>ac_journal := j\<rparr>)"
    "ends c (save_last_known_good env s) (\<lambda>y d. y = [] \<and> d = c\<lparr>ac_good := s\<rparr>)"
    "ends c (save_applied env s) (\<lambda>y d. y = [] \<and> d = c\<lparr>ac_applied := s\<rparr>)"
    "ends c (save_desired env s) (\<lambda>y d. y = [] \<and> d = c)"
    "ends c (save_runtime_state env st) (\<lambda>y d. y = [] \<and> d = c)"
  unfolding save_journal_def save_last_known_good_def save_applied_def save_desired_def save_runtime_state_def
  by (rule ends_save [OF assms]; simp add: core_def)+

lemma ends_send:
  "clear_env env \<Longrightarrow> ends c (send env m) (\<lambda>y d. y = [] \<and> d = c\<lparr>ac_sent := ac_sent c @ [m]\<rparr>)"
  unfolding send_def by (rule ends_call) (auto simp: core_def)

lemma ends_load:
  assumes "clear_env env" "\<And>w. get w = g (core w)"
  shows "ends c (load env get) (\<lambda>y d. y = ([], g c) \<and> d = c)"
proof -
  have "ends c (call env ([CallFailed], d) (\<lambda>n w. ((call_errors env n, get w), w))) (\<lambda>y d. y = ([], g c) \<and> d = c)" for d
    by (rule ends_call) (use assms in auto)
  then show ?thesis unfolding load_def ends_def by simp
qed

lemma ends_load_applied:
  assumes "clear_env env"
  shows "ends c (load_applied env) (\<lambda>y d. y = ([], ac_applied c) \<and> d = c)"
proof -
  have "ends c (call env ([CallFailed], d) (\<lambda>n w. (if sy_error env n \<noteq> None \<and> sy_fallback env n \<and>
      as_revision (sw_last_known_good w) > 0 then ([], sw_last_known_good w) else (call_errors env n, sw_applied w), w)))
      (\<lambda>y d. y = ([], ac_applied c) \<and> d = c)" for d
    by (rule ends_call) (use assms in \<open>auto simp: core_def\<close>)
  then show ?thesis unfolding load_applied_def ends_def by simp
qed

lemma ends_ask: "clear_env env \<Longrightarrow> ends c (ask env) (\<lambda>y d. y = [] \<and> d = c)"
  unfolding ask_def by (rule ends_call) auto

lemma ends_load_any:
  assumes "clear_env env" "\<And>z. ends c (f ([], z)) q"
  shows "ends c (State_Monad.bind (load env get) f) q"
proof (rule ends_bind [where p = "\<lambda>y d. (\<exists>z. y = ([], z)) \<and> d = c"])
  have "ends c (call env ([CallFailed], d) (\<lambda>n w. ((call_errors env n, get w), w))) (\<lambda>y d. (\<exists>z. y = ([], z)) \<and> d = c)" for d
    by (rule ends_call) (use assms(1) in auto)
  then show "ends c (load env get) (\<lambda>y d. (\<exists>z. y = ([], z)) \<and> d = c)"
    unfolding load_def ends_def by simp
qed (use assms(2) in auto)

lemma ends_the_runtime: "ends c the_runtime (\<lambda>y d. y = ac_runtime c \<and> d = c)"
  by (auto simp: ends_def the_runtime_def core_def)

lemma ends_now:
  assumes "clear_env env" "\<And>n. ends c (f (sy_now env n)) q"
  shows "ends c (State_Monad.bind (now_is env) f) q"
proof (rule ends_bind [where p = "\<lambda>y d. (\<exists>n. y = sy_now env n) \<and> d = c"])
  show "ends c (now_is env) (\<lambda>y d. (\<exists>n. y = sy_now env n) \<and> d = c)"
    unfolding now_is_def by (rule ends_call) (use assms(1) in auto)
qed (use assms(2) in auto)

lemma ends_stamp:
  assumes "clear_env env" "\<And>t. ends c (f (r\<lparr>gr_updated_at := t\<rparr>)) q"
  shows "ends c (State_Monad.bind (stamp env r) f) q"
  unfolding stamp_def bind_assoc bind_left_identity by (rule ends_now [OF assms(1)]) (rule assms(2))


lemma ends_check:
  "ends c m (\<lambda>y d. y = [] \<and> d = c') \<Longrightarrow> ends c' g q \<Longrightarrow> ends c (State_Monad.bind m (\<lambda>e. if e \<noteq> [] then h e else g)) q"
  by (rule ends_then [where x = "[]"]) auto

lemma ends_result:
  assumes "ends c m (\<lambda>z d. fst z = [] \<and> P d)" "\<And>d. P d \<Longrightarrow> Q d"
  shows "ends c (State_Monad.bind m (\<lambda>(e, _). State_Monad.return e)) (\<lambda>e d. e = [] \<and> Q d)"
  by (rule ends_bind [OF assms(1)]) (auto intro: ends_return assms(2))

subsection \<open>The parts of a clear round\<close>

text \<open>The interval of the runtime's snapshot can be recorded.\<close>

definition interval_known :: "sync_env \<Rightarrow> agent_snapshot \<Rightarrow> bool" where
  "interval_known env s \<longleftrightarrow> trim_space (as_interval s) = [] \<or> sy_interval_ok env (trim_space (as_interval s))"

lemma persist_ends:
  assumes "clear_env env" "interval_known env (active_snapshot (ac_runtime c))"
  shows "ends c (persist_runtime_state env b) (\<lambda>y d. y = [] \<and> d = c)"
proof -
  let ?s = "active_snapshot (ac_runtime c)"
  have persist: "ends c (runtime_state_for_persistence env) (\<lambda>y d. fst y = [] \<and> d = c)"
    unfolding runtime_state_for_persistence_def
    by (rule ends_load_any [OF assms(1)], simp, rule ends_then [OF ends_the_runtime], rule ends_return) simp
  show ?thesis
    unfolding persist_runtime_state_def Let_def
    by (rule ends_bind [OF persist])
      (use assms(2) ends_saves(5) [OF assms(1)] in
        \<open>auto simp: interval_known_def intro!: ends_then [OF ends_the_runtime]\<close>)
qed

lemma retire_ends: "clear_env env \<Longrightarrow> ends c (authorize_plugin_log_retirements env) (\<lambda>y d. y = [] \<and> d = c)"
  by (auto simp: authorize_plugin_log_retirements_def intro: ends_return ends_ask)

lemma journal_retire_ends: "clear_env env \<Longrightarrow> ends c (authorize_journal_plugin_log_retirements env j) (\<lambda>y d. y = [] \<and> d = c)"
  unfolding authorize_journal_plugin_log_retirements_def Let_def
  by (auto intro!: ends_return ends_then [OF ends_load_applied] ends_then [OF ends_the_runtime] retire_ends)

lemma resolve_ends:
  assumes "clear_env env"
  shows "ends c (resolve_applied_revision_report env a)
     (\<lambda>z d. (\<exists>t. z = ([], a\<lparr>gr_acknowledged := True\<rparr>\<lparr>gr_updated_at := t\<rparr>)) \<and>
        d = c\<lparr>ac_sent := ac_sent c @ [SentApplied (gr_lease a) (gr_generation_id a)]\<rparr>)"
  unfolding resolve_applied_revision_report_def
  by (rule ends_then [OF ends_send [OF assms]], subst if_P, simp, rule ends_stamp [OF assms], rule ends_return) blast

text \<open>The drains of the replaced generations: some are reported.\<close>

definition drain_only :: "agent_message list \<Rightarrow> bool" where
  "drain_only ms \<longleftrightarrow> (\<forall>m \<in> set ms. \<exists>l g d. m = SentDrain l g d)"

definition drained_from :: "generation_journal \<Rightarrow> agent_core \<Rightarrow> agent_core \<Rightarrow> bool" where
  "drained_from j c d \<longleftrightarrow> (\<exists>ps ms. d = c\<lparr>ac_journal := j\<lparr>gj_draining := ps\<rparr>, ac_sent := ac_sent c @ ms\<rparr> \<and> drain_only ms \<and>
     set ps \<subseteq> set (gj_draining j))"

lemma drained_from_refl: "ac_journal c = j \<Longrightarrow> drained_from j c c"
  unfolding drained_from_def
  by (intro exI [of _ "gj_draining j"] exI [of _ "[]"]) (auto simp: drain_only_def)

lemma report_drains_ends:
  assumes "clear_env env"
  shows "ac_journal c = j \<Longrightarrow> set kept \<union> set ps \<subseteq> set (gj_draining j) \<Longrightarrow>
    ends c (report_drains env ds a j kept ps) (\<lambda>z d. fst z = [] \<and> snd z = ac_journal d \<and> drained_from j c d)"
proof (induction ps arbitrary: j kept c)
  case Nil
  then show ?case using drained_from_refl by (auto intro: ends_return)
next
  case (Cons p ps)
  show ?case
  proof (cases "completed_runtime_drain ds p a")
    case None
    then show ?thesis using Cons by simp
  next
    case (Some dr)
    let ?j = "j\<lparr>gj_draining := kept @ ps\<rparr>" and ?m = "SentDrain (gr_lease a) (gr_generation_id p) dr"
    have rest: "ends (c\<lparr>ac_sent := ac_sent c @ ms, ac_journal := ?j\<rparr>) (report_drains env ds a ?j kept ps)
        (\<lambda>z d. fst z = [] \<and> snd z = ac_journal d \<and> drained_from j c d)" if ms: "drain_only ms" for ms
    proof -
      let ?c = "c\<lparr>ac_sent := ac_sent c @ ms, ac_journal := ?j\<rparr>"
      have "drained_from j c d" if d: "drained_from ?j ?c d" for d
      proof -
        obtain qs ms' where "d = ?c\<lparr>ac_journal := ?j\<lparr>gj_draining := qs\<rparr>, ac_sent := ac_sent ?c @ ms'\<rparr>" "drain_only ms'"
          "set qs \<subseteq> set (gj_draining ?j)"
          using d by (auto simp: drained_from_def)
        then have "d = c\<lparr>ac_journal := j\<lparr>gj_draining := qs\<rparr>, ac_sent := ac_sent c @ ms @ ms'\<rparr> \<and> drain_only (ms @ ms') \<and>
            set qs \<subseteq> set (gj_draining j)"
          using ms Cons.prems(2) by (auto simp: drain_only_def)
        then show ?thesis unfolding drained_from_def by blast
      qed
      moreover have "set kept \<union> set ps \<subseteq> set (gj_draining ?j)" by simp
      ultimately show ?thesis
        using Cons.IH [of ?c ?j kept] by (auto simp: ends_def)
    qed
    have save: "ends (c\<lparr>ac_sent := ac_sent c @ ms\<rparr>) (do { e \<leftarrow> save_journal env ?j;
        if e \<noteq> [] then State_Monad.return (e, ?j) else report_drains env ds a ?j kept ps })
        (\<lambda>z d. fst z = [] \<and> snd z = ac_journal d \<and> drained_from j c d)" if "drain_only ms" for ms
      by (rule ends_then [OF ends_saves(1) [OF assms]]) (use rest [OF that] in simp)
    have "drain_only []" "drain_only [?m]" by (auto simp: drain_only_def)
    then show ?thesis
      unfolding report_drains.simps Some option.case Let_def
      using save [of "[]"] save [of "[?m]"]
      by (cases "gr_report_rejected p") (auto intro: ends_then [OF ends_send [OF assms]])
  qed
qed

lemma completed_drains_ends:
  assumes "clear_env env" "ac_journal c = j" "\<And>a. gj_active j = Some a \<Longrightarrow> le_revision (gr_lease a) = gr_revision a \<and> \<not> blank (le_lease_id (gr_lease a))"
  shows "ends c (report_completed_generation_drains env j) (\<lambda>z d. fst z = [] \<and> snd z = ac_journal d \<and> drained_from j c d)"
  unfolding report_completed_generation_drains_def
  using assms(2,3) drained_from_refl [OF assms(2)]
  by (auto split: option.split intro!: ends_return ends_then [OF ends_the_runtime] report_drains_ends [OF assms(1) refl])

text \<open>How a round with a new revision ends.\<close>

definition switched :: "revision_lease \<Rightarrow> agent_snapshot \<Rightarrow> agent_core \<Rightarrow> agent_core \<Rightarrow> bool" where
  "switched l s c d \<longleftrightarrow> (\<exists>a. gj_active (ac_journal d) = Some a \<and> gj_last_known_good (ac_journal d) = Some a \<and>
     gj_candidate (ac_journal d) = None \<and> gr_lease a = l \<and> gr_revision a = le_revision l \<and> gr_acknowledged a \<and>
     ac_good d = s \<and>
     (\<exists>ms. ac_sent d = ac_sent c @ [SentApplied l (gr_generation_id a)] @ ms \<and> drain_only ms))"

lemma finish_ends:
  assumes "clear_env env" "gr_lease x = l" "gr_revision x = le_revision l" "\<not> blank (le_lease_id l)" "\<not> gr_report_rejected x"
  shows "ends c (finish_revision_acknowledgement env j x s)
    (\<lambda>e d. e = [] \<and> switched l s c d \<and> ac_runtime d = ac_runtime c \<and> ac_applied d = ac_applied c)"
  unfolding finish_revision_acknowledgement_def Let_def
proof (rule ends_stamp [OF assms(1)], rule ends_check [OF ends_saves(2) [OF assms(1)]],
    rule ends_check [OF ends_saves(1) [OF assms(1)]], rule ends_bind [OF resolve_ends [OF assms(1)]], elim conjE exE, hypsubst,
    unfold prod.case, subst if_not_P, simp)
  fix t t'
  let ?x = "x\<lparr>gr_phase := PhActive, gr_acknowledged := False\<rparr>\<lparr>gr_updated_at := t\<rparr>"
  let ?a = "?x\<lparr>gr_acknowledged := True\<rparr>\<lparr>gr_updated_at := t'\<rparr>"
  let ?j1 = "j\<lparr>gj_draining := append_draining_generation (gj_draining j) (gj_active j) ?x, gj_active := Some ?x,
       gj_last_known_good := Some ?x, gj_candidate := None\<rparr>"
  let ?j = "?j1\<lparr>gj_active := Some ?a, gj_last_known_good := Some ?a\<rparr>"
  let ?c = "c\<lparr>ac_good := s\<rparr>\<lparr>ac_journal := ?j1\<rparr>"
  let ?d = "?c\<lparr>ac_sent := ac_sent ?c @ [SentApplied (gr_lease ?x) (gr_generation_id ?x)]\<rparr>"
  let ?e = "?d\<lparr>ac_journal := ?j\<rparr>"
  have "ends ?e (report_completed_generation_drains env ?j) (\<lambda>z d. fst z = [] \<and> snd z = ac_journal d \<and> drained_from ?j ?e d)"
    by (rule completed_drains_ends [OF assms(1)]) (use assms in auto)
  then have drains: "ends ?e (report_completed_generation_drains env ?j) (\<lambda>z d. fst z = [] \<and> drained_from ?j ?e d)"
    by (simp add: ends_def)
  have fine: "switched l s c d \<and> ac_runtime d = ac_runtime c \<and> ac_applied d = ac_applied c" if "drained_from ?j ?e d" for d
    using that assms(2,3) by (auto simp: drained_from_def switched_def)
  show "ends ?d (do { e \<leftarrow> save_journal env ?j; if e \<noteq> [] then record_runtime_error env e
      else if gr_report_rejected ?a then State_Monad.return []
      else do { (e, _) \<leftarrow> report_completed_generation_drains env ?j; State_Monad.return e } })
    (\<lambda>e d. e = [] \<and> switched l s c d \<and> ac_runtime d = ac_runtime c \<and> ac_applied d = ac_applied c)"
  proof (rule ends_check [OF ends_saves(1) [OF assms(1)]], subst if_not_P)
    show "\<not> gr_report_rejected ?a" using assms(5) by simp
    show "ends ?e (do { (e, _) \<leftarrow> report_completed_generation_drains env ?j; State_Monad.return e })
      (\<lambda>e d. e = [] \<and> switched l s c d \<and> ac_runtime d = ac_runtime c \<and> ac_applied d = ac_applied c)"
      by (rule ends_result [OF drains fine])
  qed
qed


text \<open>The generation manager accepts the candidate, and then runs it.\<close>

definition accepts :: "generation_identity \<Rightarrow> agent_runtime \<Rightarrow> bool" where
  "accepts i r \<longleftrightarrow> ar_managed r \<and> (case ar_view r of None \<Rightarrow> True | Some (i0, _) \<Rightarrow> gi_id i0 \<noteq> gi_id i) \<and>
     (case ar_drain r of None \<Rightarrow> True | Some dc \<Rightarrow> validate_generation_drain dc i (map_option fst (ar_view r)))"

definition running :: "generation_identity \<Rightarrow> agent_snapshot \<Rightarrow> agent_runtime \<Rightarrow> bool" where
  "running i s r \<longleftrightarrow> ar_managed r \<and> (\<exists>t. ar_view r = Some (i, overlay_traffic_runtime s t))"

lemma running_snapshot: "running i s r \<Longrightarrow> as_interval (active_snapshot r) = as_interval s"
  by (auto simp: running_def active_snapshot_def overlay_traffic_runtime_def split: option.splits)

lemma manager_apply_running:
  assumes "accepts i r" "generation_identity_of s h = Some i"
  shows "\<exists>r'. manager_apply denv True b p s tr h t r = Some r' \<and> running i s r' \<and>
    (ar_view r' = Some (i, overlay_traffic_runtime s tr))"
  using assms by (auto simp: manager_apply_def accepts_def running_def Let_def split: option.splits prod.splits)

lemma apply_ends:
  assumes "clear_env env" "accepts i (ac_runtime c)" "generation_identity_of s (if h = [] then sy_digest env s else h) = Some i"
  shows "ends c (apply_runtime env True (active_snapshot (ac_runtime c)) s t tr h)
     (\<lambda>y d. y = [] \<and> (\<exists>r'. d = c\<lparr>ac_runtime := r'\<rparr> \<and> running i s r'))"
  unfolding apply_runtime_def
proof (rule ends_call [OF assms(1)])
  fix n w assume w: "core w = c" "\<not> sw_dead w"
  let ?r = "sw_runtime w"
  have r: "?r = ac_runtime c" using w(1) by (auto simp: core_def)
  obtain r' where r': "manager_apply (sy_drain env n) True (sy_progressive env n) (active_snapshot ?r) s tr
      (if h = [] then sy_digest env s else h) t ?r = Some r'" "running i s r'" "ar_view r' = Some (i, overlay_traffic_runtime s tr)"
    using manager_apply_running [OF assms(2,3)] r by metis
  have v: "ar_view r' = Some (i, overlay_traffic_runtime s tr)" "ar_managed ?r"
    using r'(3) assms(2) r by (auto simp: accepts_def)
  define r2 where "r2 = set_active_snapshot (overlay_traffic_runtime s tr) (case tr of None \<Rightarrow> r' | Some t \<Rightarrow> set_traffic_runtime t r')"
  have run: "running i s r2"
    unfolding r2_def using r'(2)
    by (auto split: option.split simp: running_def set_traffic_runtime_def set_active_snapshot_def)
  have "runtime_activate (sy_drain env n) (sy_error env n \<noteq> Some LeaseOver) (sy_error env n = None) (sy_progressive env n)
      (sy_digest env) True (active_snapshot ?r) s t tr h ?r = (True, r2)"
    using assms(1) r'(1) v by (simp add: runtime_activate_def Let_def r2_def)
  moreover have "core (w\<lparr>sw_runtime := r2\<rparr>) = c\<lparr>ac_runtime := r2\<rparr>"
    using w(1) by (auto simp: core_def)
  ultimately show "\<not> sw_dead (snd (case runtime_activate (sy_drain env n) (sy_error env n \<noteq> Some LeaseOver)
        (sy_error env n = None) (sy_progressive env n) (sy_digest env) True (active_snapshot (ac_runtime c)) s t tr h ?r of
      (ok, r) \<Rightarrow> ((if ok then [] else [ApplyFailed]), w\<lparr>sw_runtime := r\<rparr>))) \<and>
    fst (case runtime_activate (sy_drain env n) (sy_error env n \<noteq> Some LeaseOver)
        (sy_error env n = None) (sy_progressive env n) (sy_digest env) True (active_snapshot (ac_runtime c)) s t tr h ?r of
      (ok, r) \<Rightarrow> ((if ok then [] else [ApplyFailed]), w\<lparr>sw_runtime := r\<rparr>)) = [] \<and>
    (\<exists>r'. core (snd (case runtime_activate (sy_drain env n) (sy_error env n \<noteq> Some LeaseOver)
        (sy_error env n = None) (sy_progressive env n) (sy_digest env) True (active_snapshot (ac_runtime c)) s t tr h ?r of
      (ok, r) \<Rightarrow> ((if ok then [] else [ApplyFailed]), w\<lparr>sw_runtime := r\<rparr>))) = c\<lparr>ac_runtime := r'\<rparr> \<and> running i s r')"
    using w(2) run r by auto
qed

definition bound_to :: "generation_identity \<Rightarrow> generation_record \<Rightarrow> bool" where
  "bound_to i x \<longleftrightarrow> gr_runtime_generation_id x = gi_id i \<and> gr_runtime_snapshot_hash x = gi_snapshot_hash i \<and>
     gr_revision x = gi_revision i \<and> gi_id i \<noteq> []"

lemma running_valid: "running i s r \<Longrightarrow> bound_to i x \<Longrightarrow> validate_active_runtime_generation (active_generation_identity r) x"
  by (auto simp: validate_active_runtime_generation_def active_generation_identity_def running_def bound_to_def identity_matches_def)

text \<open>A candidate of the lease, with its identity.\<close>

definition candidate_for :: "revision_lease \<Rightarrow> generation_identity \<Rightarrow> generation_record \<Rightarrow> bool" where
  "candidate_for l i x \<longleftrightarrow> gr_lease x = l \<and> gr_revision x = le_revision l \<and> \<not> blank (le_lease_id l) \<and> \<not> gr_report_rejected x \<and>
     bound_to i x"

lemma candidate_for_next:
  "candidate_for l i (x\<lparr>gr_phase := ph, gr_updated_at := t\<rparr>) = candidate_for l i x"
  by (simp add: candidate_for_def bound_to_def)

definition done_with :: "revision_lease \<Rightarrow> agent_snapshot \<Rightarrow> generation_identity \<Rightarrow> agent_core \<Rightarrow> agent_core \<Rightarrow> bool" where
  "done_with l s i c d \<longleftrightarrow> switched l s c d \<and> running i s (ac_runtime d) \<and> ac_applied d = s"

lemma commit_ends:
  assumes "clear_env env" "running i s (ac_runtime c)" "candidate_for l i x" "interval_known env s"
  shows "ends c (commit_cutover env j x s s') (\<lambda>e d. e = [] \<and> done_with l s i c d)"
  unfolding commit_cutover_def
proof (rule ends_then [OF ends_the_runtime], subst if_not_P,
    use running_valid [OF assms(2)] assms(3) in \<open>simp add: candidate_for_def\<close>, rule ends_stamp [OF assms(1)],
    rule ends_check [OF ends_saves(1) [OF assms(1)]], rule ends_check [OF ends_saves(3) [OF assms(1)]],
    rule ends_check [OF retire_ends [OF assms(1)]], rule ends_then [OF persist_ends [OF assms(1)]])
  fix t
  let ?x = "x\<lparr>gr_phase := PhCutover\<rparr>\<lparr>gr_updated_at := t\<rparr>"
  let ?c = "c\<lparr>ac_journal := with_candidate ?x j\<rparr>\<lparr>ac_applied := s\<rparr>"
  show "interval_known env (active_snapshot (ac_runtime ?c))"
    using assms(4) running_snapshot [OF assms(2)] by (simp add: interval_known_def)
  have "ends ?c (finish_revision_acknowledgement env (with_candidate ?x j) ?x s)
      (\<lambda>e d. e = [] \<and> switched l s ?c d \<and> ac_runtime d = ac_runtime ?c \<and> ac_applied d = ac_applied ?c)"
    by (rule finish_ends [OF assms(1)]) (use assms(3) in \<open>auto simp: candidate_for_def\<close>)
  then show "ends ?c (if [] = ([] :: sync_errors) then finish_revision_acknowledgement env (with_candidate ?x j) ?x s
      else do { r \<leftarrow> the_runtime;
        if ar_managed r \<or> CommitUncertain \<in> set [] then record_runtime_error env []
        else do { back \<leftarrow> rollback_runtime env s s'; restored \<leftarrow> save_applied env s';
          if back \<noteq> [] \<or> restored \<noteq> [] then record_runtime_error_with_revision env ([] @ back @ restored) (gr_revision x)
          else fail_revision_attempt env j ?x [] } })
    (\<lambda>e d. e = [] \<and> done_with l s i c d)"
    using assms(2) by (auto simp: ends_def done_with_def switched_def)
qed


text \<open>The lease lasts and there is no update of the agent itself.\<close>

definition in_time :: "sync_env \<Rightarrow> revision_lease \<Rightarrow> bool" where
  "in_time env l \<longleftrightarrow> (\<forall>n t. le_deadline_at l = Some t \<longrightarrow> \<not> t \<le> sy_now env n)"

lemma lease_ends: "clear_env env \<Longrightarrow> in_time env l \<Longrightarrow> ends c (lease_over env l) (\<lambda>y d. y = False \<and> d = c)"
  unfolding lease_over_def
  by (rule ends_call) (auto simp: in_time_def split: option.split dest: spec)

definition start_message :: "sync_env \<Rightarrow> revision_lease \<Rightarrow> generation_identity \<Rightarrow> agent_message" where
  "start_message env l i = SentStart l (revision_generation_id (sy_digest16 env) l) (gi_id i) (gi_snapshot_hash i)"

lemma apply_candidate_ends:
  assumes "clear_env env" "in_time env l" "accepts i (ac_runtime c)" "candidate_for l i x" "interval_known env s"
    "generation_identity_of s (if h = [] then sy_digest env s else h) = Some i" "\<not> pending_update_package env act"
  shows "ends c (apply_candidate env hb act b j x l s h) (\<lambda>e d. e = [] \<and> done_with l s i c d)"
proof -
  have commit: "ends (c\<lparr>ac_runtime := r'\<rparr>) (commit_cutover env j x s p) (\<lambda>e d. e = [] \<and> done_with l s i c d)"
    if "running i s r'" for r' p
    using commit_ends [OF assms(1) _ assms(4,5), of "c\<lparr>ac_runtime := r'\<rparr>"] that
    by (simp add: ends_def done_with_def switched_def)
  have update: "handle_pending_update env act = State_Monad.return []"
    using assms(7) by (simp add: handle_pending_update_def)
  show ?thesis
    unfolding apply_candidate_def update bind_left_identity Let_def
    by (rule ends_then [OF lease_ends [OF assms(1,2)]], subst if_not_P, simp,
        rule ends_check [OF ends_saves(4) [OF assms(1)]], simp, rule ends_then [OF ends_the_runtime],
        rule ends_bind [OF apply_ends [OF assms(1,3,6)]]) (auto intro: commit)
qed

lemma start_ends:
  assumes "clear_env env" "in_time env l" "accepts i (ac_runtime c)" "candidate_for l i x" "interval_known env s"
    "generation_identity_of s (if h = [] then sy_digest env s else h) = Some i" "\<not> pending_update_package env act"
  shows "ends c (start_candidate env hb act False j x l s h)
    (\<lambda>e d. e = [] \<and> done_with l s i (c\<lparr>ac_sent := ac_sent c @ [start_message env l i]\<rparr>) d)"
  unfolding start_candidate_def
proof (rule ends_stamp [OF assms(1)], rule ends_check [OF ends_saves(1) [OF assms(1)]],
    rule ends_check [OF ends_send [OF assms(1)]], rule ends_stamp [OF assms(1)], rule ends_check [OF ends_saves(1) [OF assms(1)]])
  fix t t'
  let ?x = "x\<lparr>gr_phase := PhStarting\<rparr>\<lparr>gr_updated_at := t\<rparr>"
  let ?y = "?x\<lparr>gr_phase := PhStarted\<rparr>\<lparr>gr_updated_at := t'\<rparr>"
  let ?m = "SentStart l (revision_generation_id (sy_digest16 env) l) (gr_runtime_generation_id ?x) (gr_runtime_snapshot_hash ?x)"
  let ?c = "c\<lparr>ac_journal := with_candidate ?x j\<rparr>"
  let ?d = "?c\<lparr>ac_sent := ac_sent ?c @ [?m]\<rparr>"
  let ?e = "?d\<lparr>ac_journal := with_candidate ?y j\<rparr>"
  have m: "?m = start_message env l i"
    using assms(4) by (simp add: start_message_def candidate_for_def bound_to_def)
  have "ends ?e (apply_candidate env hb act False (with_candidate ?y j) ?y l s h) (\<lambda>e d. e = [] \<and> done_with l s i ?e d)"
    by (rule apply_candidate_ends [OF assms(1,2)]) (use assms in \<open>simp_all add: candidate_for_def bound_to_def\<close>)
  then show "ends ?e (continue_candidate env hb act False False (with_candidate ?y j) ?y l s h)
      (\<lambda>e d. e = [] \<and> done_with l s i (c\<lparr>ac_sent := ac_sent c @ [start_message env l i]\<rparr>) d)"
    using m by (simp add: continue_candidate_def ends_def done_with_def switched_def)
qed

text \<open>A valid journal of the offer's agent whose generations, its candidate too, are older than the offer.\<close>

definition older_journal :: "generation_journal \<Rightarrow> revision_lease \<Rightarrow> bool" where
  "older_journal j l \<longleftrightarrow> validate_generation_journal j \<and>
     (gj_version j = 0 \<or> gj_agent_id j = [] \<or> gj_agent_id j = le_agent_id l) \<and>
     (\<forall>r \<in> set (journal_records j). gr_revision r < le_revision l)"

text \<open>The active generation can be reported: it has its identity, and while it is unreported the runtime runs it.\<close>

definition reportable :: "agent_runtime \<Rightarrow> generation_journal \<Rightarrow> bool" where
  "reportable r j \<longleftrightarrow> (\<forall>a. gj_active j = Some a \<longrightarrow> le_revision (gr_lease a) = gr_revision a \<and>
     \<not> blank (le_lease_id (gr_lease a)) \<and> \<not> blank (gr_generation_id a) \<and>
     (gr_acknowledged a \<or> gr_report_rejected a \<or> validate_active_runtime_generation (active_generation_identity r) a))"

lemma bind_new_candidate:
  assumes "identity_visible (Some i)" "gi_revision i = le_revision l" "\<not> blank (le_lease_id l)"
  shows "\<exists>x. bind_runtime_generation_identity (new_candidate env l d t) (Some i) = Some (True, x) \<and> candidate_for l i x"
  using assms
  by (auto simp: bind_runtime_generation_identity_def new_candidate_def identity_visible_def candidate_for_def bound_to_def)

lemma prepare_ends:
  assumes "clear_env env" "in_time env l" "accepts i (ac_runtime c)" "interval_known env s" "\<not> blank (le_lease_id l)"
    "generation_identity_of s (if h = [] then sy_digest env s else h) = Some i" "\<not> pending_update_package env act"
    "as_revision s = le_revision l" "\<And>x. gj_candidate j = Some x \<Longrightarrow> gr_revision x \<noteq> le_revision l"
  shows "ends c (prepare_candidate env hb act False j l s d h (Some i))
    (\<lambda>e d. e = [] \<and> done_with l s i (c\<lparr>ac_sent := ac_sent c @ [start_message env l i]\<rparr>) d)"
  unfolding prepare_candidate_def
proof (rule ends_now [OF assms(1)])
  fix n
  let ?t = "sy_now env n"
  have "candidate_generation_identity env (ac_runtime c) s h = Some (Some i)"
    using assms(3,6) by (simp add: candidate_generation_identity_def accepts_def)
  then have "identity_visible (Some i)"
    by (rule candidate_identity_visible)
  moreover have "gi_revision i = le_revision l"
    using assms(6,8) by (auto simp: generation_identity_of_def Let_def split: if_splits)
  ultimately obtain x where x: "bind_runtime_generation_identity (new_candidate env l d ?t) (Some i) = Some (True, x)"
    "candidate_for l i x"
    using bind_new_candidate assms(5) by blast
  have none: "(case gj_candidate j of None \<Rightarrow> None | Some c \<Rightarrow> if matches_offer c l d then Some c else None) = None"
    using assms(9) by (auto simp: matches_offer_def same_generation_lease_def split: option.split)
  have start: "ends (c\<lparr>ac_journal := with_candidate x j\<rparr>) (start_candidate env hb act False (with_candidate x j) x l s h)
      (\<lambda>e d. e = [] \<and> done_with l s i (c\<lparr>ac_sent := ac_sent c @ [start_message env l i]\<rparr>) d)"
    using start_ends [OF assms(1,2) _ x(2) assms(4,6,7), of "c\<lparr>ac_journal := with_candidate x j\<rparr>"] assms(3)
    by (simp add: ends_def done_with_def switched_def)
  show "ends c (case bind_runtime_generation_identity (new_candidate env l d ?t) (Some i) of
       None \<Rightarrow> record_runtime_error env [IdentityInvalid]
     | Some (_, fresh) \<Rightarrow>
         (case (case gj_candidate j of None \<Rightarrow> None | Some c \<Rightarrow> if matches_offer c l d then Some c else None) of
            None \<Rightarrow> do {
              e \<leftarrow> save_journal env (with_candidate fresh j);
              if e \<noteq> [] then record_runtime_error env e
              else start_candidate env hb act False (with_candidate fresh j) fresh l s h
            }
          | Some c \<Rightarrow>
              (case bind_runtime_generation_identity c (Some i) of
                 None \<Rightarrow> record_runtime_error env [IdentityInvalid]
               | Some (False, c1) \<Rightarrow> resume_candidate env hb act False j c1 l s h
               | Some (True, c1) \<Rightarrow> do {
                   c2 \<leftarrow> stamp env c1;
                   e \<leftarrow> save_journal env (with_candidate c2 j);
                   if e \<noteq> [] then record_runtime_error env e
                   else resume_candidate env hb act False (with_candidate c2 j) c2 l s h
                 })))
    (\<lambda>e d. e = [] \<and> done_with l s i (c\<lparr>ac_sent := ac_sent c @ [start_message env l i]\<rparr>) d)"
    unfolding x(1) none option.case prod.case
    by (rule ends_check [OF ends_saves(1) [OF assms(1)] start])
qed


lemma older_records: "older_journal j l \<Longrightarrow> r \<in> set (journal_records j) \<Longrightarrow> gr_revision r < le_revision l"
  by (simp add: older_journal_def)

lemma older_active: "older_journal j l \<Longrightarrow> gj_active j = Some a \<Longrightarrow> gr_revision a < le_revision l"
  using older_records [of j l a] by (simp add: journal_records_iff)

lemma older_candidate: "older_journal j l \<Longrightarrow> gj_candidate j = Some a \<Longrightarrow> gr_revision a < le_revision l"
  using older_records [of j l a] by (simp add: journal_records_iff)

lemma older_hash:
  assumes "older_journal j l"
  shows "durable_runtime_snapshot_hash_for_revision (adopt_journal l j) (le_revision l) d = d"
proof -
  have "gr_revision r \<noteq> le_revision l"
    if "gj_candidate j = Some r \<or> gj_active j = Some r \<or> gj_last_known_good j = Some r" for r
    using older_records [OF assms, of r] that by (auto simp: journal_records_iff)
  then have "find (\<lambda>r. (gr_revision r = le_revision l \<and> equal_fold (gr_snapshot_digest r) d) \<and> \<not> blank (gr_runtime_snapshot_hash r))
      (List.map_filter id [gj_candidate (adopt_journal l j), gj_active (adopt_journal l j), gj_last_known_good (adopt_journal l j)]) = None"
    by (auto simp: find_None_iff map_filter_def split: option.splits)
  then show ?thesis
    by (simp add: durable_runtime_snapshot_hash_for_revision_def recorded_hash_def)
qed

lemma fold_floor_le:
  "(\<And>r. r \<in> set rs \<Longrightarrow> gr_revision r \<le> (n :: int)) \<Longrightarrow> z \<le> n \<Longrightarrow> fold (\<lambda>r floor. max floor (gr_revision r)) rs z \<le> n"
  by (induction rs arbitrary: z) auto

lemma adopt_records: "journal_records (adopt_journal l j) = journal_records j"
  by (simp add: journal_records_def)

lemma older_floor:
  assumes "older_journal j l" "r \<le> le_revision l" "g \<le> le_revision l"
  shows "\<not> le_revision l < durable_revision_floor r g (adopt_journal l j)"
    "validate_immutable_revision_digest (adopt_journal l j) (le_revision l) d"
  using assms fold_floor_le [of "journal_records j" "le_revision l" "max r g"]
  by (fastforce simp: durable_revision_floor_def adopt_records older_journal_def validate_immutable_revision_digest_def list_all_iff)+

lemma offer_ends:
  assumes "clear_env env" "in_time env l" "accepts i (ac_runtime c)" "interval_known env s" "\<not> blank (le_lease_id l)"
    "generation_identity_of s d = Some i" "\<not> pending_update_package env act" "as_revision s = le_revision l" "older_journal j l" "is_digest d"
    "as_revision (active_snapshot (ac_runtime c)) \<le> le_revision l" "as_revision (ac_good c) \<le> le_revision l"
  shows "ends c (sync_offer env hb act j l s d)
    (\<lambda>e d. e = [] \<and> done_with l s i (c\<lparr>ac_sent := ac_sent c @ [start_message env l i]\<rparr>) d)"
    (is "ends c _ ?q")
proof -
  let ?j = "adopt_journal l j"
  have d: "d \<noteq> []" using assms(10) by (auto simp: is_digest_def)
  have prepare: "ends c (prepare_candidate env hb act False ?j l s d d (Some i)) ?q"
    by (rule prepare_ends [OF assms(1-5)]) (use assms d older_candidate in \<open>fastforce+\<close>)
  have good: "ends c (load env sw_last_known_good) (\<lambda>y e. y = ([], ac_good c) \<and> e = c)"
    by (rule ends_load [OF assms(1)]) (simp add: core_def)
  have id: "candidate_generation_identity env (ac_runtime c) s d = Some (Some i)"
    using assms(3,6) d by (simp add: candidate_generation_identity_def accepts_def)
  have agent: "\<not> (gj_version j \<noteq> 0 \<and> gj_agent_id j \<noteq> [] \<and> gj_agent_id j \<noteq> le_agent_id l)" 
    using assms(9) by (auto simp: older_journal_def)
  have none: "(case gj_candidate ?j of None \<Rightarrow> None
      | Some c \<Rightarrow> if gr_phase c = PhFailed \<and> matches_offer c l d then Some c else None) = None"
    using older_candidate [OF assms(9)]
    by (fastforce simp: matches_offer_def same_generation_lease_def split: option.split)
  have act: "ends c (case gj_active ?j of
        None \<Rightarrow> prepare_candidate env hb act False ?j l s d d (Some i)
      | Some a \<Rightarrow> if matches_offer a l d then resume_active env ?j a (Some i)
          else prepare_candidate env hb act (gr_revision a = le_revision l \<and> equal_fold (gr_snapshot_digest a) d) ?j l s d d (Some i)) ?q"
  proof (cases "gj_active j")
    case (Some a)
    then have "gr_revision a \<noteq> le_revision l"
      using older_active [OF assms(9) Some] by simp
    then show ?thesis
      using Some prepare by (simp add: matches_offer_def same_generation_lease_def)
  qed (use prepare in simp)
  show ?thesis
    unfolding sync_offer_def Let_def
    by (subst if_not_P [OF agent], rule ends_then [OF good], unfold prod.case, rule ends_then [OF ends_the_runtime],
        unfold assms(8) older_hash [OF assms(9)])
      (use older_floor(1) [OF assms(9,11,12)] older_floor(2) [OF assms(9,11,12), of d] id none act in simp)
qed

subsection \<open>The open reports\<close>

text \<open>What a round sends before it starts the new candidate.\<close>

definition report_only :: "agent_message list \<Rightarrow> bool" where
  "report_only ms \<longleftrightarrow> (\<forall>m \<in> set ms. (\<exists>l g. m = SentApplied l g) \<or> (\<exists>l g d. m = SentDrain l g d))"

definition reported_from :: "revision_lease \<Rightarrow> agent_core \<Rightarrow> generation_journal \<Rightarrow> agent_core \<Rightarrow> bool" where
  "reported_from l c j d \<longleftrightarrow> (\<exists>ms. d = c\<lparr>ac_journal := j, ac_sent := ac_sent c @ ms\<rparr> \<and> report_only ms) \<and>
     older_journal j l \<and> reportable (ac_runtime c) j"

lemma acknowledged_ready:
  assumes "older_journal j l" "reportable r j" "gj_active j = Some a"
    "a1 = a\<lparr>gr_acknowledged := True, gr_updated_at := t\<rparr>"
  shows "older_journal (j\<lparr>gj_active := Some a1\<rparr>) l" "reportable r (j\<lparr>gj_active := Some a1\<rparr>)"
proof -
  have v: "gj_version j = 1" "validate_generation_journal j"
    using assms(1,3) by (auto simp: older_journal_def validate_generation_journal_def split: if_splits)
  have "list_all runtime_identity_ok (journal_records j)" "gr_phase a = PhActive"
    using v assms(3) by (simp_all add: validate_generation_journal_def)
  moreover have "a \<in> set (journal_records j)" using assms(3) by (simp add: journal_records_iff)
  moreover have "runtime_identity_ok a1 = runtime_identity_ok a" using assms(4) by (simp add: runtime_identity_ok_def)
  moreover have "set (journal_records (j\<lparr>gj_active := Some a1\<rparr>)) \<subseteq> insert a1 (set (journal_records j))"
    by (auto simp: journal_records_iff)
  ultimately have "list_all runtime_identity_ok (journal_records (j\<lparr>gj_active := Some a1\<rparr>))" "gr_phase a = PhActive"
    by (auto simp: list_all_iff)
  then have "validate_generation_journal (j\<lparr>gj_active := Some a1\<rparr>)"
    using v assms(3,4) by (simp add: validate_generation_journal_def)
  moreover have "gr_revision x < le_revision l" if "x \<in> set (journal_records (j\<lparr>gj_active := Some a1\<rparr>))" for x
    using that older_records [OF assms(1)] older_active [OF assms(1,3)] assms(4) by (auto simp: journal_records_iff)
  ultimately show "older_journal (j\<lparr>gj_active := Some a1\<rparr>) l"
    using assms(1) by (simp add: older_journal_def)
  show "reportable r (j\<lparr>gj_active := Some a1\<rparr>)"
    using assms(2-4) by (simp add: reportable_def)
qed

lemma drained_ready:
  assumes "older_journal j l" "reportable r j" "set ps \<subseteq> set (gj_draining j)"
  shows "older_journal (j\<lparr>gj_draining := ps\<rparr>) l" "reportable r (j\<lparr>gj_draining := ps\<rparr>)"
proof -
  have sub: "set (journal_records (j\<lparr>gj_draining := ps\<rparr>)) \<subseteq> set (journal_records j)"
    using assms(3) by (auto simp: journal_records_iff)
  then have "validate_generation_journal (j\<lparr>gj_draining := ps\<rparr>)"
    using assms(1,3) by (auto simp: older_journal_def validate_generation_journal_def list_all_iff split: if_splits)
  then show "older_journal (j\<lparr>gj_draining := ps\<rparr>) l"
    using assms(1) sub by (auto simp: older_journal_def)
  show "reportable r (j\<lparr>gj_draining := ps\<rparr>)" using assms(2) by (simp add: reportable_def)
qed

lemma recover_ends:
  assumes "clear_env env" "older_journal j l" "reportable (ac_runtime c) j" "ac_journal c = j"
  shows "ends c (recover_active_revision_acknowledgement env j) (\<lambda>z d. fst z = [] \<and> reported_from l c (snd z) d)"
proof -
  have keep: "reported_from l c j c"
    using assms(2-4) unfolding reported_from_def by (auto simp: report_only_def intro!: exI [of _ "[]"])
  show ?thesis
  proof (cases "gj_active j")
    case None
    then show ?thesis
      using keep by (auto simp: recover_active_revision_acknowledgement_def intro: ends_return)
  next
    case (Some a)
    show ?thesis
    proof (cases "gr_acknowledged a \<or> gr_report_rejected a")
      case True
      then show ?thesis
        using Some keep by (auto simp: recover_active_revision_acknowledgement_def intro: ends_return)
    next
      case open_report: False
      have phase: "gr_phase a = PhActive"
        using assms(2) Some by (auto simp: older_journal_def validate_generation_journal_def split: if_splits)
      have r: "validate_active_runtime_generation (active_generation_identity (ac_runtime c)) a"
        "le_revision (gr_lease a) = gr_revision a" "\<not> blank (le_lease_id (gr_lease a))" "\<not> blank (gr_generation_id a)"
        using assms(3) Some open_report by (auto simp: reportable_def)
      have sent: "reported_from l c (j\<lparr>gj_active := Some (a\<lparr>gr_acknowledged := True\<rparr>\<lparr>gr_updated_at := t\<rparr>)\<rparr>)
          (c\<lparr>ac_sent := ac_sent c @ [SentApplied (gr_lease a) (gr_generation_id a)]\<rparr>\<lparr>ac_journal :=
            j\<lparr>gj_active := Some (a\<lparr>gr_acknowledged := True\<rparr>\<lparr>gr_updated_at := t\<rparr>)\<rparr>\<rparr>)" for t
        using acknowledged_ready [OF assms(2,3) Some refl, of t]
        unfolding reported_from_def report_only_def
        by (auto intro!: exI [of _ "[SentApplied (gr_lease a) (gr_generation_id a)]"])
      show ?thesis
        unfolding recover_active_revision_acknowledgement_def Some option.case Let_def
      proof (subst if_not_P [OF open_report], subst if_not_P, use phase r in simp, rule ends_then [OF ends_the_runtime],
          subst if_not_P, use r(1) in simp, rule ends_bind [OF resolve_ends [OF assms(1)]], elim conjE exE, hypsubst, unfold prod.case,
          subst if_not_P, simp)
        fix t
        let ?j1 = "j\<lparr>gj_active := Some (a\<lparr>gr_acknowledged := True\<rparr>\<lparr>gr_updated_at := t\<rparr>)\<rparr>"
        show "ends (c\<lparr>ac_sent := ac_sent c @ [SentApplied (gr_lease a) (gr_generation_id a)]\<rparr>)
            (do { e \<leftarrow> save_journal env ?j1; State_Monad.return (e, ?j1) })
            (\<lambda>z d. fst z = [] \<and> reported_from l c (snd z) d)"
          by (rule ends_then [OF ends_saves(1) [OF assms(1)]], rule ends_return) (use sent in simp)
      qed
    qed
  qed
qed

lemma due_drains_ends:
  assumes "clear_env env" "reported_from l c j d"
  shows "ends d (report_completed_generation_drains env j) (\<lambda>z e. fst z = [] \<and> reported_from l c (snd z) e)"
proof -
  obtain ms where d: "d = c\<lparr>ac_journal := j, ac_sent := ac_sent c @ ms\<rparr>" "report_only ms"
    and ok: "older_journal j l" "reportable (ac_runtime c) j"
    using assms(2) unfolding reported_from_def by blast
  have ends: "ends d (report_completed_generation_drains env j) (\<lambda>z e. fst z = [] \<and> snd z = ac_journal e \<and> drained_from j d e)"
    by (rule completed_drains_ends [OF assms(1)]) (use ok d in \<open>auto simp: reportable_def\<close>)
  have "reported_from l c (ac_journal e) e" if drained: "drained_from j d e" for e
  proof -
    obtain ps ms' where e: "e = d\<lparr>ac_journal := j\<lparr>gj_draining := ps\<rparr>, ac_sent := ac_sent d @ ms'\<rparr>" "drain_only ms'"
      "set ps \<subseteq> set (gj_draining j)"
      using drained unfolding drained_from_def by blast
    have "report_only (ms @ ms')" using d(2) e(2) by (fastforce simp: report_only_def drain_only_def)
    moreover have "e = c\<lparr>ac_journal := j\<lparr>gj_draining := ps\<rparr>, ac_sent := ac_sent c @ ms @ ms'\<rparr>" using d(1) e(1) by simp
    ultimately show ?thesis
      using drained_ready [OF ok e(3)] unfolding reported_from_def by auto
  qed
  then show ?thesis using ends by (auto simp: ends_def)
qed

subsection \<open>The heartbeat\<close>

definition with_traffic :: "agent_runtime \<Rightarrow> agent_runtime \<Rightarrow> bool" where
  "with_traffic r r' \<longleftrightarrow> r' = r \<or> (\<exists>t. r' = set_traffic_runtime t r)"

lemma with_traffic_keeps:
  assumes "with_traffic r r'"
  shows "accepts i r' = accepts i r" "as_revision (active_snapshot r') = as_revision (active_snapshot r)"
  using assms
  by (auto simp: with_traffic_def accepts_def set_traffic_runtime_def active_snapshot_def overlay_traffic_runtime_def
      split: option.split prod.split)

lemma traffic_ends:
  assumes "clear_env env" "ar_managed (ac_runtime c)"
  shows "ends c (commit_heartbeat_traffic_runtime env h)
    (\<lambda>y d. y = [] \<and> (\<exists>r. d = c\<lparr>ac_runtime := r\<rparr> \<and> with_traffic (ac_runtime c) r))"
proof (cases "heartbeat_traffic_runtime h")
  case None
  have "c = c\<lparr>ac_runtime := ac_runtime c\<rparr>" by simp
  with None show ?thesis
    unfolding commit_heartbeat_traffic_runtime_def by (auto intro!: ends_return exI [of _ "ac_runtime c"] simp: with_traffic_def)
next
  case (Some t)
  have persist: "ends c (runtime_state_for_persistence env) (\<lambda>y d. fst y = [] \<and> d = c)"
    unfolding runtime_state_for_persistence_def
    by (rule ends_load_any [OF assms(1)], simp, rule ends_then [OF ends_the_runtime], rule ends_return) simp
  have "ends c (reconcile_traffic env t) (\<lambda>y d. y = [] \<and> (\<exists>r. d = c\<lparr>ac_runtime := r\<rparr> \<and> with_traffic (ac_runtime c) r))"
    unfolding reconcile_traffic_def
  proof (rule ends_call [OF assms(1)])
    fix n w assume w: "core w = c" "\<not> sw_dead w"
    have r: "sw_runtime w = ac_runtime c" using w(1) by (auto simp: core_def)
    define r' where "r' = (if tc_enabled t = None then ac_runtime c else set_traffic_runtime t (ac_runtime c))"
    have r': "reconcile_traffic_runtime True t (ac_runtime c) = (True, r')" "with_traffic (ac_runtime c) r'"
      using assms(2) by (auto simp: reconcile_traffic_runtime_def with_traffic_def r'_def)
    have "core (w\<lparr>sw_runtime := r'\<rparr>) = c\<lparr>ac_runtime := r'\<rparr>" using w(1) by (auto simp: core_def)
    then show "\<not> sw_dead (snd (case reconcile_traffic_runtime (sy_error env n = None) t (sw_runtime w) of
          (ok, r) \<Rightarrow> ((if ok then [] else [ApplyFailed]), w\<lparr>sw_runtime := r\<rparr>))) \<and>
        fst (case reconcile_traffic_runtime (sy_error env n = None) t (sw_runtime w) of
          (ok, r) \<Rightarrow> ((if ok then [] else [ApplyFailed]), w\<lparr>sw_runtime := r\<rparr>)) = [] \<and>
        (\<exists>r. core (snd (case reconcile_traffic_runtime (sy_error env n = None) t (sw_runtime w) of
          (ok, r) \<Rightarrow> ((if ok then [] else [ApplyFailed]), w\<lparr>sw_runtime := r\<rparr>))) = c\<lparr>ac_runtime := r\<rparr> \<and>
          with_traffic (ac_runtime c) r)"
      using w(2) r r' assms(1) by auto
  qed
  then have reconcile: "ends c (do { reconciled \<leftarrow> reconcile_traffic env t;
      if reconciled = [] then State_Monad.return [] else f reconciled })
      (\<lambda>y d. y = [] \<and> (\<exists>r. d = c\<lparr>ac_runtime := r\<rparr> \<and> with_traffic (ac_runtime c) r))" for f
    by (rule ends_bind) (auto intro: ends_return)
  show ?thesis
    unfolding commit_heartbeat_traffic_runtime_def Some option.case Let_def
    by (rule ends_bind [OF persist], clarsimp split: prod.split)
      (rule ends_then [OF ends_saves(5) [OF assms(1)]], simp, rule reconcile)
qed

lemma metadata_ends:
  assumes "clear_env env"
  shows "ends c (persist_runtime_metadata env metas) (\<lambda>y d. y = [] \<and> d = c)"
  unfolding persist_runtime_metadata_def
  by (rule ends_load_any [OF assms], simp, rule ends_saves(5) [OF assms])

subsection \<open>A clear round\<close>

text \<open>
  The panel offers a new revision that the agent can apply at once: its lease lasts, neither the heartbeat
  nor the offer asks for another agent package, the traffic interval parses, the generations of the journal
  are older, the active one can be reported, the generation manager accepts the candidate, and the runtime
  has been restored after a restart.
\<close>

definition offers_new :: "sync_env \<Rightarrow> sync_world \<Rightarrow> revision_lease \<Rightarrow> agent_snapshot \<Rightarrow> generation_identity \<Rightarrow> bool" where
  "offers_new env w l s i \<longleftrightarrow>
     (\<forall>n m. pl_has_update (sy_pull env m) \<and>
        (\<exists>d. validate_revision_pull (sy_now env n) (sy_pull env m) = Some (l, s, d) \<and> generation_identity_of s d = Some i)) \<and>
     (\<forall>n. \<not> pending_update_package env (sy_heartbeat env n) \<and>
        (\<exists>act. revision_activation_snapshot (sy_heartbeat env n) s = Some act \<and> \<not> pending_update_package env act)) \<and>
     interval_known env s \<and> older_journal (sw_journal w) l \<and> reportable (sw_runtime w) (sw_journal w) \<and>
     accepts i (sw_runtime w) \<and>
     as_revision (active_snapshot (sw_runtime w)) \<le> le_revision l \<and> as_revision (sw_last_known_good w) \<le> le_revision l \<and>
     (is_zero_snapshot (active_snapshot (sw_runtime w)) \<longrightarrow> is_zero_snapshot (sw_applied w))"

lemma no_package: "\<not> pending_update_package env s \<Longrightarrow> ensure_pending_update env s = State_Monad.return []"
  by (simp add: ensure_pending_update_def)

lemma validated_lease:
  assumes "validate_revision_pull t p = Some (l, s, d)"
  shows "\<not> blank (le_lease_id l)" "le_deadline_at l = Some u \<Longrightarrow> \<not> u \<le> t"
  using assms by (auto simp: validate_revision_pull_def Let_def split: option.splits if_splits)

lemma restore_ends:
  assumes "clear_env env" "is_zero_snapshot (active_snapshot (ac_runtime c)) \<longrightarrow> is_zero_snapshot (ac_applied c)"
  shows "ends c (restore_durable_revision_runtime env) (\<lambda>y d. y = [] \<and> d = c)"
proof -
  note load = ends_load_applied [OF assms(1)]
  show ?thesis
    unfolding restore_durable_revision_runtime_def
    by (rule ends_then [OF ends_the_runtime]) (use assms(2) in \<open>auto intro!: ends_return ends_then [OF load]\<close>)
qed

lemma heartbeat_step:
  assumes "clear_env env" "\<And>h. h \<in> range (sy_heartbeat env) \<Longrightarrow> ends c (f [] h) q"
  shows "ends c (State_Monad.bind (heartbeat_call env) (\<lambda>(e, h). f e h)) q"
proof (rule ends_bind [where p = "\<lambda>y d. (\<exists>h \<in> range (sy_heartbeat env). y = ([], h)) \<and> d = c"])
  show "ends c (heartbeat_call env) (\<lambda>y d. (\<exists>h \<in> range (sy_heartbeat env). y = ([], h)) \<and> d = c)"
    unfolding heartbeat_call_def by (rule ends_call) (use assms(1) in auto)
qed (use assms(2) in auto)

lemma pull_step:
  assumes "clear_env env" "\<And>p. p \<in> range (sy_pull env) \<Longrightarrow> ends c (f [] p) q"
  shows "ends c (State_Monad.bind (pull_call env) (\<lambda>(e, p). f e p)) q"
proof (rule ends_bind [where p = "\<lambda>y d. (\<exists>p \<in> range (sy_pull env). y = ([], p)) \<and> d = c"])
  have "ends c (call env ([CallFailed], no_pull, None)
      (\<lambda>n w. ((call_errors env n, sy_pull env n, sy_dataset_failure env n), w)))
      (\<lambda>y d. (\<exists>p \<in> range (sy_pull env). y = ([], p, None)) \<and> d = c)"
    by (rule ends_call) (use assms(1) in auto)
  then show "ends c (pull_call env) (\<lambda>y d. (\<exists>p \<in> range (sy_pull env). y = ([], p)) \<and> d = c)"
    unfolding pull_call_def by (rule ends_bind) (auto intro!: ends_return)
qed (use assms(2) in auto)

text \<open>The goal of the round, from where its open reports have been sent.\<close>

definition applies :: "sync_env \<Rightarrow> revision_lease \<Rightarrow> agent_snapshot \<Rightarrow> generation_identity \<Rightarrow> agent_core \<Rightarrow> sync_errors \<Rightarrow> agent_core \<Rightarrow> bool" where
  "applies env l s i c e d \<longleftrightarrow> e = [] \<and>
     (\<exists>ms. report_only ms \<and> done_with l s i (c\<lparr>ac_sent := ac_sent c @ ms @ [start_message env l i]\<rparr>) d)"

lemma applies_later:
  assumes "d = c\<lparr>ac_journal := j, ac_sent := ac_sent c @ ms, ac_runtime := r\<rparr>" "report_only ms"
    "e = [] \<and> done_with l s i (d\<lparr>ac_sent := ac_sent d @ [start_message env l i]\<rparr>) z"
  shows "applies env l s i c e z"
  unfolding applies_def using assms by (auto simp: done_with_def switched_def intro!: exI [of _ ms])

text \<open>The whole round.\<close>

lemma clear_pull_applies:
  assumes "clear_env env" "offers_new env w l s i" "h \<in> range (sy_heartbeat env)"
    and "older_journal j l" "accepts i (ac_runtime c)" "as_revision (active_snapshot (ac_runtime c)) \<le> le_revision l"
    "as_revision (ac_good c) \<le> le_revision l"
  shows "ends c (sync_pull env [] h j) (\<lambda>e d. e = [] \<and> done_with l s i (c\<lparr>ac_sent := ac_sent c @ [start_message env l i]\<rparr>) d)"
    (is "ends c _ ?q")
proof -
  have p: "pl_has_update p" "\<exists>d. validate_revision_pull (sy_now env n) p = Some (l, s, d) \<and> generation_identity_of s d = Some i"
    if "p \<in> range (sy_pull env)" for p n
    using assms(2) that by (auto simp: offers_new_def)
  have v: "\<exists>d. validate_revision_pull (sy_now env n) (sy_pull env 0) = Some (l, s, d)" for n
    using p(2) [of "sy_pull env 0" n] by auto
  have named: "\<not> blank (le_lease_id l)"
    using v validated_lease(1) by (metis (no_types))
  have time: "in_time env l"
    unfolding in_time_def
  proof (intro allI impI)
    fix n t assume "le_deadline_at l = Some t"
    then show "\<not> t \<le> sy_now env n"
      using v [of n] validated_lease(2) by (elim exE) simp
  qed
  obtain act where act: "revision_activation_snapshot h s = Some act" "\<not> pending_update_package env act"
  proof -
    obtain n where "h = sy_heartbeat env n" using assms(3) by blast
    then have "\<exists>act. revision_activation_snapshot h s = Some act \<and> \<not> pending_update_package env act"
      using assms(2) unfolding offers_new_def by simp
    then show ?thesis using that by blast
  qed
  have interval: "interval_known env s" using assms(2) by (simp add: offers_new_def)
  have offer: "ends c (sync_offer env h act j l s d) ?q"
    if v: "validate_revision_pull (sy_now env n) p = Some (l, s, d)" "generation_identity_of s d = Some i" for n p d
    by (rule offer_ends [OF assms(1) time assms(5) interval named v(2) act(2) _ assms(4) _ assms(6,7)])
      (use validated_offer [OF v(1)] in simp_all)
  show ?thesis
    unfolding sync_pull_def
  proof (rule pull_step [OF assms(1)], subst if_not_P, simp, subst if_not_P, simp add: p(1), rule ends_now [OF assms(1)])
    fix pl n assume "pl \<in> range (sy_pull env)"
    then obtain d where d: "validate_revision_pull (sy_now env n) pl = Some (l, s, d)" "generation_identity_of s d = Some i"
      using p(2) by blast
    show "ends c (case validate_revision_pull (sy_now env n) pl of
         None \<Rightarrow> record_runtime_error env [InvalidPull]
       | Some (l, s, d) \<Rightarrow>
           (case revision_activation_snapshot h s of
              None \<Rightarrow> clear_last_sync_error_after_successful_sync env
            | Some activation \<Rightarrow> do {
                e \<leftarrow> ensure_pending_update env activation;
                if StagePending \<in> set e then clear_last_sync_error_after_successful_sync env
                else if e \<noteq> [] then record_runtime_error env e
                else sync_offer env h activation j l s d
              })) ?q"
      unfolding d(1) act(1) option.case prod.case no_package [OF act(2)] bind_left_identity
      by (subst if_not_P, simp, subst if_not_P, simp, rule offer [OF d])
  qed
qed

lemma clear_heartbeat_applies:
  assumes "clear_env env" "offers_new env w l s i" "ac_runtime c = sw_runtime w" "ac_good c = sw_last_known_good w"
    and r: "reported_from l c j d"
  shows "ends d (sync_heartbeat env metas [] j) (applies env l s i c)"
  unfolding sync_heartbeat_def
proof (rule heartbeat_step [OF assms(1)], subst if_not_P, simp)
  fix h assume h: "h \<in> range (sy_heartbeat env)"
  obtain ms where d: "d = c\<lparr>ac_journal := j, ac_sent := ac_sent c @ ms\<rparr>" "report_only ms" "older_journal j l"
    using r unfolding reported_from_def by blast
  have o: "accepts i (ac_runtime d)" "as_revision (active_snapshot (ac_runtime d)) \<le> le_revision l"
    "as_revision (ac_good d) \<le> le_revision l" "\<not> pending_update_package env h"
    using assms(2-4) h d(1) by (auto simp: offers_new_def)
  have managed: "ar_managed (ac_runtime d)" using o(1) by (simp add: accepts_def)
  let ?rest = "do {
      e \<leftarrow> (if metas = [] then State_Monad.return [] else persist_runtime_metadata env metas);
      if e \<noteq> [] then record_runtime_error env e
      else do {
        e \<leftarrow> ensure_pending_update env h;
        if StagePending \<in> set e then
          (if [] \<noteq> ([] :: sync_errors) then record_runtime_error env [] else clear_last_sync_error_after_successful_sync env)
        else if e \<noteq> [] then record_runtime_error env ([] @ e)
        else sync_pull env [] h j
      }
    }"
  have rest: "ends f ?rest (applies env l s i c)" if f: "f = d\<lparr>ac_runtime := r\<rparr>" "with_traffic (ac_runtime d) r" for f r
  proof -
    have "ends f (sync_pull env [] h j) (\<lambda>e z. e = [] \<and> done_with l s i (f\<lparr>ac_sent := ac_sent f @ [start_message env l i]\<rparr>) z)"
      by (rule clear_pull_applies [OF assms(1,2) h d(3)])
        (use o with_traffic_keeps [OF f(2)] f(1) in simp_all)
    moreover have "applies env l s i c e z"
      if "e = [] \<and> done_with l s i (f\<lparr>ac_sent := ac_sent f @ [start_message env l i]\<rparr>) z" for e z
      by (rule applies_later [where j = j and r = r, OF _ d(2) that]) (simp add: f(1) d(1))
    ultimately have pull: "ends f (sync_pull env [] h j) (applies env l s i c)"
      by (auto simp: ends_def)
    have meta: "ends f (if metas = [] then State_Monad.return [] else persist_runtime_metadata env metas) (\<lambda>y z. y = [] \<and> z = f)"
      using metadata_ends [OF assms(1)] by (auto intro: ends_return)
    show ?thesis
      by (rule ends_check [OF meta], unfold no_package [OF o(4)] bind_left_identity, subst if_not_P, simp, subst if_not_P, simp)
        (rule pull)
  qed
  show "ends d (do {
      e \<leftarrow> commit_heartbeat_traffic_runtime env h;
      if e \<noteq> [] then record_runtime_error env ([] @ e) else ?rest
    }) (applies env l s i c)"
  proof (rule ends_bind [OF traffic_ends [OF assms(1) managed]])
    fix e :: sync_errors and z assume "e = [] \<and> (\<exists>r. z = d\<lparr>ac_runtime := r\<rparr> \<and> with_traffic (ac_runtime d) r)"
    then obtain r where z: "e = []" "z = d\<lparr>ac_runtime := r\<rparr>" "with_traffic (ac_runtime d) r" by blast
    show "ends z (if e \<noteq> [] then record_runtime_error env ([] @ e) else ?rest) (applies env l s i c)"
      by (subst if_not_P, use z(1) in simp, rule rest [OF z(2,3)])
  qed
qed

lemma clear_round_applies:
  assumes "clear_env env" "\<not> sw_dead w" "offers_new env w l s i"
  shows "applies env l s i (core w) (fst (run_state (perform_revision_sync_plan env metas) w))
      (core (snd (run_state (perform_revision_sync_plan env metas) w)))"
proof -
  let ?c = "core w" and ?j = "sw_journal w"
  let ?q = "applies env l s i ?c"
  have c: "ac_runtime ?c = sw_runtime w" "ac_good ?c = sw_last_known_good w" "ac_applied ?c = sw_applied w" "ac_journal ?c = ?j"
    by (simp_all add: core_def)
  have o: "older_journal ?j l" "reportable (ac_runtime ?c) ?j" "validate_generation_journal ?j"
    using assms(3) by (simp_all add: offers_new_def older_journal_def c)
  have load: "ends ?c (load env sw_journal) (\<lambda>y d. y = ([], ?j) \<and> d = ?c)"
    using ends_load [OF assms(1), of sw_journal ac_journal ?c] by (simp add: core_def)
  let ?rest = "do {
         (ack, j1) \<leftarrow> recover_active_revision_acknowledgement env ?j;
         (e, j2) \<leftarrow> (if ack = [] then report_completed_generation_drains env j1 else State_Monad.return ([], j1));
         if e \<noteq> [] then record_runtime_error env e else sync_heartbeat env metas ack j2
       }"
  have rest: "ends ?c ?rest ?q"
  proof (rule ends_bind [OF recover_ends [OF assms(1) o(1,2) c(4)]])
    fix z :: "sync_errors \<times> generation_journal" and d assume z: "fst z = [] \<and> reported_from l ?c (snd z) d"
    obtain j1 where j1: "z = ([], j1)" "reported_from l ?c j1 d" using z by (cases z) auto
    have "ends d (do { (e, j2) \<leftarrow> report_completed_generation_drains env j1;
        if e \<noteq> [] then record_runtime_error env e else sync_heartbeat env metas [] j2 }) ?q"
    proof (rule ends_bind [OF due_drains_ends [OF assms(1) j1(2)]])
      fix y :: "sync_errors \<times> generation_journal" and f assume y: "fst y = [] \<and> reported_from l ?c (snd y) f"
      then show "ends f (case y of (e, j2) \<Rightarrow> if e \<noteq> [] then record_runtime_error env e else sync_heartbeat env metas [] j2) ?q"
        using clear_heartbeat_applies [OF assms(1,3) c(1,2)] by (cases y) auto
    qed
    then show "ends d (case z of (ack, j1) \<Rightarrow> do {
        (e, j2) \<leftarrow> (if ack = [] then report_completed_generation_drains env j1 else State_Monad.return ([], j1));
        if e \<noteq> [] then record_runtime_error env e else sync_heartbeat env metas ack j2 }) ?q"
      by (simp add: j1(1))
  qed
  have "ends ?c (perform_revision_sync_plan env metas) ?q"
    unfolding perform_revision_sync_plan_def
  proof (rule ends_check [OF restore_ends [OF assms(1)]])
    show "is_zero_snapshot (active_snapshot (ac_runtime ?c)) \<longrightarrow> is_zero_snapshot (ac_applied ?c)"
      using assms(3) by (simp add: offers_new_def c)
    show "ends ?c (do {
       (e, j) \<leftarrow> load env sw_journal;
       if e \<noteq> [] then record_runtime_error env e
       else if \<not> validate_generation_journal j then record_runtime_error env [InvalidJournal]
       else do {
         e \<leftarrow> authorize_journal_plugin_log_retirements env j;
         if e \<noteq> [] then record_runtime_error env e
         else do {
           (ack, j1) \<leftarrow> recover_active_revision_acknowledgement env j;
           (e, j2) \<leftarrow> (if ack = [] then report_completed_generation_drains env j1 else State_Monad.return ([], j1));
           if e \<noteq> [] then record_runtime_error env e else sync_heartbeat env metas ack j2
         }
       }
     }) ?q"
      by (rule ends_then [OF load], unfold prod.case, subst if_not_P, simp, subst if_not_P, use o(3) in simp,
          rule ends_check [OF journal_retire_ends [OF assms(1)]], rule rest)
  qed
  then show ?thesis
    using assms(2) by (simp add: ends_def)
qed

end
