(* ===== verification/SyncProps.thy ===== *)
theory SyncProps
  imports SyncLive
begin

text \<open>
  The agent over any number of sync rounds and restarts: a round may be cut off anywhere, a restart loses
  the process and keeps what is durable. The properties of the sync follow from the protocol it refines.
\<close>

subsection \<open>Rounds and restarts\<close>

text \<open>
  The assumption about the panel, which is not composed with the agent here: a lease that the sync itself
  has started (\<open>sw_sent\<close>) is offered again only while it is the candidate's or the active generation's.
  The panel has one active attempt per agent and leases a new one only after it ended the old one. Leases
  that only the client started, because it could not prepare their datasets (\<open>sw_client\<close>), may be offered
  again at any time.
\<close>

definition offers_current :: "sync_env \<Rightarrow> sync_world \<Rightarrow> bool" where
  "offers_current env w = leased (offered_leases env) (core w)"

text \<open>\<open>restart\<close> also covers what the runtime does between rounds, as the end of a drain.\<close>

inductive agent_step :: "sync_world \<Rightarrow> sync_world \<Rightarrow> bool" where
  round: "offers_current env w \<Longrightarrow> agent_step w (snd (run_state (perform_revision_sync_plan env metas) w))"
| restart: "agent_step w (w\<lparr>sw_runtime := r, sw_dead := False\<rparr>)"

definition new_agent :: "sync_world \<Rightarrow> bool" where
  "new_agent w \<longleftrightarrow> sw_sent w = [] \<and> gj_version (sw_journal w) = 0 \<and> gj_active (sw_journal w) = None \<and>
     gj_candidate (sw_journal w) = None \<and> gj_last_known_good (sw_journal w) = None \<and> gj_draining (sw_journal w) = []"

lemma new_agent_inv: "new_agent w \<Longrightarrow> core_inv (core w)"
  by (simp add: new_agent_def core_inv_def core_def journal_inv_def validate_generation_journal_def records_agree_def
      journal_records_def log_inv_def log_simps)

lemma round_steps:
  assumes "core_inv (core w)" "offers_current env w"
  shows "protocol_step\<^sup>*\<^sup>* (core w) (core (snd (run_state (perform_revision_sync_plan env metas) w)))"
  using runsD(1,2) [OF round_runs, of w env metas] assms unfolding offers_current_def
  by (cases "sw_dead w") simp_all

lemma agent_step_steps: "agent_step w w' \<Longrightarrow> core_inv (core w) \<Longrightarrow> protocol_step\<^sup>*\<^sup>* (core w) (core w')"
proof (induction rule: agent_step.induct)
  case (restart w r)
  have "core (w\<lparr>sw_runtime := r, sw_dead := False\<rparr>) = core w\<lparr>ac_runtime := r\<rparr>"
    by (simp add: core_def)
  then show ?case using protocol_step.runtime by (metis r_into_rtranclp)
qed (rule round_steps)

lemma agent_run_steps:
  "agent_step\<^sup>*\<^sup>* w w' \<Longrightarrow> core_inv (core w) \<Longrightarrow> protocol_step\<^sup>*\<^sup>* (core w) (core w') \<and> core_inv (core w')"
proof (induction rule: rtranclp_induct)
  case (step x y)
  then have x: "protocol_step\<^sup>*\<^sup>* (core w) (core x)" "core_inv (core x)" by auto
  have "protocol_step\<^sup>*\<^sup>* (core x) (core y)"
    by (rule agent_step_steps) (use step x in auto)
  then show ?case
    using x protocol_steps_inv by (auto intro: rtranclp_trans)
qed simp

lemma agent_run_inv: "new_agent w \<Longrightarrow> agent_step\<^sup>*\<^sup>* w w' \<Longrightarrow> core_inv (core w')"
  using agent_run_steps new_agent_inv by blast

subsection \<open>Properties\<close>

text \<open>
  C18. Refinement: from a state of the invariant, a round of \<open>performRevisionSyncPlan\<close> is a sequence of steps of
  the protocol, whatever the store and the modules answer, whatever the panel answers that does not offer
  again a lease the sync has started and left behind (\<open>offers_current\<close>), and wherever the process dies.
\<close>

theorem sync_round_refines_protocol:
  assumes "core_inv (core w)" "offers_current env w"
  shows "protocol_step\<^sup>*\<^sup>* (core w) (core (snd (run_state (perform_revision_sync_plan env metas) w)))"
  using assms by (rule round_steps)

text \<open>
  What the sync itself sends (the reports that the client makes of datasets it cannot prepare are not
  among them): no lease is started twice, every outcome follows a start, and no lease is reported both
  applied and failed.
\<close>

lemma sync_reports_consistent:
  assumes "new_agent w" "agent_step\<^sup>*\<^sup>* w w'"
  shows "distinct (start_keys (sw_sent w')) \<and> outcomes_follow_starts (sw_sent w') \<and>
    set (applied_keys (sw_sent w')) \<inter> set (failed_keys (sw_sent w')) = {}"
  using agent_run_inv [OF assms] by (simp add: core_inv_def log_inv_def core_def)

text \<open>
  C20. Type: the journal that the agent leaves behind, whenever it dies in its rounds with such a panel
  (\<open>offers_current\<close>), is one that \<open>validateGenerationJournal\<close> accepts in the next round, and no two of its
  records give one revision different digests.
\<close>

theorem journal_stays_valid:
  assumes "new_agent w" "agent_step\<^sup>*\<^sup>* w w'"
  shows "validate_generation_journal (sw_journal w') \<and> records_agree (sw_journal w')"
  using agent_run_inv [OF assms] by (simp add: core_inv_def journal_inv_def core_def)

text \<open>
  C21. Safety: over rounds with such a panel (\<open>offers_current\<close>) and restarts the agent never goes back. Once a
  generation is active, later ones have at least its revision, and so has the last known good snapshot.
\<close>

theorem active_revision_never_decreases:
  assumes "new_agent w0" "agent_step\<^sup>*\<^sup>* w0 w" "agent_step\<^sup>*\<^sup>* w w'" "gj_active (sw_journal w) = Some a"
  shows "\<exists>b. gj_active (sw_journal w') = Some b \<and> gr_revision a \<le> gr_revision b \<and>
    gr_revision b \<le> as_revision (sw_last_known_good w')"
proof -
  have "core_newer (core w) (core w')" and inv: "core_inv (core w')"
    using agent_run_inv [OF assms(1,2)] agent_run_steps [OF assms(3)] protocol_steps_newer by auto
  then obtain b where "gj_active (sw_journal w') = Some b" "gr_revision a \<le> gr_revision b"
    using assms(4) by (auto simp: core_newer_def core_def)
  then show ?thesis
    using inv by (auto simp: core_inv_def active_inv_def core_def)
qed



subsection \<open>Witnesses\<close>

text \<open>
  An agent just installed, and rounds in which the panel offers it revisions 1 and 2; the heartbeat carries
  a traffic state and the store keeps plugin logs.
\<close>

definition site_heartbeat :: agent_snapshot where
  "site_heartbeat = zero_snapshot\<lparr>as_traffic := \<lparr>tc_enabled = Some True, tc_blocked = False, tc_reason = []\<rparr>\<rparr>"

definition site_digest :: "int \<Rightarrow> string" where
  "site_digest r = replicate 64 (if r = 1 then CHR ''a'' else CHR ''b'')"

definition site_snapshot :: "int \<Rightarrow> agent_snapshot" where
  "site_snapshot r = \<lparr>as_desired_version = ''1.0'', as_revision = r, as_package = None, as_traffic = no_traffic,
     as_interval = [], as_config = [], as_config_present = True, as_datasets = None, as_rules = Some [],
     as_l4_rules = Some [], as_egress_profiles = Some [], as_relay_listeners = Some [], as_certificates = Some [],
     as_certificate_policies = Some [], as_plugin_generations = Some [], as_plugin_dependencies = Some [],
     as_plugin_policies = Some []\<rparr>"

definition site_lease :: "int \<Rightarrow> revision_lease" where
  "site_lease r = \<lparr>le_agent_id = ''edge'', le_revision = r, le_retry_cycle = 0, le_attempt = 1, le_lease_id = ''lease-'' @ itoa r,
     le_snapshot_digest = site_digest r, le_desired_version = ''1.0'', le_apply_timeout = 60, le_drain_timeout = 600,
     le_deadline_at = Some 100\<rparr>"

definition site_identity :: "int \<Rightarrow> generation_identity" where
  "site_identity r = \<lparr>gi_id = ''generation-'' @ itoa r @ ''-'' @ take 16 (site_digest r), gi_revision = r,
     gi_snapshot_hash = site_digest r\<rparr>"

definition site_pull :: "int \<Rightarrow> revision_pull" where
  "site_pull r = \<lparr>pl_has_update = True, pl_desired_revision = r, pl_lease = Some (site_lease r),
     pl_snapshot = Some (site_snapshot r), pl_verified_digest = site_digest r\<rparr>"

definition site_env :: "int \<Rightarrow> sync_env" where
  "site_env r = \<lparr>sy_dies = (\<lambda>_. False), sy_error = (\<lambda>_. None), sy_done = (\<lambda>_. False), sy_now = (\<lambda>_. 1),
     sy_heartbeat = (\<lambda>_. site_heartbeat), sy_pull = (\<lambda>_. site_pull r), sy_dataset_failure = (\<lambda>_. None), sy_fallback = (\<lambda>_. False),
     sy_drain = (\<lambda>_. \<lparr>en_now = 1, en_order = (\<lambda>is. is),
       en_close = (\<lambda>_. \<lparr>co_ok = True, co_finishes = False\<rparr>), en_keep = (\<lambda>_. False), en_destroy = (\<lambda>_. DestroyOk)\<rparr>),
     sy_progressive = (\<lambda>_. False), sy_digest = (\<lambda>s. site_digest (as_revision s)), sy_lease_hash = (\<lambda>x. x), sy_digest16 = take 16,
     sy_text = (\<lambda>_. ''error''), sy_provider_hash = (\<lambda>_. []), sy_package = [], sy_stages = False, sy_outbox = True,
     sy_interval_ok = (\<lambda>_. True), sy_recoverable = (\<lambda>_ _. False)\<rparr>"

definition site_runtime :: "(generation_identity \<times> agent_snapshot) option \<Rightarrow> agent_runtime" where
  "site_runtime v = \<lparr>ar_managed = True, ar_snapshot = zero_snapshot, ar_traffic = None, ar_status = [], ar_revision = 0,
     ar_has_revision = False, ar_view = v, ar_drain = None\<rparr>"

definition site_agent :: sync_world where
  "site_agent = \<lparr>sw_journal = \<lparr>gj_version = 0, gj_agent_id = [], gj_active = None, gj_candidate = None,
       gj_last_known_good = None, gj_draining = []\<rparr>, sw_desired = zero_snapshot, sw_applied = zero_snapshot,
     sw_last_known_good = zero_snapshot, sw_state = \<lparr>sr_status = [], sr_revision = 0, sr_meta = (\<lambda>_. None)\<rparr>,
     sw_runtime = site_runtime None, sw_sent = [], sw_client = [], sw_calls = 0, sw_dead = False\<rparr>"

definition site_round :: "int \<Rightarrow> sync_world \<Rightarrow> sync_world" where
  "site_round r w = snd (run_state (perform_revision_sync_plan (site_env r) []) w)"

lemma site_offers:
  "validate_revision_pull 1 (site_pull 1) = Some (site_lease 1, site_snapshot 1, site_digest 1)"
  "validate_revision_pull 1 (site_pull 2) = Some (site_lease 2, site_snapshot 2, site_digest 2)"
  "generation_identity_of (site_snapshot 1) (site_digest 1) = Some (site_identity 1)"
  "generation_identity_of (site_snapshot 2) (site_digest 2) = Some (site_identity 2)"
  by code_simp+


lemma site_env_simps:
  "clear_env (site_env r)" "sy_now (site_env r) n = 1" "sy_pull (site_env r) n = site_pull r"
  "sy_heartbeat (site_env r) n = site_heartbeat" "interval_known (site_env r) s"
  by (simp_all add: site_env_def clear_env_def interval_known_def)

lemma site_agent_new: "new_agent site_agent" "\<not> sw_dead site_agent"
  by (simp_all add: new_agent_def site_agent_def)

lemma site_current: "offers_current (site_env r) site_agent"
  by (simp add: offers_current_def leased_def site_agent_def core_def log_simps)

lemma site_zero: "active_snapshot (site_runtime None) = zero_snapshot"
  by (simp add: active_snapshot_def site_runtime_def overlay_traffic_runtime_def)

lemma site_new: "offers_new (site_env 1) site_agent (site_lease 1) (site_snapshot 1) (site_identity 1)"
proof -
  have "older_journal (sw_journal site_agent) (site_lease 1)" "reportable (sw_runtime site_agent) (sw_journal site_agent)"
    by (simp_all add: older_journal_def reportable_def site_agent_def validate_generation_journal_def journal_records_def)
  moreover have "accepts (site_identity 1) (sw_runtime site_agent)"
    by (simp add: accepts_def site_agent_def site_runtime_def)
  moreover have "as_revision (active_snapshot (sw_runtime site_agent)) \<le> le_revision (site_lease 1)"
    "as_revision (sw_last_known_good site_agent) \<le> le_revision (site_lease 1)" "is_zero_snapshot (sw_applied site_agent)"
    by (simp_all add: site_agent_def site_zero) (simp_all add: zero_snapshot_def site_lease_def is_zero_snapshot_def
        has_agent_config_def no_items_def no_traffic_def)
  moreover have "revision_activation_snapshot site_heartbeat (site_snapshot 1) = Some (site_snapshot 1)"
    "\<not> pending_update_package (site_env 1) site_heartbeat" "\<not> pending_update_package (site_env 1) (site_snapshot 1)"
    by (simp_all add: revision_activation_snapshot_def pending_update_package_def site_heartbeat_def zero_snapshot_def site_snapshot_def)
  ultimately show ?thesis
    using site_offers by (simp add: offers_new_def site_env_simps) (simp add: site_pull_def)
qed

lemma site_step: "agent_step site_agent (site_round 1 site_agent)"
  unfolding site_round_def by (rule agent_step.round [OF site_current])

lemma site_done:
  "\<exists>ms. done_with (site_lease 1) (site_snapshot 1) (site_identity 1)
     (core site_agent\<lparr>ac_sent := ms @ [start_message (site_env 1) (site_lease 1) (site_identity 1)]\<rparr>) (core (site_round 1 site_agent))"
proof -
  have "ac_sent (core site_agent) = []" by (simp add: core_def site_agent_def)
  then show ?thesis
    using clear_round_applies [OF site_env_simps(1) site_agent_new(2) site_new, of "[]"]
    by (auto simp: applies_def site_round_def)
qed

theorem sync_round_refines_protocol_witness:
  "protocol_step\<^sup>*\<^sup>* (core site_agent) (core (site_round 1 site_agent)) \<and> length (sw_sent (site_round 1 site_agent)) \<ge> 2"
proof -
  have "protocol_step\<^sup>*\<^sup>* (core site_agent) (core (site_round 1 site_agent))"
    unfolding site_round_def
    by (rule sync_round_refines_protocol [OF new_agent_inv [OF site_agent_new(1)] site_current])
  then show ?thesis
    using site_done by (auto simp: done_with_def switched_def core_def)
qed

theorem journal_stays_valid_witness:
  "\<exists>w a. agent_step\<^sup>*\<^sup>* site_agent w \<and> gj_active (sw_journal w) = Some a \<and> gr_revision a = 1 \<and>
     validate_generation_journal (sw_journal w) \<and> records_agree (sw_journal w)"
proof -
  have run: "agent_step\<^sup>*\<^sup>* site_agent (site_round 1 site_agent)"
    using site_step by blast
  then show ?thesis
    using journal_stays_valid [OF site_agent_new(1) run] site_done
    by (auto simp: done_with_def switched_def core_def site_lease_def)
qed

theorem active_revision_never_decreases_witness:
  "\<exists>w b. agent_step\<^sup>*\<^sup>* (site_round 1 site_agent) w \<and> sw_runtime w = site_runtime None \<and> gj_active (sw_journal w) = Some b \<and>
     1 \<le> gr_revision b \<and> gr_revision b \<le> as_revision (sw_last_known_good w)"
proof -
  let ?w = "site_round 1 site_agent" and ?v = "site_round 1 site_agent\<lparr>sw_runtime := site_runtime None, sw_dead := False\<rparr>"
  obtain a where a: "gj_active (sw_journal ?w) = Some a" "gr_revision a = 1"
    using site_done by (auto simp: done_with_def switched_def core_def site_lease_def)
  have run: "agent_step\<^sup>*\<^sup>* site_agent ?w" and again: "agent_step\<^sup>*\<^sup>* ?w ?v"
    using site_step agent_step.restart by blast+
  have "sw_runtime ?v = site_runtime None" by simp
  then show ?thesis
    using active_revision_never_decreases [OF site_agent_new(1) run again a(1)] again a(2) by auto
qed


end
