(* ===== verification/ModRegistry.thy ===== *)
theory ModRegistry
  imports SyncWorld "HOL-Library.AList"
begin

text \<open>
  The module registry of the agent (\<open>internal/module/registry.go\<close>, \<open>module.go\<close>): registration and validation of
  the descriptors, the order of the modules by their providers, and the provider sets. A module is its position
  in the order of registration; what a module does when it is called is a parameter of the operations that call it.
\<close>

subsection \<open>Modules and descriptors\<close>

record module_descriptor =
  md_name :: string
  md_provides :: "string list"
  md_requires :: "string list"
  md_optional :: "string list"

text \<open>\<open>am_transactional\<close>: the module implements \<open>TransactionalModule\<close>.\<close>

record agent_module =
  am_name :: string
  am_descriptor :: module_descriptor
  am_transactional :: bool

text \<open>
  The errors, with the name of the module. Up to \<open>ProviderCycle\<close> they wrap \<open>ErrInvalidModule\<close>,
  \<open>ErrDuplicateModule\<close>, \<open>ErrDuplicateProvider\<close>, \<open>ErrMissingProvider\<close> and \<open>ErrProviderCycle\<close>.
\<close>

datatype module_error =
    NilModule | BlankName | BlankDescriptorName | NameMismatch string string | BlankRef | DuplicateRef string
  | DuplicateModule string
  | DuplicateProvider string
  | MissingProvider string string
  | ProviderCycle
  | NotTransactional string
  | PrepareFails string | NothingPrepared string | IncompatibleTransaction string | NoOwnedProviders string
  | RegisterFails string "module_error option" | NotRegistered string string
  | ReadyFails string | PublicationFails string | DestroyFails string | RollbackFails
  | ApplyFails string | CommitFails | FinalizeFails | StopFails string
  | CandidateCompleted | CandidateNotReady
  | NoSource | ContextOver | InvalidHash | DrainMismatch

fun validate_refs :: "string list \<Rightarrow> string list \<Rightarrow> module_error option" where
  "validate_refs seen [] = None"
| "validate_refs seen (r # rs) =
     (if trim_space r = [] then Some BlankRef
      else if r \<in> set seen then Some (DuplicateRef r)
      else validate_refs (r # seen) rs)"

definition check_refs :: "string list \<Rightarrow> 'a \<Rightarrow> module_error + 'a" where
  "check_refs refs x = (case validate_refs [] refs of Some e \<Rightarrow> Inl e | None \<Rightarrow> Inr x)"

definition validate_descriptor :: "agent_module \<Rightarrow> module_error + module_descriptor" where
  "validate_descriptor m =
     (let name = trim_space (am_name m); d = am_descriptor m; dname = trim_space (md_name d) in
      if name = [] then Inl BlankName
      else if dname = [] then Inl BlankDescriptorName
      else if \<not> equal_fold name dname then Inl (NameMismatch dname name)
      else tx_bind (check_refs (md_provides d) ()) (\<lambda>_.
           tx_bind (check_refs (md_requires d) ()) (\<lambda>_.
           check_refs (md_optional d) (d\<lparr>md_name := name\<rparr>))))"

text \<open>\<open>validateModule\<close>; \<open>None\<close> is a nil module.\<close>

definition validate_module :: "agent_module option \<Rightarrow> module_error + string" where
  "validate_module m = (case m of None \<Rightarrow> Inl NilModule
     | Some m \<Rightarrow> tx_bind (validate_descriptor m) (\<lambda>d. Inr (md_name d)))"

subsection \<open>Registration\<close>

text \<open>\<open>mr_by_name\<close>: the keys of \<open>byName\<close> with the module stored under them.\<close>

record module_registry =
  mr_modules :: "agent_module list"
  mr_by_name :: "(string \<times> agent_module) list"

definition new_module_registry :: module_registry where
  "new_module_registry = \<lparr>mr_modules = [], mr_by_name = []\<rparr>"

definition register_module :: "agent_module option \<Rightarrow> module_registry \<Rightarrow> module_error option \<times> module_registry" where
  "register_module m r =
     (case validate_module m of
        Inl e \<Rightarrow> (Some e, r)
      | Inr name \<Rightarrow>
          (let key = to_lower name in
           if map_of (mr_by_name r) key \<noteq> None then (Some (DuplicateModule name), r)
           else (None, r\<lparr>mr_modules := mr_modules r @ [the m], mr_by_name := mr_by_name r @ [(key, the m)]\<rparr>)))"

definition module_names :: "module_registry \<Rightarrow> string list" where
  "module_names r = map (\<lambda>m. trim_space (am_name m)) (mr_modules r)"

subsection \<open>The order of the modules\<close>

text \<open>The first loop of \<open>OrderedModules\<close>: the descriptors, and the module that provides each reference.\<close>

fun add_provides :: "nat \<Rightarrow> string list \<Rightarrow> (string \<rightharpoonup> nat) \<Rightarrow> module_error + (string \<rightharpoonup> nat)" where
  "add_provides k [] ps = Inr ps"
| "add_provides k (r # rs) ps =
     (if ps r \<noteq> None then Inl (DuplicateProvider r) else add_provides k rs (ps(r \<mapsto> k)))"

fun collect_providers ::
  "nat \<Rightarrow> agent_module list \<Rightarrow> (string \<rightharpoonup> nat) \<Rightarrow> module_error + (module_descriptor list \<times> (string \<rightharpoonup> nat))" where
  "collect_providers k [] ps = Inr ([], ps)"
| "collect_providers k (m # ms) ps =
     tx_bind (validate_descriptor m) (\<lambda>d.
     tx_bind (add_provides k (md_provides d) ps) (\<lambda>ps'.
     tx_bind (collect_providers (Suc k) ms ps') (\<lambda>(ds, ps'').
     Inr (d # ds, ps''))))"

text \<open>The second loop: the modules that each module depends on, itself left out.\<close>

fun required_providers :: "(string \<rightharpoonup> nat) \<Rightarrow> nat \<Rightarrow> string \<Rightarrow> string list \<Rightarrow> module_error + nat list" where
  "required_providers ps k name [] = Inr []"
| "required_providers ps k name (r # rs) =
     (case ps r of
        None \<Rightarrow> Inl (MissingProvider name r)
      | Some p \<Rightarrow> tx_bind (required_providers ps k name rs) (\<lambda>ds. Inr (if p = k then ds else p # ds)))"

definition optional_providers :: "(string \<rightharpoonup> nat) \<Rightarrow> nat \<Rightarrow> string list \<Rightarrow> nat list" where
  "optional_providers ps k refs = filter (\<lambda>p. p \<noteq> k) (List.map_filter ps refs)"

fun collect_dependencies :: "(string \<rightharpoonup> nat) \<Rightarrow> nat \<Rightarrow> module_descriptor list \<Rightarrow> module_error + nat list list" where
  "collect_dependencies ps k [] = Inr []"
| "collect_dependencies ps k (d # ds) =
     tx_bind (required_providers ps k (md_name d) (md_requires d)) (\<lambda>required.
     tx_bind (collect_dependencies ps (Suc k) ds) (\<lambda>rest.
     Inr ((required @ optional_providers ps k (md_optional d)) # rest)))"

text \<open>The third loop: the first module that is not resolved and whose dependencies are.\<close>

definition next_module :: "nat list list \<Rightarrow> nat list \<Rightarrow> nat option" where
  "next_module deps ordered =
     find (\<lambda>i. i \<notin> set ordered \<and> list_all (\<lambda>d. d \<in> set ordered) (deps ! i)) [0..<length deps]"

function order_modules :: "nat list list \<Rightarrow> nat list \<Rightarrow> nat list option" where
  "order_modules deps ordered =
     (if length deps \<le> length ordered then Some ordered
      else (case next_module deps ordered of
          None \<Rightarrow> None
        | Some i \<Rightarrow> order_modules deps (ordered @ [i])))"
  by pat_completeness auto
termination by (relation "measure (\<lambda>(deps, ordered). length deps - length ordered)") auto

declare order_modules.simps [simp del]

definition ordered_modules :: "module_registry \<Rightarrow> module_error + nat list" where
  "ordered_modules r =
     (if mr_modules r = [] then Inr []
      else tx_bind (collect_providers 0 (mr_modules r) (\<lambda>_. None)) (\<lambda>(ds, ps).
           tx_bind (collect_dependencies ps 0 ds) (\<lambda>deps.
           case order_modules deps [] of None \<Rightarrow> Inl ProviderCycle | Some q \<Rightarrow> Inr q)))"

definition the_module :: "module_registry \<Rightarrow> nat \<Rightarrow> agent_module" where
  "the_module r i = mr_modules r ! i"

definition name_of_module :: "module_registry \<Rightarrow> nat \<Rightarrow> string" where
  "name_of_module r i = trim_space (am_name (the_module r i))"

text \<open>\<open>ValidateGenerationCompatibility\<close>.\<close>

definition validate_generation_compatibility :: "module_registry \<Rightarrow> module_error option" where
  "validate_generation_compatibility r =
     (case ordered_modules r of
        Inl e \<Rightarrow> Some e
      | Inr q \<Rightarrow> (case find (\<lambda>i. \<not> am_transactional (the_module r i)) q of
            None \<Rightarrow> None
          | Some i \<Rightarrow> Some (NotTransactional (name_of_module r i))))"

subsection \<open>Provider sets\<close>

type_synonym 'p provider_set = "(string \<times> 'p) list"

definition provide :: "string \<Rightarrow> 'p \<Rightarrow> 'p provider_set \<Rightarrow> module_error option \<times> 'p provider_set" where
  "provide ref p s =
     (if trim_space ref = [] then (Some BlankRef, s)
      else if map_of s ref \<noteq> None then (Some (DuplicateProvider ref), s)
      else (None, s @ [(ref, p)]))"

definition replace_provider :: "string \<Rightarrow> 'p \<Rightarrow> 'p provider_set \<Rightarrow> module_error option \<times> 'p provider_set" where
  "replace_provider ref p s = (if trim_space ref = [] then (Some BlankRef, s) else (None, AList.update ref p s))"

definition resolve_provider :: "string \<Rightarrow> 'p provider_set \<Rightarrow> 'p option" where
  "resolve_provider ref s = map_of s ref"

text \<open>
  A \<open>RegisterProviders\<close> of a module or a transaction: its calls of \<open>Provide\<close> in order, up to the first that is
  refused, whose error it returns; \<open>rg_fails\<close>: it then returns an error of its own.
\<close>

record 'p registration =
  rg_calls :: "(string \<times> 'p) list"
  rg_fails :: bool

fun provide_all ::
  "(string \<Rightarrow> 'p \<Rightarrow> 'p provider_set \<Rightarrow> module_error option \<times> 'p provider_set) \<Rightarrow> (string \<times> 'p) list \<Rightarrow> 'p provider_set \<Rightarrow>
   module_error option \<times> 'p provider_set" where
  "provide_all put [] s = (None, s)"
| "provide_all put ((ref, p) # calls) s =
     (case put ref p s of (Some e, s') \<Rightarrow> (Some e, s') | (None, s') \<Rightarrow> provide_all put calls s')"

definition register_providers ::
  "(string \<Rightarrow> 'p \<Rightarrow> 'p provider_set \<Rightarrow> module_error option \<times> 'p provider_set) \<Rightarrow> string \<Rightarrow> 'p registration \<Rightarrow>
   'p provider_set \<Rightarrow> module_error option \<times> 'p provider_set" where
  "register_providers put name g s =
     (case provide_all put (rg_calls g) s of
        (Some e, s') \<Rightarrow> (Some (RegisterFails name (Some e)), s')
      | (None, s') \<Rightarrow> ((if rg_fails g then Some (RegisterFails name None) else None), s'))"

fun missing_provider :: "string \<Rightarrow> string list \<Rightarrow> 'p provider_set \<Rightarrow> module_error option" where
  "missing_provider name [] s = None"
| "missing_provider name (r # rs) s =
     (if resolve_provider r s = None then Some (MissingProvider name r) else missing_provider name rs s)"

fun validate_required_providers :: "module_registry \<Rightarrow> nat list \<Rightarrow> 'p provider_set \<Rightarrow> module_error option" where
  "validate_required_providers r [] s = None"
| "validate_required_providers r (i # ks) s =
     (case validate_descriptor (the_module r i) of
        Inl e \<Rightarrow> Some e
      | Inr d \<Rightarrow> (case missing_provider (md_name d) (md_requires d) s of
            Some e \<Rightarrow> Some e
          | None \<Rightarrow> validate_required_providers r ks s))"

text \<open>\<open>hashGenerationProviders\<close>; \<open>type_of\<close> prints the type of a provider, \<open>sha\<close> is the hex digest of SHA-256.\<close>

definition hash_generation_providers :: "(string \<Rightarrow> string) \<Rightarrow> ('p \<Rightarrow> string) \<Rightarrow> string \<Rightarrow> 'p provider_set \<Rightarrow> string" where
  "hash_generation_providers sha type_of i s =
     sha (i @ concat (map (\<lambda>l. CHR 0x00 # l) (sort (map (\<lambda>(ref, p). ref @ ''='' @ type_of p) s))))"

end
