(* ===== verification/ModOrder.thy ===== *)
theory ModOrder
  imports ModRegistry
begin

text \<open>
  What the module registry promises: the order of the modules is the least of the orders that put every module
  behind the modules whose providers it uses, there is an error exactly when there is none, and the names of
  the registered modules differ. \<open>module_order\<close> is the specification, in terms of the descriptors alone.
\<close>

abbreviation provides_of :: "module_registry \<Rightarrow> nat \<Rightarrow> string set" where
  "provides_of r i \<equiv> set (md_provides (am_descriptor (the_module r i)))"

abbreviation requires_of :: "module_registry \<Rightarrow> nat \<Rightarrow> string set" where
  "requires_of r i \<equiv> set (md_requires (am_descriptor (the_module r i)))"

abbreviation optional_of :: "module_registry \<Rightarrow> nat \<Rightarrow> string set" where
  "optional_of r i \<equiv> set (md_optional (am_descriptor (the_module r i)))"

definition depends_on :: "module_registry \<Rightarrow> nat \<Rightarrow> nat \<Rightarrow> bool" where
  "depends_on r i j \<longleftrightarrow> j \<noteq> i \<and> (requires_of r i \<union> optional_of r i) \<inter> provides_of r j \<noteq> {}"

definition module_order :: "module_registry \<Rightarrow> nat list \<Rightarrow> bool" where
  "module_order r q \<longleftrightarrow> distinct q \<and> set q = {..<length (mr_modules r)} \<and>
     (\<forall>k < length q. \<forall>j < length (mr_modules r). depends_on r (q ! k) j \<longrightarrow> j \<in> set (take k q))"

text \<open>The descriptors are valid, no reference has two providers and every required one has one.\<close>

definition well_described :: "module_registry \<Rightarrow> bool" where
  "well_described r \<longleftrightarrow>
     (\<forall>i < length (mr_modules r). \<exists>d. validate_descriptor (the_module r i) = Inr d) \<and>
     (\<forall>i < length (mr_modules r). \<forall>j < length (mr_modules r). i \<noteq> j \<longrightarrow> provides_of r i \<inter> provides_of r j = {}) \<and>
     (\<forall>i < length (mr_modules r). requires_of r i \<subseteq> (\<Union>j < length (mr_modules r). provides_of r j))"

subsection \<open>Orders of a dependency graph\<close>

definition prefix_ok :: "nat list list \<Rightarrow> nat list \<Rightarrow> bool" where
  "prefix_ok deps q \<longleftrightarrow> distinct q \<and> set q \<subseteq> {..<length deps} \<and>
     (\<forall>k < length q. set (deps ! (q ! k)) \<subseteq> set (take k q))"

definition dep_order :: "nat list list \<Rightarrow> nat list \<Rightarrow> bool" where
  "dep_order deps q \<longleftrightarrow> prefix_ok deps q \<and> length q = length deps"

lemma prefix_ok_Nil: "prefix_ok deps []"
  by (simp add: prefix_ok_def)

lemma prefix_ok_snoc:
  "prefix_ok deps (q @ [i]) \<longleftrightarrow> prefix_ok deps q \<and> i < length deps \<and> i \<notin> set q \<and> set (deps ! i) \<subseteq> set q"
  by (auto simp: prefix_ok_def nth_append less_Suc_eq)

lemma prefix_ok_take: "prefix_ok deps q \<Longrightarrow> prefix_ok deps (take k q)"
  by (auto simp: prefix_ok_def min_def dest: in_set_takeD)

lemma next_module_Some:
  "next_module deps q = Some i \<Longrightarrow> i < length deps \<and> i \<notin> set q \<and> set (deps ! i) \<subseteq> set q \<and>
     (\<forall>j < i. j \<in> set q \<or> \<not> set (deps ! j) \<subseteq> set q)"
  by (auto simp: next_module_def find_Some_iff list_all_iff subset_iff)

lemma next_module_None: "next_module deps q = None \<Longrightarrow> i < length deps \<Longrightarrow> i \<in> set q \<or> \<not> set (deps ! i) \<subseteq> set q"
  by (auto simp: next_module_def find_None_iff list_all_iff subset_iff)

lemma order_modules_sound:
  "prefix_ok deps pre \<Longrightarrow> order_modules deps pre = Some q \<Longrightarrow> dep_order deps q \<and> (\<exists>rest. q = pre @ rest)"
proof (induction deps pre rule: order_modules.induct)
  case (1 deps pre)
  have small: "length pre \<le> length deps"
    using 1(2) card_mono [of "{..<length deps}" "set pre"] by (simp add: prefix_ok_def distinct_card)
  show ?case
  proof (cases "length deps \<le> length pre")
    case True
    then show ?thesis using 1(2,3) small by (auto simp: order_modules.simps dep_order_def)
  next
    case False
    then obtain i where i: "next_module deps pre = Some i" "order_modules deps (pre @ [i]) = Some q"
      using 1(3) by (subst (asm) order_modules.simps) (auto split: option.splits)
    have "prefix_ok deps (pre @ [i])" using 1(2) next_module_Some [OF i(1)] by (simp add: prefix_ok_snoc)
    then show ?thesis using 1(1) [OF False i(1) _ i(2)] by auto
  qed
qed

text \<open>A prefix that leaves modules out never gets stuck if there is an order at all.\<close>

lemma order_not_stuck:
  assumes "dep_order deps q" "prefix_ok deps pre" "length pre < length deps"
  shows "next_module deps pre \<noteq> None"
proof
  assume stuck: "next_module deps pre = None"
  have full: "set q = {..<length deps}"
    using assms(1) card_subset_eq [of "{..<length deps}" "set q"]
    by (auto simp: dep_order_def prefix_ok_def distinct_card)
  have "\<not> set q \<subseteq> set pre"
    using assms(1,3) card_mono [of "set pre" "set q"] card_length [of pre]
    by (auto simp: dep_order_def prefix_ok_def distinct_card)
  then obtain k where k: "k < length q" "q ! k \<notin> set pre" by (auto simp: in_set_conv_nth subset_iff)
  obtain m where m: "m < length q" "q ! m \<notin> set pre" and least: "\<And>n. n < m \<Longrightarrow> q ! n \<in> set pre"
    using exists_least_iff [of "\<lambda>k. k < length q \<and> q ! k \<notin> set pre"] k by (metis order.strict_trans)
  have "set (take m q) \<subseteq> set pre" using least by (auto simp: in_set_conv_nth)
  then have "set (deps ! (q ! m)) \<subseteq> set pre"
    using assms(1) m(1) unfolding dep_order_def prefix_ok_def by blast
  moreover have "q ! m < length deps" using full m(1) nth_mem by blast
  ultimately show False using next_module_None [OF stuck] m(2) by blast
qed

lemma order_modules_total:
  "dep_order deps q \<Longrightarrow> prefix_ok deps pre \<Longrightarrow> \<exists>q'. order_modules deps pre = Some q'"
proof (induction deps pre rule: order_modules.induct)
  case (1 deps pre)
  show ?case
  proof (cases "length deps \<le> length pre")
    case True
    then show ?thesis by (simp add: order_modules.simps)
  next
    case False
    then obtain i where i: "next_module deps pre = Some i" using order_not_stuck [OF 1(2,3)] by auto
    have "prefix_ok deps (pre @ [i])" using 1(3) next_module_Some [OF i] by (simp add: prefix_ok_snoc)
    then show ?thesis using 1(1) [OF False i 1(2)] False i by (subst order_modules.simps) simp
  qed
qed

lemma order_modules_least:
  "prefix_ok deps pre \<Longrightarrow> order_modules deps pre = Some q \<Longrightarrow> dep_order deps (pre @ rest) \<Longrightarrow> q \<le> pre @ rest"
proof (induction deps pre arbitrary: rest rule: order_modules.induct)
  case (1 deps pre)
  show ?case
  proof (cases "length deps \<le> length pre")
    case True
    have "length pre + length rest = length deps" using 1(4) by (simp add: dep_order_def)
    then have "length rest = 0" using True by linarith
    then show ?thesis using True 1(3) by (simp add: order_modules.simps)
  next
    case False
    then obtain i where i: "next_module deps pre = Some i" "order_modules deps (pre @ [i]) = Some q"
      using 1(3) by (subst (asm) order_modules.simps) (auto split: option.splits)
    have pre: "prefix_ok deps (pre @ [i])" using 1(2) next_module_Some [OF i(1)] by (simp add: prefix_ok_snoc)
    obtain j more where rest: "rest = j # more" using False 1(4) by (cases rest) (auto simp: dep_order_def)
    have "prefix_ok deps (pre @ [j])"
      using prefix_ok_take [of deps "pre @ rest" "Suc (length pre)"] 1(4) by (simp add: dep_order_def rest)
    then have "i \<le> j" using next_module_Some [OF i(1)] by (fastforce simp: prefix_ok_snoc not_less)
    then consider "i = j" | "i < j" by linarith
    then show ?thesis
    proof cases
      case 1
      then show ?thesis using "1.IH" [OF False i(1) pre i(2), of more] "1.prems"(3) by (simp add: rest)
    next
      case 2
      obtain tail where "q = pre @ i # tail" using order_modules_sound [OF pre i(2)] by auto
      then have "q < pre @ rest"
        using 2 by (auto simp: rest list_less_def intro!: lexord_append_leftI)
      then show ?thesis by simp
    qed
  qed
qed

lemma order_modules_exact:
  "order_modules deps [] = Some q \<longleftrightarrow> dep_order deps q \<and> (\<forall>q'. dep_order deps q' \<longrightarrow> q \<le> q')"
  "order_modules deps [] = None \<longleftrightarrow> (\<forall>q'. \<not> dep_order deps q')"
proof -
  have least: "order_modules deps [] = Some q \<Longrightarrow> dep_order deps q' \<Longrightarrow> q \<le> q'" for q q'
    using order_modules_least [OF prefix_ok_Nil, of deps q q'] by simp
  show "order_modules deps [] = Some q \<longleftrightarrow> dep_order deps q \<and> (\<forall>q'. dep_order deps q' \<longrightarrow> q \<le> q')"
    using order_modules_sound [OF prefix_ok_Nil] least order_modules_total [OF _ prefix_ok_Nil]
    by (metis antisym)
  show "order_modules deps [] = None \<longleftrightarrow> (\<forall>q'. \<not> dep_order deps q')"
    using order_modules_sound [OF prefix_ok_Nil] order_modules_total [OF _ prefix_ok_Nil]
    by (metis not_Some_eq)
qed


subsection \<open>The graph of a registry\<close>

lemma check_refs_Inr: "check_refs refs x = Inr y \<longleftrightarrow> validate_refs [] refs = None \<and> y = x"
  by (auto simp: check_refs_def split: option.splits)

lemma validate_refs_None:
  "validate_refs seen refs = None \<longleftrightarrow> distinct refs \<and> set refs \<inter> set seen = {} \<and> (\<forall>ref \<in> set refs. trim_space ref \<noteq> [])"
  by (induction seen refs rule: validate_refs.induct) auto

lemma validate_descriptor_Inr:
  assumes "validate_descriptor m = Inr d"
  shows "d = (am_descriptor m)\<lparr>md_name := trim_space (am_name m)\<rparr>" "distinct (md_provides (am_descriptor m))"
    "\<forall>ref \<in> set (md_requires (am_descriptor m)). trim_space ref \<noteq> []" "trim_space (am_name m) \<noteq> []"
  using assms
  by (auto simp: validate_descriptor_def Let_def tx_bind_Inr_iff check_refs_Inr validate_refs_None split: if_splits)

lemma add_provides_Inr:
  "add_provides k refs ps = Inr ps' \<longleftrightarrow> distinct refs \<and> set refs \<inter> dom ps = {} \<and>
     ps' = (\<lambda>ref. if ref \<in> set refs then Some k else ps ref)"
proof (induction k refs ps rule: add_provides.induct)
  case (1 k ps)
  then show ?case by auto
next
  case (2 k r rs ps)
  have "(\<lambda>x. if x \<in> set rs then Some k else (ps(r \<mapsto> k)) x) = (\<lambda>x. if x \<in> set (r # rs) then Some k else ps x)"
    by (auto simp: fun_eq_iff)
  then have eq: "(distinct rs \<and> set rs \<inter> dom (ps(r \<mapsto> k)) = {} \<and>
        ps' = (\<lambda>x. if x \<in> set rs then Some k else (ps(r \<mapsto> k)) x)) \<longleftrightarrow>
      (distinct (r # rs) \<and> set rs \<inter> dom ps = {} \<and> ps' = (\<lambda>x. if x \<in> set (r # rs) then Some k else ps x))"
    by (simp only:) auto
  show ?case
  proof (cases "ps r")
    case None
    then have "add_provides k (r # rs) ps = Inr ps' \<longleftrightarrow> distinct rs \<and> set rs \<inter> dom (ps(r \<mapsto> k)) = {} \<and>
        ps' = (\<lambda>x. if x \<in> set rs then Some k else (ps(r \<mapsto> k)) x)"
      using 2 by (simp only: add_provides.simps if_False simp_thms)
    moreover have "set (r # rs) \<inter> dom ps = set rs \<inter> dom ps" using None by auto
    ultimately show ?thesis using eq by (simp only:)
  qed auto
qed

lemma collect_providers_Inr:
  "collect_providers k ms ps = Inr (ds, ps') \<Longrightarrow>
     list_all2 (\<lambda>m d. validate_descriptor m = Inr d) ms ds \<and>
     (\<forall>ref j. ps' ref = Some j \<longleftrightarrow> ps ref = Some j \<or>
        (k \<le> j \<and> j - k < length ms \<and> ref \<in> set (md_provides (am_descriptor (ms ! (j - k))))))"
proof (induction k ms ps arbitrary: ds ps' rule: collect_providers.induct)
  case (1 k ps)
  then show ?case by auto
next
  case (2 k m ms ps)
  then obtain d ps1 ds1 where d: "validate_descriptor m = Inr d" "add_provides k (md_provides d) ps = Inr ps1"
      "collect_providers (Suc k) ms ps1 = Inr (ds1, ps')" "ds = d # ds1"
    by (auto simp: tx_bind_Inr_iff)
  note ps1 = d(2) [unfolded add_provides_Inr] validate_descriptor_Inr(1) [OF d(1)]
  note rest = 2(1) [OF d(3)]
  have "ps' ref = Some j \<longleftrightarrow> ps ref = Some j \<or>
     (k \<le> j \<and> j - k < length (m # ms) \<and> ref \<in> set (md_provides (am_descriptor ((m # ms) ! (j - k)))))" for ref j
  proof -
    have "ps' ref = Some j \<longleftrightarrow> ps1 ref = Some j \<or>
      (Suc k \<le> j \<and> j - Suc k < length ms \<and> ref \<in> set (md_provides (am_descriptor (ms ! (j - Suc k)))))"
      using rest by blast
    moreover have "ps1 ref = Some j \<longleftrightarrow> ps ref = Some j \<or> j = k \<and> ref \<in> set (md_provides (am_descriptor m))"
      using ps1 by (auto simp: dom_def)
    ultimately show ?thesis by (auto simp: nth_Cons' le_Suc_eq Suc_le_eq)
  qed
  then show ?case using rest d(1,4) by blast
qed


abbreviation "apart m m' \<equiv> set (md_provides (am_descriptor m)) \<inter> set (md_provides (am_descriptor m')) = {}"

lemma collect_providers_total:
  "\<forall>m \<in> set ms. \<exists>d. validate_descriptor m = Inr d \<Longrightarrow> sorted_wrt apart ms \<Longrightarrow>
     \<forall>m \<in> set ms. set (md_provides (am_descriptor m)) \<inter> dom ps = {} \<Longrightarrow>
     \<exists>ds ps'. collect_providers k ms ps = Inr (ds, ps')"
proof (induction ms arbitrary: k ps)
  case Nil
  then show ?case by simp
next
  case (Cons m ms)
  obtain d where d: "validate_descriptor m = Inr d" using Cons(2) by auto
  define ps1 where "ps1 = (\<lambda>ref. if ref \<in> set (md_provides d) then Some k else ps ref)"
  have ps1: "add_provides k (md_provides d) ps = Inr ps1" "dom ps1 = dom ps \<union> set (md_provides (am_descriptor m))"
    using Cons(4) validate_descriptor_Inr(1,2) [OF d] by (auto simp: add_provides_Inr ps1_def)
  have "\<exists>ds ps'. collect_providers (Suc k) ms ps1 = Inr (ds, ps')"
    by (rule Cons(1)) (use Cons(2-4) in \<open>auto simp: ps1(2) disjoint_iff simp del: not_None_eq\<close>)
  then show ?case using d ps1(1) by auto
qed

lemma required_providers_Inr:
  "required_providers ps k name refs = Inr ds \<longleftrightarrow>
     set refs \<subseteq> dom ps \<and> ds = filter (\<lambda>p. p \<noteq> k) (map (\<lambda>ref. the (ps ref)) refs)"
  by (induction ps k name refs arbitrary: ds rule: required_providers.induct)
    (auto simp: tx_bind_Inr_iff dom_def split: option.splits)

lemma set_optional_providers: "set (optional_providers ps k refs) = {p. p \<noteq> k \<and> (\<exists>ref \<in> set refs. ps ref = Some p)}"
  by (auto simp: optional_providers_def map_filter_def image_iff intro!: exI)

lemma collect_dependencies_Inr:
  "(\<exists>deps. collect_dependencies ps k ds = Inr deps) \<longleftrightarrow> (\<forall>d \<in> set ds. set (md_requires d) \<subseteq> dom ps)"
  by (induction ps k ds rule: collect_dependencies.induct) (auto simp: tx_bind_Inr_iff required_providers_Inr)

lemma collect_dependencies_nth:
  "collect_dependencies ps k ds = Inr deps \<Longrightarrow> length deps = length ds \<and>
     (\<forall>i < length ds. set (deps ! i) =
        {p. p \<noteq> k + i \<and> (\<exists>ref \<in> set (md_requires (ds ! i)) \<union> set (md_optional (ds ! i)). ps ref = Some p)})"
proof (induction ps k ds arbitrary: deps rule: collect_dependencies.induct)
  case (1 ps k)
  then show ?case by simp
next
  case (2 ps k d ds)
  then obtain required rest where d: "required_providers ps k (md_name d) (md_requires d) = Inr required"
      "collect_dependencies ps (Suc k) ds = Inr rest" "deps = (required @ optional_providers ps k (md_optional d)) # rest"
    by (auto simp: tx_bind_Inr_iff)
  have "set required = {p. p \<noteq> k \<and> (\<exists>ref \<in> set (md_requires d). ps ref = Some p)}"
    using d(1) by (force simp: required_providers_Inr dom_def subset_iff)
  then have "set (required @ optional_providers ps k (md_optional d)) =
      {p. p \<noteq> k \<and> (\<exists>ref \<in> set (md_requires d) \<union> set (md_optional d). ps ref = Some p)}"
    by (auto simp: set_optional_providers)
  then show ?case using 2(1) [OF d(2)] d(3) by (auto simp: nth_Cons' less_Suc_eq_0_disj)
qed

text \<open>The graph that \<open>OrderedModules\<close> sorts is the relation of the specification.\<close>

definition registry_graph :: "module_registry \<Rightarrow> nat list list \<Rightarrow> bool" where
  "registry_graph r deps \<longleftrightarrow> length deps = length (mr_modules r) \<and>
     (\<forall>i < length deps. set (deps ! i) = {j. j < length deps \<and> depends_on r i j})"

lemma registry_graph_order:
  assumes "registry_graph r deps"
  shows "dep_order deps q \<longleftrightarrow> module_order r q"
proof -
  have full: "distinct q \<Longrightarrow> set q \<subseteq> {..<length deps} \<and> length q = length deps \<longleftrightarrow> set q = {..<length deps}"
    by (metis card_lessThan card_subset_eq distinct_card finite_lessThan order_refl)
  have "prefix_ok deps q \<and> length q = length deps \<longleftrightarrow> distinct q \<and> set q = {..<length deps} \<and>
      (\<forall>k < length q. \<forall>j < length deps. depends_on r (q ! k) j \<longrightarrow> j \<in> set (take k q))"
  proof (cases "distinct q \<and> set q = {..<length deps}")
    case True
    then have "q ! k < length deps" if "k < length q" for k using that nth_mem by blast
    then have "set (deps ! (q ! k)) = {j. j < length deps \<and> depends_on r (q ! k) j}" if "k < length q" for k
      using assms that by (simp add: registry_graph_def)
    then have "(\<forall>k < length q. set (deps ! (q ! k)) \<subseteq> set (take k q)) \<longleftrightarrow>
        (\<forall>k < length q. \<forall>j < length deps. depends_on r (q ! k) j \<longrightarrow> j \<in> set (take k q))" by (auto simp: subset_iff)
    then show ?thesis using True full unfolding prefix_ok_def by blast
  next
    case False
    then show ?thesis using full by (auto simp: prefix_ok_def)
  qed
  then show ?thesis using assms by (simp add: dep_order_def module_order_def registry_graph_def)
qed

lemma graph_of_registry:
  assumes "collect_providers 0 (mr_modules r) (\<lambda>_. None) = Inr (ds, ps)" "collect_dependencies ps 0 ds = Inr deps"
  shows "registry_graph r deps"
proof -
  note c = collect_providers_Inr [OF assms(1)]
  have len: "length ds = length (mr_modules r)" using c by (auto dest: list_all2_lengthD)
  have refs: "md_requires (ds ! i) = md_requires (am_descriptor (the_module r i))"
    "md_optional (ds ! i) = md_optional (am_descriptor (the_module r i))" if "i < length ds" for i
    using c that len validate_descriptor_Inr(1) [of "mr_modules r ! i" "ds ! i"]
    by (simp_all add: list_all2_conv_all_nth the_module_def)
  have ps: "ps ref = Some j \<longleftrightarrow> j < length ds \<and> ref \<in> provides_of r j" for ref j
    using c len by (simp add: the_module_def)
  show ?thesis
    using collect_dependencies_nth [OF assms(2)] len by (auto simp: registry_graph_def depends_on_def ps refs)
qed

lemma well_described_collected:
  "well_described r \<longleftrightarrow> (\<exists>ds ps deps. collect_providers 0 (mr_modules r) (\<lambda>_. None) = Inr (ds, ps) \<and>
     collect_dependencies ps 0 ds = Inr deps)" (is "_ \<longleftrightarrow> ?collected")
proof
  assume w: "well_described r"
  have "sorted_wrt apart (mr_modules r)"
    using w by (auto simp: well_described_def the_module_def sorted_wrt_iff_nth_less)
  moreover have "\<forall>m \<in> set (mr_modules r). \<exists>d. validate_descriptor m = Inr d"
    using w by (auto simp: well_described_def the_module_def in_set_conv_nth)
  ultimately obtain ds ps where c: "collect_providers 0 (mr_modules r) (\<lambda>_. None) = Inr (ds, ps)"
    using collect_providers_total [of "mr_modules r" "\<lambda>_. None" 0] by auto
  note all = collect_providers_Inr [OF c]
  have "set (md_requires (ds ! i)) \<subseteq> dom ps" if "i < length ds" for i
  proof -
    have i: "i < length (mr_modules r)" "validate_descriptor (the_module r i) = Inr (ds ! i)"
      using all that by (auto simp: list_all2_conv_all_nth the_module_def)
    then show ?thesis
      using w all validate_descriptor_Inr(1) [OF i(2)] by (fastforce simp: well_described_def the_module_def dom_def)
  qed
  then show ?collected using c collect_dependencies_Inr by (metis in_set_conv_nth)
next
  assume ?collected
  then obtain ds ps deps where c: "collect_providers 0 (mr_modules r) (\<lambda>_. None) = Inr (ds, ps)"
      "collect_dependencies ps 0 ds = Inr deps" by blast
  note all = collect_providers_Inr [OF c(1)]
  have len: "length ds = length (mr_modules r)" using all by (auto dest: list_all2_lengthD)
  have ps: "ps ref = Some j \<longleftrightarrow> j < length ds \<and> ref \<in> provides_of r j" for ref j
    using all len by (simp add: the_module_def)
  have d: "validate_descriptor (the_module r i) = Inr (ds ! i)" if "i < length ds" for i
    using all that by (auto simp: list_all2_conv_all_nth the_module_def)
  have "requires_of r i \<subseteq> (\<Union>j < length ds. provides_of r j)" if "i < length ds" for i
  proof -
    have "\<forall>d \<in> set ds. set (md_requires d) \<subseteq> dom ps" using collect_dependencies_Inr c(2) by blast
    then have "requires_of r i \<subseteq> dom ps"
      using validate_descriptor_Inr(1) [OF d [OF that]] nth_mem [OF that] by (metis module_descriptor.select_convs(3)
        module_descriptor.surjective module_descriptor.update_convs(1))
    moreover have "dom ps \<subseteq> (\<Union>j < length ds. provides_of r j)" using ps by blast
    ultimately show ?thesis by blast
  qed
  moreover have "provides_of r i \<inter> provides_of r j = {}" if "i < length ds" "j < length ds" "i \<noteq> j" for i j
    using ps that by (metis disjoint_iff option.inject)
  ultimately show "well_described r" using d by (auto simp: well_described_def len)
qed

lemma ordered_modules_Inr:
  "ordered_modules r = Inr q \<longleftrightarrow>
     well_described r \<and> module_order r q \<and> (\<forall>q'. module_order r q' \<longrightarrow> q \<le> q')"
proof (cases "mr_modules r = []")
  case True
  then show ?thesis by (auto simp: ordered_modules_def well_described_def module_order_def)
next
  case False
  show ?thesis
  proof (cases "well_described r")
    case True
    then obtain ds ps deps where c: "collect_providers 0 (mr_modules r) (\<lambda>_. None) = Inr (ds, ps)"
        "collect_dependencies ps 0 ds = Inr deps" by (auto simp: well_described_collected)
    then show ?thesis
      using True False order_modules_exact(1) [of deps q] registry_graph_order [OF graph_of_registry [OF c]]
      by (auto simp: ordered_modules_def split: option.splits)
  next
    case no: False
    then show ?thesis using False by (auto simp: ordered_modules_def tx_bind_Inr_iff well_described_collected)
  qed
qed

lemma no_cycle_before:
  "validate_descriptor m \<noteq> Inl ProviderCycle"
  "add_provides k refs ps \<noteq> Inl ProviderCycle"
  "collect_providers k ms ps \<noteq> Inl ProviderCycle"
  "required_providers qs k name refs \<noteq> Inl ProviderCycle"
  "collect_dependencies qs k ds \<noteq> Inl ProviderCycle"
proof -
  have refs: "validate_refs seen refs' \<noteq> Some ProviderCycle" for seen refs'
    by (induction seen refs' rule: validate_refs.induct) auto
  show d: "validate_descriptor m \<noteq> Inl ProviderCycle" for m
    using refs by (auto simp: validate_descriptor_def Let_def tx_bind_Inl_iff check_refs_def split: option.splits)
  show a: "add_provides k refs ps \<noteq> Inl ProviderCycle" for k refs ps
    by (induction k refs ps rule: add_provides.induct) (auto simp del: fun_upd_apply)
  show "collect_providers k ms ps \<noteq> Inl ProviderCycle"
    by (induction k ms ps rule: collect_providers.induct) (auto simp: tx_bind_Inl_iff d a)
  show q: "required_providers qs k name refs \<noteq> Inl ProviderCycle" for qs k name refs
    by (induction qs k name refs rule: required_providers.induct) (auto simp: tx_bind_Inl_iff split: option.splits)
  show "collect_dependencies qs k ds \<noteq> Inl ProviderCycle"
    by (induction qs k ds rule: collect_dependencies.induct) (auto simp: tx_bind_Inl_iff q)
qed

lemma ordered_modules_cycle:
  "ordered_modules r = Inl ProviderCycle \<longleftrightarrow> well_described r \<and> (\<forall>q. \<not> module_order r q)"
proof (cases "well_described r \<and> mr_modules r \<noteq> []")
  case True
  then obtain ds ps deps where c: "collect_providers 0 (mr_modules r) (\<lambda>_. None) = Inr (ds, ps)"
      "collect_dependencies ps 0 ds = Inr deps" by (auto simp: well_described_collected)
  then show ?thesis
    using True order_modules_exact(2) [of deps] registry_graph_order [OF graph_of_registry [OF c]]
    by (auto simp: ordered_modules_def split: option.splits)
next
  case False
  then show ?thesis
    using no_cycle_before(3,5)
    by (auto simp: ordered_modules_def tx_bind_Inl_iff well_described_collected module_order_def split: option.splits)
qed

subsection \<open>Registration\<close>

text \<open>Every module is registered under its own key; so the names differ whatever their case.\<close>

definition registry_names_ok :: "module_registry \<Rightarrow> bool" where
  "registry_names_ok r \<longleftrightarrow> mr_by_name r = map (\<lambda>m. (to_lower (trim_space (am_name m)), m)) (mr_modules r) \<and>
     distinct (map fst (mr_by_name r)) \<and> (\<forall>m \<in> set (mr_modules r). \<exists>d. validate_descriptor m = Inr d)"

lemma new_module_registry_ok: "registry_names_ok new_module_registry"
  by (simp add: registry_names_ok_def new_module_registry_def)

lemma register_module_ok:
  assumes "registry_names_ok r"
  shows "registry_names_ok (snd (register_module m r))"
proof (cases "fst (register_module m r)")
  case None
  then obtain x d where m: "m = Some x" "validate_descriptor x = Inr d" "map_of (mr_by_name r) (to_lower (md_name d)) = None"
    by (auto simp: register_module_def validate_module_def Let_def tx_bind_def split: sum.splits option.splits if_splits)
  moreover have "md_name d = trim_space (am_name x)" using validate_descriptor_Inr(1) [OF m(2)] by simp
  ultimately show ?thesis
    using assms by (auto simp: register_module_def validate_module_def registry_names_ok_def map_of_eq_None_iff image_image)
next
  case (Some e)
  then show ?thesis
    using assms by (auto simp: register_module_def Let_def split: sum.splits if_splits)
qed

lemma register_module_adds:
  "register_module (Some m) r = (None, r') \<Longrightarrow>
     mr_modules r' = mr_modules r @ [m] \<and> (\<exists>d. validate_descriptor m = Inr d)"
  by (auto simp: register_module_def validate_module_def Let_def tx_bind_def split: sum.splits if_splits)

end
