(* ===== verification/ModGeneration.thy ===== *)
theory ModGeneration
  imports ModOrder
begin

text \<open>
  Generations of the module registry (\<open>internal/module/registry.go\<close>): the transactions the modules prepare for a
  candidate, its readiness, publication and destruction, the published views, and \<open>Registry.Apply\<close>, which the
  agent uses without a generation manager. Transactions and views are objects with an identity, so they are
  positions in lists of the world; what a module answers to a call is decided by the environment.
\<close>

subsection \<open>Contexts\<close>

record generation_context =
  gx_identity :: generation_identity
  gx_previous :: agent_snapshot
  gx_snapshot :: agent_snapshot

text \<open>\<open>NewGenerationContextWithSnapshotHash\<close>, and \<open>NewGenerationContext\<close> when no hash is given.\<close>

definition new_generation_context ::
  "(agent_snapshot \<Rightarrow> string) \<Rightarrow> agent_snapshot \<Rightarrow> agent_snapshot \<Rightarrow> string \<Rightarrow> generation_context option" where
  "new_generation_context digest previous s snapshot_hash =
     map_option (\<lambda>i. \<lparr>gx_identity = i, gx_previous = previous, gx_snapshot = s\<rparr>)
       (generation_identity_of s (if snapshot_hash = [] then digest s else snapshot_hash))"

definition with_traffic_runtime_config :: "traffic_config \<Rightarrow> generation_context \<Rightarrow> generation_context" where
  "with_traffic_runtime_config t g = g\<lparr>gx_snapshot := (gx_snapshot g)\<lparr>as_traffic := t\<rparr>\<rparr>"

subsection \<open>The world\<close>

text \<open>
  What \<open>Prepare\<close> returned: whether it implements \<open>GenerationTransaction\<close>, its \<open>RegisterProviders\<close> if it has one,
  and which of the optional interfaces it implements.
\<close>

record 'p module_txn =
  mt_generation :: bool
  mt_registers :: "'p registration option"
  mt_prepares_publication :: bool
  mt_finalizes_publication :: bool
  mt_finalizes_commit :: bool
  mt_finalizes_success :: bool

datatype 'p prepare_answer = PrepareError | PreparedNothing | Prepared "'p module_txn"

text \<open>
  What the modules answer: \<open>me_prepare\<close> by module, given what it can resolve; \<open>me_apply\<close> and \<open>me_stop\<close> by module
  and the others by transaction say that the call returns an error. \<open>me_register\<close> is a module's own
  \<open>RegisterProviders\<close>; \<open>me_type\<close> prints the type of a provider and \<open>me_sha\<close> is SHA-256 in hex.
\<close>

record 'p module_env =
  me_prepare :: "nat \<Rightarrow> 'p provider_set \<Rightarrow> 'p prepare_answer"
  me_register :: "nat \<Rightarrow> 'p registration"
  me_apply :: "nat \<Rightarrow> 'p provider_set \<Rightarrow> bool"
  me_stop :: "nat \<Rightarrow> bool"
  me_ready :: "nat \<Rightarrow> bool"
  me_publication :: "nat \<Rightarrow> bool"
  me_destroy :: "nat \<Rightarrow> bool"
  me_rollback :: "nat \<Rightarrow> bool"
  me_commit :: "nat \<Rightarrow> bool"
  me_finalize :: "nat \<Rightarrow> bool"
  me_type :: "'p \<Rightarrow> string"
  me_sha :: "string \<Rightarrow> string"

text \<open>The calls that were made: by module the first three, with the references it could resolve, by transaction the rest.\<close>

datatype module_event =
    EvPrepare nat "string list" | EvApply nat | EvStop nat
  | EvReady nat | EvPublication nat | EvFinalized nat | EvDestroy nat | EvRollback nat
  | EvCommit nat | EvFinalizeCommit nat | EvSucceeded nat

text \<open>\<open>GenerationView\<close>: \<open>gv_transactions\<close> holds \<open>preparedModuleTransaction\<close>s, \<open>gv_destroyed\<close> is \<open>destroyOnce\<close>.\<close>

record 'p generation_view =
  gv_context :: generation_context
  gv_providers :: "'p provider_set"
  gv_hash :: string
  gv_transactions :: "(string \<times> nat) list"
  gv_destroyed :: bool
  gv_destroy_errors :: "module_error list"

text \<open>\<open>mw_locked\<close> is \<open>generationMu\<close>, \<open>mw_providers\<close> the \<open>providers\<close> of the registry.\<close>

record 'p module_world =
  mw_transactions :: "'p module_txn list"
  mw_log :: "module_event list"
  mw_views :: "'p generation_view list"
  mw_active :: "nat option"
  mw_locked :: bool
  mw_providers :: "'p provider_set"

definition new_module_world :: "'p module_world" where
  "new_module_world = \<lparr>mw_transactions = [], mw_log = [], mw_views = [], mw_active = None, mw_locked = False, mw_providers = []\<rparr>"

definition happened :: "module_event list \<Rightarrow> 'p module_world \<Rightarrow> 'p module_world" where
  "happened es w = w\<lparr>mw_log := mw_log w @ es\<rparr>"

definition the_txn :: "'p module_world \<Rightarrow> nat \<Rightarrow> 'p module_txn" where
  "the_txn w a = mw_transactions w ! a"

definition the_view :: "'p module_world \<Rightarrow> nat \<Rightarrow> 'p generation_view" where
  "the_view w v = mw_views w ! v"

text \<open>A list of transactions is called in order up to the first error, \<open>Inl\<close> of the error it returns.\<close>

fun call_each ::
  "(nat \<Rightarrow> bool) \<Rightarrow> (string \<Rightarrow> module_error) \<Rightarrow> (nat \<Rightarrow> module_event) \<Rightarrow> (string \<times> nat) list \<Rightarrow> 'p module_world \<Rightarrow>
   module_error list \<times> 'p module_world" where
  "call_each fails err ev [] w = ([], w)"
| "call_each fails err ev ((name, a) # ts) w =
     (if fails a then ([err name], happened [ev a] w) else call_each fails err ev ts (happened [ev a] w))"

text \<open>\<open>destroyCandidateTransactions\<close> and \<open>destroyPublishedTransactions\<close>: all of them, the last one first.\<close>

definition destroy_transactions ::
  "'p module_env \<Rightarrow> (string \<times> nat) list \<Rightarrow> 'p module_world \<Rightarrow> module_error list \<times> 'p module_world" where
  "destroy_transactions env ts w =
     (map (\<lambda>(name, a). DestroyFails name) (filter (\<lambda>(name, a). me_destroy env a) (rev ts)),
      happened (map (\<lambda>(name, a). EvDestroy a) (rev ts)) w)"

subsection \<open>Candidates\<close>

record 'p generation_candidate =
  cd_context :: generation_context
  cd_providers :: "'p provider_set"
  cd_transactions :: "(string \<times> nat) list"
  cd_ready :: bool
  cd_prepared :: bool
  cd_completed :: bool

definition empty_candidate :: "generation_context \<Rightarrow> 'p generation_candidate" where
  "empty_candidate g = \<lparr>cd_context = g, cd_providers = [], cd_transactions = [], cd_ready = False, cd_prepared = False,
     cd_completed = False\<rparr>"

text \<open>
  The providers that a transaction registers with the candidate. The set is the one the other modules resolve
  from, so what was registered before an error stays in it.
\<close>

definition register_prepared ::
  "string \<Rightarrow> string list \<Rightarrow> 'p registration option \<Rightarrow> 'p generation_candidate \<Rightarrow> module_error list \<times> 'p generation_candidate" where
  "register_prepared name provides registers c =
     (case registers of
        None \<Rightarrow> ((if provides \<noteq> [] then [NoOwnedProviders name] else []), c)
      | Some g \<Rightarrow>
          (case register_providers provide name g (cd_providers c) of
             (Some e, s) \<Rightarrow> ([e], c\<lparr>cd_providers := s\<rparr>)
           | (None, s) \<Rightarrow>
               ((case find (\<lambda>ref. ref \<notin> fst ` set (rg_calls g)) provides of
                   Some ref \<Rightarrow> [NotRegistered name ref] | None \<Rightarrow> []), c\<lparr>cd_providers := s\<rparr>)))"

text \<open>One round of the loop of \<open>PrepareGeneration\<close>; no error and the loop goes on.\<close>

definition prepare_module ::
  "'p module_env \<Rightarrow> module_registry \<Rightarrow> nat \<Rightarrow> 'p generation_candidate \<Rightarrow> 'p module_world \<Rightarrow>
   module_error list \<times> 'p generation_candidate \<times> 'p module_world" where
  "prepare_module env r i c w =
     (let name = name_of_module r i in
      case validate_descriptor (the_module r i) of
        Inl e \<Rightarrow> ([e], c, w)
      | Inr d \<Rightarrow>
          if \<not> am_transactional (the_module r i) then ([NotTransactional name], c, w)
          else (let w1 = happened [EvPrepare i (map fst (cd_providers c))] w in
            case me_prepare env i (cd_providers c) of
              PrepareError \<Rightarrow> ([PrepareFails name], c, w1)
            | PreparedNothing \<Rightarrow> ([NothingPrepared name], c, w1)
            | Prepared t \<Rightarrow>
                (let a = length (mw_transactions w1); w2 = w1\<lparr>mw_transactions := mw_transactions w1 @ [t]\<rparr> in
                 if \<not> mt_generation t
                 then (IncompatibleTransaction name # (if me_rollback env a then [RollbackFails] else []), c,
                   happened [EvRollback a] w2)
                 else (case register_prepared name (md_provides d) (mt_registers t)
                         (c\<lparr>cd_transactions := cd_transactions c @ [(name, a)]\<rparr>) of
                     (es, c') \<Rightarrow> (es, c', w2)))))"

fun prepare_modules ::
  "'p module_env \<Rightarrow> module_registry \<Rightarrow> nat list \<Rightarrow> 'p generation_candidate \<Rightarrow> 'p module_world \<Rightarrow>
   module_error list \<times> 'p generation_candidate \<times> 'p module_world" where
  "prepare_modules env r [] c w = ([], c, w)"
| "prepare_modules env r (i # ks) c w =
     (case prepare_module env r i c w of
        (es, c', w') \<Rightarrow> if es \<noteq> [] then (es, c', w') else prepare_modules env r ks c' w')"

definition abort_preparation ::
  "'p module_env \<Rightarrow> module_error list \<Rightarrow> 'p generation_candidate \<Rightarrow> 'p module_world \<Rightarrow>
   (module_error list + 'p generation_candidate) \<times> 'p module_world" where
  "abort_preparation env cause c w =
     (case destroy_transactions env (cd_transactions c) w of
        (es, w') \<Rightarrow> (Inl (cause @ es), w'\<lparr>mw_locked := False\<rparr>))"

text \<open>
  \<open>PrepareGeneration\<close>. \<open>None\<close>: it waits for \<open>generationMu\<close>, which a candidate keeps until it is published or
  destroyed.
\<close>

definition prepare_generation ::
  "'p module_env \<Rightarrow> module_registry \<Rightarrow> generation_context \<Rightarrow> 'p module_world \<Rightarrow>
   ((module_error list + 'p generation_candidate) \<times> 'p module_world) option" where
  "prepare_generation env r g w =
     (if mw_locked w then None
      else Some (case validate_generation_compatibility r of
          Some e \<Rightarrow> (Inl [e], w)
        | None \<Rightarrow> (case ordered_modules r of
              Inl e \<Rightarrow> (Inl [e], w)
            | Inr q \<Rightarrow>
                (case prepare_modules env r q (empty_candidate g) (w\<lparr>mw_locked := True\<rparr>) of
                   (es, c, w1) \<Rightarrow>
                     if es \<noteq> [] then abort_preparation env es c w1
                     else (case validate_required_providers r q (cd_providers c) of
                         Some e \<Rightarrow> abort_preparation env [e] c w1
                       | None \<Rightarrow> (Inr c, w1))))))"

definition candidate_ready ::
  "'p module_env \<Rightarrow> 'p generation_candidate \<Rightarrow> 'p module_world \<Rightarrow>
   module_error list \<times> 'p generation_candidate \<times> 'p module_world" where
  "candidate_ready env c w =
     (if cd_completed c then ([CandidateCompleted], c, w)
      else if cd_ready c then ([], c, w)
      else (case call_each (me_ready env) ReadyFails EvReady (cd_transactions c) w of
          (es, w') \<Rightarrow> (es, (if es = [] then c\<lparr>cd_ready := True\<rparr> else c), w')))"

definition publication_preparers :: "'p module_world \<Rightarrow> (string \<times> nat) list \<Rightarrow> (string \<times> nat) list" where
  "publication_preparers w ts = filter (\<lambda>(name, a). mt_prepares_publication (the_txn w a)) ts"

definition prepare_publication ::
  "'p module_env \<Rightarrow> 'p generation_candidate \<Rightarrow> 'p module_world \<Rightarrow>
   module_error list \<times> 'p generation_candidate \<times> 'p module_world" where
  "prepare_publication env c w =
     (if cd_completed c then ([CandidateCompleted], c, w)
      else if \<not> cd_ready c then ([CandidateNotReady], c, w)
      else if cd_prepared c then ([], c, w)
      else (case call_each (me_publication env) PublicationFails EvPublication
                (publication_preparers w (cd_transactions c)) w of
          (es, w') \<Rightarrow> (es, (if es = [] then c\<lparr>cd_prepared := True\<rparr> else c), w')))"

definition candidate_view :: "'p module_env \<Rightarrow> 'p generation_candidate \<Rightarrow> 'p generation_view" where
  "candidate_view env c =
     \<lparr>gv_context = cd_context c, gv_providers = cd_providers c,
      gv_hash = hash_generation_providers (me_sha env) (me_type env) (gi_id (gx_identity (cd_context c))) (cd_providers c),
      gv_transactions = cd_transactions c, gv_destroyed = False, gv_destroy_errors = []\<rparr>"

definition publication_finalizers :: "'p module_world \<Rightarrow> (string \<times> nat) list \<Rightarrow> (string \<times> nat) list" where
  "publication_finalizers w ts = filter (\<lambda>(name, a). mt_finalizes_publication (the_txn w a)) (rev ts)"

text \<open>\<open>Publish\<close>: the new view and the one before; \<open>None\<close> is a panic.\<close>

definition publish ::
  "'p module_env \<Rightarrow> 'p generation_candidate \<Rightarrow> 'p module_world \<Rightarrow>
   ((nat option \<times> nat option) \<times> 'p generation_candidate \<times> 'p module_world) option" where
  "publish env c w =
     (if cd_completed c then Some ((None, None), c, w)
      else if \<not> cd_ready c then None
      else if \<not> cd_prepared c \<and> publication_preparers w (cd_transactions c) \<noteq> [] then None
      else (let v = length (mw_views w);
                w1 = w\<lparr>mw_views := mw_views w @ [candidate_view env c], mw_active := Some v\<rparr>;
                w2 = happened (map (\<lambda>(name, a). EvFinalized a) (publication_finalizers w1 (cd_transactions c))) w1
            in Some ((Some v, mw_active w), c\<lparr>cd_completed := True\<rparr>, w2\<lparr>mw_locked := False\<rparr>)))"

definition candidate_destroy ::
  "'p module_env \<Rightarrow> 'p generation_candidate \<Rightarrow> 'p module_world \<Rightarrow>
   module_error list \<times> 'p generation_candidate \<times> 'p module_world" where
  "candidate_destroy env c w =
     (if cd_completed c then ([], c, w)
      else (case destroy_transactions env (cd_transactions c) w of
          (es, w') \<Rightarrow> (es, c\<lparr>cd_completed := True\<rparr>, w'\<lparr>mw_locked := False\<rparr>)))"

subsection \<open>Views\<close>

text \<open>\<open>GenerationView.Destroy\<close>: only the first call destroys, every later one returns its error again.\<close>

definition view_destroy :: "'p module_env \<Rightarrow> nat \<Rightarrow> 'p module_world \<Rightarrow> module_error list \<times> 'p module_world" where
  "view_destroy env v w =
     (if gv_destroyed (the_view w v) then (gv_destroy_errors (the_view w v), w)
      else (case destroy_transactions env (gv_transactions (the_view w v)) w of
          (es, w') \<Rightarrow> (es, w'\<lparr>mw_views := (mw_views w')[v := (the_view w v)\<lparr>gv_destroyed := True, gv_destroy_errors := es\<rparr>]\<rparr>)))"

definition view_resolve :: "'p module_world \<Rightarrow> nat option \<Rightarrow> string \<Rightarrow> 'p option" where
  "view_resolve w v ref = (case v of None \<Rightarrow> None | Some v \<Rightarrow> resolve_provider ref (gv_providers (the_view w v)))"

text \<open>\<open>Registry.Resolve\<close>: the active view, or what \<open>Apply\<close> left when there is none.\<close>

definition registry_resolve :: "'p module_world \<Rightarrow> string \<Rightarrow> 'p option" where
  "registry_resolve w ref =
     (case mw_active w of None \<Rightarrow> resolve_provider ref (mw_providers w) | Some v \<Rightarrow> view_resolve w (Some v) ref)"

text \<open>\<open>WithActiveGeneration\<close>; \<open>operation\<close> is \<open>None\<close> for a nil function. It waits for \<open>generationMu\<close>, too.\<close>

definition with_active_generation ::
  "nat option \<Rightarrow> ('p module_world \<Rightarrow> bool \<times> 'p module_world) option \<Rightarrow> 'p module_world \<Rightarrow>
   ((bool \<times> bool) \<times> 'p module_world) option" where
  "with_active_generation expected operation w =
     (if expected = None then Some ((False, True), w)
      else if mw_locked w then None
      else if mw_active w \<noteq> expected then Some ((False, True), w)
      else (case operation of
          None \<Rightarrow> Some ((True, True), w)
        | Some f \<Rightarrow> (case f (w\<lparr>mw_locked := True\<rparr>) of (ok, w') \<Rightarrow> Some ((True, ok), w'\<lparr>mw_locked := False\<rparr>))))"

subsection \<open>Apply without generations\<close>

fun register_modules ::
  "'p module_env \<Rightarrow> module_registry \<Rightarrow> nat list \<Rightarrow> 'p provider_set \<Rightarrow> module_error option \<times> 'p provider_set" where
  "register_modules env r [] s = (None, s)"
| "register_modules env r (i # ks) s =
     (case register_providers provide (name_of_module r i) (me_register env i) s of
        (Some e, s') \<Rightarrow> (Some e, s') | (None, s') \<Rightarrow> register_modules env r ks s')"

definition registered_provider_set ::
  "'p module_env \<Rightarrow> module_registry \<Rightarrow> module_error + (nat list \<times> 'p provider_set)" where
  "registered_provider_set env r =
     tx_bind (ordered_modules r) (\<lambda>q.
       case register_modules env r q [] of
         (Some e, s) \<Rightarrow> Inl e
       | (None, s) \<Rightarrow> (case validate_required_providers r q s of Some e \<Rightarrow> Inl e | None \<Rightarrow> Inr (q, s)))"

text \<open>\<open>rollbackPrepared\<close>: all transactions, the last one first.\<close>

definition rollback_prepared ::
  "'p module_env \<Rightarrow> nat list \<Rightarrow> module_error list \<Rightarrow> 'p module_world \<Rightarrow> module_error list \<times> 'p module_world" where
  "rollback_prepared env ts cause w =
     (cause @ map (\<lambda>a. RollbackFails) (filter (me_rollback env) (rev ts)), happened (map EvRollback (rev ts)) w)"

definition apply_module ::
  "'p module_env \<Rightarrow> module_registry \<Rightarrow> nat \<Rightarrow> nat list \<Rightarrow> 'p provider_set \<Rightarrow> 'p module_world \<Rightarrow>
   module_error list \<times> nat list \<times> 'p provider_set \<times> 'p module_world" where
  "apply_module env r i ts s w =
     (let name = name_of_module r i in
      if am_transactional (the_module r i) then
        (let w1 = happened [EvPrepare i (map fst s)] w in
         case me_prepare env i s of
           PrepareError \<Rightarrow> ([PrepareFails name], ts, s, w1)
         | PreparedNothing \<Rightarrow> ([], ts, s, w1)
         | Prepared t \<Rightarrow>
             (let a = length (mw_transactions w1); w2 = w1\<lparr>mw_transactions := mw_transactions w1 @ [t]\<rparr> in
              case mt_registers t of
                None \<Rightarrow> ([], ts @ [a], s, w2)
              | Some g \<Rightarrow> (case register_providers replace_provider name g s of
                    (Some e, s') \<Rightarrow> ([e], ts @ [a], s', w2)
                  | (None, s') \<Rightarrow> ([], ts @ [a], s', w2))))
      else (let w1 = happened [EvApply i] w in
         ((if me_apply env i s then [ApplyFails name] else []), ts, s, w1)))"

fun apply_modules ::
  "'p module_env \<Rightarrow> module_registry \<Rightarrow> nat list \<Rightarrow> nat list \<Rightarrow> 'p provider_set \<Rightarrow> 'p module_world \<Rightarrow>
   module_error list \<times> nat list \<times> 'p provider_set \<times> 'p module_world" where
  "apply_modules env r [] ts s w = ([], ts, s, w)"
| "apply_modules env r (i # ks) ts s w =
     (case apply_module env r i ts s w of
        (es, ts', s', w') \<Rightarrow> if es \<noteq> [] then (es, ts', s', w') else apply_modules env r ks ts' s' w')"

definition commit_finalizers :: "'p module_world \<Rightarrow> nat list \<Rightarrow> nat list" where
  "commit_finalizers w ts = filter (\<lambda>a. mt_finalizes_commit (the_txn w a)) (rev ts)"

definition success_finalizers :: "'p module_world \<Rightarrow> nat list \<Rightarrow> nat list" where
  "success_finalizers w ts = filter (\<lambda>a. mt_finalizes_success (the_txn w a)) (rev ts)"

text \<open>The commits in order, then the finalizers from the last transaction to the first, all revocable.\<close>

definition commit_all :: "'p module_env \<Rightarrow> nat list \<Rightarrow> 'p module_world \<Rightarrow> module_error list \<times> 'p module_world" where
  "commit_all env ts w =
     (case call_each (me_commit env) (\<lambda>_. CommitFails) EvCommit (map (\<lambda>a. ([], a)) ts) w of
        (es, w1) \<Rightarrow>
          if es \<noteq> [] then (es, w1)
          else call_each (me_finalize env) (\<lambda>_. FinalizeFails) EvFinalizeCommit
            (map (\<lambda>a. ([], a)) (commit_finalizers w1 ts)) w1)"

definition registry_apply ::
  "'p module_env \<Rightarrow> module_registry \<Rightarrow> 'p module_world \<Rightarrow> module_error list \<times> 'p module_world" where
  "registry_apply env r w =
     (case registered_provider_set env r of
        Inl e \<Rightarrow> ([e], w)
      | Inr (q, s) \<Rightarrow>
          (case apply_modules env r q [] s w of
             (es, ts, s', w1) \<Rightarrow>
               if es \<noteq> [] then rollback_prepared env ts es w1
               else (case commit_all env ts w1 of
                   (es, w2) \<Rightarrow>
                     if es \<noteq> [] then rollback_prepared env ts es w2
                     else ([], (happened (map EvSucceeded (success_finalizers w2 ts)) w2)\<lparr>mw_providers := s'\<rparr>))))"

text \<open>\<open>StopAll\<close>: every module, the last one first; the first error is returned.\<close>

definition stop_all :: "'p module_env \<Rightarrow> module_registry \<Rightarrow> 'p module_world \<Rightarrow> module_error option \<times> 'p module_world" where
  "stop_all env r w =
     (case ordered_modules r of
        Inl e \<Rightarrow> (Some e, w)
      | Inr q \<Rightarrow>
          (map_option (\<lambda>i. StopFails (name_of_module r i)) (find (me_stop env) (rev q)), happened (map EvStop (rev q)) w))"

end
