(* ===== verification/ModManager.thy ===== *)
theory ModManager
  imports ModGeneration
begin

text \<open>
  The generation manager (\<open>internal/core/generation_manager.go\<close>) over a generation source, the interface
  \<open>module.GenerationPreparer\<close> with the candidates and views it hands out: prepare, readiness, publication and
  the switch to the drain of the predecessor. The locale states what the manager relies on; inside it,
  \<open>apply\<close> always answers and refines the runtime's view of it in \<open>SyncWorld\<close>.
\<close>

text \<open>
  A generation source as its method values: compatibility, the active view and its context, and the candidate's
  methods. \<open>gs_progressive\<close>: the backend provider of a view drains progressively (\<open>generationUsesProgressiveDrain\<close>).
\<close>

record ('w, 'c) generation_source =
  gs_compatible :: "'w \<Rightarrow> module_error option"
  gs_active :: "'w \<Rightarrow> nat option"
  gs_context :: "'w \<Rightarrow> nat \<Rightarrow> generation_context"
  gs_progressive :: "'w \<Rightarrow> nat \<Rightarrow> bool"
  gs_prepare :: "generation_context \<Rightarrow> 'w \<Rightarrow> ((module_error list + 'c) \<times> 'w) option"
  gs_ready :: "'c \<Rightarrow> 'w \<Rightarrow> module_error list \<times> 'c \<times> 'w"
  gs_prepare_publication :: "'c \<Rightarrow> 'w \<Rightarrow> module_error list \<times> 'c \<times> 'w"
  gs_publish :: "'c \<Rightarrow> 'w \<Rightarrow> ((nat option \<times> nat option) \<times> 'c \<times> 'w) option"
  gs_destroy :: "'c \<Rightarrow> 'w \<Rightarrow> module_error list \<times> 'c \<times> 'w"
  gs_view_destroy :: "nat \<Rightarrow> 'w \<Rightarrow> module_error list \<times> 'w"

text \<open>\<open>gm_drain\<close> is \<open>None\<close> for \<open>NewGenerationManager\<close>, which keeps the retired views itself.\<close>

record 'w generation_manager =
  gm_source :: 'w
  gm_drain :: "controller option"
  gm_retired :: "nat list"
  gm_timeout :: int

definition new_generation_manager :: "'w \<Rightarrow> 'w generation_manager" where
  "new_generation_manager w = \<lparr>gm_source = w, gm_drain = None, gm_retired = [], gm_timeout = 0\<rparr>"

definition new_managed_generation_manager :: "'w \<Rightarrow> controller option \<Rightarrow> int \<Rightarrow> 'w generation_manager" where
  "new_managed_generation_manager w drain timeout =
     \<lparr>gm_source = w, gm_drain = Some (case drain of None \<Rightarrow> new_controller | Some c \<Rightarrow> c), gm_retired = [],
      gm_timeout = (if timeout \<le> 0 then default_drain_timeout else timeout)\<rparr>"

abbreviation gs_identity :: "('w, 'c) generation_source \<Rightarrow> 'w \<Rightarrow> nat \<Rightarrow> generation_identity" where
  "gs_identity src w v \<equiv> gx_identity (gs_context src w v)"

text \<open>Everything before the publication, in order, up to the first error; \<open>over\<close>: the context is over by then.\<close>

definition check_candidate ::
  "('w, 'c) generation_source \<Rightarrow> controller option \<Rightarrow> generation_identity \<Rightarrow> bool \<Rightarrow> 'c \<Rightarrow> 'w \<Rightarrow> module_error list \<times> 'c \<times> 'w" where
  "check_candidate src drain i over c w =
     (case gs_ready src c w of
        (es, c1, w1) \<Rightarrow>
          if es \<noteq> [] then (es, c1, w1)
          else if (case drain of None \<Rightarrow> False
                   | Some d \<Rightarrow> \<not> validate_generation_drain d i (map_option (gs_identity src w1) (gs_active src w1)))
          then ([DrainMismatch], c1, w1)
          else if over then ([ContextOver], c1, w1)
          else gs_prepare_publication src c1 w1)"

text \<open>
  The cutover: the view becomes active, and its predecessor is left to the drain controller, or kept with the
  retired ones. \<open>DrainErr\<close> is returned in the cutover and not looked at by the callers; it is left out.
\<close>

definition cutover ::
  "('w, 'c) generation_source \<Rightarrow> drain_env \<Rightarrow> agent_snapshot \<Rightarrow> agent_snapshot \<Rightarrow> int \<Rightarrow> 'c \<Rightarrow> 'w \<Rightarrow> 'w generation_manager \<Rightarrow>
   (nat option \<times> 'w generation_manager) option" where
  "cutover src denv previous s timeout c w m =
     (case gs_publish src c w of
        None \<Rightarrow> None
      | Some ((active, old), c', w') \<Rightarrow>
          Some (active, (case gm_drain m of
              None \<Rightarrow> m\<lparr>gm_source := w', gm_retired := (case old of None \<Rightarrow> gm_retired m | Some v \<Rightarrow> gm_retired m @ [v])\<rparr>
            | Some d \<Rightarrow> m\<lparr>gm_source := w', gm_drain := Some (case active of
                  None \<Rightarrow> d
                | Some v \<Rightarrow> drain_activate denv (case old of None \<Rightarrow> False | Some p \<Rightarrow> gs_progressive src w' p)
                    (map_option (gs_identity src w') old) (gs_identity src w' v) (generation_entity_changes previous s)
                    (if timeout \<le> 0 then gm_timeout m else timeout) d)\<rparr>)))"

text \<open>The candidate from its preparation to the cutover, or to its destruction after an error.\<close>

definition switch_generation ::
  "('w, 'c) generation_source \<Rightarrow> drain_env \<Rightarrow> bool \<Rightarrow> agent_snapshot \<Rightarrow> agent_snapshot \<Rightarrow> int \<Rightarrow> generation_context \<Rightarrow>
   'w generation_manager \<Rightarrow> ((module_error list \<times> nat option) \<times> 'w generation_manager) option" where
  "switch_generation src denv over_later previous s timeout g m =
     (case gs_prepare src g (gm_source m) of
        None \<Rightarrow> None
      | Some (Inl es, w1) \<Rightarrow> Some ((es, None), m\<lparr>gm_source := w1\<rparr>)
      | Some (Inr c, w1) \<Rightarrow>
          (case check_candidate src (gm_drain m) (gx_identity g) over_later c w1 of
             (es, c2, w2) \<Rightarrow>
               if es \<noteq> [] then
                 (case gs_destroy src c2 w2 of
                    (ds, c3, w3) \<Rightarrow> Some ((es @ ds, None), m\<lparr>gm_source := w3\<rparr>))
               else map_option (\<lambda>(active, m'). (([], active), m')) (cutover src denv previous s timeout c2 w2 m)))"

definition is_active_generation :: "('w, 'c) generation_source \<Rightarrow> 'w \<Rightarrow> generation_identity \<Rightarrow> bool" where
  "is_active_generation src w i =
     (case gs_active src w of None \<Rightarrow> False | Some v \<Rightarrow> gi_id (gs_identity src w v) = gi_id i)"

text \<open>
  \<open>GenerationManager.apply\<close> with the errors and the active view of its answer; \<open>None\<close>: it does not return, as
  the source waits for ever or panics. \<open>over\<close> and \<open>over_later\<close> are the two checks of the context.
\<close>

definition gm_apply ::
  "('w, 'c) generation_source \<Rightarrow> (agent_snapshot \<Rightarrow> string) \<Rightarrow> drain_env \<Rightarrow> bool \<Rightarrow> bool \<Rightarrow> agent_snapshot \<Rightarrow>
   agent_snapshot \<Rightarrow> traffic_config option \<Rightarrow> string \<Rightarrow> int \<Rightarrow> 'w generation_manager \<Rightarrow>
   ((module_error list \<times> nat option) \<times> 'w generation_manager) option" where
  "gm_apply src digest denv over over_later previous s traffic snapshot_hash timeout m =
     (case gs_compatible src (gm_source m) of
        Some e \<Rightarrow> Some (([e], None), m)
      | None \<Rightarrow>
          if over then Some (([ContextOver], None), m)
          else (case new_generation_context digest previous s snapshot_hash of
              None \<Rightarrow> Some (([InvalidHash], None), m)
            | Some g0 \<Rightarrow>
                (let g = (case traffic of None \<Rightarrow> g0 | Some t \<Rightarrow> with_traffic_runtime_config t g0) in
                 if is_active_generation src (gm_source m) (gx_identity g)
                 then Some (([], gs_active src (gm_source m)), m)
                 else switch_generation src denv over_later previous s timeout g m)))"

text \<open>
  \<open>Close\<close>: the drain controller and what it owns, or the active view; then the retired views. The views that
  the drain controller destroys are steps of their own.
\<close>

fun destroy_views :: "('w, 'c) generation_source \<Rightarrow> nat list \<Rightarrow> 'w \<Rightarrow> module_error list \<times> 'w" where
  "destroy_views src [] w = ([], w)"
| "destroy_views src (v # vs) w =
     (case gs_view_destroy src v w of (es, w1) \<Rightarrow> (case destroy_views src vs w1 of (es', w2) \<Rightarrow> (es @ es', w2)))"

definition gm_close ::
  "('w, 'c) generation_source \<Rightarrow> drain_env \<Rightarrow> 'w generation_manager \<Rightarrow> (module_error list \<times> drain_errors) \<times> 'w generation_manager" where
  "gm_close src denv m =
     (case gm_drain m of
        Some d \<Rightarrow>
          (case close_controller denv d of
             (de, d') \<Rightarrow> (case destroy_views src (gm_retired m) (gm_source m) of
                (es, w) \<Rightarrow> ((es, de), m\<lparr>gm_source := w, gm_drain := Some d', gm_retired := []\<rparr>)))
      | None \<Rightarrow>
          (case destroy_views src ((case gs_active src (gm_source m) of None \<Rightarrow> [] | Some v \<Rightarrow> [v]) @ gm_retired m) (gm_source m) of
             (es, w) \<Rightarrow> ((es, []), m\<lparr>gm_source := w, gm_retired := []\<rparr>)))"

definition active_identity :: "('w, 'c) generation_source \<Rightarrow> 'w generation_manager \<Rightarrow> generation_identity" where
  "active_identity src m = (case gs_active src (gm_source m) of None \<Rightarrow> no_identity | Some v \<Rightarrow> gs_identity src (gm_source m) v)"

subsection \<open>What the manager relies on\<close>

text \<open>
  \<open>idle\<close>: no candidate is open; \<open>opened g c w\<close>: the candidate \<open>c\<close> of context \<open>g\<close> is; \<open>readied\<close>: its readiness was
  established, \<open>announced\<close>: its publication was prepared; \<open>known w v\<close>: \<open>v\<close> is a view of the source.
\<close>

definition same_views :: "('w, 'c) generation_source \<Rightarrow> ('w \<Rightarrow> nat \<Rightarrow> bool) \<Rightarrow> 'w \<Rightarrow> 'w \<Rightarrow> bool" where
  "same_views src known w w' \<longleftrightarrow> gs_active src w' = gs_active src w \<and> gs_context src w' = gs_context src w \<and>
     (\<forall>v. known w v \<longrightarrow> known w' v)"

locale generation_interface =
  fixes src :: "('w, 'c) generation_source"
    and known :: "'w \<Rightarrow> nat \<Rightarrow> bool"
    and idle :: "'w \<Rightarrow> bool"
    and opened :: "generation_context \<Rightarrow> 'c \<Rightarrow> 'w \<Rightarrow> bool"
    and readied :: "'c \<Rightarrow> bool"
    and announced :: "'c \<Rightarrow> bool"
  assumes prepare_returns: "idle w \<Longrightarrow> gs_prepare src g w \<noteq> None"
    and prepare_fails: "idle w \<Longrightarrow> gs_prepare src g w = Some (Inl es, w') \<Longrightarrow>
      es \<noteq> [] \<and> idle w' \<and> same_views src known w w'"
    and prepare_opens: "idle w \<Longrightarrow> gs_prepare src g w = Some (Inr c, w') \<Longrightarrow>
      opened g c w' \<and> same_views src known w w'"
    and ready_keeps: "opened g c w \<Longrightarrow> gs_ready src c w = (es, c', w') \<Longrightarrow>
      opened g c' w' \<and> (es = [] \<longrightarrow> readied c') \<and> same_views src known w w'"
    and announce_keeps: "opened g c w \<Longrightarrow> readied c \<Longrightarrow> gs_prepare_publication src c w = (es, c', w') \<Longrightarrow>
      opened g c' w' \<and> (es = [] \<longrightarrow> readied c' \<and> announced c') \<and> same_views src known w w'"
    and publish_switches: "opened g c w \<Longrightarrow> readied c \<Longrightarrow> announced c \<Longrightarrow>
      \<exists>v c' w'. gs_publish src c w = Some ((Some v, gs_active src w), c', w') \<and> idle w' \<and> gs_active src w' = Some v \<and>
        gs_context src w' v = g \<and> (\<forall>p. gs_active src w = Some p \<longrightarrow> gs_context src w' p = gs_context src w p) \<and>
        (\<forall>u. known w u \<longrightarrow> known w' u)"
    and destroy_closes: "opened g c w \<Longrightarrow> gs_destroy src c w = (es, c', w') \<Longrightarrow>
      idle w' \<and> same_views src known w w'"
    and active_is_known: "idle w \<Longrightarrow> gs_active src w = Some v \<Longrightarrow> known w v"
    and view_destroy_keeps: "idle w \<Longrightarrow> known w v \<Longrightarrow> gs_view_destroy src v w = (es, w') \<Longrightarrow>
      idle w' \<and> same_views src known w w'"

text \<open>The runtime of \<open>SyncWorld\<close> that runs this manager; \<open>r\<close> gives the fields that are not the manager's.\<close>

definition runtime_with :: "('w, 'c) generation_source \<Rightarrow> 'w generation_manager \<Rightarrow> agent_runtime \<Rightarrow> agent_runtime" where
  "runtime_with src m r = r\<lparr>ar_managed := True,
     ar_view := map_option (\<lambda>v. (gs_identity src (gm_source m) v, gx_snapshot (gs_context src (gm_source m) v)))
       (gs_active src (gm_source m)),
     ar_drain := gm_drain m\<rparr>"

text \<open>The drain timeout that counts, and a manager with a drain controller that has one.\<close>

definition drain_timeout :: "int \<Rightarrow> 'w generation_manager \<Rightarrow> int" where
  "drain_timeout timeout m = (if timeout \<le> 0 then gm_timeout m else timeout)"

definition timed :: "'w generation_manager \<Rightarrow> bool" where
  "timed m \<longleftrightarrow> (gm_drain m \<noteq> None \<longrightarrow> 0 < gm_timeout m)"

context generation_interface
begin

lemma same_views_trans: "same_views src known a b \<Longrightarrow> same_views src known b c \<Longrightarrow> same_views src known a c"
  by (auto simp: same_views_def)

lemma check_candidate_keeps:
  assumes "opened g c w" "check_candidate src drain i over c w = (es, c', w')"
  shows "opened g c' w' \<and> same_views src known w w' \<and>
    (es = [] \<longrightarrow> readied c' \<and> announced c' \<and>
      (\<forall>d. drain = Some d \<longrightarrow> validate_generation_drain d i (map_option (gs_identity src w) (gs_active src w))))"
proof -
  obtain fs c1 w1 where r: "gs_ready src c w = (fs, c1, w1)" by (cases "gs_ready src c w") auto
  note k = ready_keeps [OF assms(1) r]
  show ?thesis
  proof (cases "fs = [] \<and> es = []")
    case True
    then have p: "gs_prepare_publication src c1 w1 = ([], c', w')"
      using assms(2) r by (auto simp: check_candidate_def split: if_splits option.splits)
    have "\<forall>d. drain = Some d \<longrightarrow> validate_generation_drain d i (map_option (gs_identity src w1) (gs_active src w1))"
      using True assms(2) r by (auto simp: check_candidate_def split: if_splits option.splits)
    then show ?thesis using True k announce_keeps [OF _ _ p, of g] by (auto simp: same_views_def)
  next
    case False
    then show ?thesis
      using assms(2) r k announce_keeps [of g c1 w1 es c' w'] same_views_trans [of w w1 w']
      by (auto simp: check_candidate_def split: if_splits option.splits)
  qed
qed

text \<open>No candidate is open, and the retired views are views of the source.\<close>

definition manager_ok :: "'w generation_manager \<Rightarrow> bool" where
  "manager_ok m \<longleftrightarrow> idle (gm_source m) \<and> timed m \<and> list_all (known (gm_source m)) (gm_retired m)"

lemma manager_ok_source:
  "manager_ok m \<Longrightarrow> idle w' \<Longrightarrow> same_views src known (gm_source m) w' \<Longrightarrow> manager_ok (m\<lparr>gm_source := w'\<rparr>)"
  by (auto simp: manager_ok_def same_views_def timed_def list_all_iff)

text \<open>The outcome of \<open>apply\<close>: an error and nothing seen of it, or the runtime of \<open>manager_apply\<close>.\<close>

definition refines ::
  "drain_env \<Rightarrow> agent_snapshot \<Rightarrow> agent_snapshot \<Rightarrow> traffic_config option \<Rightarrow> string \<Rightarrow> int \<Rightarrow> agent_runtime \<Rightarrow>
   'w generation_manager \<Rightarrow> module_error list \<Rightarrow> nat option \<Rightarrow> 'w generation_manager \<Rightarrow> bool" where
  "refines denv previous s traffic h timeout r m es active m' \<longleftrightarrow>
     manager_ok m' \<and> gm_timeout m' = gm_timeout m \<and>
     (if es = [] then active \<noteq> None \<and> active = gs_active src (gm_source m')
      else runtime_with src m' r = runtime_with src m r) \<and>
     (\<exists>prepared progressive. manager_apply denv prepared progressive previous s traffic h (drain_timeout timeout m)
          (runtime_with src m r) =
        (if es = [] then Some (runtime_with src m' r) else None))"

lemma refines_error:
  assumes "es \<noteq> []" "idle w'" "manager_ok m" "same_views src known (gm_source m) w'"
    "\<And>i. generation_identity_of s h = Some i \<Longrightarrow>
      \<not> is_active_generation src (gm_source m) i"
  shows "refines denv previous s traffic h timeout r m es active (m\<lparr>gm_source := w'\<rparr>)"
proof -
  have "manager_apply denv False False previous s traffic h (drain_timeout timeout m) (runtime_with src m r) = None"
    using assms(5) by (auto simp: manager_apply_def runtime_with_def is_active_generation_def Let_def split: option.splits)
  then show ?thesis
    using assms manager_ok_source [OF assms(3,2,4)] by (auto simp: refines_def runtime_with_def same_views_def)
qed

lemma cutover_refines:
  assumes "opened g c w" "readied c" "announced c" "same_views src known (gm_source m) w" "manager_ok m"
    "generation_identity_of s h = Some (gx_identity g)" "gx_snapshot g = overlay_traffic_runtime s traffic"
    "\<not> is_active_generation src (gm_source m) (gx_identity g)"
    "\<And>d. gm_drain m = Some d \<Longrightarrow> validate_generation_drain d (gx_identity g)
      (map_option (gs_identity src (gm_source m)) (gs_active src (gm_source m)))"
  shows "\<exists>active m'. cutover src denv previous s timeout c w m = Some (active, m') \<and>
    refines denv previous s traffic h timeout r m [] active m'"
proof -
  obtain v c' w' where p: "gs_publish src c w = Some ((Some v, gs_active src w), c', w')" "idle w'" "gs_active src w' = Some v"
      "gs_context src w' v = g" "\<forall>p. gs_active src w = Some p \<longrightarrow> gs_context src w' p = gs_context src w p"
      "\<forall>u. known w u \<longrightarrow> known w' u"
    using publish_switches [OF assms(1-3)] by blast
  have s: "gs_active src w = gs_active src (gm_source m)" "gs_context src w = gs_context src (gm_source m)"
      "\<And>u. known (gm_source m) u \<Longrightarrow> known w' u"
    using assms(4) p(6) by (auto simp: same_views_def)
  have ok: "timed m" "idle (gm_source m)" "list_all (known (gm_source m)) (gm_retired m)"
    using assms(5) by (auto simp: manager_ok_def)
  let ?old = "gs_active src (gm_source m)"
  let ?progressive = "case ?old of None \<Rightarrow> False | Some p \<Rightarrow> gs_progressive src w' p"
  obtain m' where m': "cutover src denv previous s timeout c w m = Some (Some v, m')" "gm_source m' = w'"
      "gm_timeout m' = gm_timeout m" "gm_drain m' = map_option (\<lambda>d. drain_activate denv ?progressive
        (map_option (gs_identity src w') ?old) (gx_identity g) (generation_entity_changes previous s)
        (if timeout \<le> 0 then gm_timeout m else timeout) d) (gm_drain m)"
      "set (gm_retired m') \<subseteq> set (gm_retired m) \<union> set_option ?old"
    using p s(1) by (cases "gm_drain m"; cases ?old) (auto simp: cutover_def)
  have old: "map_option (gs_identity src w') ?old = map_option (gs_identity src (gm_source m)) ?old"
    using p(5) s(1,2) by (cases ?old) auto
  have "manager_apply denv True ?progressive previous s traffic h (drain_timeout timeout m) (runtime_with src m r) =
      Some (runtime_with src m' r)"
    using assms(6-9) ok(1) m'(2-4) p(3,4) old
    by (cases "gm_drain m"; cases ?old) (auto simp: manager_apply_def runtime_with_def is_active_generation_def Let_def
        drain_timeout_def timed_def)
  moreover have "manager_ok m'"
    using m'(2-5) ok p(2) s(3) active_is_known by (auto simp: manager_ok_def timed_def list_all_iff)
  ultimately show ?thesis using m' p(3) by (auto simp: refines_def)
qed

lemma switch_refines:
  assumes "manager_ok m" "generation_identity_of s h = Some (gx_identity g)"
    "gx_snapshot g = overlay_traffic_runtime s traffic" "\<not> is_active_generation src (gm_source m) (gx_identity g)"
  shows "\<exists>es active m'. switch_generation src denv over_later previous s timeout g m = Some ((es, active), m') \<and>
    refines denv previous s traffic h timeout r m es active m'"
proof -
  have idle: "idle (gm_source m)" using assms(1) by (simp add: manager_ok_def)
  obtain a w1 where a: "gs_prepare src g (gm_source m) = Some (a, w1)" using prepare_returns [OF idle] by fastforce
  show ?thesis
  proof (cases a)
    case (Inl es)
    then have "refines denv previous s traffic h timeout r m es None (m\<lparr>gm_source := w1\<rparr>)"
      using prepare_fails [OF idle, of g es w1] a assms(1,2,4) by (intro refines_error) auto
    then show ?thesis using a Inl by (auto simp: switch_generation_def)
  next
    case (Inr c)
    note o = prepare_opens [OF idle, of g c w1] a Inr
    obtain es c2 w2 where k: "check_candidate src (gm_drain m) (gx_identity g) over_later c w1 = (es, c2, w2)"
      by (cases "check_candidate src (gm_drain m) (gx_identity g) over_later c w1") auto
    note k2 = check_candidate_keeps [OF _ k, of g]
    show ?thesis
    proof (cases "es = []")
      case True
      have "\<exists>active m'. cutover src denv previous s timeout c2 w2 m = Some (active, m') \<and>
          refines denv previous s traffic h timeout r m [] active m'"
        by (rule cutover_refines) (use o k2 True assms in \<open>auto simp: same_views_def\<close>)
      then show ?thesis using a Inr k True by (auto simp: switch_generation_def)
    next
      case False
      obtain ds c3 w3 where d: "gs_destroy src c2 w2 = (ds, c3, w3)" by (cases "gs_destroy src c2 w2") auto
      have "refines denv previous s traffic h timeout r m (es @ ds) None (m\<lparr>gm_source := w3\<rparr>)"
        using destroy_closes [of g c2 w2, OF _ d] o k2 False assms(1,2,4)
        by (intro refines_error) (auto intro: same_views_trans)
      then show ?thesis using a Inr k False d by (auto simp: switch_generation_def)
    qed
  qed
qed

theorem apply_refines:
  assumes "manager_ok m" "gs_compatible src (gm_source m) = None"
  shows "\<exists>es active m'. gm_apply src digest denv False over_later previous s traffic h timeout m = Some ((es, active), m') \<and>
    refines denv previous s traffic (if h = [] then digest s else h) timeout r m es active m'"
proof (cases "generation_identity_of s (if h = [] then digest s else h)")
  let ?h = "if h = [] then digest s else h"
  case None
  then have "new_generation_context digest previous s h = None" by (simp add: new_generation_context_def)
  moreover have "refines denv previous s traffic ?h timeout r m [InvalidHash] None (m\<lparr>gm_source := gm_source m\<rparr>)"
    by (rule refines_error) (use assms(1) None in \<open>auto simp: same_views_def manager_ok_def\<close>)
  ultimately show ?thesis using assms(2) by (auto simp: gm_apply_def)
next
  let ?h = "if h = [] then digest s else h"
  case (Some i)
  define g0 where "g0 = \<lparr>gx_identity = i, gx_previous = previous, gx_snapshot = s\<rparr>"
  define g where "g = (case traffic of None \<Rightarrow> g0 | Some t \<Rightarrow> with_traffic_runtime_config t g0)"
  have g: "new_generation_context digest previous s h = Some g0" "gx_identity g = i"
      "gx_snapshot g = overlay_traffic_runtime s traffic"
    using Some by (auto simp: new_generation_context_def g_def g0_def overlay_traffic_runtime_def
        with_traffic_runtime_config_def split: option.split)
  have run: "gm_apply src digest denv False over_later previous s traffic h timeout m =
      (if is_active_generation src (gm_source m) i then Some (([], gs_active src (gm_source m)), m)
       else switch_generation src denv over_later previous s timeout g m)"
    using assms(2) g(1,2) by (simp add: gm_apply_def Let_def flip: g_def)
  show ?thesis
  proof (cases "is_active_generation src (gm_source m) i")
    case True
    then have "manager_apply denv False False previous s traffic ?h (drain_timeout timeout m) (runtime_with src m r) =
        Some (runtime_with src m r)"
      using Some by (auto simp: manager_apply_def runtime_with_def is_active_generation_def split: option.splits)
    then have "refines denv previous s traffic ?h timeout r m [] (gs_active src (gm_source m)) m"
      using True assms(1) by (auto simp: refines_def is_active_generation_def intro!: exI [of _ False] split: option.splits)
    then show ?thesis using True run by auto
  next
    case False
    then show ?thesis using switch_refines [OF assms(1) _ g(3), of ?h] run Some g(2) by auto
  qed
qed

text \<open>Whatever the context and the compatibility, \<open>apply\<close> returns; \<open>Close\<close> does, and destroys only known views.\<close>

lemma apply_returns:
  assumes "manager_ok m"
  shows "\<exists>es active m'. gm_apply src digest denv over over_later previous s traffic h timeout m = Some ((es, active), m') \<and>
    manager_ok m' \<and> (es = [] \<longrightarrow> active = gs_active src (gm_source m') \<and> active \<noteq> None)"
proof (cases "gs_compatible src (gm_source m) = None \<and> \<not> over")
  case True
  then obtain es active m' where "gm_apply src digest denv over over_later previous s traffic h timeout m = Some ((es, active), m')"
      "refines denv previous s traffic (if h = [] then digest s else h) timeout (undefined :: agent_runtime) m es active m'"
    using apply_refines [OF assms, of digest denv over_later previous s traffic h timeout undefined] by auto
  then show ?thesis by (auto simp: refines_def)
next
  case False
  then show ?thesis using assms by (auto simp: gm_apply_def Let_def split: option.splits)
qed

lemma destroy_views_keeps:
  "idle w \<Longrightarrow> list_all (known w) vs \<Longrightarrow> destroy_views src vs w = (es, w') \<Longrightarrow> idle w' \<and> same_views src known w w'"
proof (induction vs arbitrary: w es)
  case Nil
  then show ?case by (simp add: same_views_def)
next
  case (Cons v vs)
  obtain fs w1 gs where d: "gs_view_destroy src v w = (fs, w1)" "destroy_views src vs w1 = (gs, w')"
    using Cons(4) by (auto split: prod.splits)
  have k: "idle w1" "same_views src known w w1" using view_destroy_keeps [OF Cons(2) _ d(1)] Cons(3) by auto
  moreover have "list_all (known w1) vs" using Cons(3) k(2) by (auto simp: list_all_iff same_views_def)
  ultimately show ?case using Cons(1) [OF _ _ d(2)] same_views_trans by blast
qed

lemma close_keeps:
  assumes "manager_ok m" "gm_close src denv m = (e, m')"
  shows "manager_ok m'"
proof -
  have ok: "idle (gm_source m)" "list_all (known (gm_source m)) (gm_retired m)" "timed m"
    using assms(1) by (auto simp: manager_ok_def)
  let ?vs = "(case gs_active src (gm_source m) of None \<Rightarrow> [] | Some v \<Rightarrow> [v]) @ gm_retired m"
  have vs: "list_all (known (gm_source m)) ?vs" using ok active_is_known by (auto split: option.split)
  show ?thesis
  proof (cases "gm_drain m")
    case None
    then show ?thesis
      using assms(2) destroy_views_keeps [OF ok(1) vs] ok(3)
      by (auto simp: gm_close_def manager_ok_def timed_def split: prod.splits)
  next
    case (Some d)
    then show ?thesis
      using assms(2) destroy_views_keeps [OF ok(1,2)] ok(3)
      by (auto simp: gm_close_def manager_ok_def timed_def split: prod.splits)
  qed
qed

end

end
