(* ===== verification/ModSource.thy ===== *)
theory ModSource
  imports ModManager
begin

text \<open>
  The module registry as the generation source of the manager: the interpretation of the manager's interface,
  with the balance of the transactions as its invariant. A transaction that a module prepared was released
  (destroyed or rolled back), or belongs to a view that is not destroyed, or to the open candidate.
\<close>

definition registry_source ::
  "'p module_env \<Rightarrow> module_registry \<Rightarrow> ('p \<Rightarrow> bool) \<Rightarrow> ('p module_world, 'p generation_candidate) generation_source" where
  "registry_source env r progressive =
     \<lparr>gs_compatible = (\<lambda>w. validate_generation_compatibility r), gs_active = mw_active,
      gs_context = (\<lambda>w v. gv_context (the_view w v)),
      gs_progressive = (\<lambda>w v. case view_resolve w (Some v) ''plugins.http.backend-provider'' of
         None \<Rightarrow> False | Some p \<Rightarrow> progressive p),
      gs_prepare = prepare_generation env r, gs_ready = candidate_ready env,
      gs_prepare_publication = prepare_publication env, gs_publish = publish env, gs_destroy = candidate_destroy env,
      gs_view_destroy = view_destroy env\<rparr>"

subsection \<open>The balance\<close>

fun released_by :: "module_event \<Rightarrow> nat list" where
  "released_by (EvDestroy a) = [a]"
| "released_by (EvRollback a) = [a]"
| "released_by _ = []"

definition releases :: "module_event list \<Rightarrow> nat list" where
  "releases evs = concat (map released_by evs)"

definition view_owns :: "'p generation_view \<Rightarrow> nat list" where
  "view_owns x = (if gv_destroyed x then [] else map snd (gv_transactions x))"

definition owned_by_views :: "'p module_world \<Rightarrow> nat list" where
  "owned_by_views w = concat (map view_owns (mw_views w))"

definition balanced :: "nat list \<Rightarrow> 'p module_world \<Rightarrow> bool" where
  "balanced held w \<longleftrightarrow>
     mset (releases (mw_log w)) + mset (owned_by_views w) + mset held = mset [0..<length (mw_transactions w)]"

definition active_known :: "'p module_world \<Rightarrow> bool" where
  "active_known w \<longleftrightarrow> (\<forall>v. mw_active w = Some v \<longrightarrow> v < length (mw_views w))"

lemma releases_simps [simp]:
  "releases [] = []"
  "releases (e # es) = released_by e @ releases es"
  "releases (es @ fs) = releases es @ releases fs"
  by (simp_all add: releases_def)

lemma happened_simps [simp]:
  "mw_log (happened es w) = mw_log w @ es"
  "mw_transactions (happened es w) = mw_transactions w"
  "mw_views (happened es w) = mw_views w"
  "mw_active (happened es w) = mw_active w"
  "mw_locked (happened es w) = mw_locked w"
  "mw_providers (happened es w) = mw_providers w"
  by (simp_all add: happened_def)

lemma balanced_simps [simp]:
  "releases es = [] \<Longrightarrow> balanced held (happened es w) = balanced held w"
  "balanced held (w\<lparr>mw_locked := b\<rparr>) = balanced held w"
  "balanced held (w\<lparr>mw_active := v\<rparr>) = balanced held w"
  "balanced held (w\<lparr>mw_providers := s\<rparr>) = balanced held w"
  by (simp_all add: balanced_def owned_by_views_def)

lemma balanced_new: "balanced [] new_module_world"
  by (simp add: balanced_def new_module_world_def owned_by_views_def)

text \<open>A new transaction, held by whoever asked for it.\<close>

lemma balanced_prepared:
  "balanced held w \<Longrightarrow> balanced (held @ [length (mw_transactions w)]) (w\<lparr>mw_transactions := mw_transactions w @ [t]\<rparr>)"
  by (simp add: balanced_def owned_by_views_def ac_simps)

lemma balanced_released:
  "mset held = mset kept + mset (releases es) \<Longrightarrow> balanced held w \<Longrightarrow> balanced kept (happened es w)"
  by (auto simp: balanced_def owned_by_views_def ac_simps)

lemma releases_destroy: "releases (map (\<lambda>(name, a). EvDestroy a) ts) = map snd ts"
  by (induction ts) auto

lemma releases_none: "(\<And>x. x \<in> set xs \<Longrightarrow> released_by (f x) = []) \<Longrightarrow> releases (map f xs) = []"
  by (induction xs) auto

lemma destroy_transactions_balanced:
  assumes "destroy_transactions env ts w = (es, w')" "balanced (map snd ts @ kept) w"
  shows "balanced kept w'"
proof -
  have "w' = happened (map (\<lambda>(name, a). EvDestroy a) (rev ts)) w"
    using assms(1) by (auto simp: destroy_transactions_def)
  moreover have "mset (map snd ts @ kept) = mset kept + mset (releases (map (\<lambda>(name, a). EvDestroy a) (rev ts)))"
    by (simp add: releases_destroy ac_simps)
  ultimately show ?thesis using balanced_released [OF _ assms(2)] by blast
qed

lemma destroy_transactions_keeps:
  "destroy_transactions env ts w = (es, w') \<Longrightarrow> mw_views w' = mw_views w \<and> mw_active w' = mw_active w \<and>
     mw_locked w' = mw_locked w \<and> mw_transactions w' = mw_transactions w \<and> mw_providers w' = mw_providers w"
  by (auto simp: destroy_transactions_def)

lemma call_each_happened:
  "\<exists>ts'. (\<exists>rest. ts = ts' @ rest) \<and> snd (call_each fails err ev ts w) = happened (map (\<lambda>(name, a). ev a) ts') w \<and>
     (fst (call_each fails err ev ts w) = [] \<longrightarrow> ts' = ts)"
proof (induction fails err ev ts w rule: call_each.induct)
  case (1 fails err ev w)
  then show ?case by (simp add: happened_def)
next
  case (2 fails err ev name a ts w)
  show ?case
  proof (cases "fails a")
    case True
    then show ?thesis by (intro exI [of _ "[(name, a)]"]) simp
  next
    case False
    then obtain ts' where "\<exists>rest. ts = ts' @ rest"
        "snd (call_each fails err ev ts (happened [ev a] w)) = happened (map (\<lambda>(name, a). ev a) ts') (happened [ev a] w)"
        "fst (call_each fails err ev ts (happened [ev a] w)) = [] \<longrightarrow> ts' = ts"
      using 2 by blast
    then show ?thesis
      using False by (intro exI [of _ "(name, a) # ts'"]) (auto simp: happened_def)
  qed
qed

lemma call_each_keeps:
  assumes "call_each fails err ev ts w = (es, w')" "\<And>a. released_by (ev a) = []"
  shows "balanced held w' = balanced held w \<and> mw_views w' = mw_views w \<and> mw_active w' = mw_active w \<and>
    mw_locked w' = mw_locked w \<and> mw_transactions w' = mw_transactions w"
proof -
  obtain ts' :: "(string \<times> nat) list" where "w' = happened (map (\<lambda>(name, a). ev a) ts') w"
    using call_each_happened [of ts fails err ev w] assms(1) by auto
  moreover have "releases (map (\<lambda>(name, a). ev a) ts') = []" using assms(2) by (auto intro!: releases_none)
  ultimately show ?thesis by simp
qed

subsection \<open>Preparation\<close>

lemma register_prepared_keeps:
  "register_prepared name provides registers c = (es, c') \<Longrightarrow>
     cd_transactions c' = cd_transactions c \<and> cd_context c' = cd_context c \<and> cd_completed c' = cd_completed c \<and>
     cd_ready c' = cd_ready c \<and> cd_prepared c' = cd_prepared c"
  by (auto simp: register_prepared_def split: option.splits prod.splits)

abbreviation holds :: "'p generation_candidate \<Rightarrow> 'p module_world \<Rightarrow> bool" where
  "holds c w \<equiv> balanced (map snd (cd_transactions c)) w"

lemma prepare_module_cases:
  assumes "prepare_module env r i c w = (es, c', w')"
  obtains (refused) "es \<noteq> []" "c' = c" "w' = w"
  | (nothing) "es \<noteq> []" "c' = c" "w' = happened [EvPrepare i (map fst (cd_providers c))] w"
  | (rolled) t where "es \<noteq> []" "c' = c" "w' = happened [EvRollback (length (mw_transactions w))]
      (happened [EvPrepare i (map fst (cd_providers c))] w\<lparr>mw_transactions := mw_transactions w @ [t]\<rparr>)"
  | (kept) t d where "validate_descriptor (the_module r i) = Inr d"
      "register_prepared (name_of_module r i) (md_provides d) (mt_registers t)
        (c\<lparr>cd_transactions := cd_transactions c @ [(name_of_module r i, length (mw_transactions w))]\<rparr>) = (es, c')"
      "w' = happened [EvPrepare i (map fst (cd_providers c))] w\<lparr>mw_transactions := mw_transactions w @ [t]\<rparr>"
proof (cases "validate_descriptor (the_module r i)")
  case (Inl e)
  show thesis by (rule refused) (use assms Inl in \<open>auto simp: prepare_module_def\<close>)
next
  case d: (Inr d)
  show thesis
  proof (cases "am_transactional (the_module r i)")
    case False
    show thesis by (rule refused) (use assms d False in \<open>auto simp: prepare_module_def Let_def\<close>)
  next
    case True
    show thesis
    proof (cases "me_prepare env i (cd_providers c)")
      case (Prepared t)
      show thesis
      proof (cases "mt_generation t")
        case ok: True
        show thesis by (rule kept [OF d]) (use assms d True Prepared ok in \<open>auto simp: prepare_module_def Let_def split: prod.splits\<close>)
      next
        case False
        show thesis by (rule rolled) (use assms d True Prepared False in \<open>auto simp: prepare_module_def Let_def\<close>)
      qed
    qed (rule nothing; use assms d True in \<open>auto simp: prepare_module_def Let_def\<close>)+
  qed
qed

lemma prepare_module_keeps:
  assumes "prepare_module env r i c w = (es, c', w')" "holds c w"
  shows "holds c' w' \<and> mw_views w' = mw_views w \<and> mw_active w' = mw_active w \<and> mw_locked w' = mw_locked w \<and>
    cd_context c' = cd_context c \<and> cd_completed c' = cd_completed c"
  using assms(1)
proof (cases rule: prepare_module_cases)
  case (rolled t)
  let ?w1 = "happened [EvPrepare i (map fst (cd_providers c))] w"
  have "balanced (map snd (cd_transactions c) @ [length (mw_transactions w)]) (?w1\<lparr>mw_transactions := mw_transactions w @ [t]\<rparr>)"
    using balanced_prepared [of "map snd (cd_transactions c)" ?w1 t] assms(2) by simp
  from balanced_released [OF _ this, of "map snd (cd_transactions c)" "[EvRollback (length (mw_transactions w))]"]
  show ?thesis using rolled by simp
next
  case (kept t d)
  then show ?thesis
    using balanced_prepared [of "map snd (cd_transactions c)" "happened [EvPrepare i (map fst (cd_providers c))] w" t] assms(2)
    by (auto dest!: register_prepared_keeps)
qed (use assms(2) in auto)

lemma prepare_modules_keeps:
  "prepare_modules env r ks c w = (es, c', w') \<Longrightarrow> holds c w \<Longrightarrow>
     holds c' w' \<and> mw_views w' = mw_views w \<and> mw_active w' = mw_active w \<and> mw_locked w' = mw_locked w \<and>
     cd_context c' = cd_context c \<and> cd_completed c' = cd_completed c"
proof (induction ks arbitrary: c w)
  case Nil
  then show ?case by simp
next
  case (Cons i ks)
  obtain fs c1 w1 where p: "prepare_module env r i c w = (fs, c1, w1)" by (cases "prepare_module env r i c w") auto
  note k = prepare_module_keeps [OF p Cons(3)]
  show ?case
  proof (cases "fs = []")
    case True
    then have "prepare_modules env r ks c1 w1 = (es, c', w')" using Cons(2) p by simp
    from Cons(1) [OF this] show ?thesis using k by simp
  next
    case False
    then show ?thesis using Cons(2) p k by simp
  qed
qed

definition idle_world :: "'p module_world \<Rightarrow> bool" where
  "idle_world w \<longleftrightarrow> \<not> mw_locked w \<and> active_known w \<and> balanced [] w"

definition open_candidate :: "generation_context \<Rightarrow> 'p generation_candidate \<Rightarrow> 'p module_world \<Rightarrow> bool" where
  "open_candidate g c w \<longleftrightarrow> mw_locked w \<and> active_known w \<and> holds c w \<and> cd_context c = g \<and> \<not> cd_completed c"

lemma active_known_views:
  "mw_views w' = mw_views w \<Longrightarrow> mw_active w' = mw_active w \<Longrightarrow> active_known w' = active_known w"
  by (simp add: active_known_def)

lemma abort_keeps:
  assumes "abort_preparation env cause c w1 = (a, w')" "cause \<noteq> []" "open_candidate g c w1"
  shows "\<exists>es. a = Inl es \<and> es \<noteq> [] \<and> idle_world w' \<and> mw_views w' = mw_views w1 \<and> mw_active w' = mw_active w1"
proof -
  obtain ds w2 where d: "destroy_transactions env (cd_transactions c) w1 = (ds, w2)"
    by (cases "destroy_transactions env (cd_transactions c) w1") auto
  then show ?thesis
    using assms destroy_transactions_keeps [OF d] destroy_transactions_balanced [OF d, of "[]"]
    by (auto simp: abort_preparation_def idle_world_def open_candidate_def active_known_def)
qed

lemma prepare_generation_cases:
  assumes "idle_world w"
  obtains (refused) e where "prepare_generation env r g w = Some (Inl [e], w)"
  | (prepared) q es c w1 where "validate_generation_compatibility r = None" "ordered_modules r = Inr q"
      "prepare_modules env r q (empty_candidate g) (w\<lparr>mw_locked := True\<rparr>) = (es, c, w1)"
      "open_candidate g c w1" "mw_views w1 = mw_views w" "mw_active w1 = mw_active w"
      "prepare_generation env r g w = Some
         (if es \<noteq> [] then abort_preparation env es c w1
          else (case validate_required_providers r q (cd_providers c) of
              Some e \<Rightarrow> abort_preparation env [e] c w1 | None \<Rightarrow> (Inr c, w1)))"
proof (cases "validate_generation_compatibility r = None \<and> (\<exists>q. ordered_modules r = Inr q)")
  case True
  then obtain q where q: "validate_generation_compatibility r = None" "ordered_modules r = Inr q" by blast
  obtain es c w1 where p: "prepare_modules env r q (empty_candidate g) (w\<lparr>mw_locked := True\<rparr>) = (es, c, w1)"
    by (cases "prepare_modules env r q (empty_candidate g) (w\<lparr>mw_locked := True\<rparr>)") auto
  have "holds (empty_candidate g) (w\<lparr>mw_locked := True\<rparr>)" using assms by (simp add: idle_world_def empty_candidate_def)
  note k = prepare_modules_keeps [OF p this]
  show thesis
  proof (rule prepared [OF q p])
    show "open_candidate g c w1"
      using k assms by (auto simp: open_candidate_def idle_world_def active_known_def empty_candidate_def)
  qed (use k assms q p in \<open>auto simp: prepare_generation_def idle_world_def\<close>)
next
  case False
  then show thesis
    using assms refused
    by (cases "validate_generation_compatibility r"; cases "ordered_modules r") (auto simp: prepare_generation_def idle_world_def)
qed

lemma open_call_each:
  assumes "open_candidate g c w" "call_each fails err ev ts w = (es, w')" "\<And>a. released_by (ev a) = []"
  shows "open_candidate g c w' \<and> mw_views w' = mw_views w \<and> mw_active w' = mw_active w"
  using call_each_keeps [OF assms(2,3), of "map snd (cd_transactions c)"] assms(1)
  by (auto simp: open_candidate_def active_known_def)

lemma candidate_ready_keeps:
  assumes "open_candidate g c w" "candidate_ready env c w = (es, c', w')"
  shows "open_candidate g c' w' \<and> (es = [] \<longrightarrow> cd_ready c') \<and> mw_views w' = mw_views w \<and> mw_active w' = mw_active w"
proof (cases "cd_ready c")
  case True
  then show ?thesis using assms by (auto simp: candidate_ready_def open_candidate_def)
next
  case False
  obtain fs w1 where f: "call_each (me_ready env) ReadyFails EvReady (cd_transactions c) w = (fs, w1)"
    by (cases "call_each (me_ready env) ReadyFails EvReady (cd_transactions c) w") auto
  show ?thesis
    using open_call_each [OF assms(1) f] assms False f
    by (auto simp: candidate_ready_def open_candidate_def split: if_splits)
qed

lemma prepare_publication_keeps:
  assumes "open_candidate g c w" "cd_ready c" "prepare_publication env c w = (es, c', w')"
  shows "open_candidate g c' w' \<and> (es = [] \<longrightarrow> cd_ready c' \<and> cd_prepared c') \<and> mw_views w' = mw_views w \<and>
    mw_active w' = mw_active w"
proof (cases "cd_prepared c")
  case True
  then show ?thesis using assms by (auto simp: prepare_publication_def open_candidate_def)
next
  case False
  let ?call = "call_each (me_publication env) PublicationFails EvPublication (publication_preparers w (cd_transactions c)) w"
  obtain fs w1 where f: "?call = (fs, w1)" by (cases ?call) auto
  show ?thesis
    using open_call_each [OF assms(1) f] assms False f
    by (auto simp: prepare_publication_def open_candidate_def split: if_splits)
qed

lemma publish_switches:
  assumes "open_candidate g c w" "cd_ready c" "cd_prepared c"
  shows "\<exists>w'. publish env c w = Some ((Some (length (mw_views w)), mw_active w), c\<lparr>cd_completed := True\<rparr>, w') \<and>
    idle_world w' \<and> mw_active w' = Some (length (mw_views w)) \<and>
    mw_views w' = mw_views w @ [candidate_view env c]"
proof -
  let ?v = "length (mw_views w)"
  let ?w1 = "w\<lparr>mw_views := mw_views w @ [candidate_view env c], mw_active := Some ?v\<rparr>"
  let ?es = "map (\<lambda>(name, a). EvFinalized a) (publication_finalizers ?w1 (cd_transactions c))"
  have none: "releases ?es = []" by (auto intro!: releases_none)
  have "balanced (map snd (cd_transactions c)) w" using assms(1) by (simp add: open_candidate_def)
  then have "balanced [] ?w1"
    by (simp add: balanced_def owned_by_views_def view_owns_def candidate_view_def ac_simps)
  then have "idle_world ((happened ?es ?w1)\<lparr>mw_locked := False\<rparr>)"
    using none by (simp add: idle_world_def active_known_def)
  then show ?thesis using assms by (simp add: publish_def open_candidate_def Let_def)
qed

lemma candidate_destroy_keeps:
  assumes "open_candidate g c w" "candidate_destroy env c w = (es, c', w')"
  shows "idle_world w' \<and> mw_views w' = mw_views w \<and> mw_active w' = mw_active w"
proof -
  obtain ds w1 where d: "destroy_transactions env (cd_transactions c) w = (ds, w1)"
    by (cases "destroy_transactions env (cd_transactions c) w") auto
  then show ?thesis
    using assms destroy_transactions_keeps [OF d] destroy_transactions_balanced [OF d, of "[]"]
    by (auto simp: candidate_destroy_def idle_world_def open_candidate_def active_known_def)
qed

lemma view_destroy_keeps:
  assumes "idle_world w" "v < length (mw_views w)" "view_destroy env v w = (es, w')"
  shows "idle_world w' \<and> mw_active w' = mw_active w \<and> length (mw_views w') = length (mw_views w) \<and>
    gv_destroyed (the_view w' v) \<and> (\<forall>u. gv_context (the_view w' u) = gv_context (the_view w u))"
proof (cases "gv_destroyed (the_view w v)")
  case True
  then show ?thesis using assms by (auto simp: view_destroy_def)
next
  case False
  let ?x = "the_view w v"
  obtain ds w1 where d: "destroy_transactions env (gv_transactions ?x) w = (ds, w1)"
    by (cases "destroy_transactions env (gv_transactions ?x) w") auto
  let ?y = "?x\<lparr>gv_destroyed := True, gv_destroy_errors := ds\<rparr>"
  have w': "w' = w1\<lparr>mw_views := (mw_views w)[v := ?y]\<rparr>" and k: "mw_views w1 = mw_views w" "mw_active w1 = mw_active w"
      "mw_locked w1 = mw_locked w" "mw_transactions w1 = mw_transactions w"
      and log: "mw_log w1 = mw_log w @ map (\<lambda>(name, a). EvDestroy a) (rev (gv_transactions ?x))"
    using assms(3) False d by (auto simp: view_destroy_def destroy_transactions_def)
  have split: "mw_views w = take v (mw_views w) @ ?x # drop (Suc v) (mw_views w)"
    using assms(2) by (simp add: the_view_def id_take_nth_drop)
  then have new: "mw_views w' = take v (mw_views w) @ ?y # drop (Suc v) (mw_views w)"
    using assms(2) w' by (simp add: upd_conv_take_nth_drop)
  have "owned_by_views w = concat (map view_owns (take v (mw_views w))) @ map snd (gv_transactions ?x) @
      concat (map view_owns (drop (Suc v) (mw_views w)))"
    unfolding owned_by_views_def by (subst split) (simp add: view_owns_def False)
  moreover have "owned_by_views w' = concat (map view_owns (take v (mw_views w))) @ concat (map view_owns (drop (Suc v) (mw_views w)))"
    unfolding owned_by_views_def new by (simp add: view_owns_def)
  moreover have "mw_log w' = mw_log w1" "mw_transactions w' = mw_transactions w" using w' k by simp_all
  ultimately have "balanced [] w'"
    using assms(1) log by (simp add: idle_world_def balanced_def releases_destroy ac_simps)
  then show ?thesis
    using assms(1,2) w' k by (auto simp: idle_world_def active_known_def the_view_def nth_list_update)
qed

subsection \<open>The interface\<close>

definition known_view :: "'p module_world \<Rightarrow> nat \<Rightarrow> bool" where
  "known_view w v \<longleftrightarrow> v < length (mw_views w)"

lemma same_views_of_registry:
  "mw_active w' = mw_active w \<Longrightarrow> mw_views w' = mw_views w \<Longrightarrow> same_views (registry_source env r progressive) known_view w w'"
  by (simp add: same_views_def registry_source_def known_view_def the_view_def)

interpretation module_source: generation_interface "registry_source env r progressive" known_view idle_world open_candidate cd_ready cd_prepared
  for env :: "'p module_env" and r progressive
proof
  fix w :: "'p module_world" and g
  assume w: "idle_world w"
  show "gs_prepare (registry_source env r progressive) g w \<noteq> None"
    using w by (simp add: registry_source_def prepare_generation_def idle_world_def)
next
  fix w w' :: "'p module_world" and g es
  assume w: "idle_world w" "gs_prepare (registry_source env r progressive) g w = Some (Inl es, w')"
  show "es \<noteq> [] \<and> idle_world w' \<and> same_views (registry_source env r progressive) known_view w w'"
    using w(1)
  proof (cases rule: prepare_generation_cases [of w env r g])
    case (refused e)
    then show ?thesis using w by (auto simp: registry_source_def intro!: same_views_of_registry [unfolded registry_source_def])
  next
    case (prepared q fs c w1)
    then obtain cause where "abort_preparation env cause c w1 = (Inl es, w')" "cause \<noteq> []"
      using w(2) by (auto simp: registry_source_def split: if_splits option.splits)
    from abort_keeps [OF this prepared(4)] show ?thesis
      using prepared by (auto intro: same_views_of_registry)
  qed
next
  fix w w' :: "'p module_world" and g c
  assume w: "idle_world w" "gs_prepare (registry_source env r progressive) g w = Some (Inr c, w')"
  show "open_candidate g c w' \<and> same_views (registry_source env r progressive) known_view w w'"
    using w(1)
  proof (cases rule: prepare_generation_cases [of w env r g])
    case (refused e)
    then show ?thesis using w by (auto simp: registry_source_def intro!: same_views_of_registry [unfolded registry_source_def])
  next
    case (prepared q fs c1 w1)
    then have "c = c1 \<and> w' = w1"
      using w(2) by (auto simp: registry_source_def abort_preparation_def split: if_splits option.splits prod.splits)
    then show ?thesis using prepared by (auto intro: same_views_of_registry)
  qed
next
  fix g c c' and w w' :: "'p module_world" and es
  assume "open_candidate g c w" "gs_ready (registry_source env r progressive) c w = (es, c', w')"
  then show "open_candidate g c' w' \<and> (es = [] \<longrightarrow> cd_ready c') \<and>
      same_views (registry_source env r progressive) known_view w w'"
    using candidate_ready_keeps [of g c w env es c' w'] same_views_of_registry [of w' w env r progressive]
    by (auto simp: registry_source_def)
next
  fix g c c' and w w' :: "'p module_world" and es
  assume "open_candidate g c w" "cd_ready c" "gs_prepare_publication (registry_source env r progressive) c w = (es, c', w')"
  then show "open_candidate g c' w' \<and> (es = [] \<longrightarrow> cd_ready c' \<and> cd_prepared c') \<and>
      same_views (registry_source env r progressive) known_view w w'"
    using prepare_publication_keeps [of g c w env es c' w'] same_views_of_registry [of w' w env r progressive]
    by (auto simp: registry_source_def)
next
  fix g c and w :: "'p module_world"
  assume a: "open_candidate g c w" "cd_ready c" "cd_prepared c"
  then have "active_known w" "gv_context (candidate_view env c) = g" by (simp_all add: open_candidate_def candidate_view_def)
  with publish_switches [OF a, of env] show "\<exists>v c' w'. gs_publish (registry_source env r progressive) c w =
        Some ((Some v, gs_active (registry_source env r progressive) w), c', w') \<and> idle_world w' \<and>
      gs_active (registry_source env r progressive) w' = Some v \<and> gs_context (registry_source env r progressive) w' v = g \<and>
      (\<forall>p. gs_active (registry_source env r progressive) w = Some p \<longrightarrow>
        gs_context (registry_source env r progressive) w' p = gs_context (registry_source env r progressive) w p) \<and>
      (\<forall>u. known_view w u \<longrightarrow> known_view w' u)"
    by (fastforce simp: registry_source_def the_view_def active_known_def known_view_def nth_append)
next
  fix g c c' and w w' :: "'p module_world" and es
  assume "open_candidate g c w" "gs_destroy (registry_source env r progressive) c w = (es, c', w')"
  then show "idle_world w' \<and> same_views (registry_source env r progressive) known_view w w'"
    using candidate_destroy_keeps [of g c w env es c' w'] same_views_of_registry [of w' w env r progressive]
    by (auto simp: registry_source_def)
next
  fix w :: "'p module_world" and v
  assume "idle_world w" "gs_active (registry_source env r progressive) w = Some v"
  then show "known_view w v" by (simp add: idle_world_def active_known_def known_view_def registry_source_def)
next
  fix w w' :: "'p module_world" and v es
  assume "idle_world w" "known_view w v" "gs_view_destroy (registry_source env r progressive) v w = (es, w')"
  then show "idle_world w' \<and> same_views (registry_source env r progressive) known_view w w'"
    using view_destroy_keeps [of w v env es w'] by (auto simp: known_view_def registry_source_def same_views_def)
qed

end
