(* ===== verification/ModProps.thy ===== *)
theory ModProps
  imports ModSource SyncRevision
begin

text \<open>
  The properties of the agent's modules and generations: the order of the modules, what a module finds when it
  prepares, the balance of the transactions over the runs of the generation manager, the refinement of the
  runtime's view of the manager, and the all-or-nothing behaviour of \<open>Registry.Apply\<close>.
\<close>

subsection \<open>The order\<close>

text \<open>
  C29. The order of the modules is the least order of their positions that puts every module behind the providers
  it requires or would use; \<open>ErrProviderCycle\<close> says exactly that the descriptors are valid, every reference has
  one provider, and there is no such order.
\<close>

theorem modules_in_dependency_order:
  "(ordered_modules r = Inr q \<longleftrightarrow>
     well_described r \<and> module_order r q \<and> (\<forall>q'. module_order r q' \<longrightarrow> q \<le> q')) \<and>
   (ordered_modules r = Inl ProviderCycle \<longleftrightarrow> well_described r \<and> (\<forall>q. \<not> module_order r q))"
  using ordered_modules_Inr ordered_modules_cycle by blast

subsection \<open>Preparation in order\<close>

text \<open>The modules that were asked to prepare, and what each of them could resolve.\<close>

definition asked :: "module_event list \<Rightarrow> (nat \<times> string list) list" where
  "asked evs = List.map_filter (\<lambda>e. case e of EvPrepare i refs \<Rightarrow> Some (i, refs) | _ \<Rightarrow> None) evs"

definition finds_providers :: "module_registry \<Rightarrow> nat \<Rightarrow> string list \<Rightarrow> bool" where
  "finds_providers r i refs \<longleftrightarrow>
     (\<forall>j < length (mr_modules r). j \<noteq> i \<longrightarrow> (requires_of r i \<union> optional_of r i) \<inter> provides_of r j \<subseteq> set refs)"

lemma asked_simps [simp]:
  "asked [] = []"
  "asked (e # es) = (case e of EvPrepare i refs \<Rightarrow> [(i, refs)] | _ \<Rightarrow> []) @ asked es"
  "asked (es @ fs) = asked es @ asked fs"
  by (simp_all add: asked_def map_filter_def split: module_event.split)

lemma asked_destroy: "asked (map (\<lambda>(name, a). EvDestroy a) ts) = []"
  by (induction ts) auto

definition provided :: "(string \<times> 'p) list \<Rightarrow> string set" where
  "provided s = fst ` set s"

lemma provide_all_keeps:
  "provide_all provide calls s = (e, s') \<Longrightarrow> provided s \<subseteq> provided s' \<and> (e = None \<longrightarrow> provided calls \<subseteq> provided s')"
proof (induction "provide :: string \<Rightarrow> 'a \<Rightarrow> 'a provider_set \<Rightarrow> _" calls s rule: provide_all.induct)
  case (1 s)
  then show ?case by (auto simp: provided_def)
next
  case (2 ref p calls s)
  show ?case
  proof (cases "fst (provide ref p s)")
    case None
    then have s: "provide ref p s = (None, s @ [(ref, p)])" by (auto simp: provide_def split: if_splits)
    have "provide_all provide calls (s @ [(ref, p)]) = (e, s')" using 2(2) s by simp
    from 2(1) [OF s [symmetric] refl this] show ?thesis by (auto simp: provided_def)
  next
    case (Some x)
    then have "provide ref p s = (Some x, s)" by (auto simp: provide_def split: if_splits)
    then show ?thesis using 2(2) by auto
  qed
qed

lemma register_prepared_provides:
  assumes "register_prepared name provides registers c = (es, c')"
  shows "provided (cd_providers c) \<subseteq> provided (cd_providers c')"
    and "es = [] \<Longrightarrow> set provides \<subseteq> provided (cd_providers c')"
proof -
  have "provided (cd_providers c) \<subseteq> provided (cd_providers c') \<and> (es = [] \<longrightarrow> set provides \<subseteq> provided (cd_providers c'))"
  proof (cases registers)
    case None
    then show ?thesis using assms by (auto simp: register_prepared_def split: if_splits)
  next
    case (Some g)
    obtain e s where s: "provide_all provide (rg_calls g) (cd_providers c) = (e, s)"
      by (cases "provide_all provide (rg_calls g) (cd_providers c)") auto
    have c': "cd_providers c' = s" and none: "es = [] \<longrightarrow> e = None \<and> find (\<lambda>ref. ref \<notin> fst ` set (rg_calls g)) provides = None"
      using assms Some s
      by (auto simp: register_prepared_def register_providers_def split: option.splits prod.splits if_splits)
    have "set provides \<subseteq> provided (rg_calls g)" if "es = []"
      using none that by (auto simp: find_None_iff provided_def)
    then show ?thesis using provide_all_keeps [OF s] c' none by auto
  qed
  then show "provided (cd_providers c) \<subseteq> provided (cd_providers c')"
    and "es = [] \<Longrightarrow> set provides \<subseteq> provided (cd_providers c')" by auto
qed

text \<open>The modules of \<open>pre\<close> have been prepared and their providers are there.\<close>

lemma prepare_modules_asked:
  "prepare_modules env r ks c w = (es, c', w') \<Longrightarrow> module_order r (pre @ ks) \<Longrightarrow>
     (\<Union>i \<in> set pre. provides_of r i) \<subseteq> provided (cd_providers c) \<Longrightarrow>
     \<exists>evs n. mw_log w' = mw_log w @ evs \<and> map fst (asked evs) = take n ks \<and> (es = [] \<longrightarrow> take n ks = ks) \<and>
       (\<forall>(i, refs) \<in> set (asked evs). finds_providers r i refs)"
proof (induction ks arbitrary: c w pre)
  case Nil
  then show ?case by (intro exI [of _ "[]"]) simp
next
  case (Cons i ks)
  obtain fs c1 w1 where p: "prepare_module env r i c w = (fs, c1, w1)" by (cases "prepare_module env r i c w") auto
  have found: "finds_providers r i (map fst (cd_providers c))"
  proof -
    have "j \<in> set pre" if "depends_on r i j" "j < length (mr_modules r)" for j
    proof -
      have "length pre < length (pre @ i # ks)" "(pre @ i # ks) ! length pre = i" by simp_all
      then have "j \<in> set (take (length pre) (pre @ i # ks))"
        using Cons(3) that unfolding module_order_def by metis
      then show ?thesis by simp
    qed
    then have "ref \<in> provided (cd_providers c)" if "j < length (mr_modules r)" "j \<noteq> i" "ref \<in> requires_of r i \<union> optional_of r i"
        "ref \<in> provides_of r j" for j ref
      using Cons(4) that unfolding depends_on_def by blast
    then show ?thesis by (auto simp: finds_providers_def provided_def)
  qed
  have log: "\<exists>evs. mw_log w1 = mw_log w @ evs \<and> (asked evs = [] \<or> asked evs = [(i, map fst (cd_providers c))]) \<and>
      (fs = [] \<longrightarrow> asked evs \<noteq> [])"
    using p by (cases rule: prepare_module_cases) auto
  then obtain evs where evs: "mw_log w1 = mw_log w @ evs" "asked evs = [] \<or> asked evs = [(i, map fst (cd_providers c))]"
      "fs = [] \<longrightarrow> asked evs \<noteq> []" by blast
  show ?case
  proof (cases "fs = []")
    case False
    then have "w' = w1" "es \<noteq> []" using Cons(2) p by auto
    moreover have "map fst (asked evs) = take (length (asked evs)) (i # ks)" using evs(2) by auto
    ultimately show ?thesis
      using evs found by (intro exI [of _ evs] exI [of _ "length (asked evs)"]) auto
  next
    case True
    have rest: "prepare_modules env r ks c1 w1 = (es, c', w')" using Cons(2) p True by simp
    have "(\<Union>k \<in> set (pre @ [i]). provides_of r k) \<subseteq> provided (cd_providers c1)"
      using p
    proof (cases rule: prepare_module_cases)
      case (kept t d)
      then show ?thesis
        using register_prepared_provides [OF kept(2)] True Cons(4) validate_descriptor_Inr(1) [OF kept(1)] by auto
    qed (use True in auto)
    then obtain evs' n where "mw_log w' = mw_log w1 @ evs'" "map fst (asked evs') = take n ks" "es = [] \<longrightarrow> take n ks = ks"
        "\<forall>(i, refs) \<in> set (asked evs'). finds_providers r i refs"
      using Cons(1) [OF rest, of "pre @ [i]"] Cons(3) by auto
    then show ?thesis
      using evs True found by (intro exI [of _ "evs @ evs'"] exI [of _ "Suc n"]) auto
  qed
qed

text \<open>
  C30. A module prepares its part of a generation only when every provider of another module that it requires,
  or has named as optional, is registered with the candidate: the modules are asked in the registry's order,
  each at most once, and all of them before a candidate is handed out.
\<close>

theorem modules_prepare_with_their_providers:
  assumes "ordered_modules r = Inr q" "idle_world w" "prepare_generation env r g w = Some (answer, w')"
  shows "\<exists>evs n. mw_log w' = mw_log w @ evs \<and> map fst (asked evs) = take n q \<and>
    (\<forall>c. answer = Inr c \<longrightarrow> map fst (asked evs) = q) \<and>
    (\<forall>(i, refs) \<in> set (asked evs). finds_providers r i refs)"
  using assms(2)
proof (cases rule: prepare_generation_cases [of w env r g])
  case (refused e)
  then show ?thesis using assms(3) by (intro exI [of _ "[]"] exI [of _ 0]) auto
next
  case (prepared q' es c w1)
  have q: "q' = q" using prepared(2) assms(1) by simp
  have order: "module_order r ([] @ q)" using assms(1) by (simp add: ordered_modules_Inr)
  obtain evs n where evs: "mw_log w1 = mw_log w @ evs" "map fst (asked evs) = take n q" "es = [] \<longrightarrow> take n q = q"
      "\<forall>(i, refs) \<in> set (asked evs). finds_providers r i refs"
    using prepare_modules_asked [OF prepared(3) [unfolded q] order] by (auto simp: empty_candidate_def)
  have "(es = [] \<and> (\<exists>c'. answer = Inr c') \<and> w' = w1) \<or>
      ((\<exists>e. answer = Inl e) \<and> mw_log w' = mw_log w1 @ map (\<lambda>(name, a). EvDestroy a) (rev (cd_transactions c)))"
    using assms(3) prepared(7)
    by (auto simp: abort_preparation_def destroy_transactions_def split: if_splits option.splits)
  then show ?thesis
  proof
    assume "es = [] \<and> (\<exists>c'. answer = Inr c') \<and> w' = w1"
    then show ?thesis using evs by (intro exI [of _ evs] exI [of _ n]) auto
  next
    assume "(\<exists>e. answer = Inl e) \<and> mw_log w' = mw_log w1 @ map (\<lambda>(name, a). EvDestroy a) (rev (cd_transactions c))"
    then show ?thesis
      using evs by (intro exI [of _ "evs @ map (\<lambda>(name, a). EvDestroy a) (rev (cd_transactions c))"] exI [of _ n])
        (auto simp: asked_destroy)
  qed
qed

subsection \<open>Runs of the generation manager\<close>

text \<open>
  \<open>apply\<close> with any answers of the modules, \<open>Close\<close>, and \<open>Destroy\<close> of a published view by the drain controller
  or anyone else, as often as they like.
\<close>

inductive generation_step ::
  "module_registry \<Rightarrow> 'p module_world generation_manager \<Rightarrow> 'p module_world generation_manager \<Rightarrow> bool" for r where
  applies: "gm_apply (registry_source env r progressive) digest denv over over_later previous s traffic h timeout m = Some (a, m') \<Longrightarrow>
    generation_step r m m'"
| view_destroyed: "v < length (mw_views (gm_source m)) \<Longrightarrow> view_destroy env v (gm_source m) = (es, w') \<Longrightarrow>
    generation_step r m (m\<lparr>gm_source := w'\<rparr>)"
| closes: "gm_close (registry_source env r progressive) denv m = (e, m') \<Longrightarrow> generation_step r m m'"

definition starting :: "'p module_world generation_manager \<Rightarrow> bool" where
  "starting m \<longleftrightarrow> m = new_generation_manager new_module_world \<or>
     (\<exists>drain timeout. m = new_managed_generation_manager new_module_world drain timeout)"

abbreviation registry_manager_ok :: "'p module_world generation_manager \<Rightarrow> bool" where
  "registry_manager_ok \<equiv> module_source.manager_ok"

lemma starting_ok: "starting m \<Longrightarrow> registry_manager_ok m"
  by (auto simp: starting_def module_source.manager_ok_def new_generation_manager_def new_managed_generation_manager_def
      idle_world_def active_known_def balanced_new timed_def default_drain_timeout_def minute_def second_def)
    (auto simp: new_module_world_def)

lemma generation_step_ok: "generation_step r m m' \<Longrightarrow> registry_manager_ok m \<Longrightarrow> registry_manager_ok m'"
proof (induction rule: generation_step.induct)
  case (applies env progressive digest denv over over_later previous s traffic h timeout m a m')
  then show ?case
    using module_source.apply_returns [of m env r progressive digest denv over over_later previous s traffic h timeout] by auto
next
  case (view_destroyed v m env es w')
  have "idle_world (gm_source m)" using view_destroyed(3) by (simp add: module_source.manager_ok_def)
  moreover have "gs_view_destroy (registry_source env r (\<lambda>_. False)) v (gm_source m) = (es, w')"
    using view_destroyed(2) by (simp add: registry_source_def)
  ultimately show ?case
    using view_destroyed(1,3) module_source.view_destroy_keeps module_source.manager_ok_source known_view_def by blast
next
  case (closes env progressive denv m e m')
  then show ?case using module_source.close_keeps by blast
qed

lemma generation_run_ok: "(generation_step r)\<^sup>*\<^sup>* m m' \<Longrightarrow> registry_manager_ok m \<Longrightarrow> registry_manager_ok m'"
  by (induction rule: rtranclp_induct) (auto intro: generation_step_ok)

text \<open>
  C31. Whatever the modules answer, and however applies, drains and closes follow each other: every transaction
  that a module prepared has been released, by one \<open>Destroy\<close> or one \<open>Rollback\<close>, or belongs to exactly one view
  that has not been destroyed; \<open>generationMu\<close> is free, and the next \<open>apply\<close> returns, without waiting for ever
  and without a panic.
\<close>

theorem transactions_released_once:
  assumes "starting m" "(generation_step r)\<^sup>*\<^sup>* m m'"
  shows "mset (releases (mw_log (gm_source m'))) + mset (owned_by_views (gm_source m')) =
      mset [0..<length (mw_transactions (gm_source m'))] \<and> \<not> mw_locked (gm_source m') \<and>
    gm_apply (registry_source env r progressive) digest denv over over_later previous s traffic h timeout m' \<noteq> None"
proof -
  have ok: "registry_manager_ok m'" using generation_run_ok [OF assms(2) starting_ok [OF assms(1)]] .
  then have "mset (releases (mw_log (gm_source m'))) + mset (owned_by_views (gm_source m')) =
      mset [0..<length (mw_transactions (gm_source m'))]" "\<not> mw_locked (gm_source m')"
    by (simp_all add: module_source.manager_ok_def idle_world_def balanced_def)
  moreover have "gm_apply (registry_source env r progressive) digest denv over over_later previous s traffic h timeout m' \<noteq> None"
    using module_source.apply_returns [OF ok, of env r progressive] by fastforce
  ultimately show ?thesis by blast
qed

text \<open>
  C32. The generation manager over the module registry refines the runtime's account of it: with modules whose
  descriptors are compatible and a live context, \<open>apply\<close> returns an error and nothing of it is seen, or it
  returns the active view and the runtime is the one \<open>manager_apply\<close> computes, the drain of the predecessor
  included.
\<close>

theorem manager_refines_runtime:
  fixes m :: "'p module_world generation_manager"
  assumes "starting m0" "(generation_step r)\<^sup>*\<^sup>* m0 m" "validate_generation_compatibility r = None"
  shows "\<exists>es active m' prepared drains_progressively.
    gm_apply (registry_source env r progressive) digest denv False over_later previous s traffic h timeout m = Some ((es, active), m') \<and>
    manager_apply denv prepared drains_progressively previous s traffic (if h = [] then digest s else h) (drain_timeout timeout m)
      (runtime_with (registry_source env r progressive) m rt) =
    (if es = [] then Some (runtime_with (registry_source env r progressive) m' rt) else None) \<and>
    (if es = [] then active = mw_active (gm_source m') \<and> active \<noteq> None
     else runtime_with (registry_source env r progressive) m' rt = runtime_with (registry_source env r progressive) m rt)"
proof -
  have ok: "registry_manager_ok m" using generation_run_ok [OF assms(2) starting_ok [OF assms(1)]] .
  have compatible: "gs_compatible (registry_source env r progressive) (gm_source m) = None"
    using assms(3) by (simp add: registry_source_def)
  have active: "gs_active (registry_source env r progressive) = mw_active" by (simp add: registry_source_def)
  show ?thesis
    using module_source.apply_refines [OF ok compatible, of digest denv over_later previous s traffic h timeout rt]
    unfolding module_source.refines_def active by (force split: if_splits)
qed

subsection \<open>A destruction that failed\<close>

text \<open>
  \<open>GenerationView.Destroy\<close> runs once: after an error every later call returns that error and no transaction is
  called again, even if it would succeed now. The drain controller retries the cleanup of a generation with that
  same call, so the generation stays in its failed state, and its cleanup is retried, for ever.
\<close>

lemma destroy_error_is_final:
  assumes "v < length (mw_views w)" "view_destroy env v w = (es, w1)"
  shows "view_destroy env' v w1 = (es, w1)"
proof (cases "gv_destroyed (the_view w v)")
  case True
  then show ?thesis using assms(2) by (auto simp: view_destroy_def)
next
  case False
  then have "the_view w1 v = (the_view w v)\<lparr>gv_destroyed := True, gv_destroy_errors := es\<rparr>"
    using assms by (auto simp: view_destroy_def the_view_def destroy_transactions_def)
  then show ?thesis by (simp add: view_destroy_def)
qed

lemma cleanup_never_ends:
  assumes "\<And>n. en_destroy denv n = DestroyErr" "dc_entries c g = Some d" "\<not> de_destroyed d" "\<not> de_released d"
  shows "\<exists>d'. dc_entries (snd (complete_cleanup denv g c)) g = Some d' \<and> \<not> de_destroyed d' \<and> \<not> de_released d' \<and>
    de_cleanup_error d' = Some DrainDestroy"
proof -
  have "fst (destroy_resource (en_destroy denv) (dc_destroys c) (de_destroying d)) = (False, False)"
    by (simp add: destroy_resource_def assms(1))
  then show ?thesis
    using assms(2-4)
    by (cases "destroy_resource (en_destroy denv) (dc_destroys c) (de_destroying d)")
      (auto simp: complete_cleanup_def schedule_cleanup_retry_def upd_entry_def Let_def)
qed

subsection \<open>Apply without generations\<close>

definition committed :: "module_event list \<Rightarrow> nat list" where
  "committed evs = List.map_filter (\<lambda>e. case e of EvCommit a \<Rightarrow> Some a | _ \<Rightarrow> None) evs"

lemma committed_simps [simp]:
  "committed [] = []"
  "committed (e # es) = (case e of EvCommit a \<Rightarrow> [a] | _ \<Rightarrow> []) @ committed es"
  "committed (es @ fs) = committed es @ committed fs"
  by (simp_all add: committed_def map_filter_def split: module_event.split)

lemma quiet_calls:
  "releases (map EvRollback ts) = ts" "committed (map EvRollback ts) = []"
  "releases (map EvSucceeded ts) = []" "committed (map EvSucceeded ts) = []"
  "releases (map EvCommit ts) = []" "committed (map EvCommit ts) = ts"
  by (induction ts) auto

lemma quiet_pairs:
  "releases (map (\<lambda>(x, a). EvCommit a) ps) = []" "committed (map (\<lambda>(x, a). EvCommit a) ps) = map snd ps"
  "releases (map (\<lambda>(x, a). EvFinalizeCommit a) ps) = []" "committed (map (\<lambda>(x, a). EvFinalizeCommit a) ps) = []"
  by (induction ps) auto

lemmas quiet_events = quiet_calls quiet_pairs

text \<open>What a run of \<open>Apply\<close> adds to the world: new transactions, and the calls \<open>evs\<close>.\<close>

definition adds :: "'p module_world \<Rightarrow> module_event list \<Rightarrow> 'p module_world \<Rightarrow> bool" where
  "adds w evs w' \<longleftrightarrow> mw_log w' = mw_log w @ evs \<and> length (mw_transactions w) \<le> length (mw_transactions w') \<and>
     mw_views w' = mw_views w \<and> mw_active w' = mw_active w \<and> mw_locked w' = mw_locked w"

lemma adds_trans: "adds a es b \<Longrightarrow> adds b fs c \<Longrightarrow> adds a (es @ fs) c"
  by (auto simp: adds_def)

lemma adds_happened: "adds w es (happened es w)"
  by (simp add: adds_def)

lemma apply_module_adds:
  assumes "apply_module env r i ts s w = (es, ts', s', w')"
  shows "\<exists>evs. adds w evs w' \<and> releases evs = [] \<and> committed evs = [] \<and> mw_providers w' = mw_providers w \<and>
    ts' = ts @ [length (mw_transactions w)..<length (mw_transactions w')]"
  using assms
  by (auto simp: apply_module_def adds_def Let_def split: if_splits prepare_answer.splits option.splits prod.splits)

lemma apply_modules_adds:
  "apply_modules env r ks ts s w = (es, ts', s', w') \<Longrightarrow>
     \<exists>evs. adds w evs w' \<and> releases evs = [] \<and> committed evs = [] \<and> mw_providers w' = mw_providers w \<and>
       ts' = ts @ [length (mw_transactions w)..<length (mw_transactions w')]"
proof (induction ks arbitrary: ts s w)
  case Nil
  then show ?case by (intro exI [of _ "[]"]) (simp add: adds_def)
next
  case (Cons i ks)
  obtain fs ts1 s1 w1 where a: "apply_module env r i ts s w = (fs, ts1, s1, w1)"
    by (cases "apply_module env r i ts s w") auto
  obtain evs where evs: "adds w evs w1" "releases evs = []" "committed evs = []" "mw_providers w1 = mw_providers w"
      "ts1 = ts @ [length (mw_transactions w)..<length (mw_transactions w1)]"
    using apply_module_adds [OF a] by blast
  show ?case
  proof (cases "fs = []")
    case False
    then show ?thesis using Cons(2) a evs by auto
  next
    case True
    then have "apply_modules env r ks ts1 s1 w1 = (es, ts', s', w')" using Cons(2) a by simp
    from Cons(1) [OF this] obtain evs' where evs': "adds w1 evs' w'" "releases evs' = []" "committed evs' = []"
        "mw_providers w' = mw_providers w1" "ts' = ts1 @ [length (mw_transactions w1)..<length (mw_transactions w')]" by blast
    have "[length (mw_transactions w)..<length (mw_transactions w1)] @ [length (mw_transactions w1)..<length (mw_transactions w')] =
        [length (mw_transactions w)..<length (mw_transactions w')]"
      using evs(1) evs'(1) unfolding adds_def by (metis le_Suc_ex upt_add_eq_append)
    then show ?thesis
      using evs evs' adds_trans [OF evs(1) evs'(1)] by (intro exI [of _ "evs @ evs'"]) auto
  qed
qed

lemma commit_all_adds:
  assumes "commit_all env ts w = (es, w')"
  shows "\<exists>evs. w' = happened evs w \<and> releases evs = [] \<and> (es = [] \<longrightarrow> committed evs = ts)"
proof -
  let ?pairs = "map (\<lambda>a. ([] :: string, a)) ts"
  obtain fs w1 where c: "call_each (me_commit env) (\<lambda>_. CommitFails) EvCommit ?pairs w = (fs, w1)"
    by (cases "call_each (me_commit env) (\<lambda>_. CommitFails) EvCommit ?pairs w") auto
  obtain ps :: "(string \<times> nat) list" where ps: "w1 = happened (map (\<lambda>(x, a). EvCommit a) ps) w" "fs = [] \<longrightarrow> ps = ?pairs"
    using call_each_happened [of ?pairs "me_commit env" "\<lambda>_. CommitFails" EvCommit w] c by auto
  show ?thesis
  proof (cases "fs = []")
    case False
    then show ?thesis using assms c ps by (auto simp: commit_all_def quiet_events)
  next
    case True
    let ?fin = "map (\<lambda>a. ([] :: string, a)) (commit_finalizers w1 ts)"
    obtain qs :: "(string \<times> nat) list" where qs: "w' = happened (map (\<lambda>(x, a). EvFinalizeCommit a) qs) w1"
      using call_each_happened [of ?fin "me_finalize env" "\<lambda>_. FinalizeFails" EvFinalizeCommit w1] assms c True
      by (auto simp: commit_all_def)
    have "w' = happened (map (\<lambda>(x, a). EvCommit a) ps @ map (\<lambda>(x, a). EvFinalizeCommit a) qs) w"
      using qs ps(1) by (simp add: happened_def)
    then show ?thesis using ps(2) True
      by (intro exI [of _ "map (\<lambda>(x, a). EvCommit a) ps @ map (\<lambda>(x, a). EvFinalizeCommit a) qs"])
        (simp add: quiet_events comp_def)
  qed
qed

text \<open>
  C33. \<open>Registry.Apply\<close> is all or nothing for the modules with transactions: without an error it committed every
  transaction it was given, in order, and rolled back none; after an error it rolled back every one of them,
  once, the last one first, and what the registry resolves is as before. (A module without transactions that has
  applied the snapshot keeps it.)
\<close>

theorem apply_all_or_nothing:
  "\<exists>evs. mw_log (snd (registry_apply env r w)) = mw_log w @ evs \<and>
     mw_active (snd (registry_apply env r w)) = mw_active w \<and> mw_views (snd (registry_apply env r w)) = mw_views w \<and>
     (let prepared = [length (mw_transactions w)..<length (mw_transactions (snd (registry_apply env r w)))] in
      if fst (registry_apply env r w) = [] then committed evs = prepared \<and> releases evs = []
      else releases evs = rev prepared \<and> mw_providers (snd (registry_apply env r w)) = mw_providers w)"
proof (cases "registered_provider_set env r")
  case (Inl e)
  then show ?thesis by (intro exI [of _ "[]"]) (simp add: registry_apply_def)
next
  case (Inr qs)
  obtain q s where qs: "qs = (q, s)" by (cases qs)
  obtain es ts s' w1 where a: "apply_modules env r q [] s w = (es, ts, s', w1)" by (cases "apply_modules env r q [] s w") auto
  obtain evs where evs: "adds w evs w1" "releases evs = []" "committed evs = []" "mw_providers w1 = mw_providers w"
      "ts = [length (mw_transactions w)..<length (mw_transactions w1)]"
    using apply_modules_adds [OF a] by auto
  obtain fs w2 where c: "commit_all env ts w1 = (fs, w2)" by (cases "commit_all env ts w1") auto
  obtain evs' where evs': "w2 = happened evs' w1" "releases evs' = []" "fs = [] \<longrightarrow> committed evs' = ts"
    using commit_all_adds [OF c] by blast
  consider "es \<noteq> []" | "es = []" "fs \<noteq> []" | "es = []" "fs = []" by blast
  then show ?thesis
  proof cases
    case 1
    then show ?thesis
      using Inr qs a evs
      by (intro exI [of _ "evs @ map EvRollback (rev ts)"])
        (simp add: registry_apply_def rollback_prepared_def adds_def quiet_events)
  next
    case 2
    then show ?thesis
      using Inr qs a evs c evs'(1,2)
      by (intro exI [of _ "evs @ evs' @ map EvRollback (rev ts)"])
        (simp add: registry_apply_def rollback_prepared_def adds_def quiet_events)
  next
    case 3
    then show ?thesis
      using Inr qs a evs c evs'
      by (intro exI [of _ "evs @ evs' @ map EvSucceeded (success_finalizers w2 ts)"])
        (simp add: registry_apply_def adds_def quiet_events)
  qed
qed

subsection \<open>Witnesses\<close>

text \<open>An agent with an HTTP module that uses the certificates of a second module, registered after it.\<close>

definition http_module :: agent_module where
  "http_module = \<lparr>am_name = ''http'', am_descriptor = \<lparr>md_name = ''http'', md_provides = [], md_requires = [''tls.material''],
     md_optional = []\<rparr>, am_transactional = True\<rparr>"

definition certs_module :: "string list \<Rightarrow> agent_module" where
  "certs_module requires = \<lparr>am_name = ''certs'', am_descriptor = \<lparr>md_name = ''certs'', md_provides = [''tls.material''],
     md_requires = requires, md_optional = []\<rparr>, am_transactional = True\<rparr>"

definition web_modules :: module_registry where
  "web_modules = snd (register_module (Some (certs_module [])) (snd (register_module (Some http_module) new_module_registry)))"

definition plain_txn :: "'p registration option \<Rightarrow> 'p module_txn" where
  "plain_txn g = \<lparr>mt_generation = True, mt_registers = g, mt_prepares_publication = False, mt_finalizes_publication = False,
     mt_finalizes_commit = False, mt_finalizes_success = False\<rparr>"

definition web_env :: "bool \<Rightarrow> nat module_env" where
  "web_env refuses =
     \<lparr>me_prepare = (\<lambda>i s. if i = 1 then Prepared (plain_txn (Some \<lparr>rg_calls = [(''tls.material'', 7)], rg_fails = False\<rparr>))
        else if refuses then PrepareError else Prepared (plain_txn None)),
      me_register = (\<lambda>i. \<lparr>rg_calls = [], rg_fails = False\<rparr>), me_apply = (\<lambda>i s. False), me_stop = (\<lambda>i. False),
      me_ready = (\<lambda>a. False), me_publication = (\<lambda>a. False), me_destroy = (\<lambda>a. False), me_rollback = (\<lambda>a. False),
      me_commit = (\<lambda>a. False), me_finalize = (\<lambda>a. False), me_type = (\<lambda>p. ''T''), me_sha = (\<lambda>s. s)\<rparr>"

definition web_context :: generation_context where
  "web_context = \<lparr>gx_identity = no_identity, gx_previous = zero_snapshot, gx_snapshot = zero_snapshot\<rparr>"

lemma web_order: "ordered_modules web_modules = Inr [1, 0]"
  by code_simp

lemma knot_order: "ordered_modules \<lparr>mr_modules = [http_module\<lparr>am_descriptor := (am_descriptor http_module)\<lparr>md_provides := [''web'']\<rparr>\<rparr>,
    certs_module [''web'']], mr_by_name = []\<rparr> = Inl ProviderCycle"
  by code_simp

theorem modules_in_dependency_order_witness:
  "module_order web_modules [1, 0] \<and>
   \<not> module_order \<lparr>mr_modules = [http_module\<lparr>am_descriptor := (am_descriptor http_module)\<lparr>md_provides := [''web'']\<rparr>\<rparr>,
       certs_module [''web'']], mr_by_name = []\<rparr> [0, 1]"
  using modules_in_dependency_order [THEN conjunct1, THEN iffD1, OF web_order]
    modules_in_dependency_order [THEN conjunct2, THEN iffD1, OF knot_order] by blast

lemma web_prepares:
  "map_option (\<lambda>(a, w). (case a of Inl es \<Rightarrow> False | Inr c \<Rightarrow> True, mw_log w))
     (prepare_generation (web_env False) web_modules web_context new_module_world) =
   Some (True, [EvPrepare 1 [], EvPrepare 0 [''tls.material'']])"
  by code_simp

theorem modules_prepare_with_their_providers_witness:
  "\<exists>c w evs. prepare_generation (web_env False) web_modules web_context new_module_world = Some (Inr c, w) \<and>
     mw_log w = mw_log (new_module_world :: nat module_world) @ evs \<and> map fst (asked evs) = [1, 0]"
proof -
  have idle: "idle_world (new_module_world :: nat module_world)"
    by (simp add: idle_world_def active_known_def balanced_new) (simp add: new_module_world_def)
  obtain c w where "prepare_generation (web_env False) web_modules web_context new_module_world = Some (Inr c, w)"
    using web_prepares
    by (cases "prepare_generation (web_env False) web_modules web_context new_module_world") (auto split: sum.splits)
  then show ?thesis using modules_prepare_with_their_providers [OF web_order idle] by blast
qed

text \<open>A manager without a drain controller applies the first revision; the second fails, as HTTP refuses it.\<close>

definition web_digest :: "agent_snapshot \<Rightarrow> string" where
  "web_digest s = replicate 64 (if as_revision s = 1 then CHR ''a'' else CHR ''b'')"

definition web_snapshot :: "int \<Rightarrow> agent_snapshot" where
  "web_snapshot n = zero_snapshot\<lparr>as_revision := n\<rparr>"

definition web_start :: "nat module_world generation_manager" where
  "web_start = new_generation_manager new_module_world"

definition quiet_drain :: drain_env where
  "quiet_drain = \<lparr>en_now = 0, en_order = (\<lambda>l. l), en_close = (\<lambda>_. \<lparr>co_ok = True, co_finishes = True\<rparr>),
     en_keep = (\<lambda>_. False), en_destroy = (\<lambda>_. DestroyOk)\<rparr>"

definition web_apply ::
  "bool \<Rightarrow> int \<Rightarrow> nat module_world generation_manager \<Rightarrow>
   ((module_error list \<times> nat option) \<times> nat module_world generation_manager) option" where
  "web_apply refuses n m = gm_apply (registry_source (web_env refuses) web_modules (\<lambda>_. False)) web_digest quiet_drain False False
     zero_snapshot (web_snapshot n) None [] 0 m"

definition web_first :: "nat module_world generation_manager" where
  "web_first = snd (the (web_apply False 1 web_start))"

definition web_second :: "nat module_world generation_manager" where
  "web_second = snd (the (web_apply True 2 web_first))"

definition web_runtime :: agent_runtime where
  "web_runtime = \<lparr>ar_managed = True, ar_snapshot = zero_snapshot, ar_traffic = None, ar_status = [], ar_revision = 0,
     ar_has_revision = False, ar_view = None, ar_drain = None\<rparr>"

lemma web_first_applied: "web_apply False 1 web_start = Some (([], Some 0), web_first)"
proof -
  have "map_option fst (web_apply False 1 web_start) = Some ([], Some 0)" by code_simp
  then show ?thesis by (auto simp: web_first_def)
qed

lemma web_second_refused: "web_apply True 2 web_first = Some (([PrepareFails ''http''], None), web_second)"
proof -
  have "map_option fst (web_apply True 2 web_first) = Some ([PrepareFails ''http''], None)" by code_simp
  then show ?thesis by (auto simp: web_second_def)
qed

lemma web_second_log:
  "mw_log (gm_source web_second) = [EvPrepare 1 [], EvPrepare 0 [''tls.material''], EvReady 0, EvReady 1,
     EvPrepare 1 [], EvPrepare 0 [''tls.material''], EvDestroy 2]"
  "length (mw_transactions (gm_source web_second)) = 3"
  by code_simp+

lemma web_run: "starting web_start" "(generation_step web_modules)\<^sup>*\<^sup>* web_start web_first"
  "(generation_step web_modules)\<^sup>*\<^sup>* web_start web_second"
proof -
  show "starting web_start" by (simp add: starting_def web_start_def)
  have first: "generation_step web_modules web_start web_first"
    using web_first_applied unfolding web_apply_def by (rule generation_step.applies)
  have second: "generation_step web_modules web_first web_second"
    using web_second_refused unfolding web_apply_def by (rule generation_step.applies)
  show "(generation_step web_modules)\<^sup>*\<^sup>* web_start web_first" using first by blast
  then show "(generation_step web_modules)\<^sup>*\<^sup>* web_start web_second" using second by (meson rtranclp.rtrancl_into_rtrancl)
qed

theorem transactions_released_once_witness:
  "mset (releases (mw_log (gm_source web_second))) = {#2#} \<and> mset (owned_by_views (gm_source web_second)) = {#0, 1#} \<and>
   web_apply False 3 web_second \<noteq> None"
proof -
  note balance = transactions_released_once [OF web_run(1,3), of "web_env False" "\<lambda>_. False" web_digest quiet_drain False False
      zero_snapshot "web_snapshot 3" None "[]" 0]
  have "mset (releases (mw_log (gm_source web_second))) = {#2#}" by (simp add: web_second_log)
  moreover have "mset [0..<length (mw_transactions (gm_source web_second))] = {#0, 1, 2#}"
    by (simp add: web_second_log(2) upt_rec)
  ultimately show ?thesis using balance by (auto simp: web_apply_def)
qed

theorem manager_refines_runtime_witness:
  "\<exists>prepared drains_progressively. manager_apply quiet_drain prepared drains_progressively zero_snapshot (web_snapshot 2) None
      (web_digest (web_snapshot 2)) (drain_timeout 0 web_first)
      (runtime_with (registry_source (web_env True) web_modules (\<lambda>_. False)) web_first web_runtime) = None"
proof -
  have "validate_generation_compatibility web_modules = None" by code_simp
  from manager_refines_runtime [OF web_run(1,2) this, of "web_env True" "\<lambda>_. False" web_digest quiet_drain False
      zero_snapshot "web_snapshot 2" None "[]" 0 web_runtime]
  show ?thesis using web_second_refused by (auto simp: web_apply_def)
qed

end
