(* ===== verification/BackFloat.thy ===== *)
theory BackFloat
  imports CoordDelay
begin

text \<open>
  \<open>float64\<close> arithmetic for the backend scores of \<open>go-agent/internal/model\<close>: a finite value is the
  rational it stands for, and every operation of the code is the exact operation followed by
  \<open>f64\<close>, the rounding of IEEE 754 (53 significant bits, ties to even). The scores stay far
  from the exponent range's ends, so overflow and subnormal values are not modelled; neither is
  the fused multiply-add that some platforms use.
\<close>

text \<open>The exponent \<open>e\<close> of \<open>q > 0\<close>: \<open>2\<^sup>e \<le> q < 2\<^sup>e\<^sup>+\<^sup>1\<close>.\<close>

definition f64_exp :: "rat \<Rightarrow> int" where
  "f64_exp q = (if q \<ge> 1 then bitlen \<lfloor>q\<rfloor> - 1 else - bitlen (\<lceil>1 / q\<rceil> - 1))"

text \<open>Rounding to the nearest multiple of \<open>2\<close> to a power, the spacing of the values around \<open>q\<close>.\<close>

definition round_scaled :: "int \<Rightarrow> rat \<Rightarrow> rat" where
  "round_scaled k q =
     (if k \<ge> 0 then of_int (round_half_even (q * 2 ^ nat k)) / 2 ^ nat k
      else of_int (round_half_even (q / 2 ^ nat (- k))) * 2 ^ nat (- k))"

definition f64 :: "rat \<Rightarrow> rat" where
  "f64 q =
     (if q = 0 then 0
      else if q < 0 then - round_scaled (52 - f64_exp (- q)) (- q)
      else round_scaled (52 - f64_exp q) q)"

definition fadd :: "rat \<Rightarrow> rat \<Rightarrow> rat" where
  "fadd x y = f64 (x + y)"

definition fsub :: "rat \<Rightarrow> rat \<Rightarrow> rat" where
  "fsub x y = f64 (x - y)"

definition fmul :: "rat \<Rightarrow> rat \<Rightarrow> rat" where
  "fmul x y = f64 (x * y)"

definition fdiv :: "rat \<Rightarrow> rat \<Rightarrow> rat" where
  "fdiv x y = f64 (x / y)"

text \<open>\<open>float64(n)\<close> of an integer, and the conversion back, which drops the fraction.\<close>

definition f64_of_int :: "int \<Rightarrow> rat" where
  "f64_of_int n = f64 (of_int n)"

definition int_of_f64 :: "rat \<Rightarrow> int" where
  "int_of_f64 q = (if q < 0 then - \<lfloor>- q\<rfloor> else \<lfloor>q\<rfloor>)"

text \<open>\<open>Duration.Seconds\<close>.\<close>

definition seconds_of :: "int \<Rightarrow> rat" where
  "seconds_of d =
     fadd (f64_of_int (d div second)) (fdiv (f64_of_int (d mod second)) (f64 1000000000))"

subsection \<open>Bounds\<close>

lemma round_half_even_int: "round_half_even (of_int n) = n"
  by (simp add: round_half_even_def)

lemma f64_0 [simp]: "f64 0 = 0"
  by (simp add: f64_def)

lemma f64_exp_fraction:
  assumes "0 < q" and "q < 1"
  shows "f64_exp q \<le> 0"
proof -
  have "1 \<le> \<lceil>1 / q\<rceil>" using assms by simp
  then have "0 \<le> bitlen (\<lceil>1 / q\<rceil> - 1)" by (simp add: bitlen_def)
  then show ?thesis using assms by (simp add: f64_exp_def)
qed

lemma round_scaled_range:
  assumes "0 \<le> q" and "q \<le> 1" and "0 \<le> k"
  shows "0 \<le> round_scaled k q \<and> round_scaled k q \<le> 1"
proof -
  define m :: int where "m = 2 ^ nat k"
  have m: "(2 :: rat) ^ nat k = of_int m" by (simp add: m_def)
  have pos: "0 < m" by (simp add: m_def)
  have "q * of_int m \<le> of_int m" using assms pos by (simp add: mult_left_le_one_le)
  then have "round_half_even (q * of_int m) \<le> m" by (rule round_half_even_le)
  moreover have "0 \<le> round_half_even (q * of_int m)"
    using assms pos by (simp add: round_half_even_nonneg)
  ultimately show ?thesis
    using assms pos by (simp add: round_scaled_def m del: of_int_power)
qed

lemma f64_1 [simp]: "f64 1 = 1"
proof -
  have "bitlen (1 :: int) = 1" by (simp add: bitlen_def floorlog_def)
  then have "f64_exp 1 = 0" by (simp add: f64_exp_def)
  moreover have "round_half_even (2 ^ nat 52) = 2 ^ nat 52"
    using round_half_even_int [of "2 ^ nat 52"] by simp
  ultimately show ?thesis by (simp add: f64_def round_scaled_def)
qed

text \<open>Integers below \<open>2\<^sup>5\<^sup>3\<close> are exact.\<close>

lemma round_scaled_int:
  assumes "0 \<le> k"
  shows "round_scaled k (of_int n) = of_int n"
proof -
  have "round_half_even (of_int n * 2 ^ nat k) = n * 2 ^ nat k"
    using round_half_even_int [of "n * 2 ^ nat k"] by simp
  then show ?thesis using assms by (simp add: round_scaled_def)
qed

lemma f64_of_int_exact:
  assumes "0 \<le> n" and "n < 2 ^ 53"
  shows "f64_of_int n = of_int n"
proof (cases "n = 0")
  case True
  then show ?thesis by (simp add: f64_of_int_def)
next
  case False
  with assms have "1 \<le> n" by simp
  then have e: "f64_exp (of_int n) = bitlen n - 1" by (simp add: f64_exp_def)
  have "bitlen n \<le> 53" using assms by (simp add: bitlen_le_iff_power)
  then show ?thesis using \<open>1 \<le> n\<close> e by (simp add: f64_of_int_def f64_def round_scaled_int)
qed

lemma f64_unit:
  assumes "0 \<le> q" and "q \<le> 1"
  shows "0 \<le> f64 q \<and> f64 q \<le> 1"
proof (cases "q = 0 \<or> q = 1")
  case True
  then show ?thesis by auto
next
  case False
  with assms have "0 < q" "q < 1" by auto
  then have "0 \<le> 52 - f64_exp q" using f64_exp_fraction by force
  then show ?thesis using round_scaled_range [OF assms] \<open>0 < q\<close> by (simp add: f64_def)
qed

end
