(* ===== verification/BackObserve.thy ===== *)
theory BackObserve
  imports BackFloat GoText "HOL-Library.Word"
begin

text \<open>
  What \<open>go-agent/internal/model/backends_cache.go\<close> remembers of one upstream candidate:
  \<open>candidateObservation\<close> with its ring of 24 hourly buckets, the recording of successes and
  failures, the recovery of a candidate that was in backoff, and the scores computed from a
  snapshot. A \<open>time.Time\<close> is the number of nanoseconds since 1970 and the clock stands at 1970
  or later; the zero time is its instant in year 1.
\<close>

subsection \<open>Constants\<close>

definition hour :: int where
  "hour = 60 * minute"

definition millisecond :: int where
  "millisecond = 1000000"

definition zero_time :: time where
  "zero_time = - 62135596800 * second"

definition observation_window :: int where
  "observation_window = 24 * hour"

definition observation_buckets :: int where
  "observation_buckets = 24"

definition recovery_window :: int where
  "recovery_window = 2 * minute"

definition min_recent_samples :: int where
  "min_recent_samples = 3"

definition min_recover_successes :: int where
  "min_recover_successes = 2"

definition observation_state_cold :: string where
  "observation_state_cold = ''cold''"

definition observation_state_recovering :: string where
  "observation_state_recovering = ''recovering''"

definition observation_state_warm :: string where
  "observation_state_warm = ''warm''"

subsection \<open>State\<close>

record observation_bucket =
  ob_hour :: int
  ob_small :: "32 word"
  ob_medium :: "32 word"
  ob_large :: "32 word"
  ob_qualified_weight :: "32 word"
  ob_successes :: "16 word"
  ob_failures :: "16 word"
  ob_samples :: "16 word"

definition fresh_bucket :: "int \<Rightarrow> observation_bucket" where
  "fresh_bucket h = \<lparr>ob_hour = h, ob_small = 0, ob_medium = 0, ob_large = 0, ob_qualified_weight = 0,
     ob_successes = 0, ob_failures = 0, ob_samples = 0\<rparr>"

record candidate_observation =
  oc_counts :: "observation_bucket list"
  oc_last_latency :: int
  oc_latency_estimate :: int
  oc_last_success_at :: time
  oc_last_success_count :: int
  oc_had_backoff :: bool
  oc_recovery_until :: time
  oc_recovery_successes :: int
  oc_slow_start_until :: time
  oc_slow_start_started_at :: time
  oc_outlier_until :: time
  oc_last_throughput :: rat
  oc_throughput_estimate :: rat
  oc_last_throughput_at :: time
  oc_outlier_throughput :: bool
  oc_last_updated :: time

text \<open>The zero value, which \<open>c.observed[key]\<close> is for a key the cache does not hold.\<close>

definition zero_observation :: candidate_observation where
  "zero_observation = \<lparr>oc_counts = replicate 24 (fresh_bucket 0), oc_last_latency = 0,
     oc_latency_estimate = 0, oc_last_success_at = zero_time, oc_last_success_count = 0,
     oc_had_backoff = False, oc_recovery_until = zero_time, oc_recovery_successes = 0,
     oc_slow_start_until = zero_time, oc_slow_start_started_at = zero_time,
     oc_outlier_until = zero_time, oc_last_throughput = 0, oc_throughput_estimate = 0,
     oc_last_throughput_at = zero_time, oc_outlier_throughput = False, oc_last_updated = zero_time\<rparr>"

record traffic_mix =
  mix_small :: rat
  mix_bulk :: rat

definition no_mix :: traffic_mix where
  "no_mix = \<lparr>mix_small = 0, mix_bulk = 0\<rparr>"

subsection \<open>The ring of hourly buckets\<close>

definition hour_of :: "time \<Rightarrow> int" where
  "hour_of now = (now div second) div 3600"

definition bucket_index :: "time \<Rightarrow> nat" where
  "bucket_index now = nat (hour_of now mod observation_buckets)"

text \<open>\<open>bucketFor\<close> returns a pointer into the array; writing through it is \<open>at_bucket\<close>.\<close>

definition bucket_for :: "time \<Rightarrow> candidate_observation \<Rightarrow> candidate_observation" where
  "bucket_for now ob =
     (let h = hour_of now; i = bucket_index now in
      if ob_hour (oc_counts ob ! i) \<noteq> h then ob\<lparr>oc_counts := (oc_counts ob)[i := fresh_bucket h]\<rparr> else ob)"

definition at_bucket ::
  "time \<Rightarrow> (observation_bucket \<Rightarrow> observation_bucket) \<Rightarrow> candidate_observation \<Rightarrow> candidate_observation" where
  "at_bucket now f ob =
     (let ob1 = bucket_for now ob; i = bucket_index now in
      ob1\<lparr>oc_counts := (oc_counts ob1)[i := f (oc_counts ob1 ! i)]\<rparr>)"

definition record_outcome :: "time \<Rightarrow> bool \<Rightarrow> candidate_observation \<Rightarrow> candidate_observation" where
  "record_outcome now success ob =
     at_bucket now (\<lambda>b. if success then b\<lparr>ob_successes := ob_successes b + 1\<rparr>
                         else b\<lparr>ob_failures := ob_failures b + 1\<rparr>) ob"

text \<open>\<open>math.Round\<close> rounds halves away from zero; the weights are not negative.\<close>

definition throughput_weight_to_units :: "rat \<Rightarrow> 32 word" where
  "throughput_weight_to_units weight = word_of_int \<lfloor>fmul weight 2 + 1 / 2\<rfloor>"

definition throughput_weight_from_units :: "32 word \<Rightarrow> rat" where
  "throughput_weight_from_units units = fdiv (f64_of_int (uint units)) 2"

definition record_traffic_mix :: "time \<Rightarrow> string \<Rightarrow> rat \<Rightarrow> candidate_observation \<Rightarrow> candidate_observation" where
  "record_traffic_mix now bucket weight ob =
     (if bucket = [] \<or> weight \<le> 0 then ob
      else let u = throughput_weight_to_units weight in
        at_bucket now (\<lambda>b. if bucket = ''small'' then b\<lparr>ob_small := ob_small b + u\<rparr>
                            else if bucket = ''medium'' then b\<lparr>ob_medium := ob_medium b + u\<rparr>
                            else if bucket = ''large'' then b\<lparr>ob_large := ob_large b + u\<rparr> else b) ob)"

definition record_qualified_throughput :: "time \<Rightarrow> rat \<Rightarrow> candidate_observation \<Rightarrow> candidate_observation" where
  "record_qualified_throughput now weight ob =
     (if weight \<le> 0 then ob
      else at_bucket now (\<lambda>b. b\<lparr>ob_samples := ob_samples b + 1,
             ob_qualified_weight := ob_qualified_weight b + throughput_weight_to_units weight\<rparr>) ob)"

text \<open>What the buckets of the current clock hour and the 23 before it add up to.\<close>

record window_totals =
  wt_successes :: int
  wt_failures :: int
  wt_mix :: traffic_mix
  wt_samples :: int
  wt_weight :: rat

definition count_bucket :: "int \<Rightarrow> observation_bucket \<Rightarrow> window_totals \<Rightarrow> window_totals" where
  "count_bucket current b t =
     (let age = current - ob_hour b in
      if age < 0 \<or> age \<ge> observation_buckets then t
      else t\<lparr>wt_successes := wt_successes t + uint (ob_successes b),
             wt_failures := wt_failures t + uint (ob_failures b),
             wt_mix := \<lparr>mix_small = fadd (mix_small (wt_mix t)) (throughput_weight_from_units (ob_small b)),
                        mix_bulk = fadd (mix_bulk (wt_mix t))
                          (fadd (throughput_weight_from_units (ob_medium b))
                                (throughput_weight_from_units (ob_large b)))\<rparr>,
             wt_samples := wt_samples t + uint (ob_samples b),
             wt_weight := fadd (wt_weight t) (throughput_weight_from_units (ob_qualified_weight b))\<rparr>)"

definition window_stats :: "time \<Rightarrow> candidate_observation \<Rightarrow> window_totals" where
  "window_stats now ob =
     fold (count_bucket (hour_of now)) (oc_counts ob)
       \<lparr>wt_successes = 0, wt_failures = 0, wt_mix = no_mix, wt_samples = 0, wt_weight = 0\<rparr>"

subsection \<open>Recording\<close>

definition blend_duration :: "int \<Rightarrow> int \<Rightarrow> int" where
  "blend_duration current fresh =
     (if current \<le> 0 then fresh
      else int_of_f64 (fadd (fmul (f64 (65 / 100)) (f64_of_int current))
                            (fmul (f64 (35 / 100)) (f64_of_int fresh))))"

definition blend_weighted_float :: "rat \<Rightarrow> rat \<Rightarrow> rat \<Rightarrow> rat" where
  "blend_weighted_float current fresh weight =
     (if current \<le> 0 then fresh
      else if weight \<le> 0 then current
      else let a = fmul (f64 (35 / 100)) weight; alpha = (if a > 1 then 1 else a) in
        fadd (fmul (fsub 1 alpha) current) (fmul alpha fresh))"

text \<open>The weight of a sample, whether it qualifies, and its bucket.\<close>

definition classify_throughput_sample :: "int \<Rightarrow> int \<Rightarrow> rat \<times> bool \<times> string" where
  "classify_throughput_sample transfer bytes =
     (if bytes \<le> 0 \<or> transfer \<le> 0 then (0, False, [])
      else if bytes < 128 * 1024 \<or> transfer < 80 * millisecond then (1, False, ''small'')
      else if bytes < 1024 * 1024 then (1 / 2, True, ''medium'')
      else (1, True, ''large''))"

definition qualified_throughput_ready :: "time \<Rightarrow> candidate_observation \<Rightarrow> bool" where
  "qualified_throughput_ready now ob =
     (let t = window_stats now ob in
      if wt_samples t < 2 \<or> wt_weight t < 3 / 2 then False
      else if oc_last_throughput_at ob = zero_time \<or> now - oc_last_throughput_at ob \<ge> observation_window
              \<or> oc_throughput_estimate ob \<le> 0 then False
      else True)"

text \<open>The recovery of a candidate that left its backoff, a step of \<open>recordSuccess\<close>.\<close>

definition recover :: "time \<Rightarrow> int \<Rightarrow> candidate_observation \<Rightarrow> candidate_observation" where
  "recover now window ob =
     (if oc_had_backoff ob \<and> oc_recovery_until ob \<noteq> zero_time \<and> oc_slow_start_started_at ob < now
         \<and> now < oc_recovery_until ob
      then let t = window_stats now ob; n = oc_recovery_successes ob + 1 in
        if n \<ge> min_recover_successes \<and> wt_successes t + wt_failures t \<ge> min_recent_samples
        then ob\<lparr>oc_had_backoff := False, oc_recovery_until := zero_time, oc_recovery_successes := 0,
                oc_slow_start_started_at := now, oc_slow_start_until := now + window\<rparr>
        else ob\<lparr>oc_recovery_successes := n\<rparr>
      else ob)"

text \<open>The throughput of a qualified sample.\<close>

definition record_throughput ::
  "time \<Rightarrow> int \<Rightarrow> int \<Rightarrow> rat \<Rightarrow> candidate_observation \<Rightarrow> candidate_observation" where
  "record_throughput now duration bytes weight ob =
     (let was_ready = qualified_throughput_ready now ob;
          throughput = fdiv (f64_of_int bytes) (seconds_of duration) in
      if throughput > 0
      then let previous = oc_throughput_estimate ob;
               ob1 = ob\<lparr>oc_last_throughput := throughput,
                        oc_throughput_estimate := blend_weighted_float previous throughput weight,
                        oc_last_throughput_at := now\<rparr>;
               ob2 = record_qualified_throughput now weight ob1;
               outlier = was_ready \<and> qualified_throughput_ready now ob2;
               ob3 = ob2\<lparr>oc_outlier_throughput := outlier\<rparr>
           in if outlier \<and> previous > 0 \<and> throughput < fmul (1 / 2) previous
              then ob3\<lparr>oc_outlier_until := now + 30 * second\<rparr> else ob3
      else ob)"

definition record_success ::
  "time \<Rightarrow> int \<Rightarrow> int \<Rightarrow> int \<Rightarrow> int \<Rightarrow> candidate_observation \<Rightarrow> candidate_observation" where
  "record_success now latency duration bytes window ob0 =
     (let ob1 = record_outcome now True ob0;
          ob2 = ob1\<lparr>oc_last_success_count := oc_last_success_count ob1 + 1\<rparr>;
          ob3 = recover now window ob2;
          ob4 = (if oc_outlier_until ob3 \<noteq> zero_time \<and> oc_outlier_until ob3 < now
                 then ob3\<lparr>oc_outlier_until := zero_time\<rparr> else ob3);
          ob5 = (if latency > 0
                 then ob4\<lparr>oc_last_latency := latency,
                          oc_latency_estimate := blend_duration (oc_latency_estimate ob4) latency,
                          oc_last_success_at := now\<rparr> else ob4);
          (weight, qualified, bucket) = classify_throughput_sample duration bytes;
          ob6 = record_traffic_mix now bucket weight ob5;
          ob7 = (if qualified then record_throughput now duration bytes weight ob6 else ob6)
      in ob7\<lparr>oc_last_updated := now\<rparr>)"

definition record_failure :: "time \<Rightarrow> candidate_observation \<Rightarrow> candidate_observation" where
  "record_failure now ob0 =
     (let ob1 = record_outcome now False ob0;
          ob2 = ob1\<lparr>oc_last_success_count := 0\<rparr>;
          ob3 = (if oc_had_backoff ob2 \<and> oc_recovery_until ob2 \<noteq> zero_time \<and> now < oc_recovery_until ob2
                 then ob2\<lparr>oc_recovery_successes := 0\<rparr> else ob2)
      in ob3\<lparr>oc_last_updated := now\<rparr>)"

subsection \<open>Is it still of use\<close>

definition observed_in_backoff :: "time \<Rightarrow> candidate_observation \<Rightarrow> bool" where
  "observed_in_backoff now ob \<longleftrightarrow> oc_recovery_until ob \<noteq> zero_time \<and> now < oc_slow_start_started_at ob"

definition inactive :: "time \<Rightarrow> candidate_observation \<Rightarrow> bool" where
  "inactive now ob =
     (let t = window_stats now ob in
      if wt_successes t > 0 \<or> wt_failures t > 0 \<or> wt_samples t > 0 \<or> wt_weight t > 0 then False
      else if observed_in_backoff now ob then False
      else if oc_recovery_until ob \<noteq> zero_time \<and> now < oc_recovery_until ob then False
      else if oc_slow_start_until ob \<noteq> zero_time \<and> now < oc_slow_start_until ob then False
      else if oc_outlier_until ob \<noteq> zero_time \<and> now < oc_outlier_until ob then False
      else if oc_last_success_at ob \<noteq> zero_time \<and> now - oc_last_success_at ob < observation_window then False
      else if oc_last_throughput_at ob \<noteq> zero_time \<and> now - oc_last_throughput_at ob < observation_window then False
      else if oc_last_updated ob \<noteq> zero_time \<and> now - oc_last_updated ob < observation_window then False
      else True)"

definition retains_failure_state :: "time \<Rightarrow> candidate_observation \<Rightarrow> bool" where
  "retains_failure_state now ob =
     (if observed_in_backoff now ob then True
      else if oc_had_backoff ob \<and> oc_recovery_until ob \<noteq> zero_time \<and> now < oc_recovery_until ob then True
      else if oc_slow_start_until ob \<noteq> zero_time \<and> now < oc_slow_start_until ob then True
      else False)"

end
