(* ===== verification/BackScore.thy ===== *)
theory BackScore
  imports BackObserve
begin

text \<open>
  The scores of \<open>backends_cache.go\<close>: \<open>candidateSnapshot\<close>, what an observation says at one
  instant, and \<open>candidatePreference\<close>, what the ordering of the candidates compares. \<open>l1p\<close> is
  \<open>math.Log1p\<close>, whose last bits depend on the platform.
\<close>

record candidate_snapshot =
  sn_successes :: int
  sn_failures :: int
  sn_samples :: int
  sn_weight :: rat
  sn_latency_estimate :: int
  sn_last_success_at :: time
  sn_had_backoff :: bool
  sn_recovery_until :: time
  sn_slow_start_until :: time
  sn_slow_start_started_at :: time
  sn_outlier_until :: time
  sn_last_throughput :: rat
  sn_throughput_estimate :: rat
  sn_last_throughput_at :: time
  sn_outlier_throughput :: bool

record candidate_preference =
  pf_in_backoff :: bool
  pf_state :: string
  pf_stability :: rat
  pf_latency :: int
  pf_has_latency :: bool
  pf_bandwidth :: rat
  pf_has_bandwidth :: bool
  pf_confidence :: rat
  pf_outlier :: bool
  pf_slow_start_active :: bool
  pf_slow_start_factor :: rat
  pf_performance :: rat
  pf_share_hint :: string

definition snapshot_from_observation ::
  "candidate_observation \<Rightarrow> time \<Rightarrow> candidate_snapshot \<times> traffic_mix" where
  "snapshot_from_observation ob now =
     (let t = window_stats now ob in
      (\<lparr>sn_successes = wt_successes t, sn_failures = wt_failures t, sn_samples = wt_samples t,
        sn_weight = wt_weight t, sn_latency_estimate = oc_latency_estimate ob,
        sn_last_success_at = oc_last_success_at ob, sn_had_backoff = oc_had_backoff ob,
        sn_recovery_until = oc_recovery_until ob, sn_slow_start_until = oc_slow_start_until ob,
        sn_slow_start_started_at = oc_slow_start_started_at ob, sn_outlier_until = oc_outlier_until ob,
        sn_last_throughput = oc_last_throughput ob, sn_throughput_estimate = oc_throughput_estimate ob,
        sn_last_throughput_at = oc_last_throughput_at ob,
        sn_outlier_throughput = oc_outlier_throughput ob\<rparr>, wt_mix t))"

subsection \<open>Scores\<close>

definition stability_score :: "int \<Rightarrow> int \<Rightarrow> rat" where
  "stability_score successes failures =
     (if successes \<le> 0 \<and> failures \<le> 0 then 1 / 2
      else if successes \<le> 0 then 0
      else fdiv (f64_of_int successes) (f64_of_int (successes + failures)))"

definition sample_confidence :: "int \<Rightarrow> int \<Rightarrow> rat" where
  "sample_confidence successes failures =
     (let total = successes + failures in
      if total \<le> 0 then 0
      else if total = 1 then f64 (5 / 100)
      else if total = 2 then f64 (1 / 10)
      else if total = 3 then f64 (55 / 100)
      else if total = 4 then f64 (8 / 10)
      else 1)"

definition slow_start_factor :: "time \<Rightarrow> time \<Rightarrow> time \<Rightarrow> rat \<times> bool" where
  "slow_start_factor now started until =
     (if started = zero_time \<or> until = zero_time \<or> now < started \<or> \<not> now < until then (1, False)
      else let total = until - started in
        if total \<le> 0 then (1, False)
        else let p = fdiv (f64_of_int (now - started)) (f64_of_int total);
                 q = (if p < 0 then 0 else p);
                 progress = (if q > 1 then 1 else q)
             in (fadd (f64 (30 / 100)) (fmul (f64 (70 / 100)) progress), True))"

definition outlier_penalty :: "bool \<Rightarrow> rat" where
  "outlier_penalty outlier = (if outlier then f64 (35 / 100) else 1)"

definition throughput_weights :: "traffic_mix \<Rightarrow> rat \<times> rat" where
  "throughput_weights mix =
     (let total = fadd (mix_small mix) (mix_bulk mix) in
      if total \<le> 0 then (3 / 4, 1 / 4)
      else let bias = max 0 (min 1 (fdiv (mix_bulk mix) total)) in
        (fsub (3 / 4) (fmul (f64 (40 / 100)) bias), fadd (1 / 4) (fmul (f64 (40 / 100)) bias)))"

definition performance_score ::
  "(rat \<Rightarrow> rat) \<Rightarrow> candidate_preference \<Rightarrow> bool \<Rightarrow> traffic_mix \<Rightarrow> rat" where
  "performance_score l1p p allow mix =
     (let latency_score =
            (if pf_has_latency p \<and> pf_latency p > 0
             then fdiv 1 (fadd 1 (fdiv (fdiv (f64_of_int (pf_latency p)) (f64_of_int millisecond)) 50))
             else 0) in
      if \<not> allow \<or> \<not> pf_has_bandwidth p \<or> pf_bandwidth p \<le> 0 then latency_score
      else let mbps = fdiv (pf_bandwidth p) (1024 * 1024);
               throughput_score = fdiv (l1p mbps) (l1p 16) in
        if \<not> pf_has_latency p \<or> pf_latency p \<le> 0 then throughput_score
        else let (lw, tw) = throughput_weights mix in
          fadd (fmul lw latency_score) (fmul tw throughput_score))"

definition confidence_factor :: "rat \<Rightarrow> rat" where
  "confidence_factor confidence =
     (if confidence \<le> 0 then 1 / 4
      else let c = (if confidence > 1 then 1 else confidence) in fadd (1 / 4) (fmul (3 / 4) c))"

definition effective_performance ::
  "(rat \<Rightarrow> rat) \<Rightarrow> candidate_preference \<Rightarrow> bool \<Rightarrow> traffic_mix \<Rightarrow> rat" where
  "effective_performance l1p p allow mix =
     (if \<not> pf_has_latency p \<and> \<not> pf_has_bandwidth p then 0
      else let slow = (if pf_slow_start_factor p \<le> 0 then 1 else pf_slow_start_factor p);
               performance = fmul (performance_score l1p p allow mix) (confidence_factor (pf_confidence p))
        in fmul (fmul performance slow) (outlier_penalty (pf_outlier p)))"

subsection \<open>The preference of a snapshot\<close>

definition snap_latency :: "candidate_snapshot \<Rightarrow> time \<Rightarrow> int \<times> bool" where
  "snap_latency s now =
     (if sn_last_success_at s = zero_time \<or> now - sn_last_success_at s \<ge> observation_window
         \<or> sn_latency_estimate s \<le> 0 then (0, False)
      else (sn_latency_estimate s, True))"

definition snap_throughput_ready :: "candidate_snapshot \<Rightarrow> time \<Rightarrow> bool" where
  "snap_throughput_ready s now =
     (if sn_samples s < 2 \<or> sn_weight s < 3 / 2 then False
      else if sn_last_throughput_at s = zero_time \<or> now - sn_last_throughput_at s \<ge> observation_window
              \<or> sn_throughput_estimate s \<le> 0 then False
      else True)"

definition snap_bandwidth :: "candidate_snapshot \<Rightarrow> time \<Rightarrow> rat \<times> bool" where
  "snap_bandwidth s now =
     (if \<not> snap_throughput_ready s now then (0, False) else (sn_throughput_estimate s, True))"

definition is_outlier :: "candidate_snapshot \<Rightarrow> time \<Rightarrow> bool" where
  "is_outlier s now =
     (if \<not> snap_throughput_ready s now \<or> \<not> sn_outlier_throughput s then False
      else if sn_outlier_until s \<noteq> zero_time \<and> now < sn_outlier_until s then True
      else if sn_last_throughput s > 0 \<and> sn_throughput_estimate s > 0
      then sn_last_throughput s < fmul (1 / 2) (sn_throughput_estimate s)
           \<or> sn_last_throughput s > fmul (5 / 2) (sn_throughput_estimate s)
      else False)"

definition snap_in_backoff :: "candidate_snapshot \<Rightarrow> time \<Rightarrow> bool" where
  "snap_in_backoff s now \<longleftrightarrow> sn_recovery_until s \<noteq> zero_time \<and> now < sn_slow_start_started_at s"

definition snap_state :: "candidate_snapshot \<Rightarrow> time \<Rightarrow> bool \<Rightarrow> string" where
  "snap_state s now in_backoff =
     (if sn_had_backoff s \<and> sn_recovery_until s \<noteq> zero_time \<and> sn_slow_start_started_at s < now
         \<and> now < sn_recovery_until s then observation_state_recovering
      else if in_backoff \<or> sn_successes s \<le> 0 \<or> sn_successes s + sn_failures s < min_recent_samples
      then observation_state_cold
      else observation_state_warm)"

definition preference ::
  "(rat \<Rightarrow> rat) \<Rightarrow> candidate_snapshot \<Rightarrow> time \<Rightarrow> bool \<Rightarrow> traffic_mix \<Rightarrow> candidate_preference" where
  "preference l1p s now allow mix =
     (let in_backoff = snap_in_backoff s now;
          st = snap_state s now in_backoff;
          (factor, active) = slow_start_factor now (sn_slow_start_started_at s) (sn_slow_start_until s);
          (latency, has_latency) = snap_latency s now;
          (bandwidth, has_bandwidth) = (if allow then snap_bandwidth s now else (0, False));
          p = \<lparr>pf_in_backoff = in_backoff, pf_state = st,
               pf_stability = stability_score (sn_successes s) (sn_failures s),
               pf_latency = latency, pf_has_latency = has_latency,
               pf_bandwidth = bandwidth, pf_has_bandwidth = has_bandwidth,
               pf_confidence = sample_confidence (sn_successes s) (sn_failures s),
               pf_outlier = (allow \<and> is_outlier s now), pf_slow_start_active = active,
               pf_slow_start_factor = factor, pf_performance = 0, pf_share_hint = []\<rparr>
      in p\<lparr>pf_performance := effective_performance l1p p allow mix,
           pf_share_hint := (if in_backoff then ''blocked'' else if active then ''recovery''
                             else if st = observation_state_cold then ''cold'' else ''normal'')\<rparr>)"

lemma preference_fields [simp]:
  "pf_in_backoff (preference l1p s now allow mix) = snap_in_backoff s now"
  "pf_state (preference l1p s now allow mix) = snap_state s now (snap_in_backoff s now)"
  "pf_stability (preference l1p s now allow mix) = stability_score (sn_successes s) (sn_failures s)"
  by (simp_all add: preference_def Let_def split_beta)

lemma snapshot_fields [simp]:
  "snap_in_backoff (fst (snapshot_from_observation ob now)) t = observed_in_backoff t ob"
  "sn_successes (fst (snapshot_from_observation ob now)) = wt_successes (window_stats now ob)"
  "sn_failures (fst (snapshot_from_observation ob now)) = wt_failures (window_stats now ob)"
  by (simp_all add: snapshot_from_observation_def snap_in_backoff_def observed_in_backoff_def Let_def)

lemma stability_unit:
  assumes "0 \<le> s" and "0 \<le> f" and "s + f < 2 ^ 53"
  shows "0 \<le> stability_score s f \<and> stability_score s f \<le> 1"
proof (cases "s = 0")
  case True
  then show ?thesis by (simp add: stability_score_def)
next
  case False
  with assms have "0 \<le> (of_int s / of_int (s + f) :: rat)" "(of_int s / of_int (s + f) :: rat) \<le> 1"
    by (auto simp: divide_le_eq)
  from f64_unit [OF this] show ?thesis
    using assms False by (simp add: stability_score_def fdiv_def f64_of_int_exact)
qed

end
