(* ===== verification/BackCache.thy ===== *)
theory BackCache
  imports BackScore "HOL-Library.Mapping"
begin

text \<open>
  \<open>Cache\<close> of \<open>go-agent/internal/model\<close> (\<open>backends_cache.go\<close>, \<open>backends_types.go\<close>): the failure
  entries with their exponential backoff, the observations and their index by scope and
  backend, the round-robin offsets, the DNS answers, and the pruning of all of them. Every
  operation runs under the cache's mutex; its clock reading is an argument.
\<close>

subsection \<open>State\<close>

record dns_cache_entry =
  de_ips :: "string list"
  de_expires_at :: time
  de_stale_until :: time

record failure_entry =
  fe_consecutive :: int
  fe_retry_after :: time

type_synonym index_key = "string \<times> string"

record backend_cache =
  bc_backoff_base :: int
  bc_backoff_limit :: int
  bc_last_pruned :: time
  bc_dns_lookups :: "(string, nat) mapping"
  bc_dns_cache :: "(string, dns_cache_entry) mapping"
  bc_failures :: "(string, failure_entry) mapping"
  bc_round_robin :: "(string, int) mapping"
  bc_observed :: "(string, candidate_observation) mapping"
  bc_backend_observed :: "(index_key, candidate_observation) mapping"

text \<open>A map read for a key it does not hold gives the zero value.\<close>

abbreviation observed_at :: "backend_cache \<Rightarrow> string \<Rightarrow> candidate_observation" where
  "observed_at c k \<equiv> Mapping.lookup_default zero_observation (bc_observed c) k"

definition new_cache :: "int \<Rightarrow> int \<Rightarrow> backend_cache" where
  "new_cache cfg_base cfg_limit =
     (let base = (if cfg_base \<le> 0 then second else cfg_base);
          limit = (if cfg_limit \<le> 0 then 60 * second else cfg_limit)
      in \<lparr>bc_backoff_base = (if base > limit then limit else base), bc_backoff_limit = limit,
          bc_last_pruned = zero_time, bc_dns_lookups = Mapping.empty, bc_dns_cache = Mapping.empty,
          bc_failures = Mapping.empty, bc_round_robin = Mapping.empty, bc_observed = Mapping.empty,
          bc_backend_observed = Mapping.empty\<rparr>)"

text \<open>A clone has its own maps, no lookup in flight, and was never pruned.\<close>

definition clone :: "backend_cache \<Rightarrow> backend_cache" where
  "clone c = c\<lparr>bc_last_pruned := zero_time, bc_dns_lookups := Mapping.empty\<rparr>"

subsection \<open>Keys\<close>

definition backend_observation_prefix :: string where
  "backend_observation_prefix = ''backend|''"

definition has_prefix :: "string \<Rightarrow> string \<Rightarrow> bool" where
  "has_prefix p s \<longleftrightarrow> take (length p) s = p"

definition backend_observation_key :: "string \<Rightarrow> string \<Rightarrow> string" where
  "backend_observation_key scope backend_id =
     (let s = trim_space scope; i = trim_space backend_id in
      if s = [] \<or> i = [] then [] else backend_observation_prefix @ s @ ''|'' @ i)"

definition index_byte :: "char \<Rightarrow> string \<Rightarrow> int" where
  "index_byte b s = (if b \<in> set s then int (length (takeWhile (\<lambda>x. x \<noteq> b) s)) else - 1)"

definition parse_index_key :: "string \<Rightarrow> index_key option" where
  "parse_index_key key =
     (let normalized = trim_space key in
      if \<not> has_prefix backend_observation_prefix normalized then None
      else let rest = drop (length backend_observation_prefix) normalized;
               sep = index_byte (CHR ''|'') rest in
        if sep < 0 then None
        else let scope = trim_space (take (nat sep) rest);
                 backend_id = trim_space (drop (nat sep + 1) rest) in
          if scope = [] \<or> backend_id = [] then None else Some (scope, backend_id))"

text \<open>The decimal ids of a relay path, joined.\<close>

fun relay_ids :: "int list \<Rightarrow> string" where
  "relay_ids [] = []"
| "relay_ids [n] = itoa n"
| "relay_ids (n # m # ns) = itoa n @ ''-'' @ relay_ids (m # ns)"

fun relay_layers :: "int list list \<Rightarrow> string" where
  "relay_layers [] = []"
| "relay_layers [l] = relay_ids l"
| "relay_layers (l # k # ls) = relay_ids l @ ''/'' @ relay_layers (k # ls)"

definition relay_backoff_key :: "int list \<Rightarrow> string \<Rightarrow> string" where
  "relay_backoff_key chain addr = ''relay|'' @ relay_ids chain @ ''|'' @ addr"

definition relay_backoff_key_for_layers :: "int list \<Rightarrow> int list list \<Rightarrow> string \<Rightarrow> string" where
  "relay_backoff_key_for_layers chain layers addr =
     (if layers = [] then relay_backoff_key chain addr
      else ''relay_layers|'' @ relay_layers layers @ ''|'' @ addr)"

subsection \<open>The index of backend observations\<close>

definition store_backend_index :: "string \<Rightarrow> candidate_observation \<Rightarrow> backend_cache \<Rightarrow> backend_cache" where
  "store_backend_index key ob c =
     (case parse_index_key key of None \<Rightarrow> c
      | Some ik \<Rightarrow> c\<lparr>bc_backend_observed := Mapping.update ik ob (bc_backend_observed c)\<rparr>)"

definition backend_observation :: "backend_cache \<Rightarrow> string \<Rightarrow> string \<Rightarrow> candidate_observation" where
  "backend_observation c scope backend_id =
     (if scope = [] \<or> backend_id = [] then zero_observation
      else case Mapping.lookup (bc_backend_observed c) (scope, backend_id) of
        Some ob \<Rightarrow> ob
      | None \<Rightarrow> observed_at c (backend_observation_key scope backend_id))"

definition slow_start_window_for_key :: "string \<Rightarrow> int" where
  "slow_start_window_for_key key =
     (if has_prefix backend_observation_prefix (trim_space key) then 60 * second else 30 * second)"

subsection \<open>Pruning\<close>

definition dns_retain_until :: "dns_cache_entry \<Rightarrow> time" where
  "dns_retain_until e = (if de_stale_until e > de_expires_at e then de_stale_until e else de_expires_at e)"

record prune_stats =
  ps_dns :: nat
  ps_failures :: nat
  ps_round_robin :: nat
  ps_observations :: nat

definition no_prune :: prune_stats where
  "no_prune = \<lparr>ps_dns = 0, ps_failures = 0, ps_round_robin = 0, ps_observations = 0\<rparr>"

definition prune_interval :: int where
  "prune_interval = 5 * minute"

definition prune_locked :: "time \<Rightarrow> bool \<Rightarrow> backend_cache \<Rightarrow> prune_stats \<times> backend_cache" where
  "prune_locked now force c =
     (if \<not> force \<and> bc_last_pruned c \<noteq> zero_time \<and> now - bc_last_pruned c < prune_interval then (no_prune, c)
      else
        let dns = Mapping.filter (\<lambda>_ e. now < dns_retain_until e) (bc_dns_cache c);
            failures = (if force
                        then Mapping.filter (\<lambda>k e. now < fe_retry_after e
                               \<or> retains_failure_state now (observed_at c k)) (bc_failures c)
                        else bc_failures c);
            observed = Mapping.filter (\<lambda>_ ob. \<not> inactive now ob) (bc_observed c);
            gone = Mapping.keys (bc_observed c) - Mapping.keys observed;
            index = Mapping.filter (\<lambda>ik _. \<forall>k \<in> gone. parse_index_key k \<noteq> Some ik) (bc_backend_observed c);
            robins = (if force then Mapping.empty else bc_round_robin c)
        in (\<lparr>ps_dns = Mapping.size (bc_dns_cache c) - Mapping.size dns,
             ps_failures = Mapping.size (bc_failures c) - Mapping.size failures,
             ps_round_robin = Mapping.size (bc_round_robin c) - Mapping.size robins,
             ps_observations = card gone\<rparr>,
            c\<lparr>bc_last_pruned := now, bc_dns_cache := dns, bc_failures := failures,
              bc_observed := observed, bc_backend_observed := index, bc_round_robin := robins\<rparr>))"

abbreviation prune_lazily :: "time \<Rightarrow> backend_cache \<Rightarrow> backend_cache" where
  "prune_lazily now c \<equiv> snd (prune_locked now False c)"

subsection \<open>Backoff\<close>

fun backoff_loop :: "nat \<Rightarrow> int \<Rightarrow> int \<Rightarrow> int" where
  "backoff_loop 0 limit backoff = backoff"
| "backoff_loop (Suc k) limit backoff =
     (if backoff \<ge> limit div 2 then limit else backoff_loop k limit (backoff * 2))"

definition backoff_duration :: "backend_cache \<Rightarrow> int \<Rightarrow> int" where
  "backoff_duration c consecutive =
     (let b = backoff_loop (nat (consecutive - 1)) (bc_backoff_limit c) (bc_backoff_base c) in
      if b > bc_backoff_limit c then bc_backoff_limit c else b)"

definition apply_failure_locked :: "string \<Rightarrow> time \<Rightarrow> backend_cache \<Rightarrow> int \<times> backend_cache" where
  "apply_failure_locked key now c =
     (let n = (case Mapping.lookup (bc_failures c) key of None \<Rightarrow> 0 | Some e \<Rightarrow> fe_consecutive e) + 1;
          backoff = backoff_duration c n;
          entry = \<lparr>fe_consecutive = n, fe_retry_after = now + backoff\<rparr>;
          ob = record_failure now (observed_at c key);
          recovery = fe_retry_after entry + recovery_window;
          ob1 = ob\<lparr>oc_had_backoff := True, oc_recovery_until := recovery, oc_recovery_successes := 0,
                   oc_slow_start_started_at := recovery - recovery_window,
                   oc_slow_start_until := recovery\<rparr>;
          c1 = c\<lparr>bc_failures := Mapping.update key entry (bc_failures c),
                 bc_observed := Mapping.update key ob1 (bc_observed c)\<rparr>
      in (backoff, store_backend_index key ob1 c1))"

subsection \<open>Operations\<close>

definition observe_transfer_success ::
  "time \<Rightarrow> string \<Rightarrow> int \<Rightarrow> int \<Rightarrow> int \<Rightarrow> backend_cache \<Rightarrow> backend_cache" where
  "observe_transfer_success now address latency duration bytes c =
     (let key = trim_space address in
      if key = [] then c
      else let c1 = prune_lazily now c;
               entry = record_success now latency duration bytes (slow_start_window_for_key key) (observed_at c1 key);
               c2 = store_backend_index key entry (c1\<lparr>bc_observed := Mapping.update key entry (bc_observed c1)\<rparr>)
           in c2\<lparr>bc_failures := Mapping.delete key (bc_failures c2)\<rparr>)"

text \<open>\<open>ObserveBackendSuccess\<close> has the same body.\<close>

definition observe_backend_success ::
  "time \<Rightarrow> string \<Rightarrow> int \<Rightarrow> int \<Rightarrow> int \<Rightarrow> backend_cache \<Rightarrow> backend_cache" where
  "observe_backend_success now scope latency duration bytes c =
     (let key = trim_space scope in
      if key = [] then c
      else let c1 = prune_lazily now c;
               entry = record_success now latency duration bytes (slow_start_window_for_key key) (observed_at c1 key);
               c2 = store_backend_index key entry (c1\<lparr>bc_observed := Mapping.update key entry (bc_observed c1)\<rparr>)
           in c2\<lparr>bc_failures := Mapping.delete key (bc_failures c2)\<rparr>)"

definition observe_success :: "time \<Rightarrow> string \<Rightarrow> int \<Rightarrow> backend_cache \<Rightarrow> backend_cache" where
  "observe_success now address latency c = observe_transfer_success now address latency 0 0 c"

definition observe_backend_failure :: "time \<Rightarrow> string \<Rightarrow> backend_cache \<Rightarrow> backend_cache" where
  "observe_backend_failure now scope c =
     (let key = trim_space scope in
      if key = [] then c else snd (apply_failure_locked key now (prune_lazily now c)))"

definition mark_failure :: "time \<Rightarrow> string \<Rightarrow> backend_cache \<Rightarrow> int \<times> backend_cache" where
  "mark_failure now address c =
     (let key = trim_space address in
      if key = [] then (0, c) else apply_failure_locked key now (prune_lazily now c))"

definition mark_success :: "string \<Rightarrow> backend_cache \<Rightarrow> backend_cache" where
  "mark_success address c =
     (let key = trim_space address in
      if key = [] then c else c\<lparr>bc_failures := Mapping.delete key (bc_failures c)\<rparr>)"

definition is_in_backoff :: "time \<Rightarrow> string \<Rightarrow> backend_cache \<Rightarrow> bool" where
  "is_in_backoff now address c =
     (let key = trim_space address in
      if key = [] then False
      else case Mapping.lookup (bc_failures c) key of None \<Rightarrow> False | Some e \<Rightarrow> now < fe_retry_after e)"

definition round_robin_offset :: "string \<Rightarrow> nat \<Rightarrow> backend_cache \<Rightarrow> int \<times> backend_cache" where
  "round_robin_offset scope n c =
     (let key = trim_space scope;
          v = Mapping.lookup_default 0 (bc_round_robin c) key;
          offset = (if n > 0 then v mod int n else v)
      in (offset, c\<lparr>bc_round_robin := Mapping.update key (offset + 1) (bc_round_robin c)\<rparr>))"

subsection \<open>Summaries\<close>

record observation_summary =
  os_preference :: candidate_preference
  os_succeeded :: int
  os_failed :: int

definition summary_from_observation ::
  "(rat \<Rightarrow> rat) \<Rightarrow> candidate_observation \<Rightarrow> time \<Rightarrow> bool \<Rightarrow> traffic_mix \<Rightarrow> bool \<Rightarrow> observation_summary" where
  "summary_from_observation l1p ob now allow mix use_provided =
     (let (s, observed_mix) = snapshot_from_observation ob now in
      \<lparr>os_preference = preference l1p s now allow (if use_provided then mix else observed_mix),
       os_succeeded = sn_successes s, os_failed = sn_failures s\<rparr>)"

text \<open>\<open>None\<close> is the zero summary of a blank key.\<close>

definition summary_for_key ::
  "(rat \<Rightarrow> rat) \<Rightarrow> time \<Rightarrow> string \<Rightarrow> bool \<Rightarrow> traffic_mix \<Rightarrow> bool \<Rightarrow> backend_cache \<Rightarrow> observation_summary option" where
  "summary_for_key l1p now key allow mix use_provided c =
     (let normalized = trim_space key in
      if normalized = [] then None
      else Some (summary_from_observation l1p (observed_at c normalized) now allow mix use_provided))"

end
