(* ===== verification/BackOrder.thy ===== *)
theory BackOrder
  imports BackCache
begin

text \<open>
  \<open>go-agent/internal/model/backends_selection.go\<close>: the order in which the candidates of a request
  are tried, by round robin, at random, or by preference with a bounded share of exploration.
  \<open>draw n\<close> is what the call \<open>randomIntn(n)\<close> of the request answers; one request asks each \<open>n\<close> at
  most once.
\<close>

record endpoint =
  ep_host :: string
  ep_port :: int

record upstream_candidate =
  uc_endpoint :: endpoint
  uc_address :: string

record candidate_order =
  cr_candidate :: upstream_candidate
  cr_preference :: candidate_preference

definition strategy_round_robin :: string where
  "strategy_round_robin = ''round_robin''"

definition strategy_random :: string where
  "strategy_random = ''random''"

definition strategy_adaptive :: string where
  "strategy_adaptive = ''adaptive''"

definition normalize_strategy :: "string \<Rightarrow> string" where
  "normalize_strategy strategy =
     (let s = to_lower (trim_space strategy) in
      if s = strategy_random then strategy_random
      else if s = strategy_adaptive then strategy_adaptive
      else strategy_round_robin)"

subsection \<open>Random order\<close>

text \<open>The step of the loop for \<open>i = Suc k\<close>, and the loop down to 1.\<close>

fun shuffle_from :: "nat \<Rightarrow> (nat \<Rightarrow> int) \<Rightarrow> 'a list \<Rightarrow> 'a list" where
  "shuffle_from 0 draw xs = xs"
| "shuffle_from (Suc k) draw xs =
     (let i = Suc k; j0 = draw (i + 1); j = (if j0 < 0 \<or> j0 > int i then 0 else nat j0)
      in shuffle_from k draw (xs[i := xs ! j, j := xs ! i]))"

subsection \<open>Order by preference\<close>

definition compare_candidate_order :: "candidate_order \<Rightarrow> candidate_order \<Rightarrow> int" where
  "compare_candidate_order a b =
     (let l = cr_preference a; r = cr_preference b in
      if pf_in_backoff l \<noteq> pf_in_backoff r then (if pf_in_backoff l then 1 else - 1)
      else if pf_stability l > pf_stability r then - 1
      else if pf_stability l < pf_stability r then 1
      else if pf_performance l > pf_performance r then - 1
      else if pf_performance l < pf_performance r then 1
      else 0)"

text \<open>\<open>slices.SortStableFunc\<close>: the stable sort is the same list whatever its algorithm.\<close>

fun insert_stable :: "('a \<Rightarrow> 'a \<Rightarrow> int) \<Rightarrow> 'a \<Rightarrow> 'a list \<Rightarrow> 'a list" where
  "insert_stable cmp x [] = [x]"
| "insert_stable cmp x (y # ys) = (if cmp x y \<le> 0 then x # y # ys else y # insert_stable cmp x ys)"

definition sort_stable_func :: "('a \<Rightarrow> 'a \<Rightarrow> int) \<Rightarrow> 'a list \<Rightarrow> 'a list" where
  "sort_stable_func cmp xs = foldr (insert_stable cmp) xs []"

definition add_mix :: "bool \<Rightarrow> traffic_mix \<Rightarrow> traffic_mix \<Rightarrow> traffic_mix" where
  "add_mix allow shared mix =
     (if allow then \<lparr>mix_small = fadd (mix_small shared) (mix_small mix),
                     mix_bulk = fadd (mix_bulk shared) (mix_bulk mix)\<rparr> else shared)"

definition collect_snapshots ::
  "(string \<Rightarrow> candidate_observation) \<Rightarrow> upstream_candidate list \<Rightarrow> time \<Rightarrow> bool \<Rightarrow>
   candidate_snapshot list \<times> traffic_mix" where
  "collect_snapshots look candidates now allow =
     fold (\<lambda>cand (snaps, shared).
             let (s, mix) = snapshot_from_observation (look (trim_space (uc_address cand))) now
             in (snaps @ [s], add_mix allow shared mix))
          candidates ([], no_mix)"

definition backend_snapshots ::
  "string \<Rightarrow> upstream_candidate list \<Rightarrow> time \<Rightarrow> bool \<Rightarrow> backend_cache \<Rightarrow>
   candidate_snapshot list \<times> traffic_mix" where
  "backend_snapshots scope candidates now allow c =
     collect_snapshots (backend_observation c (trim_space scope)) candidates now allow"

definition resolved_snapshots ::
  "upstream_candidate list \<Rightarrow> time \<Rightarrow> bool \<Rightarrow> backend_cache \<Rightarrow> candidate_snapshot list \<times> traffic_mix" where
  "resolved_snapshots candidates now allow c = collect_snapshots (observed_at c) candidates now allow"

text \<open>The candidates with their preferences, and whether some are cold and some recovering.\<close>

definition candidate_order_from_snapshots ::
  "(rat \<Rightarrow> rat) \<Rightarrow> upstream_candidate list \<Rightarrow> candidate_snapshot list \<Rightarrow> time \<Rightarrow> bool \<Rightarrow> traffic_mix \<Rightarrow>
   candidate_order list \<times> bool \<times> bool" where
  "candidate_order_from_snapshots l1p candidates snaps now allow mix =
     (let os = map (\<lambda>(cand, s). \<lparr>cr_candidate = cand, cr_preference = preference l1p s now allow mix\<rparr>)
                   (zip candidates snaps) in
      (os, list_ex (\<lambda>x. pf_state (cr_preference x) = observation_state_cold) os,
       list_ex (\<lambda>x. pf_state (cr_preference x) = observation_state_recovering) os))"

subsection \<open>Exploration\<close>

definition choose_exploration_budget :: "bool \<Rightarrow> bool \<Rightarrow> int" where
  "choose_exploration_budget has_recovering has_cold =
     (if has_recovering \<and> has_cold then 20 else if has_recovering then 15
      else if has_cold then 10 else 0)"

text \<open>Three reversals in place.\<close>

definition rotate_exploration_candidate ::
  "'a list \<Rightarrow> nat \<Rightarrow> candidate_preference \<Rightarrow> string \<Rightarrow> 'a list option" where
  "rotate_exploration_candidate ordered index p target =
     (if pf_in_backoff p \<or> pf_state p \<noteq> target then None
      else if index = 0 then Some ordered
      else let a = rev (take index ordered) @ drop index ordered;
               b = take index a @ rev (drop index a)
           in Some (rev b))"

fun first_rotation :: "'a list \<Rightarrow> nat \<Rightarrow> candidate_order list \<Rightarrow> string \<Rightarrow> 'a list" where
  "first_rotation ordered i [] target = ordered"
| "first_rotation ordered i (entry # rest) target =
     (case rotate_exploration_candidate ordered i (cr_preference entry) target of
        Some rotated \<Rightarrow> rotated
      | None \<Rightarrow> first_rotation ordered (Suc i) rest target)"

definition maybe_promote ::
  "(nat \<Rightarrow> int) \<Rightarrow> 'a list \<Rightarrow> candidate_order list \<Rightarrow> bool \<Rightarrow> bool \<Rightarrow> 'a list" where
  "maybe_promote draw ordered state has_cold has_recovering =
     (let budget = choose_exploration_budget has_recovering has_cold in
      if budget = 0 then ordered
      else if draw 100 \<ge> budget then ordered
      else let target = (if has_recovering then observation_state_recovering else observation_state_cold)
        in first_rotation ordered 0 state target)"

definition explore_order ::
  "(nat \<Rightarrow> int) \<Rightarrow> candidate_order list \<times> bool \<times> bool \<Rightarrow> upstream_candidate list" where
  "explore_order draw scored =
     (let (os, has_cold, has_recovering) = scored;
          state = sort_stable_func compare_candidate_order os
      in maybe_promote draw (map cr_candidate state) state has_cold has_recovering)"

definition order_candidates ::
  "(rat \<Rightarrow> rat) \<Rightarrow> (nat \<Rightarrow> int) \<Rightarrow> time \<Rightarrow> string \<Rightarrow> string \<Rightarrow> upstream_candidate list \<Rightarrow> bool \<Rightarrow>
   backend_cache \<Rightarrow> upstream_candidate list \<times> backend_cache" where
  "order_candidates l1p draw now scope strategy candidates allow c =
     (if length candidates \<le> 1 then (candidates, c)
      else let st = normalize_strategy strategy in
        if st = strategy_round_robin
        then let (offset, c1) = round_robin_offset scope (length candidates) c
             in (drop (nat offset) candidates @ take (nat offset) candidates, c1)
        else if st = strategy_random
        then (shuffle_from (length candidates - 1) draw candidates, c)
        else let (snaps, mix) = backend_snapshots scope candidates now allow c
             in (explore_order draw (candidate_order_from_snapshots l1p candidates snaps now allow mix), c))"

definition prefer_resolved_candidates ::
  "(rat \<Rightarrow> rat) \<Rightarrow> (nat \<Rightarrow> int) \<Rightarrow> time \<Rightarrow> upstream_candidate list \<Rightarrow> bool \<Rightarrow> backend_cache \<Rightarrow>
   upstream_candidate list" where
  "prefer_resolved_candidates l1p draw now candidates allow c =
     (if length candidates \<le> 1 then candidates
      else let (snaps, mix) = resolved_snapshots candidates now allow c
        in explore_order draw (candidate_order_from_snapshots l1p candidates snaps now allow mix))"

subsection \<open>Every order is a permutation\<close>

lemma mset_swap_list:
  "i < length xs \<Longrightarrow> j < length xs \<Longrightarrow> mset (xs[i := xs ! j, j := xs ! i]) = mset xs"
  by (rule mset_swap)

lemma shuffle_mset: "k < length xs \<Longrightarrow> mset (shuffle_from k draw xs) = mset xs"
proof (induction k draw xs rule: shuffle_from.induct)
  case (1 draw xs)
  show ?case by simp
next
  case (2 k draw xs)
  define j where "j = (if draw (Suc k + 1) < 0 \<or> draw (Suc k + 1) > int (Suc k) then 0 else nat (draw (Suc k + 1)))"
  have j: "j < length xs" using "2.prems" by (auto simp: j_def)
  have eq: "shuffle_from (Suc k) draw xs = shuffle_from k draw (xs[Suc k := xs ! j, j := xs ! Suc k])"
    by (simp add: Let_def j_def)
  have "mset (shuffle_from k draw (xs[Suc k := xs ! j, j := xs ! Suc k])) = mset (xs[Suc k := xs ! j, j := xs ! Suc k])"
    by (rule "2.IH" [OF refl refl j_def]) (use "2.prems" in simp)
  then show ?case using eq mset_swap_list [OF "2.prems" j] by simp
qed

lemma insert_stable_mset [simp]: "mset (insert_stable cmp x xs) = add_mset x (mset xs)"
  by (induction xs) auto

lemma sort_stable_mset [simp]: "mset (sort_stable_func cmp xs) = mset xs"
  unfolding sort_stable_func_def by (induction xs) auto

lemma sort_stable_length [simp]: "length (sort_stable_func cmp xs) = length xs"
  by (metis sort_stable_mset size_mset)

lemma rotated_by_reversals:
  assumes "i \<le> length xs"
  shows "rev (take i (rev (take i xs) @ drop i xs) @ rev (drop i (rev (take i xs) @ drop i xs)))
       = drop i xs @ take i xs"
  using assms by simp

lemma rotate_exploration_Some:
  "rotate_exploration_candidate xs i p target = Some ys \<Longrightarrow> i \<le> length xs \<Longrightarrow>
   ys = drop i xs @ take i xs \<and> \<not> pf_in_backoff p \<and> pf_state p = target"
  unfolding rotate_exploration_candidate_def Let_def
  by (auto simp only: rotated_by_reversals split: if_splits) auto

lemma first_rotation_cases:
  assumes "i + length state \<le> length xs"
  obtains (kept) "first_rotation xs i state target = xs"
      "\<And>e. e \<in> set state \<Longrightarrow> pf_in_backoff (cr_preference e) \<or> pf_state (cr_preference e) \<noteq> target"
  | (turned) k where "k < length state" "\<not> pf_in_backoff (cr_preference (state ! k))"
      "pf_state (cr_preference (state ! k)) = target"
      "\<And>j. j < k \<Longrightarrow> pf_in_backoff (cr_preference (state ! j)) \<or> pf_state (cr_preference (state ! j)) \<noteq> target"
      "first_rotation xs i state target = drop (i + k) xs @ take (i + k) xs"
  using assms
proof (induction xs i state target arbitrary: thesis rule: first_rotation.induct)
  case (1 xs i target)
  then show ?case by simp
next
  case (2 xs i entry rest target)
  show ?case
  proof (cases "rotate_exploration_candidate xs i (cr_preference entry) target")
    case None
    then have no: "pf_in_backoff (cr_preference entry) \<or> pf_state (cr_preference entry) \<noteq> target"
      by (auto simp: rotate_exploration_candidate_def Let_def split: if_splits)
    show ?thesis
    proof (rule "2.IH" [OF None])
      assume "first_rotation xs (Suc i) rest target = xs"
        "\<And>e. e \<in> set rest \<Longrightarrow> pf_in_backoff (cr_preference e) \<or> pf_state (cr_preference e) \<noteq> target"
      then show ?thesis using None no by (intro "2.prems"(1)) auto
    next
      fix k
      assume k: "k < length rest" "\<not> pf_in_backoff (cr_preference (rest ! k))"
        "pf_state (cr_preference (rest ! k)) = target"
        "\<And>j. j < k \<Longrightarrow> pf_in_backoff (cr_preference (rest ! j)) \<or> pf_state (cr_preference (rest ! j)) \<noteq> target"
        "first_rotation xs (Suc i) rest target = drop (Suc i + k) xs @ take (Suc i + k) xs"
      show ?thesis
      proof (rule "2.prems"(2) [of "Suc k"])
        show "pf_in_backoff (cr_preference ((entry # rest) ! j)) \<or> pf_state (cr_preference ((entry # rest) ! j)) \<noteq> target"
          if "j < Suc k" for j using that no k(4) by (cases j) auto
      qed (use k None in auto)
    next
      show "Suc i + length rest \<le> length xs" using "2.prems"(3) by simp
    qed
  next
    case (Some ys)
    with rotate_exploration_Some [OF Some] "2.prems"(3) show ?thesis
      by (intro "2.prems"(2) [of 0]) auto
  qed
qed

lemma mset_rotation: "mset (drop k xs @ take k xs) = mset xs"
  by (metis append_take_drop_id mset_append union_commute)

lemma first_rotation_mset:
  "length state = length xs \<Longrightarrow> mset (first_rotation xs 0 state target) = mset xs"
  by (rule first_rotation_cases [of 0 state xs target]) (auto simp: mset_rotation simp del: mset_append)

lemma maybe_promote_mset:
  "length state = length xs \<Longrightarrow> mset (maybe_promote draw xs state hc hr) = mset xs"
  by (simp add: maybe_promote_def Let_def first_rotation_mset)

end
