(* ===== verification/BackRing.thy ===== *)
theory BackRing
  imports BackOrder
begin

text \<open>
  The ring of 24 hourly buckets against the plain history of outcomes it stands for: each
  bucket holds the outcomes of the last hour that fell into it, counted modulo \<open>2\<^sup>1\<^sup>6\<close>.
\<close>

subsection \<open>Histories of outcomes\<close>

datatype outcome_event =
  OutcomeSuccess time int int int int
| OutcomeFailure time

fun event_time :: "outcome_event \<Rightarrow> time" where
  "event_time (OutcomeSuccess now latency dur bytes window) = now"
| "event_time (OutcomeFailure now) = now"

fun event_ok :: "outcome_event \<Rightarrow> bool" where
  "event_ok (OutcomeSuccess now latency dur bytes window) = True"
| "event_ok (OutcomeFailure now) = False"

fun record_event :: "outcome_event \<Rightarrow> candidate_observation \<Rightarrow> candidate_observation" where
  "record_event (OutcomeSuccess now latency dur bytes window) ob = record_success now latency dur bytes window ob"
| "record_event (OutcomeFailure now) ob = record_failure now ob"

definition record_events :: "outcome_event list \<Rightarrow> candidate_observation" where
  "record_events es = fold record_event es zero_observation"

abbreviation event_hour :: "outcome_event \<Rightarrow> int" where
  "event_hour e \<equiv> hour_of (event_time e)"

definition outcomes_in :: "int \<Rightarrow> bool \<Rightarrow> outcome_event list \<Rightarrow> nat" where
  "outcomes_in h ok es = length (filter (\<lambda>e. event_hour e = h \<and> event_ok e = ok) es)"

text \<open>The reference: the outcomes of the clock hour of \<open>now\<close> and the 23 before it, each hour counted in 16 bits.\<close>

definition recent_outcomes :: "time \<Rightarrow> bool \<Rightarrow> outcome_event list \<Rightarrow> int" where
  "recent_outcomes now ok es =
     (\<Sum>h \<in> {hour_of now - 23..hour_of now}. int (outcomes_in h ok es mod 65536))"

text \<open>The clock never steps back by a day, and not behind \<open>now\<close>'s hour.\<close>

definition orderly :: "outcome_event list \<Rightarrow> time \<Rightarrow> bool" where
  "orderly es now \<longleftrightarrow>
     (\<forall>e \<in> set es. 0 \<le> event_time e \<and> event_hour e \<le> hour_of now)
     \<and> sorted_wrt (\<lambda>a b. event_hour a < event_hour b + 24) es"

subsection \<open>What the recording does to the counters\<close>

definition tally :: "observation_bucket \<Rightarrow> int \<times> 16 word \<times> 16 word" where
  "tally b = (ob_hour b, ob_successes b, ob_failures b)"

definition tallies :: "candidate_observation \<Rightarrow> (int \<times> 16 word \<times> 16 word) list" where
  "tallies ob = map tally (oc_counts ob)"

definition bump :: "bool \<Rightarrow> int \<times> 16 word \<times> 16 word \<Rightarrow> int \<times> 16 word \<times> 16 word" where
  "bump ok t = (case t of (h, s, f) \<Rightarrow> if ok then (h, s + 1, f) else (h, s, f + 1))"

definition refresh :: "int \<Rightarrow> int \<times> 16 word \<times> 16 word \<Rightarrow> int \<times> 16 word \<times> 16 word" where
  "refresh h t = (if fst t = h then t else (h, 0, 0))"

lemma bucket_index_less: "bucket_index now < 24"
  by (simp add: bucket_index_def observation_buckets_def)

text \<open>The bucket of the hour is in place, and the ring has its 24 buckets.\<close>

definition current_at :: "time \<Rightarrow> candidate_observation \<Rightarrow> bool" where
  "current_at now ob \<longleftrightarrow> length (oc_counts ob) = 24 \<and> ob_hour (oc_counts ob ! bucket_index now) = hour_of now"

lemma record_outcome_tallies:
  assumes "length (oc_counts ob) = 24"
  shows "tallies (record_outcome now ok ob) =
           (tallies ob)[bucket_index now := bump ok (refresh (hour_of now) (tallies ob ! bucket_index now))]"
    and "current_at now (record_outcome now ok ob)"
  using assms bucket_index_less [of now]
  by (auto simp: record_outcome_def at_bucket_def bucket_for_def Let_def tallies_def tally_def bump_def
      refresh_def fresh_bucket_def current_at_def map_update)

lemma at_bucket_keeps:
  assumes "current_at now ob" and "\<And>b. tally (f b) = tally b"
  shows "tallies (at_bucket now f ob) = tallies ob" and "current_at now (at_bucket now f ob)"
proof -
  have f: "ob_hour (f b) = ob_hour b" for b using assms(2) [of b] by (simp add: tally_def)
  have "map tally ((oc_counts ob)[i := f (oc_counts ob ! i)]) = map tally (oc_counts ob)" for i
    by (simp add: map_update assms(2)) (metis list_update_beyond list_update_id map_update not_less nth_map)
  then show "tallies (at_bucket now f ob) = tallies ob" "current_at now (at_bucket now f ob)"
    using assms(1) bucket_index_less [of now]
    by (auto simp: at_bucket_def bucket_for_def Let_def current_at_def tallies_def f)
qed

lemma record_mix_keeps:
  assumes "current_at now ob"
  shows "tallies (record_traffic_mix now bucket weight ob) = tallies ob"
    and "current_at now (record_traffic_mix now bucket weight ob)"
  using at_bucket_keeps [OF assms] assms
  by (auto simp: record_traffic_mix_def Let_def tally_def)

lemma record_qualified_keeps:
  assumes "current_at now ob"
  shows "tallies (record_qualified_throughput now weight ob) = tallies ob"
    and "current_at now (record_qualified_throughput now weight ob)"
  using at_bucket_keeps [OF assms] assms
  by (auto simp: record_qualified_throughput_def tally_def)

text \<open>A change of the other fields.\<close>

lemma same_counts_keeps:
  "oc_counts ob' = oc_counts ob \<Longrightarrow> tallies ob' = tallies ob \<and> current_at now ob' = current_at now ob"
  by (simp add: tallies_def current_at_def)

lemma recover_counts [simp]: "oc_counts (recover now window ob) = oc_counts ob"
  by (simp add: recover_def Let_def)

lemma record_throughput_keeps:
  assumes "current_at now ob"
  shows "tallies (record_throughput now dur bytes weight ob) = tallies ob"
proof -
  define ob1 where "ob1 = ob\<lparr>oc_last_throughput := fdiv (f64_of_int bytes) (seconds_of dur),
    oc_throughput_estimate := blend_weighted_float (oc_throughput_estimate ob)
      (fdiv (f64_of_int bytes) (seconds_of dur)) weight, oc_last_throughput_at := now\<rparr>"
  have c: "current_at now ob1" and t: "tallies ob1 = tallies ob"
    using assms same_counts_keeps [of ob1 ob] by (simp_all add: ob1_def)
  have "tallies (record_throughput now dur bytes weight ob) =
          (if fdiv (f64_of_int bytes) (seconds_of dur) > 0
           then tallies (record_qualified_throughput now weight ob1) else tallies ob)"
    by (simp add: record_throughput_def Let_def tallies_def ob1_def)
  then show ?thesis using record_qualified_keeps [OF c] t by simp
qed

lemma record_event_tallies:
  assumes "length (oc_counts ob) = 24"
  shows "tallies (record_event e ob) =
           (tallies ob)[bucket_index (event_time e) :=
              bump (event_ok e) (refresh (event_hour e) (tallies ob ! bucket_index (event_time e)))]"
proof (cases e)
  case (OutcomeFailure now)
  then show ?thesis
    using record_outcome_tallies(1) [OF assms, of now False]
    by (simp add: record_failure_def Let_def tallies_def)
next
  case (OutcomeSuccess now latency dur bytes window)
  obtain weight qual bucket where q: "classify_throughput_sample dur bytes = (weight, qual, bucket)"
    by (cases "classify_throughput_sample dur bytes") auto
  define ob1 where "ob1 = record_outcome now True ob"
  define ob5 where "ob5 = (let ob2 = ob1\<lparr>oc_last_success_count := oc_last_success_count ob1 + 1\<rparr>;
          ob3 = recover now window ob2;
          ob4 = (if oc_outlier_until ob3 \<noteq> zero_time \<and> oc_outlier_until ob3 < now
                 then ob3\<lparr>oc_outlier_until := zero_time\<rparr> else ob3)
       in (if latency > 0
                 then ob4\<lparr>oc_last_latency := latency,
                          oc_latency_estimate := blend_duration (oc_latency_estimate ob4) latency,
                          oc_last_success_at := now\<rparr> else ob4))"
  have "oc_counts ob5 = oc_counts ob1" by (simp add: ob5_def Let_def)
  then have c: "current_at now ob5" and t: "tallies ob5 = tallies ob1"
    using same_counts_keeps [of ob5 ob1 now] record_outcome_tallies(2) [OF assms] by (simp_all add: ob1_def)
  define ob6 where "ob6 = record_traffic_mix now bucket weight ob5"
  note m = record_mix_keeps [OF c, of bucket weight, folded ob6_def]
  have "tallies (record_success now latency dur bytes window ob) =
          tallies (if qual then record_throughput now dur bytes weight ob6 else ob6)"
    by (simp add: record_success_def Let_def q ob6_def ob5_def ob1_def tallies_def)
  also have "\<dots> = tallies ob1" using m t record_throughput_keeps [OF m(2)] by simp
  finally show ?thesis using OutcomeSuccess record_outcome_tallies(1) [OF assms] by (simp add: ob1_def)
qed

subsection \<open>The ring follows its history\<close>

definition tracks :: "outcome_event list \<Rightarrow> (int \<times> 16 word \<times> 16 word) list \<Rightarrow> bool" where
  "tracks es ts \<longleftrightarrow> length ts = 24
     \<and> (\<forall>h. fst (ts ! nat (h mod 24)) = h \<longrightarrow>
            snd (ts ! nat (h mod 24)) = (of_nat (outcomes_in h True es), of_nat (outcomes_in h False es)))
     \<and> (\<forall>h. fst (ts ! nat (h mod 24)) \<noteq> h \<longrightarrow>
            h < fst (ts ! nat (h mod 24)) \<or> (\<forall>ok. outcomes_in h ok es = 0))
     \<and> (\<forall>i < 24. ts ! i = (0, 0, 0) \<or> fst (ts ! i) mod 24 = int i)
     \<and> (\<forall>i < 24. fst (ts ! i) = 0 \<or> (\<exists>e \<in> set es. event_hour e = fst (ts ! i)))"

lemma outcomes_in_append:
  "outcomes_in h ok (es @ [e]) = outcomes_in h ok es + (if event_hour e = h \<and> event_ok e = ok then 1 else 0)"
  by (simp add: outcomes_in_def)

lemma tracks_Nil: "tracks [] (tallies zero_observation)"
  by (auto simp: tracks_def tallies_def zero_observation_def tally_def fresh_bucket_def outcomes_in_def)

text \<open>Two hours of one bucket are a day apart.\<close>

lemma same_bucket_apart:
  fixes a b :: int
  assumes "a mod 24 = b mod 24" and "a < b"
  shows "a + 24 \<le> b"
proof -
  have "(b - a) mod 24 = 0" using assms(1) by (simp add: mod_diff_cong)
  then have "24 dvd b - a" by (simp add: dvd_eq_mod_eq_0)
  then obtain k where k: "b - a = 24 * k" by (elim dvdE)
  with assms(2) have "1 \<le> k" by simp
  with k show ?thesis by linarith
qed

lemma tracks_shape: "tracks es ts \<Longrightarrow> i < 24 \<Longrightarrow> ts ! i = (0, 0, 0) \<or> fst (ts ! i) mod 24 = int i"
  by (simp add: tracks_def)

lemma tracks_seen:
  "tracks es ts \<Longrightarrow> i < 24 \<Longrightarrow> fst (ts ! i) = 0 \<or> (\<exists>e \<in> set es. event_hour e = fst (ts ! i))"
  by (simp add: tracks_def)

lemma tracks_not_ahead:
  assumes t: "tracks es ts" and H: "0 \<le> H" and near: "\<And>a. a \<in> set es \<Longrightarrow> event_hour a < H + 24"
  shows "fst (ts ! nat (H mod 24)) \<le> H"
proof (rule ccontr)
  let ?i = "nat (H mod 24)"
  assume "\<not> ?thesis"
  then have gt: "H < fst (ts ! ?i)" by simp
  have i: "?i < 24" by simp
  from tracks_shape [OF t i] gt H have "fst (ts ! ?i) mod 24 = H mod 24" by auto
  with gt have far: "H + 24 \<le> fst (ts ! ?i)" by (intro same_bucket_apart) auto
  from tracks_seen [OF t i] gt H obtain e where "e \<in> set es" "event_hour e = fst (ts ! ?i)" by auto
  with near far show False by force
qed

lemma tracks_snoc:
  assumes t: "tracks es ts" and H: "0 \<le> event_hour e"
    and near: "\<And>a. a \<in> set es \<Longrightarrow> event_hour a < event_hour e + 24"
  shows "tracks (es @ [e]) (ts[nat (event_hour e mod 24) :=
           bump (event_ok e) (refresh (event_hour e) (ts ! nat (event_hour e mod 24)))])"
proof -
  define H where "H = event_hour e"
  define i where "i = nat (H mod 24)"
  define t1 where "t1 = bump (event_ok e) (refresh H (ts ! i))"
  have len: "length ts = 24" and i: "i < 24" and it: "int i = H mod 24" using t by (auto simp: tracks_def i_def)
  have ahead: "fst (ts ! i) \<le> H" using tracks_not_ahead [OF t assms(2) near] by (simp add: H_def i_def)
  have hour1: "fst t1 = H" by (auto simp: t1_def bump_def refresh_def split: prod.splits)
  have nth1: "ts[i := t1] ! j = (if j = i then t1 else ts ! j)" if "j < 24" for j
    using that len i by simp
  have idx: "nat (h mod 24) < 24" for h :: int by simp
  have count: "outcomes_in h ok (es @ [e]) = outcomes_in h ok es" if "h \<noteq> H" for h ok
    using that by (simp add: outcomes_in_append H_def)
  have "snd (ts[i := t1] ! nat (h mod 24)) =
          (of_nat (outcomes_in h True (es @ [e])), of_nat (outcomes_in h False (es @ [e])))"
    if h: "fst (ts[i := t1] ! nat (h mod 24)) = h" for h
  proof (cases "nat (h mod 24) = i")
    case True
    with h hour1 i len have hH: "h = H" by simp
    have "snd (refresh H (ts ! i)) = (of_nat (outcomes_in H True es), of_nat (outcomes_in H False es))"
    proof (cases "fst (ts ! i) = H")
      case True
      with t show ?thesis by (auto simp: tracks_def refresh_def i_def)
    next
      case False
      with t ahead have "\<forall>ok. outcomes_in H ok es = 0" by (fastforce simp: tracks_def i_def)
      with False show ?thesis by (simp add: refresh_def)
    qed
    then show ?thesis using hH nth1 [OF idx] i_def
      by (auto simp: t1_def bump_def outcomes_in_append H_def add.commute split: prod.splits)
  next
    case False
    with h nth1 [OF idx] have "fst (ts ! nat (h mod 24)) = h" by simp
    moreover from False have "h \<noteq> H" by (auto simp: i_def)
    ultimately show ?thesis using t False nth1 [OF idx] by (simp add: tracks_def count)
  qed
  moreover have "h < fst (ts[i := t1] ! nat (h mod 24)) \<or> (\<forall>ok. outcomes_in h ok (es @ [e]) = 0)"
    if h: "fst (ts[i := t1] ! nat (h mod 24)) \<noteq> h" for h
  proof (cases "nat (h mod 24) = i")
    case True
    with h hour1 i len have hH: "h \<noteq> H" by simp
    have "h < H \<or> (\<forall>ok. outcomes_in h ok es = 0)"
    proof (cases "fst (ts ! i) = h")
      case True
      with ahead hH show ?thesis by simp
    next
      case False
      with t True have "h < fst (ts ! i) \<or> (\<forall>ok. outcomes_in h ok es = 0)" by (metis tracks_def)
      with ahead show ?thesis by auto
    qed
    then show ?thesis using hour1 i len True count [OF hH] by simp
  next
    case False
    with h nth1 [OF idx] have "fst (ts ! nat (h mod 24)) \<noteq> h" by simp
    moreover from False have "h \<noteq> H" by (auto simp: i_def)
    ultimately show ?thesis using t False nth1 [OF idx] by (simp add: tracks_def count)
  qed
  moreover have "ts[i := t1] ! j = (0, 0, 0) \<or> fst (ts[i := t1] ! j) mod 24 = int j" if "j < 24" for j
    using that t nth1 [OF that] hour1 it by (auto simp: tracks_def)
  moreover have "fst (ts[i := t1] ! j) = 0 \<or> (\<exists>a \<in> set (es @ [e]). event_hour a = fst (ts[i := t1] ! j))"
    if "j < 24" for j
    using that t nth1 [OF that] hour1 by (auto simp: tracks_def H_def)
  ultimately show ?thesis unfolding H_def [symmetric] i_def [symmetric] t1_def [symmetric]
    using len by (simp add: tracks_def)
qed

lemma record_events_tracks:
  "orderly es now \<Longrightarrow> tracks es (tallies (record_events es))"
proof (induction es rule: rev_induct)
  case Nil
  then show ?case using tracks_Nil by (simp add: record_events_def)
next
  case (snoc e es)
  then have o: "orderly es now" and H: "0 \<le> event_hour e"
    and near: "\<And>a. a \<in> set es \<Longrightarrow> event_hour a < event_hour e + 24"
    by (auto simp: orderly_def sorted_wrt_append hour_of_def second_def pos_imp_zdiv_nonneg_iff)
  from snoc.IH [OF o] have t: "tracks es (tallies (record_events es))" .
  then have len: "length (oc_counts (record_events es)) = 24" by (simp add: tracks_def tallies_def)
  have "tallies (record_events (es @ [e])) = tallies (record_event e (record_events es))"
    by (simp add: record_events_def)
  also note record_event_tallies [OF len]
  finally show ?case using tracks_snoc [OF t H near] by (simp add: bucket_index_def observation_buckets_def)
qed

subsection \<open>The window\<close>

definition in_window :: "int \<Rightarrow> int \<Rightarrow> bool" where
  "in_window current h \<longleftrightarrow> 0 \<le> current - h \<and> current - h < 24"

lemma fold_count_bucket:
  "wt_successes (fold (count_bucket H) bs t) =
     wt_successes t + sum_list (map (\<lambda>(h, c). if in_window H h then uint (fst c) else 0) (map tally bs))"
  "wt_failures (fold (count_bucket H) bs t) =
     wt_failures t + sum_list (map (\<lambda>(h, c). if in_window H h then uint (snd c) else 0) (map tally bs))"
  by (induction bs arbitrary: t)
     (auto simp: count_bucket_def Let_def in_window_def tally_def observation_buckets_def)

lemma window_bij: "bij_betw (\<lambda>h. nat (h mod 24)) {H - 23..H :: int} {..<24}"
proof (rule bij_betwI')
  fix x y :: int
  assume xy: "x \<in> {H - 23..H}" "y \<in> {H - 23..H}"
  show "(nat (x mod 24) = nat (y mod 24)) = (x = y)"
  proof
    assume "nat (x mod 24) = nat (y mod 24)"
    then have "x mod 24 = y mod 24" by (simp add: nat_eq_iff2)
    then show "x = y"
      using same_bucket_apart [of x y] same_bucket_apart [of y x] xy by (cases x y rule: linorder_cases) auto
  qed simp
next
  fix i :: nat
  assume "i \<in> {..<24}"
  then have i: "int i < 24" by simp
  define x where "x = H - (H - int i) mod 24"
  have "x mod 24 = int i"
  proof -
    have "x mod 24 = (H - (H - int i)) mod 24" by (simp only: x_def mod_diff_right_eq)
    with i show ?thesis by simp
  qed
  moreover have "x \<in> {H - 23..H}" by (simp add: x_def)
  ultimately show "\<exists>x \<in> {H - 23..H}. i = nat (x mod 24)" by force
qed auto

lemma window_sum:
  assumes o: "orderly es now" and t: "tracks es ts"
    and pick: "pick = (if ok then fst else snd)"
  shows "sum_list (map (\<lambda>(h, c). if in_window (hour_of now) h then uint (pick c :: 16 word) else 0) ts) =
         recent_outcomes now ok es"
proof -
  define H where "H = hour_of now"
  define g where "g = (\<lambda>(h, c). if in_window H h then uint (pick c :: 16 word) else 0)"
  have len: "length ts = 24" using t by (simp add: tracks_def)
  have "sum_list (map g ts) = (\<Sum>i < 24. g (ts ! i))"
    using len by (simp add: sum_list_sum_nth lessThan_atLeast0)
  also have "\<dots> = (\<Sum>h \<in> {H - 23..H}. g (ts ! nat (h mod 24)))"
    using sum.reindex_bij_betw [OF window_bij, of "\<lambda>i. g (ts ! i)" H] by simp
  also have "\<dots> = recent_outcomes now ok es"
    unfolding recent_outcomes_def H_def [symmetric]
  proof (rule sum.cong [OF refl])
    fix h
    assume h: "h \<in> {H - 23..H}"
    define i where "i = nat (h mod 24)"
    have i: "i < 24" and ii: "int i = h mod 24" by (simp_all add: i_def)
    have shape: "ts ! i = (0, 0, 0) \<or> fst (ts ! i) mod 24 = h mod 24"
      using tracks_shape [OF t i] ii by simp
    have hours: "0 \<le> event_hour e \<and> event_hour e \<le> H" if "e \<in> set es" for e
      using o that by (auto simp: orderly_def H_def hour_of_def second_def pos_imp_zdiv_nonneg_iff)
    have early: "outcomes_in h ok es = 0" if "h < 0"
      using hours that by (force simp: outcomes_in_def filter_empty_conv)
    show "g (ts ! nat (h mod 24)) = int (outcomes_in h ok es mod 65536)"
    proof (cases "fst (ts ! i) = h")
      case True
      then have "snd (ts ! i) = (of_nat (outcomes_in h True es), of_nat (outcomes_in h False es))"
        using t by (simp add: tracks_def i_def)
      then have "pick (snd (ts ! i)) = of_nat (outcomes_in h ok es)" by (simp add: pick)
      moreover have "in_window H h" using h by (auto simp: in_window_def)
      ultimately have "g (ts ! i) = uint (of_nat (outcomes_in h ok es) :: 16 word)"
        using True by (simp add: g_def split_beta)
      then show ?thesis by (simp add: i_def uint_nat unat_of_nat)
    next
      case False
      have zero: "g (0, 0, 0) = 0" by (simp add: g_def pick)
      have not_ahead: "fst (ts ! i) \<le> H \<or> fst (ts ! i) = 0"
        using tracks_seen [OF t i] hours by metis
      show ?thesis
      proof (cases "h < fst (ts ! i)")
        case True
        have "ts ! i = (0, 0, 0) \<or> (h < 0 \<and> \<not> in_window H (fst (ts ! i)))"
          using shape same_bucket_apart [of h "fst (ts ! i)"] True not_ahead h by (auto simp: in_window_def)
        moreover have "h < 0" if "ts ! i = (0, 0, 0)" using that True by simp
        ultimately show ?thesis using early zero by (auto simp: i_def g_def split_beta)
      next
        case nolt: False
        with False t have "outcomes_in h ok es = 0" by (auto simp: tracks_def i_def)
        moreover have "ts ! i = (0, 0, 0) \<or> \<not> in_window H (fst (ts ! i))"
          using shape same_bucket_apart [of "fst (ts ! i)" h] False nolt h by (auto simp: in_window_def)
        ultimately show ?thesis using zero by (auto simp: i_def g_def split_beta)
      qed
    qed
  qed
  finally show ?thesis by (simp add: g_def H_def)
qed

lemma window_counts:
  assumes "orderly es now"
  shows "wt_successes (window_stats now (record_events es)) = recent_outcomes now True es"
    and "wt_failures (window_stats now (record_events es)) = recent_outcomes now False es"
  using window_sum [OF assms record_events_tracks [OF assms], of fst True]
    window_sum [OF assms record_events_tracks [OF assms], of snd False]
  by (simp_all add: window_stats_def fold_count_bucket tallies_def [symmetric])

end
