(* ===== verification/BackKeep.thy ===== *)
theory BackKeep
  imports BackRing
begin

text \<open>
  Histories of cache operations, the limits of the backoff, and what holds between the observations
  and their index after any history.
\<close>

subsection \<open>Histories\<close>

datatype cache_op =
  OpTransferSuccess time string int int int
| OpBackendSuccess time string int int int
| OpBackendFailure time string
| OpMarkFailure time string
| OpMarkSuccess string
| OpPrune time bool
| OpRoundRobin string nat
| OpClone

fun cache_step :: "cache_op \<Rightarrow> backend_cache \<Rightarrow> backend_cache" where
  "cache_step (OpTransferSuccess now address latency dur bytes) c =
     observe_transfer_success now address latency dur bytes c"
| "cache_step (OpBackendSuccess now scope latency dur bytes) c =
     observe_backend_success now scope latency dur bytes c"
| "cache_step (OpBackendFailure now scope) c = observe_backend_failure now scope c"
| "cache_step (OpMarkFailure now address) c = snd (mark_failure now address c)"
| "cache_step (OpMarkSuccess address) c = mark_success address c"
| "cache_step (OpPrune now force) c = snd (prune_locked now force c)"
| "cache_step (OpRoundRobin scope n) c = snd (round_robin_offset scope n c)"
| "cache_step OpClone c = clone c"

definition cache_run :: "cache_op list \<Rightarrow> backend_cache \<Rightarrow> backend_cache" where
  "cache_run ops c = fold cache_step ops c"

text \<open>The clock reading of an operation; the others leave the latest reading as it was.\<close>

fun op_time :: "time \<Rightarrow> cache_op \<Rightarrow> time" where
  "op_time t (OpTransferSuccess now address latency dur bytes) = now"
| "op_time t (OpBackendSuccess now scope latency dur bytes) = now"
| "op_time t (OpBackendFailure now scope) = now"
| "op_time t (OpMarkFailure now address) = now"
| "op_time t (OpMarkSuccess address) = t"
| "op_time t (OpPrune now force) = now"
| "op_time t (OpRoundRobin scope n) = t"
| "op_time t OpClone = t"

fun run_time :: "time \<Rightarrow> cache_op list \<Rightarrow> time" where
  "run_time t [] = t"
| "run_time t (op # ops) = run_time (op_time t op) ops"

text \<open>The readings never go back.\<close>

fun clocked :: "time \<Rightarrow> cache_op list \<Rightarrow> bool" where
  "clocked t [] = True"
| "clocked t (op # ops) = (t \<le> op_time t op \<and> clocked (op_time t op) ops)"

fun op_key :: "cache_op \<Rightarrow> string option" where
  "op_key (OpTransferSuccess now address latency dur bytes) = Some address"
| "op_key (OpBackendSuccess now scope latency dur bytes) = Some scope"
| "op_key (OpBackendFailure now scope) = Some scope"
| "op_key (OpMarkFailure now address) = Some address"
| "op_key _ = None"

subsection \<open>Fields\<close>

lemma lookup_default_Some: "Mapping.lookup m k = Some v \<Longrightarrow> Mapping.lookup_default d m k = v"
  by (simp add: Mapping.lookup_default_def)

lemma lookup_delete':
  "Mapping.lookup (Mapping.delete k m) k' = (if k = k' then None else Mapping.lookup m k')"
  by (cases "k = k'") (simp_all add: Mapping.lookup_delete_neq)

lemma store_index_fields [simp]:
  "bc_failures (store_backend_index k ob c) = bc_failures c"
  "bc_observed (store_backend_index k ob c) = bc_observed c"
  "bc_backoff_base (store_backend_index k ob c) = bc_backoff_base c"
  "bc_backoff_limit (store_backend_index k ob c) = bc_backoff_limit c"
  by (simp_all add: store_backend_index_def split: option.splits)

lemma prune_fields [simp]:
  "bc_backoff_base (snd (prune_locked now force c)) = bc_backoff_base c"
  "bc_backoff_limit (snd (prune_locked now force c)) = bc_backoff_limit c"
  by (simp_all add: prune_locked_def Let_def)

lemma backend_success_same:
  "observe_backend_success now scope latency dur bytes c = observe_transfer_success now scope latency dur bytes c"
  by (simp add: observe_backend_success_def observe_transfer_success_def)

lemma backend_failure_same: "observe_backend_failure now scope c = snd (mark_failure now scope c)"
  by (simp add: observe_backend_failure_def mark_failure_def Let_def)

subsection \<open>The limits of the backoff\<close>

definition limits_ok :: "backend_cache \<Rightarrow> bool" where
  "limits_ok c \<longleftrightarrow> 0 < bc_backoff_base c \<and> bc_backoff_base c \<le> bc_backoff_limit c"

lemma new_cache_limits: "limits_ok (new_cache b l)"
  by (simp add: limits_ok_def new_cache_def Let_def second_def)

lemma cache_step_limits [simp]:
  "bc_backoff_base (cache_step op c) = bc_backoff_base c"
  "bc_backoff_limit (cache_step op c) = bc_backoff_limit c"
  by (cases op; simp add: observe_transfer_success_def backend_success_same backend_failure_same mark_failure_def
      apply_failure_locked_def mark_success_def round_robin_offset_def clone_def Let_def)+

lemma cache_run_limits: "limits_ok c \<Longrightarrow> limits_ok (cache_run ops c)"
  unfolding cache_run_def by (induction ops arbitrary: c) (auto simp: limits_ok_def)

lemma backoff_loop_closed:
  "0 < b \<Longrightarrow> b \<le> limit \<Longrightarrow>
   (if limit \<le> b * 2 ^ k then min limit (backoff_loop k limit b) = limit
    else b * 2 ^ k \<le> backoff_loop k limit b \<and> backoff_loop k limit b \<le> b * 2 ^ k + 1)
   \<and> b \<le> backoff_loop k limit b"
proof (induction k limit b rule: backoff_loop.induct)
  case (1 limit b)
  then show ?case by auto
next
  case (2 k limit b)
  show ?case
  proof (cases "b \<ge> limit div 2")
    case True
    then have l: "limit \<le> 2 * b + 1" by linarith
    have "(2 * b) * 1 \<le> (2 * b) * 2 ^ k" using "2.prems"(1) by (intro mult_left_mono) auto
    moreover have "(2 * b) * 2 ^ k = b * 2 ^ Suc k" by simp
    ultimately have "limit \<le> b * 2 ^ Suc k + 1" using l by linarith
    with True "2.prems" show ?thesis by auto
  next
    case False
    then have "2 * b \<le> limit" by linarith
    with "2.IH" [OF False] "2.prems" False show ?thesis by (auto simp: mult.assoc)
  qed
qed

lemma backoff_duration_closed:
  assumes "limits_ok c" and "1 \<le> n"
  shows "bc_backoff_base c \<le> backoff_duration c n" and "backoff_duration c n \<le> bc_backoff_limit c"
    and "bc_backoff_limit c \<le> bc_backoff_base c * 2 ^ nat (n - 1) \<Longrightarrow> backoff_duration c n = bc_backoff_limit c"
    and "bc_backoff_base c * 2 ^ nat (n - 1) < bc_backoff_limit c \<Longrightarrow>
           bc_backoff_base c * 2 ^ nat (n - 1) \<le> backoff_duration c n
           \<and> backoff_duration c n \<le> bc_backoff_base c * 2 ^ nat (n - 1) + 1"
  using backoff_loop_closed [of "bc_backoff_base c" "bc_backoff_limit c" "nat (n - 1)"] assms
  by (auto simp: limits_ok_def backoff_duration_def Let_def min_def split: if_splits)

subsection \<open>The index of backend observations\<close>

text \<open>
  A key is canonical when the index reads no scope and backend from it, or \<open>BackendObservationKey\<close>
  makes it of those that the index reads.
\<close>

definition canonical :: "string \<Rightarrow> bool" where
  "canonical k \<longleftrightarrow> k \<noteq> [] \<and> trim_space k = k
     \<and> (case parse_index_key k of None \<Rightarrow> True | Some (s, i) \<Rightarrow> k = backend_observation_key s i)"

definition index_agrees :: "backend_cache \<Rightarrow> bool" where
  "index_agrees c \<longleftrightarrow>
     (\<forall>k ob. Mapping.lookup (bc_observed c) k = Some ob \<longrightarrow> canonical k)
     \<and> (\<forall>s i. Mapping.lookup (bc_backend_observed c) (s, i) =
            (if parse_index_key (backend_observation_key s i) = Some (s, i)
             then Mapping.lookup (bc_observed c) (backend_observation_key s i) else None))"

lemma canonical_parse:
  "canonical k \<Longrightarrow> parse_index_key k = Some (s, i) \<Longrightarrow> k = backend_observation_key s i"
  by (simp add: canonical_def)

lemma index_agrees_cong:
  "index_agrees c \<Longrightarrow> bc_observed c' = bc_observed c \<Longrightarrow> bc_backend_observed c' = bc_backend_observed c \<Longrightarrow>
   index_agrees c'"
  by (simp add: index_agrees_def)

lemma index_agrees_store:
  assumes "index_agrees c" and k: "canonical k" and o: "bc_observed c1 = Mapping.update k ob (bc_observed c)"
    and b: "bc_backend_observed c1 = bc_backend_observed c"
  shows "index_agrees (store_backend_index k ob c1)"
proof -
  have idx: "Mapping.lookup (bc_backend_observed (store_backend_index k ob c1)) (s, i) =
          (if parse_index_key k = Some (s, i) then Some ob else Mapping.lookup (bc_backend_observed c) (s, i))" for s i
    by (auto simp: store_backend_index_def b Mapping.lookup_update' split: option.splits)
  have "Mapping.lookup (bc_backend_observed (store_backend_index k ob c1)) (s, i) =
          (if parse_index_key (backend_observation_key s i) = Some (s, i)
           then Mapping.lookup (bc_observed c1) (backend_observation_key s i) else None)" for s i
  proof (cases "parse_index_key k = Some (s, i)")
    case True
    with canonical_parse [OF k] have "k = backend_observation_key s i" by simp
    with True idx [of s i] show ?thesis by (simp add: o)
  next
    case False
    then have "backend_observation_key s i \<noteq> k" if "parse_index_key (backend_observation_key s i) = Some (s, i)"
      using that by auto
    with False show ?thesis using assms(1) by (auto simp: idx o index_agrees_def Mapping.lookup_update')
  qed
  then show ?thesis using assms(1) k by (auto simp: index_agrees_def o Mapping.lookup_update')
qed

lemma index_agrees_prune:
  assumes "index_agrees c"
  shows "index_agrees (snd (prune_locked now force c))"
proof (cases "\<not> force \<and> bc_last_pruned c \<noteq> zero_time \<and> now - bc_last_pruned c < prune_interval")
  case True
  with assms show ?thesis by (simp add: prune_locked_def)
next
  case False
  define kept where "kept = Mapping.filter (\<lambda>_ ob. \<not> inactive now ob) (bc_observed c)"
  define gone where "gone = Mapping.keys (bc_observed c) - Mapping.keys kept"
  have fields: "bc_observed (snd (prune_locked now force c)) = kept"
    "bc_backend_observed (snd (prune_locked now force c)) =
       Mapping.filter (\<lambda>ik _. \<forall>k \<in> gone. parse_index_key k \<noteq> Some ik) (bc_backend_observed c)"
    using False by (auto simp: prune_locked_def Let_def kept_def gone_def)
  have look: "Mapping.lookup kept k =
      (case Mapping.lookup (bc_observed c) k of None \<Rightarrow> None | Some ob \<Rightarrow> if inactive now ob then None else Some ob)" for k
    by (simp add: kept_def Mapping.lookup_filter split: option.splits)
  have gone: "k \<in> gone \<longleftrightarrow> (\<exists>ob. Mapping.lookup (bc_observed c) k = Some ob \<and> inactive now ob)" for k
    by (auto simp: gone_def Mapping.keys_dom_lookup look domIff split: option.splits if_splits)
  have canon: "canonical k" if "Mapping.lookup (bc_observed c) k = Some ob" for k ob
    using assms that by (simp add: index_agrees_def)
  have "(\<exists>k \<in> gone. parse_index_key k = Some (s, i)) \<longleftrightarrow>
          parse_index_key (backend_observation_key s i) = Some (s, i) \<and> backend_observation_key s i \<in> gone" for s i
    using canonical_parse canon gone by metis
  then have "Mapping.lookup (bc_backend_observed (snd (prune_locked now force c))) (s, i) =
          (if parse_index_key (backend_observation_key s i) = Some (s, i)
           then Mapping.lookup kept (backend_observation_key s i) else None)" for s i
    using assms by (auto simp: fields Mapping.lookup_filter index_agrees_def look gone split: option.splits)
  then show ?thesis using canon by (auto simp: index_agrees_def fields look split: option.splits if_splits)
qed

lemma index_agrees_step:
  assumes "index_agrees c" and "\<And>k. op_key op = Some k \<Longrightarrow> trim_space k \<noteq> [] \<Longrightarrow> canonical (trim_space k)"
  shows "index_agrees (cache_step op c)"
proof -
  have success: "index_agrees (observe_transfer_success now a latency dur bytes c)"
    if a: "trim_space a \<noteq> [] \<Longrightarrow> canonical (trim_space a)" for now a latency dur bytes
  proof (cases "trim_space a = []")
    case True
    then show ?thesis using assms(1) by (simp add: observe_transfer_success_def)
  next
    case False
    let ?c1 = "prune_lazily now c"
    let ?ob = "record_success now latency dur bytes (slow_start_window_for_key (trim_space a)) (observed_at ?c1 (trim_space a))"
    have "index_agrees (store_backend_index (trim_space a) ?ob
            (?c1\<lparr>bc_observed := Mapping.update (trim_space a) ?ob (bc_observed ?c1)\<rparr>))"
      by (rule index_agrees_store [OF index_agrees_prune [OF assms(1)] a [OF False]]) simp_all
    then show ?thesis using False
      by (auto simp: observe_transfer_success_def Let_def elim: index_agrees_cong)
  qed
  have failure: "index_agrees (snd (mark_failure now a c))"
    if a: "trim_space a \<noteq> [] \<Longrightarrow> canonical (trim_space a)" for now a
  proof (cases "trim_space a = []")
    case True
    then show ?thesis using assms(1) by (simp add: mark_failure_def)
  next
    case False
    show ?thesis
      unfolding mark_failure_def apply_failure_locked_def Let_def snd_conv if_not_P [OF False]
      by (rule index_agrees_store [OF index_agrees_prune [OF assms(1)] a [OF False]]) simp_all
  qed
  show ?thesis
  proof (cases op)
    case (OpPrune now force)
    then show ?thesis using index_agrees_prune [OF assms(1)] by simp
  qed (use assms success failure in \<open>auto simp: backend_success_same backend_failure_same mark_success_def
      round_robin_offset_def clone_def Let_def elim: index_agrees_cong\<close>)
qed

lemma index_agrees_run:
  "index_agrees c \<Longrightarrow> \<forall>op \<in> set ops. \<forall>k. op_key op = Some k \<longrightarrow> trim_space k \<noteq> [] \<longrightarrow> canonical (trim_space k) \<Longrightarrow>
   index_agrees (cache_run ops c)"
proof (induction ops arbitrary: c)
  case Nil
  then show ?case by (simp add: cache_run_def)
next
  case (Cons op ops)
  then have "index_agrees (cache_step op c)" by (intro index_agrees_step) auto
  from Cons.IH [OF this] Cons.prems(2) show ?case by (simp add: cache_run_def)
qed

lemma new_cache_index: "index_agrees (new_cache b l)"
  by (simp add: index_agrees_def new_cache_def Let_def)

lemma index_lookup:
  assumes "index_agrees c"
  shows "backend_observation c (trim_space s) (trim_space i) = observed_at c (backend_observation_key s i)"
proof (cases "trim_space s = [] \<or> trim_space i = []")
  case True
  have "Mapping.lookup (bc_observed c) [] = None"
    using assms by (cases "Mapping.lookup (bc_observed c) []") (auto simp: index_agrees_def canonical_def)
  with True show ?thesis
    by (auto simp: backend_observation_def backend_observation_key_def Let_def Mapping.lookup_default_def)
next
  case False
  have key: "backend_observation_key (trim_space s) (trim_space i) = backend_observation_key s i"
    by (simp add: backend_observation_key_def)
  show ?thesis
  proof (cases "Mapping.lookup (bc_backend_observed c) (trim_space s, trim_space i)")
    case None
    with False show ?thesis by (simp add: backend_observation_def key)
  next
    case (Some ob)
    with assms have "Mapping.lookup (bc_observed c) (backend_observation_key s i) = Some ob"
      by (auto simp: index_agrees_def key split: if_splits)
    with False Some show ?thesis by (simp add: backend_observation_def lookup_default_Some)
  qed
qed

subsection \<open>The keys that are canonical\<close>

lemma space_width_guard:
  assumes "space_width sps u = 0" and "b \<notin> \<Union> (set ` set sps)" and "[] \<notin> set sps"
  shows "space_width sps (u @ b # v) = 0"
proof (cases "find (\<lambda>p. take (length p) (u @ b # v) = p) sps")
  case None
  then show ?thesis by (simp add: space_width_def)
next
  case (Some p)
  then have p: "p \<in> set sps" "take (length p) (u @ b # v) = p" by (auto dest: find_SomeD)
  show ?thesis
  proof (cases "length p \<le> length u")
    case True
    with p(2) have "take (length p) u = p" by simp
    with p(1) obtain q where "find (\<lambda>p. take (length p) u = p) sps = Some q" "q \<in> set sps"
      by (metis (mono_tags, lifting) find_None_iff find_SomeD option.exhaust)
    with assms show ?thesis by (auto simp: space_width_def)
  next
    case False
    then obtain n where "length p - length u = Suc n" by (metis Suc_diff_Suc not_le)
    with p(2) have "b \<in> set p" by (metis in_set_conv_decomp take_Suc_Cons take_append)
    with p(1) assms(2) show ?thesis by auto
  qed
qed

lemma trimmed_end:
  assumes "trim_space i = i" and "i \<noteq> []"
  shows "space_width (map rev go_spaces) (rev i) = 0"
proof -
  define u where "u = trim_by (space_width (map rev go_spaces)) (rev (trim_by (space_width go_spaces) i))"
  have "i = rev u" using assms(1) by (simp add: trim_space_def u_def)
  then have "rev i = u" by simp
  moreover have "u = [] \<or> space_width (map rev go_spaces) u = 0" unfolding u_def by (rule trim_by_stops)
  ultimately show ?thesis using assms(2) by auto
qed

lemma backend_key_trimmed:
  assumes "trim_space i = i" and "i \<noteq> []"
  shows "trim_space (''backend|'' @ s @ ''|'' @ i) = ''backend|'' @ s @ ''|'' @ i"
proof -
  let ?K = "''backend|'' @ s @ ''|'' @ i"
  have r: "rev ?K = rev i @ CHR ''|'' # rev (''backend|'' @ s)" by simp
  have "space_width (map rev go_spaces) (rev i @ CHR ''|'' # rev (''backend|'' @ s)) = 0"
    by (rule space_width_guard [OF trimmed_end [OF assms]]) (simp_all add: go_spaces_def)
  then have right: "trim_by (space_width (map rev go_spaces)) (rev ?K) = rev ?K" unfolding r by (intro trim_by_id disjI2)
  have "space_width go_spaces (CHR ''b'' # x) = 0" for x
    by (simp add: space_width_def go_spaces_def)
  then have left: "trim_by (space_width go_spaces) ?K = ?K" by (intro trim_by_id) simp
  show ?thesis unfolding trim_space_def left right rev_rev_ident ..
qed

lemma backend_key_canonical:
  assumes "CHR ''|'' \<notin> set (trim_space scope)" and "trim_space scope \<noteq> []" and "trim_space backend_id \<noteq> []"
  shows "canonical (backend_observation_key scope backend_id)"
    and "parse_index_key (backend_observation_key scope backend_id) = Some (trim_space scope, trim_space backend_id)"
proof -
  define s where "s = trim_space scope"
  define i where "i = trim_space backend_id"
  have K: "backend_observation_key scope backend_id = ''backend|'' @ s @ ''|'' @ i"
    using assms by (simp add: backend_observation_key_def backend_observation_prefix_def s_def i_def Let_def)
  have t: "trim_space (''backend|'' @ s @ ''|'' @ i) = ''backend|'' @ s @ ''|'' @ i"
    using assms by (intro backend_key_trimmed) (simp_all add: i_def)
  have "takeWhile (\<lambda>x. x \<noteq> CHR ''|'') (s @ ''|'' @ i) = s @ takeWhile (\<lambda>x. x \<noteq> CHR ''|'') (''|'' @ i)"
    by (rule takeWhile_append2) (use assms(1) in \<open>auto simp: s_def\<close>)
  then have "index_byte (CHR ''|'') (s @ ''|'' @ i) = int (length s)"
    by (simp add: index_byte_def)
  then show p: "parse_index_key (backend_observation_key scope backend_id) = Some (trim_space scope, trim_space backend_id)"
    using assms unfolding K parse_index_key_def t Let_def
    by (simp add: has_prefix_def backend_observation_prefix_def s_def i_def nat_add_distrib)
  show "canonical (backend_observation_key scope backend_id)"
  proof -
    have "backend_observation_key (trim_space scope) (trim_space backend_id) = backend_observation_key scope backend_id"
      by (simp add: backend_observation_key_def)
    then show ?thesis unfolding canonical_def p option.case prod.case using t by (simp only: K) simp
  qed
qed

text \<open>
  \<open>parseBackendObservationIndexKey\<close> splits a key at its first pipe and trims both parts. So a scope
  may hold a pipe, as that of \<open>RelayPathScope\<close> does, but not beside a space.
\<close>

definition before_pipe :: "string \<Rightarrow> string" where
  "before_pipe s = takeWhile (\<lambda>x. x \<noteq> CHR ''|'') s"

definition after_pipe :: "string \<Rightarrow> string" where
  "after_pipe s = drop (Suc (length (before_pipe s))) s"

definition tidy_scope :: "string \<Rightarrow> bool" where
  "tidy_scope s \<longleftrightarrow> trim_space (before_pipe s) = before_pipe s \<and> trim_space (after_pipe s) = after_pipe s"

definition relay_path_scope :: "string \<Rightarrow> string" where
  "relay_path_scope target = ''relay_path|'' @ trim_space target"

lemma trimmed_start:
  assumes "trim_space v = v" and "v \<noteq> []"
  shows "space_width go_spaces v = 0"
proof -
  define u where "u = trim_by (space_width go_spaces) v"
  obtain p where p: "v = p @ u" using trim_by_suffix [of v "space_width go_spaces"] by (auto simp: u_def)
  have "trim_by (space_width (map rev go_spaces)) (rev u) = rev v"
    using assms(1) unfolding trim_space_def u_def by (metis rev_rev_ident)
  with trim_by_suffix [of "rev u" "space_width (map rev go_spaces)"] obtain q where q: "rev u = q @ rev v" by auto
  have "length u = length q + length v" using q by (metis length_append length_rev)
  with p have "u = v" by simp
  with trim_by_stops [of "space_width go_spaces" v] assms(2) show ?thesis by (simp add: u_def)
qed

lemma trimmed_join:
  assumes "trim_space v = v" and "trim_space i = i" and "i \<noteq> []"
  shows "trim_space (v @ ''|'' @ i) = v @ ''|'' @ i"
proof -
  let ?K = "v @ ''|'' @ i"
  have r: "rev ?K = rev i @ CHR ''|'' # rev v" by simp
  have "space_width (map rev go_spaces) (rev i @ CHR ''|'' # rev v) = 0"
    by (rule space_width_guard [OF trimmed_end [OF assms(2,3)]]) (simp_all add: go_spaces_def)
  then have right: "trim_by (space_width (map rev go_spaces)) (rev ?K) = rev ?K" unfolding r by (intro trim_by_id disjI2)
  have "space_width go_spaces (v @ CHR ''|'' # i) = 0"
  proof (cases "v = []")
    case True
    then show ?thesis by (simp add: space_width_def go_spaces_def)
  next
    case False
    show ?thesis by (rule space_width_guard [OF trimmed_start [OF assms(1) False]]) (simp_all add: go_spaces_def)
  qed
  then have left: "trim_by (space_width go_spaces) ?K = ?K" by (intro trim_by_id) simp
  show ?thesis unfolding trim_space_def left right rev_rev_ident ..
qed

lemma tidy_key_canonical:
  assumes "tidy_scope (trim_space scope)" and "trim_space scope \<noteq> []" and "trim_space backend_id \<noteq> []"
  shows "canonical (backend_observation_key scope backend_id)"
proof (cases "CHR ''|'' \<in> set (trim_space scope)")
  case False
  with assms show ?thesis by (intro backend_key_canonical)
next
  case True
  define i where "i = trim_space backend_id"
  define u where "u = before_pipe (trim_space scope)"
  define v where "v = after_pipe (trim_space scope)"
  obtain y z where yz: "trim_space scope = y @ CHR ''|'' # z" "CHR ''|'' \<notin> set y"
    using split_list_first [OF True] by blast
  have "u = y" unfolding u_def before_pipe_def yz(1) by (subst takeWhile_append2) (use yz(2) in auto)
  then have s: "trim_space scope = u @ CHR ''|'' # v" unfolding v_def after_pipe_def u_def [symmetric] by (simp add: yz(1))
  have uv: "trim_space u = u" "trim_space v = v" using assms(1) by (simp_all add: tidy_scope_def u_def v_def)
  have i: "trim_space i = i" "i \<noteq> []" using assms(3) by (simp_all add: i_def)
  have K: "backend_observation_key scope backend_id = ''backend|'' @ (u @ CHR ''|'' # v) @ ''|'' @ i"
    using assms(2,3) s by (simp add: backend_observation_key_def backend_observation_prefix_def i_def Let_def)
  have t: "trim_space (''backend|'' @ (u @ CHR ''|'' # v) @ ''|'' @ i) = ''backend|'' @ (u @ CHR ''|'' # v) @ ''|'' @ i"
    using i by (rule backend_key_trimmed)
  have vi: "trim_space (v @ ''|'' @ i) = v @ ''|'' @ i" by (rule trimmed_join [OF uv(2) i])
  have no_pipe: "CHR ''|'' \<notin> set u" by (auto simp: u_def before_pipe_def dest: set_takeWhileD)
  then have "takeWhile (\<lambda>x. x \<noteq> CHR ''|'') (u @ CHR ''|'' # v @ ''|'' @ i) = u"
    by (subst takeWhile_append2) auto
  then have "index_byte (CHR ''|'') (u @ CHR ''|'' # v @ ''|'' @ i) = int (length u)"
    by (simp add: index_byte_def)
  then have p: "parse_index_key (backend_observation_key scope backend_id) =
      (if u = [] then None else Some (u, v @ ''|'' @ i))"
    using uv vi unfolding K parse_index_key_def t Let_def
    by (simp add: has_prefix_def backend_observation_prefix_def nat_add_distrib)
  have same: "backend_observation_key u (v @ ''|'' @ i) = backend_observation_key scope backend_id" if "u \<noteq> []"
    using that uv vi unfolding K by (simp add: backend_observation_key_def backend_observation_prefix_def Let_def)
  show ?thesis unfolding canonical_def p using t same by (cases "u = []") (simp_all add: K)
qed

lemma relay_path_tidy: "tidy_scope (trim_space (relay_path_scope target))"
proof -
  let ?t = "trim_space target"
  have name: "trim_space ''relay_path'' = ''relay_path''" "trim_space ''relay_path|'' = ''relay_path|''"
    by (simp_all add: trim_space_def space_width_def go_spaces_def)
  have ends: "trim_space (''relay_path|'' @ ?t) = ''relay_path|'' @ ?t"
  proof (cases "?t = []")
    case False
    with trimmed_join [OF name(1) trim_space_idem, of target] show ?thesis by simp
  qed (simp add: name(2))
  show ?thesis unfolding relay_path_scope_def ends
    by (simp add: tidy_scope_def before_pipe_def after_pipe_def name(1))
qed

text \<open>
  The keys of a history: addresses and other keys without the prefix of backend observations, and
  the keys of \<open>BackendObservationKey\<close> for a tidy scope.
\<close>

definition tidy_key :: "string \<Rightarrow> bool" where
  "tidy_key k \<longleftrightarrow>
     \<not> has_prefix backend_observation_prefix (trim_space k) \<or>
     (\<exists>scope backend_id. k = backend_observation_key scope backend_id \<and> tidy_scope (trim_space scope))"

lemma tidy_keyD:
  assumes "tidy_key k" and "trim_space k \<noteq> []"
  shows "canonical (trim_space k)"
proof (cases "has_prefix backend_observation_prefix (trim_space k)")
  case False
  with assms(2) show ?thesis by (simp add: canonical_def parse_index_key_def Let_def)
next
  case True
  with assms(1) obtain scope backend_id where k: "k = backend_observation_key scope backend_id" "tidy_scope (trim_space scope)"
    by (auto simp: tidy_key_def)
  with assms(2) have "trim_space scope \<noteq> []" "trim_space backend_id \<noteq> []"
    by (auto simp: backend_observation_key_def Let_def split: if_splits)
  from tidy_key_canonical [OF k(2) this] show ?thesis unfolding k(1) by (simp add: canonical_def)
qed

end
