(* ===== verification/BackPick.thy ===== *)
theory BackPick
  imports BackKeep "HOL-Library.Product_Lexorder"
begin

text \<open>
  The orders of \<open>backends_selection.go\<close> against their references: sorting by the key of backoff,
  stability and performance, rotation by an explored candidate, and the turns of round robin.
\<close>

subsection \<open>The sort\<close>

definition preference_rank :: "candidate_preference \<Rightarrow> bool \<times> rat \<times> rat" where
  "preference_rank p = (pf_in_backoff p, - pf_stability p, - pf_performance p)"

lemma compare_by_rank:
  "compare_candidate_order a b \<le> 0 \<longleftrightarrow>
     preference_rank (cr_preference a) \<le> preference_rank (cr_preference b)"
  by (auto simp: compare_candidate_order_def preference_rank_def Let_def less_eq_prod_def)

lemma insert_by_rank:
  "insert_stable compare_candidate_order x xs = insort_key (\<lambda>e. preference_rank (cr_preference e)) x xs"
  by (induction xs) (auto simp: compare_by_rank)

lemma sort_by_rank:
  "sort_stable_func compare_candidate_order xs = sort_key (\<lambda>e. preference_rank (cr_preference e)) xs"
  by (simp add: sort_stable_func_def sort_key_def insert_by_rank [abs_def])

lemma insort_key_map: "map g (insort_key (\<lambda>x. f (g x)) x xs) = insort_key f (g x) (map g xs)"
  by (induction xs) auto

lemma sort_key_map: "sort_key f (map g xs) = map g (sort_key (\<lambda>x. f (g x)) xs)"
  by (induction xs) (simp_all add: insort_key_map)

subsection \<open>The scored candidates\<close>

text \<open>The preference of an address, from the observation that \<open>look\<close> gives for it.\<close>

definition preference_of ::
  "(rat \<Rightarrow> rat) \<Rightarrow> (string \<Rightarrow> candidate_observation) \<Rightarrow> time \<Rightarrow> bool \<Rightarrow> traffic_mix \<Rightarrow> upstream_candidate \<Rightarrow>
   candidate_preference" where
  "preference_of l1p look now allow mix cand =
     preference l1p (fst (snapshot_from_observation (look (trim_space (uc_address cand))) now)) now allow mix"

lemma collect_snapshots_fst:
  "fst (collect_snapshots look cands now allow) =
     map (\<lambda>cand. fst (snapshot_from_observation (look (trim_space (uc_address cand))) now)) cands"
proof -
  have "fst (fold (\<lambda>cand (snaps, shared).
             let (s, mix) = snapshot_from_observation (look (trim_space (uc_address cand))) now
             in (snaps @ [s], add_mix allow shared mix)) cands acc) =
        fst acc @ map (\<lambda>cand. fst (snapshot_from_observation (look (trim_space (uc_address cand))) now)) cands" for acc
    by (induction cands arbitrary: acc) (auto simp: split_beta Let_def)
  then show ?thesis by (simp add: collect_snapshots_def)
qed

lemma map_zip_map: "map (\<lambda>(x, y). f x y) (zip xs (map h xs)) = map (\<lambda>x. f x (h x)) xs"
  by (induction xs) auto

lemma scored_candidates:
  "candidate_order_from_snapshots l1p cands (fst (collect_snapshots look cands now allow)) now allow mix =
     (let os = map (\<lambda>cand. \<lparr>cr_candidate = cand, cr_preference = preference_of l1p look now allow mix cand\<rparr>) cands in
      (os, list_ex (\<lambda>x. pf_state (cr_preference x) = observation_state_cold) os,
       list_ex (\<lambda>x. pf_state (cr_preference x) = observation_state_recovering) os))"
  by (simp only: candidate_order_from_snapshots_def collect_snapshots_fst map_zip_map preference_of_def Let_def)

text \<open>
  The reference order: the stable sort by rank, turned so that the first explored candidate
  comes first when the draw falls below the budget.
\<close>

definition ranked :: "(upstream_candidate \<Rightarrow> candidate_preference) \<Rightarrow> upstream_candidate list \<Rightarrow> upstream_candidate list" where
  "ranked pf cands = sort_key (\<lambda>cand. preference_rank (pf cand)) cands"

definition exploration_budget :: "(upstream_candidate \<Rightarrow> candidate_preference) \<Rightarrow> upstream_candidate list \<Rightarrow> int" where
  "exploration_budget pf cands =
     (let cold = list_ex (\<lambda>cand. pf_state (pf cand) = observation_state_cold) cands;
          recovering = list_ex (\<lambda>cand. pf_state (pf cand) = observation_state_recovering) cands
      in (if cold then 10 else 0) + (if recovering then 15 else 0) - (if cold \<and> recovering then 5 else 0))"

definition explored :: "(upstream_candidate \<Rightarrow> candidate_preference) \<Rightarrow> upstream_candidate list \<Rightarrow> upstream_candidate \<Rightarrow> bool" where
  "explored pf cands cand \<longleftrightarrow> \<not> pf_in_backoff (pf cand)
     \<and> pf_state (pf cand) = (if list_ex (\<lambda>cand. pf_state (pf cand) = observation_state_recovering) cands
                              then observation_state_recovering else observation_state_cold)"

definition explore_reference ::
  "(nat \<Rightarrow> int) \<Rightarrow> (upstream_candidate \<Rightarrow> candidate_preference) \<Rightarrow> upstream_candidate list \<Rightarrow> upstream_candidate list" where
  "explore_reference draw pf cands =
     (let r = ranked pf cands in
      if draw 100 < exploration_budget pf cands \<and> list_ex (explored pf cands) cands
      then dropWhile (\<lambda>cand. \<not> explored pf cands cand) r @ takeWhile (\<lambda>cand. \<not> explored pf cands cand) r
      else r)"

lemma first_rotation_reference:
  assumes "state = map (\<lambda>cand. \<lparr>cr_candidate = cand, cr_preference = pf cand\<rparr>) xs"
    and "\<And>cand. P cand \<longleftrightarrow> \<not> pf_in_backoff (pf cand) \<and> pf_state (pf cand) = target"
  shows "first_rotation xs 0 state target =
           (if list_ex P xs then dropWhile (\<lambda>cand. \<not> P cand) xs @ takeWhile (\<lambda>cand. \<not> P cand) xs else xs)"
proof (rule first_rotation_cases [of 0 state xs target])
  show "0 + length state \<le> length xs" using assms(1) by simp
next
  assume kept: "first_rotation xs 0 state target = xs"
    "\<And>e. e \<in> set state \<Longrightarrow> pf_in_backoff (cr_preference e) \<or> pf_state (cr_preference e) \<noteq> target"
  then have "\<not> list_ex P xs" using assms by (force simp: list_ex_iff)
  with kept show ?thesis by simp
next
  fix k
  assume k: "k < length state" "\<not> pf_in_backoff (cr_preference (state ! k))"
    "pf_state (cr_preference (state ! k)) = target"
    "\<And>j. j < k \<Longrightarrow> pf_in_backoff (cr_preference (state ! j)) \<or> pf_state (cr_preference (state ! j)) \<noteq> target"
    "first_rotation xs 0 state target = drop (0 + k) xs @ take (0 + k) xs"
  have len: "k < length xs" using k(1) assms(1) by simp
  have at_k: "P (xs ! k)" using k(2,3) len assms by simp
  have before: "\<not> P (xs ! j)" if "j < k" for j using k(4) [OF that] that len assms by simp
  have "takeWhile (\<lambda>cand. \<not> P cand) xs = take k xs"
    by (rule takeWhile_eq_take_P_nth) (use before at_k len in auto)
  moreover from this have "dropWhile (\<lambda>cand. \<not> P cand) xs = drop k xs"
    by (metis append_take_drop_id same_append_eq takeWhile_dropWhile_id)
  moreover have "list_ex P xs" using at_k len by (auto simp: list_ex_iff)
  ultimately show ?thesis using k(5) by simp
qed

lemma explore_order_reference:
  "explore_order draw (candidate_order_from_snapshots l1p cands (fst (collect_snapshots look cands now allow)) now allow mix) =
     explore_reference draw (preference_of l1p look now allow mix) cands"
proof -
  let ?pf = "preference_of l1p look now allow mix"
  let ?mk = "\<lambda>cand. \<lparr>cr_candidate = cand, cr_preference = ?pf cand\<rparr>"
  have sorted: "sort_stable_func compare_candidate_order (map ?mk cands) = map ?mk (ranked ?pf cands)"
    by (simp add: sort_by_rank sort_key_map ranked_def)
  have cands: "map cr_candidate (map ?mk xs) = xs" for xs by (induction xs) auto
  let ?rec = "list_ex (\<lambda>cand. pf_state (?pf cand) = observation_state_recovering) cands"
  let ?cold = "list_ex (\<lambda>cand. pf_state (?pf cand) = observation_state_cold) cands"
  define target where "target = (if ?rec then observation_state_recovering else observation_state_cold)"
  have ex: "list_ex (\<lambda>x. Q (cr_preference x)) (map ?mk cands) = list_ex (\<lambda>cand. Q (?pf cand)) cands" for Q
    by (induction cands) auto
  have rot: "first_rotation (ranked ?pf cands) 0 (map ?mk (ranked ?pf cands)) target =
      (if list_ex (explored ?pf cands) (ranked ?pf cands)
       then dropWhile (\<lambda>cand. \<not> explored ?pf cands cand) (ranked ?pf cands)
            @ takeWhile (\<lambda>cand. \<not> explored ?pf cands cand) (ranked ?pf cands) else ranked ?pf cands)"
    by (rule first_rotation_reference [OF refl]) (simp add: explored_def target_def)
  have same: "list_ex (explored ?pf cands) (ranked ?pf cands) = list_ex (explored ?pf cands) cands"
    by (simp add: list_ex_iff ranked_def)
  have some: "?rec \<or> ?cold" if "list_ex (explored ?pf cands) cands"
    using that by (auto simp: list_ex_iff explored_def split: if_splits)
  have budget: "choose_exploration_budget ?rec ?cold = exploration_budget ?pf cands"
    by (simp add: choose_exploration_budget_def exploration_budget_def Let_def)
  have "explore_order draw (candidate_order_from_snapshots l1p cands (fst (collect_snapshots look cands now allow)) now allow mix)
      = maybe_promote draw (ranked ?pf cands) (map ?mk (ranked ?pf cands)) ?cold ?rec"
    unfolding explore_order_def scored_candidates Let_def prod.case sorted cands
    by (simp only: ex [of "\<lambda>p. pf_state p = observation_state_cold"]
        ex [of "\<lambda>p. pf_state p = observation_state_recovering"])
  also have "\<dots> = explore_reference draw ?pf cands"
  proof (cases "exploration_budget ?pf cands = 0")
    case True
    then have "\<not> list_ex (explored ?pf cands) cands"
      using some by (auto simp: exploration_budget_def Let_def split: if_splits)
    with True show ?thesis by (simp add: maybe_promote_def budget explore_reference_def)
  next
    case False
    then show ?thesis
      using rot same by (auto simp: maybe_promote_def budget explore_reference_def target_def Let_def)
  qed
  finally show ?thesis .
qed

lemma ranked_mset [simp]: "mset (ranked pf cands) = mset cands"
  by (simp add: ranked_def)

lemma explore_reference_mset [simp]: "mset (explore_reference draw pf cands) = mset cands"
proof -
  have "mset (dropWhile Q r @ takeWhile Q r) = mset r" for Q and r :: "upstream_candidate list"
    by (metis mset_append takeWhile_dropWhile_id union_commute)
  then show ?thesis by (simp add: explore_reference_def Let_def del: mset_append)
qed

lemma prefer_resolved_reference:
  assumes "1 < length cands"
  obtains mix where "prefer_resolved_candidates l1p draw now cands allow c =
     explore_reference draw (preference_of l1p (observed_at c) now allow mix) cands"
proof
  let ?s = "resolved_snapshots cands now allow c"
  have "prefer_resolved_candidates l1p draw now cands allow c =
          explore_order draw (candidate_order_from_snapshots l1p cands (fst ?s) now allow (snd ?s))"
    using assms by (simp add: prefer_resolved_candidates_def split_beta)
  also have "\<dots> = explore_reference draw (preference_of l1p (observed_at c) now allow (snd ?s)) cands"
    unfolding resolved_snapshots_def by (rule explore_order_reference)
  finally show "prefer_resolved_candidates l1p draw now cands allow c =
     explore_reference draw (preference_of l1p (observed_at c) now allow (snd ?s)) cands" .
qed

subsection \<open>Blocked candidates\<close>

lemma preference_of_backoff [simp]:
  "pf_in_backoff (preference_of l1p look now allow mix cand) = observed_in_backoff now (look (trim_space (uc_address cand)))"
  by (simp add: preference_of_def)

lemma ranked_blocked_last:
  assumes "i < j" and "j < length cands" and "pf_in_backoff (pf (ranked pf cands ! i))"
  shows "pf_in_backoff (pf (ranked pf cands ! j))"
proof -
  have "sorted (map (\<lambda>cand. preference_rank (pf cand)) (ranked pf cands))" by (simp add: ranked_def)
  moreover have "length (ranked pf cands) = length cands" by (simp add: ranked_def)
  ultimately have "preference_rank (pf (ranked pf cands ! i)) \<le> preference_rank (pf (ranked pf cands ! j))"
    using assms by (auto simp: sorted_iff_nth_mono)
  with assms(3) show ?thesis by (auto simp: preference_rank_def less_eq_prod_def)
qed

lemma budget_bounded: "exploration_budget pf cands \<le> 20"
  by (simp add: exploration_budget_def Let_def)

subsection \<open>Round robin\<close>

text \<open>The answers of consecutive requests to one scope.\<close>

fun rr_answers ::
  "nat \<Rightarrow> (rat \<Rightarrow> rat) \<Rightarrow> (nat \<Rightarrow> int) \<Rightarrow> time \<Rightarrow> string \<Rightarrow> string \<Rightarrow> upstream_candidate list \<Rightarrow> bool \<Rightarrow>
   backend_cache \<Rightarrow> upstream_candidate list list" where
  "rr_answers 0 l1p draw now scope strategy cands allow c = []"
| "rr_answers (Suc k) l1p draw now scope strategy cands allow c =
     (let (answer, c1) = order_candidates l1p draw now scope strategy cands allow c
      in answer # rr_answers k l1p draw now scope strategy cands allow c1)"

lemma order_round_robin:
  assumes "normalize_strategy strategy = strategy_round_robin" and "1 < length cands"
    and v: "Mapping.lookup_default 0 (bc_round_robin c) (trim_space scope) = v" "0 \<le> v"
  shows "fst (order_candidates l1p draw now scope strategy cands allow c) = rotate (nat v) cands"
    and "Mapping.lookup_default 0 (bc_round_robin (snd (order_candidates l1p draw now scope strategy cands allow c)))
           (trim_space scope) = v mod int (length cands) + 1"
  using assms
  by (simp_all add: order_candidates_def round_robin_offset_def Let_def rotate_drop_take nat_mod_distrib
      Mapping.lookup_default_update)

lemma rr_answers_rotate:
  assumes "normalize_strategy strategy = strategy_round_robin" and "1 < length cands"
  shows "Mapping.lookup_default 0 (bc_round_robin c) (trim_space scope) = v \<Longrightarrow> 0 \<le> v \<Longrightarrow>
         rr_answers k l1p draw now scope strategy cands allow c = map (\<lambda>i. rotate (nat v + i) cands) [0..<k]"
proof (induction k arbitrary: c v)
  case 0
  then show ?case by simp
next
  case (Suc k)
  note step = order_round_robin [OF assms Suc.prems, of l1p draw now allow]
  let ?v = "v mod int (length cands) + 1"
  have pos: "0 \<le> v mod int (length cands)"
  proof -
    have "0 < int (length cands)" using assms(2) by linarith
    then show ?thesis by (rule pos_mod_sign)
  qed
  then have "0 \<le> ?v" by simp
  have nat: "nat ?v = nat v mod length cands + 1"
    using Suc.prems(2) pos by (simp add: nat_add_distrib nat_mod_distrib)
  have "rotate (nat ?v + i) cands = rotate (nat v + Suc i) cands" for i
    unfolding nat by (metis (no_types, lifting) add.assoc add.commute mod_add_left_eq plus_1_eq_Suc rotate_conv_mod)
  then have "map (\<lambda>i. rotate (nat ?v + i) cands) [0..<k] = map (\<lambda>i. rotate (nat v + i) cands) [Suc 0..<Suc k]"
    by (simp add: map_Suc_upt [symmetric] del: upt_Suc)
  with Suc.IH [OF step(2) \<open>0 \<le> ?v\<close>] step(1) Suc.prems(2) show ?case
    by (simp add: split_beta Let_def upt_conv_Cons del: upt_Suc)
qed

end
