(* ===== verification/BackDns.thy ===== *)
theory BackDns
  imports BackKeep
begin

text \<open>
  \<open>go-agent/internal/model/backends_dns.go\<close> and \<open>Resolve\<close>: host names are looked up once for all
  requests that ask at the same time, answers are kept for 30 seconds and used for two more
  minutes when a fresh lookup fails. Callers, the resolver and the clock interleave freely; a
  step is one critical section of the cache's mutex or one action between two of them.
\<close>

subsection \<open>One answer of the resolver\<close>

text \<open>
  An error of the resolver may wrap one of the errors of a context. An address of the answer
  without an IP is \<open>None\<close>.
\<close>

datatype lookup_error =
  ContextCanceled
| ContextDeadline
| ResolverError string bool
| NoIPs string
| NoValidIPs string

fun is_context_error :: "lookup_error \<Rightarrow> bool" where
  "is_context_error ContextCanceled = True"
| "is_context_error ContextDeadline = True"
| "is_context_error (ResolverError text wraps) = wraps"
| "is_context_error _ = False"

type_synonym lookup_result = "lookup_error + string list"

fun dedup_ips :: "string list \<Rightarrow> string option list \<Rightarrow> string list \<Rightarrow> string list" where
  "dedup_ips seen [] ips = ips"
| "dedup_ips seen (None # rest) ips = dedup_ips seen rest ips"
| "dedup_ips seen (Some ip # rest) ips =
     (if ip \<in> set seen then dedup_ips seen rest ips else dedup_ips (ip # seen) rest (ips @ [ip]))"

text \<open>\<open>resolveHost\<close> after the resolver returned, with the state of the context then.\<close>

definition resolve_host :: "lookup_error option \<Rightarrow> lookup_error + string option list \<Rightarrow> string \<Rightarrow> lookup_result" where
  "resolve_host ctx_err answer host =
     (case ctx_err of Some e \<Rightarrow> Inl e
      | None \<Rightarrow> (case answer of Inl e \<Rightarrow> Inl e
                 | Inr resolved \<Rightarrow>
                     if resolved = [] then Inl (NoIPs host)
                     else let ips = dedup_ips [] resolved [] in
                       if ips = [] then Inl (NoValidIPs host) else Inr ips))"

subsection \<open>State\<close>

text \<open>
  \<open>dnsLookup\<close>: the result is published by closing \<open>done\<close>. A caller is at one point of the loop of
  \<open>lookupHost\<close>; \<open>Resolving\<close>, \<open>Resolved\<close> and \<open>Storing\<close> are the caller that performs the lookup.
\<close>

record dns_lookup =
  dl_host :: string
  dl_result :: "lookup_result option"

datatype lookup_phase =
  Entering
| Checked
| Looking time
| Waiting nat
| Resolving nat
| Resolved nat lookup_result
| Storing nat lookup_result time
| Returned lookup_result

record dns_caller =
  dc_host :: string
  dc_ctx :: "lookup_error option"
  dc_phase :: lookup_phase
  dc_since :: time

text \<open>
  The last two fields are for the proofs: what the resolver answered and when the caller that
  asked had it, and what the cache published, when, and on which reading of the clock.
\<close>

record dns_world =
  dw_cache :: backend_cache
  dw_lookups :: "dns_lookup list"
  dw_callers :: "dns_caller list"
  dw_clock :: time
  dw_answers :: "(string \<times> time \<times> string list) list"
  dw_published :: "(string \<times> time \<times> time \<times> string list) list"

datatype dns_event =
  Tick int
| Call string
| ContextEnds nat lookup_error
| CheckContext nat
| ReadClock nat
| LockCache nat
| WakeWaiter nat
| Answer nat "lookup_error + string option list"
| ReadClockAgain nat
| StoreAnswer nat
| OtherOp cache_op

abbreviation set_caller :: "nat \<Rightarrow> lookup_phase \<Rightarrow> dns_world \<Rightarrow> dns_world" where
  "set_caller i p w \<equiv> w\<lparr>dw_callers := (dw_callers w)[i := (dw_callers w ! i)\<lparr>dc_phase := p\<rparr>]\<rparr>"

subsection \<open>The steps of lookupHost\<close>

definition dns_ttl :: int where
  "dns_ttl = 30 * second"

definition dns_stale_ttl :: int where
  "dns_stale_ttl = 2 * minute"

definition check_context :: "nat \<Rightarrow> dns_world \<Rightarrow> dns_world" where
  "check_context i w =
     (case dc_ctx (dw_callers w ! i) of Some e \<Rightarrow> set_caller i (Returned (Inl e)) w
      | None \<Rightarrow> set_caller i Checked w)"

text \<open>A fresh answer is returned, a lookup in flight is joined, or a new one is begun.\<close>

definition lock_cache :: "nat \<Rightarrow> time \<Rightarrow> dns_world \<Rightarrow> dns_world" where
  "lock_cache i now w =
     (let host = dc_host (dw_callers w ! i); c = dw_cache w;
          fresh = (case Mapping.lookup (bc_dns_cache c) host of
                     Some e \<Rightarrow> if now < de_expires_at e then Some (de_ips e) else None
                   | None \<Rightarrow> None) in
      case fresh of
        Some ips \<Rightarrow> (set_caller i (Returned (Inr ips)) w)
                      \<lparr>dw_published := dw_published w @ [(host, now, dw_clock w, ips)]\<rparr>
      | None \<Rightarrow>
          (case Mapping.lookup (bc_dns_lookups c) host of
             Some p \<Rightarrow> set_caller i (Waiting p) w
           | None \<Rightarrow>
               let p = length (dw_lookups w) in
               (set_caller i (Resolving p) w)
                 \<lparr>dw_lookups := dw_lookups w @ [\<lparr>dl_host = host, dl_result = None\<rparr>],
                  dw_cache := c\<lparr>bc_dns_lookups := Mapping.update host p (bc_dns_lookups c)\<rparr>\<rparr>))"

text \<open>A waiter whose context ended returns its error, even when the result is there.\<close>

definition wake_waiter :: "nat \<Rightarrow> nat \<Rightarrow> dns_world \<Rightarrow> dns_world" where
  "wake_waiter i p w =
     (case dc_ctx (dw_callers w ! i) of
        Some e \<Rightarrow> set_caller i (Returned (Inl e)) w
      | None \<Rightarrow>
          (case dl_result (dw_lookups w ! p) of
             None \<Rightarrow> w
           | Some (Inl e) \<Rightarrow> if is_context_error e then set_caller i Entering w else set_caller i (Returned (Inl e)) w
           | Some (Inr ips) \<Rightarrow> set_caller i (Returned (Inr ips)) w))"

definition answer_lookup :: "nat \<Rightarrow> nat \<Rightarrow> lookup_error + string option list \<Rightarrow> dns_world \<Rightarrow> dns_world" where
  "answer_lookup i p answer w =
     (let host = dc_host (dw_callers w ! i);
          r = resolve_host (dc_ctx (dw_callers w ! i)) answer host in
      set_caller i (Resolved p r) w)"

definition store_entry :: "string \<Rightarrow> string list \<Rightarrow> time \<Rightarrow> backend_cache \<Rightarrow> backend_cache" where
  "store_entry host ips now c =
     c\<lparr>bc_dns_cache := Mapping.update host
         \<lparr>de_ips = ips, de_expires_at = now + dns_ttl, de_stale_until = now + (dns_ttl + dns_stale_ttl)\<rparr>
         (bc_dns_cache c)\<rparr>"

text \<open>The stale answer that stands in for a failed lookup, if there is one.\<close>

definition stale_answer :: "string \<Rightarrow> lookup_error option \<Rightarrow> lookup_error \<Rightarrow> time \<Rightarrow> backend_cache \<Rightarrow> lookup_result" where
  "stale_answer host ctx_err err now c =
     (if ctx_err = None
      then (case Mapping.lookup (bc_dns_cache c) host of
              Some e \<Rightarrow> if de_ips e \<noteq> [] \<and> now < dns_retain_until e then Inr (de_ips e) else Inl err
            | None \<Rightarrow> Inl err)
      else Inl err)"

definition store_answer :: "nat \<Rightarrow> nat \<Rightarrow> lookup_result \<Rightarrow> time \<Rightarrow> dns_world \<Rightarrow> dns_world" where
  "store_answer i p res now w =
     (let host = dc_host (dw_callers w ! i);
          c1 = (case res of Inr ips \<Rightarrow> store_entry host ips now (dw_cache w) | Inl err \<Rightarrow> dw_cache w);
          out = (case res of Inr ips \<Rightarrow> Inr ips
                 | Inl err \<Rightarrow> stale_answer host (dc_ctx (dw_callers w ! i)) err now (dw_cache w));
          c2 = c1\<lparr>bc_dns_lookups := Mapping.delete host (bc_dns_lookups c1)\<rparr>
      in (set_caller i (Returned out) w)
           \<lparr>dw_cache := c2,
            dw_lookups := (dw_lookups w)[p := (dw_lookups w ! p)\<lparr>dl_result := Some out\<rparr>],
            dw_published := dw_published w @ (case out of Inr ips \<Rightarrow> [(host, now, dw_clock w, ips)] | Inl e \<Rightarrow> [])\<rparr>)"

text \<open>An event that is not enabled leaves the world as it is.\<close>

fun dns_step :: "dns_event \<Rightarrow> dns_world \<Rightarrow> dns_world" where
  "dns_step (Tick d) w = (if 0 \<le> d then w\<lparr>dw_clock := dw_clock w + d\<rparr> else w)"
| "dns_step (Call host) w =
     w\<lparr>dw_callers := dw_callers w @ [\<lparr>dc_host = host, dc_ctx = None, dc_phase = Entering, dc_since = dw_clock w\<rparr>]\<rparr>"
| "dns_step (ContextEnds i e) w =
     (if i < length (dw_callers w) \<and> (e = ContextCanceled \<or> e = ContextDeadline) \<and> dc_ctx (dw_callers w ! i) = None
      then w\<lparr>dw_callers := (dw_callers w)[i := (dw_callers w ! i)\<lparr>dc_ctx := Some e\<rparr>]\<rparr> else w)"
| "dns_step (CheckContext i) w =
     (if i < length (dw_callers w) \<and> dc_phase (dw_callers w ! i) = Entering then check_context i w else w)"
| "dns_step (ReadClock i) w =
     (if i < length (dw_callers w) \<and> dc_phase (dw_callers w ! i) = Checked
      then set_caller i (Looking (dw_clock w)) w else w)"
| "dns_step (LockCache i) w =
     (if i < length (dw_callers w)
      then (case dc_phase (dw_callers w ! i) of Looking now \<Rightarrow> lock_cache i now w | _ \<Rightarrow> w) else w)"
| "dns_step (WakeWaiter i) w =
     (if i < length (dw_callers w)
      then (case dc_phase (dw_callers w ! i) of Waiting p \<Rightarrow> wake_waiter i p w | _ \<Rightarrow> w) else w)"
| "dns_step (Answer i answer) w =
     (if i < length (dw_callers w)
      then (case dc_phase (dw_callers w ! i) of Resolving p \<Rightarrow> answer_lookup i p answer w | _ \<Rightarrow> w) else w)"
| "dns_step (ReadClockAgain i) w =
     (if i < length (dw_callers w)
      then (case dc_phase (dw_callers w ! i) of
              Resolved p r \<Rightarrow> (set_caller i (Storing p r (dw_clock w)) w)
                \<lparr>dw_answers := dw_answers w @
                   (case r of Inr ips \<Rightarrow> [(dc_host (dw_callers w ! i), dw_clock w, ips)] | Inl e \<Rightarrow> [])\<rparr>
            | _ \<Rightarrow> w) else w)"
| "dns_step (StoreAnswer i) w =
     (if i < length (dw_callers w)
      then (case dc_phase (dw_callers w ! i) of Storing p r now \<Rightarrow> store_answer i p r now w | _ \<Rightarrow> w) else w)"
| "dns_step (OtherOp op) w = (if op = OpClone then w else w\<lparr>dw_cache := cache_step op (dw_cache w)\<rparr>)"

definition dns_run :: "dns_event list \<Rightarrow> dns_world \<Rightarrow> dns_world" where
  "dns_run es w = fold dns_step es w"

definition new_dns_world :: "int \<Rightarrow> int \<Rightarrow> time \<Rightarrow> dns_world" where
  "new_dns_world base limit t = \<lparr>dw_cache = new_cache base limit, dw_lookups = [], dw_callers = [],
     dw_clock = t, dw_answers = [], dw_published = []\<rparr>"

subsection \<open>One lookup at a time\<close>

fun flight_of :: "lookup_phase \<Rightarrow> nat option" where
  "flight_of (Resolving p) = Some p"
| "flight_of (Resolved p r) = Some p"
| "flight_of (Storing p r now) = Some p"
| "flight_of _ = None"

fun waits_for :: "lookup_phase \<Rightarrow> nat option" where
  "waits_for (Waiting p) = Some p"
| "waits_for _ = None"

abbreviation flight :: "dns_world \<Rightarrow> nat \<Rightarrow> nat option" where
  "flight w i \<equiv> flight_of (dc_phase (dw_callers w ! i))"

abbreviation in_flight :: "dns_world \<Rightarrow> nat \<Rightarrow> nat \<Rightarrow> bool" where
  "in_flight w i p \<equiv> i < length (dw_callers w) \<and> flight w i = Some p"

text \<open>
  The registered lookups are exactly those that one caller performs; a waiter's lookup is done
  or still performed.
\<close>

definition flights_ok :: "dns_world \<Rightarrow> bool" where
  "flights_ok w \<longleftrightarrow>
     (\<forall>i p. in_flight w i p \<longrightarrow> p < length (dw_lookups w)
        \<and> dl_host (dw_lookups w ! p) = dc_host (dw_callers w ! i) \<and> dl_result (dw_lookups w ! p) = None
        \<and> Mapping.lookup (bc_dns_lookups (dw_cache w)) (dc_host (dw_callers w ! i)) = Some p)
     \<and> (\<forall>h p. Mapping.lookup (bc_dns_lookups (dw_cache w)) h = Some p \<longrightarrow>
          (\<exists>i. in_flight w i p \<and> dc_host (dw_callers w ! i) = h))
     \<and> (\<forall>i j p. in_flight w i p \<longrightarrow> in_flight w j p \<longrightarrow> i = j)
     \<and> (\<forall>i p. i < length (dw_callers w) \<longrightarrow> waits_for (dc_phase (dw_callers w ! i)) = Some p \<longrightarrow>
          p < length (dw_lookups w) \<and> dl_host (dw_lookups w ! p) = dc_host (dw_callers w ! i)
          \<and> (dl_result (dw_lookups w ! p) \<noteq> None \<or> (\<exists>j. in_flight w j p)))"

lemma flights_okD:
  assumes "flights_ok w"
  shows "in_flight w i p \<Longrightarrow> p < length (dw_lookups w)"
    and "in_flight w i p \<Longrightarrow> dl_host (dw_lookups w ! p) = dc_host (dw_callers w ! i)"
    and "in_flight w i p \<Longrightarrow> dl_result (dw_lookups w ! p) = None"
    and "in_flight w i p \<Longrightarrow> Mapping.lookup (bc_dns_lookups (dw_cache w)) (dc_host (dw_callers w ! i)) = Some p"
    and "Mapping.lookup (bc_dns_lookups (dw_cache w)) h = Some p \<Longrightarrow> \<exists>i. in_flight w i p \<and> dc_host (dw_callers w ! i) = h"
    and "in_flight w i p \<Longrightarrow> in_flight w j p \<Longrightarrow> i = j"
    and "i < length (dw_callers w) \<Longrightarrow> waits_for (dc_phase (dw_callers w ! i)) = Some p \<Longrightarrow> p < length (dw_lookups w)"
    and "i < length (dw_callers w) \<Longrightarrow> waits_for (dc_phase (dw_callers w ! i)) = Some p \<Longrightarrow>
           dl_host (dw_lookups w ! p) = dc_host (dw_callers w ! i)"
    and "i < length (dw_callers w) \<Longrightarrow> waits_for (dc_phase (dw_callers w ! i)) = Some p \<Longrightarrow>
           dl_result (dw_lookups w ! p) = None \<Longrightarrow> \<exists>j. in_flight w j p"
  using assms unfolding flights_ok_def by blast+

text \<open>A caller that keeps its flight, or has none and waits for nothing new, changes nothing.\<close>

lemma flights_ok_move:
  assumes ok: "flights_ok w" and i: "i < length (dw_callers w)"
    and c: "dc_host c = dc_host (dw_callers w ! i)" "flight_of (dc_phase c) = flight w i"
    and wait: "\<And>p. waits_for (dc_phase c) = Some p \<Longrightarrow>
       waits_for (dc_phase (dw_callers w ! i)) = Some p
       \<or> Mapping.lookup (bc_dns_lookups (dw_cache w)) (dc_host c) = Some p"
    and w': "dw_callers w' = (dw_callers w)[i := c]" "dw_lookups w' = dw_lookups w"
      "bc_dns_lookups (dw_cache w') = bc_dns_lookups (dw_cache w)"
  shows "flights_ok w'"
proof -
  have host: "dc_host (dw_callers w' ! j) = dc_host (dw_callers w ! j)" for j
    using i c by (cases "i = j") (simp_all add: w')
  have fl: "flight w' j = flight w j" for j
    using i c by (cases "i = j") (simp_all add: w')
  have len: "length (dw_callers w') = length (dw_callers w)" by (simp add: w')
  have "p < length (dw_lookups w) \<and> dl_host (dw_lookups w ! p) = dc_host (dw_callers w ! j)
          \<and> (dl_result (dw_lookups w ! p) \<noteq> None \<or> (\<exists>k. in_flight w k p))"
    if "j < length (dw_callers w)" "waits_for (dc_phase (dw_callers w' ! j)) = Some p" for j p
  proof (cases "waits_for (dc_phase (dw_callers w ! j)) = Some p")
    case True
    then show ?thesis using flights_okD(7,8,9) [OF ok that(1)] by blast
  next
    case False
    with that wait [of p] i c have "Mapping.lookup (bc_dns_lookups (dw_cache w)) (dc_host (dw_callers w ! j)) = Some p"
      by (cases "i = j") (auto simp: w')
    then obtain k where "in_flight w k p" "dc_host (dw_callers w ! k) = dc_host (dw_callers w ! j)"
      using flights_okD(5) [OF ok] by blast
    then show ?thesis using flights_okD(1,2) [OF ok, of k p] by auto
  qed
  then show ?thesis
    using ok unfolding flights_ok_def host fl len w'(2,3) by blast
qed

lemma flights_ok_begin:
  assumes ok: "flights_ok w" and i: "i < length (dw_callers w)" and none: "flight w i = None"
    and free: "Mapping.lookup (bc_dns_lookups (dw_cache w)) (dc_host (dw_callers w ! i)) = None"
    and w': "dw_callers w' = (dw_callers w)[i := (dw_callers w ! i)\<lparr>dc_phase := Resolving (length (dw_lookups w))\<rparr>]"
      "dw_lookups w' = dw_lookups w @ [\<lparr>dl_host = dc_host (dw_callers w ! i), dl_result = None\<rparr>]"
      "bc_dns_lookups (dw_cache w') =
         Mapping.update (dc_host (dw_callers w ! i)) (length (dw_lookups w)) (bc_dns_lookups (dw_cache w))"
  shows "flights_ok w'"
proof -
  let ?n = "length (dw_lookups w)"
  have host: "dc_host (dw_callers w' ! j) = dc_host (dw_callers w ! j)" for j
    using i by (cases "i = j") (simp_all add: w')
  have len: "length (dw_callers w') = length (dw_callers w)" by (simp add: w')
  have fl: "in_flight w' j p \<longleftrightarrow> (if j = i then p = ?n else in_flight w j p)" for j p
    using i by (auto simp: w')
  have old: "p < ?n \<and> dl_host (dw_lookups w ! p) = dc_host (dw_callers w ! j) \<and> dl_result (dw_lookups w ! p) = None
     \<and> dc_host (dw_callers w ! j) \<noteq> dc_host (dw_callers w ! i) \<and> j \<noteq> i
     \<and> Mapping.lookup (bc_dns_lookups (dw_cache w)) (dc_host (dw_callers w ! j)) = Some p"
    if "in_flight w j p" for j p
    using flights_okD(1-4) [OF ok that] free none that by auto
  have waits: "waits_for (dc_phase (dw_callers w' ! j)) = Some p \<Longrightarrow> j \<noteq> i \<and> waits_for (dc_phase (dw_callers w ! j)) = Some p" for j p
    using i by (cases "j = i") (auto simp: w')
  show ?thesis
    unfolding flights_ok_def
  proof (intro conjI allI impI)
    fix j p
    assume j: "in_flight w' j p"
    have new: "p < length (dw_lookups w') \<and> dl_host (dw_lookups w' ! p) = dc_host (dw_callers w' ! j)
      \<and> dl_result (dw_lookups w' ! p) = None
      \<and> Mapping.lookup (bc_dns_lookups (dw_cache w')) (dc_host (dw_callers w' ! j)) = Some p"
    proof (cases "j = i")
      case True
      then have "p = ?n" using j fl [of j p] by simp
      then show ?thesis unfolding host True w'(2,3) by simp
    next
      case False
      then have "in_flight w j p" using j fl [of j p] by simp
      from old [OF this] show ?thesis unfolding host w'(2,3) by (auto simp: nth_append Mapping.lookup_update')
    qed
    from new show "p < length (dw_lookups w')" by blast
    from new show "dl_host (dw_lookups w' ! p) = dc_host (dw_callers w' ! j)" by blast
    from new show "dl_result (dw_lookups w' ! p) = None" by blast
    from new show "Mapping.lookup (bc_dns_lookups (dw_cache w')) (dc_host (dw_callers w' ! j)) = Some p" by blast
  next
    fix h p
    assume p: "Mapping.lookup (bc_dns_lookups (dw_cache w')) h = Some p"
    show "\<exists>j. in_flight w' j p \<and> dc_host (dw_callers w' ! j) = h"
    proof (cases "h = dc_host (dw_callers w ! i)")
      case True
      with p have "p = ?n" by (simp add: w'(3))
      then have "in_flight w' i p" using fl [of i p] by simp
      with True show ?thesis unfolding host by blast
    next
      case False
      with p have "Mapping.lookup (bc_dns_lookups (dw_cache w)) h = Some p"
        by (auto simp: w'(3) Mapping.lookup_update' split: if_splits)
      then obtain j where j: "in_flight w j p" "dc_host (dw_callers w ! j) = h"
        using flights_okD(5) [OF ok] by blast
      then have "j \<noteq> i" using none by auto
      then have "in_flight w' j p" using fl [of j p] j(1) by simp
      with j(2) show ?thesis unfolding host by blast
    qed
  next
    fix j k p
    assume jp: "in_flight w' j p" and kp: "in_flight w' k p"
    have less: "p < ?n" if "l \<noteq> i" "in_flight w' l p" for l
      using old [of l p] fl [of l p] that by simp
    have same: "p = ?n" if "l = i" "in_flight w' l p" for l
      using fl [of l p] that by simp
    show "j = k"
    proof (cases "p = ?n")
      case True
      then have "j = i" "k = i" using less [OF _ jp] less [OF _ kp] by auto
      then show ?thesis by simp
    next
      case False
      then have "j \<noteq> i" "k \<noteq> i" using same [OF _ jp] same [OF _ kp] by auto
      then have "in_flight w j p" "in_flight w k p" using jp kp fl [of j p] fl [of k p] by simp_all
      then show ?thesis by (rule flights_okD(6) [OF ok])
    qed
  next
    fix j p
    assume j: "j < length (dw_callers w')" and p: "waits_for (dc_phase (dw_callers w' ! j)) = Some p"
    from waits [OF p] have ji: "j \<noteq> i" and p0: "waits_for (dc_phase (dw_callers w ! j)) = Some p" by auto
    have j0: "j < length (dw_callers w)" using j len by simp
    note known = flights_okD(7,8,9) [OF ok j0 p0]
    from known(1) show "p < length (dw_lookups w')" by (simp add: w'(2))
    from known(1,2) show "dl_host (dw_lookups w' ! p) = dc_host (dw_callers w' ! j)"
      unfolding host by (simp add: w'(2) nth_append)
    show "dl_result (dw_lookups w' ! p) \<noteq> None \<or> (\<exists>k. in_flight w' k p)"
    proof (cases "dl_result (dw_lookups w ! p) = None")
      case True
      from known(3) [OF this] obtain k where k: "in_flight w k p" by blast
      then have "in_flight w' k p" unfolding fl using none by auto
      then show ?thesis by blast
    next
      case False
      then show ?thesis using known(1) by (simp add: w'(2) nth_append)
    qed
  qed
qed

lemma flights_ok_store:
  assumes ok: "flights_ok w" and f: "in_flight w i p"
    and w': "dw_callers w' = (dw_callers w)[i := (dw_callers w ! i)\<lparr>dc_phase := Returned out\<rparr>]"
      "dw_lookups w' = (dw_lookups w)[p := (dw_lookups w ! p)\<lparr>dl_result := Some out\<rparr>]"
      "bc_dns_lookups (dw_cache w') = Mapping.delete (dc_host (dw_callers w ! i)) (bc_dns_lookups (dw_cache w))"
  shows "flights_ok w'"
proof -
  have i: "i < length (dw_callers w)" using f by simp
  have host: "dc_host (dw_callers w' ! j) = dc_host (dw_callers w ! j)" for j
    using i by (cases "i = j") (simp_all add: w')
  have len: "length (dw_callers w') = length (dw_callers w)" by (simp add: w')
  have fl: "in_flight w' j q \<longleftrightarrow> j \<noteq> i \<and> in_flight w j q" for j q
    using i by (auto simp: w' nth_list_update)
  have dhost: "dl_host (dw_lookups w' ! q) = dl_host (dw_lookups w ! q)" for q
    using flights_okD(1) [OF ok f] by (cases "q = p") (simp_all add: w'(2))
  have other: "q \<noteq> p \<and> dc_host (dw_callers w ! j) \<noteq> dc_host (dw_callers w ! i)"
    if "j \<noteq> i" "in_flight w j q" for j q
    using flights_okD(6) [OF ok f, of j] flights_okD(4) [OF ok f] flights_okD(4) [OF ok that(2)] that by auto
  have waits: "waits_for (dc_phase (dw_callers w' ! j)) = Some q \<Longrightarrow> waits_for (dc_phase (dw_callers w ! j)) = Some q" for j q
    using i by (cases "j = i") (auto simp: w')
  show ?thesis
    unfolding flights_ok_def
  proof (intro conjI allI impI)
    fix j q
    assume "in_flight w' j q"
    then have j: "j \<noteq> i" "in_flight w j q" by (auto simp only: fl)
    note d = flights_okD(1-4) [OF ok j(2)] other [OF j]
    show "q < length (dw_lookups w')" using d by (simp add: w'(2))
    show "dl_host (dw_lookups w' ! q) = dc_host (dw_callers w' ! j)" using d by (simp only: dhost host)
    show "dl_result (dw_lookups w' ! q) = None" using d by (simp add: w'(2))
    show "Mapping.lookup (bc_dns_lookups (dw_cache w')) (dc_host (dw_callers w' ! j)) = Some q"
      using d(4) not_sym [OF conjunct2 [OF d(5)]] unfolding host by (simp add: w'(3) lookup_delete')
  next
    fix h q
    assume q: "Mapping.lookup (bc_dns_lookups (dw_cache w')) h = Some q"
    then have h: "h \<noteq> dc_host (dw_callers w ! i)" by (auto simp: w'(3))
    with q have "Mapping.lookup (bc_dns_lookups (dw_cache w)) h = Some q" by (simp add: w'(3) lookup_delete')
    from flights_okD(5) [OF ok this] h show "\<exists>j. in_flight w' j q \<and> dc_host (dw_callers w' ! j) = h"
      unfolding fl host by auto
  next
    fix j k q
    assume "in_flight w' j q" "in_flight w' k q"
    then show "j = k" using flights_okD(6) [OF ok] unfolding fl by blast
  next
    fix j q
    assume j: "j < length (dw_callers w')" and q: "waits_for (dc_phase (dw_callers w' ! j)) = Some q"
    have j0: "j < length (dw_callers w)" using j len by simp
    note known = flights_okD(7,8,9) [OF ok j0 waits [OF q]]
    from known(1) show "q < length (dw_lookups w')" by (simp add: w'(2))
    from known(2) show "dl_host (dw_lookups w' ! q) = dc_host (dw_callers w' ! j)" by (simp only: dhost host)
    show "dl_result (dw_lookups w' ! q) \<noteq> None \<or> (\<exists>k. in_flight w' k q)"
    proof (cases "q = p")
      case True
      then show ?thesis using known(1) by (simp add: w'(2))
    next
      case False
      show ?thesis
      proof (cases "dl_result (dw_lookups w ! q) = None")
        case True
        from known(3) [OF this] obtain k where k: "in_flight w k q" by blast
        with False f have "k \<noteq> i" by auto
        with k show ?thesis unfolding fl by blast
      qed (use False in \<open>simp add: w'(2)\<close>)
    qed
  qed
qed

lemma other_op_dns:
  assumes "op \<noteq> OpClone"
  shows "bc_dns_lookups (cache_step op c) = bc_dns_lookups c"
    and "Mapping.lookup (bc_dns_cache (cache_step op c)) h = Some e \<Longrightarrow> Mapping.lookup (bc_dns_cache c) h = Some e"
proof -
  have store: "bc_dns_lookups (store_backend_index k ob x) = bc_dns_lookups x"
    "bc_dns_cache (store_backend_index k ob x) = bc_dns_cache x" for k ob x
    by (simp_all add: store_backend_index_def split: option.splits)
  have prune: "bc_dns_lookups (snd (prune_locked now force c)) = bc_dns_lookups c"
    "Mapping.lookup (bc_dns_cache (snd (prune_locked now force c))) h = Some e \<Longrightarrow>
       Mapping.lookup (bc_dns_cache c) h = Some e" for now force
    by (auto simp: prune_locked_def Let_def Mapping.lookup_filter split: if_splits option.splits)
  show "bc_dns_lookups (cache_step op c) = bc_dns_lookups c"
    using assms by (cases op)
      (simp_all add: backend_success_same backend_failure_same observe_transfer_success_def mark_failure_def
        apply_failure_locked_def mark_success_def round_robin_offset_def Let_def store prune)
  show "Mapping.lookup (bc_dns_cache (cache_step op c)) h = Some e \<Longrightarrow> Mapping.lookup (bc_dns_cache c) h = Some e"
    using assms prune(2) by (cases op)
      (auto simp: backend_success_same backend_failure_same observe_transfer_success_def mark_failure_def
        apply_failure_locked_def mark_success_def round_robin_offset_def Let_def store split: if_splits)
qed

lemma flights_ok_same:
  "flights_ok w \<Longrightarrow> dw_callers w' = dw_callers w \<Longrightarrow> dw_lookups w' = dw_lookups w \<Longrightarrow>
   bc_dns_lookups (dw_cache w') = bc_dns_lookups (dw_cache w) \<Longrightarrow> flights_ok w'"
  by (simp add: flights_ok_def)

lemma flights_ok_call:
  assumes ok: "flights_ok w" and idle: "flight_of (dc_phase c) = None" "waits_for (dc_phase c) = None"
    and w': "dw_callers w' = dw_callers w @ [c]" "dw_lookups w' = dw_lookups w"
      "bc_dns_lookups (dw_cache w') = bc_dns_lookups (dw_cache w)"
  shows "flights_ok w'"
proof -
  have fl: "in_flight w' i p \<longleftrightarrow> in_flight w i p" for i p
    using idle by (auto simp: w'(1) nth_append less_Suc_eq)
  have old: "dw_callers w' ! i = dw_callers w ! i" if "i < length (dw_callers w)" for i
    using that by (simp add: w'(1) nth_append)
  have waits: "i < length (dw_callers w)"
    if "i < length (dw_callers w')" "waits_for (dc_phase (dw_callers w' ! i)) = Some p" for i p
    using that idle by (auto simp: w'(1) nth_append less_Suc_eq split: if_splits)
  show ?thesis
    unfolding flights_ok_def fl w'(2,3)
  proof (intro conjI allI impI)
    fix i p
    assume f: "in_flight w i p"
    note d = flights_okD(1-4) [OF ok f]
    have i: "dw_callers w' ! i = dw_callers w ! i" using f by (intro old) simp
    show "p < length (dw_lookups w)" "dl_host (dw_lookups w ! p) = dc_host (dw_callers w' ! i)"
      "dl_result (dw_lookups w ! p) = None"
      "Mapping.lookup (bc_dns_lookups (dw_cache w)) (dc_host (dw_callers w' ! i)) = Some p"
      unfolding i by (rule d)+
  next
    fix h p
    assume "Mapping.lookup (bc_dns_lookups (dw_cache w)) h = Some p"
    then obtain i where i: "in_flight w i p" "dc_host (dw_callers w ! i) = h" using flights_okD(5) [OF ok] by blast
    then have "dc_host (dw_callers w' ! i) = h" using old by simp
    with i(1) show "\<exists>i. in_flight w i p \<and> dc_host (dw_callers w' ! i) = h" by blast
  next
    fix i j p
    assume "in_flight w i p" "in_flight w j p"
    then show "i = j" by (rule flights_okD(6) [OF ok])
  next
    fix i p
    assume i: "i < length (dw_callers w')" and p: "waits_for (dc_phase (dw_callers w' ! i)) = Some p"
    have i0: "i < length (dw_callers w)" by (rule waits [OF i p])
    note d = flights_okD(7-9) [OF ok i0 p [unfolded old [OF i0]]]
    show "p < length (dw_lookups w)" by (rule d(1))
    show "dl_host (dw_lookups w ! p) = dc_host (dw_callers w' ! i)" unfolding old [OF i0] by (rule d(2))
    show "dl_result (dw_lookups w ! p) \<noteq> None \<or> (\<exists>j. in_flight w j p)" using d(3) by blast
  qed
qed

text \<open>The step of a caller that changes its phase and leaves the lookups alone.\<close>

lemma flights_ok_phase:
  assumes "flights_ok w" and "i < length (dw_callers w)" and "flight_of ph = flight w i" and "waits_for ph = None"
    and "dw_callers w' = (dw_callers w)[i := (dw_callers w ! i)\<lparr>dc_phase := ph\<rparr>]"
    and "dw_lookups w' = dw_lookups w"
    and "bc_dns_lookups (dw_cache w') = bc_dns_lookups (dw_cache w)"
  shows "flights_ok w'"
  by (rule flights_ok_move [OF assms(1,2), where c = "(dw_callers w ! i)\<lparr>dc_phase := ph\<rparr>"])
     (use assms in simp_all)

lemma flights_ok_lock:
  assumes ok: "flights_ok w" and i: "i < length (dw_callers w)" and p: "dc_phase (dw_callers w ! i) = Looking now"
  shows "flights_ok (lock_cache i now w)"
proof (cases "\<exists>e. Mapping.lookup (bc_dns_cache (dw_cache w)) (dc_host (dw_callers w ! i)) = Some e \<and> now < de_expires_at e")
  case True
  then obtain e where "Mapping.lookup (bc_dns_cache (dw_cache w)) (dc_host (dw_callers w ! i)) = Some e" "now < de_expires_at e"
    by blast
  then show ?thesis
    by (intro flights_ok_phase [OF ok i, where ph = "Returned (Inr (de_ips e))"])
       (simp_all add: lock_cache_def Let_def p)
next
  case False
  then have stale: "(case Mapping.lookup (bc_dns_cache (dw_cache w)) (dc_host (dw_callers w ! i)) of
      None \<Rightarrow> None | Some e \<Rightarrow> if now < de_expires_at e then Some (de_ips e) else None) = None"
    by (auto split: option.splits)
  show ?thesis
  proof (cases "Mapping.lookup (bc_dns_lookups (dw_cache w)) (dc_host (dw_callers w ! i))")
    case None
    show ?thesis
      by (rule flights_ok_begin [OF ok i _ None]) (simp_all add: lock_cache_def Let_def stale None p)
  next
    case (Some q)
    show ?thesis
      by (rule flights_ok_move [OF ok i, where c = "(dw_callers w ! i)\<lparr>dc_phase := Waiting q\<rparr>"])
         (simp_all add: lock_cache_def Let_def stale Some p)
  qed
qed

lemma flights_ok_wake:
  assumes ok: "flights_ok w" and i: "i < length (dw_callers w)" and p: "dc_phase (dw_callers w ! i) = Waiting p"
  shows "flights_ok (wake_waiter i p w)"
proof -
  have moved: "flights_ok (set_caller i ph w)" if "flight_of ph = None" "waits_for ph = None" for ph
    by (rule flights_ok_phase [OF ok i, where ph = ph]) (simp_all add: that p)
  show ?thesis
    using ok moved by (simp add: wake_waiter_def split: option.split sum.split)
qed

lemma flights_ok_step:
  assumes ok: "flights_ok w"
  shows "flights_ok (dns_step e w)"
proof (cases e)
  case (Tick d)
  then show ?thesis using ok by (auto intro: flights_ok_same)
next
  case (Call host)
  show ?thesis unfolding Call dns_step.simps by (rule flights_ok_call [OF ok]) simp_all
next
  case (ContextEnds i x)
  have "flights_ok (w\<lparr>dw_callers := (dw_callers w)[i := (dw_callers w ! i)\<lparr>dc_ctx := Some x\<rparr>]\<rparr>)"
    if "i < length (dw_callers w)"
    by (rule flights_ok_move [OF ok that, where c = "(dw_callers w ! i)\<lparr>dc_ctx := Some x\<rparr>"]) simp_all
  then show ?thesis using ContextEnds ok by simp
next
  case (CheckContext i)
  have "flights_ok (check_context i w)" if "i < length (dw_callers w)" "dc_phase (dw_callers w ! i) = Entering"
  proof (cases "dc_ctx (dw_callers w ! i)")
    case None
    then show ?thesis by (intro flights_ok_phase [OF ok that(1), where ph = Checked]) (simp_all add: check_context_def that)
  next
    case (Some x)
    then show ?thesis
      by (intro flights_ok_phase [OF ok that(1), where ph = "Returned (Inl x)"]) (simp_all add: check_context_def that)
  qed
  then show ?thesis using CheckContext ok by simp
next
  case (ReadClock i)
  have "flights_ok (set_caller i (Looking (dw_clock w)) w)"
    if "i < length (dw_callers w)" "dc_phase (dw_callers w ! i) = Checked"
    by (rule flights_ok_phase [OF ok that(1), where ph = "Looking (dw_clock w)"]) (simp_all add: that)
  then show ?thesis using ReadClock ok by simp
next
  case (LockCache i)
  then show ?thesis using ok flights_ok_lock [OF ok] by (simp split: lookup_phase.split)
next
  case (WakeWaiter i)
  then show ?thesis using ok flights_ok_wake [OF ok] by (simp split: lookup_phase.split)
next
  case (Answer i a)
  have "flights_ok (answer_lookup i p a w)"
    if "i < length (dw_callers w)" "dc_phase (dw_callers w ! i) = Resolving p" for p
    unfolding answer_lookup_def Let_def
    by (rule flights_ok_phase [OF ok that(1)]) (simp_all add: that)
  then show ?thesis using Answer ok by (simp split: lookup_phase.split)
next
  case (ReadClockAgain i)
  show ?thesis
  proof (cases "i < length (dw_callers w) \<and> (\<exists>p r. dc_phase (dw_callers w ! i) = Resolved p r)")
    case True
    then obtain p r where i: "i < length (dw_callers w)" and p: "dc_phase (dw_callers w ! i) = Resolved p r" by blast
    show ?thesis
      by (rule flights_ok_phase [OF ok i, where ph = "Storing p r (dw_clock w)"])
         (simp_all add: ReadClockAgain i p)
  next
    case False
    then show ?thesis using ReadClockAgain ok by (auto split: lookup_phase.split)
  qed
next
  case (StoreAnswer i)
  have "flights_ok (store_answer i p r now w)"
    if "i < length (dw_callers w)" "dc_phase (dw_callers w ! i) = Storing p r now" for p r now
  proof -
    have "in_flight w i p" using that by simp
    then show ?thesis
      by (rule flights_ok_store [OF ok]) (simp_all add: store_answer_def Let_def store_entry_def split: sum.split)
  qed
  then show ?thesis using StoreAnswer ok by (simp split: lookup_phase.split)
next
  case (OtherOp op)
  then show ?thesis using ok other_op_dns(1) by (auto intro: flights_ok_same)
qed

lemma flights_ok_run: "flights_ok w \<Longrightarrow> flights_ok (dns_run es w)"
  unfolding dns_run_def by (induction es arbitrary: w) (simp_all add: flights_ok_step)

lemma new_dns_flights: "flights_ok (new_dns_world b l t)"
  by (simp add: flights_ok_def new_dns_world_def new_cache_def Let_def)

end
