(* ===== verification/BackFresh.thy ===== *)
theory BackFresh
  imports BackDns
begin

text \<open>
  The age of the answers that \<open>lookupHost\<close> returns: whatever a caller gets was published after it
  asked, on a reading of the clock less than two and a half minutes after the resolver gave it.
\<close>

definition answer_age :: int where
  "answer_age = dns_ttl + dns_stale_ttl"

text \<open>An entry of the cache is an answer of the resolver with its two deadlines.\<close>

definition entry_fresh :: "dns_world \<Rightarrow> string \<Rightarrow> dns_cache_entry \<Rightarrow> bool" where
  "entry_fresh w h e \<longleftrightarrow>
     (\<exists>t. (h, t, de_ips e) \<in> set (dw_answers w) \<and> de_expires_at e = t + dns_ttl
        \<and> de_stale_until e = t + answer_age)"

definition handed_out :: "dns_world \<Rightarrow> string \<Rightarrow> time \<Rightarrow> string list \<Rightarrow> bool" where
  "handed_out w h since ips \<longleftrightarrow> (\<exists>r u. (h, r, u, ips) \<in> set (dw_published w) \<and> since \<le> u)"

definition caller_fresh :: "dns_world \<Rightarrow> dns_caller \<Rightarrow> bool" where
  "caller_fresh w c \<longleftrightarrow> dc_since c \<le> dw_clock w
     \<and> (\<forall>now. dc_phase c = Looking now \<longrightarrow> now \<le> dw_clock w)
     \<and> (\<forall>p ips. dc_phase c = Resolved p (Inr ips) \<longrightarrow> ips \<noteq> [])
     \<and> (\<forall>p r now. dc_phase c = Storing p r now \<longrightarrow> now \<le> dw_clock w)
     \<and> (\<forall>p ips now. dc_phase c = Storing p (Inr ips) now \<longrightarrow> (dc_host c, now, ips) \<in> set (dw_answers w))
     \<and> (\<forall>p ips. dc_phase c = Waiting p \<longrightarrow> dl_result (dw_lookups w ! p) = Some (Inr ips) \<longrightarrow>
          handed_out w (dc_host c) (dc_since c) ips)
     \<and> (\<forall>ips. dc_phase c = Returned (Inr ips) \<longrightarrow> handed_out w (dc_host c) (dc_since c) ips)"

definition published_fresh :: "dns_world \<Rightarrow> string \<times> time \<times> time \<times> string list \<Rightarrow> bool" where
  "published_fresh w x \<longleftrightarrow>
     (case x of (h, r, u, ips) \<Rightarrow> r \<le> u \<and> u \<le> dw_clock w
        \<and> (\<exists>t. (h, t, ips) \<in> set (dw_answers w) \<and> r < t + answer_age))"

definition fresh_ok :: "dns_world \<Rightarrow> bool" where
  "fresh_ok w \<longleftrightarrow>
     (\<forall>h e. Mapping.lookup (bc_dns_cache (dw_cache w)) h = Some e \<longrightarrow> entry_fresh w h e)
     \<and> (\<forall>c \<in> set (dw_callers w). caller_fresh w c)
     \<and> (\<forall>x \<in> set (dw_published w). published_fresh w x)
     \<and> (\<forall>(h, t, ips) \<in> set (dw_answers w). ips \<noteq> [])"

text \<open>Everything stays true while the clock runs and the two logs grow.\<close>

definition grows :: "dns_world \<Rightarrow> dns_world \<Rightarrow> bool" where
  "grows w w' \<longleftrightarrow> dw_clock w \<le> dw_clock w' \<and> set (dw_answers w) \<subseteq> set (dw_answers w')
     \<and> set (dw_published w) \<subseteq> set (dw_published w')"

lemma entry_fresh_grows: "grows w w' \<Longrightarrow> entry_fresh w h e \<Longrightarrow> entry_fresh w' h e"
  by (auto simp: grows_def entry_fresh_def)

lemma published_fresh_grows: "grows w w' \<Longrightarrow> published_fresh w x \<Longrightarrow> published_fresh w' x"
  by (force simp: grows_def published_fresh_def split: prod.splits)

lemma handed_out_grows: "grows w w' \<Longrightarrow> handed_out w h s ips \<Longrightarrow> handed_out w' h s ips"
  by (auto simp: grows_def handed_out_def)

lemma caller_fresh_grows:
  assumes "grows w w'" and "caller_fresh w c"
    and "\<And>p ips. dc_phase c = Waiting p \<Longrightarrow> dl_result (dw_lookups w' ! p) = Some (Inr ips) \<Longrightarrow>
           dl_result (dw_lookups w ! p) = Some (Inr ips) \<or> handed_out w' (dc_host c) (dc_since c) ips"
  shows "caller_fresh w' c"
proof -
  have waiting: "handed_out w' (dc_host c) (dc_since c) ips"
    if p: "dc_phase c = Waiting p" and r: "dl_result (dw_lookups w' ! p) = Some (Inr ips)" for p ips
    using assms(3) [OF p r]
  proof
    assume "dl_result (dw_lookups w ! p) = Some (Inr ips)"
    with assms(2) p have "handed_out w (dc_host c) (dc_since c) ips" by (simp add: caller_fresh_def)
    then show ?thesis by (rule handed_out_grows [OF assms(1)])
  qed
  have "handed_out w' (dc_host c) (dc_since c) ips" if "dc_phase c = Returned (Inr ips)" for ips
    using assms(2) that by (intro handed_out_grows [OF assms(1)]) (simp add: caller_fresh_def)
  moreover note waiting
  moreover have "dw_clock w \<le> dw_clock w'" "set (dw_answers w) \<subseteq> set (dw_answers w')"
    using assms(1) by (simp_all add: grows_def)
  ultimately show ?thesis using assms(2) unfolding caller_fresh_def by fastforce
qed

text \<open>The step of one caller: the others see only growth.\<close>

lemma fresh_ok_caller:
  assumes ok: "fresh_ok w" and g: "grows w w'" and callers: "dw_callers w' = (dw_callers w)[i := c]"
    and mine: "caller_fresh w' c"
    and others: "\<And>d p ips. d \<in> set (dw_callers w) \<Longrightarrow> dc_phase d = Waiting p \<Longrightarrow>
       dl_result (dw_lookups w' ! p) = Some (Inr ips) \<Longrightarrow>
       dl_result (dw_lookups w ! p) = Some (Inr ips) \<or> handed_out w' (dc_host d) (dc_since d) ips"
    and cache: "\<And>h e. Mapping.lookup (bc_dns_cache (dw_cache w')) h = Some e \<Longrightarrow>
       Mapping.lookup (bc_dns_cache (dw_cache w)) h = Some e \<or> entry_fresh w' h e"
    and pub: "\<And>x. x \<in> set (dw_published w') \<Longrightarrow> x \<in> set (dw_published w) \<or> published_fresh w' x"
    and ans: "\<And>h t ips. (h, t, ips) \<in> set (dw_answers w') \<Longrightarrow> (h, t, ips) \<in> set (dw_answers w) \<or> ips \<noteq> []"
  shows "fresh_ok w'"
  unfolding fresh_ok_def
proof (intro conjI allI impI ballI)
  fix h e
  assume "Mapping.lookup (bc_dns_cache (dw_cache w')) h = Some e"
  from cache [OF this] show "entry_fresh w' h e"
  proof
    assume "Mapping.lookup (bc_dns_cache (dw_cache w)) h = Some e"
    with ok have "entry_fresh w h e" by (simp add: fresh_ok_def)
    then show ?thesis by (rule entry_fresh_grows [OF g])
  qed
next
  fix d
  assume "d \<in> set (dw_callers w')"
  then have "d = c \<or> d \<in> set (dw_callers w)" using set_update_subset_insert callers by fastforce
  then show "caller_fresh w' d"
  proof
    assume d: "d \<in> set (dw_callers w)"
    show ?thesis
      by (rule caller_fresh_grows [OF g]) (use ok d others in \<open>auto simp: fresh_ok_def\<close>)
  qed (use mine in simp)
next
  fix x
  assume "x \<in> set (dw_published w')"
  from pub [OF this] show "published_fresh w' x"
  proof
    assume "x \<in> set (dw_published w)"
    with ok have "published_fresh w x" by (simp add: fresh_ok_def)
    then show ?thesis by (rule published_fresh_grows [OF g])
  qed
next
  fix x
  assume x: "x \<in> set (dw_answers w')"
  then show "case x of (h, t, ips) \<Rightarrow> ips \<noteq> []"
    using ans [of "fst x" "fst (snd x)" "snd (snd x)"] ok by (auto simp: fresh_ok_def)
qed

lemma fresh_okD:
  assumes "fresh_ok w"
  shows "Mapping.lookup (bc_dns_cache (dw_cache w)) h = Some e \<Longrightarrow> entry_fresh w h e"
    and "i < length (dw_callers w) \<Longrightarrow> caller_fresh w (dw_callers w ! i)"
    and "x \<in> set (dw_published w) \<Longrightarrow> published_fresh w x"
  using assms by (auto simp: fresh_ok_def)

text \<open>A change of phase that needs no new entry of the logs.\<close>

lemma fresh_ok_phase:
  assumes ok: "fresh_ok w" and mine: "caller_fresh w c"
  shows "fresh_ok (w\<lparr>dw_callers := (dw_callers w)[i := c]\<rparr>)"
proof (rule fresh_ok_caller [OF ok, where i = i and c = c])
  show "caller_fresh (w\<lparr>dw_callers := (dw_callers w)[i := c]\<rparr>) c"
    using mine by (simp add: caller_fresh_def handed_out_def)
qed (simp_all add: grows_def)

lemma caller_fresh_since: "caller_fresh w c \<Longrightarrow> dc_since c \<le> dw_clock w"
  by (simp add: caller_fresh_def)

lemma published_now:
  assumes "entry_fresh w h e" and "now < dns_retain_until e" and "now \<le> dw_clock w"
    and w': "dw_clock w' = dw_clock w" "dw_answers w' = dw_answers w"
  shows "published_fresh w' (h, now, dw_clock w, de_ips e)"
proof -
  obtain t where t: "(h, t, de_ips e) \<in> set (dw_answers w)" "de_expires_at e = t + dns_ttl"
    "de_stale_until e = t + answer_age"
    using assms(1) by (auto simp: entry_fresh_def)
  then have "dns_retain_until e \<le> t + answer_age"
    by (simp add: dns_retain_until_def answer_age_def dns_stale_ttl_def minute_def second_def)
  with assms t(1) show ?thesis by (auto simp: published_fresh_def w')
qed

lemma fresh_ok_lock:
  assumes ok: "fresh_ok w" and fl: "flights_ok w" and i: "i < length (dw_callers w)"
    and p: "dc_phase (dw_callers w ! i) = Looking now"
  shows "fresh_ok (lock_cache i now w)"
proof -
  note mine = fresh_okD(2) [OF ok i]
  have now: "now \<le> dw_clock w" using mine p by (simp add: caller_fresh_def)
  note since = caller_fresh_since [OF mine]
  let ?h = "dc_host (dw_callers w ! i)"
  show ?thesis
  proof (cases "\<exists>e. Mapping.lookup (bc_dns_cache (dw_cache w)) ?h = Some e \<and> now < de_expires_at e")
    case True
    then obtain e where e: "Mapping.lookup (bc_dns_cache (dw_cache w)) ?h = Some e" "now < de_expires_at e" by blast
    then have keep: "now < dns_retain_until e" by (simp add: dns_retain_until_def)
    have eq: "lock_cache i now w = (set_caller i (Returned (Inr (de_ips e))) w)
        \<lparr>dw_published := dw_published w @ [(?h, now, dw_clock w, de_ips e)]\<rparr>"
      using e by (simp add: lock_cache_def Let_def)
    show ?thesis
    proof (rule fresh_ok_caller [OF ok, where i = i and c = "(dw_callers w ! i)\<lparr>dc_phase := Returned (Inr (de_ips e))\<rparr>"])
      show "x \<in> set (dw_published w) \<or> published_fresh (lock_cache i now w) x"
        if "x \<in> set (dw_published (lock_cache i now w))" for x
        using that published_now [OF fresh_okD(1) [OF ok e(1)] keep now, of "lock_cache i now w"]
        by (auto simp: eq)
      show "caller_fresh (lock_cache i now w) ((dw_callers w ! i)\<lparr>dc_phase := Returned (Inr (de_ips e))\<rparr>)"
        using since by (auto simp: caller_fresh_def eq handed_out_def)
    qed (auto simp: eq grows_def)
  next
    case False
    then have stale: "(case Mapping.lookup (bc_dns_cache (dw_cache w)) ?h of
        None \<Rightarrow> None | Some e \<Rightarrow> if now < de_expires_at e then Some (de_ips e) else None) = None"
      by (auto split: option.splits)
    show ?thesis
    proof (cases "Mapping.lookup (bc_dns_lookups (dw_cache w)) ?h")
      case (Some q)
      obtain j where "in_flight w j q" using flights_okD(5) [OF fl Some] by blast
      then have "dl_result (dw_lookups w ! q) = None" by (rule flights_okD(3) [OF fl])
      then have "caller_fresh w ((dw_callers w ! i)\<lparr>dc_phase := Waiting q\<rparr>)"
        using since by (simp add: caller_fresh_def)
      then show ?thesis by (simp add: lock_cache_def Let_def stale Some fresh_ok_phase [OF ok])
    next
      case None
      let ?n = "length (dw_lookups w)"
      have eq: "lock_cache i now w = (set_caller i (Resolving ?n) w)
                 \<lparr>dw_lookups := dw_lookups w @ [\<lparr>dl_host = ?h, dl_result = None\<rparr>],
                  dw_cache := (dw_cache w)\<lparr>bc_dns_lookups := Mapping.update ?h ?n (bc_dns_lookups (dw_cache w))\<rparr>\<rparr>"
        by (simp add: lock_cache_def Let_def stale None)
      have same: "dl_result (dw_lookups (lock_cache i now w) ! q) = dl_result (dw_lookups w ! q)" if "q < ?n" for q
        using that by (simp add: eq nth_append)
      show ?thesis
      proof (rule fresh_ok_caller [OF ok, where i = i and c = "(dw_callers w ! i)\<lparr>dc_phase := Resolving ?n\<rparr>"])
        fix d q ips
        assume d: "d \<in> set (dw_callers w)" "dc_phase d = Waiting q"
          "dl_result (dw_lookups (lock_cache i now w) ! q) = Some (Inr ips)"
        then obtain k where "k < length (dw_callers w)" "waits_for (dc_phase (dw_callers w ! k)) = Some q"
          by (auto simp: in_set_conv_nth)
        then have "q < ?n" by (rule flights_okD(7) [OF fl])
        with d(3) same show "dl_result (dw_lookups w ! q) = Some (Inr ips)
            \<or> handed_out (lock_cache i now w) (dc_host d) (dc_since d) ips" by simp
      qed (use since in \<open>auto simp: eq grows_def caller_fresh_def\<close>)
    qed
  qed
qed

lemma fresh_ok_wake:
  assumes ok: "fresh_ok w" and i: "i < length (dw_callers w)" and p: "dc_phase (dw_callers w ! i) = Waiting p"
  shows "fresh_ok (wake_waiter i p w)"
proof -
  note mine = fresh_okD(2) [OF ok i]
  have moved: "fresh_ok (set_caller i ph w)" if "caller_fresh w ((dw_callers w ! i)\<lparr>dc_phase := ph\<rparr>)" for ph
    using fresh_ok_phase [OF ok that] .
  have "caller_fresh w ((dw_callers w ! i)\<lparr>dc_phase := Returned (Inl e)\<rparr>)"
    "caller_fresh w ((dw_callers w ! i)\<lparr>dc_phase := Entering\<rparr>)" for e
    using mine by (simp_all add: caller_fresh_def)
  moreover have "caller_fresh w ((dw_callers w ! i)\<lparr>dc_phase := Returned (Inr ips)\<rparr>)"
    if "dl_result (dw_lookups w ! p) = Some (Inr ips)" for ips
    using mine p that by (simp add: caller_fresh_def)
  ultimately show ?thesis
    using ok moved by (simp add: wake_waiter_def split: option.split sum.split)
qed

lemma dedup_ips_nonempty: "dedup_ips seen resolved ips \<noteq> [] \<or> ips = []"
  by (induction seen resolved ips rule: dedup_ips.induct) auto

lemma resolve_host_nonempty: "resolve_host ctx answer host = Inr ips \<Longrightarrow> ips \<noteq> []"
  by (auto simp: resolve_host_def Let_def split: option.splits sum.splits if_splits)

lemma fresh_ok_store:
  assumes ok: "fresh_ok w" and fl: "flights_ok w" and i: "i < length (dw_callers w)"
    and p: "dc_phase (dw_callers w ! i) = Storing p r now"
  shows "fresh_ok (store_answer i p r now w)"
proof -
  note mine = fresh_okD(2) [OF ok i]
  have now: "now \<le> dw_clock w" using mine p by (simp add: caller_fresh_def)
  note since = caller_fresh_since [OF mine]
  let ?h = "dc_host (dw_callers w ! i)"
  define w' where "w' = store_answer i p r now w"
  define out where "out = (case r of Inr ips \<Rightarrow> Inr ips
                 | Inl err \<Rightarrow> stale_answer ?h (dc_ctx (dw_callers w ! i)) err now (dw_cache w))"
  have inf: "in_flight w i p" using i p by simp
  have callers: "dw_callers w' = (dw_callers w)[i := (dw_callers w ! i)\<lparr>dc_phase := Returned out\<rparr>]"
    and results: "dw_lookups w' = (dw_lookups w)[p := (dw_lookups w ! p)\<lparr>dl_result := Some out\<rparr>]"
    and pub: "dw_published w' = dw_published w @ (case out of Inr ips \<Rightarrow> [(?h, now, dw_clock w, ips)] | Inl e \<Rightarrow> [])"
    and rest: "dw_clock w' = dw_clock w" "dw_answers w' = dw_answers w"
    and cache: "bc_dns_cache (dw_cache w') =
       (case r of Inr ips \<Rightarrow> bc_dns_cache (store_entry ?h ips now (dw_cache w)) | Inl e \<Rightarrow> bc_dns_cache (dw_cache w))"
    by (simp_all add: w'_def store_answer_def Let_def out_def split: sum.split)
  have len: "p < length (dw_lookups w)" by (rule flights_okD(1) [OF fl inf])
  have published: "published_fresh w' (?h, now, dw_clock w, ips)" if "out = Inr ips" for ips
  proof (cases r)
    case (Inr l)
    with that have "(?h, now, ips) \<in> set (dw_answers w)" using mine p by (simp add: caller_fresh_def out_def)
    then show ?thesis using now rest
      by (auto simp: published_fresh_def answer_age_def dns_ttl_def dns_stale_ttl_def minute_def second_def)
  next
    case (Inl err)
    with that obtain e where e: "Mapping.lookup (bc_dns_cache (dw_cache w)) ?h = Some e" "now < dns_retain_until e"
      "ips = de_ips e"
      by (auto simp: out_def stale_answer_def split: option.splits if_splits)
    from published_now [OF fresh_okD(1) [OF ok e(1)] e(2) now rest] show ?thesis by (simp add: e(3))
  qed
  have handed: "handed_out w' ?h s ips" if "out = Inr ips" "s \<le> dw_clock w" for s ips
    using that by (auto simp: handed_out_def pub)
  have "fresh_ok w'"
  proof (rule fresh_ok_caller [OF ok _ callers])
    show "grows w w'" by (auto simp: grows_def rest pub)
    show "caller_fresh w' ((dw_callers w ! i)\<lparr>dc_phase := Returned out\<rparr>)"
      using since handed by (simp add: caller_fresh_def rest)
  next
    fix d q ips
    assume d: "d \<in> set (dw_callers w)" "dc_phase d = Waiting q" "dl_result (dw_lookups w' ! q) = Some (Inr ips)"
    then obtain k where k: "k < length (dw_callers w)" "dw_callers w ! k = d" by (auto simp: in_set_conv_nth)
    have "dc_since d \<le> dw_clock w" using fresh_okD(2) [OF ok k(1)] k(2) caller_fresh_since by blast
    show "dl_result (dw_lookups w ! q) = Some (Inr ips) \<or> handed_out w' (dc_host d) (dc_since d) ips"
    proof (cases "q = p")
      case True
      then have "out = Inr ips" using d(3) len by (simp add: results)
      moreover have "dc_host d = ?h"
        using flights_okD(8) [OF fl k(1), of q] k(2) d(2) True flights_okD(2) [OF fl inf] by simp
      ultimately show ?thesis using handed \<open>dc_since d \<le> dw_clock w\<close> by simp
    next
      case False
      then show ?thesis using d(3) by (simp add: results)
    qed
  next
    fix h e
    assume he: "Mapping.lookup (bc_dns_cache (dw_cache w')) h = Some e"
    show "Mapping.lookup (bc_dns_cache (dw_cache w)) h = Some e \<or> entry_fresh w' h e"
    proof (cases r)
      case (Inl err)
      then show ?thesis using he by (simp add: cache)
    next
      case (Inr ips)
      then have "(?h, now, ips) \<in> set (dw_answers w)" using mine p by (simp add: caller_fresh_def)
      then show ?thesis using he Inr
        by (auto simp: cache store_entry_def Mapping.lookup_update' entry_fresh_def rest answer_age_def split: if_splits)
    qed
  next
    fix x
    assume "x \<in> set (dw_published w')"
    then show "x \<in> set (dw_published w) \<or> published_fresh w' x"
      using published by (auto simp: pub split: sum.splits)
  qed (simp add: rest)
  then show ?thesis by (simp add: w'_def)
qed

lemma fresh_ok_frame:
  assumes ok: "fresh_ok w" and g: "grows w w'" and callers: "dw_callers w' = dw_callers w @ cs"
    and new: "\<And>c. c \<in> set cs \<Longrightarrow> caller_fresh w' c"
    and same: "dw_lookups w' = dw_lookups w" "dw_published w' = dw_published w" "dw_answers w' = dw_answers w"
    and cache: "\<And>h e. Mapping.lookup (bc_dns_cache (dw_cache w')) h = Some e \<Longrightarrow>
       Mapping.lookup (bc_dns_cache (dw_cache w)) h = Some e"
  shows "fresh_ok w'"
  unfolding fresh_ok_def
proof (intro conjI allI impI ballI)
  fix h e
  assume "Mapping.lookup (bc_dns_cache (dw_cache w')) h = Some e"
  from fresh_okD(1) [OF ok cache [OF this]] show "entry_fresh w' h e" by (rule entry_fresh_grows [OF g])
next
  fix c
  assume c: "c \<in> set (dw_callers w')"
  show "caller_fresh w' c"
  proof (cases "c \<in> set cs")
    case False
    with c ok have "caller_fresh w c" by (simp add: callers fresh_ok_def)
    then show ?thesis by (rule caller_fresh_grows [OF g]) (simp add: same)
  qed (rule new)
next
  fix x
  assume "x \<in> set (dw_published w')"
  then have "published_fresh w x" using fresh_okD(3) [OF ok] by (simp add: same)
  then show "published_fresh w' x" by (rule published_fresh_grows [OF g])
next
  fix x
  assume "x \<in> set (dw_answers w')"
  then show "case x of (h, t, ips) \<Rightarrow> ips \<noteq> []" using ok by (auto simp: same fresh_ok_def)
qed

lemma fresh_ok_read_again:
  assumes ok: "fresh_ok w" and i: "i < length (dw_callers w)" and p: "dc_phase (dw_callers w ! i) = Resolved p r"
  shows "fresh_ok (dns_step (ReadClockAgain i) w)"
proof -
  note mine = fresh_okD(2) [OF ok i]
  let ?w' = "dns_step (ReadClockAgain i) w"
  show ?thesis
  proof (rule fresh_ok_caller [OF ok, where i = i and c = "(dw_callers w ! i)\<lparr>dc_phase := Storing p r (dw_clock w)\<rparr>"])
    show "caller_fresh ?w' ((dw_callers w ! i)\<lparr>dc_phase := Storing p r (dw_clock w)\<rparr>)"
      using mine i p by (auto simp: caller_fresh_def split: sum.split)
    show "(h, t, ips) \<in> set (dw_answers w) \<or> ips \<noteq> []" if "(h, t, ips) \<in> set (dw_answers ?w')" for h t ips
      using that mine i p by (auto simp: caller_fresh_def split: sum.splits)
  qed (use i p in \<open>auto simp: grows_def\<close>)
qed

lemma fresh_ok_step:
  assumes ok: "fresh_ok w" and fl: "flights_ok w"
  shows "fresh_ok (dns_step e w)"
proof -
  have moved: "fresh_ok (w\<lparr>dw_callers := (dw_callers w)[i := c]\<rparr>)" if "caller_fresh w c" for i c
    using fresh_ok_phase [OF ok that] .
  show ?thesis
  proof (cases e)
    case (Tick d)
    show ?thesis
      by (rule fresh_ok_frame [OF ok, where cs = "[]"]) (auto simp: Tick grows_def split: if_splits)
  next
    case (Call host)
    show ?thesis unfolding Call dns_step.simps
      by (rule fresh_ok_frame [OF ok]) (auto simp: grows_def caller_fresh_def)
  next
    case (ContextEnds i x)
    have "caller_fresh w ((dw_callers w ! i)\<lparr>dc_ctx := Some x\<rparr>)" if "i < length (dw_callers w)"
      using fresh_okD(2) [OF ok that] by (simp add: caller_fresh_def)
    then show ?thesis using ContextEnds ok moved by simp
  next
    case (CheckContext i)
    have "caller_fresh w ((dw_callers w ! i)\<lparr>dc_phase := Checked\<rparr>)
        \<and> caller_fresh w ((dw_callers w ! i)\<lparr>dc_phase := Returned (Inl x)\<rparr>)" if "i < length (dw_callers w)" for x
      using fresh_okD(2) [OF ok that] by (simp add: caller_fresh_def)
    then show ?thesis using CheckContext ok moved by (simp add: check_context_def split: option.split)
  next
    case (ReadClock i)
    have "caller_fresh w ((dw_callers w ! i)\<lparr>dc_phase := Looking (dw_clock w)\<rparr>)" if "i < length (dw_callers w)"
      using fresh_okD(2) [OF ok that] by (simp add: caller_fresh_def)
    then show ?thesis using ReadClock ok moved by simp
  next
    case (LockCache i)
    then show ?thesis using ok fresh_ok_lock [OF ok fl] by (simp split: lookup_phase.split)
  next
    case (WakeWaiter i)
    then show ?thesis using ok fresh_ok_wake [OF ok] by (simp split: lookup_phase.split)
  next
    case (Answer i a)
    have "fresh_ok (answer_lookup i p a w)" if "i < length (dw_callers w)" for p
    proof -
      have "caller_fresh w ((dw_callers w ! i)\<lparr>dc_phase := Resolved p
          (resolve_host (dc_ctx (dw_callers w ! i)) a (dc_host (dw_callers w ! i)))\<rparr>)"
        using fresh_okD(2) [OF ok that] by (auto simp: caller_fresh_def dest: resolve_host_nonempty)
      then show ?thesis unfolding answer_lookup_def Let_def by (rule moved)
    qed
    then show ?thesis using Answer ok by (simp split: lookup_phase.split)
  next
    case (ReadClockAgain i)
    show ?thesis
    proof (cases "i < length (dw_callers w) \<and> (\<exists>p r. dc_phase (dw_callers w ! i) = Resolved p r)")
      case True
      then show ?thesis using ReadClockAgain fresh_ok_read_again [OF ok] by blast
    next
      case False
      have "dns_step e w = w"
      proof (cases "i < length (dw_callers w)")
        case True
        with False show ?thesis by (cases "dc_phase (dw_callers w ! i)") (simp_all add: ReadClockAgain)
      qed (simp add: ReadClockAgain)
      then show ?thesis using ok by simp
    qed
  next
    case (StoreAnswer i)
    then show ?thesis using ok fresh_ok_store [OF ok fl] by (simp split: lookup_phase.split)
  next
    case (OtherOp op)
    show ?thesis
    proof (cases "op = OpClone")
      case False
      then have step: "dns_step e w = w\<lparr>dw_cache := cache_step op (dw_cache w)\<rparr>" by (simp add: OtherOp)
      show ?thesis
        unfolding step
      proof (rule fresh_ok_frame [OF ok, where cs = "[]"])
        fix h x
        assume "Mapping.lookup (bc_dns_cache (dw_cache (w\<lparr>dw_cache := cache_step op (dw_cache w)\<rparr>))) h = Some x"
        then have "Mapping.lookup (bc_dns_cache (cache_step op (dw_cache w))) h = Some x" by simp
        then show "Mapping.lookup (bc_dns_cache (dw_cache w)) h = Some x" by (rule other_op_dns(2) [OF False])
      qed (simp_all add: grows_def)
    qed (use ok OtherOp in simp)
  qed
qed

lemma fresh_ok_run: "fresh_ok w \<Longrightarrow> flights_ok w \<Longrightarrow> fresh_ok (dns_run es w)"
  unfolding dns_run_def
  by (induction es arbitrary: w) (simp_all add: fresh_ok_step flights_ok_step)

lemma new_dns_fresh: "fresh_ok (new_dns_world b l t)"
  by (simp add: fresh_ok_def new_dns_world_def new_cache_def Let_def)

end
