(* ===== verification/BackRetry.thy ===== *)
theory BackRetry
  imports BackKeep
begin

text \<open>
  Two readings of the same history. A failure of an address puts off its next try; the failure entry,
  which \<open>IsInBackoff\<close> reads, forgets that with the next success, and the observation, which orders
  the candidates, keeps it until the time has passed. Both are computed here from the operations
  alone, and the cache is shown to hold exactly them.
\<close>

subsection \<open>The history of an address\<close>

text \<open>The failures since the last success, and the time to which the last failure puts off the next try.\<close>

record failing =
  in_a_row :: nat
  retry_at :: "time option"

definition never_failed :: failing where
  "never_failed = \<lparr>in_a_row = 0, retry_at = None\<rparr>"

definition fails_at :: "(int \<Rightarrow> int) \<Rightarrow> time \<Rightarrow> failing \<Rightarrow> failing" where
  "fails_at delay now f =
     \<lparr>in_a_row = Suc (in_a_row f), retry_at = Some (now + delay (int (Suc (in_a_row f))))\<rparr>"

fun failing_step :: "(int \<Rightarrow> int) \<Rightarrow> string \<Rightarrow> cache_op \<Rightarrow> failing \<Rightarrow> failing" where
  "failing_step delay key (OpTransferSuccess now a latency dur bytes) f =
     (if trim_space a = key then f\<lparr>in_a_row := 0\<rparr> else f)"
| "failing_step delay key (OpBackendSuccess now a latency dur bytes) f =
     (if trim_space a = key then f\<lparr>in_a_row := 0\<rparr> else f)"
| "failing_step delay key (OpBackendFailure now a) f = (if trim_space a = key then fails_at delay now f else f)"
| "failing_step delay key (OpMarkFailure now a) f = (if trim_space a = key then fails_at delay now f else f)"
| "failing_step delay key (OpMarkSuccess a) f = (if trim_space a = key then f\<lparr>in_a_row := 0\<rparr> else f)"
| "failing_step delay key op f = f"

definition failing_after :: "(int \<Rightarrow> int) \<Rightarrow> string \<Rightarrow> cache_op list \<Rightarrow> failing" where
  "failing_after delay key ops = fold (failing_step delay key) ops never_failed"

definition put_off :: "time \<Rightarrow> failing \<Rightarrow> bool" where
  "put_off now f \<longleftrightarrow> (case retry_at f of None \<Rightarrow> False | Some r \<Rightarrow> now < r)"

fun forced_prune :: "cache_op \<Rightarrow> bool" where
  "forced_prune (OpPrune now force) = force"
| "forced_prune op = False"

subsection \<open>The cache holds it\<close>

definition remembers :: "(int \<Rightarrow> int) \<Rightarrow> string \<Rightarrow> time \<Rightarrow> failing \<Rightarrow> backend_cache \<Rightarrow> bool" where
  "remembers delay key t f c \<longleftrightarrow>
     backoff_duration c = delay \<and>
     (\<forall>u \<ge> t. observed_in_backoff u (observed_at c key) \<longleftrightarrow> put_off u f) \<and>
     Mapping.lookup (bc_failures c) key =
       (if in_a_row f = 0 then None
        else Some \<lparr>fe_consecutive = int (in_a_row f), fe_retry_after = the (retry_at f)\<rparr>) \<and>
     (in_a_row f \<noteq> 0 \<longrightarrow> retry_at f \<noteq> None)"

lemma remembers_later: "remembers delay key t f c \<Longrightarrow> t \<le> u \<Longrightarrow> remembers delay key u f c"
  by (simp add: remembers_def)

lemma backoff_duration_cong:
  "bc_backoff_base c' = bc_backoff_base c \<Longrightarrow> bc_backoff_limit c' = bc_backoff_limit c \<Longrightarrow>
   backoff_duration c' = backoff_duration c"
  by (simp add: backoff_duration_def fun_eq_iff Let_def)

lemma bucket_keeps_recovery [simp]:
  "oc_recovery_until (at_bucket now g ob) = oc_recovery_until ob"
  "oc_slow_start_started_at (at_bucket now g ob) = oc_slow_start_started_at ob"
  by (simp_all add: at_bucket_def bucket_for_def Let_def)

lemma throughput_keeps_recovery [simp]:
  "oc_recovery_until (record_throughput now dur bytes w ob) = oc_recovery_until ob"
  "oc_slow_start_started_at (record_throughput now dur bytes w ob) = oc_slow_start_started_at ob"
  by (simp_all add: record_throughput_def record_qualified_throughput_def Let_def)

lemma mix_keeps_recovery [simp]:
  "oc_recovery_until (record_traffic_mix now bucket w ob) = oc_recovery_until ob"
  "oc_slow_start_started_at (record_traffic_mix now bucket w ob) = oc_slow_start_started_at ob"
  by (simp_all add: record_traffic_mix_def Let_def)

lemma recover_keeps_waiting:
  "now \<le> u \<Longrightarrow> observed_in_backoff u (recover now window ob) \<longleftrightarrow> observed_in_backoff u ob"
  by (simp add: recover_def observed_in_backoff_def Let_def)

text \<open>A success takes nothing from the waiting that the observation still asks for.\<close>

lemma success_keeps_waiting:
  assumes "now \<le> u"
  shows "observed_in_backoff u (record_success now latency dur bytes window ob) \<longleftrightarrow> observed_in_backoff u ob"
proof -
  have same: "observed_in_backoff u x \<longleftrightarrow> observed_in_backoff u y"
    if "oc_recovery_until x = oc_recovery_until y" "oc_slow_start_started_at x = oc_slow_start_started_at y" for x y
    using that by (simp add: observed_in_backoff_def)
  let ?ob = "(record_outcome now True ob)\<lparr>oc_last_success_count := oc_last_success_count (record_outcome now True ob) + 1\<rparr>"
  have "observed_in_backoff u (record_success now latency dur bytes window ob) \<longleftrightarrow>
      observed_in_backoff u (recover now window ?ob)"
    by (rule same) (simp_all add: record_success_def Let_def split: prod.split)
  also have "\<dots> \<longleftrightarrow> observed_in_backoff u ?ob" by (rule recover_keeps_waiting [OF assms])
  also have "\<dots> \<longleftrightarrow> observed_in_backoff u ob" by (rule same) (simp_all add: record_outcome_def)
  finally show ?thesis .
qed

lemma remembers_prune:
  assumes "remembers delay key t f c" and "t \<le> now"
  shows "remembers delay key now f (prune_lazily now c)"
proof -
  let ?c = "prune_lazily now c"
  have "observed_in_backoff u (observed_at ?c key) \<longleftrightarrow> put_off u f" if u: "now \<le> u" for u
  proof (cases "Mapping.lookup (bc_observed c) key")
    case None
    then have "observed_at ?c key = observed_at c key"
      by (simp add: prune_locked_def Let_def Mapping.lookup_default_def Mapping.lookup_filter)
    with assms u show ?thesis by (simp add: remembers_def)
  next
    case (Some ob)
    show ?thesis
    proof (cases "inactive now ob \<and> Mapping.lookup (bc_observed ?c) key = None")
      case True
      then have "\<not> observed_in_backoff now (observed_at c key)"
        using Some by (auto simp: inactive_def Let_def lookup_default_Some split: if_splits)
      then have "\<not> put_off u f" using assms u by (auto simp: remembers_def put_off_def split: option.splits)
      with True show ?thesis
        by (simp add: Mapping.lookup_default_def observed_in_backoff_def zero_observation_def)
    next
      case False
      with Some have "observed_at ?c key = observed_at c key"
        by (auto simp: prune_locked_def Let_def Mapping.lookup_default_def Mapping.lookup_filter split: if_splits)
      with assms u show ?thesis by (simp add: remembers_def)
    qed
  qed
  moreover have "bc_failures ?c = bc_failures c" by (simp add: prune_locked_def Let_def)
  moreover have "backoff_duration ?c = backoff_duration c" by (rule backoff_duration_cong) simp_all
  ultimately show ?thesis using assms(1) by (simp add: remembers_def)
qed

lemma remembers_success:
  assumes "remembers delay key t f c" and "t \<le> now" and "trim_space a \<noteq> []"
  shows "remembers delay key now (if trim_space a = key then f\<lparr>in_a_row := 0\<rparr> else f)
    (observe_transfer_success now a latency dur bytes c)"
proof -
  let ?c = "prune_lazily now c"
  note p = remembers_prune [OF assms(1,2)]
  have d: "backoff_duration (observe_transfer_success now a latency dur bytes c) = delay"
    using assms(1) backoff_duration_cong [of "observe_transfer_success now a latency dur bytes c" c]
    by (simp add: remembers_def observe_transfer_success_def Let_def)
  show ?thesis
  proof (cases "trim_space a = key")
    case True
    then show ?thesis using p d assms(3) unfolding remembers_def
      by (simp add: observe_transfer_success_def Let_def Mapping.lookup_default_update success_keeps_waiting
          lookup_delete' put_off_def)
  next
    case False
    then show ?thesis using p d assms(3) unfolding remembers_def
      by (simp add: observe_transfer_success_def Let_def Mapping.lookup_default_update_neq lookup_delete')
  qed
qed

lemma remembers_failure:
  assumes "remembers delay key t f c" and "t \<le> now" and "0 \<le> t" and "trim_space a \<noteq> []" and "\<And>n. 0 < delay n"
  shows "remembers delay key now (if trim_space a = key then fails_at delay now f else f) (snd (mark_failure now a c))"
proof -
  let ?c = "prune_lazily now c"
  note p = remembers_prune [OF assms(1,2)]
  have d: "backoff_duration (snd (mark_failure now a c)) = delay"
    using assms(1) backoff_duration_cong [of "snd (mark_failure now a c)" c]
    by (simp add: remembers_def mark_failure_def apply_failure_locked_def Let_def)
  have e: "(case Mapping.lookup (bc_failures ?c) key of None \<Rightarrow> 0 | Some e \<Rightarrow> fe_consecutive e) = int (in_a_row f)"
    "backoff_duration ?c = delay"
    using p by (auto simp: remembers_def)
  show ?thesis
  proof (cases "trim_space a = key")
    case True
    have "now + delay (int (in_a_row f) + 1) + recovery_window \<noteq> zero_time"
      using assms(2,3) assms(5) [of "int (in_a_row f) + 1"]
      by (simp add: recovery_window_def zero_time_def minute_def second_def)
    with True e assms(4) d show ?thesis unfolding remembers_def
      by (simp add: mark_failure_def apply_failure_locked_def Let_def fails_at_def put_off_def
          observed_in_backoff_def Mapping.lookup_default_update add.commute)
  next
    case False
    then show ?thesis using p d assms(4) unfolding remembers_def
      by (simp add: mark_failure_def apply_failure_locked_def Let_def Mapping.lookup_default_update_neq
          Mapping.lookup_update_neq)
  qed
qed

lemma remembers_step:
  assumes "remembers delay key t f c" and "0 \<le> t" and "t \<le> op_time t op" and "key \<noteq> []"
    and "\<And>n. 0 < delay n" and "\<not> forced_prune op"
  shows "remembers delay key (op_time t op) (failing_step delay key op f) (cache_step op c)"
proof -
  have blank: "remembers delay key now f (observe_transfer_success now a latency dur bytes c)"
    "remembers delay key now f (snd (mark_failure now a c))" if "trim_space a = []" "t \<le> now" for now a latency dur bytes
    using that remembers_later [OF assms(1)] by (simp_all add: observe_transfer_success_def mark_failure_def)
  have success: "remembers delay key now (if trim_space a = key then f\<lparr>in_a_row := 0\<rparr> else f)
      (observe_transfer_success now a latency dur bytes c)" if "t \<le> now" for now a latency dur bytes
    using remembers_success [OF assms(1) that] blank(1) that assms(4) by (cases "trim_space a = []") auto
  have failure: "remembers delay key now (if trim_space a = key then fails_at delay now f else f)
      (snd (mark_failure now a c))" if "t \<le> now" for now a
    using remembers_failure [OF assms(1) that assms(2) _ assms(5)] blank(2) that assms(4)
    by (cases "trim_space a = []") auto
  have kept: "remembers delay key t f' c'"
    if "bc_backoff_base c' = bc_backoff_base c" "bc_backoff_limit c' = bc_backoff_limit c" "bc_observed c' = bc_observed c"
      "retry_at f' = retry_at f" "in_a_row f' = in_a_row f \<and> Mapping.lookup (bc_failures c') key = Mapping.lookup (bc_failures c) key
         \<or> in_a_row f' = 0 \<and> Mapping.lookup (bc_failures c') key = None" for f' c'
    using assms(1) that backoff_duration_cong [OF that(1,2)] by (auto simp: remembers_def put_off_def)
  show ?thesis
  proof (cases op)
    case (OpMarkSuccess a)
    have "remembers delay key t (if trim_space a = key then f\<lparr>in_a_row := 0\<rparr> else f) (mark_success a c)"
      by (rule kept) (auto simp: mark_success_def Let_def lookup_delete' assms(4))
    with OpMarkSuccess show ?thesis by simp
  next
    case (OpPrune now force)
    then show ?thesis using remembers_prune [OF assms(1)] assms(3,6) by simp
  next
    case (OpRoundRobin scope n)
    then show ?thesis by (auto simp: round_robin_offset_def Let_def intro!: kept)
  next
    case OpClone
    then show ?thesis by (auto simp: clone_def intro!: kept)
  qed (use assms(3) success failure in \<open>simp_all add: backend_success_same backend_failure_same\<close>)
qed

lemma remembers_run:
  "remembers delay key t f c \<Longrightarrow> 0 \<le> t \<Longrightarrow> clocked t ops \<Longrightarrow> key \<noteq> [] \<Longrightarrow> (\<And>n. 0 < delay n) \<Longrightarrow>
   \<forall>op \<in> set ops. \<not> forced_prune op \<Longrightarrow>
   remembers delay key (run_time t ops) (fold (failing_step delay key) ops f) (cache_run ops c)"
proof (induction ops arbitrary: t f c)
  case Nil
  then show ?case by (simp add: cache_run_def)
next
  case (Cons op ops)
  then have "remembers delay key (op_time t op) (failing_step delay key op f) (cache_step op c)"
    by (intro remembers_step) auto
  from Cons.IH [OF this] Cons.prems show ?case by (simp add: cache_run_def)
qed

lemma backoff_duration_pos: "limits_ok c \<Longrightarrow> 0 < backoff_duration c n"
  using backoff_loop_closed [of "bc_backoff_base c" "bc_backoff_limit c" "nat (n - 1)"]
  by (auto simp: limits_ok_def backoff_duration_def Let_def)

lemma new_cache_remembers: "remembers (backoff_duration (new_cache b l)) key t never_failed (new_cache b l)"
  by (simp add: remembers_def never_failed_def put_off_def observed_in_backoff_def new_cache_def Let_def
      Mapping.lookup_default_def zero_observation_def)

text \<open>What \<open>IsInBackoff\<close> answers, and whether the order takes an address for blocked.\<close>

lemma two_backoffs:
  fixes b l :: int and ops :: "cache_op list"
  defines "f \<equiv> \<lambda>a. failing_after (backoff_duration (new_cache b l)) (trim_space a) ops"
    and "c \<equiv> cache_run ops (new_cache b l)"
  assumes "clocked 0 ops" and "run_time 0 ops \<le> now" and "\<forall>op \<in> set ops. \<not> forced_prune op" and "trim_space a \<noteq> []"
  shows "observed_in_backoff now (observed_at c (trim_space a)) \<longleftrightarrow> put_off now (f a)"
    and "is_in_backoff now a c \<longleftrightarrow> put_off now (f a) \<and> in_a_row (f a) \<noteq> 0"
proof -
  have "remembers (backoff_duration (new_cache b l)) (trim_space a) (run_time 0 ops) (f a) c"
    unfolding f_def c_def failing_after_def
    by (rule remembers_run [OF new_cache_remembers _ assms(3,6) _ assms(5)])
      (simp_all add: backoff_duration_pos new_cache_limits)
  from remembers_later [OF this assms(4)] assms(6)
  show "observed_in_backoff now (observed_at c (trim_space a)) \<longleftrightarrow> put_off now (f a)"
    "is_in_backoff now a c \<longleftrightarrow> put_off now (f a) \<and> in_a_row (f a) \<noteq> 0"
    by (auto simp: remembers_def is_in_backoff_def Let_def put_off_def split: option.splits)
qed

end
