(* ===== verification/BackProps.thy ===== *)
theory BackProps
  imports BackPick BackFresh BackRetry
begin

text \<open>
  The properties of the backend cache: the counters of the last day, the backoff of a failing
  address and its two readings, the index of observations, the order of the candidates and the
  lookups of host names.
\<close>

subsection \<open>The counters of a day\<close>

text \<open>
  C34. The ring of 24 hourly buckets is the plain history of outcomes: for every sequence of
  successes and failures whose clock readings do not go back by a day, none of them later than the
  clock hour of \<open>now\<close>, the window counts each outcome of that hour and of the 23 before it (the last
  23 to 24 hours) once and no other, each hour modulo 65,536. The counters of a bucket are 16 bits
  wide, so an hour with 65,536 successes counts none.
\<close>

theorem hourly_counts:
  assumes "orderly es now"
  shows "wt_successes (window_stats now (record_events es)) = recent_outcomes now True es
       \<and> wt_failures (window_stats now (record_events es)) = recent_outcomes now False es"
  using window_counts [OF assms] by simp

text \<open>An hour of 65,536 successes and one failure.\<close>

lemma one_hour_count:
  assumes "\<forall>e \<in> set es. event_time e = t"
  shows "recent_outcomes t ok es = int (length (filter (\<lambda>e. event_ok e = ok) es) mod 65536)"
proof -
  have "outcomes_in h ok es = (if h = hour_of t then length (filter (\<lambda>e. event_ok e = ok) es) else 0)" for h
    using assms by (auto simp: outcomes_in_def filter_empty_conv intro!: arg_cong [where f = length] filter_cong)
  then have "recent_outcomes t ok es = (\<Sum>h \<in> {hour_of t - 23..hour_of t}.
      if h = hour_of t then int (length (filter (\<lambda>e. event_ok e = ok) es) mod 65536) else 0)"
    unfolding recent_outcomes_def by (intro sum.cong) auto
  then show ?thesis by simp
qed

definition noon :: time where
  "noon = 12 * hour"

definition busy_hour :: "outcome_event list" where
  "busy_hour = replicate 65536 (OutcomeSuccess noon 5000000 0 0 30000000000) @ [OutcomeFailure noon]"

lemma one_hour_orderly: "0 \<le> t \<Longrightarrow> \<forall>e \<in> set es. event_time e = t \<Longrightarrow> orderly es t"
  by (induction es) (simp_all add: orderly_def)

lemma busy_hour_time: "\<forall>e \<in> set busy_hour. event_time e = noon"
  by (simp add: busy_hour_def)

lemma busy_hour_orderly: "orderly busy_hour noon"
  by (rule one_hour_orderly [OF _ busy_hour_time]) (simp add: noon_def hour_def minute_def second_def)

theorem hourly_counts_witness:
  "wt_successes (window_stats noon (record_events busy_hour)) = 0
   \<and> wt_failures (window_stats noon (record_events busy_hour)) = 1
   \<and> stability_score (wt_successes (window_stats noon (record_events busy_hour)))
       (wt_failures (window_stats noon (record_events busy_hour))) = 0"
proof -
  note count = one_hour_count [OF busy_hour_time]
  have "recent_outcomes noon True busy_hour = 0" "recent_outcomes noon False busy_hour = 1"
    unfolding count by (simp_all add: busy_hour_def)
  then show ?thesis using hourly_counts [OF busy_hour_orderly] by (simp add: stability_score_def)
qed

subsection \<open>The backoff of a failing address\<close>

text \<open>The failures of a key since it last succeeded.\<close>

fun streak_step :: "string \<Rightarrow> cache_op \<Rightarrow> nat \<Rightarrow> nat" where
  "streak_step key (OpTransferSuccess now a latency dur bytes) n = (if trim_space a = key then 0 else n)"
| "streak_step key (OpBackendSuccess now a latency dur bytes) n = (if trim_space a = key then 0 else n)"
| "streak_step key (OpBackendFailure now a) n = (if trim_space a = key then n + 1 else n)"
| "streak_step key (OpMarkFailure now a) n = (if trim_space a = key then n + 1 else n)"
| "streak_step key (OpMarkSuccess a) n = (if trim_space a = key then 0 else n)"
| "streak_step key op n = n"

definition streak :: "string \<Rightarrow> cache_op list \<Rightarrow> nat" where
  "streak key ops = fold (streak_step key) ops 0"

definition consecutive :: "string \<Rightarrow> backend_cache \<Rightarrow> int" where
  "consecutive key c = (case Mapping.lookup (bc_failures c) key of None \<Rightarrow> 0 | Some e \<Rightarrow> fe_consecutive e)"

lemma lazy_prune_failures [simp]: "bc_failures (prune_lazily now c) = bc_failures c"
  by (simp add: prune_locked_def Let_def)

lemma mark_failure_consecutive:
  assumes "key \<noteq> []"
  shows "consecutive key (snd (mark_failure now a c)) = consecutive key c + (if trim_space a = key then 1 else 0)"
  using assms
  by (auto simp: mark_failure_def apply_failure_locked_def Let_def consecutive_def Mapping.lookup_update' split: option.split)

lemma success_consecutive:
  assumes "key \<noteq> []"
  shows "consecutive key (observe_transfer_success now a latency dur bytes c) =
           (if trim_space a = key then 0 else consecutive key c)"
  using assms by (auto simp: observe_transfer_success_def Let_def consecutive_def lookup_delete')

lemma consecutive_streak_step:
  assumes "key \<noteq> []" and "\<not> forced_prune op" and "consecutive key c = int n"
  shows "consecutive key (cache_step op c) = int (streak_step key op n)"
proof (cases op)
  case (OpMarkSuccess a)
  then show ?thesis using assms by (auto simp: mark_success_def Let_def consecutive_def lookup_delete')
next
  case (OpRoundRobin scope n)
  then show ?thesis using assms(3) by (simp add: round_robin_offset_def Let_def consecutive_def)
next
  case OpClone
  then show ?thesis using assms(3) by (simp add: clone_def consecutive_def)
next
  case (OpPrune now force)
  then show ?thesis using assms(2,3) by (simp add: consecutive_def)
qed (use assms(3) in \<open>simp_all add: backend_success_same backend_failure_same mark_failure_consecutive [OF assms(1)]
    success_consecutive [OF assms(1)]\<close>)

lemma consecutive_streak:
  assumes "key \<noteq> []" and "\<forall>op \<in> set ops. \<not> forced_prune op"
  shows "consecutive key (cache_run ops (new_cache b l)) = int (streak key ops)"
  using assms(2)
proof (induction ops rule: rev_induct)
  case Nil
  then show ?case by (simp add: cache_run_def streak_def consecutive_def new_cache_def Let_def)
next
  case (snoc op ops)
  then show ?case using consecutive_streak_step [OF assms(1), of op] by (simp add: cache_run_def streak_def)
qed

lemma mark_failure_backoff:
  assumes "trim_space a \<noteq> []" and "mark_failure now a c = (d, c')"
  shows "d = backoff_duration (prune_lazily now c) (consecutive (trim_space a) c + 1)"
    and "is_in_backoff t a c' \<longleftrightarrow> t < now + d"
  using assms
  by (auto simp: mark_failure_def apply_failure_locked_def Let_def consecutive_def is_in_backoff_def)

text \<open>
  C36. A failing address waits longer with every failure: after any history without a forced
  prune, its next backoff is the base doubled once for every failure since its last success (at
  most one nanosecond above, where the doubling meets the middle of an odd limit), never below
  the base and never above the limit; and the address is in backoff exactly until it has passed.
\<close>

theorem backoff_follows_streak:
  fixes b l :: int and ops :: "cache_op list"
  defines "c \<equiv> cache_run ops (new_cache b l)" and "base \<equiv> bc_backoff_base (new_cache b l)"
    and "limit \<equiv> bc_backoff_limit (new_cache b l)"
  assumes "\<forall>op \<in> set ops. \<not> forced_prune op" and "trim_space a \<noteq> []" and "mark_failure now a c = (d, c')"
  shows "base \<le> d \<and> d \<le> limit
    \<and> (limit \<le> base * 2 ^ streak (trim_space a) ops \<longrightarrow> d = limit)
    \<and> (base * 2 ^ streak (trim_space a) ops < limit \<longrightarrow>
         base * 2 ^ streak (trim_space a) ops \<le> d \<and> d \<le> base * 2 ^ streak (trim_space a) ops + 1)
    \<and> (\<forall>t. is_in_backoff t a c' \<longleftrightarrow> t < now + d)"
proof -
  have n: "consecutive (trim_space a) c = int (streak (trim_space a) ops)"
    using consecutive_streak [OF assms(5,4)] by (simp add: c_def)
  have ok: "limits_ok (prune_lazily now c)"
    using cache_run_limits [OF new_cache_limits, of ops b l] by (simp add: c_def limits_ok_def)
  have same: "bc_backoff_base (prune_lazily now c) = base" "bc_backoff_limit (prune_lazily now c) = limit"
  proof -
    have "bc_backoff_base (cache_run ops x) = bc_backoff_base x \<and> bc_backoff_limit (cache_run ops x) = bc_backoff_limit x" for x
      unfolding cache_run_def by (induction ops arbitrary: x) simp_all
    then show "bc_backoff_base (prune_lazily now c) = base" "bc_backoff_limit (prune_lazily now c) = limit"
      by (simp_all add: c_def base_def limit_def)
  qed
  note d = mark_failure_backoff [OF assms(5,6)]
  have "1 \<le> consecutive (trim_space a) c + 1" by (simp add: n)
  from backoff_duration_closed [OF ok this] show ?thesis
    unfolding d(1) [symmetric] same using d(2) by (simp add: n)
qed

definition flaky :: "cache_op list" where
  "flaky = [OpMarkFailure 0 ''10.0.0.1:80'', OpMarkFailure 1000000000 ''10.0.0.1:80'', OpMarkFailure 5000000000 '' 10.0.0.1:80'']"

lemma trim_address: "trim_space ''10.0.0.1:80'' = ''10.0.0.1:80''" "trim_space '' 10.0.0.1:80'' = ''10.0.0.1:80''"
  by code_simp+

theorem backoff_follows_streak_witness:
  "8 * second \<le> fst (mark_failure 9000000000 ''10.0.0.1:80'' (cache_run flaky (new_cache 0 0)))
   \<and> fst (mark_failure 9000000000 ''10.0.0.1:80'' (cache_run flaky (new_cache 0 0))) \<le> 8 * second + 1"
proof -
  have s: "streak (trim_space ''10.0.0.1:80'') flaky = 3"
    by (simp add: streak_def flaky_def trim_address)
  obtain d c' where m: "mark_failure 9000000000 ''10.0.0.1:80'' (cache_run flaky (new_cache 0 0)) = (d, c')"
    by fastforce
  have "\<forall>op \<in> set flaky. \<not> forced_prune op" by (simp add: flaky_def)
  from backoff_follows_streak [OF this _ m] show ?thesis
    unfolding s m by (simp add: trim_address new_cache_def Let_def second_def)
qed

subsection \<open>The two backoffs of a candidate\<close>

text \<open>
  C35. After every history of cache operations on a clock that does not go back, without a forced
  prune, let \<open>f a\<close> be what the history says of the address \<open>a\<close> (not blank). \<open>IsInBackoff\<close> holds of \<open>a\<close>
  exactly while the delay of its last failure has not passed and it has not succeeded since. And in
  the order of the resolved candidates of a request without exploration (the draw is at least 20),
  an address for which the delay of its last failure has not passed, whether it has succeeded since
  or not, never stands before one for which it has passed or which never failed.

  The two readings differ after a success within the delay: \<open>freed_but_behind\<close> is a history after
  which an address in backoff stands before one that \<open>IsInBackoff\<close> calls free.
\<close>

theorem blocked_candidates_last:
  fixes b l :: int and ops :: "cache_op list"
  defines "f \<equiv> \<lambda>a. failing_after (backoff_duration (new_cache b l)) (trim_space a) ops"
    and "c \<equiv> cache_run ops (new_cache b l)"
  assumes "clocked 0 ops" and "run_time 0 ops \<le> now" and "\<forall>op \<in> set ops. \<not> forced_prune op"
    and "draw 100 \<ge> 20" and "\<forall>x \<in> set cands. trim_space (uc_address x) \<noteq> []"
  shows "(\<forall>a. trim_space a \<noteq> [] \<longrightarrow> (is_in_backoff now a c \<longleftrightarrow> put_off now (f a) \<and> in_a_row (f a) \<noteq> 0))
    \<and> (\<forall>i j. i < j \<longrightarrow> j < length cands \<longrightarrow>
         put_off now (f (uc_address (prefer_resolved_candidates l1p draw now cands allow c ! i))) \<longrightarrow>
         put_off now (f (uc_address (prefer_resolved_candidates l1p draw now cands allow c ! j))))"
proof (intro conjI allI impI)
  have reads: "observed_in_backoff now (observed_at c (trim_space a)) \<longleftrightarrow> put_off now (f a)"
    "is_in_backoff now a c \<longleftrightarrow> put_off now (f a) \<and> in_a_row (f a) \<noteq> 0" if "trim_space a \<noteq> []" for a
    unfolding f_def c_def using two_backoffs [OF assms(3-5) that, of b l] by simp_all
  show "is_in_backoff now a c \<longleftrightarrow> put_off now (f a) \<and> in_a_row (f a) \<noteq> 0" if "trim_space a \<noteq> []" for a
    by (rule reads(2) [OF that])
  let ?out = "prefer_resolved_candidates l1p draw now cands allow c"
  fix i j
  assume ij: "i < j" "j < length cands" and blocked: "put_off now (f (uc_address (?out ! i)))"
  then have "1 < length cands" by simp
  then obtain mix where order: "?out = explore_reference draw (preference_of l1p (observed_at c) now allow mix) cands"
    by (rule prefer_resolved_reference)
  let ?pf = "preference_of l1p (observed_at c) now allow mix"
  have "\<not> draw 100 < exploration_budget ?pf cands" using assms(6) budget_bounded [of ?pf cands] by linarith
  then have out: "?out = ranked ?pf cands" by (simp add: order explore_reference_def Let_def)
  have "set ?out = set cands" "length ?out = length cands" by (simp_all add: out ranked_def)
  then have named: "trim_space (uc_address (?out ! k)) \<noteq> []" if "k < length cands" for k
    using assms(7) that by (metis nth_mem)
  have read: "pf_in_backoff (?pf (?out ! k)) \<longleftrightarrow> put_off now (f (uc_address (?out ! k)))" if "k < length cands" for k
    using reads(1) [OF named [OF that]] by simp
  have "pf_in_backoff (?pf (ranked ?pf cands ! i))" using blocked read [of i] ij unfolding out by simp
  from ranked_blocked_last [where pf = ?pf, OF ij this] show "put_off now (f (uc_address (?out ! j)))"
    using read [OF ij(2)] unfolding out by simp
qed

definition two_candidates :: "upstream_candidate list" where
  "two_candidates = [\<lparr>uc_endpoint = \<lparr>ep_host = ''a'', ep_port = 80\<rparr>, uc_address = ''10.0.0.1:80''\<rparr>,
                     \<lparr>uc_endpoint = \<lparr>ep_host = ''b'', ep_port = 80\<rparr>, uc_address = ''10.0.0.2:80''\<rparr>]"

definition first_fails :: "cache_op list" where
  "first_fails = [OpMarkFailure 0 ''10.0.0.1:80'', OpTransferSuccess 0 ''10.0.0.2:80'' 5000000 0 0]"

lemma trim_second: "trim_space ''10.0.0.2:80'' = ''10.0.0.2:80''"
  by code_simp

lemma failing_first:
  "put_off 500000000 (failing_after (backoff_duration (new_cache 0 0)) ''10.0.0.1:80'' first_fails)"
  "\<not> put_off 500000000 (failing_after (backoff_duration (new_cache 0 0)) ''10.0.0.2:80'' first_fails)"
  by (simp_all add: failing_after_def first_fails_def trim_address trim_second fails_at_def put_off_def never_failed_def
      backoff_duration_def new_cache_def second_def Let_def)

theorem blocked_candidates_last_witness:
  "uc_address (prefer_resolved_candidates (\<lambda>x. x) (\<lambda>n. 50) 500000000 two_candidates True
     (cache_run first_fails (new_cache 0 0)) ! 0) = ''10.0.0.2:80''"
proof -
  let ?c = "cache_run first_fails (new_cache 0 0)"
  let ?f = "\<lambda>a. failing_after (backoff_duration (new_cache 0 0)) (trim_space a) first_fails"
  let ?out = "prefer_resolved_candidates (\<lambda>x. x) (\<lambda>n. 50) 500000000 two_candidates True ?c"
  have hyps: "clocked 0 first_fails" "run_time 0 first_fails \<le> 500000000" "\<forall>op \<in> set first_fails. \<not> forced_prune op"
    "\<forall>x \<in> set two_candidates. trim_space (uc_address x) \<noteq> []"
    by (simp_all add: first_fails_def two_candidates_def trim_address trim_second)
  have "1 < length two_candidates" by (simp add: two_candidates_def)
  then obtain mix where "?out = explore_reference (\<lambda>n. 50) (preference_of (\<lambda>x. x) (observed_at ?c) 500000000 True mix) two_candidates"
    by (rule prefer_resolved_reference)
  then have m: "mset ?out = mset two_candidates" by simp
  then have len: "length ?out = length two_candidates" by (metis size_mset)
  obtain x y where xy: "?out = [x, y]" using len by (auto simp: two_candidates_def length_Suc_conv)
  have "mset [uc_address x, uc_address y] = mset (map uc_address two_candidates)"
    using m unfolding xy by (metis list.map(1,2) mset_map)
  then have two: "uc_address x = ''10.0.0.2:80'' \<or> uc_address x = ''10.0.0.1:80'' \<and> uc_address y = ''10.0.0.2:80''"
    by (auto simp: two_candidates_def add_eq_conv_ex)
  have "put_off 500000000 (?f (uc_address (?out ! 0))) \<longrightarrow> put_off 500000000 (?f (uc_address (?out ! 1)))"
    using blocked_candidates_last [OF hyps(1-3) _ hyps(4), of "\<lambda>n. 50" 0 0 "\<lambda>x. x" True] by (simp add: two_candidates_def)
  with two failing_first show ?thesis by (auto simp: xy trim_address trim_second)
qed

text \<open>
  Both addresses fail at once and the second then succeeds. Within the delay \<open>IsInBackoff\<close> calls the
  second free, but the order still takes both for blocked and keeps them as they came: the address
  in backoff stands first.
\<close>

definition one_recovers :: "cache_op list" where
  "one_recovers = [OpMarkFailure 0 ''10.0.0.1:80'', OpMarkFailure 0 ''10.0.0.2:80'', OpMarkSuccess ''10.0.0.2:80'']"

definition failed_once :: "candidate_observation \<Rightarrow> candidate_observation" where
  "failed_once ob = (record_failure 0 ob)\<lparr>oc_had_backoff := True, oc_recovery_until := 121 * second,
     oc_recovery_successes := 0, oc_slow_start_started_at := second, oc_slow_start_until := 121 * second\<rparr>"

lemma failure_observed:
  assumes "trim_space a \<noteq> []" and "Mapping.lookup (bc_failures c) (trim_space a) = None"
    and "bc_backoff_base c = second" "bc_backoff_limit c = 60 * second"
  shows "observed_at (snd (mark_failure 0 a c)) k =
      (if k = trim_space a then failed_once (observed_at (prune_lazily 0 c) k) else observed_at (prune_lazily 0 c) k)"
    and "bc_last_pruned (snd (mark_failure 0 a c)) = bc_last_pruned (prune_lazily 0 c)"
  using assms
  by (simp_all add: mark_failure_def apply_failure_locked_def Let_def Mapping.lookup_default_update' store_backend_index_def
      failed_once_def backoff_duration_def recovery_window_def minute_def second_def split: option.split)

lemma not_pruned: "bc_last_pruned c = 0 \<Longrightarrow> prune_lazily 0 c = c"
  by (simp add: prune_locked_def zero_time_def prune_interval_def minute_def second_def)

lemma same_observations:
  "observed_at (cache_run one_recovers (new_cache 0 0)) ''10.0.0.1:80'' = failed_once zero_observation"
  "observed_at (cache_run one_recovers (new_cache 0 0)) ''10.0.0.2:80'' = failed_once zero_observation"
proof -
  let ?c0 = "new_cache 0 0 :: backend_cache"
  define c1 where "c1 = snd (mark_failure 0 ''10.0.0.1:80'' ?c0)"
  define c2 where "c2 = snd (mark_failure 0 ''10.0.0.2:80'' c1)"
  have pruned: "observed_at (prune_lazily 0 ?c0) k = zero_observation" "bc_last_pruned (prune_lazily 0 ?c0) = 0" for k
    by (simp_all add: prune_locked_def new_cache_def Let_def Mapping.lookup_default_def Mapping.lookup_filter)
  have empty: "Mapping.lookup (bc_failures ?c0) k = None" "bc_backoff_base ?c0 = second" "bc_backoff_limit ?c0 = 60 * second" for k
    by (simp_all add: new_cache_def Let_def second_def)
  have c1: "observed_at c1 k = (if k = ''10.0.0.1:80'' then failed_once zero_observation else zero_observation)"
    "bc_last_pruned c1 = 0" for k
    using failure_observed [of "''10.0.0.1:80''" ?c0] pruned empty by (simp_all add: c1_def trim_address)
  have fresh: "Mapping.lookup (bc_failures c1) ''10.0.0.2:80'' = None" "bc_backoff_base c1 = second"
    "bc_backoff_limit c1 = 60 * second"
    using empty by (simp_all add: c1_def mark_failure_def apply_failure_locked_def trim_address Let_def
        Mapping.lookup_update')
  have "observed_at c2 k = (if k = ''10.0.0.2:80'' then failed_once (observed_at c1 k) else observed_at c1 k)" for k
    using failure_observed(1) [of "''10.0.0.2:80''" c1 k] fresh not_pruned [OF c1(2)] by (simp add: c2_def trim_second)
  moreover have "observed_at (cache_run one_recovers (new_cache 0 0)) k = observed_at c2 k" for k
    by (simp add: cache_run_def one_recovers_def c2_def c1_def mark_success_def trim_second Let_def)
  ultimately show "observed_at (cache_run one_recovers (new_cache 0 0)) ''10.0.0.1:80'' = failed_once zero_observation"
    "observed_at (cache_run one_recovers (new_cache 0 0)) ''10.0.0.2:80'' = failed_once zero_observation"
    by (simp_all add: c1(1))
qed

lemma freed_but_behind:
  fixes c defines "c \<equiv> cache_run one_recovers (new_cache 0 0)"
  assumes "draw 100 \<ge> 20"
  shows "is_in_backoff 500000000 ''10.0.0.1:80'' c" and "\<not> is_in_backoff 500000000 ''10.0.0.2:80'' c"
    and "map uc_address (prefer_resolved_candidates l1p draw 500000000 two_candidates allow c) = [''10.0.0.1:80'', ''10.0.0.2:80'']"
proof -
  have hyps: "clocked 0 one_recovers" "run_time 0 one_recovers \<le> 500000000" "\<forall>op \<in> set one_recovers. \<not> forced_prune op"
    by (simp_all add: one_recovers_def)
  have reads: "put_off 500000000 (failing_after (backoff_duration (new_cache 0 0)) ''10.0.0.1:80'' one_recovers)"
    "in_a_row (failing_after (backoff_duration (new_cache 0 0)) ''10.0.0.1:80'' one_recovers) = 1"
    "in_a_row (failing_after (backoff_duration (new_cache 0 0)) ''10.0.0.2:80'' one_recovers) = 0"
    by (simp_all add: failing_after_def one_recovers_def trim_address trim_second fails_at_def put_off_def never_failed_def
        backoff_duration_def new_cache_def second_def Let_def)
  show "is_in_backoff 500000000 ''10.0.0.1:80'' c" "\<not> is_in_backoff 500000000 ''10.0.0.2:80'' c"
    using two_backoffs(2) [OF hyps, of "''10.0.0.1:80''" 0 0] two_backoffs(2) [OF hyps, of "''10.0.0.2:80''" 0 0] reads
    by (simp_all add: c_def trim_address trim_second)
  have "1 < length two_candidates" by (simp add: two_candidates_def)
  then obtain mix where order: "prefer_resolved_candidates l1p draw 500000000 two_candidates allow c =
      explore_reference draw (preference_of l1p (observed_at c) 500000000 allow mix) two_candidates"
    by (rule prefer_resolved_reference)
  let ?pf = "preference_of l1p (observed_at c) 500000000 allow mix"
  have "?pf (two_candidates ! 0) = ?pf (two_candidates ! 1)"
    using same_observations by (simp add: preference_of_def two_candidates_def trim_address trim_second c_def)
  then have "ranked ?pf two_candidates = two_candidates" by (simp add: ranked_def two_candidates_def)
  moreover have "\<not> draw 100 < exploration_budget ?pf two_candidates"
    using assms(2) budget_bounded [of ?pf two_candidates] by linarith
  ultimately have "prefer_resolved_candidates l1p draw 500000000 two_candidates allow c = two_candidates"
    by (simp add: order explore_reference_def Let_def)
  then show "map uc_address (prefer_resolved_candidates l1p draw 500000000 two_candidates allow c) =
      [''10.0.0.1:80'', ''10.0.0.2:80'']"
    by (simp add: two_candidates_def)
qed

subsection \<open>The index of backend observations\<close>

text \<open>
  C37. The index of backend observations is transparent, as long as no scope has a pipe beside a
  space: after every history whose keys either do not begin with \<open>backend|\<close> or were made by
  \<open>BackendObservationKey\<close> of a scope in which no space stands before or after the first pipe, the
  observation found for any scope and backend is the one stored under their key, whether the index
  has it or not. The scopes of \<open>RelayPathScope\<close> are such (\<open>relay_path_tidy\<close>), and every scope without
  a pipe. For other scopes the claim is false: see \<open>index_disagrees\<close>.
\<close>

theorem index_is_transparent:
  assumes "\<forall>op \<in> set ops. \<forall>k. op_key op = Some k \<longrightarrow> tidy_key k"
  shows "backend_observation (cache_run ops (new_cache b l)) (trim_space scope) (trim_space backend_id) =
           observed_at (cache_run ops (new_cache b l)) (backend_observation_key scope backend_id)"
proof -
  have "\<forall>op \<in> set ops. \<forall>k. op_key op = Some k \<longrightarrow> trim_space k \<noteq> [] \<longrightarrow> canonical (trim_space k)"
    using assms tidy_keyD by blast
  from index_lookup [OF index_agrees_run [OF new_cache_index this]] show ?thesis .
qed

text \<open>The key of a relay path.\<close>

definition path_key :: string where
  "path_key = backend_observation_key (relay_path_scope ''a:443'') ''relay|1-2|a:443''"

lemma path_key_tidy: "tidy_key path_key"
  unfolding tidy_key_def path_key_def using relay_path_tidy by blast

text \<open>
  A failure of the backend \<open>c\<close> in the scope \<open>a |b\<close>: the index gives it to the backend \<open>b|c\<close> of the
  scope \<open>a\<close>, under whose key nothing is stored.
\<close>

lemma index_disagrees:
  fixes c defines "c \<equiv> cache_run [OpBackendFailure 0 (backend_observation_key ''a |b'' ''c'')] (new_cache 0 0)"
  shows "oc_had_backoff (backend_observation c ''a'' ''b|c'')"
    and "observed_at c (backend_observation_key ''a'' ''b|c'') = zero_observation"
proof -
  have trims: "trim_space ''a |b'' = ''a |b''" "trim_space ''c'' = ''c''" "trim_space ''a'' = ''a''"
    "trim_space ''a '' = ''a''" "trim_space ''b|c'' = ''b|c''" "trim_space ''backend|a |b|c'' = ''backend|a |b|c''"
    by code_simp+
  have keys: "backend_observation_key ''a |b'' ''c'' = ''backend|a |b|c''"
    "backend_observation_key ''a'' ''b|c'' = ''backend|a|b|c''"
    "parse_index_key ''backend|a |b|c'' = Some (''a'', ''b|c'')"
    by (simp_all add: backend_observation_key_def backend_observation_prefix_def parse_index_key_def has_prefix_def
        index_byte_def trims Let_def)
  show "oc_had_backoff (backend_observation c ''a'' ''b|c'')"
    "observed_at c (backend_observation_key ''a'' ''b|c'') = zero_observation"
    unfolding c_def keys
    by (simp_all add: cache_run_def observe_backend_failure_def apply_failure_locked_def prune_locked_def new_cache_def
        backend_observation_def store_backend_index_def trims keys Let_def Mapping.lookup_default_def Mapping.lookup_update'
        Mapping.lookup_filter)
qed

definition path_ops :: "cache_op list" where
  "path_ops = [OpBackendFailure 0 path_key, OpPrune 400000000000 False]"

theorem index_is_transparent_witness:
  "backend_observation (cache_run path_ops (new_cache 0 0)) (trim_space '' site'') (trim_space ''http://a'') =
     observed_at (cache_run path_ops (new_cache 0 0)) (backend_observation_key '' site'' ''http://a'')"
  by (rule index_is_transparent) (simp add: path_ops_def path_key_tidy)

subsection \<open>The order of the candidates\<close>

text \<open>
  C38. Both adaptive orders are their reference: the stable sort that puts candidates out of
  backoff, then the stabler, then the faster first, turned at the first candidate worth exploring
  when the draw falls below the budget of 10, 15 or 20 percent. No candidate is lost or doubled.
\<close>

theorem order_follows_reference:
  assumes "1 < length cands" and "normalize_strategy strategy = strategy_adaptive"
  shows "order_candidates l1p draw now scope strategy cands allow c =
           (explore_reference draw (preference_of l1p (backend_observation c (trim_space scope)) now allow
              (snd (backend_snapshots scope cands now allow c))) cands, c)
       \<and> prefer_resolved_candidates l1p draw now cands allow c =
           explore_reference draw (preference_of l1p (observed_at c) now allow
              (snd (resolved_snapshots cands now allow c))) cands
       \<and> mset (fst (order_candidates l1p draw now scope strategy cands allow c)) = mset cands"
proof -
  have a: "order_candidates l1p draw now scope strategy cands allow c =
           (explore_reference draw (preference_of l1p (backend_observation c (trim_space scope)) now allow
              (snd (backend_snapshots scope cands now allow c))) cands, c)"
    using assms explore_order_reference [of draw l1p cands "backend_observation c (trim_space scope)" now allow]
    by (simp add: order_candidates_def split_beta backend_snapshots_def strategy_adaptive_def
        strategy_round_robin_def strategy_random_def)
  moreover have "prefer_resolved_candidates l1p draw now cands allow c =
           explore_reference draw (preference_of l1p (observed_at c) now allow
              (snd (resolved_snapshots cands now allow c))) cands"
    using assms(1) explore_order_reference [of draw l1p cands "observed_at c" now allow]
    by (simp add: prefer_resolved_candidates_def split_beta resolved_snapshots_def)
  ultimately show ?thesis by simp
qed

theorem order_follows_reference_witness:
  "mset (fst (order_candidates (\<lambda>x. x) (\<lambda>n. 5) 0 ''site'' ''Adaptive'' two_candidates True (new_cache 0 0))) =
     mset two_candidates"
proof -
  have "normalize_strategy ''Adaptive'' = strategy_adaptive" by code_simp
  moreover have "1 < length two_candidates" by (simp add: two_candidates_def)
  ultimately show ?thesis using order_follows_reference by blast
qed

text \<open>The round robin answers of consecutive requests; every candidate leads once in a round.\<close>

lemma round_robin_round:
  assumes "normalize_strategy strategy = strategy_round_robin" and "1 < length cands"
    and "Mapping.lookup_default 0 (bc_round_robin c) (trim_space scope) = 0"
  shows "map hd (rr_answers (length cands) l1p draw now scope strategy cands allow c) = cands"
proof (rule nth_equalityI)
  have r: "rr_answers (length cands) l1p draw now scope strategy cands allow c = map (\<lambda>i. rotate i cands) [0..<length cands]"
    using rr_answers_rotate [OF assms(1,2,3)] by simp
  then show "length (map hd (rr_answers (length cands) l1p draw now scope strategy cands allow c)) = length cands" by simp
  fix i
  assume "i < length (map hd (rr_answers (length cands) l1p draw now scope strategy cands allow c))"
  then have i: "i < length cands" by (simp add: r)
  then have "rotate i cands \<noteq> []" by auto
  then have "hd (rotate i cands) = cands ! i" using i by (simp add: hd_rotate_conv_nth)
  then show "map hd (rr_answers (length cands) l1p draw now scope strategy cands allow c) ! i = cands ! i"
    using i by (simp add: r)
qed

subsection \<open>Host names\<close>

text \<open>
  C39. One lookup at a time: however callers, contexts, the resolver, the clock and other
  operations on the cache interleave, two callers never perform a lookup of the same host at
  once, and a caller waits only for a lookup that is done or that another caller still performs.
\<close>

theorem one_lookup_per_host:
  fixes b l :: int and t :: time and es :: "dns_event list"
  defines "w \<equiv> dns_run es (new_dns_world b l t)"
  assumes "i < length (dw_callers w)"
  shows "(\<forall>p. flight w i = Some p \<longrightarrow>
            {j. j < length (dw_callers w) \<and> dc_host (dw_callers w ! j) = dc_host (dw_callers w ! i) \<and> flight w j \<noteq> None} = {i})
       \<and> (\<forall>p. dc_phase (dw_callers w ! i) = Waiting p \<longrightarrow>
            p < length (dw_lookups w) \<and> dl_host (dw_lookups w ! p) = dc_host (dw_callers w ! i)
            \<and> (dl_result (dw_lookups w ! p) = None \<longrightarrow> (\<exists>j. j \<noteq> i \<and> in_flight w j p)))"
proof (intro conjI allI impI)
  have ok: "flights_ok w" unfolding w_def by (rule flights_ok_run [OF new_dns_flights])
  {
    fix p
    assume p: "flight w i = Some p"
    have i: "in_flight w i p" using assms(2) p by simp
    have "j = i" if j: "in_flight w j q" "dc_host (dw_callers w ! j) = dc_host (dw_callers w ! i)" for j q
    proof -
      have "p = q" using flights_okD(4) [OF ok i] flights_okD(4) [OF ok j(1)] j(2) by simp
      then show ?thesis using flights_okD(6) [OF ok j(1)] i by simp
    qed
    then show "{j. j < length (dw_callers w) \<and> dc_host (dw_callers w ! j) = dc_host (dw_callers w ! i)
        \<and> flight w j \<noteq> None} = {i}"
      using i by auto
  }
  fix p
  assume a: "dc_phase (dw_callers w ! i) = Waiting p"
  then have p: "waits_for (dc_phase (dw_callers w ! i)) = Some p" by simp
  from flights_okD(7) [OF ok assms(2) p] show "p < length (dw_lookups w)" .
  from flights_okD(8) [OF ok assms(2) p] show "dl_host (dw_lookups w ! p) = dc_host (dw_callers w ! i)" .
  assume "dl_result (dw_lookups w ! p) = None"
  from flights_okD(9) [OF ok assms(2) p this] obtain j where j: "in_flight w j p" by blast
  then have "j \<noteq> i" using a by auto
  with j show "\<exists>j. j \<noteq> i \<and> in_flight w j p" by blast
qed

definition joined_events :: "dns_event list" where
  "joined_events =
     [Call ''a.example'', CheckContext 0, ReadClock 0, LockCache 0,
      Call ''a.example'', CheckContext 1, ReadClock 1, LockCache 1]"

theorem one_lookup_per_host_witness:
  "\<exists>j. j \<noteq> 1 \<and> in_flight (dns_run joined_events (new_dns_world 0 0 0)) j 0"
proof -
  have run: "length (dw_callers (dns_run joined_events (new_dns_world 0 0 0))) = 2
    \<and> dc_phase (dw_callers (dns_run joined_events (new_dns_world 0 0 0)) ! 1) = Waiting 0
    \<and> dl_result (dw_lookups (dns_run joined_events (new_dns_world 0 0 0)) ! 0) = None"
    by (simp add: dns_run_def joined_events_def new_dns_world_def new_cache_def Let_def check_context_def lock_cache_def)
  then have "1 < length (dw_callers (dns_run joined_events (new_dns_world 0 0 0)))" by simp
  from one_lookup_per_host [OF this] run show ?thesis by blast
qed

text \<open>
  C40. No answer is too old: what a caller gets for a host is an answer of the resolver for that
  host, not empty, published after the caller asked and on a reading of the clock less than two
  and a half minutes after the answer came.
\<close>

theorem dns_answers_fresh:
  fixes b l :: int and t :: time and es :: "dns_event list"
  defines "w \<equiv> dns_run es (new_dns_world b l t)"
  assumes "i < length (dw_callers w)" and "dc_phase (dw_callers w ! i) = Returned (Inr ips)"
  shows "ips \<noteq> [] \<and> (\<exists>came r out. (dc_host (dw_callers w ! i), came, ips) \<in> set (dw_answers w)
           \<and> (dc_host (dw_callers w ! i), r, out, ips) \<in> set (dw_published w)
           \<and> dc_since (dw_callers w ! i) \<le> out \<and> r \<le> out \<and> r < came + 150 * second)"
proof -
  have ok: "fresh_ok w" unfolding w_def by (rule fresh_ok_run [OF new_dns_fresh new_dns_flights])
  let ?c = "dw_callers w ! i"
  obtain r out where pub: "(dc_host ?c, r, out, ips) \<in> set (dw_published w)" "dc_since ?c \<le> out"
    using fresh_okD(2) [OF ok assms(2)] assms(3) by (auto simp: caller_fresh_def handed_out_def)
  from fresh_okD(3) [OF ok pub(1)] obtain came where "(dc_host ?c, came, ips) \<in> set (dw_answers w)"
    "r < came + answer_age" "r \<le> out"
    by (auto simp: published_fresh_def)
  moreover from this(1) have "ips \<noteq> []" using ok by (auto simp: fresh_ok_def)
  moreover have "answer_age = 150 * second"
    by (simp add: answer_age_def dns_ttl_def dns_stale_ttl_def minute_def)
  ultimately show ?thesis using pub by auto
qed

text \<open>An answer, its expiry, a failed refresh, and the stale answer.\<close>

definition stale_events :: "dns_event list" where
  "stale_events =
     [Call ''a.example'', CheckContext 0, ReadClock 0, LockCache 0, Answer 0 (Inr [Some ''10.0.0.1'', None, Some ''10.0.0.1'']),
      ReadClockAgain 0, StoreAnswer 0, Tick 100000000000,
      Call ''a.example'', CheckContext 1, ReadClock 1, LockCache 1, Answer 1 (Inl (ResolverError ''timeout'' False)),
      ReadClockAgain 1, StoreAnswer 1]"

theorem dns_answers_fresh_witness:
  "[''10.0.0.1''] \<noteq> [] \<and> (\<exists>came r out.
       (dc_host (dw_callers (dns_run stale_events (new_dns_world 0 0 0)) ! 1), came, [''10.0.0.1''])
          \<in> set (dw_answers (dns_run stale_events (new_dns_world 0 0 0)))
       \<and> (dc_host (dw_callers (dns_run stale_events (new_dns_world 0 0 0)) ! 1), r, out, [''10.0.0.1''])
          \<in> set (dw_published (dns_run stale_events (new_dns_world 0 0 0)))
       \<and> dc_since (dw_callers (dns_run stale_events (new_dns_world 0 0 0)) ! 1) \<le> out \<and> r \<le> out \<and> r < came + 150 * second)"
proof (rule dns_answers_fresh)
  have run: "length (dw_callers (dns_run stale_events (new_dns_world 0 0 0))) = 2
    \<and> dc_phase (dw_callers (dns_run stale_events (new_dns_world 0 0 0)) ! 1) = Returned (Inr [''10.0.0.1''])"
    by (simp add: dns_run_def stale_events_def new_dns_world_def new_cache_def Let_def check_context_def lock_cache_def
        answer_lookup_def resolve_host_def store_answer_def store_entry_def stale_answer_def dns_ttl_def dns_stale_ttl_def
        dns_retain_until_def second_def minute_def)
  from run show "1 < length (dw_callers (dns_run stale_events (new_dns_world 0 0 0)))" by simp
  from run show "dc_phase (dw_callers (dns_run stale_events (new_dns_world 0 0 0)) ! 1) = Returned (Inr [''10.0.0.1''])" by simp
qed

end
