(* ===== verification/RelayIO.thy ===== *)
theory RelayIO
  imports GoText "HOL-Library.Word"
begin

text \<open>
  Go's byte streams as the relay module of the agent uses them: \<open>io.Writer\<close> and \<open>io.Reader\<close> as
  functions on the state of the stream, the \<open>writeAll\<close> loop of \<open>modules/relay/protocol.go\<close>,
  \<open>io.ReadFull\<close>, and the big-endian integers of \<open>encoding/binary\<close>. The two locales state what a
  writer and a reader promise; a connection is an instance of both, and so is the masked
  connection of \<open>RelayMask\<close>.
\<close>

type_synonym byte = "8 word"

datatype io_error =
    End_Of_File
  | Unexpected_EOF
  | Short_Write
  | Closed_Pipe
  | Net_Closed
  | Deadline_Exceeded
  | Io_Error string

text \<open>
  \<open>w.Write(p)\<close> returns the number of bytes taken and an error, \<open>r.Read(p)\<close> with \<open>len(p) = n\<close> the
  bytes it put into \<open>p\<close> and an error; a \<open>Read\<close> that never returns is \<open>None\<close>.
\<close>

type_synonym 'w writer = "'w \<Rightarrow> byte list \<Rightarrow> int \<times> io_error option \<times> 'w"
type_synonym 'r reader = "'r \<Rightarrow> nat \<Rightarrow> (byte list \<times> io_error option \<times> 'r) option"

subsection \<open>Writing everything\<close>

function write_all :: "'w writer \<Rightarrow> 'w \<Rightarrow> byte list \<Rightarrow> io_error option \<times> 'w" where
  "write_all wr w payload =
     (if payload = [] then (None, w)
      else case wr w payload of
             (n, Some e, w') \<Rightarrow> (Some e, w')
           | (n, None, w') \<Rightarrow>
               if n \<le> 0 then (Some Short_Write, w') else write_all wr w' (drop (nat n) payload))"
  by pat_completeness auto
termination
  by (relation "measure (\<lambda>(wr, w, payload). length payload)") auto

declare write_all.simps [simp del]

lemma write_all_Nil [simp]: "write_all wr w [] = (None, w)"
  by (simp add: write_all.simps)

lemma take_min_length: "take (min k (length p)) p = take k p"
  by (simp add: min_def)

text \<open>
  The contract of a writer. \<open>out w\<close> are the bytes that have gone through it, \<open>sound w\<close> says that
  no write has failed: a failed write passes a prefix on, and promises nothing for later.
\<close>

locale byte_sink =
  fixes wr :: "'w writer" and out :: "'w \<Rightarrow> byte list" and sound :: "'w \<Rightarrow> bool"
  assumes write_ok: "sound w \<Longrightarrow> wr w p = (n, None, w') \<Longrightarrow>
      nat n \<le> length p \<and> out w' = out w @ take (nat n) p \<and> sound w'"
    and write_failed: "sound w \<Longrightarrow> wr w p = (n, Some e, w') \<Longrightarrow>
      \<exists>k \<le> length p. out w' = out w @ take k p"
begin

lemma write_all_ok:
  "sound w \<Longrightarrow> write_all wr w p = (None, w') \<Longrightarrow> out w' = out w @ p \<and> sound w'"
proof (induction p arbitrary: w rule: length_induct)
  case (1 p)
  show ?case
  proof (cases "p = []")
    case True
    with 1 show ?thesis by simp
  next
    case False
    obtain n e v where wr: "wr w p = (n, e, v)" by (cases "wr w p")
    with False 1(3) have e: "e = None" "0 < n" "write_all wr v (drop (nat n) p) = (None, w')"
      by (auto simp: write_all.simps[of wr w p] split: option.splits if_splits)
    with wr write_ok[OF 1(2)] have v: "out v = out w @ take (nat n) p" "sound v" by auto
    from e False have "length (drop (nat n) p) < length p" by simp
    with 1(1) v e have "out w' = out v @ drop (nat n) p \<and> sound w'" by blast
    with v show ?thesis by simp
  qed
qed

lemma write_all_failed:
  "sound w \<Longrightarrow> write_all wr w p = (Some e, w') \<Longrightarrow> \<exists>k \<le> length p. out w' = out w @ take k p"
proof (induction p arbitrary: w rule: length_induct)
  case (1 p)
  obtain n x v where wr: "wr w p = (n, x, v)" by (cases "wr w p")
  with 1(3) have ne: "p \<noteq> []" by auto
  show ?case
  proof (cases x)
    case (Some y)
    with 1 wr ne have "v = w'" by (simp add: write_all.simps[of wr w p])
    with wr Some write_failed[OF 1(2)] show ?thesis by blast
  next
    case None
    with wr write_ok[OF 1(2)] have v: "nat n \<le> length p" "out v = out w @ take (nat n) p" "sound v"
      by auto
    show ?thesis
    proof (cases "n \<le> 0")
      case True
      with 1 wr ne None have "v = w'" by (simp add: write_all.simps[of wr w p])
      with v show ?thesis by blast
    next
      case False
      with 1 wr ne None have "write_all wr v (drop (nat n) p) = (Some e, w')"
        by (simp add: write_all.simps[of wr w p])
      moreover from False ne have "length (drop (nat n) p) < length p" by simp
      ultimately obtain k where k: "k \<le> length (drop (nat n) p)"
        "out w' = out v @ take k (drop (nat n) p)"
        using 1(1) v by blast
      have "take (nat n) p @ take k (drop (nat n) p) = take (nat n + k) p" by (simp add: take_add)
      with v k show ?thesis by (intro exI[of _ "nat n + k"]) auto
    qed
  qed
qed

text \<open>A write of one piece fails before its end or not at all.\<close>

lemma write_all_prefix:
  assumes "sound w" and "write_all wr w p = (e, w')"
  shows "\<exists>k \<le> length p. out w' = out w @ take k p"
  using assms write_all_ok[of w p w'] write_all_failed[of w p _ w'] by (cases e) auto

end

subsection \<open>Reading exactly\<close>

text \<open>
  \<open>io.ReadFull(r, buf)\<close> with \<open>len(buf) = n\<close>: it reads until \<open>buf\<close> is full or the reader fails. A
  reader that returns no byte and no error keeps it going; then the value is \<open>None\<close>.
\<close>

partial_function (option) read_from ::
  "'r reader \<Rightarrow> 'r \<Rightarrow> nat \<Rightarrow> byte list \<Rightarrow> ((io_error + byte list) \<times> 'r) option" where
  "read_from rd r n got =
     (if n \<le> length got then Some (Inr got, r)
      else Option.bind (rd r (n - length got)) (\<lambda>(d, e, r').
        case e of
          None \<Rightarrow> read_from rd r' n (got @ d)
        | Some x \<Rightarrow>
            Some (if n \<le> length (got @ d) then Inr (got @ d)
                  else if got @ d \<noteq> [] \<and> x = End_Of_File then Inl Unexpected_EOF
                  else Inl x, r')))"

definition read_full :: "'r reader \<Rightarrow> 'r \<Rightarrow> nat \<Rightarrow> ((io_error + byte list) \<times> 'r) option" where
  "read_full rd r n = read_from rd r n []"

text \<open>
  The contract of a reader: \<open>rest r\<close> are the bytes still to come, \<open>final r\<close> the error after
  them.
\<close>

locale byte_source =
  fixes rd :: "'r reader" and rest :: "'r \<Rightarrow> byte list" and final :: "'r \<Rightarrow> io_error"
    and usable :: "'r \<Rightarrow> bool"
  assumes read_some: "usable r \<Longrightarrow> 0 < n \<Longrightarrow> rest r \<noteq> [] \<Longrightarrow>
      \<exists>d r'. rd r n = Some (d, None, r') \<and> d \<noteq> [] \<and> length d \<le> n \<and> rest r = d @ rest r' \<and>
        usable r' \<and> final r' = final r"
    and read_end: "usable r \<Longrightarrow> 0 < n \<Longrightarrow> rest r = [] \<Longrightarrow>
      \<exists>r'. rd r n = Some ([], Some (final r), r')"
begin

lemma read_from_all:
  "usable r \<Longrightarrow> length got \<le> n \<Longrightarrow> n - length got \<le> length (rest r) \<Longrightarrow>
   \<exists>r'. read_from rd r n got = Some (Inr (got @ take (n - length got) (rest r)), r') \<and> usable r' \<and>
     rest r' = drop (n - length got) (rest r) \<and> final r' = final r"
proof (induction "n - length got" arbitrary: got r rule: less_induct)
  case less
  show ?case
  proof (cases "n \<le> length got")
    case True
    with less.prems show ?thesis by (subst read_from.simps) simp
  next
    case False
    with less.prems have "rest r \<noteq> []" "0 < n - length got" by auto
    with read_some[OF less.prems(1)] obtain d r1 where d: "rd r (n - length got) = Some (d, None, r1)"
      "d \<noteq> []" "length d \<le> n - length got" "rest r = d @ rest r1" "usable r1" "final r1 = final r"
      by blast
    from d False have "n - length (got @ d) < n - length got" by (simp add: diff_less_mono2)
    moreover from d False less.prems have "length (got @ d) \<le> n" "n - length (got @ d) \<le> length (rest r1)"
      by auto
    ultimately obtain r' where r': "read_from rd r1 n (got @ d) =
        Some (Inr ((got @ d) @ take (n - length (got @ d)) (rest r1)), r')"
      "usable r'" "rest r' = drop (n - length (got @ d)) (rest r1)" "final r' = final r1"
      using less.hyps[of "got @ d" r1] d(5) by blast
    from d(2,3) False r' d show ?thesis by (subst read_from.simps) (simp add: diff_diff_left)
  qed
qed

lemma read_from_short:
  "usable r \<Longrightarrow> length got \<le> n \<Longrightarrow> length (rest r) < n - length got \<Longrightarrow>
   \<exists>r'. read_from rd r n got =
       Some (Inl (if got @ rest r \<noteq> [] \<and> final r = End_Of_File then Unexpected_EOF else final r), r')"
proof (induction "n - length got" arbitrary: got r rule: less_induct)
  case less
  then have open_end: "\<not> n \<le> length got" "0 < n - length got" by auto
  show ?case
  proof (cases "rest r = []")
    case True
    with read_end[OF less.prems(1) open_end(2)] open_end show ?thesis
      by (subst read_from.simps) auto
  next
    case False
    with read_some[OF less.prems(1) open_end(2)] obtain d r1 where
      d: "rd r (n - length got) = Some (d, None, r1)" "d \<noteq> []" "length d \<le> n - length got"
        "rest r = d @ rest r1" "usable r1" "final r1 = final r"
      by blast
    from d open_end have "n - length (got @ d) < n - length got" by (simp add: diff_less_mono2)
    moreover from d open_end less.prems have "length (got @ d) \<le> n"
      "length (rest r1) < n - length (got @ d)" by auto
    ultimately obtain r' where r': "read_from rd r1 n (got @ d) =
        Some (Inl (if (got @ d) @ rest r1 \<noteq> [] \<and> final r1 = End_Of_File then Unexpected_EOF
                   else final r1), r')"
      using less.hyps[of "got @ d" r1] d(5) by blast
    from r' d open_end show ?thesis by (subst read_from.simps) simp
  qed
qed

lemma read_full_all:
  assumes "usable r" and "rest r = p @ more" and "length p = n"
  shows "\<exists>r'. read_full rd r n = Some (Inr p, r') \<and> usable r' \<and> rest r' = more \<and> final r' = final r"
  using read_from_all[of r "[]" n] assms by (auto simp: read_full_def)

lemma read_full_end:
  assumes "usable r" and "rest r = []" and "0 < n"
  shows "\<exists>r'. read_full rd r n = Some (Inl (final r), r')"
  using read_from_short[of r "[]" n] assms by (auto simp: read_full_def)

lemma read_full_cut:
  assumes "usable r" and "rest r \<noteq> []" and "length (rest r) < n"
  shows "\<exists>r'. read_full rd r n =
      Some (Inl (if final r = End_Of_File then Unexpected_EOF else final r), r')"
  using read_from_short[of r "[]" n] assms by (auto simp: read_full_def)

end

subsection \<open>Connections\<close>

text \<open>
  A \<open>net.Conn\<close> as the relay sees it. Of the bytes handed to \<open>Write\<close> it takes as many as it likes
  and may fail at any write; bytes arrive in pieces of any size until the connection ends with
  some error. How the coming calls go is the part of the state the theorems quantify over.
\<close>

datatype write_outcome = Took nat | Refused nat io_error

record conn =
  sent :: "byte list"
  outcomes :: "write_outcome list"

definition conn_write :: "conn writer" where
  "conn_write c p =
     (case outcomes c of
        [] \<Rightarrow> (int (length p), None, c\<lparr>sent := sent c @ p\<rparr>)
      | Took k # os \<Rightarrow>
          (int (length (take k p)), None, c\<lparr>sent := sent c @ take k p, outcomes := os\<rparr>)
      | Refused k e # os \<Rightarrow>
          (int (length (take k p)), Some e, c\<lparr>sent := sent c @ take k p, outcomes := os\<rparr>))"

record feed =
  incoming :: "byte list"
  pieces :: "nat list"
  ending :: io_error

definition conn_read :: "feed reader" where
  "conn_read c n =
     Some (if incoming c = [] then ([], Some (ending c), c)
           else case pieces c of
                  [] \<Rightarrow> (take n (incoming c), None, c\<lparr>incoming := drop n (incoming c)\<rparr>)
                | k # ks \<Rightarrow>
                    let m = min n (max 1 k)
                    in (take m (incoming c), None, c\<lparr>incoming := drop m (incoming c), pieces := ks\<rparr>))"

interpretation tcp_out: byte_sink conn_write sent "\<lambda>_. True"
proof
  fix w p n w'
  assume "conn_write w p = (n, None, w')"
  then show "nat n \<le> length p \<and> sent w' = sent w @ take (nat n) p \<and> True"
    by (auto simp: conn_write_def min_def split: list.splits write_outcome.splits)
next
  fix w p n e w'
  assume "conn_write w p = (n, Some e, w')"
  then obtain k where "sent w' = sent w @ take k p"
    by (auto simp: conn_write_def split: list.splits write_outcome.splits)
  then have "sent w' = sent w @ take (min k (length p)) p" by (simp only: take_min_length)
  then show "\<exists>k \<le> length p. sent w' = sent w @ take k p" by (meson min.cobounded2)
qed

interpretation tcp_in: byte_source conn_read incoming ending "\<lambda>_. True"
  by unfold_locales (auto simp: conn_read_def Let_def split: list.splits)

lemma write_all_on_time [simp]:
  "outcomes c = [] \<Longrightarrow> write_all conn_write c p = (None, c\<lparr>sent := sent c @ p\<rparr>)"
  by (simp add: write_all.simps[of conn_write c p] conn_write_def)

subsection \<open>Big-endian integers\<close>

definition be16 :: "16 word \<Rightarrow> byte list" where
  "be16 v = [ucast (drop_bit 8 v), ucast v]"

definition be32 :: "32 word \<Rightarrow> byte list" where
  "be32 v = [ucast (drop_bit 24 v), ucast (drop_bit 16 v), ucast (drop_bit 8 v), ucast v]"

definition get_be16 :: "byte list \<Rightarrow> 16 word" where
  "get_be16 b = or (ucast (b ! 1)) (push_bit 8 (ucast (b ! 0)))"

definition get_be32 :: "byte list \<Rightarrow> 32 word" where
  "get_be32 b =
     or (or (ucast (b ! 3)) (push_bit 8 (ucast (b ! 2))))
        (or (push_bit 16 (ucast (b ! 1))) (push_bit 24 (ucast (b ! 0))))"

lemma length_be [simp]: "length (be16 v) = 2" "length (be32 u) = 4"
  by (simp_all add: be16_def be32_def)

lemma get_be16_be16 [simp]: "get_be16 (be16 v) = v"
  by (rule bit_word_eqI) (auto simp: get_be16_def be16_def bit_simps)

lemma get_be32_be32 [simp]: "get_be32 (be32 v) = v"
proof (rule bit_word_eqI)
  fix n
  assume "n < LENGTH(32)"
  then have "n < 8 \<or> 8 \<le> n \<and> n < 16 \<or> 16 \<le> n \<and> n < 24 \<or> 24 \<le> n \<and> n < 32" by auto
  then show "bit (get_be32 (be32 v)) n = bit v n"
    by (elim disjE) (auto simp: get_be32_def be32_def bit_simps)
qed

lemma unat_of_length:
  "n < 2 ^ 32 \<Longrightarrow> unat (of_nat n :: 32 word) = n"
  "n < 2 ^ 16 \<Longrightarrow> unat (of_nat n :: 16 word) = n"
  by (simp_all add: unat_of_nat)

end
