(* ===== verification/RelayFrames.thy ===== *)
theory RelayFrames
  imports RelayIO
begin

text \<open>
  The frames of the relay: the mux frames of a tunnel (\<open>modules/relay/mux_protocol.go\<close>), the
  datagrams of UDP over TCP (\<open>uot.go\<close>) and the length-prefixed JSON messages
  (\<open>protocol.go\<close>). \<open>frame_codec\<close> states once what it means that a reader understands a writer;
  each format is an instance of it over every source of bytes.
\<close>

subsection \<open>Steps of a reading function\<close>

definition read_bind ::
  "((io_error + 'a) \<times> 'r) option \<Rightarrow> ('a \<Rightarrow> 'r \<Rightarrow> ((io_error + 'b) \<times> 'r) option) \<Rightarrow>
   ((io_error + 'b) \<times> 'r) option" where
  "read_bind m f =
     (case m of
        None \<Rightarrow> None
      | Some (Inl e, r) \<Rightarrow> Some (Inl e, r)
      | Some (Inr a, r) \<Rightarrow> f a r)"

lemma read_bind_simps [simp]:
  "read_bind (Some (Inl e, r)) f = Some (Inl e, r)"
  "read_bind (Some (Inr a, r)) f = f a r"
  by (simp_all add: read_bind_def)

subsection \<open>Mux frames\<close>

definition mux_protocol_version :: byte where
  "mux_protocol_version = 1"

definition max_request_size :: nat where
  "max_request_size = 1048576"

definition max_mux_payload_bytes :: nat where
  "max_mux_payload_bytes = max_request_size"

definition mux_frame_header_size :: nat where
  "mux_frame_header_size = 11"

definition tls_tcp_bulk_frame_size :: nat where
  "tls_tcp_bulk_frame_size = 65536"

definition mux_open :: byte where "mux_open = 1"
definition mux_open_result :: byte where "mux_open_result = 2"
definition mux_data :: byte where "mux_data = 3"
definition mux_fin :: byte where "mux_fin = 4"
definition mux_rst :: byte where "mux_rst = 5"

definition mux_flag_ack_required :: byte where
  "mux_flag_ack_required = 1"

record mux_frame =
  fr_version :: byte
  fr_type :: byte
  fr_flags :: byte
  fr_stream :: "32 word"
  fr_payload :: "byte list"

definition mux_header :: "mux_frame \<Rightarrow> byte list" where
  "mux_header f =
     [fr_version f, fr_type f, fr_flags f] @ be32 (fr_stream f) @
     be32 (of_nat (length (fr_payload f)))"

definition with_version :: "mux_frame \<Rightarrow> mux_frame" where
  "with_version f = (if fr_version f = 0 then f\<lparr>fr_version := mux_protocol_version\<rparr> else f)"

definition mux_too_large :: io_error where
  "mux_too_large = Io_Error ''mux payload exceeds 1048576 bytes''"

definition write_mux_frame :: "'w writer \<Rightarrow> 'w \<Rightarrow> mux_frame \<Rightarrow> io_error option \<times> 'w" where
  "write_mux_frame wr w frame =
     (let f = with_version frame in
      if max_mux_payload_bytes < length (fr_payload f) then (Some mux_too_large, w)
      else if length (fr_payload f) \<le> tls_tcp_bulk_frame_size
      then write_all wr w (mux_header f @ fr_payload f)
      else case write_all wr w (mux_header f) of
             (Some e, w') \<Rightarrow> (Some e, w')
           | (None, w') \<Rightarrow>
               if fr_payload f = [] then (None, w') else write_all wr w' (fr_payload f))"

text \<open>\<open>buf\<close> stands for the length of the buffer of \<open>writeMuxFrameBuffered\<close>.\<close>

definition write_mux_frame_buffered ::
  "'w writer \<Rightarrow> 'w \<Rightarrow> mux_frame \<Rightarrow> nat \<Rightarrow> io_error option \<times> 'w" where
  "write_mux_frame_buffered wr w frame buf =
     (if tls_tcp_bulk_frame_size < length (fr_payload frame) \<or>
         buf < mux_frame_header_size + length (fr_payload frame)
      then write_mux_frame wr w frame
      else let f = with_version frame in
           if max_mux_payload_bytes < length (fr_payload f) then (Some mux_too_large, w)
           else write_all wr w (mux_header f @ fr_payload f))"

definition read_mux_frame :: "'r reader \<Rightarrow> 'r \<Rightarrow> ((io_error + mux_frame) \<times> 'r) option" where
  "read_mux_frame rd r =
     read_bind (read_full rd r mux_frame_header_size) (\<lambda>header r1.
       let size = get_be32 (drop 7 header) in
       if max_mux_payload_bytes < unat size
       then Some (Inl (Io_Error (''invalid mux payload size '' @ itoa (uint size))), r1)
       else read_bind (read_full rd r1 (unat size)) (\<lambda>payload r2.
              Some (Inr \<lparr>fr_version = header ! 0, fr_type = header ! 1, fr_flags = header ! 2,
                         fr_stream = get_be32 (take 4 (drop 3 header)), fr_payload = payload\<rparr>, r2)))"

definition mux_bytes :: "mux_frame \<Rightarrow> byte list" where
  "mux_bytes f = mux_header (with_version f) @ fr_payload f"

lemma with_version_fields [simp]:
  "fr_payload (with_version f) = fr_payload f" "fr_stream (with_version f) = fr_stream f"
  "fr_type (with_version f) = fr_type f" "fr_flags (with_version f) = fr_flags f"
  by (simp_all add: with_version_def)

lemma length_mux_header [simp]: "length (mux_header f) = mux_frame_header_size"
  by (simp add: mux_header_def mux_frame_header_size_def)

text \<open>The pooled buffer only saves an allocation.\<close>

lemma write_mux_frame_buffered_eq: "write_mux_frame_buffered wr w f buf = write_mux_frame wr w f"
  by (simp add: write_mux_frame_buffered_def write_mux_frame_def Let_def)

subsection \<open>Length-prefixed messages\<close>

text \<open>\<open>marshal\<close> stands for \<open>json.Marshal\<close> and \<open>unmarshal\<close> for \<open>json.Unmarshal\<close>.\<close>

definition write_frame ::
  "('v \<Rightarrow> io_error + byte list) \<Rightarrow> 'w writer \<Rightarrow> 'w \<Rightarrow> 'v \<Rightarrow> io_error option \<times> 'w" where
  "write_frame marshal wr w v =
     (case marshal v of
        Inl e \<Rightarrow> (Some e, w)
      | Inr payload \<Rightarrow>
          if max_request_size < length payload
          then (Some (Io_Error ''relay request exceeds 1048576 bytes''), w)
          else case write_all wr w (be32 (of_nat (length payload))) of
                 (Some e, w') \<Rightarrow> (Some e, w')
               | (None, w') \<Rightarrow> write_all wr w' payload)"

definition read_frame :: "'r reader \<Rightarrow> 'r \<Rightarrow> ((io_error + byte list) \<times> 'r) option" where
  "read_frame rd r =
     read_bind (read_full rd r 4) (\<lambda>header r1.
       let size = get_be32 header in
       if size = 0 \<or> max_request_size < unat size
       then Some (Inl (Io_Error (''invalid relay request size '' @ itoa (uint size))), r1)
       else read_full rd r1 (unat size))"

definition read_message ::
  "(byte list \<Rightarrow> io_error + 'v) \<Rightarrow> 'r reader \<Rightarrow> 'r \<Rightarrow> ((io_error + 'v) \<times> 'r) option" where
  "read_message unmarshal rd r =
     read_bind (read_frame rd r) (\<lambda>payload r1. Some (unmarshal payload, r1))"

definition frame_bytes :: "byte list \<Rightarrow> byte list" where
  "frame_bytes payload = be32 (of_nat (length payload)) @ payload"

subsection \<open>UDP over TCP\<close>

definition max_uot_packet_size :: nat where
  "max_uot_packet_size = 65536"

definition uot_bytes :: "byte list \<Rightarrow> byte list" where
  "uot_bytes payload = be16 (of_nat (length payload)) @ payload"

text \<open>\<open>writeUOTPacketInto\<close> returns the buffer it used for the next packet.\<close>

definition write_uot_packet_into ::
  "'w writer \<Rightarrow> 'w \<Rightarrow> byte list \<Rightarrow> byte list \<Rightarrow> byte list \<times> io_error option \<times> 'w" where
  "write_uot_packet_into wr w buf payload =
     (if max_uot_packet_size < length payload
      then (buf, Some (Io_Error ''uot packet exceeds 65536 bytes''), w)
      else let buf' = uot_bytes payload in (buf', write_all wr w buf'))"

definition write_uot_packet :: "'w writer \<Rightarrow> 'w \<Rightarrow> byte list \<Rightarrow> io_error option \<times> 'w" where
  "write_uot_packet wr w payload = snd (write_uot_packet_into wr w [] payload)"

definition read_uot_packet :: "'r reader \<Rightarrow> 'r \<Rightarrow> ((io_error + byte list) \<times> 'r) option" where
  "read_uot_packet rd r =
     read_bind (read_full rd r 2) (\<lambda>header r1. read_full rd r1 (unat (get_be16 header)))"

definition read_uot_packet_into ::
  "'r reader \<Rightarrow> 'r \<Rightarrow> nat \<Rightarrow> ((io_error + byte list) \<times> 'r) option" where
  "read_uot_packet_into rd r buf =
     read_bind (read_full rd r 2) (\<lambda>header r1.
       let size = unat (get_be16 header) in
       if buf < size
       then Some (Inl (Io_Error (''uot packet size '' @ itoa (int size) @ '' exceeds buffer '' @
                                 itoa (int buf))), r1)
       else read_full rd r1 size)"

text \<open>A stream peer reads with a buffer of the largest packet.\<close>

definition peer_read_packet :: "'r reader \<Rightarrow> 'r \<Rightarrow> ((io_error + byte list) \<times> 'r) option" where
  "peer_read_packet rd r = read_uot_packet_into rd r max_uot_packet_size"

definition peer_write_packet :: "'w writer \<Rightarrow> 'w \<Rightarrow> byte list \<Rightarrow> io_error option \<times> 'w" where
  "peer_write_packet wr w payload = write_uot_packet wr w payload"

subsection \<open>Sequences of frames\<close>

text \<open>
  A sender writes frames until one fails; a receiver is a loop that handles a frame and reads
  the next until the reader fails, as \<open>readLoop\<close> and \<open>serverTLSTCPSession.run\<close> do.
\<close>

fun send_frames :: "('w \<Rightarrow> 'f \<Rightarrow> io_error option \<times> 'w) \<Rightarrow> 'w \<Rightarrow> 'f list \<Rightarrow> io_error option \<times> 'w" where
  "send_frames put w [] = (None, w)"
| "send_frames put w (f # fs) =
     (case put w f of
        (Some e, w') \<Rightarrow> (Some e, w')
      | (None, w') \<Rightarrow> send_frames put w' fs)"

partial_function (option) receive_frames ::
  "('r \<Rightarrow> ((io_error + 'f) \<times> 'r) option) \<Rightarrow> 'r \<Rightarrow> ('f list \<times> io_error \<times> 'r) option" where
  "receive_frames get r =
     Option.bind (get r) (\<lambda>(x, r').
       case x of
         Inl e \<Rightarrow> Some ([], e, r')
       | Inr f \<Rightarrow>
           Option.bind (receive_frames get r') (\<lambda>(fs, e, r''). Some (f # fs, e, r'')))"

definition cut_short :: "io_error \<Rightarrow> io_error \<Rightarrow> bool" where
  "cut_short final e \<longleftrightarrow> e = final \<or> e = Unexpected_EOF"

locale frame_codec = byte_source rd rest final usable
  for rd :: "'r reader" and rest :: "'r \<Rightarrow> byte list" and final :: "'r \<Rightarrow> io_error"
    and usable :: "'r \<Rightarrow> bool" +
  fixes get :: "'r \<Rightarrow> ((io_error + 'f) \<times> 'r) option" and enc :: "'f \<Rightarrow> byte list"
    and legal :: "'f \<Rightarrow> bool"
  assumes get_frame: "usable r \<Longrightarrow> legal f \<Longrightarrow> rest r = enc f @ later \<Longrightarrow>
      \<exists>r'. get r = Some (Inr f, r') \<and> usable r' \<and> rest r' = later \<and> final r' = final r"
    and get_cut: "usable r \<Longrightarrow> legal f \<Longrightarrow> enc f = rest r @ later \<Longrightarrow> later \<noteq> [] \<Longrightarrow>
      \<exists>e r'. get r = Some (Inl e, r') \<and> cut_short (final r) e"
    and get_end: "usable r \<Longrightarrow> rest r = [] \<Longrightarrow> \<exists>r'. get r = Some (Inl (final r), r')"
begin

text \<open>
  Whatever part of a sequence of frames arrives, the receiver sees exactly the frames that
  arrived whole.
\<close>

lemma receive_whole:
  "usable r \<Longrightarrow> \<forall>f \<in> set fs. legal f \<Longrightarrow> rest r = concat (map enc fs) \<Longrightarrow>
   \<exists>r'. receive_frames get r = Some (fs, final r, r')"
proof (induction fs arbitrary: r)
  case Nil
  with get_end[of r] show ?case by (auto simp: receive_frames.simps[of get r])
next
  case (Cons f fs)
  then obtain r1 where r1: "get r = Some (Inr f, r1)" "usable r1" "rest r1 = concat (map enc fs)"
    "final r1 = final r"
    using get_frame[of r f "concat (map enc fs)"] by auto
  with Cons.IH[of r1] Cons.prems(2) obtain r' where "receive_frames get r1 = Some (fs, final r1, r')"
    by auto
  with r1 show ?case by (simp add: receive_frames.simps[of get r])
qed

lemma receive_part:
  "usable r \<Longrightarrow> \<forall>f \<in> set fs. legal f \<Longrightarrow> concat (map enc fs) = rest r @ later \<Longrightarrow>
   \<exists>n e r'. receive_frames get r = Some (take n fs, e, r') \<and> cut_short (final r) e \<and> n \<le> length fs \<and>
     length (concat (map enc (take n fs))) \<le> length (rest r)"
proof (induction fs arbitrary: r)
  case Nil
  then show ?case using get_end[of r]
    by (auto simp: receive_frames.simps[of get r] cut_short_def)
next
  case (Cons f fs)
  show ?case
  proof (cases "length (enc f) \<le> length (rest r)")
    case True
    with Cons.prems(3) have split: "rest r = enc f @ drop (length (enc f)) (rest r)"
      by (metis append_eq_append_conv_if append_take_drop_id concat.simps(2) list.simps(9))
    with Cons.prems get_frame[of r f "drop (length (enc f)) (rest r)"] obtain r1 where
      r1: "get r = Some (Inr f, r1)" "usable r1" "rest r1 = drop (length (enc f)) (rest r)"
        "final r1 = final r"
      by auto
    from Cons.prems(3) split r1(3) have "concat (map enc fs) = rest r1 @ later"
      by (metis append.assoc append_same_eq concat.simps(2) list.simps(9) same_append_eq)
    with Cons r1 obtain n e r' where n: "receive_frames get r1 = Some (take n fs, e, r')"
      "cut_short (final r1) e" "n \<le> length fs"
      "length (concat (map enc (take n fs))) \<le> length (rest r1)"
      by (metis list.set_intros(2))
    with r1 have "receive_frames get r = Some (take (Suc n) (f # fs), e, r')"
      by (simp add: receive_frames.simps[of get r])
    moreover have "length (concat (map enc (take (Suc n) (f # fs)))) \<le> length (rest r)"
      using n(4) r1(3) True by (simp del: length_concat)
    ultimately show ?thesis using n(2,3) r1(4)
      by (intro exI[of _ "Suc n"] exI[of _ e] exI[of _ r']) simp
  next
    case False
    then have "take (length (rest r)) (enc f) = rest r"
      using Cons.prems(3) by (simp add: append_eq_append_conv_if)
    then have eq: "enc f = rest r @ drop (length (rest r)) (enc f)"
      by (metis append_take_drop_id)
    from False have ne: "drop (length (rest r)) (enc f) \<noteq> []" by simp
    from Cons.prems get_cut[OF _ _ eq ne] obtain e r' where
      "get r = Some (Inl e, r')" "cut_short (final r) e" by auto
    then show ?thesis
      by (intro exI[of _ 0] exI[of _ e] exI[of _ r']) (simp add: receive_frames.simps[of get r])
  qed
qed

end

context byte_sink
begin

text \<open>A writer of frames that hands each encoding to \<open>writeAll\<close>, in one or several pieces.\<close>

lemma send_frames_ok:
  assumes put: "\<And>w f w'. sound w \<Longrightarrow> f \<in> set fs \<Longrightarrow> put w f = (None, w') \<Longrightarrow> out w' = out w @ enc f \<and> sound w'"
  shows "sound w \<Longrightarrow> send_frames put w fs = (None, w') \<Longrightarrow>
    out w' = out w @ concat (map enc fs) \<and> sound w'"
  using put
proof (induction fs arbitrary: w)
  case (Cons f fs)
  from Cons.prems(2) obtain w1 where w1: "put w f = (None, w1)" "send_frames put w1 fs = (None, w')"
    by (auto split: prod.splits option.splits)
  with Cons.prems(1,3) have w2: "out w1 = out w @ enc f \<and> sound w1"
    by (meson list.set_intros(1))
  have "out w' = out w1 @ concat (map enc fs) \<and> sound w'"
    by (rule Cons.IH[OF conjunct2[OF w2] w1(2)]) (use Cons.prems(3) in \<open>(meson list.set_intros(2))+\<close>)
  with w2 show ?case by simp
qed simp

lemma send_frames_failed:
  assumes put: "\<And>w f w'. sound w \<Longrightarrow> f \<in> set fs \<Longrightarrow> put w f = (None, w') \<Longrightarrow> out w' = out w @ enc f \<and> sound w'"
    and failed: "\<And>w f e w'. sound w \<Longrightarrow> f \<in> set fs \<Longrightarrow> put w f = (Some e, w') \<Longrightarrow>
      \<exists>k \<le> length (enc f). out w' = out w @ take k (enc f)"
  shows "sound w \<Longrightarrow> send_frames put w fs = (Some e, w') \<Longrightarrow>
    \<exists>later. out w @ concat (map enc fs) = out w' @ later"
  using put failed
proof (induction fs arbitrary: w)
  case (Cons f fs)
  note oks = Cons.prems(3) and fails = Cons.prems(4)
  obtain x w1 where w1: "put w f = (x, w1)" by (cases "put w f")
  show ?case
  proof (cases x)
    case (Some y)
    with w1 Cons.prems(2) have "put w f = (Some e, w')" by simp
    with fails[OF Cons.prems(1)] obtain k where "out w' = out w @ take k (enc f)"
      by (metis list.set_intros(1))
    then show ?thesis by (auto intro!: exI[of _ "drop k (enc f) @ concat (map enc fs)"])
  next
    case None
    with w1 Cons.prems(2) have w2: "put w f = (None, w1)" "send_frames put w1 fs = (Some e, w')"
      by simp_all
    with oks[OF Cons.prems(1), of f] have w3: "out w1 = out w @ enc f" "sound w1" by simp_all
    have "\<exists>later. out w1 @ concat (map enc fs) = out w' @ later"
      by (rule Cons.IH[OF w3(2) w2(2)]) (use oks fails in \<open>(meson list.set_intros(2))+\<close>)
    with w3 show ?thesis by simp
  qed
qed simp

end

subsection \<open>The formats are codecs\<close>

definition mux_legal :: "mux_frame \<Rightarrow> bool" where
  "mux_legal f \<longleftrightarrow> fr_version f \<noteq> 0 \<and> length (fr_payload f) \<le> max_mux_payload_bytes"

definition uot_legal :: "byte list \<Rightarrow> bool" where
  "uot_legal p \<longleftrightarrow> length p < 65536"

definition frame_legal :: "byte list \<Rightarrow> bool" where
  "frame_legal p \<longleftrightarrow> p \<noteq> [] \<and> length p \<le> max_request_size"

lemmas frame_sizes = max_mux_payload_bytes_def max_request_size_def mux_frame_header_size_def
  tls_tcp_bulk_frame_size_def max_uot_packet_size_def

lemma drop_mux_header: "drop 7 (mux_header f) = be32 (of_nat (length (fr_payload f)))"
  by (simp add: mux_header_def drop_Cons')

lemma mux_size_field:
  "length (fr_payload f) \<le> max_mux_payload_bytes \<Longrightarrow>
   unat (get_be32 (drop 7 (mux_header f))) = length (fr_payload f)"
  by (simp add: drop_mux_header unat_of_nat frame_sizes)

lemma mux_header_fields:
  "mux_header f ! 0 = fr_version f" "mux_header f ! Suc 0 = fr_type f" "mux_header f ! 2 = fr_flags f"
  "get_be32 (take 4 (drop 3 (mux_header f))) = fr_stream f"
  by (simp_all add: mux_header_def)

lemma mux_frame_rebuild:
  "\<lparr>fr_version = fr_version f, fr_type = fr_type f, fr_flags = fr_flags f,
    fr_stream = fr_stream f, fr_payload = fr_payload f\<rparr> = f"
  by simp

lemma with_version_legal: "fr_version f \<noteq> 0 \<Longrightarrow> with_version f = f"
  by (simp add: with_version_def)

context byte_source
begin

lemma read_mux_frame_whole:
  assumes "usable r" and "mux_legal f" and "rest r = mux_bytes f @ later"
  shows "\<exists>r'. read_mux_frame rd r = Some (Inr f, r') \<and> usable r' \<and> rest r' = later \<and> final r' = final r"
proof -
  from assms have f: "with_version f = f" and len: "length (fr_payload f) \<le> max_mux_payload_bytes"
    by (auto simp: mux_legal_def with_version_legal)
  from assms(1) f assms(3) obtain r1 where r1: "read_full rd r mux_frame_header_size = Some (Inr (mux_header f), r1)"
    "usable r1" "rest r1 = fr_payload f @ later" "final r1 = final r"
    using read_full_all[of r "mux_header f" "fr_payload f @ later"] by (auto simp: mux_bytes_def)
  then obtain r2 where "read_full rd r1 (length (fr_payload f)) = Some (Inr (fr_payload f), r2)"
    "usable r2" "rest r2 = later" "final r2 = final r"
    using read_full_all[of r1 "fr_payload f" later] by auto
  with r1 len show ?thesis
    by (simp add: read_mux_frame_def mux_size_field mux_header_fields Let_def)
qed

lemma read_full_part:
  assumes "usable r" and "length (rest r) < n"
  shows "\<exists>e r'. read_full rd r n = Some (Inl e, r') \<and> cut_short (final r) e"
  using assms read_full_end[of r n] read_full_cut[of r n]
  by (cases "rest r = []") (auto simp: cut_short_def split: if_splits)

text \<open>A length field and what it announces, cut somewhere.\<close>

lemma read_two_part:
  assumes "usable r" and "p @ q = rest r @ later" and "later \<noteq> []" and "length p = n"
    and next_part: "\<And>r1. usable r1 \<Longrightarrow> final r1 = final r \<Longrightarrow> length (rest r1) < length q \<Longrightarrow>
      \<exists>e r'. k p r1 = Some (Inl e, r') \<and> cut_short (final r) e"
  shows "\<exists>e r'. read_bind (read_full rd r n) k = Some (Inl e, r') \<and> cut_short (final r) e"
proof (cases "length p \<le> length (rest r)")
  case True
  then obtain s where s: "rest r = p @ s"
    using assms(2) by (metis append_eq_append_conv_if append_take_drop_id)
  with assms(2,3) have "length s < length q"
    by (metis append.assoc length_append length_greater_0_conv less_add_same_cancel1 same_append_eq)
  moreover obtain r1 where "read_full rd r n = Some (Inr p, r1)" "usable r1" "rest r1 = s"
    "final r1 = final r"
    using read_full_all[OF assms(1) s assms(4)] by blast
  ultimately show ?thesis using next_part[of r1] by auto
next
  case False
  with assms(1,4) read_full_part[of r n] show ?thesis by (auto simp: not_le)
qed

lemma read_mux_frame_part:
  assumes "usable r" and "mux_legal f" and "mux_bytes f = rest r @ later" and "later \<noteq> []"
  shows "\<exists>e r'. read_mux_frame rd r = Some (Inl e, r') \<and> cut_short (final r) e"
proof -
  from assms(2) have f: "with_version f = f" and len: "length (fr_payload f) \<le> max_mux_payload_bytes"
    by (auto simp: mux_legal_def with_version_legal)
  show ?thesis unfolding read_mux_frame_def
  proof (rule read_two_part[OF assms(1) _ assms(4)])
    show "mux_header f @ fr_payload f = rest r @ later" using assms(3) f by (simp add: mux_bytes_def)
    show "length (mux_header f) = mux_frame_header_size" by simp
    fix r1
    assume r1: "usable r1" "final r1 = final r" "length (rest r1) < length (fr_payload f)"
    with read_full_part[of r1 "length (fr_payload f)"] obtain e r' where
      "read_full rd r1 (length (fr_payload f)) = Some (Inl e, r')" "cut_short (final r) e"
      by auto
    with len show "\<exists>e r'. (let size = get_be32 (drop 7 (mux_header f)) in
        if max_mux_payload_bytes < unat size
        then Some (Inl (Io_Error (''invalid mux payload size '' @ itoa (uint size))), r1)
        else read_bind (read_full rd r1 (unat size)) (\<lambda>payload r2.
          Some (Inr \<lparr>fr_version = mux_header f ! 0, fr_type = mux_header f ! 1,
            fr_flags = mux_header f ! 2, fr_stream = get_be32 (take 4 (drop 3 (mux_header f))),
            fr_payload = payload\<rparr>, r2))) = Some (Inl e, r') \<and> cut_short (final r) e"
      by (simp add: Let_def mux_size_field)
  qed
qed

lemma uot_size_field: "uot_legal p \<Longrightarrow> unat (of_nat (length p) :: 16 word) = length p"
  by (simp add: uot_legal_def unat_of_nat)

lemma read_uot_packet_into_whole:
  assumes "usable r" and "uot_legal p" and "rest r = uot_bytes p @ later" and "length p \<le> buf"
  shows "\<exists>r'. read_uot_packet_into rd r buf = Some (Inr p, r') \<and> usable r' \<and> rest r' = later \<and>
    final r' = final r"
proof -
  from assms(1,3) obtain r1 where r1: "read_full rd r 2 = Some (Inr (be16 (of_nat (length p))), r1)"
    "usable r1" "rest r1 = p @ later" "final r1 = final r"
    using read_full_all[of r "be16 (of_nat (length p))" "p @ later"] by (auto simp: uot_bytes_def)
  with read_full_all[of r1 p later] assms(2,4) show ?thesis
    by (auto simp: read_uot_packet_into_def uot_size_field)
qed

lemma peer_read_packet_part:
  assumes "usable r" and "uot_legal p" and "uot_bytes p = rest r @ later" and "later \<noteq> []"
  shows "\<exists>e r'. peer_read_packet rd r = Some (Inl e, r') \<and> cut_short (final r) e"
  unfolding peer_read_packet_def read_uot_packet_into_def
proof (rule read_two_part[OF assms(1) _ assms(4)])
  show "be16 (of_nat (length p)) @ p = rest r @ later" using assms(3) by (simp add: uot_bytes_def)
  fix r1
  assume "usable r1" "final r1 = final r" "length (rest r1) < length p"
  with read_full_part[of r1 "length p"] assms(2)
  show "\<exists>e r'. (let size = unat (get_be16 (be16 (of_nat (length p)))) in
      if max_uot_packet_size < size
      then Some (Inl (Io_Error (''uot packet size '' @ itoa (int size) @ '' exceeds buffer '' @
                                itoa (int max_uot_packet_size))), r1)
      else read_full rd r1 size) = Some (Inl e, r') \<and> cut_short (final r) e"
    by (auto simp: Let_def uot_size_field uot_legal_def max_uot_packet_size_def)
qed simp

lemma frame_size_field:
  "length p \<le> max_request_size \<Longrightarrow> unat (of_nat (length p) :: 32 word) = length p"
  by (simp add: unat_of_nat frame_sizes)

lemma frame_size_nonzero: "frame_legal p \<Longrightarrow> (of_nat (length p) :: 32 word) \<noteq> 0"
  using frame_size_field[of p] by (auto simp: frame_legal_def)

lemma read_frame_whole:
  assumes "usable r" and "frame_legal p" and "rest r = frame_bytes p @ later"
  shows "\<exists>r'. read_frame rd r = Some (Inr p, r') \<and> usable r' \<and> rest r' = later \<and> final r' = final r"
proof -
  from assms(1,3) obtain r1 where r1: "read_full rd r 4 = Some (Inr (be32 (of_nat (length p))), r1)"
    "usable r1" "rest r1 = p @ later" "final r1 = final r"
    using read_full_all[of r "be32 (of_nat (length p))" "p @ later"] by (auto simp: frame_bytes_def)
  from assms(2) have "length p \<le> max_request_size" by (simp add: frame_legal_def)
  with r1 read_full_all[of r1 p later] frame_size_nonzero[OF assms(2)] show ?thesis
    by (auto simp: read_frame_def frame_size_field Let_def)
qed

lemma read_frame_part:
  assumes "usable r" and "frame_legal p" and "frame_bytes p = rest r @ later" and "later \<noteq> []"
  shows "\<exists>e r'. read_frame rd r = Some (Inl e, r') \<and> cut_short (final r) e"
  unfolding read_frame_def
proof (rule read_two_part[OF assms(1) _ assms(4)])
  show "be32 (of_nat (length p)) @ p = rest r @ later" using assms(3) by (simp add: frame_bytes_def)
  fix r1
  assume "usable r1" "final r1 = final r" "length (rest r1) < length p"
  with read_full_part[of r1 "length p"] frame_size_nonzero[OF assms(2)] assms(2)
  show "\<exists>e r'. (let size = get_be32 (be32 (of_nat (length p))) in
      if size = 0 \<or> max_request_size < unat size
      then Some (Inl (Io_Error (''invalid relay request size '' @ itoa (uint size))), r1)
      else read_full rd r1 (unat size)) = Some (Inl e, r') \<and> cut_short (final r) e"
    by (auto simp: Let_def frame_size_field frame_legal_def)
qed simp

lemma read_size_end:
  "usable r \<Longrightarrow> rest r = [] \<Longrightarrow> 0 < n \<Longrightarrow> \<exists>r'. read_bind (read_full rd r n) k = Some (Inl (final r), r')"
  using read_full_end[of r n] by auto

end

sublocale byte_source \<subseteq> mux: frame_codec rd rest final usable "read_mux_frame rd" mux_bytes mux_legal
proof
  show "\<exists>r'. read_mux_frame rd r = Some (Inl (final r), r')" if "usable r" "rest r = []" for r
    using that unfolding read_mux_frame_def by (intro read_size_end) (auto simp: frame_sizes)
qed (use read_mux_frame_whole read_mux_frame_part in blast)+

sublocale byte_source \<subseteq> uot: frame_codec rd rest final usable "peer_read_packet rd" uot_bytes uot_legal
proof
  show "\<exists>r'. peer_read_packet rd r = Some (Inl (final r), r')" if "usable r" "rest r = []" for r
    using that unfolding peer_read_packet_def read_uot_packet_into_def by (intro read_size_end) auto
  show "\<exists>r'. peer_read_packet rd r = Some (Inr p, r') \<and> usable r' \<and> rest r' = later \<and> final r' = final r"
    if "usable r" "uot_legal p" "rest r = uot_bytes p @ later" for r p later
    using that read_uot_packet_into_whole[of r p later max_uot_packet_size]
    by (auto simp: peer_read_packet_def uot_legal_def max_uot_packet_size_def)
qed (use peer_read_packet_part in blast)

sublocale byte_source \<subseteq> msg: frame_codec rd rest final usable "read_frame rd" frame_bytes frame_legal
proof
  show "\<exists>r'. read_frame rd r = Some (Inl (final r), r')" if "usable r" "rest r = []" for r
    using that unfolding read_frame_def by (intro read_size_end) auto
qed (use read_frame_whole read_frame_part in blast)+

text \<open>A mux frame is written in one piece or in two.\<close>

lemma write_mux_frame_cases:
  assumes "write_mux_frame wr w f = (x, w')"
  shows "(x = Some mux_too_large \<and> w' = w) \<or>
    (write_all wr w (mux_bytes f) = (x, w')) \<or>
    (\<exists>e. write_all wr w (mux_header (with_version f)) = (Some e, w') \<and> x = Some e) \<or>
    (\<exists>w1. write_all wr w (mux_header (with_version f)) = (None, w1) \<and>
      write_all wr w1 (fr_payload f) = (x, w'))"
proof -
  obtain y w1 where "write_all wr w (mux_header (with_version f)) = (y, w1)"
    by (cases "write_all wr w (mux_header (with_version f))")
  with assms show ?thesis
    by (cases y) (auto simp: write_mux_frame_def mux_bytes_def Let_def split: if_splits)
qed

text \<open>
  A property of the writer's state that holds while no write has failed (\<open>S\<close>) and a weaker one
  that holds even then (\<open>I\<close>).
\<close>

definition keeps :: "('w \<Rightarrow> bool) \<Rightarrow> ('w \<Rightarrow> bool) \<Rightarrow> io_error option \<times> 'w \<Rightarrow> bool" where
  "keeps S I r \<longleftrightarrow> I (snd r) \<and> (fst r = None \<longrightarrow> S (snd r))"

lemma write_all_keeps:
  assumes "\<And>w p n e w'. S w \<Longrightarrow> wr w p = (n, e, w') \<Longrightarrow> keeps S I (e, w')"
  shows "S w \<Longrightarrow> I w \<Longrightarrow> keeps S I (write_all wr w p)"
proof (induction p arbitrary: w rule: length_induct)
  case (1 p)
  obtain n e v where wr: "wr w p = (n, e, v)" by (cases "wr w p")
  with assms[OF 1(2)] have v: "keeps S I (e, v)" by blast
  show ?case
  proof (cases "p = [] \<or> e \<noteq> None \<or> n \<le> 0")
    case True
    with 1(2,3) wr v show ?thesis
      by (cases e) (auto simp: write_all.simps[of wr w p] keeps_def)
  next
    case False
    then have "length (drop (nat n) p) < length p" by simp
    with 1(1) v False have "keeps S I (write_all wr v (drop (nat n) p))" by (simp add: keeps_def)
    with wr False show ?thesis by (cases e) (auto simp: write_all.simps[of wr w p])
  qed
qed

lemma write_mux_frame_keeps:
  assumes wr: "\<And>w p n e w'. S w \<Longrightarrow> wr w p = (n, e, w') \<Longrightarrow> keeps S I (e, w')"
    and "S w" and "I w"
  shows "keeps S I (write_mux_frame wr w f)"
proof -
  have all: "keeps S I (write_all wr v p)" if "S v" "I v" for v p
    by (rule write_all_keeps[of S wr I, OF wr that])
  obtain x w' where x: "write_mux_frame wr w f = (x, w')" by (cases "write_mux_frame wr w f")
  from write_mux_frame_cases[OF x] all[OF assms(2,3), of "mux_bytes f"]
    all[OF assms(2,3), of "mux_header (with_version f)"]
  show ?thesis
  proof (elim disjE exE conjE)
    fix w1
    assume "write_all wr w (mux_header (with_version f)) = (None, w1)"
      and fin: "write_all wr w1 (fr_payload f) = (x, w')"
    with all[OF assms(2,3), of "mux_header (with_version f)"] have "S w1" "I w1"
      by (auto simp: keeps_def)
    from all[OF this, of "fr_payload f"] fin x show ?thesis by simp
  qed (use assms x in \<open>auto simp: keeps_def\<close>)
qed

lemma send_frames_keeps:
  assumes put: "\<And>w f. S w \<Longrightarrow> I w \<Longrightarrow> keeps S I (put w f)"
  shows "S w \<Longrightarrow> I w \<Longrightarrow> keeps S I (send_frames put w fs)"
proof (induction fs arbitrary: w)
  case (Cons f fs)
  with put[of w f] show ?case
    by (cases "put w f"; cases "fst (put w f)") (auto simp: keeps_def)
qed (simp add: keeps_def)

context byte_sink
begin

text \<open>A header and a body written one after the other.\<close>

lemma write_two_ok:
  assumes "sound w" and "write_all wr w p = (None, w1)" and "write_all wr w1 q = (None, w')"
  shows "out w' = out w @ p @ q \<and> sound w'"
  using write_all_ok[OF assms(1,2)] write_all_ok[of w1 q w'] assms(3) by auto

lemma write_two_failed:
  assumes "sound w" and "write_all wr w p = (None, w1)" and "write_all wr w1 q = (Some e, w')"
  shows "\<exists>k \<le> length (p @ q). out w' = out w @ take k (p @ q)"
proof -
  from write_all_ok[OF assms(1,2)] have w1: "out w1 = out w @ p" "sound w1" by auto
  from write_all_failed[OF w1(2) assms(3)] obtain k where "k \<le> length q" "out w' = out w1 @ take k q"
    by blast
  with w1 show ?thesis by (intro exI[of _ "length p + k"]) simp
qed

lemma write_first_failed:
  assumes "sound w" and "write_all wr w p = (Some e, w')"
  shows "\<exists>k \<le> length (p @ q). out w' = out w @ take k (p @ q)"
proof -
  from write_all_failed[OF assms] obtain k where "k \<le> length p" "out w' = out w @ take k p" by blast
  then show ?thesis by (intro exI[of _ k]) simp
qed

lemma write_mux_frame_ok:
  assumes "sound w" and "write_mux_frame wr w f = (None, w')"
  shows "out w' = out w @ mux_bytes f \<and> sound w'"
  using write_mux_frame_cases[OF assms(2)] write_all_ok[OF assms(1)] write_two_ok[OF assms(1)]
  unfolding mux_bytes_def by blast

lemma write_mux_frame_failed:
  assumes "sound w" and "write_mux_frame wr w f = (Some e, w')"
  shows "\<exists>k \<le> length (mux_bytes f). out w' = out w @ take k (mux_bytes f)"
proof (cases "w' = w")
  case True
  then show ?thesis by (intro exI[of _ 0]) simp
next
  case False
  with write_mux_frame_cases[OF assms(2)] write_all_failed[OF assms(1)] write_two_failed[OF assms(1)]
    write_first_failed[OF assms(1)]
  show ?thesis unfolding mux_bytes_def by blast
qed

lemma write_uot_packet_ok:
  assumes "sound w" and "write_uot_packet wr w p = (None, w')"
  shows "out w' = out w @ uot_bytes p \<and> sound w'"
  using assms write_all_ok[of w "uot_bytes p" w']
  by (auto simp: write_uot_packet_def write_uot_packet_into_def Let_def split: if_splits)

lemma write_uot_packet_failed:
  assumes "sound w" and "write_uot_packet wr w p = (Some e, w')"
  shows "\<exists>k \<le> length (uot_bytes p). out w' = out w @ take k (uot_bytes p)"
  using assms write_all_failed[of w "uot_bytes p" e w']
  by (auto simp: write_uot_packet_def write_uot_packet_into_def Let_def split: if_splits
      intro: exI[of _ "0 :: nat"])

lemma write_frame_ok:
  assumes "sound w" and "write_frame marshal wr w v = (None, w')"
  shows "\<exists>p. marshal v = Inr p \<and> length p \<le> max_request_size \<and> out w' = out w @ frame_bytes p \<and> sound w'"
  using assms
  by (auto simp: write_frame_def frame_bytes_def split: sum.splits if_splits prod.splits option.splits
      dest: write_two_ok)

end

end
