(* ===== verification/RelayMask.thy ===== *)
theory RelayMask
  imports RelayFrames
begin

text \<open>
  The early-window mask of a relay connection (\<open>modules/relay/obfs.go\<close> and
  \<open>obfs_early_window.go\<close>): the first writes travel in small frames of random size mixed with
  padding, until a budget is spent; then an end frame is sent and the rest is sent as it is. The
  masking writer is shown to be a writer and the unmasking reader a reader in the sense of
  \<open>RelayIO\<close>, so whatever holds of a plain connection holds of a masked one.
\<close>

subsection \<open>Frames\<close>

definition obfs_data :: byte where "obfs_data = 1"
definition obfs_pad :: byte where "obfs_pad = 2"
definition obfs_end :: byte where "obfs_end = 3"

definition default_mask_bytes :: int where "default_mask_bytes = 32768"
definition default_mask_writes :: int where "default_mask_writes = 8"
definition max_pad_frame_bytes :: nat where "max_pad_frame_bytes = 32"
definition max_data_frame_bytes :: nat where "max_data_frame_bytes = 512"

definition invalid_obfs_frame :: io_error where
  "invalid_obfs_frame = Io_Error ''invalid relay obfs frame''"

definition write_obfs_frame :: "'w writer \<Rightarrow> 'w \<Rightarrow> byte \<Rightarrow> byte list \<Rightarrow> io_error option \<times> 'w" where
  "write_obfs_frame wr w ty payload =
     (if ty = obfs_end \<and> payload \<noteq> []
      then (Some (Io_Error ''invalid relay obfs frame: end frame must be empty''), w)
      else if ty = obfs_pad \<and> max_pad_frame_bytes < length payload
      then (Some (Io_Error ''invalid relay obfs frame: pad frame too large''), w)
      else if 65535 < length payload
      then (Some (Io_Error ''invalid relay obfs frame: frame payload too large''), w)
      else case write_all wr w (ty # be16 (of_nat (length payload))) of
             (Some e, w') \<Rightarrow> (Some e, w')
           | (None, w') \<Rightarrow> if payload = [] then (None, w') else write_all wr w' payload)"

record mask_config =
  max_bytes :: int
  max_writes :: int
  seed :: int

text \<open>\<open>clock\<close> is the time in nanoseconds that seeds an unseeded configuration.\<close>

definition normalize_mask_config :: "int \<Rightarrow> mask_config \<Rightarrow> mask_config" where
  "normalize_mask_config clock c =
     \<lparr>max_bytes = (if max_bytes c \<le> 0 then default_mask_bytes else max_bytes c),
      max_writes = (if max_writes c \<le> 0 then default_mask_writes else max_writes c),
      seed = (if seed c = 0 then clock else seed c)\<rparr>"

definition default_mask_config :: "int \<Rightarrow> mask_config" where
  "default_mask_config clock =
     \<lparr>max_bytes = default_mask_bytes, max_writes = default_mask_writes, seed = clock\<rparr>"

subsection \<open>The masking writer\<close>

text \<open>
  The generator behind \<open>rand.New(rand.NewSource(seed))\<close> is a list of numbers still to be drawn;
  \<open>draws_of\<close> gives the list a seed starts.
\<close>

record 'w mask_writer =
  mw_writer :: 'w
  mw_config :: mask_config
  mw_draws :: "nat list"
  mw_closed :: bool
  mw_window_closed :: bool
  mw_masked_bytes :: int
  mw_masked_writes :: int
  mw_pads_left :: int

definition new_mask_writer :: "(int \<Rightarrow> nat list) \<Rightarrow> int \<Rightarrow> 'w \<Rightarrow> mask_config \<Rightarrow> 'w mask_writer" where
  "new_mask_writer draws_of clock w cfg =
     (let c = normalize_mask_config clock cfg in
      \<lparr>mw_writer = w, mw_config = c, mw_draws = draws_of (seed c), mw_closed = False,
       mw_window_closed = False, mw_masked_bytes = 0, mw_masked_writes = 0,
       mw_pads_left = max_writes c * 2\<rparr>)"

definition intn :: "'w mask_writer \<Rightarrow> nat \<Rightarrow> nat \<times> 'w mask_writer" where
  "intn w n =
     (case mw_draws w of
        [] \<Rightarrow> (0, w)
      | x # xs \<Rightarrow> (x mod n, w\<lparr>mw_draws := xs\<rparr>))"

definition random_bytes :: "'w mask_writer \<Rightarrow> nat \<Rightarrow> byte list \<times> 'w mask_writer" where
  "random_bytes w n =
     (map (\<lambda>i. if i < length (mw_draws w) then of_nat (mw_draws w ! i) else 0) [0..<n],
      w\<lparr>mw_draws := drop n (mw_draws w)\<rparr>)"

definition obfs_out ::
  "'w writer \<Rightarrow> 'w mask_writer \<Rightarrow> byte \<Rightarrow> byte list \<Rightarrow> io_error option \<times> 'w mask_writer" where
  "obfs_out wr w ty payload =
     (case write_obfs_frame wr (mw_writer w) ty payload of (e, v) \<Rightarrow> (e, w\<lparr>mw_writer := v\<rparr>))"

definition chunk_size :: "'w mask_writer \<Rightarrow> nat \<Rightarrow> nat \<times> 'w mask_writer" where
  "chunk_size w n =
     (let sz = (if max_data_frame_bytes < n then max_data_frame_bytes else n) in
      if 1 < sz then (case intn w sz of (k, w') \<Rightarrow> (1 + k, w')) else (sz, w))"

definition wants_pad :: "'w mask_writer \<Rightarrow> byte list \<Rightarrow> bool \<times> 'w mask_writer" where
  "wants_pad w remaining =
     (if mw_pads_left w \<le> 0 then (False, w)
      else if remaining \<noteq> [] then (True, w)
      else case intn w 2 of (k, w') \<Rightarrow> (k = 0, w'))"

definition write_pad :: "'w writer \<Rightarrow> 'w mask_writer \<Rightarrow> io_error option \<times> 'w mask_writer" where
  "write_pad wr w =
     (case intn (w\<lparr>mw_pads_left := mw_pads_left w - 1\<rparr>) max_pad_frame_bytes of
        (k, w1) \<Rightarrow> (case random_bytes w1 (1 + k) of
                     (pad, w2) \<Rightarrow> obfs_out wr w2 obfs_pad pad))"

lemma intn_less: "intn w n = (k, w') \<Longrightarrow> 0 < n \<Longrightarrow> k < n"
  by (auto simp: intn_def split: list.splits)

lemma chunk_size_bounds:
  assumes "chunk_size w n = (sz, w')" and "0 < n"
  shows "0 < sz \<and> sz \<le> n \<and> sz \<le> max_data_frame_bytes"
proof -
  define m where "m = (if max_data_frame_bytes < n then max_data_frame_bytes else n)"
  have m: "0 < m" "m \<le> n" "m \<le> max_data_frame_bytes"
    using assms(2) by (auto simp: m_def max_data_frame_bytes_def)
  show ?thesis
  proof (cases "1 < m")
    case True
    with assms(1) obtain k where "intn w m = (k, w')" "sz = 1 + k"
      by (auto simp: chunk_size_def m_def[symmetric] split: prod.splits)
    with intn_less[of w m k w'] m show ?thesis by auto
  next
    case False
    with assms(1) m show ?thesis by (auto simp: chunk_size_def m_def[symmetric])
  qed
qed

function write_masked_chunks ::
  "'w writer \<Rightarrow> 'w mask_writer \<Rightarrow> byte list \<Rightarrow> io_error option \<times> 'w mask_writer" where
  "write_masked_chunks wr w remaining =
     (if remaining = [] then (None, w)
      else case chunk_size w (length remaining) of (sz, w1) \<Rightarrow>
        (case obfs_out wr w1 obfs_data (take sz remaining) of
           (Some e, w2) \<Rightarrow> (Some e, w2)
         | (None, w2) \<Rightarrow>
             (case wants_pad w2 (drop sz remaining) of (pad, w3) \<Rightarrow>
                if pad
                then (case write_pad wr w3 of
                        (Some e, w4) \<Rightarrow> (Some e, w4)
                      | (None, w4) \<Rightarrow> write_masked_chunks wr w4 (drop sz remaining))
                else write_masked_chunks wr w3 (drop sz remaining))))"
  by pat_completeness auto
termination
  by (relation "measure (\<lambda>(wr, w, remaining). length remaining)")
     (use chunk_size_bounds in \<open>fastforce simp: eq_commute[of "(_, _)"]\<close>)+

declare write_masked_chunks.simps [simp del]

definition close_window :: "'w writer \<Rightarrow> 'w mask_writer \<Rightarrow> io_error option \<times> 'w mask_writer" where
  "close_window wr w =
     (if mw_window_closed w then (None, w)
      else obfs_out wr (w\<lparr>mw_window_closed := True\<rparr>) obfs_end [])"

definition plain_out ::
  "'w writer \<Rightarrow> 'w mask_writer \<Rightarrow> byte list \<Rightarrow> io_error option \<times> 'w mask_writer" where
  "plain_out wr w p = (case write_all wr (mw_writer w) p of (e, v) \<Rightarrow> (e, w\<lparr>mw_writer := v\<rparr>))"

definition window_spent :: "'w mask_writer \<Rightarrow> bool" where
  "window_spent w \<longleftrightarrow>
     max_writes (mw_config w) \<le> mw_masked_writes w \<or> max_bytes (mw_config w) \<le> mw_masked_bytes w"

text \<open>What a \<open>Write\<close> of \<open>n\<close> bytes returns after its last step.\<close>

definition wrote :: "nat \<Rightarrow> io_error option \<times> 'w mask_writer \<Rightarrow> int \<times> io_error option \<times> 'w mask_writer"
  where
  "wrote n r = (case r of (Some e, w) \<Rightarrow> (0, Some e, w) | (None, w) \<Rightarrow> (int n, None, w))"

definition then_do ::
  "io_error option \<times> 'w \<Rightarrow> ('w \<Rightarrow> io_error option \<times> 'w) \<Rightarrow> io_error option \<times> 'w" where
  "then_do r f = (case r of (Some e, w) \<Rightarrow> (Some e, w) | (None, w) \<Rightarrow> f w)"

definition mask_write :: "'w writer \<Rightarrow> 'w mask_writer writer" where
  "mask_write wr w p =
     (if p = [] then (0, None, w)
      else if mw_closed w then (0, Some Closed_Pipe, w)
      else if mw_window_closed w then wrote (length p) (plain_out wr w p)
      else if window_spent w
      then wrote (length p) (then_do (close_window wr w) (\<lambda>w1. plain_out wr w1 p))
      else
        let masked = min (length p) (nat (max_bytes (mw_config w) - mw_masked_bytes w)) in
        wrote (length p)
          (then_do
            (if 0 < masked
             then then_do (write_masked_chunks wr w (take masked p)) (\<lambda>w1.
                    (None, w1\<lparr>mw_masked_bytes := mw_masked_bytes w1 + int masked,
                             mw_masked_writes := mw_masked_writes w1 + 1\<rparr>))
             else (None, w)) (\<lambda>w2.
           then_do (if window_spent w2 then close_window wr w2 else (None, w2)) (\<lambda>w3.
             if masked < length p then plain_out wr w3 (drop masked p) else (None, w3)))))"

definition mask_close :: "'w writer \<Rightarrow> 'w mask_writer \<Rightarrow> io_error option \<times> 'w mask_writer" where
  "mask_close wr w =
     then_do
       (if \<not> mw_window_closed w \<and> (0 < mw_masked_bytes w \<or> 0 < mw_masked_writes w)
        then close_window wr w else (None, w))
       (\<lambda>w1. (None, w1\<lparr>mw_closed := True\<rparr>))"

subsection \<open>The unmasking reader\<close>

record 'r mask_reader =
  mr_source :: 'r
  mr_config :: mask_config
  mr_strict :: bool
  mr_passthrough :: bool
  mr_finished :: bool
  mr_buffer :: "byte list"

definition new_mask_reader :: "int \<Rightarrow> 'r \<Rightarrow> mask_config \<Rightarrow> bool \<Rightarrow> 'r mask_reader" where
  "new_mask_reader clock r cfg strict =
     \<lparr>mr_source = r, mr_config = normalize_mask_config clock cfg, mr_strict = strict,
      mr_passthrough = False, mr_finished = False, mr_buffer = []\<rparr>"

definition read_early_window_frame ::
  "'r reader \<Rightarrow> 'r \<Rightarrow> mask_config \<Rightarrow> ((io_error + (byte \<times> byte list)) \<times> 'r) option" where
  "read_early_window_frame rd r cfg =
     read_bind (read_full rd r 3) (\<lambda>header r1.
       let ty = header ! 0; len = unat (get_be16 (drop 1 header)) in
       if ty = obfs_end
       then Some (if len \<noteq> 0 then Inl invalid_obfs_frame else Inr (ty, []), r1)
       else if ty = obfs_data \<and> (len = 0 \<or> max_bytes cfg < int len) \<or>
               ty = obfs_pad \<and> (len = 0 \<or> max_pad_frame_bytes < len) \<or>
               ty \<noteq> obfs_data \<and> ty \<noteq> obfs_pad
       then Some (Inl invalid_obfs_frame, r1)
       else read_bind (read_full rd r1 len) (\<lambda>payload r2. Some (Inr (ty, payload), r2)))"

text \<open>
  \<open>Read\<close> loops over frames; \<open>peek\<close> is \<open>Peek(1)\<close> of the buffered reader, used by the strict mode
  only.
\<close>

partial_function (option) mask_read_loop ::
  "('r \<Rightarrow> io_error option) \<Rightarrow> 'r reader \<Rightarrow> 'r mask_reader \<Rightarrow> nat \<Rightarrow>
   (byte list \<times> io_error option \<times> 'r mask_reader) option" where
  "mask_read_loop peek rd r n =
     (if mr_buffer r \<noteq> []
      then Some (take n (mr_buffer r), None, r\<lparr>mr_buffer := drop n (mr_buffer r)\<rparr>)
      else if mr_passthrough r
      then Option.bind (rd (mr_source r) n) (\<lambda>(d, e, s). Some (d, e, r\<lparr>mr_source := s\<rparr>))
      else if mr_finished r
      then if mr_strict r
           then Some ([], Some (case peek (mr_source r) of Some e \<Rightarrow> e | None \<Rightarrow> invalid_obfs_frame), r)
           else mask_read_loop peek rd (r\<lparr>mr_passthrough := True\<rparr>) n
      else
        Option.bind (read_early_window_frame rd (mr_source r) (mr_config r)) (\<lambda>(x, s).
          let r1 = r\<lparr>mr_source := s\<rparr> in
          case x of
            Inl e \<Rightarrow> Some ([], Some e, r1)
          | Inr (ty, payload) \<Rightarrow>
              if ty = obfs_data then mask_read_loop peek rd (r1\<lparr>mr_buffer := payload\<rparr>) n
              else if ty = obfs_pad then mask_read_loop peek rd r1 n
              else if ty = obfs_end then mask_read_loop peek rd (r1\<lparr>mr_finished := True\<rparr>) n
              else Some ([], Some invalid_obfs_frame, r1)))"

definition mask_read :: "('r \<Rightarrow> io_error option) \<Rightarrow> 'r reader \<Rightarrow> 'r mask_reader reader" where
  "mask_read peek rd r n = (if n = 0 then Some ([], None, r) else mask_read_loop peek rd r n)"

subsection \<open>What a masked stream means\<close>

text \<open>
  The plain bytes that a stream of masked bytes carries, by looking at one frame after the other.
  \<open>Cut\<close>: the stream ends within the frame.
\<close>

datatype frame_view =
    Cut
  | Bad
  | Data_frame "byte list" "byte list"
  | Pad_frame "byte list" "byte list"
  | End_frame "byte list"

definition next_frame :: "int \<Rightarrow> byte list \<Rightarrow> frame_view" where
  "next_frame m bs =
     (if length bs < 3 then Cut
      else let ty = bs ! 0; len = unat (get_be16 (drop 1 bs)); body = drop 3 bs in
        if ty = obfs_end then if len \<noteq> 0 then Bad else End_frame body
        else if ty = obfs_data \<and> (len = 0 \<or> m < int len) \<or>
                ty = obfs_pad \<and> (len = 0 \<or> max_pad_frame_bytes < len) \<or>
                ty \<noteq> obfs_data \<and> ty \<noteq> obfs_pad
        then Bad
        else if length body < len then Cut
        else if ty = obfs_data then Data_frame (take len body) (drop len body)
        else Pad_frame (take len body) (drop len body))"

lemma next_frame_shorter [dest]:
  "next_frame m bs = Data_frame p later \<Longrightarrow> length later < length bs"
  "next_frame m bs = Pad_frame p later \<Longrightarrow> length later < length bs"
  by (auto simp: next_frame_def Let_def split: if_splits)

function unmask :: "int \<Rightarrow> byte list \<Rightarrow> byte list" where
  "unmask m bs =
     (case next_frame m bs of
        Data_frame p later \<Rightarrow> p @ unmask m later
      | Pad_frame p later \<Rightarrow> unmask m later
      | End_frame later \<Rightarrow> later
      | _ \<Rightarrow> [])"
  by pat_completeness auto
termination
  by (relation "measure (\<lambda>(m, bs). length bs)") auto

text \<open>The stream has no invalid frame; the error a reader meets after its bytes.\<close>

function mask_valid :: "int \<Rightarrow> byte list \<Rightarrow> bool" where
  "mask_valid m bs =
     (case next_frame m bs of
        Data_frame p later \<Rightarrow> mask_valid m later
      | Pad_frame p later \<Rightarrow> mask_valid m later
      | Bad \<Rightarrow> False
      | _ \<Rightarrow> True)"
  by pat_completeness auto
termination
  by (relation "measure (\<lambda>(m, bs). length bs)") auto

definition cut_error :: "byte list \<Rightarrow> io_error \<Rightarrow> io_error" where
  "cut_error bs e = (if bs = [] \<or> length bs = 3 \<or> e \<noteq> End_Of_File then e else Unexpected_EOF)"

function mask_final :: "int \<Rightarrow> io_error \<Rightarrow> byte list \<Rightarrow> io_error" where
  "mask_final m e bs =
     (case next_frame m bs of
        Data_frame p later \<Rightarrow> mask_final m e later
      | Pad_frame p later \<Rightarrow> mask_final m e later
      | Cut \<Rightarrow> cut_error bs e
      | _ \<Rightarrow> e)"
  by pat_completeness auto
termination
  by (relation "measure (\<lambda>(m, e, bs). length bs)") auto

text \<open>Complete frames, and no end frame yet.\<close>

function masked_open :: "int \<Rightarrow> byte list \<Rightarrow> bool" where
  "masked_open m bs =
     (bs = [] \<or>
      (case next_frame m bs of
         Data_frame p later \<Rightarrow> masked_open m later
       | Pad_frame p later \<Rightarrow> masked_open m later
       | _ \<Rightarrow> False))"
  by pat_completeness auto
termination
  by (relation "measure (\<lambda>(m, bs). length bs)") auto

declare unmask.simps [simp del] mask_valid.simps [simp del] mask_final.simps [simp del]
  masked_open.simps [simp del]

lemma next_frame_append_eq:
  "next_frame m (bs @ x) =
     (case next_frame m bs of
        Cut \<Rightarrow> next_frame m (bs @ x)
      | Bad \<Rightarrow> Bad
      | Data_frame p later \<Rightarrow> Data_frame p (later @ x)
      | Pad_frame p later \<Rightarrow> Pad_frame p (later @ x)
      | End_frame later \<Rightarrow> End_frame (later @ x))"
proof (cases "length bs < 3")
  case True
  then show ?thesis by (simp add: next_frame_def[of m bs])
next
  case False
  define l where "l = unat (get_be16 (drop 1 bs))"
  from False have head: "(bs @ x) ! 0 = bs ! 0" "drop 3 (bs @ x) = drop 3 bs @ x"
    by (auto simp: nth_append)
  from False have "2 \<le> length (drop 1 bs)" by simp
  then have "get_be16 (drop 1 bs @ x) = get_be16 (drop 1 bs)" by (auto simp: get_be16_def nth_append)
  with False have len: "unat (get_be16 (drop 1 (bs @ x))) = l"
    by (simp add: l_def)
  from False have nf: "next_frame m (bs @ x) =
      (if bs ! 0 = obfs_end then if l \<noteq> 0 then Bad else End_frame (drop 3 bs @ x)
       else if bs ! 0 = obfs_data \<and> (l = 0 \<or> m < int l) \<or>
               bs ! 0 = obfs_pad \<and> (l = 0 \<or> max_pad_frame_bytes < l) \<or>
               bs ! 0 \<noteq> obfs_data \<and> bs ! 0 \<noteq> obfs_pad
       then Bad
       else if length (drop 3 bs @ x) < l then Cut
       else if bs ! 0 = obfs_data then Data_frame (take l (drop 3 bs @ x)) (drop l (drop 3 bs @ x))
       else Pad_frame (take l (drop 3 bs @ x)) (drop l (drop 3 bs @ x)))"
    unfolding next_frame_def Let_def head len by simp
  show ?thesis
  proof (cases "length (drop 3 bs) < l")
    case True
    with False show ?thesis unfolding nf unfolding next_frame_def Let_def l_def[symmetric] by simp
  next
    case F: False
    then have whole: "(length (drop 3 bs @ x) < l) = False" "take l (drop 3 bs @ x) = take l (drop 3 bs)"
      "drop l (drop 3 bs @ x) = drop l (drop 3 bs) @ x"
      by auto
    from F False show ?thesis
      unfolding nf whole unfolding next_frame_def Let_def l_def[symmetric] by simp
  qed
qed

lemma next_frame_append:
  "next_frame m bs = Data_frame p later \<Longrightarrow> next_frame m (bs @ x) = Data_frame p (later @ x)"
  "next_frame m bs = Pad_frame p later \<Longrightarrow> next_frame m (bs @ x) = Pad_frame p (later @ x)"
  "next_frame m bs = End_frame later \<Longrightarrow> next_frame m (bs @ x) = End_frame (later @ x)"
  "next_frame m bs = Bad \<Longrightarrow> next_frame m (bs @ x) = Bad"
  by (subst next_frame_append_eq, simp)+

lemma next_frame_Nil [simp]: "next_frame m [] = Cut"
  by (simp add: next_frame_def)

lemma unmask_Nil [simp]: "unmask m [] = []"
  by (simp add: unmask.simps)

lemma masked_open_Nil [simp]: "masked_open m []"
  by (simp add: masked_open.simps)

lemma masked_open_append:
  "masked_open m a \<Longrightarrow> unmask m (a @ b) = unmask m a @ unmask m b"
  "masked_open m a \<Longrightarrow> masked_open m (a @ b) = masked_open m b"
  "masked_open m a \<Longrightarrow> mask_valid m (a @ b) = mask_valid m b"
proof (induction m a rule: masked_open.induct)
  case (1 m bs)
  {
    case 1
    then show ?case using "1.IH"
      by (cases "bs = []"; cases "next_frame m bs")
        (auto simp: masked_open.simps[of m bs] unmask.simps[of m bs] unmask.simps[of m "bs @ b"]
          next_frame_append)
  next
    case 2
    then show ?case using "1.IH"
      by (cases "bs = []"; cases "next_frame m bs")
        (auto simp: masked_open.simps[of m bs] masked_open.simps[of m "bs @ b"] next_frame_append)
  next
    case 3
    then show ?case using "1.IH"
      by (cases "bs = []"; cases "next_frame m bs")
        (auto simp: masked_open.simps[of m bs] mask_valid.simps[of m "bs @ b"] next_frame_append)
  }
qed

definition obfs_bytes :: "byte \<Rightarrow> byte list \<Rightarrow> byte list" where
  "obfs_bytes ty p = ty # be16 (of_nat (length p)) @ p"

definition pad_ok :: "byte list \<Rightarrow> bool" where
  "pad_ok p \<longleftrightarrow> p \<noteq> [] \<and> length p \<le> max_pad_frame_bytes"

definition chunk_ok :: "int \<Rightarrow> byte list \<Rightarrow> bool" where
  "chunk_ok m p \<longleftrightarrow> p \<noteq> [] \<and> length p \<le> max_data_frame_bytes \<and> int (length p) \<le> m"

lemma obfs_types [simp]:
  "obfs_data \<noteq> obfs_pad" "obfs_data \<noteq> obfs_end" "obfs_pad \<noteq> obfs_end"
  "obfs_pad \<noteq> obfs_data" "obfs_end \<noteq> obfs_data" "obfs_end \<noteq> obfs_pad"
  by (simp_all add: obfs_data_def obfs_pad_def obfs_end_def)

lemma obfs_size_field:
  "length p \<le> max_data_frame_bytes \<Longrightarrow>
   unat (get_be16 (be16 (of_nat (length p)) @ x)) = length p"
proof -
  assume "length p \<le> max_data_frame_bytes"
  moreover have "get_be16 (be16 v @ x) = get_be16 (be16 v)" for v :: "16 word"
    by (simp add: get_be16_def be16_def)
  ultimately show ?thesis by (simp add: unat_of_nat max_data_frame_bytes_def)
qed

lemma next_frame_obfs_bytes:
  assumes "length p \<le> max_data_frame_bytes"
  shows "next_frame m (obfs_bytes ty p @ x) =
    (if ty = obfs_end then if p \<noteq> [] then Bad else End_frame x
     else if ty = obfs_data \<and> (p = [] \<or> m < int (length p)) \<or>
             ty = obfs_pad \<and> (p = [] \<or> max_pad_frame_bytes < length p) \<or>
             ty \<noteq> obfs_data \<and> ty \<noteq> obfs_pad
     then Bad
     else if ty = obfs_data then Data_frame p x else Pad_frame p x)"
proof -
  define bs where "bs = obfs_bytes ty p @ x"
  have "bs ! 0 = ty" "drop 3 bs = p @ x" "\<not> length bs < 3"
    by (simp_all add: bs_def obfs_bytes_def drop_Cons')
  moreover have "unat (get_be16 (drop 1 bs)) = length p"
    using obfs_size_field[OF assms, of "p @ x"] by (simp add: bs_def obfs_bytes_def)
  ultimately have "next_frame m bs =
    (if ty = obfs_end then if p \<noteq> [] then Bad else End_frame x
     else if ty = obfs_data \<and> (p = [] \<or> m < int (length p)) \<or>
             ty = obfs_pad \<and> (p = [] \<or> max_pad_frame_bytes < length p) \<or>
             ty \<noteq> obfs_data \<and> ty \<noteq> obfs_pad
     then Bad
     else if ty = obfs_data then Data_frame p x else Pad_frame p x)"
    unfolding next_frame_def Let_def by simp
  then show ?thesis by (simp add: bs_def)
qed

lemma next_frame_obfs:
  "chunk_ok m p \<Longrightarrow> next_frame m (obfs_bytes obfs_data p @ x) = Data_frame p x"
  "pad_ok p \<Longrightarrow> next_frame m (obfs_bytes obfs_pad p @ x) = Pad_frame p x"
  "next_frame m (obfs_bytes obfs_end [] @ x) = End_frame x"
  by (simp_all add: next_frame_obfs_bytes chunk_ok_def pad_ok_def max_data_frame_bytes_def
      max_pad_frame_bytes_def)

lemma next_frame_part:
  assumes "length p \<le> max_data_frame_bytes" and "next_frame m (obfs_bytes ty p) \<noteq> Bad"
    and "j < length (obfs_bytes ty p)"
  shows "next_frame m (take j (obfs_bytes ty p)) = Cut"
proof -
  define a b where "a = take j (obfs_bytes ty p)" and "b = drop j (obfs_bytes ty p)"
  have ab: "a @ b = obfs_bytes ty p @ []" "b \<noteq> []" using assms(3) by (auto simp: a_def b_def)
  have "next_frame m a = Cut"
  proof (cases "next_frame m a")
    case Bad
    from next_frame_append(4)[OF Bad, of b] ab assms(2) show ?thesis by simp
  next
    case (Data_frame q later)
    from next_frame_append(1)[OF Data_frame, of b] ab assms(1) show ?thesis
      by (simp add: next_frame_obfs_bytes[of p m ty "[]", simplified] split: if_splits)
  next
    case (Pad_frame q later)
    from next_frame_append(2)[OF Pad_frame, of b] ab assms(1) show ?thesis
      by (simp add: next_frame_obfs_bytes[of p m ty "[]", simplified] split: if_splits)
  next
    case (End_frame later)
    from next_frame_append(3)[OF End_frame, of b] ab assms(1) show ?thesis
      by (simp add: next_frame_obfs_bytes[of p m ty "[]", simplified] split: if_splits)
  qed
  then show ?thesis by (simp add: a_def)
qed

text \<open>A frame sent whole carries its payload, a frame sent in part carries nothing.\<close>

lemma unmask_chunk: "chunk_ok m p \<Longrightarrow> unmask m (obfs_bytes obfs_data p) = p"
  using next_frame_obfs(1)[of m p "[]"] by (simp add: unmask.simps[of m "obfs_bytes obfs_data p"])

lemma unmask_pad: "pad_ok p \<Longrightarrow> unmask m (obfs_bytes obfs_pad p) = []"
  using next_frame_obfs(2)[of p m "[]"] by (simp add: unmask.simps[of m "obfs_bytes obfs_pad p"])

lemma unmask_end: "unmask m (obfs_bytes obfs_end [] @ x) = x"
  by (simp add: unmask.simps next_frame_obfs)

lemma masked_open_chunk: "chunk_ok m p \<Longrightarrow> masked_open m (obfs_bytes obfs_data p)"
  using next_frame_obfs(1)[of m p "[]"] by (simp add: masked_open.simps[of m "obfs_bytes obfs_data p"])

lemma masked_open_pad: "pad_ok p \<Longrightarrow> masked_open m (obfs_bytes obfs_pad p)"
  using next_frame_obfs(2)[of p m "[]"] by (simp add: masked_open.simps[of m "obfs_bytes obfs_pad p"])

lemma unmask_cut: "next_frame m bs = Cut \<Longrightarrow> unmask m bs = []"
  by (simp add: unmask.simps)

lemma unmask_part_chunk:
  assumes "chunk_ok m p"
  shows "\<exists>k. unmask m (take j (obfs_bytes obfs_data p)) = take k p"
proof (cases "j < length (obfs_bytes obfs_data p)")
  case True
  with assms next_frame_obfs(1)[OF assms, of "[]"]
  have "next_frame m (take j (obfs_bytes obfs_data p)) = Cut"
    by (intro next_frame_part) (auto simp: chunk_ok_def)
  then show ?thesis by (intro exI[of _ 0]) (simp add: unmask_cut)
next
  case False
  with unmask_chunk[OF assms] show ?thesis by (intro exI[of _ "length p"]) simp
qed

lemma unmask_part_pad:
  assumes "pad_ok p"
  shows "unmask m (take j (obfs_bytes obfs_pad p)) = []"
proof (cases "j < length (obfs_bytes obfs_pad p)")
  case True
  with assms next_frame_obfs(2)[OF assms, of m "[]"]
  have "next_frame m (take j (obfs_bytes obfs_pad p)) = Cut"
    by (intro next_frame_part) (auto simp: pad_ok_def max_pad_frame_bytes_def max_data_frame_bytes_def)
  then show ?thesis by (simp add: unmask_cut)
next
  case False
  with unmask_pad[OF assms] show ?thesis by simp
qed

lemma unmask_part_end: "unmask m (take j (obfs_bytes obfs_end [])) = []"
proof (cases "j < length (obfs_bytes obfs_end [])")
  case True
  with next_frame_obfs(3)[of m "[]"] have "next_frame m (take j (obfs_bytes obfs_end [])) = Cut"
    by (intro next_frame_part) auto
  then show ?thesis by (simp add: unmask_cut)
next
  case False
  with unmask_end[of m "[]"] show ?thesis by simp
qed

text \<open>What is cut off a masked stream is a prefix of its bytes, and the stream stays valid.\<close>

lemma mask_prefix:
  "mask_valid m (a @ b) \<Longrightarrow> mask_valid m a \<and> (\<exists>later. unmask m (a @ b) = unmask m a @ later)"
proof (induction m a rule: mask_valid.induct)
  case (1 m a)
  show ?case
  proof (cases "next_frame m a")
    case Cut
    then show ?thesis by (simp add: mask_valid.simps[of m a] unmask_cut)
  next
    case Bad
    with 1(3) show ?thesis by (simp add: mask_valid.simps[of m "a @ b"] next_frame_append)
  next
    case (Data_frame p later)
    with 1 show ?thesis
      by (simp add: mask_valid.simps[of m a] mask_valid.simps[of m "a @ b"] unmask.simps[of m a]
          unmask.simps[of m "a @ b"] next_frame_append)
  next
    case (Pad_frame p later)
    with 1 show ?thesis
      by (simp add: mask_valid.simps[of m a] mask_valid.simps[of m "a @ b"] unmask.simps[of m a]
          unmask.simps[of m "a @ b"] next_frame_append)
  next
    case (End_frame later)
    then show ?thesis
      by (simp add: mask_valid.simps[of m a] unmask.simps[of m a]
          unmask.simps[of m "a @ b"] next_frame_append)
  qed
qed

lemma mask_valid_take: "mask_valid m bs \<Longrightarrow> mask_valid m (take j bs)"
  using mask_prefix[of m "take j bs" "drop j bs"] by simp

lemma mask_valid_Nil [simp]: "mask_valid m []"
  by (simp add: mask_valid.simps)

lemma masked_open_valid: "masked_open m bs \<Longrightarrow> mask_valid m bs"
  using masked_open_append(3)[of m bs "[]"] by simp

lemma mask_valid_frames:
  "chunk_ok m p \<Longrightarrow> mask_valid m (take j (obfs_bytes obfs_data p))"
  "pad_ok p \<Longrightarrow> mask_valid m (take j (obfs_bytes obfs_pad p))"
  "mask_valid m (take j (obfs_bytes obfs_end []))"
  by (simp_all add: mask_valid_take masked_open_valid masked_open_chunk masked_open_pad
      mask_valid.simps[of m "obfs_bytes obfs_end []"] next_frame_obfs(3)[of m "[]", simplified])

lemma mask_final_cases: "mask_final m e bs = e \<or> mask_final m e bs = Unexpected_EOF"
  by (induction m e bs rule: mask_final.induct)
    (simp add: mask_final.simps cut_error_def split: frame_view.splits)

subsection \<open>The masking writer is a writer\<close>

definition ended :: "int \<Rightarrow> byte list \<Rightarrow> bool" where
  "ended m bs \<longleftrightarrow> (\<exists>a b. bs = a @ obfs_bytes obfs_end [] @ b \<and> masked_open m a)"

lemma ended_append:
  assumes "ended m bs"
  shows "unmask m (bs @ p) = unmask m bs @ p" and "ended m (bs @ p)"
proof -
  obtain a b where ab: "bs = a @ obfs_bytes obfs_end [] @ b" "masked_open m a"
    using assms by (auto simp: ended_def)
  then show "unmask m (bs @ p) = unmask m bs @ p"
    by (simp add: masked_open_append unmask_end del: append_assoc) (simp add: masked_open_append unmask_end)
  from ab have "bs @ p = a @ obfs_bytes obfs_end [] @ (b @ p)" by simp
  with ab(2) show "ended m (bs @ p)" unfolding ended_def by blast
qed

lemma ended_valid: "ended m bs \<Longrightarrow> mask_valid m bs"
  by (auto simp: ended_def masked_open_append mask_valid.simps[of m "obfs_bytes obfs_end [] @ b" for b]
      next_frame_obfs)

lemma ended_end: "masked_open m bs \<Longrightarrow> ended m (bs @ obfs_bytes obfs_end [])"
  unfolding ended_def by (intro exI[of _ bs] exI[of _ "[]"]) simp

definition mask_out :: "('w \<Rightarrow> byte list) \<Rightarrow> 'w mask_writer \<Rightarrow> byte list" where
  "mask_out out w = unmask (max_bytes (mw_config w)) (out (mw_writer w))"

definition mask_sound :: "('w \<Rightarrow> byte list) \<Rightarrow> ('w \<Rightarrow> bool) \<Rightarrow> 'w mask_writer \<Rightarrow> bool" where
  "mask_sound out sound w \<longleftrightarrow>
     sound (mw_writer w) \<and> 0 < max_bytes (mw_config w) \<and> 0 \<le> mw_masked_bytes w \<and>
     (if mw_window_closed w then ended (max_bytes (mw_config w)) (out (mw_writer w))
      else masked_open (max_bytes (mw_config w)) (out (mw_writer w)))"

text \<open>The counters and the mode, which sending frames leaves alone.\<close>

definition same_mode :: "'w mask_writer \<Rightarrow> 'w mask_writer \<Rightarrow> bool" where
  "same_mode w w' \<longleftrightarrow>
     mw_config w' = mw_config w \<and> mw_closed w' = mw_closed w \<and>
     mw_window_closed w' = mw_window_closed w \<and> mw_masked_bytes w' = mw_masked_bytes w \<and>
     mw_masked_writes w' = mw_masked_writes w"

lemma same_mode_refl [simp]: "same_mode w w"
  by (simp add: same_mode_def)

lemma same_mode_trans: "same_mode w v \<Longrightarrow> same_mode v u \<Longrightarrow> same_mode w u"
  by (simp add: same_mode_def)

lemma intn_mode: "intn w n = (k, w') \<Longrightarrow> same_mode w w' \<and> mw_writer w' = mw_writer w"
  by (auto simp: intn_def same_mode_def split: list.splits)

lemma chunk_size_mode: "chunk_size w n = (sz, w') \<Longrightarrow> same_mode w w' \<and> mw_writer w' = mw_writer w"
  by (auto simp: chunk_size_def Let_def dest: intn_mode split: if_splits prod.splits)

lemma wants_pad_mode: "wants_pad w p = (b, w') \<Longrightarrow> same_mode w w' \<and> mw_writer w' = mw_writer w"
  by (auto simp: wants_pad_def dest: intn_mode split: if_splits prod.splits)

context byte_sink
begin

lemma write_obfs_frame_run:
  assumes "sound w" and "write_obfs_frame wr w ty p = (e, w')"
  shows "\<exists>j. out w' = out w @ take j (obfs_bytes ty p) \<and>
    (e = None \<longrightarrow> out w' = out w @ obfs_bytes ty p \<and> sound w')"
proof -
  let ?h = "ty # be16 (of_nat (length p))"
  obtain x w1 where h: "write_all wr w ?h = (x, w1)" by (cases "write_all wr w ?h")
  show ?thesis
  proof (cases "w' = w \<and> e \<noteq> None")
    case True
    then show ?thesis by (intro exI[of _ 0]) auto
  next
    case False
    with assms(2) h have run: "case x of Some y \<Rightarrow> e = Some y \<and> w' = w1
        | None \<Rightarrow> write_all wr w1 p = (e, w')"
      by (auto simp: write_obfs_frame_def split: if_splits option.splits)
    show ?thesis
    proof (cases x)
      case (Some y)
      with run h write_first_failed[OF assms(1), of ?h y w' p] show ?thesis
        by (auto simp: obfs_bytes_def)
    next
      case None
      with run h have w1: "write_all wr w ?h = (None, w1)" "write_all wr w1 p = (e, w')" by simp_all
      show ?thesis
      proof (cases e)
        case None
        with write_two_ok[OF assms(1) w1(1), of p w'] w1(2) show ?thesis
          by (intro exI[of _ "length (obfs_bytes ty p)"]) (simp add: obfs_bytes_def)
      next
        case (Some y)
        with write_two_failed[OF assms(1) w1(1), of p y w'] w1(2) show ?thesis
          by (auto simp: obfs_bytes_def)
      qed
    qed
  qed
qed

lemma obfs_out_run:
  assumes "sound (mw_writer w)" and "obfs_out wr w ty p = (e, w')"
  shows "same_mode w w' \<and> (\<exists>j. out (mw_writer w') = out (mw_writer w) @ take j (obfs_bytes ty p)) \<and>
    (e = None \<longrightarrow> out (mw_writer w') = out (mw_writer w) @ obfs_bytes ty p \<and> sound (mw_writer w'))"
  using assms write_obfs_frame_run[of "mw_writer w" ty p e]
  by (auto simp: obfs_out_def same_mode_def split: prod.splits)

lemma write_pad_run:
  assumes "sound (mw_writer w)" and "write_pad wr w = (e, w')"
  shows "\<exists>G. same_mode w w' \<and> out (mw_writer w') = out (mw_writer w) @ G \<and> unmask m G = [] \<and>
    mask_valid m G \<and> (e = None \<longrightarrow> masked_open m G \<and> sound (mw_writer w'))"
proof -
  obtain k w1 where k: "intn (w\<lparr>mw_pads_left := mw_pads_left w - 1\<rparr>) max_pad_frame_bytes = (k, w1)"
    by (cases "intn (w\<lparr>mw_pads_left := mw_pads_left w - 1\<rparr>) max_pad_frame_bytes")
  obtain pad w2 where pad: "random_bytes w1 (1 + k) = (pad, w2)"
    by (cases "random_bytes w1 (1 + k)")
  from intn_less[OF k] have "pad_ok pad"
    using pad by (auto simp: random_bytes_def pad_ok_def max_pad_frame_bytes_def)
  from k pad assms(2) have out: "obfs_out wr w2 obfs_pad pad = (e, w')" by (simp add: write_pad_def)
  have mode: "same_mode w w2" "mw_writer w2 = mw_writer w"
    using intn_mode[OF k] pad by (auto simp: random_bytes_def same_mode_def)
  with assms(1) have "sound (mw_writer w2)" by simp
  from obfs_out_run[OF this out] obtain j where run: "same_mode w2 w'"
    "out (mw_writer w') = out (mw_writer w) @ take j (obfs_bytes obfs_pad pad)"
    "e = None \<longrightarrow> out (mw_writer w') = out (mw_writer w) @ obfs_bytes obfs_pad pad \<and> sound (mw_writer w')"
    using mode(2) by metis
  show ?thesis
  proof (cases e)
    case None
    with run mode \<open>pad_ok pad\<close> show ?thesis
      by (intro exI[of _ "obfs_bytes obfs_pad pad"])
        (auto simp: unmask_pad masked_open_pad intro: same_mode_trans masked_open_valid)
  next
    case (Some y)
    with run mode \<open>pad_ok pad\<close> show ?thesis
      by (intro exI[of _ "take j (obfs_bytes obfs_pad pad)"])
        (auto simp: unmask_part_pad mask_valid_frames intro: same_mode_trans)
  qed
qed

text \<open>Masked chunks: a prefix of the payload gets through, and all of it if no write fails.\<close>

lemma write_masked_chunks_run:
  assumes "sound (mw_writer w)" and "int (length p) \<le> m" and "write_masked_chunks wr w p = (e, w')"
  shows "\<exists>G k. same_mode w w' \<and> out (mw_writer w') = out (mw_writer w) @ G \<and> unmask m G = take k p \<and>
    mask_valid m G \<and> (e = None \<longrightarrow> unmask m G = p \<and> masked_open m G \<and> sound (mw_writer w'))"
  using assms
proof (induction p arbitrary: w rule: length_induct)
  case (1 p)
  show ?case
  proof (cases "p = []")
    case True
    with 1(2,4) show ?thesis
      by (intro exI[of _ "[]"] exI[of _ 0]) (simp add: write_masked_chunks.simps[of wr w "[]"])
  next
    case False
    obtain sz w1 where sz: "chunk_size w (length p) = (sz, w1)" by (cases "chunk_size w (length p)")
    from chunk_size_bounds[OF sz] False have b: "0 < sz" "sz \<le> length p" "sz \<le> max_data_frame_bytes"
      by auto
    with 1(3) have chunk: "chunk_ok m (take sz p)" by (auto simp: chunk_ok_def)
    obtain x w2 where x: "obfs_out wr w1 obfs_data (take sz p) = (x, w2)"
      by (cases "obfs_out wr w1 obfs_data (take sz p)")
    from chunk_size_mode[OF sz] have m1: "same_mode w w1" "mw_writer w1 = mw_writer w" by auto
    with 1(2) have "sound (mw_writer w1)" by simp
    from obfs_out_run[OF this x] m1 obtain j where r2: "same_mode w w2"
      "out (mw_writer w2) = out (mw_writer w) @ take j (obfs_bytes obfs_data (take sz p))"
      "x = None \<longrightarrow> out (mw_writer w2) = out (mw_writer w) @ obfs_bytes obfs_data (take sz p) \<and>
         sound (mw_writer w2)"
      by (metis same_mode_trans)
    show ?thesis
    proof (cases x)
      case (Some y)
      with 1(4) sz x False have "w' = w2" "e \<noteq> None"
        by (auto simp: write_masked_chunks.simps[of wr w p])
      moreover obtain k where "unmask m (take j (obfs_bytes obfs_data (take sz p))) = take k (take sz p)"
        using unmask_part_chunk[OF chunk] by blast
      ultimately show ?thesis using r2 mask_valid_frames(1)[OF chunk, of j]
        by (intro exI[of _ "take j (obfs_bytes obfs_data (take sz p))"] exI[of _ "min k sz"]) auto
    next
      case None
      with r2 have r2': "out (mw_writer w2) = out (mw_writer w) @ obfs_bytes obfs_data (take sz p)"
        "sound (mw_writer w2)" by auto
      obtain pad w3 where pad: "wants_pad w2 (drop sz p) = (pad, w3)" by (cases "wants_pad w2 (drop sz p)")
      from wants_pad_mode[OF pad] r2 have m3: "same_mode w w3" "mw_writer w3 = mw_writer w2"
        by (auto intro: same_mode_trans)
      define y w4 where "y = fst (if pad then write_pad wr w3 else (None, w3))"
        and "w4 = snd (if pad then write_pad wr w3 else (None, w3))"
      have step: "write_masked_chunks wr w p = (case y of Some z \<Rightarrow> (Some z, w4)
          | None \<Rightarrow> write_masked_chunks wr w4 (drop sz p))"
        using False sz x None pad
        by (cases "write_pad wr w3") (auto simp: write_masked_chunks.simps[of wr w p] y_def w4_def split: option.splits)
      have "\<exists>P. same_mode w w4 \<and> out (mw_writer w4) = out (mw_writer w2) @ P \<and> unmask m P = [] \<and>
          mask_valid m P \<and> (y = None \<longrightarrow> masked_open m P \<and> sound (mw_writer w4))"
      proof (cases pad)
        case True
        with m3(2) r2'(2) write_pad_run[of w3 y w4 m] m3 show ?thesis
          by (auto simp: y_def w4_def intro: same_mode_trans)
      next
        case False
        with m3 r2' show ?thesis by (intro exI[of _ "[]"]) (simp add: y_def w4_def)
      qed
      then obtain P where P: "same_mode w w4" "out (mw_writer w4) = out (mw_writer w2) @ P"
        "unmask m P = []" "y = None \<longrightarrow> masked_open m P \<and> sound (mw_writer w4)" "mask_valid m P"
        by blast
      let ?D = "obfs_bytes obfs_data (take sz p)"
      have D: "unmask m (?D @ B) = take sz p @ unmask m B" "masked_open m (?D @ B) = masked_open m B"
        "mask_valid m (?D @ B) = mask_valid m B" for B
        using masked_open_append[OF masked_open_chunk[OF chunk], of B] unmask_chunk[OF chunk] by simp_all
      show ?thesis
      proof (cases y)
        case (Some z)
        with step 1(4) have "w' = w4" "e \<noteq> None" by auto
        with P r2'(1) D[of P] show ?thesis
          by (intro exI[of _ "?D @ P"] exI[of _ sz]) auto
      next
        case None
        with step 1(4) have go: "write_masked_chunks wr w4 (drop sz p) = (e, w')" by simp
        from b False have "length (drop sz p) < length p" by simp
        moreover have "int (length (drop sz p)) \<le> m" using 1(3) by simp
        ultimately obtain G k where G: "same_mode w4 w'" "out (mw_writer w') = out (mw_writer w4) @ G"
          "unmask m G = take k (drop sz p)" "mask_valid m G"
          "e = None \<longrightarrow> unmask m G = drop sz p \<and> masked_open m G \<and> sound (mw_writer w')"
          using 1(1) go P(4) None by blast
        have PG: "unmask m (P @ G) = unmask m G" "masked_open m (P @ G) = masked_open m G"
          "mask_valid m (P @ G) = mask_valid m G"
          using P(3,4) None by (simp_all add: masked_open_append)
        have "take sz p @ take k (drop sz p) = take (sz + k) p" by (simp add: take_add)
        with G P(1,2) r2'(1) D[of "P @ G"] PG show ?thesis
          by (intro exI[of _ "?D @ P @ G"] exI[of _ "sz + k"]) (auto intro: same_mode_trans)
      qed
    qed
  qed
qed

lemma then_do_cases:
  assumes "then_do r f = (e, w')"
  obtains x where "r = (Some x, w')" "e = Some x"
    | v where "r = (None, v)" "f v = (e, w')"
  using assms by (cases r; cases "fst r") (auto simp: then_do_def)

text \<open>
  What a step of \<open>Write\<close> does to the plain bytes: it adds a prefix of \<open>p\<close>, and \<open>p\<close> itself if
  it does not fail.
\<close>

definition passes :: "byte list \<Rightarrow> 'w mask_writer \<Rightarrow> io_error option \<times> 'w mask_writer \<Rightarrow> bool" where
  "passes p w r \<longleftrightarrow>
     (case r of (e, w') \<Rightarrow>
        (\<exists>k. mask_out out w' = mask_out out w @ take k p) \<and>
        mw_config w' = mw_config w \<and>
        mask_valid (max_bytes (mw_config w')) (out (mw_writer w')) \<and>
        (e = None \<longrightarrow> mask_out out w' = mask_out out w @ p \<and> mask_sound out sound w'))"

lemma passes_then:
  assumes "passes p w r" and "\<And>v. r = (None, v) \<Longrightarrow> mask_sound out sound v \<Longrightarrow> passes q v (f v)"
  shows "passes (p @ q) w (then_do r f)"
proof -
  obtain e v where r: "r = (e, v)" by (cases r)
  show ?thesis
  proof (cases e)
    case (Some x)
    from assms(1) r obtain k where "mask_out out v = mask_out out w @ take k p"
      by (auto simp: passes_def)
    then have "mask_out out v = mask_out out w @ take (min k (length p)) p"
      by (simp only: take_min_length)
    with r Some assms(1) show ?thesis
      by (auto simp: passes_def then_do_def intro!: exI[of _ "min k (length p)"])
  next
    case None
    with assms r have v: "mask_out out v = mask_out out w @ p" "passes q v (f v)"
      "mw_config v = mw_config w"
      by (auto simp: passes_def)
    obtain e2 u where u: "f v = (e2, u)" by (cases "f v")
    from v u obtain k where "mask_out out u = mask_out out v @ take k q" by (auto simp: passes_def)
    with v u r None show ?thesis
      by (auto simp: passes_def then_do_def intro!: exI[of _ "length p + k"])
  qed
qed

lemma mask_sound_valid:
  "mask_sound out sound w \<Longrightarrow> mask_valid (max_bytes (mw_config w)) (out (mw_writer w))"
  by (auto simp: mask_sound_def masked_open_valid ended_valid split: if_splits)

lemma passes_nothing: "mask_sound out sound w \<Longrightarrow> passes [] w (None, w)"
  by (simp add: passes_def mask_sound_valid)

lemma plain_out_passes:
  assumes "mask_sound out sound w" and "mw_window_closed w"
  shows "passes p w (plain_out wr w p)"
proof -
  obtain e v where ev: "write_all wr (mw_writer w) p = (e, v)" by (cases "write_all wr (mw_writer w) p")
  from assms have s: "sound (mw_writer w)" "ended (max_bytes (mw_config w)) (out (mw_writer w))"
    by (auto simp: mask_sound_def)
  from write_all_prefix[OF s(1) ev] obtain k where k: "out v = out (mw_writer w) @ take k p" by blast
  have ok: "e = None \<longrightarrow> out v = out (mw_writer w) @ p \<and> sound v"
    using write_all_ok[OF s(1)] ev by auto
  from k ok ev assms ended_append[OF s(2)] ended_valid[OF ended_append(2)[OF s(2)]] show ?thesis
    by (auto simp: passes_def plain_out_def mask_out_def mask_sound_def)
qed

lemma close_window_passes:
  assumes "mask_sound out sound w"
  shows "passes [] w (close_window wr w)"
    and "close_window wr w = (None, v) \<Longrightarrow> mw_window_closed v"
proof -
  obtain e v where ev: "obfs_out wr (w\<lparr>mw_window_closed := True\<rparr>) obfs_end [] = (e, v)"
    by (cases "obfs_out wr (w\<lparr>mw_window_closed := True\<rparr>) obfs_end []")
  let ?m = "max_bytes (mw_config w)"
  from assms have "sound (mw_writer (w\<lparr>mw_window_closed := True\<rparr>))" by (simp add: mask_sound_def)
  from obfs_out_run[OF this ev] obtain j where v: "same_mode (w\<lparr>mw_window_closed := True\<rparr>) v"
    "out (mw_writer v) = out (mw_writer w) @ take j (obfs_bytes obfs_end [])"
    "e = None \<longrightarrow> out (mw_writer v) = out (mw_writer w) @ obfs_bytes obfs_end [] \<and> sound (mw_writer v)"
    by (metis mask_writer.ext_inject mask_writer.surjective mask_writer.update_convs(5))
  show "passes [] w (close_window wr w)"
  proof (cases "mw_window_closed w")
    case True
    with assms mask_sound_valid[OF assms] show ?thesis by (simp add: close_window_def passes_def)
  next
    case False
    with assms have open_w: "masked_open ?m (out (mw_writer w))" "0 < ?m" "0 \<le> mw_masked_bytes w"
      by (auto simp: mask_sound_def)
    from v have "mask_out out v = mask_out out w"
      by (simp add: mask_out_def same_mode_def masked_open_append(1)[OF open_w(1)] unmask_part_end)
    moreover have "mask_valid (max_bytes (mw_config v)) (out (mw_writer v))"
      using v by (simp add: same_mode_def masked_open_append(3)[OF open_w(1)] mask_valid_frames)
    moreover have "mw_config v = mw_config w" using v(1) by (simp add: same_mode_def)
    moreover have "e = None \<longrightarrow> mask_sound out sound v"
      using v open_w ended_end[OF open_w(1)] by (auto simp: mask_sound_def same_mode_def)
    ultimately show ?thesis using False ev by (simp add: close_window_def passes_def)
  qed
  show "mw_window_closed v'" if "close_window wr w = (None, v')" for v'
    using that ev v(1) by (auto simp: close_window_def same_mode_def split: if_splits)
qed

lemma masked_step_passes:
  assumes "mask_sound out sound w" and "\<not> mw_window_closed w"
    and "int (length p) \<le> max_bytes (mw_config w)"
  shows "passes p w (then_do (write_masked_chunks wr w p) (\<lambda>w1.
    (None, w1\<lparr>mw_masked_bytes := mw_masked_bytes w1 + int (length p),
             mw_masked_writes := mw_masked_writes w1 + 1\<rparr>)))"
proof -
  obtain e v where ev: "write_masked_chunks wr w p = (e, v)" by (cases "write_masked_chunks wr w p")
  from assms have s: "sound (mw_writer w)" "masked_open (max_bytes (mw_config w)) (out (mw_writer w))"
    by (auto simp: mask_sound_def)
  from write_masked_chunks_run[OF s(1) assms(3) ev] obtain G k where G: "same_mode w v"
    "out (mw_writer v) = out (mw_writer w) @ G" "unmask (max_bytes (mw_config w)) G = take k p" "mask_valid (max_bytes (mw_config w)) G"
    "e = None \<longrightarrow> unmask (max_bytes (mw_config w)) G = p \<and> masked_open (max_bytes (mw_config w)) G \<and>
       sound (mw_writer v)"
    by blast
  then show ?thesis using assms masked_open_append[OF s(2), of G] ev
    by (cases e) (auto simp: passes_def then_do_def mask_out_def mask_sound_def same_mode_def)
qed

lemma mask_write_passes:
  assumes "mask_sound out sound w" and "mask_write wr w p = (n, e, w')"
  shows "passes p w (e, w') \<and> (e = None \<longrightarrow> n = int (length p))"
proof -
  have wrote: "passes p w (e, w') \<and> (e = None \<longrightarrow> n = int (length p))"
    if "passes p w r" "wrote (length p) r = (n, e, w')" for r
    using that by (cases r; cases "fst r") (auto simp: wrote_def)
  show ?thesis
  proof (cases "p = [] \<or> mw_closed w \<or> mw_window_closed w \<or> window_spent w")
    case True
    have closing: "passes ([] @ p) w (then_do (close_window wr w) (\<lambda>w1. plain_out wr w1 p))"
      using assms(1) by (intro passes_then close_window_passes plain_out_passes)
    show ?thesis
    proof (cases "p = [] \<or> mw_closed w")
      case True
      with assms(2) have "w' = w \<and> (e = None \<longrightarrow> p = [] \<and> n = 0)"
        by (cases "p = []") (auto simp: mask_write_def)
      with assms(1) mask_sound_valid[OF assms(1)] show ?thesis
        by (auto simp: passes_def intro!: exI[of _ 0])
    next
      case False
      show ?thesis
      proof (cases "mw_window_closed w")
        case True
        with assms \<open>\<not> (p = [] \<or> mw_closed w)\<close> show ?thesis
          by (intro wrote[OF plain_out_passes]) (auto simp: mask_write_def)
      next
        case F: False
        with assms \<open>\<not> (p = [] \<or> mw_closed w)\<close> True closing show ?thesis
          by (intro wrote[of "then_do (close_window wr w) (\<lambda>w1. plain_out wr w1 p)"])
            (auto simp: mask_write_def)
      qed
    qed
  next
    case False
    define k where "k = min (length p) (nat (max_bytes (mw_config w) - mw_masked_bytes w))"
    have k: "0 < k" "int (length (take k p)) \<le> max_bytes (mw_config w)" "length (take k p) = k"
      using False assms(1) by (auto simp: k_def window_spent_def mask_sound_def)
    let ?tail = "\<lambda>w3. if k < length p then plain_out wr w3 (drop k p) else (None, w3)"
    let ?close = "\<lambda>w2. if window_spent w2 then close_window wr w2 else (None, w2)"
    let ?mask = "then_do (write_masked_chunks wr w (take k p)) (\<lambda>w1.
      (None, w1\<lparr>mw_masked_bytes := mw_masked_bytes w1 + int k, mw_masked_writes := mw_masked_writes w1 + 1\<rparr>))"
    have mask: "passes (take k p) w ?mask"
      using masked_step_passes[OF assms(1) _ k(2)] False k(3) by simp
    have spent: "window_spent w2" if "?mask = (None, w2)" "k < length p" for w2
    proof -
      from that(1) obtain w1 where w1: "write_masked_chunks wr w (take k p) = (None, w1)"
        "w2 = w1\<lparr>mw_masked_bytes := mw_masked_bytes w1 + int k, mw_masked_writes := mw_masked_writes w1 + 1\<rparr>"
        by (cases "write_masked_chunks wr w (take k p)"; cases "fst (write_masked_chunks wr w (take k p))")
          (auto simp: then_do_def)
      from assms(1) have "sound (mw_writer w)" by (simp add: mask_sound_def)
      from write_masked_chunks_run[OF this k(2) w1(1)] have "same_mode w w1" by blast
      moreover have "int k = max_bytes (mw_config w) - mw_masked_bytes w"
        using that(2) False k(1) by (auto simp: k_def window_spent_def min_def split: if_splits)
      ultimately show ?thesis using w1(2) by (simp add: window_spent_def same_mode_def)
    qed
    have rest: "passes (drop k p) w2 (then_do (?close w2) ?tail)"
      if w2: "?mask = (None, w2)" "mask_sound out sound w2" for w2
    proof -
      have "passes ([] @ drop k p) w2 (then_do (?close w2) ?tail)"
      proof (rule passes_then)
        show "passes [] w2 (?close w2)"
          using close_window_passes(1)[OF w2(2)] passes_nothing[OF w2(2)] by simp
        fix w3
        assume w3: "?close w2 = (None, w3)" "mask_sound out sound w3"
        show "passes (drop k p) w3 (?tail w3)"
        proof (cases "k < length p")
          case True
          with spent[OF w2(1)] w3(1) close_window_passes(2)[OF w2(2)] have "mw_window_closed w3" by simp
          with True plain_out_passes[OF w3(2)] show ?thesis by simp
        next
          case False
          with passes_nothing[OF w3(2)] show ?thesis by simp
        qed
      qed
      then show ?thesis by simp
    qed
    have "passes (take k p @ drop k p) w (then_do ?mask (\<lambda>w2. then_do (?close w2) ?tail))"
      by (rule passes_then[OF mask rest])
    then have all: "passes p w (then_do ?mask (\<lambda>w2. then_do (?close w2) ?tail))" by simp
    have "wrote (length p) (then_do ?mask (\<lambda>w2. then_do (?close w2) ?tail)) = (n, e, w')"
      using assms(2) False k(1) by (simp add: mask_write_def k_def[symmetric] Let_def)
    with all show ?thesis by (rule wrote)
  qed
qed

theorem mask_is_sink: "byte_sink (mask_write wr) (mask_out out) (mask_sound out sound)"
proof
  show "nat n \<le> length p \<and> mask_out out w' = mask_out out w @ take (nat n) p \<and> mask_sound out sound w'"
    if "mask_sound out sound w" "mask_write wr w p = (n, None, w')" for w p n w'
    using mask_write_passes[OF that] by (auto simp: passes_def)
  show "\<exists>k \<le> length p. mask_out out w' = mask_out out w @ take k p"
    if w: "mask_sound out sound w" "mask_write wr w p = (n, Some e, w')" for w p n e w'
  proof -
    from mask_write_passes[OF w] obtain k where "mask_out out w' = mask_out out w @ take k p"
      by (auto simp: passes_def)
    then have "mask_out out w' = mask_out out w @ take (min k (length p)) p"
      by (simp only: take_min_length)
    then show ?thesis by (meson min.cobounded2)
  qed
qed

end

interpretation masked_out: byte_sink "mask_write conn_write" "mask_out sent" "mask_sound sent (\<lambda>_. True)"
  by (rule tcp_out.mask_is_sink)

subsection \<open>The unmasking reader is a reader\<close>

definition plain_mode :: "'r mask_reader \<Rightarrow> bool" where
  "plain_mode r \<longleftrightarrow> mr_passthrough r \<or> mr_finished r"

definition mask_rest :: "('r \<Rightarrow> byte list) \<Rightarrow> 'r mask_reader \<Rightarrow> byte list" where
  "mask_rest rest r =
     mr_buffer r @ (if plain_mode r then rest (mr_source r)
                    else unmask (max_bytes (mr_config r)) (rest (mr_source r)))"

definition mask_ending :: "('r \<Rightarrow> byte list) \<Rightarrow> ('r \<Rightarrow> io_error) \<Rightarrow> 'r mask_reader \<Rightarrow> io_error" where
  "mask_ending rest final r =
     (if plain_mode r then final (mr_source r)
      else mask_final (max_bytes (mr_config r)) (final (mr_source r)) (rest (mr_source r)))"

definition mask_usable :: "('r \<Rightarrow> byte list) \<Rightarrow> ('r \<Rightarrow> bool) \<Rightarrow> 'r mask_reader \<Rightarrow> bool" where
  "mask_usable rest usable r \<longleftrightarrow>
     usable (mr_source r) \<and> \<not> mr_strict r \<and>
     (plain_mode r \<or> mask_valid (max_bytes (mr_config r)) (rest (mr_source r)))"

text \<open>A frame of the stream is neither lost nor made up.\<close>

definition frame_read :: "frame_view \<Rightarrow> byte \<times> byte list \<Rightarrow> byte list \<Rightarrow> bool" where
  "frame_read v x later \<longleftrightarrow>
     (\<exists>p. v = Data_frame p later \<and> x = (obfs_data, p) \<and> p \<noteq> []) \<or>
     (\<exists>p. v = Pad_frame p later \<and> x = (obfs_pad, p)) \<or>
     (v = End_frame later \<and> x = (obfs_end, []))"

context byte_source
begin

lemma read_early_window_frame_run:
  assumes "usable r"
  shows "next_frame (max_bytes c) (rest r) = Cut \<and>
      (\<exists>r'. read_early_window_frame rd r c = Some (Inl (cut_error (rest r) (final r)), r')) \<or>
    next_frame (max_bytes c) (rest r) = Bad \<or>
    (\<exists>x r'. read_early_window_frame rd r c = Some (Inr x, r') \<and> usable r' \<and> final r' = final r \<and>
      frame_read (next_frame (max_bytes c) (rest r)) x (rest r'))"
proof (cases "length (rest r) < 3")
  case True
  then show ?thesis
    using read_full_end[OF assms, of 3] read_full_cut[OF assms _ True]
    by (cases "rest r = []") (auto simp: next_frame_def read_early_window_frame_def cut_error_def)
next
  case False
  define ty len where "ty = rest r ! 0" and "len = unat (get_be16 (drop 1 (rest r)))"
  from False obtain r1 where r1: "read_full rd r 3 = Some (Inr (take 3 (rest r)), r1)" "usable r1"
    "rest r1 = drop 3 (rest r)" "final r1 = final r"
    using read_full_all[OF assms, of "take 3 (rest r)" "drop 3 (rest r)" 3] by auto
  have head: "take 3 (rest r) ! 0 = ty" "unat (get_be16 (drop 1 (take 3 (rest r)))) = len"
    using False by (simp_all add: ty_def len_def get_be16_def)
  have view: "next_frame (max_bytes c) (rest r) =
      (if ty = obfs_end then if len \<noteq> 0 then Bad else End_frame (rest r1)
       else if ty = obfs_data \<and> (len = 0 \<or> max_bytes c < int len) \<or>
               ty = obfs_pad \<and> (len = 0 \<or> max_pad_frame_bytes < len) \<or>
               ty \<noteq> obfs_data \<and> ty \<noteq> obfs_pad
       then Bad
       else if length (rest r1) < len then Cut
       else if ty = obfs_data then Data_frame (take len (rest r1)) (drop len (rest r1))
       else Pad_frame (take len (rest r1)) (drop len (rest r1)))"
    using False by (simp add: next_frame_def Let_def ty_def len_def r1(3))
  have read: "read_early_window_frame rd r c =
      (if ty = obfs_end
       then Some (if len \<noteq> 0 then Inl invalid_obfs_frame else Inr (ty, []), r1)
       else if ty = obfs_data \<and> (len = 0 \<or> max_bytes c < int len) \<or>
               ty = obfs_pad \<and> (len = 0 \<or> max_pad_frame_bytes < len) \<or>
               ty \<noteq> obfs_data \<and> ty \<noteq> obfs_pad
       then Some (Inl invalid_obfs_frame, r1)
       else read_bind (read_full rd r1 len) (\<lambda>payload r2. Some (Inr (ty, payload), r2)))"
    unfolding read_early_window_frame_def r1(1) read_bind_simps Let_def head by simp
  show ?thesis
  proof (cases "next_frame (max_bytes c) (rest r)")
    case Cut
    then have "length (rest r1) < len" "0 < len" and body: "read_early_window_frame rd r c =
        read_bind (read_full rd r1 len) (\<lambda>payload r2. Some (Inr (ty, payload), r2))"
      unfolding view read by (auto split: if_splits)
    moreover have "cut_error (rest r) (final r) =
        (if rest r1 = [] \<or> final r1 \<noteq> End_Of_File then final r1 else Unexpected_EOF)"
      using False r1(3,4) by (auto simp: cut_error_def)
    ultimately show ?thesis
      using read_full_end[OF r1(2), of len] read_full_cut[OF r1(2), of len] Cut
      by (cases "rest r1 = []") auto
  next
    case Bad
    then show ?thesis by simp
  next
    case (Data_frame p later)
    then have len: "len \<le> length (rest r1)" "0 < len" "p = take len (rest r1)" "later = drop len (rest r1)"
        "ty = obfs_data"
      and body: "read_early_window_frame rd r c =
        read_bind (read_full rd r1 len) (\<lambda>payload r2. Some (Inr (ty, payload), r2))"
      unfolding view read by (auto split: if_splits)
    then show ?thesis
      using read_full_all[OF r1(2), of p later len] Data_frame r1(4) by (auto simp: frame_read_def)
  next
    case (Pad_frame p later)
    then have len: "len \<le> length (rest r1)" "p = take len (rest r1)" "later = drop len (rest r1)"
        "ty = obfs_pad"
      and body: "read_early_window_frame rd r c =
        read_bind (read_full rd r1 len) (\<lambda>payload r2. Some (Inr (ty, payload), r2))"
      unfolding view read by (auto split: if_splits)
    then show ?thesis
      using read_full_all[OF r1(2), of p later len] Pad_frame r1(4) by (auto simp: frame_read_def)
  next
    case (End_frame later)
    then have "later = rest r1" "read_early_window_frame rd r c = Some (Inr (obfs_end, []), r1)"
      unfolding view read by (auto split: if_splits)
    with End_frame r1 show ?thesis by (auto simp: frame_read_def)
  qed
qed

definition reads_well :: "nat \<Rightarrow> 'r mask_reader \<Rightarrow> (byte list \<times> io_error option \<times> 'r mask_reader) option \<Rightarrow> bool"
  where
  "reads_well n r res \<longleftrightarrow>
     (if mask_rest rest r = [] then \<exists>r'. res = Some ([], Some (mask_ending rest final r), r')
      else \<exists>d r'. res = Some (d, None, r') \<and> d \<noteq> [] \<and> length d \<le> n \<and>
             mask_rest rest r = d @ mask_rest rest r' \<and> mask_usable rest usable r' \<and>
             mask_ending rest final r' = mask_ending rest final r)"

lemma reads_well_cong:
  "mask_rest rest r' = mask_rest rest r \<Longrightarrow> mask_ending rest final r' = mask_ending rest final r \<Longrightarrow>
   reads_well n r' res = reads_well n r res"
  by (simp add: reads_well_def)

lemma mask_read_buffered:
  assumes "mask_usable rest usable r" and "0 < n" and "mr_buffer r \<noteq> []"
  shows "reads_well n r (mask_read_loop peek rd r n)"
  using assms
  by (subst mask_read_loop.simps)
    (simp add: reads_well_def mask_rest_def mask_usable_def mask_ending_def plain_mode_def)

lemma mask_read_plain:
  assumes "mask_usable rest usable r" and "0 < n" and "mr_passthrough r" and "mr_buffer r = []"
  shows "reads_well n r (mask_read_loop peek rd r n)"
proof (cases "rest (mr_source r) = []")
  case True
  with assms read_end[of "mr_source r" n] show ?thesis
    by (subst mask_read_loop.simps)
      (auto simp: reads_well_def mask_rest_def mask_usable_def mask_ending_def plain_mode_def)
next
  case False
  with assms read_some[of "mr_source r" n] obtain d s where
    "rd (mr_source r) n = Some (d, None, s)" "d \<noteq> []" "length d \<le> n"
    "rest (mr_source r) = d @ rest s" "usable s" "final s = final (mr_source r)"
    by (auto simp: mask_usable_def)
  with assms show ?thesis
    by (subst mask_read_loop.simps)
      (simp add: reads_well_def mask_rest_def mask_usable_def mask_ending_def plain_mode_def)
qed

lemma mask_read_finished:
  assumes "mask_usable rest usable r" and "0 < n" and "mr_finished r" and "mr_buffer r = []"
  shows "reads_well n r (mask_read_loop peek rd r n)"
proof (cases "mr_passthrough r")
  case True
  with assms mask_read_plain show ?thesis by blast
next
  case False
  let ?r = "r\<lparr>mr_passthrough := True\<rparr>"
  have "reads_well n ?r (mask_read_loop peek rd ?r n)"
    using assms by (intro mask_read_plain) (auto simp: mask_usable_def plain_mode_def)
  moreover from assms False have "mask_read_loop peek rd r n = mask_read_loop peek rd ?r n"
    by (subst mask_read_loop.simps) (simp add: mask_usable_def)
  ultimately show ?thesis
    using reads_well_cong[of ?r r n] assms(3)
    by (simp add: mask_rest_def mask_ending_def plain_mode_def)
qed

lemma mask_read_window:
  "mask_usable rest usable r \<Longrightarrow> 0 < n \<Longrightarrow> mr_buffer r = [] \<Longrightarrow> \<not> plain_mode r \<Longrightarrow>
   reads_well n r (mask_read_loop peek rd r n)"
proof (induction "length (rest (mr_source r))" arbitrary: r rule: less_induct)
  case less
  let ?m = "max_bytes (mr_config r)" and ?bs = "rest (mr_source r)"
  from less.prems have u: "usable (mr_source r)" "\<not> mr_strict r" "mask_valid ?m ?bs"
    and flags: "\<not> mr_passthrough r" "\<not> mr_finished r"
    by (auto simp: mask_usable_def plain_mode_def)
  from u(3) have "next_frame ?m ?bs \<noteq> Bad" by (auto simp: mask_valid.simps[of ?m ?bs])
  with read_early_window_frame_run[OF u(1), of "mr_config r"]
  consider s where "next_frame ?m ?bs = Cut" "read_early_window_frame rd (mr_source r) (mr_config r) =
        Some (Inl (cut_error ?bs (final (mr_source r))), s)"
    | x s where "read_early_window_frame rd (mr_source r) (mr_config r) = Some (Inr x, s)" "usable s"
        "final s = final (mr_source r)" "frame_read (next_frame ?m ?bs) x (rest s)"
    by blast
  then show ?case
  proof cases
    case 1
    then show ?thesis using less.prems flags
      by (subst mask_read_loop.simps)
        (simp add: reads_well_def mask_rest_def mask_ending_def unmask_cut mask_final.simps[of ?m _ ?bs])
  next
    case (2 x s)
    let ?r1 = "r\<lparr>mr_source := s\<rparr>"
    from 2(4) consider p where "next_frame ?m ?bs = Data_frame p (rest s)" "x = (obfs_data, p)" "p \<noteq> []"
      | p where "next_frame ?m ?bs = Pad_frame p (rest s)" "x = (obfs_pad, p)"
      | "next_frame ?m ?bs = End_frame (rest s)" "x = (obfs_end, [])"
      by (auto simp: frame_read_def)
    then show ?thesis
    proof cases
      case (1 p)
      let ?r2 = "?r1\<lparr>mr_buffer := p\<rparr>"
      have "mask_read_loop peek rd r n = mask_read_loop peek rd ?r2 n"
        using less.prems flags 2 1 by (subst mask_read_loop.simps) simp
      moreover have "mask_usable rest usable ?r2"
        using 1 2 u flags by (simp add: mask_usable_def mask_valid.simps[of ?m ?bs])
      then have "reads_well n ?r2 (mask_read_loop peek rd ?r2 n)"
        using less.prems 1 by (intro mask_read_buffered) auto
      ultimately show ?thesis
        using reads_well_cong[of ?r2 r n] 1 2 flags less.prems
        by (simp add: mask_rest_def mask_ending_def plain_mode_def unmask.simps[of ?m ?bs]
            mask_final.simps[of ?m _ ?bs])
    next
      case (2 p)
      note pad = 2 and s = \<open>read_early_window_frame rd (mr_source r) (mr_config r) = Some (Inr x, s)\<close>
        \<open>usable s\<close> \<open>final s = final (mr_source r)\<close>
      have "mask_read_loop peek rd r n = mask_read_loop peek rd ?r1 n"
        using less.prems flags s pad by (subst mask_read_loop.simps) simp
      moreover have "mask_usable rest usable ?r1"
        using pad s u flags by (simp add: mask_usable_def mask_valid.simps[of ?m ?bs])
      moreover from pad have "length (rest s) < length ?bs" by auto
      ultimately have "reads_well n ?r1 (mask_read_loop peek rd r n)"
        using less.hyps[of ?r1] less.prems by (simp add: plain_mode_def)
      then show ?thesis
        using reads_well_cong[of ?r1 r n] pad s flags less.prems
        by (simp add: mask_rest_def mask_ending_def plain_mode_def unmask.simps[of ?m ?bs]
            mask_final.simps[of ?m _ ?bs])
    next
      case 3
      note s = \<open>read_early_window_frame rd (mr_source r) (mr_config r) = Some (Inr x, s)\<close>
        \<open>usable s\<close> \<open>final s = final (mr_source r)\<close>
      let ?r2 = "?r1\<lparr>mr_finished := True\<rparr>"
      have "mask_read_loop peek rd r n = mask_read_loop peek rd ?r2 n"
        using less.prems flags s 3 by (subst mask_read_loop.simps) simp
      moreover have "reads_well n ?r2 (mask_read_loop peek rd ?r2 n)"
        using less.prems u s by (intro mask_read_finished) (auto simp: mask_usable_def plain_mode_def)
      ultimately show ?thesis
        using reads_well_cong[of ?r2 r n] 3 s flags less.prems
        by (simp add: mask_rest_def mask_ending_def plain_mode_def unmask.simps[of ?m ?bs]
            mask_final.simps[of ?m _ ?bs])
    qed
  qed
qed

lemma mask_read_loop_run:
  assumes "mask_usable rest usable r" and "0 < n"
  shows "reads_well n r (mask_read_loop peek rd r n)"
  using mask_read_buffered[OF assms] mask_read_plain[OF assms] mask_read_finished[OF assms]
    mask_read_window[OF assms]
  unfolding plain_mode_def by blast

theorem mask_is_source:
  "byte_source (mask_read peek rd) (mask_rest rest) (mask_ending rest final) (mask_usable rest usable)"
  using mask_read_loop_run by unfold_locales (auto simp: mask_read_def reads_well_def)

end

interpretation masked_in: byte_source "mask_read peek conn_read" "mask_rest incoming"
  "mask_ending incoming ending" "mask_usable incoming (\<lambda>_. True)" for peek
  by (rule tcp_in.mask_is_source)

subsection \<open>Frames over a masked connection\<close>

text \<open>
  \<open>wrapConnWithEarlyWindowMask\<close> on both ends: what has been sent on the connection is a valid
  masked stream, even after a failed write, and a reader of any part of it gets a prefix of the
  frames.
\<close>

lemma new_mask_writer_sound:
  "sent c = [] \<Longrightarrow> mask_sound sent (\<lambda>_. True) (new_mask_writer draws clock c cfg)"
  by (simp add: mask_sound_def new_mask_writer_def Let_def normalize_mask_config_def default_mask_bytes_def)

definition sent_valid :: "mask_config \<Rightarrow> conn mask_writer \<Rightarrow> bool" where
  "sent_valid c w \<longleftrightarrow> mw_config w = c \<and> mask_valid (max_bytes c) (sent (mw_writer w))"

lemma mask_write_keeps:
  assumes "mask_sound sent (\<lambda>_. True) w \<and> mw_config w = c"
    and "mask_write conn_write w p = (n, e, w')"
  shows "keeps (\<lambda>w. mask_sound sent (\<lambda>_. True) w \<and> mw_config w = c) (sent_valid c) (e, w')"
  using tcp_out.mask_write_passes[of w p n e w'] assms
  by (auto simp: keeps_def sent_valid_def tcp_out.passes_def)

lemma masked_send_valid:
  assumes "sent c = []"
    and "send_frames (write_mux_frame (mask_write conn_write)) (new_mask_writer draws clock c cfg) fs = (e, w)"
  shows "sent_valid (normalize_mask_config clock cfg) w"
proof -
  let ?w = "new_mask_writer draws clock c cfg" and ?c = "normalize_mask_config clock cfg"
  let ?S = "\<lambda>w. mask_sound sent (\<lambda>_. True) w \<and> mw_config w = ?c"
  have S: "?S ?w" "sent_valid ?c ?w"
    using new_mask_writer_sound[OF assms(1)] assms(1)
    by (auto simp: new_mask_writer_def Let_def sent_valid_def)
  have "keeps ?S (sent_valid ?c) (send_frames (write_mux_frame (mask_write conn_write)) ?w fs)"
    using S by (intro send_frames_keeps write_mux_frame_keeps mask_write_keeps) auto
  with assms(2) show ?thesis by (simp add: keeps_def)
qed

lemma masked_send_out:
  assumes "sent c = []"
    and "send_frames (write_mux_frame (mask_write conn_write)) (new_mask_writer draws clock c cfg) fs = (e, w)"
  shows "\<exists>later. concat (map mux_bytes fs) = mask_out sent w @ later \<and> (e = None \<longrightarrow> later = [])"
proof -
  let ?w = "new_mask_writer draws clock c cfg"
  have s: "mask_sound sent (\<lambda>_. True) ?w" and o0: "mask_out sent ?w = []"
    using new_mask_writer_sound[OF assms(1)] assms(1)
    by (auto simp: mask_out_def new_mask_writer_def Let_def)
  show ?thesis
  proof (cases e)
    case None
    with masked_out.send_frames_ok[of fs "write_mux_frame (mask_write conn_write)" mux_bytes ?w w]
      masked_out.write_mux_frame_ok s assms(2) o0
    show ?thesis by auto
  next
    case (Some x)
    with masked_out.send_frames_failed[of fs "write_mux_frame (mask_write conn_write)" mux_bytes ?w x w]
      masked_out.write_mux_frame_ok masked_out.write_mux_frame_failed s assms(2) o0
    show ?thesis by auto
  qed
qed

lemma with_version_mux_legal:
  "length (fr_payload f) \<le> max_mux_payload_bytes \<Longrightarrow> mux_legal (with_version f)"
  by (simp add: mux_legal_def with_version_def mux_protocol_version_def)

lemma mux_bytes_with_version: "mux_bytes (with_version f) = mux_bytes f"
  by (simp add: mux_bytes_def with_version_def mux_protocol_version_def)

lemma masked_frames_delivered:
  assumes "sent c = []"
    and "send_frames (write_mux_frame (mask_write conn_write)) (new_mask_writer draws clock c cfg) fs = (e, w)"
    and "\<forall>f \<in> set fs. length (fr_payload f) \<le> max_mux_payload_bytes"
    and "incoming r = take j (sent (mw_writer w))"
  shows "\<exists>n x r'. receive_frames (read_mux_frame (mask_read peek conn_read)) (new_mask_reader clock' r cfg False) =
      Some (map with_version (take n fs), x, r') \<and> n \<le> length fs \<and> cut_short (ending r) x \<and>
    (e = None \<and> length (sent (mw_writer w)) \<le> j \<longrightarrow> n = length fs)"
proof -
  let ?m = "max_bytes (normalize_mask_config clock cfg)" and ?r = "new_mask_reader clock' r cfg False"
  let ?fs = "map with_version fs"
  have m: "max_bytes (mr_config ?r) = ?m" by (simp add: new_mask_reader_def normalize_mask_config_def)
  from masked_send_valid[OF assms(1,2)] have v: "mw_config w = normalize_mask_config clock cfg"
    "mask_valid ?m (sent (mw_writer w))" by (auto simp: sent_valid_def)
  have rest: "mask_rest incoming ?r = unmask ?m (take j (sent (mw_writer w)))"
    using m assms(4) by (simp add: mask_rest_def plain_mode_def new_mask_reader_def)
  have use: "mask_usable incoming (\<lambda>_. True) ?r"
    using m assms(4) mask_valid_take[OF v(2), of j] by (simp add: mask_usable_def new_mask_reader_def)
  have fin: "cut_short (ending r) x" if "cut_short (mask_ending incoming ending ?r) x" for x
    using that mask_final_cases[of ?m "ending r" "take j (sent (mw_writer w))"] m assms(4)
    by (auto simp: cut_short_def mask_ending_def plain_mode_def new_mask_reader_def)
  have legal: "\<forall>f \<in> set ?fs. mux_legal f" using assms(3) by (auto intro: with_version_mux_legal)
  have enc: "concat (map mux_bytes ?fs) = concat (map mux_bytes fs)"
    by (simp add: mux_bytes_with_version comp_def)
  obtain later where later: "concat (map mux_bytes fs) = mask_out sent w @ later" "e = None \<longrightarrow> later = []"
    using masked_send_out[OF assms(1,2)] by blast
  have out: "mask_out sent w = unmask ?m (sent (mw_writer w))" using v(1) by (simp add: mask_out_def)
  show ?thesis
  proof (cases "e = None \<and> length (sent (mw_writer w)) \<le> j")
    case True
    with later out rest enc have "mask_rest incoming ?r = concat (map mux_bytes ?fs)" by simp
    with masked_in.mux.receive_whole[OF use legal] obtain r' where
      "receive_frames (read_mux_frame (mask_read peek conn_read)) ?r =
        Some (?fs, mask_ending incoming ending ?r, r')" by blast
    then show ?thesis using fin
      by (intro exI[of _ "length fs"] exI[of _ "mask_ending incoming ending ?r"] exI[of _ r'])
        (auto simp: cut_short_def)
  next
    case False
    obtain more' where "unmask ?m (sent (mw_writer w)) = mask_rest incoming ?r @ more'"
      using mask_prefix[of ?m "take j (sent (mw_writer w))" "drop j (sent (mw_writer w))"] v(2) rest
      by auto
    with later(1) out enc have "concat (map mux_bytes ?fs) = mask_rest incoming ?r @ (more' @ later)" by simp
    with masked_in.mux.receive_part[OF use legal] obtain n x r' where
      "receive_frames (read_mux_frame (mask_read peek conn_read)) ?r = Some (take n ?fs, x, r')"
      "cut_short (mask_ending incoming ending ?r) x" "n \<le> length ?fs" by blast
    with fin False show ?thesis by (auto simp: take_map)
  qed
qed

end
