(* ===== verification/RelayStream.thy ===== *)
theory RelayStream
  imports RelayFrames
begin

text \<open>
  One direction of a logical stream of a relay tunnel (\<open>tlsTCPLogicalStream\<close> in
  \<open>modules/relay/tls_tcp_session_pool.go\<close>): the buffer between the goroutine that reads the tunnel
  and the one that reads the stream, with its limit, its back pressure and its two notification
  channels. The critical sections under \<open>readMu\<close> are functions; \<open>link_step\<close> interleaves them, so
  that a run of it is a schedule of the two goroutines.
\<close>

subsection \<open>The stream and its critical sections\<close>

record stream =
  stream_id :: "32 word"
  chunks :: "byte list list"
  buffered :: int
  read_err :: "io_error option"
  write_closed :: bool
  read_deadline :: time
  read_token :: bool
  space_token :: bool

definition new_stream :: "32 word \<Rightarrow> stream" where
  "new_stream i =
     \<lparr>stream_id = i, chunks = [], buffered = 0, read_err = None, write_closed = False,
      read_deadline = 0, read_token = False, space_token = False\<rparr>"

text \<open>
  \<open>tlsTCPMaxBufferedReadBytes\<close> and \<open>tlsTCPResumeBufferedReadBytes\<close> are variables of the package.
\<close>

record limits =
  max_buffered :: int
  resume_buffered :: int

definition default_limits :: limits where
  "default_limits = \<lparr>max_buffered = 33554432, resume_buffered = 16777216\<rparr>"

definition resume_threshold :: "limits \<Rightarrow> int" where
  "resume_threshold l =
     (if resume_buffered l < 0 then 0
      else if max_buffered l \<le> resume_buffered l then max_buffered l div 2
      else resume_buffered l)"

text \<open>The copying loop of \<open>Read\<close>. A zero \<open>read_deadline\<close> is the zero \<open>time.Time\<close>: no deadline.\<close>

fun take_chunks :: "nat \<Rightarrow> byte list list \<Rightarrow> byte list \<times> byte list list" where
  "take_chunks 0 cs = ([], cs)"
| "take_chunks (Suc n) [] = ([], [])"
| "take_chunks (Suc n) (c # cs) =
     (if c = [] then take_chunks (Suc n) cs
      else if Suc n < length c then (take (Suc n) c, drop (Suc n) c # cs)
      else case take_chunks (Suc n - length c) cs of (d, later) \<Rightarrow> (c @ d, later))"

datatype read_try = Read_got "byte list" | Read_failed io_error | Read_blocks

definition read_section :: "stream \<Rightarrow> nat \<Rightarrow> read_try \<times> stream" where
  "read_section s n =
     (if chunks s \<noteq> []
      then case take_chunks n (chunks s) of
             (d, cs) \<Rightarrow> (Read_got d, s\<lparr>chunks := cs, buffered := buffered s - int (length d)\<rparr>)
      else case read_err s of
             Some e \<Rightarrow> (Read_failed e, s)
           | None \<Rightarrow> (Read_blocks, s))"

datatype append_try = Append_queued | Append_dropped | Append_waits bool

definition can_queue :: "limits \<Rightarrow> stream \<Rightarrow> byte list \<Rightarrow> bool" where
  "can_queue l s c \<longleftrightarrow>
     max_buffered l \<le> 0 \<or> buffered s = 0 \<or> buffered s + int (length c) \<le> max_buffered l"

definition append_section :: "limits \<Rightarrow> stream \<Rightarrow> byte list \<Rightarrow> bool \<Rightarrow> append_try \<times> stream" where
  "append_section l s c blocked =
     (if read_err s \<noteq> None then (Append_dropped, s)
      else if blocked \<and> 0 < max_buffered l \<and> resume_threshold l < buffered s
      then (Append_waits True, s)
      else if can_queue l s c
      then (Append_queued, s\<lparr>chunks := chunks s @ [c], buffered := buffered s + int (length c)\<rparr>)
      else (Append_waits True, s))"

definition set_read_error :: "io_error \<Rightarrow> stream \<Rightarrow> stream" where
  "set_read_error e s = (if read_err s = None then s\<lparr>read_err := Some e\<rparr> else s)"

definition discard_read_chunks :: "stream \<Rightarrow> stream" where
  "discard_read_chunks s = s\<lparr>chunks := [], buffered := 0\<rparr>"

definition prepend_read_chunk :: "byte list \<Rightarrow> stream \<Rightarrow> stream" where
  "prepend_read_chunk c s =
     (if c = [] then s
      else s\<lparr>chunks := c # chunks s, buffered := buffered s + int (length c)\<rparr>)"

text \<open>\<open>WriteTo\<close> takes a chunk out, writes it without the lock and puts back what is left.\<close>

definition write_to_section :: "stream \<Rightarrow> read_try \<times> stream" where
  "write_to_section s =
     (case chunks s of
        c # cs \<Rightarrow> (Read_got c, s\<lparr>chunks := cs, buffered := buffered s - int (length c)\<rparr>)
      | [] \<Rightarrow> (case read_err s of
                Some e \<Rightarrow> (Read_failed e, s)
              | None \<Rightarrow> (Read_blocks, s)))"

definition notify_readable :: "stream \<Rightarrow> stream" where
  "notify_readable s = s\<lparr>read_token := True\<rparr>"

definition notify_read_space :: "stream \<Rightarrow> stream" where
  "notify_read_space s = s\<lparr>space_token := True\<rparr>"

lemma take_chunks_concat:
  "take_chunks n cs = (d, later) \<Longrightarrow> concat cs = d @ concat later"
  by (induction n cs arbitrary: d later rule: take_chunks.induct)
    (auto split: if_splits prod.splits)

lemma take_chunks_length: "take_chunks n cs = (d, later) \<Longrightarrow> length d \<le> n"
  by (induction n cs arbitrary: d later rule: take_chunks.induct)
    (auto split: if_splits prod.splits)

lemma take_chunks_nonempty:
  "take_chunks n cs = (d, later) \<Longrightarrow> [] \<notin> set cs \<Longrightarrow> [] \<notin> set later"
  by (induction n cs arbitrary: d later rule: take_chunks.induct)
    (auto split: if_splits prod.splits)

lemma take_chunks_some:
  "take_chunks n cs = (d, later) \<Longrightarrow> [] \<notin> set cs \<Longrightarrow> cs \<noteq> [] \<Longrightarrow> 0 < n \<Longrightarrow> d \<noteq> []"
  by (cases n; cases cs) (auto split: if_splits prod.splits)

text \<open>A \<open>Read\<close> either fills its buffer or empties the queue.\<close>

lemma take_chunks_full:
  "take_chunks n cs = (d, later) \<Longrightarrow> length d = n \<or> later = []"
  by (induction n cs arbitrary: d later rule: take_chunks.induct)
    (auto split: if_splits prod.splits)

subsection \<open>The two goroutines\<close>

text \<open>
  The tunnel's goroutine is outside \<open>appendDataChunk\<close> or holds a chunk in it, at its lock or in
  its \<open>select\<close>. The stream's goroutine is in \<open>Read\<close>, at the lock or in the \<open>select\<close> with the
  deadline it has seen, or in \<open>WriteTo\<close>, where it also writes a chunk without the lock.
  Notifications that a section owes are counted and sent later, as the code sends them after it
  has released the lock. The last four fields record what has happened: the bytes handed to
  \<open>appendDataChunk\<close> in all and before the tunnel's goroutine ended the stream, what the reader
  was given, and whether bytes were thrown away on this side.
\<close>

datatype appending = Not_appending | Append_at_lock "byte list" bool | Append_selects "byte list" bool

datatype reading =
    Not_reading
  | Read_at_lock nat
  | Read_selects nat time
  | Copy_at_lock
  | Copy_writes "byte list"
  | Copy_puts_back "byte list" io_error
  | Copy_selects

record link =
  str :: stream
  tunnel_closed :: bool
  appending :: appending
  reading :: reading
  owed_readable :: nat
  owed_space :: nat
  arrived :: "byte list"
  ended_with :: "byte list option"
  results :: "(byte list \<times> io_error option) list"
  lossy :: bool

definition new_link :: "32 word \<Rightarrow> link" where
  "new_link i =
     \<lparr>str = new_stream i, tunnel_closed = False, appending = Not_appending, reading = Not_reading,
      owed_readable = 0, owed_space = 0, arrived = [], ended_with = None,
      results = [], lossy = False\<rparr>"

definition received :: "link \<Rightarrow> byte list" where
  "received k = concat (map fst (results k))"

definition read_returns :: "byte list \<Rightarrow> io_error option \<Rightarrow> link \<Rightarrow> link" where
  "read_returns d e k = k\<lparr>reading := Not_reading, results := results k @ [(d, e)]\<rparr>"

subsection \<open>The steps of \<open>appendDataChunk\<close>\<close>

definition data_arrives :: "byte list \<Rightarrow> link \<Rightarrow> link option" where
  "data_arrives c k =
     (if appending k \<noteq> Not_appending then None
      else if c = [] then Some k
      else Some (k\<lparr>appending := Append_at_lock c False, arrived := arrived k @ c\<rparr>))"

definition append_locks :: "limits \<Rightarrow> link \<Rightarrow> link option" where
  "append_locks l k =
     (case appending k of
        Append_at_lock c blocked \<Rightarrow>
          (case append_section l (str k) c blocked of
             (Append_queued, s) \<Rightarrow>
               Some (k\<lparr>str := s, appending := Not_appending, owed_readable := Suc (owed_readable k)\<rparr>)
           | (Append_dropped, s) \<Rightarrow> Some (k\<lparr>str := s, appending := Not_appending\<rparr>)
           | (Append_waits b, s) \<Rightarrow> Some (k\<lparr>str := s, appending := Append_selects c b\<rparr>))
      | _ \<Rightarrow> None)"

definition append_wakes :: "link \<Rightarrow> link option" where
  "append_wakes k =
     (case appending k of
        Append_selects c b \<Rightarrow>
          if space_token (str k)
          then Some (k\<lparr>str := (str k)\<lparr>space_token := False\<rparr>, appending := Append_at_lock c b\<rparr>)
          else None
      | _ \<Rightarrow> None)"

definition append_sees_close :: "link \<Rightarrow> link option" where
  "append_sees_close k =
     (case appending k of
        Append_selects c b \<Rightarrow>
          if tunnel_closed k then Some (k\<lparr>appending := Not_appending, lossy := True\<rparr>) else None
      | _ \<Rightarrow> None)"

text \<open>\<open>setReadError\<close> by the tunnel's goroutine (FIN, RST, a broken tunnel) or by the stream's owner.\<close>

definition error_set :: "io_error \<Rightarrow> link \<Rightarrow> link" where
  "error_set e k =
     k\<lparr>str := set_read_error e (str k), owed_readable := Suc (owed_readable k),
       owed_space := Suc (owed_space k)\<rparr>"

definition error_arrives :: "io_error \<Rightarrow> link \<Rightarrow> link option" where
  "error_arrives e k =
     (if appending k \<noteq> Not_appending then None
      else if read_err (str k) = None then Some ((error_set e k)\<lparr>ended_with := Some (arrived k)\<rparr>)
      else Some (error_set e k))"

subsection \<open>The steps of \<open>Read\<close>\<close>

definition read_called :: "nat \<Rightarrow> link \<Rightarrow> link option" where
  "read_called n k = (if reading k = Not_reading then Some (k\<lparr>reading := Read_at_lock n\<rparr>) else None)"

definition read_locks :: "time \<Rightarrow> link \<Rightarrow> link option" where
  "read_locks now k =
     (case reading k of
        Read_at_lock n \<Rightarrow>
          (case read_section (str k) n of
             (Read_got d, s) \<Rightarrow>
               Some ((read_returns d None k)\<lparr>str := s,
                       owed_space := owed_space k + (if d \<noteq> [] then 1 else 0)\<rparr>)
           | (Read_failed e, s) \<Rightarrow> Some (read_returns [] (Some e) k)
           | (Read_blocks, s) \<Rightarrow>
               if read_deadline s \<noteq> 0 \<and> read_deadline s \<le> now
               then Some (read_returns [] (Some Deadline_Exceeded) k)
               else Some (k\<lparr>reading := Read_selects n (read_deadline s)\<rparr>))
      | _ \<Rightarrow> None)"

definition read_wakes :: "link \<Rightarrow> link option" where
  "read_wakes k =
     (case reading k of
        Read_selects n d \<Rightarrow>
          if read_token (str k)
          then Some (k\<lparr>str := (str k)\<lparr>read_token := False\<rparr>, reading := Read_at_lock n\<rparr>)
          else None
      | Copy_selects \<Rightarrow>
          if read_token (str k)
          then Some (k\<lparr>str := (str k)\<lparr>read_token := False\<rparr>, reading := Copy_at_lock\<rparr>)
          else None
      | _ \<Rightarrow> None)"

definition read_sees_close :: "link \<Rightarrow> link option" where
  "read_sees_close k =
     (if tunnel_closed k
      then case reading k of
             Read_selects n d \<Rightarrow> Some (read_returns [] (Some End_Of_File) k)
           | Copy_selects \<Rightarrow> Some (read_returns [] (Some End_Of_File) k)
           | _ \<Rightarrow> None
      else None)"

definition read_times_out :: "time \<Rightarrow> link \<Rightarrow> link option" where
  "read_times_out now k =
     (case reading k of
        Read_selects n d \<Rightarrow>
          if d \<noteq> 0 \<and> d \<le> now then Some (read_returns [] (Some Deadline_Exceeded) k) else None
      | _ \<Rightarrow> None)"

definition set_read_deadline :: "time \<Rightarrow> link \<Rightarrow> link" where
  "set_read_deadline t k =
     k\<lparr>str := (str k)\<lparr>read_deadline := t\<rparr>, owed_readable := Suc (owed_readable k)\<rparr>"

subsection \<open>The steps of \<open>WriteTo\<close>\<close>

definition copy_called :: "link \<Rightarrow> link option" where
  "copy_called k = (if reading k = Not_reading then Some (k\<lparr>reading := Copy_at_lock\<rparr>) else None)"

definition copy_locks :: "link \<Rightarrow> link option" where
  "copy_locks k =
     (case reading k of
        Copy_at_lock \<Rightarrow>
          (case write_to_section (str k) of
             (Read_got c, s) \<Rightarrow> Some (k\<lparr>str := s, reading := Copy_writes c\<rparr>)
           | (Read_failed e, s) \<Rightarrow>
               Some (read_returns [] (if e = End_Of_File then None else Some e) k)
           | (Read_blocks, s) \<Rightarrow> Some (k\<lparr>reading := Copy_selects\<rparr>))
      | _ \<Rightarrow> None)"

text \<open>
  \<open>w.Write(chunk)\<close> has taken \<open>n\<close> bytes and returned \<open>e\<close>: the copying goes on, or the rest of the
  chunk goes back (\<open>prependReadChunk\<close>) and \<open>WriteTo\<close> returns.
\<close>

definition copy_wrote :: "nat \<Rightarrow> io_error option \<Rightarrow> link \<Rightarrow> link option" where
  "copy_wrote n e k =
     (case reading k of
        Copy_writes c \<Rightarrow>
          if length c < n then None
          else Some (k\<lparr>reading := (case e of
                                   Some x \<Rightarrow> Copy_puts_back (drop n c) x
                                 | None \<Rightarrow> if n \<noteq> length c then Copy_puts_back (drop n c) Short_Write
                                           else Copy_at_lock),
                      results := results k @ [(take n c, None)],
                      owed_space := owed_space k + (if c \<noteq> [] then 1 else 0)\<rparr>)
      | _ \<Rightarrow> None)"

definition copy_returns :: "link \<Rightarrow> link option" where
  "copy_returns k =
     (case reading k of
        Copy_puts_back c e \<Rightarrow>
          Some ((read_returns [] (Some e) k)\<lparr>str := prepend_read_chunk c (str k),
                  owed_readable := owed_readable k + (if c \<noteq> [] then 1 else 0)\<rparr>)
      | _ \<Rightarrow> None)"

subsection \<open>Closing\<close>

text \<open>\<open>CloseRead\<close> and \<open>Close\<close> discard the queue and then set the error.\<close>

definition discards :: "link \<Rightarrow> link" where
  "discards k =
     k\<lparr>str := discard_read_chunks (str k), owed_space := Suc (owed_space k), lossy := True\<rparr>"

definition readable_notified :: "link \<Rightarrow> link option" where
  "readable_notified k =
     (if 0 < owed_readable k
      then Some (k\<lparr>str := notify_readable (str k), owed_readable := owed_readable k - 1\<rparr>) else None)"

definition space_notified :: "link \<Rightarrow> link option" where
  "space_notified k =
     (if 0 < owed_space k
      then Some (k\<lparr>str := notify_read_space (str k), owed_space := owed_space k - 1\<rparr>) else None)"

subsection \<open>Schedules\<close>

datatype link_event =
    Data_arrives "byte list"
  | Error_arrives io_error
  | Append_locks
  | Append_wakes
  | Append_sees_close
  | Read_called nat
  | Read_locks time
  | Read_wakes
  | Read_sees_close
  | Read_times_out time
  | Deadline_set time
  | Copy_called
  | Copy_locks
  | Copy_wrote nat "io_error option"
  | Copy_returns
  | Discards
  | Error_set io_error
  | Readable_notified
  | Space_notified
  | Tunnel_closes

definition link_step :: "limits \<Rightarrow> link_event \<Rightarrow> link \<Rightarrow> link option" where
  "link_step l ev k =
     (case ev of
        Data_arrives c \<Rightarrow> data_arrives c k
      | Error_arrives e \<Rightarrow> error_arrives e k
      | Append_locks \<Rightarrow> append_locks l k
      | Append_wakes \<Rightarrow> append_wakes k
      | Append_sees_close \<Rightarrow> append_sees_close k
      | Read_called n \<Rightarrow> read_called n k
      | Read_locks now \<Rightarrow> read_locks now k
      | Read_wakes \<Rightarrow> read_wakes k
      | Read_sees_close \<Rightarrow> read_sees_close k
      | Read_times_out now \<Rightarrow> read_times_out now k
      | Deadline_set t \<Rightarrow> Some (set_read_deadline t k)
      | Copy_called \<Rightarrow> copy_called k
      | Copy_locks \<Rightarrow> copy_locks k
      | Copy_wrote n e \<Rightarrow> copy_wrote n e k
      | Copy_returns \<Rightarrow> copy_returns k
      | Discards \<Rightarrow> Some (discards k)
      | Error_set e \<Rightarrow> Some (error_set e k)
      | Readable_notified \<Rightarrow> readable_notified k
      | Space_notified \<Rightarrow> space_notified k
      | Tunnel_closes \<Rightarrow> Some (k\<lparr>tunnel_closed := True\<rparr>))"

fun link_run :: "limits \<Rightarrow> link_event list \<Rightarrow> link \<Rightarrow> link option" where
  "link_run l [] k = Some k"
| "link_run l (ev # evs) k =
     (case link_step l ev k of None \<Rightarrow> None | Some k' \<Rightarrow> link_run l evs k')"

subsection \<open>The invariant\<close>

definition copied :: "reading \<Rightarrow> byte list" where
  "copied r = (case r of Copy_writes c \<Rightarrow> c | Copy_puts_back c e \<Rightarrow> c | _ \<Rightarrow> [])"

definition waiting_data :: "appending \<Rightarrow> byte list" where
  "waiting_data a =
     (case a of Append_at_lock c b \<Rightarrow> c | Append_selects c b \<Rightarrow> c | Not_appending \<Rightarrow> [])"

text \<open>What the reader has been given or can still be given.\<close>

definition held :: "link \<Rightarrow> byte list" where
  "held k = received k @ copied (reading k) @ concat (chunks (str k))"

definition queue_ok :: "link \<Rightarrow> bool" where
  "queue_ok k \<longleftrightarrow>
     buffered (str k) = int (length (concat (chunks (str k)))) \<and> [] \<notin> set (chunks (str k)) \<and>
     (\<forall>c b. appending k = Append_at_lock c b \<or> appending k = Append_selects c b \<longrightarrow> c \<noteq> []) \<and>
     (\<forall>c. reading k = Copy_writes c \<longrightarrow> c \<noteq> [])"

definition bytes_ok :: "link \<Rightarrow> bool" where
  "bytes_ok k \<longleftrightarrow>
     (lossy k \<or>
       (\<exists>later. arrived k = held k @ later) \<and>
       (read_err (str k) = None \<longrightarrow> arrived k = held k @ waiting_data (appending k)) \<and>
       (\<forall>a. ended_with k = Some a \<longrightarrow> held k = a)) \<and>
     (ended_with k \<noteq> None \<longrightarrow> read_err (str k) \<noteq> None)"

text \<open>No piece is larger than \<open>b\<close>, and the bytes kept in memory are bounded.\<close>

definition memory_ok :: "limits \<Rightarrow> nat \<Rightarrow> link \<Rightarrow> bool" where
  "memory_ok l b k \<longleftrightarrow>
     (\<forall>c \<in> set (chunks (str k)). length c \<le> b) \<and> length (copied (reading k)) \<le> b \<and>
     length (waiting_data (appending k)) \<le> b \<and>
     (0 < max_buffered l \<longrightarrow>
       buffered (str k) + int (length (copied (reading k))) \<le> max (max_buffered l) (int b) + int b)"

text \<open>No wake-up is lost.\<close>

definition reader_selects :: "link \<Rightarrow> bool" where
  "reader_selects k \<longleftrightarrow> reading k = Copy_selects \<or> (\<exists>n d. reading k = Read_selects n d)"

definition something_to_read :: "link \<Rightarrow> bool" where
  "something_to_read k \<longleftrightarrow>
     chunks (str k) \<noteq> [] \<or> read_err (str k) \<noteq> None \<or>
     (\<exists>n d. reading k = Read_selects n d \<and> read_deadline (str k) \<noteq> d)"

definition wakes_ok :: "limits \<Rightarrow> link \<Rightarrow> bool" where
  "wakes_ok l k \<longleftrightarrow>
     (reader_selects k \<and> something_to_read k \<longrightarrow> read_token (str k) \<or> 0 < owed_readable k) \<and>
     (\<forall>c b. appending k = Append_selects c b \<longrightarrow>
        b \<and> (fst (append_section l (str k) c b) = Append_waits True \<or> space_token (str k) \<or>
             0 < owed_space k \<or> (\<exists>d. reading k = Copy_writes d)))"

lemma new_link_ok:
  "queue_ok (new_link i)" "bytes_ok (new_link i)" "memory_ok l b (new_link i)" "wakes_ok l (new_link i)"
  by (simp_all add: queue_ok_def bytes_ok_def memory_ok_def wakes_ok_def new_link_def new_stream_def
      held_def received_def copied_def waiting_data_def reader_selects_def)

lemmas link_steps = data_arrives_def append_locks_def append_wakes_def append_sees_close_def
  error_set_def error_arrives_def read_called_def read_locks_def read_wakes_def read_sees_close_def
  read_times_out_def set_read_deadline_def copy_called_def copy_locks_def copy_wrote_def
  copy_returns_def discards_def readable_notified_def space_notified_def read_returns_def

lemmas stream_sections = read_section_def append_section_def set_read_error_def
  discard_read_chunks_def prepend_read_chunk_def write_to_section_def notify_readable_def
  notify_read_space_def

lemma received_simps [simp]:
  "received (k\<lparr>results := results k @ [(d, e)]\<rparr>) = received k @ d"
  "received (k\<lparr>str := s\<rparr>) = received k" "received (k\<lparr>appending := a\<rparr>) = received k"
  "received (k\<lparr>reading := r\<rparr>) = received k" "received (k\<lparr>owed_readable := m\<rparr>) = received k"
  "received (k\<lparr>owed_space := m\<rparr>) = received k" "received (k\<lparr>arrived := d\<rparr>) = received k"
  "received (k\<lparr>ended_with := x\<rparr>) = received k" "received (k\<lparr>lossy := y\<rparr>) = received k"
  "received (k\<lparr>tunnel_closed := y\<rparr>) = received k"
  by (simp_all add: received_def)

text \<open>What each step that takes the lock can do.\<close>

lemma append_locks_cases:
  assumes "append_locks l k = Some k'"
  obtains c b where "appending k = Append_at_lock c b"
      "read_err (str k) = None" "can_queue l (str k) c"
      "k' = k\<lparr>str := (str k)\<lparr>chunks := chunks (str k) @ [c], buffered := buffered (str k) + int (length c)\<rparr>,
             appending := Not_appending, owed_readable := Suc (owed_readable k)\<rparr>"
    | c b where "appending k = Append_at_lock c b" "read_err (str k) \<noteq> None"
      "k' = k\<lparr>appending := Not_appending\<rparr>"
    | c b where "appending k = Append_at_lock c b" "read_err (str k) = None"
      "append_section l (str k) c True = (Append_waits True, str k)"
      "k' = k\<lparr>appending := Append_selects c True\<rparr>"
proof -
  obtain c b where ap: "appending k = Append_at_lock c b"
    using assms by (auto simp: append_locks_def split: appending.splits)
  show thesis
  proof (cases "read_err (str k) = None")
    case False
    with assms ap that(2) show thesis by (auto simp: append_locks_def append_section_def)
  next
    case err: True
    show thesis
    proof (cases "(b \<and> 0 < max_buffered l \<and> resume_threshold l < buffered (str k)) \<or> \<not> can_queue l (str k) c")
      case True
      with assms ap err that(3) show thesis
        by (auto simp: append_locks_def append_section_def split: if_splits)
    next
      case False
      then have "append_section l (str k) c b = (Append_queued,
          (str k)\<lparr>chunks := chunks (str k) @ [c], buffered := buffered (str k) + int (length c)\<rparr>)"
        using err unfolding append_section_def by auto
      with assms ap err False that(1) show thesis by (simp add: append_locks_def)
    qed
  qed
qed

lemma read_locks_cases:
  assumes "read_locks now k = Some k'"
  obtains n d cs where "reading k = Read_at_lock n" "chunks (str k) \<noteq> []"
      "take_chunks n (chunks (str k)) = (d, cs)"
      "k' = (read_returns d None k)\<lparr>str := (str k)\<lparr>chunks := cs, buffered := buffered (str k) - int (length d)\<rparr>,
             owed_space := owed_space k + (if d \<noteq> [] then 1 else 0)\<rparr>"
    | n e where "reading k = Read_at_lock n" "chunks (str k) = []" "read_err (str k) = Some e"
      "k' = read_returns [] (Some e) k"
    | n where "reading k = Read_at_lock n" "chunks (str k) = []" "read_err (str k) = None"
      "k' = read_returns [] (Some Deadline_Exceeded) k" "read_deadline (str k) \<noteq> 0"
    | n where "reading k = Read_at_lock n" "chunks (str k) = []" "read_err (str k) = None"
      "k' = k\<lparr>reading := Read_selects n (read_deadline (str k))\<rparr>"
proof -
  obtain n where rd: "reading k = Read_at_lock n"
    using assms by (auto simp: read_locks_def split: reading.splits)
  show thesis
  proof (cases "chunks (str k) = []")
    case False
    obtain d cs where "take_chunks n (chunks (str k)) = (d, cs)" by (cases "take_chunks n (chunks (str k))")
    with assms rd False that(1) show thesis by (simp add: read_locks_def read_section_def)
  next
    case True
    with assms rd that(2-4) show thesis
      by (cases "read_err (str k)") (auto simp: read_locks_def read_section_def split: if_splits)
  qed
qed

lemma copy_locks_cases:
  assumes "copy_locks k = Some k'"
  obtains c cs where "reading k = Copy_at_lock" "chunks (str k) = c # cs"
      "k' = k\<lparr>str := (str k)\<lparr>chunks := cs, buffered := buffered (str k) - int (length c)\<rparr>,
             reading := Copy_writes c\<rparr>"
    | e where "reading k = Copy_at_lock" "chunks (str k) = []" "read_err (str k) = Some e"
      "k' = read_returns [] (if e = End_Of_File then None else Some e) k"
    | "reading k = Copy_at_lock" "chunks (str k) = []" "read_err (str k) = None"
      "k' = k\<lparr>reading := Copy_selects\<rparr>"
  using assms
  by (auto simp: copy_locks_def write_to_section_def split: reading.splits list.splits option.splits)

lemma copy_wrote_cases:
  assumes "copy_wrote n e k = Some k'"
  obtains c r where "reading k = Copy_writes c" "n \<le> length c" "copied r = drop n c"
      "r = Copy_at_lock \<or> (\<exists>x. r = Copy_puts_back (drop n c) x)"
      "k' = k\<lparr>reading := r, results := results k @ [(take n c, None)],
             owed_space := owed_space k + (if c \<noteq> [] then 1 else 0)\<rparr>"
proof -
  obtain c where c: "reading k = Copy_writes c" "n \<le> length c"
    using assms by (auto simp: copy_wrote_def split: reading.splits if_splits)
  define r where "r = (case e of Some x \<Rightarrow> Copy_puts_back (drop n c) x
    | None \<Rightarrow> if n \<noteq> length c then Copy_puts_back (drop n c) Short_Write else Copy_at_lock)"
  have "copied r = drop n c" "r = Copy_at_lock \<or> (\<exists>x. r = Copy_puts_back (drop n c) x)"
    using c(2) by (auto simp: r_def copied_def split: option.splits)
  with assms c show thesis by (intro that[of c r]) (simp_all add: copy_wrote_def r_def)
qed

lemma queue_step:
  assumes "link_step l ev k = Some k'" and "queue_ok k"
  shows "queue_ok k'"
proof (cases ev)
  case (Read_locks now)
  with assms(1) have "read_locks now k = Some k'" by (simp add: link_step_def)
  then show ?thesis using assms(2)
    by (cases rule: read_locks_cases)
      (auto simp: queue_ok_def read_returns_def dest: take_chunks_concat take_chunks_nonempty)
next
  case Append_locks
  with assms(1) have "append_locks l k = Some k'" by (simp add: link_step_def)
  then show ?thesis using assms(2) by (cases rule: append_locks_cases) (auto simp: queue_ok_def)
next
  case Copy_locks
  with assms(1) have "copy_locks k = Some k'" by (simp add: link_step_def)
  then show ?thesis using assms(2)
    by (cases rule: copy_locks_cases) (auto simp: queue_ok_def read_returns_def)
next
  case (Copy_wrote n e)
  with assms(1) have "copy_wrote n e k = Some k'" by (simp add: link_step_def)
  then show ?thesis using assms(2) by (cases rule: copy_wrote_cases) (auto simp: queue_ok_def)
qed (use assms in \<open>auto simp: link_step_def link_steps set_read_error_def discard_read_chunks_def
      prepend_read_chunk_def notify_readable_def notify_read_space_def queue_ok_def
      split: appending.splits reading.splits if_splits\<close>)

lemma copied_simps [simp]:
  "copied Not_reading = []" "copied (Read_at_lock n) = []" "copied (Read_selects n d) = []"
  "copied Copy_at_lock = []" "copied Copy_selects = []" "copied (Copy_writes c) = c"
  "copied (Copy_puts_back c e) = c"
  by (simp_all add: copied_def)

lemma waiting_data_simps [simp]:
  "waiting_data Not_appending = []" "waiting_data (Append_at_lock c b) = c"
  "waiting_data (Append_selects c b) = c"
  by (simp_all add: waiting_data_def)

lemma held_read:
  assumes "take_chunks n (chunks (str k)) = (d, cs)" and "copied (reading k) = []"
  shows "received k @ d @ concat cs = held k"
  using take_chunks_concat[OF assms(1)] assms(2) by (simp add: held_def)

text \<open>
  A step that neither takes in data nor throws any away keeps \<open>held\<close>; the queue is only
  shuffled.
\<close>

lemma bytes_same_held:
  assumes "bytes_ok k" and "held k' = held k" and "arrived k' = arrived k"
    and "lossy k' = lossy k" and "ended_with k' = ended_with k"
    and "read_err (str k) \<noteq> None \<longrightarrow> read_err (str k') \<noteq> None"
    and "read_err (str k') = None \<longrightarrow> waiting_data (appending k') = waiting_data (appending k)"
  shows "bytes_ok k'"
  using assms unfolding bytes_ok_def by (cases "read_err (str k')") auto

lemma bytes_step:
  assumes "link_step l ev k = Some k'" and "bytes_ok k"
  shows "bytes_ok k'"
proof (cases ev)
  case (Read_locks now)
  with assms(1) have "read_locks now k = Some k'" by (simp add: link_step_def)
  then show ?thesis
  proof (cases rule: read_locks_cases)
    case (1 n d cs)
    show ?thesis
      using 1 held_read[OF 1(3)] by (intro bytes_same_held[OF assms(2)]) (simp_all add: held_def read_returns_def received_def)
  qed (intro bytes_same_held[OF assms(2)]; simp add: held_def read_returns_def received_def)+
next
  case Append_locks
  with assms(1) have "append_locks l k = Some k'" by (simp add: link_step_def)
  then show ?thesis
  proof (cases rule: append_locks_cases)
    case (1 c b)
    with assms(2) show ?thesis by (auto simp: bytes_ok_def held_def)
  next
    case (2 c b)
    with assms(2) show ?thesis by (auto simp: bytes_ok_def held_def)
  next
    case (3 c b)
    then show ?thesis by (intro bytes_same_held[OF assms(2)]) (simp_all add: held_def)
  qed
next
  case Copy_locks
  with assms(1) have "copy_locks k = Some k'" by (simp add: link_step_def)
  then show ?thesis
    by (cases rule: copy_locks_cases)
      (intro bytes_same_held[OF assms(2)]; simp add: held_def read_returns_def received_def)+
next
  case (Copy_wrote n e)
  with assms(1) have "copy_wrote n e k = Some k'" by (simp add: link_step_def)
  then show ?thesis
    by (cases rule: copy_wrote_cases) (intro bytes_same_held[OF assms(2)]; auto simp: held_def received_def)
next
  case (Data_arrives c)
  with assms show ?thesis
    by (auto simp: link_step_def data_arrives_def bytes_ok_def held_def split: if_splits)
next
  case (Error_arrives e)
  with assms show ?thesis
    by (auto simp: link_step_def error_arrives_def error_set_def set_read_error_def bytes_ok_def held_def
        split: if_splits)
next
  case (Error_set e)
  with assms(1) have "k' = error_set e k" by (simp add: link_step_def)
  then show ?thesis
    by (intro bytes_same_held[OF assms(2)]) (auto simp: held_def error_set_def set_read_error_def)
next
  case Discards
  with assms show ?thesis
    by (auto simp: link_step_def discards_def discard_read_chunks_def bytes_ok_def)
next
  case Append_sees_close
  with assms show ?thesis
    by (auto simp: link_step_def append_sees_close_def bytes_ok_def split: appending.splits if_splits)
next
  case Copy_returns
  then show ?thesis using assms(1)
    by (intro bytes_same_held[OF assms(2)])
      (auto simp: link_step_def copy_returns_def held_def received_def read_returns_def
        prepend_read_chunk_def split: reading.splits)
qed (use assms(1) in \<open>(intro bytes_same_held[OF assms(2)]; auto simp: link_step_def link_steps
    notify_readable_def notify_read_space_def held_def received_def
    split: appending.splits reading.splits if_splits)+\<close>)

lemma take_chunks_sizes:
  "take_chunks n cs = (d, later) \<Longrightarrow> \<forall>c \<in> set cs. length c \<le> b \<Longrightarrow> \<forall>c \<in> set later. length c \<le> b"
  by (induction n cs arbitrary: d later rule: take_chunks.induct)
    (auto split: if_splits prod.splits)

lemma queue_empty: "queue_ok k \<Longrightarrow> buffered (str k) = 0 \<Longrightarrow> chunks (str k) = []"
proof (cases "chunks (str k)")
  case (Cons c cs)
  assume "queue_ok k" "buffered (str k) = 0"
  with Cons have "int (length c) + int (length (concat cs)) = 0" "c \<noteq> []" by (auto simp: queue_ok_def)
  moreover have "0 < length c" using \<open>c \<noteq> []\<close> by simp
  ultimately show ?thesis by linarith
qed

lemma memory_step:
  assumes "link_step l ev k = Some k'" and "memory_ok l b k" and "queue_ok k"
    and "\<And>c. ev = Data_arrives c \<Longrightarrow> length c \<le> b"
  shows "memory_ok l b k'"
proof (cases ev)
  case (Read_locks now)
  with assms(1) have "read_locks now k = Some k'" by (simp add: link_step_def)
  then show ?thesis
  proof (cases rule: read_locks_cases)
    case (1 n d cs)
    with assms(2) take_chunks_sizes[OF 1(3), of b] show ?thesis
      by (auto simp: memory_ok_def read_returns_def)
  qed (use assms(2) in \<open>auto simp: memory_ok_def read_returns_def\<close>)
next
  case Append_locks
  with assms(1) have "append_locks l k = Some k'" by (simp add: link_step_def)
  then show ?thesis
  proof (cases rule: append_locks_cases)
    case (1 c b')
    have "buffered (str k) = 0 \<Longrightarrow> chunks (str k) = []" by (rule queue_empty[OF assms(3)])
    with 1 assms(2) show ?thesis by (auto simp: memory_ok_def can_queue_def)
  qed (use assms(2) in \<open>auto simp: memory_ok_def\<close>)
next
  case Copy_locks
  with assms(1) have "copy_locks k = Some k'" by (simp add: link_step_def)
  then show ?thesis using assms(2)
    by (cases rule: copy_locks_cases) (auto simp: memory_ok_def read_returns_def)
next
  case (Copy_wrote n e)
  with assms(1) have "copy_wrote n e k = Some k'" by (simp add: link_step_def)
  then show ?thesis using assms(2) by (cases rule: copy_wrote_cases) (auto simp: memory_ok_def)
next
  case Copy_returns
  then obtain c e where "reading k = Copy_puts_back c e" "k' = (read_returns [] (Some e) k)
      \<lparr>str := prepend_read_chunk c (str k), owed_readable := owed_readable k + (if c \<noteq> [] then 1 else 0)\<rparr>"
    using assms(1) by (auto simp: link_step_def copy_returns_def split: reading.splits)
  with assms(2) show ?thesis
    by (cases "c = []") (auto simp: memory_ok_def read_returns_def prepend_read_chunk_def)
next
  case Discards
  with assms(1,2) show ?thesis
    by (auto simp: link_step_def discards_def discard_read_chunks_def memory_ok_def)
next
  case (Data_arrives c)
  with assms(1,2,4) show ?thesis
    by (auto simp: link_step_def data_arrives_def memory_ok_def split: if_splits)
qed (use assms(1,2) in \<open>auto simp: link_step_def link_steps set_read_error_def notify_readable_def
      notify_read_space_def memory_ok_def split: appending.splits reading.splits if_splits\<close>)

text \<open>Steps that leave the queue, the error and the deadline alone.\<close>

lemma append_waits_iff:
  "fst (append_section l s c True) = Append_waits True \<longleftrightarrow>
     read_err s = None \<and>
     (0 < max_buffered l \<and> resume_threshold l < buffered s \<or> \<not> can_queue l s c)"
  by (simp add: append_section_def)

lemma append_waits_same:
  assumes "buffered s' = buffered s" and "read_err s' = read_err s"
  shows "fst (append_section l s' c True) = Append_waits True \<longleftrightarrow>
    fst (append_section l s c True) = Append_waits True"
  unfolding append_waits_iff can_queue_def assms ..

lemma wakes_okI:
  assumes "reader_selects k \<Longrightarrow> something_to_read k \<Longrightarrow> read_token (str k) \<or> 0 < owed_readable k"
    and "\<And>c b. appending k = Append_selects c b \<Longrightarrow> b \<and>
      (fst (append_section l (str k) c True) = Append_waits True \<or> space_token (str k) \<or>
       0 < owed_space k \<or> (\<exists>d. reading k = Copy_writes d))"
  shows "wakes_ok l k"
  using assms unfolding wakes_ok_def by (metis (full_types))

lemma wakes_okD:
  assumes "wakes_ok l k" and "appending k = Append_selects c b"
  shows "b \<and> (fst (append_section l (str k) c True) = Append_waits True \<or> space_token (str k) \<or>
    0 < owed_space k \<or> (\<exists>d. reading k = Copy_writes d))"
  using assms unfolding wakes_ok_def by (metis (full_types))

text \<open>A step that leaves the tunnel's goroutine, the queue and the error alone.\<close>

lemma wakes_keep:
  assumes "wakes_ok l k" and "appending k' = appending k" and "buffered (str k') = buffered (str k)"
    and "read_err (str k') = read_err (str k)"
    and "space_token (str k) \<or> 0 < owed_space k \<Longrightarrow> space_token (str k') \<or> 0 < owed_space k'"
    and "\<And>d. reading k = Copy_writes d \<Longrightarrow> reading k' = reading k \<or> 0 < owed_space k'"
    and "reader_selects k' \<Longrightarrow> something_to_read k' \<Longrightarrow> read_token (str k') \<or> 0 < owed_readable k'"
  shows "wakes_ok l k'"
proof (rule wakes_okI[OF assms(7)])
  fix c b
  assume "appending k' = Append_selects c b"
  with assms(2) have "appending k = Append_selects c b" by simp
  from wakes_okD[OF assms(1) this] assms(5,6) append_waits_same[OF assms(3,4)]
  show "b \<and> (fst (append_section l (str k') c True) = Append_waits True \<or> space_token (str k') \<or>
      0 < owed_space k' \<or> (\<exists>d. reading k' = Copy_writes d))"
    by metis
qed

lemma wakes_step:
  assumes "link_step l ev k = Some k'" and "wakes_ok l k" and "queue_ok k"
  shows "wakes_ok l k'"
proof (cases ev)
  case (Read_locks now)
  with assms(1) have "read_locks now k = Some k'" by (simp add: link_step_def)
  then show ?thesis
  proof (cases rule: read_locks_cases)
    case (1 n d cs)
    have same: "fst (append_section l (str k') c True) = fst (append_section l (str k) c True)"
      if "d = []" for c using 1 that by (simp add: append_section_def can_queue_def read_returns_def)
    with 1 assms(2) show ?thesis
      by (auto simp: wakes_ok_def reader_selects_def read_returns_def)
  next
    case (4 n)
    with assms(2) show ?thesis
      by (auto simp: wakes_ok_def reader_selects_def something_to_read_def)
  qed (use assms(2) in \<open>auto simp: wakes_ok_def reader_selects_def read_returns_def\<close>)
next
  case Append_locks
  with assms(1) have "append_locks l k = Some k'" by (simp add: link_step_def)
  then show ?thesis
  proof (cases rule: append_locks_cases)
    case (3 c b)
    with assms(2) show ?thesis
      by (auto simp: wakes_ok_def reader_selects_def something_to_read_def)
  qed (use assms(2) in \<open>auto simp: wakes_ok_def reader_selects_def something_to_read_def\<close>)
next
  case Copy_locks
  with assms(1) have "copy_locks k = Some k'" by (simp add: link_step_def)
  then show ?thesis using assms(2)
    by (cases rule: copy_locks_cases)
      (auto simp: wakes_ok_def reader_selects_def something_to_read_def read_returns_def)
next
  case (Copy_wrote n e)
  with assms(1) have "copy_wrote n e k = Some k'" by (simp add: link_step_def)
  then show ?thesis using assms(2,3)
    by (cases rule: copy_wrote_cases) (auto simp: wakes_ok_def reader_selects_def queue_ok_def)
next
  case Copy_returns
  then obtain c e where c: "reading k = Copy_puts_back c e" using assms(1)
    by (auto simp: link_step_def copy_returns_def split: reading.splits)
  with Copy_returns assms(1) have k': "k' = (read_returns [] (Some e) k)
      \<lparr>str := prepend_read_chunk c (str k), owed_readable := owed_readable k + (if c \<noteq> [] then 1 else 0)\<rparr>"
    by (simp add: link_step_def copy_returns_def)
  have "0 \<le> buffered (str k)" using assms(3) by (simp add: queue_ok_def)
  then have "fst (append_section l (prepend_read_chunk c (str k)) x True) = Append_waits True"
    if "fst (append_section l (str k) x True) = Append_waits True" for x
    using that by (auto simp: append_waits_iff can_queue_def prepend_read_chunk_def)
  moreover have "space_token (prepend_read_chunk c (str k)) = space_token (str k)"
    by (simp add: prepend_read_chunk_def)
  moreover have same: "str k' = prepend_read_chunk c (str k)" "appending k' = appending k"
    "owed_space k' = owed_space k" "reading k' = Not_reading"
    by (simp_all add: k' read_returns_def)
  moreover have "b \<and> (fst (append_section l (str k) x True) = Append_waits True \<or> space_token (str k) \<or>
      0 < owed_space k)" if "appending k' = Append_selects x b" for x b
    using wakes_okD[OF assms(2), of x b] that same(2) c by simp
  ultimately have "b \<and> (fst (append_section l (str k') x True) = Append_waits True \<or>
      space_token (str k') \<or> 0 < owed_space k')" if "appending k' = Append_selects x b" for x b
    using that by metis
  moreover have "\<not> reader_selects k'" using same(4) by (simp add: reader_selects_def)
  ultimately show ?thesis by (intro wakes_okI) blast+
next
  case Discards
  with assms(1) have k': "k' = discards k" by (simp add: link_step_def)
  show ?thesis
  proof (rule wakes_okI)
    show "b \<and> (fst (append_section l (str k') c True) = Append_waits True \<or> space_token (str k') \<or>
        0 < owed_space k' \<or> (\<exists>d. reading k' = Copy_writes d))" if "appending k' = Append_selects c b" for c b
      using that wakes_okD[OF assms(2), of c b] by (simp add: k' discards_def)
  qed (use assms(2) in \<open>auto simp: k' discards_def discard_read_chunks_def wakes_ok_def
      reader_selects_def something_to_read_def\<close>)
next
  case (Error_set e)
  with assms(1) have k': "k' = error_set e k" by (simp add: link_step_def)
  show ?thesis
  proof (rule wakes_okI)
    show "b \<and> (fst (append_section l (str k') c True) = Append_waits True \<or> space_token (str k') \<or>
        0 < owed_space k' \<or> (\<exists>d. reading k' = Copy_writes d))" if "appending k' = Append_selects c b" for c b
      using that wakes_okD[OF assms(2), of c b] by (simp add: k' error_set_def)
  qed (simp add: k' error_set_def)
next
  case (Error_arrives e)
  with assms(1) have "appending k' = Not_appending" "0 < owed_readable k'"
    by (auto simp: link_step_def error_arrives_def error_set_def split: if_splits)
  then show ?thesis by (intro wakes_okI) simp_all
next
  case (Data_arrives c)
  with assms(1,2) show ?thesis
    by (auto simp: link_step_def data_arrives_def wakes_ok_def reader_selects_def something_to_read_def
        split: if_splits)
next
  case Append_wakes
  with assms(1,2) show ?thesis
    by (auto simp: link_step_def append_wakes_def wakes_ok_def reader_selects_def something_to_read_def
        split: appending.splits if_splits)
next
  case Append_sees_close
  with assms(1,2) show ?thesis
    by (auto simp: link_step_def append_sees_close_def wakes_ok_def reader_selects_def
        something_to_read_def split: appending.splits if_splits)
next
  case (Deadline_set t)
  with assms(1) have "k' = set_read_deadline t k" by (simp add: link_step_def)
  then show ?thesis by (intro wakes_keep[OF assms(2)]) (auto simp: set_read_deadline_def)
next
  case (Read_called n)
  with assms(1) show ?thesis
    by (intro wakes_keep[OF assms(2)])
      (auto simp: link_step_def read_called_def reader_selects_def split: if_splits)
next
  case Copy_called
  with assms(1) show ?thesis
    by (intro wakes_keep[OF assms(2)])
      (auto simp: link_step_def copy_called_def reader_selects_def split: if_splits)
next
  case Read_wakes
  with assms(1) show ?thesis
    by (intro wakes_keep[OF assms(2)])
      (auto simp: link_step_def read_wakes_def reader_selects_def split: reading.splits if_splits)
next
  case Read_sees_close
  with assms(1) show ?thesis
    by (intro wakes_keep[OF assms(2)])
      (auto simp: link_step_def read_sees_close_def read_returns_def reader_selects_def
        split: reading.splits if_splits)
next
  case (Read_times_out now)
  with assms(1) show ?thesis
    by (intro wakes_keep[OF assms(2)])
      (auto simp: link_step_def read_times_out_def read_returns_def reader_selects_def
        split: reading.splits if_splits)
next
  case Readable_notified
  with assms(1,2) show ?thesis
    by (intro wakes_keep[OF assms(2)])
      (auto simp: link_step_def readable_notified_def notify_readable_def split: if_splits)
next
  case Space_notified
  with assms(1,2) show ?thesis
    by (intro wakes_keep[OF assms(2)])
      (auto simp: link_step_def space_notified_def notify_read_space_def wakes_ok_def
        reader_selects_def something_to_read_def split: if_splits)
next
  case Tunnel_closes
  with assms(1,2) show ?thesis
    by (intro wakes_keep[OF assms(2)])
      (auto simp: link_step_def wakes_ok_def reader_selects_def something_to_read_def)
qed

subsection \<open>Schedules of a stream\<close>

definition link_ok :: "limits \<Rightarrow> link \<Rightarrow> bool" where
  "link_ok l k \<longleftrightarrow> queue_ok k \<and> bytes_ok k \<and> wakes_ok l k"

lemma link_ok_new: "link_ok l (new_link i)"
  by (simp add: link_ok_def new_link_ok)

lemma link_ok_step: "link_step l ev k = Some k' \<Longrightarrow> link_ok l k \<Longrightarrow> link_ok l k'"
  by (auto simp: link_ok_def intro: queue_step bytes_step wakes_step)

lemma link_ok_run: "link_run l evs k = Some k' \<Longrightarrow> link_ok l k \<Longrightarrow> link_ok l k'"
  by (induction evs arbitrary: k) (auto split: option.splits intro: link_ok_step)

lemma memory_run:
  "link_run l evs k = Some k' \<Longrightarrow> link_ok l k \<Longrightarrow> memory_ok l b k \<Longrightarrow>
   (\<And>c. Data_arrives c \<in> set evs \<Longrightarrow> length c \<le> b) \<Longrightarrow> memory_ok l b k'"
proof (induction evs arbitrary: k)
  case (Cons ev evs)
  from Cons.prems(1) obtain k1 where k1: "link_step l ev k = Some k1" "link_run l evs k1 = Some k'"
    by (auto split: option.splits)
  have "memory_ok l b k1"
    using memory_step[OF k1(1) Cons.prems(3)] Cons.prems(2,4) by (auto simp: link_ok_def)
  with Cons k1 link_ok_step[OF k1(1)] show ?case by auto
qed simp

text \<open>
  The steps the two goroutines take by themselves: nobody calls, no data arrives, nothing times
  out or closes.
\<close>

definition own_step :: "link_event \<Rightarrow> bool" where
  "own_step ev \<longleftrightarrow>
     (case ev of
        Append_locks \<Rightarrow> True | Append_wakes \<Rightarrow> True | Read_locks now \<Rightarrow> True | Read_wakes \<Rightarrow> True
      | Copy_locks \<Rightarrow> True | Copy_returns \<Rightarrow> True | Readable_notified \<Rightarrow> True
      | Space_notified \<Rightarrow> True | _ \<Rightarrow> False)"

definition quiescent :: "limits \<Rightarrow> link \<Rightarrow> bool" where
  "quiescent l k \<longleftrightarrow>
     list_all (\<lambda>ev. link_step l ev k = None)
       [Append_locks, Append_wakes, Read_locks 0, Read_wakes, Copy_locks, Copy_returns,
        Readable_notified, Space_notified]"

definition work_left :: "link \<Rightarrow> nat" where
  "work_left k =
     3 * (owed_readable k + owed_space k) + (if read_token (str k) then 2 else 0) +
     (if space_token (str k) then 2 else 0) +
     (case appending k of Not_appending \<Rightarrow> 0 | Append_at_lock c b \<Rightarrow> 4 | Append_selects c b \<Rightarrow> 3) +
     (case reading k of Read_at_lock n \<Rightarrow> 4 | Copy_at_lock \<Rightarrow> 4 | Copy_puts_back c e \<Rightarrow> 4
      | Read_selects n d \<Rightarrow> 3 | Copy_selects \<Rightarrow> 3 | _ \<Rightarrow> 0)"

lemma own_step_works:
  assumes "link_step l ev k = Some k'" and "own_step ev"
  shows "work_left k' < work_left k"
proof (cases ev)
  case (Read_locks now)
  with assms(1) have "read_locks now k = Some k'" by (simp add: link_step_def)
  then show ?thesis
    by (cases rule: read_locks_cases) (auto simp: work_left_def read_returns_def)
next
  case Append_locks
  with assms(1) have "append_locks l k = Some k'" by (simp add: link_step_def)
  then show ?thesis by (cases rule: append_locks_cases) (auto simp: work_left_def)
next
  case Copy_locks
  with assms(1) have "copy_locks k = Some k'" by (simp add: link_step_def)
  then show ?thesis
    by (cases rule: copy_locks_cases) (auto simp: work_left_def read_returns_def)
next
  case Copy_returns
  then obtain c e where "reading k = Copy_puts_back c e" "k' = (read_returns [] (Some e) k)
      \<lparr>str := prepend_read_chunk c (str k), owed_readable := owed_readable k + (if c \<noteq> [] then 1 else 0)\<rparr>"
    using assms(1) by (auto simp: link_step_def copy_returns_def split: reading.splits)
  then show ?thesis by (simp add: work_left_def read_returns_def prepend_read_chunk_def)
next
  case Append_wakes
  then obtain c b where "appending k = Append_selects c b" "space_token (str k)"
      "k' = k\<lparr>str := (str k)\<lparr>space_token := False\<rparr>, appending := Append_at_lock c b\<rparr>"
    using assms(1) by (auto simp: link_step_def append_wakes_def split: appending.splits if_splits)
  then show ?thesis by (simp add: work_left_def)
next
  case Read_wakes
  then have "read_token (str k)" "reader_selects k"
      "\<exists>r. k' = k\<lparr>str := (str k)\<lparr>read_token := False\<rparr>, reading := r\<rparr> \<and> (r = Copy_at_lock \<or> (\<exists>n. r = Read_at_lock n))"
    using assms(1)
    by (auto simp: link_step_def read_wakes_def reader_selects_def split: reading.splits if_splits)
  then show ?thesis by (auto simp: work_left_def reader_selects_def)
qed (use assms in \<open>auto simp: own_step_def link_step_def readable_notified_def space_notified_def
      notify_readable_def notify_read_space_def work_left_def split: if_splits\<close>)

lemma own_run_short:
  "link_run l evs k = Some k' \<Longrightarrow> list_all own_step evs \<Longrightarrow> length evs + work_left k' \<le> work_left k"
proof (induction evs arbitrary: k)
  case (Cons ev evs)
  then obtain k1 where k1: "link_step l ev k = Some k1" "link_run l evs k1 = Some k'" "own_step ev"
    by (auto split: option.splits)
  have "length evs + work_left k' \<le> work_left k1" using Cons.IH[OF k1(2)] Cons.prems(2) by simp
  with own_step_works[OF k1(1,3)] show ?case by simp
qed simp

text \<open>When nothing moves any more, a reader that waits has nothing to read.\<close>

lemma resume_threshold_nonneg: "0 < max_buffered l \<Longrightarrow> 0 \<le> resume_threshold l"
  by (simp add: resume_threshold_def)

lemma quiescent_parts:
  assumes "quiescent l k"
  shows "owed_readable k = 0" "owed_space k = 0"
    "reader_selects k \<Longrightarrow> \<not> read_token (str k)"
    "appending k = Append_selects c b \<Longrightarrow> \<not> space_token (str k)"
    "appending k \<noteq> Append_at_lock c b" "reading k \<noteq> Read_at_lock n"
    "reading k \<noteq> Copy_at_lock" "reading k \<noteq> Copy_puts_back d e"
proof -
  show "owed_readable k = 0" "owed_space k = 0"
    "reader_selects k \<Longrightarrow> \<not> read_token (str k)"
    "appending k = Append_selects c b \<Longrightarrow> \<not> space_token (str k)"
    "reading k \<noteq> Copy_puts_back d e"
    using assms
    by (auto simp: quiescent_def link_step_def readable_notified_def space_notified_def read_wakes_def
        append_wakes_def copy_returns_def reader_selects_def split: if_splits)
  show "appending k \<noteq> Append_at_lock c b"
    using assms by (cases "append_section l (str k) c b"; cases "fst (append_section l (str k) c b)")
      (auto simp: quiescent_def link_step_def append_locks_def)
  show "reading k \<noteq> Read_at_lock n"
    using assms by (cases "read_section (str k) n"; cases "fst (read_section (str k) n)")
      (auto simp: quiescent_def link_step_def read_locks_def split: if_splits)
  show "reading k \<noteq> Copy_at_lock"
    using assms by (cases "write_to_section (str k)"; cases "fst (write_to_section (str k))")
      (auto simp: quiescent_def link_step_def copy_locks_def)
qed

lemma quiescent_reader_starved:
  assumes "quiescent l k" and "link_ok l k" and "reader_selects k"
  shows "chunks (str k) = [] \<and> read_err (str k) = None \<and> appending k = Not_appending"
proof -
  note q = quiescent_parts[OF assms(1)]
  from assms(2,3) q(1,3) have none: "chunks (str k) = []" "read_err (str k) = None"
    by (auto simp: link_ok_def wakes_ok_def something_to_read_def)
  have "appending k = Not_appending"
  proof (cases "appending k")
    case (Append_selects c b)
    from assms(3) have "\<not> (\<exists>d. reading k = Copy_writes d)" by (auto simp: reader_selects_def)
    with wakes_okD[OF _ Append_selects, of l] assms(2) q(2,4) Append_selects
    have "fst (append_section l (str k) c True) = Append_waits True" by (auto simp: link_ok_def)
    moreover have "buffered (str k) = 0" using assms(2) none by (simp add: link_ok_def queue_ok_def)
    ultimately show ?thesis
      using resume_threshold_nonneg[of l] by (auto simp: append_waits_iff can_queue_def)
  qed (use q(5) in auto)
  with none show ?thesis by simp
qed

definition in_read :: "link \<Rightarrow> bool" where
  "in_read k \<longleftrightarrow> (\<exists>n. reading k = Read_at_lock n) \<or> (\<exists>n d. reading k = Read_selects n d)"

definition data_coming :: "link \<Rightarrow> bool" where
  "data_coming k \<longleftrightarrow> chunks (str k) \<noteq> [] \<or> read_err (str k) \<noteq> None \<or> appending k \<noteq> Not_appending"

lemma own_step_progress:
  assumes "link_step l ev k = Some k'" and "own_step ev" and "in_read k" and "data_coming k"
  shows "length (results k) < length (results k') \<or>
    results k' = results k \<and> in_read k' \<and> data_coming k'"
proof (cases ev)
  case (Read_locks now)
  with assms(1) have "read_locks now k = Some k'" by (simp add: link_step_def)
  then show ?thesis using assms(3,4)
    by (cases rule: read_locks_cases) (auto simp: in_read_def data_coming_def read_returns_def)
next
  case Append_locks
  with assms(1) have "append_locks l k = Some k'" by (simp add: link_step_def)
  then show ?thesis using assms(3,4)
    by (cases rule: append_locks_cases) (auto simp: in_read_def data_coming_def)
qed (use assms in \<open>auto simp: own_step_def in_read_def data_coming_def link_step_def append_wakes_def
      read_wakes_def copy_locks_def copy_returns_def readable_notified_def space_notified_def
      notify_readable_def notify_read_space_def
      split: appending.splits reading.splits if_splits\<close>)

lemma results_grow_step: "link_step l ev k = Some k' \<Longrightarrow> length (results k) \<le> length (results k')"
proof (cases ev)
  case (Read_locks now)
  assume "link_step l ev k = Some k'"
  with Read_locks have "read_locks now k = Some k'" by (simp add: link_step_def)
  then show ?thesis by (cases rule: read_locks_cases) (auto simp: read_returns_def)
next
  case Append_locks
  assume "link_step l ev k = Some k'"
  with Append_locks have "append_locks l k = Some k'" by (simp add: link_step_def)
  then show ?thesis by (cases rule: append_locks_cases) auto
next
  case Copy_locks
  assume "link_step l ev k = Some k'"
  with Copy_locks have "copy_locks k = Some k'" by (simp add: link_step_def)
  then show ?thesis by (cases rule: copy_locks_cases) (auto simp: read_returns_def)
qed (auto simp: link_step_def link_steps split: appending.splits reading.splits if_splits)

lemma results_grow: "link_run l evs k = Some k' \<Longrightarrow> length (results k) \<le> length (results k')"
  by (induction evs arbitrary: k)
    (auto split: option.splits dest!: results_grow_step intro: le_trans)

lemma own_run_progress:
  "link_run l evs k = Some k' \<Longrightarrow> list_all own_step evs \<Longrightarrow> in_read k \<Longrightarrow> data_coming k \<Longrightarrow>
   length (results k) < length (results k') \<or> in_read k' \<and> data_coming k'"
proof (induction evs arbitrary: k)
  case (Cons ev evs)
  then obtain k1 where k1: "link_step l ev k = Some k1" "link_run l evs k1 = Some k'" "own_step ev"
    by (auto split: option.splits)
  from own_step_progress[OF k1(1,3) Cons.prems(3,4)] show ?case
  proof
    assume "length (results k) < length (results k1)"
    with results_grow[OF k1(2)] show ?thesis by simp
  next
    assume "results k1 = results k \<and> in_read k1 \<and> data_coming k1"
    with Cons.IH[OF k1(2)] Cons.prems(2) show ?thesis by simp
  qed
qed simp

lemma read_returns_eventually:
  assumes "link_ok l k" and "in_read k" and "data_coming k"
    and "link_run l evs k = Some k'" and "list_all own_step evs"
  shows "length evs \<le> work_left k \<and> (quiescent l k' \<longrightarrow> length (results k) < length (results k'))"
proof (intro conjI impI)
  show "length evs \<le> work_left k" using own_run_short[OF assms(4,5)] by simp
  assume q: "quiescent l k'"
  show "length (results k) < length (results k')"
  proof (rule ccontr)
    assume "\<not> ?thesis"
    with own_run_progress[OF assms(4,5,2,3)] have k': "in_read k'" "data_coming k'" by auto
    with quiescent_parts(6)[OF q] have "reader_selects k'" by (auto simp: in_read_def reader_selects_def)
    with quiescent_reader_starved[OF q link_ok_run[OF assms(4,1)]] k'(2) show False
      by (simp add: data_coming_def)
  qed
qed

text \<open>The error a \<open>Read\<close> returns comes after all the data that came before it.\<close>

lemma read_error_after_data:
  assumes "link_ok l k" and "link_step l (Read_locks now) k = Some k'"
    and "results k' = results k @ [([], Some e)]" and "e \<noteq> Deadline_Exceeded"
    and "ended_with k = Some a" and "\<not> lossy k"
  shows "received k' = a"
proof -
  from assms(2) have "read_locks now k = Some k'" by (simp add: link_step_def)
  then show ?thesis
  proof (cases rule: read_locks_cases)
    case (2 n e')
    with assms(1,5,6) have "held k = a" by (simp add: link_ok_def bytes_ok_def)
    with 2 show ?thesis by (simp add: held_def read_returns_def received_def)
  qed (use assms in \<open>auto simp: read_returns_def\<close>)
qed

subsection \<open>Two races when the tunnel is closed\<close>

text \<open>
  A \<open>Read\<close> that waits while data arrives and the tunnel is closed can report the end of the
  stream instead of the data.
\<close>

lemma read_close_race:
  "\<exists>k. link_run l [Read_called 4, Read_locks 0, Data_arrives [7], Append_locks, Tunnel_closes,
      Read_sees_close] (new_link 1) = Some k \<and>
    results k = [([], Some End_Of_File)] \<and> chunks (str k) = [[7]] \<and> read_err (str k) = None"
  by (simp add: link_step_def link_steps read_section_def append_section_def can_queue_def
      new_link_def new_stream_def)

text \<open>
  A chunk that waits for room is thrown away when the tunnel is closed, and the frames after it
  are still queued: the reader gets bytes with a gap.
\<close>

lemma append_close_gap:
  assumes "max_buffered l = 1"
  shows "\<exists>k. link_run l [Data_arrives [1], Append_locks, Data_arrives [2], Append_locks, Tunnel_closes,
      Append_sees_close, Read_called 1, Read_locks 0, Data_arrives [3], Append_locks, Read_called 1,
      Read_locks 0] (new_link 1) = Some k \<and>
    arrived k = [1, 2, 3] \<and> received k = [1, 3] \<and> map snd (results k) = [None, None]"
  using assms
  by (simp add: link_step_def link_steps read_section_def append_section_def can_queue_def
      new_link_def new_stream_def received_def numeral_eq_Suc)

end
