(* ===== verification/RelayTunnel.thy ===== *)
theory RelayTunnel
  imports RelayStream
begin

text \<open>
  A relay tunnel with its streams (\<open>tlsTCPTunnel\<close> in \<open>tls_tcp_session_pool.go\<close> and
  \<open>serverTLSTCPSession\<close> in \<open>tls_tcp_server_session.go\<close>): opening and forgetting streams, the loop
  that hands the frames of the connection to them, and the writing side. A stream is known by
  the order in which it was made, since its number can be used again.
\<close>

datatype role = Client | Server

record mux_tunnel =
  role :: role
  links :: "link list"
  registered :: "32 word \<Rightarrow> nat option"
  next_stream_id :: "32 word"
  offers :: "nat \<Rightarrow> byte list option"
  shut :: bool
  handled :: "mux_frame list"
  opened_at :: "nat list"

definition new_tunnel :: "role \<Rightarrow> mux_tunnel" where
  "new_tunnel r =
     \<lparr>role = r, links = [], registered = (\<lambda>_. None), next_stream_id = 0, offers = (\<lambda>_. None),
      shut = False, handled = [], opened_at = []\<rparr>"

text \<open>\<open>registerStream\<close> of a new stream.\<close>

definition register_stream :: "32 word \<Rightarrow> mux_tunnel \<Rightarrow> mux_tunnel" where
  "register_stream i t =
     t\<lparr>links := links t @ [(new_link i)\<lparr>tunnel_closed := shut t\<rparr>],
       registered := (registered t)(i \<mapsto> length (links t)),
       opened_at := opened_at t @ [length (handled t)]\<rparr>"

text \<open>The start of \<open>openStream\<close>: \<open>nextStreamID.Add(1)\<close> and \<open>registerStream\<close>.\<close>

definition open_stream :: "mux_tunnel \<Rightarrow> mux_tunnel" where
  "open_stream t = register_stream (next_stream_id t + 1) (t\<lparr>next_stream_id := next_stream_id t + 1\<rparr>)"

definition remove_stream :: "32 word \<Rightarrow> mux_tunnel \<Rightarrow> mux_tunnel" where
  "remove_stream i t = t\<lparr>registered := (registered t)(i := None)\<rparr>"

definition at_link :: "nat \<Rightarrow> link_event \<Rightarrow> limits \<Rightarrow> mux_tunnel \<Rightarrow> mux_tunnel option" where
  "at_link a ev l t =
     (if a < length (links t)
      then case link_step l ev (links t ! a) of
             None \<Rightarrow> None
           | Some k \<Rightarrow> Some (t\<lparr>links := (links t)[a := k]\<rparr>)
      else None)"

definition deliver_open_result :: "nat \<Rightarrow> byte list \<Rightarrow> mux_tunnel \<Rightarrow> mux_tunnel" where
  "deliver_open_result a payload t =
     (if offers t a = None then t\<lparr>offers := (offers t)(a \<mapsto> payload)\<rparr> else t)"

text \<open>
  One round of \<open>readLoop\<close> (client) or \<open>run\<close> (server) with a frame that has been read. \<open>admit\<close> stands
  for the checks of an open request: its payload, its kind, the traffic block and the admission to
  the generation's sessions.
\<close>

definition dispatch :: "limits \<Rightarrow> (byte list \<Rightarrow> bool) \<Rightarrow> mux_frame \<Rightarrow> mux_tunnel \<Rightarrow> mux_tunnel option" where
  "dispatch l admit f t =
     (if fr_type f = mux_open \<and> role t = Server
      then Some (if admit (fr_payload f) then register_stream (fr_stream f) t else t)
      else case registered t (fr_stream f) of
             None \<Rightarrow> Some t
           | Some a \<Rightarrow>
               if fr_type f = mux_open_result \<and> role t = Client
               then Some (deliver_open_result a (fr_payload f) t)
               else if fr_type f = mux_data then at_link a (Data_arrives (fr_payload f)) l t
               else if fr_type f = mux_fin
               then map_option (remove_stream (fr_stream f)) (at_link a (Error_arrives End_Of_File) l t)
               else if fr_type f = mux_rst
               then map_option (remove_stream (fr_stream f)) (at_link a (Error_arrives Closed_Pipe) l t)
               else Some t)"

definition loop_idle :: "mux_tunnel \<Rightarrow> bool" where
  "loop_idle t \<longleftrightarrow> list_all (\<lambda>k. appending k = Not_appending) (links t)"

definition close_tunnel :: "mux_tunnel \<Rightarrow> mux_tunnel" where
  "close_tunnel t = t\<lparr>shut := True, links := map (\<lambda>k. k\<lparr>tunnel_closed := True\<rparr>) (links t)\<rparr>"

text \<open>
  \<open>failAllStreams\<close>: every registered stream gets the error, in the order in which a map is
  walked, which does not matter here.
\<close>

definition is_registered :: "mux_tunnel \<Rightarrow> nat \<Rightarrow> bool" where
  "is_registered t a \<longleftrightarrow> registered t (stream_id (str (links t ! a))) = Some a"

definition fail_link :: "io_error \<Rightarrow> link \<Rightarrow> link" where
  "fail_link e k = (case error_arrives e k of Some k' \<Rightarrow> k' | None \<Rightarrow> k)"

definition fail_all_streams :: "io_error \<Rightarrow> byte list \<Rightarrow> mux_tunnel \<Rightarrow> mux_tunnel" where
  "fail_all_streams e payload t =
     t\<lparr>links := map (\<lambda>a. if is_registered t a then fail_link e (links t ! a) else links t ! a)
                 [0..<length (links t)],
       offers := (\<lambda>a. if a < length (links t) \<and> is_registered t a \<and> offers t a = None
                      then Some payload else offers t a),
       registered := (\<lambda>_. None)\<rparr>"

text \<open>The loop ends when the connection fails: only the client tells its streams.\<close>

definition loop_ends :: "io_error \<Rightarrow> byte list \<Rightarrow> mux_tunnel \<Rightarrow> mux_tunnel" where
  "loop_ends e payload t =
     close_tunnel (case role t of Client \<Rightarrow> fail_all_streams e payload t | Server \<Rightarrow> t)"

datatype tunnel_event =
    Frame mux_frame
  | Loop_ends io_error "byte list"
  | Opens
  | Forgets nat
  | Closes
  | At nat link_event

text \<open>The events of a stream that come from the tunnel's loop reach it through \<open>dispatch\<close> only.\<close>

definition from_loop :: "link_event \<Rightarrow> bool" where
  "from_loop ev \<longleftrightarrow>
     (case ev of Data_arrives c \<Rightarrow> True | Error_arrives e \<Rightarrow> True | Tunnel_closes \<Rightarrow> True | _ \<Rightarrow> False)"

definition tunnel_step :: "limits \<Rightarrow> (byte list \<Rightarrow> bool) \<Rightarrow> tunnel_event \<Rightarrow> mux_tunnel \<Rightarrow> mux_tunnel option" where
  "tunnel_step l admit ev t =
     (case ev of
        Frame f \<Rightarrow>
          if loop_idle t
          then map_option (\<lambda>t'. t'\<lparr>handled := handled t @ [f]\<rparr>) (dispatch l admit f t)
          else None
      | Loop_ends e payload \<Rightarrow> if loop_idle t then Some (loop_ends e payload t) else None
      | Opens \<Rightarrow> if role t = Client then Some (open_stream t) else None
      | Forgets a \<Rightarrow>
          if a < length (links t) then Some (remove_stream (stream_id (str (links t ! a))) t) else None
      | Closes \<Rightarrow> Some (close_tunnel t)
      | At a lev \<Rightarrow> if from_loop lev then None else at_link a lev l t)"

fun tunnel_run ::
  "limits \<Rightarrow> (byte list \<Rightarrow> bool) \<Rightarrow> tunnel_event list \<Rightarrow> mux_tunnel \<Rightarrow> mux_tunnel option" where
  "tunnel_run l admit [] t = Some t"
| "tunnel_run l admit (ev # evs) t =
     (case tunnel_step l admit ev t of None \<Rightarrow> None | Some t' \<Rightarrow> tunnel_run l admit evs t')"

subsection \<open>The writing side\<close>

text \<open>
  \<open>writeFrame\<close> holds \<open>writeMu\<close>, so frames do not mix. \<open>gate\<close> is the answer of
  \<open>refreshWriteDeadlineLocked\<close>.
\<close>

definition write_mux_frame_locked :: "'w writer \<Rightarrow> 'w \<Rightarrow> mux_frame \<Rightarrow> io_error option \<times> 'w" where
  "write_mux_frame_locked wr w f =
     (if length (fr_payload f) \<le> tls_tcp_bulk_frame_size
      then write_mux_frame_buffered wr w f (mux_frame_header_size + tls_tcp_bulk_frame_size)
      else write_mux_frame wr w f)"

definition tunnel_write_frame ::
  "'w writer \<Rightarrow> io_error option \<Rightarrow> 'w \<Rightarrow> mux_frame \<Rightarrow> io_error option \<times> 'w" where
  "tunnel_write_frame wr gate w f =
     (case gate of Some e \<Rightarrow> (Some e, w) | None \<Rightarrow> write_mux_frame_locked wr w f)"

definition stream_frame :: "byte \<Rightarrow> 32 word \<Rightarrow> byte list \<Rightarrow> mux_frame" where
  "stream_frame ty i p =
     \<lparr>fr_version = 0, fr_type = ty, fr_flags = 0, fr_stream = i, fr_payload = p\<rparr>"

definition stream_write ::
  "'w writer \<Rightarrow> io_error option \<Rightarrow> stream \<Rightarrow> 'w \<Rightarrow> byte list \<Rightarrow> int \<times> io_error option \<times> 'w" where
  "stream_write wr gate s w p =
     (if write_closed s then (0, Some Closed_Pipe, w)
      else case tunnel_write_frame wr gate w (stream_frame mux_data (stream_id s) p) of
             (Some e, w') \<Rightarrow> (0, Some e, w')
           | (None, w') \<Rightarrow> (int (length p), None, w'))"

definition stream_close_write ::
  "'w writer \<Rightarrow> io_error option \<Rightarrow> stream \<Rightarrow> 'w \<Rightarrow> io_error option \<times> stream \<times> 'w" where
  "stream_close_write wr gate s w =
     (if write_closed s then (None, s, w)
      else case tunnel_write_frame wr gate w (stream_frame mux_fin (stream_id s) []) of
             (e, w') \<Rightarrow> (e, s\<lparr>write_closed := True\<rparr>, w'))"

lemma write_mux_frame_locked_eq: "write_mux_frame_locked wr w f = write_mux_frame wr w f"
  by (simp add: write_mux_frame_locked_def write_mux_frame_buffered_eq)

subsection \<open>What belongs to a stream\<close>

definition data_of :: "32 word \<Rightarrow> mux_frame list \<Rightarrow> byte list" where
  "data_of i fs = concat (map fr_payload (filter (\<lambda>f. fr_stream f = i \<and> fr_type f = mux_data) fs))"

lemma data_of_append [simp]: "data_of i (fs @ gs) = data_of i fs @ data_of i gs"
  by (simp add: data_of_def)

lemma data_of_Nil [simp]: "data_of i [] = []"
  by (simp add: data_of_def)

lemma data_of_single: "data_of i [f] = (if fr_stream f = i \<and> fr_type f = mux_data then fr_payload f else [])"
  by (simp add: data_of_def)

lemma data_of_with_version: "data_of i (map with_version fs) = data_of i fs"
  by (induction fs) (auto simp: data_of_def)

subsection \<open>The invariant of a tunnel\<close>

text \<open>
  Every stream has been handed the data frames of its number, from the frame before which it was
  opened to the last one, or to the one after which it was forgotten.
\<close>

definition segment :: "nat \<Rightarrow> nat \<Rightarrow> 'a list \<Rightarrow> 'a list" where
  "segment m n xs = drop m (take n xs)"

definition routed :: "nat \<Rightarrow> nat \<Rightarrow> mux_frame list \<Rightarrow> link \<Rightarrow> bool" where
  "routed m n fs k \<longleftrightarrow>
     m \<le> n \<and> n \<le> length fs \<and> arrived k = data_of (stream_id (str k)) (segment m n fs)"

definition slot_ok :: "limits \<Rightarrow> mux_tunnel \<Rightarrow> nat \<Rightarrow> bool" where
  "slot_ok l t a \<longleftrightarrow>
     link_ok l (links t ! a) \<and>
     (\<exists>n. routed (opened_at t ! a) n (handled t) (links t ! a) \<and>
       (is_registered t a \<longrightarrow> n = length (handled t))) \<and>
     (ended_with (links t ! a) = None \<or> ended_with (links t ! a) = Some (arrived (links t ! a))) \<and>
     (is_registered t a \<longrightarrow> ended_with (links t ! a) = None)"

definition names_ok :: "mux_tunnel \<Rightarrow> bool" where
  "names_ok t \<longleftrightarrow>
     length (opened_at t) = length (links t) \<and>
     (\<forall>i a. registered t i = Some a \<longrightarrow> a < length (links t) \<and> stream_id (str (links t ! a)) = i)"

definition tunnel_ok :: "limits \<Rightarrow> mux_tunnel \<Rightarrow> bool" where
  "tunnel_ok l t \<longleftrightarrow> names_ok t \<and> (\<forall>a < length (links t). slot_ok l t a)"

lemma new_tunnel_ok: "tunnel_ok l (new_tunnel r)"
  by (simp add: tunnel_ok_def names_ok_def new_tunnel_def)

lemma routed_more: "routed m n fs k \<Longrightarrow> routed m n (fs @ gs) k"
  by (auto simp: routed_def segment_def)

lemma routed_next:
  assumes "routed m (length fs) fs k" and "stream_id (str k') = stream_id (str k)"
    and "arrived k' = arrived k @ data_of (stream_id (str k)) [f]"
  shows "routed m (length (fs @ [f])) (fs @ [f]) k'"
  using assms by (simp add: routed_def segment_def)

text \<open>What the steps of a stream leave alone.\<close>

lemma sections_id [simp]:
  "stream_id (set_read_error e s) = stream_id s" "stream_id (discard_read_chunks s) = stream_id s"
  "stream_id (prepend_read_chunk c s) = stream_id s" "stream_id (notify_readable s) = stream_id s"
  "stream_id (notify_read_space s) = stream_id s"
  by (simp_all add: stream_sections)

lemma link_step_keeps:
  assumes "link_step l ev k = Some k'"
  shows "stream_id (str k') = stream_id (str k) \<and>
    (\<not> from_loop ev \<longrightarrow> arrived k' = arrived k \<and> ended_with k' = ended_with k)"
proof (cases ev)
  case (Read_locks now)
  with assms have "read_locks now k = Some k'" by (simp add: link_step_def)
  then show ?thesis by (cases rule: read_locks_cases) (auto simp: read_returns_def)
next
  case Append_locks
  with assms have "append_locks l k = Some k'" by (simp add: link_step_def)
  then show ?thesis by (cases rule: append_locks_cases) auto
next
  case Copy_locks
  with assms have "copy_locks k = Some k'" by (simp add: link_step_def)
  then show ?thesis by (cases rule: copy_locks_cases) (auto simp: read_returns_def)
next
  case (Copy_wrote n e)
  with assms have "copy_wrote n e k = Some k'" by (simp add: link_step_def)
  then show ?thesis by (cases rule: copy_wrote_cases) auto
qed (use assms in \<open>auto simp: link_step_def link_steps from_loop_def
      split: appending.splits reading.splits if_splits\<close>)

lemma at_link_cases:
  assumes "at_link a ev l t = Some t'"
  obtains k where "a < length (links t)" "link_step l ev (links t ! a) = Some k"
    "t' = t\<lparr>links := (links t)[a := k]\<rparr>"
  using assms by (auto simp: at_link_def split: if_splits option.splits)

lemma is_registered_update:
  "stream_id (str k) = stream_id (str (links t ! a)) \<Longrightarrow> a < length (links t) \<Longrightarrow> b < length (links t) \<Longrightarrow>
   is_registered (t\<lparr>links := (links t)[a := k]\<rparr>) b = is_registered t b"
  by (cases "b = a") (simp_all add: is_registered_def)

lemma slot_other:
  assumes "slot_ok l t b" and "links t' ! b = links t ! b" and "opened_at t' ! b = opened_at t ! b"
    and "handled t' = handled t" and "is_registered t' b \<Longrightarrow> is_registered t b"
  shows "slot_ok l t' b"
  using assms unfolding slot_ok_def by metis

lemma names_at_link:
  assumes "names_ok t" and "a < length (links t)" and "stream_id (str k) = stream_id (str (links t ! a))"
  shows "names_ok (t\<lparr>links := (links t)[a := k]\<rparr>)"
  using assms by (auto simp: names_ok_def nth_list_update)

text \<open>An event of the stream's own goroutines.\<close>

lemma tunnel_own_event:
  assumes "tunnel_ok l t" and "at_link a ev l t = Some t'" and "\<not> from_loop ev"
  shows "tunnel_ok l t'"
proof -
  from assms(2) obtain k where k: "a < length (links t)" "link_step l ev (links t ! a) = Some k"
    "t' = t\<lparr>links := (links t)[a := k]\<rparr>" by (rule at_link_cases)
  from link_step_keeps[OF k(2)] assms(3) have same: "stream_id (str k) = stream_id (str (links t ! a))"
    "arrived k = arrived (links t ! a)" "ended_with k = ended_with (links t ! a)" by auto
  have "slot_ok l t' b" if "b < length (links t)" for b
  proof (cases "b = a")
    case True
    with assms(1) that k same is_registered_update[OF same(1) k(1), of a] link_ok_step[OF k(2)]
    show ?thesis by (auto simp: slot_ok_def tunnel_ok_def routed_def)
  next
    case False
    with assms(1) that k is_registered_update[OF same(1) k(1), of b] show ?thesis
      by (intro slot_other[of l t b t']) (auto simp: tunnel_ok_def)
  qed
  with assms(1) names_at_link[OF _ k(1) same(1)] k(3) show ?thesis by (simp add: tunnel_ok_def)
qed

lemma names_remove: "names_ok t \<Longrightarrow> names_ok (remove_stream i t)"
  by (auto simp: names_ok_def remove_stream_def)

lemma tunnel_remove: "tunnel_ok l t \<Longrightarrow> tunnel_ok l (remove_stream i t)"
proof -
  assume ok: "tunnel_ok l t"
  have "slot_ok l (remove_stream i t) b" if "b < length (links t)" for b
  proof -
    have "slot_ok l t b" using ok that by (simp add: tunnel_ok_def)
    then show ?thesis
      by (rule slot_other) (simp_all add: remove_stream_def is_registered_def split: if_splits)
  qed
  with ok names_remove[of t i] show ?thesis by (simp add: tunnel_ok_def remove_stream_def)
qed

lemma link_ok_closed: "link_ok l k \<Longrightarrow> link_ok l (k\<lparr>tunnel_closed := b\<rparr>)"
  by (auto simp: link_ok_def queue_ok_def bytes_ok_def wakes_ok_def held_def reader_selects_def
      something_to_read_def)

lemma tunnel_close: "tunnel_ok l t \<Longrightarrow> tunnel_ok l (close_tunnel t)"
proof -
  assume ok: "tunnel_ok l t"
  have "slot_ok l (close_tunnel t) b" if b: "b < length (links t)" for b
  proof -
    have link: "links (close_tunnel t) ! b = (links t ! b)\<lparr>tunnel_closed := True\<rparr>"
      and reg: "is_registered (close_tunnel t) b = is_registered t b"
      using b by (simp_all add: close_tunnel_def is_registered_def)
    have "slot_ok l t b" using ok b by (simp add: tunnel_ok_def)
    then show ?thesis
      unfolding slot_ok_def reg link by (simp add: link_ok_closed routed_def close_tunnel_def)
  qed
  moreover have "names_ok (close_tunnel t)"
    using ok by (simp add: tunnel_ok_def names_ok_def close_tunnel_def)
  ultimately show ?thesis by (simp add: tunnel_ok_def close_tunnel_def)
qed

lemma tunnel_register:
  assumes "tunnel_ok l t"
  shows "tunnel_ok l (register_stream i t)"
proof -
  let ?t = "register_stream i t"
  have names: "names_ok ?t"
    using assms
    by (auto simp: tunnel_ok_def names_ok_def register_stream_def nth_append new_link_def new_stream_def
        less_Suc_eq split: if_splits)
  have "slot_ok l ?t b" if "b < length (links ?t)" for b
  proof (cases "b < length (links t)")
    case True
    with assms have slot: "slot_ok l t b" and len: "length (opened_at t) = length (links t)"
      by (auto simp: tunnel_ok_def names_ok_def)
    from slot show ?thesis
    proof (rule slot_other)
      show "is_registered t b" if "is_registered ?t b"
        using that True by (simp add: register_stream_def nth_append is_registered_def split: if_splits)
    qed (use True len in \<open>simp_all add: register_stream_def nth_append\<close>)
  next
    case False
    with that have b: "b = length (links t)" by (simp add: register_stream_def)
    from assms have "length (opened_at t) = length (links t)" by (simp add: tunnel_ok_def names_ok_def)
    with b link_ok_closed[OF link_ok_new[of l i]] show ?thesis
      by (auto simp: slot_ok_def register_stream_def nth_append routed_def segment_def new_link_def
          intro!: exI[of _ "length (handled t)"])
  qed
  with names show ?thesis by (simp add: tunnel_ok_def)
qed

text \<open>A frame that concerns no registered stream.\<close>

lemma tunnel_skip_frame:
  assumes "tunnel_ok l t"
    and "\<And>b. b < length (links t) \<Longrightarrow> is_registered t b \<Longrightarrow> data_of (stream_id (str (links t ! b))) [f] = []"
  shows "tunnel_ok l (t\<lparr>handled := handled t @ [f]\<rparr>)"
proof -
  let ?t = "t\<lparr>handled := handled t @ [f]\<rparr>"
  have "slot_ok l ?t b" if b: "b < length (links t)" for b
  proof -
    from assms(1) b have slot: "slot_ok l t b" by (simp add: tunnel_ok_def)
    then obtain n where n: "routed (opened_at t ! b) n (handled t) (links t ! b)"
      "is_registered t b \<longrightarrow> n = length (handled t)" by (auto simp: slot_ok_def)
    have reg: "is_registered ?t b = is_registered t b" by (simp add: is_registered_def)
    show ?thesis
    proof (cases "is_registered t b")
      case True
      with n have "routed (opened_at t ! b) (length (handled t)) (handled t) (links t ! b)" by simp
      from routed_next[OF this refl, of f] assms(2)[OF b True]
      have "routed (opened_at t ! b) (length (handled t @ [f])) (handled t @ [f]) (links t ! b)" by simp
      with slot show ?thesis by (auto simp: slot_ok_def reg)
    next
      case False
      with routed_more[OF n(1), of "[f]"] slot show ?thesis by (auto simp: slot_ok_def reg)
    qed
  qed
  with assms(1) show ?thesis by (simp add: tunnel_ok_def names_ok_def)
qed

lemma tunnel_skip_control:
  "tunnel_ok l t \<Longrightarrow> fr_type f \<noteq> mux_data \<Longrightarrow> tunnel_ok l (t\<lparr>handled := handled t @ [f]\<rparr>)"
  by (rule tunnel_skip_frame) (simp_all add: data_of_single)

lemma tunnel_data_frame:
  assumes "tunnel_ok l t" and "registered t (fr_stream f) = Some a" and "fr_type f = mux_data"
    and "at_link a (Data_arrives (fr_payload f)) l t = Some t'"
  shows "tunnel_ok l (t'\<lparr>handled := handled t @ [f]\<rparr>)"
proof -
  let ?t = "t'\<lparr>handled := handled t @ [f]\<rparr>"
  from assms(4) obtain k where k: "a < length (links t)"
    "link_step l (Data_arrives (fr_payload f)) (links t ! a) = Some k" "t' = t\<lparr>links := (links t)[a := k]\<rparr>"
    by (rule at_link_cases)
  from k(2) have same: "stream_id (str k) = stream_id (str (links t ! a))"
    "ended_with k = ended_with (links t ! a)" "arrived k = arrived (links t ! a) @ fr_payload f"
    by (auto simp: link_step_def data_arrives_def split: if_splits)
  from assms(1,2) have id: "stream_id (str (links t ! a)) = fr_stream f"
    by (simp add: tunnel_ok_def names_ok_def)
  have reg: "is_registered ?t b = is_registered t b" if "b < length (links t)" for b
    using is_registered_update[OF same(1) k(1) that] k(3) by (simp add: is_registered_def)
  have rega: "is_registered t a" using assms(2) id by (simp add: is_registered_def)
  have "slot_ok l ?t b" if b: "b < length (links t)" for b
  proof -
    from assms(1) b have slot: "slot_ok l t b" by (simp add: tunnel_ok_def)
    then obtain n where n: "routed (opened_at t ! b) n (handled t) (links t ! b)"
      "is_registered t b \<longrightarrow> n = length (handled t)" by (auto simp: slot_ok_def)
    show ?thesis
    proof (cases "b = a")
      case True
      from n True rega have "routed (opened_at t ! a) (length (handled t)) (handled t) (links t ! a)" by simp
      from routed_next[OF this same(1), of f] same(3) id assms(3)
      have "routed (opened_at t ! a) (length (handled t @ [f])) (handled t @ [f]) k"
        by (simp add: data_of_single)
      moreover have "ended_with k = None" using slot True rega same(2) by (simp add: slot_ok_def)
      moreover have "link_ok l k" using slot True link_ok_step[OF k(2)] by (simp add: slot_ok_def)
      ultimately show ?thesis using k(1,3) True by (auto simp: slot_ok_def)
    next
      case other: False
      have link: "links ?t ! b = links t ! b" using k(3) other by simp
      show ?thesis
      proof (cases "is_registered t b")
        case True
        then have "stream_id (str (links t ! b)) \<noteq> fr_stream f"
          using other assms(2) by (auto simp: is_registered_def)
        with routed_next[of "opened_at t ! b" "handled t" "links t ! b" "links t ! b" f] n True
        have "routed (opened_at t ! b) (length (handled t @ [f])) (handled t @ [f]) (links t ! b)"
          by (simp add: data_of_single)
        with slot reg[OF b] link k(3) True show ?thesis by (auto simp: slot_ok_def)
      next
        case False
        with routed_more[OF n(1), of "[f]"] slot reg[OF b] link k(3) show ?thesis
          by (auto simp: slot_ok_def)
      qed
    qed
  qed
  moreover have "names_ok ?t"
    using assms(1) names_at_link[OF _ k(1) same(1)] k(3) by (simp add: tunnel_ok_def names_ok_def)
  ultimately show ?thesis using k(3) by (simp add: tunnel_ok_def)
qed

lemma error_arrives_keeps:
  assumes "error_arrives e k = Some k'"
  shows "stream_id (str k') = stream_id (str k)" "arrived k' = arrived k"
    "ended_with k' = ended_with k \<or> ended_with k' = Some (arrived k)"
  using assms by (auto simp: error_arrives_def error_set_def split: if_splits)

lemma tunnel_end_frame:
  assumes "tunnel_ok l t" and "registered t i = Some a" and "at_link a (Error_arrives e) l t = Some t'"
  shows "tunnel_ok l (remove_stream i t')"
proof -
  let ?t = "remove_stream i t'"
  from assms(3) obtain k where k: "a < length (links t)"
    "link_step l (Error_arrives e) (links t ! a) = Some k" "t' = t\<lparr>links := (links t)[a := k]\<rparr>"
    by (rule at_link_cases)
  from k(2) have err: "error_arrives e (links t ! a) = Some k" by (simp add: link_step_def)
  note same = error_arrives_keeps[OF err]
  from assms(1,2) have id: "stream_id (str (links t ! a)) = i" by (simp add: tunnel_ok_def names_ok_def)
  have "slot_ok l ?t b" if b: "b < length (links t)" for b
  proof -
    from assms(1) b have slot: "slot_ok l t b" by (simp add: tunnel_ok_def)
    show ?thesis
    proof (cases "b = a")
      case True
      have "\<not> is_registered ?t a" using k id same(1) by (simp add: is_registered_def remove_stream_def)
      moreover have "link_ok l k" using slot True link_ok_step[OF k(2)] by (simp add: slot_ok_def)
      ultimately show ?thesis
        using slot True k(1,3) same by (auto simp: slot_ok_def routed_def remove_stream_def)
    next
      case False
      from slot show ?thesis
        by (rule slot_other) (use False k(3) in \<open>simp_all add: remove_stream_def is_registered_def split: if_splits\<close>)
    qed
  qed
  moreover have "names_ok ?t"
    using assms(1) names_at_link[OF _ k(1) same(1)] k(3) names_remove by (simp add: tunnel_ok_def)
  ultimately show ?thesis using k(3) by (simp add: tunnel_ok_def remove_stream_def)
qed

lemma tunnel_offer: "tunnel_ok l t \<Longrightarrow> tunnel_ok l (deliver_open_result a p t)"
proof -
  assume ok: "tunnel_ok l t"
  have "slot_ok l (t\<lparr>offers := x\<rparr>) b = slot_ok l t b" for x b
    by (simp add: slot_ok_def is_registered_def)
  with ok show ?thesis by (simp add: deliver_open_result_def tunnel_ok_def names_ok_def)
qed

lemma mux_types [simp]:
  "mux_open \<noteq> mux_data" "mux_open_result \<noteq> mux_data" "mux_fin \<noteq> mux_data" "mux_rst \<noteq> mux_data"
  "mux_fin \<noteq> mux_rst" "mux_data \<noteq> mux_fin" "mux_data \<noteq> mux_rst" "mux_data \<noteq> mux_open"
  "mux_data \<noteq> mux_open_result" "mux_open \<noteq> mux_open_result" "mux_open_result \<noteq> mux_open"
  by (simp_all add: mux_open_def mux_open_result_def mux_data_def mux_fin_def mux_rst_def)

lemma handled_same:
  "handled (register_stream i t) = handled t" "handled (deliver_open_result a p t) = handled t"
  "handled (remove_stream i t) = handled t"
  "at_link a ev l t = Some t' \<Longrightarrow> handled t' = handled t"
  by (auto simp: register_stream_def deliver_open_result_def remove_stream_def at_link_def
      split: if_splits option.splits)

lemma tunnel_dispatch:
  assumes "tunnel_ok l t" and "dispatch l admit f t = Some t'"
  shows "tunnel_ok l (t'\<lparr>handled := handled t @ [f]\<rparr>)"
proof (cases "fr_type f = mux_open \<and> role t = Server")
  case True
  with assms(2) have t': "t' = (if admit (fr_payload f) then register_stream (fr_stream f) t else t)"
    by (simp add: dispatch_def)
  then have "tunnel_ok l t'" "handled t' = handled t"
    using assms(1) tunnel_register by (simp_all add: handled_same)
  with tunnel_skip_control[of l t' f] True show ?thesis by simp
next
  case not_open: False
  show ?thesis
  proof (cases "registered t (fr_stream f)")
    case None
    with assms(2) not_open have "t' = t" by (auto simp: dispatch_def)
    moreover have "data_of (stream_id (str (links t ! b))) [f] = []" if "is_registered t b" for b
      using that None by (auto simp: is_registered_def data_of_single)
    ultimately show ?thesis using assms(1) tunnel_skip_frame by simp
  next
    case (Some a)
    consider (offer) "fr_type f = mux_open_result" "t' = deliver_open_result a (fr_payload f) t"
      | (data) "fr_type f = mux_data" "at_link a (Data_arrives (fr_payload f)) l t = Some t'"
      | (ends) e t1 where "fr_type f \<noteq> mux_data" "at_link a (Error_arrives e) l t = Some t1"
          "t' = remove_stream (fr_stream f) t1"
      | (skip) "fr_type f \<noteq> mux_data" "t' = t"
      using assms(2) not_open Some by (auto simp: dispatch_def split: if_splits)
    then show ?thesis
    proof cases
      case offer
      with tunnel_skip_control[OF tunnel_offer[OF assms(1)], of f] show ?thesis
        by (simp add: handled_same)
    next
      case data
      with tunnel_data_frame[OF assms(1) Some] show ?thesis by simp
    next
      case (ends e t1)
      with tunnel_skip_control[OF tunnel_end_frame[OF assms(1) Some ends(2)], of f] show ?thesis
        by (simp add: handled_same)
    next
      case skip
      with tunnel_skip_control[OF assms(1), of f] show ?thesis by simp
    qed
  qed
qed

lemma tunnel_fail_all:
  assumes "tunnel_ok l t"
  shows "tunnel_ok l (fail_all_streams e p t)"
proof -
  let ?t = "fail_all_streams e p t"
  have len: "length (links ?t) = length (links t)" by (simp add: fail_all_streams_def)
  have "slot_ok l ?t b" if b: "b < length (links t)" for b
  proof -
    from assms b have slot: "slot_ok l t b" by (simp add: tunnel_ok_def)
    let ?k = "if is_registered t b then fail_link e (links t ! b) else links t ! b"
    have link: "links ?t ! b = ?k" using b by (simp add: fail_all_streams_def)
    have unreg: "\<not> is_registered ?t b" by (simp add: is_registered_def fail_all_streams_def)
    have "link_ok l (fail_link e k)" if "link_ok l k" for k
      using that link_ok_step[of l "Error_arrives e" k]
      by (auto simp: fail_link_def link_step_def split: option.splits)
    moreover have keep: "stream_id (str (fail_link e k)) = stream_id (str k)"
      "arrived (fail_link e k) = arrived k" for k
      using error_arrives_keeps[of e k] by (auto simp: fail_link_def split: option.splits)
    moreover have "ended_with (fail_link e k) = None \<or> ended_with (fail_link e k) = Some (arrived k)"
      if "ended_with k = None" for k
      using error_arrives_keeps(3)[of e k] that by (auto simp: fail_link_def split: option.splits)
    moreover have "routed m n fs (fail_link e k) = routed m n fs k" for m n fs k
      by (simp add: routed_def keep)
    ultimately show ?thesis
      using slot unreg unfolding slot_ok_def link
      by (cases "is_registered t b") (simp_all add: fail_all_streams_def, blast+)
  qed
  moreover have "names_ok ?t" using assms by (simp add: tunnel_ok_def names_ok_def fail_all_streams_def)
  ultimately show ?thesis by (simp add: tunnel_ok_def len)
qed

theorem tunnel_ok_step: "tunnel_ok l t \<Longrightarrow> tunnel_step l admit ev t = Some t' \<Longrightarrow> tunnel_ok l t'"
proof (cases ev)
  case Opens
  assume ok: "tunnel_ok l t" and "tunnel_step l admit ev t = Some t'"
  then have t': "t' = open_stream t" using Opens by (auto simp: tunnel_step_def split: if_splits)
  have "slot_ok l (t\<lparr>next_stream_id := i\<rparr>) b = slot_ok l t b" for i b
    by (simp add: slot_ok_def is_registered_def)
  with ok have "tunnel_ok l (t\<lparr>next_stream_id := next_stream_id t + 1\<rparr>)"
    by (simp add: tunnel_ok_def names_ok_def)
  with t' show ?thesis by (simp add: open_stream_def tunnel_register)
qed (auto simp: tunnel_step_def loop_ends_def split: if_splits role.splits
    dest: tunnel_dispatch tunnel_own_event intro: tunnel_close tunnel_fail_all tunnel_remove)

lemma tunnel_ok_run: "tunnel_run l admit evs t = Some t' \<Longrightarrow> tunnel_ok l t \<Longrightarrow> tunnel_ok l t'"
  by (induction evs arbitrary: t) (auto split: option.splits intro: tunnel_ok_step)

subsection \<open>What a stream receives\<close>

fun frames_of :: "tunnel_event list \<Rightarrow> mux_frame list" where
  "frames_of [] = []"
| "frames_of (Frame f # evs) = f # frames_of evs"
| "frames_of (_ # evs) = frames_of evs"

lemma handled_step:
  "tunnel_step l admit ev t = Some t' \<Longrightarrow> handled t' = handled t @ frames_of [ev]"
  by (cases ev)
    (auto simp: tunnel_step_def loop_ends_def close_tunnel_def fail_all_streams_def open_stream_def
      handled_same register_stream_def remove_stream_def at_link_def
      split: if_splits role.splits option.splits)

lemma frames_of_Cons: "frames_of (ev # evs) = frames_of [ev] @ frames_of evs"
  by (cases ev) simp_all

lemma handled_run: "tunnel_run l admit evs t = Some t' \<Longrightarrow> handled t' = handled t @ frames_of evs"
proof (induction evs arbitrary: t)
  case (Cons ev evs)
  then obtain t1 where "tunnel_step l admit ev t = Some t1" "tunnel_run l admit evs t1 = Some t'"
    by (auto split: option.splits)
  with Cons.IH[of t1] handled_step[of l admit ev t t1] show ?case
    by (subst frames_of_Cons) simp
qed simp

lemma stream_bytes:
  assumes "tunnel_ok l t" and "a < length (links t)" and "\<not> lossy (links t ! a)"
  shows "\<exists>n later. n \<le> length (handled t) \<and>
    data_of (stream_id (str (links t ! a))) (segment (opened_at t ! a) n (handled t)) =
      received (links t ! a) @ later"
proof -
  let ?k = "links t ! a"
  from assms(1,2) have slot: "slot_ok l t a" by (simp add: tunnel_ok_def)
  then obtain n where n: "routed (opened_at t ! a) n (handled t) ?k" by (auto simp: slot_ok_def)
  from slot assms(3) obtain later where "arrived ?k = held ?k @ later"
    by (auto simp: slot_ok_def link_ok_def bytes_ok_def)
  then have "arrived ?k = received ?k @ (copied (reading ?k) @ concat (chunks (str ?k)) @ later)"
    by (simp add: held_def)
  with n show ?thesis unfolding routed_def by metis
qed

text \<open>
  The number of a client's stream is its place in the order of opening, modulo $2^{32}$: numbers
  differ until the counter wraps, and then they are used again.
\<close>

definition numbered :: "mux_tunnel \<Rightarrow> bool" where
  "numbered t \<longleftrightarrow> role t = Client \<longrightarrow>
     next_stream_id t = of_nat (length (links t)) \<and>
     (\<forall>a < length (links t). stream_id (str (links t ! a)) = of_nat (Suc a))"

lemma numbered_links:
  assumes "numbered t" and "role t' = role t" and "next_stream_id t' = next_stream_id t"
    and "length (links t') = length (links t)"
    and "\<And>a. a < length (links t) \<Longrightarrow> stream_id (str (links t' ! a)) = stream_id (str (links t ! a))"
  shows "numbered t'"
  using assms by (simp add: numbered_def)

lemma numbered_at_link: "numbered t \<Longrightarrow> at_link a ev l t = Some t' \<Longrightarrow> numbered t'"
proof (erule at_link_cases)
  fix k
  assume num: "numbered t" and k: "a < length (links t)" "link_step l ev (links t ! a) = Some k"
    "t' = t\<lparr>links := (links t)[a := k]\<rparr>"
  show "numbered t'"
    by (rule numbered_links[OF num]) (use k link_step_keeps[OF k(2)] in \<open>auto simp: nth_list_update\<close>)
qed

lemma numbered_step: "numbered t \<Longrightarrow> tunnel_step l admit ev t = Some t' \<Longrightarrow> numbered t'"
proof (cases ev)
  case (Frame f)
  assume num: "numbered t" and "tunnel_step l admit ev t = Some t'"
  then obtain t1 where t1: "dispatch l admit f t = Some t1" "t' = t1\<lparr>handled := handled t @ [f]\<rparr>"
    using Frame by (auto simp: tunnel_step_def split: if_splits)
  have remove: "numbered (remove_stream i u)" if "numbered u" for i u
    using that by (simp add: numbered_def remove_stream_def)
  have "numbered t1"
  proof (cases "fr_type f = mux_open \<and> role t = Server")
    case True
    with t1 num show ?thesis by (auto simp: dispatch_def numbered_def register_stream_def split: if_splits)
  next
    case False
    show ?thesis
    proof (cases "registered t (fr_stream f)")
      case (Some a)
      with False t1 num have "t1 = deliver_open_result a (fr_payload f) t \<or> t1 = t \<or>
          at_link a (Data_arrives (fr_payload f)) l t = Some t1 \<or>
          (\<exists>e u. at_link a (Error_arrives e) l t = Some u \<and> t1 = remove_stream (fr_stream f) u)"
        by (auto simp: dispatch_def split: if_splits)
      moreover have "numbered (deliver_open_result a (fr_payload f) t)"
        using num by (simp add: numbered_def deliver_open_result_def)
      ultimately show ?thesis using num numbered_at_link[OF num] remove by metis
    qed (use False t1 num in \<open>auto simp: dispatch_def\<close>)
  qed
  with t1(2) show ?thesis by (simp add: numbered_def)
next
  case (Loop_ends e p)
  assume num: "numbered t" and "tunnel_step l admit ev t = Some t'"
  then have t': "t' = loop_ends e p t" using Loop_ends by (auto simp: tunnel_step_def split: if_splits)
  have fail: "stream_id (str (fail_link e k)) = stream_id (str k)" for k
    using error_arrives_keeps[of e k] by (auto simp: fail_link_def split: option.splits)
  show ?thesis unfolding t'
    by (rule numbered_links[OF num])
      (auto simp: loop_ends_def close_tunnel_def fail_all_streams_def fail split: role.splits)
next
  case Opens
  assume "numbered t" "tunnel_step l admit ev t = Some t'"
  with Opens show ?thesis
    by (auto simp: tunnel_step_def numbered_def open_stream_def register_stream_def nth_append
        new_link_def new_stream_def less_Suc_eq split: if_splits)
next
  case (At a lev)
  assume "numbered t" "tunnel_step l admit ev t = Some t'"
  with At show ?thesis by (auto simp: tunnel_step_def dest: numbered_at_link split: if_splits)
qed (auto simp: tunnel_step_def numbered_def remove_stream_def close_tunnel_def split: if_splits)

lemma numbered_run: "tunnel_run l admit evs t = Some t' \<Longrightarrow> numbered t \<Longrightarrow> numbered t'"
  by (induction evs arbitrary: t) (auto split: option.splits intro: numbered_step)

lemma role_step: "tunnel_step l admit ev t = Some t' \<Longrightarrow> role t' = role t"
  by (cases ev)
    (auto simp: tunnel_step_def loop_ends_def close_tunnel_def fail_all_streams_def open_stream_def
      register_stream_def remove_stream_def at_link_def dispatch_def deliver_open_result_def
      split: if_splits role.splits option.splits)

lemma role_run: "tunnel_run l admit evs t = Some t' \<Longrightarrow> role t' = role t"
  by (induction evs arbitrary: t) (auto split: option.splits dest: role_step)

lemma client_stream_numbers:
  assumes "tunnel_run l admit evs (new_tunnel Client) = Some t" and "a < length (links t)"
    and "b < length (links t)"
  shows "stream_id (str (links t ! a)) = stream_id (str (links t ! b)) \<longleftrightarrow> a mod 2 ^ 32 = b mod 2 ^ 32"
proof -
  have "numbered (new_tunnel Client)" by (simp add: numbered_def new_tunnel_def)
  with numbered_run[OF assms(1)] role_run[OF assms(1)]
  have num: "\<forall>a < length (links t). stream_id (str (links t ! a)) = of_nat (Suc a)"
    by (simp add: numbered_def new_tunnel_def)
  have "(of_nat (Suc a) :: 32 word) = of_nat (Suc b) \<longleftrightarrow> (of_nat a :: 32 word) = of_nat b" by simp
  also have "\<dots> \<longleftrightarrow> a mod 2 ^ 32 = b mod 2 ^ 32"
    by (simp add: word_unat_eq_iff unat_of_nat)
  finally show ?thesis using num assms(2,3) by simp
qed

end
