(* ===== verification/RelayPool.thy ===== *)
theory RelayPool
  imports RelayIO
begin

text \<open>
  The outbound tunnels of the relay: the pool of TLS/TCP tunnels per key
  (\<open>tlsTCPSessionPool\<close> in \<open>tls_tcp_session_pool.go\<close>). Tunnels are addresses; calls of the pool
  interleave, since a dial happens between two critical sections. The locale \<open>fenced_pool\<close> is the
  contract that the scopes of \<open>RelayScopes\<close> rely on.
\<close>

subsection \<open>The contract of a pool\<close>

fun steps :: "('e \<Rightarrow> 's \<Rightarrow> 's option) \<Rightarrow> 'e list \<Rightarrow> 's \<Rightarrow> 's option" where
  "steps step [] s = Some s"
| "steps step (e # es) s = (case step e s of None \<Rightarrow> None | Some s' \<Rightarrow> steps step es s')"

locale fenced_pool =
  fixes step :: "'e \<Rightarrow> 's \<Rightarrow> 's option" and ok :: "'s \<Rightarrow> bool" and closed :: "'s \<Rightarrow> bool"
    and shuts :: 'e and live :: "'s \<Rightarrow> nat \<Rightarrow> bool"
  assumes ok_step: "step e s = Some s' \<Longrightarrow> ok s \<Longrightarrow> ok s'"
    and closed_step: "step e s = Some s' \<Longrightarrow> closed s' \<longleftrightarrow> closed s \<or> e = shuts"
    and closed_empty: "ok s \<Longrightarrow> closed s \<Longrightarrow> \<not> live s a"
begin

lemma ok_steps: "steps step es s = Some s' \<Longrightarrow> ok s \<Longrightarrow> ok s'"
  by (induction es arbitrary: s) (auto split: option.splits dest: ok_step)

lemma closed_steps: "steps step es s = Some s' \<Longrightarrow> closed s' \<longleftrightarrow> closed s \<or> shuts \<in> set es"
  by (induction es arbitrary: s) (auto split: option.splits dest: closed_step)

lemma nothing_after_close:
  "steps step es s = Some s' \<Longrightarrow> ok s \<Longrightarrow> shuts \<in> set es \<Longrightarrow> \<not> live s' a"
  using ok_steps closed_steps closed_empty by blast

end

subsection \<open>The load of a tunnel\<close>

datatype traffic_class = Class_unknown | Class_interactive | Class_bulk

definition sessions_per_key :: nat where "sessions_per_key = 4"
definition target_streams_per_session :: int where "target_streams_per_session = 2"
definition bulk_frame_size :: int where "bulk_frame_size = 65536"
definition admission_queued_writes :: int where "admission_queued_writes = 4"
definition admission_buffered_bytes :: int where "admission_buffered_bytes = 524288"

text \<open>
  \<open>queuedWrites\<close> and \<open>bufferedBytes\<close> count the requests queued for the write pump; \<open>reservations\<close>
  are the slots handed out by \<open>reserveStreamSlot\<close>, each with a flag for its \<open>sync.Once\<close>.
\<close>

record pool_tunnel =
  streams_open :: nat
  pending_streams :: int
  queued_sizes :: "nat list"
  tunnel_gone :: bool

definition queued_writes :: "pool_tunnel \<Rightarrow> int" where
  "queued_writes t = int (length (queued_sizes t))"

definition buffered_bytes :: "pool_tunnel \<Rightarrow> int" where
  "buffered_bytes t = int (sum_list (queued_sizes t))"

definition tls_tcp_load :: "pool_tunnel \<Rightarrow> int" where
  "tls_tcp_load t =
     int (streams_open t) + pending_streams t + queued_writes t + buffered_bytes t div bulk_frame_size"

definition can_accept_traffic_class :: "traffic_class \<Rightarrow> pool_tunnel \<Rightarrow> bool" where
  "can_accept_traffic_class class t \<longleftrightarrow>
     (if class \<noteq> Class_interactive then True
      else if admission_queued_writes \<le> queued_writes t then False
      else if admission_buffered_bytes \<le> buffered_bytes t then False
      else True)"

record session_pool =
  sessions :: "string \<Rightarrow> nat list"
  pool_keys :: "string list"
  pool_shut :: bool
  tunnel_at :: "nat \<Rightarrow> pool_tunnel"
  tunnels_made :: nat
  reservations :: "(nat \<times> bool) list"

text \<open>
  A key without tunnels is a key that the map does not have; \<open>pool_keys\<close> lists the keys that have
  been stored.
\<close>

definition new_session_pool :: session_pool where
  "new_session_pool =
     \<lparr>sessions = (\<lambda>_. []), pool_keys = [], pool_shut = False,
      tunnel_at = (\<lambda>_. \<lparr>streams_open = 0, pending_streams = 0, queued_sizes = [], tunnel_gone = False\<rparr>),
      tunnels_made = 0, reservations = []\<rparr>"

definition acceptable_tunnels :: "(nat \<Rightarrow> pool_tunnel) \<Rightarrow> traffic_class \<Rightarrow> nat list \<Rightarrow> nat list" where
  "acceptable_tunnels h class ts =
     (if class \<noteq> Class_interactive then ts else filter (\<lambda>a. can_accept_traffic_class class (h a)) ts)"

fun least_loaded :: "(nat \<Rightarrow> pool_tunnel) \<Rightarrow> nat \<Rightarrow> nat list \<Rightarrow> nat" where
  "least_loaded h best [] = best"
| "least_loaded h best (a # ts) =
     (if tls_tcp_load (h a) < tls_tcp_load (h best) then least_loaded h a ts else least_loaded h best ts)"

definition least_loaded_tunnel :: "(nat \<Rightarrow> pool_tunnel) \<Rightarrow> nat list \<Rightarrow> nat" where
  "least_loaded_tunnel h ts = least_loaded h (hd ts) (tl ts)"

subsection \<open>The critical sections of the pool\<close>

text \<open>\<open>activeSessionsLocked\<close> drops the tunnels that have been closed.\<close>

definition active_sessions :: "string \<Rightarrow> session_pool \<Rightarrow> nat list \<times> session_pool" where
  "active_sessions key p =
     (let active = filter (\<lambda>a. \<not> tunnel_gone (tunnel_at p a)) (sessions p key) in
      (active, p\<lparr>sessions := (sessions p)(key := active)\<rparr>))"

definition reserve_stream_slot :: "nat \<Rightarrow> session_pool \<Rightarrow> session_pool" where
  "reserve_stream_slot a p =
     p\<lparr>tunnel_at := (tunnel_at p)(a := (tunnel_at p a)\<lparr>pending_streams := pending_streams (tunnel_at p a) + 1\<rparr>),
       reservations := reservations p @ [(a, False)]\<rparr>"

definition release_slot :: "nat \<Rightarrow> session_pool \<Rightarrow> session_pool" where
  "release_slot r p =
     (if r < length (reservations p) \<and> \<not> snd (reservations p ! r)
      then let a = fst (reservations p ! r) in
        p\<lparr>tunnel_at := (tunnel_at p)(a := (tunnel_at p a)\<lparr>pending_streams := pending_streams (tunnel_at p a) - 1\<rparr>),
          reservations := (reservations p)[r := (a, True)]\<rparr>
      else p)"

definition reserve_existing :: "string \<Rightarrow> traffic_class \<Rightarrow> session_pool \<Rightarrow> nat option \<times> session_pool" where
  "reserve_existing key class p =
     (if pool_shut p then (None, p)
      else case active_sessions key p of (active, p1) \<Rightarrow>
        if active = [] then (None, p1)
        else
          let acceptable = acceptable_tunnels (tunnel_at p1) class active in
          if acceptable = [] \<and> length active < sessions_per_key then (None, p1)
          else
            let ts = (if acceptable \<noteq> [] then acceptable else active);
                least = least_loaded_tunnel (tunnel_at p1) ts
            in if length ts < sessions_per_key \<and>
                  target_streams_per_session \<le> tls_tcp_load (tunnel_at p1 least)
               then (None, p1)
               else (Some least, reserve_stream_slot least p1))"

definition store_or_reserve ::
  "string \<Rightarrow> traffic_class \<Rightarrow> nat \<Rightarrow> session_pool \<Rightarrow> nat option \<times> session_pool" where
  "store_or_reserve key class tunnel p =
     (if pool_shut p then (None, p)
      else case active_sessions key p of (active, p1) \<Rightarrow>
        if sessions_per_key \<le> length active
        then
          let acceptable = acceptable_tunnels (tunnel_at p1) class active;
              ts = (if acceptable \<noteq> [] then acceptable else active);
              least = least_loaded_tunnel (tunnel_at p1) ts
          in (Some least, reserve_stream_slot least p1)
        else (Some tunnel,
              reserve_stream_slot tunnel
                (p1\<lparr>sessions := (sessions p1)(key := active @ [tunnel]),
                    pool_keys := List.insert key (pool_keys p1)\<rparr>)))"

text \<open>\<open>remove\<close> takes out the first occurrence.\<close>

definition remove_tunnel :: "string \<Rightarrow> nat \<Rightarrow> session_pool \<Rightarrow> session_pool" where
  "remove_tunnel key tunnel p = p\<lparr>sessions := (sessions p)(key := remove1 tunnel (sessions p key))\<rparr>"

definition close_pool_tunnel :: "nat \<Rightarrow> session_pool \<Rightarrow> session_pool" where
  "close_pool_tunnel a p =
     p\<lparr>tunnel_at := (tunnel_at p)(a := (tunnel_at p a)\<lparr>tunnel_gone := True\<rparr>)\<rparr>"

definition close_pool :: "session_pool \<Rightarrow> session_pool" where
  "close_pool p =
     fold close_pool_tunnel (concat (map (sessions p) (pool_keys p)))
       (p\<lparr>sessions := (\<lambda>_. []), pool_shut := True\<rparr>)"

subsection \<open>getOrDial\<close>

datatype pool_error = Pool_closed | Dial_failed io_error | Admission_rejected

text \<open>
  \<open>getOrDial\<close> up to the dial, and after it. \<open>Inl\<close> is an error, \<open>Inr None\<close> means that a tunnel
  must be dialed.
\<close>

definition get_or_dial_begin ::
  "string \<Rightarrow> traffic_class \<Rightarrow> session_pool \<Rightarrow> (pool_error + nat option) \<times> session_pool" where
  "get_or_dial_begin key class p =
     (if pool_shut p then (Inl Pool_closed, p)
      else case reserve_existing key class p of (found, p1) \<Rightarrow> (Inr found, p1))"

definition get_or_dial_end ::
  "string \<Rightarrow> traffic_class \<Rightarrow> io_error + nat \<Rightarrow> session_pool \<Rightarrow> (pool_error + nat) \<times> session_pool" where
  "get_or_dial_end key class dialed p =
     (case dialed of
        Inl e \<Rightarrow> (Inl (Dial_failed e), p)
      | Inr tunnel \<Rightarrow>
          (case store_or_reserve key class tunnel p of
             (None, p1) \<Rightarrow>
               let p2 = close_pool_tunnel tunnel p1 in
               if pool_shut p2 then (Inl Pool_closed, p2) else (Inl Admission_rejected, p2)
           | (Some stored, p1) \<Rightarrow>
               (Inr stored, if stored \<noteq> tunnel then close_pool_tunnel tunnel p1 else p1)))"

subsection \<open>Choosing a tunnel\<close>

lemma least_loaded_best:
  "least_loaded h best ts \<in> set (best # ts) \<and>
   (\<forall>a \<in> set (best # ts). tls_tcp_load (h (least_loaded h best ts)) \<le> tls_tcp_load (h a))"
proof (induction ts arbitrary: best)
  case (Cons a ts)
  from Cons[of a] Cons[of best] show ?case by (cases "tls_tcp_load (h a) < tls_tcp_load (h best)") auto
qed simp

lemma least_loaded_tunnel_best:
  "ts \<noteq> [] \<Longrightarrow> least_loaded_tunnel h ts \<in> set ts \<and>
   (\<forall>a \<in> set ts. tls_tcp_load (h (least_loaded_tunnel h ts)) \<le> tls_tcp_load (h a))"
  using least_loaded_best[of h "hd ts" "tl ts"] by (cases ts) (auto simp: least_loaded_tunnel_def)

lemma acceptable_subset: "set (acceptable_tunnels h class ts) \<subseteq> set ts"
  by (auto simp: acceptable_tunnels_def)

lemma acceptable_accept: "a \<in> set (acceptable_tunnels h class ts) \<Longrightarrow> can_accept_traffic_class class (h a)"
  by (auto simp: acceptable_tunnels_def can_accept_traffic_class_def split: if_splits)

lemma acceptable_length: "length (acceptable_tunnels h class ts) \<le> length ts"
  by (simp add: acceptable_tunnels_def)

subsection \<open>Runs of the pool\<close>

text \<open>
  \<open>Dialed key class (Inr b)\<close> is a dial that has succeeded, with a tunnel that is already closed
  again if \<open>b\<close>; \<open>Removes\<close> is the goroutine that waits for a tunnel to close. \<open>log\<close> keeps the answers
  of \<open>getOrDial\<close>.
\<close>

datatype pool_event =
    Gets string traffic_class
  | Dialed string traffic_class "io_error + bool"
  | Removes string nat
  | Goes nat
  | Releases nat
  | Stream_opened nat
  | Stream_closed nat
  | Write_queued nat nat
  | Write_done nat
  | Shuts

record pool_run =
  the_pool :: session_pool
  log :: "(pool_error + nat) list"

definition change_tunnel :: "nat \<Rightarrow> (pool_tunnel \<Rightarrow> pool_tunnel) \<Rightarrow> session_pool \<Rightarrow> session_pool" where
  "change_tunnel a f p = p\<lparr>tunnel_at := (tunnel_at p)(a := f (tunnel_at p a))\<rparr>"

definition new_pool_tunnel :: "bool \<Rightarrow> session_pool \<Rightarrow> session_pool" where
  "new_pool_tunnel gone p =
     change_tunnel (tunnels_made p)
       (\<lambda>_. \<lparr>streams_open = 0, pending_streams = 0, queued_sizes = [], tunnel_gone = gone\<rparr>)
       (p\<lparr>tunnels_made := Suc (tunnels_made p)\<rparr>)"

definition log_answer :: "(pool_error + nat) \<times> session_pool \<Rightarrow> pool_run \<Rightarrow> pool_run" where
  "log_answer r s = s\<lparr>the_pool := snd r, log := log s @ [fst r]\<rparr>"

definition pool_step :: "pool_event \<Rightarrow> pool_run \<Rightarrow> pool_run option" where
  "pool_step ev s =
     (let p = the_pool s in
      case ev of
        Gets key class \<Rightarrow>
          (case get_or_dial_begin key class p of
             (Inl e, p1) \<Rightarrow> Some (log_answer (Inl e, p1) s)
           | (Inr (Some a), p1) \<Rightarrow> Some (log_answer (Inr a, p1) s)
           | (Inr None, p1) \<Rightarrow> Some (s\<lparr>the_pool := p1\<rparr>))
      | Dialed key class (Inl e) \<Rightarrow> Some (log_answer (get_or_dial_end key class (Inl e) p) s)
      | Dialed key class (Inr gone) \<Rightarrow>
          Some (log_answer
            (get_or_dial_end key class (Inr (tunnels_made p)) (new_pool_tunnel gone p)) s)
      | Removes key a \<Rightarrow>
          if tunnel_gone (tunnel_at p a) then Some (s\<lparr>the_pool := remove_tunnel key a p\<rparr>) else None
      | Goes a \<Rightarrow> Some (s\<lparr>the_pool := close_pool_tunnel a p\<rparr>)
      | Releases r \<Rightarrow> Some (s\<lparr>the_pool := release_slot r p\<rparr>)
      | Stream_opened a \<Rightarrow>
          Some (s\<lparr>the_pool := change_tunnel a (\<lambda>t. t\<lparr>streams_open := Suc (streams_open t)\<rparr>) p\<rparr>)
      | Stream_closed a \<Rightarrow>
          Some (s\<lparr>the_pool := change_tunnel a (\<lambda>t. t\<lparr>streams_open := streams_open t - 1\<rparr>) p\<rparr>)
      | Write_queued a n \<Rightarrow>
          Some (s\<lparr>the_pool := change_tunnel a (\<lambda>t. t\<lparr>queued_sizes := queued_sizes t @ [n]\<rparr>) p\<rparr>)
      | Write_done a \<Rightarrow>
          Some (s\<lparr>the_pool := change_tunnel a (\<lambda>t. t\<lparr>queued_sizes := tl (queued_sizes t)\<rparr>) p\<rparr>)
      | Shuts \<Rightarrow> Some (s\<lparr>the_pool := close_pool p\<rparr>))"

definition pool_start :: pool_run where
  "pool_start = \<lparr>the_pool = new_session_pool, log = []\<rparr>"

subsection \<open>The invariant of the pool\<close>

definition slots_held :: "nat \<Rightarrow> (nat \<times> bool) list \<Rightarrow> nat" where
  "slots_held a rs = length (filter (\<lambda>r. r = (a, False)) rs)"

definition pool_keys_ok :: "session_pool \<Rightarrow> bool" where
  "pool_keys_ok p \<longleftrightarrow>
     (\<forall>key. length (sessions p key) \<le> sessions_per_key \<and> distinct (sessions p key) \<and>
       (sessions p key \<noteq> [] \<longrightarrow> key \<in> set (pool_keys p)) \<and>
       (\<forall>a \<in> set (sessions p key). a < tunnels_made p)) \<and>
     (\<forall>key key' a. a \<in> set (sessions p key) \<longrightarrow> a \<in> set (sessions p key') \<longrightarrow> key = key') \<and>
     (pool_shut p \<longrightarrow> (\<forall>key. sessions p key = []))"

text \<open>
  A tunnel that is open belongs to the pool: no connection is forgotten. The tunnels of \<open>S\<close> are
  excepted, those that \<open>getOrDial\<close> still holds itself.
\<close>

definition no_leak :: "nat set \<Rightarrow> session_pool \<Rightarrow> bool" where
  "no_leak S p \<longleftrightarrow>
     (\<forall>a < tunnels_made p. a \<notin> S \<longrightarrow> \<not> tunnel_gone (tunnel_at p a) \<longrightarrow> (\<exists>key. a \<in> set (sessions p key)))"

definition slots_ok :: "session_pool \<Rightarrow> bool" where
  "slots_ok p \<longleftrightarrow>
     (\<forall>a. pending_streams (tunnel_at p a) = int (slots_held a (reservations p))) \<and>
     (\<forall>r \<in> set (reservations p). fst r < tunnels_made p)"

definition pool_ok_but :: "nat set \<Rightarrow> session_pool \<Rightarrow> bool" where
  "pool_ok_but S p \<longleftrightarrow> pool_keys_ok p \<and> no_leak S p \<and> slots_ok p"

abbreviation pool_ok :: "session_pool \<Rightarrow> bool" where
  "pool_ok p \<equiv> pool_ok_but {} p"

lemma new_session_pool_ok: "pool_ok new_session_pool"
  by (simp add: pool_ok_but_def pool_keys_ok_def no_leak_def slots_ok_def new_session_pool_def slots_held_def)

text \<open>
  The invariant reads the sessions, the tunnels that are gone, the pending counts and the
  reservations only.
\<close>

lemma pool_ok_frame:
  assumes "pool_ok_but S p" and "sessions q = sessions p" and "pool_keys q = pool_keys p"
    and "pool_shut q = pool_shut p" and "tunnels_made q = tunnels_made p"
    and "reservations q = reservations p"
    and "\<And>a. a \<notin> T \<Longrightarrow> a < tunnels_made p \<Longrightarrow> \<not> tunnel_gone (tunnel_at q a) \<Longrightarrow>
           a \<notin> S \<and> \<not> tunnel_gone (tunnel_at p a)"
    and "\<And>a. pending_streams (tunnel_at q a) = pending_streams (tunnel_at p a)"
  shows "pool_ok_but T q"
proof -
  have "no_leak T q" using assms(1,2,5,7) unfolding pool_ok_but_def no_leak_def by metis
  moreover have "slots_ok q" using assms(1,5,6,8) unfolding pool_ok_but_def slots_ok_def by simp
  moreover have "pool_keys_ok q" using assms(1-5) unfolding pool_ok_but_def pool_keys_ok_def by simp
  ultimately show ?thesis by (simp add: pool_ok_but_def)
qed

lemma pool_ok_shrink:
  assumes p: "pool_ok_but S p" and q: "sessions q = (sessions p)(key := ts)" "pool_keys q = pool_keys p"
      "pool_shut q = pool_shut p" "tunnels_made q = tunnels_made p" "reservations q = reservations p"
      "tunnel_at q = tunnel_at p"
    and sub: "set ts \<subseteq> set (sessions p key)" and "distinct ts"
    and len: "length ts \<le> length (sessions p key)"
    and kept: "\<And>a. a \<in> set (sessions p key) \<Longrightarrow> \<not> tunnel_gone (tunnel_at p a) \<Longrightarrow> a \<in> set ts"
  shows "pool_ok_but S q"
proof -
  from p have keys: "pool_keys_ok p" by (simp add: pool_ok_but_def)
  have subs: "set (sessions q k) \<subseteq> set (sessions p k)" for k using sub by (simp add: q)
  have "length (sessions q k) \<le> sessions_per_key" for k
    using keys len by (cases "k = key") (auto simp: pool_keys_ok_def q intro: order_trans)
  moreover have "distinct (sessions q k)" for k using keys assms(9) by (simp add: pool_keys_ok_def q)
  moreover have "sessions q k \<noteq> [] \<Longrightarrow> k \<in> set (pool_keys q)" for k
    using keys subs[of k] unfolding pool_keys_ok_def q(2) by (metis set_empty subset_empty)
  moreover have "pool_shut q \<Longrightarrow> sessions q k = []" for k
    using keys subs[of k] unfolding pool_keys_ok_def q(3) by (metis set_empty subset_empty)
  moreover have "a \<in> set (sessions q k) \<Longrightarrow> a < tunnels_made q" for a k
    using keys subs[of k] unfolding pool_keys_ok_def q(4) by blast
  moreover have "a \<in> set (sessions q k) \<Longrightarrow> a \<in> set (sessions q k') \<Longrightarrow> k = k'" for a k k'
    using keys subs[of k] subs[of k'] unfolding pool_keys_ok_def by blast
  ultimately have "pool_keys_ok q" unfolding pool_keys_ok_def by blast
  moreover have "no_leak S q" unfolding no_leak_def
  proof (intro allI impI)
    fix a assume a: "a < tunnels_made q" "a \<notin> S" "\<not> tunnel_gone (tunnel_at q a)"
    then obtain k where k: "a \<in> set (sessions p k)"
      using p unfolding pool_ok_but_def no_leak_def by (metis q(4,6))
    with a(3) have "a \<in> set (sessions q k)" using kept by (cases "k = key") (simp_all add: q)
    then show "\<exists>k. a \<in> set (sessions q k)" by blast
  qed
  moreover have "slots_ok q" using p by (simp add: pool_ok_but_def slots_ok_def q)
  ultimately show ?thesis by (simp add: pool_ok_but_def)
qed

lemma active_sessions_ok:
  assumes "active_sessions key p = (active, p1)" and "pool_ok_but S p"
  shows "pool_ok_but S p1" and "sessions p1 key = active" and "tunnel_at p1 = tunnel_at p"
    and "pool_shut p1 = pool_shut p" and "tunnels_made p1 = tunnels_made p"
    and "set active \<subseteq> set (sessions p key)" and "\<forall>a \<in> set active. \<not> tunnel_gone (tunnel_at p a)"
    and "length active \<le> sessions_per_key" and "\<forall>a \<in> set active. a < tunnels_made p"
    and "\<forall>k. set (sessions p1 k) \<subseteq> set (sessions p k)" and "reservations p1 = reservations p"
proof -
  have p1: "p1 = p\<lparr>sessions := (sessions p)(key := active)\<rparr>"
    and act: "active = filter (\<lambda>a. \<not> tunnel_gone (tunnel_at p a)) (sessions p key)"
    using assms(1) by (auto simp: active_sessions_def Let_def)
  show ok: "pool_ok_but S p1"
  proof (rule pool_ok_shrink[OF assms(2), where key = key and ts = active])
    show "distinct active" using assms(2) by (simp add: act pool_ok_but_def pool_keys_ok_def)
  qed (simp_all add: p1 act)
  show "sessions p1 key = active" "tunnel_at p1 = tunnel_at p" "pool_shut p1 = pool_shut p"
    "tunnels_made p1 = tunnels_made p" "reservations p1 = reservations p" by (simp_all add: p1)
  show sub: "set active \<subseteq> set (sessions p key)"
    "\<forall>a \<in> set active. \<not> tunnel_gone (tunnel_at p a)" by (auto simp: act)
  have "length (sessions p1 key) \<le> sessions_per_key" using ok by (simp add: pool_ok_but_def pool_keys_ok_def)
  then show "length active \<le> sessions_per_key" by (simp add: p1)
  show "\<forall>a \<in> set active. a < tunnels_made p"
    using assms(2) sub(1) unfolding pool_ok_but_def pool_keys_ok_def by blast
  show "\<forall>k. set (sessions p1 k) \<subseteq> set (sessions p k)" using sub(1) by (simp add: p1)
qed

lemma slots_held_append [simp]: "slots_held a (rs @ [(b, False)]) = slots_held a rs + (if a = b then 1 else 0)"
  by (simp add: slots_held_def)

lemma slots_held_released:
  assumes "r < length rs" and "rs ! r = (b, False)"
  shows "int (slots_held a (rs[r := (b, True)])) = int (slots_held a rs) - (if a = b then 1 else 0)"
proof -
  have rs: "rs = take r rs @ (b, False) # drop (Suc r) rs"
    using id_take_nth_drop[OF assms(1)] assms(2) by simp
  have "slots_held a rs = slots_held a (take r rs) + (if a = b then 1 else 0) + slots_held a (drop (Suc r) rs)"
    by (subst rs) (simp add: slots_held_def)
  moreover have "slots_held a (rs[r := (b, True)]) = slots_held a (take r rs) + slots_held a (drop (Suc r) rs)"
    using assms(1) by (simp add: upd_conv_take_nth_drop slots_held_def)
  ultimately show ?thesis by simp
qed

lemma reserve_stream_slot_ok:
  assumes "pool_ok_but S p" and "a < tunnels_made p"
  shows "pool_ok_but S (reserve_stream_slot a p)"
proof -
  have "slots_ok (reserve_stream_slot a p)"
    using assms by (simp add: pool_ok_but_def slots_ok_def reserve_stream_slot_def)
  with assms(1) show ?thesis
    by (simp add: pool_ok_but_def pool_keys_ok_def no_leak_def reserve_stream_slot_def)
qed

lemma release_slot_ok:
  assumes "pool_ok p"
  shows "pool_ok (release_slot r p)"
proof (cases "r < length (reservations p) \<and> \<not> snd (reservations p ! r)")
  case True
  then obtain b where r: "r < length (reservations p)" "reservations p ! r = (b, False)"
    by (metis prod.collapse)
  then have b: "b < tunnels_made p" using assms unfolding pool_ok_but_def slots_ok_def by (metis fst_conv nth_mem)
  have "slots_ok (release_slot r p)"
    using assms r b slots_held_released[OF r] set_update_subset_insert[of "reservations p" r "(b, True)"]
    unfolding pool_ok_but_def slots_ok_def by (auto simp: release_slot_def Let_def)
  with assms show ?thesis
    by (simp add: pool_ok_but_def pool_keys_ok_def no_leak_def release_slot_def Let_def)
qed (use assms in \<open>auto simp: release_slot_def\<close>)

lemma reserve_existing_cases:
  assumes "reserve_existing key class p = (found, p1)"
  obtains (shut) "pool_shut p" "found = None" "p1 = p"
  | (none) active q where "active_sessions key p = (active, q)" "found = None" "p1 = q"
  | (some) active q ts where "active_sessions key p = (active, q)" "ts \<noteq> []"
      "ts = acceptable_tunnels (tunnel_at q) class active \<or>
       ts = active \<and> acceptable_tunnels (tunnel_at q) class active = [] \<and> length active \<ge> sessions_per_key"
      "length ts \<ge> sessions_per_key \<or> tls_tcp_load (tunnel_at q (least_loaded_tunnel (tunnel_at q) ts)) < 2"
      "found = Some (least_loaded_tunnel (tunnel_at q) ts)"
      "p1 = reserve_stream_slot (least_loaded_tunnel (tunnel_at q) ts) q"
proof (cases "active_sessions key p")
  case (Pair active q)
  let ?acc = "acceptable_tunnels (tunnel_at q) class active"
  let ?ts = "if ?acc \<noteq> [] then ?acc else active"
  let ?least = "least_loaded_tunnel (tunnel_at q) ?ts"
  note eq = assms[unfolded reserve_existing_def Pair Let_def prod.case]
  consider "pool_shut p"
    | "\<not> pool_shut p" "active = [] \<or> ?acc = [] \<and> length active < sessions_per_key \<or>
        length ?ts < sessions_per_key \<and> target_streams_per_session \<le> tls_tcp_load (tunnel_at q ?least)"
    | "\<not> pool_shut p" "active \<noteq> []" "\<not> (?acc = [] \<and> length active < sessions_per_key)"
        "\<not> (length ?ts < sessions_per_key \<and> target_streams_per_session \<le> tls_tcp_load (tunnel_at q ?least))"
    by blast
  then show ?thesis
  proof cases
    case 1
    with eq have "(None, p) = (found, p1)" by (simp only: if_True)
    with 1 show ?thesis by (intro shut) simp_all
  next
    case 2
    with eq have "(None, q) = (found, p1)" by (simp only: if_False) (metis (no_types, lifting))
    then show ?thesis by (intro none[OF Pair]) simp_all
  next
    case 3
    with eq have r: "(Some ?least, reserve_stream_slot ?least q) = (found, p1)"
      by (simp only: if_False simp_thms)
    show ?thesis
    proof (rule some[OF Pair])
      show "?ts \<noteq> []" using 3(2) by simp
      show "?ts = ?acc \<or> ?ts = active \<and> ?acc = [] \<and> length active \<ge> sessions_per_key"
        using 3(3) by (simp add: not_less)
      show "length ?ts \<ge> sessions_per_key \<or> tls_tcp_load (tunnel_at q ?least) < 2"
        using 3(4) unfolding target_streams_per_session_def by linarith
    qed (use r in simp_all)
  qed
qed

lemma reserve_existing_ok:
  assumes "reserve_existing key class p = (found, p1)" and ok: "pool_ok p"
  shows "pool_ok p1"
  using assms(1)
proof (cases rule: reserve_existing_cases)
  case (some active q ts)
  note q = active_sessions_ok[OF some(1) ok]
  have "set ts \<subseteq> set active" using some(3) acceptable_subset by blast
  then have "least_loaded_tunnel (tunnel_at q) ts < tunnels_made q"
    using least_loaded_tunnel_best[OF some(2), of "tunnel_at q"] q(5,9) by auto
  then show ?thesis unfolding some(6) by (rule reserve_stream_slot_ok[OF q(1)])
qed (use ok active_sessions_ok in \<open>auto\<close>)

lemma close_pool_tunnel_fields [simp]:
  "sessions (close_pool_tunnel a p) = sessions p" "pool_keys (close_pool_tunnel a p) = pool_keys p"
  "pool_shut (close_pool_tunnel a p) = pool_shut p" "tunnels_made (close_pool_tunnel a p) = tunnels_made p"
  "reservations (close_pool_tunnel a p) = reservations p"
  "tunnel_gone (tunnel_at (close_pool_tunnel a p) b) \<longleftrightarrow> a = b \<or> tunnel_gone (tunnel_at p b)"
  "pending_streams (tunnel_at (close_pool_tunnel a p) b) = pending_streams (tunnel_at p b)"
  by (simp_all add: close_pool_tunnel_def)

lemma close_pool_tunnel_ok: "pool_ok_but S p \<Longrightarrow> pool_ok_but (S - {a}) (close_pool_tunnel a p)"
  by (rule pool_ok_frame[where S = S]) auto

lemma pool_ok_but_mono: "pool_ok_but S p \<Longrightarrow> S \<subseteq> T \<Longrightarrow> pool_ok_but T p"
  unfolding pool_ok_but_def no_leak_def by blast

lemma new_pool_tunnel_ok:
  assumes "pool_ok p"
  shows "pool_ok_but {tunnels_made p} (new_pool_tunnel gone p)"
    and "\<And>key. tunnels_made p \<notin> set (sessions (new_pool_tunnel gone p) key)"
    and "tunnels_made p < tunnels_made (new_pool_tunnel gone p)"
proof -
  have "slots_held (tunnels_made p) (reservations p) = 0"
    using assms by (fastforce simp: slots_held_def pool_ok_but_def slots_ok_def filter_empty_conv)
  with assms have "slots_ok (new_pool_tunnel gone p)"
    by (auto simp: pool_ok_but_def slots_ok_def new_pool_tunnel_def change_tunnel_def less_Suc_eq)
  moreover have "pool_keys_ok (new_pool_tunnel gone p)"
    using assms unfolding pool_ok_but_def pool_keys_ok_def new_pool_tunnel_def change_tunnel_def
    by (simp add: less_Suc_eq)
  moreover have "no_leak {tunnels_made p} (new_pool_tunnel gone p)"
    using assms by (simp add: pool_ok_but_def no_leak_def new_pool_tunnel_def change_tunnel_def less_Suc_eq)
  ultimately show "pool_ok_but {tunnels_made p} (new_pool_tunnel gone p)" by (simp add: pool_ok_but_def)
  show "tunnels_made p \<notin> set (sessions (new_pool_tunnel gone p) key)" for key
    using assms by (auto simp: pool_ok_but_def pool_keys_ok_def new_pool_tunnel_def change_tunnel_def)
  show "tunnels_made p < tunnels_made (new_pool_tunnel gone p)"
    by (simp add: new_pool_tunnel_def change_tunnel_def)
qed

text \<open>Storing a tunnel under a key that has room.\<close>

definition stored_tunnel :: "string \<Rightarrow> nat \<Rightarrow> session_pool \<Rightarrow> session_pool" where
  "stored_tunnel key a p =
     p\<lparr>sessions := (sessions p)(key := sessions p key @ [a]), pool_keys := List.insert key (pool_keys p)\<rparr>"

lemma stored_tunnel_ok:
  assumes "pool_ok_but {a} p" and "a < tunnels_made p" and fresh: "\<And>k. a \<notin> set (sessions p k)"
    and "length (sessions p key) < sessions_per_key" and "\<not> pool_shut p"
  shows "pool_ok (stored_tunnel key a p)"
proof -
  let ?q = "stored_tunnel key a p"
  have s: "sessions ?q k = (if k = key then sessions p key @ [a] else sessions p k)" for k
    by (simp add: stored_tunnel_def)
  have rest: "tunnels_made ?q = tunnels_made p" "pool_shut ?q = pool_shut p" "tunnel_at ?q = tunnel_at p"
    "reservations ?q = reservations p" "set (pool_keys ?q) = insert key (set (pool_keys p))"
    by (simp_all add: stored_tunnel_def)
  from assms(1) have keys: "pool_keys_ok p" by (simp add: pool_ok_but_def)
  have "length (sessions ?q k) \<le> sessions_per_key" for k
    using keys assms(4) by (simp add: s pool_keys_ok_def)
  moreover have "distinct (sessions ?q k)" for k
    using keys fresh by (simp add: s pool_keys_ok_def)
  moreover have "sessions ?q k \<noteq> [] \<Longrightarrow> k \<in> set (pool_keys ?q)" for k
    using keys by (cases "k = key") (simp_all add: s rest pool_keys_ok_def)
  moreover have "b \<in> set (sessions ?q k) \<Longrightarrow> b < tunnels_made ?q" for b k
    using keys assms(2) by (cases "k = key") (auto simp: s rest pool_keys_ok_def)
  moreover have "b \<in> set (sessions ?q k) \<Longrightarrow> b \<in> set (sessions ?q k') \<Longrightarrow> k = k'" for b k k'
  proof -
    assume "b \<in> set (sessions ?q k)" "b \<in> set (sessions ?q k')"
    then have "(b = a \<and> k = key \<or> b \<in> set (sessions p k)) \<and> (b = a \<and> k' = key \<or> b \<in> set (sessions p k'))"
      by (auto simp: s split: if_splits)
    moreover have "b \<in> set (sessions p k) \<Longrightarrow> b \<in> set (sessions p k') \<Longrightarrow> k = k'"
      using keys unfolding pool_keys_ok_def by blast
    ultimately show ?thesis using fresh by blast
  qed
  ultimately have "pool_keys_ok ?q" unfolding pool_keys_ok_def using assms(5) rest(2) by blast
  moreover have "no_leak {} ?q" unfolding no_leak_def rest
  proof (intro allI impI)
    fix b assume b: "b < tunnels_made p" "b \<notin> {}" "\<not> tunnel_gone (tunnel_at p b)"
    show "\<exists>k. b \<in> set (sessions ?q k)"
    proof (cases "b = a")
      case True
      then have "b \<in> set (sessions ?q key)" by (simp add: s)
      then show ?thesis by blast
    next
      case False
      with assms(1) b obtain k where "b \<in> set (sessions p k)" unfolding pool_ok_but_def no_leak_def by blast
      then have "b \<in> set (sessions ?q k)" by (cases "k = key") (simp_all add: s)
      then show ?thesis by blast
    qed
  qed
  moreover have "slots_ok ?q" using assms(1) by (simp add: pool_ok_but_def slots_ok_def rest)
  ultimately show ?thesis by (simp add: pool_ok_but_def)
qed

lemma store_or_reserve_cases:
  assumes "store_or_reserve key class tunnel p = (found, p1)"
  obtains (shut) "pool_shut p" "found = None" "p1 = p"
  | (full) active q ts where "\<not> pool_shut p" "active_sessions key p = (active, q)" "ts \<noteq> []"
      "length active \<ge> sessions_per_key"
      "ts = acceptable_tunnels (tunnel_at q) class active \<or>
       ts = active \<and> acceptable_tunnels (tunnel_at q) class active = []"
      "found = Some (least_loaded_tunnel (tunnel_at q) ts)"
      "p1 = reserve_stream_slot (least_loaded_tunnel (tunnel_at q) ts) q"
  | (room) active q where "\<not> pool_shut p" "active_sessions key p = (active, q)" "length active < sessions_per_key"
      "found = Some tunnel" "p1 = reserve_stream_slot tunnel (stored_tunnel key tunnel q)"
proof (cases "active_sessions key p")
  case (Pair active q)
  let ?acc = "acceptable_tunnels (tunnel_at q) class active"
  let ?ts = "if ?acc \<noteq> [] then ?acc else active"
  let ?least = "least_loaded_tunnel (tunnel_at q) ?ts"
  have q: "sessions q key = active" using Pair by (auto simp: active_sessions_def Let_def)
  note eq = assms[unfolded store_or_reserve_def Pair Let_def prod.case]
  consider "pool_shut p" | "\<not> pool_shut p" "sessions_per_key \<le> length active"
    | "\<not> pool_shut p" "\<not> sessions_per_key \<le> length active" by blast
  then show ?thesis
  proof cases
    case 1
    with eq have "(None, p) = (found, p1)" by (simp only: if_True)
    with 1 show ?thesis by (intro shut) simp_all
  next
    case 2
    with eq have r: "(Some ?least, reserve_stream_slot ?least q) = (found, p1)"
      by (simp only: if_False if_True simp_thms)
    show ?thesis
    proof (rule full[OF 2(1) Pair])
      show "?ts \<noteq> []" using 2(2) by (auto simp: sessions_per_key_def)
      show "?ts = ?acc \<or> ?ts = active \<and> ?acc = []" by simp
    qed (use r 2(2) in simp_all)
  next
    case 3
    with eq have "(Some tunnel, reserve_stream_slot tunnel (q\<lparr>sessions := (sessions q)(key := active @ [tunnel]),
        pool_keys := List.insert key (pool_keys q)\<rparr>)) = (found, p1)"
      by (simp only: if_False simp_thms)
    with 3 q show ?thesis by (intro room[OF 3(1) Pair]) (simp_all add: stored_tunnel_def)
  qed
qed

lemma store_or_reserve_ok:
  assumes "store_or_reserve key class a p = (found, p1)" and ok: "pool_ok_but {a} p"
    and a: "a < tunnels_made p" "\<And>k. a \<notin> set (sessions p k)"
  shows "pool_ok_but (if found = Some a then {} else {a}) p1 \<and> (found = None \<longrightarrow> pool_shut p1)"
  using assms(1)
proof (cases rule: store_or_reserve_cases)
  case shut
  with ok show ?thesis by simp
next
  case (full active q ts)
  note q = active_sessions_ok[OF full(2) ok]
  have sub: "set ts \<subseteq> set active" using full(5) acceptable_subset by blast
  have "least_loaded_tunnel (tunnel_at q) ts \<in> set active"
    using least_loaded_tunnel_best[OF full(3), of "tunnel_at q"] sub by blast
  then have l: "least_loaded_tunnel (tunnel_at q) ts < tunnels_made q" "least_loaded_tunnel (tunnel_at q) ts \<noteq> a"
    using q(5,6,9) a(2) by auto
  show ?thesis using full(6,7) l(2) reserve_stream_slot_ok[OF q(1) l(1)] by simp
next
  case (room active q)
  note q = active_sessions_ok[OF room(2) ok]
  have "pool_ok (stored_tunnel key a q)"
    using q(1,2,4,5,10) a room(1,3) by (intro stored_tunnel_ok) auto
  moreover have "a < tunnels_made (stored_tunnel key a q)" using a(1) q(5) by (simp add: stored_tunnel_def)
  ultimately have r: "pool_ok p1" unfolding room(5) by (rule reserve_stream_slot_ok)
  with room(4) show ?thesis by simp
qed

lemma get_or_dial_end_ok:
  assumes "get_or_dial_end key class (Inr a) p = (r, p1)" and ok: "pool_ok_but {a} p"
    and a: "a < tunnels_made p" "\<And>k. a \<notin> set (sessions p k)"
  shows "pool_ok p1 \<and> r \<noteq> Inl Admission_rejected"
proof -
  obtain found q where s: "store_or_reserve key class a p = (found, q)"
    by (cases "store_or_reserve key class a p")
  note so = store_or_reserve_ok[OF s ok a]
  show ?thesis
  proof (cases found)
    case None
    then have "pool_ok_but {a} q" "pool_shut q" using so by simp_all
    with close_pool_tunnel_ok[of "{a}" q a] show ?thesis
      using assms(1) None by (auto simp: get_or_dial_end_def s Let_def split: if_splits)
  next
    case (Some b)
    show ?thesis
    proof (cases "b = a")
      case False
      then have "pool_ok_but {a} q" using so(1) Some by simp
      with close_pool_tunnel_ok[of "{a}" q a] show ?thesis
        using assms(1) Some False by (auto simp: get_or_dial_end_def s)
    qed (use so(1) Some assms(1) in \<open>auto simp: get_or_dial_end_def s\<close>)
  qed
qed

lemma remove_tunnel_ok:
  assumes "pool_ok p" and "tunnel_gone (tunnel_at p a)"
  shows "pool_ok (remove_tunnel key a p)"
proof (rule pool_ok_shrink[OF assms(1)])
  have d: "distinct (sessions p key)" using assms(1) by (simp add: pool_ok_but_def pool_keys_ok_def)
  then show "distinct (remove1 a (sessions p key))" by simp
  show "set (remove1 a (sessions p key)) \<subseteq> set (sessions p key)" by (rule set_remove1_subset)
  show "length (remove1 a (sessions p key)) \<le> length (sessions p key)" by (simp add: length_remove1)
  show "b \<in> set (remove1 a (sessions p key))"
    if "b \<in> set (sessions p key)" "\<not> tunnel_gone (tunnel_at p b)" for b
    using that assms(2) d by (cases "b = a") auto
qed (simp_all add: remove_tunnel_def)

lemma close_all_fields:
  "sessions (fold close_pool_tunnel ts p) = sessions p" "pool_keys (fold close_pool_tunnel ts p) = pool_keys p"
  "pool_shut (fold close_pool_tunnel ts p) = pool_shut p"
  "tunnels_made (fold close_pool_tunnel ts p) = tunnels_made p"
  "reservations (fold close_pool_tunnel ts p) = reservations p"
  "tunnel_gone (tunnel_at (fold close_pool_tunnel ts p) b) \<longleftrightarrow> b \<in> set ts \<or> tunnel_gone (tunnel_at p b)"
  "pending_streams (tunnel_at (fold close_pool_tunnel ts p) b) = pending_streams (tunnel_at p b)"
  by (induction ts arbitrary: p) auto

lemma close_pool_fields:
  "sessions (close_pool p) = (\<lambda>_. [])" "pool_shut (close_pool p)" "pool_keys (close_pool p) = pool_keys p"
  "tunnels_made (close_pool p) = tunnels_made p" "reservations (close_pool p) = reservations p"
  "tunnel_gone (tunnel_at (close_pool p) a) \<longleftrightarrow>
     (\<exists>key \<in> set (pool_keys p). a \<in> set (sessions p key)) \<or> tunnel_gone (tunnel_at p a)"
  "pending_streams (tunnel_at (close_pool p) a) = pending_streams (tunnel_at p a)"
  by (auto simp: close_pool_def close_all_fields)

lemma close_pool_ok:
  assumes "pool_ok p"
  shows "pool_ok (close_pool p)"
proof -
  have "tunnel_gone (tunnel_at (close_pool p) a)" if a: "a < tunnels_made p" for a
  proof (cases "tunnel_gone (tunnel_at p a)")
    case False
    with assms a obtain key where key: "a \<in> set (sessions p key)" unfolding pool_ok_but_def no_leak_def by blast
    then have "sessions p key \<noteq> []" by auto
    with assms have "key \<in> set (pool_keys p)" by (simp add: pool_ok_but_def pool_keys_ok_def)
    with key show ?thesis by (auto simp: close_pool_fields)
  qed (simp add: close_pool_fields)
  then have "no_leak {} (close_pool p)" by (simp add: no_leak_def close_pool_fields)
  moreover have "slots_ok (close_pool p)" using assms by (simp add: pool_ok_but_def slots_ok_def close_pool_fields)
  moreover have "pool_keys_ok (close_pool p)" by (simp add: pool_keys_ok_def close_pool_fields)
  ultimately show ?thesis by (simp add: pool_ok_but_def)
qed

lemma change_tunnel_ok:
  assumes "pool_ok p" and "\<And>t. tunnel_gone (f t) = tunnel_gone t" and "\<And>t. pending_streams (f t) = pending_streams t"
  shows "pool_ok (change_tunnel a f p)"
  by (rule pool_ok_frame[OF assms(1)]) (auto simp: change_tunnel_def assms(2,3) split: if_splits)

definition run_ok :: "pool_run \<Rightarrow> bool" where
  "run_ok s \<longleftrightarrow> pool_ok (the_pool s) \<and> Inl Admission_rejected \<notin> set (log s)"

lemma log_answer_ok:
  "pool_ok p \<Longrightarrow> x \<noteq> Inl Admission_rejected \<Longrightarrow> run_ok s \<Longrightarrow> run_ok (log_answer (x, p) s)"
  by (auto simp: run_ok_def log_answer_def)

lemma get_or_dial_begin_ok:
  assumes "get_or_dial_begin key class p = (r, p1)" and "pool_ok p"
  shows "pool_ok p1 \<and> r \<noteq> Inl Admission_rejected"
  using assms reserve_existing_ok[of key "class" p] by (auto simp: get_or_dial_begin_def split: if_splits prod.splits)

lemma run_ok_step:
  assumes "pool_step ev s = Some s'" and "run_ok s"
  shows "run_ok s'"
proof -
  from assms(2) have p: "pool_ok (the_pool s)" by (simp add: run_ok_def)
  have upd: "run_ok (s\<lparr>the_pool := q\<rparr>)" if "pool_ok q" for q
    using that assms(2) by (simp add: run_ok_def)
  show ?thesis
  proof (cases ev)
    case (Gets key "class")
    obtain r q where r: "get_or_dial_begin key class (the_pool s) = (r, q)"
      by (cases "get_or_dial_begin key class (the_pool s)")
    with get_or_dial_begin_ok[OF r p] assms(1) Gets upd log_answer_ok[OF _ _ assms(2)]
    show ?thesis by (auto simp: pool_step_def Let_def split: sum.splits option.splits)
  next
    case (Dialed key "class" d)
    show ?thesis
    proof (cases d)
      case (Inl e)
      with assms(1) Dialed log_answer_ok[OF p _ assms(2)] show ?thesis
        by (auto simp: pool_step_def get_or_dial_end_def)
    next
      case (Inr gone)
      obtain r q where r: "get_or_dial_end key class (Inr (tunnels_made (the_pool s)))
          (new_pool_tunnel gone (the_pool s)) = (r, q)" by fastforce
      from get_or_dial_end_ok[OF r new_pool_tunnel_ok(1)[OF p] new_pool_tunnel_ok(3)[OF p]
          new_pool_tunnel_ok(2)[OF p]]
      have "pool_ok q" "r \<noteq> Inl Admission_rejected" by simp_all
      with log_answer_ok[OF _ _ assms(2)] have "run_ok (log_answer (r, q) s)" by blast
      with assms(1) Dialed Inr r show ?thesis by (simp add: pool_step_def)
    qed
  next
    case (Removes key a)
    with assms(1) have "tunnel_gone (tunnel_at (the_pool s) a)"
      "s' = s\<lparr>the_pool := remove_tunnel key a (the_pool s)\<rparr>"
      by (auto simp: pool_step_def Let_def split: if_splits)
    with upd[OF remove_tunnel_ok[OF p]] show ?thesis by simp
  next
    case (Goes a)
    with assms(1) upd[OF close_pool_tunnel_ok[OF p, of a, simplified]] show ?thesis by (simp add: pool_step_def)
  next
    case (Releases r)
    with assms(1) upd[OF release_slot_ok[OF p]] show ?thesis by (auto simp: pool_step_def)
  next
    case Shuts
    with assms(1) upd[OF close_pool_ok[OF p]] show ?thesis by (auto simp: pool_step_def)
  qed (use assms(1) upd change_tunnel_ok[OF p] in \<open>auto simp: pool_step_def\<close>)
qed

lemma run_ok_start: "run_ok pool_start"
  by (simp add: run_ok_def pool_start_def new_session_pool_ok)

subsection \<open>The choice of a tunnel\<close>

text \<open>
  A call that gets a tunnel without dialing gets an open one of its key with the least load among
  those that admit its class, or among all when the key has its four tunnels and none admits it.
\<close>

lemma reserve_existing_choice:
  assumes "reserve_existing key class p = (Some a, p1)"
  shows "a \<in> set (sessions p key) \<and> \<not> tunnel_gone (tunnel_at p a) \<and>
    (\<forall>b \<in> set (sessions p key). \<not> tunnel_gone (tunnel_at p b) \<longrightarrow>
       can_accept_traffic_class class (tunnel_at p b) \<longrightarrow>
       can_accept_traffic_class class (tunnel_at p a) \<and> tls_tcp_load (tunnel_at p a) \<le> tls_tcp_load (tunnel_at p b)) \<and>
    pending_streams (tunnel_at p1 a) = pending_streams (tunnel_at p a) + 1"
  using assms
proof (cases rule: reserve_existing_cases)
  case (some active q ts)
  from some(1) have q: "tunnel_at q = tunnel_at p"
    and act: "active = filter (\<lambda>a. \<not> tunnel_gone (tunnel_at p a)) (sessions p key)"
    by (auto simp: active_sessions_def Let_def)
  let ?acc = "acceptable_tunnels (tunnel_at p) class active"
  have a: "a = least_loaded_tunnel (tunnel_at p) ts" using some(5) q by simp
  have best: "a \<in> set ts" "\<forall>b \<in> set ts. tls_tcp_load (tunnel_at p a) \<le> tls_tcp_load (tunnel_at p b)"
    using least_loaded_tunnel_best[OF some(2), of "tunnel_at p"] a by blast+
  have sub: "set ts \<subseteq> set active" using some(3) acceptable_subset[of "tunnel_at q" "class" active] by blast
  have acc: "b \<in> set ?acc" if "b \<in> set active" "can_accept_traffic_class class (tunnel_at p b)" for b
    using that by (auto simp: acceptable_tunnels_def)
  have main: "can_accept_traffic_class class (tunnel_at p a) \<and> tls_tcp_load (tunnel_at p a) \<le> tls_tcp_load (tunnel_at p b)"
    if "b \<in> set active" "can_accept_traffic_class class (tunnel_at p b)" for b
  proof -
    from acc[OF that] have "?acc \<noteq> []" by auto
    with some(3) q have ts: "ts = ?acc" by auto
    with acc[OF that] best acceptable_accept[of a "tunnel_at p" "class" active] show ?thesis by simp
  qed
  have "pending_streams (tunnel_at p1 a) = pending_streams (tunnel_at p a) + 1"
    using some(5,6) q by (simp add: reserve_stream_slot_def)
  moreover have "a \<in> set active" using best(1) sub by blast
  ultimately show ?thesis using main unfolding act by auto
qed simp_all

text \<open>
  With four open tunnels of which one to three admit the class, all of them with two streams or
  more, a call dials a tunnel that it then has to close again.
\<close>

lemma dial_in_vain:
  assumes "\<not> pool_shut p" and "active_sessions key p = (active, q)" and "length active = sessions_per_key"
    and "ts = acceptable_tunnels (tunnel_at q) class active" and "ts \<noteq> []" and "length ts < sessions_per_key"
    and "2 \<le> tls_tcp_load (tunnel_at q (least_loaded_tunnel (tunnel_at q) ts))"
  shows "fst (reserve_existing key class p) = None \<and>
    fst (store_or_reserve key class a p) = Some (least_loaded_tunnel (tunnel_at q) ts)"
proof -
  have "active \<noteq> []" using assms(3) by (auto simp: sessions_per_key_def)
  with assms show ?thesis
    by (simp add: reserve_existing_def store_or_reserve_def Let_def target_streams_per_session_def)
qed

lemma closed_pool_empty:
  assumes "pool_ok p" and "pool_shut p" and "a < tunnels_made p"
  shows "tunnel_gone (tunnel_at p a)"
  using assms unfolding pool_ok_but_def no_leak_def pool_keys_ok_def by (metis empty_iff list.set(1))

lemma pool_shut_step:
  assumes "pool_step ev s = Some s'"
  shows "pool_shut (the_pool s') \<longleftrightarrow> pool_shut (the_pool s) \<or> ev = Shuts"
proof -
  have act: "pool_shut q = pool_shut p" if "active_sessions key p = (active, q)" for key p active q
    using that by (auto simp: active_sessions_def Let_def)
  have res: "pool_shut q = pool_shut p" if "reserve_existing key class p = (r, q)" for key "class" p r q
    using that by (cases rule: reserve_existing_cases) (auto dest: act simp: reserve_stream_slot_def)
  have store: "pool_shut q = pool_shut p" if "store_or_reserve key class a p = (r, q)" for key "class" a p r q
    using that by (cases rule: store_or_reserve_cases)
      (auto dest: act simp: reserve_stream_slot_def stored_tunnel_def)
  have dial: "pool_shut q = pool_shut p" if "get_or_dial_end key class d p = (r, q)" for key "class" d p r q
    using that by (auto simp: get_or_dial_end_def Let_def split: sum.splits prod.splits option.splits if_splits
        dest: store)
  show ?thesis
  proof (cases ev)
    case (Gets key "class")
    obtain r q where r: "get_or_dial_begin key class (the_pool s) = (r, q)"
      by (cases "get_or_dial_begin key class (the_pool s)")
    then have "pool_shut q = pool_shut (the_pool s)"
      by (auto simp: get_or_dial_begin_def split: if_splits prod.splits dest: res)
    with assms Gets r show ?thesis
      by (auto simp: pool_step_def Let_def log_answer_def split: sum.splits option.splits)
  next
    case (Dialed key "class" d)
    with assms show ?thesis
      by (cases d) (auto simp: pool_step_def Let_def log_answer_def new_pool_tunnel_def change_tunnel_def
          dial[OF prod.collapse[symmetric]])
  qed (use assms in \<open>auto simp: pool_step_def Let_def remove_tunnel_def release_slot_def change_tunnel_def close_pool_fields
        split: if_splits\<close>)
qed

definition tunnel_live :: "pool_run \<Rightarrow> nat \<Rightarrow> bool" where
  "tunnel_live s a \<longleftrightarrow>
     a < tunnels_made (the_pool s) \<and> \<not> tunnel_gone (tunnel_at (the_pool s) a)"

interpretation tls_fence: fenced_pool pool_step run_ok "\<lambda>s. pool_shut (the_pool s)" Shuts tunnel_live
proof
  show "\<not> tunnel_live s a" if "run_ok s" "pool_shut (the_pool s)" for s a
    using that closed_pool_empty[of "the_pool s" a] by (auto simp: tunnel_live_def run_ok_def)
qed (use run_ok_step pool_shut_step in blast)+

end
