(* ===== verification/RelayScopes.thy ===== *)
theory RelayScopes
  imports RelayPool
begin

text \<open>
  The pool of QUIC connections (\<open>session_pool.go\<close>), and the pool scopes that the relay servers of one
  generation share (\<open>generation_pool.go\<close>, \<open>fenceOutboundPoolScope\<close> and \<open>Close\<close> of \<open>runtime.go\<close>,
  \<open>refreshTunnelSessions\<close> of \<open>module.go\<close>). Both pools keep the contract \<open>fenced_pool\<close> of
  \<open>RelayPool\<close>: a closed pool never holds an open connection again.
\<close>

subsection \<open>The pool of QUIC connections\<close>

text \<open>
  Connections are addresses; \<open>quic_keys\<close> lists the keys that have been stored.
\<close>

record quic_pool =
  quic_sessions :: "string \<Rightarrow> nat option"
  quic_keys :: "string list"
  quic_shut :: bool
  quic_gone :: "nat \<Rightarrow> bool"
  quic_made :: nat

definition new_quic_pool :: quic_pool where
  "new_quic_pool =
     \<lparr>quic_sessions = (\<lambda>_. None), quic_keys = [], quic_shut = False, quic_gone = (\<lambda>_. False), quic_made = 0\<rparr>"

definition quic_get :: "string \<Rightarrow> quic_pool \<Rightarrow> nat option \<times> quic_pool" where
  "quic_get key p =
     (if quic_shut p then (None, p)
      else case quic_sessions p key of
             None \<Rightarrow> (None, p)
           | Some c \<Rightarrow>
               if quic_gone p c then (None, p\<lparr>quic_sessions := (quic_sessions p)(key := None)\<rparr>)
               else (Some c, p))"

definition quic_end :: "nat \<Rightarrow> quic_pool \<Rightarrow> quic_pool" where
  "quic_end c p = p\<lparr>quic_gone := (quic_gone p)(c := True)\<rparr>"

definition quic_store :: "string \<Rightarrow> nat \<Rightarrow> quic_pool \<Rightarrow> nat option \<times> quic_pool" where
  "quic_store key c p =
     (if quic_shut p then (None, quic_end c p)
      else case quic_sessions p key of
             Some old \<Rightarrow>
               if \<not> quic_gone p old then (Some old, quic_end c p)
               else (Some c, p\<lparr>quic_sessions := (quic_sessions p)(key \<mapsto> c)\<rparr>)
           | None \<Rightarrow>
               (Some c, p\<lparr>quic_sessions := (quic_sessions p)(key \<mapsto> c), quic_keys := List.insert key (quic_keys p)\<rparr>))"

definition quic_remove :: "string \<Rightarrow> nat \<Rightarrow> quic_pool \<Rightarrow> quic_pool" where
  "quic_remove key c p =
     (if quic_sessions p key = Some c then p\<lparr>quic_sessions := (quic_sessions p)(key := None)\<rparr> else p)"

definition quic_close :: "quic_pool \<Rightarrow> quic_pool" where
  "quic_close p =
     p\<lparr>quic_sessions := (\<lambda>_. None), quic_shut := True,
       quic_gone := (\<lambda>c. quic_gone p c \<or> list_ex (\<lambda>key. quic_sessions p key = Some c) (quic_keys p))\<rparr>"

definition quic_get_or_dial_begin :: "string \<Rightarrow> quic_pool \<Rightarrow> (pool_error + nat option) \<times> quic_pool" where
  "quic_get_or_dial_begin key p =
     (case quic_get key p of
        (Some c, p1) \<Rightarrow> (Inr (Some c), p1)
      | (None, p1) \<Rightarrow> if quic_shut p1 then (Inl Pool_closed, p1) else (Inr None, p1))"

definition quic_get_or_dial_end :: "string \<Rightarrow> io_error + nat \<Rightarrow> quic_pool \<Rightarrow> (pool_error + nat) \<times> quic_pool" where
  "quic_get_or_dial_end key dialed p =
     (case dialed of
        Inl e \<Rightarrow> (Inl (Dial_failed e), p)
      | Inr c \<Rightarrow>
          (case quic_store key c p of
             (None, p1) \<Rightarrow> (Inl Pool_closed, p1)
           | (Some stored, p1) \<Rightarrow> (Inr stored, p1)))"

datatype quic_event =
    Quic_gets string
  | Quic_dialed string "io_error + bool"
  | Quic_removes string nat
  | Quic_goes nat
  | Quic_shuts

definition new_quic_conn :: "bool \<Rightarrow> quic_pool \<Rightarrow> quic_pool" where
  "new_quic_conn gone p =
     p\<lparr>quic_made := Suc (quic_made p), quic_gone := (quic_gone p)(quic_made p := gone)\<rparr>"

definition quic_step :: "quic_event \<Rightarrow> quic_pool \<Rightarrow> quic_pool option" where
  "quic_step ev p =
     (case ev of
        Quic_gets key \<Rightarrow> Some (snd (quic_get_or_dial_begin key p))
      | Quic_dialed key (Inl e) \<Rightarrow> Some (snd (quic_get_or_dial_end key (Inl e) p))
      | Quic_dialed key (Inr gone) \<Rightarrow>
          Some (snd (quic_get_or_dial_end key (Inr (quic_made p)) (new_quic_conn gone p)))
      | Quic_removes key c \<Rightarrow> if quic_gone p c then Some (quic_remove key c p) else None
      | Quic_goes c \<Rightarrow> Some (quic_end c p)
      | Quic_shuts \<Rightarrow> Some (quic_close p))"

definition quic_ok :: "quic_pool \<Rightarrow> bool" where
  "quic_ok p \<longleftrightarrow>
     (\<forall>c < quic_made p. \<not> quic_gone p c \<longrightarrow> (\<exists>key. quic_sessions p key = Some c)) \<and>
     (\<forall>key c. quic_sessions p key = Some c \<longrightarrow> c < quic_made p \<and> key \<in> set (quic_keys p)) \<and>
     (quic_shut p \<longrightarrow> quic_sessions p = (\<lambda>_. None))"

definition quic_live :: "quic_pool \<Rightarrow> nat \<Rightarrow> bool" where
  "quic_live p c \<longleftrightarrow> c < quic_made p \<and> \<not> quic_gone p c"

lemma quic_get_ok: "quic_get key p = (r, q) \<Longrightarrow> quic_ok p \<Longrightarrow> quic_ok q \<and> quic_shut q = quic_shut p"
  unfolding quic_get_def quic_ok_def
  by (auto split: if_splits option.splits) (metis option.inject)+

lemma quic_end_ok: "quic_ok p \<Longrightarrow> quic_ok (quic_end c p) \<and> quic_shut (quic_end c p) = quic_shut p"
  by (simp add: quic_ok_def quic_end_def)

lemma quic_dialed_ok:
  assumes "quic_ok p"
  shows "quic_ok (snd (quic_get_or_dial_end key (Inr (quic_made p)) (new_quic_conn gone p))) \<and>
    quic_shut (snd (quic_get_or_dial_end key (Inr (quic_made p)) (new_quic_conn gone p))) = quic_shut p"
proof -
  let ?q = "new_quic_conn gone p" and ?c = "quic_made p"
  have fresh: "quic_sessions ?q k \<noteq> Some ?c" for k
    using assms by (auto simp: quic_ok_def new_quic_conn_def)
  have others: "\<exists>k. quic_sessions ?q k = Some d" if "d < quic_made ?q" "d \<noteq> ?c" "\<not> quic_gone ?q d" for d
    using that assms by (auto simp: quic_ok_def new_quic_conn_def less_Suc_eq)
  have keys: "quic_sessions ?q k = Some d \<Longrightarrow> d < quic_made ?q \<and> k \<in> set (quic_keys ?q)" for k d
    using assms by (auto simp: quic_ok_def new_quic_conn_def less_Suc_eq)
  have shut: "quic_shut ?q \<Longrightarrow> quic_sessions ?q = (\<lambda>_. None)" "quic_shut ?q = quic_shut p" "?c < quic_made ?q"
    using assms by (auto simp: quic_ok_def new_quic_conn_def)
  have dropped: "quic_ok (quic_end ?c ?q) \<and> quic_shut (quic_end ?c ?q) = quic_shut p"
    using others keys shut unfolding quic_ok_def by (auto simp: quic_end_def)
  have stored: "quic_ok q \<and> quic_shut q = quic_shut p"
    if q: "quic_sessions q = (quic_sessions ?q)(key \<mapsto> ?c)" "set (quic_keys q) = insert key (set (quic_keys ?q))"
      "quic_shut q = quic_shut ?q" "quic_gone q = quic_gone ?q" "quic_made q = quic_made ?q"
      and room: "\<not> quic_shut ?q" "\<And>d. quic_sessions ?q key = Some d \<Longrightarrow> quic_gone ?q d" for q
  proof -
    have "\<exists>k. quic_sessions q k = Some d" if d: "d < quic_made q" "\<not> quic_gone q d" for d
    proof (cases "d = ?c")
      case True
      then have "quic_sessions q key = Some d" by (simp add: q)
      then show ?thesis by blast
    next
      case False
      with d others q obtain k where k: "quic_sessions ?q k = Some d" by auto
      with room(2) d q have "k \<noteq> key" by auto
      with k have "quic_sessions q k = Some d" by (simp add: q)
      then show ?thesis by blast
    qed
    then show ?thesis using keys shut room(1) q unfolding quic_ok_def by (auto split: if_splits)
  qed
  show ?thesis
  proof (cases "quic_shut ?q \<or> (\<exists>old. quic_sessions ?q key = Some old \<and> \<not> quic_gone ?q old)")
    case True
    then have "snd (quic_get_or_dial_end key (Inr ?c) ?q) = quic_end ?c ?q"
      by (auto simp: quic_get_or_dial_end_def quic_store_def)
    with dropped show ?thesis by simp
  next
    case False
    then have "snd (quic_get_or_dial_end key (Inr ?c) ?q) = snd (quic_store key ?c ?q)"
      by (auto simp: quic_get_or_dial_end_def quic_store_def split: option.splits)
    moreover have "quic_ok (snd (quic_store key ?c ?q)) \<and> quic_shut (snd (quic_store key ?c ?q)) = quic_shut p"
    proof (rule stored)
      show "set (quic_keys (snd (quic_store key ?c ?q))) = insert key (set (quic_keys ?q))"
        using False keys by (auto simp: quic_store_def split: option.splits)
    qed (use False in \<open>auto simp: quic_store_def split: option.splits\<close>)
    ultimately show ?thesis by simp
  qed
qed

lemma quic_close_ok: "quic_ok p \<Longrightarrow> quic_ok (quic_close p)"
  unfolding quic_ok_def by (auto simp: quic_close_def list_ex_iff)

lemma quic_remove_ok: "quic_ok p \<Longrightarrow> quic_gone p c \<Longrightarrow> quic_ok (quic_remove key c p)"
  unfolding quic_ok_def quic_remove_def by (auto split: if_splits) (metis option.inject)+

lemma quic_step_ok:
  assumes "quic_step ev p = Some q" and "quic_ok p"
  shows "quic_ok q"
proof (cases ev)
  case (Quic_gets key)
  obtain r q' where r: "quic_get key p = (r, q')" by (cases "quic_get key p")
  from quic_get_ok[OF r assms(2)] assms(1) Quic_gets r show ?thesis
    by (auto simp: quic_step_def quic_get_or_dial_begin_def split: option.splits)
next
  case (Quic_dialed key d)
  then show ?thesis
    using assms quic_dialed_ok[OF assms(2)]
    by (cases d) (auto simp: quic_step_def quic_get_or_dial_end_def[of key "Inl _"])
next
  case (Quic_removes key c)
  with assms(1) have "quic_gone p c" "q = quic_remove key c p" by (auto simp: quic_step_def split: if_splits)
  with quic_remove_ok[OF assms(2)] show ?thesis by simp
qed (use assms quic_close_ok quic_end_ok in \<open>auto simp: quic_step_def\<close>)

lemma quic_shut_step: "quic_step ev p = Some q \<Longrightarrow> quic_shut q \<longleftrightarrow> quic_shut p \<or> ev = Quic_shuts"
  by (cases ev)
    (auto simp: quic_step_def quic_get_or_dial_begin_def quic_get_or_dial_end_def quic_get_def quic_store_def
      quic_end_def quic_remove_def quic_close_def new_quic_conn_def
      split: sum.splits option.splits if_splits prod.splits)

interpretation quic_fence: fenced_pool quic_step quic_ok quic_shut Quic_shuts quic_live
  by unfold_locales
    (blast intro: quic_step_ok, blast dest: quic_shut_step, auto simp: quic_ok_def quic_live_def)

lemma new_quic_pool_ok: "quic_ok new_quic_pool"
  by (simp add: quic_ok_def new_quic_pool_def)

subsection \<open>Scopes, and the servers that hold them\<close>

text \<open>\<open>relayPoolScope\<close>: \<open>scope_done\<close> is the \<open>sync.Once\<close> of \<open>Close\<close>. Scopes are addresses in \<open>scopes\<close>.\<close>

record pool_scope =
  scope_tls :: pool_run
  scope_quic :: quic_pool
  scope_done :: bool

definition new_pool_scope :: pool_scope where
  "new_pool_scope = \<lparr>scope_tls = pool_start, scope_quic = new_quic_pool, scope_done = False\<rparr>"

definition close_pool_scope :: "pool_scope \<Rightarrow> pool_scope" where
  "close_pool_scope s =
     (if scope_done s then s
      else s\<lparr>scope_quic := quic_close (scope_quic s),
             scope_tls := (scope_tls s)\<lparr>the_pool := close_pool (the_pool (scope_tls s))\<rparr>,
             scope_done := True\<rparr>)"

text \<open>
  A relay server with its lease. \<open>holder_key\<close> is the generation; the empty key stands for a
  scope of its own, which a server without a lease has, too.
\<close>

record scope_holder =
  holder_key :: string
  holder_scope :: nat
  holder_closing :: bool
  holder_released :: bool

record relay_pools =
  scopes :: "pool_scope list"
  pool_entries :: "string \<Rightarrow> (nat \<times> int) option"
  holders :: "scope_holder list"
  global_scope :: nat

definition new_relay_pools :: relay_pools where
  "new_relay_pools =
     \<lparr>scopes = [new_pool_scope], pool_entries = (\<lambda>_. None), holders = [], global_scope = 0\<rparr>"

definition make_scope :: "relay_pools \<Rightarrow> relay_pools" where
  "make_scope w = w\<lparr>scopes := scopes w @ [new_pool_scope]\<rparr>"

definition close_scope :: "nat \<Rightarrow> relay_pools \<Rightarrow> relay_pools" where
  "close_scope a w = w\<lparr>scopes := (scopes w)[a := close_pool_scope (scopes w ! a)]\<rparr>"

definition fence_global :: "relay_pools \<Rightarrow> relay_pools" where
  "fence_global w =
     close_scope (global_scope w) ((make_scope w)\<lparr>global_scope := length (scopes w)\<rparr>)"

definition add_holder :: "string \<Rightarrow> nat \<Rightarrow> relay_pools \<Rightarrow> relay_pools" where
  "add_holder key a w =
     w\<lparr>holders := holders w @
        [\<lparr>holder_key = key, holder_scope = a, holder_closing = False, holder_released = False\<rparr>]\<rparr>"

definition acquire_scope :: "string \<Rightarrow> relay_pools \<Rightarrow> relay_pools" where
  "acquire_scope key w =
     (if key = [] then add_holder key (length (scopes w)) (make_scope w)
      else case pool_entries w key of
             None \<Rightarrow>
               add_holder key (length (scopes w))
                 ((make_scope w)\<lparr>pool_entries := (pool_entries w)(key \<mapsto> (length (scopes w), 1))\<rparr>)
           | Some (a, refs) \<Rightarrow>
               add_holder key a (w\<lparr>pool_entries := (pool_entries w)(key \<mapsto> (a, refs + 1))\<rparr>))"

definition lookup_scope :: "string \<Rightarrow> relay_pools \<Rightarrow> nat option" where
  "lookup_scope key w = map_option fst (pool_entries w key)"

definition update_holder :: "nat \<Rightarrow> (scope_holder \<Rightarrow> scope_holder) \<Rightarrow> relay_pools \<Rightarrow> relay_pools" where
  "update_holder h f w = w\<lparr>holders := (holders w)[h := f (holders w ! h)]\<rparr>"

text \<open>\<open>release\<close>, with its \<open>sync.Once\<close>.\<close>

definition release_scope :: "nat \<Rightarrow> relay_pools \<Rightarrow> relay_pools" where
  "release_scope h w =
     (let l = holders w ! h; w1 = update_holder h (\<lambda>l. l\<lparr>holder_released := True\<rparr>) w in
      if holder_released l then w
      else if holder_key l = [] then close_scope (holder_scope l) w1
      else case pool_entries w1 (holder_key l) of
             None \<Rightarrow> w1
           | Some (a, refs) \<Rightarrow>
               if refs - 1 = 0
               then close_scope a (w1\<lparr>pool_entries := (pool_entries w1)(holder_key l := None)\<rparr>)
               else w1\<lparr>pool_entries := (pool_entries w1)(holder_key l \<mapsto> (a, refs - 1))\<rparr>)"

text \<open>\<open>rotate\<close> with the scope the server has had.\<close>

definition rotate_scope :: "nat \<Rightarrow> nat \<Rightarrow> relay_pools \<Rightarrow> relay_pools" where
  "rotate_scope h previous w =
     (let key = holder_key (holders w ! h); fresh = length (scopes w);
          holds = (\<lambda>a. update_holder h (\<lambda>l. l\<lparr>holder_scope := a\<rparr>)) in
      if key = [] then holds fresh (make_scope w)
      else case pool_entries w key of
             None \<Rightarrow> holds fresh ((make_scope w)\<lparr>pool_entries := (pool_entries w)(key \<mapsto> (fresh, 1))\<rparr>)
           | Some (a, refs) \<Rightarrow>
               if a = previous
               then holds fresh ((make_scope w)\<lparr>pool_entries := (pool_entries w)(key \<mapsto> (fresh, refs))\<rparr>)
               else holds a w)"

definition fence_server :: "nat \<Rightarrow> relay_pools \<Rightarrow> relay_pools" where
  "fence_server h w =
     (if holder_closing (holders w ! h) then w
      else let previous = holder_scope (holders w ! h) in
           close_scope previous (rotate_scope h previous w))"

text \<open>\<open>refreshTunnelSessions\<close>; \<open>order\<close> is the order in which the map of runtimes is walked.\<close>

definition fence_all :: "nat list \<Rightarrow> relay_pools \<Rightarrow> relay_pools" where
  "fence_all order w = fold fence_server order (fence_global w)"

datatype scope_event =
    Acquires string
  | Fences nat
  | Fences_global
  | Server_closes nat
  | Server_releases nat
  | In_tls nat pool_event
  | In_quic nat quic_event

definition scope_step :: "scope_event \<Rightarrow> relay_pools \<Rightarrow> relay_pools option" where
  "scope_step ev w =
     (case ev of
        Acquires key \<Rightarrow> Some (acquire_scope key w)
      | Fences h \<Rightarrow> if h < length (holders w) then Some (fence_server h w) else None
      | Fences_global \<Rightarrow> Some (fence_global w)
      | Server_closes h \<Rightarrow>
          if h < length (holders w) then Some (update_holder h (\<lambda>l. l\<lparr>holder_closing := True\<rparr>) w) else None
      | Server_releases h \<Rightarrow>
          if h < length (holders w) \<and> holder_closing (holders w ! h) then Some (release_scope h w) else None
      | In_tls a ev \<Rightarrow>
          if a < length (scopes w) \<and> ev \<noteq> Shuts
          then map_option (\<lambda>s. w\<lparr>scopes := (scopes w)[a := (scopes w ! a)\<lparr>scope_tls := s\<rparr>]\<rparr>)
                 (pool_step ev (scope_tls (scopes w ! a)))
          else None
      | In_quic a ev \<Rightarrow>
          if a < length (scopes w) \<and> ev \<noteq> Quic_shuts
          then map_option (\<lambda>s. w\<lparr>scopes := (scopes w)[a := (scopes w ! a)\<lparr>scope_quic := s\<rparr>]\<rparr>)
                 (quic_step ev (scope_quic (scopes w ! a)))
          else None)"

subsection \<open>A scope that is closed stays empty\<close>

definition scope_ok :: "pool_scope \<Rightarrow> bool" where
  "scope_ok s \<longleftrightarrow>
     run_ok (scope_tls s) \<and> quic_ok (scope_quic s) \<and>
     (pool_shut (the_pool (scope_tls s)) \<longleftrightarrow> scope_done s) \<and> (quic_shut (scope_quic s) \<longleftrightarrow> scope_done s)"

definition scope_empty :: "pool_scope \<Rightarrow> bool" where
  "scope_empty s \<longleftrightarrow> (\<forall>a. \<not> tunnel_live (scope_tls s) a \<and> \<not> quic_live (scope_quic s) a)"

lemma new_pool_scope_ok: "scope_ok new_pool_scope"
  using run_ok_start new_quic_pool_ok
  by (simp add: scope_ok_def new_pool_scope_def pool_start_def new_session_pool_def new_quic_pool_def)

lemma close_pool_scope_ok: "scope_ok s \<Longrightarrow> scope_ok (close_pool_scope s) \<and> scope_done (close_pool_scope s)"
  using close_pool_ok quic_close_ok
  by (auto simp: scope_ok_def close_pool_scope_def run_ok_def close_pool_fields)
    (simp add: quic_close_def)

lemma scope_done_empty: "scope_ok s \<Longrightarrow> scope_done s \<Longrightarrow> scope_empty s"
  using tls_fence.closed_empty quic_fence.closed_empty by (auto simp: scope_ok_def scope_empty_def)

subsection \<open>Owners\<close>

text \<open>
  Every scope that is not closed belongs to exactly one owner: the process, the entry of a
  generation, or a server with a scope of its own.
\<close>

datatype scope_owner = Process | Generation string | Private nat

definition owned_scope :: "relay_pools \<Rightarrow> scope_owner \<Rightarrow> nat option" where
  "owned_scope w x =
     (case x of
        Process \<Rightarrow> Some (global_scope w)
      | Generation key \<Rightarrow> map_option fst (pool_entries w key)
      | Private h \<Rightarrow>
          if h < length (holders w) \<and> holder_key (holders w ! h) = [] \<and> \<not> holder_released (holders w ! h)
          then Some (holder_scope (holders w ! h)) else None)"

definition owners_ok :: "relay_pools \<Rightarrow> bool" where
  "owners_ok w \<longleftrightarrow>
     (\<forall>a < length (scopes w). scope_ok (scopes w ! a)) \<and>
     (\<forall>x a. owned_scope w x = Some a \<longrightarrow> a < length (scopes w) \<and> \<not> scope_done (scopes w ! a)) \<and>
     (\<forall>a < length (scopes w). \<not> scope_done (scopes w ! a) \<longrightarrow> (\<exists>x. owned_scope w x = Some a)) \<and>
     (\<forall>x y a. owned_scope w x = Some a \<longrightarrow> owned_scope w y = Some a \<longrightarrow> x = y)"

definition holder_count :: "string \<Rightarrow> scope_holder list \<Rightarrow> nat" where
  "holder_count key ls = length (filter (\<lambda>l. holder_key l = key \<and> \<not> holder_released l) ls)"

text \<open>
  The entry of a generation counts the servers that hold it. A server holds the scope of the
  entry, or one that has been closed by the fence of another.
\<close>

definition entry_ok :: "(nat \<times> int) option \<Rightarrow> nat \<Rightarrow> bool" where
  "entry_ok e n \<longleftrightarrow> (case e of None \<Rightarrow> n = 0 | Some (a, refs) \<Rightarrow> refs = int n \<and> 0 < refs)"

definition counts_ok :: "relay_pools \<Rightarrow> bool" where
  "counts_ok w \<longleftrightarrow>
     pool_entries w [] = None \<and>
     (\<forall>key. key \<noteq> [] \<longrightarrow> entry_ok (pool_entries w key) (holder_count key (holders w)))"

definition holder_ok :: "relay_pools \<Rightarrow> scope_holder \<Rightarrow> bool" where
  "holder_ok w l \<longleftrightarrow>
     (holder_released l \<longrightarrow> holder_closing l) \<and> holder_scope l < length (scopes w) \<and>
     (\<not> holder_released l \<longrightarrow> holder_key l \<noteq> [] \<longrightarrow>
        lookup_scope (holder_key l) w = Some (holder_scope l) \<or> scope_done (scopes w ! holder_scope l))"

definition leases_ok :: "relay_pools \<Rightarrow> bool" where
  "leases_ok w \<longleftrightarrow> counts_ok w \<and> (\<forall>l \<in> set (holders w). holder_ok w l)"

definition relay_pools_ok :: "relay_pools \<Rightarrow> bool" where
  "relay_pools_ok w \<longleftrightarrow> owners_ok w \<and> leases_ok w"

end
