(* ===== verification/RelayScopeInv.thy ===== *)
theory RelayScopeInv
  imports RelayScopes
begin

text \<open>
  The invariant of the pool scopes: open scopes and their owners, and the leases of the servers.
\<close>

subsection \<open>How owners change\<close>

lemma owners_new:
  assumes ok: "owners_ok w" and s: "scopes w' = scopes w @ [new_pool_scope]"
    and o: "owned_scope w' = (owned_scope w)(x := Some (length (scopes w)))" and none: "owned_scope w x = None"
  shows "owners_ok w'"
proof -
  have old: "owned_scope w y = Some a \<Longrightarrow> a < length (scopes w)" for y a
    using ok by (simp add: owners_ok_def)
  have "scope_ok (scopes w' ! a)" if "a < length (scopes w')" for a
    using that ok new_pool_scope_ok by (auto simp: s owners_ok_def nth_append less_Suc_eq)
  moreover have "a < length (scopes w') \<and> \<not> scope_done (scopes w' ! a)" if "owned_scope w' y = Some a" for y a
    using that ok old[of y a] by (auto simp: s o owners_ok_def nth_append new_pool_scope_def split: if_splits)
  moreover have "\<exists>y. owned_scope w' y = Some a" if a: "a < length (scopes w')" "\<not> scope_done (scopes w' ! a)" for a
  proof (cases "a = length (scopes w)")
    case True
    then have "owned_scope w' x = Some a" by (simp add: o)
    then show ?thesis by blast
  next
    case False
    with a have "a < length (scopes w)" "\<not> scope_done (scopes w ! a)" by (auto simp: s nth_append)
    with ok obtain y where y: "owned_scope w y = Some a" by (auto simp: owners_ok_def)
    with none have "y \<noteq> x" by auto
    with y have "owned_scope w' y = Some a" by (simp add: o)
    then show ?thesis by blast
  qed
  moreover have "y = z" if "owned_scope w' y = Some a" "owned_scope w' z = Some a" for y z a
    using that ok old[of y a] old[of z a] unfolding owners_ok_def by (auto simp: o split: if_splits)
  ultimately show ?thesis unfolding owners_ok_def by blast
qed

lemma owners_drop:
  assumes ok: "owners_ok w" and s: "scopes w' = (scopes w)[a := close_pool_scope (scopes w ! a)]"
    and o: "owned_scope w' = (owned_scope w)(x := None)" and x: "owned_scope w x = Some a"
  shows "owners_ok w'"
proof -
  have a: "a < length (scopes w)" "scope_ok (scopes w ! a)" using ok x by (auto simp: owners_ok_def)
  note shut = close_pool_scope_ok[OF a(2)]
  have uniq: "y = x" if "owned_scope w y = Some a" for y using ok x that unfolding owners_ok_def by blast
  have "scope_ok (scopes w' ! b)" if "b < length (scopes w')" for b
    using that ok shut by (cases "b = a") (auto simp: s owners_ok_def)
  moreover have "b < length (scopes w') \<and> \<not> scope_done (scopes w' ! b)" if "owned_scope w' y = Some b" for y b
  proof -
    from that have y: "y \<noteq> x" "owned_scope w y = Some b" by (auto simp: o split: if_splits)
    with uniq have "b \<noteq> a" by auto
    with y(2) ok show ?thesis by (auto simp: s owners_ok_def)
  qed
  moreover have "\<exists>y. owned_scope w' y = Some b" if b: "b < length (scopes w')" "\<not> scope_done (scopes w' ! b)" for b
  proof -
    from b shut a(1) have "b \<noteq> a" by (auto simp: s)
    with b ok obtain y where y: "owned_scope w y = Some b" by (auto simp: s owners_ok_def)
    with x \<open>b \<noteq> a\<close> have "y \<noteq> x" by auto
    with y have "owned_scope w' y = Some b" by (simp add: o)
    then show ?thesis by blast
  qed
  moreover have "y = z" if "owned_scope w' y = Some b" "owned_scope w' z = Some b" for y z b
    using that ok unfolding owners_ok_def by (auto simp: o split: if_splits)
  ultimately show ?thesis unfolding owners_ok_def by blast
qed

text \<open>A fence is a new scope for the owner after the old one has been closed.\<close>

lemma owners_move:
  assumes ok: "owners_ok w" and s: "scopes w' = (scopes w @ [new_pool_scope])[a := close_pool_scope (scopes w ! a)]"
    and o: "owned_scope w' = (owned_scope w)(x := Some (length (scopes w)))" and x: "owned_scope w x = Some a"
  shows "owners_ok w'"
proof -
  have a: "a < length (scopes w)" "scope_ok (scopes w ! a)" using ok x by (auto simp: owners_ok_def)
  note shut = close_pool_scope_ok[OF a(2)]
  have uniq: "y = x" if "owned_scope w y = Some a" for y using ok x that unfolding owners_ok_def by blast
  have old: "owned_scope w y = Some b \<Longrightarrow> b < length (scopes w)" for y b
    using ok by (simp add: owners_ok_def)
  have at: "scopes w' ! b = (if b = a then close_pool_scope (scopes w ! a)
      else if b < length (scopes w) then scopes w ! b else new_pool_scope)" if "b < length (scopes w')" for b
    using that a(1) by (auto simp: s nth_list_update nth_append less_Suc_eq)
  have "scope_ok (scopes w' ! b)" if "b < length (scopes w')" for b
    using that ok shut new_pool_scope_ok by (simp add: at owners_ok_def)
  moreover have "b < length (scopes w') \<and> \<not> scope_done (scopes w' ! b)" if "owned_scope w' y = Some b" for y b
  proof (cases "y = x")
    case True
    with that have "b = length (scopes w)" by (simp add: o)
    with a(1) show ?thesis using at[of b] by (simp add: s new_pool_scope_def)
  next
    case False
    with that have y: "owned_scope w y = Some b" by (simp add: o)
    with uniq False have "b \<noteq> a" by auto
    have b: "b < length (scopes w)" "\<not> scope_done (scopes w ! b)" using y ok by (auto simp: owners_ok_def)
    then have "b < length (scopes w')" by (simp add: s)
    with at[OF this] b \<open>b \<noteq> a\<close> show ?thesis by simp
  qed
  moreover have "\<exists>y. owned_scope w' y = Some b" if b: "b < length (scopes w')" "\<not> scope_done (scopes w' ! b)" for b
  proof (cases "b < length (scopes w)")
    case True
    from b shut have "b \<noteq> a" using at[OF b(1)] by auto
    with b True ok at[OF b(1)] obtain y where y: "owned_scope w y = Some b" by (auto simp: owners_ok_def)
    with x \<open>b \<noteq> a\<close> have "y \<noteq> x" by auto
    with y have "owned_scope w' y = Some b" by (simp add: o)
    then show ?thesis by blast
  next
    case False
    with b(1) have "owned_scope w' x = Some b" by (simp add: o s)
    then show ?thesis by blast
  qed
  moreover have "y = z" if "owned_scope w' y = Some b" "owned_scope w' z = Some b" for y z b
    using that ok old[of y b] old[of z b] unfolding owners_ok_def by (auto simp: o split: if_splits)
  ultimately show ?thesis unfolding owners_ok_def by blast
qed

lemma owners_same:
  assumes ok: "owners_ok w" and o: "owned_scope w' = owned_scope w" and len: "length (scopes w') = length (scopes w)"
    and same: "\<And>a. a < length (scopes w) \<Longrightarrow> scope_ok (scopes w ! a) \<Longrightarrow>
      scope_ok (scopes w' ! a) \<and> scope_done (scopes w' ! a) = scope_done (scopes w ! a)"
  shows "owners_ok w'"
proof -
  have "scope_ok (scopes w' ! a)" "scope_done (scopes w' ! a) = scope_done (scopes w ! a)"
    if "a < length (scopes w)" for a
    using that ok same[OF that] by (simp_all add: owners_ok_def)
  with ok show ?thesis unfolding owners_ok_def o len by simp
qed

lemma close_done: "scope_done s \<Longrightarrow> close_pool_scope s = s"
  by (simp add: close_pool_scope_def)

subsection \<open>Counting leases\<close>

lemma holder_count_append [simp]:
  "holder_count key (ls @ [l]) = holder_count key ls + (if holder_key l = key \<and> \<not> holder_released l then 1 else 0)"
  by (simp add: holder_count_def)

lemma holder_count_update:
  assumes "h < length ls" and "holder_key l = holder_key (ls ! h)" and "holder_released l = holder_released (ls ! h)"
  shows "holder_count key (ls[h := l]) = holder_count key ls"
proof -
  have "ls = take h ls @ ls ! h # drop (Suc h) ls" using assms(1) by (simp add: id_take_nth_drop)
  then have "holder_count key ls = holder_count key (take h ls @ ls ! h # drop (Suc h) ls)" by simp
  also have "\<dots> = holder_count key (ls[h := l])"
    using assms by (simp add: holder_count_def upd_conv_take_nth_drop)
  finally show ?thesis by simp
qed

lemma holder_count_release:
  assumes "h < length ls" and "\<not> holder_released (ls ! h)" and "holder_released l"
  shows "holder_count key (ls[h := l]) + (if holder_key (ls ! h) = key then 1 else 0) = holder_count key ls"
proof -
  have "ls = take h ls @ ls ! h # drop (Suc h) ls" using assms(1) by (simp add: id_take_nth_drop)
  then have "holder_count key ls = holder_count key (take h ls @ ls ! h # drop (Suc h) ls)" by simp
  also have "\<dots> = holder_count key (ls[h := l]) + (if holder_key (ls ! h) = key then 1 else 0)"
    using assms by (simp add: holder_count_def upd_conv_take_nth_drop)
  finally show ?thesis by simp
qed

lemma holder_count_pos: "h < length ls \<Longrightarrow> \<not> holder_released (ls ! h) \<Longrightarrow> 0 < holder_count (holder_key (ls ! h)) ls"
  by (auto simp: holder_count_def filter_empty_conv intro!: bexI[of _ "ls ! h"])

subsection \<open>The operations keep the invariant\<close>

lemma entry_ok_simps [simp]:
  "entry_ok None n \<longleftrightarrow> n = 0" "entry_ok (Some (a, refs)) n \<longleftrightarrow> refs = int n \<and> 0 < refs"
  by (simp_all add: entry_ok_def)

lemma entry_okD: "counts_ok w \<Longrightarrow> key \<noteq> [] \<Longrightarrow> entry_ok (pool_entries w key) (holder_count key (holders w))"
  by (simp add: counts_ok_def)

lemma relay_pools_okD:
  assumes "relay_pools_ok w"
  shows "owners_ok w" "counts_ok w" "\<And>l. l \<in> set (holders w) \<Longrightarrow> holder_ok w l"
  using assms by (auto simp: relay_pools_ok_def leases_ok_def)

lemma holder_ok_mono:
  assumes "holder_ok w l" and "length (scopes w) \<le> length (scopes w')"
    and "lookup_scope (holder_key l) w = Some (holder_scope l) \<Longrightarrow>
      lookup_scope (holder_key l) w' = Some (holder_scope l) \<or> scope_done (scopes w' ! holder_scope l)"
    and "\<And>a. a < length (scopes w) \<Longrightarrow> scope_done (scopes w ! a) \<Longrightarrow> scope_done (scopes w' ! a)"
  shows "holder_ok w' l"
  using assms unfolding holder_ok_def by (meson order.strict_trans2)

lemma make_scope_fields [simp]:
  "scopes (make_scope w) = scopes w @ [new_pool_scope]" "pool_entries (make_scope w) = pool_entries w"
  "holders (make_scope w) = holders w" "global_scope (make_scope w) = global_scope w"
  by (simp_all add: make_scope_def)

lemma add_holder_fields [simp]:
  "scopes (add_holder key a w) = scopes w" "pool_entries (add_holder key a w) = pool_entries w"
  "holders (add_holder key a w) = holders w @
     [\<lparr>holder_key = key, holder_scope = a, holder_closing = False, holder_released = False\<rparr>]"
  "global_scope (add_holder key a w) = global_scope w"
  by (simp_all add: add_holder_def)

lemma close_scope_fields [simp]:
  "scopes (close_scope a w) = (scopes w)[a := close_pool_scope (scopes w ! a)]"
  "pool_entries (close_scope a w) = pool_entries w" "holders (close_scope a w) = holders w"
  "global_scope (close_scope a w) = global_scope w"
  by (simp_all add: close_scope_def)

lemma update_holder_fields [simp]:
  "scopes (update_holder h f w) = scopes w" "pool_entries (update_holder h f w) = pool_entries w"
  "holders (update_holder h f w) = (holders w)[h := f (holders w ! h)]"
  "global_scope (update_holder h f w) = global_scope w"
  by (simp_all add: update_holder_def)

lemma close_pool_scope_done: "scope_done (close_pool_scope s)"
  by (simp add: close_pool_scope_def)

lemma done_close_mono:
  "scope_done (scopes w ! b) \<Longrightarrow> b < length (scopes w) \<Longrightarrow> scope_done (scopes (close_scope a w) ! b)"
  by (cases "a = b") (auto simp: close_pool_scope_done)

lemma owned_private:
  "owned_scope w (Private h) = Some a \<longleftrightarrow>
     h < length (holders w) \<and> holder_key (holders w ! h) = [] \<and> \<not> holder_released (holders w ! h) \<and>
     a = holder_scope (holders w ! h)"
  by (auto simp: owned_scope_def)

lemma acquire_scope_ok:
  assumes ok: "relay_pools_ok w"
  shows "relay_pools_ok (acquire_scope key w)"
proof -
  note w = relay_pools_okD[OF ok]
  have len: "length (scopes w) \<le> length (scopes w @ [new_pool_scope])" by simp
  show ?thesis
  proof (cases "key = []")
    case True
    let ?w = "add_holder key (length (scopes w)) (make_scope w)"
    have "owned_scope ?w = (owned_scope w)(Private (length (holders w)) := Some (length (scopes w)))"
      using True by (auto simp: owned_scope_def fun_eq_iff nth_append split: scope_owner.splits)
    from owners_new[OF w(1) _ this] have "owners_ok ?w" by (simp add: owned_scope_def)
    moreover have "counts_ok ?w" using w(2) True by (simp add: counts_ok_def)
    moreover have "holder_ok ?w l" if "l \<in> set (holders ?w)" for l
    proof -
      from that consider "l \<in> set (holders w)" | "l = \<lparr>holder_key = key, holder_scope = length (scopes w),
          holder_closing = False, holder_released = False\<rparr>" by auto
      then show ?thesis
      proof cases
        case 1
        from w(3)[OF this] show ?thesis by (rule holder_ok_mono) (auto simp: lookup_scope_def nth_append)
      qed (simp add: holder_ok_def True)
    qed
    ultimately show ?thesis using True by (simp add: acquire_scope_def relay_pools_ok_def leases_ok_def)
  next
    case key: False
    show ?thesis
    proof (cases "pool_entries w key")
      case None
      let ?w = "add_holder key (length (scopes w))
        ((make_scope w)\<lparr>pool_entries := (pool_entries w)(key \<mapsto> (length (scopes w), 1))\<rparr>)"
      have "owned_scope ?w = (owned_scope w)(Generation key := Some (length (scopes w)))"
        using key by (auto simp: owned_scope_def fun_eq_iff nth_append split: scope_owner.splits)
      from owners_new[OF w(1) _ this] have "owners_ok ?w" by (simp add: owned_scope_def None)
      moreover have "counts_ok ?w"
      proof -
        from entry_okD[OF w(2) key] None have "holder_count key (holders w) = 0" by simp
        with w(2) key show ?thesis by (simp add: counts_ok_def)
      qed
      moreover have "holder_ok ?w l" if "l \<in> set (holders ?w)" for l
      proof -
        from that consider "l \<in> set (holders w)" | "l = \<lparr>holder_key = key, holder_scope = length (scopes w),
            holder_closing = False, holder_released = False\<rparr>" by auto
        then show ?thesis
        proof cases
          case 1
          from w(3)[OF this] show ?thesis
            by (rule holder_ok_mono) (use None in \<open>auto simp: lookup_scope_def nth_append\<close>)
        qed (simp add: holder_ok_def lookup_scope_def)
      qed
      ultimately show ?thesis using key None by (simp add: acquire_scope_def relay_pools_ok_def leases_ok_def)
    next
      case (Some e)
      obtain a refs where e: "e = (a, refs)" by (cases e)
      let ?w = "add_holder key a (w\<lparr>pool_entries := (pool_entries w)(key \<mapsto> (a, refs + 1))\<rparr>)"
      have own: "owned_scope w (Generation key) = Some a" using Some e by (simp add: owned_scope_def)
      have "owned_scope ?w = owned_scope w"
        using key Some e by (auto simp: owned_scope_def fun_eq_iff nth_append split: scope_owner.splits)
      then have "owners_ok ?w" by (intro owners_same[OF w(1)]) simp_all
      moreover have "counts_ok ?w"
      proof -
        from entry_okD[OF w(2) key] Some e have "refs = int (holder_count key (holders w))" by simp
        with w(2) key show ?thesis by (simp add: counts_ok_def)
      qed
      moreover have "holder_ok ?w l" if "l \<in> set (holders ?w)" for l
      proof -
        from that consider "l \<in> set (holders w)" | "l = \<lparr>holder_key = key, holder_scope = a,
            holder_closing = False, holder_released = False\<rparr>" by auto
        then show ?thesis
        proof cases
          case 1
          from w(3)[OF this] show ?thesis
            by (rule holder_ok_mono) (use Some e in \<open>auto simp: lookup_scope_def\<close>)
        qed (use w(1) own in \<open>auto simp: holder_ok_def lookup_scope_def owners_ok_def\<close>)
      qed
      ultimately show ?thesis using key Some e by (simp add: acquire_scope_def relay_pools_ok_def leases_ok_def)
    qed
  qed
qed

lemma fence_global_ok:
  assumes ok: "relay_pools_ok w"
  shows "relay_pools_ok (fence_global w)"
proof -
  note w = relay_pools_okD[OF ok]
  let ?g = "global_scope w"
  have own: "owned_scope w Process = Some ?g" by (simp add: owned_scope_def)
  with w(1) have g: "?g < length (scopes w)" by (auto simp: owners_ok_def)
  have s: "scopes (fence_global w) = (scopes w @ [new_pool_scope])[?g := close_pool_scope (scopes w ! ?g)]"
    using g by (simp add: fence_global_def close_scope_def nth_append)
  have same: "holders (fence_global w) = holders w" "pool_entries (fence_global w) = pool_entries w"
    by (simp_all add: fence_global_def close_scope_def)
  have "owned_scope (fence_global w) = (owned_scope w)(Process := Some (length (scopes w)))"
    by (auto simp: owned_scope_def fun_eq_iff fence_global_def close_scope_def split: scope_owner.splits)
  from owners_move[OF w(1) s this own] have "owners_ok (fence_global w)" .
  moreover have "counts_ok (fence_global w)" using w(2) unfolding counts_ok_def same .
  moreover have "scope_done (scopes (fence_global w) ! a)" if "a < length (scopes w)" "scope_done (scopes w ! a)" for a
    using that by (cases "a = ?g") (simp_all add: s nth_append close_pool_scope_done)
  then have "holder_ok (fence_global w) l" if "l \<in> set (holders w)" for l
    using w(3)[OF that] by (elim holder_ok_mono) (simp_all add: s lookup_scope_def same)
  ultimately show ?thesis by (simp add: relay_pools_ok_def leases_ok_def same)
qed

definition move_holder :: "nat \<Rightarrow> nat \<Rightarrow> relay_pools \<Rightarrow> relay_pools" where
  "move_holder h a w = update_holder h (\<lambda>l. l\<lparr>holder_scope := a\<rparr>) w"

lemma move_holder_fields [simp]:
  "scopes (move_holder h a w) = scopes w" "pool_entries (move_holder h a w) = pool_entries w"
  "holders (move_holder h a w) = (holders w)[h := (holders w ! h)\<lparr>holder_scope := a\<rparr>]"
  "global_scope (move_holder h a w) = global_scope w"
  by (simp_all add: move_holder_def)

text \<open>The three effects of a fence on a server: for itself, first in its generation, or after another.\<close>

lemma fence_server_cases:
  assumes ok: "relay_pools_ok w" and h: "h < length (holders w)" and alive: "\<not> holder_closing (holders w ! h)"
  obtains (own) "holder_key (holders w ! h) = []"
      "fence_server h w = close_scope (holder_scope (holders w ! h)) (move_holder h (length (scopes w)) (make_scope w))"
  | (first) key a refs where "key = holder_key (holders w ! h)" "key \<noteq> []"
      "pool_entries w key = Some (a, refs)" "a = holder_scope (holders w ! h)"
      "fence_server h w = close_scope a (move_holder h (length (scopes w))
         ((make_scope w)\<lparr>pool_entries := (pool_entries w)(key \<mapsto> (length (scopes w), refs))\<rparr>))"
  | (behind) key a refs where "key = holder_key (holders w ! h)" "key \<noteq> []"
      "pool_entries w key = Some (a, refs)" "a \<noteq> holder_scope (holders w ! h)"
      "scope_done (scopes w ! holder_scope (holders w ! h))" "fence_server h w = move_holder h a w"
proof -
  let ?l = "holders w ! h"
  note w = relay_pools_okD[OF ok]
  from h have l: "holder_ok w ?l" by (intro w(3)) simp
  with alive have rel: "\<not> holder_released ?l" by (auto simp: holder_ok_def)
  show ?thesis
  proof (cases "holder_key ?l = []")
    case True
    with alive own show ?thesis by (simp add: fence_server_def rotate_scope_def Let_def move_holder_def)
  next
    case key: False
    from entry_okD[OF w(2) key] holder_count_pos[OF h rel] obtain a refs where
      e: "pool_entries w (holder_key ?l) = Some (a, refs)"
      by (cases "pool_entries w (holder_key ?l)") auto
    show ?thesis
    proof (cases "a = holder_scope ?l")
      case True
      with key e alive first show ?thesis by (simp add: fence_server_def rotate_scope_def Let_def move_holder_def)
    next
      case False
      with l rel key e have shut: "scope_done (scopes w ! holder_scope ?l)" by (auto simp: holder_ok_def lookup_scope_def)
      then have "close_scope (holder_scope ?l) (move_holder h a w) = move_holder h a w"
        by (simp add: close_scope_def close_done)
      with key e alive False shut behind show ?thesis
        by (simp add: fence_server_def rotate_scope_def Let_def move_holder_def)
    qed
  qed
qed

lemma holders_move:
  assumes "\<And>l. l \<in> set (holders w) \<Longrightarrow> P l" and "h < length (holders w)" and "P ((holders w ! h)\<lparr>holder_scope := a\<rparr>)"
  shows "\<forall>l \<in> set ((holders w)[h := (holders w ! h)\<lparr>holder_scope := a\<rparr>]). P l"
  using assms by (metis insertE set_update_subset_insert subsetD)

lemma fence_server_ok:
  assumes ok: "relay_pools_ok w" and h: "h < length (holders w)"
  shows "relay_pools_ok (fence_server h w)"
proof (cases "holder_closing (holders w ! h)")
  case True
  with ok show ?thesis by (simp add: fence_server_def)
next
  case alive: False
  let ?l = "holders w ! h" and ?n = "length (scopes w)"
  note w = relay_pools_okD[OF ok]
  have l: "holder_ok w ?l" using h by (intro w(3)) simp
  with alive have rel: "\<not> holder_released ?l" and sc: "holder_scope ?l < ?n" by (auto simp: holder_ok_def)
  have at: "(scopes w @ [new_pool_scope]) ! a = scopes w ! a" if "a < ?n" for a using that by (simp add: nth_append)
  have mono: "scope_done ((scopes w @ [new_pool_scope])[a := close_pool_scope (scopes w ! a)] ! b)"
    if "scope_done (scopes w ! b)" "b < ?n" for a b
    using that by (cases "a = b") (auto simp: nth_append close_pool_scope_done)
  have count: "holder_count key ((holders w)[h := ?l\<lparr>holder_scope := a\<rparr>]) = holder_count key (holders w)" for key a
    using h by (intro holder_count_update) simp_all
  from ok h alive show ?thesis
  proof (cases rule: fence_server_cases)
    case own
    let ?w = "fence_server h w"
    have s: "scopes ?w = (scopes w @ [new_pool_scope])[holder_scope ?l := close_pool_scope (scopes w ! holder_scope ?l)]"
      using sc by (simp add: own(2) at)
    have hs: "holders ?w = (holders w)[h := ?l\<lparr>holder_scope := ?n\<rparr>]" and e: "pool_entries ?w = pool_entries w"
      by (simp_all add: own(2))
    have "owned_scope ?w = (owned_scope w)(Private h := Some ?n)"
      using h rel own by (auto simp: owned_scope_def fun_eq_iff nth_list_update split: scope_owner.splits)
    from owners_move[OF w(1) s this] have "owners_ok ?w" using h rel own(1) by (simp add: owned_private)
    moreover have "counts_ok ?w" using w(2) unfolding counts_ok_def hs e count .
    moreover have "\<forall>l \<in> set (holders ?w). holder_ok ?w l" unfolding hs
    proof (rule holders_move[OF _ h])
      show "holder_ok ?w l" if "l \<in> set (holders w)" for l
        using w(3)[OF that] by (rule holder_ok_mono) (simp_all add: s e lookup_scope_def mono)
      show "holder_ok ?w (?l\<lparr>holder_scope := ?n\<rparr>)" using own(1) rel by (simp add: holder_ok_def s)
    qed
    ultimately show ?thesis by (simp add: relay_pools_ok_def leases_ok_def)
  next
    case (first key a refs)
    let ?w = "fence_server h w"
    from first(4) sc have a: "a < ?n" by simp
    have s: "scopes ?w = (scopes w @ [new_pool_scope])[a := close_pool_scope (scopes w ! a)]"
      using a by (simp add: first(5) at)
    have hs: "holders ?w = (holders w)[h := ?l\<lparr>holder_scope := ?n\<rparr>]"
      and e: "pool_entries ?w = (pool_entries w)(key \<mapsto> (?n, refs))" by (simp_all add: first(5))
    have "owned_scope ?w = (owned_scope w)(Generation key := Some ?n)"
      using h first(1,2) by (auto simp: owned_scope_def fun_eq_iff e hs first(5) nth_list_update split: scope_owner.splits)
    from owners_move[OF w(1) s this] first(3) have "owners_ok ?w" by (simp add: owned_scope_def)
    moreover have "counts_ok ?w"
      using w(2) entry_okD[OF w(2) first(2)] first(2,3) by (simp add: counts_ok_def hs e count)
    moreover have "\<forall>l \<in> set (holders ?w). holder_ok ?w l" unfolding hs
    proof (rule holders_move[OF _ h])
      show "holder_ok ?w l" if "l \<in> set (holders w)" for l
        using w(3)[OF that]
      proof (rule holder_ok_mono)
        assume old: "lookup_scope (holder_key l) w = Some (holder_scope l)"
        show "lookup_scope (holder_key l) ?w = Some (holder_scope l) \<or> scope_done (scopes ?w ! holder_scope l)"
        proof (cases "holder_key l = key")
          case True
          with old first(3) have "holder_scope l = a" by (simp add: lookup_scope_def)
          then show ?thesis using a by (simp add: s close_pool_scope_done)
        qed (use old in \<open>simp add: lookup_scope_def e\<close>)
      qed (simp_all add: s mono)
      show "holder_ok ?w (?l\<lparr>holder_scope := ?n\<rparr>)" using first(1) rel by (simp add: holder_ok_def s e lookup_scope_def)
    qed
    ultimately show ?thesis by (simp add: relay_pools_ok_def leases_ok_def)
  next
    case (behind key a refs)
    let ?w = "fence_server h w"
    have s: "scopes ?w = scopes w" and hs: "holders ?w = (holders w)[h := ?l\<lparr>holder_scope := a\<rparr>]"
      and e: "pool_entries ?w = pool_entries w" by (simp_all add: behind(6))
    have "owned_scope w (Generation key) = Some a" using behind(3) by (simp add: owned_scope_def)
    with w(1) have a: "a < ?n" by (auto simp: owners_ok_def)
    have "owned_scope ?w = owned_scope w"
      using h behind(1,2) by (auto simp: owned_scope_def fun_eq_iff behind(6) nth_list_update split: scope_owner.splits)
    with w(1) have "owners_ok ?w" by (rule owners_same) (simp_all add: s)
    moreover have "counts_ok ?w" using w(2) unfolding counts_ok_def hs e count .
    moreover have "\<forall>l \<in> set (holders ?w). holder_ok ?w l" unfolding hs
    proof (rule holders_move[OF _ h])
      show "holder_ok ?w l" if "l \<in> set (holders w)" for l
        using w(3)[OF that] by (rule holder_ok_mono) (simp_all add: s e lookup_scope_def)
      show "holder_ok ?w (?l\<lparr>holder_scope := a\<rparr>)"
        using behind(1,3) rel a by (simp add: holder_ok_def s e lookup_scope_def)
    qed
    ultimately show ?thesis by (simp add: relay_pools_ok_def leases_ok_def)
  qed
qed

lemma closing_ok:
  assumes ok: "relay_pools_ok w" and h: "h < length (holders w)"
  shows "relay_pools_ok (update_holder h (\<lambda>l. l\<lparr>holder_closing := True\<rparr>) w)"
proof -
  let ?w = "update_holder h (\<lambda>l. l\<lparr>holder_closing := True\<rparr>) w"
  note w = relay_pools_okD[OF ok]
  have "owned_scope ?w = owned_scope w"
    using h by (auto simp: owned_scope_def fun_eq_iff nth_list_update split: scope_owner.splits)
  with w(1) have "owners_ok ?w" by (rule owners_same) simp_all
  moreover have "counts_ok ?w"
    using w(2) h by (simp add: counts_ok_def holder_count_update)
  moreover have "holder_ok ?w l" if "l \<in> set (holders ?w)" for l
  proof -
    from that set_update_subset_insert have "l \<in> set (holders w) \<or> l = (holders w ! h)\<lparr>holder_closing := True\<rparr>"
      by fastforce
    moreover have "holder_ok ?w m" if "m \<in> set (holders w)" for m
      using w(3)[OF that] by (simp add: holder_ok_def lookup_scope_def)
    moreover from this[of "holders w ! h"] h have "holder_ok ?w ((holders w ! h)\<lparr>holder_closing := True\<rparr>)"
      by (simp add: holder_ok_def lookup_scope_def)
    ultimately show ?thesis by blast
  qed
  ultimately show ?thesis by (simp add: relay_pools_ok_def leases_ok_def)
qed

lemma release_scope_cases:
  assumes ok: "relay_pools_ok w" and h: "h < length (holders w)"
  obtains (again) "holder_released (holders w ! h)" "release_scope h w = w"
  | (own) "\<not> holder_released (holders w ! h)" "holder_key (holders w ! h) = []"
      "release_scope h w = close_scope (holder_scope (holders w ! h)) (update_holder h (\<lambda>l. l\<lparr>holder_released := True\<rparr>) w)"
  | (last) key a where "\<not> holder_released (holders w ! h)" "key = holder_key (holders w ! h)" "key \<noteq> []"
      "pool_entries w key = Some (a, 1)" "release_scope h w = close_scope a
         ((update_holder h (\<lambda>l. l\<lparr>holder_released := True\<rparr>) w)\<lparr>pool_entries := (pool_entries w)(key := None)\<rparr>)"
  | (others) key a refs where "\<not> holder_released (holders w ! h)" "key = holder_key (holders w ! h)" "key \<noteq> []"
      "pool_entries w key = Some (a, refs)" "1 < refs" "release_scope h w =
         (update_holder h (\<lambda>l. l\<lparr>holder_released := True\<rparr>) w)\<lparr>pool_entries := (pool_entries w)(key \<mapsto> (a, refs - 1))\<rparr>"
proof (cases "holder_released (holders w ! h)")
  case True
  with again show ?thesis by (simp add: release_scope_def Let_def)
next
  case rel: False
  note w = relay_pools_okD[OF ok]
  show ?thesis
  proof (cases "holder_key (holders w ! h) = []")
    case True
    with own rel show ?thesis by (simp add: release_scope_def Let_def)
  next
    case key: False
    from entry_okD[OF w(2) key] holder_count_pos[OF h rel] obtain a refs where
      e: "pool_entries w (holder_key (holders w ! h)) = Some (a, refs)" "0 < refs"
      by (cases "pool_entries w (holder_key (holders w ! h))") auto
    show ?thesis
    proof (cases "refs = 1")
      case True
      with e key rel last show ?thesis by (simp add: release_scope_def Let_def)
    next
      case False
      with e key rel show ?thesis by (intro others) (simp_all add: release_scope_def Let_def)
    qed
  qed
qed

lemma release_scope_ok:
  assumes ok: "relay_pools_ok w" and h: "h < length (holders w)" and closing: "holder_closing (holders w ! h)"
  shows "relay_pools_ok (release_scope h w)"
proof -
  let ?l = "holders w ! h" and ?w = "release_scope h w"
  let ?hs = "(holders w)[h := ?l\<lparr>holder_released := True\<rparr>]"
  note w = relay_pools_okD[OF ok]
  have count: "holder_count key ?hs + (if holder_key ?l = key then 1 else 0) = holder_count key (holders w)"
    if "\<not> holder_released ?l" for key
    using h that by (intro holder_count_release) simp_all
  have holds: "holder_ok ?w l" if "l \<in> set ?hs" "scopes ?w = scopes w \<or> (\<exists>a. scopes ?w = (scopes w)[a := close_pool_scope (scopes w ! a)])"
    "\<And>m. m \<in> set (holders w) \<Longrightarrow> \<not> holder_released m \<Longrightarrow> lookup_scope (holder_key m) w = Some (holder_scope m) \<Longrightarrow>
       lookup_scope (holder_key m) ?w = Some (holder_scope m) \<or> scope_done (scopes ?w ! holder_scope m)" for l
  proof -
    have len: "length (scopes ?w) = length (scopes w)" using that(2) by auto
    have shut: "scope_done (scopes ?w ! a)" if "a < length (scopes w)" "scope_done (scopes w ! a)" for a
    proof -
      from \<open>scopes ?w = scopes w \<or> _\<close> show ?thesis
      proof (elim disjE exE)
        fix b assume "scopes ?w = (scopes w)[b := close_pool_scope (scopes w ! b)]"
        with that show ?thesis by (cases "a = b") (simp_all add: close_pool_scope_done)
      qed (use that in simp)
    qed
    from that(1) set_update_subset_insert have "l \<in> set (holders w) \<or> l = ?l\<lparr>holder_released := True\<rparr>" by fastforce
    then show ?thesis
    proof
      assume l: "l \<in> set (holders w)"
      show ?thesis
      proof (cases "holder_released l")
        case True
        with w(3)[OF l] show ?thesis by (simp add: holder_ok_def len)
      next
        case False
        from w(3)[OF l] show ?thesis
          by (rule holder_ok_mono) (use that(3)[OF l False] shut in \<open>simp_all add: len\<close>)
      qed
    next
      assume l: "l = ?l\<lparr>holder_released := True\<rparr>"
      have "holder_ok w ?l" using h by (intro w(3)) simp
      with l closing show ?thesis by (simp add: holder_ok_def len)
    qed
  qed
  from ok h show ?thesis
  proof (cases rule: release_scope_cases)
    case again
    with ok show ?thesis by simp
  next
    case own
    let ?a = "holder_scope ?l"
    have s: "scopes ?w = (scopes w)[?a := close_pool_scope (scopes w ! ?a)]" and hs: "holders ?w = ?hs"
      and e: "pool_entries ?w = pool_entries w" by (simp_all add: own(3))
    have "owned_scope ?w = (owned_scope w)(Private h := None)"
      using h by (auto simp: owned_scope_def fun_eq_iff own(3) nth_list_update split: scope_owner.splits)
    from owners_drop[OF w(1) s this] h own have "owners_ok ?w" by (simp add: owned_private)
    moreover have "counts_ok ?w" unfolding counts_ok_def hs e
    proof (intro conjI allI impI)
      show "entry_ok (pool_entries w key) (holder_count key ?hs)" if "key \<noteq> []" for key
        using entry_okD[OF w(2) that] count[OF own(1), of key] own(2) that by simp
    qed (use w(2) in \<open>simp add: counts_ok_def\<close>)
    moreover have "\<forall>l \<in> set (holders ?w). holder_ok ?w l"
      using holds s e unfolding hs by (simp add: lookup_scope_def) blast
    ultimately show ?thesis by (simp add: relay_pools_ok_def leases_ok_def)
  next
    case (last key a)
    have s: "scopes ?w = (scopes w)[a := close_pool_scope (scopes w ! a)]" and hs: "holders ?w = ?hs"
      and e: "pool_entries ?w = (pool_entries w)(key := None)" by (simp_all add: last(5))
    have own: "owned_scope w (Generation key) = Some a" using last(4) by (simp add: owned_scope_def)
    with w(1) have a: "a < length (scopes w)" by (auto simp: owners_ok_def)
    have "owned_scope ?w = (owned_scope w)(Generation key := None)"
      using h last(2,3) by (auto simp: owned_scope_def fun_eq_iff last(5) nth_list_update split: scope_owner.splits)
    from owners_drop[OF w(1) s this own] have "owners_ok ?w" .
    moreover have "counts_ok ?w" unfolding counts_ok_def hs e
    proof (intro conjI allI impI)
      show "entry_ok (((pool_entries w)(key := None)) k) (holder_count k ?hs)" if "k \<noteq> []" for k
        using entry_okD[OF w(2) that] count[OF last(1), of k] last(2,4) by (cases "k = key") simp_all
    qed (use w(2) last(3) in \<open>simp add: counts_ok_def\<close>)
    moreover have "holder_ok ?w l" if "l \<in> set (holders ?w)" for l
    proof (rule holds)
      show "l \<in> set ?hs" using that by (simp add: hs)
      show "scopes ?w = scopes w \<or> (\<exists>a. scopes ?w = (scopes w)[a := close_pool_scope (scopes w ! a)])"
        using s by blast
      show "lookup_scope (holder_key m) ?w = Some (holder_scope m) \<or> scope_done (scopes ?w ! holder_scope m)"
        if "lookup_scope (holder_key m) w = Some (holder_scope m)" for m
        using that last(4) a by (cases "holder_key m = key") (auto simp: lookup_scope_def e s close_pool_scope_done)
    qed
    ultimately show ?thesis by (simp add: relay_pools_ok_def leases_ok_def)
  next
    case (others key a refs)
    have s: "scopes ?w = scopes w" and hs: "holders ?w = ?hs"
      and e: "pool_entries ?w = (pool_entries w)(key \<mapsto> (a, refs - 1))" by (simp_all add: others(6))
    have "owned_scope ?w = owned_scope w"
      using h others(2-4) by (auto simp: owned_scope_def fun_eq_iff others(6) nth_list_update split: scope_owner.splits)
    with w(1) have "owners_ok ?w" by (rule owners_same) (simp_all add: s)
    moreover have "counts_ok ?w" unfolding counts_ok_def hs e
    proof (intro conjI allI impI)
      show "entry_ok (((pool_entries w)(key \<mapsto> (a, refs - 1))) k) (holder_count k ?hs)" if "k \<noteq> []" for k
        using entry_okD[OF w(2) that] count[OF others(1), of k] others(2,4,5) by (cases "k = key") auto
    qed (use w(2) others(3) in \<open>simp add: counts_ok_def\<close>)
    moreover have "holder_ok ?w l" if "l \<in> set (holders ?w)" for l
    proof (rule holds)
      show "l \<in> set ?hs" using that by (simp add: hs)
      show "scopes ?w = scopes w \<or> (\<exists>a. scopes ?w = (scopes w)[a := close_pool_scope (scopes w ! a)])"
        using s by blast
      show "lookup_scope (holder_key m) ?w = Some (holder_scope m) \<or> scope_done (scopes ?w ! holder_scope m)"
        if "lookup_scope (holder_key m) w = Some (holder_scope m)" for m
        using that others(4) by (cases "holder_key m = key") (auto simp: lookup_scope_def e)
    qed
    ultimately show ?thesis by (simp add: relay_pools_ok_def leases_ok_def)
  qed
qed

lemma change_pool_ok:
  assumes ok: "relay_pools_ok w" and a: "a < length (scopes w)"
    and s: "scope_ok s" "scope_done s = scope_done (scopes w ! a)"
  shows "relay_pools_ok (w\<lparr>scopes := (scopes w)[a := s]\<rparr>)"
proof -
  let ?w = "w\<lparr>scopes := (scopes w)[a := s]\<rparr>"
  note w = relay_pools_okD[OF ok]
  have same: "scope_done (scopes ?w ! b) = scope_done (scopes w ! b)" for b
    using a s(2) by (cases "a = b") simp_all
  have "owned_scope ?w = owned_scope w" by (auto simp: owned_scope_def fun_eq_iff split: scope_owner.splits)
  with w(1) have "owners_ok ?w"
  proof (rule owners_same)
    show "scope_ok (scopes ?w ! b) \<and> scope_done (scopes ?w ! b) = scope_done (scopes w ! b)"
      if "b < length (scopes w)" "scope_ok (scopes w ! b)" for b
      using that s(1) same[of b] by (cases "b = a") simp_all
  qed simp
  moreover have "counts_ok ?w" using w(2) by (simp add: counts_ok_def)
  moreover have "holder_ok ?w l" if "l \<in> set (holders w)" for l
    using w(3)[OF that] same by (simp add: holder_ok_def lookup_scope_def)
  ultimately show ?thesis by (simp add: relay_pools_ok_def leases_ok_def)
qed

lemma scope_step_ok:
  assumes "scope_step ev w = Some w'" and ok: "relay_pools_ok w"
  shows "relay_pools_ok w'"
proof (cases ev)
  case (In_tls a pe)
  with assms(1) obtain s where s: "a < length (scopes w)" "pe \<noteq> Shuts"
    "pool_step pe (scope_tls (scopes w ! a)) = Some s" "w' = w\<lparr>scopes := (scopes w)[a := (scopes w ! a)\<lparr>scope_tls := s\<rparr>]\<rparr>"
    by (auto simp: scope_step_def split: if_splits)
  have "scope_ok (scopes w ! a)" using ok s(1) by (simp add: relay_pools_ok_def owners_ok_def)
  then have "scope_ok ((scopes w ! a)\<lparr>scope_tls := s\<rparr>)"
    using tls_fence.ok_step[OF s(3)] tls_fence.closed_step[OF s(3)] s(2) by (simp add: scope_ok_def)
  then show ?thesis unfolding s(4) by (intro change_pool_ok[OF ok s(1)]) simp_all
next
  case (In_quic a qe)
  with assms(1) obtain s where s: "a < length (scopes w)" "qe \<noteq> Quic_shuts"
    "quic_step qe (scope_quic (scopes w ! a)) = Some s" "w' = w\<lparr>scopes := (scopes w)[a := (scopes w ! a)\<lparr>scope_quic := s\<rparr>]\<rparr>"
    by (auto simp: scope_step_def split: if_splits)
  have "scope_ok (scopes w ! a)" using ok s(1) by (simp add: relay_pools_ok_def owners_ok_def)
  then have "scope_ok ((scopes w ! a)\<lparr>scope_quic := s\<rparr>)"
    using quic_fence.ok_step[OF s(3)] quic_fence.closed_step[OF s(3)] s(2) by (simp add: scope_ok_def)
  then show ?thesis unfolding s(4) by (intro change_pool_ok[OF ok s(1)]) simp_all
qed (use assms(1) acquire_scope_ok[OF ok] fence_global_ok[OF ok] fence_server_ok[OF ok] closing_ok[OF ok] release_scope_ok[OF ok]
    in \<open>auto simp: scope_step_def split: if_splits\<close>)

lemma new_relay_pools_ok: "relay_pools_ok new_relay_pools"
  using new_pool_scope_ok
  by (auto simp: relay_pools_ok_def owners_ok_def leases_ok_def counts_ok_def new_relay_pools_def owned_scope_def
      holder_count_def new_pool_scope_def split: scope_owner.splits intro: exI[of _ Process])

lemma scope_steps_ok: "steps scope_step evs w = Some w' \<Longrightarrow> relay_pools_ok w \<Longrightarrow> relay_pools_ok w'"
  by (induction evs arbitrary: w) (auto split: option.splits dest: scope_step_ok)

subsection \<open>Fencing every server\<close>

text \<open>
  The servers of a generation that are not being closed hold the scope of its entry. It is so in the
  beginning, every step but the fence of a single server keeps it (\<open>in_sync_step\<close>), and so does a
  fence of all servers (\<open>fence_all_sync\<close>): it fails only where a fence reaches some of the servers
  of a generation, which happens when one of them is started while \<open>refreshTunnelSessions\<close> runs.
\<close>

definition in_sync :: "relay_pools \<Rightarrow> bool" where
  "in_sync w \<longleftrightarrow>
     (\<forall>l \<in> set (holders w). \<not> holder_closing l \<longrightarrow> holder_key l \<noteq> [] \<longrightarrow>
        lookup_scope (holder_key l) w = Some (holder_scope l))"

lemma in_sync_kept:
  assumes "in_sync w" and "\<And>l. l \<in> set (holders w') \<Longrightarrow> \<not> holder_closing l \<Longrightarrow> l \<in> set (holders w)"
    and "\<And>l. l \<in> set (holders w) \<Longrightarrow> \<not> holder_closing l \<Longrightarrow> holder_key l \<noteq> [] \<Longrightarrow>
      lookup_scope (holder_key l) w' = lookup_scope (holder_key l) w"
  shows "in_sync w'"
  using assms by (metis in_sync_def)

lemma holders_released:
  assumes "l \<in> set (ls[h := (ls ! h)\<lparr>holder_released := True\<rparr>])" and "holder_closing (ls ! h)" and "\<not> holder_closing l"
  shows "l \<in> set ls"
proof (cases "h < length ls")
  case True
  with assms(1) set_update_subset_insert[of ls h "(ls ! h)\<lparr>holder_released := True\<rparr>"]
  have "l = (ls ! h)\<lparr>holder_released := True\<rparr> \<or> l \<in> set ls" by blast
  with assms(2,3) show ?thesis by auto
qed (use assms(1) in \<open>simp add: list_update_beyond\<close>)

lemma in_sync_release:
  assumes ok: "relay_pools_ok w" and sync: "in_sync w" and h: "h < length (holders w)" "holder_closing (holders w ! h)"
  shows "in_sync (release_scope h w)"
  using sync
proof (rule in_sync_kept)
  show "l \<in> set (holders w)" if "l \<in> set (holders (release_scope h w))" "\<not> holder_closing l" for l
    using ok h(1) by (cases rule: release_scope_cases) (use that holders_released[OF _ h(2)] in auto)
  fix l assume l: "l \<in> set (holders w)" "\<not> holder_closing l" "holder_key l \<noteq> []"
  show "lookup_scope (holder_key l) (release_scope h w) = lookup_scope (holder_key l) w"
    using ok h(1)
  proof (cases rule: release_scope_cases)
    case (last key a)
    let ?held = "\<lambda>l. holder_key l = key \<and> \<not> holder_released l"
    have "holder_key l \<noteq> key"
    proof
      assume key: "holder_key l = key"
      have "\<not> holder_released l" using relay_pools_okD(3)[OF ok l(1)] l(2) by (auto simp: holder_ok_def)
      with l key h last(1,2) have "{holders w ! h, l} \<subseteq> set (filter ?held (holders w))" "holders w ! h \<noteq> l" by auto
      then have "2 \<le> card (set (filter ?held (holders w)))" by (metis List.finite_set card_2_iff card_mono)
      also have "\<dots> \<le> holder_count key (holders w)" unfolding holder_count_def by (rule card_length)
      finally show False using entry_okD[OF relay_pools_okD(2)[OF ok] last(3)] last(4) by simp
    qed
    with last(5) show ?thesis by (simp add: lookup_scope_def)
  qed (simp_all add: lookup_scope_def)
qed

lemma in_sync_acquire:
  assumes "in_sync w"
  shows "in_sync (acquire_scope key w)"
  unfolding in_sync_def
proof (intro ballI impI)
  let ?w = "acquire_scope key w"
  fix l assume l: "l \<in> set (holders ?w)" "\<not> holder_closing l" "holder_key l \<noteq> []"
  show "lookup_scope (holder_key l) ?w = Some (holder_scope l)"
  proof (cases "l \<in> set (holders w)")
    case True
    with assms l have "lookup_scope (holder_key l) w = Some (holder_scope l)" by (simp add: in_sync_def)
    then show ?thesis by (auto simp: acquire_scope_def lookup_scope_def split: option.splits)
  next
    case False
    have "l = last (holders ?w)" "holder_key (last (holders ?w)) = key"
      using False l(1) by (auto simp: acquire_scope_def split: if_splits option.splits)
    then show ?thesis using l(3) by (auto simp: acquire_scope_def lookup_scope_def split: option.splits)
  qed
qed

lemma in_sync_step:
  assumes step: "scope_step ev w = Some w'" and ok: "relay_pools_ok w" and sync: "in_sync w" and "\<And>h. ev \<noteq> Fences h"
  shows "in_sync w'"
proof (cases ev)
  case (Acquires key)
  with step show ?thesis using in_sync_acquire[OF sync, of key] by (simp add: scope_step_def)
next
  case (Server_closes h)
  then have w': "w' = update_holder h (\<lambda>l. l\<lparr>holder_closing := True\<rparr>) w"
    using step by (simp add: scope_step_def split: if_splits)
  show ?thesis unfolding w'
    using set_update_subset_insert[of "holders w" h]
    by (intro in_sync_kept[OF sync]) (fastforce simp: lookup_scope_def)+
next
  case (Server_releases h)
  with step in_sync_release[OF ok sync] show ?thesis by (auto simp: scope_step_def split: if_splits)
qed (use step assms(4) in
    \<open>auto simp: scope_step_def fence_global_def lookup_scope_def split: if_splits intro!: in_sync_kept[OF sync]\<close>)

text \<open>Some of the servers have been fenced: \<open>fenced\<close> are those that have.\<close>

definition fenced_key :: "relay_pools \<Rightarrow> nat set \<Rightarrow> string \<Rightarrow> bool" where
  "fenced_key w0 fenced key \<longleftrightarrow>
     (\<exists>h \<in> fenced. h < length (holders w0) \<and> \<not> holder_closing (holders w0 ! h) \<and> holder_key (holders w0 ! h) = key)"

definition fence_part :: "relay_pools \<Rightarrow> nat set \<Rightarrow> relay_pools \<Rightarrow> bool" where
  "fence_part w0 fenced w \<longleftrightarrow>
     relay_pools_ok w \<and> length (holders w) = length (holders w0) \<and>
     length (scopes w0) \<le> length (scopes w) \<and> length (scopes w0) \<le> global_scope w \<and>
     (\<forall>h < length (holders w0). \<exists>a.
        holders w ! h = (holders w0 ! h)\<lparr>holder_scope := a\<rparr> \<and>
        (holder_closing (holders w0 ! h) \<or> h \<notin> fenced \<longrightarrow> a = holder_scope (holders w0 ! h)) \<and>
        (\<not> holder_closing (holders w0 ! h) \<and> h \<in> fenced \<longrightarrow> length (scopes w0) \<le> a \<and>
           (holder_key (holders w0 ! h) \<noteq> [] \<longrightarrow> lookup_scope (holder_key (holders w0 ! h)) w = Some a))) \<and>
     (\<forall>key. key \<noteq> [] \<longrightarrow>
        (if fenced_key w0 fenced key
         then \<exists>a. lookup_scope key w = Some a \<and> length (scopes w0) \<le> a
         else lookup_scope key w = lookup_scope key w0))"

lemma fence_partD:
  assumes "fence_part w0 fenced w"
  shows "relay_pools_ok w" "length (holders w) = length (holders w0)"
    "length (scopes w0) \<le> length (scopes w)" "length (scopes w0) \<le> global_scope w"
    "\<And>h. h < length (holders w0) \<Longrightarrow> holders w ! h = (holders w0 ! h)\<lparr>holder_scope := holder_scope (holders w ! h)\<rparr>"
    "\<And>h. h < length (holders w0) \<Longrightarrow> holder_closing (holders w0 ! h) \<or> h \<notin> fenced \<Longrightarrow>
       holder_scope (holders w ! h) = holder_scope (holders w0 ! h)"
    "\<And>h. h < length (holders w0) \<Longrightarrow> \<not> holder_closing (holders w0 ! h) \<Longrightarrow> h \<in> fenced \<Longrightarrow>
       length (scopes w0) \<le> holder_scope (holders w ! h)"
    "\<And>h. h < length (holders w0) \<Longrightarrow> \<not> holder_closing (holders w0 ! h) \<Longrightarrow> h \<in> fenced \<Longrightarrow>
       holder_key (holders w0 ! h) \<noteq> [] \<Longrightarrow>
       lookup_scope (holder_key (holders w0 ! h)) w = Some (holder_scope (holders w ! h))"
    "\<And>key. key \<noteq> [] \<Longrightarrow> fenced_key w0 fenced key \<Longrightarrow>
       \<exists>a. lookup_scope key w = Some a \<and> length (scopes w0) \<le> a"
    "\<And>key. key \<noteq> [] \<Longrightarrow> \<not> fenced_key w0 fenced key \<Longrightarrow> lookup_scope key w = lookup_scope key w0"
  using assms unfolding fence_part_def by (auto; fastforce)+

lemma fence_part_start:
  assumes ok: "relay_pools_ok w"
  shows "fence_part w {} (fence_global w)"
proof -
  have "holders (fence_global w) = holders w" "pool_entries (fence_global w) = pool_entries w"
    "global_scope (fence_global w) = length (scopes w)" "length (scopes (fence_global w)) = Suc (length (scopes w))"
    by (simp_all add: fence_global_def close_scope_def)
  then show ?thesis using fence_global_ok[OF ok] by (simp add: fence_part_def fenced_key_def lookup_scope_def)
qed

lemma fenced_key_insert:
  "h < length (holders w0) \<Longrightarrow> fenced_key w0 (insert h fenced) key \<longleftrightarrow>
     fenced_key w0 fenced key \<or> \<not> holder_closing (holders w0 ! h) \<and> holder_key (holders w0 ! h) = key"
  by (auto simp: fenced_key_def)

lemma fence_part_step:
  assumes part: "fence_part w0 fenced w" and h: "h < length (holders w0)" "h \<notin> fenced"
    and ok0: "relay_pools_ok w0" and sync: "in_sync w0"
  shows "fence_part w0 (insert h fenced) (fence_server h w)"
proof -
  note w = fence_partD[OF part]
  let ?l0 = "holders w0 ! h" and ?n0 = "length (scopes w0)"
  have hw: "h < length (holders w)" using h w(2) by simp
  have l: "holders w ! h = ?l0" using w(5,6)[OF h(1)] h(2) by simp
  have l0: "holder_ok w0 ?l0" using relay_pools_okD(3)[OF ok0] h(1) by simp
  then have old: "holder_scope ?l0 < ?n0" by (simp add: holder_ok_def)
  show ?thesis
  proof (cases "holder_closing ?l0")
    case True
    then have "fence_server h w = w" by (simp add: fence_server_def l)
    moreover have "fenced_key w0 (insert h fenced) = fenced_key w0 fenced"
      using True h(1) by (simp add: fun_eq_iff fenced_key_insert)
    ultimately show ?thesis using part True unfolding fence_part_def
      by (auto 0 3 simp: insert_iff)
  next
    case alive: False
    let ?w = "fence_server h w"
    have ok: "relay_pools_ok ?w" by (rule fence_server_ok[OF w(1) hw])
    have upd: "fence_part w0 (insert h fenced) ?w"
      if hs: "holders ?w = (holders w)[h := ?l0\<lparr>holder_scope := a\<rparr>]" and a: "?n0 \<le> a"
        and len: "length (scopes w) \<le> length (scopes ?w)" and g: "global_scope ?w = global_scope w"
        and key: "holder_key ?l0 \<noteq> [] \<Longrightarrow> lookup_scope (holder_key ?l0) ?w = Some a"
        and keys: "\<And>k. k \<noteq> [] \<Longrightarrow> k \<noteq> holder_key ?l0 \<Longrightarrow> lookup_scope k ?w = lookup_scope k w"
        and same: "\<And>b. fenced_key w0 fenced (holder_key ?l0) \<Longrightarrow> holder_key ?l0 \<noteq> [] \<Longrightarrow>
            lookup_scope (holder_key ?l0) ?w = lookup_scope (holder_key ?l0) w" for a
      unfolding fence_part_def
    proof (intro conjI allI impI)
      show "relay_pools_ok ?w" "length (holders ?w) = length (holders w0)" "?n0 \<le> length (scopes ?w)"
        "?n0 \<le> global_scope ?w" using ok w(2,3,4) hs len g by simp_all
      fix i assume i: "i < length (holders w0)"
      show "\<exists>a. holders ?w ! i = (holders w0 ! i)\<lparr>holder_scope := a\<rparr> \<and>
        (holder_closing (holders w0 ! i) \<or> i \<notin> insert h fenced \<longrightarrow> a = holder_scope (holders w0 ! i)) \<and>
        (\<not> holder_closing (holders w0 ! i) \<and> i \<in> insert h fenced \<longrightarrow> ?n0 \<le> a \<and>
           (holder_key (holders w0 ! i) \<noteq> [] \<longrightarrow> lookup_scope (holder_key (holders w0 ! i)) ?w = Some a))"
      proof (cases "i = h")
        case True
        then show ?thesis using hs hw alive a key by (intro exI[of _ a]) simp
      next
        case False
        have at: "holders ?w ! i = holders w ! i" using False by (simp add: hs)
        have look: "lookup_scope (holder_key (holders w0 ! i)) ?w = Some (holder_scope (holders w ! i))"
          if i': "\<not> holder_closing (holders w0 ! i)" "i \<in> fenced" "holder_key (holders w0 ! i) \<noteq> []"
        proof (cases "holder_key (holders w0 ! i) = holder_key ?l0")
          case True
          with i' i have "fenced_key w0 fenced (holder_key ?l0)" by (auto simp: fenced_key_def)
          with same True w(8)[OF i i'] i'(3) show ?thesis by simp
        qed (use keys w(8)[OF i i'] i'(3) in simp)
        show ?thesis
          using w(5-7)[OF i] look False unfolding at
          by (intro exI[of _ "holder_scope (holders w ! i)"]) auto
      qed
    next
      fix k :: string assume k: "k \<noteq> []"
      show "if fenced_key w0 (insert h fenced) k
         then \<exists>a. lookup_scope k ?w = Some a \<and> ?n0 \<le> a
         else lookup_scope k ?w = lookup_scope k w0"
      proof (cases "k = holder_key ?l0")
        case True
        with k key a alive h(1) show ?thesis by (simp add: fenced_key_insert)
      next
        case False
        with w(9,10)[OF k] keys[OF k] h(1) show ?thesis by (auto simp: fenced_key_insert)
      qed
    qed
    from w(1) hw alive l have "\<not> holder_closing (holders w ! h)" by simp
    with w(1) hw show ?thesis
    proof (cases rule: fence_server_cases)
      case own
      show ?thesis
        by (rule upd[of "length (scopes w)"]) (use own w(3) in \<open>simp_all add: l lookup_scope_def\<close>)
    next
      case (first key a refs)
      from first(1,2,3,4) l have e: "lookup_scope (holder_key ?l0) w = Some (holder_scope ?l0)" by (simp add: lookup_scope_def)
      have "\<not> fenced_key w0 fenced (holder_key ?l0)"
      proof
        assume "fenced_key w0 fenced (holder_key ?l0)"
        with w(9)[of "holder_key ?l0"] first(1,2) l e old show False by auto
      qed
      then show ?thesis
        by (intro upd[of "length (scopes w)"]) (use first w(3) in \<open>simp_all add: l lookup_scope_def\<close>)
    next
      case (behind key a refs)
      from behind(1-3) l have e: "lookup_scope (holder_key ?l0) w = Some a" "holder_key ?l0 \<noteq> []"
        by (simp_all add: lookup_scope_def)
      have "fenced_key w0 fenced (holder_key ?l0)"
      proof (rule ccontr)
        assume "\<not> ?thesis"
        with w(10)[OF e(2)] e(1) have "lookup_scope (holder_key ?l0) w0 = Some a" by simp
        moreover have "lookup_scope (holder_key ?l0) w0 = Some (holder_scope ?l0)"
          using sync h(1) alive e(2) by (simp add: in_sync_def)
        ultimately show False using behind(4) l by simp
      qed
      with w(9)[OF e(2)] e(1) have "?n0 \<le> a" by auto
      then show ?thesis
        by (intro upd[of a]) (use behind(6) e in \<open>simp_all add: l lookup_scope_def\<close>)
    qed
  qed
qed

lemma fence_part_fold:
  assumes "relay_pools_ok w0" and "in_sync w0"
  shows "fence_part w0 fenced w \<Longrightarrow> distinct order \<Longrightarrow> set order \<subseteq> {..<length (holders w0)} \<Longrightarrow>
    set order \<inter> fenced = {} \<Longrightarrow> fence_part w0 (fenced \<union> set order) (fold fence_server order w)"
proof (induction order arbitrary: fenced w)
  case (Cons h order)
  have "fence_part w0 (insert h fenced) (fence_server h w)"
    using Cons.prems assms by (intro fence_part_step) auto
  from Cons.IH[OF this] Cons.prems show ?case by simp
qed simp

lemma fence_all_part:
  assumes "relay_pools_ok w" and "in_sync w" and "distinct order" and "set order = {..<length (holders w)}"
  shows "fence_part w {..<length (holders w)} (fence_all order w)"
  using fence_part_fold[OF assms(1,2) fence_part_start[OF assms(1)] assms(3)] assms(4)
  by (simp add: fence_all_def)

text \<open>
  A scope from before the fence is still open only for a server that is being closed and has not
  released it, and a server that is not holds an open scope made by the fence.
\<close>

definition leaving_with :: "relay_pools \<Rightarrow> nat \<Rightarrow> scope_holder \<Rightarrow> bool" where
  "leaving_with w a l \<longleftrightarrow>
     holder_closing l \<and> \<not> holder_released l \<and>
     (if holder_key l = [] then holder_scope l = a else lookup_scope (holder_key l) w = Some a)"

lemma fence_all_retires:
  assumes ok: "relay_pools_ok w" and sync: "in_sync w" and order: "distinct order" "set order = {..<length (holders w)}"
    and a: "a < length (scopes w)" and alive: "\<not> scope_done (scopes (fence_all order w) ! a)"
  shows "\<exists>l \<in> set (holders w). leaving_with w a l"
proof -
  let ?w = "fence_all order w"
  note part = fence_partD[OF fence_all_part[OF ok sync order]]
  note inv = relay_pools_okD[OF part(1)]
  from a part(3) have "a < length (scopes ?w)" by simp
  with inv(1) alive obtain x where x: "owned_scope ?w x = Some a" by (auto simp: owners_ok_def)
  have same: "holder_key (holders ?w ! h) = holder_key (holders w ! h)"
    "holder_released (holders ?w ! h) = holder_released (holders w ! h)" if "h < length (holders w)" for h
    using part(5)[OF that]
    by (metis scope_holder.select_convs(1,4) scope_holder.surjective scope_holder.update_convs(2))+
  show ?thesis
  proof (cases x)
    case Process
    with x part(4) a show ?thesis by (simp add: owned_scope_def)
  next
    case (Generation key)
    then obtain refs where e: "pool_entries ?w key = Some (a, refs)" using x by (auto simp: owned_scope_def)
    with inv(2) have key: "key \<noteq> []" by (auto simp: counts_ok_def)
    from entry_okD[OF inv(2) this] e have "holder_count key (holders ?w) \<noteq> 0" by auto
    then obtain l where "l \<in> set (holders ?w)" "holder_key l = key" "\<not> holder_released l"
      by (auto simp: holder_count_def filter_empty_conv)
    then obtain h where h: "h < length (holders w)" "holder_key (holders ?w ! h) = key" "\<not> holder_released (holders ?w ! h)"
      using part(2) by (metis in_set_conv_nth)
    have open_key: "\<not> fenced_key w {..<length (holders w)} key"
      using part(9)[OF key] e a by (auto simp: lookup_scope_def)
    then have "holder_closing (holders w ! h)" using h same[OF h(1)] by (auto simp: fenced_key_def)
    moreover have "lookup_scope key w = Some a" using part(10)[OF key open_key] e by (simp add: lookup_scope_def)
    ultimately have "leaving_with w a (holders w ! h)" using h same[OF h(1)] key by (simp add: leaving_with_def)
    with h(1) show ?thesis by (meson nth_mem)
  next
    case (Private h)
    with x part(2) have h: "h < length (holders w)" "\<not> holder_released (holders ?w ! h)"
      "holder_scope (holders ?w ! h) = a" "holder_key (holders ?w ! h) = []"
      by (auto simp: owned_private)
    with part(7)[OF h(1)] a have closing: "holder_closing (holders w ! h)" by auto
    with part(6)[OF h(1)] h same[OF h(1)] have "leaving_with w a (holders w ! h)" by (simp add: leaving_with_def)
    with h(1) show ?thesis by (meson nth_mem)
  qed
qed

lemma fence_all_sync:
  assumes ok: "relay_pools_ok w" and sync: "in_sync w" and order: "distinct order" "set order = {..<length (holders w)}"
  shows "relay_pools_ok (fence_all order w)" and "in_sync (fence_all order w)"
    and "\<And>h. h < length (holders w) \<Longrightarrow> \<not> holder_closing (holders w ! h) \<Longrightarrow>
      \<not> scope_done (scopes (fence_all order w) ! holder_scope (holders (fence_all order w) ! h))"
proof -
  let ?w = "fence_all order w"
  note part = fence_partD[OF fence_all_part[OF ok sync order]]
  show ok': "relay_pools_ok ?w" by (rule part(1))
  have same: "holder_key (holders ?w ! h) = holder_key (holders w ! h)"
    "holder_closing (holders ?w ! h) = holder_closing (holders w ! h)"
    "holder_released (holders ?w ! h) = holder_released (holders w ! h)" if "h < length (holders w)" for h
    using part(5)[OF that]
    by (metis scope_holder.select_convs(1,3,4) scope_holder.surjective scope_holder.update_convs(2))+
  show "in_sync ?w" unfolding in_sync_def
  proof (intro ballI impI)
    fix l assume "l \<in> set (holders ?w)" and l: "\<not> holder_closing l" "holder_key l \<noteq> []"
    then obtain h where h: "h < length (holders w)" "l = holders ?w ! h" using part(2) by (metis in_set_conv_nth)
    with l same part(8)[OF h(1)] show "lookup_scope (holder_key l) ?w = Some (holder_scope l)" by simp
  qed
  note inv = relay_pools_okD[OF ok']
  fix h assume h: "h < length (holders w)" "\<not> holder_closing (holders w ! h)"
  show "\<not> scope_done (scopes ?w ! holder_scope (holders ?w ! h))"
  proof (cases "holder_key (holders w ! h) = []")
    case True
    have "holder_ok w (holders w ! h)" using relay_pools_okD(3)[OF ok] h(1) by simp
    with h(2) have "\<not> holder_released (holders w ! h)" by (auto simp: holder_ok_def)
    with True h part(2) same have "owned_scope ?w (Private h) = Some (holder_scope (holders ?w ! h))"
      by (simp add: owned_private)
    with inv(1) show ?thesis unfolding owners_ok_def by blast
  next
    case False
    from part(8)[OF h _ False] h(1) have "owned_scope ?w (Generation (holder_key (holders w ! h))) = Some (holder_scope (holders ?w ! h))"
      by (simp add: owned_scope_def lookup_scope_def)
    with inv(1) show ?thesis unfolding owners_ok_def by blast
  qed
qed

text \<open>
  A server that a fence has missed can be left with a closed scope by all later fences: it adopts
  the scope of its generation just before another server replaces it.
\<close>

lemma stranded_server:
  "\<exists>w. steps scope_step [Acquires ''g'', Acquires ''g'', Fences 0] new_relay_pools = Some w \<and>
    \<not> in_sync w \<and> scope_done (scopes w ! holder_scope (holders w ! 1)) \<and>
    \<not> scope_done (scopes (fence_all [0, 1] w) ! holder_scope (holders (fence_all [0, 1] w) ! 1)) \<and>
    scope_done (scopes (fence_all [1, 0] w) ! holder_scope (holders (fence_all [1, 0] w) ! 1))"
  by (simp add: scope_step_def acquire_scope_def new_relay_pools_def add_holder_def make_scope_def
      fence_server_def rotate_scope_def update_holder_def close_scope_def close_pool_scope_def new_pool_scope_def
      Let_def in_sync_def lookup_scope_def fence_all_def fence_global_def)

text \<open>
  Worse, when the servers that rotated the entry are gone, the next fence leaves its scope, and with
  it the connections from before the fence, to the server that was missed.
\<close>

lemma missed_fence_keeps_connections:
  "\<exists>w. steps scope_step [Acquires ''g'', Acquires ''g'', Fences 0, In_quic 2 (Quic_dialed ''k'' (Inr False)),
        Server_closes 0, Server_releases 0] new_relay_pools = Some w \<and>
    quic_live (scope_quic (scopes w ! 2)) 0 \<and> quic_live (scope_quic (scopes (fence_all [0, 1] w) ! 2)) 0"
  by (simp add: scope_step_def acquire_scope_def new_relay_pools_def add_holder_def make_scope_def
      fence_server_def rotate_scope_def update_holder_def close_scope_def close_pool_scope_def new_pool_scope_def
      release_scope_def quic_step_def quic_get_or_dial_end_def quic_store_def new_quic_conn_def quic_live_def
      new_quic_pool_def Let_def lookup_scope_def fence_all_def fence_global_def numeral_2_eq_2)

end
