(* ===== verification/RelayProps.thy ===== *)
theory RelayProps
  imports RelayMask RelayTunnel RelayScopeInv
begin

text \<open>
  The properties of the relay: from the frames a sender writes, over a masked connection that may
  fail and deliver any part of what was sent, to the bytes that the streams of the receiving
  tunnel hand to their readers.
\<close>

subsection \<open>Frames over a connection\<close>

lemma segment_take: "n \<le> k \<Longrightarrow> segment m n (take k xs) = segment m n xs"
  by (simp add: segment_def min_def)

lemma segment_map: "segment m n (map f xs) = map f (segment m n xs)"
  by (simp add: segment_def take_map drop_map)

text \<open>
  C24. Mux frames written to a masked connection whose writes may split as they like but do not
  fail are read back by the unmasking reader as they were sent, however the bytes are split on
  arrival, and then the end of the connection is reported.
\<close>

theorem masked_frames_roundtrip:
  assumes "sent c = []"
    and "send_frames (write_mux_frame (mask_write conn_write)) (new_mask_writer draws clock c cfg) fs = (None, w)"
    and "\<forall>f \<in> set fs. length (fr_payload f) \<le> max_mux_payload_bytes"
    and "incoming r = sent (mw_writer w)"
  shows "\<exists>x r'. receive_frames (read_mux_frame (mask_read peek conn_read)) (new_mask_reader clock' r cfg False) =
      Some (map with_version fs, x, r') \<and> cut_short (ending r) x"
  using masked_frames_delivered[OF assms(1-3), of r "length (sent (mw_writer w))" peek clock'] assms(4)
  by fastforce

definition one_byte_mask :: mask_config where
  "one_byte_mask = \<lparr>max_bytes = 1, max_writes = 1, seed = 1\<rparr>"

definition hello_frame :: mux_frame where
  "hello_frame = \<lparr>fr_version = 0, fr_type = mux_data, fr_flags = 0, fr_stream = 1, fr_payload = [7, 8]\<rparr>"

definition hello_wire :: "byte list" where
  "hello_wire = [1, 0, 1, 1, 2, 0, 1, 0, 3, 0, 0, 3, 0, 0, 0, 0, 1, 0, 0, 0, 2, 7, 8]"

lemma hello_sent:
  "\<exists>w. send_frames (write_mux_frame (mask_write conn_write))
      (new_mask_writer (\<lambda>_. []) 0 \<lparr>sent = [], outcomes = []\<rparr> one_byte_mask) [hello_frame] = (None, w) \<and>
     sent (mw_writer w) = hello_wire"
  by (simp add: write_mux_frame_def hello_frame_def with_version_def mux_protocol_version_def frame_sizes
      mux_header_def be32_def write_all.simps[of "mask_write conn_write"] mask_write_def
      new_mask_writer_def normalize_mask_config_def one_byte_mask_def Let_def window_spent_def
      write_masked_chunks.simps[of conn_write] chunk_size_def max_data_frame_bytes_def obfs_out_def
      write_obfs_frame_def be16_def wants_pad_def intn_def write_pad_def random_bytes_def
      then_do_def wrote_def close_window_def plain_out_def obfs_data_def obfs_pad_def obfs_end_def
      max_pad_frame_bytes_def hello_wire_def mux_data_def)

lemma hello_fits: "\<forall>f \<in> set [hello_frame]. length (fr_payload f) \<le> max_mux_payload_bytes"
  by (simp add: hello_frame_def frame_sizes)

definition hello_feed :: feed where
  "hello_feed = \<lparr>incoming = hello_wire, pieces = [1, 5], ending = End_Of_File\<rparr>"

theorem masked_frames_roundtrip_witness:
  "\<exists>x r'. receive_frames (read_mux_frame (mask_read (\<lambda>_. None) conn_read))
      (new_mask_reader 0 hello_feed one_byte_mask False) = Some ([hello_frame\<lparr>fr_version := 1\<rparr>], x, r') \<and>
    cut_short End_Of_File x"
proof -
  obtain w where w: "send_frames (write_mux_frame (mask_write conn_write))
      (new_mask_writer (\<lambda>_. []) 0 \<lparr>sent = [], outcomes = []\<rparr> one_byte_mask) [hello_frame] = (None, w)"
    "sent (mw_writer w) = hello_wire" using hello_sent by blast
  have "map with_version [hello_frame] = [hello_frame\<lparr>fr_version := 1\<rparr>]"
    by (simp add: with_version_def hello_frame_def mux_protocol_version_def)
  with masked_frames_roundtrip[OF _ w(1) hello_fits, of hello_feed "\<lambda>_. None" 0] w(2)
  show ?thesis by (simp add: hello_feed_def)
qed

subsection \<open>The bytes of a stream\<close>

text \<open>
  C23. Whatever fails while frames are written to a masked connection, and whatever part of it
  arrives and in which pieces: if a tunnel handles frames in the order in which they were read, in
  any interleaving with its streams, then what a stream that is not \<open>lossy\<close> has handed to its readers
  is a prefix of the data frames of its number that were written, from the frame before which it was
  opened.

  A stream becomes \<open>lossy\<close> in two ways, and the claim is about streams to which neither has
  happened: its own \<open>Close\<close> or \<open>CloseRead\<close> discards the chunks that are queued, and
  \<open>appendDataChunk\<close> drops the chunk that waits for room when it sees the tunnel closed. After the
  latter the claim is false: \<open>append_close_gap\<close> of \<open>RelayStream\<close> hands a reader bytes with a gap.
\<close>

theorem stream_reads_what_was_written:
  assumes "sent c = []"
    and "send_frames (write_mux_frame (mask_write conn_write)) (new_mask_writer draws clock c cfg) fs = (e, w)"
    and "\<forall>f \<in> set fs. length (fr_payload f) \<le> max_mux_payload_bytes"
    and "incoming r = take j (sent (mw_writer w))"
    and "receive_frames (read_mux_frame (mask_read peek conn_read)) (new_mask_reader clock' r cfg False) =
      Some (frames_of evs @ gs, x, r')"
    and "tunnel_run l admit evs (new_tunnel side) = Some t"
    and "a < length (links t)" and "\<not> lossy (links t ! a)"
  shows "\<exists>n later. n \<le> length fs \<and>
    data_of (stream_id (str (links t ! a))) (segment (opened_at t ! a) n fs) =
      received (links t ! a) @ later"
proof -
  obtain n where n: "frames_of evs @ gs = map with_version (take n fs)"
    using masked_frames_delivered[OF assms(1-4), of peek clock'] assms(5) by auto
  have h: "handled t = frames_of evs" using handled_run[OF assms(6)] by (simp add: new_tunnel_def)
  define k where "k = length (frames_of evs)"
  have "frames_of evs = take k (frames_of evs @ gs)" by (simp add: k_def)
  also have "\<dots> = map with_version (take k (take n fs))" unfolding n by (simp only: take_map)
  finally have evs: "frames_of evs = map with_version (take (min k n) fs)" by (simp add: min.commute)
  have "tunnel_ok l t" using tunnel_ok_run[OF assms(6) new_tunnel_ok] .
  from stream_bytes[OF this assms(7,8)] obtain m later where m: "m \<le> length (handled t)"
    "data_of (stream_id (str (links t ! a))) (segment (opened_at t ! a) m (handled t)) =
      received (links t ! a) @ later" by blast
  from m(1) have mk: "m \<le> min k n" "m \<le> length fs" unfolding h evs by auto
  with m(2) have "data_of (stream_id (str (links t ! a))) (segment (opened_at t ! a) m fs) =
      received (links t ! a) @ later"
    unfolding h evs by (simp only: segment_map data_of_with_version segment_take)
  with mk show ?thesis by blast
qed

definition hello_run :: "tunnel_event list" where
  "hello_run = [Opens, Frame (hello_frame\<lparr>fr_version := 1\<rparr>), At 0 Append_locks, At 0 (Read_called 1), At 0 (Read_locks 0)]"

lemma hello_run_ends:
  "\<exists>t. tunnel_run default_limits (\<lambda>_. True) hello_run (new_tunnel Client) = Some t \<and>
    length (links t) = 1 \<and> \<not> lossy (links t ! 0) \<and> received (links t ! 0) = [7]"
  by (simp add: hello_run_def tunnel_step_def loop_idle_def new_tunnel_def open_stream_def
      register_stream_def dispatch_def hello_frame_def mux_data_def mux_open_def mux_open_result_def
      mux_fin_def at_link_def link_step_def link_steps new_link_def new_stream_def from_loop_def
      append_section_def can_queue_def default_limits_def read_section_def received_def)

theorem stream_reads_what_was_written_witness:
  "\<exists>t n later. tunnel_run default_limits (\<lambda>_. True) hello_run (new_tunnel Client) = Some t \<and>
    received (links t ! 0) = [7] \<and> n \<le> 1 \<and>
    data_of (stream_id (str (links t ! 0))) (segment (opened_at t ! 0) n [hello_frame]) = [7] @ later"
proof -
  obtain w where w: "send_frames (write_mux_frame (mask_write conn_write))
      (new_mask_writer (\<lambda>_. []) 0 \<lparr>sent = [], outcomes = []\<rparr> one_byte_mask) [hello_frame] = (None, w)"
    "sent (mw_writer w) = hello_wire" using hello_sent by blast
  obtain t where t: "tunnel_run default_limits (\<lambda>_. True) hello_run (new_tunnel Client) = Some t"
    "0 < length (links t)" "\<not> lossy (links t ! 0)" "received (links t ! 0) = [7]"
    using hello_run_ends by (metis zero_less_one)
  obtain n x r' where got: "receive_frames (read_mux_frame (mask_read (\<lambda>_. None) conn_read))
      (new_mask_reader 0 hello_feed one_byte_mask False) = Some (map with_version (take n [hello_frame]), x, r')"
    "n = 1"
    using masked_frames_delivered[OF _ w(1) hello_fits, of hello_feed 23 "\<lambda>_. None" 0] w(2)
    by (auto simp: hello_feed_def hello_wire_def)
  have evs: "frames_of hello_run @ [] = map with_version (take n [hello_frame])"
    using got(2) by (simp add: hello_run_def with_version_def hello_frame_def mux_protocol_version_def)
  from stream_reads_what_was_written[OF _ w(1) hello_fits _ got(1)[folded evs] t(1-3), of 23] w(2) t(1,4)
  show ?thesis by (auto simp: hello_feed_def hello_wire_def)
qed



text \<open>
  C26. No wake-up of a reader is lost: from every state of a stream in which a \<open>Read\<close> is under way and
  there is data, an error or a chunk to come, the goroutines can make only boundedly many steps
  of their own, and when none is left the \<open>Read\<close> has returned.
\<close>

theorem waiting_read_returns:
  assumes "link_run l evs (new_link i) = Some k" and "in_read k" and "data_coming k"
    and "link_run l evs' k = Some k'" and "list_all own_step evs'"
  shows "length evs' \<le> work_left k \<and> (quiescent l k' \<longrightarrow> length (results k) < length (results k'))"
  using read_returns_eventually[OF link_ok_run[OF assms(1) link_ok_new] assms(2-5)] .

theorem waiting_read_returns_witness:
  "\<exists>k k'. link_run default_limits [Read_called 4, Read_locks 0, Data_arrives [7]] (new_link 1) = Some k \<and>
    link_run default_limits [Append_locks, Readable_notified, Read_wakes, Read_locks 0, Space_notified] k = Some k' \<and>
    length (results k) < length (results k')"
proof -
  have "\<exists>k k'. link_run default_limits [Read_called 4, Read_locks 0, Data_arrives [7]] (new_link 1) = Some k \<and>
    in_read k \<and> data_coming k \<and>
    link_run default_limits [Append_locks, Readable_notified, Read_wakes, Read_locks 0, Space_notified] k = Some k' \<and>
    quiescent default_limits k'"
    by (simp add: link_step_def link_steps append_section_def can_queue_def new_link_def new_stream_def
        default_limits_def read_section_def notify_readable_def notify_read_space_def in_read_def
        data_coming_def quiescent_def numeral_eq_Suc)
  then obtain k k' where k: "link_run default_limits [Read_called 4, Read_locks 0, Data_arrives [7]] (new_link 1) = Some k"
    "in_read k" "data_coming k"
    "link_run default_limits [Append_locks, Readable_notified, Read_wakes, Read_locks 0, Space_notified] k = Some k'"
    "quiescent default_limits k'" by blast
  have "list_all own_step [Append_locks, Readable_notified, Read_wakes, Read_locks 0, Space_notified]"
    by (simp add: own_step_def)
  from waiting_read_returns[OF k(1-4) this] k show ?thesis by blast
qed

text \<open>
  The error with which a stream is ended from the other side (the end of file of a FIN, or a reset)
  is reported only after every byte that arrived before it, unless this side has thrown bytes away
  or the tunnel was closed under a waiting \<open>Read\<close>.
\<close>

theorem end_after_data:
  assumes "link_run l evs (new_link i) = Some k" and "link_step l (Read_locks now) k = Some k'"
    and "results k' = results k @ [([], Some e)]" and "e \<noteq> Deadline_Exceeded"
    and "ended_with k = Some a" and "\<not> lossy k"
  shows "received k' = a"
  using read_error_after_data[OF link_ok_run[OF assms(1) link_ok_new] assms(2-6)] .

theorem end_after_data_witness:
  "\<exists>k k'. link_run default_limits [Data_arrives [7], Append_locks, Error_arrives End_Of_File, Read_called 4,
      Read_locks 0, Read_called 4] (new_link 1) = Some k \<and>
    link_step default_limits (Read_locks 0) k = Some k' \<and> received k' = [7]"
proof -
  have "\<exists>k k'. link_run default_limits [Data_arrives [7], Append_locks, Error_arrives End_Of_File, Read_called 4,
      Read_locks 0, Read_called 4] (new_link 1) = Some k \<and>
    link_step default_limits (Read_locks 0) k = Some k' \<and>
    results k' = results k @ [([], Some End_Of_File)] \<and> ended_with k = Some [7] \<and> \<not> lossy k"
    by (simp add: link_step_def link_steps append_section_def can_queue_def new_link_def new_stream_def
        default_limits_def set_read_error_def read_section_def numeral_eq_Suc)
  then show ?thesis using end_after_data[of default_limits _ 1 _ 0] by (metis io_error.distinct(9))
qed

subsection \<open>UDP packets\<close>

text \<open>
  C25. A UDP packet of less than 65536 bytes that was written arrives as it is; a longer one than 65536
  bytes is refused before anything is written; but a packet of exactly 65536 bytes, which the size
  check lets through, is announced with length 0: the peer reads an empty packet, and the payload
  is left in the stream, where the next read takes it for packets.
\<close>

theorem uot_packet_lengths:
  assumes "peer_write_packet conn_write c p = (e, c')"
    and "incoming r = drop (length (sent c)) (sent c') @ later"
  shows "if 65536 < length p then e \<noteq> None \<and> c' = c
    else e = None \<longrightarrow>
      (\<exists>r'. peer_read_packet conn_read r = Some (Inr (if length p = 65536 then [] else p), r') \<and>
        incoming r' = (if length p = 65536 then p @ later else later))"
proof (cases "65536 < length p")
  case True
  with assms(1) show ?thesis
    by (auto simp: peer_write_packet_def write_uot_packet_def write_uot_packet_into_def max_uot_packet_size_def)
next
  case small: False
  show ?thesis
  proof (cases e)
    case None
    have r: "incoming r = uot_bytes p @ later"
      using tcp_out.write_uot_packet_ok[of c p c'] assms None by (simp add: peer_write_packet_def)
    show ?thesis
    proof (cases "length p = 65536")
      case True
      have "(65536 :: 16 word) = 0" using word_exp_length_eq_0[where ?'a = 16] by simp
      then have "be16 65536 = be16 0" by (rule arg_cong)
      with True r have "incoming r = uot_bytes [] @ p @ later" by (simp add: uot_bytes_def)
      from tcp_in.uot.get_frame[OF _ _ this] True None show ?thesis by (auto simp: uot_legal_def)
    next
      case False
      from tcp_in.uot.get_frame[OF _ _ r] False small None show ?thesis by (auto simp: uot_legal_def)
    qed
  qed (use small in simp)
qed

theorem uot_packet_lengths_witness:
  "\<exists>r'. peer_read_packet conn_read \<lparr>incoming = [0, 2, 7, 8, 9], pieces = [1], ending = End_Of_File\<rparr> =
      Some (Inr [7, 8], r') \<and> incoming r' = [9]"
proof -
  have "peer_write_packet conn_write \<lparr>sent = [], outcomes = [Took 1]\<rparr> [7, 8] =
      (None, \<lparr>sent = [0, 2, 7, 8], outcomes = []\<rparr>)"
    by (simp add: peer_write_packet_def write_uot_packet_def write_uot_packet_into_def max_uot_packet_size_def
        uot_bytes_def be16_def write_all.simps[of conn_write] conn_write_def Let_def)
  from uot_packet_lengths[OF this, of "\<lparr>incoming = [0, 2, 7, 8, 9], pieces = [1], ending = End_Of_File\<rparr>" "[9]"]
  show ?thesis by simp
qed

subsection \<open>Outbound pools\<close>

text \<open>
  C28. However the calls of a tunnel pool, its dials, its tunnels and its streams interleave: a key has
  at most four tunnels, all different; every tunnel that is open is known to the pool, so that
  none leaks; the pending streams of a tunnel are the slots that have been reserved and not
  released; the admission error of \<open>getOrDial\<close> is never returned; and after the pool has been
  closed no tunnel is open.
\<close>

theorem pool_keeps_its_tunnels:
  assumes "steps pool_step evs pool_start = Some s" and "the_pool s = p"
  shows "length (sessions p key) \<le> 4 \<and> distinct (sessions p key) \<and>
    (\<forall>a < tunnels_made p. tunnel_gone (tunnel_at p a) \<or> (\<exists>key. a \<in> set (sessions p key))) \<and>
    pending_streams (tunnel_at p b) = int (slots_held b (reservations p)) \<and>
    Inl Admission_rejected \<notin> set (log s) \<and>
    (Shuts \<in> set evs \<longrightarrow> (\<forall>a < tunnels_made p. tunnel_gone (tunnel_at p a)))"
proof -
  have ok: "run_ok s" using tls_fence.ok_steps[OF assms(1) run_ok_start] .
  have none: "tunnel_gone (tunnel_at p a)" if "Shuts \<in> set evs" "a < tunnels_made p" for a
    using tls_fence.nothing_after_close[OF assms(1) run_ok_start that(1), of a] that(2) assms(2)
    by (simp add: tunnel_live_def)
  show ?thesis
    using ok none assms(2)
    unfolding run_ok_def pool_ok_but_def pool_keys_ok_def no_leak_def slots_ok_def sessions_per_key_def by blast
qed

theorem pool_keeps_its_tunnels_witness:
  "\<exists>s. steps pool_step [Gets ''k'' Class_bulk, Dialed ''k'' Class_bulk (Inr False), Gets ''k'' Class_interactive,
      Releases 0] pool_start = Some s \<and>
    sessions (the_pool s) ''k'' = [0] \<and> log s = [Inr 0, Inr 0] \<and>
    pending_streams (tunnel_at (the_pool s) 0) = 1 \<and> slots_held 0 (reservations (the_pool s)) = 1"
proof -
  have "\<exists>s. steps pool_step [Gets ''k'' Class_bulk, Dialed ''k'' Class_bulk (Inr False), Gets ''k'' Class_interactive,
      Releases 0] pool_start = Some s \<and>
    sessions (the_pool s) ''k'' = [0] \<and> log s = [Inr 0, Inr 0] \<and> pending_streams (tunnel_at (the_pool s) 0) = 1"
    by (simp add: pool_step_def Let_def get_or_dial_begin_def pool_start_def new_session_pool_def
        reserve_existing_def active_sessions_def get_or_dial_end_def store_or_reserve_def new_pool_tunnel_def
        change_tunnel_def sessions_per_key_def reserve_stream_slot_def log_answer_def acceptable_tunnels_def
        can_accept_traffic_class_def queued_writes_def buffered_bytes_def admission_queued_writes_def
        admission_buffered_bytes_def least_loaded_tunnel_def tls_tcp_load_def bulk_frame_size_def
        target_streams_per_session_def release_slot_def)
  then obtain s where s: "steps pool_step [Gets ''k'' Class_bulk, Dialed ''k'' Class_bulk (Inr False),
      Gets ''k'' Class_interactive, Releases 0] pool_start = Some s"
    "sessions (the_pool s) ''k'' = [0]" "log s = [Inr 0, Inr 0]" "pending_streams (tunnel_at (the_pool s) 0) = 1"
    by blast
  with pool_keeps_its_tunnels[OF s(1) refl, of "''k''" 0] show ?thesis by auto
qed

text \<open>
  Outbound connections do not outlive their servers: along every history of servers that start,
  share the pools of their generation, are fenced and close, and of calls on all pools, a scope
  with an open tunnel or QUIC connection is the one of the process, or the one a server uses that
  has not been released, its own or its generation's.
\<close>

theorem pools_follow_their_servers:
  assumes "steps scope_step evs new_relay_pools = Some w" and "a < length (scopes w)"
    and "\<not> scope_empty (scopes w ! a)"
  shows "a = global_scope w \<or>
    (\<exists>h < length (holders w). \<not> holder_released (holders w ! h) \<and>
       (if holder_key (holders w ! h) = [] then holder_scope (holders w ! h) = a
        else lookup_scope (holder_key (holders w ! h)) w = Some a))"
proof -
  note inv = relay_pools_okD[OF scope_steps_ok[OF assms(1) new_relay_pools_ok]]
  have "scope_ok (scopes w ! a)" using inv(1) assms(2) by (simp add: owners_ok_def)
  with assms(3) have "\<not> scope_done (scopes w ! a)" using scope_done_empty by blast
  with inv(1) assms(2) obtain x where x: "owned_scope w x = Some a" by (auto simp: owners_ok_def)
  show ?thesis
  proof (cases x)
    case (Generation key)
    with x obtain refs where e: "pool_entries w key = Some (a, refs)" by (auto simp: owned_scope_def)
    with inv(2) have key: "key \<noteq> []" by (auto simp: counts_ok_def)
    from entry_okD[OF inv(2) this] e have "holder_count key (holders w) \<noteq> 0" by auto
    then obtain l where "l \<in> set (holders w)" "holder_key l = key" "\<not> holder_released l"
      by (auto simp: holder_count_def filter_empty_conv)
    with key e show ?thesis by (auto simp: lookup_scope_def in_set_conv_nth)
  qed (use x in \<open>auto simp: owned_private, simp add: owned_scope_def\<close>)
qed

lemma two_servers:
  "\<exists>w. steps scope_step [Acquires ''g'', Acquires ''g'', In_tls 1 (Dialed ''k'' Class_bulk (Inr False))] new_relay_pools = Some w \<and>
    length (scopes w) = 2 \<and> global_scope w = 0 \<and> tunnel_live (scope_tls (scopes w ! 1)) 0 \<and> in_sync w \<and>
    holders w = replicate 2 \<lparr>holder_key = ''g'', holder_scope = 1, holder_closing = False, holder_released = False\<rparr>"
  by (simp add: scope_step_def acquire_scope_def new_relay_pools_def add_holder_def make_scope_def
      pool_step_def Let_def pool_start_def new_session_pool_def active_sessions_def get_or_dial_end_def
      store_or_reserve_def new_pool_tunnel_def change_tunnel_def sessions_per_key_def reserve_stream_slot_def
      log_answer_def new_pool_scope_def tunnel_live_def in_sync_def lookup_scope_def numeral_2_eq_2)

theorem pools_follow_their_servers_witness:
  "\<exists>w h. steps scope_step [Acquires ''g'', Acquires ''g'', In_tls 1 (Dialed ''k'' Class_bulk (Inr False))] new_relay_pools = Some w \<and>
    \<not> scope_empty (scopes w ! 1) \<and> h < length (holders w) \<and> \<not> holder_released (holders w ! h)"
proof -
  obtain w where w: "steps scope_step [Acquires ''g'', Acquires ''g'', In_tls 1 (Dialed ''k'' Class_bulk (Inr False))] new_relay_pools = Some w"
    "1 < length (scopes w)" "global_scope w = 0" "tunnel_live (scope_tls (scopes w ! 1)) 0"
    using two_servers by (metis one_less_numeral_iff semiring_norm(76))
  then have "\<not> scope_empty (scopes w ! 1)" by (auto simp: scope_empty_def)
  with pools_follow_their_servers[OF w(1,2)] w(1,3) show ?thesis by auto
qed

text \<open>
  C27. After any history of the pools of the relay servers: if, when \<open>refreshTunnelSessions\<close> starts,
  every server that is not being closed holds the current scope of its generation (\<open>in_sync\<close>), and
  the walk fences all servers, in whatever order, with no other step in between, then no tunnel and
  no QUIC connection from before the fence is open afterwards, but in a scope that belongs to a
  server that is being closed and has not released it, and every other server holds an open scope.

  The hypothesis \<open>in_sync\<close> holds unless an earlier walk has missed a server of a generation that it
  reached another server of (\<open>in_sync_step\<close>, \<open>fence_all_sync\<close>). Then the claim is false:
  \<open>stranded_server\<close> leaves a server with a closed pool, \<open>missed_fence_keeps_connections\<close> a
  connection from before the fence open.
\<close>

theorem fence_retires_connections:
  assumes "steps scope_step evs new_relay_pools = Some w" and "in_sync w"
    and "distinct order" and "set order = {..<length (holders w)}"
  shows "(\<forall>a < length (scopes w). scope_empty (scopes (fence_all order w) ! a) \<or>
       (\<exists>l \<in> set (holders w). leaving_with w a l)) \<and>
    (\<forall>h < length (holders w). holder_closing (holders w ! h) \<or>
       \<not> scope_done (scopes (fence_all order w) ! holder_scope (holders (fence_all order w) ! h)))"
proof -
  have ok: "relay_pools_ok w" by (rule scope_steps_ok[OF assms(1) new_relay_pools_ok])
  note inv = relay_pools_okD(1)[OF fence_all_sync(1)[OF ok assms(2-4)]]
  have len: "length (scopes w) \<le> length (scopes (fence_all order w))"
    by (rule fence_partD(3)[OF fence_all_part[OF ok assms(2-4)]])
  have "scope_empty (scopes (fence_all order w) ! a) \<or> (\<exists>l \<in> set (holders w). leaving_with w a l)"
    if a: "a < length (scopes w)" for a
  proof -
    have "scope_ok (scopes (fence_all order w) ! a)" using inv a len by (simp add: owners_ok_def)
    with scope_done_empty fence_all_retires[OF ok assms(2-4) a] show ?thesis by blast
  qed
  with fence_all_sync(3)[OF ok assms(2-4)] show ?thesis by blast
qed

theorem fence_retires_connections_witness:
  "\<exists>w. steps scope_step [Acquires ''g'', Acquires ''g'', In_tls 1 (Dialed ''k'' Class_bulk (Inr False))] new_relay_pools = Some w \<and>
    tunnel_live (scope_tls (scopes w ! 1)) 0 \<and> \<not> tunnel_live (scope_tls (scopes (fence_all [1, 0] w) ! 1)) 0 \<and>
    \<not> scope_done (scopes (fence_all [1, 0] w) ! holder_scope (holders (fence_all [1, 0] w) ! 1))"
proof -
  obtain w where w: "steps scope_step [Acquires ''g'', Acquires ''g'', In_tls 1 (Dialed ''k'' Class_bulk (Inr False))] new_relay_pools = Some w"
    "length (scopes w) = 2" "tunnel_live (scope_tls (scopes w ! 1)) 0" "in_sync w"
    "holders w = replicate 2 \<lparr>holder_key = ''g'', holder_scope = 1, holder_closing = False, holder_released = False\<rparr>"
    using two_servers by metis
  have len: "length (holders w) = 2" by (simp add: w(5))
  have order: "distinct [1, 0 :: nat]" "set [1, 0] = {..<length (holders w)}" by (auto simp: len)
  note fence = fence_retires_connections[OF w(1,4) order]
  have "\<not> leaving_with w 1 l" if "l \<in> set (holders w)" for l using that by (auto simp: w(5) leaving_with_def)
  with fence w(2) have "scope_empty (scopes (fence_all [1, 0] w) ! 1)"
    by (metis one_less_numeral_iff semiring_norm(76))
  then have "\<not> tunnel_live (scope_tls (scopes (fence_all [1, 0] w) ! 1)) 0" by (simp add: scope_empty_def)
  moreover have "\<not> holder_closing (holders w ! 1)" by (simp add: w(5))
  with fence len have "\<not> scope_done (scopes (fence_all [1, 0] w) ! holder_scope (holders (fence_all [1, 0] w) ! 1))"
    by (metis one_less_numeral_iff semiring_norm(76))
  ultimately show ?thesis using w by blast
qed

end
