(* ===== verification/Spec2Isabelle.thy ===== *)
theory Spec2Isabelle
  imports DepCoord GenDrainProps SyncProps ModProps BackProps RelayProps
begin

text \<open>
  nginx-reverse-emby is a reverse proxy that is run by a control plane (the panel) and by agents on
  the proxy hosts, both in Go. The panel keeps the desired configuration as numbered revisions; an agent
  leases its newest revision, applies it as a new generation of its runtime while the old generation
  drains, and reports back. Agents pass connections on to each other through relay tunnels. This development
  models the path from the panel's ledger to the agent's modules and sessions, the relay's tunnels, and the choice of
  backends. Paths below are under \<open>src/panel/backend-go/internal/controlplane/\<close> (panel) and
  \<open>src/go-agent/internal/\<close> (agent).

  \<^bold>\<open>Shared theories.\<close> \<open>Prelude\<close>: tables as lists of rows with gorm's filtered lookups and updates, time in
  nanoseconds, generic lemmas. \<open>GoText\<close>: Go's \<open>TrimSpace\<close>, \<open>ToLower\<close>, \<open>EqualFold\<close> and \<open>Itoa\<close> on byte strings.

  \<^bold>\<open>The revision ledger\<close> (panel, \<open>storage/revision_coordinator.go\<close>, rows of \<open>storage/sqlite_models.go\<close>).
  \<open>CoordStore\<close> holds the rows as records, the database \<open>db\<close> as one table per row type, transactions (an
  error keeps the old database) and the helpers inside a transaction. \<open>CoordDelay\<close> is the jittered retry
  delay with its \<open>float64\<close> rounding. \<open>CoordLease\<close> has \<open>ClaimLatestAgentRevision\<close>, \<open>StartAgentRevisionAttempt\<close>
  and \<open>BindAgentRevisionRuntime\<close>; \<open>CoordReport\<close> the reports of failure and application; \<open>CoordReconcile\<close>
  drains and reconciliation; \<open>CoordActions\<close> retry, rollback, journal adoption and retirement. One
  definition per transaction body, its guards in the order of the code, errors as values of \<open>coord_error\<close>.
  \<open>CoordInv\<close> states the invariant \<open>db_inv\<close> (unique keys, at most one active attempt and one active
  generation per agent, ordered pointers, bounded attempt counters), \<open>CoordSafe\<close> that every operation
  keeps it, \<open>CoordRun\<close> the step relation \<open>coord_step\<close> of all operations and what holds along every history,
  and \<open>CoordProps\<close> the promises of the single operations.

  \<^bold>\<open>The coordinator\<close> (panel, \<open>coordinator/coordinator.go\<close>), in \<open>Coordinator\<close>: a client of the ledger through the
  repository interface, which is the record \<open>repository\<close>; the locale \<open>reconciling_repository\<close> states the laws
  its claim loop relies on, and the interpretation \<open>ledger\<close> proves them for the ledger. The locale
  \<open>contended_repository\<close> has the laws of a ledger that other clients change between the calls of the loop
  (interpretation \<open>contended\<close>); under them two tries suffice unless the loop was overtaken. Clock, random source
  and id generator are functions of the number of reads.

  \<^bold>\<open>Dependency plans\<close> (panel, \<open>dependency/graph.go\<close>, \<open>dependency/snapshot.go\<close>, \<open>coordinator/dependency.go\<close>,
  \<open>storage/revision_dependency.go\<close>). An operation over several agents is a graph of agent revisions.
  \<open>DepPlan\<close> has \<open>NewPlan\<close>, \<open>Marshal\<close> and \<open>ParsePlan\<close>; \<open>DepCycle\<close> proves the cycle search correct and its fuel
  (the number of nodes) sufficient; \<open>DepPlanProps\<close> that plans are canonical, accepted exactly when valid,
  and survive storage; \<open>DepEval\<close> has \<open>Evaluate\<close>, whose fixpoint loop is a \<open>while_option\<close> proved to end, and
  the order of a rollout; \<open>DepSnapshot\<close> derives the plan from snapshots and proves it independent of the map
  iteration order; \<open>DepCoord\<close> claims leases along the plan (locale \<open>dependency_store\<close>, interpretation
  \<open>ledger_deps\<close> on the ledger).

  \<^bold>\<open>Generations on the agent\<close> (\<open>generation/registry.go\<close>, \<open>generation/controller.go\<close>). \<open>GenRegistry\<close> models the session
  registry: a heap of session records and the list of live ones, one operation per block under a mutex; the
  step relation \<open>registry_step\<close> interleaves them with the calls that are between two blocks, and the call of
  \<open>onEmpty\<close>, which \<open>finish\<close> makes after it has released the mutex, is a step of its own. \<open>GenForce\<close> has
  the loops that force-close sessions. \<open>GenDrain\<close> is the drain controller: activation, draining, forcing,
  cleanup with retries, the limit of two live generations, the sixteen remembered ones, and close.
  \<open>GenDrainInv\<close> states how entries, sessions, resources, timers and goroutines fit together inside and
  between operations, \<open>GenDrainStep\<close> that every operation keeps it, \<open>GenDrainProps\<close> the step relation
  \<open>drain_step\<close> and what holds in every run.

  \<^bold>\<open>Revision sync on the agent\<close> (\<open>core/sync_revision.go\<close>, \<open>core/sync_metadata.go\<close>, \<open>core/sync_update.go\<close>,
  \<open>core/runtime.go\<close>, \<open>core/generation_manager.go\<close>, \<open>model/revision.go\<close>). \<open>SyncJournal\<close> has the generation journal and
  the functions that check and compare its records; \<open>SyncWorld\<close> the runtime with its generation manager and
  drain controller, the durable store, the messages sent, and calls that may fail, may take effect although
  they fail, and before any of which the process may die; \<open>SyncRevision\<close> and \<open>SyncPlan\<close> the functions of the
  sync as programs of the state monad over that world, up to \<open>performRevisionSyncPlan\<close>. \<open>SyncProtocol\<close> is the
  abstract specification, a step relation on journal, log and runtime; \<open>SyncInv\<close> proves its invariant;
  \<open>SyncHoare\<close> has triples for programs that make protocol steps only, \<open>SyncRefine\<close> and \<open>SyncRounds\<close> one triple
  per function. The messages that the sync client sends itself, when it cannot prepare the
  datasets of a lease, are a log of their own (\<open>sw_client\<close>), and \<open>load_applied\<close> has the fallback of the file store to
  the last known good snapshot. The refinement holds for a panel that does not offer again a lease which the
  sync has started and left behind (\<open>offers_current\<close>); that is a hypothesis and not proved of the panel, whose
  \<open>currentRemoteLease\<close> offers a started attempt again until its deadline. \<open>SyncLive\<close> runs a round without errors to its end. \<open>SyncProps\<close> has the refinement and what follows
  for an agent over rounds, crashes and restarts.

  \<^bold>\<open>Modules and the generation manager\<close> (agent, \<open>module/registry.go\<close>, \<open>core/generation_manager.go\<close>). \<open>ModRegistry\<close> has
  descriptors, registration, the order of the modules and provider sets; \<open>ModOrder\<close> proves the order to be the least
  topological one. \<open>ModGeneration\<close> has candidates, transactions and views over a world in which they have
  identities, and \<open>Registry.Apply\<close>. \<open>ModManager\<close> is the manager over any generation source: the locale
  \<open>generation_interface\<close> states what it relies on, inside it \<open>apply\<close> always returns and refines \<open>manager_apply\<close> of
  \<open>SyncWorld\<close>. \<open>ModSource\<close> interprets the locale by the registry, with the balance of prepared and released
  transactions as invariant; \<open>ModProps\<close> has the step relation \<open>generation_step\<close> and the properties.

  \<^bold>\<open>The relay\<close> (agent, \<open>modules/relay/\<close>). \<open>RelayIO\<close> has Go's writers and readers, with locales \<open>byte_sink\<close> and
  \<open>byte_source\<close> for what they promise, interpreted for connections that may fail and split bytes as they
  like; \<open>RelayFrames\<close> the wire formats of \<open>mux_protocol.go\<close>, \<open>protocol.go\<close> and \<open>uot.go\<close> (locale \<open>frame_codec\<close>);
  \<open>RelayMask\<close> the early window mask of \<open>obfs_early_window.go\<close>, proved to be a writer and a reader again;
  \<open>RelayStream\<close> the buffer of a logical stream (\<open>tls_tcp_session_pool.go\<close>) with its two goroutines as a step
  relation, its back pressure and wake-ups; \<open>RelayTunnel\<close> the tunnel that hands frames to its streams, on both
  sides; \<open>RelayPool\<close> the pool of outbound tunnels; \<open>RelayScopes\<close> the pool of QUIC connections (\<open>session_pool.go\<close>) and
  the scopes that the servers of a generation share, fence and release (\<open>generation_pool.go\<close>, \<open>runtime.go\<close>), both
  pools under the contract \<open>fenced_pool\<close>; \<open>RelayScopeInv\<close> that every open scope has exactly one owner, what a fence of all
  servers retires, and how a server that a fence has missed escapes it. \<open>RelayProps\<close> follows bytes from a sender's frames through a failing, masked connection and the
  receiving tunnel to the readers.

  \<^bold>\<open>Backends\<close> (agent, \<open>model/backends_cache.go\<close>, \<open>backends_selection.go\<close>, \<open>backends_dns.go\<close>, \<open>backends_types.go\<close>). The
  proxies remember how their upstream addresses behave and order them by it. \<open>BackFloat\<close> has \<open>float64\<close>
  arithmetic as rationals rounded after every operation; \<open>BackObserve\<close> the observation of one candidate with
  its ring of hourly buckets (machine words, which wrap) and its recovery after a backoff; \<open>BackScore\<close> the scores;
  \<open>BackCache\<close> the cache with failure backoff, index and pruning; \<open>BackOrder\<close> the orders of the candidates;
  \<open>BackDns\<close> the shared lookups of host names as steps of any number of callers. \<open>BackRing\<close> proves the ring equal
  to the history of outcomes, \<open>BackKeep\<close> what every history of cache operations keeps and
  which keys the index can tell apart, \<open>BackRetry\<close> what \<open>IsInBackoff\<close> and the orders read of the same history, \<open>BackPick\<close> the orders equal
  to their reference, \<open>BackFresh\<close> the age of the answers; \<open>BackProps\<close> has the properties.

  \<^bold>\<open>Bounds and fuel.\<close> The cycle search gets as much fuel as the plan has nodes (proved enough); the claim loop
  makes two tries (as the code; proved enough unless it is overtaken by other clients or the clock); the loop of \<open>enforceLimit\<close> gets one
  round more than there are generations (proved enough, since every round takes another generation); the
  other loops are structural recursions or \<open>while_option\<close>s with a proof that they end.

  \<^bold>\<open>Not modelled.\<close> What the agent's modules do when they prepare, publish or destroy (their answers are parameters);
  the gate that holds back sessions registered during a publication. Wrap-around of \<open>int64\<close> revisions and durations; database, encoding and file errors of the
  panel; JSON text, SHA-256, \<open>filepath.Clean\<close>, the checks of \<open>PullRevision\<close> and the loading of runtime snapshots, which are parameters;
  Unicode case folding outside ASCII; deadlines of a caller's context before it gets a lock; the exact
  interleaving inside one run of a drain controller operation (its lifecycle lock serialises them), closing and
  destroying calls that never return, and an activation given up because its context is over; a panic of the
  resolver; metrics and
  logs; overflow of \<open>float64\<close> and clocks before 1970 in the backend cache, and \<open>math.Log1p\<close>, a parameter there; the ownership of pooled buffers in the relay, its write pump and its write deadlines. The rest of the panel (HTTP API, configuration services, plugins, marketplace, secrets, PKI) and of
  the agent (proxy engines, certificates, the relay's listeners and QUIC transport, plugins, hot restart, updates) is listed component by
  component in the manifest.
\<close>

end
